(* ===== verification/Prelude.thy ===== *)
theory Prelude
  imports Main "HOL-Library.Word" "HOL-Library.Monad_Syntax"
begin

text \<open>
  Shared vocabulary of the development: the machine integers and byte strings of the code, the
  error kinds of \<^verbatim>\<open>src/src/error.rs\<close>, the \<open>Result\<close> type of the decoders, and the generic lemmas
  on words and lists that the component theories use.

  Conventions. A Rust \<^verbatim>\<open>Result\<close> is \<open>('a, 'e) result\<close>. A panic (a failed assertion, an
  \<^verbatim>\<open>expect\<close>, an out-of-range index or a subtraction below zero) is \<open>None\<close> of an option around
  the value the code would have returned. Lengths, capacities and positions (\<^verbatim>\<open>usize\<close>) are
  \<open>nat\<close>; the target is 64-bit, so that a \<^verbatim>\<open>u64\<close> always converts to \<^verbatim>\<open>usize\<close>.
\<close>

unbundle bit_operations_syntax

section \<open>Machine integers and byte strings\<close>

type_synonym u8 = "8 word"
type_synonym u16 = "16 word"
type_synonym u32 = "32 word"
type_synonym u64 = "64 word"
type_synonym bytes = "u8 list"

section \<open>Errors and results\<close>

datatype decode_error_kind =
    Truncated | InvalidVarint | TagOverflowed | WrongWireType | OutOfDomainValue
  | InvalidValue | ConflictingFields | UnexpectedlyRepeated | ErrNotCanonical
  | ErrUnknownField | RecursionLimitReached | Oversize | OtherError

record encode_error =
  ee_required :: nat
  ee_remaining :: nat

datatype ('a, 'e) result = Ok (ok_value: 'a) | Err (err_value: 'e)

type_synonym 'a decoded = "('a, decode_error_kind) result"

primrec res_bind :: "('a, 'e) result \<Rightarrow> ('a \<Rightarrow> ('b, 'e) result) \<Rightarrow> ('b, 'e) result" where
  "res_bind (Ok x) f = f x"
| "res_bind (Err e) f = Err e"

primrec res_map :: "('a \<Rightarrow> 'b) \<Rightarrow> ('a, 'e) result \<Rightarrow> ('b, 'e) result" where
  "res_map f (Ok x) = Ok (f x)"
| "res_map f (Err e) = Err e"

primrec is_ok :: "('a, 'e) result \<Rightarrow> bool" where
  "is_ok (Ok x) = True"
| "is_ok (Err e) = False"

lemma res_bind_Ok_iff [simp]:
  "res_bind r f = Ok y \<longleftrightarrow> (\<exists>x. r = Ok x \<and> f x = Ok y)"
  by (cases r) auto

lemma res_bind_Err_iff:
  "res_bind r f = Err e \<longleftrightarrow> r = Err e \<or> (\<exists>x. r = Ok x \<and> f x = Err e)"
  by (cases r) auto

lemma res_map_Ok_iff [simp]: "res_map f r = Ok y \<longleftrightarrow> (\<exists>x. r = Ok x \<and> y = f x)"
  by (cases r) auto

lemma res_map_Err_iff [simp]: "res_map f r = Err e \<longleftrightarrow> r = Err e"
  by (cases r) auto

lemma is_ok_iff: "is_ok r \<longleftrightarrow> (\<exists>x. r = Ok x)"
  by (cases r) auto

text \<open>
  The outcome of a decoding step in the layers above the varint: a value, an error, or a panic.
  A decoder that reads from a buffer returns what is left of it with its value; the buffer of a
  failed decoding is not observed.
\<close>

datatype 'a outcome = Done 'a | Fail decode_error_kind | Panic

primrec obind :: "'a outcome \<Rightarrow> ('a \<Rightarrow> 'b outcome) \<Rightarrow> 'b outcome" where
  "obind (Done x) f = f x"
| "obind (Fail e) f = Fail e"
| "obind Panic f = Panic"

definition omap :: "('a \<Rightarrow> 'b) \<Rightarrow> 'a outcome \<Rightarrow> 'b outcome" where
  "omap f m = obind m (\<lambda>x. Done (f x))"

primrec from_option :: "'a option \<Rightarrow> 'a outcome" where
  "from_option (Some x) = Done x"
| "from_option None = Panic"

primrec from_result :: "'a decoded \<Rightarrow> 'a outcome" where
  "from_result (Ok x) = Done x"
| "from_result (Err e) = Fail e"

lemma obind_Done_iff [simp]: "obind m f = Done y \<longleftrightarrow> (\<exists>x. m = Done x \<and> f x = Done y)"
  by (cases m) auto

lemma obind_Fail_iff: "obind m f = Fail e \<longleftrightarrow> m = Fail e \<or> (\<exists>x. m = Done x \<and> f x = Fail e)"
  by (cases m) auto

lemma obind_Panic_iff: "obind m f = Panic \<longleftrightarrow> m = Panic \<or> (\<exists>x. m = Done x \<and> f x = Panic)"
  by (cases m) auto

lemma obind_not_Panic: "m \<noteq> Panic \<Longrightarrow> (\<And>x. m = Done x \<Longrightarrow> f x \<noteq> Panic) \<Longrightarrow> obind m f \<noteq> Panic"
  by (cases m) auto

lemma obind_assoc: "obind (obind m f) g = obind m (\<lambda>x. obind (f x) g)"
  by (cases m) auto

lemma omap_simps [simp]:
  "omap f (Done x) = Done (f x)" "omap f (Fail e) = Fail e" "omap f Panic = Panic"
  by (simp_all add: omap_def)

lemma omap_Done_iff [simp]: "omap f m = Done y \<longleftrightarrow> (\<exists>x. m = Done x \<and> y = f x)"
  by (cases m) auto

lemma omap_Panic_iff [simp]: "omap f m = Panic \<longleftrightarrow> m = Panic"
  by (cases m) auto

lemma from_option_Done [simp]: "from_option x = Done y \<longleftrightarrow> x = Some y"
  by (cases x) auto

lemma from_option_not_Fail [simp]: "from_option x \<noteq> Fail e"
  by (cases x) auto

lemma from_result_Done [simp]: "from_result x = Done y \<longleftrightarrow> x = Ok y"
  by (cases x) auto

lemma from_result_not_Panic [simp]: "from_result x \<noteq> Panic"
  by (cases x) auto

lemma if_Fail_Done [simp]:
  "(if P then Fail e else m) = Done y \<longleftrightarrow> \<not> P \<and> m = Done y"
  "(if P then m else Fail e) = Done y \<longleftrightarrow> P \<and> m = Done y"
  "(if P then m else Panic) = Done y \<longleftrightarrow> P \<and> m = Done y"
  by auto

lemma if_Fail_Panic [simp]:
  "(if P then Fail e else m) = Panic \<longleftrightarrow> \<not> P \<and> m = Panic"
  "(if P then m else Fail e) = Panic \<longleftrightarrow> P \<and> m = Panic"
  by auto

lemma case_option_Fail_Done [simp]:
  "(case x of None \<Rightarrow> Fail e | Some y \<Rightarrow> f y) = Done z \<longleftrightarrow> (\<exists>y. x = Some y \<and> f y = Done z)"
  by (cases x) auto

lemma case_option_Fail_Panic [simp]:
  "(case x of None \<Rightarrow> Fail e | Some y \<Rightarrow> f y) = Panic \<longleftrightarrow> (\<exists>y. x = Some y \<and> f y = Panic)"
  by (cases x) auto

section \<open>Checked indexing\<close>

text \<open>An indexed read: \<open>None\<close> where Rust panics (or, in the unchecked variant, is undefined).\<close>

definition get_at :: "'a list \<Rightarrow> nat \<Rightarrow> 'a option" where
  "get_at xs i = (if i < length xs then Some (xs ! i) else None)"

lemma get_at_Cons_0 [simp]: "get_at (x # xs) 0 = Some x"
  by (simp add: get_at_def)

lemma get_at_Cons_Suc [simp]: "get_at (x # xs) (Suc i) = get_at xs i"
  by (simp add: get_at_def)

lemma get_at_Cons_numeral [simp]: "get_at (x # xs) (numeral k) = get_at xs (pred_numeral k)"
  by (simp add: get_at_def numeral_eq_Suc)

lemma get_at_Nil [simp]: "get_at [] i = None"
  by (simp add: get_at_def)

section \<open>Little-endian byte strings\<close>

text \<open>\<open>le_bytes n w\<close> is the \<open>to_le_bytes\<close> of an \<open>n\<close>-byte integer, \<open>le_word\<close> its
  \<open>from_le_bytes\<close>.\<close>

primrec le_bytes :: "nat \<Rightarrow> 'a::len word \<Rightarrow> bytes" where
  "le_bytes 0 w = []"
| "le_bytes (Suc n) w = ucast w # le_bytes n (drop_bit 8 w)"

primrec le_nat :: "bytes \<Rightarrow> nat" where
  "le_nat [] = 0"
| "le_nat (b # bs) = unat b + 256 * le_nat bs"

definition le_word :: "bytes \<Rightarrow> 'a::len word" where
  "le_word bs = of_nat (le_nat bs)"

lemma length_le_bytes [simp]: "length (le_bytes n w) = n"
  by (induction n arbitrary: w) auto

lemma unat_lt: "unat (w :: 'a::len word) < 2 ^ LENGTH('a)"
  by (rule unsigned_less)

lemma unat_of_nat_u64 [simp]: "n < 18446744073709551616 \<Longrightarrow> unat (of_nat n :: u64) = n"
  by (simp add: unat_of_nat)

lemma unat_less_u64: "unat (w :: u64) < 18446744073709551616"
  using unat_lt [of w] by simp

lemma unat_drop_bit: "unat (drop_bit n (w :: 'a::len word)) = unat w div 2 ^ n"
  by (simp only: unat_drop_bit_eq) (simp only: drop_bit_eq_div)

lemma unat_ucast: "unat (ucast (w :: 'a::len word) :: 'b::len word) = unat w mod 2 ^ LENGTH('b)"
  by (simp add: unsigned_ucast_eq take_bit_eq_mod)

lemma unat_ucast_u8: "unat (ucast (w :: 'a::len word) :: u8) = unat w mod 256"
  by (simp add: unat_ucast)

lemma le_nat_le_bytes: "le_nat (le_bytes n w) = unat w mod 256 ^ n"
proof (induction n arbitrary: w)
  case 0
  then show ?case by simp
next
  case (Suc n)
  have "unat w mod 256 ^ Suc n = unat w mod 256 + 256 * (unat w div 256 mod 256 ^ n)"
    by (simp add: mod_mult2_eq)
  then show ?case
    by (simp add: Suc.IH unat_drop_bit unat_ucast_u8)
qed

lemma unat_u8_less: "unat (b :: u8) < 256"
  using unat_lt [of b] by simp

lemma le_nat_less: "le_nat bs < 256 ^ length bs"
proof (induction bs)
  case Nil
  then show ?case by simp
next
  case (Cons b bs)
  have "le_nat (b # bs) < 256 + 256 * le_nat bs" by (simp add: unat_u8_less)
  also have "\<dots> \<le> 256 * 256 ^ length bs" using Cons.IH by (simp add: Suc_leI flip: mult_Suc_right)
  finally show ?case by simp
qed

lemma le_bytes_inject:
  "le_nat bs = le_nat cs \<Longrightarrow> length bs = length cs \<Longrightarrow> bs = cs"
proof (induction bs arbitrary: cs)
  case Nil
  then show ?case by simp
next
  case (Cons b bs)
  then obtain c cs' where cs: "cs = c # cs'" by (cases cs) auto
  have eq: "unat b + 256 * le_nat bs = unat c + 256 * le_nat cs'"
    using Cons.prems cs by simp
  have "(unat b + 256 * le_nat bs) mod 256 = unat b" "(unat c + 256 * le_nat cs') mod 256 = unat c"
    by (simp_all add: unat_u8_less)
  with eq have "unat b = unat c" by metis
  moreover from this eq have "le_nat bs = le_nat cs'" by simp
  ultimately show ?case using Cons cs by (simp add: word_unat_eq_iff)
qed

end
