(* ===== verification/Buffers.thy ===== *)
theory Buffers
  imports Prelude
begin

text \<open>
  The interfaces of the byte buffers the crate reads from and writes to. \<^verbatim>\<open>bytes::Buf\<close> belongs
  to the third-party crate \<^verbatim>\<open>bytes\<close>, so its operations are a record that the decoders take as an
  argument (the trait dictionary of the generic parameter \<^verbatim>\<open>B: Buf\<close>) and its documented contract is
  the locale \<open>buf_contract\<close>. \<^verbatim>\<open>ReverseBuf\<close> is the trait of \<^verbatim>\<open>src/src/buf.rs\<close>; its required and provided
  operations are the record \<open>rev_ops\<close> and its contract the locale \<open>rev_buf_contract\<close>. Both are interpreted
  here on contiguous byte strings (\<^verbatim>\<open>&[u8]\<close>) and in \<open>ReverseBuffer\<close> on the buffer of the crate.
\<close>

section \<open>Reading: the operations of \<^verbatim>\<open>bytes::Buf\<close>\<close>

text \<open>\<open>None\<close> is the documented panic on reading past the end.\<close>

record 'b buf_ops =
  b_remaining :: "'b \<Rightarrow> nat"
  b_chunk :: "'b \<Rightarrow> bytes"
  b_advance :: "nat \<Rightarrow> 'b \<Rightarrow> 'b option"
  b_get_u8 :: "'b \<Rightarrow> (u8 \<times> 'b) option"
  b_copy :: "nat \<Rightarrow> 'b \<Rightarrow> (bytes \<times> 'b) option"

locale buf_core =
  fixes ops :: "'b buf_ops"
    and contents :: "'b \<Rightarrow> bytes"
    and binv :: "'b \<Rightarrow> bool"
  assumes remaining: "binv b \<Longrightarrow> b_remaining ops b = length (contents b)"
    and chunk_prefix: "binv b \<Longrightarrow> \<exists>rest. contents b = b_chunk ops b @ rest"
    and chunk_nonempty: "binv b \<Longrightarrow> contents b \<noteq> [] \<Longrightarrow> b_chunk ops b \<noteq> []"
    and advance: "binv b \<Longrightarrow> n \<le> length (contents b) \<Longrightarrow>
      \<exists>b'. b_advance ops n b = Some b' \<and> binv b' \<and> contents b' = drop n (contents b)"
    and get_u8: "binv b \<Longrightarrow> contents b = x # xs \<Longrightarrow>
      \<exists>b'. b_get_u8 ops b = Some (x, b') \<and> binv b' \<and> contents b' = xs"
begin

lemma chunk_take: "binv b \<Longrightarrow> b_chunk ops b = take (length (b_chunk ops b)) (contents b)"
  using chunk_prefix [of b] by auto

lemma chunk_le: "binv b \<Longrightarrow> length (b_chunk ops b) \<le> length (contents b)"
  using chunk_prefix [of b] by auto

lemma chunk_Nil_iff: "binv b \<Longrightarrow> b_chunk ops b = [] \<longleftrightarrow> contents b = []"
  using chunk_prefix [of b] chunk_nonempty [of b] by auto

lemma chunk_nth: "binv b \<Longrightarrow> i < length (b_chunk ops b) \<Longrightarrow> b_chunk ops b ! i = contents b ! i"
  using chunk_prefix [of b] by (auto simp: nth_append)

end

text \<open>Copying out, which the buffers of this crate inherit from the trait's provided methods.\<close>

locale buf_contract = buf_core +
  assumes copy: "binv b \<Longrightarrow> n \<le> length (contents b) \<Longrightarrow>
      \<exists>b'. b_copy ops n b = Some (take n (contents b), b') \<and> binv b' \<and> contents b' = drop n (contents b)"

section \<open>Contiguous slices\<close>

text \<open>\<^verbatim>\<open>impl Buf for &[u8]\<close>: the whole slice is one chunk.\<close>

definition slice_ops :: "bytes buf_ops" where
  "slice_ops = \<lparr>
     b_remaining = length,
     b_chunk = (\<lambda>b. b),
     b_advance = (\<lambda>n b. if n \<le> length b then Some (drop n b) else None),
     b_get_u8 = (\<lambda>b. case b of [] \<Rightarrow> None | x # xs \<Rightarrow> Some (x, xs)),
     b_copy = (\<lambda>n b. if n \<le> length b then Some (take n b, drop n b) else None)\<rparr>"

lemma slice_ops_simps [simp]:
  "b_remaining slice_ops b = length b"
  "b_chunk slice_ops b = b"
  "b_advance slice_ops n b = (if n \<le> length b then Some (drop n b) else None)"
  "b_get_u8 slice_ops b = (case b of [] \<Rightarrow> None | x # xs \<Rightarrow> Some (x, xs))"
  "b_copy slice_ops n b = (if n \<le> length b then Some (take n b, drop n b) else None)"
  by (simp_all add: slice_ops_def)

interpretation slice: buf_contract slice_ops "\<lambda>b. b" "\<lambda>_. True"
  by unfold_locales auto

section \<open>Writing: the operations of \<^verbatim>\<open>ReverseBuf\<close>\<close>

record 'r rev_ops =
  r_remaining :: "'r \<Rightarrow> nat"
  r_prepend_slice :: "bytes \<Rightarrow> 'r \<Rightarrow> 'r option"
  r_prepend_array :: "bytes \<Rightarrow> 'r \<Rightarrow> 'r option"
  r_prepend_u8 :: "u8 \<Rightarrow> 'r \<Rightarrow> 'r option"

locale rev_buf_contract =
  fixes rops :: "'r rev_ops"
    and rcontents :: "'r \<Rightarrow> bytes"
    and rinv :: "'r \<Rightarrow> bool"
  assumes r_remaining: "rinv r \<Longrightarrow> r_remaining rops r = length (rcontents r)"
    and r_prepend_slice: "rinv r \<Longrightarrow>
      \<exists>r'. r_prepend_slice rops data r = Some r' \<and> rinv r' \<and> rcontents r' = data @ rcontents r"
    and r_prepend_array: "rinv r \<Longrightarrow>
      \<exists>r'. r_prepend_array rops data r = Some r' \<and> rinv r' \<and> rcontents r' = data @ rcontents r"
    and r_prepend_u8: "rinv r \<Longrightarrow>
      \<exists>r'. r_prepend_u8 rops x r = Some r' \<and> rinv r' \<and> rcontents r' = x # rcontents r"
begin

text \<open>A step that prepends \<open>data\<close>: it does not panic and leaves the bytes already there in place.\<close>

definition prepends :: "bytes \<Rightarrow> ('r \<Rightarrow> 'r option) \<Rightarrow> bool" where
  "prepends data step \<longleftrightarrow>
     (\<forall>r. rinv r \<longrightarrow> (\<exists>r'. step r = Some r' \<and> rinv r' \<and> rcontents r' = data @ rcontents r))"

lemma prependsI:
  "(\<And>r. rinv r \<Longrightarrow> \<exists>r'. step r = Some r' \<and> rinv r' \<and> rcontents r' = data @ rcontents r) \<Longrightarrow>
   prepends data step"
  by (simp add: prepends_def)

lemma prependsE:
  assumes "prepends data step" and "rinv r"
  obtains r' where "step r = Some r'" and "rinv r'" and "rcontents r' = data @ rcontents r"
  using assms by (auto simp: prepends_def)

lemma prepends_slice: "prepends data (r_prepend_slice rops data)"
  by (rule prependsI) (rule r_prepend_slice)

lemma prepends_array: "prepends data (r_prepend_array rops data)"
  by (rule prependsI) (rule r_prepend_array)

lemma prepends_u8: "prepends [x] (r_prepend_u8 rops x)"
  by (rule prependsI) (simp add: r_prepend_u8)

lemma prepends_skip: "prepends [] Some"
  by (rule prependsI) simp

lemma prepends_comp:
  assumes "prepends back first" and "prepends front second"
  shows "prepends (front @ back) (\<lambda>r. first r \<bind> second)"
proof (rule prependsI)
  fix r assume "rinv r"
  with assms(1) obtain r1 where 1: "first r = Some r1" "rinv r1" "rcontents r1 = back @ rcontents r"
    by (rule prependsE)
  from assms(2) 1(2) obtain r2 where
    2: "second r1 = Some r2" "rinv r2" "rcontents r2 = front @ rcontents r1"
    by (rule prependsE)
  show "\<exists>r'. first r \<bind> second = Some r' \<and> rinv r' \<and> rcontents r' = (front @ back) @ rcontents r"
    using 1 2 by simp
qed

end

text \<open>The simplest prepend buffer, a byte string that grows at its front.\<close>

definition list_rev_ops :: "bytes rev_ops" where
  "list_rev_ops = \<lparr>
     r_remaining = length,
     r_prepend_slice = (\<lambda>d b. Some (d @ b)),
     r_prepend_array = (\<lambda>d b. Some (d @ b)),
     r_prepend_u8 = (\<lambda>x b. Some (x # b))\<rparr>"

lemma list_rev_ops_simps [simp]:
  "r_remaining list_rev_ops b = length b"
  "r_prepend_slice list_rev_ops d b = Some (d @ b)"
  "r_prepend_array list_rev_ops d b = Some (d @ b)"
  "r_prepend_u8 list_rev_ops x b = Some (x # b)"
  by (simp_all add: list_rev_ops_def)

interpretation list_rev: rev_buf_contract list_rev_ops "\<lambda>b. b" "\<lambda>_. True"
  by unfold_locales auto

end
