(* ===== verification/Varint.thy ===== *)
theory Varint
  imports Buffers
begin

text \<open>
  The LEB128-bijective variable length integers of \<^verbatim>\<open>src/src/encoding/mod.rs\<close>: the encoders (the
  looping and the unrolled build), the prepending encoders, the compile-time encoder, the length
  computation, and the three decoding paths (first byte, contiguous slice, byte by byte). The
  specification side is \<open>vval\<close> (the number a byte string denotes), \<open>vbytes\<close> (the canonical
  byte string of a number) and \<open>varint_spec\<close> (what decoding a byte string means).
\<close>

section \<open>The code\<close>

definition VARINT_LIMIT :: "u64 list" where
  "VARINT_LIMIT =
    [0, 0x80, 0x4080, 0x204080, 0x10204080, 0x810204080, 0x40810204080, 0x2040810204080,
     0x102040810204080]"

subsection \<open>Encoding\<close>

text \<open>The body of \<^verbatim>\<open>for _ in 0..9\<close>; the first argument counts the iterations left.\<close>

fun encode_varint_loop :: "nat \<Rightarrow> u64 \<Rightarrow> bytes \<Rightarrow> bytes" where
  "encode_varint_loop 0 value buf = buf"
| "encode_varint_loop (Suc n) value buf =
     (if value < 0x80 then buf @ [ucast value]
      else encode_varint_loop n (drop_bit 7 value - 1)
             (buf @ [ucast ((value AND 0x7F) OR 0x80)]))"

definition encode_varint :: "u64 \<Rightarrow> bytes \<Rightarrow> bytes" where
  "encode_varint value buf = encode_varint_loop 9 value buf"

text \<open>\<^verbatim>\<open>encode_varint_inner::<N>\<close> fills \<open>N - 1\<close> bytes with continuation bits and one last byte.\<close>

fun varint_data :: "nat \<Rightarrow> u64 \<Rightarrow> bytes" where
  "varint_data 0 value = [ucast value]"
| "varint_data (Suc n) value =
     ucast ((value AND 0x7F) OR 0x80) # varint_data n (drop_bit 7 value - 1)"

definition encode_varint_inner :: "nat \<Rightarrow> u64 \<Rightarrow> bytes \<Rightarrow> bytes" where
  "encode_varint_inner N value buf = buf @ varint_data (N - 1) value"

definition encode_varint_unrolled :: "u64 \<Rightarrow> bytes \<Rightarrow> bytes" where
  "encode_varint_unrolled value buf =
    (if value < VARINT_LIMIT ! 1 then buf @ [ucast value]
     else if value < VARINT_LIMIT ! 5 then
       (if value < VARINT_LIMIT ! 3 then
          (if value < VARINT_LIMIT ! 2 then encode_varint_inner 2 value buf
           else encode_varint_inner 3 value buf)
        else if value < VARINT_LIMIT ! 4 then encode_varint_inner 4 value buf
        else encode_varint_inner 5 value buf)
     else if value < VARINT_LIMIT ! 7 then
       (if value < VARINT_LIMIT ! 6 then encode_varint_inner 6 value buf
        else encode_varint_inner 7 value buf)
     else if value < VARINT_LIMIT ! 8 then encode_varint_inner 8 value buf
     else encode_varint_inner 9 value buf)"

subsection \<open>Prepending\<close>

text \<open>
  The looping build writes into a nine-byte array \<open>data\<close> at index \<open>i\<close> and prepends the slice
  up to the last byte written, or the whole array when all nine bytes were used.
\<close>

fun prepend_varint_loop :: "'r rev_ops \<Rightarrow> nat \<Rightarrow> nat \<Rightarrow> u64 \<Rightarrow> bytes \<Rightarrow> 'r \<Rightarrow> 'r option" where
  "prepend_varint_loop rops 0 i value data buf = r_prepend_slice rops data buf"
| "prepend_varint_loop rops (Suc n) i value data buf =
     (if value < 0x80 then
        r_prepend_slice rops (take (i + 1) (data[i := ucast value])) buf
      else
        prepend_varint_loop rops n (i + 1) (drop_bit 7 value - 1)
          (data[i := ucast ((value AND 0x7F) OR 0x80)]) buf)"

definition prepend_varint :: "'r rev_ops \<Rightarrow> u64 \<Rightarrow> 'r \<Rightarrow> 'r option" where
  "prepend_varint rops value buf =
    (if value < 0x80 then r_prepend_u8 rops (ucast value) buf
     else prepend_varint_loop rops 9 0 value (replicate 9 0) buf)"

definition prepend_varint_inner :: "'r rev_ops \<Rightarrow> nat \<Rightarrow> u64 \<Rightarrow> 'r \<Rightarrow> 'r option" where
  "prepend_varint_inner rops N value buf = r_prepend_slice rops (varint_data (N - 1) value) buf"

definition prepend_varint_unrolled :: "'r rev_ops \<Rightarrow> u64 \<Rightarrow> 'r \<Rightarrow> 'r option" where
  "prepend_varint_unrolled rops value buf =
    (if value < VARINT_LIMIT ! 1 then r_prepend_u8 rops (ucast value) buf
     else if value < VARINT_LIMIT ! 5 then
       (if value < VARINT_LIMIT ! 3 then
          (if value < VARINT_LIMIT ! 2 then prepend_varint_inner rops 2 value buf
           else prepend_varint_inner rops 3 value buf)
        else if value < VARINT_LIMIT ! 4 then prepend_varint_inner rops 4 value buf
        else prepend_varint_inner rops 5 value buf)
     else if value < VARINT_LIMIT ! 7 then
       (if value < VARINT_LIMIT ! 6 then prepend_varint_inner rops 6 value buf
        else prepend_varint_inner rops 7 value buf)
     else if value < VARINT_LIMIT ! 8 then prepend_varint_inner rops 8 value buf
     else prepend_varint_inner rops 9 value buf)"

subsection \<open>Compile-time encoding\<close>

record const_varint_t =
  cv_value :: bytes
  cv_len :: nat

definition const_varint_deref :: "const_varint_t \<Rightarrow> bytes" where
  "const_varint_deref cv = take (cv_len cv) (cv_value cv)"

fun const_varint_loop :: "nat \<Rightarrow> nat \<Rightarrow> u64 \<Rightarrow> bytes \<Rightarrow> const_varint_t" where
  "const_varint_loop 0 i value res = \<lparr>cv_value = res, cv_len = 9\<rparr>"
| "const_varint_loop (Suc n) i value res =
     (if value < 0x80 then \<lparr>cv_value = res[i := ucast value], cv_len = i + 1\<rparr>
      else const_varint_loop n (i + 1) (drop_bit 7 value - 1)
             (res[i := ((ucast value :: u8) AND 0x7F) OR 0x80]))"

definition const_varint :: "u64 \<Rightarrow> const_varint_t" where
  "const_varint value = const_varint_loop 9 0 value (replicate 9 0)"

subsection \<open>Encoded length\<close>

definition encoded_len_varint :: "u64 \<Rightarrow> nat" where
  "encoded_len_varint value =
    (if value < VARINT_LIMIT ! 1 then 1
     else if value < VARINT_LIMIT ! 5 then
       (if value < VARINT_LIMIT ! 3 then
          (if value < VARINT_LIMIT ! 2 then 2 else 3)
        else if value < VARINT_LIMIT ! 4 then 4 else 5)
     else if value < VARINT_LIMIT ! 7 then
       (if value < VARINT_LIMIT ! 6 then 6 else 7)
     else if value < VARINT_LIMIT ! 8 then 8 else 9)"

subsection \<open>Decoding\<close>

text \<open>
  The unrolled decoder of a contiguous slice: \<open>None\<close> is a failed assertion or an index out of the
  slice (undefined behaviour of the \<^verbatim>\<open>get_unchecked\<close> build). The parts are 32-bit sums, as in the
  code. The result carries the value and the number of bytes read.
\<close>

definition decode_varint_slice_hi :: "bytes \<Rightarrow> u64 \<Rightarrow> (u64 \<times> nat) decoded option" where
  "decode_varint_slice_hi bytes value = do {
     b \<leftarrow> get_at bytes 4;
     let part1 = (ucast b :: u32);
     if b < 0x80 then Some (Ok (value + push_bit 28 (ucast part1), 5)) else do {
     b \<leftarrow> get_at bytes 5;
     let part1 = part1 + push_bit 7 (ucast b);
     if b < 0x80 then Some (Ok (value + push_bit 28 (ucast part1), 6)) else do {
     b \<leftarrow> get_at bytes 6;
     let part1 = part1 + push_bit 14 (ucast b);
     if b < 0x80 then Some (Ok (value + push_bit 28 (ucast part1), 7)) else do {
     b \<leftarrow> get_at bytes 7;
     let part1 = part1 + push_bit 21 (ucast b);
     if b < 0x80 then Some (Ok (value + push_bit 28 (ucast part1), 8)) else do {
     let value = value + push_bit 28 (ucast part1);
     b \<leftarrow> get_at bytes 8;
     if (ucast b :: u32) + ucast (drop_bit 56 value) > 0xff then Some (Err InvalidVarint)
     else Some (Ok (value + push_bit 56 (ucast b), 9))
     }}}}}"

definition decode_varint_slice :: "bytes \<Rightarrow> (u64 \<times> nat) decoded option" where
  "decode_varint_slice bytes =
    (if bytes = [] then None
     else if \<not> (length bytes \<ge> 9 \<or> bytes ! (length bytes - 1) < 0x80) then None
     else do {
     b \<leftarrow> get_at bytes 0;
     let part0 = (ucast b :: u32);
     if b < 0x80 then Some (Ok (ucast part0, 1)) else do {
     b \<leftarrow> get_at bytes 1;
     let part0 = part0 + push_bit 7 (ucast b);
     if b < 0x80 then Some (Ok (ucast part0, 2)) else do {
     b \<leftarrow> get_at bytes 2;
     let part0 = part0 + push_bit 14 (ucast b);
     if b < 0x80 then Some (Ok (ucast part0, 3)) else do {
     b \<leftarrow> get_at bytes 3;
     let part0 = part0 + push_bit 21 (ucast b);
     if b < 0x80 then Some (Ok (ucast part0, 4))
     else decode_varint_slice_hi bytes (ucast part0)
     }}}})"

definition checked_add_u64 :: "u64 \<Rightarrow> u64 \<Rightarrow> u64 option" where
  "checked_add_u64 a b = (if unat a + unat b < 2 ^ 64 then Some (a + b) else None)"

text \<open>The byte-by-byte decoder; the second argument counts the iterations left.\<close>

fun decode_varint_slow_loop ::
    "'b buf_ops \<Rightarrow> nat \<Rightarrow> nat \<Rightarrow> u64 \<Rightarrow> 'b \<Rightarrow> (u64 decoded \<times> 'b) option" where
  "decode_varint_slow_loop ops 0 count value buf =
    (if b_remaining ops buf = 0 then Some (Err Truncated, buf)
     else do {
       (byte, buf') \<leftarrow> b_get_u8 ops buf;
       case checked_add_u64 value (push_bit 56 (ucast byte)) of
         Some v \<Rightarrow> Some (Ok v, buf')
       | None \<Rightarrow> Some (Err InvalidVarint, buf')
     })"
| "decode_varint_slow_loop ops (Suc n) count value buf = do {
     (byte, buf') \<leftarrow> b_get_u8 ops buf;
     let value = value + push_bit (count * 7) (ucast byte);
     if byte < 0x80 then Some (Ok value, buf')
     else decode_varint_slow_loop ops n (count + 1) value buf'
   }"

definition decode_varint_slow :: "'b buf_ops \<Rightarrow> 'b \<Rightarrow> (u64 decoded \<times> 'b) option" where
  "decode_varint_slow ops buf =
     decode_varint_slow_loop ops (min 8 (b_remaining ops buf)) 0 0 buf"

text \<open>The entry point: the result and the buffer after it, on success and on failure.\<close>

definition decode_varint :: "'b buf_ops \<Rightarrow> 'b \<Rightarrow> (u64 decoded \<times> 'b) option" where
  "decode_varint ops buf =
    (let bytes = b_chunk ops buf; len = length bytes in
     if len = 0 then Some (Err Truncated, buf)
     else
       let byte = bytes ! 0 in
       if byte < 0x80 then do {
         buf' \<leftarrow> b_advance ops 1 buf;
         Some (Ok (ucast byte), buf')
       }
       else if len \<ge> 9 \<or> bytes ! (len - 1) < 0x80 then do {
         r \<leftarrow> decode_varint_slice bytes;
         let (result, adv) = (case r of Ok (ok, adv) \<Rightarrow> (Ok ok, adv) | Err err \<Rightarrow> (Err err, 9));
         buf' \<leftarrow> b_advance ops adv buf;
         Some (result, buf')
       }
       else decode_varint_slow ops buf)"

section \<open>Specification: the number a byte string denotes\<close>

primrec vval :: "bytes \<Rightarrow> nat" where
  "vval [] = 0"
| "vval (b # bs) = unat b + 128 * vval bs"

text \<open>The canonical bytes of a number in at most \<open>n\<close> bytes.\<close>

definition vcont :: "nat \<Rightarrow> u8" where
  "vcont v = of_nat (v mod 128 + 128)"

fun vbytes :: "nat \<Rightarrow> nat \<Rightarrow> bytes" where
  "vbytes 0 v = []"
| "vbytes (Suc n) v =
     (if v < 128 \<or> n = 0 then [of_nat v]
      else vcont v # vbytes n (v div 128 - 1))"

text \<open>The shortest prefix of at most \<open>n\<close> bytes that is a complete varint, and the rest.\<close>

fun take_varint :: "nat \<Rightarrow> bytes \<Rightarrow> (bytes \<times> bytes) option" where
  "take_varint 0 s = None"
| "take_varint (Suc n) [] = None"
| "take_varint (Suc n) (b # s) =
     (if b < 0x80 \<or> n = 0 then Some ([b], s)
      else case take_varint n s of None \<Rightarrow> None | Some (p, r) \<Rightarrow> Some (b # p, r))"

definition varint_spec :: "bytes \<Rightarrow> u64 decoded \<times> bytes" where
  "varint_spec s =
    (case take_varint 9 s of
       None \<Rightarrow> (Err Truncated, [])
     | Some (p, r) \<Rightarrow> (if vval p < 2 ^ 64 then Ok (of_nat (vval p)) else Err InvalidVarint, r))"

section \<open>Word arithmetic of the encoders\<close>

lemma unat_less_0x80: "unat (v :: 'a::len word) < 128 \<longleftrightarrow> v < 0x80" if "8 \<le> LENGTH('a)"
proof -
  have "(2::nat) ^ 8 \<le> 2 ^ LENGTH('a)" using that by (rule power_increasing) simp
  then have "unat (0x80 :: 'a word) = 128"
    by (simp add: unat_of_nat [of 128, simplified])
  then show ?thesis by (simp add: word_less_nat_alt)
qed

lemma u8_less_0x80: "(b :: u8) < 0x80 \<longleftrightarrow> unat b < 128"
  by (simp add: word_less_nat_alt)

lemma u64_less_0x80: "(v :: u64) < 0x80 \<longleftrightarrow> unat v < 128"
  by (simp add: word_less_nat_alt)

lemma unat_shift_minus_1:
  "\<not> unat (v :: u64) < 128 \<Longrightarrow> unat (drop_bit 7 v - 1) = unat v div 128 - 1"
  by (simp add: unat_sub_if' unat_drop_bit)

lemma or_0x80_eq: "((x :: 'a::len word) AND 0x7F) OR 0x80 = take_bit 7 x + 0x80"
proof -
  have "x AND 0x7F = take_bit 7 x"
    by (simp add: take_bit_eq_mask mask_eq_exp_minus_1)
  moreover have "take_bit 7 x AND push_bit 7 y = 0" for y :: "'a word"
    by (auto simp: bit_eq_iff bit_simps)
  from this [of 1] have "take_bit 7 x AND 0x80 = 0" by simp
  ultimately show ?thesis by (simp add: disjunctive_add_eq_or)
qed

lemma unat_vcont [simp]: "unat (vcont v) = v mod 128 + 128"
proof -
  have "v mod 128 < 128" by simp
  then show ?thesis by (simp add: vcont_def unat_of_nat del: of_nat_add)
qed

lemma ucast_continuation:
  "(ucast (((v :: u64) AND 0x7F) OR 0x80) :: u8) = vcont (unat v)"
proof -
  have "unat (take_bit 7 v) = unat v mod 128"
    by (simp only: unsigned_take_bit_eq) (simp add: take_bit_eq_mod)
  moreover have "unat v mod 128 < 128" by simp
  ultimately have "unat (take_bit 7 v + 0x80) = unat v mod 128 + 128"
    by (simp add: unat_plus_if')
  then show ?thesis
    by (simp add: or_0x80_eq word_unat_eq_iff unat_ucast)
qed

lemma ucast_continuation_u8:
  "(ucast (v :: u64) AND 0x7F :: u8) OR 0x80 = vcont (unat v)"
proof -
  have "unat (take_bit 7 (ucast v :: u8)) = unat v mod 128"
    by (simp only: unsigned_take_bit_eq) (simp add: take_bit_eq_mod unat_ucast_u8 mod_mod_cancel)
  moreover have "unat v mod 128 < 128" by simp
  ultimately have "unat (take_bit 7 (ucast v :: u8) + 0x80) = unat v mod 128 + 128"
    by (simp add: unat_plus_if')
  then show ?thesis
    by (simp add: or_0x80_eq word_unat_eq_iff unat_ucast)
qed

section \<open>The canonical bytes of a number\<close>

declare vbytes.simps [simp del]

lemma vbytes_Suc_neq_Nil [simp]: "vbytes (Suc n) v \<noteq> []"
  by (simp add: vbytes.simps)

lemma vbytes_small: "v < 128 \<Longrightarrow> vbytes (Suc n) v = [of_nat v]"
  by (simp add: vbytes.simps)

lemma vbytes_big:
  "\<not> v < 128 \<Longrightarrow> vbytes (Suc (Suc n)) v = vcont v # vbytes (Suc n) (v div 128 - 1)"
  by (simp add: vbytes.simps)

lemma vbytes_last: "vbytes (Suc 0) v = [of_nat v]"
  by (simp add: vbytes.simps)

lemma length_vbytes_le: "length (vbytes n v) \<le> n"
  by (induction n v rule: vbytes.induct) (auto simp: vbytes.simps)

lemma vval_vbytes: "v < 2 ^ (7 * n + 8) \<Longrightarrow> vval (vbytes (Suc n) v) = v"
proof (induction n arbitrary: v)
  case 0
  then show ?case by (simp add: vbytes_last unat_of_nat)
next
  case (Suc n)
  show ?case
  proof (cases "v < 128")
    case True
    then show ?thesis by (simp add: vbytes_small unat_of_nat)
  next
    case False
    have "v div 128 - 1 < 2 ^ (7 * n + 8)"
      using Suc.prems by (simp add: power_add less_mult_imp_div_less)
    then have "vval (vbytes (Suc n) (v div 128 - 1)) = v div 128 - 1" by (rule Suc.IH)
    moreover have "v mod 128 + 128 + 128 * (v div 128 - 1) = v"
      using False by (simp add: diff_mult_distrib2)
    ultimately show ?thesis using False
      by (simp add: vbytes_big)
  qed
qed

lemma take_varint_vbytes: "take_varint (Suc n) (vbytes (Suc n) v @ r) = Some (vbytes (Suc n) v, r)"
proof (induction n arbitrary: v)
  case 0
  then show ?case by (simp add: vbytes_last)
next
  case (Suc n)
  show ?case
  proof (cases "v < 128")
    case True
    then show ?thesis by (simp add: vbytes_small u8_less_0x80 unat_of_nat)
  next
    case False
    with Suc.IH [of "v div 128 - 1"] show ?thesis
      by (simp add: vbytes_big u8_less_0x80)
  qed
qed

lemma take_varint_append: "take_varint n s = Some (p, r) \<Longrightarrow> s = p @ r"
  by (induction n s arbitrary: p r rule: take_varint.induct) (auto split: if_splits option.splits)

lemma take_varint_length: "take_varint n s = Some (p, r) \<Longrightarrow> 0 < length p \<and> length p \<le> n"
  by (induction n s arbitrary: p r rule: take_varint.induct)
    (fastforce split: if_splits option.splits)+

lemma take_varint_None_short: "take_varint (Suc n) s = None \<Longrightarrow> length s \<le> n"
  by (induction n arbitrary: s)
    (case_tac s; fastforce split: if_splits option.splits)+

lemma cont_digits: "\<not> n < 128 \<Longrightarrow> n < 256 \<Longrightarrow> n div 128 = 1 \<and> n mod 128 + 128 = n" for n :: nat
proof -
  assume "\<not> n < 128" "n < 256"
  then obtain m where "n = 128 + m" "m < 128"
    by (intro that [of "n - 128"]) simp_all
  then show ?thesis by simp
qed

lemma vbytes_vval: "take_varint (Suc n) s = Some (p, r) \<Longrightarrow> vbytes (Suc n) (vval p) = p"
proof (induction n arbitrary: s p)
  case 0
  then show ?case by (cases s) (auto simp: vbytes_last)
next
  case (Suc n)
  then obtain b s' where s: "s = b # s'" by (cases s) auto
  show ?case
  proof (cases "b < 0x80")
    case True
    then show ?thesis using Suc.prems s by (auto simp: u8_less_0x80 vbytes_small)
  next
    case False
    then obtain p' where p': "take_varint (Suc n) s' = Some (p', r)" "p = b # p'"
      using Suc.prems s by (auto split: option.splits)
    have b: "unat b div 128 = 1" "unat b mod 128 + 128 = unat b"
      using cont_digits [of "unat b"] False unat_u8_less [of b] by (simp_all add: u8_less_0x80)
    have "(unat b + 128 * vval p') div 128 = 1 + vval p'"
      using b(1) by simp
    moreover have "vcont (unat b + 128 * vval p') = b"
      using b(2) by (simp add: word_unat_eq_iff)
    moreover have "\<not> unat b + 128 * vval p' < 128"
      using False by (simp add: u8_less_0x80)
    ultimately show ?thesis
      using Suc.IH [OF p'(1)] p'(2) by (simp add: vbytes_big)
  qed
qed

section \<open>The encoders write the canonical bytes\<close>

lemma u64_bound: "unat (v :: u64) < 2 ^ (7 * 8 + 8)"
  using unat_lt [of v] by simp

lemma shift_bound: "v < 2 ^ (7 * Suc n + 8) \<Longrightarrow> v div 128 - 1 < (2::nat) ^ (7 * n + 8)"
  by (simp add: power_add less_mult_imp_div_less)

lemma u8_continuation: "128 \<le> v \<Longrightarrow> v < 256 \<Longrightarrow> vcont v = of_nat v"
  using cont_digits [of v] by (simp add: vcont_def del: of_nat_add)

lemma encode_varint_loop_eq:
  "unat v < 2 ^ (7 * n + 8) \<Longrightarrow> encode_varint_loop (Suc n) v buf = buf @ vbytes (Suc n) (unat v)"
proof (induction n arbitrary: v buf)
  case 0
  then have "unat v < 256" by simp
  then show ?case
    using u8_continuation [of "unat v"]
    by (simp add: u64_less_0x80 vbytes_last ucast_continuation)
next
  case (Suc n)
  show ?case
  proof (cases "unat v < 128")
    case True
    then show ?thesis by (simp add: u64_less_0x80 vbytes_small)
  next
    case False
    with shift_bound [OF Suc.prems] have "unat (drop_bit 7 v - 1) < 2 ^ (7 * n + 8)"
      by (simp add: unat_shift_minus_1)
    from Suc.IH [OF this] False show ?thesis
      by (simp add: u64_less_0x80 vbytes_big ucast_continuation unat_shift_minus_1)
  qed
qed

lemma encode_varint_eq: "encode_varint v buf = buf @ vbytes 9 (unat v)"
  using encode_varint_loop_eq [of v 8 buf] u64_bound [of v] by (simp add: encode_varint_def)

lemma varint_data_eq:
  "length (vbytes (Suc m) (unat v)) = Suc n \<Longrightarrow> n \<le> m \<Longrightarrow> varint_data n v = vbytes (Suc m) (unat v)"
proof (induction n arbitrary: m v)
  case 0
  show ?case
  proof (cases "unat v < 128")
    case True
    then show ?thesis by (simp add: vbytes_small)
  next
    case False
    with "0.prems" have "m = 0" by (cases m) (simp_all add: vbytes_big)
    then show ?thesis by (simp add: vbytes_last)
  qed
next
  case (Suc n)
  then obtain m' where m: "m = Suc m'" by (cases m) auto
  have big: "\<not> unat v < 128"
    using Suc.prems m by (auto simp: vbytes_small)
  have "length (vbytes (Suc m') (unat (drop_bit 7 v - 1))) = Suc n"
    using Suc.prems m big by (simp add: vbytes_big unat_shift_minus_1)
  with Suc.IH [of m' "drop_bit 7 v - 1"] Suc.prems m big show ?case
    by (simp add: vbytes_big unat_shift_minus_1 ucast_continuation)
qed

section \<open>Length of the canonical bytes\<close>

text \<open>The smallest number that needs more than \<open>n\<close> bytes.\<close>

primrec vlimit :: "nat \<Rightarrow> nat" where
  "vlimit 0 = 0"
| "vlimit (Suc n) = 128 * (vlimit n + 1)"

lemma length_vbytes_le_iff:
  "0 < j \<Longrightarrow> j \<le> n \<Longrightarrow> length (vbytes (Suc n) v) \<le> j \<longleftrightarrow> v < vlimit j"
proof (induction n arbitrary: j v)
  case 0
  then show ?case by simp
next
  case (Suc n)
  show ?case
  proof (cases "v < 128")
    case True
    then show ?thesis using Suc.prems by (cases j) (auto simp: vbytes_small)
  next
    case False
    show ?thesis
    proof (cases "j = 1")
      case True
      then show ?thesis using False by (simp add: vbytes_big)
    next
      case False': False
      then obtain i where j: "j = Suc i" "0 < i" using Suc.prems(1) by (cases j) auto
      have "v div 128 - 1 < vlimit i \<longleftrightarrow> v div 128 < vlimit i + 1"
        using False by (auto simp: Suc_le_eq less_diff_conv2)
      also have "\<dots> \<longleftrightarrow> v < 128 * (vlimit i + 1)"
        by (simp add: div_less_iff_less_mult mult.commute)
      finally show ?thesis
        using Suc.IH [of i "v div 128 - 1"] Suc.prems j False by (simp add: vbytes_big)
    qed
  qed
qed

lemma vlimit_numeral [simp]: "vlimit (numeral k) = 128 * (vlimit (pred_numeral k) + 1)"
  by (simp add: numeral_eq_Suc)

lemma VARINT_LIMIT_less: "0 < j \<Longrightarrow> j \<le> 8 \<Longrightarrow> v < VARINT_LIMIT ! j \<longleftrightarrow> length (vbytes 9 (unat v)) \<le> j"
proof -
  assume j: "0 < j" "j \<le> 8"
  have "unat (VARINT_LIMIT ! j) = vlimit j"
  proof -
    have "j \<in> {1,2,3,4,5,6,7,8}" using j by auto
    then show ?thesis
      by (elim insertE emptyE; simp add: VARINT_LIMIT_def)
  qed
  then show ?thesis
    using length_vbytes_le_iff [of j 8 "unat v"] j by (simp add: word_less_nat_alt)
qed

lemma length_vbytes_pos: "0 < length (vbytes (Suc n) v)"
  by simp

lemma encoded_len_varint_eq: "encoded_len_varint v = length (vbytes 9 (unat v))"
proof -
  define n where "n = length (vbytes 9 (unat v))"
  have n: "0 < n" "n \<le> 9"
    using length_vbytes_pos [of 8 "unat v"] length_vbytes_le [of 9 "unat v"] by (simp_all add: n_def)
  have "v < VARINT_LIMIT ! j \<longleftrightarrow> n \<le> j" if "0 < j" "j \<le> 8" for j
    using VARINT_LIMIT_less [OF that] by (simp add: n_def)
  then have "encoded_len_varint v = n"
    unfolding encoded_len_varint_def using n by auto
  then show ?thesis by (simp add: n_def)
qed

lemma varint_data_9: "length (vbytes 9 (unat v)) = n \<Longrightarrow> varint_data (n - 1) v = vbytes 9 (unat v)"
  using varint_data_eq [of 8 v "n - 1"] length_vbytes_pos [of 8 "unat v"] length_vbytes_le [of 9 "unat v"]
  by simp

lemma encode_varint_unrolled_eq: "encode_varint_unrolled v buf = buf @ vbytes 9 (unat v)"
proof -
  have len: "0 < length (vbytes 9 (unat v))" "length (vbytes 9 (unat v)) \<le> 9"
    using length_vbytes_pos [of 8 "unat v"] length_vbytes_le [of 9 "unat v"] by simp_all
  have data: "encode_varint_inner n v buf = buf @ vbytes 9 (unat v)"
    if "length (vbytes 9 (unat v)) = n" for n
    using varint_data_9 [OF that] by (simp add: encode_varint_inner_def)
  have one: "buf @ [ucast v] = buf @ vbytes 9 (unat v)" if "length (vbytes 9 (unat v)) \<le> 1"
    using varint_data_9 [of v 1] that len by simp
  show ?thesis
    unfolding encode_varint_unrolled_def
    using len by (simp add: VARINT_LIMIT_less one data)
qed

lemma vbytes_step:
  "\<not> v < 128 \<Longrightarrow> v < 2 ^ (7 * n + 8) \<Longrightarrow> vbytes (Suc n) v = vcont v # vbytes n (v div 128 - 1)"
  using u8_continuation [of v] by (cases n) (simp_all add: vbytes_last vbytes_big vbytes.simps(1))

lemma vbytes_0 [simp]: "vbytes 0 v = []"
  by (simp add: vbytes.simps)

section \<open>Prepending and compile-time encoding\<close>

lemma take_Suc_update: "i < length xs \<Longrightarrow> take (Suc i) (xs[i := x]) = take i xs @ [x]"
  by (simp add: take_Suc_conv_app_nth)

lemma prepend_varint_loop_eq:
  assumes "length data = 9" and "i + n = 9" and "n \<noteq> 0 \<Longrightarrow> unat v < 2 ^ (7 * (n - 1) + 8)"
  shows "prepend_varint_loop rops n i v data buf =
    r_prepend_slice rops (take i data @ vbytes n (unat v)) buf"
  using assms
proof (induction n arbitrary: i v data)
  case 0
  then show ?case by simp
next
  case (Suc n)
  show ?case
  proof (cases "unat v < 128")
    case True
    then show ?thesis using Suc.prems by (simp add: u64_less_0x80 vbytes_small take_Suc_update)
  next
    case False
    have "n \<noteq> 0 \<Longrightarrow> unat (drop_bit 7 v - 1) < 2 ^ (7 * (n - 1) + 8)"
      using Suc.prems(3) shift_bound [of "unat v" "n - 1"] False by (simp add: unat_shift_minus_1)
    with Suc.IH [of "data[i := ucast ((v AND 0x7F) OR 0x80)]" "i + 1" "drop_bit 7 v - 1"] Suc.prems False
    show ?thesis
      by (simp add: u64_less_0x80 vbytes_step take_Suc_update ucast_continuation unat_shift_minus_1)
  qed
qed

lemma const_varint_loop_eq:
  assumes "length res = 9" and "i + n = 9" and "n \<noteq> 0 \<Longrightarrow> unat v < 2 ^ (7 * (n - 1) + 8)"
  shows "const_varint_deref (const_varint_loop n i v res) = take i res @ vbytes n (unat v)"
  using assms
proof (induction n arbitrary: i v res)
  case 0
  then show ?case by (simp add: const_varint_deref_def)
next
  case (Suc n)
  show ?case
  proof (cases "unat v < 128")
    case True
    then show ?thesis using Suc.prems
      by (simp add: const_varint_deref_def u64_less_0x80 vbytes_small take_Suc_update)
  next
    case False
    have "n \<noteq> 0 \<Longrightarrow> unat (drop_bit 7 v - 1) < 2 ^ (7 * (n - 1) + 8)"
      using Suc.prems(3) shift_bound [of "unat v" "n - 1"] False by (simp add: unat_shift_minus_1)
    with Suc.IH [of "res[i := ((ucast v :: u8) AND 0x7F) OR 0x80]" "i + 1" "drop_bit 7 v - 1"] Suc.prems False
    show ?thesis
      by (simp add: u64_less_0x80 vbytes_step take_Suc_update ucast_continuation_u8 unat_shift_minus_1)
  qed
qed

lemma const_varint_eq: "const_varint_deref (const_varint v) = vbytes 9 (unat v)"
  using const_varint_loop_eq [of "replicate 9 0" 0 9 v] u64_bound [of v]
  by (simp add: const_varint_def)

context rev_buf_contract
begin

lemma prepends_varint: "prepends (vbytes 9 (unat v)) (prepend_varint rops v)"
proof (cases "unat v < 128")
  case True
  then have "vbytes 9 (unat v) = [ucast v]"
    using vbytes_small [of "unat v" 8] by simp
  moreover have "prepend_varint rops v = r_prepend_u8 rops (ucast v)"
    using True by (simp add: fun_eq_iff prepend_varint_def u64_less_0x80)
  ultimately show ?thesis by (simp add: prepends_u8)
next
  case False
  have "prepend_varint rops v = r_prepend_slice rops (vbytes 9 (unat v))"
    using prepend_varint_loop_eq [of "replicate 9 0" 0 9 v rops] u64_bound [of v] False
    by (simp add: fun_eq_iff prepend_varint_def u64_less_0x80)
  then show ?thesis by (simp add: prepends_slice)
qed

lemma prepends_varint_unrolled: "prepends (vbytes 9 (unat v)) (prepend_varint_unrolled rops v)"
proof -
  define n where "n = length (vbytes 9 (unat v))"
  have n: "0 < n" "n \<le> 9"
    using length_vbytes_pos [of 8 "unat v"] length_vbytes_le [of 9 "unat v"] by (simp_all add: n_def)
  have lim: "v < VARINT_LIMIT ! j \<longleftrightarrow> n \<le> j" if "0 < j" "j \<le> 8" for j
    using VARINT_LIMIT_less [OF that] by (simp add: n_def)
  have inner: "prepend_varint_inner rops n v = r_prepend_slice rops (vbytes 9 (unat v))"
    using varint_data_9 [of v n] by (simp add: prepend_varint_inner_def n_def fun_eq_iff)
  show ?thesis
  proof (cases "n = 1")
    case True
    then have "vbytes 9 (unat v) = [ucast v]"
      using varint_data_9 [of v 1] by (simp add: n_def)
    moreover have "prepend_varint_unrolled rops v = r_prepend_u8 rops (ucast v)"
      using True by (simp add: fun_eq_iff prepend_varint_unrolled_def lim)
    ultimately show ?thesis by (simp add: prepends_u8)
  next
    case False
    then have "n \<in> {2, 3, 4, 5, 6, 7, 8, 9}" using n by auto
    then have "prepend_varint_unrolled rops v = prepend_varint_inner rops n v"
      by (elim insertE emptyE; simp add: prepend_varint_unrolled_def lim fun_eq_iff)
    then show ?thesis using prepends_slice by (simp add: inner)
  qed
qed

end

section \<open>Decoding\<close>

lemma take_varint_numeral [simp]:
  "take_varint (numeral k) [] = None"
  "take_varint (numeral k) (b # s) =
     (if b < 0x80 \<or> pred_numeral k = 0 then Some ([b], s)
      else case take_varint (pred_numeral k) s of None \<Rightarrow> None | Some (p, r) \<Rightarrow> Some (b # p, r))"
  by (simp_all add: numeral_eq_Suc)

lemma unat_shift_add:
  assumes "unat x + unat b * 2 ^ k < 2 ^ LENGTH('a)" and "8 \<le> LENGTH('a)"
  shows "unat ((x :: 'a::len word) + push_bit k (ucast (b :: u8))) = unat x + unat b * 2 ^ k"
proof -
  have "unat b < 2 ^ LENGTH('a)"
    using less_le_trans [OF unat_u8_less, of "2 ^ LENGTH('a)" b] power_increasing [OF assms(2), of "2::nat"]
    by simp
  then have "unat (push_bit k (ucast b :: 'a word)) = unat b * 2 ^ k mod 2 ^ LENGTH('a)"
    by (simp only: unsigned_push_bit_eq unat_ucast) (simp add: take_bit_eq_mod push_bit_eq_mult)
  with assms(1) show ?thesis
    by (simp add: unat_plus_if')
qed

lemma unat_ucast_u8_wide: "8 \<le> LENGTH('a) \<Longrightarrow> unat (ucast (b :: u8) :: 'a::len word) = unat b"
proof -
  assume "8 \<le> LENGTH('a)"
  then have "unat b < 2 ^ LENGTH('a)"
    using less_le_trans [OF unat_u8_less, of "2 ^ LENGTH('a)" b]
      power_increasing [of 8 "LENGTH('a)" "2::nat"] by simp
  then show ?thesis by (simp add: unat_ucast)
qed


lemma unat_u32_add:
  "unat x + unat b * 2 ^ k < 2 ^ 32 \<Longrightarrow> unat ((x :: u32) + push_bit k (ucast (b :: u8))) = unat x + unat b * 2 ^ k"
  by (rule unat_shift_add) simp_all

lemma unat_u64_add:
  "unat x + unat b * 2 ^ k < 2 ^ 64 \<Longrightarrow> unat ((x :: u64) + push_bit k (ucast (b :: u8))) = unat x + unat b * 2 ^ k"
  by (rule unat_shift_add) simp_all

lemma unat_part_join:
  assumes "unat value + 2 ^ 28 * unat part < 2 ^ 64"
  shows "unat ((value :: u64) + push_bit 28 (ucast (part :: u32))) = unat value + 2 ^ 28 * unat part"
proof -
  have "unat part < 2 ^ 32" using unat_lt [of part] by simp
  then have "unat (push_bit 28 (ucast part :: u64)) = unat part * 2 ^ 28 mod 2 ^ 64"
    by (simp only: unsigned_push_bit_eq unat_ucast) (simp add: take_bit_eq_mod push_bit_eq_mult)
  with assms show ?thesis by (simp add: unat_plus_if')
qed

lemma unat_ucast_u32_u64 [simp]: "unat (ucast (x :: u32) :: u64) = unat x"
proof -
  have "unat x < 2 ^ 32" using unat_lt [of x] by simp
  then show ?thesis by (simp add: unat_ucast)
qed

lemma eq_of_natI: "unat w = n \<Longrightarrow> w = of_nat n"
  by auto

text \<open>What the slice decoder must return: value and number of bytes read.\<close>

definition slice_spec :: "nat \<Rightarrow> nat \<Rightarrow> nat \<Rightarrow> bytes \<Rightarrow> (u64 \<times> nat) decoded" where
  "slice_spec done acc n s =
    (case take_varint n s of
       None \<Rightarrow> Err Truncated
     | Some (p, r) \<Rightarrow>
         if acc + 128 ^ done * vval p < 2 ^ 64 then Ok (of_nat (acc + 128 ^ done * vval p), done + length p)
         else Err InvalidVarint)"

lemma slice_done:
  assumes "take_varint n s = Some (p, r)" and "unat w = acc + 128 ^ done * vval p"
    and "k = done + length p"
  shows "Ok (w, k) = slice_spec done acc n s"
proof -
  have "acc + 128 ^ done * vval p < 2 ^ 64"
    using unat_lt [of w] assms(2) by simp
  moreover have "w = of_nat (acc + 128 ^ done * vval p)"
    using assms(2) by (rule eq_of_natI)
  ultimately show ?thesis using assms(1,3) by (simp add: slice_spec_def del: of_nat_add of_nat_mult)
qed

text \<open>The five shapes of a complete varint tail.\<close>

lemma tail_cases:
  assumes "length s \<ge> 5 \<or> s \<noteq> [] \<and> last s < (0x80 :: u8)"
  obtains (1) a r where "s = a # r" "a < 0x80"
  | (2) a b r where "s = a # b # r" "\<not> a < 0x80" "b < 0x80"
  | (3) a b c r where "s = a # b # c # r" "\<not> a < 0x80" "\<not> b < 0x80" "c < 0x80"
  | (4) a b c d r where "s = a # b # c # d # r" "\<not> a < 0x80" "\<not> b < 0x80" "\<not> c < 0x80" "d < 0x80"
  | (5) a b c d e r where "s = a # b # c # d # e # r"
      "\<not> a < 0x80" "\<not> b < 0x80" "\<not> c < 0x80" "\<not> d < 0x80"
proof -
  have more: "\<exists>b r. s' = b # r \<and> (length s' \<ge> n \<or> s' \<noteq> [] \<and> last s' < 0x80)"
    if "length (a # s') \<ge> Suc n \<or> last (a # s') < (0x80 :: u8)" "\<not> a < 0x80" "0 < n" for a s' n
    using that by (cases s') (auto split: if_splits)
  obtain a s1 where 1: "s = a # s1" using assms by (cases s) auto
  show thesis
  proof (cases "a < 0x80")
    case False
    then obtain b s2 where 2: "s1 = b # s2" "length s1 \<ge> 4 \<or> last s1 < 0x80"
      using more [of 4 a s1] assms 1 by auto
    show thesis
    proof (cases "b < 0x80")
      case b: False
      then obtain c s3 where 3: "s2 = c # s3" "length s2 \<ge> 3 \<or> last s2 < 0x80"
        using more [of 3 b s2] 2 by auto
      show thesis
      proof (cases "c < 0x80")
        case c: False
        then obtain d s4 where 4: "s3 = d # s4" "length s3 \<ge> 2 \<or> last s3 < 0x80"
          using more [of 2 c s3] 3 by auto
        show thesis
        proof (cases "d < 0x80")
          case d: False
          then obtain e s5 where "s4 = e # s5"
            using more [of 1 d s4] 4 by auto
          with that(5) 1 2 3 4 False b c d show thesis by blast
        qed (use that(4) 1 2 3 4 False b c in blast)
      qed (use that(3) 1 2 3 False b in blast)
    qed (use that(2) 1 2 False in blast)
  qed (use that(1) 1 in blast)
qed

lemma unat_u8_mult_le: "unat (b :: u8) * n \<le> 255 * n"
  using unat_u8_less [of b] by (intro mult_le_mono1) simp

lemma overflow_check:
  assumes "unat value < 2 ^ 59"
  shows "(ucast (e :: u8) :: u32) + ucast (drop_bit 56 (value :: u64)) > 0xff \<longleftrightarrow>
    \<not> unat value + unat e * 2 ^ 56 < 2 ^ 64"
proof -
  have d: "unat value div 2 ^ 56 < 8" using assms by (simp add: less_mult_imp_div_less)
  have "unat (drop_bit 56 value) = unat value div 2 ^ 56" by (rule unat_drop_bit)
  with d have u: "unat (ucast (drop_bit 56 value) :: u32) = unat value div 2 ^ 56"
    by (simp add: unat_ucast)
  have "unat ((ucast e :: u32) + ucast (drop_bit 56 value)) = unat e + unat value div 2 ^ 56"
    using d unat_u8_less [of e] by (simp add: unat_plus_if' u unat_ucast_u8_wide)
  also have "\<dots> = (unat value + unat e * 2 ^ 56) div 2 ^ 56" by simp
  finally have "(ucast e :: u32) + ucast (drop_bit 56 value) > 0xff \<longleftrightarrow>
      255 < (unat value + unat e * 2 ^ 56) div 2 ^ 56"
    by (simp only: word_less_nat_alt) simp
  also have "\<dots> \<longleftrightarrow> \<not> (unat value + unat e * 2 ^ 56) div 2 ^ 56 < 256" by arith
  also have "\<dots> \<longleftrightarrow> \<not> unat value + unat e * 2 ^ 56 < 256 * 2 ^ 56"
    using div_less_iff_less_mult [of "2 ^ 56" "unat value + unat e * 2 ^ 56" 256] by simp
  finally show ?thesis by simp
qed

lemma slice_hi:
  assumes len: "length s \<ge> 5 \<or> s \<noteq> [] \<and> last s < 0x80"
    and acc: "unat value < 2 ^ 30"
  shows "decode_varint_slice_hi (b0 # b1 # b2 # b3 # s) value = Some (slice_spec 4 (unat value) 5 s)"
proof -
  have one: "unat (ucast (a :: u8) :: u32) = unat a" for a
    by (rule unat_ucast_u8_wide) simp
  have two: "unat ((ucast a :: u32) + push_bit 7 (ucast b)) = unat a + unat b * 2 ^ 7" for a b :: u8
    using unat_u8_less [of a] unat_u8_less [of b] by (subst unat_u32_add) (simp_all add: one)
  have three: "unat ((ucast a :: u32) + push_bit 7 (ucast b) + push_bit 14 (ucast c))
      = unat a + unat b * 2 ^ 7 + unat c * 2 ^ 14" for a b c :: u8
    using unat_u8_less [of a] unat_u8_less [of b] unat_u8_less [of c]
    by (subst unat_u32_add) (simp_all add: two)
  have four: "unat ((ucast a :: u32) + push_bit 7 (ucast b) + push_bit 14 (ucast c) + push_bit 21 (ucast d))
      = unat a + unat b * 2 ^ 7 + unat c * 2 ^ 14 + unat d * 2 ^ 21" for a b c d :: u8
    using unat_u8_less [of a] unat_u8_less [of b] unat_u8_less [of c] unat_u8_less [of d]
    by (subst unat_u32_add) (simp_all add: three)
  note parts = one two three four
  from len show ?thesis
  proof (cases rule: tail_cases)
    case (1 a r)
    have "Ok (value + push_bit 28 (ucast (ucast a :: u32)), 5) = slice_spec 4 (unat value) 5 s"
      by (rule slice_done [of _ _ "[a]" r])
        (use 1 acc unat_u8_less [of a] in \<open>simp_all add: unat_part_join parts\<close>)
    with 1 show ?thesis by (simp add: decode_varint_slice_hi_def)
  next
    case (2 a b r)
    have "Ok (value + push_bit 28 (ucast ((ucast a :: u32) + push_bit 7 (ucast b))), 6)
        = slice_spec 4 (unat value) 5 s"
      by (rule slice_done [of _ _ "[a, b]" r])
        (use 2 acc unat_u8_less [of a] unat_u8_less [of b] in \<open>simp_all add: unat_part_join parts\<close>)
    with 2 show ?thesis by (simp add: decode_varint_slice_hi_def)
  next
    case (3 a b c r)
    have "Ok (value + push_bit 28 (ucast ((ucast a :: u32) + push_bit 7 (ucast b) + push_bit 14 (ucast c))), 7)
        = slice_spec 4 (unat value) 5 s"
      by (rule slice_done [of _ _ "[a, b, c]" r])
        (use 3 acc unat_u8_less [of a] unat_u8_less [of b] unat_u8_less [of c]
         in \<open>simp_all add: unat_part_join parts\<close>)
    with 3 show ?thesis by (simp add: decode_varint_slice_hi_def)
  next
    case (4 a b c d r)
    have "Ok (value + push_bit 28 (ucast ((ucast a :: u32) + push_bit 7 (ucast b) + push_bit 14 (ucast c)
          + push_bit 21 (ucast d))), 8) = slice_spec 4 (unat value) 5 s"
      by (rule slice_done [of _ _ "[a, b, c, d]" r])
        (use 4 acc unat_u8_less [of a] unat_u8_less [of b] unat_u8_less [of c] unat_u8_less [of d]
         in \<open>simp_all add: unat_part_join parts\<close>)
    with 4 show ?thesis by (simp add: decode_varint_slice_hi_def)
  next
    case (5 a b c d e r)
    define v where "v = value + push_bit 28 (ucast ((ucast a :: u32) + push_bit 7 (ucast b)
      + push_bit 14 (ucast c) + push_bit 21 (ucast d)))"
    have v: "unat v = unat value + 2 ^ 28 * (unat a + unat b * 2 ^ 7 + unat c * 2 ^ 14 + unat d * 2 ^ 21)"
      unfolding v_def
      using acc unat_u8_less [of a] unat_u8_less [of b] unat_u8_less [of c] unat_u8_less [of d]
      by (subst unat_part_join) (simp_all add: four)
    have lt: "unat v < 2 ^ 59"
      unfolding v using acc unat_u8_less [of a] unat_u8_less [of b] unat_u8_less [of c] unat_u8_less [of d]
      by simp
    have take: "take_varint 5 s = Some ([a, b, c, d, e], r)" using 5 by simp
    have total: "unat value + 128 ^ 4 * vval [a, b, c, d, e] = unat v + unat e * 2 ^ 56"
      by (simp add: v)
    have "decode_varint_slice_hi (b0 # b1 # b2 # b3 # s) value =
      Some (if (ucast e :: u32) + ucast (drop_bit 56 v) > 0xff then Err InvalidVarint
        else Ok (v + push_bit 56 (ucast e), 9))"
      using 5 by (simp add: decode_varint_slice_hi_def v_def)
    also have "\<dots> = Some (slice_spec 4 (unat value) 5 s)"
    proof (cases "unat v + unat e * 2 ^ 56 < 2 ^ 64")
      case True
      then have "Ok (v + push_bit 56 (ucast e), 9) = slice_spec 4 (unat value) 5 s"
        by (intro slice_done [OF take]) (simp_all only: total unat_u64_add, simp)
      with True lt show ?thesis by (simp only: overflow_check) simp
    next
      case False
      with lt take total show ?thesis
        by (simp only: overflow_check) (simp add: slice_spec_def)
    qed
    finally show ?thesis .
  qed
qed


lemma slice_spec_Cons:
  "\<not> b < 0x80 \<Longrightarrow> pred_numeral k \<noteq> 0 \<Longrightarrow> slice_spec done acc (numeral k) (b # s) =
    slice_spec (Suc done) (acc + 128 ^ done * unat b) (pred_numeral k) s"
  by (auto simp: slice_spec_def algebra_simps simp del: of_nat_add of_nat_mult split: option.splits)

lemma decode_varint_slice_eq:
  assumes "length bs \<ge> 9 \<or> bs \<noteq> [] \<and> last bs < 0x80"
  shows "decode_varint_slice bs = Some (slice_spec 0 0 9 bs)"
proof -
  have pre: "bs \<noteq> []" "length bs \<ge> 9 \<or> bs ! (length bs - 1) < 0x80"
    using assms by (auto simp: last_conv_nth)
  have one: "unat (ucast (a :: u8) :: u32) = unat a" for a
    by (rule unat_ucast_u8_wide) simp
  have two: "unat ((ucast a :: u32) + push_bit 7 (ucast b)) = unat a + unat b * 2 ^ 7" for a b :: u8
    using unat_u8_less [of a] unat_u8_less [of b] by (subst unat_u32_add) (simp_all add: one)
  have three: "unat ((ucast a :: u32) + push_bit 7 (ucast b) + push_bit 14 (ucast c))
      = unat a + unat b * 2 ^ 7 + unat c * 2 ^ 14" for a b c :: u8
    using unat_u8_less [of a] unat_u8_less [of b] unat_u8_less [of c]
    by (subst unat_u32_add) (simp_all add: two)
  have four: "unat ((ucast a :: u32) + push_bit 7 (ucast b) + push_bit 14 (ucast c) + push_bit 21 (ucast d))
      = unat a + unat b * 2 ^ 7 + unat c * 2 ^ 14 + unat d * 2 ^ 21" for a b c d :: u8
    using unat_u8_less [of a] unat_u8_less [of b] unat_u8_less [of c] unat_u8_less [of d]
    by (subst unat_u32_add) (simp_all add: three)
  note parts = one two three four
  have "length bs \<ge> 5 \<or> bs \<noteq> [] \<and> last bs < 0x80" using assms by auto
  then show ?thesis
  proof (cases rule: tail_cases)
    case (1 a r)
    have "Ok (ucast (ucast a :: u32), 1) = slice_spec 0 0 9 bs"
      by (rule slice_done [of _ _ "[a]" r]) (use 1 in \<open>simp_all add: parts\<close>)
    with 1 pre show ?thesis by (simp add: decode_varint_slice_def)
  next
    case (2 a b r)
    have "Ok (ucast ((ucast a :: u32) + push_bit 7 (ucast b)), 2) = slice_spec 0 0 9 bs"
      by (rule slice_done [of _ _ "[a, b]" r]) (use 2 in \<open>simp_all add: parts\<close>)
    with 2 pre show ?thesis by (simp add: decode_varint_slice_def)
  next
    case (3 a b c r)
    have "Ok (ucast ((ucast a :: u32) + push_bit 7 (ucast b) + push_bit 14 (ucast c)), 3)
        = slice_spec 0 0 9 bs"
      by (rule slice_done [of _ _ "[a, b, c]" r]) (use 3 in \<open>simp_all add: parts\<close>)
    with 3 pre show ?thesis by (simp add: decode_varint_slice_def)
  next
    case (4 a b c d r)
    have "Ok (ucast ((ucast a :: u32) + push_bit 7 (ucast b) + push_bit 14 (ucast c) + push_bit 21 (ucast d)), 4)
        = slice_spec 0 0 9 bs"
      by (rule slice_done [of _ _ "[a, b, c, d]" r]) (use 4 in \<open>simp_all add: parts\<close>)
    with 4 pre show ?thesis by (simp add: decode_varint_slice_def)
  next
    case (5 a b c d e r)
    let ?v = "ucast ((ucast a :: u32) + push_bit 7 (ucast b) + push_bit 14 (ucast c) + push_bit 21 (ucast d)) :: u64"
    have v: "unat ?v = unat a + unat b * 2 ^ 7 + unat c * 2 ^ 14 + unat d * 2 ^ 21"
      by (simp add: four)
    have "unat ?v < 2 ^ 30"
      unfolding v using unat_u8_less [of a] unat_u8_less [of b] unat_u8_less [of c] unat_u8_less [of d] by simp
    moreover have "length (e # r) \<ge> 5 \<or> e # r \<noteq> [] \<and> last (e # r) < 0x80"
      using assms 5(1) by auto
    ultimately have "decode_varint_slice bs = Some (slice_spec 4 (unat ?v) 5 (e # r))"
      using pre 5 slice_hi [of "e # r" ?v a b c d] by (simp add: decode_varint_slice_def)
    also have "slice_spec 4 (unat ?v) 5 (e # r) = slice_spec 0 0 9 bs"
    proof -
      have [simp]: "Suc (Suc (Suc (Suc 0))) = 4" by simp
      show ?thesis unfolding v using 5 by (simp add: slice_spec_Cons ac_simps)
    qed
    finally show ?thesis .
  qed
qed

lemma slice_spec_varint_spec:
  "slice_spec 0 0 9 s = (case varint_spec s of
     (Ok v, r) \<Rightarrow> Ok (v, length s - length r) | (Err e, r) \<Rightarrow> Err e)"
  by (auto simp: slice_spec_def varint_spec_def split: option.splits dest: take_varint_append)

text \<open>A prefix that already holds a complete varint decides the result.\<close>

lemma take_varint_more: "take_varint n s = Some (p, r) \<Longrightarrow> take_varint n (s @ t) = Some (p, r @ t)"
  by (induction n s arbitrary: p r rule: take_varint.induct) (auto split: if_splits option.splits)

lemma take_varint_complete:
  "length s \<ge> n \<or> s \<noteq> [] \<and> last s < 0x80 \<Longrightarrow> 0 < n \<Longrightarrow> \<exists>p r. take_varint n s = Some (p, r)"
  by (induction n s rule: take_varint.induct) (fastforce split: if_splits)+


text \<open>What remains to be decoded after \<open>count\<close> continuation bytes worth \<open>acc\<close>.\<close>

definition slow_spec :: "nat \<Rightarrow> nat \<Rightarrow> bytes \<Rightarrow> u64 decoded \<times> bytes" where
  "slow_spec count acc s =
    (case take_varint (9 - count) s of
       None \<Rightarrow> (Err Truncated, [])
     | Some (p, r) \<Rightarrow>
         (if acc + 128 ^ count * vval p < 2 ^ 64 then Ok (of_nat (acc + 128 ^ count * vval p))
          else Err InvalidVarint, r))"

lemma varint_spec_slow_spec: "varint_spec s = slow_spec 0 0 s"
  by (simp add: varint_spec_def slow_spec_def split: option.split)

lemma slow_spec_Nil: "count \<le> 8 \<Longrightarrow> slow_spec count acc [] = (Err Truncated, [])"
  by (cases "9 - count") (simp_all add: slow_spec_def)

lemma slow_spec_last: "slow_spec 8 acc (x # s) =
    (if acc + unat x * 2 ^ 56 < 2 ^ 64 then Ok (of_nat (acc + unat x * 2 ^ 56)) else Err InvalidVarint, s)"
  by (simp add: slow_spec_def mult.commute)

lemma slow_spec_Cons:
  assumes "count < 8"
  shows "slow_spec count acc (x # s) =
    (if x < 0x80 then
       (if acc + unat x * 128 ^ count < 2 ^ 64 then Ok (of_nat (acc + unat x * 128 ^ count))
        else Err InvalidVarint, s)
     else slow_spec (count + 1) (acc + unat x * 128 ^ count) s)"
proof -
  obtain n where n: "9 - count = Suc n" "n \<noteq> 0" "8 - count = n" using assms
    by (cases "9 - count") auto
  show ?thesis
    by (auto simp: slow_spec_def n algebra_simps simp del: of_nat_add of_nat_mult split: option.splits)
qed

lemma checked_add_last:
  "checked_add_u64 v (push_bit 56 (ucast (x :: u8))) =
    (if unat v + unat x * 2 ^ 56 < 2 ^ 64 then Some (of_nat (unat v + unat x * 2 ^ 56)) else None)"
proof -
  have x: "unat (ucast x :: u64) = unat x" by (rule unat_ucast_u8_wide) simp
  have "unat (push_bit 56 (ucast x :: u64)) = unat x * 2 ^ 56 mod 2 ^ 64"
    by (simp only: unsigned_push_bit_eq x) (simp add: take_bit_eq_mod push_bit_eq_mult)
  then have u: "unat (push_bit 56 (ucast x :: u64)) = unat x * 2 ^ 56"
    using unat_u8_less [of x] by simp
  have "unat v + unat x * 2 ^ 56 < 2 ^ 64 \<Longrightarrow>
      v + push_bit 56 (ucast x) = of_nat (unat v + unat x * 2 ^ 56)"
    by (rule eq_of_natI, rule unat_u64_add)
  then show ?thesis by (simp only: checked_add_u64_def u) simp
qed

lemma slow_step_bound:
  assumes "count < 8" and "acc < 4 * 128 ^ count"
  shows "acc + unat (x :: u8) * 128 ^ count < 4 * 128 ^ (count + 1)"
    and "acc + unat x * 128 ^ count < 2 ^ 64"
proof -
  have "unat x * 128 ^ count \<le> 255 * 128 ^ count"
    using unat_u8_less [of x] by (intro mult_le_mono1) simp
  with assms(2) have "acc + unat x * 128 ^ count < 4 * 128 ^ count + 255 * 128 ^ count"
    by (rule add_less_le_mono)
  then show 1: "acc + unat x * 128 ^ count < 4 * 128 ^ (count + 1)" by simp
  have "(128::nat) ^ (count + 1) \<le> 128 ^ 8" using assms(1) by (intro power_increasing) auto
  then show "acc + unat x * 128 ^ count < 2 ^ 64" using 1 by simp
qed

lemma vval_bound: "vval p + 3 \<le> 3 * 128 ^ length p"
proof (induction p)
  case Nil
  then show ?case by simp
next
  case (Cons b p)
  have "128 * (vval p + 3) \<le> 128 * (3 * 128 ^ length p)" using Cons.IH by (rule mult_le_mono2)
  then show ?case using unat_u8_less [of b] by simp
qed

lemma vval_short: "length p < 9 \<Longrightarrow> vval p < 2 ^ 64"
proof -
  assume "length p < 9"
  then have "(128::nat) ^ length p \<le> 128 ^ 8" by (intro power_increasing) auto
  then show ?thesis using vval_bound [of p] by simp
qed

context buf_contract
begin

lemma slow_loop_spec:
  assumes "binv b" and "n \<le> 8 - count" and "n \<le> length (contents b)"
    and "n = 8 - count \<or> n = length (contents b)" and "count \<le> 8"
    and "unat a < 4 * 128 ^ count"
  shows "\<exists>b'. decode_varint_slow_loop ops n count a b =
      Some (fst (slow_spec count (unat a) (contents b)), b') \<and>
    binv b' \<and> contents b' = snd (slow_spec count (unat a) (contents b))"
  using assms
proof (induction n arbitrary: count a b)
  case 0
  show ?case
  proof (cases "contents b")
    case Nil
    then show ?thesis using 0 by (simp add: remaining slow_spec_Nil)
  next
    case (Cons x s)
    then have count: "count = 8" using 0 by simp
    from get_u8 [OF 0(1) Cons] obtain b' where
      b': "b_get_u8 ops b = Some (x, b')" "binv b'" "contents b' = s" by auto
    then show ?thesis
      using 0 Cons count by (simp add: remaining checked_add_last slow_spec_last)
  qed
next
  case (Suc n)
  then obtain x s where s: "contents b = x # s" by (cases "contents b") auto
  from get_u8 [OF Suc.prems(1) s] obtain b' where
    b': "b_get_u8 ops b = Some (x, b')" "binv b'" "contents b' = s" by auto
  have count: "count < 8" using Suc.prems by simp
  define v where "v = a + push_bit (count * 7) (ucast x)"
  have "(2::nat) ^ (count * 7) = (2 ^ 7) ^ count" by (simp only: mult.commute [of count 7] power_mult)
  then have pow: "(2::nat) ^ (count * 7) = 128 ^ count" by simp
  note bound = slow_step_bound [OF count Suc.prems(6), of x]
  have v: "unat v = unat a + unat x * 128 ^ count"
    using unat_u64_add [of a x "count * 7"] bound(2) by (simp add: v_def pow)
  show ?case
  proof (cases "x < 0x80")
    case True
    have "v = of_nat (unat a + unat x * 128 ^ count)" using v by (rule eq_of_natI)
    with True b' s bound(2) show ?thesis
      by (simp add: slow_spec_Cons [OF count] v_def [symmetric])
  next
    case False
    have "\<exists>b''. decode_varint_slow_loop ops n (count + 1) v b' =
        Some (fst (slow_spec (count + 1) (unat v) (contents b')), b'') \<and>
      binv b'' \<and> contents b'' = snd (slow_spec (count + 1) (unat v) (contents b'))"
      by (rule Suc.IH) (use Suc.prems b' s bound(1) v count in auto)
    with False b' s show ?thesis
      by (simp add: slow_spec_Cons [OF count] v_def [symmetric] v)
  qed
qed

lemma decode_varint_slow_eq:
  assumes "binv b"
  shows "\<exists>b'. decode_varint_slow ops b = Some (fst (varint_spec (contents b)), b') \<and>
    binv b' \<and> contents b' = snd (varint_spec (contents b))"
  using slow_loop_spec [of b "min 8 (length (contents b))" 0 0] assms
  by (simp add: decode_varint_slow_def remaining varint_spec_slow_spec min_def)

lemma varint_spec_prefix:
  assumes "contents b = c @ rest" and "length c \<ge> 9 \<or> c \<noteq> [] \<and> last c < 0x80"
  obtains p r where "take_varint 9 c = Some (p, r)" "c = p @ r" "length p \<le> 9"
    "varint_spec (contents b) = (fst (varint_spec c), r @ rest)"
proof -
  from take_varint_complete [OF assms(2)] obtain p r where pr: "take_varint 9 c = Some (p, r)"
    by auto
  have "varint_spec (contents b) = (fst (varint_spec c), r @ rest)"
    using take_varint_more [OF pr, of rest] pr assms(1) by (simp add: varint_spec_def)
  then show thesis
    using that pr take_varint_append [OF pr] take_varint_length [OF pr] by blast
qed


lemma decode_varint_eq:
  assumes inv: "binv b"
  shows "\<exists>b'. decode_varint ops b = Some (fst (varint_spec (contents b)), b') \<and>
    binv b' \<and> contents b' = snd (varint_spec (contents b))"
proof (cases "b_chunk ops b")
  case Nil
  then have "contents b = []" using inv by (simp add: chunk_Nil_iff)
  with inv Nil show ?thesis by (simp add: decode_varint_def varint_spec_def)
next
  case (Cons x xs)
  obtain rest where rest: "contents b = (x # xs) @ rest"
    using chunk_prefix [OF inv] Cons by auto
  show ?thesis
  proof (cases "x < 0x80")
    case True
    obtain b' where "b_advance ops 1 b = Some b'" "binv b'" "contents b' = xs @ rest"
      using advance [OF inv, of 1] rest by auto
    moreover have "varint_spec (contents b) = (Ok (ucast x), xs @ rest)"
      using True rest unat_u8_less [of x]
      by (simp add: varint_spec_def u8_less_0x80)
    ultimately show ?thesis using True Cons by (simp add: decode_varint_def)
  next
    case False
    show ?thesis
    proof (cases "length (x # xs) \<ge> 9 \<or> last (x # xs) < 0x80")
      case True
      then obtain p r where p: "take_varint 9 (x # xs) = Some (p, r)" "x # xs = p @ r" "length p \<le> 9"
        "varint_spec (contents b) = (fst (varint_spec (x # xs)), r @ rest)"
        using varint_spec_prefix [OF rest] by blast
      have nine: "vval p < 2 ^ 64 \<or> length p = 9"
        using vval_short [of p] p(3) by linarith
      have slice: "decode_varint_slice (x # xs) = Some (slice_spec 0 0 9 (x # xs))"
        using True by (intro decode_varint_slice_eq) auto
      have adv: "contents b = p @ r @ rest" using rest p(2) by simp
      obtain b' where b': "b_advance ops (length p) b = Some b'" "binv b'" "contents b' = r @ rest"
        using advance [OF inv, of "length p"] adv by auto
      have cond: "length (x # xs) \<ge> 9 \<or> (x # xs) ! (length (x # xs) - 1) < 0x80"
        using True last_conv_nth [of "x # xs"] by simp
      have "decode_varint ops b = do {
          r \<leftarrow> decode_varint_slice (x # xs);
          let (result, adv) = (case r of Ok (ok, adv) \<Rightarrow> (Ok ok, adv) | Err err \<Rightarrow> (Err err, 9));
          buf' \<leftarrow> b_advance ops adv b;
          Some (result, buf')}"
        using False cond Cons by (simp add: decode_varint_def Let_def)
      also have "\<dots> = Some (fst (varint_spec (x # xs)), b')"
        using p(1) b'(1) nine unfolding slice by (auto simp: slice_spec_def varint_spec_def)
      finally have "decode_varint ops b = Some (fst (varint_spec (x # xs)), b')" .
      with b' p(4) show ?thesis by simp
    next
      case slow: False
      then have "decode_varint ops b = decode_varint_slow ops b"
        using False Cons last_conv_nth [of "x # xs"] by (simp add: decode_varint_def Let_def)
      with decode_varint_slow_eq [OF inv] show ?thesis by simp
    qed
  qed
qed

end

section \<open>The canonical bytes and the specification\<close>

definition varint_bytes :: "u64 \<Rightarrow> bytes" where
  "varint_bytes v = vbytes 9 (unat v)"

lemma take_varint_vbytes9: "take_varint 9 (vbytes 9 n @ r) = Some (vbytes 9 n, r)"
  using take_varint_vbytes [of 8 n r] by simp

lemma vval_vbytes9: "n < 2 ^ 64 \<Longrightarrow> vval (vbytes 9 n) = n"
  using vval_vbytes [of n 8] by simp

lemma varint_spec_vbytes [simp]: "varint_spec (varint_bytes v @ r) = (Ok v, r)"
  using unat_lt [of v] by (simp add: varint_spec_def varint_bytes_def take_varint_vbytes9 vval_vbytes9)

lemma varint_spec_vbytes_only [simp]: "varint_spec (varint_bytes v) = (Ok v, [])"
  using varint_spec_vbytes [of v "[]"] by simp

lemma varint_spec_Ok: "varint_spec s = (Ok v, r) \<longleftrightarrow> s = varint_bytes v @ r"
proof
  assume "varint_spec s = (Ok v, r)"
  then obtain p where p: "take_varint 9 s = Some (p, r)" "vval p < 2 ^ 64" "v = of_nat (vval p)"
    by (auto simp: varint_spec_def split: option.splits if_splits)
  then have "unat v = vval p" by (simp add: unat_of_nat)
  then show "s = varint_bytes v @ r"
    using take_varint_append [OF p(1)] vbytes_vval [of 8 s p r] p(1)
    by (simp add: varint_bytes_def)
qed simp

lemma varint_bytes_neq_Nil [simp]: "varint_bytes v \<noteq> []"
  using length_vbytes_pos [of 8 "unat v"] by (simp add: varint_bytes_def)

lemma length_varint_bytes: "0 < length (varint_bytes v)" "length (varint_bytes v) \<le> 9"
  using length_vbytes_pos [of 8 "unat v"] length_vbytes_le [of 9 "unat v"]
  by (simp_all add: varint_bytes_def)

lemma encode_varint_bytes: "encode_varint v buf = buf @ varint_bytes v"
  by (simp add: varint_bytes_def encode_varint_eq)

lemma varint_bytes_small: "v < 0x80 \<Longrightarrow> varint_bytes v = [ucast v]"
  using vbytes_small [of "unat v" 8] by (simp add: varint_bytes_def u64_less_0x80)

lemma encode_varint_small: "v < 0x80 \<Longrightarrow> encode_varint v buf = buf @ [ucast v]"
  by (simp add: encode_varint_bytes varint_bytes_small)

lemma encoded_len_varint_bytes: "encoded_len_varint v = length (varint_bytes v)"
  by (simp add: varint_bytes_def encoded_len_varint_eq)

lemma varint_bytes_inject [simp]: "varint_bytes v @ r = varint_bytes w @ s \<longleftrightarrow> v = w \<and> r = s"
  by (metis varint_spec_vbytes prod.inject result.inject(1))

section \<open>Properties\<close>

text \<open>
  C34. The varint decoder, with its one-byte, contiguous and byte-by-byte paths, never panics or
  reads outside a chunk on any buffer that keeps the \<^verbatim>\<open>Buf\<close> contract, and its result and the bytes
  left depend on the content of the buffer alone, not on its chunks: they are those of the
  specification, which groups seven bits to a byte, adds the offset of each continuation byte, and
  reports a value of \<open>2 ^ 64\<close> or more as \<open>InvalidVarint\<close> and a missing end as \<open>Truncated\<close>.
\<close>

theorem decode_varint_refines:
  assumes "buf_contract ops contents binv" and "binv b"
  shows "\<exists>b'. decode_varint ops b = Some (fst (varint_spec (contents b)), b') \<and>
    binv b' \<and> contents b' = snd (varint_spec (contents b))"
  using assms by (rule buf_contract.decode_varint_eq)

theorem decode_varint_refines_witness:
  "\<exists>b'. decode_varint slice_ops [0xC5, 0x00, 7] = Some (Ok 197, b') \<and> b' = [7]"
  using decode_varint_refines [OF slice.buf_contract_axioms, of "[0xC5, 0x00, 7]"]
  by (simp add: varint_spec_def)

text \<open>C35. Every 64-bit value that is encoded is decoded again, whatever follows it and however the
  bytes are chunked.\<close>

theorem varint_roundtrip:
  assumes "buf_contract ops contents binv" and "binv b" and "contents b = encode_varint v [] @ rest"
  shows "\<exists>b'. decode_varint ops b = Some (Ok v, b') \<and> binv b' \<and> contents b' = rest"
  using buf_contract.decode_varint_eq [OF assms(1,2)] assms(3) by (simp add: encode_varint_bytes)

theorem varint_roundtrip_witness:
  "decode_varint slice_ops (encode_varint 0xFFFFFFFFFFFFFFFF [] @ [1, 2]) = Some (Ok 0xFFFFFFFFFFFFFFFF, [1, 2])"
  using varint_roundtrip [OF slice.buf_contract_axioms TrueI refl, of "0xFFFFFFFFFFFFFFFF" "[1, 2]"]
  by simp

text \<open>C36. No value has a second encoding: whatever bytes decode to a value are its encoding.\<close>

theorem varint_unique:
  assumes "buf_contract ops contents binv" and "binv b" and "decode_varint ops b = Some (Ok v, b')"
  shows "contents b = encode_varint v [] @ contents b'"
proof -
  have "varint_spec (contents b) = (Ok v, contents b')"
    using buf_contract.decode_varint_eq [OF assms(1,2)] assms(3) by (metis fst_conv option.inject prod.collapse snd_conv)
  then show ?thesis by (simp add: varint_spec_Ok encode_varint_bytes)
qed

theorem varint_unique_witness: "[0x80, 0x00, 5 :: u8] = encode_varint 0x80 [] @ [5]"
  using varint_unique [OF slice.buf_contract_axioms TrueI, of "[0x80, 0x00, 5]" "0x80" "[5]"]
  by (simp add: decode_varint_def decode_varint_slice_def get_at_def Let_def)

text \<open>
  C37. The five ways of encoding, the loop, the unrolled branches, these two on any prepend buffer and the
  compile-time one, write the same bytes, at least one and at most nine, as many as
  \<^verbatim>\<open>encoded_len_varint\<close> announces; prepending does not panic and leaves the bytes
  already there in place.
\<close>

theorem varint_encoders_agree:
  assumes "rev_buf_contract rops rcontents rinv" and "rinv r"
  shows "encode_varint v buf = buf @ encode_varint v [] \<and>
   encode_varint_unrolled v buf = buf @ encode_varint v [] \<and>
   (\<exists>r'. prepend_varint rops v r = Some r' \<and> rinv r' \<and> rcontents r' = encode_varint v [] @ rcontents r) \<and>
   (\<exists>r'. prepend_varint_unrolled rops v r = Some r' \<and> rinv r' \<and> rcontents r' = encode_varint v [] @ rcontents r) \<and>
   const_varint_deref (const_varint v) = encode_varint v [] \<and>
   encoded_len_varint v = length (encode_varint v []) \<and>
   1 \<le> encoded_len_varint v \<and> encoded_len_varint v \<le> 9"
proof -
  have "encode_varint v buf = buf @ encode_varint v []" "encode_varint_unrolled v buf = buf @ encode_varint v []"
    "const_varint_deref (const_varint v) = encode_varint v []" "encoded_len_varint v = length (encode_varint v [])"
    "1 \<le> encoded_len_varint v" "encoded_len_varint v \<le> 9"
    using length_varint_bytes [of v]
    by (simp_all add: encode_varint_eq encode_varint_unrolled_eq const_varint_eq encoded_len_varint_eq
        varint_bytes_def Suc_le_eq)
  moreover have "\<exists>r'. prepend_varint rops v r = Some r' \<and> rinv r' \<and> rcontents r' = encode_varint v [] @ rcontents r"
    "\<exists>r'. prepend_varint_unrolled rops v r = Some r' \<and> rinv r' \<and> rcontents r' = encode_varint v [] @ rcontents r"
    using rev_buf_contract.prepends_varint [OF assms(1), of v]
      rev_buf_contract.prepends_varint_unrolled [OF assms(1), of v] assms(2)
    by (simp_all add: encode_varint_eq rev_buf_contract.prepends_def [OF assms(1)])
  ultimately show ?thesis by blast
qed

theorem varint_encoders_agree_witness:
  "prepend_varint list_rev_ops 300 [1] = Some [0xAC, 1, 1] \<and> encode_varint_unrolled 300 [7] = [7, 0xAC, 1] \<and>
   prepend_varint_unrolled list_rev_ops 300 [1] = Some [0xAC, 1, 1] \<and>
   const_varint_deref (const_varint 300) = [0xAC, 1] \<and> encoded_len_varint 300 = 2"
proof -
  have e: "encode_varint 300 [] = [0xAC, 1]" by code_simp
  show ?thesis
    using varint_encoders_agree [OF list_rev.rev_buf_contract_axioms TrueI, of 300 "[7]" "[1]"]
    unfolding e by auto
qed

end
