(* ===== verification/Reverse_Buffer.thy ===== *)
theory Reverse_Buffer
  imports Varint
begin

text \<open>
  The exponentially growing, prepend-only buffer of \<^verbatim>\<open>src/src/buf.rs\<close>, in its default (unsafe)
  build: chunks of possibly uninitialised cells, newest chunk last, and an index \<open>rb_front\<close> of the
  first initialised cell of the newest chunk. \<open>None\<close> is a panic or undefined behaviour: an index
  outside a chunk, a subtraction below zero, a zero-sized allocation, an allocation that
  \<^verbatim>\<open>Layout::array\<close> refuses, a sum of sizes that overflows, a read of an uninitialised cell. The sizes that can
  be too large depend on a \<open>target\<close>: 64-bit, with overflow checks or wrapping without them, or the idealised
  \<open>Unbounded\<close> one, on which the rest of the development uses the buffer; \<^verbatim>\<open>Buffer_Runs\<close> shows that they do not differ
  below two to the power of 61 bytes. An allocator that runs out of memory is not modelled. Debug assertions
  are separate predicates, since release builds do not have them. The lemmas show that every operation keeps the
  invariant \<open>rb_inv\<close> and acts on \<open>rb_contents\<close>, the bytes a reader sees, as its documentation says;
  they discharge the contracts \<open>rev_buf_contract\<close> and \<open>buf_contract\<close>.
\<close>

section \<open>State\<close>

type_synonym cell = "u8 option"

record reverse_buffer =
  rb_chunks :: "cell list list"
  rb_front :: nat
  rb_capacity :: nat
  rb_planned_allocation :: nat
  rb_planned_exact :: bool
  rb_keep_back :: bool

definition MAX_SELF_COPY :: nat where
  "MAX_SELF_COPY = 9"

text \<open>\<^verbatim>\<open>2 * mem::size_of::<&[u8]>()\<close> on a 64-bit target.\<close>

definition MIN_CHUNK_SIZE :: nat where
  "MIN_CHUNK_SIZE = 32"

definition rb_new :: reverse_buffer where
  "rb_new = \<lparr>rb_chunks = [], rb_front = 0, rb_capacity = 0, rb_planned_allocation = 0,
     rb_planned_exact = False, rb_keep_back = False\<rparr>"

text \<open>The arithmetic of a target: \<open>Bits64\<close> says whether sums are checked (a panic) or wrap around.\<close>

datatype target = Unbounded | Bits64 bool

definition isize_max :: nat where
  "isize_max = 2 ^ 63 - 1"

definition usize_add :: "target \<Rightarrow> nat \<Rightarrow> nat \<Rightarrow> nat option" where
  "usize_add tg a b =
    (case tg of
       Unbounded \<Rightarrow> Some (a + b)
     | Bits64 checks \<Rightarrow>
         if a + b < 2 ^ 64 then Some (a + b) else if checks then None else Some ((a + b) mod 2 ^ 64))"

text \<open>
  Fresh cells are uninitialised; a zero-sized allocation is undefined behaviour, and \<^verbatim>\<open>Layout::array::<u8>\<close> is an
  error, which \<^verbatim>\<open>unwrap\<close> makes a panic, for more than \<^verbatim>\<open>isize::MAX\<close> bytes.
\<close>

definition layout_array_u8 :: "target \<Rightarrow> nat \<Rightarrow> nat option" where
  "layout_array_u8 tg n = (if tg \<noteq> Unbounded \<and> n > isize_max then None else Some n)"

definition allocate_chunk :: "target \<Rightarrow> nat \<Rightarrow> cell list option" where
  "allocate_chunk tg new_chunk_size = do {
     layout \<leftarrow> layout_array_u8 tg new_chunk_size;
     if layout = 0 then None else Some (replicate layout None)
   }"

definition rb_with_capacity :: "target \<Rightarrow> nat \<Rightarrow> reverse_buffer option" where
  "rb_with_capacity tg capacity =
    (if capacity = 0 then Some rb_new
     else do {
       chunk \<leftarrow> allocate_chunk tg capacity;
       Some \<lparr>rb_chunks = [chunk], rb_front = capacity, rb_capacity = capacity,
         rb_planned_allocation = 0, rb_planned_exact = False, rb_keep_back = True\<rparr>
     })"

definition rb_from_boxed_slice :: "bytes \<Rightarrow> reverse_buffer" where
  "rb_from_boxed_slice value =
    rb_new\<lparr>rb_capacity := length value, rb_chunks := [map Some value], rb_front := 0\<rparr>"

section \<open>Inspection\<close>

definition checked_sub :: "nat \<Rightarrow> nat \<Rightarrow> nat option" where
  "checked_sub a b = (if b \<le> a then Some (a - b) else None)"

definition rb_len :: "reverse_buffer \<Rightarrow> nat option" where
  "rb_len rb = checked_sub (rb_capacity rb) (rb_front rb)"

definition rb_is_empty :: "reverse_buffer \<Rightarrow> bool option" where
  "rb_is_empty rb = map_option (\<lambda>n. n = 0) (rb_len rb)"

text \<open>The debug assertions of \<^verbatim>\<open>len\<close> and \<^verbatim>\<open>chunk\<close>.\<close>

definition rb_len_debug_assert :: "reverse_buffer \<Rightarrow> bool" where
  "rb_len_debug_assert rb \<longleftrightarrow>
    \<not> (rb_chunks rb = [] \<and> rb_front rb > 0) \<and> (rb_chunks rb = []) = (rb_capacity rb = 0)"

definition rb_chunk_debug_assert :: "reverse_buffer \<Rightarrow> bool" where
  "rb_chunk_debug_assert rb \<longleftrightarrow>
    rb_chunks rb = [] \<or> rb_front rb < length (last (rb_chunks rb))"

text \<open>The bytes of a run of cells, if all are initialised.\<close>

definition init_bytes :: "cell list \<Rightarrow> bytes option" where
  "init_bytes cs = (if None \<in> set cs then None else Some (map the cs))"

definition rb_chunk :: "reverse_buffer \<Rightarrow> bytes option" where
  "rb_chunk rb =
    (if rb_chunks rb = [] then Some []
     else if rb_front rb \<le> length (last (rb_chunks rb)) then
       init_bytes (drop (rb_front rb) (last (rb_chunks rb)))
     else None)"

definition rb_contiguous :: "reverse_buffer \<Rightarrow> bytes option option" where
  "rb_contiguous rb =
    (if length (rb_chunks rb) \<le> 1 then map_option Some (rb_chunk rb) else Some None)"

definition rb_remaining_writable :: "nat \<Rightarrow> reverse_buffer \<Rightarrow> nat option" where
  "rb_remaining_writable usize_max rb = checked_sub usize_max (rb_capacity rb)"

text \<open>The slices in reading order: the front chunk from \<open>front\<close>, then the older chunks.\<close>

definition to_vectorable_slices :: "cell list list \<Rightarrow> nat \<Rightarrow> bytes option list" where
  "to_vectorable_slices chunks front =
    (case rev chunks of
       [] \<Rightarrow> []
     | front_chunk # rest \<Rightarrow>
         (if front \<le> length front_chunk then init_bytes (drop front front_chunk) else None)
           # map init_bytes rest)"

definition rb_slices :: "reverse_buffer \<Rightarrow> bytes option list" where
  "rb_slices rb = to_vectorable_slices (rb_chunks rb) (rb_front rb)"

section \<open>Clearing and planning\<close>

definition rb_clear :: "reverse_buffer \<Rightarrow> reverse_buffer option" where
  "rb_clear rb =
    (if rb_keep_back rb then
       (case rb_chunks rb of
          [] \<Rightarrow> None
        | c # _ \<Rightarrow> Some (rb\<lparr>rb_chunks := [c], rb_front := length c, rb_capacity := length c,
             rb_planned_allocation := 0, rb_planned_exact := False\<rparr>))
     else Some rb_new)"

definition plan_reservation :: "nat \<Rightarrow> reverse_buffer \<Rightarrow> reverse_buffer" where
  "plan_reservation additional rb =
    (case checked_sub additional (rb_front rb) of
       None \<Rightarrow> rb
     | Some more_needed \<Rightarrow>
         if rb_planned_allocation rb > more_needed then rb
         else rb\<lparr>rb_planned_allocation := more_needed, rb_planned_exact := False\<rparr>)"

definition plan_reservation_exact :: "target \<Rightarrow> nat \<Rightarrow> reverse_buffer \<Rightarrow> reverse_buffer option" where
  "plan_reservation_exact tg additional rb =
    (case checked_sub additional (rb_front rb) of
       None \<Rightarrow> Some rb
     | Some more_needed \<Rightarrow> do {
         planned \<leftarrow> usize_add tg (rb_capacity rb) more_needed;
         Some (rb\<lparr>rb_planned_allocation := planned, rb_planned_exact := True\<rparr>)
       })"

definition new_allocation_size :: "reverse_buffer \<Rightarrow> nat" where
  "new_allocation_size rb =
    (if rb_planned_exact rb then rb_planned_allocation rb
     else max (max MIN_CHUNK_SIZE (rb_capacity rb)) (rb_planned_allocation rb))"

section \<open>Writing\<close>

definition rb_grow :: "target \<Rightarrow> reverse_buffer \<Rightarrow> reverse_buffer option" where
  "rb_grow tg rb = do {
     let new_chunk_size = new_allocation_size rb;
     chunk \<leftarrow> allocate_chunk tg new_chunk_size;
     front \<leftarrow> usize_add tg (rb_front rb) new_chunk_size;
     capacity \<leftarrow> usize_add tg (rb_capacity rb) new_chunk_size;
     Some (rb\<lparr>rb_chunks := rb_chunks rb @ [chunk], rb_front := front, rb_capacity := capacity,
       rb_planned_allocation := 0, rb_planned_exact := False\<rparr>)
   }"

text \<open>Copy \<open>data\<close> over the cells from \<open>pos\<close> on; \<open>None\<close> outside the chunk.\<close>

definition write_at :: "nat \<Rightarrow> bytes \<Rightarrow> cell list \<Rightarrow> cell list option" where
  "write_at pos data cs =
    (if pos + length data \<le> length cs
     then Some (take pos cs @ map Some data @ drop (pos + length data) cs) else None)"

text \<open>\<^verbatim>\<open>front_chunk_mut\<close> is the empty slice when there is no chunk.\<close>

definition front_chunk_mut :: "reverse_buffer \<Rightarrow> cell list" where
  "front_chunk_mut rb = (if rb_chunks rb = [] then [] else last (rb_chunks rb))"

definition set_front_chunk :: "cell list \<Rightarrow> reverse_buffer \<Rightarrow> reverse_buffer" where
  "set_front_chunk cs rb =
    (if rb_chunks rb = [] then rb else rb\<lparr>rb_chunks := butlast (rb_chunks rb) @ [cs]\<rparr>)"

definition write_front :: "nat \<Rightarrow> bytes \<Rightarrow> reverse_buffer \<Rightarrow> reverse_buffer option" where
  "write_front pos data rb =
    map_option (\<lambda>cs. set_front_chunk cs rb) (write_at pos data (front_chunk_mut rb))"

text \<open>The backwards copy loop: \<open>zip\<close> stops at the shorter of the data and the cells before \<open>pos\<close>.\<close>

fun self_copy :: "bytes \<Rightarrow> nat \<Rightarrow> cell list \<Rightarrow> cell list" where
  "self_copy [] pos cs = cs"
| "self_copy (b # bs) 0 cs = cs"
| "self_copy (b # bs) (Suc pos) cs = self_copy bs pos (cs[pos := Some b])"

definition self_copy_front :: "bytes \<Rightarrow> reverse_buffer \<Rightarrow> reverse_buffer option" where
  "self_copy_front data rb =
    (if rb_front rb \<le> length (front_chunk_mut rb)
     then Some (set_front_chunk (self_copy (rev data) (rb_front rb) (front_chunk_mut rb)) rb)
     else None)"

definition grow_and_copy_slice :: "target \<Rightarrow> bytes \<Rightarrow> reverse_buffer \<Rightarrow> reverse_buffer option" where
  "grow_and_copy_slice tg data rb = do {
     let rb = plan_reservation (length data) rb;
     if rb_front rb = 0 then do {
       rb \<leftarrow> rb_grow tg rb;
       new_front \<leftarrow> checked_sub (rb_front rb) (length data);
       rb \<leftarrow> write_front new_front data rb;
       Some (rb\<lparr>rb_front := new_front\<rparr>)
     } else do {
       mid \<leftarrow> checked_sub (length data) (rb_front rb);
       let (data_front, data_back) = (take mid data, drop mid data);
       rb \<leftarrow> write_front 0 data_back rb;
       rb \<leftarrow> rb_grow tg rb;
       new_front \<leftarrow> checked_sub (rb_front rb) (length data);
       rb \<leftarrow> write_front new_front data_front rb;
       Some (rb\<lparr>rb_front := new_front\<rparr>)
     }
   }"

text \<open>
  \<open>sco\<close> is the compile-time flag \<^verbatim>\<open>ENABLE_SELF_COPY_OPTIMIZATION\<close>.
\<close>

definition rb_prepend_slice :: "target \<Rightarrow> bool \<Rightarrow> bytes \<Rightarrow> reverse_buffer \<Rightarrow> reverse_buffer option" where
  "rb_prepend_slice tg sco data rb =
    (case checked_sub (rb_front rb) (length data) of
       Some new_front \<Rightarrow> do {
         rb \<leftarrow> (if sco \<and> length data \<le> MAX_SELF_COPY then self_copy_front data rb
               else write_front new_front data rb);
         Some (rb\<lparr>rb_front := new_front\<rparr>)
       }
     | None \<Rightarrow> grow_and_copy_slice tg data rb)"

definition rb_prepend_array :: "target \<Rightarrow> bytes \<Rightarrow> reverse_buffer \<Rightarrow> reverse_buffer option" where
  "rb_prepend_array tg data rb =
    (case checked_sub (rb_front rb) (length data) of
       Some new_front \<Rightarrow> do {
         rb \<leftarrow> write_front new_front data rb;
         Some (rb\<lparr>rb_front := new_front\<rparr>)
       }
     | None \<Rightarrow> grow_and_copy_slice tg data rb)"

definition rb_prepend_u8 :: "target \<Rightarrow> u8 \<Rightarrow> reverse_buffer \<Rightarrow> reverse_buffer option" where
  "rb_prepend_u8 tg byte rb = do {
     rb \<leftarrow> (if rb_front rb = 0 then rb_grow tg rb else Some rb);
     new_front \<leftarrow> checked_sub (rb_front rb) 1;
     rb \<leftarrow> write_front new_front [byte] rb;
     Some (rb\<lparr>rb_front := new_front\<rparr>)
   }"

text \<open>
  Prepending from another buffer. \<^verbatim>\<open>copy_buf\<close> fills a destination of \<open>need\<close> cells from the chunks
  of \<open>data\<close>; the first numeral is fuel, and \<open>need\<close> units are enough because every chunk of a
  non-empty buffer is non-empty.
\<close>

fun copy_buf :: "'d buf_ops \<Rightarrow> nat \<Rightarrow> nat \<Rightarrow> 'd \<Rightarrow> (bytes \<times> 'd) option" where
  "copy_buf dops 0 need data = (if need = 0 then Some ([], data) else None)"
| "copy_buf dops (Suc fuel) need data =
    (if need = 0 then Some ([], data)
     else do {
       let src = b_chunk dops data;
       let copy_size = min (length src) need;
       data' \<leftarrow> b_advance dops copy_size data;
       (rest, data'') \<leftarrow> copy_buf dops fuel (need - copy_size) data';
       Some (take copy_size src @ rest, data'')
     })"

definition grow_and_copy_buf ::
    "target \<Rightarrow> 'd buf_ops \<Rightarrow> 'd \<Rightarrow> nat \<Rightarrow> reverse_buffer \<Rightarrow> reverse_buffer option" where
  "grow_and_copy_buf tg dops data prepending_len rb = do {
     let rb = plan_reservation prepending_len rb;
     let new_chunk_size = new_allocation_size rb;
     new_chunk \<leftarrow> allocate_chunk tg new_chunk_size;
     let old_front = rb_front rb;
     total_front \<leftarrow> usize_add tg new_chunk_size (rb_front rb);
     new_front \<leftarrow> checked_sub total_front prepending_len;
     let need = new_chunk_size - new_front;
     (front_data, data) \<leftarrow> copy_buf dops need need data;
     new_chunk \<leftarrow> write_at new_front front_data new_chunk;
     (back_data, data) \<leftarrow> copy_buf dops old_front old_front data;
     rb \<leftarrow> write_front 0 back_data rb;
     capacity \<leftarrow> usize_add tg (rb_capacity rb) new_chunk_size;
     Some (rb\<lparr>rb_chunks := rb_chunks rb @ [new_chunk], rb_front := new_front, rb_capacity := capacity,
       rb_planned_allocation := 0, rb_planned_exact := False\<rparr>)
   }"

definition rb_prepend ::
    "target \<Rightarrow> bool \<Rightarrow> 'd buf_ops \<Rightarrow> 'd \<Rightarrow> reverse_buffer \<Rightarrow> reverse_buffer option" where
  "rb_prepend tg sco dops data rb = (
     let prepending_len = b_remaining dops data in
     if prepending_len = 0 then Some rb
     else if prepending_len \<le> rb_front rb then do {
       let new_front = rb_front rb - prepending_len;
       rb \<leftarrow> (if sco \<and> prepending_len \<le> MAX_SELF_COPY then do {
                (data_to_slice, _) \<leftarrow> b_copy dops prepending_len data;
                self_copy_front data_to_slice rb
              } else do {
                (bs, _) \<leftarrow> copy_buf dops prepending_len prepending_len data;
                write_front new_front bs rb
              });
       Some (rb\<lparr>rb_front := new_front\<rparr>)
     }
     else grow_and_copy_buf tg dops data prepending_len rb)"

section \<open>Reading\<close>

function pop_chunks :: "reverse_buffer \<Rightarrow> reverse_buffer" where
  "pop_chunks rb =
    (if rb_chunks rb = [] then rb
     else let front_chunk_size = length (last (rb_chunks rb)) in
       if rb_front rb < front_chunk_size then rb
       else if rb_keep_back rb \<and> length (rb_chunks rb) = 1 then rb
       else pop_chunks (rb\<lparr>rb_chunks := butlast (rb_chunks rb),
              rb_capacity := rb_capacity rb - front_chunk_size,
              rb_front := rb_front rb - front_chunk_size,
              rb_planned_allocation := 0, rb_planned_exact := False\<rparr>))"
  by pat_completeness auto
termination
  by (relation "measure (\<lambda>rb. length (rb_chunks rb))") auto

definition rb_advance :: "nat \<Rightarrow> reverse_buffer \<Rightarrow> reverse_buffer option" where
  "rb_advance cnt rb =
    (if cnt = 0 then Some rb
     else do {
       len \<leftarrow> rb_len rb;
       if cnt > len then None
       else Some (pop_chunks (rb\<lparr>rb_front := rb_front rb + cnt\<rparr>))
     })"

text \<open>
  The provided methods of \<^verbatim>\<open>Buf\<close> that the crate calls, in terms of the required ones: a single
  byte is the first of the chunk, and copying out fills the destination chunk by chunk.
\<close>

definition rb_bytes :: "reverse_buffer \<Rightarrow> bytes" where
  "rb_bytes rb = (case rb_chunk rb of Some c \<Rightarrow> c | None \<Rightarrow> [])"

definition rb_core_ops :: "reverse_buffer buf_ops" where
  "rb_core_ops = \<lparr>
     b_remaining = (\<lambda>rb. the (rb_len rb)),
     b_chunk = rb_bytes,
     b_advance = rb_advance,
     b_get_u8 = (\<lambda>rb. case rb_bytes rb of
        [] \<Rightarrow> None | x # _ \<Rightarrow> map_option (Pair x) (rb_advance 1 rb)),
     b_copy = (\<lambda>_ _. None)\<rparr>"

definition rb_buf_ops :: "reverse_buffer buf_ops" where
  "rb_buf_ops = rb_core_ops\<lparr>b_copy := (\<lambda>n rb. copy_buf rb_core_ops n n rb)\<rparr>"

definition rb_rev_ops :: "bool \<Rightarrow> reverse_buffer rev_ops" where
  "rb_rev_ops sco = \<lparr>
     r_remaining = (\<lambda>rb. the (rb_len rb)),
     r_prepend_slice = rb_prepend_slice Unbounded sco,
     r_prepend_array = rb_prepend_array Unbounded,
     r_prepend_u8 = rb_prepend_u8 Unbounded\<rparr>"

text \<open>\<^verbatim>\<open>BufMut::put(&mut res, self)\<close> appends the chunks of \<open>self\<close> until none remain.\<close>

definition rb_into_vec :: "reverse_buffer \<Rightarrow> bytes option" where
  "rb_into_vec rb =
    (if length (rb_chunks rb) = 1 \<and> rb_front rb = 0 then init_bytes (last (rb_chunks rb))
     else do {
       len \<leftarrow> rb_len rb;
       (res, _) \<leftarrow> copy_buf rb_buf_ops len len rb;
       Some res
     })"

section \<open>The reader by reference\<close>

record rb_reader =
  rd_chunks :: "cell list list"
  rd_front :: nat
  rd_capacity :: nat

definition rb_buf_reader :: "reverse_buffer \<Rightarrow> rb_reader" where
  "rb_buf_reader rb = \<lparr>rd_chunks = rb_chunks rb, rd_front = rb_front rb, rd_capacity = rb_capacity rb\<rparr>"

definition rd_remaining :: "rb_reader \<Rightarrow> nat option" where
  "rd_remaining rd = checked_sub (rd_capacity rd) (rd_front rd)"

definition rd_chunk :: "rb_reader \<Rightarrow> bytes option" where
  "rd_chunk rd =
    (if rd_chunks rd = [] then Some []
     else if rd_front rd \<le> length (last (rd_chunks rd)) then
       init_bytes (drop (rd_front rd) (last (rd_chunks rd)))
     else None)"

definition rd_contiguous :: "rb_reader \<Rightarrow> bytes option option" where
  "rd_contiguous rd =
    (if length (rd_chunks rd) \<le> 1 then map_option Some (rd_chunk rd) else Some None)"

definition rd_slices :: "rb_reader \<Rightarrow> bytes option list" where
  "rd_slices rd = to_vectorable_slices (rd_chunks rd) (rd_front rd)"

function rd_pop_chunks :: "rb_reader \<Rightarrow> rb_reader" where
  "rd_pop_chunks rd =
    (if rd_chunks rd = [] then rd
     else let n = length (last (rd_chunks rd)) in
       if rd_front rd < n then rd
       else rd_pop_chunks (rd\<lparr>rd_chunks := butlast (rd_chunks rd),
              rd_front := rd_front rd - n, rd_capacity := rd_capacity rd - n\<rparr>))"
  by pat_completeness auto
termination
  by (relation "measure (\<lambda>rd. length (rd_chunks rd))") auto

definition rd_advance :: "nat \<Rightarrow> rb_reader \<Rightarrow> rb_reader option" where
  "rd_advance cnt rd =
    (if cnt = 0 then Some rd
     else do {
       len \<leftarrow> rd_remaining rd;
       if cnt > len then None
       else Some (rd_pop_chunks (rd\<lparr>rd_front := rd_front rd + cnt\<rparr>))
     })"

section \<open>Invariant and abstraction\<close>

lemma usize_add_Unbounded [simp]: "usize_add Unbounded a b = Some (a + b)"
  by (simp add: usize_add_def)

lemma allocate_chunk_Unbounded [simp]:
  "allocate_chunk Unbounded n = (if n = 0 then None else Some (replicate n None))"
  by (simp add: allocate_chunk_def layout_array_u8_def)

text \<open>The initialised cells in reading order, and the bytes they hold.\<close>

definition rb_cells :: "reverse_buffer \<Rightarrow> cell list" where
  "rb_cells rb = drop (rb_front rb) (concat (rev (rb_chunks rb)))"

definition rb_contents :: "reverse_buffer \<Rightarrow> bytes" where
  "rb_contents rb = map the (rb_cells rb)"

text \<open>
  The documented invariant of \<open>front\<close>, that \<open>capacity\<close> counts all cells, that every cell a reader
  can reach is initialised, and that an exact plan is never for zero bytes.
\<close>

definition rb_front_ok :: "reverse_buffer \<Rightarrow> bool" where
  "rb_front_ok rb \<longleftrightarrow>
    (if rb_chunks rb = [] then rb_front rb = 0
     else rb_front rb < length (last (rb_chunks rb)) \<or>
       rb_front rb = length (last (rb_chunks rb)) \<and> length (rb_chunks rb) = 1 \<and>
       (rb_keep_back rb \<or> last (rb_chunks rb) = []))"

definition rb_inv :: "reverse_buffer \<Rightarrow> bool" where
  "rb_inv rb \<longleftrightarrow>
    rb_capacity rb = sum_list (map length (rb_chunks rb)) \<and> rb_front_ok rb \<and>
    None \<notin> set (rb_cells rb) \<and> (rb_keep_back rb \<longrightarrow> rb_chunks rb \<noteq> []) \<and>
    (rb_planned_exact rb \<longrightarrow> 0 < rb_planned_allocation rb)"

lemma rb_cells_snoc:
  "rb_chunks rb = cs @ [c] \<Longrightarrow> rb_front rb \<le> length c \<Longrightarrow>
   rb_cells rb = drop (rb_front rb) c @ concat (rev cs)"
  by (simp add: rb_cells_def)

lemma rb_cells_Nil: "rb_chunks rb = [] \<Longrightarrow> rb_cells rb = []"
  by (simp add: rb_cells_def)

lemma rb_front_le: "rb_inv rb \<Longrightarrow> rb_chunks rb = cs @ [c] \<Longrightarrow> rb_front rb \<le> length c"
  by (auto simp: rb_inv_def rb_front_ok_def)

lemma rb_front_le_capacity: "rb_inv rb \<Longrightarrow> rb_front rb \<le> rb_capacity rb"
  by (cases "rb_chunks rb" rule: rev_cases) (auto simp: rb_inv_def rb_front_ok_def)

lemma rb_inv_size: "rb_inv rb \<Longrightarrow> rb_front rb + length (rb_contents rb) = rb_capacity rb"
  using rb_front_le_capacity [of rb]
  by (simp add: rb_contents_def rb_cells_def length_concat rev_map [symmetric])
    (simp add: rb_inv_def)

lemma rb_len_eq: "rb_inv rb \<Longrightarrow> rb_len rb = Some (length (rb_contents rb))"
  using rb_inv_size [of rb] by (simp add: rb_len_def checked_sub_def)

lemma map_the_Some [simp]: "map the (map Some xs) = xs"
  by (induction xs) auto

lemma Some_the_map: "None \<notin> set cs \<Longrightarrow> map (Some \<circ> the) cs = cs"
  by (induction cs) auto

lemma rb_cells_eq: "rb_inv rb \<Longrightarrow> rb_cells rb = map Some (rb_contents rb)"
  by (simp add: rb_contents_def Some_the_map rb_inv_def)

lemma rb_invI:
  assumes "rb_chunks rb = cs @ [c]" and "rb_capacity rb = sum_list (map length (cs @ [c]))"
    and "rb_front rb < length c" and "drop (rb_front rb) c @ concat (rev cs) = map Some bs"
    and "rb_planned_exact rb \<Longrightarrow> 0 < rb_planned_allocation rb"
  shows "rb_inv rb \<and> rb_contents rb = bs"
  using assms
  by (auto simp: rb_inv_def rb_front_ok_def rb_contents_def rb_cells_snoc)

lemma rb_new_inv: "rb_inv rb_new \<and> rb_contents rb_new = []"
  by (simp add: rb_inv_def rb_front_ok_def rb_cells_def rb_contents_def rb_new_def)

lemma rb_with_capacity_inv:
  "\<exists>rb. rb_with_capacity Unbounded n = Some rb \<and> rb_inv rb \<and> rb_contents rb = [] \<and> rb_capacity rb = n"
  by (auto simp: rb_with_capacity_def rb_inv_def rb_front_ok_def rb_cells_def
      rb_contents_def rb_new_def)

lemma rb_from_boxed_slice_inv:
  "rb_inv (rb_from_boxed_slice v) \<and> rb_contents (rb_from_boxed_slice v) = v"
  by (auto simp: rb_from_boxed_slice_def rb_inv_def rb_front_ok_def rb_cells_def
      rb_contents_def rb_new_def)

lemma rb_clear_inv:
  "rb_inv rb \<Longrightarrow> \<exists>rb'. rb_clear rb = Some rb' \<and> rb_inv rb' \<and> rb_contents rb' = []"
  using rb_new_inv
  by (cases "rb_chunks rb")
    (auto simp: rb_clear_def rb_inv_def rb_front_ok_def rb_cells_def rb_contents_def)

lemma checked_sub_Some_iff [simp]: "checked_sub a b = Some c \<longleftrightarrow> b \<le> a \<and> c = a - b"
  by (auto simp: checked_sub_def)

lemma checked_sub_le [simp]: "b \<le> a \<Longrightarrow> checked_sub a b = Some (a - b)"
  by (simp add: checked_sub_def)

lemma checked_sub_gt [simp]: "a < b \<Longrightarrow> checked_sub a b = None"
  by (simp add: checked_sub_def)

lemma plan_reservation_frame [simp]:
  "rb_chunks (plan_reservation n rb) = rb_chunks rb"
  "rb_front (plan_reservation n rb) = rb_front rb"
  "rb_capacity (plan_reservation n rb) = rb_capacity rb"
  "rb_keep_back (plan_reservation n rb) = rb_keep_back rb"
  "rb_cells (plan_reservation n rb) = rb_cells rb"
  "rb_contents (plan_reservation n rb) = rb_contents rb"
  by (auto simp: plan_reservation_def rb_cells_def rb_contents_def checked_sub_def)

lemma rb_cells_plan [simp]:
  "rb_cells (rb\<lparr>rb_planned_allocation := a, rb_planned_exact := e\<rparr>) = rb_cells rb"
  by (simp add: rb_cells_def)

lemma plan_reservation_inv: "rb_inv rb \<Longrightarrow> rb_inv (plan_reservation n rb)"
  by (auto simp: rb_inv_def rb_front_ok_def plan_reservation_def checked_sub_def)

lemma plan_reservation_exact_inv:
  assumes "rb_inv rb" and "0 < rb_capacity rb \<or> 0 < n"
  shows "\<exists>rb'. plan_reservation_exact Unbounded n rb = Some rb' \<and> rb_inv rb' \<and> rb_contents rb' = rb_contents rb"
  using assms rb_front_le_capacity [of rb]
  by (auto simp: rb_inv_def rb_front_ok_def plan_reservation_exact_def checked_sub_def rb_contents_def rb_cells_def)

lemma new_allocation_size_pos: "rb_inv rb \<Longrightarrow> 0 < new_allocation_size rb"
  by (auto simp: rb_inv_def new_allocation_size_def MIN_CHUNK_SIZE_def)

text \<open>A planned reservation is honoured by the next allocation.\<close>

lemma new_allocation_size_planned:
  "n \<le> rb_front rb + new_allocation_size (plan_reservation n rb)"
  by (auto simp: plan_reservation_def new_allocation_size_def checked_sub_def)

lemma new_allocation_size_chunks [simp]:
  "new_allocation_size (rb\<lparr>rb_chunks := cs\<rparr>) = new_allocation_size rb"
  by (simp add: new_allocation_size_def)

lemma rb_grow_eq:
  "0 < new_allocation_size rb \<Longrightarrow> rb_grow Unbounded rb = Some (rb\<lparr>
     rb_chunks := rb_chunks rb @ [replicate (new_allocation_size rb) None],
     rb_front := rb_front rb + new_allocation_size rb,
     rb_capacity := rb_capacity rb + new_allocation_size rb,
     rb_planned_allocation := 0, rb_planned_exact := False\<rparr>)"
  by (simp add: rb_grow_def Let_def)

lemma write_front_snoc:
  "rb_chunks rb = cs @ [c] \<Longrightarrow> pos + length d \<le> length c \<Longrightarrow> write_front pos d rb =
    Some (rb\<lparr>rb_chunks := cs @ [take pos c @ map Some d @ drop (pos + length d) c]\<rparr>)"
  by (simp add: write_front_def write_at_def front_chunk_mut_def set_front_chunk_def)

lemma write_front_Nil: "write_front pos [] rb =
    (if pos \<le> length (front_chunk_mut rb) then Some rb else None)"
  by (auto simp: write_front_def write_at_def front_chunk_mut_def set_front_chunk_def
      intro: append_butlast_last_id) 


section \<open>Prepending\<close>

lemma self_copy_eq:
  "length data \<le> pos \<Longrightarrow> pos \<le> length cs \<Longrightarrow> self_copy (rev data) pos cs =
    take (pos - length data) cs @ map Some data @ drop pos cs"
proof (induction data arbitrary: pos cs rule: rev_induct)
  case Nil
  then show ?case by simp
next
  case (snoc b data)
  then obtain p where p: "pos = Suc p" by (cases pos) auto
  have "self_copy (rev data) p (cs[p := Some b]) =
      take (p - length data) cs @ map Some data @ Some b # drop (Suc p) cs"
    using snoc p by (simp add: drop_update_swap [symmetric] Cons_nth_drop_Suc [symmetric])
  then show ?case using p by simp
qed

lemma write_or_self_copy:
  assumes "rb_chunks rb = cs @ [c]" and "length d \<le> rb_front rb" and "rb_front rb \<le> length c"
  defines "c' \<equiv> take (rb_front rb - length d) c @ map Some d @ drop (rb_front rb) c"
  shows "write_front (rb_front rb - length d) d rb = Some (rb\<lparr>rb_chunks := cs @ [c']\<rparr>)"
    and "self_copy_front d rb = Some (rb\<lparr>rb_chunks := cs @ [c']\<rparr>)"
  using assms
  by (simp_all add: write_front_snoc self_copy_front_def front_chunk_mut_def set_front_chunk_def
      self_copy_eq)

lemma prepended_inv:
  assumes inv: "rb_inv rb" and chunks: "rb_chunks rb = cs @ [c]" and le: "length d \<le> rb_front rb"
  defines "nf \<equiv> rb_front rb - length d"
  shows "rb_inv (rb\<lparr>rb_chunks := cs @ [take nf c @ map Some d @ drop (rb_front rb) c], rb_front := nf\<rparr>) \<and>
    rb_contents (rb\<lparr>rb_chunks := cs @ [take nf c @ map Some d @ drop (rb_front rb) c], rb_front := nf\<rparr>)
      = d @ rb_contents rb"
proof (cases "d = []")
  case True
  have "rb\<lparr>rb_chunks := cs @ [c], rb_front := rb_front rb\<rparr> = rb" using chunks by simp
  then show ?thesis using True inv by (simp add: nf_def)
next
  case False
  have fc: "rb_front rb \<le> length c" using rb_front_le [OF inv chunks] .
  have cells: "drop (rb_front rb) c @ concat (rev cs) = map Some (rb_contents rb)"
    using rb_cells_eq [OF inv] rb_cells_snoc [OF chunks fc] by simp
  have "nf < length c" using False le fc by (cases d) (auto simp: nf_def)
  then show ?thesis
    by (intro rb_invI [of _ cs "take nf c @ map Some d @ drop (rb_front rb) c"])
      (use inv chunks le fc False cells in \<open>auto simp: nf_def rb_inv_def\<close>)
qed

text \<open>Data that fits in front of the current chunk.\<close>

lemma prepend_fits:
  assumes inv: "rb_inv rb" and le: "length d \<le> rb_front rb"
  shows "\<exists>rb'. write_front (rb_front rb - length d) d rb = Some rb' \<and> self_copy_front d rb = Some rb' \<and>
    rb_inv (rb'\<lparr>rb_front := rb_front rb - length d\<rparr>) \<and>
    rb_contents (rb'\<lparr>rb_front := rb_front rb - length d\<rparr>) = d @ rb_contents rb"
proof (cases "rb_chunks rb" rule: rev_cases)
  case Nil
  then have f: "rb_front rb = 0" using inv by (simp add: rb_inv_def rb_front_ok_def)
  with le have d: "d = []" by simp
  have eq: "rb\<lparr>rb_front := 0\<rparr> = rb" using f by (cases rb) simp
  show ?thesis
    using inv Nil f by (simp add: d eq write_front_Nil self_copy_front_def front_chunk_mut_def
        set_front_chunk_def)
next
  case (snoc cs c)
  note fc = rb_front_le [OF inv snoc]
  show ?thesis
    using write_or_self_copy [OF snoc le fc] prepended_inv [OF inv snoc le] by simp
qed

text \<open>Data that does not fit: the back part fills the current chunk, the front part ends a new one.\<close>

lemma grown_inv:
  assumes inv: "rb_inv rb" and gt: "rb_front rb < length d"
    and n: "length d \<le> rb_front rb + n"
    and d: "d = df @ db" "length db = rb_front rb"
    and chunks: "rb_chunks rb' = (if rb_chunks rb = [] then [] else
        butlast (rb_chunks rb) @ [map Some db @ drop (rb_front rb) (last (rb_chunks rb))])
        @ [replicate (n - length df) None @ map Some df]"
    and rest: "rb_front rb' = n - length df" "rb_capacity rb' = rb_capacity rb + n"
      "\<not> rb_planned_exact rb'"
  shows "rb_inv rb' \<and> rb_contents rb' = d @ rb_contents rb"
proof (cases "rb_chunks rb" rule: rev_cases)
  case Nil
  then have "rb_front rb = 0" "rb_contents rb = []"
    using inv by (auto simp: rb_inv_def rb_front_ok_def rb_contents_def rb_cells_def)
  moreover have "n - length df < n" using gt n d calculation(1) by (cases df) auto
  ultimately show ?thesis
    using Nil assms by (intro rb_invI [of _ "[]"]) (auto simp: rb_inv_def)
next
  case (snoc cs c)
  have fc: "rb_front rb \<le> length c" using rb_front_le [OF inv snoc] .
  have cells: "drop (rb_front rb) c @ concat (rev cs) = map Some (rb_contents rb)"
    using rb_cells_eq [OF inv] rb_cells_snoc [OF snoc fc] by simp
  have lt: "n - length df < n" using gt n d by (cases df) auto
  show ?thesis
    by (rule rb_invI [of _ "cs @ [map Some db @ drop (rb_front rb) c]"
          "replicate (n - length df) None @ map Some df"])
      (use assms snoc fc cells lt in \<open>auto simp: rb_inv_def\<close>)
qed

lemma plan_prepended:
  "rb_inv rb \<Longrightarrow> rb_inv (plan_reservation n rb) \<and> n \<le> rb_front rb + new_allocation_size (plan_reservation n rb)
    \<and> 0 < new_allocation_size (plan_reservation n rb)"
  by (simp add: plan_reservation_inv new_allocation_size_planned new_allocation_size_pos)

lemma grow_and_copy_slice_inv:
  assumes inv: "rb_inv rb" and gt: "rb_front rb < length d"
  shows "\<exists>rb'. grow_and_copy_slice Unbounded d rb = Some rb' \<and> rb_inv rb' \<and> rb_contents rb' = d @ rb_contents rb"
proof -
  let ?p = "plan_reservation (length d) rb" and ?f = "rb_front rb"
  let ?n = "new_allocation_size ?p"
  let ?df = "take (length d - ?f) d" and ?db = "drop (length d - ?f) d"
  note plan = plan_prepended [OF inv, of "length d"]
  have split: "d = ?df @ ?db" "length ?db = ?f" using gt by simp_all
  let ?filled = "if rb_chunks rb = [] then [] else
    butlast (rb_chunks rb) @ [map Some ?db @ drop ?f (last (rb_chunks rb))]"
  let ?rb' = "?p\<lparr>rb_chunks := ?filled @ [replicate (?n - length ?df) None @ map Some ?df],
    rb_front := ?n - length ?df, rb_capacity := rb_capacity rb + ?n,
    rb_planned_allocation := 0, rb_planned_exact := False\<rparr>"
  have "grow_and_copy_slice Unbounded d rb = Some ?rb'"
  proof (cases "rb_chunks rb" rule: rev_cases)
    case Nil
    then have "?f = 0" using inv by (simp add: rb_inv_def rb_front_ok_def)
    then show ?thesis
      using Nil plan gt
      by (simp add: grow_and_copy_slice_def Let_def rb_grow_eq write_front_snoc [where cs = "[]"])
  next
    case (snoc cs c)
    note fc = rb_front_le [OF inv snoc]
    show ?thesis
    proof (cases "?f = 0")
      case True
      then show ?thesis
        using snoc plan gt
        by (simp add: grow_and_copy_slice_def Let_def rb_grow_eq write_front_snoc)
    next
      case False
      then show ?thesis
        using snoc plan gt fc
        by (simp add: grow_and_copy_slice_def Let_def rb_grow_eq write_front_snoc)
    qed
  qed
  moreover have "rb_inv ?rb' \<and> rb_contents ?rb' = d @ rb_contents rb"
    by (rule grown_inv [OF inv gt _ split, where n = ?n]) (use plan in auto)
  ultimately show ?thesis by blast
qed


lemma rb_prepend_slice_inv:
  assumes inv: "rb_inv rb"
  shows "\<exists>rb'. rb_prepend_slice Unbounded sco d rb = Some rb' \<and> rb_inv rb' \<and> rb_contents rb' = d @ rb_contents rb"
proof (cases "length d \<le> rb_front rb")
  case True
  then show ?thesis
    using prepend_fits [OF inv True] by (auto simp: rb_prepend_slice_def)
next
  case False
  then show ?thesis
    using grow_and_copy_slice_inv [OF inv, of d] by (simp add: rb_prepend_slice_def)
qed

lemma rb_prepend_array_inv:
  assumes inv: "rb_inv rb"
  shows "\<exists>rb'. rb_prepend_array Unbounded d rb = Some rb' \<and> rb_inv rb' \<and> rb_contents rb' = d @ rb_contents rb"
proof (cases "length d \<le> rb_front rb")
  case True
  then show ?thesis
    using prepend_fits [OF inv True] by (auto simp: rb_prepend_array_def)
next
  case False
  then show ?thesis
    using grow_and_copy_slice_inv [OF inv, of d] by (simp add: rb_prepend_array_def)
qed

lemma rb_prepend_u8_inv:
  assumes inv: "rb_inv rb"
  shows "\<exists>rb'. rb_prepend_u8 Unbounded x rb = Some rb' \<and> rb_inv rb' \<and> rb_contents rb' = x # rb_contents rb"
proof (cases "rb_front rb = 0")
  case False
  then show ?thesis
    using prepend_fits [OF inv, of "[x]"] by (auto simp: rb_prepend_u8_def)
next
  case True
  let ?n = "new_allocation_size rb"
  let ?rb' = "rb\<lparr>rb_chunks := rb_chunks rb @ [replicate (?n - 1) None @ [Some x]],
    rb_front := ?n - 1, rb_capacity := rb_capacity rb + ?n,
    rb_planned_allocation := 0, rb_planned_exact := False\<rparr>"
  note n = new_allocation_size_pos [OF inv]
  have chunks: "rb_chunks ?rb' = (if rb_chunks rb = [] then [] else butlast (rb_chunks rb) @
      [map Some [] @ drop (rb_front rb) (last (rb_chunks rb))]) @ [replicate (?n - 1) None @ map Some [x]]"
    using True by simp
  have "rb_prepend_u8 Unbounded x rb = Some ?rb'"
    using True n by (simp add: rb_prepend_u8_def rb_grow_eq write_front_snoc)
  moreover have "rb_inv ?rb' \<and> rb_contents ?rb' = [x] @ rb_contents rb"
    by (rule grown_inv [OF inv, where n = ?n and df = "[x]" and db = "[]"]) (use True n in auto)
  ultimately show ?thesis by auto
qed

interpretation rb_rev: rev_buf_contract "rb_rev_ops sco" rb_contents rb_inv
  by unfold_locales
    (simp_all add: rb_rev_ops_def rb_len_eq rb_prepend_slice_inv rb_prepend_array_inv rb_prepend_u8_inv)

section \<open>Reading\<close>

text \<open>What is left of the code's loop after popping the exhausted chunks.\<close>

lemma init_bytes_eq: "None \<notin> set cs \<Longrightarrow> init_bytes cs = Some (map the cs)"
  by (simp add: init_bytes_def)

lemma rb_chunk_eq:
  assumes inv: "rb_inv rb"
  shows "rb_chunk rb = Some (rb_bytes rb) \<and> (\<exists>rest. rb_contents rb = rb_bytes rb @ rest) \<and>
    (rb_contents rb \<noteq> [] \<longrightarrow> rb_bytes rb \<noteq> [])"
proof (cases "rb_chunks rb" rule: rev_cases)
  case Nil
  then show ?thesis by (simp add: rb_chunk_def rb_bytes_def rb_contents_def rb_cells_def)
next
  case (snoc cs c)
  note fc = rb_front_le [OF inv snoc]
  have "None \<notin> set (drop (rb_front rb) c @ concat (rev cs))"
    using inv rb_cells_snoc [OF snoc fc] by (simp add: rb_inv_def)
  then have eq: "rb_chunk rb = Some (map the (drop (rb_front rb) c))"
    using snoc fc by (simp add: rb_chunk_def init_bytes_eq)
  moreover have "rb_contents rb = map the (drop (rb_front rb) c) @ map the (concat (rev cs))"
    using rb_cells_snoc [OF snoc fc] by (simp add: rb_contents_def)
  moreover have "rb_front rb = length c \<Longrightarrow> cs = []"
    using inv snoc by (auto simp: rb_inv_def rb_front_ok_def)
  ultimately show ?thesis using fc by (auto simp: rb_bytes_def)
qed

declare pop_chunks.simps [simp del] rd_pop_chunks.simps [simp del]

lemma pop_chunks_inv:
  assumes "rb_front rb \<le> rb_capacity rb" and "rb_capacity rb = sum_list (map length (rb_chunks rb))"
    and "None \<notin> set (rb_cells rb)" and "rb_keep_back rb \<longrightarrow> rb_chunks rb \<noteq> []"
    and "rb_planned_exact rb \<longrightarrow> 0 < rb_planned_allocation rb"
  shows "rb_inv (pop_chunks rb) \<and> rb_cells (pop_chunks rb) = rb_cells rb"
  using assms
proof (induction rb rule: pop_chunks.induct)
  case (1 rb)
  show ?case
  proof (cases "rb_chunks rb" rule: rev_cases)
    case Nil
    then show ?thesis using 1(2-) by (simp add: pop_chunks.simps [of rb] rb_inv_def rb_front_ok_def)
  next
    case (snoc cs c)
    show ?thesis
    proof (cases "rb_front rb < length c \<or> rb_keep_back rb \<and> cs = []")
      case True
      then have "pop_chunks rb = rb" using snoc by (auto simp: pop_chunks.simps [of rb] Let_def)
      then show ?thesis using True 1(2-) snoc by (auto simp: rb_inv_def rb_front_ok_def)
    next
      case False
      let ?rb = "rb\<lparr>rb_chunks := cs, rb_capacity := rb_capacity rb - length c,
        rb_front := rb_front rb - length c, rb_planned_allocation := 0, rb_planned_exact := False\<rparr>"
      have eq: "pop_chunks rb = pop_chunks ?rb"
        using snoc False by (auto simp: pop_chunks.simps [of rb] Let_def)
      have cells: "rb_cells ?rb = rb_cells rb"
        using snoc False by (simp add: rb_cells_def)
      have "rb_inv (pop_chunks ?rb) \<and> rb_cells (pop_chunks ?rb) = rb_cells ?rb"
        using 1(1) [of "length c"] 1(2-) snoc False cells by auto
      then show ?thesis using eq cells by simp
    qed
  qed
qed

lemma rb_advance_inv:
  assumes inv: "rb_inv rb" and le: "n \<le> length (rb_contents rb)"
  shows "\<exists>rb'. rb_advance n rb = Some rb' \<and> rb_inv rb' \<and> rb_contents rb' = drop n (rb_contents rb)"
proof (cases "n = 0")
  case True
  then show ?thesis using inv by (simp add: rb_advance_def)
next
  case False
  let ?rb = "rb\<lparr>rb_front := rb_front rb + n\<rparr>"
  have cells: "rb_cells ?rb = drop n (rb_cells rb)" by (simp add: rb_cells_def add.commute)
  have "rb_inv (pop_chunks ?rb) \<and> rb_cells (pop_chunks ?rb) = rb_cells ?rb"
    using inv le rb_inv_size [OF inv] cells
    by (intro pop_chunks_inv) (auto simp: rb_inv_def dest: in_set_dropD)
  moreover have "rb_advance n rb = Some (pop_chunks ?rb)"
    using False le by (simp add: rb_advance_def rb_len_eq [OF inv])
  ultimately show ?thesis using cells by (simp add: rb_contents_def drop_map)
qed


section \<open>Copying from another buffer\<close>

context buf_core begin

lemma copy_buf_eq:
  assumes "binv b" and "n \<le> length (contents b)" and "n \<le> fuel"
  shows "\<exists>b'. copy_buf ops fuel n b = Some (take n (contents b), b') \<and> binv b' \<and>
    contents b' = drop n (contents b)"
  using assms
proof (induction fuel arbitrary: n b)
  case 0
  then show ?case by auto
next
  case (Suc fuel)
  show ?case
  proof (cases "n = 0")
    case True
    then show ?thesis using Suc by simp
  next
    case False
    let ?c = "b_chunk ops b"
    let ?k = "min (length ?c) n"
    obtain rest where rest: "contents b = ?c @ rest" using chunk_prefix [OF Suc.prems(1)] by blast
    have "contents b \<noteq> []" using False Suc.prems by (cases "contents b") auto
    then have "?c \<noteq> []" by (rule chunk_nonempty [OF Suc.prems(1)])
    then obtain k where k: "min (length ?c) n = k" "0 < k" "k \<le> n" "k \<le> length ?c"
      using False by simp
    obtain b1 where b1: "b_advance ops k b = Some b1" "binv b1" "contents b1 = drop k (contents b)"
      using advance [of b k] Suc.prems k(2-) by auto
    have "n - k \<le> length (contents b) - k" "n - k \<le> fuel"
      using Suc.prems k(2-) by (simp_all add: diff_le_mono)
    then obtain b2 where b2: "copy_buf ops fuel (n - k) b1 = Some (take (n - k) (contents b1), b2)"
      "binv b2" "contents b2 = drop (n - k) (contents b1)"
      using Suc.IH [of b1 "n - k"] b1 k(3) by auto
    have "take k ?c = take k (contents b)" using k(4) by (subst rest) simp
    then have "take k ?c @ take (n - k) (drop k (contents b)) = take n (contents b)"
      using take_add [of k "n - k" "contents b"] k(3) by simp
    then show ?thesis
      using False b1 b2 k(2-) by (simp add: k(1) Let_def)
  qed
qed

lemma grow_and_copy_buf_inv:
  assumes b: "binv b" and inv: "rb_inv rb" and gt: "rb_front rb < length (contents b)"
  shows "\<exists>rb'. grow_and_copy_buf Unbounded ops b (length (contents b)) rb = Some rb' \<and> rb_inv rb' \<and>
    rb_contents rb' = contents b @ rb_contents rb"
proof -
  let ?d = "contents b" and ?p = "plan_reservation (length (contents b)) rb" and ?f = "rb_front rb"
  let ?n = "new_allocation_size ?p"
  let ?k = "length ?d - ?f"
  let ?df = "take ?k ?d" and ?db = "drop ?k ?d"
  note plan = plan_prepended [OF inv, of "length ?d"]
  let ?nf = "?n + ?f - length ?d"
  have nf: "?n - ?nf = ?k" "?n - ?k = ?nf" "?nf + ?k = ?n" using plan gt by auto
  let ?rb' = "?p\<lparr>rb_chunks := (if rb_chunks rb = [] then [] else butlast (rb_chunks rb) @
      [map Some ?db @ drop ?f (last (rb_chunks rb))]) @ [replicate ?nf None @ map Some ?df],
    rb_front := ?nf, rb_capacity := rb_capacity rb + ?n,
    rb_planned_allocation := 0, rb_planned_exact := False\<rparr>"
  obtain b1 where b1: "copy_buf ops ?k ?k b = Some (?df, b1)" "binv b1" "contents b1 = ?db"
    using copy_buf_eq [OF b, of ?k ?k] by auto
  obtain b2 where b2: "copy_buf ops ?f ?f b1 = Some (?db, b2)"
    using copy_buf_eq [OF b1(2), of ?f ?f] b1(3) gt by auto
  have w: "write_at ?nf ?df (replicate ?n None) = Some (replicate ?nf None @ map Some ?df)"
    using nf gt by (simp add: write_at_def)
  have "grow_and_copy_buf Unbounded ops b (length ?d) rb = Some ?rb'"
  proof (cases "rb_chunks rb" rule: rev_cases)
    case Nil
    then have f: "?f = 0" using inv by (simp add: rb_inv_def rb_front_ok_def)
    then show ?thesis
      using Nil plan gt b1 b2 nf w
      by (simp add: grow_and_copy_buf_def Let_def write_front_Nil)
  next
    case (snoc cs c)
    note fc = rb_front_le [OF inv snoc]
    then show ?thesis
      using snoc plan gt b1 b2 nf w
      by (simp add: grow_and_copy_buf_def Let_def write_front_snoc)
  qed
  moreover have "rb_inv ?rb' \<and> rb_contents ?rb' = ?d @ rb_contents rb"
    by (rule grown_inv [OF inv gt, where n = ?n and df = ?df and db = ?db]) (use plan gt nf in auto)
  ultimately show ?thesis by blast
qed

end

context buf_contract begin

lemma rb_prepend_inv:
  assumes b: "binv b" and inv: "rb_inv rb"
  shows "\<exists>rb'. rb_prepend Unbounded sco ops b rb = Some rb' \<and> rb_inv rb' \<and> rb_contents rb' = contents b @ rb_contents rb"
proof (cases "length (contents b) \<le> rb_front rb")
  case True
  obtain b1 where "b_copy ops (length (contents b)) b = Some (contents b, b1)"
    using copy [OF b order_refl] by auto
  moreover obtain b2 where
    "copy_buf ops (length (contents b)) (length (contents b)) b = Some (contents b, b2)"
    using copy_buf_eq [OF b order_refl order_refl] by auto
  ultimately show ?thesis
    using prepend_fits [OF inv True] inv True by (auto simp: rb_prepend_def remaining [OF b] Let_def)
next
  case False
  then show ?thesis
    using grow_and_copy_buf_inv [OF b inv] by (auto simp: rb_prepend_def remaining [OF b] Let_def)
qed

end

lemma rb_core_get_u8:
  assumes inv: "rb_inv rb" and ct: "rb_contents rb = x # xs"
  shows "\<exists>rb'. b_get_u8 rb_core_ops rb = Some (x, rb') \<and> rb_inv rb' \<and> rb_contents rb' = xs"
proof -
  obtain ys where "rb_bytes rb = x # ys"
    using rb_chunk_eq [OF inv] ct by (cases "rb_bytes rb") auto
  then show ?thesis
    using rb_advance_inv [OF inv, of 1] ct by (auto simp: rb_core_ops_def)
qed

interpretation rb_core: buf_core rb_core_ops rb_contents rb_inv
proof unfold_locales
  fix b x xs n
  show "b_remaining rb_core_ops b = length (rb_contents b)" if "rb_inv b"
    using that by (simp add: rb_core_ops_def rb_len_eq)
  show "\<exists>rest. rb_contents b = b_chunk rb_core_ops b @ rest" if "rb_inv b"
    using rb_chunk_eq [OF that] by (simp add: rb_core_ops_def)
  show "b_chunk rb_core_ops b \<noteq> []" if "rb_inv b" "rb_contents b \<noteq> []"
    using rb_chunk_eq [OF that(1)] that(2) by (simp add: rb_core_ops_def)
  show "\<exists>b'. b_advance rb_core_ops n b = Some b' \<and> rb_inv b' \<and> rb_contents b' = drop n (rb_contents b)"
    if "rb_inv b" "n \<le> length (rb_contents b)"
    using rb_advance_inv [OF that] by (simp add: rb_core_ops_def)
  show "\<exists>b'. b_get_u8 rb_core_ops b = Some (x, b') \<and> rb_inv b' \<and> rb_contents b' = xs"
    if "rb_inv b" "rb_contents b = x # xs"
    by (rule rb_core_get_u8 [OF that])
qed

lemma rb_buf_ops_simps [simp]:
  "b_remaining rb_buf_ops = b_remaining rb_core_ops" "b_chunk rb_buf_ops = b_chunk rb_core_ops"
  "b_advance rb_buf_ops = b_advance rb_core_ops" "b_get_u8 rb_buf_ops = b_get_u8 rb_core_ops"
  "b_copy rb_buf_ops n rb = copy_buf rb_core_ops n n rb"
  by (simp_all add: rb_buf_ops_def)

interpretation rb_buf: buf_contract rb_buf_ops rb_contents rb_inv
  using rb_core.remaining rb_core.chunk_prefix rb_core.chunk_nonempty rb_core.advance
    rb_core.get_u8 rb_core.copy_buf_eq
  by unfold_locales simp_all

lemma rb_into_vec_eq:
  assumes inv: "rb_inv rb"
  shows "rb_into_vec rb = Some (rb_contents rb)"
proof (cases "length (rb_chunks rb) = 1 \<and> rb_front rb = 0")
  case True
  then obtain c where "rb_chunks rb = [c]" by (cases "rb_chunks rb") auto
  then show ?thesis
    using True inv by (simp add: rb_into_vec_def init_bytes_def rb_contents_def rb_cells_def rb_inv_def)
next
  case False
  then show ?thesis
    using rb_buf.copy_buf_eq [OF inv order_refl order_refl]
    by (auto simp: rb_into_vec_def rb_len_eq [OF inv])
qed

lemma rb_slices_eq:
  assumes inv: "rb_inv rb"
  shows "\<exists>ss. rb_slices rb = map Some ss \<and> concat ss = rb_contents rb"
proof (cases "rb_chunks rb" rule: rev_cases)
  case Nil
  then show ?thesis by (simp add: rb_slices_def to_vectorable_slices_def rb_contents_def rb_cells_def)
next
  case (snoc cs c)
  note fc = rb_front_le [OF inv snoc]
  have ni: "None \<notin> set (drop (rb_front rb) c @ concat (rev cs))"
    using inv rb_cells_snoc [OF snoc fc] by (simp add: rb_inv_def)
  let ?ss = "map (map the) (drop (rb_front rb) c # rev cs)"
  have "rb_slices rb = map Some ?ss"
    using ni snoc fc by (auto simp: rb_slices_def to_vectorable_slices_def init_bytes_def)
  moreover have "concat ?ss = rb_contents rb"
    using rb_cells_snoc [OF snoc fc] by (simp add: rb_contents_def map_concat)
  ultimately show ?thesis by blast
qed

section \<open>The reader by reference, as a buffer\<close>

definition rd_ops_core :: "rb_reader buf_ops" where
  "rd_ops_core = \<lparr>
     b_remaining = (\<lambda>rd. the (rd_remaining rd)),
     b_chunk = (\<lambda>rd. case rd_chunk rd of Some c \<Rightarrow> c | None \<Rightarrow> []),
     b_advance = rd_advance,
     b_get_u8 = (\<lambda>rd. case rd_chunk rd of
        Some (x # _) \<Rightarrow> map_option (Pair x) (rd_advance 1 rd) | _ \<Rightarrow> None),
     b_copy = (\<lambda>_ _. None)\<rparr>"

definition rd_buf_ops :: "rb_reader buf_ops" where
  "rd_buf_ops = rd_ops_core\<lparr>b_copy := (\<lambda>n rd. copy_buf rd_ops_core n n rd)\<rparr>"

text \<open>The owning buffer with the same chunks.\<close>

definition rd_as_rb :: "bool \<Rightarrow> rb_reader \<Rightarrow> reverse_buffer" where
  "rd_as_rb k rd = \<lparr>rb_chunks = rd_chunks rd, rb_front = rd_front rd, rb_capacity = rd_capacity rd,
     rb_planned_allocation = 0, rb_planned_exact = False, rb_keep_back = k\<rparr>"

definition rd_inv :: "rb_reader \<Rightarrow> bool" where
  "rd_inv rd \<longleftrightarrow> rb_inv (rd_as_rb False rd) \<or> rb_inv (rd_as_rb True rd)"

definition rd_contents :: "rb_reader \<Rightarrow> bytes" where
  "rd_contents rd = rb_contents (rd_as_rb False rd)"

lemma rd_as_rb_simps [simp]:
  "rb_chunks (rd_as_rb k rd) = rd_chunks rd" "rb_front (rd_as_rb k rd) = rd_front rd"
  "rb_capacity (rd_as_rb k rd) = rd_capacity rd" "rb_keep_back (rd_as_rb k rd) = k"
  by (simp_all add: rd_as_rb_def)

lemma rd_as_rb_contents [simp]: "rb_contents (rd_as_rb k rd) = rd_contents rd"
  by (simp add: rb_contents_def rd_contents_def rb_cells_def)

lemma rd_invE:
  assumes "rd_inv rd"
  obtains k where "rb_inv (rd_as_rb k rd)"
  using assms by (auto simp: rd_inv_def)

lemma rd_reader_inv:
  "rb_inv rb \<Longrightarrow> rd_inv (rb_buf_reader rb) \<and> rd_contents (rb_buf_reader rb) = rb_contents rb"
  by (cases "rb_keep_back rb")
    (auto simp: rd_inv_def rb_inv_def rb_front_ok_def rd_contents_def rb_contents_def rb_cells_def
      rb_buf_reader_def rd_as_rb_def)

lemma rd_remaining_eq: "rb_inv (rd_as_rb k rd) \<Longrightarrow> rd_remaining rd = Some (length (rd_contents rd))"
  using rb_len_eq [of "rd_as_rb k rd"] by (simp add: rd_remaining_def rb_len_def)

lemma rd_chunk_eq: "rd_chunk rd = rb_chunk (rd_as_rb k rd)"
  by (simp add: rd_chunk_def rb_chunk_def)

lemma rd_pop_chunks_eq: "rd_as_rb False (rd_pop_chunks rd) = pop_chunks (rd_as_rb False rd)"
proof (induction rd rule: rd_pop_chunks.induct)
  case (1 rd)
  then show ?case
    by (simp add: rd_pop_chunks.simps [of rd] pop_chunks.simps [of "rd_as_rb False rd"] Let_def)
      (simp add: rd_as_rb_def)
qed

lemma rd_advance_inv:
  assumes "rd_inv rd" and le: "n \<le> length (rd_contents rd)"
  shows "\<exists>rd'. rd_advance n rd = Some rd' \<and> rd_inv rd' \<and> rd_contents rd' = drop n (rd_contents rd)"
proof (cases "n = 0")
  case True
  then show ?thesis using assms by (simp add: rd_advance_def)
next
  case False
  obtain k where inv: "rb_inv (rd_as_rb k rd)" using assms(1) by (rule rd_invE)
  let ?rd = "rd\<lparr>rd_front := rd_front rd + n\<rparr>"
  have cells: "rb_cells (rd_as_rb False ?rd) = drop n (rb_cells (rd_as_rb k rd))"
    by (simp add: rb_cells_def add.commute)
  have "rb_inv (pop_chunks (rd_as_rb False ?rd)) \<and>
      rb_cells (pop_chunks (rd_as_rb False ?rd)) = rb_cells (rd_as_rb False ?rd)"
    using inv le rb_inv_size [OF inv] cells
    by (intro pop_chunks_inv) (auto simp: rb_inv_def dest: in_set_dropD, simp_all add: rd_as_rb_def)
  then have "rd_inv (rd_pop_chunks ?rd)" "rd_contents (rd_pop_chunks ?rd) = drop n (rd_contents rd)"
    unfolding rd_pop_chunks_eq [symmetric] rd_inv_def rd_contents_def cells rb_contents_def
    by (simp_all add: drop_map cells) (simp add: rb_cells_def)
  then show ?thesis
    using False le rd_remaining_eq [OF inv] by (simp add: rd_advance_def)
qed

lemma rd_chunk_prefix:
  assumes "rd_inv rd"
  shows "\<exists>c. rd_chunk rd = Some c \<and> (\<exists>rest. rd_contents rd = c @ rest) \<and> (rd_contents rd \<noteq> [] \<longrightarrow> c \<noteq> [])"
proof -
  obtain k where inv: "rb_inv (rd_as_rb k rd)" using assms by (rule rd_invE)
  show ?thesis
    unfolding rd_chunk_eq [of rd k] using rb_chunk_eq [OF inv] by auto
qed

interpretation rd_core: buf_core rd_ops_core rd_contents rd_inv
proof unfold_locales
  fix b x xs n
  show "b_remaining rd_ops_core b = length (rd_contents b)" if "rd_inv b"
    by (rule rd_invE [OF that]) (simp add: rd_ops_core_def rd_remaining_eq rb_len_eq)
  show "\<exists>rest. rd_contents b = b_chunk rd_ops_core b @ rest" if "rd_inv b"
    using rd_chunk_prefix [OF that] by (auto simp: rd_ops_core_def)
  show "b_chunk rd_ops_core b \<noteq> []" if "rd_inv b" "rd_contents b \<noteq> []"
    using rd_chunk_prefix [OF that(1)] that(2) by (auto simp: rd_ops_core_def)
  show "\<exists>b'. b_advance rd_ops_core n b = Some b' \<and> rd_inv b' \<and> rd_contents b' = drop n (rd_contents b)"
    if "rd_inv b" "n \<le> length (rd_contents b)"
    using rd_advance_inv [OF that] by (simp add: rd_ops_core_def)
  show "\<exists>b'. b_get_u8 rd_ops_core b = Some (x, b') \<and> rd_inv b' \<and> rd_contents b' = xs"
    if "rd_inv b" "rd_contents b = x # xs"
    using rd_chunk_prefix [OF that(1)] that rd_advance_inv [OF that(1), of 1]
    by (auto simp: rd_ops_core_def split: list.splits)
qed

interpretation rd_buf: buf_contract rd_buf_ops rd_contents rd_inv
  using rd_core.remaining rd_core.chunk_prefix rd_core.chunk_nonempty rd_core.advance
    rd_core.get_u8 rd_core.copy_buf_eq
  by unfold_locales (simp_all add: rd_buf_ops_def)

text \<open>What a reader of a buffer that holds \<open>bs\<close> gets, by every way of reading it out.\<close>

definition rb_holds :: "reverse_buffer \<Rightarrow> bytes \<Rightarrow> bool" where
  "rb_holds rb bs \<longleftrightarrow>
    rb_len rb = Some (length bs) \<and> rb_into_vec rb = Some bs \<and>
    map_option fst (b_copy rb_buf_ops (length bs) rb) = Some bs \<and>
    map_option fst (b_copy rd_buf_ops (length bs) (rb_buf_reader rb)) = Some bs \<and>
    None \<notin> set (rb_slices rb) \<and> concat (map the (rb_slices rb)) = bs"

lemma rb_inv_holds: "rb_inv rb \<Longrightarrow> rb_holds rb (rb_contents rb)"
  using rb_buf.copy [of rb "length (rb_contents rb)"] rd_buf.copy [of "rb_buf_reader rb" "length (rb_contents rb)"]
    rd_reader_inv [of rb] rb_slices_eq [of rb]
  by (auto simp: rb_holds_def rb_len_eq rb_into_vec_eq)

end
