(* ===== verification/Buffer_Runs.thy ===== *)
theory Buffer_Runs
  imports Reverse_Buffer
begin

text \<open>
  Sequences of operations on the prepend buffer of \<^verbatim>\<open>src/src/buf.rs\<close>: what they promise of the bytes it holds,
  on which targets, and where \<^verbatim>\<open>plan_reservation_exact\<close> and the debug assertions depart from what is announced. A run is
  followed on the \<open>Unbounded\<close> target, and a bound on the sizes carries the result over to 64 bits.
\<close>

section \<open>Sequences of operations\<close>

text \<open>The operations of a writer, their effect on the buffer, and what they promise of its bytes.\<close>

datatype 'd rb_op =
    Prepend_slice bytes
  | Prepend_array bytes
  | Prepend_u8 u8
  | Prepend_buf 'd
  | Advance nat
  | Clear
  | Plan nat
  | Plan_exact nat

primrec rb_apply ::
    "target \<Rightarrow> bool \<Rightarrow> 'd buf_ops \<Rightarrow> 'd rb_op \<Rightarrow> reverse_buffer \<Rightarrow> reverse_buffer option" where
  "rb_apply tg sco dops (Prepend_slice d) rb = rb_prepend_slice tg sco d rb"
| "rb_apply tg sco dops (Prepend_array d) rb = rb_prepend_array tg d rb"
| "rb_apply tg sco dops (Prepend_u8 x) rb = rb_prepend_u8 tg x rb"
| "rb_apply tg sco dops (Prepend_buf b) rb = rb_prepend tg sco dops b rb"
| "rb_apply tg sco dops (Advance n) rb = rb_advance n rb"
| "rb_apply tg sco dops Clear rb = rb_clear rb"
| "rb_apply tg sco dops (Plan n) rb = Some (plan_reservation n rb)"
| "rb_apply tg sco dops (Plan_exact n) rb = plan_reservation_exact tg n rb"

primrec spec_apply :: "('d \<Rightarrow> bytes) \<Rightarrow> 'd rb_op \<Rightarrow> bytes \<Rightarrow> bytes option" where
  "spec_apply contents (Prepend_slice d) bs = Some (d @ bs)"
| "spec_apply contents (Prepend_array d) bs = Some (d @ bs)"
| "spec_apply contents (Prepend_u8 x) bs = Some (x # bs)"
| "spec_apply contents (Prepend_buf b) bs = Some (contents b @ bs)"
| "spec_apply contents (Advance n) bs = (if n \<le> length bs then Some (drop n bs) else None)"
| "spec_apply contents Clear bs = Some []"
| "spec_apply contents (Plan n) bs = Some bs"
| "spec_apply contents (Plan_exact n) bs = Some bs"

primrec rb_run ::
    "target \<Rightarrow> bool \<Rightarrow> 'd buf_ops \<Rightarrow> 'd rb_op list \<Rightarrow> reverse_buffer \<Rightarrow> reverse_buffer option" where
  "rb_run tg sco dops [] rb = Some rb"
| "rb_run tg sco dops (op # ops) rb = rb_apply tg sco dops op rb \<bind> rb_run tg sco dops ops"

primrec spec_run :: "('d \<Rightarrow> bytes) \<Rightarrow> 'd rb_op list \<Rightarrow> bytes \<Rightarrow> bytes option" where
  "spec_run contents [] bs = Some bs"
| "spec_run contents (op # ops) bs = spec_apply contents op bs \<bind> spec_run contents ops"

text \<open>The sources that a run prepends from keep the \<^verbatim>\<open>Buf\<close> contract.\<close>

definition op_ok :: "('d \<Rightarrow> bool) \<Rightarrow> 'd rb_op \<Rightarrow> bool" where
  "op_ok binv op \<longleftrightarrow> (case op of Prepend_buf b \<Rightarrow> binv b | _ \<Rightarrow> True)"

lemma op_ok_simps [simp]:
  "op_ok binv (Prepend_slice d)" "op_ok binv (Prepend_array d)" "op_ok binv (Prepend_u8 x)"
  "op_ok binv (Prepend_buf b) = binv b" "op_ok binv (Advance n)" "op_ok binv Clear" "op_ok binv (Plan n)"
  "op_ok binv (Plan_exact n)"
  by (simp_all add: op_ok_def)

text \<open>
  A buffer without capacity whose next allocation is planned for exactly zero bytes: what an exact plan for
  nothing makes of it. All operations but \<open>Prepend_u8\<close>, which allocates as planned, replace the plan.
\<close>

definition zero_planned :: "reverse_buffer \<Rightarrow> bool" where
  "zero_planned rb \<longleftrightarrow> rb_planned_exact rb \<and> rb_planned_allocation rb = 0 \<and> rb_capacity rb = 0 \<and>
     rb_inv (rb\<lparr>rb_planned_allocation := 0, rb_planned_exact := False\<rparr>)"

lemma zero_planned_fields:
  assumes "zero_planned rb"
  shows "rb_front rb = 0" "rb_contents rb = []" "rb_chunks rb = [] \<or> rb_chunks rb = [[]]"
proof -
  let ?u = "rb\<lparr>rb_planned_allocation := 0, rb_planned_exact := False\<rparr>"
  have u: "rb_inv ?u" "rb_capacity rb = 0" using assms by (auto simp: zero_planned_def)
  show f: "rb_front rb = 0" using rb_front_le_capacity [OF u(1)] u(2) by simp
  have "\<forall>c \<in> set (rb_chunks rb). c = []" using u by (auto simp: rb_inv_def)
  then have "concat (rev (rb_chunks rb)) = []" by simp
  then show "rb_contents rb = []" unfolding rb_contents_def rb_cells_def by (simp del: concat_eq_Nil_conv)
  show "rb_chunks rb = [] \<or> rb_chunks rb = [[]]"
    using u f \<open>\<forall>c \<in> set (rb_chunks rb). c = []\<close>
    by (cases "rb_chunks rb" rule: rev_cases) (auto simp: rb_inv_def rb_front_ok_def length_Suc_conv)
qed

lemma zero_planned_holds:
  assumes "zero_planned rb"
  shows "rb_holds rb []"
proof -
  have "rb_capacity rb = 0" using assms by (simp add: zero_planned_def)
  then show ?thesis
    using zero_planned_fields [OF assms]
    by (auto simp: rb_holds_def rb_len_def rb_into_vec_def rb_buf_ops_def rd_buf_ops_def rb_slices_def
        to_vectorable_slices_def init_bytes_def)
qed

definition rb_ok :: "reverse_buffer \<Rightarrow> bool" where
  "rb_ok rb \<longleftrightarrow> rb_inv rb \<or> zero_planned rb"

lemma rb_ok_inv [intro]: "rb_inv rb \<Longrightarrow> rb_ok rb"
  by (simp add: rb_ok_def)

lemma rb_ok_sizes:
  assumes "rb_ok rb"
  shows "rb_front rb \<le> rb_capacity rb" "rb_capacity rb = sum_list (map length (rb_chunks rb))"
    "rb_keep_back rb \<Longrightarrow> rb_chunks rb \<noteq> []"
  using assms rb_front_le_capacity [of rb] zero_planned_fields(1) [of rb]
  by (auto simp: rb_ok_def zero_planned_def rb_inv_def)

context buf_contract
begin

lemma rb_apply_inv:
  assumes inv: "rb_inv rb" and op: "op_ok binv op" "op \<noteq> Plan_exact 0 \<or> rb_capacity rb \<noteq> 0"
  shows "\<exists>rb'. rb_apply Unbounded sco ops op rb = Some rb' \<and> rb_inv rb' \<and>
      spec_apply contents op (rb_contents rb) = Some (rb_contents rb') \<or>
    rb_apply Unbounded sco ops op rb = None \<and> spec_apply contents op (rb_contents rb) = None"
proof (cases op)
  case (Advance n)
  then show ?thesis
    using rb_advance_inv [OF inv, of n] rb_len_eq [OF inv]
    by (cases "n \<le> length (rb_contents rb)") (auto simp: rb_advance_def)
next
  case (Prepend_slice d)
  then show ?thesis using rb_prepend_slice_inv [OF inv, of sco d] by auto
next
  case (Prepend_array d)
  then show ?thesis using rb_prepend_array_inv [OF inv, of d] by auto
next
  case (Prepend_u8 x)
  then show ?thesis using rb_prepend_u8_inv [OF inv, of x] by auto
next
  case (Prepend_buf b)
  then show ?thesis using rb_prepend_inv [OF _ inv, of b sco] op(1) by auto
next
  case Clear
  then show ?thesis using rb_clear_inv [OF inv] by auto
next
  case (Plan n)
  then show ?thesis using plan_reservation_inv [OF inv, of n] by simp
next
  case (Plan_exact n)
  then have "0 < rb_capacity rb \<or> 0 < n" using op(2) by auto
  from plan_reservation_exact_inv [OF inv this] obtain rb' where
    "plan_reservation_exact Unbounded n rb = Some rb'" "rb_inv rb'" "rb_contents rb' = rb_contents rb" by blast
  then show ?thesis using Plan_exact by simp
qed

text \<open>An exact plan for no bytes only matters to \<open>Prepend_u8\<close>; the other operations do as without the plan.\<close>

lemma rb_apply_zero_planned:
  assumes zp: "zero_planned rb" and op: "op_ok binv op"
  shows "(\<exists>rb'. rb_apply Unbounded sco ops op rb = Some rb' \<and> rb_ok rb' \<and>
      spec_apply contents op [] = Some (rb_contents rb')) \<or>
    rb_apply Unbounded sco ops op rb = None \<and> (spec_apply contents op [] = None \<or> (\<exists>x. op = Prepend_u8 x))"
proof -
  let ?u = "rb\<lparr>rb_planned_allocation := 0, rb_planned_exact := False\<rparr>"
  have u: "rb_inv ?u" "rb_contents ?u = []" and z: "rb_planned_exact rb" "rb_planned_allocation rb = 0" "rb_capacity rb = 0"
    using zp zero_planned_fields(2) [OF zp] by (auto simp: zero_planned_def rb_contents_def rb_cells_def)
  note f = zero_planned_fields [OF zp]
  have plan: "plan_reservation n rb = plan_reservation n ?u" for n
    using f(1) z by (simp add: plan_reservation_def)
  have stay: "rb\<lparr>rb_front := 0\<rparr> = rb" using f(1) by (cases rb) simp
  have copy0: "self_copy_front [] rb = Some rb" "write_front 0 [] rb = Some rb"
    using f(1,3) by (auto simp: self_copy_front_def set_front_chunk_def front_chunk_mut_def write_front_Nil)
  show ?thesis
  proof (cases op)
    case (Prepend_slice d)
    have "rb_prepend_slice Unbounded sco d rb = (if d = [] then Some rb else rb_prepend_slice Unbounded sco d ?u)"
      using f(1) copy0 stay by (simp add: rb_prepend_slice_def grow_and_copy_slice_def plan del: plan_reservation_frame)
    then show ?thesis using rb_prepend_slice_inv [OF u(1), of sco d] u(2) zp f(2) Prepend_slice by (auto simp: rb_ok_def)
  next
    case (Prepend_array d)
    have "rb_prepend_array Unbounded d rb = (if d = [] then Some rb else rb_prepend_array Unbounded d ?u)"
      using f(1) copy0 stay by (simp add: rb_prepend_array_def grow_and_copy_slice_def plan del: plan_reservation_frame)
    then show ?thesis using rb_prepend_array_inv [OF u(1), of d] u(2) zp f(2) Prepend_array by (auto simp: rb_ok_def)
  next
    case (Prepend_buf b)
    then have b: "binv b" using op by simp
    have "rb_prepend Unbounded sco ops b rb =
        (if contents b = [] then Some rb else rb_prepend Unbounded sco ops b ?u)"
      using f(1) remaining [OF b] by (simp add: rb_prepend_def grow_and_copy_buf_def plan Let_def del: plan_reservation_frame)
    then show ?thesis using rb_prepend_inv [OF b u(1), of sco] u(2) zp f(2) Prepend_buf by (auto simp: rb_ok_def)
  next
    case (Advance n)
    then show ?thesis using zp f(1,2) z(3) by (auto simp: rb_advance_def rb_len_def rb_ok_def)
  next
    case Clear
    have "rb_clear rb = rb_clear ?u" by (simp add: rb_clear_def split: list.split)
    then show ?thesis using rb_clear_inv [OF u(1)] Clear by auto
  next
    case (Plan n)
    then show ?thesis using plan_reservation_inv [OF u(1), of n] u(2) plan [of n] by auto
  next
    case (Plan_exact n)
    have e: "plan_reservation_exact Unbounded n rb = plan_reservation_exact Unbounded n ?u"
      using f(1) by (simp add: plan_reservation_exact_def)
    show ?thesis
    proof (cases "n = 0")
      case True
      have "plan_reservation_exact Unbounded n rb = Some rb"
        using True f(1) z by (simp add: plan_reservation_exact_def)
      then show ?thesis using zp f(2) Plan_exact by (auto simp: rb_ok_def)
    next
      case False
      then show ?thesis using plan_reservation_exact_inv [OF u(1), of n] u(2) e Plan_exact by auto
    qed
  next
    case (Prepend_u8 x)
    then show ?thesis using f(1) z by (simp add: rb_prepend_u8_def rb_grow_def new_allocation_size_def)
  qed
qed

lemma plan_exact_zero_ok:
  assumes "rb_inv rb"
  shows "\<exists>rb'. plan_reservation_exact Unbounded 0 rb = Some rb' \<and> rb_ok rb' \<and> rb_contents rb' = rb_contents rb"
proof (cases "rb_front rb = 0 \<and> rb_capacity rb = 0")
  case True
  then show ?thesis
    using assms by (auto simp: plan_reservation_exact_def rb_ok_def zero_planned_def rb_inv_def rb_front_ok_def
        rb_cells_def rb_contents_def)
next
  case False
  then show ?thesis
    using assms plan_reservation_exact_inv [OF assms, of 0]
    by (cases "rb_capacity rb = 0") (auto simp: plan_reservation_exact_def)
qed

lemma rb_run_ok:
  assumes "rb_ok rb" and "\<forall>op \<in> set os. op_ok binv op"
  shows "(case rb_run Unbounded sco ops os rb of
      None \<Rightarrow> spec_run contents os (rb_contents rb) = None \<or> zero_planned rb \<or> Plan_exact 0 \<in> set os
    | Some rb' \<Rightarrow> rb_ok rb' \<and> spec_run contents os (rb_contents rb) = Some (rb_contents rb'))"
  using assms
proof (induction os arbitrary: rb)
  case Nil
  then show ?case by simp
next
  case (Cons op os)
  have op: "op_ok binv op" using Cons.prems(2) by simp
  note IH = Cons.IH [of "the (rb_apply Unbounded sco ops op rb)"]
  consider (zero) "zero_planned rb" | (inv) "rb_inv rb" "op \<noteq> Plan_exact 0" | (plan) "rb_inv rb" "op = Plan_exact 0"
    using Cons.prems(1) by (auto simp: rb_ok_def)
  then show ?case
  proof cases
    case zero
    show ?thesis
      using rb_apply_zero_planned [OF zero op, of sco] zero_planned_fields(2) [OF zero] IH Cons.prems(2) zero
      by (auto split: option.splits)
  next
    case inv
    then have "\<not> zero_planned rb'" if "rb_inv rb'" for rb' using that by (auto simp: zero_planned_def rb_inv_def)
    then show ?thesis
      using rb_apply_inv [OF inv(1) op, of sco] inv(2) IH Cons.prems(2) by (auto simp: rb_ok_inv split: option.splits)
  next
    case plan
    then show ?thesis
      using plan_exact_zero_ok [OF plan(1)] IH Cons.prems(2) by (auto split: option.splits)
  qed
qed

end

section \<open>One allocation\<close>

text \<open>Prepending within an exact reservation: one allocation of exactly the planned size.\<close>

lemma prepend_within:
  assumes inv: "rb_inv rb" and chunk: "rb_chunks rb = [c]" and le: "length d \<le> rb_front rb"
  shows "\<exists>c' rb'. rb_prepend_slice Unbounded sco d rb = Some rb' \<and> rb_chunks rb' = [c'] \<and> length c' = length c
    \<and> rb_front rb' = rb_front rb - length d \<and> rb_capacity rb' = rb_capacity rb"
  using write_or_self_copy [of rb "[]" c d] rb_front_le [OF inv, of "[]" c] assms
  by (auto simp: rb_prepend_slice_def)

lemma run_within:
  assumes "rb_inv rb" and "rb_chunks rb = [c]" and "sum_list (map length ds) \<le> rb_front rb"
  shows "\<exists>rb' c'. rb_run Unbounded sco dops (map Prepend_slice ds) rb = Some rb' \<and> rb_inv rb' \<and>
    rb_chunks rb' = [c'] \<and> length c' = length c \<and>
    rb_front rb' = rb_front rb - sum_list (map length ds) \<and> rb_capacity rb' = rb_capacity rb \<and>
    rb_contents rb' = concat (rev ds) @ rb_contents rb"
  using assms
proof (induction ds arbitrary: rb c)
  case Nil
  then show ?case by simp
next
  case (Cons d ds)
  obtain c1 rb1 where 1: "rb_prepend_slice Unbounded sco d rb = Some rb1" "rb_chunks rb1 = [c1]"
    "length c1 = length c" "rb_front rb1 = rb_front rb - length d" "rb_capacity rb1 = rb_capacity rb"
    using prepend_within [OF Cons.prems(1,2), of d sco] Cons.prems(3) by auto
  have "rb_inv rb1 \<and> rb_contents rb1 = d @ rb_contents rb" using rb_prepend_slice_inv [OF Cons.prems(1), of sco d] 1(1) by simp
  then show ?case using Cons.IH [of rb1 c1] Cons.prems 1 by auto
qed

lemma first_prepend_exact:
  assumes "0 < length d" and "length d < n"
  shows "\<exists>c rb. plan_reservation_exact Unbounded n rb_new \<bind> rb_prepend_slice Unbounded sco d = Some rb \<and>
    rb_chunks rb = [c] \<and> rb_inv rb \<and> length c = n \<and> rb_front rb = n - length d \<and> rb_capacity rb = n \<and> rb_contents rb = d"
proof -
  let ?r = "rb_new\<lparr>rb_planned_allocation := n, rb_planned_exact := True\<rparr>"
  have z: "rb_front rb_new = 0" "rb_chunks rb_new = []" "rb_capacity rb_new = 0" by (simp_all add: rb_new_def)
  then have plan: "plan_reservation_exact Unbounded n rb_new = Some ?r" by (simp add: plan_reservation_exact_def)
  have p: "plan_reservation (length d) ?r = ?r" using assms z by (simp add: plan_reservation_def)
  have "rb_contents ?r = []" by (simp add: rb_contents_def rb_cells_def rb_new_def)
  moreover have "rb_inv ?r" using assms z rb_new_inv plan_reservation_exact_inv [of rb_new n] plan by auto
  moreover have "\<exists>c rb. rb_prepend_slice Unbounded sco d ?r = Some rb \<and>
    rb_chunks rb = [c] \<and> length c = n \<and> rb_front rb = n - length d \<and> rb_capacity rb = n"
    using assms z
    by (auto simp: rb_prepend_slice_def grow_and_copy_slice_def p Let_def rb_grow_eq new_allocation_size_def
        write_front_snoc [where cs = "[]"])
  ultimately show ?thesis using rb_prepend_slice_inv [of ?r sco d] plan by auto
qed

text \<open>
  A buffer with an exact plan for the total size of what is then prepended allocates once: it
  ends with one chunk of exactly the planned size, without spare cells, that holds all the data.
  The first piece must be shorter than the plan.
\<close>

theorem exact_plan_allocates_once:
  assumes "d \<noteq> []" and "ds \<noteq> []" and "\<forall>x \<in> set ds. x \<noteq> []"
  defines "n \<equiv> sum_list (map length (d # ds))"
  shows "\<exists>rb. rb_run Unbounded sco dops (Plan_exact n # map Prepend_slice (d # ds)) rb_new = Some rb \<and>
    rb_chunks rb = [map Some (concat (rev (d # ds)))] \<and> rb_front rb = 0 \<and> rb_capacity rb = n"
proof -
  have pos: "0 < sum_list (map length ds)" using assms(2,3) by (cases ds) auto
  obtain c rb where rb: "plan_reservation_exact Unbounded n rb_new \<bind> rb_prepend_slice Unbounded sco d = Some rb"
    "rb_chunks rb = [c]" "rb_inv rb" "length c = n" "rb_front rb = n - length d" "rb_capacity rb = n" "rb_contents rb = d"
    using first_prepend_exact [of d n sco] assms(1) pos by (auto simp: n_def)
  obtain rb' c' where rb': "rb_run Unbounded sco dops (map Prepend_slice ds) rb = Some rb'" "rb_inv rb'"
    "rb_chunks rb' = [c']" "rb_front rb' = 0" "rb_capacity rb' = n" "rb_contents rb' = concat (rev ds) @ d"
    using run_within [OF rb(3,2), of ds sco dops] rb(5,6,7) by (auto simp: n_def)
  have run: "rb_run Unbounded sco dops (Plan_exact n # map Prepend_slice (d # ds)) rb_new = Some rb'"
    using rb(1) rb'(1) by (auto simp: bind_eq_Some_conv)
  have "rb_contents rb' = concat (rev (d # ds))" using rb'(6) by simp
  then have "c' = map Some (concat (rev (d # ds)))"
    using rb_cells_eq [OF rb'(2)] rb'(3,4) by (simp add: rb_cells_def)
  then show ?thesis using run rb'(3-5) by blast
qed

theorem exact_plan_allocates_once_witness:
  "\<exists>rb. rb_run Unbounded False slice_ops [Plan_exact 3, Prepend_slice [7], Prepend_slice [8, 9]] rb_new = Some rb \<and>
    rb_chunks rb = [[Some 8, Some 9, Some 7]] \<and> rb_front rb = 0 \<and> rb_capacity rb = 3"
  using exact_plan_allocates_once [of "[7]" "[[8, 9]]" False slice_ops] by (simp add: numeral_3_eq_3)

section \<open>On 64 bits\<close>

text \<open>
  The bytes an operation may ask for, and what the fields of a buffer are bounded by after operations that asked for \<open>t\<close>
  bytes in all: at most three times as many, and the first chunk.
\<close>

primrec op_demand :: "('d \<Rightarrow> bytes) \<Rightarrow> 'd rb_op \<Rightarrow> nat" where
  "op_demand contents (Prepend_slice d) = length d"
| "op_demand contents (Prepend_array d) = length d"
| "op_demand contents (Prepend_u8 x) = 1"
| "op_demand contents (Prepend_buf b) = length (contents b)"
| "op_demand contents (Advance n) = 0"
| "op_demand contents Clear = 0"
| "op_demand contents (Plan n) = n"
| "op_demand contents (Plan_exact n) = n"

definition run_demand :: "('d \<Rightarrow> bytes) \<Rightarrow> 'd rb_op list \<Rightarrow> nat" where
  "run_demand contents os = sum_list (map (op_demand contents) os)"

definition rb_bounded :: "nat \<Rightarrow> reverse_buffer \<Rightarrow> bool" where
  "rb_bounded t rb \<longleftrightarrow> rb_front rb \<le> rb_capacity rb \<and> rb_capacity rb \<le> rb_front rb + t \<and>
     rb_capacity rb \<le> 3 * t + 32 \<and> rb_planned_allocation rb \<le> rb_capacity rb + t"

lemma rb_boundedD:
  assumes "rb_bounded t rb"
  shows "rb_front rb \<le> rb_capacity rb" "rb_capacity rb \<le> rb_front rb + t" "rb_capacity rb \<le> 3 * t + 32"
    "rb_planned_allocation rb \<le> rb_capacity rb + t"
  using assms by (simp_all add: rb_bounded_def)

lemma rb_bounded_mono: "rb_bounded t rb \<Longrightarrow> t \<le> u \<Longrightarrow> rb_bounded u rb"
  by (auto simp: rb_bounded_def)

text \<open>Below the limits the targets agree.\<close>

lemma allocate_chunk_same: "n < 2 ^ 63 \<Longrightarrow> allocate_chunk tg n = allocate_chunk Unbounded n"
  by (simp add: allocate_chunk_def layout_array_u8_def isize_max_def)

lemma usize_add_same: "a + b < 2 ^ 64 \<Longrightarrow> usize_add tg a b = Some (a + b)"
  by (simp add: usize_add_def split: target.split)

lemma rb_grow_same:
  assumes "new_allocation_size rb < 2 ^ 63" and "rb_capacity rb + new_allocation_size rb < 2 ^ 64" and "rb_front rb \<le> rb_capacity rb"
  shows "rb_grow tg rb = rb_grow Unbounded rb"
proof -
  have "rb_front rb + new_allocation_size rb < 2 ^ 64" using assms(2,3) by linarith
  then show ?thesis
    unfolding rb_grow_def Let_def allocate_chunk_same [OF assms(1), of tg]
    by (simp add: usize_add_same [OF assms(2)] usize_add_same)
qed

text \<open>What the steps of a prepending operation leave of the fields that sizes are computed from.\<close>

lemma write_fields:
  "write_front pos d rb = Some rb' \<Longrightarrow> rb_front rb' = rb_front rb \<and> rb_capacity rb' = rb_capacity rb \<and>
     rb_planned_allocation rb' = rb_planned_allocation rb \<and> rb_planned_exact rb' = rb_planned_exact rb"
  "self_copy_front d rb = Some rb' \<Longrightarrow> rb_front rb' = rb_front rb \<and> rb_capacity rb' = rb_capacity rb \<and>
     rb_planned_allocation rb' = rb_planned_allocation rb \<and> rb_planned_exact rb' = rb_planned_exact rb"
  by (auto simp: write_front_def self_copy_front_def set_front_chunk_def split: if_splits)

lemma rb_grow_fields:
  "rb_grow Unbounded rb = Some rb' \<Longrightarrow> rb_front rb' = rb_front rb + new_allocation_size rb \<and>
     rb_capacity rb' = rb_capacity rb + new_allocation_size rb \<and> rb_planned_allocation rb' = 0"
  by (auto simp: rb_grow_def Let_def split: if_splits)

text \<open>A chunk that is allocated for \<open>k\<close> bytes for which there is no room.\<close>

lemma allocation_bound:
  assumes "rb_bounded t rb" and "rb_front rb < k" and "t + k < 2 ^ 61"
    and "rb' = rb \<or> rb' = plan_reservation k rb"
  shows "new_allocation_size rb' \<le> 2 * (t + k) + 32" "new_allocation_size rb' < 2 ^ 63"
    "rb_capacity rb + new_allocation_size rb' \<le> 3 * (t + k) + 32"
    "rb_capacity rb + new_allocation_size rb' < 2 ^ 64"
proof -
  note b = rb_boundedD [OF assms(1)]
  have p: "rb_planned_allocation rb' \<le> max (rb_planned_allocation rb) k"
    using assms(4) by (auto simp: plan_reservation_def checked_sub_def)
  have "new_allocation_size rb' \<le> max (max 32 (rb_capacity rb)) (max (rb_planned_allocation rb) k)"
    using p assms(4) by (auto simp: new_allocation_size_def MIN_CHUNK_SIZE_def)
  moreover have c: "rb_capacity rb < t + k" using b(2) assms(2) by linarith
  ultimately show n: "new_allocation_size rb' \<le> 2 * (t + k) + 32"
    using b(4) by (auto simp: max_def split: if_splits)
  show m: "rb_capacity rb + new_allocation_size rb' \<le> 3 * (t + k) + 32" using n c by (simp add: algebra_simps)
  from m n assms(3) show "new_allocation_size rb' < 2 ^ 63" "rb_capacity rb + new_allocation_size rb' < 2 ^ 64"
    by simp_all
qed

lemma grow_and_copy_slice_bounded:
  assumes b: "rb_bounded t rb" and k: "rb_front rb < length d" "t + length d < 2 ^ 61"
  shows "grow_and_copy_slice tg d rb = grow_and_copy_slice Unbounded d rb"
    and "grow_and_copy_slice Unbounded d rb = Some rb' \<Longrightarrow> rb_bounded (t + length d) rb'"
proof -
  let ?p = "plan_reservation (length d) rb"
  note a = allocation_bound [OF b k, OF disjI2 [OF refl]]
  note bs = rb_boundedD [OF b]
  have g: "rb_grow tg r = rb_grow Unbounded r" if "r = ?p \<or> write_front 0 x ?p = Some r" for r x
  proof -
    have "rb_front r = rb_front rb" "rb_capacity r = rb_capacity rb" "new_allocation_size r = new_allocation_size ?p"
      using that write_fields(1) [of 0 x ?p r] by (auto simp: new_allocation_size_def)
    then show ?thesis using a bs(1) by (intro rb_grow_same) simp_all
  qed
  then show "grow_and_copy_slice tg d rb = grow_and_copy_slice Unbounded d rb"
    by (auto simp: grow_and_copy_slice_def Let_def intro!: Option.bind_cong)
  have fin: "rb_bounded (t + length d) (r2\<lparr>rb_front := rb_front r1 - length d\<rparr>)"
    if "r = ?p \<or> write_front 0 x ?p = Some r" "rb_grow Unbounded r = Some r1" "length d \<le> rb_front r1"
      "write_front pos y r1 = Some r2" for r r1 r2 x y pos
  proof -
    have r: "rb_front r = rb_front rb" "rb_capacity r = rb_capacity rb" "new_allocation_size r = new_allocation_size ?p"
      using that(1) write_fields(1) [of 0 x ?p r] by (auto simp: new_allocation_size_def)
    show ?thesis
      using rb_grow_fields [OF that(2)] write_fields(1) [OF that(4)] that(3) a(3) bs(1,2) r
      by (simp add: rb_bounded_def)
  qed
  show "rb_bounded (t + length d) rb'" if "grow_and_copy_slice Unbounded d rb = Some rb'"
    using that by (auto simp: grow_and_copy_slice_def Let_def bind_eq_Some_conv split: if_splits) (blast intro: fin)+
qed

lemma prepend_front_bounded:
  assumes "rb_bounded t rb" and "k \<le> rb_front rb"
    and "write_front pos d rb = Some r \<or> self_copy_front d rb = Some r"
  shows "rb_bounded (t + k) (r\<lparr>rb_front := rb_front rb - k\<rparr>)"
  using rb_boundedD [OF assms(1)] assms(2,3) write_fields(1) [of pos d rb r] write_fields(2) [of d rb r]
  by (auto simp: rb_bounded_def)

lemma rb_prepend_bytes_bounded:
  assumes b: "rb_bounded t rb" and k: "t + length d < 2 ^ 61"
  shows "rb_prepend_slice tg sco d rb = rb_prepend_slice Unbounded sco d rb \<and>
      (\<forall>rb'. rb_prepend_slice Unbounded sco d rb = Some rb' \<longrightarrow> rb_bounded (t + length d) rb')"
    and "rb_prepend_array tg d rb = rb_prepend_array Unbounded d rb \<and>
      (\<forall>rb'. rb_prepend_array Unbounded d rb = Some rb' \<longrightarrow> rb_bounded (t + length d) rb')"
proof -
  have fits: "rb_bounded (t + length d) (r\<lparr>rb_front := rb_front rb - length d\<rparr>)"
    if "length d \<le> rb_front rb" "write_front pos x rb = Some r \<or> self_copy_front x rb = Some r" for r pos x
    using prepend_front_bounded [OF b that] .
  show "rb_prepend_slice tg sco d rb = rb_prepend_slice Unbounded sco d rb \<and>
      (\<forall>rb'. rb_prepend_slice Unbounded sco d rb = Some rb' \<longrightarrow> rb_bounded (t + length d) rb')"
  proof (cases "length d \<le> rb_front rb")
    case True
    then show ?thesis using fits by (auto simp: rb_prepend_slice_def bind_eq_Some_conv split: if_splits)
  next
    case False
    then show ?thesis using grow_and_copy_slice_bounded [OF b _ k] by (simp add: rb_prepend_slice_def)
  qed
  show "rb_prepend_array tg d rb = rb_prepend_array Unbounded d rb \<and>
      (\<forall>rb'. rb_prepend_array Unbounded d rb = Some rb' \<longrightarrow> rb_bounded (t + length d) rb')"
  proof (cases "length d \<le> rb_front rb")
    case True
    then show ?thesis using fits by (auto simp: rb_prepend_array_def bind_eq_Some_conv)
  next
    case False
    then show ?thesis using grow_and_copy_slice_bounded [OF b _ k] by (simp add: rb_prepend_array_def)
  qed
qed

lemma rb_prepend_u8_bounded:
  assumes b: "rb_bounded t rb" and k: "t + 1 < 2 ^ 61"
  shows "rb_prepend_u8 tg x rb = rb_prepend_u8 Unbounded x rb"
    and "rb_prepend_u8 Unbounded x rb = Some rb' \<Longrightarrow> rb_bounded (t + 1) rb'"
proof -
  have "rb_prepend_u8 tg x rb = rb_prepend_u8 Unbounded x rb \<and>
      (\<forall>rb'. rb_prepend_u8 Unbounded x rb = Some rb' \<longrightarrow> rb_bounded (t + 1) rb')"
  proof (cases "rb_front rb = 0")
    case True
    note a = allocation_bound [OF b _ k, of rb]
    have "rb_bounded (t + 1) (r2\<lparr>rb_front := rb_front r1 - 1\<rparr>)"
      if "rb_grow Unbounded rb = Some r1" "1 \<le> rb_front r1" "write_front pos y r1 = Some r2" for r1 r2 y pos
      using rb_grow_fields [OF that(1)] write_fields(1) [OF that(3)] that(2) a(3) rb_boundedD(1,2) [OF b] True
      by (simp add: rb_bounded_def)
    then show ?thesis
      using True rb_grow_same [of rb tg] a rb_boundedD(1) [OF b]
      by (auto simp: rb_prepend_u8_def bind_eq_Some_conv)
  next
    case False
    then show ?thesis
      using prepend_front_bounded [OF b, of 1] by (auto simp: rb_prepend_u8_def bind_eq_Some_conv)
  qed
  then show "rb_prepend_u8 tg x rb = rb_prepend_u8 Unbounded x rb"
    "rb_prepend_u8 Unbounded x rb = Some rb' \<Longrightarrow> rb_bounded (t + 1) rb'" by blast+
qed

lemma rb_clear_bounded:
  assumes "rb_ok rb" and "rb_bounded t rb" and "rb_clear rb = Some rb'"
  shows "rb_bounded t rb'"
proof (cases "rb_keep_back rb")
  case True
  then obtain c cs where "rb_chunks rb = c # cs" using rb_ok_sizes(3) [OF assms(1)] by (cases "rb_chunks rb") auto
  then show ?thesis
    using True rb_boundedD(3) [OF assms(2)] rb_ok_sizes(2) [OF assms(1)] assms(3)
    by (auto simp: rb_clear_def rb_bounded_def)
next
  case False
  then show ?thesis using assms(3) by (auto simp: rb_clear_def rb_bounded_def rb_new_def)
qed

lemma pop_chunks_bounded: "rb_bounded t rb \<Longrightarrow> rb_bounded t (pop_chunks rb)"
proof (induction rb rule: pop_chunks.induct)
  case (1 rb)
  let ?n = "length (last (rb_chunks rb))"
  let ?r = "rb\<lparr>rb_chunks := butlast (rb_chunks rb), rb_capacity := rb_capacity rb - ?n, rb_front := rb_front rb - ?n,
    rb_planned_allocation := 0, rb_planned_exact := False\<rparr>"
  show ?case
  proof (cases "rb_chunks rb = [] \<or> rb_front rb < ?n \<or> rb_keep_back rb \<and> length (rb_chunks rb) = 1")
    case True
    then show ?thesis using 1(2) by (subst pop_chunks.simps) (auto simp: Let_def)
  next
    case False
    then have "?n \<le> rb_front rb" by auto
    then have "rb_bounded t ?r" using rb_boundedD [OF 1(2)] unfolding rb_bounded_def by simp linarith
    then have "rb_bounded t (pop_chunks ?r)" using 1(1) [of ?n] False by simp
    then show ?thesis using False by (subst pop_chunks.simps) (auto simp: Let_def)
  qed
qed

lemma rb_advance_bounded:
  assumes "rb_bounded t rb" and "rb_advance n rb = Some rb'"
  shows "rb_bounded t rb'"
proof (cases "n = 0")
  case False
  then have "rb_bounded t (rb\<lparr>rb_front := rb_front rb + n\<rparr>)" "rb' = pop_chunks (rb\<lparr>rb_front := rb_front rb + n\<rparr>)"
    using assms by (auto simp: rb_advance_def rb_len_def rb_bounded_def bind_eq_Some_conv split: if_splits)
  then show ?thesis using pop_chunks_bounded by blast
qed (use assms in \<open>simp add: rb_advance_def\<close>)

context buf_contract
begin

lemma grow_and_copy_buf_bounded:
  assumes b: "rb_bounded t rb" and k: "rb_front rb < k" "t + k < 2 ^ 61"
  shows "grow_and_copy_buf tg ops d k rb = grow_and_copy_buf Unbounded ops d k rb"
    and "grow_and_copy_buf Unbounded ops d k rb = Some rb' \<Longrightarrow> rb_bounded (t + k) rb'"
proof -
  let ?n = "new_allocation_size (plan_reservation k rb)"
  note a = allocation_bound [OF b k, OF disjI2 [OF refl]]
  note bs = rb_boundedD [OF b]
  have "?n + rb_front rb < 2 ^ 64" using a(4) bs(1) by linarith
  then have u: "usize_add tg ?n (rb_front rb) = Some (?n + rb_front rb)" by (rule usize_add_same)
  show "grow_and_copy_buf tg ops d k rb = grow_and_copy_buf Unbounded ops d k rb"
    unfolding grow_and_copy_buf_def Let_def allocate_chunk_same [OF a(2), of tg]
    by (auto simp: u usize_add_same [OF a(4)] dest!: write_fields(1) intro!: Option.bind_cong)
  show "rb_bounded (t + k) rb'" if "grow_and_copy_buf Unbounded ops d k rb = Some rb'"
    using that a(3) bs(1,2)
    by (auto simp: grow_and_copy_buf_def Let_def bind_eq_Some_conv rb_bounded_def dest!: write_fields(1) split: if_splits)
qed

lemma rb_prepend_bounded:
  assumes b: "rb_bounded t rb" and "binv d" and k: "t + length (contents d) < 2 ^ 61"
  shows "rb_prepend tg sco ops d rb = rb_prepend Unbounded sco ops d rb"
    and "rb_prepend Unbounded sco ops d rb = Some rb' \<Longrightarrow> rb_bounded (t + length (contents d)) rb'"
proof -
  have r: "b_remaining ops d = length (contents d)" by (rule remaining [OF assms(2)])
  have "rb_prepend tg sco ops d rb = rb_prepend Unbounded sco ops d rb \<and>
      (\<forall>rb'. rb_prepend Unbounded sco ops d rb = Some rb' \<longrightarrow> rb_bounded (t + length (contents d)) rb')"
  proof (cases "length (contents d) \<le> rb_front rb")
    case True
    have "rb_prepend tg sco ops d rb = rb_prepend Unbounded sco ops d rb" using True by (simp add: rb_prepend_def r Let_def)
    moreover have "rb_bounded (t + length (contents d)) rb'" if p: "rb_prepend Unbounded sco ops d rb = Some rb'" for rb'
    proof (cases "contents d = []")
      case True
      then show ?thesis using p b by (simp add: rb_prepend_def r)
    next
      case nonempty: False
      then obtain r pos x where "rb' = r\<lparr>rb_front := rb_front rb - length (contents d)\<rparr>"
        "write_front pos x rb = Some r \<or> self_copy_front x rb = Some r"
        using p True unfolding rb_prepend_def r Let_def
        by (cases "sco \<and> length (contents d) \<le> MAX_SELF_COPY") (auto simp: bind_eq_Some_conv)
      then show ?thesis using prepend_front_bounded [OF b True] by blast
    qed
    ultimately show ?thesis by blast
  next
    case False
    then have "rb_prepend u sco ops d rb = grow_and_copy_buf u ops d (length (contents d)) rb" for u
      by (auto simp: rb_prepend_def r Let_def)
    then show ?thesis using grow_and_copy_buf_bounded(1) [OF b _ k, where tg = tg] grow_and_copy_buf_bounded(2) [OF b _ k] False by auto
  qed
  then show "rb_prepend tg sco ops d rb = rb_prepend Unbounded sco ops d rb"
    "rb_prepend Unbounded sco ops d rb = Some rb' \<Longrightarrow> rb_bounded (t + length (contents d)) rb'" by blast+
qed

lemma rb_apply_bounded:
  assumes ok: "rb_ok rb" and b: "rb_bounded t rb" and op: "op_ok binv op" and k: "t + op_demand contents op < 2 ^ 61"
  shows "rb_apply tg sco ops op rb = rb_apply Unbounded sco ops op rb \<and>
    (\<forall>rb'. rb_apply Unbounded sco ops op rb = Some rb' \<longrightarrow> rb_bounded (t + op_demand contents op) rb')"
proof (cases op)
  case (Prepend_slice d)
  then have "t + length d < 2 ^ 61" using k by simp
  then show ?thesis
    unfolding Prepend_slice rb_apply.simps op_demand.simps by (rule rb_prepend_bytes_bounded [OF b])
next
  case (Prepend_array d)
  then have "t + length d < 2 ^ 61" using k by simp
  then show ?thesis
    unfolding Prepend_array rb_apply.simps op_demand.simps by (rule rb_prepend_bytes_bounded [OF b])
next
  case (Prepend_u8 x)
  then have "t + 1 < 2 ^ 61" using k by simp
  from rb_prepend_u8_bounded [OF b this] show ?thesis unfolding Prepend_u8 rb_apply.simps op_demand.simps by blast
next
  case (Prepend_buf d)
  then have "binv d" "t + length (contents d) < 2 ^ 61" using op k by simp_all
  from rb_prepend_bounded [OF b this] show ?thesis unfolding Prepend_buf rb_apply.simps op_demand.simps by blast
next
  case (Plan n)
  then show ?thesis using rb_boundedD [OF b] by (auto simp: plan_reservation_def rb_bounded_def checked_sub_def)
next
  case (Plan_exact n)
  then have "rb_capacity rb + (n - rb_front rb) < 2 ^ 64" using rb_boundedD [OF b] k by simp
  then show ?thesis
    using rb_boundedD [OF b] Plan_exact
    by (auto simp: plan_reservation_exact_def rb_bounded_def checked_sub_def usize_add_same)
qed (use rb_clear_bounded [OF ok b] rb_advance_bounded [OF b] in simp_all)

lemma rb_run_bounded:
  assumes "rb_ok rb" and "rb_bounded t rb" and "\<forall>op \<in> set os. op_ok binv op" and "t + run_demand contents os < 2 ^ 61"
  shows "rb_run tg sco ops os rb = rb_run Unbounded sco ops os rb \<and>
    (\<forall>rb'. rb_run Unbounded sco ops os rb = Some rb' \<longrightarrow> rb_bounded (t + run_demand contents os) rb')"
  using assms
proof (induction os arbitrary: rb t)
  case (Cons op os)
  have op: "op_ok binv op" "t + op_demand contents op < 2 ^ 61"
    using Cons.prems(3,4) by (simp_all add: run_demand_def)
  note step = rb_apply_bounded [OF Cons.prems(1,2) op, of tg sco]
  show ?case
  proof (cases "rb_apply Unbounded sco ops op rb")
    case (Some rb')
    have "rb_ok rb'" using rb_run_ok [OF Cons.prems(1), of "[op]" sco] op(1) Some by simp
    then show ?thesis
      using Cons.IH [of rb' "t + op_demand contents op"] step Some Cons.prems(3,4) by (simp add: run_demand_def add.assoc)
  qed (use step in simp)
qed (simp add: run_demand_def)

end

section \<open>Properties\<close>

lemma rb_start:
  assumes "start = rb_new \<and> v = [] \<and> c = 0 \<or> rb_with_capacity tg c = Some start \<and> v = [] \<or>
    start = rb_from_boxed_slice v \<and> c = length v"
  shows "rb_inv start" "rb_contents start = v" "rb_bounded c start"
proof -
  have cap: "rb_with_capacity tg c = Some start \<Longrightarrow> rb_with_capacity Unbounded c = Some start"
    by (auto simp: rb_with_capacity_def allocate_chunk_def layout_array_u8_def bind_eq_Some_conv split: if_splits)
  show "rb_inv start" "rb_contents start = v"
    using assms cap rb_new_inv rb_with_capacity_inv [of c] rb_from_boxed_slice_inv [of v] by auto
  show "rb_bounded c start"
    using assms cap
    by (auto simp: rb_bounded_def rb_new_def rb_with_capacity_def rb_from_boxed_slice_def split: if_splits)
qed

text \<open>
  C16. However a \<open>ReverseBuffer\<close> is created and whatever operations follow, in either setting of the self-copy flag and from
  whatever buffers it is fed, it behaves as the plain byte string of its specification: it panics
  exactly when asked to advance past its end, and otherwise \<^verbatim>\<open>len\<close>, \<^verbatim>\<open>into_vec\<close>, reading through \<^verbatim>\<open>Buf\<close>, through a
  borrowed reader, and the vectored slices all give the bytes of the specification; no uninitialised cell is ever
  read. On 64 bits, with or without overflow checks, this is so for runs that ask for less than two to the power of 61 bytes. An exact
  plan for zero bytes is the one that can make a run fail that should not; what does not fail is right.
\<close>

theorem reverse_buffer_refines:
  assumes dops: "buf_contract dops contents binv" and sources: "\<forall>b. Prepend_buf b \<in> set ops \<longrightarrow> binv b"
    and start: "start = rb_new \<and> v = [] \<and> c = 0 \<or> rb_with_capacity tg c = Some start \<and> v = [] \<or>
      start = rb_from_boxed_slice v \<and> c = length v"
    and size: "tg = Unbounded \<or> c + run_demand contents ops < 2 ^ 61"
  shows "(case rb_run tg sco dops ops start of
      None \<Rightarrow> spec_run contents ops v = None \<or> Plan_exact 0 \<in> set ops
    | Some rb \<Rightarrow> \<exists>bs. spec_run contents ops v = Some bs \<and> rb_holds rb bs)"
proof -
  note st = rb_start [OF start]
  have ok: "\<forall>op \<in> set ops. op_ok binv op" using sources by (auto simp: op_ok_def split: rb_op.split)
  have nz: "\<not> zero_planned start" using st(1) by (auto simp: zero_planned_def rb_inv_def)
  have run: "rb_run tg sco dops ops start = rb_run Unbounded sco dops ops start"
    using size buf_contract.rb_run_bounded [OF dops rb_ok_inv [OF st(1)] st(3) ok, of tg sco] by auto
  have holds: "rb_holds rb (rb_contents rb)" if "rb_ok rb" for rb
    using that rb_inv_holds zero_planned_holds zero_planned_fields(2) by (auto simp: rb_ok_def)
  show ?thesis
    unfolding run using buf_contract.rb_run_ok [OF dops rb_ok_inv [OF st(1)] ok, of sco] nz st(2) holds
    by (auto split: option.splits)
qed

theorem reverse_buffer_refines_witness:
  "\<exists>rb. rb_run (Bits64 True) True slice_ops
      [Plan 3, Prepend_u8 1, Prepend_slice [2, 3], Advance 1, Prepend_buf [7, 8], Prepend_array [9, 9]] rb_new = Some rb
    \<and> rb_holds rb [9, 9, 7, 8, 3, 1]"
  using reverse_buffer_refines [OF slice.buf_contract_axioms, where start = rb_new and v = "[]" and c = 0 and tg = "Bits64 True"
      and sco = True and ops = "[Plan 3, Prepend_u8 1, Prepend_slice [2, 3], Advance 1, Prepend_buf [7, 8], Prepend_array [9, 9]]"]
  by (simp add: run_demand_def del: rb_run.simps split: option.splits)

text \<open>The memory a run takes: at most three times the bytes it asked for, and the least chunk.\<close>

theorem capacity_bounded:
  assumes "buf_contract dops contents binv" and "\<forall>op \<in> set ops. op_ok binv op"
    and "start = rb_new \<and> v = [] \<and> c = 0 \<or> rb_with_capacity tg c = Some start \<and> v = [] \<or>
      start = rb_from_boxed_slice v \<and> c = length v"
    and "c + run_demand contents ops < 2 ^ 61" and "rb_run tg sco dops ops start = Some rb"
  shows "rb_capacity rb \<le> 3 * (c + run_demand contents ops) + 32"
proof -
  note st = rb_start [OF assms(3)]
  have "rb_bounded (c + run_demand contents ops) rb"
    using buf_contract.rb_run_bounded [OF assms(1) rb_ok_inv [OF st(1)] st(3) assms(2,4), of tg sco] assms(5) by auto
  then show ?thesis by (rule rb_boundedD(3))
qed

text \<open>An exact plan on a buffer that has no free cells.\<close>

lemma exact_plan_set:
  assumes "rb_inv rb" and "rb_front rb = 0" and "0 < n" and "rb_capacity rb + n < 2 ^ 61"
  defines "r \<equiv> rb\<lparr>rb_planned_allocation := rb_capacity rb + n, rb_planned_exact := True\<rparr>"
  shows "plan_reservation_exact tg n rb = Some r" "rb_inv r" "rb_grow tg r = rb_grow Unbounded r"
proof -
  show "plan_reservation_exact tg n rb = Some r"
    using assms(2,4) by (simp add: r_def plan_reservation_exact_def usize_add_same)
  show "rb_inv r" using assms(1-3) by (auto simp: r_def rb_inv_def rb_front_ok_def rb_cells_def split: if_splits)
  show "rb_grow tg r = rb_grow Unbounded r"
    using assms(2,4) by (intro rb_grow_same) (simp_all add: r_def new_allocation_size_def)
qed

lemma exact_plan_grows:
  assumes "rb_inv rb" and "rb_front rb = 0" and "0 < n" and "rb_capacity rb + n < 2 ^ 61"
  shows "\<exists>r r'. plan_reservation_exact tg n rb = Some r \<and> rb_prepend_u8 tg x r = Some r' \<and>
    rb_capacity r' = 2 * rb_capacity rb + n"
proof -
  let ?r = "rb\<lparr>rb_planned_allocation := rb_capacity rb + n, rb_planned_exact := True\<rparr>"
  note plan = exact_plan_set [OF assms]
  obtain r' where r': "rb_prepend_u8 Unbounded x ?r = Some r'" using rb_prepend_u8_inv [OF plan(2), of x] by blast
  moreover have "rb_prepend_u8 tg x ?r = rb_prepend_u8 Unbounded x ?r"
    using plan(3) [of tg] assms(2) by (simp add: rb_prepend_u8_def)
  moreover have "rb_capacity r' = 2 * rb_capacity rb + n"
    using r' assms(2)
    by (auto simp: rb_prepend_u8_def bind_eq_Some_conv new_allocation_size_def dest!: rb_grow_fields write_fields(1))
  ultimately show ?thesis using plan(1) by auto
qed

lemma zero_allocation:
  "rb_front r = 0 \<Longrightarrow> rb_planned_exact r \<Longrightarrow> rb_planned_allocation r = 0 \<Longrightarrow> rb_prepend_u8 tg x r = None"
  by (simp add: rb_prepend_u8_def rb_grow_def new_allocation_size_def allocate_chunk_def layout_array_u8_def)

lemma exact_plan_empty:
  "rb_front rb = 0 \<Longrightarrow> rb_capacity rb = 0 \<Longrightarrow> plan_reservation_exact tg 0 rb \<bind> rb_prepend_u8 tg x = None"
  by (simp add: plan_reservation_exact_def usize_add_same zero_allocation)

lemma exact_plan_wraps:
  assumes "rb_front rb = 0" and "0 < rb_capacity rb" and "rb_capacity rb < 2 ^ 64"
  shows "plan_reservation_exact (Bits64 False) (2 ^ 64 - rb_capacity rb) rb \<bind> rb_prepend_u8 (Bits64 False) x = None"
proof -
  have "rb_capacity rb + (2 ^ 64 - rb_capacity rb) = 2 ^ 64" using assms(3) by simp
  then have "usize_add (Bits64 False) (rb_capacity rb) (2 ^ 64 - rb_capacity rb) = Some 0" by (simp add: usize_add_def)
  then show ?thesis using assms(1) by (simp add: plan_reservation_exact_def zero_allocation)
qed

lemma exact_plan_forgotten:
  assumes "rb_inv rb" and "rb_front rb = 0" and "0 < length d" and "length d < 2 ^ 60" and "rb_capacity rb = 0"
  shows "\<exists>r r'. plan_reservation_exact tg (length d) rb = Some r \<and> rb_prepend_slice tg sco d r = Some r' \<and>
    rb_capacity r' = max 32 (length d)"
proof -
  let ?r = "rb\<lparr>rb_planned_allocation := rb_capacity rb + length d, rb_planned_exact := True\<rparr>"
  have "rb_capacity rb + length d < 2 ^ 61" using assms(4,5) by simp
  note plan = exact_plan_set [OF assms(1-3) this]
  have b: "rb_bounded (length d) ?r" using assms(2,5) by (simp add: rb_bounded_def)
  have "length d + length d < 2 ^ 61" using assms(4) by simp
  then have same: "rb_prepend_slice tg sco d ?r = rb_prepend_slice Unbounded sco d ?r"
    using rb_prepend_bytes_bounded(1) [OF b, where tg = tg and d = d] by blast
  obtain r' where r': "rb_prepend_slice Unbounded sco d ?r = Some r'" using rb_prepend_slice_inv [OF plan(2), of sco d] by blast
  have "plan_reservation (length d) ?r = rb\<lparr>rb_planned_allocation := length d, rb_planned_exact := False\<rparr>"
    using assms(2,5) by (simp add: plan_reservation_def)
  then have "rb_capacity r' = max 32 (length d)"
    using r' assms(2,3,5)
    by (auto simp: rb_prepend_slice_def grow_and_copy_slice_def bind_eq_Some_conv new_allocation_size_def MIN_CHUNK_SIZE_def
        dest!: rb_grow_fields write_fields(1))
  then show ?thesis using plan(1) same r' by auto
qed

text \<open>
  What \<^verbatim>\<open>plan_reservation_exact\<close> makes of the next allocation of a buffer that has no free cells: the cells it has already
  are planned once more, so that its capacity doubles before the bytes asked for are added; a plan for nothing on an
  empty buffer, and without overflow checks one whose sum with the capacity wraps to zero, makes the next byte a
  zero-sized allocation; and a plan for exactly the length of the next slice is dropped for one of at least 32 bytes.
\<close>

theorem exact_plan_departures:
  assumes rb: "rb_inv rb" "rb_front rb = 0" and n: "0 < n" "rb_capacity rb + n < 2 ^ 60"
  shows "(\<exists>r r'. plan_reservation_exact tg n rb = Some r \<and> rb_prepend_u8 tg x r = Some r' \<and>
      rb_capacity r' = 2 * rb_capacity rb + n) \<and>
    (rb_capacity rb = 0 \<longrightarrow> plan_reservation_exact tg 0 rb \<bind> rb_prepend_u8 tg x = None) \<and>
    (0 < rb_capacity rb \<longrightarrow>
      plan_reservation_exact (Bits64 False) (2 ^ 64 - rb_capacity rb) rb \<bind> rb_prepend_u8 (Bits64 False) x = None) \<and>
    (rb_capacity rb = 0 \<and> length d = n \<longrightarrow> (\<exists>r r'. plan_reservation_exact tg n rb = Some r \<and>
      rb_prepend_slice tg sco d r = Some r' \<and> rb_capacity r' = max 32 n))"
  using exact_plan_grows [OF rb n(1), of tg x] exact_plan_empty [OF rb(2), of tg x] exact_plan_wraps [OF rb(2), of x]
    exact_plan_forgotten [OF rb, of d tg sco] n by auto

theorem exact_plan_departures_witness:
  "(\<exists>r r'. plan_reservation_exact (Bits64 True) 2 (rb_from_boxed_slice [1, 2, 3]) = Some r \<and>
      rb_prepend_u8 (Bits64 True) 7 r = Some r' \<and> rb_capacity r' = 8) \<and>
   plan_reservation_exact (Bits64 False) 18446744073709551613 (rb_from_boxed_slice [1, 2, 3]) \<bind>
      rb_prepend_u8 (Bits64 False) 7 = None"
proof -
  have "rb_front (rb_from_boxed_slice [1, 2, 3]) = 0" "rb_capacity (rb_from_boxed_slice [1, 2, 3]) = 3"
    by (simp_all add: rb_from_boxed_slice_def)
  then show ?thesis
    using exact_plan_departures [OF conjunct1 [OF rb_from_boxed_slice_inv], of "[1, 2, 3]" 2 "Bits64 True" 7] by simp
qed

text \<open>Debug assertions that fail on buffers their operations accept.\<close>

lemma empty_keep_back_debug_assert:
  "0 < n \<Longrightarrow> \<exists>rb. rb_with_capacity Unbounded n = Some rb \<and> rb_inv rb \<and> \<not> rb_chunk_debug_assert rb"
  using rb_with_capacity_inv [of n]
  by (auto simp: rb_with_capacity_def rb_chunk_debug_assert_def)

lemma empty_box_debug_assert:
  "rb_inv (rb_from_boxed_slice []) \<and> \<not> rb_len_debug_assert (rb_from_boxed_slice [])"
  using rb_from_boxed_slice_inv [of "[]"]
  by (simp add: rb_len_debug_assert_def rb_from_boxed_slice_def rb_new_def)

text \<open>
  Two debug assertions fail on buffers that keep the invariant: reading the chunk of an empty
  buffer created with a capacity, and measuring the buffer made from an empty boxed slice.
\<close>

theorem debug_assertions_too_strict:
  "(\<forall>n. \<exists>rb. rb_with_capacity Unbounded (Suc n) = Some rb \<and> rb_inv rb \<and> \<not> rb_chunk_debug_assert rb) \<and>
   rb_inv (rb_from_boxed_slice []) \<and> \<not> rb_len_debug_assert (rb_from_boxed_slice [])"
  using empty_keep_back_debug_assert empty_box_debug_assert by blast

end
