(* ===== verification/Canonicity.thy ===== *)
theory Canonicity
  imports Prelude
begin

text \<open>
  Canonicity of decoded data and the decoding contexts of \<^verbatim>\<open>src/src/encoding/mod.rs\<close>: the order of
  \<^verbatim>\<open>Canonicity\<close> (as an instance of \<open>linorder\<close>), its combination, the views of \<^verbatim>\<open>WithCanonicity\<close>, the
  recursion counter of \<^verbatim>\<open>DecodeContext\<close> and the threshold check of \<^verbatim>\<open>RestrictedDecodeContext\<close>.
\<close>

section \<open>Canonicity\<close>

datatype canonicity = NotCanonical | HasExtensions | Canonical

text \<open>The derived \<^verbatim>\<open>Ord\<close> follows the order of the variants.\<close>

primrec canonicity_repr :: "canonicity \<Rightarrow> nat" where
  "canonicity_repr NotCanonical = 0"
| "canonicity_repr HasExtensions = 1"
| "canonicity_repr Canonical = 2"

lemma canonicity_repr_inject [simp]: "canonicity_repr a = canonicity_repr b \<longleftrightarrow> a = b"
  by (cases a; cases b) auto

instantiation canonicity :: linorder
begin

definition less_eq_canonicity :: "canonicity \<Rightarrow> canonicity \<Rightarrow> bool" where
  "less_eq_canonicity a b \<longleftrightarrow> canonicity_repr a \<le> canonicity_repr b"

definition less_canonicity :: "canonicity \<Rightarrow> canonicity \<Rightarrow> bool" where
  "less_canonicity a b \<longleftrightarrow> canonicity_repr a < canonicity_repr b"

instance
  by standard (auto simp: less_eq_canonicity_def less_canonicity_def)

end

lemma canonicity_le_simps [simp]:
  "NotCanonical \<le> c" "c \<le> Canonical"
  "HasExtensions \<le> NotCanonical \<longleftrightarrow> False" "Canonical \<le> c \<longleftrightarrow> c = Canonical"
  by (cases c; simp add: less_eq_canonicity_def)+

lemma canonicity_less_simps [simp]:
  "c < NotCanonical \<longleftrightarrow> False" "Canonical < c \<longleftrightarrow> False"
  "NotCanonical < HasExtensions" "HasExtensions < Canonical" "NotCanonical < Canonical"
  by (cases c; simp add: less_canonicity_def)+

lemma canonicity_min_simps [simp]:
  "min Canonical c = c" "min c Canonical = c" "min NotCanonical c = NotCanonical"
  "min c NotCanonical = NotCanonical"
  by (cases c; simp add: min_def)+

lemma min_Canonical_iff [simp]: "min a b = Canonical \<longleftrightarrow> a = Canonical \<and> b = Canonical"
  by (cases a; cases b) (auto simp: min_def less_eq_canonicity_def)

definition canonicity_update :: "canonicity \<Rightarrow> canonicity \<Rightarrow> canonicity" where
  "canonicity_update self other = min self other"

primrec canonicity_from_iter :: "canonicity list \<Rightarrow> canonicity" where
  "canonicity_from_iter [] = Canonical"
| "canonicity_from_iter (c # cs) = min c (canonicity_from_iter cs)"

section \<open>The views of \<^verbatim>\<open>WithCanonicity\<close>\<close>

primrec canon_canonical :: "canonicity \<Rightarrow> unit decoded" where
  "canon_canonical NotCanonical = Err ErrNotCanonical"
| "canon_canonical HasExtensions = Err ErrUnknownField"
| "canon_canonical Canonical = Ok ()"

primrec canon_with_extensions :: "canonicity \<Rightarrow> unit decoded" where
  "canon_with_extensions NotCanonical = Err ErrNotCanonical"
| "canon_with_extensions HasExtensions = Ok ()"
| "canon_with_extensions Canonical = Ok ()"

definition pair_canonical :: "'t \<times> canonicity \<Rightarrow> 't decoded" where
  "pair_canonical p = res_bind (canon_canonical (snd p)) (\<lambda>_. Ok (fst p))"

definition pair_with_extensions :: "'t \<times> canonicity \<Rightarrow> 't decoded" where
  "pair_with_extensions p = res_bind (canon_with_extensions (snd p)) (\<lambda>_. Ok (fst p))"

definition pair_value :: "'t \<times> canonicity \<Rightarrow> 't" where
  "pair_value p = fst p"

definition result_canonical :: "('t \<times> canonicity) decoded \<Rightarrow> 't decoded" where
  "result_canonical r = res_bind r pair_canonical"

definition result_with_extensions :: "('t \<times> canonicity) decoded \<Rightarrow> 't decoded" where
  "result_with_extensions r = res_bind r pair_with_extensions"

definition result_value :: "('t \<times> canonicity) decoded \<Rightarrow> 't decoded" where
  "result_value r = res_bind r (\<lambda>p. Ok (pair_value p))"

section \<open>Decoding contexts\<close>

definition RECURSION_LIMIT :: u32 where
  "RECURSION_LIMIT = 100"

record decode_context =
  recurse_count :: u32

definition context_default :: decode_context where
  "context_default = \<lparr>recurse_count = RECURSION_LIMIT\<rparr>"

text \<open>The subtraction of a release build; it wraps only when \<open>limit_reached\<close> was not consulted.\<close>

definition enter_recursion :: "decode_context \<Rightarrow> decode_context" where
  "enter_recursion ctx = ctx\<lparr>recurse_count := recurse_count ctx - 1\<rparr>"

definition limit_reached :: "decode_context \<Rightarrow> unit decoded" where
  "limit_reached ctx = (if recurse_count ctx = 0 then Err RecursionLimitReached else Ok ())"

record restricted_context =
  rc_context :: decode_context
  rc_min_canonicity :: canonicity

definition restricted_new :: "canonicity \<Rightarrow> restricted_context" where
  "restricted_new min_canonicity =
    \<lparr>rc_context = context_default, rc_min_canonicity = min_canonicity\<rparr>"

definition restricted_enter_recursion :: "restricted_context \<Rightarrow> restricted_context" where
  "restricted_enter_recursion ctx = ctx\<lparr>rc_context := enter_recursion (rc_context ctx)\<rparr>"

definition restricted_limit_reached :: "restricted_context \<Rightarrow> unit decoded" where
  "restricted_limit_reached ctx = limit_reached (rc_context ctx)"

definition into_inner :: "restricted_context \<Rightarrow> decode_context" where
  "into_inner ctx = rc_context ctx"

definition check :: "restricted_context \<Rightarrow> canonicity \<Rightarrow> canonicity decoded" where
  "check ctx canon =
    (case (canon < rc_min_canonicity ctx, canon) of
       (True, NotCanonical) \<Rightarrow> Err ErrNotCanonical
     | (True, HasExtensions) \<Rightarrow> Err ErrUnknownField
     | _ \<Rightarrow> Ok canon)"

section \<open>Lemmas\<close>

lemma canonicity_from_iter_Min:
  "canonicity_from_iter cs = (if cs = [] then Canonical else Min (set cs))"
  by (induction cs) (auto simp: min_def)

lemma canonicity_from_iter_append:
  "canonicity_from_iter (cs @ ds) = min (canonicity_from_iter cs) (canonicity_from_iter ds)"
  by (induction cs) (auto simp: min.assoc)

lemma canonicity_from_iter_Canonical [simp]:
  "canonicity_from_iter cs = Canonical \<longleftrightarrow> (\<forall>c \<in> set cs. c = Canonical)"
  by (induction cs) auto

lemma check_Ok_iff [simp]:
  "check ctx c = Ok d \<longleftrightarrow> d = c \<and> rc_min_canonicity ctx \<le> c"
  by (cases c; cases "rc_min_canonicity ctx")
    (auto simp: check_def less_canonicity_def less_eq_canonicity_def)

lemma check_Canonical [simp]: "check ctx Canonical = Ok Canonical"
  by simp

lemma check_Err:
  "\<not> rc_min_canonicity ctx \<le> c \<Longrightarrow>
   check ctx c = Err (if c = NotCanonical then ErrNotCanonical else ErrUnknownField)"
  by (cases c; cases "rc_min_canonicity ctx")
    (auto simp: check_def less_canonicity_def less_eq_canonicity_def)

lemma enter_recursion_limit:
  "limit_reached ctx = Ok () \<Longrightarrow> unat (recurse_count (enter_recursion ctx)) = unat (recurse_count ctx) - 1"
  by (simp add: limit_reached_def enter_recursion_def unat_minus_one split: if_splits)

end
