(* ===== verification/Wire.thy ===== *)
theory Wire
  imports Varint Canonicity
begin

text \<open>
  The wire format of \<^verbatim>\<open>src/src/encoding/mod.rs\<close> and the length delimiters of \<^verbatim>\<open>src/src/lib.rs\<close>: wire
  types, the writers, measurers and reader of field keys, the soft limit \<^verbatim>\<open>Capped\<close>, peeking at
  repeated keys and skipping unknown fields. The definitions take the operations of the buffer as
  an argument, like the generic functions of the code; the lemmas in \<open>buf_contract\<close> show that they
  act on the content of the buffer only, and the simplification rules for \<open>slice_ops\<close> are what the
  theories of the field codecs use.
\<close>

section \<open>Wire types\<close>

datatype wire_type = WtVarint | WtLengthDelimited | WtThirtyTwoBit | WtSixtyFourBit

primrec wire_num :: "wire_type \<Rightarrow> u64" where
  "wire_num WtVarint = 0"
| "wire_num WtLengthDelimited = 1"
| "wire_num WtThirtyTwoBit = 2"
| "wire_num WtSixtyFourBit = 3"

definition wire_type_from :: "u8 \<Rightarrow> wire_type outcome" where
  "wire_type_from value = (let w = value AND 3 in
     if w = 0 then Done WtVarint
     else if w = 1 then Done WtLengthDelimited
     else if w = 2 then Done WtThirtyTwoBit
     else if w = 3 then Done WtSixtyFourBit
     else Panic)"

primrec fixed_size :: "wire_type \<Rightarrow> nat option" where
  "fixed_size WtSixtyFourBit = Some 8"
| "fixed_size WtThirtyTwoBit = Some 4"
| "fixed_size WtVarint = None"
| "fixed_size WtLengthDelimited = None"

definition check_wire_type :: "wire_type \<Rightarrow> wire_type \<Rightarrow> unit outcome" where
  "check_wire_type expected actual = (if expected \<noteq> actual then Fail WrongWireType else Done ())"

section \<open>Writing and measuring keys\<close>

definition checked_sub_u32 :: "u32 \<Rightarrow> u32 \<Rightarrow> u32 option" where
  "checked_sub_u32 a b = (if b \<le> a then Some (a - b) else None)"

definition checked_add_u32 :: "u32 \<Rightarrow> u32 \<Rightarrow> u32 option" where
  "checked_add_u32 a b = (if unat a + unat b < 2 ^ 32 then Some (a + b) else None)"

definition key_of :: "u32 \<Rightarrow> wire_type \<Rightarrow> u64" where
  "key_of tag_delta wire_type = push_bit 2 (ucast tag_delta) OR wire_num wire_type"

record tag_writer =
  tw_last_tag :: u32

definition tag_writer_new :: tag_writer where
  "tag_writer_new = \<lparr>tw_last_tag = 0\<rparr>"

definition encode_key :: "u32 \<Rightarrow> wire_type \<Rightarrow> tag_writer \<Rightarrow> bytes \<Rightarrow> (tag_writer \<times> bytes) option" where
  "encode_key tag wire_type tw buf = do {
     tag_delta \<leftarrow> checked_sub_u32 tag (tw_last_tag tw);
     Some (tw\<lparr>tw_last_tag := tag\<rparr>, encode_varint (key_of tag_delta wire_type) buf)
   }"

record tag_rev_writer =
  trw_current_key :: "(u32 \<times> wire_type) option"

definition tag_rev_writer_new :: tag_rev_writer where
  "tag_rev_writer_new = \<lparr>trw_current_key = None\<rparr>"

definition begin_field ::
    "'r rev_ops \<Rightarrow> u32 \<Rightarrow> wire_type \<Rightarrow> tag_rev_writer \<times> 'r \<Rightarrow> (tag_rev_writer \<times> 'r) option" where
  "begin_field rops tag wire_type st = (case st of (trw, buf) \<Rightarrow> do {
     buf \<leftarrow> (case trw_current_key trw of
         Some (current_tag, current_wire_type) \<Rightarrow> do {
           tag_delta \<leftarrow> checked_sub_u32 current_tag tag;
           prepend_varint rops (key_of tag_delta current_wire_type) buf
         }
       | None \<Rightarrow> Some buf);
     Some (trw\<lparr>trw_current_key := Some (tag, wire_type)\<rparr>, buf)
   })"

definition trw_finalize ::
    "'r rev_ops \<Rightarrow> tag_rev_writer \<times> 'r \<Rightarrow> (tag_rev_writer \<times> 'r) option" where
  "trw_finalize rops st = (case st of (trw, buf) \<Rightarrow>
     (case trw_current_key trw of
        None \<Rightarrow> Some (trw, buf)
      | Some (tag_delta, wire_type) \<Rightarrow> do {
          buf \<leftarrow> prepend_varint rops (key_of tag_delta wire_type) buf;
          Some (trw\<lparr>trw_current_key := None\<rparr>, buf)
        }))"

text \<open>
  The state of both measurers is the last tag. In a release build \<^verbatim>\<open>TrivialTagMeasurer\<close> keeps no
  state; \<open>trivial_key_len_debug\<close> is its debug build.
\<close>

record tag_measurer =
  tm_last_tag :: u32

definition tag_measurer_new :: tag_measurer where
  "tag_measurer_new = \<lparr>tm_last_tag = 0\<rparr>"

definition runtime_key_len :: "u32 \<Rightarrow> tag_measurer \<Rightarrow> (nat \<times> tag_measurer) option" where
  "runtime_key_len tag tm = do {
     tag_delta \<leftarrow> checked_sub_u32 tag (tm_last_tag tm);
     Some (encoded_len_varint (push_bit 2 (ucast tag_delta)), tm\<lparr>tm_last_tag := tag\<rparr>)
   }"

definition trivial_key_len :: "u32 \<Rightarrow> nat" where
  "trivial_key_len tag = 1"

definition trivial_key_len_debug :: "u32 \<Rightarrow> tag_measurer \<Rightarrow> (nat \<times> tag_measurer) option" where
  "trivial_key_len_debug tag tm =
    (if tm_last_tag tm \<le> tag \<and> tag < 32 then Some (1, tm\<lparr>tm_last_tag := tag\<rparr>) else None)"

section \<open>Reading under a cap\<close>

record 'b capped =
  cap_buf :: 'b
  cap_extra :: nat

definition capped_new :: "'b \<Rightarrow> 'b capped" where
  "capped_new b = \<lparr>cap_buf = b, cap_extra = 0\<rparr>"

text \<open>\<^verbatim>\<open>usize::MAX\<close> of the 64-bit target.\<close>

definition usize_max :: nat where
  "usize_max = 2 ^ 64 - 1"

definition usize_try_from :: "u64 \<Rightarrow> nat outcome" where
  "usize_try_from v = (if unat v \<le> usize_max then Done (unat v) else Fail Oversize)"

definition buf_decode_varint :: "'b buf_ops \<Rightarrow> 'b \<Rightarrow> (u64 \<times> 'b) outcome" where
  "buf_decode_varint ops b =
    (case decode_varint ops b of
       None \<Rightarrow> Panic | Some (Ok v, b') \<Rightarrow> Done (v, b') | Some (Err e, b') \<Rightarrow> Fail e)"

definition decode_length_delimiter :: "'b buf_ops \<Rightarrow> 'b \<Rightarrow> (nat \<times> 'b) outcome" where
  "decode_length_delimiter ops b =
    obind (buf_decode_varint ops b) (\<lambda>(v, b'). obind (usize_try_from v) (\<lambda>n. Done (n, b')))"

definition capped_new_length_delimited :: "'b buf_ops \<Rightarrow> 'b \<Rightarrow> 'b capped outcome" where
  "capped_new_length_delimited ops b =
    obind (decode_length_delimiter ops b) (\<lambda>(len, b).
      let remaining = b_remaining ops b in
      if len > remaining then Fail Truncated
      else Done \<lparr>cap_buf = b, cap_extra = remaining - len\<rparr>)"

text \<open>
  The capped buffer that is returned shares the buffer of the outer one; when it is done, the outer
  one continues with its buffer and its own cap (\<open>cap_outer\<close>).
\<close>

definition take_length_delimited :: "'b buf_ops \<Rightarrow> 'b capped \<Rightarrow> 'b capped outcome" where
  "take_length_delimited ops c =
    obind (decode_length_delimiter ops (cap_buf c)) (\<lambda>(len, b).
      let remaining = b_remaining ops b in
      if len > remaining then Fail Truncated
      else let extra_bytes_remaining = remaining - len in
        if extra_bytes_remaining < cap_extra c then Fail Truncated
        else Done \<lparr>cap_buf = b, cap_extra = extra_bytes_remaining\<rparr>)"

definition cap_outer :: "'b capped \<Rightarrow> 'b capped \<Rightarrow> 'b capped" where
  "cap_outer outer inner = outer\<lparr>cap_buf := cap_buf inner\<rparr>"

definition take_borrowed_length_delimited :: "bytes capped \<Rightarrow> (bytes \<times> bytes capped) outcome" where
  "take_borrowed_length_delimited c =
    obind (decode_length_delimiter slice_ops (cap_buf c)) (\<lambda>(len, b).
      let remaining = length b in
      if len > remaining then Fail Truncated
      else let extra_bytes_remaining = remaining - len in
        if extra_bytes_remaining < cap_extra c then Fail Truncated
        else Done (take len b, c\<lparr>cap_buf := drop len b\<rparr>))"

definition remaining_before_cap :: "'b buf_ops \<Rightarrow> 'b capped \<Rightarrow> nat" where
  "remaining_before_cap ops c = b_remaining ops (cap_buf c) - cap_extra c"

definition over_cap :: "'b buf_ops \<Rightarrow> 'b capped \<Rightarrow> bool" where
  "over_cap ops c \<longleftrightarrow> b_remaining ops (cap_buf c) < cap_extra c"

definition has_remaining :: "'b buf_ops \<Rightarrow> 'b capped \<Rightarrow> bool outcome" where
  "has_remaining ops c =
    (if b_remaining ops (cap_buf c) < cap_extra c then Fail Truncated
     else if b_remaining ops (cap_buf c) = cap_extra c then Done False
     else Done True)"

definition capped_decode_varint :: "'b buf_ops \<Rightarrow> 'b capped \<Rightarrow> (u64 \<times> 'b capped) outcome" where
  "capped_decode_varint ops c =
    (case decode_varint ops (cap_buf c) of
       None \<Rightarrow> Panic
     | Some (Ok v, b) \<Rightarrow> Done (v, c\<lparr>cap_buf := b\<rparr>)
     | Some (Err e, b) \<Rightarrow>
         if e = InvalidVarint \<and> over_cap ops (c\<lparr>cap_buf := b\<rparr>) then Fail Truncated else Fail e)"

definition capped_advance :: "'b buf_ops \<Rightarrow> nat \<Rightarrow> 'b capped \<Rightarrow> 'b capped outcome" where
  "capped_advance ops n c =
    obind (from_option (b_advance ops n (cap_buf c))) (\<lambda>b. Done (c\<lparr>cap_buf := b\<rparr>))"

record tag_reader =
  tr_last_tag :: u32

definition tag_reader_new :: tag_reader where
  "tag_reader_new = \<lparr>tr_last_tag = 0\<rparr>"

definition u32_try_from :: "u64 \<Rightarrow> u32 option" where
  "u32_try_from v = (if unat v < 2 ^ 32 then Some (ucast v) else None)"

definition decode_key ::
    "'b buf_ops \<Rightarrow> tag_reader \<Rightarrow> 'b capped \<Rightarrow> (u32 \<times> wire_type \<times> tag_reader \<times> 'b capped) outcome" where
  "decode_key ops tr c =
    obind (capped_decode_varint ops c) (\<lambda>(key, c).
      case u32_try_from (drop_bit 2 key) of
        None \<Rightarrow> Fail TagOverflowed
      | Some tag_delta \<Rightarrow>
          (case checked_add_u32 (tr_last_tag tr) tag_delta of
             None \<Rightarrow> Fail TagOverflowed
           | Some tag \<Rightarrow>
               obind (wire_type_from (ucast key)) (\<lambda>wt.
                 Done (tag, wt, tr\<lparr>tr_last_tag := tag\<rparr>, c))))"

definition peek_repeated_field ::
    "'b buf_ops \<Rightarrow> 'b capped \<Rightarrow> (wire_type option \<times> 'b capped) outcome" where
  "peek_repeated_field ops c =
    (if remaining_before_cap ops c = 0 then Done (None, c)
     else obind (from_option (get_at (b_chunk ops (cap_buf c)) 0)) (\<lambda>peek_key.
       if peek_key \<ge> 4 then Done (None, c)
       else obind (capped_advance ops 1 c) (\<lambda>c.
         obind (wire_type_from peek_key) (\<lambda>wt. Done (Some wt, c)))))"

text \<open>The fuel of the loop; every round after the first consumes the byte of a key.\<close>

primrec skip_field_loop :: "'b buf_ops \<Rightarrow> nat \<Rightarrow> wire_type \<Rightarrow> 'b capped \<Rightarrow> 'b capped outcome" where
  "skip_field_loop ops 0 wire_type c = Panic"
| "skip_field_loop ops (Suc fuel) wire_type c =
    obind (case wire_type of
        WtVarint \<Rightarrow> obind (capped_decode_varint ops c) (\<lambda>(_, c). Done (0, c))
      | WtThirtyTwoBit \<Rightarrow> Done (4, c)
      | WtSixtyFourBit \<Rightarrow> Done (8, c)
      | WtLengthDelimited \<Rightarrow> obind (capped_decode_varint ops c) (\<lambda>(v, c).
          obind (usize_try_from v) (\<lambda>n. Done (n, c))))
     (\<lambda>(len, c).
       if len > b_remaining ops (cap_buf c) then Fail Truncated
       else obind (capped_advance ops len c) (\<lambda>c.
         obind (peek_repeated_field ops c) (\<lambda>(next, c).
           case next of
             None \<Rightarrow> Done c
           | Some next_wire_type \<Rightarrow> skip_field_loop ops fuel next_wire_type c)))"

definition skip_field :: "'b buf_ops \<Rightarrow> wire_type \<Rightarrow> 'b capped \<Rightarrow> 'b capped outcome" where
  "skip_field ops wire_type c = skip_field_loop ops (b_remaining ops (cap_buf c) + 1) wire_type c"

section \<open>Length delimiters\<close>

text \<open>\<open>remaining\<close> is the \<^verbatim>\<open>remaining_mut\<close> of the output buffer.\<close>

definition encode_length_delimiter ::
    "nat \<Rightarrow> nat \<Rightarrow> bytes \<Rightarrow> (bytes, encode_error) result" where
  "encode_length_delimiter len remaining buf =
    (let required = encoded_len_varint (of_nat len) in
     if required > remaining then Err \<lparr>ee_required = required, ee_remaining = remaining\<rparr>
     else Ok (encode_varint (of_nat len) buf))"

definition length_delimiter_len :: "nat \<Rightarrow> nat" where
  "length_delimiter_len len = encoded_len_varint (of_nat len)"

section \<open>Keys as numbers\<close>

primrec wire_nat :: "wire_type \<Rightarrow> nat" where
  "wire_nat WtVarint = 0"
| "wire_nat WtLengthDelimited = 1"
| "wire_nat WtThirtyTwoBit = 2"
| "wire_nat WtSixtyFourBit = 3"

definition wire_of :: "nat \<Rightarrow> wire_type" where
  "wire_of n = (if n mod 4 = 0 then WtVarint else if n mod 4 = 1 then WtLengthDelimited
     else if n mod 4 = 2 then WtThirtyTwoBit else WtSixtyFourBit)"

lemma wire_nat_less: "wire_nat wt < 4"
  by (cases wt) auto

lemma wire_of_mod [simp]: "wire_of (4 * n + m) = wire_of m"
  unfolding wire_of_def by (simp only: mod_mult_self4)

lemma wire_of_wire_nat [simp]: "wire_of (wire_nat wt) = wt"
  by (cases wt) (simp_all add: wire_of_def)

lemma mod_4_cases:
  obtains "n mod 4 = (0::nat)" | "n mod 4 = 1" | "n mod 4 = 2" | "n mod 4 = 3"
  using mod_less_divisor [of 4 n] by linarith

lemma wire_nat_wire_of: "wire_nat (wire_of n) = n mod 4"
by (rule mod_4_cases [of n]) (simp_all add: wire_of_def)

lemma unat_wire_num: "unat (wire_num wt) = wire_nat wt"
  by (cases wt) auto

lemma and_3_u8: "(v :: u8) AND 3 = of_nat (unat v mod 4)"
proof -
  have "v AND 3 = take_bit 2 v"
    by (simp add: take_bit_eq_mask mask_eq_exp_minus_1)
  also have "\<dots> = of_nat (unat v mod 4)"
    by (simp add: word_unat_eq_iff unsigned_take_bit_eq unat_of_nat) (simp add: take_bit_eq_mod)
  finally show ?thesis .
qed

lemma wire_type_from_eq [simp]: "wire_type_from v = Done (wire_of (unat v))"
by (rule mod_4_cases [of "unat v"]) (simp_all add: wire_type_from_def and_3_u8 wire_of_def Let_def)

lemma unat_u32_u64 [simp]: "unat (ucast (d :: u32) :: u64) = unat d"
  by (rule unat_ucast_u32_u64)

lemma unat_push_2: "unat (push_bit 2 (ucast (d :: u32) :: u64)) = 4 * unat d"
proof -
  have "unat d < 2 ^ 32" using unat_lt [of d] by simp
  then have "(unat d * 4) mod 18446744073709551616 = unat d * 4" by (intro mod_less) simp
  then show ?thesis
    by (simp add: push_bit_eq_mult unat_word_ariths mult.commute)
qed

lemma unat_key_of: "unat (key_of d wt) = 4 * unat d + wire_nat wt"
proof -
  have d: "unat d < 2 ^ 32" using unat_lt [of d] by simp
  have wn: "wire_num wt = take_bit 2 (wire_num wt)"
    by (cases wt) (simp_all add: take_bit_eq_mod)
  have "push_bit 2 (ucast d :: u64) AND wire_num wt = 0"
    by (subst wn) (rule bit_word_eqI, auto simp: bit_simps)
  then have "key_of d wt = push_bit 2 (ucast d) + wire_num wt"
    by (simp add: key_of_def disjunctive_add_eq_or)
  then show ?thesis
    using d wire_nat_less [of wt]
    by (simp add: unat_word_ariths unat_push_2 unat_wire_num)
qed


lemma key_of_wire [simp]: "wire_of (unat (ucast (key_of d wt) :: u8)) = wt"
proof -
  have "wire_of (n mod 256) = wire_of n" for n by (simp add: wire_of_def mod_mod_cancel)
  then show ?thesis by (simp add: unat_ucast_u8 unat_key_of)
qed

lemma key_of_delta [simp]: "u32_try_from (drop_bit 2 (key_of d wt)) = Some d"
proof -
  have "unat (drop_bit 2 (key_of d wt)) = unat d"
    using wire_nat_less [of wt] by (simp add: unat_drop_bit unat_key_of)
  moreover from this have "(ucast (drop_bit 2 (key_of d wt)) :: u32) = d"
    using unat_lt [of d] by (simp add: word_unat_eq_iff unat_ucast)
  ultimately show ?thesis
    using unat_lt [of d] by (simp add: u32_try_from_def)
qed

lemma key_of_cases:
  assumes "u32_try_from (drop_bit 2 key) = Some d"
  shows "key = key_of d (wire_of (unat (ucast key :: u8)))"
proof -
  have d: "unat d = unat key div 4"
    using assms by (auto simp: u32_try_from_def unat_ucast unat_drop_bit split: if_splits)
  have "wire_of (n mod 256) = wire_of n" for n by (simp add: wire_of_def mod_mod_cancel)
  then show ?thesis
    by (simp add: word_unat_eq_iff unat_key_of wire_nat_wire_of d unat_ucast_u8)
qed

lemma key_of_inject [simp]: "key_of d w = key_of e v \<longleftrightarrow> d = e \<and> w = v"
  by (metis key_of_delta key_of_wire option.inject)

lemma checked_sub_u32_Some [simp]: "checked_sub_u32 a b = Some d \<longleftrightarrow> b \<le> a \<and> d = a - b"
  by (auto simp: checked_sub_u32_def)

lemma checked_add_u32_sub: "b \<le> a \<Longrightarrow> checked_add_u32 b (a - b) = Some a"
  using unat_lt [of a] by (simp add: checked_add_u32_def unat_sub word_le_nat_alt)

lemma checked_add_u32_Some: "checked_add_u32 b d = Some a \<Longrightarrow> b \<le> a \<and> d = a - b"
  by (auto simp: checked_add_u32_def word_le_nat_alt unat_word_ariths split: if_splits)

section \<open>The rules for slices\<close>

lemma decode_varint_slice_ops:
  "decode_varint slice_ops b = Some (fst (varint_spec b), snd (varint_spec b))"
  using slice.decode_varint_eq [of b] by auto

lemma usize_try_from_eq [simp]: "usize_try_from v = Done (unat v)"
  using unat_lt [of v] by (simp add: usize_try_from_def usize_max_def)

lemma buf_decode_varint_Done [simp]:
  "buf_decode_varint slice_ops b = Done (v, r) \<longleftrightarrow> b = varint_bytes v @ r"
  unfolding varint_spec_Ok [symmetric] buf_decode_varint_def decode_varint_slice_ops
  by (cases "varint_spec b"; cases "fst (varint_spec b)") auto

lemma capped_decode_varint_Done [simp]:
  "capped_decode_varint slice_ops c = Done (v, c') \<longleftrightarrow>
    cap_buf c = varint_bytes v @ cap_buf c' \<and> cap_extra c' = cap_extra c"
  unfolding varint_spec_Ok [symmetric] capped_decode_varint_def decode_varint_slice_ops
  by (cases "varint_spec (cap_buf c)"; cases "fst (varint_spec (cap_buf c))") auto

lemma capped_decode_varint_eq [simp]:
  "capped_decode_varint slice_ops \<lparr>cap_buf = varint_bytes v @ r, cap_extra = x\<rparr> =
    Done (v, \<lparr>cap_buf = r, cap_extra = x\<rparr>)"
  by simp

lemma capped_decode_varint_only [simp]:
  "capped_decode_varint slice_ops \<lparr>cap_buf = varint_bytes v, cap_extra = x\<rparr> =
    Done (v, \<lparr>cap_buf = [], cap_extra = x\<rparr>)"
  by simp

lemma capped_decode_varint_not_Panic [simp]: "capped_decode_varint slice_ops c \<noteq> Panic"
  unfolding capped_decode_varint_def decode_varint_slice_ops
  by (cases "varint_spec (cap_buf c)"; cases "fst (varint_spec (cap_buf c))") auto

lemma decode_length_delimiter_Done [simp]:
  "decode_length_delimiter slice_ops b = Done (n, r) \<longleftrightarrow>
    n < 2 ^ 64 \<and> b = varint_bytes (of_nat n) @ r"
proof -
  have "unat (of_nat n :: u64) = n" if "n < 2 ^ 64" using that by (simp add: unat_of_nat)
  moreover have "unat (v :: u64) < 2 ^ 64" for v using unat_lt [of v] by simp
  ultimately show ?thesis
    by (auto simp: decode_length_delimiter_def)
qed

lemma buf_decode_varint_not_Panic [simp]: "buf_decode_varint slice_ops b \<noteq> Panic"
  unfolding buf_decode_varint_def decode_varint_slice_ops
  by (cases "varint_spec b"; cases "fst (varint_spec b)") auto

lemma decode_length_delimiter_not_Panic [simp]: "decode_length_delimiter slice_ops b \<noteq> Panic"
  by (auto simp: decode_length_delimiter_def obind_Panic_iff)

lemma decode_key_Done:
  "decode_key slice_ops tr c = Done (tag, wt, tr', c') \<longleftrightarrow>
    tr_last_tag tr \<le> tag \<and> tr' = \<lparr>tr_last_tag = tag\<rparr> \<and>
    cap_buf c = varint_bytes (key_of (tag - tr_last_tag tr) wt) @ cap_buf c' \<and>
    cap_extra c' = cap_extra c"
  (is "?l \<longleftrightarrow> ?r")
proof
  assume ?l
  then show ?r
    by (auto simp: decode_key_def dest!: key_of_cases checked_add_u32_Some)
next
  assume ?r
  then show ?l by (auto simp: decode_key_def checked_add_u32_sub)
qed


lemma take_length_delimited_Done [simp]:
  "take_length_delimited slice_ops c = Done c' \<longleftrightarrow>
    (\<exists>n. n < 2 ^ 64 \<and> cap_buf c = varint_bytes (of_nat n) @ cap_buf c' \<and>
      n + cap_extra c' = length (cap_buf c') \<and> cap_extra c \<le> cap_extra c')"
  (is "?l \<longleftrightarrow> ?r")
proof
  assume ?l
  then show ?r
    by (auto simp: take_length_delimited_def Let_def not_less split: if_splits)
next
  assume ?r
  then obtain n where "n < 2 ^ 64" "cap_buf c = varint_bytes (of_nat n) @ cap_buf c'"
    "n + cap_extra c' = length (cap_buf c')" "cap_extra c \<le> cap_extra c'" by blast
  then show ?l
    by (cases c') (auto simp: take_length_delimited_def Let_def intro!: exI [of _ n])
qed

lemma take_borrowed_Done [simp]:
  "take_borrowed_length_delimited c = Done (bs, c') \<longleftrightarrow>
    length bs < 2 ^ 64 \<and> cap_buf c = varint_bytes (of_nat (length bs)) @ bs @ cap_buf c' \<and>
    cap_extra c' = cap_extra c \<and> cap_extra c \<le> length (cap_buf c')"
  (is "?l \<longleftrightarrow> ?r")
proof
  assume ?l
  then show ?r
    by (auto simp: take_borrowed_length_delimited_def Let_def split: if_splits)
next
  assume ?r
  then show ?l
    by (cases c') (auto simp: take_borrowed_length_delimited_def Let_def intro!: exI [of _ "length bs"])
qed

lemma has_remaining_slice [simp]:
  "has_remaining slice_ops c = (if length (cap_buf c) < cap_extra c then Fail Truncated
    else Done (length (cap_buf c) \<noteq> cap_extra c))"
  by (simp add: has_remaining_def)

lemma remaining_before_cap_slice [simp]:
  "remaining_before_cap slice_ops c = length (cap_buf c) - cap_extra c"
  by (simp add: remaining_before_cap_def)

lemma capped_advance_slice [simp]:
  "capped_advance slice_ops n c =
    (if n \<le> length (cap_buf c) then Done (c\<lparr>cap_buf := drop n (cap_buf c)\<rparr>) else Panic)"
  by (simp add: capped_advance_def)

lemma peek_repeated_field_slice:
  "peek_repeated_field slice_ops c =
    (if length (cap_buf c) \<le> cap_extra c \<or> 4 \<le> hd (cap_buf c) then Done (None, c)
     else Done (Some (wire_of (unat (hd (cap_buf c)))), c\<lparr>cap_buf := tl (cap_buf c)\<rparr>))"
  by (cases "cap_buf c") (auto simp: peek_repeated_field_def Let_def not_le)

lemma take_length_delimited_not_Panic [simp]: "take_length_delimited slice_ops c \<noteq> Panic"
  by (auto simp: take_length_delimited_def obind_Panic_iff Let_def split: if_splits)

lemma take_borrowed_not_Panic [simp]: "take_borrowed_length_delimited c \<noteq> Panic"
  by (auto simp: take_borrowed_length_delimited_def obind_Panic_iff Let_def split: if_splits)

lemma decode_key_not_Panic [simp]: "decode_key slice_ops tr c \<noteq> Panic"
  by (auto simp: decode_key_def obind_Panic_iff)

section \<open>Skipping\<close>

text \<open>The bytes of a value of a wire type, and of a field: one value, or several, each but the first
  with the one-byte key of a repeated field in front.\<close>

definition raw_value :: "wire_type \<Rightarrow> bytes \<Rightarrow> bool" where
  "raw_value wt bs \<longleftrightarrow>
    (case wt of
       WtVarint \<Rightarrow> \<exists>v. bs = varint_bytes v
     | WtLengthDelimited \<Rightarrow> \<exists>d. length d < 2 ^ 64 \<and> bs = varint_bytes (of_nat (length d)) @ d
     | WtThirtyTwoBit \<Rightarrow> length bs = 4
     | WtSixtyFourBit \<Rightarrow> length bs = 8)"

inductive raw_field :: "wire_type \<Rightarrow> bytes \<Rightarrow> bool" where
  single: "raw_value wt v \<Longrightarrow> raw_field wt v"
| repeated: "raw_value wt v \<Longrightarrow> k < 4 \<Longrightarrow> raw_field (wire_of (unat k)) bs \<Longrightarrow> raw_field wt (v @ k # bs)"

definition skip_value :: "wire_type \<Rightarrow> bytes capped \<Rightarrow> bytes capped outcome" where
  "skip_value wt c =
    obind (case wt of
        WtVarint \<Rightarrow> obind (capped_decode_varint slice_ops c) (\<lambda>(_, c). Done (0, c))
      | WtThirtyTwoBit \<Rightarrow> Done (4, c)
      | WtSixtyFourBit \<Rightarrow> Done (8, c)
      | WtLengthDelimited \<Rightarrow> obind (capped_decode_varint slice_ops c) (\<lambda>(v, c).
          obind (usize_try_from v) (\<lambda>n. Done (n, c))))
     (\<lambda>(len, c). if len > b_remaining slice_ops (cap_buf c) then Fail Truncated
       else capped_advance slice_ops len c)"

lemma skip_field_loop_eq:
  "skip_field_loop slice_ops (Suc fuel) wt c =
    obind (skip_value wt c) (\<lambda>c. obind (peek_repeated_field slice_ops c) (\<lambda>(next, c).
      case next of None \<Rightarrow> Done c | Some wt' \<Rightarrow> skip_field_loop slice_ops fuel wt' c))"
  by (auto simp: skip_value_def obind_assoc intro!: arg_cong2 [where f = obind])

lemma skip_value_Done:
  "skip_value wt c = Done c' \<longleftrightarrow>
    (\<exists>bs. raw_value wt bs \<and> cap_buf c = bs @ cap_buf c' \<and> cap_extra c' = cap_extra c)"
  (is "?l \<longleftrightarrow> ?r")
proof
  assume ?l
  have fixed: "\<exists>bs. length bs = n \<and> b = bs @ drop n b" if "n \<le> length b" for n and b :: bytes
    using that by (intro exI [of _ "take n b"]) simp
  show ?r
  proof (cases wt)
    case WtLengthDelimited
    then obtain v b where v: "unat v \<le> length (cap_buf b)" "cap_extra b = cap_extra c"
      "c' = b\<lparr>cap_buf := drop (unat v) (cap_buf b)\<rparr>" "cap_buf c = varint_bytes v @ cap_buf b"
      using \<open>?l\<close> by (auto simp: skip_value_def not_less split: if_splits)
    let ?d = "take (unat v) (cap_buf b)"
    have "length ?d = unat v" using v(1) by simp
    then have "length ?d < 2 ^ 64 \<and> v = of_nat (length ?d)" using unat_lt [of v] by simp
    then have "raw_value wt (varint_bytes v @ ?d)"
      using WtLengthDelimited by (auto simp: raw_value_def)
    then show ?thesis using v by (intro exI [of _ "varint_bytes v @ ?d"]) simp
  qed (use \<open>?l\<close> in \<open>auto simp: skip_value_def raw_value_def not_less intro: fixed split: if_splits\<close>)
next
  assume r: ?r
  show ?l
  proof (cases wt)
    case WtLengthDelimited
    then obtain d where d: "length d < 2 ^ 64" "cap_extra c' = cap_extra c"
      "cap_buf c = varint_bytes (of_nat (length d)) @ d @ cap_buf c'"
      using r by (auto simp: raw_value_def)
    have "capped_decode_varint slice_ops c = Done (of_nat (length d), c\<lparr>cap_buf := d @ cap_buf c'\<rparr>)"
      using d by simp
    then show ?thesis
      using d WtLengthDelimited by (cases c') (simp add: skip_value_def del: capped_decode_varint_Done)
  qed (use r in \<open>cases c'; auto simp: skip_value_def raw_value_def\<close>)+
qed


lemma skip_value_not_Panic [simp]: "skip_value wt c \<noteq> Panic"
  by (auto simp: skip_value_def obind_Panic_iff split: wire_type.splits)

lemma skip_loop_sound:
  "skip_field_loop slice_ops fuel wt c = Done c' \<Longrightarrow>
    cap_extra c' = cap_extra c \<and> (\<exists>bs. raw_field wt bs \<and> cap_buf c = bs @ cap_buf c') \<and>
    (length (cap_buf c') \<le> cap_extra c' \<or> 4 \<le> hd (cap_buf c'))"
proof (induction fuel arbitrary: wt c)
  case 0
  then show ?case by simp
next
  case (Suc fuel)
  obtain c1 where c1: "skip_value wt c = Done c1"
    using Suc.prems unfolding skip_field_loop_eq by auto
  then obtain v where v: "raw_value wt v" "cap_buf c = v @ cap_buf c1" "cap_extra c1 = cap_extra c"
    by (auto simp: skip_value_Done)
  show ?case
  proof (cases "length (cap_buf c1) \<le> cap_extra c1 \<or> 4 \<le> hd (cap_buf c1)")
    case True
    then have "c' = c1"
      using Suc.prems c1 unfolding skip_field_loop_eq by (simp add: peek_repeated_field_slice)
    then show ?thesis using True v by (auto intro: single)
  next
    case False
    then obtain k ks where k: "cap_buf c1 = k # ks" "k < 4" by (cases "cap_buf c1") auto
    let ?c2 = "c1\<lparr>cap_buf := ks\<rparr>"
    have "skip_field_loop slice_ops fuel (wire_of (unat k)) ?c2 = Done c'"
      using Suc.prems c1 False k unfolding skip_field_loop_eq by (simp add: peek_repeated_field_slice)
    from Suc.IH [OF this] obtain bs where bs: "cap_extra c' = cap_extra c1"
      "raw_field (wire_of (unat k)) bs" "ks = bs @ cap_buf c'"
      "length (cap_buf c') \<le> cap_extra c' \<or> 4 \<le> hd (cap_buf c')" by auto
    then show ?thesis
      using v k by (auto intro!: exI [of _ "v @ k # bs"] repeated)
  qed
qed

lemma skip_loop_complete:
  assumes "raw_field wt bs" and "cap_buf c = bs @ cap_buf c'" and "cap_extra c' = cap_extra c"
    and "cap_extra c' \<le> length (cap_buf c')"
    and "length (cap_buf c') = cap_extra c' \<or> 4 \<le> hd (cap_buf c')"
    and "length (cap_buf c) < fuel"
  shows "skip_field_loop slice_ops fuel wt c = Done c'"
  using assms
proof (induction arbitrary: c fuel rule: raw_field.induct)
  case (single wt v)
  then obtain f where f: "fuel = Suc f" by (cases fuel) auto
  have "skip_value wt c = Done c'" using single by (auto simp: skip_value_Done)
  then show ?case
    using single unfolding f skip_field_loop_eq by (auto simp: peek_repeated_field_slice)
next
  case (repeated wt v k bs)
  then obtain f where f: "fuel = Suc f" by (cases fuel) auto
  let ?c1 = "c\<lparr>cap_buf := k # bs @ cap_buf c'\<rparr>"
  have 1: "skip_value wt c = Done ?c1" using repeated by (auto simp: skip_value_Done)
  have "skip_field_loop slice_ops f (wire_of (unat k)) (?c1\<lparr>cap_buf := bs @ cap_buf c'\<rparr>) = Done c'"
    using repeated f by (intro repeated.IH) auto
  then show ?case
    using 1 repeated.hyps repeated.prems unfolding f skip_field_loop_eq
    by (simp add: peek_repeated_field_slice not_le)
qed

lemma skip_loop_not_Panic:
  "length (cap_buf c) < fuel \<Longrightarrow> skip_field_loop slice_ops fuel wt c \<noteq> Panic"
proof (induction fuel arbitrary: wt c)
  case 0
  then show ?case by simp
next
  case (Suc fuel)
  show ?case
    unfolding skip_field_loop_eq
  proof (rule obind_not_Panic)
    fix c1 assume c1: "skip_value wt c = Done c1"
    then have le: "length (cap_buf c1) \<le> length (cap_buf c)" by (auto simp: skip_value_Done)
    show "obind (peek_repeated_field slice_ops c1) (\<lambda>(next, c). case next of None \<Rightarrow> Done c
        | Some wt' \<Rightarrow> skip_field_loop slice_ops fuel wt' c) \<noteq> Panic"
      using le Suc by (cases "cap_buf c1") (auto simp: peek_repeated_field_slice)
  qed simp
qed

section \<open>Chunk independence\<close>

text \<open>
  The same capped buffer, seen through any buffer that keeps the contract and through a slice.
\<close>

lemma rel_outcome_obind:
  "rel_outcome R m m' \<Longrightarrow> (\<And>x y. R x y \<Longrightarrow> rel_outcome S (f x) (g y)) \<Longrightarrow>
   rel_outcome S (obind m f) (obind m' g)"
  by (cases m; cases m') auto

context buf_contract
begin

definition same :: "'a capped \<Rightarrow> bytes capped \<Rightarrow> bool" where
  "same c s \<longleftrightarrow> binv (cap_buf c) \<and> cap_buf s = contents (cap_buf c) \<and> cap_extra s = cap_extra c"

lemma same_remaining: "same c s \<Longrightarrow> b_remaining ops (cap_buf c) = length (cap_buf s)"
  by (simp add: same_def remaining)

lemma same_extra: "same c s \<Longrightarrow> cap_extra c = cap_extra s"
  by (simp add: same_def)

lemma same_decode_varint:
  "same c s \<Longrightarrow> rel_outcome (rel_prod (=) same) (capped_decode_varint ops c) (capped_decode_varint slice_ops s)"
  using decode_varint_eq [of "cap_buf c"]
  by (cases "varint_spec (contents (cap_buf c))"; cases "fst (varint_spec (contents (cap_buf c)))")
    (auto simp: same_def capped_decode_varint_def decode_varint_slice_ops over_cap_def remaining)

lemma same_advance:
  "same c s \<Longrightarrow> n \<le> length (cap_buf s) \<Longrightarrow>
   rel_outcome same (capped_advance ops n c) (capped_advance slice_ops n s)"
  using advance [of "cap_buf c" n] by (auto simp: same_def capped_advance_def)

lemma same_peek:
  assumes "same c s"
  shows "rel_outcome (rel_prod (=) same) (peek_repeated_field ops c) (peek_repeated_field slice_ops s)"
proof (cases "length (cap_buf s) \<le> cap_extra s")
  case True
  then show ?thesis
    using assms by (simp add: peek_repeated_field_def remaining_before_cap_def same_remaining) (simp add: same_def)
next
  case False
  then have "contents (cap_buf c) \<noteq> []" using assms by (auto simp: same_def)
  then obtain k ks rest where k: "b_chunk ops (cap_buf c) = k # ks" "cap_buf s = k # ks @ rest"
    using assms chunk_prefix [of "cap_buf c"] chunk_nonempty [of "cap_buf c"]
    by (cases "b_chunk ops (cap_buf c)") (auto simp: same_def)
  show ?thesis
  proof (cases "4 \<le> k")
    case True
    then show ?thesis
      using assms False k
      by (simp add: peek_repeated_field_def remaining_before_cap_def same_remaining)
  next
    case four: False
    have "rel_outcome same (capped_advance ops 1 c) (capped_advance slice_ops 1 s)"
      using same_advance [OF assms, of 1] k by simp
    then have "rel_outcome (rel_prod (=) same)
        (obind (capped_advance ops 1 c) (\<lambda>c. Done (Some (wire_of (unat k)), c)))
        (obind (capped_advance slice_ops 1 s) (\<lambda>c. Done (Some (wire_of (unat k)), c)))"
      by (rule rel_outcome_obind) simp
    then show ?thesis
      using assms False k four
      by (simp add: peek_repeated_field_def remaining_before_cap_def same_remaining same_extra
          del: capped_advance_slice)
  qed
qed

lemma same_skip_loop:
  "same c s \<Longrightarrow>
   rel_outcome same (skip_field_loop ops fuel wt c) (skip_field_loop slice_ops fuel wt s)"
proof (induction fuel arbitrary: wt c s)
  case 0
  then show ?case by simp
next
  case (Suc fuel)
  have step: "rel_outcome same
      (if len > b_remaining ops (cap_buf c) then Fail Truncated
       else obind (capped_advance ops len c) (\<lambda>c.
         obind (peek_repeated_field ops c) (\<lambda>(next, c). case next of None \<Rightarrow> Done c
           | Some wt' \<Rightarrow> skip_field_loop ops fuel wt' c)))
      (if len > b_remaining slice_ops (cap_buf s) then Fail Truncated
       else obind (capped_advance slice_ops len s) (\<lambda>c.
         obind (peek_repeated_field slice_ops c) (\<lambda>(next, c). case next of None \<Rightarrow> Done c
           | Some wt' \<Rightarrow> skip_field_loop slice_ops fuel wt' c)))" if "same c s" for len c s
    using that same_remaining [OF that]
    by (auto simp: not_less simp del: capped_advance_slice
        intro!: rel_outcome_obind [OF same_advance] rel_outcome_obind [OF same_peek] Suc.IH
        split: option.split)
  have len: "rel_outcome (rel_prod (=) same)
      (case wt of
        WtVarint \<Rightarrow> obind (capped_decode_varint ops c) (\<lambda>(_, c). Done (0, c))
      | WtThirtyTwoBit \<Rightarrow> Done (4, c)
      | WtSixtyFourBit \<Rightarrow> Done (8, c)
      | WtLengthDelimited \<Rightarrow> obind (capped_decode_varint ops c) (\<lambda>(v, c).
          obind (usize_try_from v) (\<lambda>n. Done (n, c))))
      (case wt of
        WtVarint \<Rightarrow> obind (capped_decode_varint slice_ops s) (\<lambda>(_, c). Done (0 :: nat, c))
      | WtThirtyTwoBit \<Rightarrow> Done (4, s)
      | WtSixtyFourBit \<Rightarrow> Done (8, s)
      | WtLengthDelimited \<Rightarrow> obind (capped_decode_varint slice_ops s) (\<lambda>(v, c).
          obind (usize_try_from v) (\<lambda>n. Done (n, c))))"
    using Suc.prems
    by (cases wt) (auto intro!: rel_outcome_obind [OF same_decode_varint])
  show ?case
    unfolding skip_field_loop.simps
    by (rule rel_outcome_obind [OF len]) (auto simp del: slice_ops_simps capped_advance_slice intro!: step split del: if_split)
qed

lemma same_skip:
  "same c s \<Longrightarrow> rel_outcome same (skip_field ops wt c) (skip_field slice_ops wt s)"
  unfolding skip_field_def slice_ops_simps
  by (simp only: same_remaining same_skip_loop)

lemma same_decode_key:
  assumes "same c s"
  shows "rel_outcome (rel_prod (=) (rel_prod (=) (rel_prod (=) same)))
    (decode_key ops tr c) (decode_key slice_ops tr s)"
  unfolding decode_key_def
  by (auto intro!: rel_outcome_obind [OF same_decode_varint [OF assms]] split: option.split)

lemma same_take_length_delimited:
  assumes "same c s"
  shows "rel_outcome same (take_length_delimited ops c) (take_length_delimited slice_ops s)"
proof -
  have "rel_outcome (rel_prod (=) (\<lambda>b r. binv b \<and> r = contents b))
      (decode_length_delimiter ops (cap_buf c)) (decode_length_delimiter slice_ops (cap_buf s))"
    using decode_varint_eq [of "cap_buf c"] assms
    by (cases "varint_spec (contents (cap_buf c))"; cases "fst (varint_spec (contents (cap_buf c)))")
      (auto simp: same_def decode_length_delimiter_def buf_decode_varint_def decode_varint_slice_ops)
  then show ?thesis
    unfolding take_length_delimited_def
    by (rule rel_outcome_obind) (use assms in \<open>auto simp: same_def remaining Let_def\<close>)
qed

end


section \<open>Writing the fields of a message\<close>

text \<open>
  A message is a sequence of keys, each followed by the bytes of its value. \<open>write_fields\<close> is how
  every encoder uses \<^verbatim>\<open>TagWriter\<close>, \<open>prepend_fields\<close> how every prepending encoder uses \<^verbatim>\<open>TagRevWriter\<close>
  (last field first), \<open>measure_fields\<close> how \<^verbatim>\<open>encoded_len\<close> uses the measurer, and \<open>read_fields\<close> how a
  decoder that knows the sizes of the values uses \<^verbatim>\<open>TagReader\<close>.
\<close>

type_synonym raw_part = "u32 \<times> wire_type \<times> bytes"

fun write_fields :: "raw_part list \<Rightarrow> tag_writer \<Rightarrow> bytes \<Rightarrow> (tag_writer \<times> bytes) option" where
  "write_fields [] tw buf = Some (tw, buf)"
| "write_fields ((tag, wt, val) # fs) tw buf = do {
     (tw, buf) \<leftarrow> encode_key tag wt tw buf;
     write_fields fs tw (buf @ val)
   }"

fun prepend_fields :: "'r rev_ops \<Rightarrow> raw_part list \<Rightarrow> 'r \<Rightarrow> (tag_rev_writer \<times> 'r) option" where
  "prepend_fields rops [] buf = Some (tag_rev_writer_new, buf)"
| "prepend_fields rops ((tag, wt, val) # fs) buf = do {
     st \<leftarrow> prepend_fields rops fs buf;
     (trw, buf) \<leftarrow> begin_field rops tag wt st;
     buf \<leftarrow> r_prepend_slice rops val buf;
     Some (trw, buf)
   }"

fun measure_fields :: "raw_part list \<Rightarrow> tag_measurer \<Rightarrow> nat option" where
  "measure_fields [] tm = Some 0"
| "measure_fields ((tag, wt, val) # fs) tm = do {
     (k, tm) \<leftarrow> runtime_key_len tag tm;
     n \<leftarrow> measure_fields fs tm;
     Some (k + length val + n)
   }"

fun read_fields :: "nat list \<Rightarrow> tag_reader \<Rightarrow> bytes capped \<Rightarrow> (raw_part list \<times> bytes capped) outcome" where
  "read_fields [] tr c = Done ([], c)"
| "read_fields (n # ns) tr c =
     obind (decode_key slice_ops tr c) (\<lambda>(tag, wt, tr, c).
       obind (capped_advance slice_ops n c) (\<lambda>c'.
         obind (read_fields ns tr c') (\<lambda>(fs, c''). Done ((tag, wt, take n (cap_buf c)) # fs, c''))))"

fun fields_bytes :: "u32 \<Rightarrow> raw_part list \<Rightarrow> bytes" where
  "fields_bytes prev [] = []"
| "fields_bytes prev ((tag, wt, val) # fs) =
     varint_bytes (key_of (tag - prev) wt) @ val @ fields_bytes tag fs"

fun tags_ascend :: "u32 \<Rightarrow> raw_part list \<Rightarrow> bool" where
  "tags_ascend prev [] = True"
| "tags_ascend prev ((tag, wt, val) # fs) = (prev \<le> tag \<and> tags_ascend tag fs)"

lemma encode_key_eq:
  "encode_key tag wt tw buf = (if tw_last_tag tw \<le> tag
    then Some (\<lparr>tw_last_tag = tag\<rparr>, buf @ varint_bytes (key_of (tag - tw_last_tag tw) wt)) else None)"
  by (simp add: encode_key_def checked_sub_u32_def encode_varint_bytes)

lemma write_fields_eq:
  "map_option snd (write_fields fs tw buf) =
    (if tags_ascend (tw_last_tag tw) fs then Some (buf @ fields_bytes (tw_last_tag tw) fs) else None)"
proof (induction fs arbitrary: tw buf)
  case (Cons f fs)
  obtain tag wt val where f: "f = (tag, wt, val)" by (cases f)
  show ?case
    using Cons.IH [of "\<lparr>tw_last_tag = tag\<rparr>"
        "buf @ varint_bytes (key_of (tag - tw_last_tag tw) wt) @ val"] f
    by (auto simp: encode_key_eq split: if_splits)
qed simp

lemma encoded_len_key: "encoded_len_varint (push_bit 2 (ucast d)) = length (varint_bytes (key_of d wt))"
proof -
  have less: "push_bit 2 (ucast d) < VARINT_LIMIT ! j \<longleftrightarrow> key_of d wt < VARINT_LIMIT ! j"
    if "j \<in> {1, 2, 3, 4, 5, 6, 7, 8}" for j
  proof -
    have "4 dvd unat (VARINT_LIMIT ! j)" using that by (auto simp: VARINT_LIMIT_def)
    then obtain m where m: "unat (VARINT_LIMIT ! j) = 4 * m" by (elim dvdE)
    show ?thesis
      unfolding word_less_nat_alt unat_push_2 unat_key_of m using wire_nat_less [of wt] by auto
  qed
  show ?thesis
    unfolding encoded_len_varint_bytes [symmetric] encoded_len_varint_def
    by (simp add: less)
qed

lemma measure_fields_eq:
  "measure_fields fs tm = (if tags_ascend (tm_last_tag tm) fs
    then Some (length (fields_bytes (tm_last_tag tm) fs)) else None)"
proof (induction fs tm rule: measure_fields.induct)
  case (2 tag wt val fs tm)
  then show ?case
    using encoded_len_key [of "tag - tm_last_tag tm" wt]
    by (auto simp: runtime_key_len_def checked_sub_u32_def)
qed simp

lemma read_fields_eq:
  "tags_ascend (tr_last_tag tr) fs \<Longrightarrow>
   read_fields (map (\<lambda>(_, _, v). length v) fs) tr
     \<lparr>cap_buf = fields_bytes (tr_last_tag tr) fs @ rest, cap_extra = x\<rparr> =
   Done (fs, \<lparr>cap_buf = rest, cap_extra = x\<rparr>)"
proof (induction fs arbitrary: tr)
  case (Cons f fs)
  obtain tag wt val where f: "f = (tag, wt, val)" by (cases f)
  have "decode_key slice_ops tr \<lparr>cap_buf = fields_bytes (tr_last_tag tr) (f # fs) @ rest, cap_extra = x\<rparr> =
      Done (tag, wt, \<lparr>tr_last_tag = tag\<rparr>, \<lparr>cap_buf = val @ fields_bytes tag fs @ rest, cap_extra = x\<rparr>)"
    using Cons.prems f by (simp add: decode_key_Done)
  then show ?case using Cons.IH [of "\<lparr>tr_last_tag = tag\<rparr>"] Cons.prems f by simp
qed simp

context rev_buf_contract
begin

lemma prepends_key: "prepends (varint_bytes (key_of d wt)) (prepend_varint rops (key_of d wt))"
  unfolding varint_bytes_def by (rule prepends_varint)

text \<open>The bytes written so far lack the key of their first field.\<close>

lemma prepend_fields_eq:
  assumes "rinv r"
  shows "(case prepend_fields rops fs r of
      None \<Rightarrow> fs \<noteq> [] \<and> \<not> tags_ascend (fst (hd fs)) fs
    | Some (trw, r') \<Rightarrow> rinv r' \<and>
        (case fs of
           [] \<Rightarrow> trw_current_key trw = None \<and> rcontents r' = rcontents r
         | (tag, wt, val) # fs' \<Rightarrow> tags_ascend tag fs' \<and> trw_current_key trw = Some (tag, wt) \<and>
             rcontents r' = val @ fields_bytes tag fs' @ rcontents r))"
  using assms
proof (induction fs)
  case Nil
  then show ?case by (simp add: tag_rev_writer_new_def)
next
  case (Cons f fs)
  obtain tag wt val where f: "f = (tag, wt, val)" by (cases f)
  show ?case
  proof (cases "prepend_fields rops fs r")
    case None
    then show ?thesis using Cons f by (cases fs) auto
  next
    case (Some st)
    obtain trw r' where st: "st = (trw, r')" by (cases st)
    have r': "rinv r'" using Cons Some st by simp
    show ?thesis
    proof (cases fs)
      case Nil
      then show ?thesis
        using Cons Some st f r' r_prepend_slice [OF r', of val]
        by (auto simp: begin_field_def)
    next
      case (Cons g gs)
      obtain tag' wt' val' where g: "g = (tag', wt', val')" by (cases g)
      have IH: "tags_ascend tag' gs" "trw_current_key trw = Some (tag', wt')"
        "rcontents r' = val' @ fields_bytes tag' gs @ rcontents r"
        using Cons.IH \<open>rinv r\<close> Some st Cons g by auto
      show ?thesis
      proof (cases "tag \<le> tag'")
        case True
        obtain r1 where r1: "prepend_varint rops (key_of (tag' - tag) wt') r' = Some r1" "rinv r1"
          "rcontents r1 = varint_bytes (key_of (tag' - tag) wt') @ rcontents r'"
          using prependsE [OF prepends_key r'] by metis
        show ?thesis
          using Some st f g Cons IH True r1 r_prepend_slice [OF r1(2), of val]
          by (auto simp: begin_field_def checked_sub_u32_def)
      next
        case False
        then show ?thesis
          using Some st f g Cons IH by (simp add: begin_field_def checked_sub_u32_def)
      qed
    qed
  qed
qed

lemma prepend_message_eq:
  assumes "rinv r"
  shows "(case prepend_fields rops fs r \<bind> trw_finalize rops of
      None \<Rightarrow> \<not> tags_ascend 0 fs
    | Some (trw, r') \<Rightarrow> tags_ascend 0 fs \<and> trw = tag_rev_writer_new \<and> rinv r' \<and>
        rcontents r' = fields_bytes 0 fs @ rcontents r)"
proof (cases "prepend_fields rops fs r")
  case None
  then show ?thesis using prepend_fields_eq [OF assms, of fs] by (cases fs) auto
next
  case (Some st)
  obtain trw r' where st: "st = (trw, r')" by (cases st)
  show ?thesis
  proof (cases fs)
    case Nil
    then show ?thesis
      using Some st prepend_fields_eq [OF assms, of fs]
      by (cases trw) (simp add: trw_finalize_def tag_rev_writer_new_def)
  next
    case (Cons f gs)
    obtain tag wt val where f: "f = (tag, wt, val)" by (cases f)
    have IH: "rinv r'" "tags_ascend tag gs" "trw_current_key trw = Some (tag, wt)"
      "rcontents r' = val @ fields_bytes tag gs @ rcontents r"
      using Some st Cons f prepend_fields_eq [OF assms, of fs] by auto
    obtain r1 where "prepend_varint rops (key_of tag wt) r' = Some r1" "rinv r1"
      "rcontents r1 = varint_bytes (key_of tag wt) @ rcontents r'"
      using prependsE [OF prepends_key IH(1)] by metis
    then show ?thesis
      using Some st Cons f IH by (cases trw) (simp add: trw_finalize_def tag_rev_writer_new_def)
  qed
qed

end

section \<open>Properties\<close>

text \<open>
  C33. The three writers of a message agree on every sequence of fields and every prepend buffer:
  \<^verbatim>\<open>TagWriter\<close> succeeds exactly when the tags ascend, and then the prepending \<^verbatim>\<open>TagRevWriter\<close>, run from
  the last field to the first and finalised, puts the same bytes in front of the buffer, and the
  measurer announces their number; when a tag descends, all three panic.
\<close>

theorem message_writers_agree:
  assumes "rev_buf_contract rops rcontents rinv" and "rinv r"
  shows "(case write_fields fs tag_writer_new [] of
      None \<Rightarrow> prepend_fields rops fs r \<bind> trw_finalize rops = None \<and>
        measure_fields fs tag_measurer_new = None
    | Some (_, bs) \<Rightarrow> measure_fields fs tag_measurer_new = Some (length bs) \<and>
        (\<exists>r'. prepend_fields rops fs r \<bind> trw_finalize rops = Some (tag_rev_writer_new, r') \<and>
          rinv r' \<and> rcontents r' = bs @ rcontents r))"
  using write_fields_eq [of fs tag_writer_new "[]"] measure_fields_eq [of fs tag_measurer_new]
    rev_buf_contract.prepend_message_eq [OF assms, of fs]
  by (auto simp: tag_writer_new_def tag_measurer_new_def split: option.splits if_splits)

lemma write_sample: "write_fields [(1, WtVarint, [5]), (3, WtLengthDelimited, [1, 9])] tag_writer_new [] =
    Some (\<lparr>tw_last_tag = 3\<rparr>, [4, 5, 9, 1, 9])"
  by (simp add: encode_key_def tag_writer_new_def checked_sub_u32_def key_of_def encode_varint_small)

theorem message_writers_agree_witness:
  "\<exists>r'. prepend_fields list_rev_ops [(1, WtVarint, [5]), (3, WtLengthDelimited, [1, 9])] [7]
      \<bind> trw_finalize list_rev_ops = Some (tag_rev_writer_new, r') \<and> r' = [4, 5, 9, 1, 9, 7]"
  using message_writers_agree [OF list_rev.rev_buf_contract_axioms TrueI,
      of "[(1, WtVarint, [5]), (3, WtLengthDelimited, [1, 9])]" "[7]"]
  unfolding write_sample by auto

text \<open>
  What \<^verbatim>\<open>TagWriter\<close> writes, \<^verbatim>\<open>TagReader\<close> reads back, field by field, whatever the bytes of the
  values are and whatever follows the message.
\<close>

theorem message_keys_roundtrip:
  assumes "write_fields fs tag_writer_new [] = Some (tw, bs)"
  shows "read_fields (map (\<lambda>(_, _, v). length v) fs) tag_reader_new \<lparr>cap_buf = bs @ rest, cap_extra = x\<rparr> =
    Done (fs, \<lparr>cap_buf = rest, cap_extra = x\<rparr>)"
proof -
  have "tags_ascend 0 fs \<and> bs = fields_bytes 0 fs"
    using write_fields_eq [of fs tag_writer_new "[]"] assms
    by (auto simp: tag_writer_new_def split: if_splits)
  then show ?thesis
    using read_fields_eq [of tag_reader_new fs rest x] by (simp add: tag_reader_new_def)
qed

theorem message_keys_roundtrip_witness:
  "read_fields [1, 2] tag_reader_new \<lparr>cap_buf = [4, 5, 9, 1, 9] @ [8], cap_extra = 1\<rparr> =
    Done ([(1, WtVarint, [5]), (3, WtLengthDelimited, [1, 9])], \<lparr>cap_buf = [8], cap_extra = 1\<rparr>)"
  using message_keys_roundtrip [OF write_sample, of "[8]" 1] by (simp add: numeral_2_eq_2)

text \<open>
  Reading a key is exact: the reader never panics, and the key it returns is the one whose encoding after the
  reader's last tag it consumed; a tag beyond 32 bits is an error, not a wrapped tag.
\<close>

theorem decode_key_exact:
  assumes "buf_contract ops contents binv" and "binv (cap_buf c)"
  shows "decode_key ops tr c \<noteq> Panic \<and>
    (decode_key ops tr c = Done (tag, wt, tr', c') \<longrightarrow>
      binv (cap_buf c') \<and> cap_extra c' = cap_extra c \<and>
      (\<exists>bs. encode_key tag wt \<lparr>tw_last_tag = tr_last_tag tr\<rparr> [] = Some (\<lparr>tw_last_tag = tr_last_tag tr'\<rparr>, bs) \<and>
        contents (cap_buf c) = bs @ contents (cap_buf c')))"
proof -
  let ?s = "\<lparr>cap_buf = contents (cap_buf c), cap_extra = cap_extra c\<rparr>"
  note c = assms(1)
  have rel: "rel_outcome (rel_prod (=) (rel_prod (=) (rel_prod (=) (buf_contract.same contents binv))))
      (decode_key ops tr c) (decode_key slice_ops tr ?s)"
    using assms(2) by (intro buf_contract.same_decode_key [OF c]) (simp add: buf_contract.same_def [OF c])
  show ?thesis
  proof (cases "decode_key slice_ops tr ?s")
    case (Done x)
    then show ?thesis
      using rel by (cases "decode_key ops tr c"; cases x)
        (auto simp: buf_contract.same_def [OF c] decode_key_Done encode_key_eq)
  next
    case (Fail e)
    then show ?thesis using rel by (cases "decode_key ops tr c") auto
  qed (use decode_key_not_Panic in blast)
qed

theorem decode_key_exact_witness:
  "encode_key 9 WtSixtyFourBit \<lparr>tw_last_tag = 7\<rparr> [] = Some (\<lparr>tw_last_tag = 9\<rparr>, [11])"
proof -
  have "decode_key slice_ops \<lparr>tr_last_tag = 7\<rparr> \<lparr>cap_buf = [11, 1], cap_extra = 0\<rparr> =
      Done (9, WtSixtyFourBit, \<lparr>tr_last_tag = 9\<rparr>, \<lparr>cap_buf = [1], cap_extra = 0\<rparr>)"
    by (simp add: decode_key_Done key_of_def varint_bytes_small)
  then show ?thesis
    using decode_key_exact [OF slice.buf_contract_axioms TrueI, of "\<lparr>tr_last_tag = 7\<rparr>"
        "\<lparr>cap_buf = [11, 1], cap_extra = 0\<rparr>" 9 WtSixtyFourBit "\<lparr>tr_last_tag = 9\<rparr>"
        "\<lparr>cap_buf = [1], cap_extra = 0\<rparr>"]
    by auto
qed

text \<open>
  C38. Skipping an unknown field is sound: it never panics or runs out of its bound, and what it consumes is
  one or more well-formed values of the wire types their keys announce, all with the same tag; it
  stops at the cap or before a key with another tag.
\<close>

theorem skip_field_sound:
  assumes "buf_contract ops contents binv" and "binv (cap_buf c)"
  shows "skip_field ops wt c \<noteq> Panic \<and>
    (skip_field ops wt c = Done c' \<longrightarrow>
      binv (cap_buf c') \<and> cap_extra c' = cap_extra c \<and>
      (\<exists>bs. raw_field wt bs \<and> contents (cap_buf c) = bs @ contents (cap_buf c')) \<and>
      (length (contents (cap_buf c')) \<le> cap_extra c' \<or> 4 \<le> hd (contents (cap_buf c'))))"
proof -
  let ?s = "\<lparr>cap_buf = contents (cap_buf c), cap_extra = cap_extra c\<rparr>"
  note c = assms(1)
  have rel: "rel_outcome (buf_contract.same contents binv) (skip_field ops wt c) (skip_field slice_ops wt ?s)"
    using assms(2) by (intro buf_contract.same_skip [OF c]) (simp add: buf_contract.same_def [OF c])
  have np: "skip_field slice_ops wt ?s \<noteq> Panic"
    unfolding skip_field_def by (rule skip_loop_not_Panic) simp
  show ?thesis
  proof (cases "skip_field slice_ops wt ?s")
    case (Done s')
    then show ?thesis
      using rel skip_loop_sound [of "length (contents (cap_buf c)) + 1" wt ?s s']
      by (cases "skip_field ops wt c") (auto simp: buf_contract.same_def [OF c] skip_field_def)
  next
    case (Fail e)
    then show ?thesis using rel by (cases "skip_field ops wt c") auto
  qed (use np in simp)
qed

text \<open>
  Skipping is complete: a field of well-formed values, within the cap and followed by the cap or by a key with
  another tag, is skipped exactly, whatever its values are.
\<close>

theorem skip_field_complete:
  assumes "buf_contract ops contents binv" and "binv b" and "raw_field wt bs"
    and "contents b = bs @ rest" and "x \<le> length rest" and "length rest = x \<or> 4 \<le> hd rest"
  shows "\<exists>b'. skip_field ops wt \<lparr>cap_buf = b, cap_extra = x\<rparr> = Done \<lparr>cap_buf = b', cap_extra = x\<rparr> \<and>
    binv b' \<and> contents b' = rest"
proof -
  let ?c = "\<lparr>cap_buf = b, cap_extra = x\<rparr>" and ?s = "\<lparr>cap_buf = bs @ rest, cap_extra = x\<rparr>"
  note c = assms(1)
  have "skip_field slice_ops wt ?s = Done \<lparr>cap_buf = rest, cap_extra = x\<rparr>"
    unfolding skip_field_def using assms by (intro skip_loop_complete) auto
  moreover have "rel_outcome (buf_contract.same contents binv) (skip_field ops wt ?c) (skip_field slice_ops wt ?s)"
    using assms by (intro buf_contract.same_skip [OF c]) (simp add: buf_contract.same_def [OF c])
  ultimately obtain c' where "skip_field ops wt ?c = Done c'" "buf_contract.same contents binv c' \<lparr>cap_buf = rest, cap_extra = x\<rparr>"
    by (cases "skip_field ops wt ?c") auto
  then show ?thesis by (cases c') (auto simp: buf_contract.same_def [OF c])
qed

text \<open>A delimited region never leaves the region it is in, and holds as many bytes as its
  delimiter says.\<close>

theorem take_length_delimited_sound:
  assumes "buf_contract ops contents binv" and "binv (cap_buf c)"
    and "take_length_delimited ops c = Done c'"
  shows "binv (cap_buf c') \<and> cap_extra c \<le> cap_extra c' \<and>
    contents (cap_buf c) = encode_varint (of_nat (remaining_before_cap ops c')) [] @ contents (cap_buf c') \<and>
    remaining_before_cap ops c' + cap_extra c' = length (contents (cap_buf c'))"
proof -
  let ?s = "\<lparr>cap_buf = contents (cap_buf c), cap_extra = cap_extra c\<rparr>"
  note c = assms(1)
  have "rel_outcome (buf_contract.same contents binv) (take_length_delimited ops c)
      (take_length_delimited slice_ops ?s)"
    using assms(2)
    by (intro buf_contract.same_take_length_delimited [OF c]) (simp add: buf_contract.same_def [OF c])
  then obtain s' where "take_length_delimited slice_ops ?s = Done s'" "buf_contract.same contents binv c' s'"
    using assms(3) by (cases "take_length_delimited slice_ops ?s") auto
  moreover have "b_remaining ops (cap_buf c') = length (cap_buf s')"
    using calculation(2) by (rule buf_contract.same_remaining [OF c])
  moreover from calculation have "remaining_before_cap ops c' = n"
    if "n + cap_extra s' = length (cap_buf s')" for n
    using that by (auto simp: remaining_before_cap_def buf_contract.same_def [OF c])
  ultimately show ?thesis
    by (auto simp: buf_contract.same_def [OF c] encode_varint_bytes)
qed


theorem skip_field_sound_witness:
  "\<exists>bs. raw_field WtThirtyTwoBit bs \<and> [1, 2, 3, 4, 0, 7, 6 :: u8] = bs @ [6]"
proof -
  have "[7] = varint_bytes 7" by (simp add: varint_bytes_small)
  then have "raw_value WtVarint [7]" by (auto simp: raw_value_def)
  then have "raw_field WtThirtyTwoBit ([1, 2, 3, 4] @ 0 # [7])"
    by (intro raw_field.intros) (simp_all add: raw_value_def wire_of_def)
  then have run: "skip_field slice_ops WtThirtyTwoBit \<lparr>cap_buf = [1, 2, 3, 4, 0, 7, 6], cap_extra = 0\<rparr> =
      Done \<lparr>cap_buf = [6], cap_extra = 0\<rparr>"
    unfolding skip_field_def by (rule skip_loop_complete) simp_all
  show ?thesis
    using skip_field_sound [OF slice.buf_contract_axioms TrueI,
        of WtThirtyTwoBit "\<lparr>cap_buf = [1, 2, 3, 4, 0, 7, 6], cap_extra = 0\<rparr>" "\<lparr>cap_buf = [6], cap_extra = 0\<rparr>"] run
    by simp
qed

theorem skip_field_complete_witness:
  "\<exists>b'. skip_field slice_ops WtSixtyFourBit \<lparr>cap_buf = [1, 2, 3, 4, 5, 6, 7, 8, 9], cap_extra = 1\<rparr> =
    Done \<lparr>cap_buf = b', cap_extra = 1\<rparr> \<and> b' = [9]"
  using skip_field_complete [OF slice.buf_contract_axioms TrueI, of WtSixtyFourBit "[1, 2, 3, 4, 5, 6, 7, 8]"
      "[1, 2, 3, 4, 5, 6, 7, 8, 9]" "[9]" 1]
  by (simp add: raw_field.single raw_value_def)

theorem take_length_delimited_sound_witness:
  "[2, 5, 6, 7 :: u8] = encode_varint (of_nat 2) [] @ [5, 6, 7]"
proof -
  have "take_length_delimited slice_ops \<lparr>cap_buf = [2, 5, 6, 7], cap_extra = 0\<rparr> =
      Done \<lparr>cap_buf = [5, 6, 7], cap_extra = 1\<rparr>"
    by (simp add: varint_bytes_small exI [of _ "2 :: nat"])
  from take_length_delimited_sound [OF slice.buf_contract_axioms TrueI this]
  show ?thesis by simp
qed

end
