(* ===== verification/Codec.thy ===== *)
theory Codec
  imports Wire
begin

text \<open>
  The traits of \<^verbatim>\<open>src/src/encoding/encoding_traits.rs\<close> and \<^verbatim>\<open>value_traits.rs\<close> as records of operations, the
  generic implementations over them (fields with a key, optional fields, fields whose empty value
  is not written), and their contracts as locales. A codec is the trait dictionary of one encoding
  of one Rust type. Decoders read from a capped slice, the instance \<^verbatim>\<open>&[u8]\<close> of the generic
  \<^verbatim>\<open>Buf\<close>; encoders append to a byte string or prepend to any buffer that keeps \<open>rev_buf_contract\<close>.
  Decoders of a value take the value they overwrite and return the new one.
\<close>

section \<open>Dictionaries\<close>

text \<open>\<^verbatim>\<open>Wiretyped\<close>, \<^verbatim>\<open>ForOverwrite\<close>, \<^verbatim>\<open>ValueEncoder\<close>, \<^verbatim>\<open>ValueDecoder\<close> and \<^verbatim>\<open>DistinguishedValueDecoder\<close>.\<close>

record ('v, 'r) codec =
  c_wire :: wire_type
  c_for_overwrite :: 'v
  c_encode :: "'v \<Rightarrow> bytes \<Rightarrow> bytes option"
  c_prepend :: "'v \<Rightarrow> 'r \<Rightarrow> 'r option"
  c_len :: "'v \<Rightarrow> nat"
  c_many_len :: "'v list \<Rightarrow> nat"
  c_decode :: "'v \<Rightarrow> bytes capped \<Rightarrow> decode_context \<Rightarrow> ('v \<times> bytes capped) outcome"
  c_checks_empty :: bool
  c_decode_dist :: "bool \<Rightarrow> 'v \<Rightarrow> bytes capped \<Rightarrow> restricted_context \<Rightarrow>
    ('v \<times> canonicity \<times> bytes capped) outcome"

text \<open>\<^verbatim>\<open>EmptyState\<close>.\<close>

record 'v empty_state =
  es_empty :: 'v
  es_is_empty :: "'v \<Rightarrow> bool"
  es_clear :: "'v \<Rightarrow> 'v"

text \<open>\<^verbatim>\<open>Encoder\<close>, \<^verbatim>\<open>Decoder\<close> and \<^verbatim>\<open>DistinguishedDecoder\<close> of a field.\<close>

record ('t, 'r) field_codec =
  f_encode :: "u32 \<Rightarrow> 't \<Rightarrow> tag_writer \<Rightarrow> bytes \<Rightarrow> (tag_writer \<times> bytes) option"
  f_prepend :: "u32 \<Rightarrow> 't \<Rightarrow> tag_rev_writer \<times> 'r \<Rightarrow> (tag_rev_writer \<times> 'r) option"
  f_len :: "u32 \<Rightarrow> 't \<Rightarrow> tag_measurer \<Rightarrow> (nat \<times> tag_measurer) option"
  f_decode :: "wire_type \<Rightarrow> 't \<Rightarrow> bytes capped \<Rightarrow> decode_context \<Rightarrow> ('t \<times> bytes capped) outcome"
  f_decode_dist :: "wire_type \<Rightarrow> 't \<Rightarrow> bytes capped \<Rightarrow> restricted_context \<Rightarrow>
    ('t \<times> canonicity \<times> bytes capped) outcome"

text \<open>The provided method \<^verbatim>\<open>many_values_encoded_len\<close>.\<close>

definition many_values_encoded_len :: "wire_type \<Rightarrow> ('v \<Rightarrow> nat) \<Rightarrow> 'v list \<Rightarrow> nat" where
  "many_values_encoded_len wt len vs =
    (case fixed_size wt of
       None \<Rightarrow> sum_list (map len vs)
     | Some sz \<Rightarrow> sz * length vs)"

lemma many_values_encoded_len_variable [simp]:
  "many_values_encoded_len WtVarint f vs = sum_list (map f vs)"
  "many_values_encoded_len WtLengthDelimited f vs = sum_list (map f vs)"
  by (simp_all add: many_values_encoded_len_def)

section \<open>Fields with a key\<close>

definition encode_field ::
    "('v, 'r) codec \<Rightarrow> u32 \<Rightarrow> 'v \<Rightarrow> tag_writer \<Rightarrow> bytes \<Rightarrow> (tag_writer \<times> bytes) option" where
  "encode_field c tag v tw buf = do {
     (tw, buf) \<leftarrow> encode_key tag (c_wire c) tw buf;
     buf \<leftarrow> c_encode c v buf;
     Some (tw, buf)
   }"

definition prepend_field ::
    "'r rev_ops \<Rightarrow> ('v, 'r) codec \<Rightarrow> u32 \<Rightarrow> 'v \<Rightarrow> tag_rev_writer \<times> 'r \<Rightarrow> (tag_rev_writer \<times> 'r) option" where
  "prepend_field rops c tag v st = do {
     (trw, buf) \<leftarrow> begin_field rops tag (c_wire c) st;
     buf \<leftarrow> c_prepend c v buf;
     Some (trw, buf)
   }"

definition field_encoded_len ::
    "('v, 'r) codec \<Rightarrow> u32 \<Rightarrow> 'v \<Rightarrow> tag_measurer \<Rightarrow> (nat \<times> tag_measurer) option" where
  "field_encoded_len c tag v tm = do {
     (k, tm) \<leftarrow> runtime_key_len tag tm;
     Some (k + c_len c v, tm)
   }"

definition decode_field ::
    "('v, 'r) codec \<Rightarrow> wire_type \<Rightarrow> 'v \<Rightarrow> bytes capped \<Rightarrow> decode_context \<Rightarrow>
     ('v \<times> bytes capped) outcome" where
  "decode_field c wt v cp ctx = obind (check_wire_type (c_wire c) wt) (\<lambda>_. c_decode c v cp ctx)"

definition decode_field_distinguished ::
    "('v, 'r) codec \<Rightarrow> bool \<Rightarrow> wire_type \<Rightarrow> 'v \<Rightarrow> bytes capped \<Rightarrow> restricted_context \<Rightarrow>
     ('v \<times> canonicity \<times> bytes capped) outcome" where
  "decode_field_distinguished c allow_empty wt v cp ctx =
    obind (check_wire_type (c_wire c) wt) (\<lambda>_. c_decode_dist c allow_empty v cp ctx)"

section \<open>Plain fields\<close>

text \<open>
  \<^verbatim>\<open>encoding_implemented_via_value_encoding\<close>: a value is written only when it is not empty, and a
  decoded empty value is not canonical.
\<close>

definition plain_encode ::
    "('v, 'r) codec \<Rightarrow> 'v empty_state \<Rightarrow> u32 \<Rightarrow> 'v \<Rightarrow> tag_writer \<Rightarrow> bytes \<Rightarrow> (tag_writer \<times> bytes) option" where
  "plain_encode c es tag v tw buf =
    (if \<not> es_is_empty es v then encode_field c tag v tw buf else Some (tw, buf))"

definition plain_prepend ::
    "'r rev_ops \<Rightarrow> ('v, 'r) codec \<Rightarrow> 'v empty_state \<Rightarrow> u32 \<Rightarrow> 'v \<Rightarrow> tag_rev_writer \<times> 'r \<Rightarrow>
     (tag_rev_writer \<times> 'r) option" where
  "plain_prepend rops c es tag v st =
    (if \<not> es_is_empty es v then prepend_field rops c tag v st else Some st)"

definition plain_encoded_len ::
    "('v, 'r) codec \<Rightarrow> 'v empty_state \<Rightarrow> u32 \<Rightarrow> 'v \<Rightarrow> tag_measurer \<Rightarrow> (nat \<times> tag_measurer) option" where
  "plain_encoded_len c es tag v tm =
    (if \<not> es_is_empty es v then field_encoded_len c tag v tm else Some (0, tm))"

definition plain_decode ::
    "('v, 'r) codec \<Rightarrow> wire_type \<Rightarrow> 'v \<Rightarrow> bytes capped \<Rightarrow> decode_context \<Rightarrow> ('v \<times> bytes capped) outcome" where
  "plain_decode c wt v cp ctx = decode_field c wt v cp ctx"

definition plain_decode_distinguished ::
    "('v, 'r) codec \<Rightarrow> 'v empty_state \<Rightarrow> wire_type \<Rightarrow> 'v \<Rightarrow> bytes capped \<Rightarrow> restricted_context \<Rightarrow>
     ('v \<times> canonicity \<times> bytes capped) outcome" where
  "plain_decode_distinguished c es wt v cp ctx =
    obind (decode_field_distinguished c False wt v cp ctx) (\<lambda>(v, canon, cp).
      if \<not> c_checks_empty c \<and> es_is_empty es v then
        obind (from_result (check ctx NotCanonical)) (\<lambda>k. Done (v, canonicity_update canon k, cp))
      else Done (v, canon, cp))"

definition plain_field :: "'r rev_ops \<Rightarrow> ('v, 'r) codec \<Rightarrow> 'v empty_state \<Rightarrow> ('v, 'r) field_codec" where
  "plain_field rops c es = \<lparr>f_encode = plain_encode c es, f_prepend = plain_prepend rops c es,
     f_len = plain_encoded_len c es, f_decode = plain_decode c,
     f_decode_dist = plain_decode_distinguished c es\<rparr>"

section \<open>Optional fields\<close>

definition option_encode ::
    "('v, 'r) codec \<Rightarrow> u32 \<Rightarrow> 'v option \<Rightarrow> tag_writer \<Rightarrow> bytes \<Rightarrow> (tag_writer \<times> bytes) option" where
  "option_encode c tag v tw buf =
    (case v of Some v \<Rightarrow> encode_field c tag v tw buf | None \<Rightarrow> Some (tw, buf))"

definition option_prepend ::
    "'r rev_ops \<Rightarrow> ('v, 'r) codec \<Rightarrow> u32 \<Rightarrow> 'v option \<Rightarrow> tag_rev_writer \<times> 'r \<Rightarrow>
     (tag_rev_writer \<times> 'r) option" where
  "option_prepend rops c tag v st =
    (case v of Some v \<Rightarrow> prepend_field rops c tag v st | None \<Rightarrow> Some st)"

definition option_encoded_len ::
    "('v, 'r) codec \<Rightarrow> u32 \<Rightarrow> 'v option \<Rightarrow> tag_measurer \<Rightarrow> (nat \<times> tag_measurer) option" where
  "option_encoded_len c tag v tm =
    (case v of Some v \<Rightarrow> field_encoded_len c tag v tm | None \<Rightarrow> Some (0, tm))"

definition get_or_insert :: "'v \<Rightarrow> 'v option \<Rightarrow> 'v" where
  "get_or_insert d v = (case v of Some v \<Rightarrow> v | None \<Rightarrow> d)"

definition option_decode ::
    "('v, 'r) codec \<Rightarrow> wire_type \<Rightarrow> 'v option \<Rightarrow> bytes capped \<Rightarrow> decode_context \<Rightarrow>
     ('v option \<times> bytes capped) outcome" where
  "option_decode c wt v cp ctx =
    obind (decode_field c wt (get_or_insert (c_for_overwrite c) v) cp ctx)
      (\<lambda>(v, cp). Done (Some v, cp))"

definition option_decode_distinguished ::
    "('v, 'r) codec \<Rightarrow> wire_type \<Rightarrow> 'v option \<Rightarrow> bytes capped \<Rightarrow> restricted_context \<Rightarrow>
     ('v option \<times> canonicity \<times> bytes capped) outcome" where
  "option_decode_distinguished c wt v cp ctx =
    obind (check_wire_type (c_wire c) wt) (\<lambda>_.
      obind (c_decode_dist c True (get_or_insert (c_for_overwrite c) v) cp ctx)
        (\<lambda>(v, canon, cp). Done (Some v, canon, cp)))"

definition option_field :: "'r rev_ops \<Rightarrow> ('v, 'r) codec \<Rightarrow> ('v option, 'r) field_codec" where
  "option_field rops c = \<lparr>f_encode = option_encode c, f_prepend = option_prepend rops c,
     f_len = option_encoded_len c, f_decode = option_decode c,
     f_decode_dist = option_decode_distinguished c\<rparr>"

text \<open>The rules of \<^verbatim>\<open>implement_core_empty_state_rules\<close> for options and arrays.\<close>

definition option_empty_state :: "'v option empty_state" where
  "option_empty_state = \<lparr>es_empty = None, es_is_empty = (\<lambda>v. v = None), es_clear = (\<lambda>_. None)\<rparr>"

definition array_empty_state :: "nat \<Rightarrow> 'v empty_state \<Rightarrow> 'v list empty_state" where
  "array_empty_state n es = \<lparr>es_empty = replicate n (es_empty es), es_is_empty = list_all (es_is_empty es),
     es_clear = map (es_clear es)\<rparr>"

text \<open>\<^verbatim>\<open>empty_state_via_for_overwrite\<close> and \<^verbatim>\<open>empty_state_via_default\<close>: one value is the empty one.\<close>

definition default_empty_state :: "'v \<Rightarrow> 'v empty_state" where
  "default_empty_state d = \<lparr>es_empty = d, es_is_empty = (\<lambda>v. v = d), es_clear = (\<lambda>_. d)\<rparr>"

section \<open>Contracts\<close>

text \<open>
  The laws of a value codec: \<open>enc v\<close> are the bytes of the value \<open>v\<close>, \<open>valid v\<close> says that \<open>v\<close> is a value
  of the Rust type (a length below \<open>2 ^ 64\<close>, valid UTF-8, ...), and \<open>depth v\<close> how deeply messages
  nest in it. The recursion counter of the context has to allow that depth.
\<close>

locale value_codec = rev_buf_contract rops rcontents rinv
  for rops :: "'r rev_ops" and rcontents :: "'r \<Rightarrow> bytes" and rinv :: "'r \<Rightarrow> bool" +
  fixes c :: "('v, 'r) codec"
    and enc :: "'v \<Rightarrow> bytes"
    and valid :: "'v \<Rightarrow> bool"
    and depth :: "'v \<Rightarrow> nat"
  assumes encode: "valid v \<Longrightarrow> c_encode c v buf = Some (buf @ enc v)"
    and prepend: "valid v \<Longrightarrow> rinv r \<Longrightarrow>
      \<exists>r'. c_prepend c v r = Some r' \<and> rinv r' \<and> rcontents r' = enc v @ rcontents r"
    and len: "valid v \<Longrightarrow> c_len c v = length (enc v)"
    and nonempty: "valid v \<Longrightarrow> enc v \<noteq> []"
    and fixed: "valid v \<Longrightarrow> fixed_size (c_wire c) = Some n \<Longrightarrow> length (enc v) = n"
    and many_len: "\<forall>v \<in> set vs. valid v \<Longrightarrow> c_many_len c vs = sum_list (map (\<lambda>v. length (enc v)) vs)"
    and decode: "valid v \<Longrightarrow> depth v \<le> unat (recurse_count ctx) \<Longrightarrow> x \<le> length rest \<Longrightarrow>
      c_decode c (c_for_overwrite c) \<lparr>cap_buf = enc v @ rest, cap_extra = x\<rparr> ctx =
        Done (v, \<lparr>cap_buf = rest, cap_extra = x\<rparr>)"
    and decode_frame: "c_decode c v0 cp ctx = Done (v, cp') \<Longrightarrow>
      cap_extra cp' = cap_extra cp \<and> (\<exists>p. p \<noteq> [] \<and> cap_buf cp = p @ cap_buf cp')"
    and decode_no_panic: "c_decode c v0 cp ctx \<noteq> Panic"

text \<open>
  Distinguished decoding agrees with relaxed decoding, never returns less than the canonicity the
  context demands, returns \<open>Canonical\<close> only for the bytes the value encodes to, and always for them.
\<close>

locale distinguished_codec = value_codec rops rcontents rinv c enc valid depth
  for rops :: "'r rev_ops" and rcontents :: "'r \<Rightarrow> bytes" and rinv :: "'r \<Rightarrow> bool"
    and c :: "('v, 'r) codec" and enc :: "'v \<Rightarrow> bytes" and valid :: "'v \<Rightarrow> bool" and depth :: "'v \<Rightarrow> nat" +
  assumes dist_relaxed: "c_decode_dist c allow (c_for_overwrite c) cp ctx = Done (v, k, cp') \<Longrightarrow>
      c_decode c (c_for_overwrite c) cp (into_inner ctx) = Done (v, cp') \<and> rc_min_canonicity ctx \<le> k"
    and dist_canonical: "c_decode_dist c allow (c_for_overwrite c) cp ctx = Done (v, Canonical, cp') \<Longrightarrow>
      length (cap_buf cp) < 2 ^ 64 \<Longrightarrow> cap_buf cp = enc v @ cap_buf cp' \<and> valid v"
    and dist_complete: "valid v \<Longrightarrow> depth v \<le> unat (recurse_count (into_inner ctx)) \<Longrightarrow> x \<le> length rest \<Longrightarrow>
      allow \<or> \<not> c_checks_empty c \<or> enc v \<noteq> [0] \<Longrightarrow>
      c_decode_dist c allow (c_for_overwrite c) \<lparr>cap_buf = enc v @ rest, cap_extra = x\<rparr> ctx =
        Done (v, Canonical, \<lparr>cap_buf = rest, cap_extra = x\<rparr>)"
    and dist_nonempty: "c_checks_empty c \<Longrightarrow>
      c_decode_dist c False (c_for_overwrite c) cp ctx = Done (v, Canonical, cp') \<Longrightarrow>
      length (cap_buf cp) < 2 ^ 64 \<Longrightarrow> enc v \<noteq> [0]"
    and dist_no_panic: "c_decode_dist c allow (c_for_overwrite c) cp ctx \<noteq> Panic"

context value_codec
begin

lemma prepends: "valid v \<Longrightarrow> prepends (enc v) (c_prepend c v)"
  by (rule prependsI) (rule prepend)

lemma decode_shorter:
  "c_decode c v0 cp ctx = Done (v, cp') \<Longrightarrow> length (cap_buf cp') < length (cap_buf cp)"
  using decode_frame [of v0 cp ctx v cp'] by auto

text \<open>Fields, as raw parts of a message.\<close>

lemma encode_field_eq:
  "valid v \<Longrightarrow> encode_field c tag v tw buf = write_fields [(tag, c_wire c, enc v)] tw buf"
  by (auto simp: encode_field_def encode bind_split_asm split: bind_split prod.split)

lemma field_encoded_len_eq:
  "valid v \<Longrightarrow> map_option fst (field_encoded_len c tag v tm) = measure_fields [(tag, c_wire c, enc v)] tm"
  by (auto simp: field_encoded_len_def len split: bind_split)

lemma decode_field_eq:
  "valid v \<Longrightarrow> depth v \<le> unat (recurse_count ctx) \<Longrightarrow> x \<le> length rest \<Longrightarrow>
   decode_field c (c_wire c) (c_for_overwrite c) \<lparr>cap_buf = enc v @ rest, cap_extra = x\<rparr> ctx =
     Done (v, \<lparr>cap_buf = rest, cap_extra = x\<rparr>)"
  by (simp add: decode_field_def check_wire_type_def decode)

lemma option_decode_eq:
  "valid v \<Longrightarrow> depth v \<le> unat (recurse_count ctx) \<Longrightarrow> x \<le> length rest \<Longrightarrow>
   option_decode c (c_wire c) None \<lparr>cap_buf = enc v @ rest, cap_extra = x\<rparr> ctx =
     Done (Some v, \<lparr>cap_buf = rest, cap_extra = x\<rparr>)"
  by (simp add: option_decode_def get_or_insert_def decode_field_eq)

end

end
