(* ===== verification/Collections.thy ===== *)
theory Collections
  imports Codec
begin

text \<open>
  The traits \<^verbatim>\<open>Collection\<close>, \<^verbatim>\<open>DistinguishedCollection\<close>, \<^verbatim>\<open>Mapping\<close> and \<^verbatim>\<open>DistinguishedMapping\<close> of
  \<^verbatim>\<open>src/src/encoding/value_traits.rs\<close> and their implementations for \<^verbatim>\<open>Vec\<close>, \<^verbatim>\<open>BTreeSet\<close> and \<^verbatim>\<open>BTreeMap\<close> in
  \<^verbatim>\<open>type_support/core_and_alloc.rs\<close>. A vector is a list, an ordered set or map of the standard
  library the ascending list of its items. What the codecs of repeated fields rely on is the locale
  \<open>collection_contract\<close>, interpreted on all three; a map is the collection of its entries.
\<close>

section \<open>Interfaces\<close>

record ('c, 't) collection =
  col_empty :: 'c
  col_is_empty :: "'c \<Rightarrow> bool"
  col_len :: "'c \<Rightarrow> nat"
  col_iter :: "'c \<Rightarrow> 't list"
  col_reversed :: "'c \<Rightarrow> 't list"
  col_insert :: "'t \<Rightarrow> 'c \<Rightarrow> 'c outcome"
  col_insert_dist :: "'t \<Rightarrow> 'c \<Rightarrow> ('c \<times> canonicity) outcome"

locale collection_contract =
  fixes col :: "('c, 't) collection"
    and cvalid :: "'c \<Rightarrow> bool"
  assumes empty: "cvalid (col_empty col) \<and> col_iter col (col_empty col) = []"
    and is_empty: "cvalid c \<Longrightarrow> col_is_empty col c \<longleftrightarrow> col_iter col c = []"
    and len: "cvalid c \<Longrightarrow> col_len col c = length (col_iter col c)"
    and reversed: "cvalid c \<Longrightarrow> col_reversed col c = rev (col_iter col c)"
    and ext: "cvalid c \<Longrightarrow> cvalid d \<Longrightarrow> col_iter col c = col_iter col d \<Longrightarrow> c = d"
    and insert: "cvalid c \<Longrightarrow> col_insert col x c = Done c' \<Longrightarrow>
      cvalid c' \<and> set (col_iter col c') = insert x (set (col_iter col c)) \<and>
      length (col_iter col c') = Suc (length (col_iter col c))"
    and insert_not_panic: "col_insert col x c \<noteq> Panic"
    and insert_dist: "cvalid c \<Longrightarrow> col_insert_dist col x c = Done (c', k) \<Longrightarrow> col_insert col x c = Done c'"
    and insert_dist_not_panic: "col_insert_dist col x c \<noteq> Panic"
    and insert_canonical: "cvalid c \<Longrightarrow> col_insert_dist col x c = Done (c', Canonical) \<Longrightarrow>
      col_iter col c' = col_iter col c @ [x]"
    and insert_in_order: "cvalid c \<Longrightarrow> cvalid d \<Longrightarrow> col_iter col d = col_iter col c @ x # xs \<Longrightarrow>
      \<exists>c'. col_insert_dist col x c = Done (c', Canonical)"
begin

lemma insert_next:
  assumes "cvalid c" and "cvalid d" and "col_iter col d = col_iter col c @ x # xs"
  obtains c' where "col_insert_dist col x c = Done (c', Canonical)" "col_insert col x c = Done c'"
    "cvalid c'" "col_iter col c' = col_iter col c @ [x]"
proof -
  from insert_in_order [OF assms] obtain c' where c': "col_insert_dist col x c = Done (c', Canonical)" ..
  show thesis
    using that [OF c' insert_dist [OF assms(1) c']] insert [OF assms(1) insert_dist [OF assms(1) c']]
      insert_canonical [OF assms(1) c'] by simp
qed

end

section \<open>Vectors\<close>

definition vec_insert :: "'t \<Rightarrow> 't list \<Rightarrow> 't list outcome" where
  "vec_insert item v = Done (v @ [item])"

text \<open>\<^verbatim>\<open>TriviallyDistinguishedCollection\<close>: every insertion is canonical.\<close>

definition trivially_insert_distinguished ::
    "('t \<Rightarrow> 'c \<Rightarrow> 'c outcome) \<Rightarrow> 't \<Rightarrow> 'c \<Rightarrow> ('c \<times> canonicity) outcome" where
  "trivially_insert_distinguished ins item c = omap (\<lambda>c. (c, Canonical)) (ins item c)"

definition vec_collection :: "('t list, 't) collection" where
  "vec_collection = \<lparr>col_empty = [], col_is_empty = (\<lambda>v. v = []), col_len = length,
     col_iter = (\<lambda>v. v), col_reversed = rev, col_insert = vec_insert,
     col_insert_dist = trivially_insert_distinguished vec_insert\<rparr>"

interpretation vec: collection_contract vec_collection "\<lambda>_. True"
  by unfold_locales (auto simp: vec_collection_def vec_insert_def trivially_insert_distinguished_def)

section \<open>Ordered sets\<close>

text \<open>\<open>set_insert\<close> is what \<^verbatim>\<open>BTreeSet::insert\<close> does to the ascending list of the items.\<close>

fun set_insert :: "'t::linorder \<Rightarrow> 't list \<Rightarrow> 't list" where
  "set_insert x [] = [x]"
| "set_insert x (y # ys) =
    (if x < y then x # y # ys else if x = y then y # ys else y # set_insert x ys)"

definition btree_set_insert :: "'t::linorder \<Rightarrow> 't list \<Rightarrow> 't list outcome" where
  "btree_set_insert item s =
    (if item \<in> set s then Fail UnexpectedlyRepeated else Done (set_insert item s))"

definition btree_set_insert_distinguished ::
    "'t::linorder \<Rightarrow> 't list \<Rightarrow> ('t list \<times> canonicity) outcome" where
  "btree_set_insert_distinguished item s =
    (if s = [] \<or> item > last s then Done (set_insert item s, Canonical)
     else if item = last s then Fail UnexpectedlyRepeated
     else if item \<in> set s then Fail UnexpectedlyRepeated
     else Done (set_insert item s, NotCanonical))"

definition btree_set_collection :: "('t::linorder list, 't) collection" where
  "btree_set_collection = \<lparr>col_empty = [], col_is_empty = (\<lambda>v. v = []), col_len = length,
     col_iter = (\<lambda>v. v), col_reversed = rev, col_insert = btree_set_insert,
     col_insert_dist = btree_set_insert_distinguished\<rparr>"

lemma set_set_insert [simp]: "set (set_insert x xs) = insert x (set xs)"
  by (induction xs) auto

lemma set_insert_ascending: "sorted_wrt (<) xs \<Longrightarrow> sorted_wrt (<) (set_insert x xs)"
  by (induction xs) auto

lemma length_set_insert: "x \<notin> set xs \<Longrightarrow> length (set_insert x xs) = Suc (length xs)"
  by (induction xs) auto

lemma set_insert_last: "\<forall>y \<in> set xs. y < x \<Longrightarrow> set_insert x xs = xs @ [x]"
  by (induction xs) (auto dest: less_asym)

lemma ascending_last: "sorted_wrt (<) xs \<Longrightarrow> xs \<noteq> [] \<Longrightarrow> last xs < x \<Longrightarrow> y \<in> set xs \<Longrightarrow> y < x"
  for x :: "'t::linorder"
  by (induction xs) (auto split: if_splits dest: less_trans)

interpretation btree_set: collection_contract btree_set_collection "sorted_wrt (<)"
proof unfold_locales
  fix c c' d :: "'a list" and x xs k
  assume c: "sorted_wrt (<) c"
  have in_order: "\<forall>y \<in> set c. y < x" if "c = [] \<or> last c < x"
    using that ascending_last [OF c, of x] by (cases "c = []") auto
  show "sorted_wrt (<) c' \<and> set (col_iter btree_set_collection c') = insert x (set (col_iter btree_set_collection c)) \<and>
      length (col_iter btree_set_collection c') = Suc (length (col_iter btree_set_collection c))"
    if "col_insert btree_set_collection x c = Done c'"
    using that c
    by (auto simp: btree_set_collection_def btree_set_insert_def set_insert_ascending length_set_insert
        split: if_splits)
  show "col_iter btree_set_collection c' = col_iter btree_set_collection c @ [x]"
    if "col_insert_dist btree_set_collection x c = Done (c', Canonical)"
    using that in_order set_insert_last [of c x]
    by (auto simp: btree_set_collection_def btree_set_insert_distinguished_def split: if_splits)
  show "col_insert btree_set_collection x c = Done c'"
    if "col_insert_dist btree_set_collection x c = Done (c', k)"
    using that in_order by (auto simp: btree_set_collection_def btree_set_insert_def
        btree_set_insert_distinguished_def split: if_splits)
  assume d: "sorted_wrt (<) d" "col_iter btree_set_collection d = col_iter btree_set_collection c @ x # xs"
  show "\<exists>c'. col_insert_dist btree_set_collection x c = Done (c', Canonical)"
    using d by (cases "c = []") (auto simp: btree_set_collection_def btree_set_insert_distinguished_def sorted_wrt_append)
qed (auto simp: btree_set_collection_def btree_set_insert_def btree_set_insert_distinguished_def
      split: if_splits)

section \<open>Ordered maps\<close>

text \<open>The entries of a \<^verbatim>\<open>BTreeMap\<close> in ascending order of their keys.\<close>

fun map_insert :: "'k::linorder \<Rightarrow> 'w \<Rightarrow> ('k \<times> 'w) list \<Rightarrow> ('k \<times> 'w) list" where
  "map_insert k v [] = [(k, v)]"
| "map_insert k v ((k', v') # m) =
    (if k < k' then (k, v) # (k', v') # m else if k = k' then (k, v) # m else (k', v') # map_insert k v m)"

definition btree_map_insert :: "'k::linorder \<times> 'w \<Rightarrow> ('k \<times> 'w) list \<Rightarrow> ('k \<times> 'w) list outcome" where
  "btree_map_insert kv m =
    (if fst kv \<in> fst ` set m then Fail UnexpectedlyRepeated else Done (map_insert (fst kv) (snd kv) m))"

definition btree_map_insert_distinguished ::
    "'k::linorder \<times> 'w \<Rightarrow> ('k \<times> 'w) list \<Rightarrow> (('k \<times> 'w) list \<times> canonicity) outcome" where
  "btree_map_insert_distinguished kv m =
    (if m = [] \<or> fst kv > fst (last m) then Done (map_insert (fst kv) (snd kv) m, Canonical)
     else if fst kv = fst (last m) then Fail UnexpectedlyRepeated
     else if fst kv \<in> fst ` set m then Fail UnexpectedlyRepeated
     else Done (map_insert (fst kv) (snd kv) m, NotCanonical))"

definition btree_map_collection :: "(('k::linorder \<times> 'w) list, 'k \<times> 'w) collection" where
  "btree_map_collection = \<lparr>col_empty = [], col_is_empty = (\<lambda>m. m = []), col_len = length,
     col_iter = (\<lambda>m. m), col_reversed = rev, col_insert = btree_map_insert,
     col_insert_dist = btree_map_insert_distinguished\<rparr>"

abbreviation keys_ascend :: "('k::linorder \<times> 'w) list \<Rightarrow> bool" where
  "keys_ascend \<equiv> sorted_wrt (\<lambda>a b. fst a < fst b)"

lemma set_map_insert: "k \<notin> fst ` set m \<Longrightarrow> set (map_insert k v m) = insert (k, v) (set m)"
  by (induction k v m rule: map_insert.induct) auto

lemma map_insert_ascending: "k \<notin> fst ` set m \<Longrightarrow> keys_ascend m \<Longrightarrow> keys_ascend (map_insert k v m)"
proof (induction k v m rule: map_insert.induct)
  case (2 k v k' v' m)
  then show ?case
    by (cases "k < k'") (force simp: set_map_insert dest: less_trans)+
qed simp

lemma length_map_insert: "k \<notin> fst ` set m \<Longrightarrow> length (map_insert k v m) = Suc (length m)"
  by (induction m) auto

lemma map_insert_last: "\<forall>y \<in> set m. fst y < k \<Longrightarrow> map_insert k v m = m @ [(k, v)]"
  by (induction m) (auto dest: less_asym)

lemma keys_ascend_last: "keys_ascend m \<Longrightarrow> m \<noteq> [] \<Longrightarrow> fst (last m) < k \<Longrightarrow> y \<in> set m \<Longrightarrow> fst y < k"
  for k :: "'k::linorder"
  by (induction m) (auto split: if_splits dest: less_trans)

interpretation btree_map: collection_contract btree_map_collection keys_ascend
proof unfold_locales
  fix c c' d xs :: "('a \<times> 'b) list" and x :: "'a \<times> 'b" and k
  assume c: "keys_ascend c"
  have in_order: "\<forall>y \<in> set c. fst y < fst x" if "c = [] \<or> fst (last c) < fst x"
    using that keys_ascend_last [OF c, of "fst x"] by (cases "c = []") auto
  show "keys_ascend c' \<and> set (col_iter btree_map_collection c') = insert x (set (col_iter btree_map_collection c)) \<and>
      length (col_iter btree_map_collection c') = Suc (length (col_iter btree_map_collection c))"
    if "col_insert btree_map_collection x c = Done c'"
    using that c map_insert_ascending [of "fst x" c "snd x"] length_map_insert [of "fst x" c "snd x"]
      set_map_insert [of "fst x" c "snd x"]
    by (auto simp: btree_map_collection_def btree_map_insert_def split: if_splits)
  show "col_iter btree_map_collection c' = col_iter btree_map_collection c @ [x]"
    if "col_insert_dist btree_map_collection x c = Done (c', Canonical)"
    using that in_order map_insert_last [of c "fst x" "snd x"]
    by (auto simp: btree_map_collection_def btree_map_insert_distinguished_def split: if_splits)
  show "col_insert btree_map_collection x c = Done c'"
    if "col_insert_dist btree_map_collection x c = Done (c', k)"
    using that in_order by (auto simp: btree_map_collection_def btree_map_insert_def
        btree_map_insert_distinguished_def split: if_splits)
  assume d: "keys_ascend d" "col_iter btree_map_collection d = col_iter btree_map_collection c @ x # xs"
  show "\<exists>c'. col_insert_dist btree_map_collection x c = Done (c', Canonical)"
    using d by (cases "c = []") (auto simp: btree_map_collection_def btree_map_insert_distinguished_def sorted_wrt_append)
qed (auto simp: btree_map_collection_def btree_map_insert_def btree_map_insert_distinguished_def
      split: if_splits)

end
