(* ===== verification/Varint_Values.thy ===== *)
theory Varint_Values
  imports Codec
begin

text \<open>
  The \<^verbatim>\<open>Varint\<close> encoding of \<^verbatim>\<open>src/src/encoding/varint.rs\<close>: zig-zag for signed integers, the codec that
  the macro \<^verbatim>\<open>varint!\<close> builds from a pair of conversions, and its twenty-one instances. Every instance
  keeps the laws of \<open>distinguished_codec\<close>, by one lemma on the conversions.
\<close>

section \<open>Zig-zag\<close>

text \<open>A signed integer of Rust is the word of its bits, read by \<open>sint\<close>; \<open>>>\<close> on it is arithmetic.\<close>

definition i8_to_unsigned :: "u8 \<Rightarrow> u8" where
  "i8_to_unsigned value = push_bit 1 value XOR signed_drop_bit 7 value"

definition u8_to_signed :: "u8 \<Rightarrow> u8" where
  "u8_to_signed value = drop_bit 1 value XOR - (value AND 1)"

definition i16_to_unsigned :: "u16 \<Rightarrow> u16" where
  "i16_to_unsigned value = push_bit 1 value XOR signed_drop_bit 15 value"

definition u16_to_signed :: "u16 \<Rightarrow> u16" where
  "u16_to_signed value = drop_bit 1 value XOR - (value AND 1)"

definition i32_to_unsigned :: "u32 \<Rightarrow> u32" where
  "i32_to_unsigned value = push_bit 1 value XOR signed_drop_bit 31 value"

definition u32_to_signed :: "u32 \<Rightarrow> u32" where
  "u32_to_signed value = drop_bit 1 value XOR - (value AND 1)"

definition i64_to_unsigned :: "u64 \<Rightarrow> u64" where
  "i64_to_unsigned value = push_bit 1 value XOR signed_drop_bit 63 value"

definition u64_to_signed :: "u64 \<Rightarrow> u64" where
  "u64_to_signed value = drop_bit 1 value XOR - (value AND 1)"

text \<open>The common form of the four widths.\<close>

definition zigzag :: "'a::len word \<Rightarrow> 'a word" where
  "zigzag v = push_bit 1 v XOR signed_drop_bit (LENGTH('a) - 1) v"

definition unzigzag :: "'a::len word \<Rightarrow> 'a word" where
  "unzigzag v = drop_bit 1 v XOR - (v AND 1)"

lemma zigzag_widths:
  "i8_to_unsigned = zigzag" "i16_to_unsigned = zigzag" "i32_to_unsigned = zigzag" "i64_to_unsigned = zigzag"
  "u8_to_signed = unzigzag" "u16_to_signed = unzigzag" "u32_to_signed = unzigzag" "u64_to_signed = unzigzag"
  by (auto simp: fun_eq_iff zigzag_def unzigzag_def i8_to_unsigned_def i16_to_unsigned_def
      i32_to_unsigned_def i64_to_unsigned_def u8_to_signed_def u16_to_signed_def u32_to_signed_def
      u64_to_signed_def)

lemma minus_and_1: "- ((v :: 'a::len word) AND 1) = (if bit v 0 then - 1 else 0)"
  by (simp add: and_one_eq mod_2_eq_odd bit_0)

lemma sign_shift: "signed_drop_bit (LENGTH('a) - 1) (v :: 'a::len word) =
    (if bit v (LENGTH('a) - 1) then - 1 else 0)"
proof (rule bit_word_eqI)
  fix n assume "n < LENGTH('a)"
  then show "bit (signed_drop_bit (LENGTH('a) - 1) v) n \<longleftrightarrow>
      bit (if bit v (LENGTH('a) - 1) then - 1 else 0 :: 'a word) n"
    by (cases n) (auto simp: bit_signed_drop_bit_iff)
qed

lemma bit_zigzag:
  "n < LENGTH('a) \<Longrightarrow> bit (zigzag (v :: 'a::len word)) n \<longleftrightarrow>
    (bit v (LENGTH('a) - 1) \<noteq> (n \<noteq> 0 \<and> bit v (n - 1)))"
  unfolding zigzag_def sign_shift bit_xor_iff bit_push_bit_iff by auto

lemma bit_unzigzag:
  "n < LENGTH('a) \<Longrightarrow> bit (unzigzag (v :: 'a::len word)) n \<longleftrightarrow> (bit v 0 \<noteq> bit v (n + 1))"
  unfolding unzigzag_def minus_and_1 by (auto simp: bit_xor_iff bit_drop_bit_eq)

lemma unzigzag_zigzag [simp]: "unzigzag (zigzag v) = v"
proof (rule bit_word_eqI)
  fix n assume n: "n < LENGTH('a)"
  show "bit (unzigzag (zigzag v)) n \<longleftrightarrow> bit v n"
  proof (cases "Suc n < LENGTH('a)")
    case True
    then show ?thesis using n by (auto simp: bit_unzigzag bit_zigzag)
  next
    case False
    then have "n = LENGTH('a) - 1" using n by simp
    moreover have "\<not> bit (zigzag v) (Suc n)" using False bit_word.rep_eq by (auto dest: bit_imp_le_length)
    ultimately show ?thesis using n by (auto simp: bit_unzigzag bit_zigzag)
  qed
qed

lemma zigzag_unzigzag [simp]: "zigzag (unzigzag v) = v"
proof (rule bit_word_eqI)
  fix n assume n: "n < LENGTH('a)"
  have top: "bit (unzigzag v) (LENGTH('a) - 1) \<longleftrightarrow> bit v 0"
    by (subst bit_unzigzag) (auto dest: bit_imp_le_length)
  show "bit (zigzag (unzigzag v)) n \<longleftrightarrow> bit v n"
    using n top by (cases n) (auto simp: bit_zigzag bit_unzigzag)
qed

lemma zigzag_inject [simp]: "zigzag v = zigzag w \<longleftrightarrow> v = w"
  by (metis unzigzag_zigzag)


lemma two_power_len: "(2::'b::semiring_1) ^ LENGTH('a::len) = 2 * 2 ^ (LENGTH('a) - 1)"
  by (simp flip: power_Suc)

lemma top_bit: "bit (v :: 'a::len word) (LENGTH('a) - 1) \<longleftrightarrow> 2 ^ (LENGTH('a) - 1) \<le> unat v"
proof -
  let ?H = "2 ^ (LENGTH('a) - 1) :: nat"
  have "bit v (LENGTH('a) - 1) \<longleftrightarrow> odd (unat v div ?H)"
  proof -
    have "bit v (LENGTH('a) - 1) \<longleftrightarrow> bit (unat v) (LENGTH('a) - 1)"
      by (simp add: bit_unsigned_iff)
    then show ?thesis by (simp only: bit_iff_odd [of "unat v"])
  qed
  also have "\<dots> \<longleftrightarrow> unat v div ?H = 1"
  proof -
    have "unat v div ?H < 2"
      using unat_lt [of v] two_power_len [where 'a = 'a and 'b = nat]
      by (simp add: div_less_iff_less_mult)
    then show ?thesis by (auto simp: less_2_cases_iff)
  qed
  also have "\<dots> \<longleftrightarrow> ?H \<le> unat v"
    using unat_lt [of v] two_power_len [where 'a = 'a and 'b = nat]
    by (auto simp: div_nat_eqI not_less dest: div_less intro: ccontr)
  finally show ?thesis .
qed

lemma take_bit_uint [simp]: "take_bit LENGTH('a) (uint (w :: 'a::len word)) = uint w"
  using uint_lt2p [of w] by (simp add: take_bit_int_eq_self)

lemma sint_unat: "sint (v :: 'a::len word) =
    int (unat v) - (if bit v (LENGTH('a) - 1) then 2 ^ LENGTH('a) else 0)"
proof -
  have "sint v = signed_take_bit (LENGTH('a) - 1) (uint v)" by (simp add: sint_uint)
  also have "\<dots> = take_bit LENGTH('a) (uint v) - (if bit v (LENGTH('a) - 1) then 2 ^ LENGTH('a) else 0)"
    using signed_take_bit_eq_take_bit_minus [of "LENGTH('a) - 1" "uint v"]
    by (simp add: bit_uint_iff)
  also have "take_bit LENGTH('a) (uint v) = int (unat v)"
    using uint_lt2p [of v] by (simp add: take_bit_int_eq_self)
  finally show ?thesis .
qed


lemma unat_double: "unat (push_bit 1 (v :: 'a::len word)) =
    2 * unat v - (if bit v (LENGTH('a) - 1) then 2 ^ LENGTH('a) else 0)"
proof -
  have "unat (push_bit 1 v) = (2 * unat v) mod 2 ^ LENGTH('a)"
    by (simp add: unat_word_ariths mult.commute mod_simps)
  also have "\<dots> = 2 * unat v - (if bit v (LENGTH('a) - 1) then 2 ^ LENGTH('a) else 0)"
    using unat_lt [of v] two_power_len [where 'a = 'a and 'b = nat] unfolding top_bit
    by (auto simp: mod_if not_le)
  finally show ?thesis .
qed

text \<open>What zig-zag computes: \<open>0, -1, 1, -2, 2, ...\<close> become \<open>0, 1, 2, 3, 4, ...\<close>\<close>

lemma uint_zigzag: "int (unat (zigzag v)) = (if 0 \<le> sint v then 2 * sint v else - 2 * sint v - 1)"
proof (cases "bit v (LENGTH('a) - 1)")
  case True
  have neg: "sint v < 0" using sint_unat [of v] True unat_lt [of v] by simp
  have "zigzag v = NOT (push_bit 1 v)" unfolding zigzag_def sign_shift using True by simp
  then have "int (unat (zigzag v)) = 2 ^ LENGTH('a) - 1 - int (unat (push_bit 1 v))"
    by (simp add: unsigned_not_eq take_bit_not_eq_mask_diff mask_eq_exp_minus_1 of_nat_diff)
  moreover have "int (unat (push_bit 1 v)) = 2 * int (unat v) - 2 ^ LENGTH('a)"
  proof -
    have "2 ^ LENGTH('a) \<le> 2 * unat v"
      using True two_power_len [where 'a = 'a and 'b = nat] unfolding top_bit by simp
    then show ?thesis unfolding unat_double using True by (simp only: if_True of_nat_diff) simp
  qed
  moreover have "sint v = int (unat v) - 2 ^ LENGTH('a)" unfolding sint_unat using True by simp
  ultimately have "int (unat (zigzag v)) = - 2 * sint v - 1" by linarith
  then show ?thesis using neg by simp
next
  case False
  then have "zigzag v = push_bit 1 v" unfolding zigzag_def sign_shift by simp
  then show ?thesis using False sint_unat [of v] unat_double [of v] by simp
qed


section \<open>The codec of the macro \<^verbatim>\<open>varint!\<close>\<close>

definition varint_decode_value ::
    "(u64 \<Rightarrow> 'v outcome) \<Rightarrow> 'v \<Rightarrow> bytes capped \<Rightarrow> decode_context \<Rightarrow> ('v \<times> bytes capped) outcome" where
  "varint_decode_value from_uint64 v cp ctx =
    obind (capped_decode_varint slice_ops cp) (\<lambda>(n, cp).
      obind (from_uint64 n) (\<lambda>v. Done (v, cp)))"

text \<open>Decoders that have nothing to validate run the relaxed decoder and report \<open>Canonical\<close>.\<close>

definition always_canonical ::
    "('v \<Rightarrow> bytes capped \<Rightarrow> decode_context \<Rightarrow> ('v \<times> bytes capped) outcome) \<Rightarrow>
     bool \<Rightarrow> 'v \<Rightarrow> bytes capped \<Rightarrow> restricted_context \<Rightarrow> ('v \<times> canonicity \<times> bytes capped) outcome" where
  "always_canonical dec allow_empty v cp ctx =
    obind (dec v cp (into_inner ctx)) (\<lambda>(v, cp). Done (v, Canonical, cp))"

definition varint_codec ::
    "'r rev_ops \<Rightarrow> 'v \<Rightarrow> ('v \<Rightarrow> u64) \<Rightarrow> (u64 \<Rightarrow> 'v outcome) \<Rightarrow> ('v, 'r) codec" where
  "varint_codec rops d to_uint64 from_uint64 = \<lparr>
     c_wire = WtVarint,
     c_for_overwrite = d,
     c_encode = (\<lambda>v buf. Some (encode_varint (to_uint64 v) buf)),
     c_prepend = (\<lambda>v. prepend_varint rops (to_uint64 v)),
     c_len = (\<lambda>v. encoded_len_varint (to_uint64 v)),
     c_many_len = many_values_encoded_len WtVarint (\<lambda>v. encoded_len_varint (to_uint64 v)),
     c_decode = varint_decode_value from_uint64,
     c_checks_empty = False,
     c_decode_dist = always_canonical (varint_decode_value from_uint64)\<rparr>"

text \<open>\<^verbatim>\<open>try_from\<close> of a \<^verbatim>\<open>u64\<close>, and \<^verbatim>\<open>NonZero::new\<close>.\<close>

definition word_try_from :: "u64 \<Rightarrow> 'a::len word outcome" where
  "word_try_from v = (if unat v < 2 ^ LENGTH('a) then Done (ucast v) else Fail OutOfDomainValue)"

definition nonzero_new :: "'a::len word \<Rightarrow> 'a word outcome" where
  "nonzero_new v = (if v = 0 then Fail InvalidValue else Done v)"

definition bool_from_u64 :: "u64 \<Rightarrow> bool outcome" where
  "bool_from_u64 v = (if v = 0 then Done False else if v = 1 then Done True else Fail OutOfDomainValue)"

definition varint_bool :: "'r rev_ops \<Rightarrow> (bool, 'r) codec" where
  "varint_bool rops = varint_codec rops False (\<lambda>b. if b then 1 else 0) bool_from_u64"

definition varint_u8 :: "'r rev_ops \<Rightarrow> (u8, 'r) codec" where
  "varint_u8 rops = varint_codec rops 0 ucast word_try_from"

definition varint_nonzerou8 :: "'r rev_ops \<Rightarrow> (u8, 'r) codec" where
  "varint_nonzerou8 rops = varint_codec rops 1 ucast (\<lambda>v. obind (word_try_from v) nonzero_new)"

definition varint_u16 :: "'r rev_ops \<Rightarrow> (u16, 'r) codec" where
  "varint_u16 rops = varint_codec rops 0 ucast word_try_from"

definition varint_nonzerou16 :: "'r rev_ops \<Rightarrow> (u16, 'r) codec" where
  "varint_nonzerou16 rops = varint_codec rops 1 ucast (\<lambda>v. obind (word_try_from v) nonzero_new)"

definition varint_u32 :: "'r rev_ops \<Rightarrow> (u32, 'r) codec" where
  "varint_u32 rops = varint_codec rops 0 ucast word_try_from"

definition varint_nonzerou32 :: "'r rev_ops \<Rightarrow> (u32, 'r) codec" where
  "varint_nonzerou32 rops = varint_codec rops 1 ucast (\<lambda>v. obind (word_try_from v) nonzero_new)"

definition varint_u64 :: "'r rev_ops \<Rightarrow> (u64, 'r) codec" where
  "varint_u64 rops = varint_codec rops 0 (\<lambda>v. v) Done"

definition varint_nonzerou64 :: "'r rev_ops \<Rightarrow> (u64, 'r) codec" where
  "varint_nonzerou64 rops = varint_codec rops 1 (\<lambda>v. v) nonzero_new"

text \<open>\<^verbatim>\<open>usize\<close> and \<^verbatim>\<open>isize\<close> have 64 bits.\<close>

definition varint_usize :: "'r rev_ops \<Rightarrow> (u64, 'r) codec" where
  "varint_usize rops = varint_codec rops 0 ucast word_try_from"

definition varint_nonzerousize :: "'r rev_ops \<Rightarrow> (u64, 'r) codec" where
  "varint_nonzerousize rops = varint_codec rops 1 ucast (\<lambda>v. obind (word_try_from v) nonzero_new)"

definition varint_i8 :: "'r rev_ops \<Rightarrow> (u8, 'r) codec" where
  "varint_i8 rops = varint_codec rops 0 (\<lambda>v. ucast (i8_to_unsigned v))
     (\<lambda>v. obind (word_try_from v) (\<lambda>v. Done (u8_to_signed v)))"

definition varint_nonzeroi8 :: "'r rev_ops \<Rightarrow> (u8, 'r) codec" where
  "varint_nonzeroi8 rops = varint_codec rops 1 (\<lambda>v. ucast (i8_to_unsigned v))
     (\<lambda>v. obind (word_try_from v) (\<lambda>v. nonzero_new (u8_to_signed v)))"

definition varint_i16 :: "'r rev_ops \<Rightarrow> (u16, 'r) codec" where
  "varint_i16 rops = varint_codec rops 0 (\<lambda>v. ucast (i16_to_unsigned v))
     (\<lambda>v. obind (word_try_from v) (\<lambda>v. Done (u16_to_signed v)))"

definition varint_nonzeroi16 :: "'r rev_ops \<Rightarrow> (u16, 'r) codec" where
  "varint_nonzeroi16 rops = varint_codec rops 1 (\<lambda>v. ucast (i16_to_unsigned v))
     (\<lambda>v. obind (word_try_from v) (\<lambda>v. nonzero_new (u16_to_signed v)))"

definition varint_i32 :: "'r rev_ops \<Rightarrow> (u32, 'r) codec" where
  "varint_i32 rops = varint_codec rops 0 (\<lambda>v. ucast (i32_to_unsigned v))
     (\<lambda>v. obind (word_try_from v) (\<lambda>v. Done (u32_to_signed v)))"

definition varint_nonzeroi32 :: "'r rev_ops \<Rightarrow> (u32, 'r) codec" where
  "varint_nonzeroi32 rops = varint_codec rops 1 (\<lambda>v. ucast (i32_to_unsigned v))
     (\<lambda>v. obind (word_try_from v) (\<lambda>v. nonzero_new (u32_to_signed v)))"

definition varint_i64 :: "'r rev_ops \<Rightarrow> (u64, 'r) codec" where
  "varint_i64 rops = varint_codec rops 0 i64_to_unsigned (\<lambda>v. Done (u64_to_signed v))"

definition varint_nonzeroi64 :: "'r rev_ops \<Rightarrow> (u64, 'r) codec" where
  "varint_nonzeroi64 rops = varint_codec rops 1 i64_to_unsigned (\<lambda>v. nonzero_new (u64_to_signed v))"

definition varint_isize :: "'r rev_ops \<Rightarrow> (u64, 'r) codec" where
  "varint_isize rops = varint_codec rops 0 i64_to_unsigned (\<lambda>v. Done (u64_to_signed v))"

definition varint_nonzeroisize :: "'r rev_ops \<Rightarrow> (u64, 'r) codec" where
  "varint_nonzeroisize rops = varint_codec rops 1 i64_to_unsigned
     (\<lambda>v. obind (Done (u64_to_signed v)) nonzero_new)"

section \<open>Its laws\<close>

text \<open>A pair of conversions that are inverse to each other where they succeed.\<close>

definition conversion :: "('v \<Rightarrow> bool) \<Rightarrow> ('v \<Rightarrow> u64) \<Rightarrow> (u64 \<Rightarrow> 'v outcome) \<Rightarrow> bool" where
  "conversion valid to_uint64 from_uint64 \<longleftrightarrow>
    (\<forall>v. valid v \<longrightarrow> from_uint64 (to_uint64 v) = Done v) \<and>
    (\<forall>n v. from_uint64 n = Done v \<longrightarrow> valid v \<and> to_uint64 v = n) \<and>
    (\<forall>n. from_uint64 n \<noteq> Panic)"

lemma conversionI:
  "(\<And>v. valid v \<Longrightarrow> from_uint64 (to_uint64 v) = Done v) \<Longrightarrow>
   (\<And>n v. from_uint64 n = Done v \<Longrightarrow> valid v \<and> to_uint64 v = n) \<Longrightarrow>
   (\<And>n. from_uint64 n \<noteq> Panic) \<Longrightarrow> conversion valid to_uint64 from_uint64"
  by (simp add: conversion_def)

lemma word_try_from_ucast [simp]: "LENGTH('a) \<le> 64 \<Longrightarrow> word_try_from (ucast (v :: 'a::len word)) = Done v"
proof -
  assume "LENGTH('a) \<le> 64"
  then have "unat v < 2 ^ 64" using unat_lt [of v] power_increasing [of "LENGTH('a)" 64 "2::nat"] by linarith
  then have "unat (ucast v :: u64) = unat v" by (simp add: unat_ucast)
  then show ?thesis
    using unat_lt [of v] by (simp add: word_try_from_def word_unat_eq_iff unat_ucast)
qed

lemma word_try_from_Done: "LENGTH('a) \<le> 64 \<Longrightarrow> word_try_from n = Done (v :: 'a::len word) \<Longrightarrow> n = ucast v"
proof -
  assume a: "LENGTH('a) \<le> 64" "word_try_from n = Done v"
  then have "unat v = unat n" by (auto simp: word_try_from_def unat_ucast split: if_splits)
  then show ?thesis using unat_less_u64 [of n] by (simp add: word_unat_eq_iff unat_ucast)
qed

lemma word_try_from_not_Panic [simp]: "word_try_from n \<noteq> Panic"
  by (simp add: word_try_from_def)

lemma nonzero_new_Done [simp]: "nonzero_new n = Done v \<longleftrightarrow> v = n \<and> n \<noteq> 0"
  by (auto simp: nonzero_new_def)

lemma nonzero_new_not_Panic [simp]: "nonzero_new n \<noteq> Panic"
  by (simp add: nonzero_new_def)

lemma varint_codec_laws:
  assumes r: "rev_buf_contract rops rcontents rinv" and conv: "conversion valid to_uint64 from_uint64"
  shows "distinguished_codec rops rcontents rinv (varint_codec rops d to_uint64 from_uint64)
    (\<lambda>v. varint_bytes (to_uint64 v)) valid (\<lambda>_. 0)"
proof -
  have fwd: "from_uint64 (to_uint64 v) = Done v" if "valid v" for v
    using conv that by (simp add: conversion_def)
  have bwd: "valid v \<and> to_uint64 v = n" if "from_uint64 n = Done v" for n v
    using conv that by (simp add: conversion_def)
  have np: "from_uint64 n \<noteq> Panic" for n
    using conv by (simp add: conversion_def)
  have prep: "\<exists>r'. prepend_varint rops v r = Some r' \<and> rinv r' \<and> rcontents r' = varint_bytes v @ rcontents r"
    if "rinv r" for v r
    using rev_buf_contract.prepends_varint [OF assms(1), of v] that
    by (simp add: rev_buf_contract.prepends_def [OF assms(1)] varint_bytes_def)
  show ?thesis
    by (intro distinguished_codec.intro value_codec.intro r value_codec_axioms.intro
        distinguished_codec_axioms.intro)
      (auto simp: varint_codec_def encode_varint_bytes encoded_len_varint_bytes many_values_encoded_len_def
        varint_decode_value_def always_canonical_def fwd prep np obind_Panic_iff
        dest: bwd intro: exI [of _ "varint_bytes _"])
qed


section \<open>The instances\<close>

lemma conversion_word: "LENGTH('a) \<le> 64 \<Longrightarrow>
    conversion (\<lambda>_. True) (ucast :: 'a::len word \<Rightarrow> u64) word_try_from"
  by (rule conversionI) (auto dest: word_try_from_Done)

lemma conversion_nonzero: "LENGTH('a) \<le> 64 \<Longrightarrow>
    conversion (\<lambda>v. v \<noteq> 0) (ucast :: 'a::len word \<Rightarrow> u64) (\<lambda>v. obind (word_try_from v) nonzero_new)"
  by (rule conversionI) (auto simp: obind_Panic_iff nonzero_new_def dest: word_try_from_Done)

lemma conversion_zigzag: "LENGTH('a) \<le> 64 \<Longrightarrow>
    conversion (\<lambda>_. True) (\<lambda>v. ucast (zigzag (v :: 'a::len word)) :: u64)
      (\<lambda>v. obind (word_try_from v) (\<lambda>v. Done (unzigzag v)))"
  by (rule conversionI) (auto simp: obind_Panic_iff dest: word_try_from_Done)

lemma conversion_nonzero_zigzag: "LENGTH('a) \<le> 64 \<Longrightarrow>
    conversion (\<lambda>v. v \<noteq> 0) (\<lambda>v. ucast (zigzag (v :: 'a::len word)) :: u64)
      (\<lambda>v. obind (word_try_from v) (\<lambda>v. nonzero_new (unzigzag v)))"
  by (rule conversionI) (auto simp: obind_Panic_iff nonzero_new_def dest: word_try_from_Done)

lemma conversion_bool: "conversion (\<lambda>_. True) (\<lambda>b. if b then 1 else 0) bool_from_u64"
  by (rule conversionI) (auto simp: bool_from_u64_def split: if_splits)

lemma conversion_u64: "conversion (\<lambda>_. True) (\<lambda>v. v) Done"
  by (rule conversionI) auto

lemma conversion_nonzero_u64: "conversion (\<lambda>v. v \<noteq> 0) (\<lambda>v. v) nonzero_new"
  by (rule conversionI) (auto simp: nonzero_new_def)

lemma conversion_i64: "conversion (\<lambda>_. True) zigzag (\<lambda>v. Done (unzigzag v))"
  by (rule conversionI) auto

lemma conversion_nonzero_i64: "conversion (\<lambda>v. v \<noteq> 0) zigzag (\<lambda>v. nonzero_new (unzigzag v))"
  by (rule conversionI) (auto simp: nonzero_new_def)

lemmas varint_codec_defs = varint_bool_def varint_u8_def varint_nonzerou8_def varint_u16_def
  varint_nonzerou16_def varint_u32_def varint_nonzerou32_def varint_u64_def varint_nonzerou64_def
  varint_usize_def varint_nonzerousize_def varint_i8_def varint_nonzeroi8_def varint_i16_def
  varint_nonzeroi16_def varint_i32_def varint_nonzeroi32_def varint_i64_def varint_nonzeroi64_def
  varint_isize_def varint_nonzeroisize_def

context rev_buf_contract
begin

text \<open>The codecs of the macro, with the set of values of each type.\<close>

lemma varint_laws:
  "distinguished_codec rops rcontents rinv (varint_bool rops) (\<lambda>b. varint_bytes (if b then 1 else 0)) (\<lambda>_. True) (\<lambda>_. 0)"
  "distinguished_codec rops rcontents rinv (varint_u8 rops) (\<lambda>v. varint_bytes (ucast v)) (\<lambda>_. True) (\<lambda>_. 0)"
  "distinguished_codec rops rcontents rinv (varint_nonzerou8 rops) (\<lambda>v. varint_bytes (ucast v)) (\<lambda>v. v \<noteq> 0) (\<lambda>_. 0)"
  "distinguished_codec rops rcontents rinv (varint_u16 rops) (\<lambda>v. varint_bytes (ucast v)) (\<lambda>_. True) (\<lambda>_. 0)"
  "distinguished_codec rops rcontents rinv (varint_nonzerou16 rops) (\<lambda>v. varint_bytes (ucast v)) (\<lambda>v. v \<noteq> 0) (\<lambda>_. 0)"
  "distinguished_codec rops rcontents rinv (varint_u32 rops) (\<lambda>v. varint_bytes (ucast v)) (\<lambda>_. True) (\<lambda>_. 0)"
  "distinguished_codec rops rcontents rinv (varint_nonzerou32 rops) (\<lambda>v. varint_bytes (ucast v)) (\<lambda>v. v \<noteq> 0) (\<lambda>_. 0)"
  "distinguished_codec rops rcontents rinv (varint_u64 rops) (\<lambda>v. varint_bytes v) (\<lambda>_. True) (\<lambda>_. 0)"
  "distinguished_codec rops rcontents rinv (varint_nonzerou64 rops) (\<lambda>v. varint_bytes v) (\<lambda>v. v \<noteq> 0) (\<lambda>_. 0)"
  "distinguished_codec rops rcontents rinv (varint_usize rops) (\<lambda>v. varint_bytes (ucast v)) (\<lambda>_. True) (\<lambda>_. 0)"
  "distinguished_codec rops rcontents rinv (varint_nonzerousize rops) (\<lambda>v. varint_bytes (ucast v)) (\<lambda>v. v \<noteq> 0) (\<lambda>_. 0)"
  unfolding varint_codec_defs
  by (rule varint_codec_laws [OF rev_buf_contract_axioms];
      rule conversion_bool conversion_word conversion_nonzero conversion_u64 conversion_nonzero_u64; simp)+

lemma varint_signed_laws:
  "distinguished_codec rops rcontents rinv (varint_i8 rops) (\<lambda>v. varint_bytes (ucast (zigzag v))) (\<lambda>_. True) (\<lambda>_. 0)"
  "distinguished_codec rops rcontents rinv (varint_nonzeroi8 rops) (\<lambda>v. varint_bytes (ucast (zigzag v))) (\<lambda>v. v \<noteq> 0) (\<lambda>_. 0)"
  "distinguished_codec rops rcontents rinv (varint_i16 rops) (\<lambda>v. varint_bytes (ucast (zigzag v))) (\<lambda>_. True) (\<lambda>_. 0)"
  "distinguished_codec rops rcontents rinv (varint_nonzeroi16 rops) (\<lambda>v. varint_bytes (ucast (zigzag v))) (\<lambda>v. v \<noteq> 0) (\<lambda>_. 0)"
  "distinguished_codec rops rcontents rinv (varint_i32 rops) (\<lambda>v. varint_bytes (ucast (zigzag v))) (\<lambda>_. True) (\<lambda>_. 0)"
  "distinguished_codec rops rcontents rinv (varint_nonzeroi32 rops) (\<lambda>v. varint_bytes (ucast (zigzag v))) (\<lambda>v. v \<noteq> 0) (\<lambda>_. 0)"
  "distinguished_codec rops rcontents rinv (varint_i64 rops) (\<lambda>v. varint_bytes (zigzag v)) (\<lambda>_. True) (\<lambda>_. 0)"
  "distinguished_codec rops rcontents rinv (varint_nonzeroi64 rops) (\<lambda>v. varint_bytes (zigzag v)) (\<lambda>v. v \<noteq> 0) (\<lambda>_. 0)"
  "distinguished_codec rops rcontents rinv (varint_isize rops) (\<lambda>v. varint_bytes (zigzag v)) (\<lambda>_. True) (\<lambda>_. 0)"
  "distinguished_codec rops rcontents rinv (varint_nonzeroisize rops) (\<lambda>v. varint_bytes (zigzag v)) (\<lambda>v. v \<noteq> 0) (\<lambda>_. 0)"
  unfolding varint_codec_defs zigzag_widths obind.simps
  by (rule varint_codec_laws [OF rev_buf_contract_axioms];
      rule conversion_zigzag conversion_nonzero_zigzag conversion_i64 conversion_nonzero_i64; simp)+

end

end
