(* ===== verification/Fixed.thy ===== *)
theory Fixed
  imports Varint_Values
begin

text \<open>
  The \<^verbatim>\<open>Fixed\<close> encoding of \<^verbatim>\<open>src/src/encoding/fixed.rs\<close>: integers and floats of 32 and 64 bits as
  little-endian bytes, and byte arrays of these sizes. A float is the word of its bits. Floats have
  no distinguished decoder in the code; that field of their dictionary is \<open>not_implemented\<close>.
\<close>

definition prepend_le :: "nat \<Rightarrow> 'r rev_ops \<Rightarrow> 'a::len word \<Rightarrow> 'r \<Rightarrow> 'r option" where
  "prepend_le sz rops n buf = r_prepend_array rops (le_bytes sz n) buf"

text \<open>\<^verbatim>\<open>get_u32_le\<close> and its companions read the size of the type, or panic.\<close>

definition get_le :: "nat \<Rightarrow> bytes capped \<Rightarrow> ('a::len word \<times> bytes capped) outcome" where
  "get_le sz cp =
    (if sz \<le> length (cap_buf cp)
     then Done (le_word (take sz (cap_buf cp)), cp\<lparr>cap_buf := drop sz (cap_buf cp)\<rparr>) else Panic)"

definition unwrap_size :: "wire_type \<Rightarrow> nat" where
  "unwrap_size wt = (case fixed_size wt of Some n \<Rightarrow> n | None \<Rightarrow> 0)"

definition fixed_decode_value ::
    "wire_type \<Rightarrow> ('a::len word \<Rightarrow> 'v outcome) \<Rightarrow> 'v \<Rightarrow> bytes capped \<Rightarrow> decode_context \<Rightarrow>
     ('v \<times> bytes capped) outcome" where
  "fixed_decode_value wt set_value v cp ctx =
    (if remaining_before_cap slice_ops cp < unwrap_size wt then Fail Truncated
     else obind (get_le (unwrap_size wt) cp) (\<lambda>(n, cp).
       obind (set_value n) (\<lambda>v. Done (v, cp))))"

definition not_implemented :: "bool \<Rightarrow> 'v \<Rightarrow> bytes capped \<Rightarrow> restricted_context \<Rightarrow>
    ('v \<times> canonicity \<times> bytes capped) outcome" where
  "not_implemented allow_empty v cp ctx = Panic"

text \<open>\<^verbatim>\<open>fixed_width_common!\<close>; \<open>sz\<close> is the size of the integer type.\<close>

definition fixed_width_common ::
    "nat \<Rightarrow> 'r rev_ops \<Rightarrow> wire_type \<Rightarrow> 'v \<Rightarrow> ('v \<Rightarrow> 'a::len word) \<Rightarrow> ('a word \<Rightarrow> 'v outcome) \<Rightarrow>
     ('v, 'r) codec" where
  "fixed_width_common sz rops wt d get_value set_value = \<lparr>
     c_wire = wt,
     c_for_overwrite = d,
     c_encode = (\<lambda>v buf. Some (buf @ le_bytes sz (get_value v))),
     c_prepend = (\<lambda>v. prepend_le sz rops (get_value v)),
     c_len = (\<lambda>v. unwrap_size wt),
     c_many_len = many_values_encoded_len wt (\<lambda>v. unwrap_size wt),
     c_decode = fixed_decode_value wt set_value,
     c_checks_empty = False,
     c_decode_dist = not_implemented\<rparr>"

definition fixed_width_int ::
    "nat \<Rightarrow> 'r rev_ops \<Rightarrow> wire_type \<Rightarrow> 'v \<Rightarrow> ('v \<Rightarrow> 'a::len word) \<Rightarrow> ('a word \<Rightarrow> 'v outcome) \<Rightarrow>
     ('v, 'r) codec" where
  "fixed_width_int sz rops wt d get_value set_value =
    (fixed_width_common sz rops wt d get_value set_value)
      \<lparr>c_decode_dist := always_canonical (fixed_decode_value wt set_value)\<rparr>"

definition fixed_array_decode_value ::
    "nat \<Rightarrow> bytes \<Rightarrow> bytes capped \<Rightarrow> decode_context \<Rightarrow> (bytes \<times> bytes capped) outcome" where
  "fixed_array_decode_value N v cp ctx =
    (if b_remaining slice_ops (cap_buf cp) < N then Fail Truncated
     else obind (from_option (b_copy slice_ops N (cap_buf cp))) (\<lambda>(bs, b).
       Done (bs, cp\<lparr>cap_buf := b\<rparr>)))"

definition fixed_width_array :: "nat \<Rightarrow> 'r rev_ops \<Rightarrow> wire_type \<Rightarrow> (bytes, 'r) codec" where
  "fixed_width_array N rops wt = \<lparr>
     c_wire = wt,
     c_for_overwrite = replicate N 0,
     c_encode = (\<lambda>v buf. Some (buf @ v)),
     c_prepend = r_prepend_slice rops,
     c_len = (\<lambda>v. N),
     c_many_len = many_values_encoded_len wt (\<lambda>v. N),
     c_decode = fixed_array_decode_value N,
     c_checks_empty = False,
     c_decode_dist = always_canonical (fixed_array_decode_value N)\<rparr>"

definition fixed_f32 :: "'r rev_ops \<Rightarrow> (u32, 'r) codec" where
  "fixed_f32 rops = fixed_width_common 4 rops WtThirtyTwoBit 0 (\<lambda>v. v) Done"

definition fixed_f64 :: "'r rev_ops \<Rightarrow> (u64, 'r) codec" where
  "fixed_f64 rops = fixed_width_common 8 rops WtSixtyFourBit 0 (\<lambda>v. v) Done"

definition fixed_u32 :: "'r rev_ops \<Rightarrow> (u32, 'r) codec" where
  "fixed_u32 rops = fixed_width_int 4 rops WtThirtyTwoBit 0 (\<lambda>v. v) Done"

definition fixed_nonzerou32 :: "'r rev_ops \<Rightarrow> (u32, 'r) codec" where
  "fixed_nonzerou32 rops = fixed_width_int 4 rops WtThirtyTwoBit 1 (\<lambda>v. v) nonzero_new"

definition fixed_u64 :: "'r rev_ops \<Rightarrow> (u64, 'r) codec" where
  "fixed_u64 rops = fixed_width_int 8 rops WtSixtyFourBit 0 (\<lambda>v. v) Done"

definition fixed_nonzerou64 :: "'r rev_ops \<Rightarrow> (u64, 'r) codec" where
  "fixed_nonzerou64 rops = fixed_width_int 8 rops WtSixtyFourBit 1 (\<lambda>v. v) nonzero_new"

definition fixed_i32 :: "'r rev_ops \<Rightarrow> (u32, 'r) codec" where
  "fixed_i32 rops = fixed_width_int 4 rops WtThirtyTwoBit 0 (\<lambda>v. v) Done"

definition fixed_nonzeroi32 :: "'r rev_ops \<Rightarrow> (u32, 'r) codec" where
  "fixed_nonzeroi32 rops = fixed_width_int 4 rops WtThirtyTwoBit 1 (\<lambda>v. v) nonzero_new"

definition fixed_i64 :: "'r rev_ops \<Rightarrow> (u64, 'r) codec" where
  "fixed_i64 rops = fixed_width_int 8 rops WtSixtyFourBit 0 (\<lambda>v. v) Done"

definition fixed_nonzeroi64 :: "'r rev_ops \<Rightarrow> (u64, 'r) codec" where
  "fixed_nonzeroi64 rops = fixed_width_int 8 rops WtSixtyFourBit 1 (\<lambda>v. v) nonzero_new"

definition fixed_u8_4 :: "'r rev_ops \<Rightarrow> (bytes, 'r) codec" where
  "fixed_u8_4 rops = fixed_width_array 4 rops WtThirtyTwoBit"

definition fixed_u8_8 :: "'r rev_ops \<Rightarrow> (bytes, 'r) codec" where
  "fixed_u8_8 rops = fixed_width_array 8 rops WtSixtyFourBit"

section \<open>Little-endian words\<close>

lemma le_word_le_bytes [simp]: "LENGTH('a) = 8 * n \<Longrightarrow> le_word (le_bytes n w) = (w :: 'a::len word)"
proof -
  assume "LENGTH('a) = 8 * n"
  then have "(256::nat) ^ n = 2 ^ LENGTH('a)" by (simp add: power_mult)
  then show ?thesis
    using unat_lt [of w] by (simp add: le_word_def le_nat_le_bytes)
qed

lemma le_bytes_le_word [simp]:
  assumes "LENGTH('a) = 8 * length bs"
  shows "le_bytes (length bs) (le_word bs :: 'a::len word) = bs"
proof (rule le_bytes_inject)
  have "(256::nat) ^ length bs = 2 ^ LENGTH('a)" using assms by (simp add: power_mult)
  then show "le_nat (le_bytes (length bs) (le_word bs :: 'a word)) = le_nat bs"
    using le_nat_less [of bs] by (simp add: le_word_def le_nat_le_bytes unat_of_nat)
qed simp

section \<open>The laws\<close>

lemma fixed_codec_laws:
  fixes get_value :: "'v \<Rightarrow> 'a::len word"
  assumes r: "rev_buf_contract rops rcontents rinv"
    and wt: "fixed_size wt = Some sz" and sz: "LENGTH('a) = 8 * sz" "0 < sz"
    and fwd: "\<And>v. valid v \<Longrightarrow> set_value (get_value v) = Done v"
    and bwd: "\<And>n v. set_value n = Done v \<Longrightarrow> valid v \<and> get_value v = n"
    and np: "\<And>n. set_value n \<noteq> Panic"
  shows "value_codec rops rcontents rinv (fixed_width_common sz rops wt d get_value set_value)
      (\<lambda>v. le_bytes sz (get_value v)) valid (\<lambda>_. 0)"
    and "distinguished_codec rops rcontents rinv (fixed_width_int sz rops wt d get_value set_value)
      (\<lambda>v. le_bytes sz (get_value v)) valid (\<lambda>_. 0)"
proof -
  have un: "unwrap_size wt = sz" using wt by (simp add: unwrap_size_def)
  have ne: "le_bytes sz w \<noteq> []" for w :: "'a word" using sz(2) by (cases sz) auto
  have frame: "\<exists>p. p \<noteq> [] \<and> b = p @ drop sz b" if "sz \<le> length b" for b :: bytes
    using that sz(2) by (intro exI [of _ "take sz b"]) (cases b; simp)
  have len: "sum_list (map (\<lambda>v. sz) vs) = sz * length vs" for vs :: "'v list"
    by (simp add: sum_list_triv mult.commute)
  have prep: "rinv r \<Longrightarrow> \<exists>r'. prepend_le sz rops w r = Some r' \<and> rinv r' \<and>
      rcontents r' = le_bytes sz w @ rcontents r" for w :: "'a word" and r
    using rev_buf_contract.r_prepend_array [OF r] by (simp add: prepend_le_def)
  have same: "le_bytes sz (le_word (take sz b) :: 'a word) @ drop sz b = b" if "sz \<le> length b" for b
    using le_bytes_le_word [where 'a = 'a, of "take sz b"] that sz(1) by simp
  have vc: "value_codec rops rcontents rinv
      (fixed_width_common sz rops wt d get_value set_value\<lparr>c_decode_dist := dd\<rparr>)
      (\<lambda>v. le_bytes sz (get_value v)) valid (\<lambda>_. 0)" for dd
    by (intro value_codec.intro r value_codec_axioms.intro)
      (auto simp: fixed_width_common_def un wt ne len prep many_values_encoded_len_def
        fixed_decode_value_def get_le_def sz fwd np obind_Panic_iff frame dest: bwd)
  show "value_codec rops rcontents rinv (fixed_width_common sz rops wt d get_value set_value)
      (\<lambda>v. le_bytes sz (get_value v)) valid (\<lambda>_. 0)"
    using vc [of not_implemented] by (simp add: fixed_width_common_def)
  show "distinguished_codec rops rcontents rinv (fixed_width_int sz rops wt d get_value set_value)
      (\<lambda>v. le_bytes sz (get_value v)) valid (\<lambda>_. 0)"
    unfolding fixed_width_int_def
    by (intro distinguished_codec.intro vc distinguished_codec_axioms.intro)
      (auto simp: fixed_width_common_def always_canonical_def un wt get_le_def fwd np same sz
        fixed_decode_value_def obind_Panic_iff dest!: bwd)
qed

lemma fixed_array_laws:
  assumes r: "rev_buf_contract rops rcontents rinv" and wt: "fixed_size wt = Some N" "0 < N"
  shows "distinguished_codec rops rcontents rinv (fixed_width_array N rops wt)
    (\<lambda>v. v) (\<lambda>v. length v = N) (\<lambda>_. 0)"
proof -
  have frame: "\<exists>p. p \<noteq> [] \<and> b = p @ drop N b" if "N \<le> length b" for b :: bytes
    using that wt(2) by (intro exI [of _ "take N b"]) (cases b; simp)
  have len: "\<forall>v \<in> set vs. length v = N \<Longrightarrow> sum_list (map length vs) = N * length vs" for vs :: "bytes list"
    by (induction vs) auto
  show ?thesis
    by (intro distinguished_codec.intro value_codec.intro r value_codec_axioms.intro
        distinguished_codec_axioms.intro)
      (use wt in \<open>auto simp: fixed_width_array_def len many_values_encoded_len_def
        fixed_array_decode_value_def always_canonical_def obind_Panic_iff frame
        rev_buf_contract.r_prepend_slice [OF r]\<close>)
qed

lemmas fixed_codec_defs = fixed_f32_def fixed_f64_def fixed_u32_def fixed_nonzerou32_def fixed_u64_def
  fixed_nonzerou64_def fixed_i32_def fixed_nonzeroi32_def fixed_i64_def fixed_nonzeroi64_def
  fixed_u8_4_def fixed_u8_8_def

context rev_buf_contract
begin

lemma fixed_float_laws:
  "value_codec rops rcontents rinv (fixed_f32 rops) (le_bytes 4) (\<lambda>_. True) (\<lambda>_. 0)"
  "value_codec rops rcontents rinv (fixed_f64 rops) (le_bytes 8) (\<lambda>_. True) (\<lambda>_. 0)"
  unfolding fixed_codec_defs
  by (rule fixed_codec_laws(1) [OF rev_buf_contract_axioms]; simp)+

lemma fixed_laws:
  "distinguished_codec rops rcontents rinv (fixed_u32 rops) (le_bytes 4) (\<lambda>_. True) (\<lambda>_. 0)"
  "distinguished_codec rops rcontents rinv (fixed_nonzerou32 rops) (le_bytes 4) (\<lambda>v. v \<noteq> 0) (\<lambda>_. 0)"
  "distinguished_codec rops rcontents rinv (fixed_u64 rops) (le_bytes 8) (\<lambda>_. True) (\<lambda>_. 0)"
  "distinguished_codec rops rcontents rinv (fixed_nonzerou64 rops) (le_bytes 8) (\<lambda>v. v \<noteq> 0) (\<lambda>_. 0)"
  "distinguished_codec rops rcontents rinv (fixed_i32 rops) (le_bytes 4) (\<lambda>_. True) (\<lambda>_. 0)"
  "distinguished_codec rops rcontents rinv (fixed_nonzeroi32 rops) (le_bytes 4) (\<lambda>v. v \<noteq> 0) (\<lambda>_. 0)"
  "distinguished_codec rops rcontents rinv (fixed_i64 rops) (le_bytes 8) (\<lambda>_. True) (\<lambda>_. 0)"
  "distinguished_codec rops rcontents rinv (fixed_nonzeroi64 rops) (le_bytes 8) (\<lambda>v. v \<noteq> 0) (\<lambda>_. 0)"
  unfolding fixed_codec_defs
  by (rule fixed_codec_laws(2) [OF rev_buf_contract_axioms]; simp add: nonzero_new_def)+

lemma fixed_array_instances:
  "distinguished_codec rops rcontents rinv (fixed_u8_4 rops) (\<lambda>v. v) (\<lambda>v. length v = 4) (\<lambda>_. 0)"
  "distinguished_codec rops rcontents rinv (fixed_u8_8 rops) (\<lambda>v. v) (\<lambda>v. length v = 8) (\<lambda>_. 0)"
  unfolding fixed_codec_defs
  by (rule fixed_array_laws [OF rev_buf_contract_axioms]; simp)+

end

end
