(* ===== verification/Plain_Bytes.thy ===== *)
theory Plain_Bytes
  imports Fixed
begin

text \<open>
  The \<^verbatim>\<open>PlainBytes\<close> encoding of \<^verbatim>\<open>src/src/encoding/plain_bytes.rs\<close>: byte strings as length-delimited
  blobs, for \<^verbatim>\<open>Vec<u8>\<close>, borrowed slices, arrays of a fixed size and borrowed arrays.
\<close>

definition plain_bytes_encode :: "bytes \<Rightarrow> bytes \<Rightarrow> bytes option" where
  "plain_bytes_encode v buf = Some (encode_varint (of_nat (length v)) buf @ v)"

definition plain_bytes_prepend :: "'r rev_ops \<Rightarrow> bytes \<Rightarrow> 'r \<Rightarrow> 'r option" where
  "plain_bytes_prepend rops v buf = do {
     buf \<leftarrow> r_prepend_slice rops v buf;
     prepend_varint rops (of_nat (length v)) buf
   }"

definition plain_bytes_len :: "bytes \<Rightarrow> nat" where
  "plain_bytes_len v = encoded_len_varint (of_nat (length v)) + length v"

text \<open>Reading \<open>n\<close> bytes out of a capped slice.\<close>

definition cap_copy :: "nat \<Rightarrow> bytes capped \<Rightarrow> (bytes \<times> bytes capped) outcome" where
  "cap_copy n cp =
    obind (from_option (b_copy slice_ops n (cap_buf cp))) (\<lambda>(bs, b). Done (bs, cp\<lparr>cap_buf := b\<rparr>))"

definition vec_u8_decode :: "bytes \<Rightarrow> bytes capped \<Rightarrow> decode_context \<Rightarrow> (bytes \<times> bytes capped) outcome" where
  "vec_u8_decode v cp ctx =
    obind (take_length_delimited slice_ops cp) (\<lambda>inner.
      obind (cap_copy (remaining_before_cap slice_ops inner) inner) (\<lambda>(bs, inner).
        Done (bs, cap_outer cp inner)))"

definition bytes_borrow_decode :: "bytes \<Rightarrow> bytes capped \<Rightarrow> decode_context \<Rightarrow> (bytes \<times> bytes capped) outcome" where
  "bytes_borrow_decode v cp ctx = take_borrowed_length_delimited cp"

definition plain_bytes_codec ::
    "'r rev_ops \<Rightarrow> (bytes \<Rightarrow> bytes capped \<Rightarrow> decode_context \<Rightarrow> (bytes \<times> bytes capped) outcome) \<Rightarrow>
     (bytes, 'r) codec" where
  "plain_bytes_codec rops dec = \<lparr>
     c_wire = WtLengthDelimited,
     c_for_overwrite = [],
     c_encode = plain_bytes_encode,
     c_prepend = plain_bytes_prepend rops,
     c_len = plain_bytes_len,
     c_many_len = many_values_encoded_len WtLengthDelimited plain_bytes_len,
     c_decode = dec,
     c_checks_empty = False,
     c_decode_dist = always_canonical dec\<rparr>"

definition plain_vec_u8 :: "'r rev_ops \<Rightarrow> (bytes, 'r) codec" where
  "plain_vec_u8 rops = plain_bytes_codec rops vec_u8_decode"

definition plain_ref_bytes :: "'r rev_ops \<Rightarrow> (bytes, 'r) codec" where
  "plain_ref_bytes rops = plain_bytes_codec rops bytes_borrow_decode"

text \<open>Arrays of \<open>N\<close> bytes.\<close>

definition u8_array_decode ::
    "nat \<Rightarrow> bytes \<Rightarrow> bytes capped \<Rightarrow> decode_context \<Rightarrow> (bytes \<times> bytes capped) outcome" where
  "u8_array_decode N v cp ctx =
    obind (take_length_delimited slice_ops cp) (\<lambda>delimited.
      if remaining_before_cap slice_ops delimited \<noteq> N then Fail InvalidValue
      else obind (cap_copy N delimited) (\<lambda>(bs, inner). Done (bs, cap_outer cp inner)))"

definition ref_u8_array_borrow_decode ::
    "nat \<Rightarrow> bytes \<Rightarrow> bytes capped \<Rightarrow> decode_context \<Rightarrow> (bytes \<times> bytes capped) outcome" where
  "ref_u8_array_borrow_decode N v cp ctx =
    obind (take_borrowed_length_delimited cp) (\<lambda>(bs, cp).
      if length bs = N then Done (bs, cp) else Fail InvalidValue)"

definition plain_u8_array :: "nat \<Rightarrow> 'r rev_ops \<Rightarrow> (bytes, 'r) codec" where
  "plain_u8_array N rops = \<lparr>
     c_wire = WtLengthDelimited,
     c_for_overwrite = replicate N 0,
     c_encode = (\<lambda>v buf. Some (buf @ const_varint_deref (const_varint (of_nat N)) @ v)),
     c_prepend = (\<lambda>v buf. do {
        buf \<leftarrow> r_prepend_slice rops v buf;
        r_prepend_slice rops (const_varint_deref (const_varint (of_nat N))) buf
      }),
     c_len = (\<lambda>v. length (const_varint_deref (const_varint (of_nat N))) + N),
     c_many_len = (\<lambda>vs. length vs * (length (const_varint_deref (const_varint (of_nat N))) + N)),
     c_decode = u8_array_decode N,
     c_checks_empty = False,
     c_decode_dist = always_canonical (u8_array_decode N)\<rparr>"

definition plain_ref_u8_array :: "nat \<Rightarrow> 'r rev_ops \<Rightarrow> (bytes, 'r) codec" where
  "plain_ref_u8_array N rops = \<lparr>
     c_wire = WtLengthDelimited,
     c_for_overwrite = replicate N 0,
     c_encode = plain_bytes_encode,
     c_prepend = plain_bytes_prepend rops,
     c_len = plain_bytes_len,
     c_many_len = (\<lambda>vs. length vs * (length (const_varint_deref (const_varint (of_nat N))) + N)),
     c_decode = ref_u8_array_borrow_decode N,
     c_checks_empty = False,
     c_decode_dist = always_canonical (ref_u8_array_borrow_decode N)\<rparr>"

section \<open>The laws\<close>

definition delimited :: "bytes \<Rightarrow> bytes" where
  "delimited d = varint_bytes (of_nat (length d)) @ d"

lemma delimited_neq_Nil [simp]: "delimited d \<noteq> []"
  by (simp add: delimited_def)

lemma delimited_zero [simp]: "delimited d = [0] \<longleftrightarrow> d = []"
proof
  assume "delimited d = [0]"
  then have "length (varint_bytes (of_nat (length d))) + length d = 1"
    by (metis delimited_def length_append length_Cons list.size(3) One_nat_def)
  moreover have "0 < length (varint_bytes (of_nat (length d)))" by (rule length_varint_bytes)
  ultimately have "length d = 0" by linarith
  then show "d = []" by simp
qed (simp add: delimited_def varint_bytes_small)

lemma const_varint_bytes: "const_varint_deref (const_varint v) = varint_bytes v"
  by (simp add: const_varint_eq varint_bytes_def)

lemma cap_copy_slice [simp]:
  "cap_copy n cp = (if n \<le> length (cap_buf cp)
    then Done (take n (cap_buf cp), cp\<lparr>cap_buf := drop n (cap_buf cp)\<rparr>) else Panic)"
  by (simp add: cap_copy_def)

lemma cap_outer_simps [simp]:
  "cap_buf (cap_outer c d) = cap_buf d" "cap_extra (cap_outer c d) = cap_extra c"
  "cap_outer \<lparr>cap_buf = b, cap_extra = x\<rparr> d = \<lparr>cap_buf = cap_buf d, cap_extra = x\<rparr>"
  by (simp_all add: cap_outer_def)

lemma take_delimited_eq:
  "length d < 2 ^ 64 \<Longrightarrow> x \<le> length rest \<Longrightarrow>
   take_length_delimited slice_ops \<lparr>cap_buf = delimited d @ rest, cap_extra = x\<rparr> =
     Done \<lparr>cap_buf = d @ rest, cap_extra = length rest\<rparr>"
  by (auto simp: delimited_def intro!: exI [of _ "length d"])

lemma take_length_delimitedE:
  assumes "take_length_delimited slice_ops c = Done c'"
  obtains d rest where "cap_buf c = delimited d @ rest" "cap_buf c' = d @ rest" "length d < 2 ^ 64"
    "cap_extra c' = length rest" "cap_extra c \<le> length rest"
proof -
  from assms obtain n where n: "n < 2 ^ 64" "cap_buf c = varint_bytes (of_nat n) @ cap_buf c'"
    "n + cap_extra c' = length (cap_buf c')" "cap_extra c \<le> cap_extra c'" by auto
  have len: "length (take n (cap_buf c')) = n" using n by simp
  show thesis
    by (rule that [of "take n (cap_buf c')" "drop n (cap_buf c')"])
      (use n in \<open>auto simp: delimited_def len simp del: length_take\<close>)
qed

text \<open>The four decoders return the delimited bytes.\<close>

lemma vec_u8_decode_Done:
  "vec_u8_decode v cp ctx = Done (d, cp') \<longleftrightarrow>
    length d < 2 ^ 64 \<and> cap_buf cp = delimited d @ cap_buf cp' \<and> cap_extra cp' = cap_extra cp \<and>
    cap_extra cp \<le> length (cap_buf cp')"
  (is "?l \<longleftrightarrow> ?r")
proof
  assume ?l
  then obtain c' where c': "take_length_delimited slice_ops cp = Done c'"
    "obind (cap_copy (remaining_before_cap slice_ops c') c') (\<lambda>(bs, inner). Done (bs, cap_outer cp inner))
      = Done (d, cp')"
    by (auto simp: vec_u8_decode_def simp del: take_length_delimited_Done)
  then show ?r by (elim take_length_delimitedE) (auto simp: if_splits)
next
  assume r: ?r
  then have "take_length_delimited slice_ops cp = Done \<lparr>cap_buf = d @ cap_buf cp', cap_extra = length (cap_buf cp')\<rparr>"
    using take_delimited_eq [of d "cap_extra cp" "cap_buf cp'"] by (cases cp) simp
  then show ?l
    using r by (cases cp') (simp add: vec_u8_decode_def cap_outer_def del: take_length_delimited_Done)
qed

lemma bytes_borrow_decode_Done:
  "bytes_borrow_decode v cp ctx = Done (d, cp') \<longleftrightarrow>
    length d < 2 ^ 64 \<and> cap_buf cp = delimited d @ cap_buf cp' \<and> cap_extra cp' = cap_extra cp \<and>
    cap_extra cp \<le> length (cap_buf cp')"
  by (auto simp: bytes_borrow_decode_def delimited_def)


lemma u8_array_decode_Done:
  "u8_array_decode N v cp ctx = Done (d, cp') \<longleftrightarrow>
    length d = N \<and> vec_u8_decode v cp ctx = Done (d, cp')"
  by (auto simp: u8_array_decode_def vec_u8_decode_def simp del: take_length_delimited_Done split: if_splits)

lemma ref_u8_array_decode_Done:
  "ref_u8_array_borrow_decode N v cp ctx = Done (d, cp') \<longleftrightarrow>
    length d = N \<and> bytes_borrow_decode v cp ctx = Done (d, cp')"
  by (auto simp: ref_u8_array_borrow_decode_def bytes_borrow_decode_def simp del: take_borrowed_Done)

lemma bytes_decode_not_Panic [simp]:
  "vec_u8_decode v cp ctx \<noteq> Panic" "bytes_borrow_decode v cp ctx \<noteq> Panic"
  "u8_array_decode N v cp ctx \<noteq> Panic" "ref_u8_array_borrow_decode N v cp ctx \<noteq> Panic"
  by (auto simp: vec_u8_decode_def bytes_borrow_decode_def u8_array_decode_def
      ref_u8_array_borrow_decode_def obind_Panic_iff)

text \<open>A decoder that returns exactly the delimited bytes that satisfy \<open>P\<close>.\<close>

lemma delimited_codec_laws:
  assumes r: "rev_buf_contract rops rcontents rinv"
    and wire: "c_wire c = WtLengthDelimited"
    and enc: "\<And>v buf. P v \<Longrightarrow> length v < 2 ^ 64 \<Longrightarrow> c_encode c v buf = Some (buf @ delimited v)"
    and prep: "\<And>v r. P v \<Longrightarrow> length v < 2 ^ 64 \<Longrightarrow> rinv r \<Longrightarrow>
      \<exists>r'. c_prepend c v r = Some r' \<and> rinv r' \<and> rcontents r' = delimited v @ rcontents r"
    and len: "\<And>v. P v \<Longrightarrow> length v < 2 ^ 64 \<Longrightarrow> c_len c v = length (delimited v)"
    and many: "\<And>vs. \<forall>v \<in> set vs. P v \<and> length v < 2 ^ 64 \<Longrightarrow>
      c_many_len c vs = sum_list (map (\<lambda>v. length (delimited v)) vs)"
    and dec: "\<And>v0 cp ctx d cp'. c_decode c v0 cp ctx = Done (d, cp') \<longleftrightarrow>
      P d \<and> length d < 2 ^ 64 \<and> cap_buf cp = delimited d @ cap_buf cp' \<and> cap_extra cp' = cap_extra cp \<and>
      cap_extra cp \<le> length (cap_buf cp')"
    and np: "\<And>v0 cp ctx. c_decode c v0 cp ctx \<noteq> Panic"
    and dist: "c_decode_dist c = always_canonical (c_decode c)" "\<not> c_checks_empty c"
  shows "distinguished_codec rops rcontents rinv c delimited (\<lambda>v. P v \<and> length v < 2 ^ 64) (\<lambda>_. 0)"
  by (intro distinguished_codec.intro value_codec.intro r value_codec_axioms.intro
      distinguished_codec_axioms.intro)
    (auto simp: wire enc prep len many dec np dist always_canonical_def obind_Panic_iff)

lemma plain_bytes_prepends:
  assumes r: "rev_buf_contract rops rcontents rinv" and "rinv r"
  shows "\<exists>r'. plain_bytes_prepend rops v r = Some r' \<and> rinv r' \<and> rcontents r' = delimited v @ rcontents r"
proof -
  have "rev_buf_contract.prepends rcontents rinv (varint_bytes (of_nat (length v)) @ v)
      (\<lambda>r. r_prepend_slice rops v r \<bind> prepend_varint rops (of_nat (length v)))"
    unfolding varint_bytes_def
    by (intro rev_buf_contract.prepends_comp [OF r] rev_buf_contract.prepends_slice [OF r]
        rev_buf_contract.prepends_varint [OF r])
  then show ?thesis
    using assms(2) by (simp add: rev_buf_contract.prepends_def [OF r] plain_bytes_prepend_def delimited_def)
qed

lemma const_delimited_prepends:
  assumes r: "rev_buf_contract rops rcontents rinv" and "rinv r"
  shows "\<exists>r'. (r_prepend_slice rops v r \<bind> r_prepend_slice rops (varint_bytes (of_nat (length v)))) = Some r'
    \<and> rinv r' \<and> rcontents r' = delimited v @ rcontents r"
  using rev_buf_contract.prepends_comp [OF r rev_buf_contract.prepends_slice [OF r]
      rev_buf_contract.prepends_slice [OF r], of "varint_bytes (of_nat (length v))" v] assms(2)
  by (simp add: rev_buf_contract.prepends_def [OF r] delimited_def)

lemma plain_bytes_len_eq: "plain_bytes_len = (\<lambda>v. length (delimited v))"
  by (simp add: fun_eq_iff plain_bytes_len_def delimited_def encoded_len_varint_bytes)

lemma plain_bytes_simps:
  "plain_bytes_encode v buf = Some (buf @ delimited v)"
  by (simp add: plain_bytes_encode_def encode_varint_bytes delimited_def)

lemma same_length_sum:
  "\<forall>v \<in> set vs. length v = N \<and> Q v \<Longrightarrow>
   length vs * (length (varint_bytes (of_nat N)) + N) = sum_list (map (\<lambda>v. length (delimited v)) vs)"
  by (induction vs) (auto simp: delimited_def)

context rev_buf_contract
begin

text \<open>Writing a region and then the length it turned out to have.\<close>

lemma prepends_delimited:
  assumes "prepends d step"
  shows "prepends (delimited d) (\<lambda>buf. step buf \<bind> (\<lambda>buf'.
    (if r_remaining rops buf \<le> r_remaining rops buf' then Some (r_remaining rops buf' - r_remaining rops buf)
     else None) \<bind> (\<lambda>n. prepend_varint rops (of_nat n) buf')))"
proof (rule prependsI)
  fix r assume r: "rinv r"
  obtain r1 where 1: "step r = Some r1" "rinv r1" "rcontents r1 = d @ rcontents r"
    using assms r by (rule prependsE)
  obtain r2 where 2: "prepend_varint rops (of_nat (length d)) r1 = Some r2" "rinv r2"
    "rcontents r2 = varint_bytes (of_nat (length d)) @ rcontents r1"
    using prependsE [OF prepends_varint 1(2)] unfolding varint_bytes_def by metis
  have "r_remaining rops r1 - r_remaining rops r = length d" "r_remaining rops r \<le> r_remaining rops r1"
    using 1 r by (simp_all add: r_remaining)
  then show "\<exists>r'. step r \<bind> (\<lambda>buf'.
      (if r_remaining rops r \<le> r_remaining rops buf' then Some (r_remaining rops buf' - r_remaining rops r)
       else None) \<bind> (\<lambda>n. prepend_varint rops (of_nat n) buf')) = Some r' \<and>
      rinv r' \<and> rcontents r' = delimited d @ rcontents r"
    using 1 2 by (simp add: delimited_def)
qed

lemma plain_bytes_laws:
  "distinguished_codec rops rcontents rinv (plain_vec_u8 rops) delimited (\<lambda>v. True \<and> length v < 2 ^ 64) (\<lambda>_. 0)"
  "distinguished_codec rops rcontents rinv (plain_ref_bytes rops) delimited (\<lambda>v. True \<and> length v < 2 ^ 64) (\<lambda>_. 0)"
  by (rule delimited_codec_laws [OF rev_buf_contract_axioms];
      simp add: plain_vec_u8_def plain_ref_bytes_def plain_bytes_codec_def plain_bytes_simps
        plain_bytes_len_eq plain_bytes_prepends [OF rev_buf_contract_axioms]
        vec_u8_decode_Done bytes_borrow_decode_Done)+

lemma plain_array_laws:
  "distinguished_codec rops rcontents rinv (plain_u8_array N rops) delimited (\<lambda>v. length v = N \<and> length v < 2 ^ 64) (\<lambda>_. 0)"
  by (rule delimited_codec_laws [OF rev_buf_contract_axioms])
    (auto simp: plain_u8_array_def const_delimited_prepends [OF rev_buf_contract_axioms] const_varint_bytes
        same_length_sum u8_array_decode_Done vec_u8_decode_Done, simp_all add: delimited_def)

lemma plain_ref_array_laws:
  "distinguished_codec rops rcontents rinv (plain_ref_u8_array N rops) delimited (\<lambda>v. length v = N \<and> length v < 2 ^ 64) (\<lambda>_. 0)"
  by (rule delimited_codec_laws [OF rev_buf_contract_axioms])
    (simp_all add: plain_ref_u8_array_def plain_bytes_simps plain_bytes_len_eq const_varint_bytes
        plain_bytes_prepends [OF rev_buf_contract_axioms] same_length_sum
        ref_u8_array_decode_Done bytes_borrow_decode_Done)

end

end
