(* ===== verification/Packed.thy ===== *)
theory Packed
  imports Collections Plain_Bytes
begin

text \<open>
  The repeated encodings \<^verbatim>\<open>Packed\<close> and \<^verbatim>\<open>Unpacked\<close> of \<^verbatim>\<open>src/src/encoding/packed.rs\<close> and \<^verbatim>\<open>unpacked.rs\<close>
  for any collection and for arrays, over any codec of the items: one length-delimited run of values,
  or one field per value. The decoders of either accept the other representation, which is then not
  canonical. Inside the locale of an item codec and a collection, the packed codec keeps the laws of
  \<open>value_codec\<close> and \<open>distinguished_codec\<close> again, so that packed collections nest.
\<close>

section \<open>Packed values\<close>

fun encode_all :: "('v, 'r) codec \<Rightarrow> 'v list \<Rightarrow> bytes \<Rightarrow> bytes option" where
  "encode_all c [] buf = Some buf"
| "encode_all c (v # vs) buf = c_encode c v buf \<bind> encode_all c vs"

fun prepend_all :: "('v, 'r) codec \<Rightarrow> 'v list \<Rightarrow> 'r \<Rightarrow> 'r option" where
  "prepend_all c [] buf = Some buf"
| "prepend_all c (v # vs) buf = c_prepend c v buf \<bind> prepend_all c vs"

definition packed_encode_value ::
    "('t, 'r) codec \<Rightarrow> ('c, 't) collection \<Rightarrow> 'c \<Rightarrow> bytes \<Rightarrow> bytes option" where
  "packed_encode_value c col v buf =
    encode_all c (col_iter col v) (encode_varint (of_nat (c_many_len c (col_iter col v))) buf)"

definition packed_prepend_value ::
    "'r rev_ops \<Rightarrow> ('t, 'r) codec \<Rightarrow> ('c, 't) collection \<Rightarrow> 'c \<Rightarrow> 'r \<Rightarrow> 'r option" where
  "packed_prepend_value rops c col v buf = do {
     let end_pos = r_remaining rops buf;
     buf \<leftarrow> prepend_all c (col_reversed col v) buf;
     n \<leftarrow> (if end_pos \<le> r_remaining rops buf then Some (r_remaining rops buf - end_pos) else None);
     prepend_varint rops (of_nat n) buf
   }"

text \<open>The length fits in memory; \<^verbatim>\<open>checked_add\<close> cannot fail for a collection whose encoding does.\<close>

definition packed_value_encoded_len :: "('t, 'r) codec \<Rightarrow> ('c, 't) collection \<Rightarrow> 'c \<Rightarrow> nat" where
  "packed_value_encoded_len c col v =
    (let inner_len = c_many_len c (col_iter col v) in encoded_len_varint (of_nat inner_len) + inner_len)"

text \<open>No number of fixed-size values packs evenly into this many bytes.\<close>

definition uneven :: "nat option \<Rightarrow> nat \<Rightarrow> bool" where
  "uneven fixed n = (case fixed of Some k \<Rightarrow> n mod k \<noteq> 0 | None \<Rightarrow> False)"

primrec packed_decode_loop ::
    "('t, 'r) codec \<Rightarrow> ('c, 't) collection \<Rightarrow> nat \<Rightarrow> 'c \<Rightarrow> bytes capped \<Rightarrow> decode_context \<Rightarrow>
     ('c \<times> bytes capped) outcome" where
  "packed_decode_loop c col 0 v capped ctx = Panic"
| "packed_decode_loop c col (Suc fuel) v capped ctx =
    obind (has_remaining slice_ops capped) (\<lambda>more.
      if \<not> more then Done (v, capped)
      else obind (c_decode c (c_for_overwrite c) capped ctx) (\<lambda>(new_val, capped).
        obind (col_insert col new_val v) (\<lambda>v. packed_decode_loop c col fuel v capped ctx)))"

definition packed_decode_value ::
    "('t, 'r) codec \<Rightarrow> ('c, 't) collection \<Rightarrow> 'c \<Rightarrow> bytes capped \<Rightarrow> decode_context \<Rightarrow>
     ('c \<times> bytes capped) outcome" where
  "packed_decode_value c col v cp ctx =
    obind (take_length_delimited slice_ops cp) (\<lambda>capped.
      if uneven (fixed_size (c_wire c)) (remaining_before_cap slice_ops capped) then Fail Truncated
      else obind (packed_decode_loop c col (length (cap_buf capped) + 1) v capped ctx)
        (\<lambda>(v, capped). Done (v, cap_outer cp capped)))"

primrec packed_decode_dist_loop ::
    "('t, 'r) codec \<Rightarrow> ('c, 't) collection \<Rightarrow> nat \<Rightarrow> 'c \<Rightarrow> canonicity \<Rightarrow> bytes capped \<Rightarrow>
     restricted_context \<Rightarrow> ('c \<times> canonicity \<times> bytes capped) outcome" where
  "packed_decode_dist_loop c col 0 v canon capped ctx = Panic"
| "packed_decode_dist_loop c col (Suc fuel) v canon capped ctx =
    obind (has_remaining slice_ops capped) (\<lambda>more.
      if \<not> more then Done (v, canon, capped)
      else obind (c_decode_dist c True (c_for_overwrite c) capped ctx) (\<lambda>(new_val, k, capped).
        let canon = canonicity_update canon k in
        obind (col_insert_dist col new_val v) (\<lambda>(v, k).
          obind (from_result (check ctx k)) (\<lambda>k.
            packed_decode_dist_loop c col fuel v (canonicity_update canon k) capped ctx))))"

definition packed_decode_value_distinguished ::
    "('t, 'r) codec \<Rightarrow> ('c, 't) collection \<Rightarrow> bool \<Rightarrow> 'c \<Rightarrow> bytes capped \<Rightarrow> restricted_context \<Rightarrow>
     ('c \<times> canonicity \<times> bytes capped) outcome" where
  "packed_decode_value_distinguished c col allow_empty v cp ctx =
    obind (take_length_delimited slice_ops cp) (\<lambda>capped.
      if uneven (fixed_size (c_wire c)) (remaining_before_cap slice_ops capped) then Fail Truncated
      else obind (packed_decode_dist_loop c col (length (cap_buf capped) + 1) v Canonical capped ctx)
        (\<lambda>(v, canon, capped). Done (v, canon, cap_outer cp capped)))"

definition packed_codec ::
    "'r rev_ops \<Rightarrow> ('t, 'r) codec \<Rightarrow> ('c, 't) collection \<Rightarrow> ('c, 'r) codec" where
  "packed_codec rops c col = \<lparr>
     c_wire = WtLengthDelimited,
     c_for_overwrite = col_empty col,
     c_encode = packed_encode_value c col,
     c_prepend = packed_prepend_value rops c col,
     c_len = packed_value_encoded_len c col,
     c_many_len = many_values_encoded_len WtLengthDelimited (packed_value_encoded_len c col),
     c_decode = packed_decode_value c col,
     c_checks_empty = False,
     c_decode_dist = packed_decode_value_distinguished c col\<rparr>"

section \<open>Unpacked fields\<close>

fun encode_fields :: "('t, 'r) codec \<Rightarrow> u32 \<Rightarrow> 't list \<Rightarrow> tag_writer \<Rightarrow> bytes \<Rightarrow> (tag_writer \<times> bytes) option" where
  "encode_fields c tag [] tw buf = Some (tw, buf)"
| "encode_fields c tag (v # vs) tw buf = do {
     (tw, buf) \<leftarrow> encode_field c tag v tw buf;
     encode_fields c tag vs tw buf
   }"

fun prepend_field_list ::
    "'r rev_ops \<Rightarrow> ('t, 'r) codec \<Rightarrow> u32 \<Rightarrow> 't list \<Rightarrow> tag_rev_writer \<times> 'r \<Rightarrow> (tag_rev_writer \<times> 'r) option" where
  "prepend_field_list rops c tag [] st = Some st"
| "prepend_field_list rops c tag (v # vs) st = prepend_field rops c tag v st \<bind> prepend_field_list rops c tag vs"

definition unpacked_encode ::
    "('t, 'r) codec \<Rightarrow> ('c, 't) collection \<Rightarrow> u32 \<Rightarrow> 'c \<Rightarrow> tag_writer \<Rightarrow> bytes \<Rightarrow>
     (tag_writer \<times> bytes) option" where
  "unpacked_encode c col tag v tw buf = encode_fields c tag (col_iter col v) tw buf"

definition unpacked_prepend ::
    "'r rev_ops \<Rightarrow> ('t, 'r) codec \<Rightarrow> ('c, 't) collection \<Rightarrow> u32 \<Rightarrow> 'c \<Rightarrow> tag_rev_writer \<times> 'r \<Rightarrow>
     (tag_rev_writer \<times> 'r) option" where
  "unpacked_prepend rops c col tag v st = prepend_field_list rops c tag (col_reversed col v) st"

definition unpacked_encoded_len ::
    "('t, 'r) codec \<Rightarrow> ('c, 't) collection \<Rightarrow> u32 \<Rightarrow> 'c \<Rightarrow> tag_measurer \<Rightarrow> (nat \<times> tag_measurer) option" where
  "unpacked_encoded_len c col tag v tm =
    (if col_len col v > 0 then do {
       (k, tm) \<leftarrow> runtime_key_len tag tm;
       Some (k + c_many_len c (col_iter col v) + col_len col v - 1, tm)
     } else Some (0, tm))"

text \<open>The greedy loop over consecutive fields of the same tag.\<close>

primrec unpacked_loop ::
    "('t, 'r) codec \<Rightarrow> ('c, 't) collection \<Rightarrow> nat \<Rightarrow> 'c \<Rightarrow> bytes capped \<Rightarrow> decode_context \<Rightarrow>
     ('c \<times> bytes capped) outcome" where
  "unpacked_loop c col 0 v cp ctx = Panic"
| "unpacked_loop c col (Suc fuel) v cp ctx =
    obind (c_decode c (c_for_overwrite c) cp ctx) (\<lambda>(new_item, cp).
      obind (col_insert col new_item v) (\<lambda>v.
        obind (peek_repeated_field slice_ops cp) (\<lambda>(next, cp).
          case next of
            Some next_wire_type \<Rightarrow>
              obind (check_wire_type (c_wire c) next_wire_type) (\<lambda>_. unpacked_loop c col fuel v cp ctx)
          | None \<Rightarrow> Done (v, cp))))"

definition unpacked_decode_only ::
    "('t, 'r) codec \<Rightarrow> ('c, 't) collection \<Rightarrow> wire_type \<Rightarrow> 'c \<Rightarrow> bytes capped \<Rightarrow> decode_context \<Rightarrow>
     ('c \<times> bytes capped) outcome" where
  "unpacked_decode_only c col wt v cp ctx =
    obind (check_wire_type (c_wire c) wt) (\<lambda>_. unpacked_loop c col (length (cap_buf cp) + 1) v cp ctx)"

primrec unpacked_dist_loop ::
    "('t, 'r) codec \<Rightarrow> ('c, 't) collection \<Rightarrow> nat \<Rightarrow> 'c \<Rightarrow> canonicity \<Rightarrow> bytes capped \<Rightarrow>
     restricted_context \<Rightarrow> ('c \<times> canonicity \<times> bytes capped) outcome" where
  "unpacked_dist_loop c col 0 v canon cp ctx = Panic"
| "unpacked_dist_loop c col (Suc fuel) v canon cp ctx =
    obind (c_decode_dist c True (c_for_overwrite c) cp ctx) (\<lambda>(new_item, k, cp).
      let canon = canonicity_update canon k in
      obind (col_insert_dist col new_item v) (\<lambda>(v, k).
        obind (from_result (check ctx k)) (\<lambda>k.
          let canon = canonicity_update canon k in
          obind (peek_repeated_field slice_ops cp) (\<lambda>(next, cp).
            case next of
              Some next_wire_type \<Rightarrow>
                obind (check_wire_type (c_wire c) next_wire_type) (\<lambda>_.
                  unpacked_dist_loop c col fuel v canon cp ctx)
            | None \<Rightarrow> Done (v, canon, cp)))))"

definition unpacked_decode_only_distinguished ::
    "('t, 'r) codec \<Rightarrow> ('c, 't) collection \<Rightarrow> wire_type \<Rightarrow> 'c \<Rightarrow> bytes capped \<Rightarrow> restricted_context \<Rightarrow>
     ('c \<times> canonicity \<times> bytes capped) outcome" where
  "unpacked_decode_only_distinguished c col wt v cp ctx =
    obind (check_wire_type (c_wire c) wt) (\<lambda>_.
      unpacked_dist_loop c col (length (cap_buf cp) + 1) v Canonical cp ctx)"

definition unpacked_decode ::
    "('t, 'r) codec \<Rightarrow> ('c, 't) collection \<Rightarrow> wire_type \<Rightarrow> 'c \<Rightarrow> bytes capped \<Rightarrow> decode_context \<Rightarrow>
     ('c \<times> bytes capped) outcome" where
  "unpacked_decode c col wt v cp ctx =
    (if wt = WtLengthDelimited \<and> c_wire c \<noteq> WtLengthDelimited
     then packed_decode_value c col v cp ctx
     else unpacked_decode_only c col wt v cp ctx)"

definition unpacked_decode_distinguished ::
    "('t, 'r) codec \<Rightarrow> ('c, 't) collection \<Rightarrow> wire_type \<Rightarrow> 'c \<Rightarrow> bytes capped \<Rightarrow> restricted_context \<Rightarrow>
     ('c \<times> canonicity \<times> bytes capped) outcome" where
  "unpacked_decode_distinguished c col wt v cp ctx =
    (if wt = WtLengthDelimited \<and> c_wire c \<noteq> WtLengthDelimited
     then obind (from_result (check ctx NotCanonical)) (\<lambda>_.
       obind (packed_decode_value c col v cp (into_inner ctx)) (\<lambda>(v, cp). Done (v, NotCanonical, cp)))
     else unpacked_decode_only_distinguished c col wt v cp ctx)"

definition unpacked_field :: "'r rev_ops \<Rightarrow> ('t, 'r) codec \<Rightarrow> ('c, 't) collection \<Rightarrow> ('c, 'r) field_codec" where
  "unpacked_field rops c col = \<lparr>f_encode = unpacked_encode c col, f_prepend = unpacked_prepend rops c col,
     f_len = unpacked_encoded_len c col, f_decode = unpacked_decode c col,
     f_decode_dist = unpacked_decode_distinguished c col\<rparr>"

section \<open>Packed fields\<close>

definition packed_encode ::
    "'r rev_ops \<Rightarrow> ('t, 'r) codec \<Rightarrow> ('c, 't) collection \<Rightarrow> u32 \<Rightarrow> 'c \<Rightarrow> tag_writer \<Rightarrow> bytes \<Rightarrow>
     (tag_writer \<times> bytes) option" where
  "packed_encode rops c col tag v tw buf =
    (if \<not> col_is_empty col v then encode_field (packed_codec rops c col) tag v tw buf else Some (tw, buf))"

definition packed_prepend ::
    "'r rev_ops \<Rightarrow> ('t, 'r) codec \<Rightarrow> ('c, 't) collection \<Rightarrow> u32 \<Rightarrow> 'c \<Rightarrow> tag_rev_writer \<times> 'r \<Rightarrow>
     (tag_rev_writer \<times> 'r) option" where
  "packed_prepend rops c col tag v st =
    (if \<not> col_is_empty col v then prepend_field rops (packed_codec rops c col) tag v st else Some st)"

definition packed_encoded_len ::
    "'r rev_ops \<Rightarrow> ('t, 'r) codec \<Rightarrow> ('c, 't) collection \<Rightarrow> u32 \<Rightarrow> 'c \<Rightarrow> tag_measurer \<Rightarrow>
     (nat \<times> tag_measurer) option" where
  "packed_encoded_len rops c col tag v tm =
    (if \<not> col_is_empty col v then field_encoded_len (packed_codec rops c col) tag v tm else Some (0, tm))"

definition packed_decode ::
    "('t, 'r) codec \<Rightarrow> ('c, 't) collection \<Rightarrow> wire_type \<Rightarrow> 'c \<Rightarrow> bytes capped \<Rightarrow> decode_context \<Rightarrow>
     ('c \<times> bytes capped) outcome" where
  "packed_decode c col wt v cp ctx =
    (if wt = WtLengthDelimited then packed_decode_value c col v cp ctx
     else unpacked_decode_only c col wt v cp ctx)"

definition packed_decode_distinguished ::
    "('t, 'r) codec \<Rightarrow> ('c, 't) collection \<Rightarrow> wire_type \<Rightarrow> 'c \<Rightarrow> bytes capped \<Rightarrow> restricted_context \<Rightarrow>
     ('c \<times> canonicity \<times> bytes capped) outcome" where
  "packed_decode_distinguished c col wt v cp ctx =
    (if wt = WtLengthDelimited then
       obind (packed_decode_value_distinguished c col False v cp ctx) (\<lambda>(v, canon, cp).
         if col_is_empty col v
         then obind (from_result (check ctx NotCanonical)) (\<lambda>k. Done (v, k, cp))
         else Done (v, canon, cp))
     else obind (from_result (check ctx NotCanonical)) (\<lambda>_.
       obind (unpacked_decode_only c col wt v cp (into_inner ctx)) (\<lambda>(v, cp). Done (v, NotCanonical, cp))))"

definition packed_field :: "'r rev_ops \<Rightarrow> ('t, 'r) codec \<Rightarrow> ('c, 't) collection \<Rightarrow> ('c, 'r) field_codec" where
  "packed_field rops c col = \<lparr>f_encode = packed_encode rops c col, f_prepend = packed_prepend rops c col,
     f_len = packed_encoded_len rops c col, f_decode = packed_decode c col,
     f_decode_dist = packed_decode_distinguished c col\<rparr>"

section \<open>The laws of packed values\<close>

definition packed_enc :: "('t \<Rightarrow> bytes) \<Rightarrow> ('c, 't) collection \<Rightarrow> 'c \<Rightarrow> bytes" where
  "packed_enc enc col v = delimited (concat (map enc (col_iter col v)))"

definition packed_valid ::
    "('t \<Rightarrow> bytes) \<Rightarrow> ('t \<Rightarrow> bool) \<Rightarrow> ('c, 't) collection \<Rightarrow> ('c \<Rightarrow> bool) \<Rightarrow> 'c \<Rightarrow> bool" where
  "packed_valid enc valid col cvalid v \<longleftrightarrow> cvalid v \<and> (\<forall>x \<in> set (col_iter col v). valid x) \<and>
     length (concat (map enc (col_iter col v))) < 2 ^ 64"

definition list_depth :: "('t \<Rightarrow> nat) \<Rightarrow> 't list \<Rightarrow> nat" where
  "list_depth depth xs = foldr (\<lambda>x. max (depth x)) xs 0"

lemma list_depth_le: "list_depth depth xs \<le> n \<longleftrightarrow> (\<forall>x \<in> set xs. depth x \<le> n)"
  by (induction xs) (auto simp: list_depth_def)

lemma length_concat_map: "length (concat (map f xs)) = sum_list (map (\<lambda>x. length (f x)) xs)"
  by (induction xs) auto

locale repeated_values =
  value_codec rops rcontents rinv c enc valid depth +
  collection_contract col cvalid
  for rops :: "'r rev_ops" and rcontents :: "'r \<Rightarrow> bytes" and rinv :: "'r \<Rightarrow> bool"
    and c :: "('t, 'r) codec" and enc :: "'t \<Rightarrow> bytes" and valid :: "'t \<Rightarrow> bool"
    and depth :: "'t \<Rightarrow> nat" and col :: "('c, 't) collection" and cvalid :: "'c \<Rightarrow> bool"
begin

lemma encode_all_eq:
  "\<forall>v \<in> set vs. valid v \<Longrightarrow> encode_all c vs buf = Some (buf @ concat (map enc vs))"
  by (induction vs arbitrary: buf) (auto simp: encode)

lemma prepends_all: "\<forall>v \<in> set vs. valid v \<Longrightarrow> prepends (concat (map enc (rev vs))) (prepend_all c vs)"
proof (induction vs)
  case Nil
  then show ?case using prepends_skip by (simp add: fun_eq_iff prepends_def)
next
  case (Cons v vs)
  then have "prepends (concat (map enc (rev vs)) @ enc v) (\<lambda>r. c_prepend c v r \<bind> prepend_all c vs)"
    by (intro prepends_comp prepends) auto
  then show ?case by (simp add: prepends_def)
qed

lemma packed_prepend_eq:
  assumes v: "packed_valid enc valid col cvalid v" and r: "rinv r"
  shows "\<exists>r'. packed_prepend_value rops c col v r = Some r' \<and> rinv r' \<and>
    rcontents r' = packed_enc enc col v @ rcontents r"
proof -
  have rev: "col_reversed col v = rev (col_iter col v)" using v reversed by (simp add: packed_valid_def)
  have "prepends (concat (map enc (col_iter col v))) (prepend_all c (col_reversed col v))"
    using prepends_all [of "rev (col_iter col v)"] v by (simp add: rev packed_valid_def)
  from prepends_delimited [OF this] r show ?thesis
    by (simp add: packed_prepend_value_def packed_enc_def prepends_def Let_def)
qed

lemma packed_loop_complete:
  assumes "cvalid p" and "cvalid v" and "col_iter col v = col_iter col p @ xs"
    and "\<forall>x \<in> set xs. valid x" and "list_depth depth xs \<le> unat (recurse_count ctx)"
    and "length (concat (map enc xs)) < fuel"
  shows "packed_decode_loop c col fuel p \<lparr>cap_buf = concat (map enc xs) @ rest, cap_extra = length rest\<rparr> ctx =
    Done (v, \<lparr>cap_buf = rest, cap_extra = length rest\<rparr>)"
  using assms
proof (induction xs arbitrary: p fuel)
  case Nil
  then have "p = v" using ext by auto
  then show ?case using Nil by (cases fuel) auto
next
  case (Cons x xs)
  obtain f where f: "fuel = Suc f" using Cons.prems by (cases fuel) auto
  obtain p' where p': "col_insert col x p = Done p'" "cvalid p'" "col_iter col p' = col_iter col p @ [x]"
    using insert_next [OF Cons.prems(1,2)] Cons.prems(3) by auto
  have ne: "enc x \<noteq> []" using nonempty Cons.prems(4) by simp
  have dec: "c_decode c (c_for_overwrite c)
      \<lparr>cap_buf = enc x @ concat (map enc xs) @ rest, cap_extra = length rest\<rparr> ctx =
      Done (x, \<lparr>cap_buf = concat (map enc xs) @ rest, cap_extra = length rest\<rparr>)"
    using Cons.prems(4,5) by (intro decode) (simp_all add: list_depth_def)
  have "packed_decode_loop c col f p' \<lparr>cap_buf = concat (map enc xs) @ rest, cap_extra = length rest\<rparr> ctx =
      Done (v, \<lparr>cap_buf = rest, cap_extra = length rest\<rparr>)"
    using Cons.prems p' ne f by (intro Cons.IH) (auto simp: list_depth_def simp flip: length_greater_0_conv)
  then show ?case using ne dec p' f by simp
qed

lemma uneven_even:
  "packed_valid enc valid col cvalid v \<Longrightarrow>
   \<not> uneven (fixed_size (c_wire c)) (length (concat (map enc (col_iter col v))))"
proof -
  assume v: "packed_valid enc valid col cvalid v"
  have "length (concat (map enc xs)) = n * length xs" if "\<forall>x \<in> set xs. valid x" "fixed_size (c_wire c) = Some n" for xs n
    using that by (induction xs) (simp_all add: fixed)
  then show ?thesis
    using v by (auto simp: uneven_def packed_valid_def split: option.split)
qed

lemma packed_decode_eq:
  assumes v: "packed_valid enc valid col cvalid v"
    and "list_depth depth (col_iter col v) \<le> unat (recurse_count ctx)" and "x \<le> length rest"
  shows "packed_decode_value c col (col_empty col) \<lparr>cap_buf = packed_enc enc col v @ rest, cap_extra = x\<rparr> ctx =
    Done (v, \<lparr>cap_buf = rest, cap_extra = x\<rparr>)"
proof -
  let ?d = "concat (map enc (col_iter col v))"
  have "take_length_delimited slice_ops \<lparr>cap_buf = packed_enc enc col v @ rest, cap_extra = x\<rparr> =
      Done \<lparr>cap_buf = ?d @ rest, cap_extra = length rest\<rparr>"
    unfolding packed_enc_def using assms by (intro take_delimited_eq) (simp_all add: packed_valid_def)
  moreover have "packed_decode_loop c col (length (?d @ rest) + 1) (col_empty col)
      \<lparr>cap_buf = ?d @ rest, cap_extra = length rest\<rparr> ctx = Done (v, \<lparr>cap_buf = rest, cap_extra = length rest\<rparr>)"
    using assms empty by (intro packed_loop_complete) (auto simp: packed_valid_def)
  ultimately show ?thesis
    using uneven_even [OF v] by (simp add: packed_decode_value_def del: take_length_delimited_Done)
qed

lemma packed_loop_frame:
  "packed_decode_loop c col fuel v cp ctx = Done (v', cp') \<Longrightarrow>
    cap_extra cp' = cap_extra cp \<and> length (cap_buf cp') = cap_extra cp \<and> (\<exists>p. cap_buf cp = p @ cap_buf cp')"
proof (induction fuel arbitrary: v cp)
  case 0
  then show ?case by simp
next
  case (Suc fuel)
  show ?case
  proof (cases "length (cap_buf cp) = cap_extra cp")
    case True
    then show ?thesis using Suc.prems by simp
  next
    case False
    then obtain x cp1 v1 where 1: "c_decode c (c_for_overwrite c) cp ctx = Done (x, cp1)"
      "packed_decode_loop c col fuel v1 cp1 ctx = Done (v', cp')"
      using Suc.prems by (auto split: if_splits)
    then show ?thesis using Suc.IH [OF 1(2)] decode_frame [OF 1(1)] by auto
  qed
qed

lemma packed_loop_not_Panic:
  "length (cap_buf cp) < fuel \<Longrightarrow> packed_decode_loop c col fuel v cp ctx \<noteq> Panic"
proof (induction fuel arbitrary: v cp)
  case 0
  then show ?case by simp
next
  case (Suc fuel)
  have "packed_decode_loop c col fuel v1 cp1 ctx \<noteq> Panic"
    if "c_decode c (c_for_overwrite c) cp ctx = Done (x, cp1)" for x cp1 v1
    using that decode_shorter [OF that] Suc.prems by (intro Suc.IH) simp
  then show ?case
    by (auto simp: obind_Panic_iff decode_no_panic insert_not_panic)
qed

lemma packed_decode_frame:
  assumes "packed_decode_value c col v cp ctx = Done (v', cp')"
  shows "cap_extra cp' = cap_extra cp \<and> (\<exists>p. p \<noteq> [] \<and> cap_buf cp = p @ cap_buf cp')"
proof -
  obtain c1 v1 c2 where 1: "take_length_delimited slice_ops cp = Done c1"
    "packed_decode_loop c col (length (cap_buf c1) + 1) v c1 ctx = Done (v1, c2)" "cp' = cap_outer cp c2"
    using assms by (auto simp: packed_decode_value_def simp del: take_length_delimited_Done packed_decode_loop.simps)
  obtain d rest where d: "cap_buf cp = delimited d @ rest" "cap_buf c1 = d @ rest" "length d < 2 ^ 64"
    "cap_extra c1 = length rest" "cap_extra cp \<le> length rest"
    by (rule take_length_delimitedE [OF 1(1)])
  obtain p where "d @ rest = p @ cap_buf c2" "length (cap_buf c2) = length rest"
    using packed_loop_frame [OF 1(2)] unfolding d(2,4) by blast
  then have "cap_buf c2 = rest" by simp
  then show ?thesis using d 1(3) by (intro conjI exI [of _ "delimited d"]) simp_all
qed

lemma packed_decode_no_panic: "packed_decode_value c col v cp ctx \<noteq> Panic"
  by (auto simp: packed_decode_value_def obind_Panic_iff packed_loop_not_Panic
      simp del: packed_decode_loop.simps)

text \<open>A packed collection is again a value with a codec.\<close>

sublocale packed: value_codec rops rcontents rinv "packed_codec rops c col" "packed_enc enc col"
  "packed_valid enc valid col cvalid" "\<lambda>v. list_depth depth (col_iter col v)"
proof unfold_locales
  fix v buf r ctx x and rest :: bytes
  assume v: "packed_valid enc valid col cvalid v"
  have n: "c_many_len c (col_iter col v) = length (concat (map enc (col_iter col v)))"
    using v many_len [of "col_iter col v"] by (simp add: packed_valid_def length_concat_map)
  show "c_encode (packed_codec rops c col) v buf = Some (buf @ packed_enc enc col v)"
    using v n by (simp add: packed_codec_def packed_encode_value_def encode_varint_bytes encode_all_eq
        packed_valid_def packed_enc_def delimited_def)
  show "c_len (packed_codec rops c col) v = length (packed_enc enc col v)"
    using n by (simp add: packed_codec_def packed_value_encoded_len_def packed_enc_def delimited_def
        encoded_len_varint_bytes Let_def)
  show "\<exists>r'. c_prepend (packed_codec rops c col) v r = Some r' \<and> rinv r' \<and>
      rcontents r' = packed_enc enc col v @ rcontents r" if "rinv r"
    using packed_prepend_eq [OF v that] by (simp add: packed_codec_def)
  show "packed_enc enc col v \<noteq> []" by (simp add: packed_enc_def)
  show "length (packed_enc enc col v) = n" if "fixed_size (c_wire (packed_codec rops c col)) = Some n" for n
    using that by (simp add: packed_codec_def)
  assume x: "x \<le> length rest"
  show "c_decode (packed_codec rops c col) (c_for_overwrite (packed_codec rops c col))
      \<lparr>cap_buf = packed_enc enc col v @ rest, cap_extra = x\<rparr> ctx = Done (v, \<lparr>cap_buf = rest, cap_extra = x\<rparr>)"
    if "list_depth depth (col_iter col v) \<le> unat (recurse_count ctx)"
    using packed_decode_eq [OF v that x] by (simp add: packed_codec_def)
next
  fix vs
  assume vs: "\<forall>v \<in> set vs. packed_valid enc valid col cvalid v"
  have "packed_value_encoded_len c col v = length (packed_enc enc col v)" if "v \<in> set vs" for v
    using that vs many_len [of "col_iter col v"]
    by (simp add: packed_value_encoded_len_def packed_enc_def delimited_def packed_valid_def
        encoded_len_varint_bytes Let_def length_concat_map)
  then show "c_many_len (packed_codec rops c col) vs = sum_list (map (\<lambda>v. length (packed_enc enc col v)) vs)"
    by (simp add: packed_codec_def cong: map_cong)
qed (use packed_decode_frame packed_decode_no_panic in \<open>simp_all add: packed_codec_def\<close>)

end

text \<open>Items that have a distinguished encoding.\<close>

locale repeated_codec =
  repeated_values rops rcontents rinv c enc valid depth col cvalid +
  distinguished_codec rops rcontents rinv c enc valid depth
  for rops :: "'r rev_ops" and rcontents :: "'r \<Rightarrow> bytes" and rinv :: "'r \<Rightarrow> bool"
    and c :: "('t, 'r) codec" and enc :: "'t \<Rightarrow> bytes" and valid :: "'t \<Rightarrow> bool"
    and depth :: "'t \<Rightarrow> nat" and col :: "('c, 't) collection" and cvalid :: "'c \<Rightarrow> bool"
begin

text \<open>Distinguished decoding of a packed run.\<close>

lemma packed_dist_loop_relaxed:
  assumes "packed_decode_dist_loop c col fuel p canon cp ctx = Done (v, k, cp')"
    and "cvalid p" and "rc_min_canonicity ctx \<le> canon"
  shows "packed_decode_loop c col fuel p cp (into_inner ctx) = Done (v, cp') \<and>
    rc_min_canonicity ctx \<le> k \<and> k \<le> canon"
  using assms
proof (induction fuel arbitrary: p canon cp)
  case 0
  then show ?case by simp
next
  case (Suc fuel)
  show ?case
  proof (cases "length (cap_buf cp) = cap_extra cp")
    case True
    then show ?thesis using Suc.prems by auto
  next
    case False
    then obtain x k1 cp1 p1 k2 where 1: "c_decode_dist c True (c_for_overwrite c) cp ctx = Done (x, k1, cp1)"
      "col_insert_dist col x p = Done (p1, k2)" "rc_min_canonicity ctx \<le> k2"
      "packed_decode_dist_loop c col fuel p1 (min (min canon k1) k2) cp1 ctx = Done (v, k, cp')"
      "cap_extra cp < length (cap_buf cp)"
      using Suc.prems(1) by (auto simp: Let_def canonicity_update_def split: if_splits)
    note rel = dist_relaxed [OF 1(1)] and ins = insert_dist [OF Suc.prems(2) 1(2)]
    have "packed_decode_loop c col fuel p1 cp1 (into_inner ctx) = Done (v, cp') \<and>
        rc_min_canonicity ctx \<le> k \<and> k \<le> min (min canon k1) k2"
      using 1 rel ins insert [OF Suc.prems(2) ins] Suc.prems(3) by (intro Suc.IH) auto
    then show ?thesis using 1 rel ins False by simp
  qed
qed

lemma packed_dist_loop_canonical:
  assumes "packed_decode_dist_loop c col fuel p canon cp ctx = Done (v, Canonical, cp')"
    and "cvalid p" and "length (cap_buf cp) < 2 ^ 64" and "rc_min_canonicity ctx \<le> canon"
  shows "\<exists>xs. cvalid v \<and> col_iter col v = col_iter col p @ xs \<and> (\<forall>x \<in> set xs. valid x) \<and>
    cap_buf cp = concat (map enc xs) @ cap_buf cp'"
  using assms
proof (induction fuel arbitrary: p canon cp)
  case 0
  then show ?case by simp
next
  case (Suc fuel)
  show ?case
  proof (cases "length (cap_buf cp) = cap_extra cp")
    case True
    then show ?thesis using Suc.prems by (auto intro: exI [of _ "[]"])
  next
    case False
    then obtain x k1 cp1 p1 k2 where 1: "c_decode_dist c True (c_for_overwrite c) cp ctx = Done (x, k1, cp1)"
      "col_insert_dist col x p = Done (p1, k2)" "rc_min_canonicity ctx \<le> k2"
      "packed_decode_dist_loop c col fuel p1 (min (min canon k1) k2) cp1 ctx = Done (v, Canonical, cp')"
      using Suc.prems(1) by (auto simp: Let_def canonicity_update_def split: if_splits)
    note rel = dist_relaxed [OF 1(1)] and ins = insert_dist [OF Suc.prems(2) 1(2)]
    have p1: "cvalid p1" using insert [OF Suc.prems(2) ins] by simp
    have "Canonical \<le> min (min canon k1) k2"
      using packed_dist_loop_relaxed [OF 1(4) p1] rel 1(3) Suc.prems(4) by simp
    then have k: "k1 = Canonical" "k2 = Canonical" by auto
    have x: "cap_buf cp = enc x @ cap_buf cp1" "valid x"
      using dist_canonical 1(1) k(1) Suc.prems(3) by blast+
    have p1': "col_iter col p1 = col_iter col p @ [x]"
      using insert_canonical [OF Suc.prems(2)] 1(2) k(2) by blast
    have "\<exists>xs. cvalid v \<and> col_iter col v = col_iter col p1 @ xs \<and> (\<forall>x \<in> set xs. valid x) \<and>
        cap_buf cp1 = concat (map enc xs) @ cap_buf cp'"
      using Suc.prems(3,4) x rel 1(3) by (intro Suc.IH [OF 1(4) p1]) auto
    then obtain xs where xs: "cvalid v" "col_iter col v = col_iter col p1 @ xs" "\<forall>x \<in> set xs. valid x"
      "cap_buf cp1 = concat (map enc xs) @ cap_buf cp'" by blast
    then show ?thesis using x p1' by (intro exI [of _ "x # xs"]) simp
  qed
qed

lemma packed_dist_loop_complete:
  assumes "cvalid p" and "cvalid v" and "col_iter col v = col_iter col p @ xs"
    and "\<forall>x \<in> set xs. valid x" and "list_depth depth xs \<le> unat (recurse_count (into_inner ctx))"
    and "length (concat (map enc xs)) < fuel"
  shows "packed_decode_dist_loop c col fuel p Canonical
      \<lparr>cap_buf = concat (map enc xs) @ rest, cap_extra = length rest\<rparr> ctx =
    Done (v, Canonical, \<lparr>cap_buf = rest, cap_extra = length rest\<rparr>)"
  using assms
proof (induction xs arbitrary: p fuel)
  case Nil
  then have "p = v" using ext by auto
  then show ?case using Nil by (cases fuel) auto
next
  case (Cons x xs)
  obtain f where f: "fuel = Suc f" using Cons.prems by (cases fuel) auto
  obtain p' where p': "col_insert_dist col x p = Done (p', Canonical)" "cvalid p'"
    "col_iter col p' = col_iter col p @ [x]"
    using insert_next [OF Cons.prems(1,2)] Cons.prems(3) by auto
  have ne: "enc x \<noteq> []" using nonempty Cons.prems(4) by simp
  have dec: "c_decode_dist c True (c_for_overwrite c)
      \<lparr>cap_buf = enc x @ concat (map enc xs) @ rest, cap_extra = length rest\<rparr> ctx =
      Done (x, Canonical, \<lparr>cap_buf = concat (map enc xs) @ rest, cap_extra = length rest\<rparr>)"
    using Cons.prems(4,5) by (intro dist_complete) (simp_all add: list_depth_def)
  have "packed_decode_dist_loop c col f p' Canonical
      \<lparr>cap_buf = concat (map enc xs) @ rest, cap_extra = length rest\<rparr> ctx =
      Done (v, Canonical, \<lparr>cap_buf = rest, cap_extra = length rest\<rparr>)"
    using Cons.prems p' ne f by (intro Cons.IH) (auto simp: list_depth_def simp flip: length_greater_0_conv)
  then show ?case using ne dec p' f by (simp add: canonicity_update_def)
qed

lemma packed_dist_loop_not_Panic:
  "length (cap_buf cp) < fuel \<Longrightarrow> packed_decode_dist_loop c col fuel v canon cp ctx \<noteq> Panic"
proof (induction fuel arbitrary: v canon cp)
  case 0
  then show ?case by simp
next
  case (Suc fuel)
  have "packed_decode_dist_loop c col fuel v1 k1 cp1 ctx \<noteq> Panic"
    if "c_decode_dist c True (c_for_overwrite c) cp ctx = Done (x, k, cp1)" for x k cp1 v1 k1
    using decode_shorter [OF conjunct1 [OF dist_relaxed [OF that]]] Suc.prems by (intro Suc.IH) simp
  then show ?case
    by (auto simp: obind_Panic_iff dist_no_panic insert_dist_not_panic Let_def)
qed

lemma packed_dist_Done:
  assumes "packed_decode_value_distinguished c col allow v cp ctx = Done (v', k, cp')"
  obtains d rest c2 where "take_length_delimited slice_ops cp = Done \<lparr>cap_buf = d @ rest, cap_extra = length rest\<rparr>"
    "\<not> uneven (fixed_size (c_wire c)) (length d)"
    "packed_decode_dist_loop c col (length (d @ rest) + 1) v Canonical \<lparr>cap_buf = d @ rest, cap_extra = length rest\<rparr> ctx
      = Done (v', k, c2)" "cp' = cap_outer cp c2"
    "cap_buf cp = delimited d @ rest" "length d < 2 ^ 64"
proof -
  obtain c1 c2 where 1: "take_length_delimited slice_ops cp = Done c1"
    "\<not> uneven (fixed_size (c_wire c)) (remaining_before_cap slice_ops c1)"
    "packed_decode_dist_loop c col (length (cap_buf c1) + 1) v Canonical c1 ctx = Done (v', k, c2)"
    "cp' = cap_outer cp c2"
    using assms
    by (auto simp: packed_decode_value_distinguished_def
        simp del: take_length_delimited_Done packed_decode_dist_loop.simps)
  obtain d rest where d: "cap_buf cp = delimited d @ rest" "cap_buf c1 = d @ rest" "length d < 2 ^ 64"
    "cap_extra c1 = length rest" "cap_extra cp \<le> length rest"
    by (rule take_length_delimitedE [OF 1(1)])
  have c1: "c1 = \<lparr>cap_buf = d @ rest, cap_extra = length rest\<rparr>" using d by (cases c1) simp
  show thesis
    by (rule that [OF 1(1) [unfolded c1] _ _ 1(4) d(1,3)]) (use 1(2,3) c1 in simp_all)
qed

lemma packed_dist_relaxed:
  assumes "packed_decode_value_distinguished c col allow (col_empty col) cp ctx = Done (v, k, cp')"
  shows "packed_decode_value c col (col_empty col) cp (into_inner ctx) = Done (v, cp') \<and>
    rc_min_canonicity ctx \<le> k"
proof -
  obtain d rest c2 where 1: "take_length_delimited slice_ops cp = Done \<lparr>cap_buf = d @ rest, cap_extra = length rest\<rparr>"
    "\<not> uneven (fixed_size (c_wire c)) (length d)"
    "packed_decode_dist_loop c col (length (d @ rest) + 1) (col_empty col) Canonical
      \<lparr>cap_buf = d @ rest, cap_extra = length rest\<rparr> ctx = Done (v, k, c2)" "cp' = cap_outer cp c2"
    by (rule packed_dist_Done [OF assms])
  note loop = packed_dist_loop_relaxed [OF 1(3) conjunct1 [OF empty]]
  have "packed_decode_value c col (col_empty col) cp (into_inner ctx) =
      obind (packed_decode_loop c col (length (d @ rest) + 1) (col_empty col)
        \<lparr>cap_buf = d @ rest, cap_extra = length rest\<rparr> (into_inner ctx))
        (\<lambda>(v, capped). Done (v, cap_outer cp capped))"
    using 1(1,2) by (simp add: packed_decode_value_def del: take_length_delimited_Done packed_decode_loop.simps)
  then show ?thesis using loop 1(4) by (simp del: packed_decode_loop.simps)
qed

lemma packed_dist_canonical:
  assumes "packed_decode_value_distinguished c col allow (col_empty col) cp ctx = Done (v, Canonical, cp')"
    and "length (cap_buf cp) < 2 ^ 64"
  shows "cap_buf cp = packed_enc enc col v @ cap_buf cp' \<and> packed_valid enc valid col cvalid v"
proof -
  obtain d rest c2 where 1:
    "packed_decode_dist_loop c col (length (d @ rest) + 1) (col_empty col) Canonical
      \<lparr>cap_buf = d @ rest, cap_extra = length rest\<rparr> ctx = Done (v, Canonical, c2)" "cp' = cap_outer cp c2"
    "cap_buf cp = delimited d @ rest" "length d < 2 ^ 64"
    by (rule packed_dist_Done [OF assms(1)])
  have len: "length (d @ rest) < 2 ^ 64" using assms(2) 1(3) by (simp add: delimited_def)
  obtain xs where xs: "cvalid v" "col_iter col v = col_iter col (col_empty col) @ xs" "\<forall>x \<in> set xs. valid x"
    "d @ rest = concat (map enc xs) @ cap_buf c2"
    using packed_dist_loop_canonical [OF 1(1) conjunct1 [OF empty]] len by auto
  have "length (cap_buf c2) = length rest"
    using packed_loop_frame [OF conjunct1 [OF packed_dist_loop_relaxed [OF 1(1) conjunct1 [OF empty]]]] by simp
  then have "cap_buf c2 = rest" "d = concat (map enc xs)" using xs(4) by simp_all
  then show ?thesis
    using xs 1 empty by (simp add: packed_enc_def packed_valid_def)
qed

lemma packed_dist_eq:
  assumes v: "packed_valid enc valid col cvalid v"
    and "list_depth depth (col_iter col v) \<le> unat (recurse_count (into_inner ctx))" and "x \<le> length rest"
  shows "packed_decode_value_distinguished c col allow (col_empty col)
      \<lparr>cap_buf = packed_enc enc col v @ rest, cap_extra = x\<rparr> ctx =
    Done (v, Canonical, \<lparr>cap_buf = rest, cap_extra = x\<rparr>)"
proof -
  let ?d = "concat (map enc (col_iter col v))"
  have "take_length_delimited slice_ops \<lparr>cap_buf = packed_enc enc col v @ rest, cap_extra = x\<rparr> =
      Done \<lparr>cap_buf = ?d @ rest, cap_extra = length rest\<rparr>"
    unfolding packed_enc_def using assms by (intro take_delimited_eq) (simp_all add: packed_valid_def)
  moreover have "packed_decode_dist_loop c col (length (?d @ rest) + 1) (col_empty col) Canonical
      \<lparr>cap_buf = ?d @ rest, cap_extra = length rest\<rparr> ctx =
      Done (v, Canonical, \<lparr>cap_buf = rest, cap_extra = length rest\<rparr>)"
    using assms empty by (intro packed_dist_loop_complete) (auto simp: packed_valid_def)
  ultimately show ?thesis
    using uneven_even [OF v] by (simp add: packed_decode_value_distinguished_def del: take_length_delimited_Done)
qed

lemma packed_dist_no_panic: "packed_decode_value_distinguished c col allow v cp ctx \<noteq> Panic"
  by (auto simp: packed_decode_value_distinguished_def obind_Panic_iff packed_dist_loop_not_Panic
      simp del: packed_decode_dist_loop.simps)

sublocale packed: distinguished_codec rops rcontents rinv "packed_codec rops c col" "packed_enc enc col"
  "packed_valid enc valid col cvalid" "\<lambda>v. list_depth depth (col_iter col v)"
proof unfold_locales
  fix v allow ctx x and rest :: bytes
  assume "packed_valid enc valid col cvalid v"
    "list_depth depth (col_iter col v) \<le> unat (recurse_count (into_inner ctx))" "x \<le> length rest"
  then show "c_decode_dist (packed_codec rops c col) allow (c_for_overwrite (packed_codec rops c col))
      \<lparr>cap_buf = packed_enc enc col v @ rest, cap_extra = x\<rparr> ctx =
      Done (v, Canonical, \<lparr>cap_buf = rest, cap_extra = x\<rparr>)"
    using packed_dist_eq by (simp add: packed_codec_def)
qed (use packed_dist_relaxed packed_dist_canonical packed_dist_no_panic in \<open>simp_all add: packed_codec_def\<close>)

end

end
