(* ===== verification/Field_Laws.thy ===== *)
theory Field_Laws
  imports Packed
begin

text \<open>
  What every encoding of a field promises to the message around it. A field value stands for a list of
  parts, each a wire type and the bytes of a value; \<open>writes_parts\<close>, \<open>prepends_parts\<close> and
  \<open>measures_parts\<close> say that a step of the three kinds of writers handles exactly the given parts of
  a message, and compose. The locale \<open>field_contract\<close> and its distinguished extension state the laws
  of a field codec; plain, optional, packed and unpacked fields keep them over every item codec
  that keeps the laws of \<open>Codec\<close>.
\<close>

section \<open>Steps that write parts of a message\<close>

primrec final_tag :: "u32 \<Rightarrow> raw_part list \<Rightarrow> u32" where
  "final_tag t [] = t"
| "final_tag t (p # ps) = final_tag (fst p) ps"

lemma fields_bytes_append: "fields_bytes t (ps @ qs) = fields_bytes t ps @ fields_bytes (final_tag t ps) qs"
  by (induction t ps rule: fields_bytes.induct) auto

lemma tags_ascend_append: "tags_ascend t (ps @ qs) \<longleftrightarrow> tags_ascend t ps \<and> tags_ascend (final_tag t ps) qs"
  by (induction t ps rule: tags_ascend.induct) auto

lemma final_tag_append [simp]: "final_tag t (ps @ qs) = final_tag (final_tag t ps) qs"
  by (induction ps arbitrary: t) auto

definition writes_parts :: "raw_part list \<Rightarrow> (tag_writer \<Rightarrow> bytes \<Rightarrow> (tag_writer \<times> bytes) option) \<Rightarrow> bool" where
  "writes_parts ps step \<longleftrightarrow> (\<forall>tw buf. tags_ascend (tw_last_tag tw) ps \<longrightarrow>
     step tw buf = Some (\<lparr>tw_last_tag = final_tag (tw_last_tag tw) ps\<rparr>,
       buf @ fields_bytes (tw_last_tag tw) ps))"

definition measures_parts :: "raw_part list \<Rightarrow> (tag_measurer \<Rightarrow> (nat \<times> tag_measurer) option) \<Rightarrow> bool" where
  "measures_parts ps step \<longleftrightarrow> (\<forall>tm. tags_ascend (tm_last_tag tm) ps \<longrightarrow>
     step tm = Some (length (fields_bytes (tm_last_tag tm) ps), \<lparr>tm_last_tag = final_tag (tm_last_tag tm) ps\<rparr>))"

lemma writes_partsI:
  "(\<And>t buf. tags_ascend t ps \<Longrightarrow>
      step \<lparr>tw_last_tag = t\<rparr> buf = Some (\<lparr>tw_last_tag = final_tag t ps\<rparr>, buf @ fields_bytes t ps)) \<Longrightarrow>
   writes_parts ps step"
  unfolding writes_parts_def by (metis (full_types) tag_writer.cases tag_writer.simps(1))

lemma writes_partsD:
  "writes_parts ps step \<Longrightarrow> tags_ascend t ps \<Longrightarrow>
   step \<lparr>tw_last_tag = t\<rparr> buf = Some (\<lparr>tw_last_tag = final_tag t ps\<rparr>, buf @ fields_bytes t ps)"
  by (simp add: writes_parts_def)

lemma measures_partsI:
  "(\<And>t. tags_ascend t ps \<Longrightarrow>
      step \<lparr>tm_last_tag = t\<rparr> = Some (length (fields_bytes t ps), \<lparr>tm_last_tag = final_tag t ps\<rparr>)) \<Longrightarrow>
   measures_parts ps step"
  unfolding measures_parts_def by (metis (full_types) tag_measurer.cases tag_measurer.simps(1))

lemma measures_partsD:
  "measures_parts ps step \<Longrightarrow> tags_ascend t ps \<Longrightarrow>
   step \<lparr>tm_last_tag = t\<rparr> = Some (length (fields_bytes t ps), \<lparr>tm_last_tag = final_tag t ps\<rparr>)"
  by (simp add: measures_parts_def)

lemma writes_parts_Nil: "writes_parts [] (\<lambda>tw buf. Some (tw, buf))"
  by (rule writes_partsI) simp

lemma measures_parts_Nil: "measures_parts [] (\<lambda>tm. Some (0, tm))"
  by (rule measures_partsI) simp

lemma writes_parts_comp:
  "writes_parts ps f \<Longrightarrow> writes_parts qs g \<Longrightarrow>
   writes_parts (ps @ qs) (\<lambda>tw buf. f tw buf \<bind> (\<lambda>(tw, buf). g tw buf))"
  by (rule writes_partsI) (simp add: tags_ascend_append writes_partsD fields_bytes_append)

lemma measures_parts_comp:
  "measures_parts ps f \<Longrightarrow> measures_parts qs g \<Longrightarrow>
   measures_parts (ps @ qs) (\<lambda>tm. f tm \<bind> (\<lambda>(m, tm). g tm \<bind> (\<lambda>(n, tm). Some (m + n, tm))))"
  by (rule measures_partsI) (simp add: tags_ascend_append measures_partsD fields_bytes_append)

text \<open>Between two fields the prepending writer holds back the key of the field it wrote last.\<close>

context rev_buf_contract
begin

definition pending :: "raw_part list \<Rightarrow> bytes \<Rightarrow> tag_rev_writer \<times> 'r \<Rightarrow> bool" where
  "pending ps rest st \<longleftrightarrow> rinv (snd st) \<and>
     (case ps of
        [] \<Rightarrow> trw_current_key (fst st) = None \<and> rcontents (snd st) = rest
      | (tag, wt, val) # qs \<Rightarrow> trw_current_key (fst st) = Some (tag, wt) \<and>
          rcontents (snd st) = val @ fields_bytes tag qs @ rest)"

definition prepends_parts ::
    "raw_part list \<Rightarrow> (tag_rev_writer \<times> 'r \<Rightarrow> (tag_rev_writer \<times> 'r) option) \<Rightarrow> bool" where
  "prepends_parts ps step \<longleftrightarrow> (\<forall>qs rest st. pending qs rest st \<longrightarrow> tags_ascend 0 (ps @ qs) \<longrightarrow>
     (\<exists>st'. step st = Some st' \<and> pending (ps @ qs) rest st'))"

lemma prepends_parts_Nil: "prepends_parts [] Some"
  by (simp add: prepends_parts_def)

lemma prepends_parts_comp:
  assumes "prepends_parts qs f" and "prepends_parts ps g"
  shows "prepends_parts (ps @ qs) (\<lambda>st. f st \<bind> g)"
  unfolding prepends_parts_def
proof (intro allI impI)
  fix rs rest st
  assume st: "pending rs rest st" and ts: "tags_ascend 0 ((ps @ qs) @ rs)"
  have "tags_ascend 0 (qs @ rs)"
    using ts by (cases "qs @ rs") (auto simp: tags_ascend_append)
  then obtain st1 where 1: "f st = Some st1" "pending (qs @ rs) rest st1"
    using assms(1) st unfolding prepends_parts_def by blast
  moreover obtain st2 where "g st1 = Some st2" "pending (ps @ qs @ rs) rest st2"
    using assms(2) 1(2) ts unfolding prepends_parts_def by fastforce
  ultimately show "\<exists>st'. f st \<bind> g = Some st' \<and> pending ((ps @ qs) @ rs) rest st'" by simp
qed

lemma begin_field_pending:
  assumes st: "pending qs rest st" and ts: "tags_ascend tag qs"
  shows "\<exists>trw r. begin_field rops tag wt st = Some (trw, r) \<and> rinv r \<and>
    trw_current_key trw = Some (tag, wt) \<and> rcontents r = fields_bytes tag qs @ rest"
proof -
  obtain trw r where r: "st = (trw, r)" by (cases st)
  show ?thesis
  proof (cases qs)
    case Nil
    then show ?thesis using st r by (simp add: pending_def begin_field_def)
  next
    case (Cons q qs')
    obtain tag' wt' val' where q: "q = (tag', wt', val')" by (cases q)
    have 1: "rinv r" "trw_current_key trw = Some (tag', wt')"
      "rcontents r = val' @ fields_bytes tag' qs' @ rest" "tag \<le> tag'"
      using st ts Cons q r by (auto simp: pending_def)
    obtain r1 where "prepend_varint rops (key_of (tag' - tag) wt') r = Some r1" "rinv r1"
      "rcontents r1 = varint_bytes (key_of (tag' - tag) wt') @ rcontents r"
      using prependsE [OF prepends_key 1(1)] by metis
    then show ?thesis using 1 Cons q r by (simp add: begin_field_def checked_sub_u32_def)
  qed
qed

lemma prepends_parts_field:
  assumes "prepends val step"
  shows "prepends_parts [(tag, wt, val)] (\<lambda>st. begin_field rops tag wt st \<bind>
    (\<lambda>(trw, buf). step buf \<bind> (\<lambda>buf. Some (trw, buf))))"
  unfolding prepends_parts_def
proof (intro allI impI)
  fix qs rest st
  assume st: "pending qs rest st" and ts: "tags_ascend 0 ([(tag, wt, val)] @ qs)"
  obtain trw r where 1: "begin_field rops tag wt st = Some (trw, r)" "rinv r"
    "trw_current_key trw = Some (tag, wt)" "rcontents r = fields_bytes tag qs @ rest"
    using begin_field_pending [OF st, of tag wt] ts by auto
  obtain r1 where "step r = Some r1" "rinv r1" "rcontents r1 = val @ rcontents r"
    using assms 1(2) by (rule prependsE)
  then show "\<exists>st'. begin_field rops tag wt st \<bind> (\<lambda>(trw, buf). step buf \<bind> (\<lambda>buf. Some (trw, buf))) = Some st' \<and>
      pending ([(tag, wt, val)] @ qs) rest st'"
    using 1 by (simp add: pending_def)
qed

lemma pending_new: "rinv r \<Longrightarrow> pending [] (rcontents r) (tag_rev_writer_new, r)"
  by (simp add: pending_def tag_rev_writer_new_def)

lemma finalize_pending:
  assumes "pending ps rest st"
  shows "\<exists>r. trw_finalize rops st = Some (tag_rev_writer_new, r) \<and> rinv r \<and>
    rcontents r = fields_bytes 0 ps @ rest"
proof -
  obtain trw r where r: "st = (trw, r)" by (cases st)
  show ?thesis
  proof (cases ps)
    case Nil
    then show ?thesis
      using assms r by (cases trw) (simp add: pending_def trw_finalize_def tag_rev_writer_new_def)
  next
    case (Cons p qs)
    obtain tag wt val where p: "p = (tag, wt, val)" by (cases p)
    have 1: "rinv r" "trw_current_key trw = Some (tag, wt)" "rcontents r = val @ fields_bytes tag qs @ rest"
      using assms Cons p r by (auto simp: pending_def)
    obtain r1 where "prepend_varint rops (key_of tag wt) r = Some r1" "rinv r1"
      "rcontents r1 = varint_bytes (key_of tag wt) @ rcontents r"
      using prependsE [OF prepends_key 1(1)] by metis
    then show ?thesis
      using 1 Cons p r by (cases trw) (simp add: trw_finalize_def tag_rev_writer_new_def)
  qed
qed

end

section \<open>The contract of a field\<close>

type_synonym value_part = "wire_type \<times> bytes"

definition tagged :: "u32 \<Rightarrow> value_part list \<Rightarrow> raw_part list" where
  "tagged tag ps = map (\<lambda>(wt, val). (tag, wt, val)) ps"

text \<open>Further values of the same field, each behind the one-byte key of a repeated tag.\<close>

fun run_bytes :: "value_part list \<Rightarrow> bytes" where
  "run_bytes [] = []"
| "run_bytes ((wt, val) # ps) = of_nat (wire_nat wt) # val @ run_bytes ps"

definition ends_field :: "bytes \<Rightarrow> nat \<Rightarrow> bool" where
  "ends_field rest x \<longleftrightarrow> x \<le> length rest \<and> (length rest = x \<or> 4 \<le> hd rest)"

lemma tagged_simps [simp]:
  "tagged tag [] = []" "tagged tag ((wt, val) # ps) = (tag, wt, val) # tagged tag ps"
  "tagged tag (ps @ qs) = tagged tag ps @ tagged tag qs"
  by (simp_all add: tagged_def)

lemma tagged_Nil_iff [simp]: "tagged tag ps = [] \<longleftrightarrow> ps = []"
  by (simp add: tagged_def)

lemma varint_repeated_key: "varint_bytes (key_of 0 wt) = [of_nat (wire_nat wt)]"
proof -
  have "key_of 0 wt < 0x80" using wire_nat_less [of wt] by (simp add: word_less_nat_alt unat_key_of)
  moreover have "(ucast (key_of 0 wt) :: u8) = of_nat (wire_nat wt)"
    using wire_nat_less [of wt] by (simp add: word_unat_eq_iff unat_ucast unat_key_of unat_of_nat)
  ultimately show ?thesis by (simp add: varint_bytes_small)
qed

lemma unat_wire_key [simp]: "unat (of_nat (wire_nat wt) :: u8) = wire_nat wt"
  using wire_nat_less [of wt] by (simp add: unat_of_nat)

lemma wire_key_less [simp]: "(of_nat (wire_nat wt) :: u8) < 4" "\<not> 4 \<le> (of_nat (wire_nat wt) :: u8)"
  using wire_nat_less [of wt] by (simp_all add: word_less_nat_alt word_le_nat_alt)

lemma fields_bytes_tagged: "fields_bytes tag (tagged tag ps) = run_bytes ps"
  by (induction ps) (auto simp: varint_repeated_key)

lemma final_tag_tagged: "final_tag t (tagged tag ps) = (if ps = [] then t else tag)"
  by (induction ps arbitrary: t) auto

lemma tags_ascend_tagged [simp]: "tags_ascend tag (tagged tag ps)"
  by (induction ps) auto

locale field_contract = rev_buf_contract rops rcontents rinv
  for rops :: "'r rev_ops" and rcontents :: "'r \<Rightarrow> bytes" and rinv :: "'r \<Rightarrow> bool" +
  fixes fc :: "('t, 'r) field_codec"
    and es :: "'t empty_state"
    and parts :: "'t \<Rightarrow> value_part list"
    and valid :: "'t \<Rightarrow> bool"
    and depth :: "'t \<Rightarrow> nat"
  assumes empty: "valid (es_empty es)"
    and is_empty: "valid v \<Longrightarrow> es_is_empty es v \<longleftrightarrow> v = es_empty es"
    and clear: "valid v \<Longrightarrow> es_clear es v = es_empty es"
    and parts_Nil: "valid v \<Longrightarrow> parts v = [] \<longleftrightarrow> v = es_empty es"
    and encode: "valid v \<Longrightarrow> writes_parts (tagged tag (parts v)) (f_encode fc tag v)"
    and prepend: "valid v \<Longrightarrow> prepends_parts (tagged tag (parts v)) (f_prepend fc tag v)"
    and len: "valid v \<Longrightarrow> measures_parts (tagged tag (parts v)) (f_len fc tag v)"
    and decode: "valid v \<Longrightarrow> depth v \<le> unat (recurse_count ctx) \<Longrightarrow> parts v = (wt, val) # ps \<Longrightarrow>
      ends_field rest x \<Longrightarrow>
      f_decode fc wt (es_empty es) \<lparr>cap_buf = val @ run_bytes ps @ rest, cap_extra = x\<rparr> ctx =
        Done (v, \<lparr>cap_buf = rest, cap_extra = x\<rparr>)"
    and decode_frame: "f_decode fc wt v0 cp ctx = Done (v, cp') \<Longrightarrow>
      cap_extra cp' = cap_extra cp \<and> (\<exists>p. cap_buf cp = p @ cap_buf cp')"
    and decode_no_panic: "f_decode fc wt v0 cp ctx \<noteq> Panic"

locale distinguished_field_contract = field_contract rops rcontents rinv fc es parts valid depth
  for rops :: "'r rev_ops" and rcontents :: "'r \<Rightarrow> bytes" and rinv :: "'r \<Rightarrow> bool"
    and fc :: "('t, 'r) field_codec" and es :: "'t empty_state" and parts :: "'t \<Rightarrow> value_part list"
    and valid :: "'t \<Rightarrow> bool" and depth :: "'t \<Rightarrow> nat" +
  assumes dist_relaxed: "f_decode_dist fc wt (es_empty es) cp ctx = Done (v, k, cp') \<Longrightarrow>
      f_decode fc wt (es_empty es) cp (into_inner ctx) = Done (v, cp') \<and> rc_min_canonicity ctx \<le> k"
    and dist_canonical: "f_decode_dist fc wt (es_empty es) cp ctx = Done (v, Canonical, cp') \<Longrightarrow>
      length (cap_buf cp) < 2 ^ 64 \<Longrightarrow>
      \<exists>val ps. parts v = (wt, val) # ps \<and> cap_buf cp = val @ run_bytes ps @ cap_buf cp' \<and> valid v"
    and dist_complete: "valid v \<Longrightarrow> depth v \<le> unat (recurse_count (into_inner ctx)) \<Longrightarrow>
      parts v = (wt, val) # ps \<Longrightarrow> ends_field rest x \<Longrightarrow>
      f_decode_dist fc wt (es_empty es) \<lparr>cap_buf = val @ run_bytes ps @ rest, cap_extra = x\<rparr> ctx =
        Done (v, Canonical, \<lparr>cap_buf = rest, cap_extra = x\<rparr>)"
    and dist_no_panic: "f_decode_dist fc wt (es_empty es) cp ctx \<noteq> Panic"

section \<open>Fields with one value\<close>

context value_codec
begin

lemma encode_field_parts: "valid v \<Longrightarrow> writes_parts [(tag, c_wire c, enc v)] (encode_field c tag v)"
  by (rule writes_partsI) (simp add: encode_field_def encode_key_eq encode)

lemma field_len_parts: "valid v \<Longrightarrow> measures_parts [(tag, c_wire c, enc v)] (field_encoded_len c tag v)"
  by (rule measures_partsI) (simp add: field_encoded_len_def runtime_key_len_def checked_sub_u32_def
      encoded_len_key [of _ "c_wire c"] len)

lemma prepend_field_parts: "valid v \<Longrightarrow> prepends_parts [(tag, c_wire c, enc v)] (prepend_field rops c tag v)"
  unfolding prepend_field_def [abs_def] by (rule prepends_parts_field [OF prepends])

lemma decode_field_frame:
  "decode_field c wt v0 cp ctx = Done (v, cp') \<Longrightarrow>
    cap_extra cp' = cap_extra cp \<and> (\<exists>p. cap_buf cp = p @ cap_buf cp')"
  using decode_frame by (fastforce simp: decode_field_def)

lemma decode_field_no_panic: "decode_field c wt v0 cp ctx \<noteq> Panic"
  by (simp add: decode_field_def check_wire_type_def decode_no_panic)

end

section \<open>Plain fields\<close>

definition one_part :: "('v, 'r) codec \<Rightarrow> ('v \<Rightarrow> bytes) \<Rightarrow> 'v empty_state \<Rightarrow> 'v \<Rightarrow> value_part list" where
  "one_part c enc es v = (if v = es_empty es then [] else [(c_wire c, enc v)])"

text \<open>The empty state of a type suits its codec.\<close>

definition suits :: "('v, 'r) codec \<Rightarrow> ('v \<Rightarrow> bytes) \<Rightarrow> ('v \<Rightarrow> bool) \<Rightarrow> 'v empty_state \<Rightarrow> bool" where
  "suits c enc valid es \<longleftrightarrow> valid (es_empty es) \<and> c_for_overwrite c = es_empty es \<and>
     (\<forall>v. valid v \<longrightarrow> (es_is_empty es v \<longleftrightarrow> v = es_empty es) \<and> es_clear es v = es_empty es) \<and>
     (c_checks_empty c \<longrightarrow> (\<forall>v. valid v \<longrightarrow> enc v = [0] \<longleftrightarrow> v = es_empty es))"

lemma suits_default:
  "c_for_overwrite c = d \<Longrightarrow> valid d \<Longrightarrow> \<not> c_checks_empty c \<Longrightarrow> suits c enc valid (default_empty_state d)"
  by (simp add: suits_def default_empty_state_def)

context value_codec
begin

lemma plain_field_laws:
  assumes es: "suits c enc valid es"
  shows "field_contract rops rcontents rinv (plain_field rops c es) es (one_part c enc es) valid depth"
proof unfold_locales
  have e: "valid (es_empty es)" "c_for_overwrite c = es_empty es"
    "\<And>v. valid v \<Longrightarrow> es_is_empty es v \<longleftrightarrow> v = es_empty es" "\<And>v. valid v \<Longrightarrow> es_clear es v = es_empty es"
    using es by (auto simp: suits_def)
  show "valid (es_empty es)" by (rule e)
  fix v v0 tag wt val ps rest x cp cp' ctx
  show "f_decode (plain_field rops c es) wt v0 cp ctx \<noteq> Panic"
    by (simp add: plain_field_def plain_decode_def decode_field_no_panic)
  show "cap_extra cp' = cap_extra cp \<and> (\<exists>p. cap_buf cp = p @ cap_buf cp')"
    if "f_decode (plain_field rops c es) wt v0 cp ctx = Done (v, cp')"
    using decode_field_frame that by (simp add: plain_field_def plain_decode_def)
  assume v: "valid v"
  show "es_is_empty es v \<longleftrightarrow> v = es_empty es" "es_clear es v = es_empty es"
    using e v by auto
  show "one_part c enc es v = [] \<longleftrightarrow> v = es_empty es" by (simp add: one_part_def)
  show "writes_parts (tagged tag (one_part c enc es v)) (f_encode (plain_field rops c es) tag v)"
    using encode_field_parts [OF v] writes_parts_Nil e(3) [OF v]
    by (simp add: plain_field_def plain_encode_def [abs_def] one_part_def)
  show "prepends_parts (tagged tag (one_part c enc es v)) (f_prepend (plain_field rops c es) tag v)"
    using prepend_field_parts [OF v] prepends_parts_Nil e(3) [OF v]
    by (simp add: plain_field_def plain_prepend_def [abs_def] one_part_def)
  show "measures_parts (tagged tag (one_part c enc es v)) (f_len (plain_field rops c es) tag v)"
    using field_len_parts [OF v] measures_parts_Nil e(3) [OF v]
    by (simp add: plain_field_def plain_encoded_len_def [abs_def] one_part_def)
  assume "depth v \<le> unat (recurse_count ctx)" "one_part c enc es v = (wt, val) # ps" "ends_field rest x"
  then show "f_decode (plain_field rops c es) wt (es_empty es) \<lparr>cap_buf = val @ run_bytes ps @ rest, cap_extra = x\<rparr> ctx =
      Done (v, \<lparr>cap_buf = rest, cap_extra = x\<rparr>)"
    using decode_field_eq [OF v] e(2)
    by (auto simp: plain_field_def plain_decode_def one_part_def ends_field_def split: if_splits)
qed

end

context distinguished_codec
begin

lemma plain_distinguished_laws:
  assumes es: "suits c enc valid es"
  shows "distinguished_field_contract rops rcontents rinv (plain_field rops c es) es (one_part c enc es) valid depth"
proof (intro distinguished_field_contract.intro plain_field_laws [OF es] distinguished_field_contract_axioms.intro)
  have e: "c_for_overwrite c = es_empty es" "\<And>v. valid v \<Longrightarrow> es_is_empty es v \<longleftrightarrow> v = es_empty es"
    "\<And>v. c_checks_empty c \<Longrightarrow> valid v \<Longrightarrow> enc v = [0] \<longleftrightarrow> v = es_empty es"
    using es by (auto simp: suits_def)
  fix v v0 k wt val ps x cp cp' ctx and rest :: bytes
  show "f_decode_dist (plain_field rops c es) wt (es_empty es) cp ctx \<noteq> Panic"
    using dist_no_panic [unfolded e(1)] by (auto simp: plain_field_def plain_decode_distinguished_def decode_field_distinguished_def
        obind_Panic_iff check_wire_type_def)
  show "f_decode (plain_field rops c es) wt (es_empty es) cp (into_inner ctx) = Done (v, cp') \<and>
      rc_min_canonicity ctx \<le> k"
    if d: "f_decode_dist (plain_field rops c es) wt (es_empty es) cp ctx = Done (v, k, cp')"
  proof -
    obtain k' where k': "check_wire_type (c_wire c) wt = Done ()"
      "c_decode_dist c False (es_empty es) cp ctx = Done (v, k', cp')"
      "rc_min_canonicity ctx \<le> k' \<longrightarrow> rc_min_canonicity ctx \<le> k"
      using d by (auto simp: plain_field_def plain_decode_distinguished_def
          decode_field_distinguished_def canonicity_update_def split: if_splits)
    then show ?thesis
      using dist_relaxed [unfolded e(1), OF k'(2)]
      by (auto simp: plain_field_def plain_decode_def decode_field_def e(1))
  qed
  show "\<exists>val ps. one_part c enc es v = (wt, val) # ps \<and> cap_buf cp = val @ run_bytes ps @ cap_buf cp' \<and> valid v"
    if "f_decode_dist (plain_field rops c es) wt (es_empty es) cp ctx = Done (v, Canonical, cp')"
      "length (cap_buf cp) < 2 ^ 64"
  proof -
    have k': "check_wire_type (c_wire c) wt = Done ()"
      "c_decode_dist c False (c_for_overwrite c) cp ctx = Done (v, Canonical, cp')"
      "c_checks_empty c \<or> \<not> es_is_empty es v"
      using that(1) by (auto simp: plain_field_def plain_decode_distinguished_def e(1)
          decode_field_distinguished_def canonicity_update_def split: if_splits)
    note bytes = dist_canonical [OF k'(2) that(2)]
    have "v \<noteq> es_empty es"
      using k'(3) bytes e(2,3) dist_nonempty [OF _ k'(2) that(2)] by blast
    then show ?thesis
      using bytes k'(1) by (auto simp: one_part_def check_wire_type_def split: if_splits)
  qed
  show "f_decode_dist (plain_field rops c es) wt (es_empty es) \<lparr>cap_buf = val @ run_bytes ps @ rest, cap_extra = x\<rparr> ctx =
      Done (v, Canonical, \<lparr>cap_buf = rest, cap_extra = x\<rparr>)"
    if v: "valid v" "depth v \<le> unat (recurse_count (into_inner ctx))"
      "one_part c enc es v = (wt, val) # ps" "ends_field rest x"
  proof -
    have "v \<noteq> es_empty es" "wt = c_wire c" "val = enc v" "ps = []"
      using v(3) by (auto simp: one_part_def split: if_splits)
    then show ?thesis
      using dist_complete [OF v(1,2), of x rest False] v(4) e(2,3) v(1)
      by (auto simp: plain_field_def plain_decode_distinguished_def decode_field_distinguished_def
          check_wire_type_def ends_field_def e(1))
  qed
qed

end

section \<open>Optional fields\<close>

definition option_parts :: "('v, 'r) codec \<Rightarrow> ('v \<Rightarrow> bytes) \<Rightarrow> 'v option \<Rightarrow> value_part list" where
  "option_parts c enc v = (case v of None \<Rightarrow> [] | Some v \<Rightarrow> [(c_wire c, enc v)])"

context value_codec
begin

lemma option_field_laws:
  "field_contract rops rcontents rinv (option_field rops c) option_empty_state (option_parts c enc)
    (pred_option valid) (case_option 0 depth)"
proof unfold_locales
  fix v v0 :: "'v option" and tag wt val ps rest x cp cp' ctx
  show "f_decode (option_field rops c) wt v0 cp ctx \<noteq> Panic"
    by (auto simp: option_field_def option_decode_def obind_Panic_iff decode_field_no_panic)
  show "cap_extra cp' = cap_extra cp \<and> (\<exists>p. cap_buf cp = p @ cap_buf cp')"
    if "f_decode (option_field rops c) wt v0 cp ctx = Done (v, cp')"
    using that decode_field_frame by (auto simp: option_field_def option_decode_def)
  assume v: "pred_option valid v"
  show "option_parts c enc v = [] \<longleftrightarrow> v = es_empty option_empty_state"
    by (simp add: option_parts_def option_empty_state_def split: option.split)
  show "writes_parts (tagged tag (option_parts c enc v)) (f_encode (option_field rops c) tag v)"
    using encode_field_parts writes_parts_Nil v
    by (cases v) (simp_all add: option_field_def option_encode_def [abs_def] option_parts_def)
  show "prepends_parts (tagged tag (option_parts c enc v)) (f_prepend (option_field rops c) tag v)"
    using prepend_field_parts prepends_parts_Nil v
    by (cases v) (simp_all add: option_field_def option_prepend_def [abs_def] option_parts_def)
  show "measures_parts (tagged tag (option_parts c enc v)) (f_len (option_field rops c) tag v)"
    using field_len_parts measures_parts_Nil v
    by (cases v) (simp_all add: option_field_def option_encoded_len_def [abs_def] option_parts_def)
  assume "case_option 0 depth v \<le> unat (recurse_count ctx)" "option_parts c enc v = (wt, val) # ps"
    "ends_field rest x"
  then show "f_decode (option_field rops c) wt (es_empty option_empty_state)
      \<lparr>cap_buf = val @ run_bytes ps @ rest, cap_extra = x\<rparr> ctx = Done (v, \<lparr>cap_buf = rest, cap_extra = x\<rparr>)"
    using option_decode_eq v
    by (auto simp: option_field_def option_parts_def option_empty_state_def ends_field_def split: option.splits)
qed (simp_all add: option_empty_state_def)

end

context distinguished_codec
begin

lemma option_distinguished_laws:
  "distinguished_field_contract rops rcontents rinv (option_field rops c) option_empty_state (option_parts c enc)
    (pred_option valid) (case_option 0 depth)"
proof (intro distinguished_field_contract.intro option_field_laws distinguished_field_contract_axioms.intro)
  fix v v0 :: "'v option" and k wt val ps x cp cp' ctx and rest :: bytes
  show "f_decode_dist (option_field rops c) wt (es_empty option_empty_state) cp ctx \<noteq> Panic"
    by (auto simp: option_field_def option_decode_distinguished_def obind_Panic_iff dist_no_panic
        check_wire_type_def option_empty_state_def get_or_insert_def)
  show "f_decode (option_field rops c) wt (es_empty option_empty_state) cp (into_inner ctx) = Done (v, cp') \<and>
      rc_min_canonicity ctx \<le> k"
    if "f_decode_dist (option_field rops c) wt (es_empty option_empty_state) cp ctx = Done (v, k, cp')"
    using that dist_relaxed
    by (fastforce simp: option_field_def option_decode_distinguished_def option_decode_def
        option_empty_state_def get_or_insert_def decode_field_def)
  show "\<exists>val ps. option_parts c enc v = (wt, val) # ps \<and> cap_buf cp = val @ run_bytes ps @ cap_buf cp' \<and>
      pred_option valid v"
    if "f_decode_dist (option_field rops c) wt (es_empty option_empty_state) cp ctx = Done (v, Canonical, cp')"
      "length (cap_buf cp) < 2 ^ 64"
    using that dist_canonical
    by (fastforce simp: option_field_def option_decode_distinguished_def option_empty_state_def
        get_or_insert_def check_wire_type_def option_parts_def split: if_splits)
  show "f_decode_dist (option_field rops c) wt (es_empty option_empty_state)
      \<lparr>cap_buf = val @ run_bytes ps @ rest, cap_extra = x\<rparr> ctx = Done (v, Canonical, \<lparr>cap_buf = rest, cap_extra = x\<rparr>)"
    if "pred_option valid v" "case_option 0 depth v \<le> unat (recurse_count (into_inner ctx))"
      "option_parts c enc v = (wt, val) # ps" "ends_field rest x"
    using that dist_complete [where allow = True]
    by (auto simp: option_field_def option_decode_distinguished_def option_empty_state_def
        get_or_insert_def check_wire_type_def option_parts_def ends_field_def split: option.splits)
qed

end

section \<open>Repeated fields\<close>

definition collection_empty_state :: "('c, 't) collection \<Rightarrow> 'c empty_state" where
  "collection_empty_state col = \<lparr>es_empty = col_empty col, es_is_empty = col_is_empty col,
     es_clear = (\<lambda>_. col_empty col)\<rparr>"

definition item_parts :: "('t, 'r) codec \<Rightarrow> ('t \<Rightarrow> bytes) \<Rightarrow> 't list \<Rightarrow> value_part list" where
  "item_parts c enc xs = map (\<lambda>x. (c_wire c, enc x)) xs"

definition unpacked_valid :: "('t \<Rightarrow> bool) \<Rightarrow> ('c, 't) collection \<Rightarrow> ('c \<Rightarrow> bool) \<Rightarrow> 'c \<Rightarrow> bool" where
  "unpacked_valid valid col cvalid v \<longleftrightarrow> cvalid v \<and> (\<forall>x \<in> set (col_iter col v). valid x)"

lemma item_parts_simps [simp]:
  "item_parts c enc [] = []"
  "item_parts c enc (x # xs) = (c_wire c, enc x) # item_parts c enc xs"
  by (simp_all add: item_parts_def)

lemma peek_run:
  "ends_field rest x \<Longrightarrow>
   peek_repeated_field slice_ops \<lparr>cap_buf = run_bytes (item_parts c enc xs) @ rest, cap_extra = x\<rparr> =
    (case xs of
       [] \<Rightarrow> Done (None, \<lparr>cap_buf = rest, cap_extra = x\<rparr>)
     | y # ys \<Rightarrow> Done (Some (c_wire c),
         \<lparr>cap_buf = enc y @ run_bytes (item_parts c enc ys) @ rest, cap_extra = x\<rparr>))"
  by (cases xs) (auto simp: peek_repeated_field_slice ends_field_def)

context repeated_values
begin

lemma encode_fields_parts:
  "\<forall>x \<in> set xs. valid x \<Longrightarrow> writes_parts (tagged tag (item_parts c enc xs)) (encode_fields c tag xs)"
proof (induction xs)
  case Nil
  then show ?case using writes_parts_Nil by (simp add: fun_eq_iff writes_parts_def)
next
  case (Cons x xs)
  then have "writes_parts ([(tag, c_wire c, enc x)] @ tagged tag (item_parts c enc xs))
      (\<lambda>tw buf. encode_field c tag x tw buf \<bind> (\<lambda>(tw, buf). encode_fields c tag xs tw buf))"
    by (intro writes_parts_comp encode_field_parts) auto
  then show ?case by (simp add: writes_parts_def)
qed

lemma prepend_field_list_parts:
  "\<forall>x \<in> set xs. valid x \<Longrightarrow>
   prepends_parts (tagged tag (item_parts c enc (rev xs))) (prepend_field_list rops c tag xs)"
proof (induction xs)
  case Nil
  then show ?case using prepends_parts_Nil by (simp add: prepends_parts_def)
next
  case (Cons x xs)
  then have "prepends_parts (tagged tag (item_parts c enc (rev xs)) @ [(tag, c_wire c, enc x)])
      (\<lambda>st. prepend_field rops c tag x st \<bind> prepend_field_list rops c tag xs)"
    by (intro prepends_parts_comp prepend_field_parts) auto
  then show ?case by (simp add: prepends_parts_def item_parts_def)
qed

lemma length_run_bytes:
  "length (run_bytes (item_parts c enc xs)) = sum_list (map (\<lambda>x. length (enc x)) xs) + length xs"
  by (induction xs) auto

lemma unpacked_len_parts:
  assumes v: "unpacked_valid valid col cvalid v"
  shows "measures_parts (tagged tag (item_parts c enc (col_iter col v))) (unpacked_encoded_len c col tag v)"
proof (rule measures_partsI)
  fix t assume t: "tags_ascend t (tagged tag (item_parts c enc (col_iter col v)))"
  have v': "cvalid v" "\<forall>x \<in> set (col_iter col v). valid x" using v by (auto simp: unpacked_valid_def)
  show "unpacked_encoded_len c col tag v \<lparr>tm_last_tag = t\<rparr> =
      Some (length (fields_bytes t (tagged tag (item_parts c enc (col_iter col v)))),
        \<lparr>tm_last_tag = final_tag t (tagged tag (item_parts c enc (col_iter col v)))\<rparr>)"
  proof (cases "col_iter col v")
    case Nil
    then show ?thesis using v' by (simp add: unpacked_encoded_len_def len)
  next
    case (Cons x xs)
    then show ?thesis
      using v' t many_len [of "col_iter col v"] encoded_len_key [of "tag - t" "c_wire c"]
      by (auto simp: unpacked_encoded_len_def len runtime_key_len_def checked_sub_u32_def
          fields_bytes_tagged length_run_bytes final_tag_tagged)
  qed
qed

lemma unpacked_loop_complete:
  assumes "cvalid p" and "cvalid v" and "col_iter col v = col_iter col p @ y # xs"
    and "\<forall>x \<in> set (y # xs). valid x" and "list_depth depth (y # xs) \<le> unat (recurse_count ctx)"
    and "ends_field rest x" and "length xs < fuel"
  shows "unpacked_loop c col fuel p
      \<lparr>cap_buf = enc y @ run_bytes (item_parts c enc xs) @ rest, cap_extra = x\<rparr> ctx =
    Done (v, \<lparr>cap_buf = rest, cap_extra = x\<rparr>)"
  using assms
proof (induction xs arbitrary: p y fuel)
  case Nil
  obtain f where f: "fuel = Suc f" using Nil.prems by (cases fuel) auto
  obtain p' where p': "col_insert col y p = Done p'" "cvalid p'" "col_iter col p' = col_iter col p @ [y]"
    using insert_next [OF Nil.prems(1,2)] Nil.prems(3) by auto
  have "p' = v" using p' Nil.prems(2,3) ext by auto
  moreover have "c_decode c (c_for_overwrite c) \<lparr>cap_buf = enc y @ rest, cap_extra = x\<rparr> ctx =
      Done (y, \<lparr>cap_buf = rest, cap_extra = x\<rparr>)"
    using Nil.prems(4,5,6) by (intro decode) (simp_all add: list_depth_def ends_field_def)
  ultimately show ?case
    using f p' peek_run [OF Nil.prems(6), of c enc "[]"] by simp
next
  case (Cons z xs)
  obtain f where f: "fuel = Suc f" using Cons.prems by (cases fuel) auto
  obtain p' where p': "col_insert col y p = Done p'" "cvalid p'" "col_iter col p' = col_iter col p @ [y]"
    using insert_next [OF Cons.prems(1,2)] Cons.prems(3) by auto
  have dec: "c_decode c (c_for_overwrite c)
      \<lparr>cap_buf = enc y @ run_bytes (item_parts c enc (z # xs)) @ rest, cap_extra = x\<rparr> ctx =
      Done (y, \<lparr>cap_buf = run_bytes (item_parts c enc (z # xs)) @ rest, cap_extra = x\<rparr>)"
    using Cons.prems(4,5,6) by (intro decode) (simp_all add: list_depth_def ends_field_def)
  have "unpacked_loop c col f p'
      \<lparr>cap_buf = enc z @ run_bytes (item_parts c enc xs) @ rest, cap_extra = x\<rparr> ctx =
      Done (v, \<lparr>cap_buf = rest, cap_extra = x\<rparr>)"
    using Cons.prems p' f by (intro Cons.IH) (auto simp: list_depth_def)
  then show ?case
    using f p' dec peek_run [OF Cons.prems(6), of c enc "z # xs"] by (simp add: check_wire_type_def)
qed

lemma unpacked_loop_frame:
  "unpacked_loop c col fuel v cp ctx = Done (v', cp') \<Longrightarrow>
    cap_extra cp' = cap_extra cp \<and> (\<exists>p. cap_buf cp = p @ cap_buf cp')"
proof (induction fuel arbitrary: v cp)
  case (Suc fuel)
  then obtain x cp1 next' cp2 where 1: "c_decode c (c_for_overwrite c) cp ctx = Done (x, cp1)"
    "peek_repeated_field slice_ops cp1 = Done (next', cp2)"
    "cp' = cp2 \<or> (\<exists>v1. unpacked_loop c col fuel v1 cp2 ctx = Done (v', cp'))"
    by (fastforce split: option.splits)
  have 2: "cap_extra cp2 = cap_extra cp1 \<and> (\<exists>p. cap_buf cp1 = p @ cap_buf cp2)"
    using 1(2) by (cases "cap_buf cp1") (auto simp: peek_repeated_field_slice split: if_splits)
  have 3: "cap_extra cp' = cap_extra cp2 \<and> (\<exists>p. cap_buf cp2 = p @ cap_buf cp')"
    using 1(3) Suc.IH by blast
  obtain p q r where "cap_buf cp = p @ cap_buf cp1" "cap_buf cp1 = q @ cap_buf cp2" "cap_buf cp2 = r @ cap_buf cp'"
    using decode_frame [OF 1(1)] 2 3 by blast
  then show ?case using decode_frame [OF 1(1)] 2 3 by simp
qed simp

lemma unpacked_loop_not_Panic:
  "length (cap_buf cp) < fuel \<Longrightarrow> unpacked_loop c col fuel v cp ctx \<noteq> Panic"
proof (induction fuel arbitrary: v cp)
  case (Suc fuel)
  have "unpacked_loop c col fuel v1 cp2 ctx \<noteq> Panic"
    if "c_decode c (c_for_overwrite c) cp ctx = Done (x, cp1)"
      "peek_repeated_field slice_ops cp1 = Done (next', cp2)" for x cp1 cp2 v1 next'
  proof (rule Suc.IH)
    have "length (cap_buf cp2) \<le> length (cap_buf cp1)"
      using that(2) by (auto simp: peek_repeated_field_slice split: if_splits)
    then show "length (cap_buf cp2) < fuel" using decode_shorter [OF that(1)] Suc.prems by simp
  qed
  then show ?case
    by (auto simp: obind_Panic_iff decode_no_panic insert_not_panic check_wire_type_def
        peek_repeated_field_slice split: option.splits if_splits)
qed simp

end

context repeated_codec
begin

lemma peek_cases:
  assumes "peek_repeated_field slice_ops cp = Done (next', cp')"
  obtains "next' = None" "cp' = cp"
  | wt where "next' = Some wt" "cap_buf cp = of_nat (wire_nat wt) # cap_buf cp'" "cap_extra cp' = cap_extra cp"
proof (cases "length (cap_buf cp) \<le> cap_extra cp \<or> 4 \<le> hd (cap_buf cp)")
  case True
  then show ?thesis using assms that by (simp add: peek_repeated_field_slice)
next
  case False
  then obtain k ks where k: "cap_buf cp = k # ks" "k < 4" by (cases "cap_buf cp") auto
  have u: "unat k < 4" using k(2) by (simp add: word_less_nat_alt)
  have "of_nat (wire_nat (wire_of (unat k))) = k" using u by (simp add: wire_nat_wire_of)
  then show ?thesis
    using assms False k that(2) [of "wire_of (unat k)"] by (auto simp: peek_repeated_field_slice)
qed

lemma unpacked_dist_loop_step:
  assumes "unpacked_dist_loop c col fuel p canon cp ctx = Done (v, k, cp')" and "cvalid p"
  obtains f x k1 cp1 p1 k2 next' cp2 where "fuel = Suc f"
    "c_decode_dist c True (c_for_overwrite c) cp ctx = Done (x, k1, cp1)"
    "col_insert_dist col x p = Done (p1, k2)" "rc_min_canonicity ctx \<le> k2"
    "peek_repeated_field slice_ops cp1 = Done (next', cp2)" "cvalid p1"
    "next' = None \<and> v = p1 \<and> k = min (min canon k1) k2 \<and> cp' = cp2 \<or>
      next' = Some (c_wire c) \<and> unpacked_dist_loop c col f p1 (min (min canon k1) k2) cp2 ctx = Done (v, k, cp')"
proof -
  obtain f where f: "fuel = Suc f" using assms(1) by (cases fuel) auto
  obtain x k1 cp1 p1 k2 next' cp2 where 1: "c_decode_dist c True (c_for_overwrite c) cp ctx = Done (x, k1, cp1)"
    "col_insert_dist col x p = Done (p1, k2)" "rc_min_canonicity ctx \<le> k2"
    "peek_repeated_field slice_ops cp1 = Done (next', cp2)"
    "(case next' of None \<Rightarrow> Done (p1, min (min canon k1) k2, cp2)
      | Some wt \<Rightarrow> obind (check_wire_type (c_wire c) wt)
          (\<lambda>_. unpacked_dist_loop c col f p1 (min (min canon k1) k2) cp2 ctx)) = Done (v, k, cp')"
    using assms(1) f by (auto simp: Let_def canonicity_update_def)
  have "cvalid p1" using insert [OF assms(2) insert_dist [OF assms(2) 1(2)]] by simp
  moreover have "next' = None \<and> v = p1 \<and> k = min (min canon k1) k2 \<and> cp' = cp2 \<or>
      next' = Some (c_wire c) \<and> unpacked_dist_loop c col f p1 (min (min canon k1) k2) cp2 ctx = Done (v, k, cp')"
    using 1(5) by (cases next') (auto simp: check_wire_type_def split: if_splits)
  ultimately show thesis using that f 1(1-4) by blast
qed

lemma unpacked_dist_loop_relaxed:
  assumes "unpacked_dist_loop c col fuel p canon cp ctx = Done (v, k, cp')"
    and "cvalid p" and "rc_min_canonicity ctx \<le> canon"
  shows "unpacked_loop c col fuel p cp (into_inner ctx) = Done (v, cp') \<and>
    rc_min_canonicity ctx \<le> k \<and> k \<le> canon"
  using assms
proof (induction fuel arbitrary: p canon cp)
  case (Suc fuel)
  obtain f x k1 cp1 p1 k2 next' cp2 where s: "Suc fuel = Suc f"
    "c_decode_dist c True (c_for_overwrite c) cp ctx = Done (x, k1, cp1)"
    "col_insert_dist col x p = Done (p1, k2)" "rc_min_canonicity ctx \<le> k2"
    "peek_repeated_field slice_ops cp1 = Done (next', cp2)" "cvalid p1"
    "next' = None \<and> v = p1 \<and> k = min (min canon k1) k2 \<and> cp' = cp2 \<or>
      next' = Some (c_wire c) \<and> unpacked_dist_loop c col f p1 (min (min canon k1) k2) cp2 ctx = Done (v, k, cp')"
    by (rule unpacked_dist_loop_step [OF Suc.prems(1,2)])
  note rel = dist_relaxed [OF s(2)] and ins = insert_dist [OF Suc.prems(2) s(3)]
  have step: "unpacked_loop c col (Suc fuel) p cp (into_inner ctx) =
      (case next' of None \<Rightarrow> Done (p1, cp2)
       | Some wt \<Rightarrow> obind (check_wire_type (c_wire c) wt) (\<lambda>_. unpacked_loop c col fuel p1 cp2 (into_inner ctx)))"
    using rel ins s(5) by simp
  show ?case
  proof (cases next')
    case None
    then have "v = p1" "k = min (min canon k1) k2" "cp' = cp2" using s(7) by simp_all
    then show ?thesis using None s(4) step rel Suc.prems(3) by (simp add: min_le_iff_disj)
  next
    case (Some wt)
    then have "unpacked_dist_loop c col fuel p1 (min (min canon k1) k2) cp2 ctx = Done (v, k, cp')"
      using s(1,7) by auto
    moreover have "rc_min_canonicity ctx \<le> min (min canon k1) k2" using s(4) rel Suc.prems(3) by simp
    ultimately have "unpacked_loop c col fuel p1 cp2 (into_inner ctx) = Done (v, cp') \<and>
        rc_min_canonicity ctx \<le> k \<and> k \<le> min (min canon k1) k2"
      using Suc.IH s(6) by blast
    then show ?thesis using step s(7) Some by (simp add: check_wire_type_def)
  qed
qed simp

lemma unpacked_dist_loop_canonical:
  assumes "unpacked_dist_loop c col fuel p canon cp ctx = Done (v, Canonical, cp')"
    and "cvalid p" and "length (cap_buf cp) < 2 ^ 64" and "rc_min_canonicity ctx \<le> canon"
  shows "\<exists>y xs. cvalid v \<and> col_iter col v = col_iter col p @ y # xs \<and> (\<forall>x \<in> set (y # xs). valid x) \<and>
    cap_buf cp = enc y @ run_bytes (item_parts c enc xs) @ cap_buf cp'"
  using assms
proof (induction fuel arbitrary: p canon cp)
  case (Suc fuel)
  obtain f x k1 cp1 p1 k2 next' cp2 where s: "Suc fuel = Suc f"
    "c_decode_dist c True (c_for_overwrite c) cp ctx = Done (x, k1, cp1)"
    "col_insert_dist col x p = Done (p1, k2)" "rc_min_canonicity ctx \<le> k2"
    "peek_repeated_field slice_ops cp1 = Done (next', cp2)" "cvalid p1"
    "next' = None \<and> v = p1 \<and> Canonical = min (min canon k1) k2 \<and> cp' = cp2 \<or>
      next' = Some (c_wire c) \<and>
        unpacked_dist_loop c col f p1 (min (min canon k1) k2) cp2 ctx = Done (v, Canonical, cp')"
    by (rule unpacked_dist_loop_step [OF Suc.prems(1,2)])
  have min: "rc_min_canonicity ctx \<le> min (min canon k1) k2"
    using s(4) dist_relaxed [OF s(2)] Suc.prems(4) by simp
  have f: "f = fuel" using s(1) by simp
  have "Canonical \<le> min (min canon k1) k2"
    using s(7) unpacked_dist_loop_relaxed [OF _ s(6) min, of f cp2 v Canonical cp'] by (metis order_refl)
  then have k: "k1 = Canonical" "k2 = Canonical" by auto
  have x: "cap_buf cp = enc x @ cap_buf cp1" "valid x"
    using dist_canonical s(2) k(1) Suc.prems(3) by blast+
  have p1: "col_iter col p1 = col_iter col p @ [x]"
    using insert_canonical [OF Suc.prems(2)] s(3) k(2) by blast
  show ?case
  proof (rule peek_cases [OF s(5)])
    assume "next' = None" "cp2 = cp1"
    then show ?thesis using s(6,7) x p1 by (intro exI [of _ x] exI [of _ "[]"]) simp
  next
    fix wt assume n: "next' = Some wt" "cap_buf cp1 = of_nat (wire_nat wt) # cap_buf cp2"
      "cap_extra cp2 = cap_extra cp1"
    have rec: "unpacked_dist_loop c col fuel p1 (min (min canon k1) k2) cp2 ctx = Done (v, Canonical, cp')"
      and wt: "wt = c_wire c"
      using s(7) n(1) f by simp_all
    have "length (cap_buf cp2) < 2 ^ 64" using Suc.prems(3) x(1) n(2) by simp
    then obtain y xs where xs: "cvalid v" "col_iter col v = col_iter col p1 @ y # xs"
      "\<forall>x \<in> set (y # xs). valid x" "cap_buf cp2 = enc y @ run_bytes (item_parts c enc xs) @ cap_buf cp'"
      using Suc.IH [OF rec s(6) _ min] by blast
    have "cap_buf cp = enc x @ run_bytes (item_parts c enc (y # xs)) @ cap_buf cp'"
      using x(1) n(2) wt xs(4) by simp
    moreover have "col_iter col v = col_iter col p @ x # y # xs" using p1 xs(2) by simp
    ultimately show ?thesis using x(2) xs(1,3) by (intro exI [of _ x] exI [of _ "y # xs"]) simp
  qed
qed simp

lemma unpacked_dist_loop_complete:
  assumes "cvalid p" and "cvalid v" and "col_iter col v = col_iter col p @ y # xs"
    and "\<forall>x \<in> set (y # xs). valid x" and "list_depth depth (y # xs) \<le> unat (recurse_count (into_inner ctx))"
    and "ends_field rest x" and "length xs < fuel"
  shows "unpacked_dist_loop c col fuel p Canonical
      \<lparr>cap_buf = enc y @ run_bytes (item_parts c enc xs) @ rest, cap_extra = x\<rparr> ctx =
    Done (v, Canonical, \<lparr>cap_buf = rest, cap_extra = x\<rparr>)"
  using assms
proof (induction xs arbitrary: p y fuel)
  case Nil
  obtain f where f: "fuel = Suc f" using Nil.prems by (cases fuel) auto
  obtain p' where p': "col_insert_dist col y p = Done (p', Canonical)" "cvalid p'"
    "col_iter col p' = col_iter col p @ [y]"
    using insert_next [OF Nil.prems(1,2)] Nil.prems(3) by auto
  have "p' = v" using p' Nil.prems(2,3) ext by auto
  moreover have "c_decode_dist c True (c_for_overwrite c) \<lparr>cap_buf = enc y @ rest, cap_extra = x\<rparr> ctx =
      Done (y, Canonical, \<lparr>cap_buf = rest, cap_extra = x\<rparr>)"
    using Nil.prems(4,5,6) by (intro dist_complete) (simp_all add: list_depth_def ends_field_def)
  ultimately show ?case
    using f p' peek_run [OF Nil.prems(6), of c enc "[]"] by (simp add: canonicity_update_def)
next
  case (Cons z xs)
  obtain f where f: "fuel = Suc f" using Cons.prems by (cases fuel) auto
  obtain p' where p': "col_insert_dist col y p = Done (p', Canonical)" "cvalid p'"
    "col_iter col p' = col_iter col p @ [y]"
    using insert_next [OF Cons.prems(1,2)] Cons.prems(3) by auto
  have dec: "c_decode_dist c True (c_for_overwrite c)
      \<lparr>cap_buf = enc y @ run_bytes (item_parts c enc (z # xs)) @ rest, cap_extra = x\<rparr> ctx =
      Done (y, Canonical, \<lparr>cap_buf = run_bytes (item_parts c enc (z # xs)) @ rest, cap_extra = x\<rparr>)"
    using Cons.prems(4,5,6) by (intro dist_complete) (simp_all add: list_depth_def ends_field_def)
  have "unpacked_dist_loop c col f p' Canonical
      \<lparr>cap_buf = enc z @ run_bytes (item_parts c enc xs) @ rest, cap_extra = x\<rparr> ctx =
      Done (v, Canonical, \<lparr>cap_buf = rest, cap_extra = x\<rparr>)"
    using Cons.prems p' f by (intro Cons.IH) (auto simp: list_depth_def)
  then show ?case
    using f p' dec peek_run [OF Cons.prems(6), of c enc "z # xs"] by (simp add: check_wire_type_def canonicity_update_def)
qed

lemma unpacked_dist_loop_not_Panic:
  "length (cap_buf cp) < fuel \<Longrightarrow> unpacked_dist_loop c col fuel v canon cp ctx \<noteq> Panic"
proof (induction fuel arbitrary: v canon cp)
  case (Suc fuel)
  have "unpacked_dist_loop c col fuel v1 k cp2 ctx \<noteq> Panic"
    if "c_decode_dist c True (c_for_overwrite c) cp ctx = Done (x, k1, cp1)"
      "peek_repeated_field slice_ops cp1 = Done (next', cp2)" for x k k1 cp1 cp2 v1 next'
  proof (rule Suc.IH)
    have "length (cap_buf cp2) \<le> length (cap_buf cp1)"
      using that(2) by (auto simp: peek_repeated_field_slice split: if_splits)
    then show "length (cap_buf cp2) < fuel"
      using decode_shorter [OF conjunct1 [OF dist_relaxed [OF that(1)]]] Suc.prems by simp
  qed
  then show ?case
    by (auto simp: obind_Panic_iff dist_no_panic insert_dist_not_panic check_wire_type_def Let_def
        peek_repeated_field_slice split: option.splits if_splits)
qed simp

end

context repeated_values
begin

lemma iter_Nil_iff: "cvalid v \<Longrightarrow> col_iter col v = [] \<longleftrightarrow> v = col_empty col"
  using ext [of v "col_empty col"] empty by auto

lemma item_parts_ConsD:
  assumes "item_parts c enc (col_iter col v) = (wt, val) # ps"
  obtains y xs where "col_iter col v = y # xs" "wt = c_wire c" "val = enc y" "ps = item_parts c enc xs"
  using assms by (cases "col_iter col v") auto

lemma length_items_le: "length xs \<le> length (run_bytes (item_parts c enc xs))"
  by (simp add: length_run_bytes)

lemma unpacked_decode_only_eq:
  assumes v: "unpacked_valid valid col cvalid v"
    and "list_depth depth (col_iter col v) \<le> unat (recurse_count ctx)"
    and p: "item_parts c enc (col_iter col v) = (wt, val) # ps" and x: "ends_field rest x"
  shows "unpacked_decode_only c col wt (col_empty col)
      \<lparr>cap_buf = val @ run_bytes ps @ rest, cap_extra = x\<rparr> ctx = Done (v, \<lparr>cap_buf = rest, cap_extra = x\<rparr>)"
proof -
  obtain y xs where i: "col_iter col v = y # xs" "wt = c_wire c" "val = enc y" "ps = item_parts c enc xs"
    by (rule item_parts_ConsD [OF p])
  have "unpacked_loop c col (length (val @ run_bytes ps @ rest) + 1) (col_empty col)
      \<lparr>cap_buf = enc y @ run_bytes (item_parts c enc xs) @ rest, cap_extra = x\<rparr> ctx =
      Done (v, \<lparr>cap_buf = rest, cap_extra = x\<rparr>)"
    using assms i empty length_items_le [of xs] by (intro unpacked_loop_complete) (auto simp: unpacked_valid_def)
  then show ?thesis using i by (simp add: unpacked_decode_only_def check_wire_type_def del: unpacked_loop.simps)
qed

lemma unpacked_decode_only_frame:
  "unpacked_decode_only c col wt v0 cp ctx = Done (v, cp') \<Longrightarrow>
    cap_extra cp' = cap_extra cp \<and> (\<exists>p. cap_buf cp = p @ cap_buf cp')"
  by (auto simp: unpacked_decode_only_def simp del: unpacked_loop.simps dest: unpacked_loop_frame)

lemma unpacked_decode_only_no_panic: "unpacked_decode_only c col wt v0 cp ctx \<noteq> Panic"
  using unpacked_loop_not_Panic
  by (simp add: unpacked_decode_only_def obind_Panic_iff check_wire_type_def del: unpacked_loop.simps)

lemma unpacked_field_laws:
  "field_contract rops rcontents rinv (unpacked_field rops c col) (collection_empty_state col)
    (\<lambda>v. item_parts c enc (col_iter col v)) (unpacked_valid valid col cvalid)
    (\<lambda>v. list_depth depth (col_iter col v))"
proof unfold_locales
  show "unpacked_valid valid col cvalid (es_empty (collection_empty_state col))"
    using empty by (simp add: unpacked_valid_def collection_empty_state_def)
  fix v v0 tag wt val ps rest x cp cp' ctx
  show "f_decode (unpacked_field rops c col) wt v0 cp ctx \<noteq> Panic"
    by (simp add: unpacked_field_def unpacked_decode_def unpacked_decode_only_no_panic packed_decode_no_panic)
  show "cap_extra cp' = cap_extra cp \<and> (\<exists>p. cap_buf cp = p @ cap_buf cp')"
    if "f_decode (unpacked_field rops c col) wt v0 cp ctx = Done (v, cp')"
    using that
    by (auto simp: unpacked_field_def unpacked_decode_def split: if_splits
        dest: unpacked_decode_only_frame packed_decode_frame)
  assume v: "unpacked_valid valid col cvalid v"
  then have v': "cvalid v" "\<forall>x \<in> set (col_iter col v). valid x" by (auto simp: unpacked_valid_def)
  show "es_is_empty (collection_empty_state col) v \<longleftrightarrow> v = es_empty (collection_empty_state col)"
    using is_empty [OF v'(1)] iter_Nil_iff [OF v'(1)] by (simp add: collection_empty_state_def)
  show "es_clear (collection_empty_state col) v = es_empty (collection_empty_state col)"
    by (simp add: collection_empty_state_def)
  show "item_parts c enc (col_iter col v) = [] \<longleftrightarrow> v = es_empty (collection_empty_state col)"
    using iter_Nil_iff [OF v'(1)] by (simp add: collection_empty_state_def item_parts_def)
  show "writes_parts (tagged tag (item_parts c enc (col_iter col v))) (f_encode (unpacked_field rops c col) tag v)"
    using encode_fields_parts [OF v'(2)] by (simp add: unpacked_field_def unpacked_encode_def [abs_def])
  show "prepends_parts (tagged tag (item_parts c enc (col_iter col v))) (f_prepend (unpacked_field rops c col) tag v)"
    using prepend_field_list_parts [of "rev (col_iter col v)" tag] v' reversed
    by (simp add: unpacked_field_def unpacked_prepend_def [abs_def])
  show "measures_parts (tagged tag (item_parts c enc (col_iter col v))) (f_len (unpacked_field rops c col) tag v)"
    using unpacked_len_parts [OF v] by (simp add: unpacked_field_def)
  assume d: "list_depth depth (col_iter col v) \<le> unat (recurse_count ctx)"
    "item_parts c enc (col_iter col v) = (wt, val) # ps" "ends_field rest x"
  show "f_decode (unpacked_field rops c col) wt (es_empty (collection_empty_state col))
      \<lparr>cap_buf = val @ run_bytes ps @ rest, cap_extra = x\<rparr> ctx = Done (v, \<lparr>cap_buf = rest, cap_extra = x\<rparr>)"
    by (rule item_parts_ConsD [OF d(2)])
      (use unpacked_decode_only_eq [OF v d] in \<open>simp add: unpacked_field_def unpacked_decode_def
        collection_empty_state_def\<close>)
qed

text \<open>Packed fields: one value, unless the collection is empty.\<close>

lemma packed_field_laws:
  "field_contract rops rcontents rinv (packed_field rops c col) (collection_empty_state col)
    (one_part (packed_codec rops c col) (packed_enc enc col) (collection_empty_state col))
    (packed_valid enc valid col cvalid) (\<lambda>v. list_depth depth (col_iter col v))"
proof unfold_locales
  show "packed_valid enc valid col cvalid (es_empty (collection_empty_state col))"
    using empty by (simp add: packed_valid_def collection_empty_state_def)
  fix v v0 tag wt val ps rest x cp cp' ctx
  show "f_decode (packed_field rops c col) wt v0 cp ctx \<noteq> Panic"
    by (simp add: packed_field_def packed_decode_def unpacked_decode_only_no_panic packed_decode_no_panic)
  show "cap_extra cp' = cap_extra cp \<and> (\<exists>p. cap_buf cp = p @ cap_buf cp')"
    if "f_decode (packed_field rops c col) wt v0 cp ctx = Done (v, cp')"
    using that
    by (auto simp: packed_field_def packed_decode_def split: if_splits
        dest: unpacked_decode_only_frame packed_decode_frame)
  assume v: "packed_valid enc valid col cvalid v"
  then have v': "cvalid v" by (auto simp: packed_valid_def)
  have ie: "col_is_empty col v \<longleftrightarrow> v = col_empty col"
    using is_empty [OF v'] iter_Nil_iff [OF v'] by simp
  show "es_is_empty (collection_empty_state col) v \<longleftrightarrow> v = es_empty (collection_empty_state col)"
    using ie by (simp add: collection_empty_state_def)
  show "es_clear (collection_empty_state col) v = es_empty (collection_empty_state col)"
    by (simp add: collection_empty_state_def)
  show "one_part (packed_codec rops c col) (packed_enc enc col) (collection_empty_state col) v = [] \<longleftrightarrow>
      v = es_empty (collection_empty_state col)"
    by (simp add: one_part_def)
  show "writes_parts (tagged tag (one_part (packed_codec rops c col) (packed_enc enc col) (collection_empty_state col) v))
      (f_encode (packed_field rops c col) tag v)"
    using packed.encode_field_parts [OF v] writes_parts_Nil ie
    by (simp add: packed_field_def packed_encode_def [abs_def] one_part_def collection_empty_state_def)
  show "prepends_parts (tagged tag (one_part (packed_codec rops c col) (packed_enc enc col) (collection_empty_state col) v))
      (f_prepend (packed_field rops c col) tag v)"
    using packed.prepend_field_parts [OF v] prepends_parts_Nil ie
    by (simp add: packed_field_def packed_prepend_def [abs_def] one_part_def collection_empty_state_def)
  show "measures_parts (tagged tag (one_part (packed_codec rops c col) (packed_enc enc col) (collection_empty_state col) v))
      (f_len (packed_field rops c col) tag v)"
    using packed.field_len_parts [OF v] measures_parts_Nil ie
    by (simp add: packed_field_def packed_encoded_len_def [abs_def] one_part_def collection_empty_state_def)
  assume "list_depth depth (col_iter col v) \<le> unat (recurse_count ctx)"
    "one_part (packed_codec rops c col) (packed_enc enc col) (collection_empty_state col) v = (wt, val) # ps"
    "ends_field rest x"
  then show "f_decode (packed_field rops c col) wt (es_empty (collection_empty_state col))
      \<lparr>cap_buf = val @ run_bytes ps @ rest, cap_extra = x\<rparr> ctx = Done (v, \<lparr>cap_buf = rest, cap_extra = x\<rparr>)"
    using packed_decode_eq [OF v]
    by (auto simp: packed_field_def packed_decode_def one_part_def collection_empty_state_def
        packed_codec_def ends_field_def split: if_splits)
qed

text \<open>Each of the two decoders of a repeated field takes the other representation too.\<close>

lemma packed_accepts_unpacked:
  assumes v: "unpacked_valid valid col cvalid v" "list_depth depth (col_iter col v) \<le> unat (recurse_count ctx)"
    and p: "item_parts c enc (col_iter col v) = (wt, val) # ps" "ends_field rest x"
    and wt: "c_wire c \<noteq> WtLengthDelimited"
  shows "packed_decode c col wt (col_empty col) \<lparr>cap_buf = val @ run_bytes ps @ rest, cap_extra = x\<rparr> ctx =
    Done (v, \<lparr>cap_buf = rest, cap_extra = x\<rparr>)"
  by (rule item_parts_ConsD [OF p(1)])
    (use unpacked_decode_only_eq [OF v p] wt in \<open>simp add: packed_decode_def\<close>)

lemma unpacked_accepts_packed:
  assumes "packed_valid enc valid col cvalid v" "list_depth depth (col_iter col v) \<le> unat (recurse_count ctx)"
    and "x \<le> length rest" and "c_wire c \<noteq> WtLengthDelimited"
  shows "unpacked_decode c col WtLengthDelimited (col_empty col)
      \<lparr>cap_buf = packed_enc enc col v @ rest, cap_extra = x\<rparr> ctx = Done (v, \<lparr>cap_buf = rest, cap_extra = x\<rparr>)"
  using packed_decode_eq [OF assms(1-3)] assms(4) by (simp add: unpacked_decode_def)

end

context repeated_codec
begin

lemma unpacked_distinguished_laws:
  "distinguished_field_contract rops rcontents rinv (unpacked_field rops c col) (collection_empty_state col)
    (\<lambda>v. item_parts c enc (col_iter col v)) (unpacked_valid valid col cvalid)
    (\<lambda>v. list_depth depth (col_iter col v))"
proof (intro distinguished_field_contract.intro unpacked_field_laws distinguished_field_contract_axioms.intro)
  fix v v0 k wt val ps x cp cp' ctx and rest :: bytes
  show "f_decode_dist (unpacked_field rops c col) wt (es_empty (collection_empty_state col)) cp ctx \<noteq> Panic"
    using unpacked_dist_loop_not_Panic
    by (simp add: unpacked_field_def unpacked_decode_distinguished_def obind_Panic_iff packed_decode_no_panic
        unpacked_decode_only_distinguished_def check_wire_type_def del: unpacked_dist_loop.simps)
  show "f_decode (unpacked_field rops c col) wt (es_empty (collection_empty_state col)) cp (into_inner ctx) =
      Done (v, cp') \<and> rc_min_canonicity ctx \<le> k"
    if d: "f_decode_dist (unpacked_field rops c col) wt (es_empty (collection_empty_state col)) cp ctx = Done (v, k, cp')"
  proof (cases "wt = WtLengthDelimited \<and> c_wire c \<noteq> WtLengthDelimited")
    case True
    then show ?thesis
      using d by (auto simp: unpacked_field_def unpacked_decode_distinguished_def unpacked_decode_def)
  next
    case False
    then have "check_wire_type (c_wire c) wt = Done ()"
      "unpacked_dist_loop c col (length (cap_buf cp) + 1) (col_empty col) Canonical cp ctx = Done (v, k, cp')"
      using d by (auto simp: unpacked_field_def unpacked_decode_distinguished_def
          unpacked_decode_only_distinguished_def collection_empty_state_def simp del: unpacked_dist_loop.simps)
    then show ?thesis
      using False unpacked_dist_loop_relaxed empty
      by (fastforce simp: unpacked_field_def unpacked_decode_def unpacked_decode_only_def
          collection_empty_state_def simp del: unpacked_dist_loop.simps unpacked_loop.simps)
  qed
  show "\<exists>val ps. item_parts c enc (col_iter col v) = (wt, val) # ps \<and>
      cap_buf cp = val @ run_bytes ps @ cap_buf cp' \<and> unpacked_valid valid col cvalid v"
    if d: "f_decode_dist (unpacked_field rops c col) wt (es_empty (collection_empty_state col)) cp ctx =
        Done (v, Canonical, cp')" and n: "length (cap_buf cp) < 2 ^ 64"
  proof -
    have wt: "check_wire_type (c_wire c) wt = Done ()"
      and loop: "unpacked_dist_loop c col (length (cap_buf cp) + 1) (col_empty col) Canonical cp ctx =
        Done (v, Canonical, cp')"
      using d by (auto simp: unpacked_field_def unpacked_decode_distinguished_def
          unpacked_decode_only_distinguished_def collection_empty_state_def
          simp del: unpacked_dist_loop.simps split: if_splits)
    obtain y xs where "cvalid v" "col_iter col v = col_iter col (col_empty col) @ y # xs"
      "\<forall>x \<in> set (y # xs). valid x" "cap_buf cp = enc y @ run_bytes (item_parts c enc xs) @ cap_buf cp'"
      using unpacked_dist_loop_canonical [OF loop conjunct1 [OF empty] n] by auto
    then show ?thesis
      using wt empty by (simp add: unpacked_valid_def check_wire_type_def split: if_splits)
  qed
  show "f_decode_dist (unpacked_field rops c col) wt (es_empty (collection_empty_state col))
      \<lparr>cap_buf = val @ run_bytes ps @ rest, cap_extra = x\<rparr> ctx = Done (v, Canonical, \<lparr>cap_buf = rest, cap_extra = x\<rparr>)"
    if v: "unpacked_valid valid col cvalid v" and d: "list_depth depth (col_iter col v) \<le> unat (recurse_count (into_inner ctx))"
      and p: "item_parts c enc (col_iter col v) = (wt, val) # ps" and x: "ends_field rest x"
  proof -
    obtain y xs where i: "col_iter col v = y # xs" "wt = c_wire c" "val = enc y" "ps = item_parts c enc xs"
      by (rule item_parts_ConsD [OF p])
    have "unpacked_dist_loop c col (length (val @ run_bytes ps @ rest) + 1) (col_empty col) Canonical
        \<lparr>cap_buf = enc y @ run_bytes (item_parts c enc xs) @ rest, cap_extra = x\<rparr> ctx =
        Done (v, Canonical, \<lparr>cap_buf = rest, cap_extra = x\<rparr>)"
      using v d x i empty length_items_le [of xs]
      by (intro unpacked_dist_loop_complete) (auto simp: unpacked_valid_def)
    then show ?thesis
      using i by (simp add: unpacked_field_def unpacked_decode_distinguished_def check_wire_type_def
          unpacked_decode_only_distinguished_def collection_empty_state_def del: unpacked_dist_loop.simps)
  qed
qed

lemma packed_distinguished_laws:
  "distinguished_field_contract rops rcontents rinv (packed_field rops c col) (collection_empty_state col)
    (one_part (packed_codec rops c col) (packed_enc enc col) (collection_empty_state col))
    (packed_valid enc valid col cvalid) (\<lambda>v. list_depth depth (col_iter col v))"
proof (intro distinguished_field_contract.intro packed_field_laws distinguished_field_contract_axioms.intro)
  fix v v0 k wt val ps x cp cp' ctx and rest :: bytes
  show "f_decode_dist (packed_field rops c col) wt (es_empty (collection_empty_state col)) cp ctx \<noteq> Panic"
    by (auto simp: packed_field_def packed_decode_distinguished_def obind_Panic_iff packed_dist_no_panic
        unpacked_decode_only_no_panic)
  show "f_decode (packed_field rops c col) wt (es_empty (collection_empty_state col)) cp (into_inner ctx) =
      Done (v, cp') \<and> rc_min_canonicity ctx \<le> k"
    if "f_decode_dist (packed_field rops c col) wt (es_empty (collection_empty_state col)) cp ctx = Done (v, k, cp')"
    using that packed_dist_relaxed
    by (fastforce simp: packed_field_def packed_decode_distinguished_def packed_decode_def
        collection_empty_state_def split: if_splits)
  show "\<exists>val ps. one_part (packed_codec rops c col) (packed_enc enc col) (collection_empty_state col) v = (wt, val) # ps \<and>
      cap_buf cp = val @ run_bytes ps @ cap_buf cp' \<and> packed_valid enc valid col cvalid v"
    if d: "f_decode_dist (packed_field rops c col) wt (es_empty (collection_empty_state col)) cp ctx =
        Done (v, Canonical, cp')" and n: "length (cap_buf cp) < 2 ^ 64"
  proof -
    have 1: "wt = WtLengthDelimited" "\<not> col_is_empty col v"
      "packed_decode_value_distinguished c col False (col_empty col) cp ctx = Done (v, Canonical, cp')"
      using d by (auto simp: packed_field_def packed_decode_distinguished_def collection_empty_state_def
          split: if_splits)
    note 2 = packed_dist_canonical [OF 1(3) n]
    then have "v \<noteq> col_empty col" using is_empty [of v] empty 1(2) by (auto simp: packed_valid_def)
    then show ?thesis using 1 2 by (simp add: one_part_def collection_empty_state_def packed_codec_def)
  qed
  show "f_decode_dist (packed_field rops c col) wt (es_empty (collection_empty_state col))
      \<lparr>cap_buf = val @ run_bytes ps @ rest, cap_extra = x\<rparr> ctx = Done (v, Canonical, \<lparr>cap_buf = rest, cap_extra = x\<rparr>)"
    if v: "packed_valid enc valid col cvalid v"
      and "list_depth depth (col_iter col v) \<le> unat (recurse_count (into_inner ctx))"
      "one_part (packed_codec rops c col) (packed_enc enc col) (collection_empty_state col) v = (wt, val) # ps"
      "ends_field rest x"
  proof -
    have "cvalid v" using v by (simp add: packed_valid_def)
    then have "col_is_empty col v \<longleftrightarrow> v = col_empty col" using is_empty iter_Nil_iff by simp
    then show ?thesis
      using that packed_dist_eq [OF v]
      by (auto simp: packed_field_def packed_decode_distinguished_def one_part_def collection_empty_state_def
          packed_codec_def ends_field_def split: if_splits)
  qed
qed

end

end
