(* ===== verification/Message_Codec.thy ===== *)
theory Message_Codec
  imports Field_Laws
begin

text \<open>
  Messages, as \<^verbatim>\<open>src/src/encoding/message.rs\<close> sees them: the trait dictionary \<^verbatim>\<open>RawMessage\<close> with its
  decoders, the loops \<open>merge\<close> and \<open>merge_distinguished\<close> that read keys and dispatch fields until the
  cap, and the encoding \<^verbatim>\<open>MessageEncoding\<close> that nests a message as a length-delimited value under the
  recursion limit. The locale \<open>message_contract\<close> states what a message type promises; its codec then
  keeps the laws of \<open>Codec\<close>, so that messages nest in fields of messages.
\<close>

section \<open>Raw messages\<close>

record ('s, 'r) raw_message =
  rm_empty :: 's
  rm_is_empty :: "'s \<Rightarrow> bool"
  rm_clear :: "'s \<Rightarrow> 's"
  rm_encode :: "'s \<Rightarrow> bytes \<Rightarrow> bytes option"
  rm_prepend :: "'s \<Rightarrow> 'r \<Rightarrow> 'r option"
  rm_len :: "'s \<Rightarrow> nat option"
  rm_decode_field :: "u32 \<Rightarrow> wire_type \<Rightarrow> bool \<Rightarrow> 's \<Rightarrow> bytes capped \<Rightarrow> decode_context \<Rightarrow>
    ('s \<times> bytes capped) outcome"
  rm_decode_field_dist :: "u32 \<Rightarrow> wire_type \<Rightarrow> bool \<Rightarrow> 's \<Rightarrow> bytes capped \<Rightarrow> restricted_context \<Rightarrow>
    ('s \<times> canonicity \<times> bytes capped) outcome"

text \<open>Every round of the loop consumes at least the byte of a key.\<close>

primrec merge_loop ::
    "('s, 'r) raw_message \<Rightarrow> nat \<Rightarrow> tag_reader \<Rightarrow> u32 option \<Rightarrow> 's \<Rightarrow> bytes capped \<Rightarrow> decode_context \<Rightarrow>
     ('s \<times> bytes capped) outcome" where
  "merge_loop m 0 tr last_tag value buf ctx = Panic"
| "merge_loop m (Suc fuel) tr last_tag value buf ctx =
    obind (has_remaining slice_ops buf) (\<lambda>more.
      if \<not> more then Done (value, buf)
      else obind (decode_key slice_ops tr buf) (\<lambda>(tag, wire_type, tr, buf).
        let duplicated = (last_tag = Some tag) in
        obind (rm_decode_field m tag wire_type duplicated value buf ctx) (\<lambda>(value, buf).
          merge_loop m fuel tr (Some tag) value buf ctx)))"

definition merge ::
    "('s, 'r) raw_message \<Rightarrow> 's \<Rightarrow> bytes capped \<Rightarrow> decode_context \<Rightarrow> ('s \<times> bytes capped) outcome" where
  "merge m value buf ctx = merge_loop m (length (cap_buf buf) + 1) tag_reader_new None value buf ctx"

primrec merge_dist_loop ::
    "('s, 'r) raw_message \<Rightarrow> nat \<Rightarrow> tag_reader \<Rightarrow> u32 option \<Rightarrow> 's \<Rightarrow> canonicity \<Rightarrow> bytes capped \<Rightarrow>
     restricted_context \<Rightarrow> ('s \<times> canonicity \<times> bytes capped) outcome" where
  "merge_dist_loop m 0 tr last_tag value canon buf ctx = Panic"
| "merge_dist_loop m (Suc fuel) tr last_tag value canon buf ctx =
    obind (has_remaining slice_ops buf) (\<lambda>more.
      if \<not> more then Done (value, canon, buf)
      else obind (decode_key slice_ops tr buf) (\<lambda>(tag, wire_type, tr, buf).
        let duplicated = (last_tag = Some tag) in
        obind (rm_decode_field_dist m tag wire_type duplicated value buf ctx) (\<lambda>(value, k, buf).
          merge_dist_loop m fuel tr (Some tag) value (canonicity_update canon k) buf ctx)))"

text \<open>The debug assertion of the code, that the result is not below what the context demands, is the law
  \<open>dist_relaxed\<close> below.\<close>

definition merge_distinguished ::
    "('s, 'r) raw_message \<Rightarrow> 's \<Rightarrow> bytes capped \<Rightarrow> restricted_context \<Rightarrow>
     ('s \<times> canonicity \<times> bytes capped) outcome" where
  "merge_distinguished m value buf ctx =
    merge_dist_loop m (length (cap_buf buf) + 1) tag_reader_new None value Canonical buf ctx"

section \<open>Messages as values\<close>

definition message_encode_value :: "('s, 'r) raw_message \<Rightarrow> 's \<Rightarrow> bytes \<Rightarrow> bytes option" where
  "message_encode_value m value buf = do {
     len \<leftarrow> rm_len m value;
     rm_encode m value (encode_varint (of_nat len) buf)
   }"

definition message_prepend_value :: "'r rev_ops \<Rightarrow> ('s, 'r) raw_message \<Rightarrow> 's \<Rightarrow> 'r \<Rightarrow> 'r option" where
  "message_prepend_value rops m value buf = do {
     let end_pos = r_remaining rops buf;
     buf \<leftarrow> rm_prepend m value buf;
     n \<leftarrow> (if end_pos \<le> r_remaining rops buf then Some (r_remaining rops buf - end_pos) else None);
     prepend_varint rops (of_nat n) buf
   }"

text \<open>A message whose tags descend cannot be measured; no valid message is one.\<close>

definition message_value_encoded_len :: "('s, 'r) raw_message \<Rightarrow> 's \<Rightarrow> nat" where
  "message_value_encoded_len m value =
    (case rm_len m value of
       Some inner_len \<Rightarrow> encoded_len_varint (of_nat inner_len) + inner_len
     | None \<Rightarrow> 0)"

definition message_decode_value ::
    "('s, 'r) raw_message \<Rightarrow> 's \<Rightarrow> bytes capped \<Rightarrow> decode_context \<Rightarrow> ('s \<times> bytes capped) outcome" where
  "message_decode_value m value cp ctx =
    obind (from_result (limit_reached ctx)) (\<lambda>_.
      obind (take_length_delimited slice_ops cp) (\<lambda>buf.
        obind (merge m value buf (enter_recursion ctx)) (\<lambda>(value, buf).
          Done (value, cap_outer cp buf))))"

definition message_decode_value_distinguished ::
    "('s, 'r) raw_message \<Rightarrow> bool \<Rightarrow> 's \<Rightarrow> bytes capped \<Rightarrow> restricted_context \<Rightarrow>
     ('s \<times> canonicity \<times> bytes capped) outcome" where
  "message_decode_value_distinguished m allow_empty value cp ctx =
    obind (from_result (restricted_limit_reached ctx)) (\<lambda>_.
      obind (take_length_delimited slice_ops cp) (\<lambda>buf.
        if \<not> allow_empty \<and> remaining_before_cap slice_ops buf = 0
        then obind (from_result (check ctx NotCanonical)) (\<lambda>k. Done (value, k, cap_outer cp buf))
        else obind (merge_distinguished m value buf (restricted_enter_recursion ctx)) (\<lambda>(value, k, buf).
          Done (value, k, cap_outer cp buf))))"

definition message_codec :: "'r rev_ops \<Rightarrow> ('s, 'r) raw_message \<Rightarrow> ('s, 'r) codec" where
  "message_codec rops m = \<lparr>
     c_wire = WtLengthDelimited,
     c_for_overwrite = rm_empty m,
     c_encode = message_encode_value m,
     c_prepend = message_prepend_value rops m,
     c_len = message_value_encoded_len m,
     c_many_len = many_values_encoded_len WtLengthDelimited (message_value_encoded_len m),
     c_decode = message_decode_value m,
     c_checks_empty = True,
     c_decode_dist = message_decode_value_distinguished m\<rparr>"

definition message_empty_state :: "('s, 'r) raw_message \<Rightarrow> 's empty_state" where
  "message_empty_state m = \<lparr>es_empty = rm_empty m, es_is_empty = rm_is_empty m, es_clear = rm_clear m\<rparr>"

section \<open>The contract of a message type\<close>

locale message_contract = rev_buf_contract rops rcontents rinv
  for rops :: "'r rev_ops" and rcontents :: "'r \<Rightarrow> bytes" and rinv :: "'r \<Rightarrow> bool" +
  fixes m :: "('s, 'r) raw_message"
    and body :: "'s \<Rightarrow> bytes"
    and valid :: "'s \<Rightarrow> bool"
    and depth :: "'s \<Rightarrow> nat"
  assumes empty: "valid (rm_empty m)"
    and is_empty: "valid v \<Longrightarrow> rm_is_empty m v \<longleftrightarrow> v = rm_empty m"
    and clear: "valid v \<Longrightarrow> rm_clear m v = rm_empty m"
    and body_Nil: "valid v \<Longrightarrow> body v = [] \<longleftrightarrow> v = rm_empty m"
    and body_length: "valid v \<Longrightarrow> length (body v) < 2 ^ 64"
    and encode: "valid v \<Longrightarrow> rm_encode m v buf = Some (buf @ body v)"
    and prepend: "valid v \<Longrightarrow> prepends (body v) (rm_prepend m v)"
    and len: "valid v \<Longrightarrow> rm_len m v = Some (length (body v))"
    and merge_body: "valid v \<Longrightarrow> depth v \<le> unat (recurse_count ctx) \<Longrightarrow>
      merge m (rm_empty m) \<lparr>cap_buf = body v @ rest, cap_extra = length rest\<rparr> ctx =
        Done (v, \<lparr>cap_buf = rest, cap_extra = length rest\<rparr>)"
    and field_frame: "rm_decode_field m tag wt dup v0 cp ctx = Done (v, cp') \<Longrightarrow>
      cap_extra cp' = cap_extra cp \<and> (\<exists>p. cap_buf cp = p @ cap_buf cp')"
    and field_no_panic: "rm_decode_field m tag wt dup v0 cp ctx \<noteq> Panic"

locale distinguished_message_contract = message_contract rops rcontents rinv m body valid depth
  for rops :: "'r rev_ops" and rcontents :: "'r \<Rightarrow> bytes" and rinv :: "'r \<Rightarrow> bool"
    and m :: "('s, 'r) raw_message" and body :: "'s \<Rightarrow> bytes" and valid :: "'s \<Rightarrow> bool"
    and depth :: "'s \<Rightarrow> nat" +
  assumes dist_relaxed: "merge_distinguished m (rm_empty m) cp ctx = Done (v, k, cp') \<Longrightarrow>
      merge m (rm_empty m) cp (into_inner ctx) = Done (v, cp') \<and> rc_min_canonicity ctx \<le> k"
    and dist_canonical: "merge_distinguished m (rm_empty m) cp ctx = Done (v, Canonical, cp') \<Longrightarrow>
      length (cap_buf cp) < 2 ^ 64 \<Longrightarrow> cap_buf cp = body v @ cap_buf cp' \<and> valid v"
    and dist_complete: "valid v \<Longrightarrow> depth v \<le> unat (recurse_count (into_inner ctx)) \<Longrightarrow>
      merge_distinguished m (rm_empty m) \<lparr>cap_buf = body v @ rest, cap_extra = length rest\<rparr> ctx =
        Done (v, Canonical, \<lparr>cap_buf = rest, cap_extra = length rest\<rparr>)"
    and dist_no_panic: "merge_distinguished m (rm_empty m) cp ctx \<noteq> Panic"

section \<open>A message is a value\<close>

context message_contract
begin

lemma merge_loop_frame:
  "merge_loop m fuel tr t v cp ctx = Done (v', cp') \<Longrightarrow>
    cap_extra cp' = cap_extra cp \<and> length (cap_buf cp') = cap_extra cp \<and> (\<exists>p. cap_buf cp = p @ cap_buf cp')"
proof (induction fuel arbitrary: tr t v cp)
  case (Suc fuel)
  show ?case
  proof (cases "length (cap_buf cp) = cap_extra cp")
    case True
    then show ?thesis using Suc.prems by simp
  next
    case False
    then obtain tag wt tr1 cp1 v2 cp2 where 1: "decode_key slice_ops tr cp = Done (tag, wt, tr1, cp1)"
      "rm_decode_field m tag wt (t = Some tag) v cp1 ctx = Done (v2, cp2)"
      "merge_loop m fuel tr1 (Some tag) v2 cp2 ctx = Done (v', cp')"
      using Suc.prems by (auto simp: Let_def split: if_splits)
    obtain p where "cap_buf cp1 = p @ cap_buf cp2" "cap_extra cp2 = cap_extra cp1"
      using field_frame [OF 1(2)] by blast
    moreover obtain q where "cap_buf cp = q @ cap_buf cp1" "cap_extra cp1 = cap_extra cp"
      using 1(1) by (auto simp: decode_key_Done)
    moreover obtain r where "cap_buf cp2 = r @ cap_buf cp'" "cap_extra cp' = cap_extra cp2"
      "length (cap_buf cp') = cap_extra cp2"
      using Suc.IH [OF 1(3)] by blast
    ultimately show ?thesis by simp
  qed
qed simp

lemma merge_loop_not_Panic:
  "length (cap_buf cp) < fuel \<Longrightarrow> merge_loop m fuel tr t v cp ctx \<noteq> Panic"
proof (induction fuel arbitrary: tr t v cp)
  case (Suc fuel)
  have "merge_loop m fuel tr1 (Some tag) v2 cp2 ctx \<noteq> Panic"
    if k: "decode_key slice_ops tr cp = Done (tag, wt, tr1, cp1)"
      and f: "rm_decode_field m tag wt (t = Some tag) v cp1 ctx = Done (v2, cp2)" for tag wt tr1 cp1 v2 cp2
  proof (rule Suc.IH)
    obtain p where "cap_buf cp1 = p @ cap_buf cp2" using field_frame [OF f] by blast
    moreover have "length (cap_buf cp1) < length (cap_buf cp)"
      using k by (auto simp: decode_key_Done)
    ultimately show "length (cap_buf cp2) < fuel" using Suc.prems by simp
  qed
  then show ?case by (auto simp: obind_Panic_iff field_no_panic Let_def)
qed simp

lemma merge_no_panic: "merge m v cp ctx \<noteq> Panic"
  using merge_loop_not_Panic by (simp add: merge_def del: merge_loop.simps)

lemma message_decode_frame:
  assumes "message_decode_value m v cp ctx = Done (v', cp')"
  shows "cap_extra cp' = cap_extra cp \<and> (\<exists>p. p \<noteq> [] \<and> cap_buf cp = p @ cap_buf cp')"
proof -
  obtain c1 c2 where 1: "take_length_delimited slice_ops cp = Done c1"
    "merge m v c1 (enter_recursion ctx) = Done (v', c2)" "cp' = cap_outer cp c2"
    using assms by (auto simp: message_decode_value_def simp del: take_length_delimited_Done)
  obtain d rest where d: "cap_buf cp = delimited d @ rest" "cap_buf c1 = d @ rest" "length d < 2 ^ 64"
    "cap_extra c1 = length rest" "cap_extra cp \<le> length rest"
    by (rule take_length_delimitedE [OF 1(1)])
  obtain p where "d @ rest = p @ cap_buf c2" "length (cap_buf c2) = length rest"
    using merge_loop_frame [OF 1(2) [unfolded merge_def]] unfolding d(2,4) by blast
  then have "cap_buf c2 = rest" by simp
  then show ?thesis using d 1(3) by (intro conjI exI [of _ "delimited d"]) simp_all
qed

lemma take_body:
  "valid v \<Longrightarrow> x \<le> length rest \<Longrightarrow>
   take_length_delimited slice_ops \<lparr>cap_buf = delimited (body v) @ rest, cap_extra = x\<rparr> =
     Done \<lparr>cap_buf = body v @ rest, cap_extra = length rest\<rparr>"
  using body_length by (intro take_delimited_eq) simp_all

lemma message_codec_laws:
  "value_codec rops rcontents rinv (message_codec rops m) (\<lambda>v. delimited (body v)) valid (\<lambda>v. Suc (depth v))"
proof unfold_locales
  fix v buf r v0 n ctx x cp cp' and rest :: bytes
  show "c_decode (message_codec rops m) v0 cp ctx \<noteq> Panic"
    by (auto simp: message_codec_def message_decode_value_def obind_Panic_iff merge_no_panic
        simp del: take_length_delimited_Done)
  show "cap_extra cp' = cap_extra cp \<and> (\<exists>p. p \<noteq> [] \<and> cap_buf cp = p @ cap_buf cp')"
    if "c_decode (message_codec rops m) v0 cp ctx = Done (v, cp')"
    using that message_decode_frame by (simp add: message_codec_def)
  assume v: "valid v"
  show "c_encode (message_codec rops m) v buf = Some (buf @ delimited (body v))"
    using v len encode by (simp add: message_codec_def message_encode_value_def encode_varint_bytes delimited_def)
  show "c_len (message_codec rops m) v = length (delimited (body v))"
    using v len by (simp add: message_codec_def message_value_encoded_len_def delimited_def encoded_len_varint_bytes)
  show "\<exists>r'. c_prepend (message_codec rops m) v r = Some r' \<and> rinv r' \<and>
      rcontents r' = delimited (body v) @ rcontents r" if "rinv r"
    using prepends_delimited [OF prepend [OF v]] that
    by (simp add: message_codec_def message_prepend_value_def prepends_def Let_def)
  show "delimited (body v) \<noteq> []" by simp
  show "length (delimited (body v)) = n" if "fixed_size (c_wire (message_codec rops m)) = Some n"
    using that by (simp add: message_codec_def)
  assume d: "Suc (depth v) \<le> unat (recurse_count ctx)" and x: "x \<le> length rest"
  have lim: "limit_reached ctx = Ok ()" using d by (auto simp: limit_reached_def)
  then have "depth v \<le> unat (recurse_count (enter_recursion ctx))"
    using d by (simp add: enter_recursion_limit)
  then show "c_decode (message_codec rops m) (c_for_overwrite (message_codec rops m))
      \<lparr>cap_buf = delimited (body v) @ rest, cap_extra = x\<rparr> ctx = Done (v, \<lparr>cap_buf = rest, cap_extra = x\<rparr>)"
    using v take_body [OF v x] merge_body lim
    by (simp add: message_codec_def message_decode_value_def del: take_length_delimited_Done)
next
  fix vs
  assume vs: "\<forall>v \<in> set vs. valid v"
  have "message_value_encoded_len m v = length (delimited (body v))" if "v \<in> set vs" for v
    using that vs len by (simp add: message_value_encoded_len_def delimited_def encoded_len_varint_bytes)
  then show "c_many_len (message_codec rops m) vs = sum_list (map (\<lambda>v. length (delimited (body v))) vs)"
    by (simp add: message_codec_def cong: map_cong)
qed

end

context distinguished_message_contract
begin

lemma merge_at_cap: "length (cap_buf cp) = cap_extra cp \<Longrightarrow> merge m v cp ctx = Done (v, cp)"
  by (simp add: merge_def)

lemma message_distinguished_laws:
  "distinguished_codec rops rcontents rinv (message_codec rops m) (\<lambda>v. delimited (body v)) valid (\<lambda>v. Suc (depth v))"
proof (intro distinguished_codec.intro message_codec_laws distinguished_codec_axioms.intro)
  let ?c = "message_codec rops m"
  fix allow v v0 k ctx x cp cp' and rest :: bytes
  show "c_decode_dist ?c allow (c_for_overwrite ?c) cp ctx \<noteq> Panic"
    by (auto simp: message_codec_def message_decode_value_distinguished_def obind_Panic_iff
        dist_no_panic simp del: take_length_delimited_Done)
  show "c_decode ?c (c_for_overwrite ?c) cp (into_inner ctx) = Done (v, cp') \<and> rc_min_canonicity ctx \<le> k"
    if d: "c_decode_dist ?c allow (c_for_overwrite ?c) cp ctx = Done (v, k, cp')"
  proof -
    obtain c1 where c1: "limit_reached (into_inner ctx) = Ok ()" "take_length_delimited slice_ops cp = Done c1"
      "(if \<not> allow \<and> length (cap_buf c1) - cap_extra c1 = 0
        then obind (from_result (check ctx NotCanonical)) (\<lambda>k. Done (rm_empty m, k, cap_outer cp c1))
        else obind (merge_distinguished m (rm_empty m) c1 (restricted_enter_recursion ctx)) (\<lambda>(value, k, buf).
          Done (value, k, cap_outer cp buf))) = Done (v, k, cp')"
      using d by (auto simp: message_codec_def message_decode_value_distinguished_def into_inner_def
          restricted_limit_reached_def simp del: take_length_delimited_Done)
    have inner: "into_inner (restricted_enter_recursion ctx) = enter_recursion (into_inner ctx)"
      "rc_min_canonicity (restricted_enter_recursion ctx) = rc_min_canonicity ctx"
      by (simp_all add: into_inner_def restricted_enter_recursion_def)
    have "cap_extra c1 \<le> length (cap_buf c1)" using c1(2) by auto
    then show ?thesis
      using c1 merge_at_cap [of c1 "rm_empty m" "enter_recursion (into_inner ctx)"]
        dist_relaxed [of c1 "restricted_enter_recursion ctx"] inner
      by (auto simp: message_codec_def message_decode_value_def simp del: take_length_delimited_Done
          split: if_splits)
  qed
  show "cap_buf cp = delimited (body v) @ cap_buf cp' \<and> valid v"
    if d: "c_decode_dist ?c allow (c_for_overwrite ?c) cp ctx = Done (v, Canonical, cp')"
      and n: "length (cap_buf cp) < 2 ^ 64"
  proof -
    obtain c1 c2 where c1: "take_length_delimited slice_ops cp = Done c1"
      "merge_distinguished m (rm_empty m) c1 (restricted_enter_recursion ctx) = Done (v, Canonical, c2)"
      "cp' = cap_outer cp c2"
      using d by (auto simp: message_codec_def message_decode_value_distinguished_def
          simp del: take_length_delimited_Done split: if_splits)
    obtain d' rest where d': "cap_buf cp = delimited d' @ rest" "cap_buf c1 = d' @ rest" "length d' < 2 ^ 64"
      "cap_extra c1 = length rest" "cap_extra cp \<le> length rest"
      by (rule take_length_delimitedE [OF c1(1)])
    have "length (cap_buf c1) < 2 ^ 64" using n d'(1,2) by (simp add: delimited_def)
    note body = dist_canonical [OF c1(2) this]
    have "length (cap_buf c2) = length rest"
      using merge_loop_frame [OF conjunct1 [OF dist_relaxed [OF c1(2)], unfolded merge_def]] d'(4) by simp
    then have "cap_buf c2 = rest" "d' = body v" using body d'(2) by simp_all
    then show ?thesis using body d'(1) c1(3) by simp
  qed
  show "delimited (body v) \<noteq> [0]"
    if d: "c_decode_dist ?c False (c_for_overwrite ?c) cp ctx = Done (v, Canonical, cp')"
      and n: "length (cap_buf cp) < 2 ^ 64"
  proof -
    obtain c1 c2 where c1: "take_length_delimited slice_ops cp = Done c1"
      "cap_extra c1 < length (cap_buf c1)"
      "merge_distinguished m (rm_empty m) c1 (restricted_enter_recursion ctx) = Done (v, Canonical, c2)"
      using d by (auto simp: message_codec_def message_decode_value_distinguished_def
          simp del: take_length_delimited_Done split: if_splits)
    have lt: "length (cap_buf c1) < 2 ^ 64" using n c1(1) by auto
    note body = dist_canonical [OF c1(3) lt]
    have "length (cap_buf c2) = cap_extra c1"
      using merge_loop_frame [OF conjunct1 [OF dist_relaxed [OF c1(3)], unfolded merge_def]] by simp
    then have "body v \<noteq> []" using body c1(2) by auto
    then show ?thesis by simp
  qed
  show "c_decode_dist ?c allow (c_for_overwrite ?c)
      \<lparr>cap_buf = delimited (body v) @ rest, cap_extra = x\<rparr> ctx = Done (v, Canonical, \<lparr>cap_buf = rest, cap_extra = x\<rparr>)"
    if v: "valid v" "Suc (depth v) \<le> unat (recurse_count (into_inner ctx))" "x \<le> length rest"
      and e: "allow \<or> \<not> c_checks_empty ?c \<or> delimited (body v) \<noteq> [0]"
  proof -
    have lim: "limit_reached (into_inner ctx) = Ok ()" using v(2) by (auto simp: limit_reached_def)
    then have "depth v \<le> unat (recurse_count (into_inner (restricted_enter_recursion ctx)))"
      using v(2) enter_recursion_limit [OF lim] by (simp add: into_inner_def restricted_enter_recursion_def)
    moreover have "allow \<or> body v \<noteq> []"
      using e by (simp add: message_codec_def)
    ultimately show ?thesis
      using v take_body [OF v(1,3)] dist_complete lim
      by (simp add: message_codec_def message_decode_value_distinguished_def restricted_limit_reached_def
          into_inner_def del: take_length_delimited_Done)
  qed
qed

end

end
