(* ===== verification/Field_Order.thy ===== *)
theory Field_Order
  imports Collections "HOL-Library.Multiset"
begin

text \<open>
  The order in which a derived message emits its fields, decided when the message is compiled:
  \<^verbatim>\<open>src/bilrost-derive/src/field/mod.rs\<close> (\<open>MessageFieldsSorted\<close>, \<open>process_sort_groups\<close>) and the tags of
  \<^verbatim>\<open>field/traits.rs\<close>. A field has one tag or, when it is a oneof, the tags of all its variants, of which
  a value uses at most one. Fields whose tags do not interleave are emitted in a fixed order; the
  others form sort groups that are sorted by their current tags whenever a message is encoded. A
  \<^verbatim>\<open>BTreeSet<u32>\<close> is the ascending list of its items. Every panic and assertion of the code is \<open>None\<close>;
  the first result says that none of them is reached, the second that the tags come out ascending.
\<close>

section \<open>Chunking\<close>

datatype 'f sort_group_part = Contiguous "'f list" | OneofPart 'f

datatype 'f field_chunk = AlwaysOrdered 'f | SortGroup "'f sort_group_part list"

text \<open>\<^verbatim>\<open>first_tag\<close> and \<^verbatim>\<open>last_tag\<close> panic for a field without tags.\<close>

definition first_tag :: "('f \<Rightarrow> u32 list) \<Rightarrow> 'f \<Rightarrow> u32 option" where
  "first_tag tags f = (if tags f = [] then None else Some (Min (set (tags f))))"

definition last_tag :: "('f \<Rightarrow> u32 list) \<Rightarrow> 'f \<Rightarrow> u32 option" where
  "last_tag tags f = (if tags f = [] then None else Some (Max (set (tags f))))"

text \<open>\<^verbatim>\<open>BTreeSet::range\<close> panics when the range is backwards.\<close>

definition range_nonempty :: "u32 list \<Rightarrow> u32 \<Rightarrow> u32 \<Rightarrow> bool option" where
  "range_nonempty s lo hi = (if hi < lo then None else Some (\<exists>t \<in> set s. lo \<le> t \<and> t \<le> hi))"

definition push_contiguous :: "'f list \<Rightarrow> 'f sort_group_part list \<Rightarrow> 'f sort_group_part list" where
  "push_contiguous cont parts = (if cont = [] then parts else parts @ [Contiguous cont])"

record 'f chunking =
  ck_contiguous :: "'f list"
  ck_group :: "'f sort_group_part list"
  ck_oneof_tags :: "u32 list"
  ck_chunks :: "'f field_chunk list"

text \<open>One round of the loop, up to the place where a finished group is emitted.\<close>

definition place_field :: "('f \<Rightarrow> u32 list) \<Rightarrow> 'f \<Rightarrow> 'f option \<Rightarrow> 'f chunking \<Rightarrow> 'f chunking option" where
  "place_field tags f next_field ck = do {
     first \<leftarrow> first_tag tags f;
     final \<leftarrow> last_tag tags f;
     overlaps \<leftarrow> (case next_field of
         Some g \<Rightarrow> first_tag tags g \<bind> (\<lambda>t. Some (t < final))
       | None \<Rightarrow> Some False);
     let otags = ck_oneof_tags ck;
     if otags \<noteq> [] \<and> first < last otags then
       if overlaps then
         Some (ck\<lparr>ck_contiguous := [],
           ck_group := push_contiguous (ck_contiguous ck) (ck_group ck) @ [OneofPart f],
           ck_oneof_tags := fold set_insert (tags f) otags\<rparr>)
       else do {
         interleaved \<leftarrow> range_nonempty otags first final;
         if interleaved then
           Some (ck\<lparr>ck_contiguous := [],
             ck_group := push_contiguous (ck_contiguous ck) (ck_group ck) @ [OneofPart f]\<rparr>)
         else do {
           split \<leftarrow> (if ck_contiguous ck = [] then Some False
             else do {
               previous \<leftarrow> last_tag tags (last (ck_contiguous ck));
               range_nonempty otags previous first
             });
           Some (if split
             then ck\<lparr>ck_group := push_contiguous (ck_contiguous ck) (ck_group ck), ck_contiguous := [f]\<rparr>
             else ck\<lparr>ck_contiguous := ck_contiguous ck @ [f]\<rparr>)
         }
       }
     else if overlaps then
       Some (ck\<lparr>ck_group := ck_group ck @ [OneofPart f], ck_oneof_tags := fold set_insert (tags f) []\<rparr>)
     else Some (ck\<lparr>ck_chunks := ck_chunks ck @ [AlwaysOrdered f]\<rparr>)
   }"

definition finish_group :: "('f \<Rightarrow> u32 list) \<Rightarrow> 'f option \<Rightarrow> 'f chunking \<Rightarrow> 'f chunking option" where
  "finish_group tags next_field ck =
    (if ck_oneof_tags ck = [] then Some ck
     else do {
       more \<leftarrow> (case next_field of
           Some g \<Rightarrow> first_tag tags g \<bind> (\<lambda>t. Some (t < last (ck_oneof_tags ck)))
         | None \<Rightarrow> Some False);
       if more then Some ck
       else do {
         let parts = push_contiguous (ck_contiguous ck) (ck_group ck);
         if parts = [] then None
         else Some (ck\<lparr>ck_contiguous := [], ck_group := [], ck_oneof_tags := [],
           ck_chunks := ck_chunks ck @ [SortGroup parts]\<rparr>)
       }
     })"

text \<open>The loop draws from an iterator; the result holds what is left of it.\<close>

fun chunk_loop :: "('f \<Rightarrow> u32 list) \<Rightarrow> 'f list \<Rightarrow> 'f chunking \<Rightarrow> ('f chunking \<times> 'f list) option" where
  "chunk_loop tags [] ck = Some (ck, [])"
| "chunk_loop tags (f # fs) ck = do {
     let next_field = (case fs of [] \<Rightarrow> None | g # _ \<Rightarrow> Some g);
     ck \<leftarrow> place_field tags f next_field ck;
     ck \<leftarrow> finish_group tags next_field ck;
     chunk_loop tags fs ck
   }"

text \<open>\<^verbatim>\<open>tag_measurer\<close>: a cheaper measurer does when no key takes more than a byte.\<close>

datatype tag_measurer_type = TrivialTagMeasurer | RuntimeTagMeasurer

definition choose_measurer :: "('f \<Rightarrow> u32 list) \<Rightarrow> 'f list \<Rightarrow> tag_measurer_type" where
  "choose_measurer tags fs =
    (if concat (map tags fs) \<noteq> [] \<and> Max (set (concat (map tags fs))) < 32
     then TrivialTagMeasurer else RuntimeTagMeasurer)"

text \<open>\<^verbatim>\<open>MessageFieldsSorted::new\<close>. The measurer is chosen from the iterator that the loop has drawn from.\<close>

definition sort_fields ::
    "('f \<Rightarrow> u32 list) \<Rightarrow> 'f list \<Rightarrow> ('f field_chunk list \<times> tag_measurer_type) option" where
  "sort_fields tags unsorted_fields =
    (if \<exists>f \<in> set unsorted_fields. tags f = [] then None
     else do {
       (ck, fields) \<leftarrow> chunk_loop tags (sort_key (\<lambda>f. the (first_tag tags f)) unsorted_fields)
         \<lparr>ck_contiguous = [], ck_group = [], ck_oneof_tags = [], ck_chunks = []\<rparr>;
       if ck_group ck = [] \<and> ck_contiguous ck = []
       then Some (ck_chunks ck, choose_measurer tags fields) else None
     })"

section \<open>Emission\<close>

text \<open>
  The parts of a sort group with the tags they are sorted by: a contiguous part always, under its
  first tag; a oneof when it has a current tag. \<open>current\<close> panics on a field that is not a oneof.
\<close>

definition contiguous_keys ::
    "('f \<Rightarrow> u32 list) \<Rightarrow> 'f sort_group_part list \<Rightarrow> (u32 \<times> 'f list) list option" where
  "contiguous_keys tags parts =
    those (map (\<lambda>p. case p of
        Contiguous (f # fs) \<Rightarrow> map_option (\<lambda>t. (t, f # fs)) (first_tag tags f)
      | _ \<Rightarrow> None) (filter (\<lambda>p. case p of Contiguous _ \<Rightarrow> True | OneofPart _ \<Rightarrow> False) parts))"

definition oneof_keys ::
    "('f \<Rightarrow> u32 option option) \<Rightarrow> 'f sort_group_part list \<Rightarrow> (u32 \<times> 'f list) list option" where
  "oneof_keys current parts =
    map_option concat (those (map (\<lambda>p. case p of
        OneofPart f \<Rightarrow> map_option (\<lambda>t. case t of Some t \<Rightarrow> [(t, [f])] | None \<Rightarrow> []) (current f)
      | Contiguous _ \<Rightarrow> Some []) parts))"

text \<open>Ascending, and for prepending descending with every list of fields reversed.\<close>

definition emit_group ::
    "('f \<Rightarrow> u32 list) \<Rightarrow> ('f \<Rightarrow> u32 option option) \<Rightarrow> bool \<Rightarrow> 'f sort_group_part list \<Rightarrow> 'f list option" where
  "emit_group tags current reverse parts = do {
     let align = (if reverse then rev else (\<lambda>xs. xs));
     guaranteed \<leftarrow> contiguous_keys tags (align parts);
     populated \<leftarrow> oneof_keys current (align parts);
     let ordered = sort_key (\<lambda>(t, _). if reverse then - int (unat t) else int (unat t)) (guaranteed @ populated);
     Some (concat (map (\<lambda>(_, fs). if reverse then rev fs else fs) ordered))
   }"

definition emit_chunk ::
    "('f \<Rightarrow> u32 list) \<Rightarrow> ('f \<Rightarrow> u32 option option) \<Rightarrow> bool \<Rightarrow> 'f field_chunk \<Rightarrow> 'f list option" where
  "emit_chunk tags current reverse c =
    (case c of AlwaysOrdered f \<Rightarrow> Some [f] | SortGroup parts \<Rightarrow> emit_group tags current reverse parts)"

definition emission ::
    "('f \<Rightarrow> u32 list) \<Rightarrow> ('f \<Rightarrow> u32 option option) \<Rightarrow> bool \<Rightarrow> 'f field_chunk list \<Rightarrow> 'f list option" where
  "emission tags current reverse chunks =
    map_option concat (those (map (emit_chunk tags current reverse) (if reverse then rev chunks else chunks)))"


section \<open>Regions\<close>

definition lo :: "('f \<Rightarrow> u32 list) \<Rightarrow> 'f \<Rightarrow> u32" where
  "lo tags f = Min (set (tags f))"

definition hi :: "('f \<Rightarrow> u32 list) \<Rightarrow> 'f \<Rightarrow> u32" where
  "hi tags f = Max (set (tags f))"

text \<open>The tags that may come out of a part, and those between them.\<close>

fun region :: "('f \<Rightarrow> u32 list) \<Rightarrow> 'f sort_group_part \<Rightarrow> u32 set" where
  "region tags (Contiguous fs) = {lo tags (hd fs)..hi tags (last fs)}"
| "region tags (OneofPart f) = set (tags f)"

fun part_fields :: "'f sort_group_part \<Rightarrow> 'f list" where
  "part_fields (Contiguous fs) = fs"
| "part_fields (OneofPart f) = [f]"

definition part_ok :: "('f \<Rightarrow> u32 list) \<Rightarrow> 'f sort_group_part \<Rightarrow> bool" where
  "part_ok tags p = (case p of
     Contiguous fs \<Rightarrow> fs \<noteq> [] \<and> sorted_wrt (\<lambda>f g. hi tags f < lo tags g) fs
   | OneofPart f \<Rightarrow> lo tags f < hi tags f)"

definition group_ok :: "('f \<Rightarrow> u32 list) \<Rightarrow> 'f sort_group_part list \<Rightarrow> bool" where
  "group_ok tags parts \<longleftrightarrow> (\<forall>p \<in> set parts. part_ok tags p) \<and>
     sorted_wrt (\<lambda>p q. region tags p \<inter> region tags q = {}) parts"

fun chunk_region :: "('f \<Rightarrow> u32 list) \<Rightarrow> 'f field_chunk \<Rightarrow> u32 set" where
  "chunk_region tags (AlwaysOrdered f) = set (tags f)"
| "chunk_region tags (SortGroup parts) = (\<Union>p \<in> set parts. region tags p)"

fun chunk_fields :: "'f field_chunk \<Rightarrow> 'f list" where
  "chunk_fields (AlwaysOrdered f) = [f]"
| "chunk_fields (SortGroup parts) = concat (map part_fields parts)"

fun chunk_ok :: "('f \<Rightarrow> u32 list) \<Rightarrow> 'f field_chunk \<Rightarrow> bool" where
  "chunk_ok tags (AlwaysOrdered f) = True"
| "chunk_ok tags (SortGroup parts) = group_ok tags parts"

definition chunks_ok :: "('f \<Rightarrow> u32 list) \<Rightarrow> 'f field_chunk list \<Rightarrow> bool" where
  "chunks_ok tags cs \<longleftrightarrow> (\<forall>c \<in> set cs. chunk_ok tags c) \<and>
     sorted_wrt (\<lambda>c d. \<forall>t \<in> chunk_region tags c. \<forall>u \<in> chunk_region tags d. t < u) cs"

text \<open>Fields in the order of their first tags, with tags and without a tag in common.\<close>

definition in_order :: "('f \<Rightarrow> u32 list) \<Rightarrow> 'f list \<Rightarrow> bool" where
  "in_order tags fs \<longleftrightarrow> (\<forall>f \<in> set fs. tags f \<noteq> []) \<and>
     sorted_wrt (\<lambda>f g. lo tags f < lo tags g \<and> set (tags f) \<inter> set (tags g) = {}) fs"

lemma lo_le [simp]: "t \<in> set (tags f) \<Longrightarrow> lo tags f \<le> t"
  by (simp add: lo_def)

lemma le_hi [simp]: "t \<in> set (tags f) \<Longrightarrow> t \<le> hi tags f"
  by (simp add: hi_def)

lemma lo_in [simp]: "tags f \<noteq> [] \<Longrightarrow> lo tags f \<in> set (tags f)"
  by (simp add: lo_def)

lemma hi_in [simp]: "tags f \<noteq> [] \<Longrightarrow> hi tags f \<in> set (tags f)"
  by (simp add: hi_def)

lemma lo_le_hi [simp]: "tags f \<noteq> [] \<Longrightarrow> lo tags f \<le> hi tags f"
  by (rule le_hi, rule lo_in)

lemma first_tag_eq: "tags f \<noteq> [] \<Longrightarrow> first_tag tags f = Some (lo tags f)"
  by (simp add: first_tag_def lo_def)

lemma last_tag_eq: "tags f \<noteq> [] \<Longrightarrow> last_tag tags f = Some (hi tags f)"
  by (simp add: last_tag_def hi_def)

lemma set_fold_set_insert [simp]: "set (fold set_insert xs s) = set xs \<union> set s"
  by (induction xs arbitrary: s) auto

lemma fold_set_insert_ascending: "sorted_wrt (<) s \<Longrightarrow> sorted_wrt (<) (fold set_insert xs s)"
  by (induction xs arbitrary: s) (auto intro: set_insert_ascending)

lemma ascending_le_last: "sorted_wrt (<) s \<Longrightarrow> t \<in> set s \<Longrightarrow> t \<le> last s" for t :: u32
  by (induction s) (auto intro: less_imp_le)

section \<open>The invariant of the loop\<close>

text \<open>
  A part of the open group is closed when all its tags come before those of the fields to come; a oneof
  that is not closed has its tags in the set \<open>ck_oneof_tags\<close>.
\<close>

definition closed_part :: "('f \<Rightarrow> u32 list) \<Rightarrow> u32 list \<Rightarrow> 'f list \<Rightarrow> 'f sort_group_part \<Rightarrow> bool" where
  "closed_part tags otags fs p \<longleftrightarrow> (\<exists>g. p = OneofPart g \<and> set (tags g) \<subseteq> set otags) \<or>
     (\<forall>t \<in> region tags p. \<forall>f \<in> set fs. t < lo tags f)"

definition chunk_inv :: "('f \<Rightarrow> u32 list) \<Rightarrow> 'f list \<Rightarrow> 'f chunking \<Rightarrow> 'f list \<Rightarrow> bool" where
  "chunk_inv tags all ck fs \<longleftrightarrow>
     concat (map chunk_fields (ck_chunks ck)) @ concat (map part_fields (ck_group ck)) @ ck_contiguous ck @ fs = all \<and>
     chunks_ok tags (ck_chunks ck) \<and>
     (\<forall>c \<in> set (ck_chunks ck). \<forall>t \<in> chunk_region tags c.
       (\<forall>p \<in> set (ck_group ck). \<forall>u \<in> region tags p. t < u) \<and> (\<forall>f \<in> set (ck_contiguous ck @ fs). t < lo tags f)) \<and>
     group_ok tags (ck_group ck) \<and>
     (\<forall>p \<in> set (ck_group ck). closed_part tags (ck_oneof_tags ck) (ck_contiguous ck @ fs) p) \<and>
     (ck_contiguous ck \<noteq> [] \<longrightarrow> part_ok tags (Contiguous (ck_contiguous ck))) \<and>
     (\<forall>f \<in> set (ck_contiguous ck). \<forall>g \<in> set fs. hi tags f < lo tags g) \<and>
     (ck_contiguous ck \<noteq> [] \<longrightarrow> (\<forall>t \<in> set (ck_oneof_tags ck). t \<notin> region tags (Contiguous (ck_contiguous ck)))) \<and>
     sorted_wrt (<) (ck_oneof_tags ck) \<and>
     (\<forall>t \<in> set (ck_oneof_tags ck). \<exists>g. OneofPart g \<in> set (ck_group ck) \<and> t \<in> set (tags g)) \<and>
     (ck_oneof_tags ck = [] \<longrightarrow> ck_group ck = [] \<and> ck_contiguous ck = [])"

lemma in_order_Cons:
  "in_order tags (f # fs) \<longleftrightarrow> tags f \<noteq> [] \<and> in_order tags fs \<and>
     (\<forall>g \<in> set fs. lo tags f < lo tags g \<and> set (tags f) \<inter> set (tags g) = {})"
  by (auto simp: in_order_def)

lemma in_order_append:
  "in_order tags (fs @ gs) \<longleftrightarrow> in_order tags fs \<and> in_order tags gs \<and>
     (\<forall>f \<in> set fs. \<forall>g \<in> set gs. lo tags f < lo tags g \<and> set (tags f) \<inter> set (tags g) = {})"
  by (auto simp: in_order_def sorted_wrt_append)

lemma hi_less_lo:
  assumes "in_order tags (f # g # fs)" and "\<not> lo tags g < hi tags f" and "h \<in> set (g # fs)"
  shows "hi tags f < lo tags h"
proof -
  have "lo tags g \<noteq> hi tags f"
    using assms(1) lo_in [of tags g] hi_in [of tags f] unfolding in_order_Cons
    by (metis disjoint_iff list.set_intros(1))
  then have "hi tags f < lo tags g" using assms(2) by auto
  then show ?thesis using assms(1,3) by (auto simp: in_order_Cons)
qed

lemma group_ok_snoc:
  "group_ok tags (ps @ [p]) \<longleftrightarrow> group_ok tags ps \<and> part_ok tags p \<and>
     (\<forall>q \<in> set ps. region tags q \<inter> region tags p = {})"
  by (auto simp: group_ok_def sorted_wrt_append)

lemma chunks_ok_snoc:
  "chunks_ok tags (cs @ [c]) \<longleftrightarrow> chunks_ok tags cs \<and> chunk_ok tags c \<and>
     (\<forall>d \<in> set cs. \<forall>t \<in> chunk_region tags d. \<forall>u \<in> chunk_region tags c. t < u)"
  by (auto simp: chunks_ok_def sorted_wrt_append)

lemma hi_last_cont:
  "part_ok tags (Contiguous fs) \<Longrightarrow> f \<in> set fs \<Longrightarrow> \<forall>f \<in> set fs. tags f \<noteq> [] \<Longrightarrow>
   lo tags (hd fs) \<le> lo tags f \<and> hi tags f \<le> hi tags (last fs)"
proof (induction fs)
  case (Cons g fs)
  show ?case
  proof (cases "fs = []")
    case False
    have "part_ok tags (Contiguous fs)" using Cons.prems(1) False by (simp add: part_ok_def)
    moreover have hd: "hi tags g < lo tags (hd fs)" "hi tags g < lo tags (last fs)"
      using Cons.prems(1) False by (auto simp: part_ok_def)
    moreover have "lo tags g \<le> lo tags (hd fs)"
      using Cons.prems(3) hd(1) lo_le_hi [of tags g] by (meson le_less_trans less_imp_le list.set_intros(1))
    moreover have "lo tags (last fs) \<le> hi tags (last fs)"
      using Cons.prems(3) False by auto
    ultimately show ?thesis
      using Cons.IH Cons.prems(2,3) False
      by (cases "f = g") (auto dest!: less_imp_le intro: order_trans)
  qed (use Cons in simp)
qed simp


lemma chunk_invD:
  assumes "chunk_inv tags all ck fs"
  shows "concat (map chunk_fields (ck_chunks ck)) @ concat (map part_fields (ck_group ck)) @ ck_contiguous ck @ fs = all"
    and "chunks_ok tags (ck_chunks ck)"
    and "c \<in> set (ck_chunks ck) \<Longrightarrow> t \<in> chunk_region tags c \<Longrightarrow> p \<in> set (ck_group ck) \<Longrightarrow> u \<in> region tags p \<Longrightarrow> t < u"
    and "c \<in> set (ck_chunks ck) \<Longrightarrow> t \<in> chunk_region tags c \<Longrightarrow> f \<in> set (ck_contiguous ck) \<union> set fs \<Longrightarrow> t < lo tags f"
    and "group_ok tags (ck_group ck)"
    and "p \<in> set (ck_group ck) \<Longrightarrow> closed_part tags (ck_oneof_tags ck) (ck_contiguous ck @ fs) p"
    and "ck_contiguous ck \<noteq> [] \<Longrightarrow> part_ok tags (Contiguous (ck_contiguous ck))"
    and "f \<in> set (ck_contiguous ck) \<Longrightarrow> g \<in> set fs \<Longrightarrow> hi tags f < lo tags g"
    and "ck_contiguous ck \<noteq> [] \<Longrightarrow> t \<in> set (ck_oneof_tags ck) \<Longrightarrow> t \<notin> region tags (Contiguous (ck_contiguous ck))"
    and "sorted_wrt (<) (ck_oneof_tags ck)"
    and "t \<in> set (ck_oneof_tags ck) \<Longrightarrow> \<exists>g. OneofPart g \<in> set (ck_group ck) \<and> t \<in> set (tags g)"
    and "ck_oneof_tags ck = [] \<Longrightarrow> ck_group ck = [] \<and> ck_contiguous ck = []"
  using assms by (auto simp: chunk_inv_def simp del: region.simps)

lemma chunk_invI:
  assumes "concat (map chunk_fields (ck_chunks ck)) @ concat (map part_fields (ck_group ck)) @ ck_contiguous ck @ fs = all"
    and "chunks_ok tags (ck_chunks ck)"
    and "\<And>c t p u. c \<in> set (ck_chunks ck) \<Longrightarrow> t \<in> chunk_region tags c \<Longrightarrow> p \<in> set (ck_group ck) \<Longrightarrow> u \<in> region tags p \<Longrightarrow> t < u"
    and "\<And>c t f. c \<in> set (ck_chunks ck) \<Longrightarrow> t \<in> chunk_region tags c \<Longrightarrow> f \<in> set (ck_contiguous ck) \<union> set fs \<Longrightarrow> t < lo tags f"
    and "group_ok tags (ck_group ck)"
    and "\<And>p. p \<in> set (ck_group ck) \<Longrightarrow> closed_part tags (ck_oneof_tags ck) (ck_contiguous ck @ fs) p"
    and "ck_contiguous ck \<noteq> [] \<Longrightarrow> part_ok tags (Contiguous (ck_contiguous ck))"
    and "\<And>f g. f \<in> set (ck_contiguous ck) \<Longrightarrow> g \<in> set fs \<Longrightarrow> hi tags f < lo tags g"
    and "\<And>t. ck_contiguous ck \<noteq> [] \<Longrightarrow> t \<in> set (ck_oneof_tags ck) \<Longrightarrow> t \<notin> region tags (Contiguous (ck_contiguous ck))"
    and "sorted_wrt (<) (ck_oneof_tags ck)"
    and "\<And>t. t \<in> set (ck_oneof_tags ck) \<Longrightarrow> \<exists>g. OneofPart g \<in> set (ck_group ck) \<and> t \<in> set (tags g)"
    and "ck_oneof_tags ck = [] \<Longrightarrow> ck_group ck = [] \<and> ck_contiguous ck = []"
  shows "chunk_inv tags all ck fs"
  using assms unfolding chunk_inv_def set_append by blast

text \<open>A contiguous list of fields becomes a part of the group.\<close>

lemma push_contiguous_inv:
  assumes inv: "chunk_inv tags all ck fs" and all: "in_order tags all"
  shows "chunk_inv tags all (ck\<lparr>ck_contiguous := [],
    ck_group := push_contiguous (ck_contiguous ck) (ck_group ck)\<rparr>) fs"
proof (cases "ck_contiguous ck = []")
  case True
  then show ?thesis using inv by (simp add: push_contiguous_def chunk_inv_def)
next
  case False
  let ?C = "ck_contiguous ck"
  note I = chunk_invD [OF inv]
  have hd: "hd ?C \<in> set ?C" "last ?C \<in> set ?C" using False by simp_all
  have sep: "region tags q \<inter> region tags (Contiguous ?C) = {}" if q: "q \<in> set (ck_group ck)" for q
    using I(6) [OF q] unfolding closed_part_def
  proof (elim disjE exE conjE)
    fix g assume "q = OneofPart g" "set (tags g) \<subseteq> set (ck_oneof_tags ck)"
    then show ?thesis using I(9) [OF False] by (auto simp del: region.simps(1))
  next
    assume "\<forall>t \<in> region tags q. \<forall>f \<in> set (?C @ fs). t < lo tags f"
    then have "\<not> lo tags (hd ?C) \<le> t" if "t \<in> region tags q" for t using hd that by (simp add: not_le)
    then show ?thesis by auto
  qed
  have closed: "t < lo tags f" if "t \<in> region tags (Contiguous ?C)" "f \<in> set fs" for t f
    using that I(8) [OF hd(2)] by (auto intro: le_less_trans)
  have new: "t < u" if "c \<in> set (ck_chunks ck)" "t \<in> chunk_region tags c" "u \<in> region tags (Contiguous ?C)" for c t u
    using that I(4) [of c t "hd ?C"] hd by (auto intro: less_le_trans)
  have ne: "ck_oneof_tags ck \<noteq> []" using I(12) False by blast
  show ?thesis
    unfolding push_contiguous_def if_not_P [OF False]
  proof (rule chunk_invI, goal_cases)
    case 1 show ?case using I(1) by simp
  next
    case 2 show ?case using I(2) by simp
  next
    case (3 c t p u) then show ?case using I(3) new by (auto simp del: region.simps)
  next
    case (4 c t f) then show ?case using I(4) by auto
  next
    case 5 show ?case using I(5,7) False sep by (simp add: group_ok_snoc del: region.simps)
  next
    case (6 p) then show ?case
      using I(6) closed by (auto simp: closed_part_def simp del: region.simps)
  qed (use I(10,11) ne in \<open>auto\<close>)
qed

lemma tag_before: "t \<in> set (tags f) \<Longrightarrow> hi tags f < x \<Longrightarrow> t < x"
  using le_hi [of t tags f] by (rule le_less_trans)

text \<open>The three ways in which a field joins the chunks.\<close>

lemma chunk_inv_oneof_disjoint:
  assumes inv: "chunk_inv tags all ck (f # fs)" and all: "in_order tags all"
    and q: "q \<in> set (ck_group ck)"
  shows "region tags q \<inter> set (tags f) = {}"
  using chunk_invD(6) [OF inv q] unfolding closed_part_def
proof (elim disjE exE conjE)
  fix g assume g: "q = OneofPart g"
  then have "g \<in> set (concat (map part_fields (ck_group ck)))"
    using q by (auto intro!: bexI [of _ q])
  then show ?thesis
    using all [folded chunk_invD(1) [OF inv]] g unfolding in_order_append in_order_Cons by (simp add: g) blast
next
  assume "\<forall>t \<in> region tags q. \<forall>f \<in> set (ck_contiguous ck @ f # fs). t < lo tags f"
  then have "\<not> lo tags f \<le> t" if "t \<in> region tags q" for t using that by (simp add: not_le)
  then show ?thesis unfolding disjoint_iff using lo_le by metis
qed

lemma add_oneof_inv:
  assumes inv: "chunk_inv tags all ck (f # fs)" and all: "in_order tags all"
    and cont: "ck_contiguous ck = []" and multi: "lo tags f < hi tags f"
    and otags: "set otags = set (ck_oneof_tags ck) \<union> set (tags f) \<or>
      otags = ck_oneof_tags ck \<and> otags \<noteq> [] \<and> (\<forall>g \<in> set fs. hi tags f < lo tags g)"
    and sorted: "sorted_wrt (<) otags"
  shows "chunk_inv tags all (ck\<lparr>ck_group := ck_group ck @ [OneofPart f], ck_oneof_tags := otags\<rparr>) fs"
proof -
  note I = chunk_invD [OF inv]
  have f: "tags f \<noteq> []" using all I(1) by (auto simp: in_order_def)
  have sub: "set (ck_oneof_tags ck) \<subseteq> set otags" using otags by auto
  show ?thesis
  proof (rule chunk_invI, goal_cases)
    case 1 show ?case using I(1) cont by simp
  next
    case 2 show ?case using I(2) by simp
  next
    case (3 c t p u)
    then show ?case using I(3) I(4) [of c t f] by (auto intro: less_le_trans)
  next
    case (4 c t f) then show ?case using I(4) cont by auto
  next
    case 5 show ?case
      using I(5) multi chunk_inv_oneof_disjoint [OF inv all] by (simp add: group_ok_snoc part_ok_def)
  next
    case (6 p)
    show ?case
    proof (cases "p \<in> set (ck_group ck)")
      case True
      then show ?thesis using I(6) [OF True] sub cont unfolding closed_part_def by auto
    next
      case False
      then have "p = OneofPart f" using 6 by simp
      then show ?thesis using otags cont tag_before by (fastforce simp: closed_part_def)
    qed
  next
    case (11 t)
    then show ?case using otags I(11) by auto
  next
    case 12
    then show ?case using otags f by auto
  qed (use cont sorted in auto)
qed

lemma add_contiguous_inv:
  assumes inv: "chunk_inv tags all ck (f # fs)" and all: "in_order tags all"
    and ne: "ck_oneof_tags ck \<noteq> []" and after: "\<forall>g \<in> set fs. hi tags f < lo tags g"
    and gap: "\<forall>t \<in> set (ck_oneof_tags ck). \<not> (lo tags f \<le> t \<and> t \<le> hi tags f)"
    and gap': "ck_contiguous ck \<noteq> [] \<Longrightarrow>
      \<forall>t \<in> set (ck_oneof_tags ck). \<not> (hi tags (last (ck_contiguous ck)) \<le> t \<and> t \<le> lo tags f)"
  shows "chunk_inv tags all (ck\<lparr>ck_contiguous := ck_contiguous ck @ [f]\<rparr>) fs"
proof -
  note I = chunk_invD [OF inv]
  have f: "tags f \<noteq> []" using all I(1) by (auto simp: in_order_def)
  show ?thesis
  proof (rule chunk_invI, goal_cases)
    case 1 show ?case using I(1) by simp
  next
    case 2 show ?case using I(2) by simp
  next
    case (3 c t p u) then show ?case using I(3) by simp
  next
    case (4 c t f) then show ?case using I(4) by auto
  next
    case 5 show ?case using I(5) by simp
  next
    case (6 p) then show ?case using I(6) by simp
  next
    case 7
    show ?case
      using I(7,8) by (cases "ck_contiguous ck = []") (auto simp: part_ok_def sorted_wrt_append)
  next
    case (8 g h) then show ?case using I(8) after by auto
  next
    case (9 t)
    then have t: "t \<in> set (ck_oneof_tags ck)" by simp
    show ?case
    proof (cases "ck_contiguous ck = []")
      case True
      then show ?thesis using t gap by auto
    next
      case False
      then show ?thesis using I(9) [OF False t] gap gap' [OF False] t by auto
    qed
  next
    case 10 show ?case using I(10) by simp
  next
    case (11 t) then show ?case using I(11) by simp
  qed (use ne in auto)
qed

lemma add_ordered_inv:
  assumes inv: "chunk_inv tags all ck (f # fs)" and all: "in_order tags all"
    and none: "ck_oneof_tags ck = []" and after: "\<forall>g \<in> set fs. hi tags f < lo tags g"
  shows "chunk_inv tags all (ck\<lparr>ck_chunks := ck_chunks ck @ [AlwaysOrdered f]\<rparr>) fs"
proof -
  note I = chunk_invD [OF inv]
  have e: "ck_group ck = []" "ck_contiguous ck = []" using I(12) none by auto
  show ?thesis
  proof (rule chunk_invI, goal_cases)
    case 1 show ?case using I(1) e by simp
  next
    case 2
    have "t < u" if "c \<in> set (ck_chunks ck)" "t \<in> chunk_region tags c" "u \<in> set (tags f)" for c t u
      using I(4) [OF that(1,2), of f] that(3) by (auto intro: less_le_trans)
    then show ?case using I(2) by (simp add: chunks_ok_snoc)
  next
    case (4 c t g)
    then show ?case using I(4) [of c t g] after e tag_before by fastforce
  qed (use e none in \<open>auto simp: group_ok_def\<close>)
qed

definition next_field :: "'f list \<Rightarrow> 'f option" where
  "next_field fs = (case fs of [] \<Rightarrow> None | g # _ \<Rightarrow> Some g)"

lemma place_field_inv:
  assumes inv: "chunk_inv tags all ck (f # fs)" and all: "in_order tags all"
    and more: "ck_oneof_tags ck \<noteq> [] \<Longrightarrow> lo tags f < last (ck_oneof_tags ck)"
  shows "\<exists>ck'. place_field tags f (next_field fs) ck = Some ck' \<and> chunk_inv tags all ck' fs"
proof -
  note I = chunk_invD [OF inv]
  have ord: "in_order tags (f # fs)" using all I(1) by (auto simp: in_order_append)
  then have f: "tags f \<noteq> []" by (simp add: in_order_Cons)
  note ft = first_tag_eq [of tags f, OF f] last_tag_eq [of tags f, OF f]
  define overlaps where "overlaps \<longleftrightarrow> fs \<noteq> [] \<and> lo tags (hd fs) < hi tags f"
  have ov: "(case next_field fs of Some g \<Rightarrow> first_tag tags g \<bind> (\<lambda>t. Some (t < hi tags f)) | None \<Rightarrow> Some False) =
      Some overlaps"
    using ord by (cases fs) (auto simp: next_field_def overlaps_def in_order_Cons first_tag_eq)
  have multi: "lo tags f < hi tags f" if overlaps
    using that ord by (cases fs) (auto simp: overlaps_def in_order_Cons intro: less_trans)
  have after: "\<forall>g \<in> set fs. hi tags f < lo tags g" if "\<not> overlaps"
    using that ord hi_less_lo [of tags f "hd fs" "tl fs"] by (cases fs) (simp_all add: overlaps_def)
  let ?push = "ck\<lparr>ck_contiguous := [], ck_group := push_contiguous (ck_contiguous ck) (ck_group ck)\<rparr>"
  note push = push_contiguous_inv [OF inv all]
  show ?thesis
  proof (cases "ck_oneof_tags ck = []")
    case True
    then have e: "ck_group ck = []" "ck_contiguous ck = []" using I(12) by auto
    show ?thesis
    proof (cases overlaps)
      case o: True
      then show ?thesis
        using add_oneof_inv [OF inv all e(2) multi, of "fold set_insert (tags f) []"] True ft ov
        by (simp add: place_field_def fold_set_insert_ascending)
    next
      case False
      then show ?thesis
        using add_ordered_inv [OF inv all True after] True ft ov by (simp add: place_field_def)
    qed
  next
    case False
    note ne = this
    show ?thesis
    proof (cases overlaps)
      case True
      then show ?thesis
        using add_oneof_inv [OF push all _ multi, of "fold set_insert (tags f) (ck_oneof_tags ck)"]
          ne more ft ov I(10) by (simp add: place_field_def fold_set_insert_ascending Un_commute)
    next
      case no: False
      define inter where "inter \<longleftrightarrow> (\<exists>t \<in> set (ck_oneof_tags ck). lo tags f \<le> t \<and> t \<le> hi tags f)"
      have inter: "range_nonempty (ck_oneof_tags ck) (lo tags f) (hi tags f) = Some inter"
        using lo_le_hi [of tags f, OF f] by (simp add: range_nonempty_def inter_def)
      show ?thesis
      proof (cases inter)
        case True
        then obtain t where t: "t \<in> set (ck_oneof_tags ck)" "lo tags f \<le> t" "t \<le> hi tags f"
          by (auto simp: inter_def)
        obtain g where "OneofPart g \<in> set (ck_group ck)" "t \<in> set (tags g)" using I(11) [OF t(1)] by blast
        then have "t \<notin> set (tags f)" using chunk_inv_oneof_disjoint [OF inv all] by fastforce
        then have "lo tags f < hi tags f" using t f lo_in hi_in by (metis le_less_trans order_le_less)
        then show ?thesis
          using add_oneof_inv [OF push all, of "ck_oneof_tags ck"] True no ne more ft ov inter I(10) after
          by (simp add: place_field_def)
      next
        case False
        define split where "split \<longleftrightarrow> ck_contiguous ck \<noteq> [] \<and>
          (\<exists>t \<in> set (ck_oneof_tags ck). hi tags (last (ck_contiguous ck)) \<le> t \<and> t \<le> lo tags f)"
        have split: "(if ck_contiguous ck = [] then Some False
            else last_tag tags (last (ck_contiguous ck)) \<bind> (\<lambda>p. range_nonempty (ck_oneof_tags ck) p (lo tags f))) =
            Some split"
        proof (cases "ck_contiguous ck = []")
          case c: False
          then have "tags (last (ck_contiguous ck)) \<noteq> []" "hi tags (last (ck_contiguous ck)) < lo tags f"
            using I(8) [of _ f] all I(1) [symmetric] by (auto simp: in_order_def)
          then show ?thesis using c by (simp add: last_tag_eq range_nonempty_def split_def)
        qed (simp add: split_def)
        note gap = False [unfolded inter_def]
        show ?thesis
        proof (cases split)
          case True
          then show ?thesis
            using add_contiguous_inv [OF push all] gap no False ne more ft ov inter split after
            by (simp add: place_field_def)
        next
          case s: False
          have "chunk_inv tags all (ck\<lparr>ck_contiguous := ck_contiguous ck @ [f]\<rparr>) fs"
            by (rule add_contiguous_inv [OF inv all ne after [OF no]]) (use gap s in \<open>auto simp: split_def\<close>)
          then show ?thesis
            using s no False ne more ft ov inter split by (simp add: place_field_def)
        qed
      qed
    qed
  qed
qed

lemma finish_group_inv:
  assumes inv: "chunk_inv tags all ck fs" and all: "in_order tags all"
  shows "\<exists>ck'. finish_group tags (next_field fs) ck = Some ck' \<and> chunk_inv tags all ck' fs \<and>
    (ck_oneof_tags ck' \<noteq> [] \<longrightarrow> fs \<noteq> [] \<and> lo tags (hd fs) < last (ck_oneof_tags ck'))"
proof (cases "ck_oneof_tags ck = []")
  case True
  then show ?thesis using inv by (simp add: finish_group_def)
next
  case False
  have fs: "in_order tags fs" using all chunk_invD(1) [OF inv] by (auto simp: in_order_append)
  define more where "more \<longleftrightarrow> fs \<noteq> [] \<and> lo tags (hd fs) < last (ck_oneof_tags ck)"
  have m: "(case next_field fs of Some g \<Rightarrow> first_tag tags g \<bind> (\<lambda>t. Some (t < last (ck_oneof_tags ck)))
      | None \<Rightarrow> Some False) = Some more"
    using fs by (cases fs) (auto simp: next_field_def more_def in_order_Cons first_tag_eq)
  show ?thesis
  proof (cases more)
    case True
    then show ?thesis using m inv False by (auto simp: finish_group_def more_def)
  next
    case nm: False
    let ?ps = "push_contiguous (ck_contiguous ck) (ck_group ck)"
    let ?ck = "ck\<lparr>ck_contiguous := [], ck_group := ?ps\<rparr>"
    note I = chunk_invD [OF push_contiguous_inv [OF inv all], simplified]
    have ne: "?ps \<noteq> []"
      using chunk_invD(11) [OF inv, of "last (ck_oneof_tags ck)"] False by (auto simp: push_contiguous_def)
    have before: "t < lo tags g" if p: "p \<in> set ?ps" and t: "t \<in> region tags p" and g: "g \<in> set fs" for p t g
      using I(6) [OF p] unfolding closed_part_def
    proof (elim disjE exE conjE)
      fix h assume h: "p = OneofPart h" "set (tags h) \<subseteq> set (ck_oneof_tags ck)"
      have "h \<in> set (concat (map part_fields ?ps))" using p h(1) by (auto intro!: bexI [of _ p])
      then have "set (tags h) \<inter> set (tags (hd fs)) = {}"
        using all [folded I(1)] g unfolding in_order_append by (cases fs) (simp_all, blast)
      moreover have "t \<le> last (ck_oneof_tags ck)" "last (ck_oneof_tags ck) \<le> lo tags (hd fs)"
        using h t ascending_le_last [OF I(10)] nm g by (auto simp: more_def)
      moreover have "lo tags (hd fs) \<in> set (tags (hd fs))" "lo tags (hd fs) \<le> lo tags g"
        using fs g by (cases fs; auto simp: in_order_Cons)+
      moreover have "t \<in> set (tags h)" using h(1) t by simp
      ultimately have "t \<le> lo tags (hd fs)" "t \<noteq> lo tags (hd fs)" "lo tags (hd fs) \<le> lo tags g"
        by (blast intro: order_trans)+
      then show ?thesis by (simp add: order_le_less less_le_trans)
    qed (use t g in auto)
    have "chunk_inv tags all (ck\<lparr>ck_contiguous := [], ck_group := [], ck_oneof_tags := [],
        ck_chunks := ck_chunks ck @ [SortGroup ?ps]\<rparr>) fs"
    proof (rule chunk_invI, goal_cases)
      case 1 show ?case using I(1) by simp
    next
      case 2 show ?case using I(2,3,5) by (auto simp: chunks_ok_snoc)
    next
      case (4 c t f) then show ?case using I(4) before by auto
    qed (auto simp: group_ok_def)
    then show ?thesis using m nm False ne by (simp add: finish_group_def Let_def)
  qed
qed

lemma chunk_loop_inv:
  "chunk_inv tags all ck fs \<Longrightarrow> in_order tags all \<Longrightarrow>
   (ck_oneof_tags ck \<noteq> [] \<longrightarrow> fs \<noteq> [] \<and> lo tags (hd fs) < last (ck_oneof_tags ck)) \<Longrightarrow>
   \<exists>ck'. chunk_loop tags fs ck = Some (ck', []) \<and> chunk_inv tags all ck' [] \<and> ck_oneof_tags ck' = []"
proof (induction fs arbitrary: ck)
  case (Cons f fs)
  obtain ck1 where 1: "place_field tags f (next_field fs) ck = Some ck1" "chunk_inv tags all ck1 fs"
    using place_field_inv [OF Cons.prems(1,2)] Cons.prems(3) by auto
  obtain ck2 where 2: "finish_group tags (next_field fs) ck1 = Some ck2" "chunk_inv tags all ck2 fs"
    "ck_oneof_tags ck2 \<noteq> [] \<longrightarrow> fs \<noteq> [] \<and> lo tags (hd fs) < last (ck_oneof_tags ck2)"
    using finish_group_inv [OF 1(2) Cons.prems(2)] by auto
  show ?case using Cons.IH [OF 2(2) Cons.prems(2) 2(3)] 1(1) 2(1) by (simp add: next_field_def)
qed simp

text \<open>
  Of fields with tags of their own, chunking never panics, keeps all fields in the order of their first
  tags, and yields chunks whose regions ascend.
\<close>

definition own_tags :: "('f \<Rightarrow> u32 list) \<Rightarrow> 'f list \<Rightarrow> bool" where
  "own_tags tags fs \<longleftrightarrow> (\<forall>f \<in> set fs. tags f \<noteq> []) \<and> distinct (concat (map tags fs))"

lemma own_tags_perm: "own_tags tags fs \<Longrightarrow> mset gs = mset fs \<Longrightarrow> own_tags tags gs"
proof -
  assume fs: "own_tags tags fs" and gs: "mset gs = mset fs"
  have c: "mset (concat (map tags xs)) = (\<Sum>f \<in># mset xs. mset (tags f))" for xs
    by (induction xs) auto
  have "mset (concat (map tags gs)) = mset (concat (map tags fs))" unfolding c gs ..
  then have "distinct (concat (map tags gs)) \<longleftrightarrow> distinct (concat (map tags fs))"
    by (rule mset_eq_imp_distinct_iff)
  then show ?thesis using fs mset_eq_setD [OF gs] by (simp add: own_tags_def)
qed

lemma own_tags_Cons:
  "own_tags tags (f # fs) \<longleftrightarrow> tags f \<noteq> [] \<and> distinct (tags f) \<and> own_tags tags fs \<and>
     (\<forall>g \<in> set fs. set (tags f) \<inter> set (tags g) = {})"
  by (auto simp: own_tags_def)

lemma in_order_sorted:
  "own_tags tags fs \<Longrightarrow> sorted (map (lo tags) fs) \<Longrightarrow> in_order tags fs"
proof (induction fs)
  case (Cons f fs)
  have "lo tags f < lo tags g" if g: "g \<in> set fs" for g
  proof -
    have "lo tags f \<in> set (tags f)" "lo tags g \<in> set (tags g)"
      using Cons.prems(1) g by (auto simp: own_tags_def)
    moreover have "set (tags f) \<inter> set (tags g) = {}" using Cons.prems(1) g by (simp add: own_tags_Cons)
    moreover have "lo tags f \<le> lo tags g" using Cons.prems(2) g by simp
    ultimately show ?thesis by (cases "lo tags f = lo tags g") auto
  qed
  moreover have "in_order tags fs" using Cons by (simp add: own_tags_Cons)
  ultimately show ?case using Cons.prems(1) by (simp add: own_tags_Cons in_order_Cons)
qed (simp add: in_order_def)

definition first_order :: "('f \<Rightarrow> u32 list) \<Rightarrow> 'f list \<Rightarrow> 'f list" where
  "first_order tags fs = sort_key (\<lambda>f. the (first_tag tags f)) fs"

lemma sort_fields_ok:
  assumes "own_tags tags fs"
  shows "\<exists>cs. sort_fields tags fs = Some (cs, RuntimeTagMeasurer) \<and> chunks_ok tags cs \<and>
    concat (map chunk_fields cs) = first_order tags fs"
proof -
  let ?all = "first_order tags fs"
  let ?ck = "\<lparr>ck_contiguous = [], ck_group = [], ck_oneof_tags = [], ck_chunks = []\<rparr>"
  have own: "own_tags tags ?all" by (rule own_tags_perm [OF assms]) (simp add: first_order_def)
  have keys: "map (lo tags) ?all = map (\<lambda>f. the (first_tag tags f)) ?all"
    using own by (auto simp: own_tags_def first_tag_eq)
  have all: "in_order tags ?all"
    by (rule in_order_sorted [OF own], unfold keys) (simp add: first_order_def)
  have "chunk_inv tags ?all ?ck ?all"
    by (simp add: chunk_inv_def chunks_ok_def group_ok_def)
  then obtain ck where ck: "chunk_loop tags ?all ?ck = Some (ck, [])" "chunk_inv tags ?all ck []"
    "ck_oneof_tags ck = []"
    using chunk_loop_inv [OF _ all, of ?ck ?all] by auto
  note I = chunk_invD [OF ck(2)]
  have "ck_group ck = []" "ck_contiguous ck = []" using I(12) ck(3) by auto
  then show ?thesis
    using ck(1) I(1,2) assms by (auto simp: sort_fields_def own_tags_def first_order_def choose_measurer_def)
qed

section \<open>What comes out\<close>

text \<open>The tag under which a field is written, if any: that of a value, or the current one of a oneof.\<close>

definition live_tag :: "('f \<Rightarrow> u32 list) \<Rightarrow> ('f \<Rightarrow> u32 option option) \<Rightarrow> 'f \<Rightarrow> u32 option" where
  "live_tag tags current f = (case current f of None \<Rightarrow> Some (hd (tags f)) | Some t \<Rightarrow> t)"

definition currents_ok :: "('f \<Rightarrow> u32 list) \<Rightarrow> ('f \<Rightarrow> u32 option option) \<Rightarrow> 'f set \<Rightarrow> bool" where
  "currents_ok tags current fs \<longleftrightarrow> (\<forall>f \<in> fs. case current f of
     None \<Rightarrow> length (tags f) = 1 | Some None \<Rightarrow> tags f \<noteq> [] | Some (Some t) \<Rightarrow> t \<in> set (tags f))"

definition live :: "('f \<Rightarrow> u32 list) \<Rightarrow> ('f \<Rightarrow> u32 option option) \<Rightarrow> 'f list \<Rightarrow> 'f list" where
  "live tags current fs = filter (\<lambda>f. live_tag tags current f \<noteq> None) fs"

definition ascends :: "('f \<Rightarrow> u32 list) \<Rightarrow> ('f \<Rightarrow> u32 option option) \<Rightarrow> 'f list \<Rightarrow> bool" where
  "ascends tags current fs \<longleftrightarrow>
     sorted_wrt (\<lambda>f g. \<forall>t u. live_tag tags current f = Some t \<longrightarrow> live_tag tags current g = Some u \<longrightarrow> t < u) fs"

lemma live_tag_in:
  "currents_ok tags current fs \<Longrightarrow> f \<in> fs \<Longrightarrow> live_tag tags current f = Some t \<Longrightarrow> t \<in> set (tags f)"
  by (cases "tags f") (force simp: currents_ok_def live_tag_def split: option.splits)+

lemma currents_ok_tags: "currents_ok tags current fs \<Longrightarrow> f \<in> fs \<Longrightarrow> tags f \<noteq> []"
  by (force simp: currents_ok_def split: option.splits)

lemma currents_ok_subset: "currents_ok tags current fs \<Longrightarrow> gs \<subseteq> fs \<Longrightarrow> currents_ok tags current gs"
  by (auto simp: currents_ok_def)

text \<open>The entry of a part in the array that the generated code sorts.\<close>

definition entries :: "('f \<Rightarrow> u32 list) \<Rightarrow> ('f \<Rightarrow> u32 option option) \<Rightarrow> 'f sort_group_part \<Rightarrow> (u32 \<times> 'f list) list" where
  "entries tags current p = (case p of
     Contiguous fs \<Rightarrow> [(lo tags (hd fs), fs)]
   | OneofPart f \<Rightarrow> (case live_tag tags current f of Some t \<Rightarrow> [(t, [f])] | None \<Rightarrow> []))"

lemma those_map_Some: "those (map (\<lambda>x. Some (g x)) xs) = Some (map g xs)"
  by (induction xs) auto

lemma contiguous_keys_eq:
  assumes "\<forall>p \<in> set ps. part_ok tags p" and "\<forall>f \<in> set (concat (map part_fields ps)). tags f \<noteq> []"
  shows "contiguous_keys tags ps =
    Some (concat (map (entries tags current) (filter (\<lambda>p. case p of Contiguous _ \<Rightarrow> True | OneofPart _ \<Rightarrow> False) ps)))"
  using assms
proof (induction ps)
  case (Cons p ps)
  show ?case
  proof (cases p)
    case (Contiguous fs)
    then obtain f gs where "fs = f # gs" "tags f \<noteq> []"
      using Cons.prems by (cases fs) (auto simp: part_ok_def)
    then show ?thesis
      using Cons Contiguous by (simp add: contiguous_keys_def entries_def first_tag_eq)
  qed (use Cons in \<open>simp add: contiguous_keys_def\<close>)
qed (simp add: contiguous_keys_def)

lemma oneof_keys_eq:
  assumes "\<forall>p \<in> set ps. part_ok tags p" and "currents_ok tags current (set (concat (map part_fields ps)))"
  shows "oneof_keys current ps =
    Some (concat (map (entries tags current) (filter (\<lambda>p. case p of Contiguous _ \<Rightarrow> False | OneofPart _ \<Rightarrow> True) ps)))"
  using assms
proof (induction ps)
  case (Cons p ps)
  have IH: "oneof_keys current ps =
      Some (concat (map (entries tags current) (filter (\<lambda>p. case p of Contiguous _ \<Rightarrow> False | OneofPart _ \<Rightarrow> True) ps)))"
    using Cons by (intro Cons.IH) (auto intro: currents_ok_subset)
  show ?case
  proof (cases p)
    case (OneofPart f)
    have "current f \<noteq> None"
    proof
      assume "current f = None"
      then obtain t where "tags f = [t]"
        using Cons.prems(2) OneofPart by (auto simp: currents_ok_def length_Suc_conv)
      then show False using Cons.prems(1) OneofPart by (simp add: part_ok_def lo_def hi_def)
    qed
    then obtain t where t: "current f = Some t" by blast
    then have "entries tags current p = (case t of Some t \<Rightarrow> [(t, [f])] | None \<Rightarrow> [])"
      using OneofPart by (simp add: entries_def live_tag_def)
    then show ?thesis
      using IH OneofPart t by (auto simp: oneof_keys_def)
  qed (use IH in \<open>auto simp: oneof_keys_def\<close>)
qed (simp add: oneof_keys_def)

lemma mset_partition_concat:
  "mset (concat (map g (filter P ps)) @ concat (map g (filter (\<lambda>p. \<not> P p) ps))) = mset (concat (map g ps))"
  by (induction ps) (auto simp: ac_simps)

lemma group_entries:
  assumes "\<forall>p \<in> set ps. part_ok tags p" and "currents_ok tags current (set (concat (map part_fields ps)))"
  shows "\<exists>gs os. contiguous_keys tags ps = Some gs \<and> oneof_keys current ps = Some os \<and>
    mset (gs @ os) = mset (concat (map (entries tags current) ps))"
proof -
  have neg: "(\<lambda>p. case p of Contiguous _ \<Rightarrow> False | OneofPart _ \<Rightarrow> True) =
      (\<lambda>p. \<not> (case p of Contiguous _ \<Rightarrow> True | OneofPart _ \<Rightarrow> False))"
    by (auto split: sort_group_part.splits)
  have "\<forall>f \<in> set (concat (map part_fields ps)). tags f \<noteq> []"
    using assms(2) currents_ok_tags by fastforce
  then show ?thesis
    using contiguous_keys_eq [OF assms(1)] oneof_keys_eq [OF assms] mset_partition_concat [of "entries tags current"]
    unfolding neg by blast
qed

lemma entry_facts:
  assumes "part_ok tags p" and "currents_ok tags current (set (part_fields p))" and "e \<in> set (entries tags current p)"
  shows "fst e \<in> region tags p"
    and "f \<in> set (snd e) \<Longrightarrow> live_tag tags current f = Some t \<Longrightarrow> fst e \<le> t \<and> t \<in> region tags p"
    and "f \<in> set (snd e) \<Longrightarrow> f \<in> set (part_fields p)"
proof -
  have *: "fst e \<in> region tags p \<and> (\<forall>f t. f \<in> set (snd e) \<longrightarrow> live_tag tags current f = Some t \<longrightarrow>
      fst e \<le> t \<and> t \<in> region tags p)"
  proof (cases p)
    case (Contiguous fs)
    then have fs: "fs \<noteq> []" "\<forall>f \<in> set fs. tags f \<noteq> []"
      using assms(1,2) currents_ok_tags by (fastforce simp: part_ok_def)+
    note span = hi_last_cont [OF assms(1) [unfolded Contiguous] _ fs(2)]
    have "lo tags (hd fs) \<le> t \<and> t \<le> hi tags (last fs)"
      if "f \<in> set fs" "live_tag tags current f = Some t" for f t
      using span [OF that(1)] live_tag_in [OF assms(2) _ that(2)] that(1) Contiguous
      by (auto intro: order_trans [OF _ lo_le] order_trans [OF le_hi])
    moreover have "lo tags (hd fs) \<le> hi tags (last fs)"
      using span [of "hd fs"] fs by (metis hd_in_set lo_le_hi order_trans)
    ultimately show ?thesis using assms(3) Contiguous by (auto simp: entries_def)
  next
    case (OneofPart f)
    then show ?thesis
      using assms(2,3) live_tag_in [OF assms(2)] by (auto simp: entries_def split: option.splits)
  qed
  then show "fst e \<in> region tags p"
    and "f \<in> set (snd e) \<Longrightarrow> live_tag tags current f = Some t \<Longrightarrow> fst e \<le> t \<and> t \<in> region tags p" by auto
  show "f \<in> set (snd e) \<Longrightarrow> f \<in> set (part_fields p)"
    using assms(3) by (auto simp: entries_def split: sort_group_part.splits option.splits)
qed

lemma region_sorted_wrt_sym:
  assumes "sorted_wrt (\<lambda>p q. region tags p \<inter> region tags q = {}) ps" and "p \<in> set ps" and "q \<in> set ps" and "p \<noteq> q"
  shows "region tags p \<inter> region tags q = {}"
  using assms by (induction ps) auto

lemma entries_one: "e \<in> set (entries tags current p) \<Longrightarrow> entries tags current p = [e]"
proof (cases p)
  case (OneofPart f)
  then show "e \<in> set (entries tags current p) \<Longrightarrow> entries tags current p = [e]"
    by (cases "live_tag tags current f") (auto simp: entries_def)
qed (simp add: entries_def)

lemma entry_before:
  assumes ps: "group_ok tags ps" and cur: "currents_ok tags current (set (concat (map part_fields ps)))"
    and p: "p \<in> set ps" "e \<in> set (entries tags current p)"
    and q: "q \<in> set ps" "d \<in> set (entries tags current q)"
    and less: "fst e < fst d" and f: "f \<in> set (snd e)" "live_tag tags current f = Some t"
    and g: "g \<in> set (snd d)" "live_tag tags current g = Some u"
  shows "t < u"
proof -
  have sub: "currents_ok tags current (set (part_fields r))" "part_ok tags r" if "r \<in> set ps" for r
    using cur ps that by (auto simp: group_ok_def intro: currents_ok_subset)
  have pq: "p \<noteq> q"
    using entries_one [OF p(2)] entries_one [OF q(2)] less by auto
  then have disj: "region tags p \<inter> region tags q = {}"
    by (intro region_sorted_wrt_sym [OF _ p(1) q(1) pq]) (use ps in \<open>simp add: group_ok_def\<close>)
  note E = entry_facts [OF sub(2,1) [OF p(1)] p(2)] and D = entry_facts [OF sub(2,1) [OF q(1)] q(2)]
  have d: "fst d \<notin> region tags p" "fst d \<le> u" using disj D(1) D(2) [OF g] by auto
  have "t < fst d"
  proof (cases p)
    case (Contiguous fs)
    then have "\<not> fst d \<le> hi tags (last fs)" "t \<le> hi tags (last fs)"
      using d(1) less p(2) E(2) [OF f] by (auto simp: entries_def)
    then show ?thesis by (simp add: le_less_trans not_le)
  next
    case (OneofPart h)
    then show ?thesis using p(2) less f by (auto simp: entries_def split: option.splits)
  qed
  then show ?thesis using d(2) by simp
qed

lemma distinct_entry_keys:
  "group_ok tags ps \<Longrightarrow> currents_ok tags current (set (concat (map part_fields ps))) \<Longrightarrow>
   distinct (map fst (concat (map (entries tags current) ps)))"
proof (induction ps)
  case (Cons p ps)
  have ok: "part_ok tags p" "currents_ok tags current (set (part_fields p))"
    "\<forall>q \<in> set ps. region tags p \<inter> region tags q = {} \<and> part_ok tags q \<and> currents_ok tags current (set (part_fields q))"
    using Cons.prems by (auto simp: group_ok_def intro: currents_ok_subset)
  have "distinct (map fst (concat (map (entries tags current) ps)))"
    using Cons by (intro Cons.IH) (auto simp: group_ok_def intro: currents_ok_subset)
  moreover have "fst e \<noteq> fst d" if "e \<in> set (entries tags current p)" "q \<in> set ps" "d \<in> set (entries tags current q)" for e q d
    using entry_facts(1) [OF ok(1,2) that(1)] entry_facts(1) [of tags q current d] ok(3) that(2,3)
    by (metis disjoint_iff)
  moreover have "distinct (map fst (entries tags current p))"
    by (auto simp: entries_def split: sort_group_part.splits option.splits)
  ultimately show ?case by fastforce
qed simp

lemma sorted_wrt_concat:
  "\<forall>xs \<in> set xss. sorted_wrt R xs \<Longrightarrow> sorted_wrt (\<lambda>xs ys. \<forall>x \<in> set xs. \<forall>y \<in> set ys. R x y) xss \<Longrightarrow>
   sorted_wrt R (concat xss)"
  by (induction xss) (auto simp: sorted_wrt_append)

lemma entry_ascends:
  assumes "part_ok tags p" and "currents_ok tags current (set (part_fields p))" and "e \<in> set (entries tags current p)"
  shows "ascends tags current (snd e)"
proof (cases p)
  case (Contiguous fs)
  have "sorted_wrt (\<lambda>f g. \<forall>t u. live_tag tags current f = Some t \<longrightarrow> live_tag tags current g = Some u \<longrightarrow> t < u) fs"
  proof (rule sorted_wrt_mono_rel [of _ "\<lambda>f g. hi tags f < lo tags g"])
    fix f g assume fg: "f \<in> set fs" "g \<in> set fs" and less: "hi tags f < lo tags g"
    have "t < u" if "live_tag tags current f = Some t" "live_tag tags current g = Some u" for t u
    proof -
      have "t \<in> set (tags f)" "u \<in> set (tags g)"
        using fg that live_tag_in [OF assms(2)] Contiguous by auto
      then show ?thesis using tag_before [OF _ less] by (blast intro: less_le_trans lo_le)
    qed
    then show "\<forall>t u. live_tag tags current f = Some t \<longrightarrow> live_tag tags current g = Some u \<longrightarrow> t < u" by blast
  qed (use assms(1) Contiguous in \<open>simp add: part_ok_def\<close>)
  then show ?thesis using assms(3) Contiguous by (simp add: ascends_def entries_def)
qed (use assms(3) in \<open>auto simp: ascends_def entries_def split: option.splits\<close>)

lemma mset_live_entries:
  "mset (live tags current (concat (map snd (concat (map (entries tags current) ps))))) =
   mset (live tags current (concat (map part_fields ps)))"
  by (induction ps) (auto simp: live_def entries_def split: sort_group_part.splits option.splits)

lemma emit_group_ok:
  assumes ps: "group_ok tags ps" and cur: "currents_ok tags current (set (concat (map part_fields ps)))"
  shows "\<exists>out. emit_group tags current False ps = Some out \<and> emit_group tags current True ps = Some (rev out) \<and>
    ascends tags current out \<and>
    mset (live tags current out) = mset (live tags current (concat (map part_fields ps))) \<and>
    set out \<subseteq> set (concat (map part_fields ps))"
proof -
  let ?E = "concat (map (entries tags current) ps)"
  let ?k = "\<lambda>(t, _). int (unat t) :: int"
  let ?r = "\<lambda>(t, _). - int (unat t) :: int"
  have ok: "\<forall>p \<in> set ps. part_ok tags p" using ps by (simp add: group_ok_def)
  have sub: "currents_ok tags current (set (part_fields p))" if "p \<in> set ps" for p
    using cur that by (auto intro: currents_ok_subset)
  obtain gs os where f: "contiguous_keys tags ps = Some gs" "oneof_keys current ps = Some os"
    "mset (gs @ os) = mset ?E"
    using group_entries [OF ok cur] by blast
  have "currents_ok tags current (set (concat (map part_fields (rev ps))))" using cur by (simp add: image_iff)
  then obtain gs' os' where r: "contiguous_keys tags (rev ps) = Some gs'" "oneof_keys current (rev ps) = Some os'"
    "mset (gs' @ os') = mset (concat (map (entries tags current) (rev ps)))"
    using group_entries [of "rev ps" tags current] ok by auto
  have rev_E: "mset (concat (map (entries tags current) (rev ps))) = mset ?E"
    by (induction ps) auto
  define S where "S = sort_key ?k (gs @ os)"
  have S: "mset S = mset ?E" using f(3) by (simp add: S_def)
  have dist: "distinct (map fst S)"
    using distinct_entry_keys [OF ps cur] mset_eq_imp_distinct_iff [of "map fst S" "map fst ?E"] S
    by (metis mset_map)
  have le: "sorted (map ?k S)" by (simp add: S_def)
  have strict: "sorted_wrt (\<lambda>e d. fst e < fst d) S"
    unfolding sorted_wrt_iff_nth_less
  proof (intro allI impI)
    fix i j assume ij: "i < j" "j < length S"
    have "fst (S ! i) \<noteq> fst (S ! j)"
      using dist ij by (simp add: distinct_conv_nth)
    moreover have "?k (S ! i) \<le> ?k (S ! j)" using sorted_nth_mono [OF le, of i j] ij by simp
    ultimately show "fst (S ! i) < fst (S ! j)"
      by (simp add: case_prod_beta word_less_def word_uint_eq_iff)
  qed
  have inj: "inj_on ?r (set (gs' @ os'))"
  proof (rule inj_onI)
    fix e d assume m: "e \<in> set (gs' @ os')" "d \<in> set (gs' @ os')" and eq: "?r e = ?r d"
    have set_S: "set (gs' @ os') = set S" using r(3) rev_E S by (metis set_mset_mset)
    have "fst e = fst d" using eq by (simp add: case_prod_beta word_uint_eq_iff)
    moreover have "inj_on fst (set S)" using dist by (simp add: distinct_map)
    ultimately show "e = d" using m unfolding set_S by (simp add: inj_on_def)
  qed
  have rev_S: "sort_key ?r (gs' @ os') = rev S"
  proof (rule sort_key_inj_key_eq [OF _ inj])
    show "mset (gs' @ os') = mset (rev S)" using r(3) rev_E S by simp
    have "map ?r (rev S) = map uminus (rev (map ?k S))" by (auto simp: rev_map case_prod_beta)
    then show "sorted (map ?r (rev S))"
      using le by (simp add: sorted_wrt_rev sorted_wrt_map)
  qed
  define out where "out = concat (map snd S)"
  have set_S: "set S = set ?E" using S by (metis set_mset_mset)
  have "ascends tags current out"
    unfolding ascends_def out_def
  proof (rule sorted_wrt_concat)
    show "\<forall>xs \<in> set (map snd S). sorted_wrt (\<lambda>f g. \<forall>t u. live_tag tags current f = Some t \<longrightarrow>
        live_tag tags current g = Some u \<longrightarrow> t < u) xs"
      using set_S entry_ascends ok sub unfolding ascends_def by fastforce
    show "sorted_wrt (\<lambda>xs ys. \<forall>f \<in> set xs. \<forall>g \<in> set ys. \<forall>t u. live_tag tags current f = Some t \<longrightarrow>
        live_tag tags current g = Some u \<longrightarrow> t < u) (map snd S)"
      unfolding sorted_wrt_map
    proof (rule sorted_wrt_mono_rel [OF _ strict])
      fix e d assume "e \<in> set S" "d \<in> set S" and less: "fst e < fst d"
      then obtain p q where "p \<in> set ps" "e \<in> set (entries tags current p)" "q \<in> set ps"
        "d \<in> set (entries tags current q)"
        using set_S by auto
      then show "\<forall>f \<in> set (snd e). \<forall>g \<in> set (snd d). \<forall>t u. live_tag tags current f = Some t \<longrightarrow>
          live_tag tags current g = Some u \<longrightarrow> t < u"
        using entry_before [OF ps cur _ _ _ _ less] by blast
    qed
  qed
  moreover have "mset (live tags current out) = mset (live tags current (concat (map part_fields ps)))"
  proof -
    have "mset (concat (map snd xs)) = (\<Sum>e \<in># mset xs. mset (snd e))" for xs :: "(u32 \<times> 'a list) list"
      by (induction xs) auto
    then have "mset out = mset (concat (map snd ?E))" using S by (simp add: out_def)
    then have "mset (live tags current out) = mset (live tags current (concat (map snd ?E)))"
      by (simp add: live_def)
    then show ?thesis by (simp add: mset_live_entries)
  qed
  moreover have "set out \<subseteq> set (concat (map part_fields ps))"
  proof
    fix g assume "g \<in> set out"
    then obtain e p where "p \<in> set ps" "e \<in> set (entries tags current p)" "g \<in> set (snd e)"
      using set_S by (auto simp: out_def)
    then show "g \<in> set (concat (map part_fields ps))"
      using entry_facts(3) ok sub by fastforce
  qed
  moreover have "emit_group tags current False ps = Some out"
    using f(1,2) by (simp add: emit_group_def out_def S_def case_prod_unfold)
  moreover have "emit_group tags current True ps = Some (rev out)"
    using r(1,2) rev_S by (simp add: emit_group_def out_def case_prod_unfold comp_def rev_concat rev_map)
  ultimately show ?thesis by blast
qed

lemma emit_chunk_ok:
  assumes "chunk_ok tags c" and cur: "currents_ok tags current (set (chunk_fields c))"
  shows "\<exists>out. emit_chunk tags current False c = Some out \<and> emit_chunk tags current True c = Some (rev out) \<and>
    ascends tags current out \<and>
    mset (live tags current out) = mset (live tags current (chunk_fields c)) \<and> set out \<subseteq> set (chunk_fields c)"
proof (cases c)
  case (AlwaysOrdered f)
  then show ?thesis by (simp add: emit_chunk_def ascends_def)
next
  case (SortGroup ps)
  then show ?thesis using emit_group_ok [of tags ps current] assms by (simp add: emit_chunk_def)
qed

lemma live_in_region:
  assumes "chunk_ok tags c" and cur: "currents_ok tags current (set (chunk_fields c))"
    and f: "f \<in> set (chunk_fields c)" "live_tag tags current f = Some t"
  shows "t \<in> chunk_region tags c"
proof (cases c)
  case (AlwaysOrdered g)
  then show ?thesis using live_tag_in [OF cur f] f by simp
next
  case (SortGroup ps)
  then obtain p where p: "p \<in> set ps" "f \<in> set (part_fields p)" using f by auto
  have t: "t \<in> set (tags f)" by (rule live_tag_in [OF cur f])
  have "t \<in> region tags p"
  proof (cases p)
    case (Contiguous fs)
    have "part_ok tags p" using assms(1) SortGroup p(1) by (auto simp: group_ok_def)
    moreover have "\<forall>f \<in> set fs. tags f \<noteq> []"
      using cur currents_ok_tags SortGroup p(1) Contiguous by fastforce
    ultimately have "lo tags (hd fs) \<le> lo tags f \<and> hi tags f \<le> hi tags (last fs)"
      using hi_last_cont p(2) Contiguous by fastforce
    then show ?thesis
      using t Contiguous by (auto intro: order_trans [OF _ lo_le] order_trans [OF le_hi])
  qed (use t p(2) in simp)
  then show ?thesis using SortGroup p(1) by auto
qed

lemma emission_chunks:
  assumes "chunks_ok tags cs" and "currents_ok tags current (set (concat (map chunk_fields cs)))"
  shows "\<exists>outs. map (emit_chunk tags current False) cs = map Some outs \<and>
    map (emit_chunk tags current True) cs = map (\<lambda>out. Some (rev out)) outs \<and>
    ascends tags current (concat outs) \<and>
    mset (live tags current (concat outs)) = mset (live tags current (concat (map chunk_fields cs))) \<and>
    set (concat outs) \<subseteq> set (concat (map chunk_fields cs))"
  using assms
proof (induction cs)
  case (Cons c cs)
  have c: "chunk_ok tags c" "currents_ok tags current (set (chunk_fields c))"
    using Cons.prems by (auto simp: chunks_ok_def intro: currents_ok_subset)
  have cs: "chunks_ok tags cs" "currents_ok tags current (set (concat (map chunk_fields cs)))"
    using Cons.prems by (auto simp: chunks_ok_def intro: currents_ok_subset)
  obtain out where out: "emit_chunk tags current False c = Some out"
    "emit_chunk tags current True c = Some (rev out)" "ascends tags current out"
    "mset (live tags current out) = mset (live tags current (chunk_fields c))" "set out \<subseteq> set (chunk_fields c)"
    using emit_chunk_ok [OF c] by blast
  obtain outs where outs: "map (emit_chunk tags current False) cs = map Some outs"
    "map (emit_chunk tags current True) cs = map (\<lambda>out. Some (rev out)) outs"
    "ascends tags current (concat outs)"
    "mset (live tags current (concat outs)) = mset (live tags current (concat (map chunk_fields cs)))"
    "set (concat outs) \<subseteq> set (concat (map chunk_fields cs))"
    using Cons.IH [OF cs] by blast
  have "t < u" if f: "f \<in> set out" "live_tag tags current f = Some t"
    and g: "g \<in> set (concat outs)" "live_tag tags current g = Some u" for f g t u
  proof -
    obtain d where d: "d \<in> set cs" "g \<in> set (chunk_fields d)" using g(1) outs(5) by auto
    have "chunk_ok tags d" "currents_ok tags current (set (chunk_fields d))"
      using cs d(1) by (auto simp: chunks_ok_def intro: currents_ok_subset)
    then have "u \<in> chunk_region tags d" by (rule live_in_region [OF _ _ d(2) g(2)])
    moreover have "t \<in> chunk_region tags c" by (rule live_in_region [OF c _ f(2)]) (use f(1) out(5) in blast)
    ultimately show ?thesis using Cons.prems(1) d(1) by (auto simp: chunks_ok_def)
  qed
  then have "ascends tags current (concat (out # outs))"
    using out(3) outs(3) by (auto simp: ascends_def sorted_wrt_append)
  then show ?case
    using out outs by (intro exI [of _ "out # outs"]) (auto simp: live_def)
qed (simp add: ascends_def live_def)

text \<open>
  Whatever variants the oneofs hold: encoding emits exactly the fields that have a tag, in strictly
  ascending order of their tags, and prepending emits the same fields backwards.
\<close>

lemma emission_ok:
  assumes own: "own_tags tags fs" and cur: "currents_ok tags current (set fs)"
  shows "\<exists>cs out. sort_fields tags fs = Some (cs, RuntimeTagMeasurer) \<and> emission tags current False cs = Some out \<and>
    emission tags current True cs = Some (rev out) \<and> ascends tags current out \<and>
    mset (live tags current out) = mset (live tags current fs) \<and> set out \<subseteq> set fs"
proof -
  obtain cs where cs: "sort_fields tags fs = Some (cs, RuntimeTagMeasurer)" "chunks_ok tags cs"
    "concat (map chunk_fields cs) = first_order tags fs"
    using sort_fields_ok [OF own] by blast
  have "currents_ok tags current (set (concat (map chunk_fields cs)))"
    using cur by (simp add: cs(3) first_order_def)
  from emission_chunks [OF cs(2) this] obtain outs where outs:
    "map (emit_chunk tags current False) cs = map Some outs"
    "map (emit_chunk tags current True) cs = map (\<lambda>out. Some (rev out)) outs"
    "ascends tags current (concat outs)"
    "mset (live tags current (concat outs)) = mset (live tags current (first_order tags fs))"
    "set (concat outs) \<subseteq> set (first_order tags fs)"
    unfolding cs(3) by blast
  have "map (emit_chunk tags current True) (rev cs) = map Some (rev (map rev outs))"
    using arg_cong [OF outs(2), of rev] by (simp add: rev_map comp_def)
  then have "emission tags current True cs = Some (rev (concat outs))"
    using those_map_Some [of "\<lambda>x. x" "rev (map rev outs)"] by (simp add: emission_def rev_concat rev_map)
  moreover have "emission tags current False cs = Some (concat outs)"
    using outs(1) those_map_Some [of "\<lambda>x. x" outs] by (simp add: emission_def)
  moreover have "mset (live tags current (first_order tags fs)) = mset (live tags current fs)"
    by (simp add: live_def first_order_def)
  ultimately show ?thesis
    using cs(1) outs(3-5) by (auto simp: first_order_def)
qed

section \<open>Results\<close>

lemma live_tags_inj:
  assumes own: "own_tags tags fs" and cur: "currents_ok tags current (set fs)"
  shows "inj_on (\<lambda>f. the (live_tag tags current f)) (set (live tags current fs))"
proof (rule inj_onI)
  fix f g
  assume "f \<in> set (live tags current fs)" "g \<in> set (live tags current fs)"
    "the (live_tag tags current f) = the (live_tag tags current g)"
  then obtain t where t: "live_tag tags current f = Some t" "live_tag tags current g = Some t"
    and fg: "f \<in> set fs" "g \<in> set fs"
    by (auto simp: live_def)
  have "t \<in> set (tags f)" "t \<in> set (tags g)" using live_tag_in [OF cur] t fg by blast+
  with fg own show "f = g"
  proof (induction fs)
    case (Cons h fs)
    then show ?case by (auto simp: own_tags_Cons disjoint_iff)
  qed simp
qed

lemma ascends_sorted:
  assumes "ascends tags current fs"
  shows "sorted (map (\<lambda>f. the (live_tag tags current f)) (live tags current fs))"
proof -
  let ?R = "\<lambda>f g. \<forall>t u. live_tag tags current f = Some t \<longrightarrow> live_tag tags current g = Some u \<longrightarrow> t < u"
  have "sorted_wrt ?R (live tags current fs)"
    using assms by (simp add: ascends_def live_def sorted_wrt_filter)
  then have "sorted_wrt (\<lambda>f g. the (live_tag tags current f) \<le> the (live_tag tags current g)) (live tags current fs)"
    by (rule sorted_wrt_mono_rel [rotated]) (auto simp: live_def)
  then show ?thesis by (simp add: sorted_wrt_map)
qed

text \<open>
  C17. For every message whose fields have tags of their own, chunking its fields at compile time never
  panics, and whatever its oneofs hold, what is emitted at run time is exactly what sorting the present
  fields by their current tags would give; prepending emits the same fields in reverse.
\<close>

theorem emission_sorts_by_tag:
  assumes own: "own_tags tags fs" and cur: "currents_ok tags current (set fs)"
  shows "\<exists>cs m out. sort_fields tags fs = Some (cs, m) \<and> emission tags current False cs = Some out \<and>
    emission tags current True cs = Some (rev out) \<and>
    live tags current out = sort_key (\<lambda>f. the (live_tag tags current f)) (live tags current fs)"
proof -
  obtain cs out where o: "sort_fields tags fs = Some (cs, RuntimeTagMeasurer)"
    "emission tags current False cs = Some out" "emission tags current True cs = Some (rev out)"
    "ascends tags current out" "mset (live tags current out) = mset (live tags current fs)"
    using emission_ok [OF assms] by blast
  have "sort_key (\<lambda>f. the (live_tag tags current f)) (live tags current fs) = live tags current out"
    by (rule sort_key_inj_key_eq [OF o(5) [symmetric] live_tags_inj [OF assms] ascends_sorted [OF o(4)]])
  then show ?thesis using o(1-3) by metis
qed

definition sample_tags :: "nat \<Rightarrow> u32 list" where
  "sample_tags f = (if f = 0 then [1, 4] else if f = 1 then [2] else if f = 2 then [6, 3] else [9])"

definition sample_current :: "nat \<Rightarrow> u32 option option" where
  "sample_current f = (if f = 0 then Some (Some 4) else if f = 2 then Some (Some 3) else None)"

lemma emission_sorts_by_tag_witness:
  "\<exists>cs m out. sort_fields sample_tags [3, 0, 1, 2] = Some (cs, m) \<and>
    emission sample_tags sample_current False cs = Some out \<and>
    emission sample_tags sample_current True cs = Some (rev out) \<and>
    live sample_tags sample_current out = [1, 2, 0, 3]"
  using emission_sorts_by_tag [of sample_tags "[3, 0, 1, 2]" sample_current]
  by (simp add: own_tags_def currents_ok_def sample_tags_def sample_current_def live_def live_tag_def)

text \<open>
  The cheap measurer is never chosen for a derived message: when it is chosen, the iterator over the
  fields has been consumed, and the choice is made from no fields at all.
\<close>

theorem measurer_never_trivial:
  assumes "own_tags tags fs"
  shows "map_option snd (sort_fields tags fs) = Some RuntimeTagMeasurer"
  using sort_fields_ok [OF assms] by auto

lemma measurer_never_trivial_witness:
  "map_option snd (sort_fields sample_tags [0, 1, 2, 3]) = Some RuntimeTagMeasurer \<and>
   choose_measurer sample_tags [0, 1, 2, 3] = TrivialTagMeasurer"
  using measurer_never_trivial [of sample_tags "[0, 1, 2, 3]"]
  by (simp add: own_tags_def sample_tags_def choose_measurer_def)

end
