(* ===== verification/Derived_Message.thy ===== *)
theory Derived_Message
  imports Message_Codec Field_Order
begin

text \<open>
  The implementation that \<^verbatim>\<open>#[derive(Message)]\<close> generates for a struct
  (\<^verbatim>\<open>src/bilrost-derive/src/lib.rs\<close>, \<open>try_message\<close>; \<open>field/value.rs\<close> for the fields): a list of message
  fields, each an accessor of the struct with the operations of its encoding, becomes a
  \<open>raw_message\<close>. The locale \<open>derived_message\<close> states what the fields promise, with a ghost view of
  each field as parts of a message; the message then keeps the contract of \<open>Message_Codec\<close>.
\<close>

section \<open>Message fields\<close>

text \<open>\<open>mf_current\<close> is there for a oneof only.\<close>

record ('s, 'r) message_field =
  mf_tags :: "u32 list"
  mf_current :: "('s \<Rightarrow> u32 option) option"
  mf_encode :: "'s \<Rightarrow> tag_writer \<Rightarrow> bytes \<Rightarrow> (tag_writer \<times> bytes) option"
  mf_prepend :: "'s \<Rightarrow> tag_rev_writer \<times> 'r \<Rightarrow> (tag_rev_writer \<times> 'r) option"
  mf_len :: "'s \<Rightarrow> tag_measurer \<Rightarrow> (nat \<times> tag_measurer) option"
  mf_is_empty :: "'s \<Rightarrow> bool"
  mf_clear :: "'s \<Rightarrow> 's"
  mf_decode :: "u32 \<Rightarrow> wire_type \<Rightarrow> bool \<Rightarrow> 's \<Rightarrow> bytes capped \<Rightarrow> decode_context \<Rightarrow>
    ('s \<times> bytes capped) outcome"
  mf_decode_dist :: "u32 \<Rightarrow> wire_type \<Rightarrow> bool \<Rightarrow> 's \<Rightarrow> bytes capped \<Rightarrow> restricted_context \<Rightarrow>
    ('s \<times> canonicity \<times> bytes capped) outcome"

text \<open>A field with a value (\<^verbatim>\<open>MessageField\<close>), behind the accessors of the struct.\<close>

definition value_field ::
    "u32 \<Rightarrow> ('s \<Rightarrow> 't) \<Rightarrow> ('t \<Rightarrow> 's \<Rightarrow> 's) \<Rightarrow> 't empty_state \<Rightarrow> ('t, 'r) field_codec \<Rightarrow>
     ('s, 'r) message_field" where
  "value_field tag get put es fc = \<lparr>
     mf_tags = [tag],
     mf_current = None,
     mf_encode = (\<lambda>s. f_encode fc tag (get s)),
     mf_prepend = (\<lambda>s. f_prepend fc tag (get s)),
     mf_len = (\<lambda>s. f_len fc tag (get s)),
     mf_is_empty = (\<lambda>s. es_is_empty es (get s)),
     mf_clear = (\<lambda>s. put (es_clear es (get s)) s),
     mf_decode = (\<lambda>_ wire_type duplicated s buf ctx.
       if duplicated then Fail UnexpectedlyRepeated
       else obind (f_decode fc wire_type (get s) buf ctx) (\<lambda>(v, buf). Done (put v s, buf))),
     mf_decode_dist = (\<lambda>_ wire_type duplicated s buf ctx.
       if duplicated then Fail UnexpectedlyRepeated
       else obind (f_decode_dist fc wire_type (get s) buf ctx) (\<lambda>(v, canon, buf). Done (put v s, canon, buf)))\<rparr>"

section \<open>The derived message\<close>

definition current_tags :: "'s \<Rightarrow> ('s, 'r) message_field \<Rightarrow> u32 option option" where
  "current_tags s f = map_option (\<lambda>current. current s) (mf_current f)"

fun encode_each ::
    "('s, 'r) message_field list \<Rightarrow> 's \<Rightarrow> tag_writer \<Rightarrow> bytes \<Rightarrow> (tag_writer \<times> bytes) option" where
  "encode_each [] s tw buf = Some (tw, buf)"
| "encode_each (f # fs) s tw buf = mf_encode f s tw buf \<bind> (\<lambda>(tw, buf). encode_each fs s tw buf)"

fun prepend_each ::
    "('s, 'r) message_field list \<Rightarrow> 's \<Rightarrow> tag_rev_writer \<times> 'r \<Rightarrow> (tag_rev_writer \<times> 'r) option" where
  "prepend_each [] s st = Some st"
| "prepend_each (f # fs) s st = mf_prepend f s st \<bind> prepend_each fs s"

fun measure_each ::
    "('s, 'r) message_field list \<Rightarrow> 's \<Rightarrow> tag_measurer \<Rightarrow> (nat \<times> tag_measurer) option" where
  "measure_each [] s tm = Some (0, tm)"
| "measure_each (f # fs) s tm = mf_len f s tm \<bind> (\<lambda>(m, tm). measure_each fs s tm \<bind> (\<lambda>(n, tm). Some (m + n, tm)))"

definition derived_encode ::
    "('s, 'r) message_field list \<Rightarrow> 's \<Rightarrow> bytes \<Rightarrow> bytes option" where
  "derived_encode fs s buf = do {
     (chunks, _) \<leftarrow> sort_fields mf_tags fs;
     ordered \<leftarrow> emission mf_tags (current_tags s) False chunks;
     (_, buf) \<leftarrow> encode_each ordered s tag_writer_new buf;
     Some buf
   }"

definition derived_prepend ::
    "'r rev_ops \<Rightarrow> ('s, 'r) message_field list \<Rightarrow> 's \<Rightarrow> 'r \<Rightarrow> 'r option" where
  "derived_prepend rops fs s buf = do {
     (chunks, _) \<leftarrow> sort_fields mf_tags fs;
     ordered \<leftarrow> emission mf_tags (current_tags s) True chunks;
     st \<leftarrow> prepend_each ordered s (tag_rev_writer_new, buf);
     (_, buf) \<leftarrow> trw_finalize rops st;
     Some buf
   }"

text \<open>No derived message has the trivial measurer.\<close>

definition derived_len :: "('s, 'r) message_field list \<Rightarrow> 's \<Rightarrow> nat option" where
  "derived_len fs s = do {
     (chunks, measurer) \<leftarrow> sort_fields mf_tags fs;
     (case measurer of TrivialTagMeasurer \<Rightarrow> None | RuntimeTagMeasurer \<Rightarrow> do {
       ordered \<leftarrow> emission mf_tags (current_tags s) False chunks;
       (n, _) \<leftarrow> measure_each ordered s tag_measurer_new;
       Some n
     })
   }"

definition field_of_tag :: "('s, 'r) message_field list \<Rightarrow> u32 \<Rightarrow> ('s, 'r) message_field option" where
  "field_of_tag fs tag = find (\<lambda>f. tag \<in> set (mf_tags f)) fs"

definition derived_decode_field ::
    "('s, 'r) message_field list \<Rightarrow> u32 \<Rightarrow> wire_type \<Rightarrow> bool \<Rightarrow> 's \<Rightarrow> bytes capped \<Rightarrow> decode_context \<Rightarrow>
     ('s \<times> bytes capped) outcome" where
  "derived_decode_field fs tag wire_type duplicated s buf ctx =
    (case field_of_tag fs tag of
       Some f \<Rightarrow> mf_decode f tag wire_type duplicated s buf ctx
     | None \<Rightarrow> obind (skip_field slice_ops wire_type buf) (\<lambda>buf. Done (s, buf)))"

definition derived_decode_field_dist ::
    "('s, 'r) message_field list \<Rightarrow> u32 \<Rightarrow> wire_type \<Rightarrow> bool \<Rightarrow> 's \<Rightarrow> bytes capped \<Rightarrow> restricted_context \<Rightarrow>
     ('s \<times> canonicity \<times> bytes capped) outcome" where
  "derived_decode_field_dist fs tag wire_type duplicated s buf ctx =
    (case field_of_tag fs tag of
       Some f \<Rightarrow> obind (mf_decode_dist f tag wire_type duplicated s buf ctx) (\<lambda>(s, new_canon, buf).
         Done (s, canonicity_update Canonical new_canon, buf))
     | None \<Rightarrow> obind (from_result (check ctx HasExtensions)) (\<lambda>k.
         obind (skip_field slice_ops wire_type buf) (\<lambda>buf. Done (s, canonicity_update Canonical k, buf))))"

text \<open>The struct literal with the empty value of every field is the argument \<open>init\<close>.\<close>

definition derive_message :: "'r rev_ops \<Rightarrow> 's \<Rightarrow> ('s, 'r) message_field list \<Rightarrow> ('s, 'r) raw_message" where
  "derive_message rops init fs = \<lparr>
     rm_empty = init,
     rm_is_empty = (\<lambda>s. list_all (\<lambda>f. mf_is_empty f s) fs),
     rm_clear = fold mf_clear fs,
     rm_encode = derived_encode fs,
     rm_prepend = derived_prepend rops fs,
     rm_len = derived_len fs,
     rm_decode_field = derived_decode_field fs,
     rm_decode_field_dist = derived_decode_field_dist fs\<rparr>"

section \<open>What the fields promise\<close>

text \<open>
  The ghost view of a field: the parts of a message that it stands for, all under one tag, whether its
  value is one of its type, how deeply messages nest in it, and when two structs agree on it.
\<close>

record 's field_view =
  fv_tag :: "'s \<Rightarrow> u32"
  fv_parts :: "'s \<Rightarrow> value_part list"
  fv_valid :: "'s \<Rightarrow> bool"
  fv_depth :: "'s \<Rightarrow> nat"
  fv_same :: "'s \<Rightarrow> 's \<Rightarrow> bool"

definition blank :: "'s field_view \<Rightarrow> 's \<Rightarrow> bool" where
  "blank w s \<longleftrightarrow> fv_valid w s \<and> fv_parts w s = []"

text \<open>A value field is only decoded while it is blank, for a second value is refused.\<close>

definition ready :: "('s, 'r) message_field \<Rightarrow> 's field_view \<Rightarrow> bool \<Rightarrow> 's \<Rightarrow> bool" where
  "ready f w duplicated s \<longleftrightarrow> mf_current f \<noteq> None \<or> duplicated \<or> blank w s"

locale member_contract = rev_buf_contract rops rcontents rinv
  for rops :: "'r rev_ops" and rcontents :: "'r \<Rightarrow> bytes" and rinv :: "'r \<Rightarrow> bool" +
  fixes f :: "('s, 'r) message_field"
    and w :: "'s field_view"
  assumes tags: "mf_tags f \<noteq> [] \<and> distinct (mf_tags f)"
    and one_tag: "mf_current f = None \<Longrightarrow> length (mf_tags f) = 1"
    and tag_in: "fv_valid w s \<Longrightarrow> fv_parts w s \<noteq> [] \<Longrightarrow> fv_tag w s \<in> set (mf_tags f)"
    and current: "mf_current f = Some cur \<Longrightarrow> fv_valid w s \<Longrightarrow>
      cur s = (if fv_parts w s = [] then None else Some (fv_tag w s))"
    and is_empty: "fv_valid w s \<Longrightarrow> mf_is_empty f s \<longleftrightarrow> fv_parts w s = []"
    and clear: "fv_valid w s \<Longrightarrow> blank w (mf_clear f s)"
    and encode: "fv_valid w s \<Longrightarrow> writes_parts (tagged (fv_tag w s) (fv_parts w s)) (mf_encode f s)"
    and prepend: "fv_valid w s \<Longrightarrow> prepends_parts (tagged (fv_tag w s) (fv_parts w s)) (mf_prepend f s)"
    and len: "fv_valid w s \<Longrightarrow> measures_parts (tagged (fv_tag w s) (fv_parts w s)) (mf_len f s)"
    and decode: "blank w s \<Longrightarrow> fv_valid w t \<Longrightarrow> fv_depth w t \<le> unat (recurse_count ctx) \<Longrightarrow>
      fv_parts w t = (wt, val) # ps \<Longrightarrow> ends_field rest x \<Longrightarrow>
      \<exists>s'. mf_decode f (fv_tag w t) wt False s \<lparr>cap_buf = val @ run_bytes ps @ rest, cap_extra = x\<rparr> ctx =
        Done (s', \<lparr>cap_buf = rest, cap_extra = x\<rparr>) \<and> fv_same w s' t"
    and decode_frame: "mf_decode f tag wt dup s cp ctx = Done (s', cp') \<Longrightarrow>
      cap_extra cp' = cap_extra cp \<and> (\<exists>p. cap_buf cp = p @ cap_buf cp')"
    and decode_no_panic: "tag \<in> set (mf_tags f) \<Longrightarrow> mf_decode f tag wt dup s cp ctx \<noteq> Panic"
    and same_equiv: "equivp (fv_same w)"
    and same_cong: "fv_same w s t \<Longrightarrow> fv_valid w s = fv_valid w t \<and> fv_parts w s = fv_parts w t \<and>
      (fv_parts w s \<noteq> [] \<longrightarrow> fv_tag w s = fv_tag w t)"
    and same_blank: "blank w s \<Longrightarrow> blank w t \<Longrightarrow> fv_same w s t"

locale distinguished_member_contract = member_contract rops rcontents rinv f w
  for rops :: "'r rev_ops" and rcontents :: "'r \<Rightarrow> bytes" and rinv :: "'r \<Rightarrow> bool"
    and f :: "('s, 'r) message_field" and w :: "'s field_view" +
  assumes dist_relaxed: "ready f w dup s \<Longrightarrow> mf_decode_dist f tag wt dup s cp ctx = Done (s', k, cp') \<Longrightarrow>
      blank w s \<and> mf_decode f tag wt dup s cp (into_inner ctx) = Done (s', cp') \<and> rc_min_canonicity ctx \<le> k"
    and dist_canonical: "ready f w dup s \<Longrightarrow> tag \<in> set (mf_tags f) \<Longrightarrow>
      mf_decode_dist f tag wt dup s cp ctx = Done (s', Canonical, cp') \<Longrightarrow> length (cap_buf cp) < 2 ^ 64 \<Longrightarrow>
      fv_valid w s' \<and> fv_tag w s' = tag \<and>
      (\<exists>val ps. fv_parts w s' = (wt, val) # ps \<and> cap_buf cp = val @ run_bytes ps @ cap_buf cp')"
    and dist_complete: "blank w s \<Longrightarrow> fv_valid w t \<Longrightarrow> fv_depth w t \<le> unat (recurse_count (into_inner ctx)) \<Longrightarrow>
      fv_parts w t = (wt, val) # ps \<Longrightarrow> ends_field rest x \<Longrightarrow>
      \<exists>s'. mf_decode_dist f (fv_tag w t) wt False s \<lparr>cap_buf = val @ run_bytes ps @ rest, cap_extra = x\<rparr> ctx =
        Done (s', Canonical, \<lparr>cap_buf = rest, cap_extra = x\<rparr>) \<and> fv_same w s' t"
    and dist_no_panic: "ready f w dup s \<Longrightarrow> tag \<in> set (mf_tags f) \<Longrightarrow>
      mf_decode_dist f tag wt dup s cp ctx \<noteq> Panic"

text \<open>Fields of one struct do not interfere, and together they are the struct.\<close>

locale derived_message = rev_buf_contract rops rcontents rinv
  for rops :: "'r rev_ops" and rcontents :: "'r \<Rightarrow> bytes" and rinv :: "'r \<Rightarrow> bool" +
  fixes init :: 's
    and fs :: "('s, 'r) message_field list"
    and w :: "('s, 'r) message_field \<Rightarrow> 's field_view"
  assumes member: "f \<in> set fs \<Longrightarrow> member_contract rops rcontents rinv f (w f)"
    and own: "own_tags mf_tags fs"
    and init_blank: "f \<in> set fs \<Longrightarrow> blank (w f) init"
    and clear_frame: "f \<in> set fs \<Longrightarrow> g \<in> set fs \<Longrightarrow> f \<noteq> g \<Longrightarrow> fv_same (w g) (mf_clear f s) s"
    and decode_frame: "f \<in> set fs \<Longrightarrow> g \<in> set fs \<Longrightarrow> f \<noteq> g \<Longrightarrow>
      mf_decode f tag wt dup s cp ctx = Done (s', cp') \<Longrightarrow> fv_same (w g) s' s"
    and extensional: "(\<And>f. f \<in> set fs \<Longrightarrow> fv_same (w f) s t) \<Longrightarrow> s = t"

locale distinguished_derived_message = derived_message rops rcontents rinv init fs w
  for rops :: "'r rev_ops" and rcontents :: "'r \<Rightarrow> bytes" and rinv :: "'r \<Rightarrow> bool"
    and init :: 's and fs :: "('s, 'r) message_field list" and w :: "('s, 'r) message_field \<Rightarrow> 's field_view" +
  assumes dist_member: "f \<in> set fs \<Longrightarrow> distinguished_member_contract rops rcontents rinv f (w f)"

section \<open>Value fields keep the promises\<close>

definition value_view ::
    "u32 \<Rightarrow> ('s \<Rightarrow> 't) \<Rightarrow> ('t \<Rightarrow> value_part list) \<Rightarrow> ('t \<Rightarrow> bool) \<Rightarrow> ('t \<Rightarrow> nat) \<Rightarrow> 's field_view" where
  "value_view tag get parts valid depth = \<lparr>fv_tag = (\<lambda>_. tag), fv_parts = (\<lambda>s. parts (get s)),
     fv_valid = (\<lambda>s. valid (get s)), fv_depth = (\<lambda>s. depth (get s)), fv_same = (\<lambda>s t. get s = get t)\<rparr>"

lemmas value_field_simps = value_field_def value_view_def blank_def ready_def

lemma value_field_dist_Done:
  "mf_decode_dist (value_field tag get put es fc) t wt dup s cp ctx = Done (s', k, cp') \<longleftrightarrow>
    \<not> dup \<and> (\<exists>v. f_decode_dist fc wt (get s) cp ctx = Done (v, k, cp') \<and> s' = put v s)"
  by (auto simp: value_field_def)

lemma value_field_Done:
  "mf_decode (value_field tag get put es fc) t wt dup s cp ctx = Done (s', cp') \<longleftrightarrow>
    \<not> dup \<and> (\<exists>v. f_decode fc wt (get s) cp ctx = Done (v, cp') \<and> s' = put v s)"
  by (auto simp: value_field_def)

context field_contract
begin

lemma blank_empty: "valid v \<Longrightarrow> parts v = [] \<Longrightarrow> v = es_empty es"
  using parts_Nil by blast

lemma value_field_member:
  assumes get_put: "\<And>v s. get (put v s) = v"
  shows "member_contract rops rcontents rinv (value_field tag get put es fc) (value_view tag get parts valid depth)"
proof unfold_locales
  let ?f = "value_field tag get put es fc" and ?w = "value_view tag get parts valid depth"
  show "mf_tags ?f \<noteq> [] \<and> distinct (mf_tags ?f)" by (simp add: value_field_simps)
  show "mf_current ?f = None \<Longrightarrow> length (mf_tags ?f) = 1" by (simp add: value_field_simps)
  fix s t s' cur wt val ps rest x tag' dup cp cp' ctx
  show "mf_current ?f = Some cur \<Longrightarrow> cur s = (if fv_parts ?w s = [] then None else Some (fv_tag ?w s))"
    by (simp add: value_field_simps)
  show "equivp (fv_same ?w)" by (auto simp: value_field_simps intro!: equivpI reflpI sympI transpI)
  show "fv_same ?w s t \<Longrightarrow> fv_valid ?w s = fv_valid ?w t \<and> fv_parts ?w s = fv_parts ?w t \<and>
      (fv_parts ?w s \<noteq> [] \<longrightarrow> fv_tag ?w s = fv_tag ?w t)" by (simp add: value_field_simps)
  show "blank ?w s \<Longrightarrow> blank ?w t \<Longrightarrow> fv_same ?w s t"
    using blank_empty [of "get s"] blank_empty [of "get t"] by (simp add: value_field_simps)
  show "mf_decode ?f tag' wt dup s cp ctx \<noteq> Panic"
    using decode_no_panic by (auto simp: value_field_simps obind_Panic_iff)
  show "mf_decode ?f tag' wt dup s cp ctx = Done (s', cp') \<Longrightarrow>
      cap_extra cp' = cap_extra cp \<and> (\<exists>p. cap_buf cp = p @ cap_buf cp')"
    using decode_frame by (auto simp: value_field_simps)
  show "blank ?w s \<Longrightarrow> fv_valid ?w t \<Longrightarrow> fv_depth ?w t \<le> unat (recurse_count ctx) \<Longrightarrow>
      fv_parts ?w t = (wt, val) # ps \<Longrightarrow> ends_field rest x \<Longrightarrow>
      \<exists>s'. mf_decode ?f (fv_tag ?w t) wt False s \<lparr>cap_buf = val @ run_bytes ps @ rest, cap_extra = x\<rparr> ctx =
        Done (s', \<lparr>cap_buf = rest, cap_extra = x\<rparr>) \<and> fv_same ?w s' t"
    using decode blank_empty get_put by (auto simp: value_field_simps)
  assume v: "fv_valid ?w s"
  show "fv_parts ?w s \<noteq> [] \<Longrightarrow> fv_tag ?w s \<in> set (mf_tags ?f)" by (simp add: value_field_simps)
  show "mf_is_empty ?f s \<longleftrightarrow> fv_parts ?w s = []"
    using v is_empty parts_Nil by (simp add: value_field_simps)
  show "blank ?w (mf_clear ?f s)"
    using v clear empty parts_Nil get_put by (simp add: value_field_simps)
  show "writes_parts (tagged (fv_tag ?w s) (fv_parts ?w s)) (mf_encode ?f s)"
    using v encode by (simp add: value_field_simps)
  show "prepends_parts (tagged (fv_tag ?w s) (fv_parts ?w s)) (mf_prepend ?f s)"
    using v prepend by (simp add: value_field_simps)
  show "measures_parts (tagged (fv_tag ?w s) (fv_parts ?w s)) (mf_len ?f s)"
    using v len by (simp add: value_field_simps)
qed

end

context distinguished_field_contract
begin

lemma value_field_distinguished_member:
  assumes get_put: "\<And>v s. get (put v s) = v"
  shows "distinguished_member_contract rops rcontents rinv (value_field tag get put es fc)
    (value_view tag get parts valid depth)"
proof (intro distinguished_member_contract.intro value_field_member get_put distinguished_member_contract_axioms.intro)
  let ?f = "value_field tag get put es fc" and ?w = "value_view tag get parts valid depth"
  fix s t s' k wt val ps x tag' dup cp cp' ctx and rest :: bytes
  have blank: "get s = es_empty es" if "ready ?f ?w False s"
    using that blank_empty by (simp add: value_field_simps)
  have fresh: "\<not> dup \<and> get s = es_empty es \<and>
      (\<exists>v. f_decode_dist fc wt (es_empty es) cp ctx = Done (v, k, cp') \<and> s' = put v s)"
    if "ready ?f ?w dup s" "mf_decode_dist ?f tag' wt dup s cp ctx = Done (s', k, cp')" for k
    using that blank unfolding value_field_dist_Done by (cases dup) auto
  show "blank ?w s \<and> mf_decode ?f tag' wt dup s cp (into_inner ctx) = Done (s', cp') \<and> rc_min_canonicity ctx \<le> k"
    if "ready ?f ?w dup s" "mf_decode_dist ?f tag' wt dup s cp ctx = Done (s', k, cp')"
    using fresh [OF that] dist_relaxed [of wt cp ctx] empty parts_Nil [OF empty]
    unfolding value_field_Done by (auto simp: blank_def value_view_def)
  show "fv_valid ?w s' \<and> fv_tag ?w s' = tag' \<and>
      (\<exists>val ps. fv_parts ?w s' = (wt, val) # ps \<and> cap_buf cp = val @ run_bytes ps @ cap_buf cp')"
    if "ready ?f ?w dup s" "tag' \<in> set (mf_tags ?f)"
      "mf_decode_dist ?f tag' wt dup s cp ctx = Done (s', Canonical, cp')" "length (cap_buf cp) < 2 ^ 64"
    using fresh [OF that(1,3)] dist_canonical [OF _ that(4), of wt ctx] that(2) get_put
    by (auto simp: value_view_def value_field_def)
  show "\<exists>s'. mf_decode_dist ?f (fv_tag ?w t) wt False s \<lparr>cap_buf = val @ run_bytes ps @ rest, cap_extra = x\<rparr> ctx =
        Done (s', Canonical, \<lparr>cap_buf = rest, cap_extra = x\<rparr>) \<and> fv_same ?w s' t"
    if "blank ?w s" "fv_valid ?w t" "fv_depth ?w t \<le> unat (recurse_count (into_inner ctx))"
      "fv_parts ?w t = (wt, val) # ps" "ends_field rest x"
  proof -
    have "get s = es_empty es" using that(1) by (intro blank) (simp add: ready_def)
    moreover have "f_decode_dist fc wt (es_empty es) \<lparr>cap_buf = val @ run_bytes ps @ rest, cap_extra = x\<rparr> ctx =
        Done (get t, Canonical, \<lparr>cap_buf = rest, cap_extra = x\<rparr>)"
      using that by (intro dist_complete) (simp_all add: value_view_def)
    ultimately show ?thesis
      unfolding value_field_dist_Done by (auto simp: value_view_def get_put)
  qed
  show "mf_decode_dist ?f tag' wt dup s cp ctx \<noteq> Panic" if "ready ?f ?w dup s"
  proof (cases dup)
    case False
    then have "get s = es_empty es" using that by (intro blank) simp
    then show ?thesis using dist_no_panic by (simp add: value_field_def obind_Panic_iff)
  qed (simp add: value_field_def)
qed

end

section \<open>The body of a struct\<close>

text \<open>The fields that are present, in the order of their tags, and the bytes they make up.\<close>

definition present :: "(('s, 'r) message_field \<Rightarrow> 's field_view) \<Rightarrow> ('s, 'r) message_field list \<Rightarrow> 's \<Rightarrow>
    ('s, 'r) message_field list" where
  "present w fs s = sort_key (\<lambda>f. fv_tag (w f) s) (filter (\<lambda>f. fv_parts (w f) s \<noteq> []) fs)"

definition field_run :: "(('s, 'r) message_field \<Rightarrow> 's field_view) \<Rightarrow> 's \<Rightarrow> ('s, 'r) message_field \<Rightarrow> raw_part list" where
  "field_run w s f = tagged (fv_tag (w f) s) (fv_parts (w f) s)"

definition struct_parts :: "(('s, 'r) message_field \<Rightarrow> 's field_view) \<Rightarrow> ('s, 'r) message_field list \<Rightarrow> 's \<Rightarrow> raw_part list" where
  "struct_parts w fs s = concat (map (field_run w s) (present w fs s))"

definition struct_body :: "(('s, 'r) message_field \<Rightarrow> 's field_view) \<Rightarrow> ('s, 'r) message_field list \<Rightarrow> 's \<Rightarrow> bytes" where
  "struct_body w fs s = fields_bytes 0 (struct_parts w fs s)"

definition struct_valid :: "(('s, 'r) message_field \<Rightarrow> 's field_view) \<Rightarrow> ('s, 'r) message_field list \<Rightarrow> 's \<Rightarrow> bool" where
  "struct_valid w fs s \<longleftrightarrow> (\<forall>f \<in> set fs. fv_valid (w f) s) \<and> length (struct_body w fs s) < 2 ^ 64"

definition struct_depth :: "(('s, 'r) message_field \<Rightarrow> 's field_view) \<Rightarrow> ('s, 'r) message_field list \<Rightarrow> 's \<Rightarrow> nat" where
  "struct_depth w fs s = foldr (\<lambda>f. max (fv_depth (w f) s)) fs 0"

lemma struct_depth_le: "struct_depth w fs s \<le> n \<longleftrightarrow> (\<forall>f \<in> set fs. fv_depth (w f) s \<le> n)"
  by (induction fs) (auto simp: struct_depth_def)

lemma tags_ascend_tagged_iff: "tags_ascend t (tagged tag ps) \<longleftrightarrow> ps = [] \<or> t \<le> tag"
  by (cases ps) auto

lemma tags_ascend_runs:
  "sorted (map (\<lambda>f. fv_tag (w f) s) gs) \<Longrightarrow> \<forall>g \<in> set gs. t \<le> fv_tag (w g) s \<Longrightarrow>
   tags_ascend t (concat (map (field_run w s) gs))"
proof (induction gs arbitrary: t)
  case (Cons g gs)
  have "tags_ascend (if fv_parts (w g) s = [] then t else fv_tag (w g) s) (concat (map (field_run w s) gs))"
    using Cons by (intro Cons.IH) auto
  then show ?case
    using Cons.prems by (auto simp: tags_ascend_append field_run_def [of w s g] tags_ascend_tagged_iff final_tag_tagged)
qed simp

lemma struct_parts_ascend: "tags_ascend 0 (struct_parts w fs s)"
  unfolding struct_parts_def by (rule tags_ascend_runs) (auto simp: present_def)

context derived_message
begin

lemma tags_unique:
  assumes "f \<in> set fs" and "g \<in> set fs" and "t \<in> set (mf_tags f)" and "t \<in> set (mf_tags g)"
  shows "f = g"
  using own assms by (induction fs) (auto simp: own_tags_Cons disjoint_iff)

lemma field_of_tag_eq: "f \<in> set fs \<Longrightarrow> t \<in> set (mf_tags f) \<Longrightarrow> field_of_tag fs t = Some f"
  using tags_unique unfolding field_of_tag_def
  by (metis (mono_tags, lifting) find_None_iff find_Some_iff nth_mem not_None_eq)

lemma field_of_tag_Some: "field_of_tag fs t = Some f \<Longrightarrow> f \<in> set fs \<and> t \<in> set (mf_tags f)"
  by (auto simp: field_of_tag_def find_Some_iff)

lemma currents:
  assumes "\<forall>f \<in> set fs. fv_valid (w f) s"
  shows "currents_ok mf_tags (current_tags s) (set fs)"
  unfolding currents_ok_def
proof
  fix f assume f: "f \<in> set fs"
  then have v: "fv_valid (w f) s" using assms by blast
  note m = member [OF f]
  show "case current_tags s f of None \<Rightarrow> length (mf_tags f) = 1 | Some None \<Rightarrow> mf_tags f \<noteq> []
      | Some (Some t) \<Rightarrow> t \<in> set (mf_tags f)"
    using member_contract.one_tag [OF m] member_contract.tags [OF m] member_contract.tag_in [OF m v]
      member_contract.current [OF m _ v]
    by (cases "mf_current f") (auto simp: current_tags_def split: if_splits)
qed

lemma present_live:
  assumes f: "f \<in> set fs" and v: "fv_valid (w f) s" and ne: "fv_parts (w f) s \<noteq> []"
  shows "live_tag mf_tags (current_tags s) f = Some (fv_tag (w f) s)"
proof (cases "mf_current f")
  case None
  then have "length (mf_tags f) = 1" "fv_tag (w f) s \<in> set (mf_tags f)"
    using member_contract.one_tag [OF member [OF f]] member_contract.tag_in [OF member [OF f] v ne] by auto
  then show ?thesis using None by (auto simp: live_tag_def current_tags_def length_Suc_conv)
next
  case (Some cur)
  then show ?thesis
    using member_contract.current [OF member [OF f] Some v] ne by (simp add: live_tag_def current_tags_def)
qed

lemma present_tag: "f \<in> set (present w fs s) \<Longrightarrow> struct_valid w fs s \<Longrightarrow> fv_tag (w f) s \<in> set (mf_tags f)"
  using member_contract.tag_in [OF member] by (auto simp: present_def struct_valid_def)

lemma present_inj:
  assumes "\<forall>f \<in> set fs. fv_valid (w f) s"
  shows "inj_on (\<lambda>f. fv_tag (w f) s) (set (filter (\<lambda>f. fv_parts (w f) s \<noteq> []) fs))"
proof (rule inj_onI)
  fix f g
  assume "f \<in> set (filter (\<lambda>f. fv_parts (w f) s \<noteq> []) fs)" "g \<in> set (filter (\<lambda>f. fv_parts (w f) s \<noteq> []) fs)"
    and eq: "fv_tag (w f) s = fv_tag (w g) s"
  then have fg: "f \<in> set fs" "g \<in> set fs" "fv_parts (w f) s \<noteq> []" "fv_parts (w g) s \<noteq> []" by auto
  then have "fv_tag (w f) s \<in> set (mf_tags f)" "fv_tag (w g) s \<in> set (mf_tags g)"
    using member_contract.tag_in [OF member] assms by blast+
  then show "f = g" using tags_unique fg(1,2) eq by metis
qed

text \<open>What the generated code emits are the present fields in order, and blank ones that write nothing.\<close>

lemma emission_present:
  assumes v: "\<forall>f \<in> set fs. fv_valid (w f) s"
  shows "\<exists>cs out. sort_fields mf_tags fs = Some (cs, RuntimeTagMeasurer) \<and>
    emission mf_tags (current_tags s) False cs = Some out \<and>
    emission mf_tags (current_tags s) True cs = Some (rev out) \<and> set out \<subseteq> set fs \<and>
    concat (map (field_run w s) out) = struct_parts w fs s"
proof -
  let ?P = "\<lambda>f. fv_parts (w f) s \<noteq> []"
  obtain cs out where o: "sort_fields mf_tags fs = Some (cs, RuntimeTagMeasurer)"
    "emission mf_tags (current_tags s) False cs = Some out"
    "emission mf_tags (current_tags s) True cs = Some (rev out)" "ascends mf_tags (current_tags s) out"
    "mset (live mf_tags (current_tags s) out) = mset (live mf_tags (current_tags s) fs)" "set out \<subseteq> set fs"
    using emission_ok [OF own currents [OF v]] by blast
  have live: "filter ?P (live mf_tags (current_tags s) gs) = filter ?P gs" if "set gs \<subseteq> set fs" for gs
    unfolding live_def filter_filter using that present_live v by (intro filter_cong) auto
  have "mset (filter ?P fs) = mset (filter ?P out)"
    using o(5) live [of fs] live [of out] o(6) by (metis mset_filter order_refl)
  moreover have "sorted (map (\<lambda>f. fv_tag (w f) s) (filter ?P out))"
  proof -
    let ?R = "\<lambda>f g. \<forall>t u. live_tag mf_tags (current_tags s) f = Some t \<longrightarrow>
      live_tag mf_tags (current_tags s) g = Some u \<longrightarrow> t < u"
    have pl: "live_tag mf_tags (current_tags s) f = Some (fv_tag (w f) s)"
      if "f \<in> set out" "fv_parts (w f) s \<noteq> []" for f
      using that o(6) v by (intro present_live) auto
    have "sorted_wrt ?R (filter ?P out)" using o(4) by (simp add: ascends_def sorted_wrt_filter)
    then have "sorted_wrt (\<lambda>f g. fv_tag (w f) s \<le> fv_tag (w g) s) (filter ?P out)"
      by (rule sorted_wrt_mono_rel [rotated]) (use pl in \<open>auto intro: less_imp_le\<close>)
    then show ?thesis by (simp add: sorted_wrt_map)
  qed
  ultimately have "present w fs s = filter ?P out"
    unfolding present_def by (intro sort_key_inj_key_eq present_inj v)
  moreover have "concat (map (field_run w s) gs) = concat (map (field_run w s) (filter ?P gs))" for gs
    by (induction gs) (auto simp: field_run_def)
  ultimately have "concat (map (field_run w s) out) = struct_parts w fs s"
    by (metis struct_parts_def)
  then show ?thesis using o by blast
qed

lemma member_encode: "f \<in> set fs \<Longrightarrow> fv_valid (w f) s \<Longrightarrow> writes_parts (field_run w s f) (mf_encode f s)"
  unfolding field_run_def by (rule member_contract.encode [OF member])

lemma member_len: "f \<in> set fs \<Longrightarrow> fv_valid (w f) s \<Longrightarrow> measures_parts (field_run w s f) (mf_len f s)"
  unfolding field_run_def by (rule member_contract.len [OF member])

lemma member_prepend: "f \<in> set fs \<Longrightarrow> fv_valid (w f) s \<Longrightarrow> prepends_parts (field_run w s f) (mf_prepend f s)"
  unfolding field_run_def by (rule member_contract.prepend [OF member])

lemma encode_each_parts:
  "set gs \<subseteq> set fs \<Longrightarrow> \<forall>f \<in> set fs. fv_valid (w f) s \<Longrightarrow>
   writes_parts (concat (map (field_run w s) gs)) (encode_each gs s)"
proof (induction gs)
  case Nil
  then show ?case by (simp add: writes_parts_def)
next
  case (Cons g gs)
  have "writes_parts (field_run w s g @ concat (map (field_run w s) gs))
      (\<lambda>tw buf. mf_encode g s tw buf \<bind> (\<lambda>(tw, buf). encode_each gs s tw buf))"
    using Cons by (intro writes_parts_comp member_encode) auto
  then show ?case by (simp add: writes_parts_def)
qed

lemma measure_each_parts:
  "set gs \<subseteq> set fs \<Longrightarrow> \<forall>f \<in> set fs. fv_valid (w f) s \<Longrightarrow>
   measures_parts (concat (map (field_run w s) gs)) (measure_each gs s)"
proof (induction gs)
  case Nil
  then show ?case by (simp add: measures_parts_def)
next
  case (Cons g gs)
  have "measures_parts (field_run w s g @ concat (map (field_run w s) gs))
      (\<lambda>tm. mf_len g s tm \<bind> (\<lambda>(m, tm). measure_each gs s tm \<bind> (\<lambda>(n, tm). Some (m + n, tm))))"
    using Cons by (intro measures_parts_comp member_len) auto
  then show ?case by (simp add: measures_parts_def)
qed

lemma prepend_each_append: "prepend_each (gs @ hs) s st = prepend_each gs s st \<bind> prepend_each hs s"
proof (induction gs arbitrary: st)
  case (Cons g gs)
  then show ?case by (cases "mf_prepend g s st") simp_all
qed simp

lemma prepend_each_one: "prepend_each [g] s = mf_prepend g s"
proof
  fix st
  show "prepend_each [g] s st = mf_prepend g s st" by (cases "mf_prepend g s st") simp_all
qed

lemma prepend_each_parts:
  "set gs \<subseteq> set fs \<Longrightarrow> \<forall>f \<in> set fs. fv_valid (w f) s \<Longrightarrow>
   prepends_parts (concat (map (field_run w s) gs)) (prepend_each (rev gs) s)"
proof (induction gs)
  case Nil
  then show ?case by (simp add: prepends_parts_def)
next
  case (Cons g gs)
  have "prepends_parts (field_run w s g @ concat (map (field_run w s) gs))
      (\<lambda>st. prepend_each (rev gs) s st \<bind> mf_prepend g s)"
    using Cons by (intro prepends_parts_comp member_prepend) auto
  then show ?case by (simp add: prepends_parts_def prepend_each_append prepend_each_one del: prepend_each.simps)
qed

lemma derived_encode_eq:
  "struct_valid w fs s \<Longrightarrow> derived_encode fs s buf = Some (buf @ struct_body w fs s)"
proof -
  assume "struct_valid w fs s"
  then have v: "\<forall>f \<in> set fs. fv_valid (w f) s" by (simp add: struct_valid_def)
  obtain cs out where o: "sort_fields mf_tags fs = Some (cs, RuntimeTagMeasurer)"
    "emission mf_tags (current_tags s) False cs = Some out" "set out \<subseteq> set fs"
    "concat (map (field_run w s) out) = struct_parts w fs s"
    using emission_present [OF v] by blast
  have "writes_parts (struct_parts w fs s) (encode_each out s)"
    using encode_each_parts [OF o(3) v] o(4) by simp
  from writes_partsD [OF this struct_parts_ascend] show ?thesis
    using o(1,2) by (simp add: derived_encode_def tag_writer_new_def struct_body_def)
qed

lemma derived_len_eq: "struct_valid w fs s \<Longrightarrow> derived_len fs s = Some (length (struct_body w fs s))"
proof -
  assume "struct_valid w fs s"
  then have v: "\<forall>f \<in> set fs. fv_valid (w f) s" by (simp add: struct_valid_def)
  obtain cs out where o: "sort_fields mf_tags fs = Some (cs, RuntimeTagMeasurer)"
    "emission mf_tags (current_tags s) False cs = Some out" "set out \<subseteq> set fs"
    "concat (map (field_run w s) out) = struct_parts w fs s"
    using emission_present [OF v] by blast
  have "measures_parts (struct_parts w fs s) (measure_each out s)"
    using measure_each_parts [OF o(3) v] o(4) by simp
  from measures_partsD [OF this struct_parts_ascend] show ?thesis
    using o(1,2) by (simp add: derived_len_def tag_measurer_new_def struct_body_def)
qed

lemma derived_prepend_eq: "struct_valid w fs s \<Longrightarrow> prepends (struct_body w fs s) (derived_prepend rops fs s)"
proof (rule prependsI)
  fix r
  assume "struct_valid w fs s" and r: "rinv r"
  then have v: "\<forall>f \<in> set fs. fv_valid (w f) s" by (simp add: struct_valid_def)
  obtain cs out where o: "sort_fields mf_tags fs = Some (cs, RuntimeTagMeasurer)"
    "emission mf_tags (current_tags s) True cs = Some (rev out)" "set out \<subseteq> set fs"
    "concat (map (field_run w s) out) = struct_parts w fs s"
    using emission_present [OF v] by blast
  have "prepends_parts (struct_parts w fs s) (prepend_each (rev out) s)"
    using prepend_each_parts [OF o(3) v] o(4) by simp
  then obtain st where st: "prepend_each (rev out) s (tag_rev_writer_new, r) = Some st"
    "pending (struct_parts w fs s) (rcontents r) st"
    using pending_new [OF r] struct_parts_ascend [of w fs s] unfolding prepends_parts_def by fastforce
  then show "\<exists>r'. derived_prepend rops fs s r = Some r' \<and> rinv r' \<and>
      rcontents r' = struct_body w fs s @ rcontents r"
    using finalize_pending [OF st(2)] o(1,2) by (auto simp: derived_prepend_def struct_body_def)
qed

end

end
