(* ===== verification/Derived_Laws.thy ===== *)
theory Derived_Laws
  imports Derived_Message
begin

section \<open>Decoding a struct\<close>

lemma hd_varint_key: "d \<noteq> 0 \<Longrightarrow> 4 \<le> hd (varint_bytes (key_of d wt))"
proof -
  assume d: "d \<noteq> 0"
  then have "0 < unat d" by (simp add: unat_gt_0)
  then have "4 \<le> unat (key_of d wt)" unfolding unat_key_of by linarith
  moreover have "4 \<le> v \<Longrightarrow> 4 \<le> hd (vbytes (Suc n) v)" if "n \<noteq> 0" for v n
    using that by (auto simp: word_le_nat_alt unat_of_nat vbytes.simps(2))
  from this [of 8 "unat (key_of d wt)"] have "4 \<le> unat (key_of d wt) \<Longrightarrow> 4 \<le> hd (varint_bytes (key_of d wt))"
    by (simp add: varint_bytes_def)
  ultimately show ?thesis by simp
qed

lemma runs_length:
  "\<forall>g \<in> set gs. fv_parts (w g) t \<noteq> [] \<Longrightarrow> length gs \<le> length (fields_bytes k (concat (map (field_run w t) gs)))"
proof (induction gs arbitrary: k)
  case (Cons g gs)
  obtain p ps where "fv_parts (w g) t = p # ps"
    using Cons.prems by (cases "fv_parts (w g) t") auto
  then have "fields_bytes k (field_run w t g) \<noteq> []"
    by (cases p) (simp add: field_run_def)
  then have "0 < length (fields_bytes k (field_run w t g))" by simp
  moreover have "length gs \<le> length (fields_bytes j (concat (map (field_run w t) gs)))" for j
    using Cons by simp
  from this [of "final_tag k (field_run w t g)"] show ?case
    using calculation unfolding list.map concat.simps fields_bytes_append length_append list.size by linarith
qed simp

text \<open>The bytes from a field on, and where its run ends.\<close>

lemma runs_bytes:
  assumes "fv_parts (w g) t = (wt, val) # ps"
  shows "fields_bytes k (concat (map (field_run w t) (g # gs))) =
    varint_bytes (key_of (fv_tag (w g) t - k) wt) @ val @ run_bytes ps @
      fields_bytes (fv_tag (w g) t) (concat (map (field_run w t) gs))"
  using assms by (simp add: fields_bytes_append field_run_def [of w t g] final_tag_tagged fields_bytes_tagged)

lemma runs_end:
  assumes "\<forall>g \<in> set gs. fv_parts (w g) t \<noteq> []" and "\<forall>g \<in> set gs. k < fv_tag (w g) t"
  shows "ends_field (fields_bytes k (concat (map (field_run w t) gs)) @ rest) (length rest)"
proof (cases gs)
  case Nil
  then show ?thesis by (simp add: ends_field_def)
next
  case (Cons g hs)
  obtain wt val ps where p: "fv_parts (w g) t = (wt, val) # ps"
    using assms(1) Cons by (cases "fv_parts (w g) t") auto
  have "fv_tag (w g) t - k \<noteq> 0" using assms(2) Cons by auto
  then show ?thesis
    unfolding Cons runs_bytes [of w g t, OF p] using hd_varint_key [of "fv_tag (w g) t - k" wt] by (simp add: ends_field_def)
qed

definition tags_after :: "u32 option \<Rightarrow> u32 \<Rightarrow> (('s, 'r) message_field \<Rightarrow> 's field_view) \<Rightarrow> 's \<Rightarrow>
    ('s, 'r) message_field list \<Rightarrow> bool" where
  "tags_after prev k w t gs \<longleftrightarrow> (prev = None \<and> k = 0 \<or> prev = Some k \<and> (\<forall>g \<in> set gs. k < fv_tag (w g) t)) \<and>
     sorted_wrt (\<lambda>f g. fv_tag (w f) t < fv_tag (w g) t) gs"

lemma tags_after_Cons:
  "tags_after prev k w t (g # gs) \<Longrightarrow>
    tags_after (Some (fv_tag (w g) t)) (fv_tag (w g) t) w t gs \<and> prev \<noteq> Some (fv_tag (w g) t) \<and>
    k \<le> fv_tag (w g) t \<and> (\<forall>h \<in> set gs. fv_tag (w g) t < fv_tag (w h) t)"
  by (auto simp: tags_after_def)

lemma own_tags_distinct: "own_tags tags fs \<Longrightarrow> distinct fs"
proof (induction fs)
  case (Cons f fs)
  then show ?case by (cases "tags f") (auto simp: own_tags_Cons disjoint_iff dest!: bspec [of _ _ f])
qed simp

context derived_message
begin

abbreviation "msg \<equiv> derive_message rops init fs"

lemma same_refl: "f \<in> set fs \<Longrightarrow> fv_same (w f) s s"
  using member_contract.same_equiv [OF member] by (simp add: equivp_reflp)

lemma same_sym: "f \<in> set fs \<Longrightarrow> fv_same (w f) s t \<Longrightarrow> fv_same (w f) t s"
  using member_contract.same_equiv [OF member] by (blast dest: equivp_symp)

lemma same_trans: "f \<in> set fs \<Longrightarrow> fv_same (w f) s t \<Longrightarrow> fv_same (w f) t u \<Longrightarrow> fv_same (w f) s u"
  using member_contract.same_equiv [OF member] by (blast dest: equivp_transp)

lemma same_blank_iff: "f \<in> set fs \<Longrightarrow> fv_same (w f) s t \<Longrightarrow> blank (w f) s \<longleftrightarrow> blank (w f) t"
  using member_contract.same_cong [OF member] by (auto simp: blank_def)

text \<open>After a field is decoded, it and those before it agree with the struct that is restored.\<close>

lemma restore_step:
  assumes "\<forall>h \<in> set fs. if h \<in> set (g # gs) then blank (w h) s else fv_same (w h) s t" and "g \<notin> set gs"
    and "fv_same (w g) s1 t" and "\<And>h. h \<in> set fs \<Longrightarrow> h \<noteq> g \<Longrightarrow> fv_same (w h) s1 s"
  shows "\<forall>h \<in> set fs. if h \<in> set gs then blank (w h) s1 else fv_same (w h) s1 t"
proof
  fix h assume h: "h \<in> set fs"
  show "if h \<in> set gs then blank (w h) s1 else fv_same (w h) s1 t"
  proof (cases "h = g")
    case True
    then show ?thesis using assms(2,3) by simp
  next
    case False
    then show ?thesis
      using bspec [OF assms(1) h] h same_blank_iff [OF h assms(4)] same_trans [OF h assms(4)] by auto
  qed
qed

text \<open>Decoding the runs that are left restores the struct they come from.\<close>

lemma merge_loop_complete:
  assumes "set gs \<subseteq> set fs" and "\<forall>g \<in> set gs. fv_parts (w g) t \<noteq> []" and "\<forall>f \<in> set fs. fv_valid (w f) t"
    and "\<forall>f \<in> set fs. fv_depth (w f) t \<le> unat (recurse_count ctx)"
    and "tags_after prev k w t gs"
    and "\<forall>f \<in> set fs. if f \<in> set gs then blank (w f) s else fv_same (w f) s t"
    and "length gs < fuel"
  shows "merge_loop msg fuel \<lparr>tr_last_tag = k\<rparr> prev s
      \<lparr>cap_buf = fields_bytes k (concat (map (field_run w t) gs)) @ rest, cap_extra = length rest\<rparr> ctx =
    Done (t, \<lparr>cap_buf = rest, cap_extra = length rest\<rparr>)"
  using assms
proof (induction gs arbitrary: k prev s fuel)
  case Nil
  then have "s = t" by (intro extensional) simp
  then show ?case using Nil.prems(7) by (cases fuel) simp_all
next
  case (Cons g gs)
  let ?t = "fv_tag (w g) t"
  obtain f where f: "fuel = Suc f" using Cons.prems(7) by (cases fuel) auto
  have g: "g \<in> set fs" "fv_valid (w g) t" "blank (w g) s" "fv_parts (w g) t \<noteq> []"
    using Cons.prems by auto
  obtain wt val ps where p: "fv_parts (w g) t = (wt, val) # ps"
    using g(4) by (cases "fv_parts (w g) t") auto
  note after = tags_after_Cons [OF Cons.prems(5)]
  let ?rest = "fields_bytes ?t (concat (map (field_run w t) gs)) @ rest"
  have "ends_field ?rest (length rest)"
    using Cons.prems(2) after by (intro runs_end) auto
  then obtain s1 where s1: "mf_decode g ?t wt False s \<lparr>cap_buf = val @ run_bytes ps @ ?rest, cap_extra = length rest\<rparr> ctx =
      Done (s1, \<lparr>cap_buf = ?rest, cap_extra = length rest\<rparr>)" "fv_same (w g) s1 t"
    using member_contract.decode [OF member [OF g(1)] g(3,2) _ p] Cons.prems(4) g(1) by blast
  have "field_of_tag fs ?t = Some g"
    using member_contract.tag_in [OF member [OF g(1)] g(2,4)] g(1) by (intro field_of_tag_eq)
  then have dec: "rm_decode_field msg ?t wt False s
      \<lparr>cap_buf = val @ run_bytes ps @ ?rest, cap_extra = length rest\<rparr> ctx =
      Done (s1, \<lparr>cap_buf = ?rest, cap_extra = length rest\<rparr>)"
    using s1(1) by (simp add: derive_message_def derived_decode_field_def)
  have key: "decode_key slice_ops \<lparr>tr_last_tag = k\<rparr>
      \<lparr>cap_buf = varint_bytes (key_of (?t - k) wt) @ val @ run_bytes ps @ ?rest, cap_extra = length rest\<rparr> =
      Done (?t, wt, \<lparr>tr_last_tag = ?t\<rparr>, \<lparr>cap_buf = val @ run_bytes ps @ ?rest, cap_extra = length rest\<rparr>)"
    using after by (simp add: decode_key_Done)
  have dist: "g \<notin> set gs" using after by auto
  have "merge_loop msg f \<lparr>tr_last_tag = ?t\<rparr> (Some ?t) s1 \<lparr>cap_buf = ?rest, cap_extra = length rest\<rparr> ctx =
      Done (t, \<lparr>cap_buf = rest, cap_extra = length rest\<rparr>)"
  proof (rule Cons.IH)
    show "\<forall>h \<in> set fs. if h \<in> set gs then blank (w h) s1 else fv_same (w h) s1 t"
      by (rule restore_step [OF Cons.prems(6) dist s1(2)]) (use decode_frame [OF g(1) _ _ s1(1)] in auto)
  qed (use Cons.prems after f in auto)
  moreover have "prev \<noteq> Some ?t" using after by simp
  ultimately show ?case
    unfolding runs_bytes [of w g t, OF p] f using key dec by (simp add: Let_def)
qed

lemma present_after:
  assumes "\<forall>f \<in> set fs. fv_valid (w f) t"
  shows "tags_after None 0 w t (present w fs t)"
proof -
  let ?P = "filter (\<lambda>f. fv_parts (w f) t \<noteq> []) fs"
  have "distinct fs"
    using own by (rule own_tags_distinct)
  then have "distinct (map (\<lambda>f. fv_tag (w f) t) ?P)"
    using present_inj [OF assms] by (simp add: distinct_map)
  then have "distinct (map (\<lambda>f. fv_tag (w f) t) (present w fs t))"
    unfolding present_def by (metis (no_types, lifting) mset_eq_imp_distinct_iff mset_map mset_sort)
  moreover have "sorted (map (\<lambda>f. fv_tag (w f) t) (present w fs t))" by (simp add: present_def)
  ultimately have "sorted_wrt (<) (map (\<lambda>f. fv_tag (w f) t) (present w fs t))"
    by (simp add: strict_sorted_iff)
  then show ?thesis by (simp add: tags_after_def sorted_wrt_map)
qed

lemma merge_body_eq:
  assumes v: "struct_valid w fs t" and d: "struct_depth w fs t \<le> unat (recurse_count ctx)"
  shows "merge msg init \<lparr>cap_buf = struct_body w fs t @ rest, cap_extra = length rest\<rparr> ctx =
    Done (t, \<lparr>cap_buf = rest, cap_extra = length rest\<rparr>)"
  unfolding merge_def struct_body_def struct_parts_def tag_reader_new_def capped.simps
proof (rule merge_loop_complete)
  have valid: "\<forall>f \<in> set fs. fv_valid (w f) t" using v by (simp add: struct_valid_def)
  show "tags_after None 0 w t (present w fs t)" by (rule present_after [OF valid])
  show "\<forall>f \<in> set fs. if f \<in> set (present w fs t) then blank (w f) init else fv_same (w f) init t"
    using init_blank valid member_contract.same_blank [OF member]
    by (auto simp: present_def blank_def)
  show "length (present w fs t) <
      length (fields_bytes 0 (concat (map (field_run w t) (present w fs t))) @ rest) + 1"
    using runs_length [of "present w fs t" w t 0] by (simp add: present_def)
qed (use v d in \<open>auto simp: present_def struct_valid_def struct_depth_le\<close>)

end

section \<open>A derived message keeps the contract of messages\<close>

context derived_message
begin

lemma all_blank_iff:
  assumes "\<forall>f \<in> set fs. fv_valid (w f) s"
  shows "(\<forall>f \<in> set fs. fv_parts (w f) s = []) \<longleftrightarrow> s = init"
proof
  assume b: "\<forall>f \<in> set fs. fv_parts (w f) s = []"
  show "s = init"
  proof (rule extensional)
    fix f assume f: "f \<in> set fs"
    then show "fv_same (w f) s init"
      using assms b init_blank [OF f] member_contract.same_blank [OF member [OF f]] by (simp add: blank_def)
  qed
next
  assume "s = init"
  then show "\<forall>f \<in> set fs. fv_parts (w f) s = []" using init_blank by (simp add: blank_def)
qed

lemma struct_body_Nil: "struct_valid w fs s \<Longrightarrow> struct_body w fs s = [] \<longleftrightarrow> s = init"
proof -
  assume v: "struct_valid w fs s"
  have "struct_body w fs s = [] \<longleftrightarrow> present w fs s = []"
    using runs_length [of "present w fs s" w s 0]
    by (auto simp: struct_body_def struct_parts_def present_def)
  also have "\<dots> \<longleftrightarrow> (\<forall>f \<in> set fs. fv_parts (w f) s = [])"
    by (auto simp: present_def filter_empty_conv dest: arg_cong [where f = set])
  also have "\<dots> \<longleftrightarrow> s = init" using v all_blank_iff by (simp add: struct_valid_def)
  finally show ?thesis .
qed

lemma init_valid: "struct_valid w fs init"
proof -
  have "present w fs init = []" using init_blank by (auto simp: present_def blank_def filter_empty_conv)
  then show ?thesis
    using init_blank by (simp add: struct_valid_def struct_body_def struct_parts_def blank_def)
qed

lemma clear_blank:
  assumes "f \<in> set fs" and "g \<in> set fs" and "fv_valid (w g) s" and "f = g \<or> blank (w g) s"
  shows "blank (w g) (mf_clear f s)"
proof (cases "f = g")
  case True
  then show ?thesis using assms member_contract.clear [OF member] by simp
next
  case False
  then have "fv_same (w g) (mf_clear f s) s" using assms by (intro clear_frame)
  then show ?thesis using assms False same_blank_iff by simp
qed

lemma clear_valid:
  assumes "f \<in> set fs" and "g \<in> set fs" and "fv_valid (w g) s"
  shows "fv_valid (w g) (mf_clear f s)"
proof (cases "f = g")
  case True
  then show ?thesis using assms clear_blank by (simp add: blank_def)
next
  case False
  then have "fv_same (w g) (mf_clear f s) s" using assms by (intro clear_frame)
  then show ?thesis using assms member_contract.same_cong [OF member] by blast
qed

lemma fold_clear_blank:
  "set gs \<subseteq> set fs \<Longrightarrow> \<forall>f \<in> set fs. fv_valid (w f) s \<Longrightarrow> f \<in> set fs \<Longrightarrow> f \<in> set gs \<or> blank (w f) s \<Longrightarrow>
   blank (w f) (fold mf_clear gs s)"
proof (induction gs arbitrary: s)
  case (Cons g gs)
  have "blank (w f) (fold mf_clear gs (mf_clear g s))"
    using Cons.prems clear_valid clear_blank [of g f s] by (intro Cons.IH) auto
  then show ?case by simp
qed simp

lemma fold_clear: "\<forall>f \<in> set fs. fv_valid (w f) s \<Longrightarrow> fold mf_clear fs s = init"
  using fold_clear_blank [of fs s] all_blank_iff [of "fold mf_clear fs s"] by (simp add: blank_def)

lemma skip_frame:
  "skip_field slice_ops wt cp = Done cp' \<Longrightarrow> cap_extra cp' = cap_extra cp \<and> (\<exists>p. cap_buf cp = p @ cap_buf cp')"
  using skip_loop_sound unfolding skip_field_def by blast

lemma skip_no_panic: "skip_field slice_ops wt cp \<noteq> Panic"
  unfolding skip_field_def by (rule skip_loop_not_Panic) simp

lemma derived_field_frame:
  "derived_decode_field fs tag wt dup s cp ctx = Done (s', cp') \<Longrightarrow>
   cap_extra cp' = cap_extra cp \<and> (\<exists>p. cap_buf cp = p @ cap_buf cp')"
  using member_contract.decode_frame [OF member] skip_frame
  by (cases "field_of_tag fs tag") (auto simp: derived_decode_field_def dest: field_of_tag_Some)

lemma derived_field_no_panic: "derived_decode_field fs tag wt dup s cp ctx \<noteq> Panic"
  using member_contract.decode_no_panic [OF member] field_of_tag_Some [of tag]
  by (cases "field_of_tag fs tag") (auto simp: derived_decode_field_def obind_Panic_iff skip_no_panic)

lemma derived_message_laws:
  "message_contract rops rcontents rinv msg (struct_body w fs) (struct_valid w fs) (struct_depth w fs)"
proof unfold_locales
  show "struct_valid w fs (rm_empty msg)" by (simp add: derive_message_def init_valid)
  fix s s0 buf ctx rest tag wt dup cp cp'
  show "rm_decode_field msg tag wt dup s cp ctx = Done (s', cp') \<Longrightarrow>
      cap_extra cp' = cap_extra cp \<and> (\<exists>p. cap_buf cp = p @ cap_buf cp')" for s'
    using derived_field_frame by (simp add: derive_message_def)
  show "rm_decode_field msg tag wt dup s cp ctx \<noteq> Panic"
    by (simp add: derive_message_def derived_field_no_panic)
  assume v: "struct_valid w fs s"
  then have valid: "\<forall>f \<in> set fs. fv_valid (w f) s" by (simp add: struct_valid_def)
  show "rm_is_empty msg s \<longleftrightarrow> s = rm_empty msg"
    using all_blank_iff [OF valid] valid member_contract.is_empty [OF member]
    by (simp add: derive_message_def list_all_iff)
  show "rm_clear msg s = rm_empty msg" by (simp add: derive_message_def fold_clear [OF valid])
  show "struct_body w fs s = [] \<longleftrightarrow> s = rm_empty msg"
    using struct_body_Nil [OF v] by (simp add: derive_message_def)
  show "length (struct_body w fs s) < 2 ^ 64" using v by (simp add: struct_valid_def)
  show "rm_encode msg s buf = Some (buf @ struct_body w fs s)"
    using derived_encode_eq [OF v] by (simp add: derive_message_def)
  show "prepends (struct_body w fs s) (rm_prepend msg s)"
    using derived_prepend_eq [OF v] by (simp add: derive_message_def)
  show "rm_len msg s = Some (length (struct_body w fs s))"
    using derived_len_eq [OF v] by (simp add: derive_message_def)
  show "struct_depth w fs s \<le> unat (recurse_count ctx) \<Longrightarrow>
      merge msg (rm_empty msg) \<lparr>cap_buf = struct_body w fs s @ rest, cap_extra = length rest\<rparr> ctx =
        Done (s, \<lparr>cap_buf = rest, cap_extra = length rest\<rparr>)"
    using merge_body_eq [OF v] by (simp add: derive_message_def)
qed

end

section \<open>Distinguished decoding of a struct\<close>

text \<open>A value field is blank while its tag is still to come.\<close>

definition to_come :: "u32 option \<Rightarrow> ('s, 'r) message_field list \<Rightarrow> (('s, 'r) message_field \<Rightarrow> 's field_view) \<Rightarrow> 's \<Rightarrow> bool" where
  "to_come prev fs w s \<longleftrightarrow> (\<forall>f \<in> set fs. mf_current f = None \<longrightarrow>
     (\<forall>t \<in> set (mf_tags f). case prev of None \<Rightarrow> True | Some k \<Rightarrow> k < t) \<longrightarrow> blank (w f) s)"

definition reader_at :: "u32 \<Rightarrow> u32 option \<Rightarrow> bool" where
  "reader_at k prev \<longleftrightarrow> (case prev of None \<Rightarrow> k = 0 | Some l \<Rightarrow> l = k)"

lemma reader_at_simps [simp]: "reader_at k (Some l) \<longleftrightarrow> l = k" "reader_at 0 None"
  by (simp_all add: reader_at_def)

lemma to_come_later: "to_come prev fs w s \<Longrightarrow> reader_at k prev \<Longrightarrow> k \<le> tag \<Longrightarrow> to_come (Some tag) fs w s"
  by (fastforce simp: to_come_def reader_at_def split: option.splits)

context distinguished_derived_message
begin

lemma to_come_ready:
  assumes "to_come prev fs w s" and "reader_at k prev" and "k \<le> tag" and "f \<in> set fs" and "tag \<in> set (mf_tags f)"
  shows "ready f (w f) (prev = Some tag) s"
proof (cases "mf_current f = None \<and> prev \<noteq> Some tag")
  case True
  then have "set (mf_tags f) = {tag}"
    using member_contract.one_tag [OF member [OF assms(4)]] assms(5) by (auto simp: length_Suc_conv)
  then have "blank (w f) s"
    using assms True by (auto simp: to_come_def reader_at_def split: option.splits)
  then show ?thesis by (simp add: ready_def)
qed (auto simp: ready_def)

lemma dist_field_relaxed:
  assumes c: "to_come prev fs w s" "reader_at k prev" "k \<le> tag"
    and d: "rm_decode_field_dist msg tag wt (prev = Some tag) s cp ctx = Done (s', c, cp')"
  shows "rm_decode_field msg tag wt (prev = Some tag) s cp (into_inner ctx) = Done (s', cp') \<and>
    rc_min_canonicity ctx \<le> c \<and> to_come (Some tag) fs w s' \<and>
    (case field_of_tag fs tag of
       None \<Rightarrow> c \<noteq> Canonical \<and> s' = s
     | Some f \<Rightarrow> mf_decode_dist f tag wt (prev = Some tag) s cp ctx = Done (s', c, cp') \<and>
         ready f (w f) (prev = Some tag) s \<and> blank (w f) s \<and> (\<forall>g \<in> set fs. g \<noteq> f \<longrightarrow> fv_same (w g) s' s))"
proof (cases "field_of_tag fs tag")
  case None
  then show ?thesis
    using d to_come_later [OF c]
    by (auto simp: derive_message_def derived_decode_field_dist_def derived_decode_field_def canonicity_update_def
        min_def)
next
  case (Some f)
  then have f: "f \<in> set fs" "tag \<in> set (mf_tags f)" using field_of_tag_Some by blast+
  have "canonicity_update Canonical x = x" for x by (cases x) (simp_all add: canonicity_update_def min_def less_eq_canonicity_def)
  then have e: "mf_decode_dist f tag wt (prev = Some tag) s cp ctx = Done (s', c, cp')"
    using d Some by (auto simp: derive_message_def derived_decode_field_dist_def)
  note r = to_come_ready [OF c f]
  note 1 = distinguished_member_contract.dist_relaxed [OF dist_member [OF f(1)] r e]
  have same: "fv_same (w g) s' s" if "g \<in> set fs" "g \<noteq> f" for g
    using decode_frame [OF f(1) that(1)] that(2) 1 by blast
  have "to_come (Some tag) fs w s'"
    unfolding to_come_def
  proof (intro ballI impI)
    fix g
    assume g: "g \<in> set fs" "mf_current g = None" "\<forall>t \<in> set (mf_tags g). case Some tag of None \<Rightarrow> True | Some k \<Rightarrow> k < t"
    then have "g \<noteq> f" using f(2) by auto
    moreover have "blank (w g) s" using to_come_later [OF c] g by (simp add: to_come_def)
    ultimately show "blank (w g) s'" using same g(1) same_blank_iff by blast
  qed
  then show ?thesis
    using 1 e r same Some by (simp add: derive_message_def derived_decode_field_def)
qed

lemma dist_field_no_panic:
  assumes "to_come prev fs w s" and "reader_at k prev" and "k \<le> tag"
  shows "rm_decode_field_dist msg tag wt (prev = Some tag) s cp ctx \<noteq> Panic"
  using to_come_ready [OF assms] field_of_tag_Some [of tag]
    distinguished_member_contract.dist_no_panic [OF dist_member]
  by (cases "field_of_tag fs tag")
    (auto simp: derive_message_def derived_decode_field_dist_def obind_Panic_iff skip_no_panic)

lemma merge_dist_loop_relaxed:
  "merge_dist_loop msg fuel \<lparr>tr_last_tag = k\<rparr> prev s canon cp ctx = Done (v, c, cp') \<Longrightarrow>
   to_come prev fs w s \<Longrightarrow> reader_at k prev \<Longrightarrow> rc_min_canonicity ctx \<le> canon \<Longrightarrow>
   merge_loop msg fuel \<lparr>tr_last_tag = k\<rparr> prev s cp (into_inner ctx) = Done (v, cp') \<and>
   rc_min_canonicity ctx \<le> c \<and> c \<le> canon"
proof (induction fuel arbitrary: k prev s canon cp)
  case (Suc fuel)
  show ?case
  proof (cases "length (cap_buf cp) = cap_extra cp")
    case True
    then show ?thesis using Suc.prems by simp
  next
    case False
    then obtain tag wt cp1 s1 c1 cp2 where 1: "decode_key slice_ops \<lparr>tr_last_tag = k\<rparr> cp =
        Done (tag, wt, \<lparr>tr_last_tag = tag\<rparr>, cp1)" "k \<le> tag"
      "rm_decode_field_dist msg tag wt (prev = Some tag) s cp1 ctx = Done (s1, c1, cp2)"
      "merge_dist_loop msg fuel \<lparr>tr_last_tag = tag\<rparr> (Some tag) s1 (canonicity_update canon c1) cp2 ctx = Done (v, c, cp')"
      using Suc.prems(1) by (auto simp: Let_def decode_key_Done split: if_splits)
    note step = dist_field_relaxed [OF Suc.prems(2,3) 1(2,3)]
    have "merge_loop msg fuel \<lparr>tr_last_tag = tag\<rparr> (Some tag) s1 cp2 (into_inner ctx) = Done (v, cp') \<and>
        rc_min_canonicity ctx \<le> c \<and> c \<le> canonicity_update canon c1"
      using step Suc.prems(4) by (intro Suc.IH [OF 1(4)]) (simp_all add: canonicity_update_def)
    then show ?thesis
      using step 1(1) False Suc.prems(1) by (auto simp: Let_def canonicity_update_def split: if_splits)
  qed
qed simp

lemma merge_dist_loop_not_Panic:
  "length (cap_buf cp) < fuel \<Longrightarrow> to_come prev fs w s \<Longrightarrow> reader_at k prev \<Longrightarrow>
   merge_dist_loop msg fuel \<lparr>tr_last_tag = k\<rparr> prev s canon cp ctx \<noteq> Panic"
proof (induction fuel arbitrary: k prev s canon cp)
  case (Suc fuel)
  have step: "merge_dist_loop msg fuel \<lparr>tr_last_tag = tag\<rparr> (Some tag) s1 (canonicity_update canon c1) cp2 ctx \<noteq> Panic"
    if 1: "decode_key slice_ops \<lparr>tr_last_tag = k\<rparr> cp = Done (tag, wt, tr, cp1)"
      and 2: "rm_decode_field_dist msg tag wt (prev = Some tag) s cp1 ctx = Done (s1, c1, cp2)"
    for tag wt tr cp1 s1 c1 cp2
  proof (rule Suc.IH)
    have "k \<le> tag" "length (cap_buf cp1) < length (cap_buf cp)" using 1 by (auto simp: decode_key_Done)
    note step = dist_field_relaxed [OF Suc.prems(2,3) this(1) 2]
    then show "to_come (Some tag) fs w s1" by blast
    obtain p where "cap_buf cp1 = p @ cap_buf cp2"
      using derived_field_frame step by (fastforce simp: derive_message_def)
    then show "length (cap_buf cp2) < fuel"
      using Suc.prems(1) \<open>length (cap_buf cp1) < length (cap_buf cp)\<close> by simp
  qed simp
  have tr: "tr = \<lparr>tr_last_tag = tag\<rparr> \<and> k \<le> tag"
    if "decode_key slice_ops \<lparr>tr_last_tag = k\<rparr> cp = Done (tag, wt, tr, cp1)" for tag wt tr cp1
    using that by (auto simp: decode_key_Done)
  show ?case
    using step dist_field_no_panic [OF Suc.prems(2,3)] tr
    by (auto simp: obind_Panic_iff Let_def)
qed simp

text \<open>A canonical message restores to a struct with exactly its bytes.\<close>

definition unfinished :: "u32 option \<Rightarrow> 's \<Rightarrow> bool" where
  "unfinished prev s \<longleftrightarrow> (\<forall>f \<in> set fs. \<forall>k \<in> set (mf_tags f). prev = Some k \<longrightarrow> \<not> blank (w f) s)"

lemma merge_dist_loop_canonical:
  "merge_dist_loop msg fuel \<lparr>tr_last_tag = k\<rparr> prev s canon cp ctx = Done (v, Canonical, cp') \<Longrightarrow>
   to_come prev fs w s \<Longrightarrow> reader_at k prev \<Longrightarrow> unfinished prev s \<Longrightarrow> length (cap_buf cp) < 2 ^ 64 \<Longrightarrow>
   rc_min_canonicity ctx \<le> canon \<Longrightarrow>
   \<exists>gs. set gs \<subseteq> set fs \<and> sorted_wrt (\<lambda>f g. fv_tag (w f) v < fv_tag (w g) v) gs \<and>
     (\<forall>g \<in> set gs. fv_valid (w g) v \<and> fv_parts (w g) v \<noteq> [] \<and> blank (w g) s \<and>
        (prev \<noteq> None \<longrightarrow> k < fv_tag (w g) v)) \<and>
     (\<forall>f \<in> set fs - set gs. fv_same (w f) v s) \<and>
     cap_buf cp = fields_bytes k (concat (map (field_run w v) gs)) @ cap_buf cp'"
proof (induction fuel arbitrary: k prev s canon cp)
  case (Suc fuel)
  show ?case
  proof (cases "length (cap_buf cp) = cap_extra cp")
    case True
    then show ?thesis using Suc.prems same_refl by (intro exI [of _ "[]"]) simp
  next
    case False
    then obtain tag wt cp1 s1 c1 cp2 where 1: "k \<le> tag" "cap_buf cp = varint_bytes (key_of (tag - k) wt) @ cap_buf cp1"
      "rm_decode_field_dist msg tag wt (prev = Some tag) s cp1 ctx = Done (s1, c1, cp2)"
      "merge_dist_loop msg fuel \<lparr>tr_last_tag = tag\<rparr> (Some tag) s1 (canonicity_update canon c1) cp2 ctx =
        Done (v, Canonical, cp')"
      using Suc.prems(1) by (auto simp: Let_def decode_key_Done split: if_splits)
    note step = dist_field_relaxed [OF Suc.prems(2,3) 1(1,3)]
    have "Canonical \<le> canonicity_update canon c1"
      using merge_dist_loop_relaxed [OF 1(4)] step Suc.prems(6) by (simp add: canonicity_update_def)
    then have c1: "c1 = Canonical"
      by (cases c1; cases canon) (simp_all add: canonicity_update_def less_eq_canonicity_def min_def)
    then obtain f where f: "field_of_tag fs tag = Some f" using step by (cases "field_of_tag fs tag") auto
    then have fin: "f \<in> set fs" "tag \<in> set (mf_tags f)" using field_of_tag_Some by blast+
    have d: "mf_decode_dist f tag wt (prev = Some tag) s cp1 ctx = Done (s1, Canonical, cp2)"
      "ready f (w f) (prev = Some tag) s" "blank (w f) s" "\<forall>g \<in> set fs. g \<noteq> f \<longrightarrow> fv_same (w g) s1 s"
      using step f c1 by simp_all
    have "length (cap_buf cp1) < 2 ^ 64" using Suc.prems(5) 1(2) by simp
    then obtain val ps where p: "fv_valid (w f) s1" "fv_tag (w f) s1 = tag" "fv_parts (w f) s1 = (wt, val) # ps"
      "cap_buf cp1 = val @ run_bytes ps @ cap_buf cp2"
      using distinguished_member_contract.dist_canonical [OF dist_member [OF fin(1)] d(2) fin(2) d(1)] by blast
    have unf: "unfinished (Some tag) s1"
      unfolding unfinished_def
    proof (intro ballI impI notI)
      fix g l
      assume g: "g \<in> set fs" "l \<in> set (mf_tags g)" "Some tag = Some l" "blank (w g) s1"
      then have "g = f" using tags_unique [OF g(1) fin(1) _ fin(2)] by simp
      then show False using g(4) p(3) by (simp add: blank_def)
    qed
    moreover have "length (cap_buf cp2) < 2 ^ 64" "rc_min_canonicity ctx \<le> canonicity_update canon c1"
      using Suc.prems(5,6) 1(2) p(4) step by (simp_all add: canonicity_update_def)
    moreover have "to_come (Some tag) fs w s1" using step by blast
    ultimately have "\<exists>gs. set gs \<subseteq> set fs \<and> sorted_wrt (\<lambda>f g. fv_tag (w f) v < fv_tag (w g) v) gs \<and>
      (\<forall>g \<in> set gs. fv_valid (w g) v \<and> fv_parts (w g) v \<noteq> [] \<and> blank (w g) s1 \<and>
        (Some tag \<noteq> None \<longrightarrow> tag < fv_tag (w g) v)) \<and>
      (\<forall>f \<in> set fs - set gs. fv_same (w f) v s1) \<and>
      cap_buf cp2 = fields_bytes tag (concat (map (field_run w v) gs)) @ cap_buf cp'"
      by (intro Suc.IH [OF 1(4)]) simp_all
    then obtain gs where gs: "set gs \<subseteq> set fs" "sorted_wrt (\<lambda>f g. fv_tag (w f) v < fv_tag (w g) v) gs"
      "\<forall>g \<in> set gs. fv_valid (w g) v \<and> fv_parts (w g) v \<noteq> [] \<and> blank (w g) s1 \<and> tag < fv_tag (w g) v"
      "\<forall>f \<in> set fs - set gs. fv_same (w f) v s1"
      "cap_buf cp2 = fields_bytes tag (concat (map (field_run w v) gs)) @ cap_buf cp'"
      by blast
    have "f \<notin> set gs" using gs(3) p(3) by (auto simp: blank_def)
    then have same: "fv_same (w f) v s1" using gs(4) fin(1) by blast
    then have fv: "fv_valid (w f) v" "fv_tag (w f) v = tag" "fv_parts (w f) v = (wt, val) # ps"
      using member_contract.same_cong [OF member [OF fin(1)] same] p by simp_all
    have later: "prev \<noteq> None \<longrightarrow> k < tag"
      using Suc.prems(3,4) d(3) fin 1(1) by (auto simp: unfinished_def reader_at_def order.strict_iff_order)
    have blank_s: "blank (w g) s" if "g \<in> set gs" for g
    proof -
      have "g \<in> set fs" "g \<noteq> f" using that gs(1) \<open>f \<notin> set gs\<close> by auto
      then show ?thesis using bspec [OF gs(3) that] bspec [OF d(4)] same_blank_iff [of g s1 s] by simp
    qed
    have others: "fv_same (w g) v s" if "g \<in> set fs" "g \<notin> set (f # gs)" for g
    proof (rule same_trans [OF that(1)])
      show "fv_same (w g) v s1" using bspec [OF gs(4), of g] that by simp
      show "fv_same (w g) s1 s" using bspec [OF d(4) that(1)] that(2) by simp
    qed
    show ?thesis
    proof (intro exI [of _ "f # gs"] conjI)
      show "cap_buf cp = fields_bytes k (concat (map (field_run w v) (f # gs))) @ cap_buf cp'"
        unfolding runs_bytes [of w f v, OF fv(3)] fv(2) 1(2) p(4) gs(5) by simp
      show "\<forall>g \<in> set (f # gs). fv_valid (w g) v \<and> fv_parts (w g) v \<noteq> [] \<and> blank (w g) s \<and>
          (prev \<noteq> None \<longrightarrow> k < fv_tag (w g) v)"
      proof
        fix g assume "g \<in> set (f # gs)"
        then consider "g = f" | "g \<in> set gs" by auto
        then show "fv_valid (w g) v \<and> fv_parts (w g) v \<noteq> [] \<and> blank (w g) s \<and> (prev \<noteq> None \<longrightarrow> k < fv_tag (w g) v)"
        proof cases
          case 1
          then show ?thesis using fv later d(3) by simp
        next
          case 2
          then show ?thesis using bspec [OF gs(3) 2] blank_s [OF 2] \<open>k \<le> tag\<close> by auto
        qed
      qed
      show "\<forall>g \<in> set fs - set (f # gs). fv_same (w g) v s" using others by blast
    qed (use fin gs fv in auto)
  qed
qed simp

lemma present_eq:
  assumes "\<forall>f \<in> set fs. fv_valid (w f) v" and "set gs \<subseteq> set fs" and "\<forall>g \<in> set gs. fv_parts (w g) v \<noteq> []"
    and "\<forall>f \<in> set fs - set gs. fv_parts (w f) v = []" and "sorted_wrt (\<lambda>f g. fv_tag (w f) v < fv_tag (w g) v) gs"
  shows "present w fs v = gs"
  unfolding present_def
proof (rule sort_key_inj_key_eq)
  have "distinct gs" using assms(5) by (induction gs) auto
  moreover have "distinct (filter (\<lambda>f. fv_parts (w f) v \<noteq> []) fs)" using own_tags_distinct [OF own] by simp
  moreover have "set (filter (\<lambda>f. fv_parts (w f) v \<noteq> []) fs) = set gs" using assms(2-4) by auto
  ultimately show "mset (filter (\<lambda>f. fv_parts (w f) v \<noteq> []) fs) = mset gs"
    using set_eq_iff_mset_eq_distinct by blast
  show "sorted (map (\<lambda>f. fv_tag (w f) v) gs)"
    unfolding sorted_map by (rule sorted_wrt_mono_rel [OF _ assms(5)]) simp
qed (rule present_inj [OF assms(1)])

lemma merge_dist_canonical:
  assumes "merge_distinguished msg init cp ctx = Done (v, Canonical, cp')" and "length (cap_buf cp) < 2 ^ 64"
  shows "cap_buf cp = struct_body w fs v @ cap_buf cp' \<and> struct_valid w fs v"
proof -
  have "to_come None fs w init" using init_blank by (simp add: to_come_def)
  from merge_dist_loop_canonical [OF assms(1) [unfolded merge_distinguished_def tag_reader_new_def] this _ _ assms(2)]
  obtain gs where gs: "set gs \<subseteq> set fs" "sorted_wrt (\<lambda>f g. fv_tag (w f) v < fv_tag (w g) v) gs"
    "\<forall>g \<in> set gs. fv_valid (w g) v \<and> fv_parts (w g) v \<noteq> []" "\<forall>f \<in> set fs - set gs. fv_same (w f) v init"
    "cap_buf cp = fields_bytes 0 (concat (map (field_run w v) gs)) @ cap_buf cp'"
    by (auto simp: unfinished_def)
  have b: "blank (w f) v" if "f \<in> set fs - set gs" for f
    using that gs(4) init_blank same_blank_iff by blast
  have valid: "\<forall>f \<in> set fs. fv_valid (w f) v"
  proof
    fix f assume "f \<in> set fs"
    then show "fv_valid (w f) v" using b [of f] gs(3) by (cases "f \<in> set gs") (auto simp: blank_def)
  qed
  have "present w fs v = gs" using valid gs b by (intro present_eq) (auto simp: blank_def)
  then show ?thesis using gs(5) valid assms(2) by (simp add: struct_valid_def struct_body_def struct_parts_def)
qed

lemma merge_dist_loop_complete:
  assumes "set gs \<subseteq> set fs" and "\<forall>g \<in> set gs. fv_parts (w g) t \<noteq> []" and "\<forall>f \<in> set fs. fv_valid (w f) t"
    and "\<forall>f \<in> set fs. fv_depth (w f) t \<le> unat (recurse_count (into_inner ctx))"
    and "tags_after prev k w t gs"
    and "\<forall>f \<in> set fs. if f \<in> set gs then blank (w f) s else fv_same (w f) s t"
    and "length gs < fuel" and "to_come prev fs w s" and "reader_at k prev"
  shows "merge_dist_loop msg fuel \<lparr>tr_last_tag = k\<rparr> prev s Canonical
      \<lparr>cap_buf = fields_bytes k (concat (map (field_run w t) gs)) @ rest, cap_extra = length rest\<rparr> ctx =
    Done (t, Canonical, \<lparr>cap_buf = rest, cap_extra = length rest\<rparr>)"
  using assms
proof (induction gs arbitrary: k prev s fuel)
  case Nil
  then have "s = t" by (intro extensional) simp
  then show ?case using Nil.prems(7) by (cases fuel) simp_all
next
  case (Cons g gs)
  let ?t = "fv_tag (w g) t"
  obtain f where f: "fuel = Suc f" using Cons.prems(7) by (cases fuel) auto
  have g: "g \<in> set fs" "fv_valid (w g) t" "blank (w g) s" "fv_parts (w g) t \<noteq> []"
    using Cons.prems by auto
  obtain wt val ps where p: "fv_parts (w g) t = (wt, val) # ps"
    using g(4) by (cases "fv_parts (w g) t") auto
  note after = tags_after_Cons [OF Cons.prems(5)]
  let ?rest = "fields_bytes ?t (concat (map (field_run w t) gs)) @ rest"
  let ?cp = "\<lparr>cap_buf = val @ run_bytes ps @ ?rest, cap_extra = length rest\<rparr>"
  have "ends_field ?rest (length rest)"
    using Cons.prems(2) after by (intro runs_end) auto
  then obtain s1 where s1: "mf_decode_dist g ?t wt False s ?cp ctx =
      Done (s1, Canonical, \<lparr>cap_buf = ?rest, cap_extra = length rest\<rparr>)" "fv_same (w g) s1 t"
    using distinguished_member_contract.dist_complete [OF dist_member [OF g(1)] g(3,2) _ p] Cons.prems(4) g(1)
    by blast
  have owner: "field_of_tag fs ?t = Some g"
    using member_contract.tag_in [OF member [OF g(1)] g(2,4)] g(1) by (intro field_of_tag_eq)
  have new: "(prev = Some ?t) = False" using after by simp
  have dec: "rm_decode_field_dist msg ?t wt (prev = Some ?t) s ?cp ctx =
      Done (s1, Canonical, \<lparr>cap_buf = ?rest, cap_extra = length rest\<rparr>)"
    using s1(1) owner unfolding new
    by (simp add: derive_message_def derived_decode_field_dist_def canonicity_update_def)
  note step = dist_field_relaxed [OF Cons.prems(8,9) _ dec]
  have key: "decode_key slice_ops \<lparr>tr_last_tag = k\<rparr>
      \<lparr>cap_buf = varint_bytes (key_of (?t - k) wt) @ val @ run_bytes ps @ ?rest, cap_extra = length rest\<rparr> =
      Done (?t, wt, \<lparr>tr_last_tag = ?t\<rparr>, ?cp)"
    using after by (simp add: decode_key_Done)
  have "merge_dist_loop msg f \<lparr>tr_last_tag = ?t\<rparr> (Some ?t) s1 Canonical \<lparr>cap_buf = ?rest, cap_extra = length rest\<rparr> ctx =
      Done (t, Canonical, \<lparr>cap_buf = rest, cap_extra = length rest\<rparr>)"
  proof (rule Cons.IH)
    show "\<forall>h \<in> set fs. if h \<in> set gs then blank (w h) s1 else fv_same (w h) s1 t"
      by (rule restore_step [OF Cons.prems(6) _ s1(2)]) (use after step owner in auto)
    show "to_come (Some ?t) fs w s1" using step after by blast
  qed (use Cons.prems after f in auto)
  then show ?case
    unfolding runs_bytes [of w g t, OF p] f using key dec by (simp add: Let_def canonicity_update_def)
qed

lemma merge_dist_body_eq:
  assumes v: "struct_valid w fs t" and d: "struct_depth w fs t \<le> unat (recurse_count (into_inner ctx))"
  shows "merge_distinguished msg init \<lparr>cap_buf = struct_body w fs t @ rest, cap_extra = length rest\<rparr> ctx =
    Done (t, Canonical, \<lparr>cap_buf = rest, cap_extra = length rest\<rparr>)"
  unfolding merge_distinguished_def struct_body_def struct_parts_def tag_reader_new_def capped.simps
proof (rule merge_dist_loop_complete)
  have valid: "\<forall>f \<in> set fs. fv_valid (w f) t" using v by (simp add: struct_valid_def)
  show "tags_after None 0 w t (present w fs t)" by (rule present_after [OF valid])
  show "\<forall>f \<in> set fs. if f \<in> set (present w fs t) then blank (w f) init else fv_same (w f) init t"
    using init_blank valid member_contract.same_blank [OF member]
    by (auto simp: present_def blank_def)
  show "length (present w fs t) <
      length (fields_bytes 0 (concat (map (field_run w t) (present w fs t))) @ rest) + 1"
    using runs_length [of "present w fs t" w t 0] by (simp add: present_def)
  show "to_come None fs w init" using init_blank by (simp add: to_come_def)
qed (use v d in \<open>auto simp: present_def struct_valid_def struct_depth_le\<close>)

lemma distinguished_derived_message_laws:
  "distinguished_message_contract rops rcontents rinv msg (struct_body w fs) (struct_valid w fs) (struct_depth w fs)"
proof (intro distinguished_message_contract.intro derived_message_laws distinguished_message_contract_axioms.intro)
  fix cp ctx v k cp' rest
  have come: "to_come None fs w init" using init_blank by (simp add: to_come_def)
  have init: "rm_empty msg = init" by (simp add: derive_message_def)
  show "merge_distinguished msg (rm_empty msg) cp ctx \<noteq> Panic"
    using merge_dist_loop_not_Panic [of cp "length (cap_buf cp) + 1" None init 0] come
    unfolding init merge_distinguished_def tag_reader_new_def by simp
  show "merge msg (rm_empty msg) cp (into_inner ctx) = Done (v, cp') \<and> rc_min_canonicity ctx \<le> k"
    if "merge_distinguished msg (rm_empty msg) cp ctx = Done (v, k, cp')"
    using merge_dist_loop_relaxed [OF that [unfolded init merge_distinguished_def tag_reader_new_def] come]
    unfolding init merge_def tag_reader_new_def by simp
  show "cap_buf cp = struct_body w fs v @ cap_buf cp' \<and> struct_valid w fs v"
    if "merge_distinguished msg (rm_empty msg) cp ctx = Done (v, Canonical, cp')" "length (cap_buf cp) < 2 ^ 64"
    using merge_dist_canonical that unfolding init by blast
  show "merge_distinguished msg (rm_empty msg) \<lparr>cap_buf = struct_body w fs v @ rest, cap_extra = length rest\<rparr> ctx =
      Done (v, Canonical, \<lparr>cap_buf = rest, cap_extra = length rest\<rparr>)"
    if "struct_valid w fs v" "struct_depth w fs v \<le> unat (recurse_count (into_inner ctx))"
    using merge_dist_body_eq that unfolding init by blast
qed

end

text \<open>What is left to show for a struct of value fields.\<close>

lemma distinguished_struct_laws:
  assumes "rev_buf_contract rops rcontents rinv"
    and "\<And>f. f \<in> set fs \<Longrightarrow> distinguished_member_contract rops rcontents rinv f (w f)"
    and "own_tags mf_tags fs" and "\<And>f. f \<in> set fs \<Longrightarrow> blank (w f) init"
    and "\<And>f g s. f \<in> set fs \<Longrightarrow> g \<in> set fs \<Longrightarrow> f \<noteq> g \<Longrightarrow> fv_same (w g) (mf_clear f s) s"
    and "\<And>f g tag wt dup s cp ctx s' cp'. f \<in> set fs \<Longrightarrow> g \<in> set fs \<Longrightarrow> f \<noteq> g \<Longrightarrow>
      mf_decode f tag wt dup s cp ctx = Done (s', cp') \<Longrightarrow> fv_same (w g) s' s"
    and "\<And>s t. \<forall>f \<in> set fs. fv_same (w f) s t \<Longrightarrow> s = t"
  shows "distinguished_derived_message rops rcontents rinv init fs w"
  using assms
  by (intro distinguished_derived_message.intro derived_message.intro derived_message_axioms.intro
      distinguished_derived_message_axioms.intro)
    (blast intro: distinguished_member_contract.axioms(1))+

lemma value_field_tags [simp]: "mf_tags (value_field tag get put es fc) = [tag]"
  by (simp add: value_field_def)

lemma value_field_decoded:
  "mf_decode (value_field tag get put es fc) t wt dup s cp ctx = Done (s', cp') \<Longrightarrow> \<exists>v. s' = put v s"
  by (auto simp: value_field_Done)

end
