(* ===== verification/Message_Api.thy ===== *)
theory Message_Api
  imports Message_Codec Reverse_Buffer
begin

text \<open>
  The traits of \<^verbatim>\<open>src/src/message.rs\<close> that a program calls, as they are implemented for every \<^verbatim>\<open>RawMessage\<close>:
  encoding into a buffer of limited room, a vector or a prepend buffer, with and without a length
  delimiter, and the relaxed, restricted, distinguished and canonical decoders. On success a decoder returns what
  is left of the buffer with the message; on an error the message in \<open>replace_from\<close> is cleared by the
  code, and the model returns the error alone.
\<close>

section \<open>Encoding\<close>

definition message_new_empty :: "('s, 'r) raw_message \<Rightarrow> 's" where
  "message_new_empty m = rm_empty m"

text \<open>\<open>room\<close> is the \<^verbatim>\<open>remaining_mut\<close> of the buffer.\<close>

definition message_encode ::
    "('s, 'r) raw_message \<Rightarrow> 's \<Rightarrow> nat \<Rightarrow> bytes \<Rightarrow> (bytes, encode_error) result option" where
  "message_encode m s room buf = do {
     required \<leftarrow> rm_len m s;
     if required > room then Some (Err \<lparr>ee_required = required, ee_remaining = room\<rparr>)
     else do {
       buf \<leftarrow> rm_encode m s buf;
       Some (Ok buf)
     }
   }"

definition message_encode_length_delimited ::
    "('s, 'r) raw_message \<Rightarrow> 's \<Rightarrow> nat \<Rightarrow> bytes \<Rightarrow> (bytes, encode_error) result option" where
  "message_encode_length_delimited m s room buf = do {
     len \<leftarrow> rm_len m s;
     let required = len + encoded_len_varint (of_nat len);
     if required > room then Some (Err \<lparr>ee_required = required, ee_remaining = room\<rparr>)
     else do {
       buf \<leftarrow> rm_encode m s (encode_varint (of_nat len) buf);
       Some (Ok buf)
     }
   }"

definition message_prepend :: "('s, 'r) raw_message \<Rightarrow> 's \<Rightarrow> 'r \<Rightarrow> 'r option" where
  "message_prepend m s buf = rm_prepend m s buf"

definition message_is_empty :: "('s, 'r) raw_message \<Rightarrow> 's \<Rightarrow> bool" where
  "message_is_empty m s = rm_is_empty m s"

definition clear_message :: "('s, 'r) raw_message \<Rightarrow> 's \<Rightarrow> 's" where
  "clear_message m s = rm_clear m s"

definition message_encoded_len :: "('s, 'r) raw_message \<Rightarrow> 's \<Rightarrow> nat option" where
  "message_encoded_len m s = rm_len m s"

text \<open>The capacity a fresh vector is given does not change its contents; it is computed all the same.\<close>

definition encode_to_vec :: "('s, 'r) raw_message \<Rightarrow> 's \<Rightarrow> bytes option" where
  "encode_to_vec m s = do {
     _ \<leftarrow> rm_len m s;
     rm_encode m s []
   }"

definition encode_length_delimited_to_vec :: "('s, 'r) raw_message \<Rightarrow> 's \<Rightarrow> bytes option" where
  "encode_length_delimited_to_vec m s = do {
     len \<leftarrow> rm_len m s;
     rm_encode m s (encode_varint (of_nat len) [])
   }"

definition encode_fast :: "('s, reverse_buffer) raw_message \<Rightarrow> 's \<Rightarrow> reverse_buffer option" where
  "encode_fast m s = rm_prepend m s rb_new"

definition encode_length_delimited_fast ::
    "bool \<Rightarrow> ('s, reverse_buffer) raw_message \<Rightarrow> 's \<Rightarrow> reverse_buffer option" where
  "encode_length_delimited_fast sco m s = do {
     buf \<leftarrow> encode_fast m s;
     len \<leftarrow> rb_len buf;
     prepend_varint (rb_rev_ops sco) (of_nat len) buf
   }"

definition encode_contiguous :: "('s, reverse_buffer) raw_message \<Rightarrow> 's \<Rightarrow> reverse_buffer option" where
  "encode_contiguous m s = do {
     len \<leftarrow> rm_len m s;
     buf \<leftarrow> rb_with_capacity Unbounded len;
     rm_prepend m s buf
   }"

definition encode_length_delimited_contiguous ::
    "bool \<Rightarrow> ('s, reverse_buffer) raw_message \<Rightarrow> 's \<Rightarrow> reverse_buffer option" where
  "encode_length_delimited_contiguous sco m s = do {
     len \<leftarrow> rm_len m s;
     buf \<leftarrow> rb_with_capacity Unbounded (len + length_delimiter_len len);
     buf \<leftarrow> rm_prepend m s buf;
     prepend_varint (rb_rev_ops sco) (of_nat len) buf
   }"

section \<open>Decoding\<close>

definition decode_capped :: "('s, 'r) raw_message \<Rightarrow> bytes capped \<Rightarrow> ('s \<times> bytes) outcome" where
  "decode_capped m buf =
    obind (merge m (rm_empty m) buf context_default) (\<lambda>(message, buf). Done (message, cap_buf buf))"

definition decode_message :: "('s, 'r) raw_message \<Rightarrow> bytes \<Rightarrow> ('s \<times> bytes) outcome" where
  "decode_message m buf = decode_capped m (capped_new buf)"

definition decode_length_delimited :: "('s, 'r) raw_message \<Rightarrow> bytes \<Rightarrow> ('s \<times> bytes) outcome" where
  "decode_length_delimited m buf = obind (capped_new_length_delimited slice_ops buf) (decode_capped m)"

text \<open>
  The message a caller holds after a replacing decoder, beside its result. Whatever \<^verbatim>\<open>merge\<close> had read into the message
  before it failed, \<^verbatim>\<open>clear\<close> resets it, so what is left is the message cleared before the start; a
  length delimiter that cannot be read leaves the message as it was.
\<close>

definition replace_from_capped :: "('s, 'r) raw_message \<Rightarrow> 's \<Rightarrow> bytes capped \<Rightarrow> 's \<times> bytes outcome" where
  "replace_from_capped m s buf =
    (let s = rm_clear m s in
     case merge m s buf context_default of
       Done (message, buf) \<Rightarrow> (message, Done (cap_buf buf))
     | Fail e \<Rightarrow> (rm_clear m s, Fail e)
     | Panic \<Rightarrow> (s, Panic))"

definition replace_from :: "('s, 'r) raw_message \<Rightarrow> 's \<Rightarrow> bytes \<Rightarrow> 's \<times> bytes outcome" where
  "replace_from m s buf = replace_from_capped m s (capped_new buf)"

definition replace_from_length_delimited :: "('s, 'r) raw_message \<Rightarrow> 's \<Rightarrow> bytes \<Rightarrow> 's \<times> bytes outcome" where
  "replace_from_length_delimited m s buf =
    (case capped_new_length_delimited slice_ops buf of
       Done buf \<Rightarrow> replace_from_capped m s buf
     | Fail e \<Rightarrow> (s, Fail e)
     | Panic \<Rightarrow> (s, Panic))"

definition decode_restricted_capped ::
    "('s, 'r) raw_message \<Rightarrow> bytes capped \<Rightarrow> canonicity \<Rightarrow> ('s \<times> canonicity \<times> bytes) outcome" where
  "decode_restricted_capped m buf restrict_to =
    (let ctx = restricted_new restrict_to in
     obind (merge_distinguished m (rm_empty m) buf ctx) (\<lambda>(message, canon, buf).
       obind (from_result (check ctx canon)) (\<lambda>canon. Done (message, canon, cap_buf buf))))"

definition decode_restricted ::
    "('s, 'r) raw_message \<Rightarrow> bytes \<Rightarrow> canonicity \<Rightarrow> ('s \<times> canonicity \<times> bytes) outcome" where
  "decode_restricted m buf restrict_to = decode_restricted_capped m (capped_new buf) restrict_to"

definition decode_restricted_length_delimited ::
    "('s, 'r) raw_message \<Rightarrow> bytes \<Rightarrow> canonicity \<Rightarrow> ('s \<times> canonicity \<times> bytes) outcome" where
  "decode_restricted_length_delimited m buf restrict_to =
    obind (capped_new_length_delimited slice_ops buf) (\<lambda>buf. decode_restricted_capped m buf restrict_to)"

text \<open>The last check of the canonicity comes after the message has been kept or cleared.\<close>

definition replace_restricted_from_capped ::
    "('s, 'r) raw_message \<Rightarrow> 's \<Rightarrow> bytes capped \<Rightarrow> canonicity \<Rightarrow> 's \<times> (canonicity \<times> bytes) outcome" where
  "replace_restricted_from_capped m s buf restrict_to =
    (let s = rm_clear m s; ctx = restricted_new restrict_to in
     case merge_distinguished m s buf ctx of
       Done (message, canon, buf) \<Rightarrow>
         (message, obind (from_result (check ctx canon)) (\<lambda>canon. Done (canon, cap_buf buf)))
     | Fail e \<Rightarrow> (rm_clear m s, Fail e)
     | Panic \<Rightarrow> (s, Panic))"

definition replace_restricted_from ::
    "('s, 'r) raw_message \<Rightarrow> 's \<Rightarrow> bytes \<Rightarrow> canonicity \<Rightarrow> 's \<times> (canonicity \<times> bytes) outcome" where
  "replace_restricted_from m s buf restrict_to = replace_restricted_from_capped m s (capped_new buf) restrict_to"

definition replace_restricted_from_length_delimited ::
    "('s, 'r) raw_message \<Rightarrow> 's \<Rightarrow> bytes \<Rightarrow> canonicity \<Rightarrow> 's \<times> (canonicity \<times> bytes) outcome" where
  "replace_restricted_from_length_delimited m s buf restrict_to =
    (case capped_new_length_delimited slice_ops buf of
       Done buf \<Rightarrow> replace_restricted_from_capped m s buf restrict_to
     | Fail e \<Rightarrow> (s, Fail e)
     | Panic \<Rightarrow> (s, Panic))"

definition decode_distinguished ::
    "('s, 'r) raw_message \<Rightarrow> bytes \<Rightarrow> ('s \<times> canonicity \<times> bytes) outcome" where
  "decode_distinguished m buf = decode_restricted m buf NotCanonical"

definition decode_distinguished_length_delimited ::
    "('s, 'r) raw_message \<Rightarrow> bytes \<Rightarrow> ('s \<times> canonicity \<times> bytes) outcome" where
  "decode_distinguished_length_delimited m buf = decode_restricted_length_delimited m buf NotCanonical"

definition replace_distinguished_from ::
    "('s, 'r) raw_message \<Rightarrow> 's \<Rightarrow> bytes \<Rightarrow> 's \<times> (canonicity \<times> bytes) outcome" where
  "replace_distinguished_from m s buf = replace_restricted_from m s buf NotCanonical"

definition replace_distinguished_from_length_delimited ::
    "('s, 'r) raw_message \<Rightarrow> 's \<Rightarrow> bytes \<Rightarrow> 's \<times> (canonicity \<times> bytes) outcome" where
  "replace_distinguished_from_length_delimited m s buf = replace_restricted_from_length_delimited m s buf NotCanonical"

definition decode_canonical :: "('s, 'r) raw_message \<Rightarrow> bytes \<Rightarrow> ('s \<times> bytes) outcome" where
  "decode_canonical m buf = obind (decode_restricted m buf Canonical) (\<lambda>(message, _, buf). Done (message, buf))"

definition decode_canonical_length_delimited :: "('s, 'r) raw_message \<Rightarrow> bytes \<Rightarrow> ('s \<times> bytes) outcome" where
  "decode_canonical_length_delimited m buf =
    obind (decode_restricted_length_delimited m buf Canonical) (\<lambda>(message, _, buf). Done (message, buf))"

definition replace_canonical_from :: "('s, 'r) raw_message \<Rightarrow> 's \<Rightarrow> bytes \<Rightarrow> 's \<times> bytes outcome" where
  "replace_canonical_from m s buf = map_prod id (omap snd) (replace_restricted_from m s buf Canonical)"

definition replace_canonical_from_length_delimited ::
    "('s, 'r) raw_message \<Rightarrow> 's \<Rightarrow> bytes \<Rightarrow> 's \<times> bytes outcome" where
  "replace_canonical_from_length_delimited m s buf =
    map_prod id (omap snd) (replace_restricted_from_length_delimited m s buf Canonical)"

section \<open>Prepending within a capacity\<close>

text \<open>A buffer of capacity \<open>n\<close> that holds at most \<open>n\<close> bytes has not grown.\<close>

definition rb_within :: "nat \<Rightarrow> reverse_buffer \<Rightarrow> bool" where
  "rb_within n rb \<longleftrightarrow> rb_inv rb \<and>
     (length (rb_contents rb) \<le> n \<longrightarrow> rb_capacity rb = n \<and> length (rb_chunks rb) \<le> 1)"

lemma rb_with_capacity_within:
  "\<exists>rb. rb_with_capacity Unbounded n = Some rb \<and> rb_within n rb \<and> rb_contents rb = []"
  using rb_with_capacity_inv [of n]
  by (auto simp: rb_within_def rb_with_capacity_def rb_new_def split: if_splits)

definition same_store :: "reverse_buffer \<Rightarrow> reverse_buffer \<Rightarrow> bool" where
  "same_store rb rb' \<longleftrightarrow> rb_capacity rb' = rb_capacity rb \<and> length (rb_chunks rb') = length (rb_chunks rb)"

lemma same_store_front:
  "write_front pos d rb = Some rb' \<Longrightarrow> same_store rb rb'" "self_copy_front d rb = Some rb' \<Longrightarrow> same_store rb rb'"
  "same_store rb (rb'\<lparr>rb_front := f\<rparr>) = same_store rb rb'"
  by (auto simp: same_store_def write_front_def self_copy_front_def set_front_chunk_def split: if_splits)

lemma same_store_prepend:
  "length d \<le> rb_front rb \<Longrightarrow> rb_prepend_slice Unbounded sco d rb = Some rb' \<Longrightarrow> same_store rb rb'"
  "length d \<le> rb_front rb \<Longrightarrow> rb_prepend_array Unbounded d rb = Some rb' \<Longrightarrow> same_store rb rb'"
  "0 < rb_front rb \<Longrightarrow> rb_prepend_u8 Unbounded x rb = Some rb' \<Longrightarrow> same_store rb rb'"
  by (auto simp: rb_prepend_slice_def rb_prepend_array_def rb_prepend_u8_def bind_eq_Some_conv same_store_front
      split: if_splits dest: same_store_front(1,2))

lemma rb_withinI:
  assumes w: "rb_within n rb" and c: "rb_inv rb'" "rb_contents rb' = d @ rb_contents rb"
    and s: "length d \<le> rb_front rb \<Longrightarrow> same_store rb rb'"
  shows "rb_within n rb'"
proof (cases "length (rb_contents rb') \<le> n")
  case True
  then have 1: "rb_inv rb" "rb_capacity rb = n" "length (rb_chunks rb) \<le> 1"
    using w c by (auto simp: rb_within_def)
  then have "same_store rb rb'" using rb_inv_size [OF 1(1)] True c by (intro s) simp
  then show ?thesis using 1 c by (simp add: rb_within_def same_store_def)
next
  case False
  then show ?thesis using c by (simp add: rb_within_def)
qed

interpretation rb_fit: rev_buf_contract "rb_rev_ops sco" rb_contents "rb_within n"
proof unfold_locales
  fix r d x
  assume r: "rb_within n r"
  then have inv: "rb_inv r" by (simp add: rb_within_def)
  show "r_remaining (rb_rev_ops sco) r = length (rb_contents r)"
    using inv by (simp add: rb_rev_ops_def rb_len_eq)
  show "\<exists>r'. r_prepend_slice (rb_rev_ops sco) d r = Some r' \<and> rb_within n r' \<and> rb_contents r' = d @ rb_contents r"
    using rb_prepend_slice_inv [OF inv, of sco d] rb_withinI [OF r] same_store_prepend(1)
    by (fastforce simp: rb_rev_ops_def)
  show "\<exists>r'. r_prepend_array (rb_rev_ops sco) d r = Some r' \<and> rb_within n r' \<and> rb_contents r' = d @ rb_contents r"
    using rb_prepend_array_inv [OF inv, of d] rb_withinI [OF r] same_store_prepend(2)
    by (fastforce simp: rb_rev_ops_def)
  obtain r' where r': "rb_prepend_u8 Unbounded x r = Some r'" "rb_inv r'" "rb_contents r' = x # rb_contents r"
    using rb_prepend_u8_inv [OF inv, of x] by blast
  then have "rb_within n r'"
    using same_store_prepend(3) [OF _ r'(1)] by (intro rb_withinI [OF r, of _ "[x]"]) simp_all
  then show "\<exists>r'. r_prepend_u8 (rb_rev_ops sco) x r = Some r' \<and> rb_within n r' \<and> rb_contents r' = x # rb_contents r"
    using r' by (simp add: rb_rev_ops_def)
qed

lemma rb_within_contiguous:
  assumes "rb_within n rb" and "length (rb_contents rb) = n"
  shows "rb_contiguous rb = Some (Some (rb_contents rb)) \<and> rb_capacity rb = length (rb_contents rb)"
proof -
  have r: "rb_inv rb" "rb_capacity rb = n" "length (rb_chunks rb) \<le> 1" using assms by (auto simp: rb_within_def)
  moreover have "rb_bytes rb = rb_contents rb"
    using r(1,3) rb_front_le [OF r(1), of "[]"]
    by (cases "rb_chunks rb")
      (auto simp: rb_bytes_def rb_contents_def rb_cells_def rb_chunk_def init_bytes_eq rb_inv_def)
  ultimately show ?thesis using rb_chunk_eq [OF r(1)] assms(2) by (simp add: rb_contiguous_def)
qed

section \<open>What the interface promises\<close>

lemma capped_new_as_take:
  "capped_new_length_delimited slice_ops b = take_length_delimited slice_ops \<lparr>cap_buf = b, cap_extra = 0\<rparr>"
  by (simp add: capped_new_length_delimited_def take_length_delimited_def Let_def cong: if_cong)

lemma capped_new_delimited:
  "length d < 2 ^ 64 \<Longrightarrow> capped_new_length_delimited slice_ops (delimited d @ rest) =
    Done \<lparr>cap_buf = d @ rest, cap_extra = length rest\<rparr>"
  unfolding capped_new_as_take by (rule take_delimited_eq) simp_all

lemma default_depth [simp]: "unat (recurse_count context_default) = 100"
  "into_inner (restricted_new c) = context_default" "rc_min_canonicity (restricted_new c) = c"
  by (simp_all add: context_default_def RECURSION_LIMIT_def into_inner_def restricted_new_def)

context message_contract
begin

lemma api_encode:
  assumes "valid v"
  shows "message_encoded_len m v = Some (length (body v))" "encode_to_vec m v = Some (body v)"
    "encode_length_delimited_to_vec m v = Some (delimited (body v))"
    "message_encode m v room buf = Some (if length (body v) \<le> room then Ok (buf @ body v)
      else Err \<lparr>ee_required = length (body v), ee_remaining = room\<rparr>)"
    "message_encode_length_delimited m v room buf = Some (if length (delimited (body v)) \<le> room
      then Ok (buf @ delimited (body v)) else Err \<lparr>ee_required = length (delimited (body v)), ee_remaining = room\<rparr>)"
  using len [OF assms] encode [OF assms]
  by (simp_all add: message_encoded_len_def encode_to_vec_def encode_length_delimited_to_vec_def
      message_encode_def message_encode_length_delimited_def encode_varint_bytes delimited_def
      encoded_len_varint_bytes add.commute)

lemma api_decode:
  assumes v: "valid v" "depth v \<le> 100"
  shows "decode_message m (body v) = Done (v, [])"
    "decode_length_delimited m (delimited (body v) @ rest) = Done (v, rest)"
    "valid s \<Longrightarrow> replace_from m s (body v) = (v, Done [])"
    "valid s \<Longrightarrow> replace_from_length_delimited m s (delimited (body v) @ rest) = (v, Done rest)"
  using merge_body [OF v(1), of context_default "[]"] merge_body [OF v(1), of context_default rest] v(2)
    capped_new_delimited [OF body_length [OF v(1)]] clear [of s]
  by (simp_all add: decode_message_def decode_capped_def capped_new_def decode_length_delimited_def
      replace_from_def replace_from_capped_def replace_from_length_delimited_def)

lemma api_no_panic:
  "decode_message m buf \<noteq> Panic"
  by (auto simp: decode_message_def decode_capped_def obind_Panic_iff merge_no_panic)

text \<open>Replacing a message is decoding a new one; a failure leaves the empty message.\<close>

lemma api_replace:
  assumes "valid s"
  shows "replace_from m s buf = (case decode_message m buf of Done (v, rest) \<Rightarrow> (v, Done rest)
      | Fail e \<Rightarrow> (rm_empty m, Fail e) | Panic \<Rightarrow> (rm_empty m, Panic))"
  using clear [OF assms] clear [OF empty] merge_no_panic [of "rm_empty m" "capped_new buf" context_default]
  by (auto simp: replace_from_def replace_from_capped_def decode_message_def decode_capped_def Let_def split: outcome.split)

text \<open>All of the input is consumed.\<close>

lemma merge_consumes:
  assumes "merge m v0 cp ctx = Done (v, cp')"
  shows "cap_buf cp' = drop (length (cap_buf cp) - cap_extra cp) (cap_buf cp)"
  using merge_loop_frame [OF assms [unfolded merge_def]] by auto

lemma api_consumes: "decode_message m buf = Done (v, rest) \<Longrightarrow> rest = []"
  by (auto simp: decode_message_def decode_capped_def capped_new_def dest: merge_consumes)

end

context distinguished_message_contract
begin

lemma api_restricted:
  assumes "decode_restricted m buf restrict_to = Done (v, k, rest)"
  shows "decode_message m buf = Done (v, rest) \<and> restrict_to \<le> k \<and>
    (k = Canonical \<longrightarrow> length buf < 2 ^ 64 \<longrightarrow> buf = body v \<and> valid v)"
proof -
  obtain cp where 1: "merge_distinguished m (rm_empty m) (capped_new buf) (restricted_new restrict_to) = Done (v, k, cp)"
    "rest = cap_buf cp" "restrict_to \<le> k"
    using assms by (auto simp: decode_restricted_def decode_restricted_capped_def Let_def)
  have r: "merge m (rm_empty m) (capped_new buf) context_default = Done (v, cp)"
    using dist_relaxed [OF 1(1)] by simp
  then have "cap_buf cp = []" by (auto simp: capped_new_def dest: merge_consumes)
  then show ?thesis
    using 1 r dist_canonical [of "capped_new buf" "restricted_new restrict_to" v cp]
    by (auto simp: decode_message_def decode_capped_def capped_new_def)
qed

lemma api_distinguished:
  assumes v: "valid v" "depth v \<le> 100"
  shows "decode_restricted m (body v) restrict_to = Done (v, Canonical, [])"
    "decode_restricted_length_delimited m (delimited (body v) @ rest) restrict_to = Done (v, Canonical, rest)"
  using dist_complete [OF v(1), of "restricted_new restrict_to" "[]"]
    dist_complete [OF v(1), of "restricted_new restrict_to" rest] v(2)
    capped_new_delimited [OF body_length [OF v(1)]]
  by (simp_all add: decode_restricted_def decode_restricted_capped_def capped_new_def
      decode_restricted_length_delimited_def Let_def)

lemma api_canonical:
  "decode_canonical m buf = Done (v, rest) \<Longrightarrow> length buf < 2 ^ 64 \<Longrightarrow> buf = body v \<and> valid v \<and> rest = []"
  using api_restricted [of buf Canonical v Canonical rest] api_consumes [of buf v rest]
  by (auto simp: decode_canonical_def dest!: api_restricted)

lemma api_replace_restricted:
  assumes "valid s"
  shows "replace_restricted_from m s buf restrict_to = (case decode_restricted m buf restrict_to of
      Done (v, k, rest) \<Rightarrow> (v, Done (k, rest)) | Fail e \<Rightarrow> (rm_empty m, Fail e) | Panic \<Rightarrow> (rm_empty m, Panic))"
proof (cases "merge_distinguished m (rm_empty m) (capped_new buf) (restricted_new restrict_to)")
  case (Done x)
  obtain v k cp where x: "x = (v, k, cp)" by (cases x)
  have "rc_min_canonicity (restricted_new restrict_to) \<le> k"
    using dist_relaxed [OF Done [unfolded x]] by blast
  then show ?thesis
    using Done x clear [OF assms]
    by (simp add: check_def leD replace_restricted_from_def replace_restricted_from_capped_def decode_restricted_def
        decode_restricted_capped_def Let_def)
qed (use clear [OF assms] clear [OF empty] in \<open>simp_all add: replace_restricted_from_def
  replace_restricted_from_capped_def decode_restricted_def decode_restricted_capped_def Let_def\<close>)

lemma api_restricted_no_panic: "decode_restricted m buf restrict_to \<noteq> Panic"
  by (auto simp: decode_restricted_def decode_restricted_capped_def Let_def obind_Panic_iff dist_no_panic)

end

text \<open>Encoding into a prepend buffer, and into one that is allocated at once.\<close>

lemma encode_fast_laws:
  assumes c: "message_contract (rb_rev_ops sco) rb_contents rb_inv m body valid depth" and v: "valid v"
  shows "\<exists>r. encode_fast m v = Some r \<and> rb_inv r \<and> rb_contents r = body v"
    and "\<exists>r. encode_length_delimited_fast sco m v = Some r \<and> rb_inv r \<and> rb_contents r = delimited (body v)"
proof -
  obtain r where r: "encode_fast m v = Some r" "rb_inv r" "rb_contents r = body v"
    using rb_rev.prependsE [OF message_contract.prepend [OF c v], of rb_new] rb_new_inv by (auto simp: encode_fast_def)
  then show "\<exists>r. encode_fast m v = Some r \<and> rb_inv r \<and> rb_contents r = body v" by blast
  obtain r' where "prepend_varint (rb_rev_ops sco) (of_nat (length (body v))) r = Some r'" "rb_inv r'"
    "rb_contents r' = varint_bytes (of_nat (length (body v))) @ rb_contents r"
    unfolding varint_bytes_def using rb_rev.prependsE [OF rev_buf_contract.prepends_varint [OF rb_rev.rev_buf_contract_axioms] r(2)] by blast
  then show "\<exists>r. encode_length_delimited_fast sco m v = Some r \<and> rb_inv r \<and> rb_contents r = delimited (body v)"
    using r by (simp add: encode_length_delimited_fast_def rb_len_eq delimited_def)
qed

lemma encode_contiguous_laws:
  assumes c: "\<And>n. message_contract (rb_rev_ops sco) rb_contents (rb_within n) m body valid depth" and v: "valid v"
  shows "\<exists>r. encode_contiguous m v = Some r \<and> rb_contiguous r = Some (Some (body v)) \<and> rb_capacity r = length (body v)"
    and "\<exists>r. encode_length_delimited_contiguous sco m v = Some r \<and>
      rb_contiguous r = Some (Some (delimited (body v))) \<and> rb_capacity r = length (delimited (body v))"
proof -
  have one: "\<exists>r. rm_prepend m v r0 = Some r \<and> rb_within n r \<and> rb_contents r = body v"
    if "rb_within n r0" "rb_contents r0 = []" for n r0
    using rb_fit.prependsE [OF message_contract.prepend [OF c v] that(1)] that(2) by (metis append_Nil2)
  have len: "rm_len m v = Some (length (body v))" by (rule message_contract.len [OF c v])
  obtain r0 where r0: "rb_with_capacity Unbounded (length (body v)) = Some r0" "rb_within (length (body v)) r0" "rb_contents r0 = []"
    using rb_with_capacity_within by blast
  show "\<exists>r. encode_contiguous m v = Some r \<and> rb_contiguous r = Some (Some (body v)) \<and> rb_capacity r = length (body v)"
    using one [OF r0(2,3)] r0(1) len rb_within_contiguous by (fastforce simp: encode_contiguous_def)
  let ?n = "length (delimited (body v))"
  obtain r1 where r1: "rb_with_capacity Unbounded ?n = Some r1" "rb_within ?n r1" "rb_contents r1 = []"
    using rb_with_capacity_within by blast
  obtain r2 where r2: "rm_prepend m v r1 = Some r2" "rb_within ?n r2" "rb_contents r2 = body v"
    using one [OF r1(2,3)] by blast
  obtain r3 where r3: "prepend_varint (rb_rev_ops sco) (of_nat (length (body v))) r2 = Some r3" "rb_within ?n r3"
    "rb_contents r3 = delimited (body v)"
    using rb_fit.prependsE [OF rev_buf_contract.prepends_varint [OF rb_fit.rev_buf_contract_axioms] r2(2)] r2(3)
    by (metis delimited_def varint_bytes_def)
  have "length (body v) + length_delimiter_len (length (body v)) = ?n"
    by (simp add: length_delimiter_len_def encoded_len_varint_bytes delimited_def)
  then show "\<exists>r. encode_length_delimited_contiguous sco m v = Some r \<and>
      rb_contiguous r = Some (Some (delimited (body v))) \<and> rb_capacity r = length (delimited (body v))"
    using r1(1) r2(1) r3(1) len rb_within_contiguous [OF r3(2)] r3(3)
    by (simp add: encode_length_delimited_contiguous_def)
qed

end
