(* ===== verification/Time_Messages.thy ===== *)
theory Time_Messages
  imports Derived_Laws Varint_Values Fixed Message_Api
begin

text \<open>
  The messages \<^verbatim>\<open>Duration\<close> and \<^verbatim>\<open>Timestamp\<close> of \<^verbatim>\<open>src/bilrost-types/src/types.rs\<close>: their derived encodings on the
  prepend buffer of the code, as instances of \<open>distinguished_derived_message\<close>. A Rust \<^verbatim>\<open>i64\<close> or \<^verbatim>\<open>i32\<close> is a
  word read with \<open>sint\<close>.
\<close>

section \<open>The structs\<close>

record duration =
  dur_seconds :: u64
  dur_nanos :: u32

record timestamp =
  ts_seconds :: u64
  ts_nanos :: u32

definition duration_fields :: "'r rev_ops \<Rightarrow> (duration, 'r) message_field list" where
  "duration_fields rops =
    [value_field 1 dur_seconds (\<lambda>v s. s\<lparr>dur_seconds := v\<rparr>) (default_empty_state 0)
       (plain_field rops (varint_i64 rops) (default_empty_state 0)),
     value_field 2 dur_nanos (\<lambda>v s. s\<lparr>dur_nanos := v\<rparr>) (default_empty_state 0)
       (plain_field rops (fixed_i32 rops) (default_empty_state 0))]"

definition timestamp_fields :: "'r rev_ops \<Rightarrow> (timestamp, 'r) message_field list" where
  "timestamp_fields rops =
    [value_field 1 ts_seconds (\<lambda>v s. s\<lparr>ts_seconds := v\<rparr>) (default_empty_state 0)
       (plain_field rops (varint_i64 rops) (default_empty_state 0)),
     value_field 2 ts_nanos (\<lambda>v s. s\<lparr>ts_nanos := v\<rparr>) (default_empty_state 0)
       (plain_field rops (fixed_i32 rops) (default_empty_state 0))]"

definition duration_message :: "'r rev_ops \<Rightarrow> (duration, 'r) raw_message" where
  "duration_message rops = derive_message rops \<lparr>dur_seconds = 0, dur_nanos = 0\<rparr> (duration_fields rops)"

definition timestamp_message :: "'r rev_ops \<Rightarrow> (timestamp, 'r) raw_message" where
  "timestamp_message rops = derive_message rops \<lparr>ts_seconds = 0, ts_nanos = 0\<rparr> (timestamp_fields rops)"

section \<open>The fields as views\<close>

definition seconds_parts :: "u64 \<Rightarrow> value_part list" where
  "seconds_parts v = (if v = 0 then [] else [(WtVarint, varint_bytes (zigzag v))])"

definition nanos_parts :: "u32 \<Rightarrow> value_part list" where
  "nanos_parts v = (if v = 0 then [] else [(WtThirtyTwoBit, le_bytes 4 v)])"

definition duration_view :: "(duration, 'r) message_field \<Rightarrow> duration field_view" where
  "duration_view f = (if mf_tags f = [1] then value_view 1 dur_seconds seconds_parts (\<lambda>_. True) (\<lambda>_. 0)
     else value_view 2 dur_nanos nanos_parts (\<lambda>_. True) (\<lambda>_. 0))"

definition timestamp_view :: "(timestamp, 'r) message_field \<Rightarrow> timestamp field_view" where
  "timestamp_view f = (if mf_tags f = [1] then value_view 1 ts_seconds seconds_parts (\<lambda>_. True) (\<lambda>_. 0)
     else value_view 2 ts_nanos nanos_parts (\<lambda>_. True) (\<lambda>_. 0))"

context rev_buf_contract
begin

lemma seconds_laws:
  "distinguished_field_contract rops rcontents rinv (plain_field rops (varint_i64 rops) (default_empty_state 0))
    (default_empty_state 0) seconds_parts (\<lambda>_. True) (\<lambda>_. 0)"
proof -
  have eq: "seconds_parts = one_part (varint_i64 rops) (\<lambda>v. varint_bytes (zigzag v)) (default_empty_state 0)"
    by (rule ext) (simp add: seconds_parts_def one_part_def default_empty_state_def varint_i64_def varint_codec_def)
  show ?thesis
    unfolding eq by (rule distinguished_codec.plain_distinguished_laws [OF varint_signed_laws(7) suits_default];
      simp add: varint_i64_def varint_codec_def)
qed

lemma nanos_laws:
  "distinguished_field_contract rops rcontents rinv (plain_field rops (fixed_i32 rops) (default_empty_state 0))
    (default_empty_state 0) nanos_parts (\<lambda>_. True) (\<lambda>_. 0)"
proof -
  have eq: "nanos_parts = one_part (fixed_i32 rops) (le_bytes 4) (default_empty_state 0)"
    by (rule ext) (simp add: nanos_parts_def one_part_def default_empty_state_def fixed_i32_def
        fixed_width_int_def fixed_width_common_def)
  show ?thesis
    unfolding eq by (rule distinguished_codec.plain_distinguished_laws [OF fixed_laws(5) suits_default];
      simp add: fixed_i32_def fixed_width_int_def fixed_width_common_def)
qed

lemmas time_members =
  distinguished_field_contract.value_field_distinguished_member [OF seconds_laws]
  distinguished_field_contract.value_field_distinguished_member [OF nanos_laws]

lemma duration_laws:
  "distinguished_derived_message rops rcontents rinv \<lparr>dur_seconds = 0, dur_nanos = 0\<rparr> (duration_fields rops) duration_view"
proof (rule distinguished_struct_laws)
  show "rev_buf_contract rops rcontents rinv" by (rule rev_buf_contract_axioms)
  show "own_tags mf_tags (duration_fields rops)" by (simp add: own_tags_def duration_fields_def)
  fix f g :: "(duration, 'r) message_field" and s t s' tag wt dup cp ctx cp'
  show "s = t" if "\<forall>f \<in> set (duration_fields rops). fv_same (duration_view f) s t"
    using that by (auto simp: duration_fields_def duration_view_def value_view_def)
  assume f: "f \<in> set (duration_fields rops)"
  show "distinguished_member_contract rops rcontents rinv f (duration_view f)"
    using f by (auto simp: duration_fields_def duration_view_def intro!: time_members)
  show "blank (duration_view f) \<lparr>dur_seconds = 0, dur_nanos = 0\<rparr>"
    by (simp add: duration_view_def blank_def value_view_def seconds_parts_def nanos_parts_def)
  assume g: "g \<in> set (duration_fields rops)" "f \<noteq> g"
  show "fv_same (duration_view g) (mf_clear f s) s"
    using f g by (auto simp: duration_fields_def duration_view_def value_view_def value_field_def)
  show "mf_decode f tag wt dup s cp ctx = Done (s', cp') \<Longrightarrow> fv_same (duration_view g) s' s"
    using f g by (auto simp: duration_fields_def duration_view_def value_view_def dest!: value_field_decoded)
qed

lemma timestamp_laws:
  "distinguished_derived_message rops rcontents rinv \<lparr>ts_seconds = 0, ts_nanos = 0\<rparr> (timestamp_fields rops) timestamp_view"
proof (rule distinguished_struct_laws)
  show "rev_buf_contract rops rcontents rinv" by (rule rev_buf_contract_axioms)
  show "own_tags mf_tags (timestamp_fields rops)" by (simp add: own_tags_def timestamp_fields_def)
  fix f g :: "(timestamp, 'r) message_field" and s t s' tag wt dup cp ctx cp'
  show "s = t" if "\<forall>f \<in> set (timestamp_fields rops). fv_same (timestamp_view f) s t"
    using that by (auto simp: timestamp_fields_def timestamp_view_def value_view_def)
  assume f: "f \<in> set (timestamp_fields rops)"
  show "distinguished_member_contract rops rcontents rinv f (timestamp_view f)"
    using f by (auto simp: timestamp_fields_def timestamp_view_def intro!: time_members)
  show "blank (timestamp_view f) \<lparr>ts_seconds = 0, ts_nanos = 0\<rparr>"
    by (simp add: timestamp_view_def blank_def value_view_def seconds_parts_def nanos_parts_def)
  assume g: "g \<in> set (timestamp_fields rops)" "f \<noteq> g"
  show "fv_same (timestamp_view g) (mf_clear f s) s"
    using f g by (auto simp: timestamp_fields_def timestamp_view_def value_view_def value_field_def)
  show "mf_decode f tag wt dup s cp ctx = Done (s', cp') \<Longrightarrow> fv_same (timestamp_view g) s' s"
    using f g by (auto simp: timestamp_fields_def timestamp_view_def value_view_def dest!: value_field_decoded)
qed

end

interpretation seconds_field: distinguished_field_contract "rb_rev_ops sco" rb_contents rb_inv
  "plain_field (rb_rev_ops sco) (varint_i64 (rb_rev_ops sco)) (default_empty_state 0)" "default_empty_state 0"
  seconds_parts "\<lambda>_. True" "\<lambda>_. 0"
  by (rule rev_buf_contract.seconds_laws [OF rb_rev.rev_buf_contract_axioms])

interpretation nanos_field: distinguished_field_contract "rb_rev_ops sco" rb_contents rb_inv
  "plain_field (rb_rev_ops sco) (fixed_i32 (rb_rev_ops sco)) (default_empty_state 0)" "default_empty_state 0"
  nanos_parts "\<lambda>_. True" "\<lambda>_. 0"
  by (rule rev_buf_contract.nanos_laws [OF rb_rev.rev_buf_contract_axioms])

interpretation duration: distinguished_derived_message "rb_rev_ops sco" rb_contents rb_inv
  "\<lparr>dur_seconds = 0, dur_nanos = 0\<rparr>" "duration_fields (rb_rev_ops sco)" duration_view
  by (rule rev_buf_contract.duration_laws [OF rb_rev.rev_buf_contract_axioms])

interpretation timestamp: distinguished_derived_message "rb_rev_ops sco" rb_contents rb_inv
  "\<lparr>ts_seconds = 0, ts_nanos = 0\<rparr>" "timestamp_fields (rb_rev_ops sco)" timestamp_view
  by (rule rev_buf_contract.timestamp_laws [OF rb_rev.rev_buf_contract_axioms])

section \<open>The bytes of a struct of seconds and nanoseconds\<close>

definition time_body :: "u64 \<Rightarrow> u32 \<Rightarrow> bytes" where
  "time_body seconds nanos =
    (if seconds = 0 then [] else 4 # varint_bytes (zigzag seconds)) @
    (if nanos = 0 then [] else (if seconds = 0 then 10 else 6) # le_bytes 4 nanos)"

lemma time_keys: "varint_bytes (key_of 1 WtVarint) = [4]" "varint_bytes (key_of 2 WtThirtyTwoBit) = [10]"
  "varint_bytes (key_of 1 WtThirtyTwoBit) = [6]"
  by (simp_all add: key_of_def varint_bytes_small)

lemma duration_body: "struct_body duration_view (duration_fields rops) s = time_body (dur_seconds s) (dur_nanos s)"
  by (simp add: struct_body_def struct_parts_def present_def field_run_def duration_fields_def duration_view_def
      value_view_def seconds_parts_def nanos_parts_def time_body_def time_keys)

lemma timestamp_body: "struct_body timestamp_view (timestamp_fields rops) s = time_body (ts_seconds s) (ts_nanos s)"
  by (simp add: struct_body_def struct_parts_def present_def field_run_def timestamp_fields_def timestamp_view_def
      value_view_def seconds_parts_def nanos_parts_def time_body_def time_keys)

lemma time_body_length: "length (time_body seconds nanos) \<le> 15"
  using length_varint_bytes(2) [of "zigzag seconds"] by (simp add: time_body_def)

lemma duration_valid:
  fixes rops :: "'r rev_ops"
  shows "struct_body duration_view (duration_fields rops) = (\<lambda>s. time_body (dur_seconds s) (dur_nanos s))"
    "struct_valid duration_view (duration_fields rops) = (\<lambda>_. True)" "struct_depth duration_view (duration_fields rops) = (\<lambda>_. 0)"
proof -
  have "length (struct_body duration_view (duration_fields rops) s) < 2 ^ 64" for s
    using time_body_length [of "dur_seconds s" "dur_nanos s"] by (simp add: duration_body)
  moreover have "fv_valid (duration_view f) s" "fv_depth (duration_view f) s = 0" for f :: "(duration, 'r) message_field" and s
    by (simp_all add: duration_view_def value_view_def)
  ultimately show "struct_body duration_view (duration_fields rops) = (\<lambda>s. time_body (dur_seconds s) (dur_nanos s))"
    "struct_valid duration_view (duration_fields rops) = (\<lambda>_. True)" "struct_depth duration_view (duration_fields rops) = (\<lambda>_. 0)"
    using struct_depth_le [of duration_view "duration_fields rops" _ 0] by (auto simp: struct_valid_def duration_body)
qed

lemma timestamp_valid:
  fixes rops :: "'r rev_ops"
  shows "struct_body timestamp_view (timestamp_fields rops) = (\<lambda>s. time_body (ts_seconds s) (ts_nanos s))"
    "struct_valid timestamp_view (timestamp_fields rops) = (\<lambda>_. True)" "struct_depth timestamp_view (timestamp_fields rops) = (\<lambda>_. 0)"
proof -
  have "length (struct_body timestamp_view (timestamp_fields rops) s) < 2 ^ 64" for s
    using time_body_length [of "ts_seconds s" "ts_nanos s"] by (simp add: timestamp_body)
  moreover have "fv_valid (timestamp_view f) s" "fv_depth (timestamp_view f) s = 0" for f :: "(timestamp, 'r) message_field" and s
    by (simp_all add: timestamp_view_def value_view_def)
  ultimately show "struct_body timestamp_view (timestamp_fields rops) = (\<lambda>s. time_body (ts_seconds s) (ts_nanos s))"
    "struct_valid timestamp_view (timestamp_fields rops) = (\<lambda>_. True)" "struct_depth timestamp_view (timestamp_fields rops) = (\<lambda>_. 0)"
    using struct_depth_le [of timestamp_view "timestamp_fields rops" _ 0] by (auto simp: struct_valid_def timestamp_body)
qed

text \<open>The contracts of the two messages, for any writer.\<close>

context rev_buf_contract
begin

lemma duration_contract:
  "distinguished_message_contract rops rcontents rinv (duration_message rops)
    (\<lambda>s. time_body (dur_seconds s) (dur_nanos s)) (\<lambda>_. True) (\<lambda>_. 0)"
  using distinguished_derived_message.distinguished_derived_message_laws [OF duration_laws]
  by (simp add: duration_message_def duration_valid)

lemma timestamp_contract:
  "distinguished_message_contract rops rcontents rinv (timestamp_message rops)
    (\<lambda>s. time_body (ts_seconds s) (ts_nanos s)) (\<lambda>_. True) (\<lambda>_. 0)"
  using distinguished_derived_message.distinguished_derived_message_laws [OF timestamp_laws]
  by (simp add: timestamp_message_def timestamp_valid)

end

interpretation duration_msg: distinguished_message_contract "rb_rev_ops sco" rb_contents rb_inv
  "duration_message (rb_rev_ops sco)" "\<lambda>s. time_body (dur_seconds s) (dur_nanos s)" "\<lambda>_. True" "\<lambda>_. 0"
  by (rule rev_buf_contract.duration_contract [OF rb_rev.rev_buf_contract_axioms])

interpretation timestamp_msg: distinguished_message_contract "rb_rev_ops sco" rb_contents rb_inv
  "timestamp_message (rb_rev_ops sco)" "\<lambda>s. time_body (ts_seconds s) (ts_nanos s)" "\<lambda>_. True" "\<lambda>_. 0"
  by (rule rev_buf_contract.timestamp_contract [OF rb_rev.rev_buf_contract_axioms])

end
