(* ===== verification/Struct_Properties.thy ===== *)
theory Struct_Properties
  imports Time_Messages
begin

text \<open>
  What holds of every message that \<^verbatim>\<open>#[derive(Message)]\<close> generates for a struct, through the interface of
  \<^verbatim>\<open>src/src/message.rs\<close>, from the contracts of its fields; and what it comes to for the well-known types.
\<close>

section \<open>Properties\<close>

text \<open>
  The wire format of \<^verbatim>\<open>Timestamp\<close>, for all its values: encoding writes the zigzag varint of the seconds under tag 1
  and the four bytes of the nanoseconds under tag 2, a zero left out, and announces its length;
  decoding these bytes, with the delimiter and whatever follows, restores the timestamp.
\<close>

theorem timestamp_roundtrip:
  "encode_to_vec (timestamp_message (rb_rev_ops sco)) t = Some (time_body (ts_seconds t) (ts_nanos t)) \<and>
   message_encoded_len (timestamp_message (rb_rev_ops sco)) t = Some (length (time_body (ts_seconds t) (ts_nanos t))) \<and>
   decode_message (timestamp_message (rb_rev_ops sco)) (time_body (ts_seconds t) (ts_nanos t)) = Done (t, []) \<and>
   (\<exists>bs. encode_length_delimited_to_vec (timestamp_message (rb_rev_ops sco)) t = Some bs \<and>
     decode_length_delimited (timestamp_message (rb_rev_ops sco)) (bs @ rest) = Done (t, rest))"
  using timestamp_msg.api_encode timestamp_msg.api_decode by simp

text \<open>
  Bytes that decode canonically as a \<^verbatim>\<open>Duration\<close> are the bytes the decoded value encodes to, whatever the input
  is: the canonical encoding is unique, and it is accepted.
\<close>

theorem duration_canonical:
  assumes "length bs < 2 ^ 64"
  shows "decode_canonical (duration_message (rb_rev_ops sco)) bs = Done (d, rest) \<longleftrightarrow>
    rest = [] \<and> encode_to_vec (duration_message (rb_rev_ops sco)) d = Some bs"
  using duration_msg.api_canonical [OF _ assms] duration_msg.api_encode(2) duration_msg.api_distinguished(1) [where v = d]
  by (auto simp: decode_canonical_def)

theorem duration_canonical_witness:
  "decode_canonical (duration_message (rb_rev_ops True)) [4, 3] = Done (\<lparr>dur_seconds = - 2, dur_nanos = 0\<rparr>, [])"
proof -
  have "encode_to_vec (duration_message (rb_rev_ops True)) \<lparr>dur_seconds = - 2, dur_nanos = 0\<rparr> = Some [4, 3]"
    by (simp add: duration_msg.api_encode(2) time_body_def zigzag_def varint_bytes_small)
  then show ?thesis using duration_canonical [of "[4, 3]" True "\<lparr>dur_seconds = - 2, dur_nanos = 0\<rparr>" "[]"] by simp
qed

text \<open>
  C1. Every derived struct: encoding succeeds with as many bytes as announced, into a vector and into a prepend
  buffer alike, and decoding these bytes restores the struct, if its messages nest no deeper than the
  recursion limit.
\<close>

theorem derived_roundtrip:
  assumes "derived_message (rb_rev_ops sco) rb_contents rb_inv init fs w"
    and "struct_valid w fs s" and "struct_depth w fs s \<le> 100"
  shows "\<exists>bs. encode_to_vec (derive_message (rb_rev_ops sco) init fs) s = Some bs \<and>
    message_encoded_len (derive_message (rb_rev_ops sco) init fs) s = Some (length bs) \<and>
    decode_message (derive_message (rb_rev_ops sco) init fs) bs = Done (s, []) \<and>
    (\<exists>r. encode_fast (derive_message (rb_rev_ops sco) init fs) s = Some r \<and> rb_holds r bs)"
proof -
  note c = derived_message.derived_message_laws [OF assms(1)]
  obtain r where "encode_fast (derive_message (rb_rev_ops sco) init fs) s = Some r" "rb_inv r"
    "rb_contents r = struct_body w fs s"
    using encode_fast_laws(1) [OF c assms(2)] by blast
  then show ?thesis
    using message_contract.api_encode(1,2) [OF c assms(2)] message_contract.api_decode(1) [OF c assms(2,3)]
      rb_inv_holds [of r] by auto
qed

theorem derived_roundtrip_witness:
  "\<exists>bs. encode_to_vec (timestamp_message (rb_rev_ops True)) \<lparr>ts_seconds = 5, ts_nanos = 7\<rparr> = Some bs \<and>
    decode_message (timestamp_message (rb_rev_ops True)) bs = Done (\<lparr>ts_seconds = 5, ts_nanos = 7\<rparr>, [])"
  using derived_roundtrip [OF timestamp.derived_message_axioms, of True "\<lparr>ts_seconds = 5, ts_nanos = 7\<rparr>"]
  by (auto simp: timestamp_valid timestamp_message_def)

text \<open>
  C2. Distinguished decoding of every derived struct, at any level of restriction: it returns the value that
  relaxed decoding returns, at least as canonical as asked for; it says \<open>Canonical\<close> only for the bytes that the
  value encodes to, and for these bytes it always does, if the messages of the value nest no deeper than the recursion
  limit.
\<close>

theorem derived_distinguished:
  assumes "distinguished_derived_message (rb_rev_ops sco) rb_contents rb_inv init fs w" and "length bs < 2 ^ 64"
  shows "(\<forall>k. decode_restricted (derive_message (rb_rev_ops sco) init fs) bs restrict_to = Done (s, k, rest) \<longrightarrow>
      decode_message (derive_message (rb_rev_ops sco) init fs) bs = Done (s, rest) \<and> rest = [] \<and> restrict_to \<le> k \<and>
      (k = Canonical \<longrightarrow> struct_valid w fs s \<and> encode_to_vec (derive_message (rb_rev_ops sco) init fs) s = Some bs)) \<and>
    (struct_valid w fs s \<and> struct_depth w fs s \<le> 100 \<longrightarrow>
      (decode_restricted (derive_message (rb_rev_ops sco) init fs) bs restrict_to = Done (s, Canonical, rest) \<longleftrightarrow>
       rest = [] \<and> encode_to_vec (derive_message (rb_rev_ops sco) init fs) s = Some bs))"
proof -
  note c = distinguished_derived_message.distinguished_derived_message_laws [OF assms(1)]
  note m = distinguished_message_contract.axioms(1) [OF c]
  have sound: "decode_message (derive_message (rb_rev_ops sco) init fs) bs = Done (s, rest) \<and> rest = [] \<and> restrict_to \<le> k \<and>
      (k = Canonical \<longrightarrow> struct_valid w fs s \<and> encode_to_vec (derive_message (rb_rev_ops sco) init fs) s = Some bs)"
    if "decode_restricted (derive_message (rb_rev_ops sco) init fs) bs restrict_to = Done (s, k, rest)" for k
    using distinguished_message_contract.api_restricted [OF c that] assms(2)
      message_contract.api_consumes [OF m] message_contract.api_encode(2) [OF m] by blast
  moreover have "decode_restricted (derive_message (rb_rev_ops sco) init fs) bs restrict_to = Done (s, Canonical, [])"
    if "struct_valid w fs s" "struct_depth w fs s \<le> 100"
      "encode_to_vec (derive_message (rb_rev_ops sco) init fs) s = Some bs"
    using that(3) distinguished_message_contract.api_distinguished(1) [OF c that(1,2)]
    unfolding message_contract.api_encode(2) [OF m that(1)] by simp
  ultimately show ?thesis by blast
qed

theorem derived_distinguished_witness:
  "decode_restricted (duration_message (rb_rev_ops True)) [4, 3] Canonical =
      Done (\<lparr>dur_seconds = - 2, dur_nanos = 0\<rparr>, Canonical, []) \<and>
   decode_restricted (duration_message (rb_rev_ops True)) [132, 0, 3] NotCanonical \<noteq>
      Done (\<lparr>dur_seconds = - 2, dur_nanos = 0\<rparr>, Canonical, []) \<and>
   decode_message (duration_message (rb_rev_ops True)) [4, 3] = Done (\<lparr>dur_seconds = - 2, dur_nanos = 0\<rparr>, [])"
proof -
  have e: "encode_to_vec (duration_message (rb_rev_ops True)) \<lparr>dur_seconds = - 2, dur_nanos = 0\<rparr> = Some [4, 3]"
    by (simp add: duration_msg.api_encode(2) time_body_def zigzag_def varint_bytes_small)
  note laws = derived_distinguished [OF duration.distinguished_derived_message_axioms, folded duration_message_def,
      where sco = True and s = "\<lparr>dur_seconds = - 2, dur_nanos = 0\<rparr>" and rest = "[]"]
  show ?thesis using laws [of "[4, 3]" Canonical] laws [of "[132, 0, 3]" NotCanonical] e
    by (simp add: duration_valid)
qed

text \<open>
  C32. Decoding every derived struct from any bytes ends without a panic, in relaxed mode and at any restriction, and
  success consumes all of them.
\<close>

theorem derived_decoding_total:
  assumes "distinguished_derived_message (rb_rev_ops sco) rb_contents rb_inv init fs w"
  shows "decode_message (derive_message (rb_rev_ops sco) init fs) bs \<noteq> Panic \<and>
    decode_restricted (derive_message (rb_rev_ops sco) init fs) bs restrict_to \<noteq> Panic \<and>
    (\<forall>s rest. decode_message (derive_message (rb_rev_ops sco) init fs) bs = Done (s, rest) \<longrightarrow> rest = [])"
proof -
  note c = distinguished_derived_message.distinguished_derived_message_laws [OF assms]
  note m = distinguished_message_contract.axioms(1) [OF c]
  show ?thesis
    using message_contract.api_no_panic(1) [OF m] message_contract.api_consumes [OF m]
      distinguished_message_contract.api_restricted_no_panic [OF c] by blast
qed

theorem derived_decoding_total_witness:
  "decode_message (duration_message (rb_rev_ops True)) [255, 3, 9] \<noteq> Panic"
  using derived_decoding_total [OF duration.distinguished_derived_message_axioms, of True "[255, 3, 9]"]
  by (simp add: duration_message_def)

text \<open>
  Encoding into one allocation: the buffer a \<^verbatim>\<open>Timestamp\<close> is encoded into contiguously, with a length delimiter or
  without, is one slice of exactly the bytes of the encoding, and its capacity is their number.
\<close>

theorem timestamp_contiguous:
  "(\<exists>bs r. encode_to_vec (timestamp_message (rb_rev_ops sco)) t = Some bs \<and>
     encode_contiguous (timestamp_message (rb_rev_ops sco)) t = Some r \<and>
     rb_contiguous r = Some (Some bs) \<and> rb_capacity r = length bs) \<and>
   (\<exists>bs r. encode_length_delimited_to_vec (timestamp_message (rb_rev_ops sco)) t = Some bs \<and>
     encode_length_delimited_contiguous sco (timestamp_message (rb_rev_ops sco)) t = Some r \<and>
     rb_contiguous r = Some (Some bs) \<and> rb_capacity r = length bs)"
  using encode_contiguous_laws [OF distinguished_message_contract.axioms(1)
      [OF rev_buf_contract.timestamp_contract [OF rb_fit.rev_buf_contract_axioms]] TrueI, of sco t]
    timestamp_msg.api_encode(2,3) [where v = t and sco = sco]
  by auto

text \<open>
  C40. Encoding a \<^verbatim>\<open>Timestamp\<close> into a buffer of limited room fails exactly when the announced length exceeds the room,
  reports both numbers, and otherwise appends the bytes to the buffer.
\<close>

theorem timestamp_encode_room:
  "(case message_encode (timestamp_message (rb_rev_ops sco)) t room buf of
      Some (Err e) \<Rightarrow> message_encoded_len (timestamp_message (rb_rev_ops sco)) t = Some (ee_required e) \<and>
        ee_remaining e = room \<and> room < ee_required e
    | Some (Ok buf') \<Rightarrow> (\<exists>bs. encode_to_vec (timestamp_message (rb_rev_ops sco)) t = Some bs \<and>
        buf' = buf @ bs \<and> length bs \<le> room)
    | None \<Rightarrow> False)"
  using timestamp_msg.api_encode [where v = t and sco = sco] by auto

text \<open>
  Replacing a timestamp from bytes, in both modes, is decoding a new one: the result is the same, and when it is an
  error the message that was there is left empty, not half decoded.
\<close>

theorem timestamp_replace:
  "replace_from (timestamp_message (rb_rev_ops sco)) t bs =
     (case decode_message (timestamp_message (rb_rev_ops sco)) bs of
        Done (u, rest) \<Rightarrow> (u, Done rest)
      | Fail e \<Rightarrow> (message_new_empty (timestamp_message (rb_rev_ops sco)), Fail e)
      | Panic \<Rightarrow> (message_new_empty (timestamp_message (rb_rev_ops sco)), Panic)) \<and>
   replace_restricted_from (timestamp_message (rb_rev_ops sco)) t bs k =
     (case decode_restricted (timestamp_message (rb_rev_ops sco)) bs k of
        Done (u, k, rest) \<Rightarrow> (u, Done (k, rest))
      | Fail e \<Rightarrow> (message_new_empty (timestamp_message (rb_rev_ops sco)), Fail e)
      | Panic \<Rightarrow> (message_new_empty (timestamp_message (rb_rev_ops sco)), Panic)) \<and>
   decode_message (timestamp_message (rb_rev_ops sco)) bs \<noteq> Panic \<and>
   decode_restricted (timestamp_message (rb_rev_ops sco)) bs k \<noteq> Panic"
  unfolding message_new_empty_def
  by (intro conjI timestamp_msg.api_replace timestamp_msg.api_replace_restricted timestamp_msg.api_no_panic
    timestamp_msg.api_restricted_no_panic TrueI)

end
