(* ===== verification/Instances.thy ===== *)
theory Instances
  imports Struct_Properties Plain_Bytes
begin

text \<open>
  The contracts of the library on the codecs of the code and its prepend buffer: floats, integers and byte
  strings as values, vectors and ordered sets of integers as packed and unpacked fields, messages as values;
  and what follows for values, collections and nested messages.
\<close>

section \<open>Values\<close>

interpretation f32_value: value_codec "rb_rev_ops sco" rb_contents rb_inv "fixed_f32 (rb_rev_ops sco)"
  "le_bytes 4" "\<lambda>_. True" "\<lambda>_. 0"
  by (rule rev_buf_contract.fixed_float_laws(1) [OF rb_rev.rev_buf_contract_axioms])

interpretation f64_value: value_codec "rb_rev_ops sco" rb_contents rb_inv "fixed_f64 (rb_rev_ops sco)"
  "le_bytes 8" "\<lambda>_. True" "\<lambda>_. 0"
  by (rule rev_buf_contract.fixed_float_laws(2) [OF rb_rev.rev_buf_contract_axioms])

interpretation u32_value: distinguished_codec "rb_rev_ops sco" rb_contents rb_inv "varint_u32 (rb_rev_ops sco)"
  "\<lambda>v. varint_bytes (ucast v)" "\<lambda>_. True" "\<lambda>_. 0"
  by (rule rev_buf_contract.varint_laws(6) [OF rb_rev.rev_buf_contract_axioms])

interpretation i64_value: distinguished_codec "rb_rev_ops sco" rb_contents rb_inv "varint_i64 (rb_rev_ops sco)"
  "\<lambda>v. varint_bytes (zigzag v)" "\<lambda>_. True" "\<lambda>_. 0"
  by (rule rev_buf_contract.varint_signed_laws(7) [OF rb_rev.rev_buf_contract_axioms])

interpretation bytes_value: distinguished_codec "rb_rev_ops sco" rb_contents rb_inv "plain_vec_u8 (rb_rev_ops sco)"
  delimited "\<lambda>v. True \<and> length v < 2 ^ 64" "\<lambda>_. 0"
  by (rule rev_buf_contract.plain_bytes_laws(1) [OF rb_rev.rev_buf_contract_axioms])

text \<open>A timestamp as the value of a field.\<close>

interpretation timestamp_value: distinguished_codec "rb_rev_ops sco" rb_contents rb_inv
  "message_codec (rb_rev_ops sco) (timestamp_message (rb_rev_ops sco))"
  "\<lambda>t. delimited (time_body (ts_seconds t) (ts_nanos t))" "\<lambda>_. True" "\<lambda>_. Suc 0"
  by (rule timestamp_msg.message_distinguished_laws)

interpretation seconds_member: member_contract "rb_rev_ops sco" rb_contents rb_inv
  "value_field 1 dur_seconds (\<lambda>v s. s\<lparr>dur_seconds := v\<rparr>) (default_empty_state 0)
    (plain_field (rb_rev_ops sco) (varint_i64 (rb_rev_ops sco)) (default_empty_state 0))"
  "value_view 1 dur_seconds seconds_parts (\<lambda>_. True) (\<lambda>_. 0)"
  by (rule seconds_field.value_field_member) simp

interpretation nanos_member: distinguished_member_contract "rb_rev_ops sco" rb_contents rb_inv
  "value_field 2 dur_nanos (\<lambda>v s. s\<lparr>dur_nanos := v\<rparr>) (default_empty_state 0)
    (plain_field (rb_rev_ops sco) (fixed_i32 (rb_rev_ops sco)) (default_empty_state 0))"
  "value_view 2 dur_nanos nanos_parts (\<lambda>_. True) (\<lambda>_. 0)"
  by (rule nanos_field.value_field_distinguished_member) simp

section \<open>Collections\<close>

interpretation u32_vec: repeated_codec "rb_rev_ops sco" rb_contents rb_inv "varint_u32 (rb_rev_ops sco)"
  "\<lambda>v. varint_bytes (ucast v)" "\<lambda>_. True" "\<lambda>_. 0" vec_collection "\<lambda>_. True"
  by (intro repeated_codec.intro repeated_values.intro u32_value.value_codec_axioms u32_value.distinguished_codec_axioms
      vec.collection_contract_axioms)

interpretation u32_set: repeated_codec "rb_rev_ops sco" rb_contents rb_inv "varint_u32 (rb_rev_ops sco)"
  "\<lambda>v. varint_bytes (ucast v)" "\<lambda>_. True" "\<lambda>_. 0" btree_set_collection "sorted_wrt (<)"
  by (intro repeated_codec.intro repeated_values.intro u32_value.value_codec_axioms u32_value.distinguished_codec_axioms
      btree_set.collection_contract_axioms)

text \<open>What a field encoder writes at the start of a message, read back up to the key.\<close>

lemma encoded_field_key:
  assumes "writes_parts (tagged tag ((wt, val) # ps)) f" and "f tag_writer_new [] = Some (tw, bs)"
  shows "decode_key slice_ops tag_reader_new \<lparr>cap_buf = bs, cap_extra = 0\<rparr> =
    Done (tag, wt, \<lparr>tr_last_tag = tag\<rparr>, \<lparr>cap_buf = val @ run_bytes ps, cap_extra = 0\<rparr>)"
proof -
  have "f tag_writer_new [] = Some (\<lparr>tw_last_tag = tag\<rparr>, varint_bytes (key_of tag wt) @ val @ run_bytes ps)"
    using writes_partsD [OF assms(1), of 0 "[]"]
    by (simp add: tag_writer_new_def final_tag_tagged fields_bytes_tagged)
  then show ?thesis using assms(2) by (auto simp: decode_key_Done tag_reader_new_def)
qed

section \<open>Properties\<close>

text \<open>
  C18. The two representations of a repeated field interchange: whichever of the packed and unpacked encoders writes
  a nonempty collection of values that are not length-delimited, either decoder, after the key, restores it.
\<close>

theorem repeated_forms_interchange:
  assumes rc: "repeated_codec rops rcontents rinv c enc valid depth col cvalid" and w: "c_wire c \<noteq> WtLengthDelimited"
    and v: "packed_valid enc valid col cvalid v" "col_iter col v \<noteq> []"
    and d: "list_depth depth (col_iter col v) \<le> unat (recurse_count ctx)"
    and fe: "fe = packed_field rops c col \<or> fe = unpacked_field rops c col"
    and fd: "fd = packed_field rops c col \<or> fd = unpacked_field rops c col"
    and e: "f_encode fe tag v tag_writer_new [] = Some (tw, bs)"
  shows "\<exists>wt rest. decode_key slice_ops tag_reader_new \<lparr>cap_buf = bs, cap_extra = 0\<rparr> =
      Done (tag, wt, \<lparr>tr_last_tag = tag\<rparr>, \<lparr>cap_buf = rest, cap_extra = 0\<rparr>) \<and>
    f_decode fd wt (col_empty col) \<lparr>cap_buf = rest, cap_extra = 0\<rparr> ctx = Done (v, \<lparr>cap_buf = [], cap_extra = 0\<rparr>)"
proof -
  note rv = repeated_codec.axioms(1) [OF rc]
  have u: "unpacked_valid valid col cvalid v" using v by (simp add: unpacked_valid_def packed_valid_def)
  have ne: "v \<noteq> col_empty col"
    using v repeated_values.iter_Nil_iff [OF rv] by (auto simp: packed_valid_def)
  obtain y ys where y: "col_iter col v = y # ys" using v(2) by (cases "col_iter col v") auto
  have end0: "ends_field [] 0" by (simp add: ends_field_def)
  from fe show ?thesis
  proof
    assume fe: "fe = packed_field rops c col"
    have "writes_parts (tagged tag [(WtLengthDelimited, packed_enc enc col v)]) (f_encode fe tag v)"
      using field_contract.encode [OF repeated_values.packed_field_laws [OF rv] v(1), of tag] ne
      by (simp add: fe one_part_def collection_empty_state_def packed_codec_def)
    from encoded_field_key [OF this e] show ?thesis
      using repeated_values.packed_decode_eq [OF rv v(1) d, of 0 "[]"] w fd
      by (auto simp: packed_field_def unpacked_field_def packed_decode_def unpacked_decode_def)
  next
    assume fe: "fe = unpacked_field rops c col"
    have "writes_parts (tagged tag ((c_wire c, enc y) # item_parts c enc ys)) (f_encode fe tag v)"
      using field_contract.encode [OF repeated_values.unpacked_field_laws [OF rv] u, of tag] y
      by (simp add: fe)
    from encoded_field_key [OF this e] show ?thesis
      using repeated_values.unpacked_decode_only_eq [OF rv u d _ end0] w fd y
      by (auto simp: packed_field_def unpacked_field_def packed_decode_def unpacked_decode_def)
  qed
qed

text \<open>
  C19. An ordered set in a packed field, whatever distinguished encoding its items have, is decoded as canonical exactly
  from the bytes its own encoding has after the key: one packed value that is not empty, with its items in ascending
  order without repetitions.
\<close>

theorem packed_set_canonical:
  assumes rc: "repeated_codec rops rcontents rinv c enc valid depth (btree_set_collection :: ('t::linorder list, 't) collection) (sorted_wrt (<))"
    and b: "length bs < 2 ^ 64" and d: "\<forall>x \<in> set v. depth x \<le> unat (recurse_count (into_inner ctx))"
  shows "f_decode_dist (packed_field rops c btree_set_collection) wt [] \<lparr>cap_buf = bs, cap_extra = 0\<rparr> ctx =
      Done (v, Canonical, \<lparr>cap_buf = rest, cap_extra = 0\<rparr>) \<longleftrightarrow>
    wt = WtLengthDelimited \<and> bs = delimited (concat (map enc v)) @ rest \<and>
    v \<noteq> [] \<and> sorted_wrt (<) v \<and> (\<forall>x \<in> set v. valid x)"
proof -
  let ?col = "btree_set_collection :: ('t list, 't) collection"
  have e: "col_empty ?col = []" "col_is_empty ?col = (\<lambda>v. v = [])" "col_iter ?col v = v"
    by (simp_all add: btree_set_collection_def)
  show ?thesis (is "?l \<longleftrightarrow> ?r")
  proof
    assume l: ?l
    then have "packed_decode_value_distinguished c ?col False [] \<lparr>cap_buf = bs, cap_extra = 0\<rparr> ctx =
        Done (v, Canonical, \<lparr>cap_buf = rest, cap_extra = 0\<rparr>) \<and> wt = WtLengthDelimited \<and> v \<noteq> []"
      by (auto simp: packed_field_def packed_decode_distinguished_def e split: if_splits)
    then show ?r
      using repeated_codec.packed_dist_canonical [OF rc, of False "\<lparr>cap_buf = bs, cap_extra = 0\<rparr>" ctx v] b
      by (auto simp: e packed_enc_def packed_valid_def)
  next
    assume r: ?r
    then have "packed_valid enc valid ?col (sorted_wrt (<)) v"
      using b by (simp add: packed_valid_def e delimited_def)
    then show ?l
      using repeated_codec.packed_dist_eq [OF rc, of v ctx 0 rest False] r d
      by (simp add: packed_field_def packed_decode_distinguished_def e packed_enc_def list_depth_le)
  qed
qed

theorem repeated_forms_interchange_witness:
  "\<exists>wt rest. decode_key slice_ops tag_reader_new \<lparr>cap_buf = [20, 1, 0, 172, 1], cap_extra = 0\<rparr> =
      Done (5, wt, \<lparr>tr_last_tag = 5\<rparr>, \<lparr>cap_buf = rest, cap_extra = 0\<rparr>) \<and>
    f_decode (packed_field (rb_rev_ops True) (varint_u32 (rb_rev_ops True)) vec_collection) wt []
      \<lparr>cap_buf = rest, cap_extra = 0\<rparr> context_default = Done ([1, 300], \<lparr>cap_buf = [], cap_extra = 0\<rparr>)"
proof -
  have v: "packed_valid (\<lambda>v. varint_bytes (ucast v)) (\<lambda>_. True) vec_collection (\<lambda>_. True) ([1, 300] :: u32 list)"
    using length_varint_bytes(2) [of 1] length_varint_bytes(2) [of 300]
    by (simp add: packed_valid_def vec_collection_def)
  have e: "f_encode (unpacked_field (rb_rev_ops True) (varint_u32 (rb_rev_ops True)) vec_collection) 5 [1, 300]
      tag_writer_new [] = Some (\<lparr>tw_last_tag = 5\<rparr>, [20, 1, 0, 172, 1])"
    by code_simp
  have w: "c_wire (varint_u32 (rb_rev_ops True)) \<noteq> WtLengthDelimited" and n: "col_iter vec_collection [1, 300 :: u32] \<noteq> []"
    and d: "list_depth (\<lambda>_. 0) (col_iter vec_collection [1, 300 :: u32]) \<le> unat (recurse_count context_default)"
    and o: "col_empty vec_collection = ([] :: u32 list)"
    by (simp_all add: varint_u32_def varint_codec_def vec_collection_def list_depth_def)
  show ?thesis
    using repeated_forms_interchange [OF u32_vec.repeated_codec_axioms w v n d disjI2 [OF refl] disjI1 [OF refl] e]
    unfolding o .
qed

theorem packed_set_canonical_witness:
  "f_decode_dist (packed_field (rb_rev_ops True) (varint_u32 (rb_rev_ops True)) btree_set_collection)
      WtLengthDelimited [] \<lparr>cap_buf = [2, 3, 9], cap_extra = 0\<rparr> (restricted_new Canonical) =
    Done ([3, 9], Canonical, \<lparr>cap_buf = [], cap_extra = 0\<rparr>) \<and>
   f_decode_dist (packed_field (rb_rev_ops True) (varint_u32 (rb_rev_ops True)) btree_set_collection)
      WtLengthDelimited [] \<lparr>cap_buf = [2, 9, 3], cap_extra = 0\<rparr> (restricted_new NotCanonical) \<noteq>
    Done ([3, 9], Canonical, \<lparr>cap_buf = [], cap_extra = 0\<rparr>)"
  using packed_set_canonical [OF u32_set.repeated_codec_axioms, of "[2, 3, 9]" "[3, 9]" "restricted_new Canonical" True WtLengthDelimited "[]"]
    packed_set_canonical [OF u32_set.repeated_codec_axioms, of "[2, 9, 3]" "[3, 9]" "restricted_new NotCanonical" True WtLengthDelimited "[]"]
  by (simp add: delimited_def varint_bytes_small)

end
