(* ===== verification/Maps.thy ===== *)
theory Maps
  imports Packed
begin

text \<open>
  The encoding \<^verbatim>\<open>Map\<close> of \<^verbatim>\<open>src/src/encoding/map.rs\<close>: the keys and values of a mapping in turn, in one length-delimited
  value. A mapping is the collection of its entries. The codec of an entry, a key and then a value, makes a map a
  packed run of entries, and its laws are those of packed values; only the early test of the length
  differs, for the fixed sizes of keys and values are added up.
\<close>

section \<open>The codec\<close>

definition combined_fixed_size :: "wire_type \<Rightarrow> wire_type \<Rightarrow> nat option" where
  "combined_fixed_size a b =
    (case (fixed_size a, fixed_size b) of (Some a, Some b) \<Rightarrow> Some (a + b) | _ \<Rightarrow> None)"

definition map_encoded_length ::
    "('k, 'r) codec \<Rightarrow> ('v, 'r) codec \<Rightarrow> ('m, 'k \<times> 'v) collection \<Rightarrow> 'm \<Rightarrow> nat" where
  "map_encoded_length ke ve col value =
    (case combined_fixed_size (c_wire ke) (c_wire ve) of
       None \<Rightarrow> sum_list (map (\<lambda>(k, v). c_len ke k + c_len ve v) (col_iter col value))
     | Some fixed \<Rightarrow> col_len col value * fixed)"

fun encode_entries ::
    "('k, 'r) codec \<Rightarrow> ('v, 'r) codec \<Rightarrow> ('k \<times> 'v) list \<Rightarrow> bytes \<Rightarrow> bytes option" where
  "encode_entries ke ve [] buf = Some buf"
| "encode_entries ke ve ((k, v) # es) buf = do {
     buf \<leftarrow> c_encode ke k buf;
     buf \<leftarrow> c_encode ve v buf;
     encode_entries ke ve es buf
   }"

fun prepend_entries ::
    "('k, 'r) codec \<Rightarrow> ('v, 'r) codec \<Rightarrow> ('k \<times> 'v) list \<Rightarrow> 'r \<Rightarrow> 'r option" where
  "prepend_entries ke ve [] buf = Some buf"
| "prepend_entries ke ve ((k, v) # es) buf = do {
     buf \<leftarrow> c_prepend ve v buf;
     buf \<leftarrow> c_prepend ke k buf;
     prepend_entries ke ve es buf
   }"

definition map_encode_value ::
    "('k, 'r) codec \<Rightarrow> ('v, 'r) codec \<Rightarrow> ('m, 'k \<times> 'v) collection \<Rightarrow> 'm \<Rightarrow> bytes \<Rightarrow> bytes option" where
  "map_encode_value ke ve col value buf =
    encode_entries ke ve (col_iter col value) (encode_varint (of_nat (map_encoded_length ke ve col value)) buf)"

definition map_prepend_value ::
    "'r rev_ops \<Rightarrow> ('k, 'r) codec \<Rightarrow> ('v, 'r) codec \<Rightarrow> ('m, 'k \<times> 'v) collection \<Rightarrow> 'm \<Rightarrow> 'r \<Rightarrow> 'r option" where
  "map_prepend_value rops ke ve col value buf = do {
     let end_pos = r_remaining rops buf;
     buf \<leftarrow> prepend_entries ke ve (col_reversed col value) buf;
     n \<leftarrow> (if end_pos \<le> r_remaining rops buf then Some (r_remaining rops buf - end_pos) else None);
     prepend_varint rops (of_nat n) buf
   }"

definition map_value_encoded_len ::
    "('k, 'r) codec \<Rightarrow> ('v, 'r) codec \<Rightarrow> ('m, 'k \<times> 'v) collection \<Rightarrow> 'm \<Rightarrow> nat" where
  "map_value_encoded_len ke ve col value =
    (let inner_len = map_encoded_length ke ve col value in encoded_len_varint (of_nat inner_len) + inner_len)"

primrec map_decode_loop ::
    "('k, 'r) codec \<Rightarrow> ('v, 'r) codec \<Rightarrow> ('m, 'k \<times> 'v) collection \<Rightarrow> nat \<Rightarrow> 'm \<Rightarrow> bytes capped \<Rightarrow> decode_context \<Rightarrow>
     ('m \<times> bytes capped) outcome" where
  "map_decode_loop ke ve col 0 value capped ctx = Panic"
| "map_decode_loop ke ve col (Suc fuel) value capped ctx =
    obind (has_remaining slice_ops capped) (\<lambda>more.
      if \<not> more then Done (value, capped)
      else obind (c_decode ke (c_for_overwrite ke) capped ctx) (\<lambda>(new_key, capped).
        obind (c_decode ve (c_for_overwrite ve) capped ctx) (\<lambda>(new_val, capped).
          obind (col_insert col (new_key, new_val) value) (\<lambda>value.
            map_decode_loop ke ve col fuel value capped ctx))))"

definition map_decode_value ::
    "('k, 'r) codec \<Rightarrow> ('v, 'r) codec \<Rightarrow> ('m, 'k \<times> 'v) collection \<Rightarrow> 'm \<Rightarrow> bytes capped \<Rightarrow> decode_context \<Rightarrow>
     ('m \<times> bytes capped) outcome" where
  "map_decode_value ke ve col value cp ctx =
    obind (take_length_delimited slice_ops cp) (\<lambda>capped.
      if uneven (combined_fixed_size (c_wire ke) (c_wire ve)) (remaining_before_cap slice_ops capped) then Fail Truncated
      else obind (map_decode_loop ke ve col (length (cap_buf capped) + 1) value capped ctx)
        (\<lambda>(value, capped). Done (value, cap_outer cp capped)))"

primrec map_decode_dist_loop ::
    "('k, 'r) codec \<Rightarrow> ('v, 'r) codec \<Rightarrow> ('m, 'k \<times> 'v) collection \<Rightarrow> nat \<Rightarrow> 'm \<Rightarrow> canonicity \<Rightarrow> bytes capped \<Rightarrow>
     restricted_context \<Rightarrow> ('m \<times> canonicity \<times> bytes capped) outcome" where
  "map_decode_dist_loop ke ve col 0 value canon capped ctx = Panic"
| "map_decode_dist_loop ke ve col (Suc fuel) value canon capped ctx =
    obind (has_remaining slice_ops capped) (\<lambda>more.
      if \<not> more then Done (value, canon, capped)
      else obind (c_decode_dist ke True (c_for_overwrite ke) capped ctx) (\<lambda>(new_key, k, capped).
        let canon = canonicity_update canon k in
        obind (c_decode_dist ve True (c_for_overwrite ve) capped ctx) (\<lambda>(new_val, k, capped).
          let canon = canonicity_update canon k in
          obind (col_insert_dist col (new_key, new_val) value) (\<lambda>(value, k).
            obind (from_result (check ctx k)) (\<lambda>k.
              map_decode_dist_loop ke ve col fuel value (canonicity_update canon k) capped ctx)))))"

definition map_decode_value_distinguished ::
    "('k, 'r) codec \<Rightarrow> ('v, 'r) codec \<Rightarrow> ('m, 'k \<times> 'v) collection \<Rightarrow> bool \<Rightarrow> 'm \<Rightarrow> bytes capped \<Rightarrow> restricted_context \<Rightarrow>
     ('m \<times> canonicity \<times> bytes capped) outcome" where
  "map_decode_value_distinguished ke ve col allow_empty value cp ctx =
    obind (take_length_delimited slice_ops cp) (\<lambda>capped.
      if uneven (combined_fixed_size (c_wire ke) (c_wire ve)) (remaining_before_cap slice_ops capped) then Fail Truncated
      else obind (map_decode_dist_loop ke ve col (length (cap_buf capped) + 1) value Canonical capped ctx)
        (\<lambda>(value, canon, capped). Done (value, canon, cap_outer cp capped)))"

definition map_codec ::
    "'r rev_ops \<Rightarrow> ('k, 'r) codec \<Rightarrow> ('v, 'r) codec \<Rightarrow> ('m, 'k \<times> 'v) collection \<Rightarrow> ('m, 'r) codec" where
  "map_codec rops ke ve col = \<lparr>
     c_wire = WtLengthDelimited,
     c_for_overwrite = col_empty col,
     c_encode = map_encode_value ke ve col,
     c_prepend = map_prepend_value rops ke ve col,
     c_len = map_value_encoded_len ke ve col,
     c_many_len = many_values_encoded_len WtLengthDelimited (map_value_encoded_len ke ve col),
     c_decode = map_decode_value ke ve col,
     c_checks_empty = False,
     c_decode_dist = map_decode_value_distinguished ke ve col\<rparr>"

section \<open>A map is a packed run of entries\<close>

text \<open>The codec of one entry, for the proofs alone.\<close>

definition entry_codec :: "('k, 'r) codec \<Rightarrow> ('v, 'r) codec \<Rightarrow> ('k \<times> 'v, 'r) codec" where
  "entry_codec ke ve = \<lparr>
     c_wire = WtLengthDelimited,
     c_for_overwrite = (c_for_overwrite ke, c_for_overwrite ve),
     c_encode = (\<lambda>(k, v) buf. c_encode ke k buf \<bind> c_encode ve v),
     c_prepend = (\<lambda>(k, v) buf. c_prepend ve v buf \<bind> c_prepend ke k),
     c_len = (\<lambda>(k, v). c_len ke k + c_len ve v),
     c_many_len = (\<lambda>es. sum_list (map (\<lambda>(k, v). c_len ke k + c_len ve v) es)),
     c_decode = (\<lambda>(k, v) cp ctx. obind (c_decode ke k cp ctx) (\<lambda>(k, cp).
       obind (c_decode ve v cp ctx) (\<lambda>(v, cp). Done ((k, v), cp)))),
     c_checks_empty = False,
     c_decode_dist = (\<lambda>_ (k, v) cp ctx. obind (c_decode_dist ke True k cp ctx) (\<lambda>(k, l, cp).
       obind (c_decode_dist ve True v cp ctx) (\<lambda>(v, m, cp). Done ((k, v), canonicity_update l m, cp))))\<rparr>"

definition entry_enc :: "('k \<Rightarrow> bytes) \<Rightarrow> ('v \<Rightarrow> bytes) \<Rightarrow> 'k \<times> 'v \<Rightarrow> bytes" where
  "entry_enc kenc venc e = kenc (fst e) @ venc (snd e)"

definition entry_valid :: "('k \<Rightarrow> bool) \<Rightarrow> ('v \<Rightarrow> bool) \<Rightarrow> 'k \<times> 'v \<Rightarrow> bool" where
  "entry_valid kvalid vvalid e \<longleftrightarrow> kvalid (fst e) \<and> vvalid (snd e)"

definition entry_depth :: "('k \<Rightarrow> nat) \<Rightarrow> ('v \<Rightarrow> nat) \<Rightarrow> 'k \<times> 'v \<Rightarrow> nat" where
  "entry_depth kdepth vdepth e = max (kdepth (fst e)) (vdepth (snd e))"

lemmas entry_simps = entry_codec_def entry_enc_def entry_valid_def entry_depth_def

lemma entry_codec_encode [simp]: "c_encode (entry_codec ke ve) e buf = c_encode ke (fst e) buf \<bind> c_encode ve (snd e)"
  by (simp add: entry_codec_def split_def)

lemma entry_codec_prepend [simp]: "c_prepend (entry_codec ke ve) e buf = c_prepend ve (snd e) buf \<bind> c_prepend ke (fst e)"
  by (simp add: entry_codec_def split_def)

lemma entry_codec_wire [simp]: "c_wire (entry_codec ke ve) = WtLengthDelimited"
  by (simp add: entry_codec_def)

lemma encode_entries_eq: "encode_entries ke ve es = encode_all (entry_codec ke ve) es"
  by (induction es) (auto simp: fun_eq_iff split: option.splits intro!: Option.bind_cong)

lemma prepend_entries_eq: "prepend_entries ke ve es = prepend_all (entry_codec ke ve) es"
  by (induction es) (auto simp: fun_eq_iff split: option.splits intro!: Option.bind_cong)

lemma map_decode_loop_eq:
  "map_decode_loop ke ve col fuel m cp ctx = packed_decode_loop (entry_codec ke ve) col fuel m cp ctx"
  by (induction fuel arbitrary: m cp) (simp_all add: entry_codec_def obind_assoc split_def)

lemma canonicity_update_assoc: "canonicity_update (canonicity_update a b) c = canonicity_update a (canonicity_update b c)"
  by (simp add: canonicity_update_def min.assoc)

lemma map_decode_dist_loop_eq:
  "map_decode_dist_loop ke ve col fuel m k cp ctx = packed_decode_dist_loop (entry_codec ke ve) col fuel m k cp ctx"
  by (induction fuel arbitrary: m k cp)
    (simp_all add: entry_codec_def obind_assoc split_def Let_def canonicity_update_assoc)

locale map_values =
  key: value_codec rops rcontents rinv ke kenc kvalid kdepth +
  val: value_codec rops rcontents rinv ve venc vvalid vdepth +
  collection_contract col cvalid
  for rops :: "'r rev_ops" and rcontents :: "'r \<Rightarrow> bytes" and rinv :: "'r \<Rightarrow> bool"
    and ke :: "('k, 'r) codec" and kenc :: "'k \<Rightarrow> bytes" and kvalid :: "'k \<Rightarrow> bool" and kdepth :: "'k \<Rightarrow> nat"
    and ve :: "('v, 'r) codec" and venc :: "'v \<Rightarrow> bytes" and vvalid :: "'v \<Rightarrow> bool" and vdepth :: "'v \<Rightarrow> nat"
    and col :: "('m, 'k \<times> 'v) collection" and cvalid :: "'m \<Rightarrow> bool"
begin

lemma entry_laws:
  "value_codec rops rcontents rinv (entry_codec ke ve) (entry_enc kenc venc) (entry_valid kvalid vvalid)
    (entry_depth kdepth vdepth)"
proof unfold_locales
  fix e e0 :: "'k \<times> 'v" and buf r n ctx x cp cp' and rest :: bytes
  obtain k v k0 v0 where e: "e = (k, v)" "e0 = (k0, v0)" by (cases e; cases e0)
  show "c_decode (entry_codec ke ve) e0 cp ctx \<noteq> Panic"
    by (auto simp: e entry_codec_def obind_Panic_iff key.decode_no_panic val.decode_no_panic)
  show "cap_extra cp' = cap_extra cp \<and> (\<exists>p. p \<noteq> [] \<and> cap_buf cp = p @ cap_buf cp')"
    if h: "c_decode (entry_codec ke ve) e0 cp ctx = Done (e, cp')"
  proof -
    obtain cp1 where 1: "c_decode ke k0 cp ctx = Done (k, cp1)" "c_decode ve v0 cp1 ctx = Done (v, cp')"
      using h by (auto simp: e entry_codec_def)
    obtain p q where "p \<noteq> []" "cap_buf cp = p @ cap_buf cp1" "cap_buf cp1 = q @ cap_buf cp'"
      "cap_extra cp1 = cap_extra cp" "cap_extra cp' = cap_extra cp1"
      using key.decode_frame [OF 1(1)] val.decode_frame [OF 1(2)] by blast
    then show ?thesis by (intro conjI exI [of _ "p @ q"]) simp_all
  qed
  assume "entry_valid kvalid vvalid e"
  then have v: "kvalid k" "vvalid v" by (simp_all add: e entry_valid_def)
  show "c_encode (entry_codec ke ve) e buf = Some (buf @ entry_enc kenc venc e)"
    using v by (simp add: e entry_codec_def entry_enc_def key.encode val.encode)
  show "c_len (entry_codec ke ve) e = length (entry_enc kenc venc e)"
    using v by (simp add: e entry_codec_def entry_enc_def key.len val.len)
  show "\<exists>r'. c_prepend (entry_codec ke ve) e r = Some r' \<and> rinv r' \<and> rcontents r' = entry_enc kenc venc e @ rcontents r"
    if r: "rinv r"
  proof -
    obtain r1 where 1: "c_prepend ve v r = Some r1" "rinv r1" "rcontents r1 = venc v @ rcontents r"
      using val.prepend [OF v(2) r] by blast
    show ?thesis using key.prepend [OF v(1) 1(2)] 1 by (simp add: e entry_codec_def entry_enc_def)
  qed
  show "entry_enc kenc venc e \<noteq> []" using key.nonempty [OF v(1)] by (simp add: e entry_enc_def)
  show "length (entry_enc kenc venc e) = n" if "fixed_size (c_wire (entry_codec ke ve)) = Some n"
    using that by (simp add: entry_codec_def)
  assume d: "entry_depth kdepth vdepth e \<le> unat (recurse_count ctx)" and x: "x \<le> length rest"
  then show "c_decode (entry_codec ke ve) (c_for_overwrite (entry_codec ke ve))
      \<lparr>cap_buf = entry_enc kenc venc e @ rest, cap_extra = x\<rparr> ctx = Done (e, \<lparr>cap_buf = rest, cap_extra = x\<rparr>)"
    using key.decode [OF v(1), of ctx x "venc v @ rest"] val.decode [OF v(2), of ctx x rest]
    by (simp add: e entry_codec_def entry_enc_def entry_depth_def)
next
  fix es
  assume "\<forall>e \<in> set es. entry_valid kvalid vvalid e"
  then show "c_many_len (entry_codec ke ve) es = sum_list (map (\<lambda>e. length (entry_enc kenc venc e)) es)"
    by (induction es) (auto simp: entry_codec_def entry_enc_def entry_valid_def key.len val.len)
qed

sublocale entries: repeated_values rops rcontents rinv "entry_codec ke ve" "entry_enc kenc venc"
  "entry_valid kvalid vvalid" "entry_depth kdepth vdepth" col cvalid
  by (intro repeated_values.intro entry_laws collection_contract_axioms)

lemma entry_length:
  assumes "kvalid k" "vvalid v" and "combined_fixed_size (c_wire ke) (c_wire ve) = Some n"
  shows "length (kenc k @ venc v) = n"
  using assms key.fixed val.fixed by (auto simp: combined_fixed_size_def split: option.splits)

lemma entries_length:
  "\<forall>e \<in> set es. entry_valid kvalid vvalid e \<Longrightarrow> combined_fixed_size (c_wire ke) (c_wire ve) = Some n \<Longrightarrow>
   length (concat (map (entry_enc kenc venc) es)) = length es * n"
proof (induction es)
  case (Cons e es)
  then show ?case using entry_length [of "fst e" "snd e" n] by (simp add: entry_enc_def entry_valid_def)
qed simp

abbreviation map_valid :: "'m \<Rightarrow> bool" where
  "map_valid \<equiv> packed_valid (entry_enc kenc venc) (entry_valid kvalid vvalid) col cvalid"

lemma map_encoded_length_eq:
  assumes "map_valid m"
  shows "map_encoded_length ke ve col m = length (concat (map (entry_enc kenc venc) (col_iter col m)))"
proof (cases "combined_fixed_size (c_wire ke) (c_wire ve)")
  case None
  have "(\<Sum>(k, v)\<leftarrow>es. c_len ke k + c_len ve v) = length (concat (map (entry_enc kenc venc) es))"
    if "\<forall>e \<in> set es. entry_valid kvalid vvalid e" for es
    using that by (induction es) (auto simp: entry_enc_def entry_valid_def key.len val.len)
  then show ?thesis using assms None by (simp add: map_encoded_length_def packed_valid_def)
next
  case (Some n)
  then show ?thesis
    using assms entries_length [OF _ Some] len by (simp add: map_encoded_length_def packed_valid_def)
qed

lemma map_decode_cases:
  "map_decode_value ke ve col m cp ctx = Done (m', cp') \<longleftrightarrow>
    (\<exists>capped. take_length_delimited slice_ops cp = Done capped \<and>
      \<not> uneven (combined_fixed_size (c_wire ke) (c_wire ve)) (remaining_before_cap slice_ops capped) \<and>
      packed_decode_value (entry_codec ke ve) col m cp ctx = Done (m', cp'))"
  by (auto simp: map_decode_value_def packed_decode_value_def map_decode_loop_eq uneven_def
      simp del: take_length_delimited_Done packed_decode_loop.simps split: if_splits option.splits)

lemma entries_even:
  assumes "map_valid m"
  shows "\<not> uneven (combined_fixed_size (c_wire ke) (c_wire ve)) (length (concat (map (entry_enc kenc venc) (col_iter col m))))"
  using assms entries_length by (auto simp: uneven_def packed_valid_def split: option.split)

lemma map_codec_laws:
  "value_codec rops rcontents rinv (map_codec rops ke ve col) (packed_enc (entry_enc kenc venc) col) map_valid
    (\<lambda>m. list_depth (entry_depth kdepth vdepth) (col_iter col m))"
proof unfold_locales
  let ?c = "map_codec rops ke ve col"
  fix m m0 buf r n ctx x cp cp' and rest :: bytes
  show "c_decode ?c m0 cp ctx \<noteq> Panic"
    using entries.packed_loop_not_Panic
    by (auto simp: map_codec_def map_decode_value_def obind_Panic_iff map_decode_loop_eq
        simp del: take_length_delimited_Done packed_decode_loop.simps)
  show "cap_extra cp' = cap_extra cp \<and> (\<exists>p. p \<noteq> [] \<and> cap_buf cp = p @ cap_buf cp')"
    if "c_decode ?c m0 cp ctx = Done (m, cp')"
  proof -
    have "packed_decode_value (entry_codec ke ve) col m0 cp ctx = Done (m, cp')"
      using that by (auto simp: map_codec_def map_decode_cases simp del: take_length_delimited_Done)
    then show ?thesis by (rule entries.packed_decode_frame)
  qed
  assume m: "map_valid m"
  then have v: "\<forall>e \<in> set (col_iter col m). entry_valid kvalid vvalid e" by (simp add: packed_valid_def)
  show "c_encode ?c m buf = Some (buf @ packed_enc (entry_enc kenc venc) col m)"
    using map_encoded_length_eq [OF m]
    by (simp add: map_codec_def map_encode_value_def encode_varint_bytes encode_entries_eq
        entries.encode_all_eq [OF v] packed_enc_def delimited_def)
  show "c_len ?c m = length (packed_enc (entry_enc kenc venc) col m)"
    using map_encoded_length_eq [OF m]
    by (simp add: map_codec_def map_value_encoded_len_def packed_enc_def delimited_def encoded_len_varint_bytes Let_def)
  show "\<exists>r'. c_prepend ?c m r = Some r' \<and> rinv r' \<and> rcontents r' = packed_enc (entry_enc kenc venc) col m @ rcontents r"
    if "rinv r"
    using entries.packed_prepend_eq [OF m that]
    by (simp add: map_codec_def map_prepend_value_def packed_prepend_value_def prepend_entries_eq)
  show "packed_enc (entry_enc kenc venc) col m \<noteq> []" by (simp add: packed_enc_def)
  show "length (packed_enc (entry_enc kenc venc) col m) = n" if "fixed_size (c_wire ?c) = Some n"
    using that by (simp add: map_codec_def)
  assume d: "list_depth (entry_depth kdepth vdepth) (col_iter col m) \<le> unat (recurse_count ctx)" and x: "x \<le> length rest"
  have t: "take_length_delimited slice_ops \<lparr>cap_buf = packed_enc (entry_enc kenc venc) col m @ rest, cap_extra = x\<rparr> =
      Done \<lparr>cap_buf = concat (map (entry_enc kenc venc) (col_iter col m)) @ rest, cap_extra = length rest\<rparr>"
    using m x unfolding packed_enc_def packed_valid_def by (intro take_delimited_eq) simp_all
  show "c_decode ?c (c_for_overwrite ?c) \<lparr>cap_buf = packed_enc (entry_enc kenc venc) col m @ rest, cap_extra = x\<rparr> ctx =
      Done (m, \<lparr>cap_buf = rest, cap_extra = x\<rparr>)"
    using entries.packed_decode_eq [OF m d x] entries_even [OF m] t
    by (simp add: map_codec_def map_decode_cases del: take_length_delimited_Done)
next
  fix ms
  assume ms: "\<forall>m \<in> set ms. map_valid m"
  have "map_value_encoded_len ke ve col m = length (packed_enc (entry_enc kenc venc) col m)" if "m \<in> set ms" for m
    using that ms map_encoded_length_eq [of m]
    by (simp add: map_value_encoded_len_def packed_enc_def delimited_def encoded_len_varint_bytes Let_def)
  then show "c_many_len (map_codec rops ke ve col) ms = sum_list (map (\<lambda>m. length (packed_enc (entry_enc kenc venc) col m)) ms)"
    by (simp add: map_codec_def cong: map_cong)
qed

end

section \<open>Maps whose keys and values have a distinguished encoding\<close>

locale map_codecs =
  map_values rops rcontents rinv ke kenc kvalid kdepth ve venc vvalid vdepth col cvalid +
  key: distinguished_codec rops rcontents rinv ke kenc kvalid kdepth +
  val: distinguished_codec rops rcontents rinv ve venc vvalid vdepth
  for rops :: "'r rev_ops" and rcontents :: "'r \<Rightarrow> bytes" and rinv :: "'r \<Rightarrow> bool"
    and ke :: "('k, 'r) codec" and kenc :: "'k \<Rightarrow> bytes" and kvalid :: "'k \<Rightarrow> bool" and kdepth :: "'k \<Rightarrow> nat"
    and ve :: "('v, 'r) codec" and venc :: "'v \<Rightarrow> bytes" and vvalid :: "'v \<Rightarrow> bool" and vdepth :: "'v \<Rightarrow> nat"
    and col :: "('m, 'k \<times> 'v) collection" and cvalid :: "'m \<Rightarrow> bool"
begin

lemma entry_dist_Done:
  assumes "c_decode_dist (entry_codec ke ve) allow (c_for_overwrite (entry_codec ke ve)) cp ctx = Done (e, l, cp')"
  obtains k v i j cp1 where "e = (k, v)" "l = canonicity_update i j"
    "c_decode_dist ke True (c_for_overwrite ke) cp ctx = Done (k, i, cp1)"
    "c_decode_dist ve True (c_for_overwrite ve) cp1 ctx = Done (v, j, cp')"
  using assms by (auto simp: entry_codec_def)

lemma entry_distinguished_laws:
  "distinguished_codec rops rcontents rinv (entry_codec ke ve) (entry_enc kenc venc) (entry_valid kvalid vvalid)
    (entry_depth kdepth vdepth)"
proof (intro distinguished_codec.intro [OF entry_laws] distinguished_codec_axioms.intro)
  let ?c = "entry_codec ke ve"
  fix allow cp ctx e l cp' x and rest :: bytes
  show "c_decode_dist ?c allow (c_for_overwrite ?c) cp ctx \<noteq> Panic"
    by (auto simp: entry_codec_def obind_Panic_iff key.dist_no_panic val.dist_no_panic)
  show "c_decode ?c (c_for_overwrite ?c) cp (into_inner ctx) = Done (e, cp') \<and> rc_min_canonicity ctx \<le> l"
    if h: "c_decode_dist ?c allow (c_for_overwrite ?c) cp ctx = Done (e, l, cp')"
  proof (rule entry_dist_Done [OF h])
    fix k v i j cp1
    assume e: "e = (k, v)" "l = canonicity_update i j"
      and 1: "c_decode_dist ke True (c_for_overwrite ke) cp ctx = Done (k, i, cp1)"
        "c_decode_dist ve True (c_for_overwrite ve) cp1 ctx = Done (v, j, cp')"
    show ?thesis
      using key.dist_relaxed [OF 1(1)] val.dist_relaxed [OF 1(2)]
      by (simp add: e entry_codec_def canonicity_update_def)
  qed
  show "cap_buf cp = entry_enc kenc venc e @ cap_buf cp' \<and> entry_valid kvalid vvalid e"
    if h: "c_decode_dist ?c allow (c_for_overwrite ?c) cp ctx = Done (e, Canonical, cp')"
      and len: "length (cap_buf cp) < 2 ^ 64"
  proof (rule entry_dist_Done [OF h])
    fix k v i j cp1
    assume e: "e = (k, v)" "Canonical = canonicity_update i j"
      and 1: "c_decode_dist ke True (c_for_overwrite ke) cp ctx = Done (k, i, cp1)"
        "c_decode_dist ve True (c_for_overwrite ve) cp1 ctx = Done (v, j, cp')"
    have ij: "i = Canonical" "j = Canonical" using e(2) by (cases i; cases j; simp add: canonicity_update_def)+
    have k: "cap_buf cp = kenc k @ cap_buf cp1" "kvalid k" using key.dist_canonical 1(1) len ij by blast+
    then have "length (cap_buf cp1) < 2 ^ 64" using len by simp
    then have "cap_buf cp1 = venc v @ cap_buf cp'" "vvalid v" using val.dist_canonical 1(2) ij by blast+
    then show ?thesis using k by (simp add: e entry_enc_def entry_valid_def)
  qed
  show "c_decode_dist ?c allow (c_for_overwrite ?c) \<lparr>cap_buf = entry_enc kenc venc e @ rest, cap_extra = x\<rparr> ctx =
      Done (e, Canonical, \<lparr>cap_buf = rest, cap_extra = x\<rparr>)"
    if "entry_valid kvalid vvalid e" "entry_depth kdepth vdepth e \<le> unat (recurse_count (into_inner ctx))" "x \<le> length rest"
    using that key.dist_complete [of "fst e" ctx x "venc (snd e) @ rest" True] val.dist_complete [of "snd e" ctx x rest True]
    by (simp add: entry_codec_def entry_enc_def entry_valid_def entry_depth_def canonicity_update_def)
qed (simp_all add: entry_codec_def)

sublocale entries: repeated_codec rops rcontents rinv "entry_codec ke ve" "entry_enc kenc venc"
  "entry_valid kvalid vvalid" "entry_depth kdepth vdepth" col cvalid
  by (intro repeated_codec.intro entries.repeated_values_axioms entry_distinguished_laws)

lemma map_dist_cases:
  "map_decode_value_distinguished ke ve col allow m cp ctx = Done (m', l, cp') \<longleftrightarrow>
    (\<exists>capped. take_length_delimited slice_ops cp = Done capped \<and>
      \<not> uneven (combined_fixed_size (c_wire ke) (c_wire ve)) (remaining_before_cap slice_ops capped) \<and>
      packed_decode_value_distinguished (entry_codec ke ve) col allow m cp ctx = Done (m', l, cp'))"
  by (auto simp: map_decode_value_distinguished_def packed_decode_value_distinguished_def map_decode_dist_loop_eq uneven_def
      simp del: take_length_delimited_Done packed_decode_dist_loop.simps split: if_splits option.splits)

lemma map_dist_packed:
  assumes "map_decode_value_distinguished ke ve col allow m cp ctx = Done (m', l, cp')"
  shows "packed_decode_value_distinguished (entry_codec ke ve) col allow m cp ctx = Done (m', l, cp')"
  using assms unfolding map_dist_cases by blast

lemma map_codec_distinguished_laws:
  "distinguished_codec rops rcontents rinv (map_codec rops ke ve col) (packed_enc (entry_enc kenc venc) col) map_valid
    (\<lambda>m. list_depth (entry_depth kdepth vdepth) (col_iter col m))"
proof (intro distinguished_codec.intro [OF map_codec_laws] distinguished_codec_axioms.intro)
  let ?c = "map_codec rops ke ve col"
  fix allow cp ctx m l cp' x and rest :: bytes
  show "c_decode_dist ?c allow (c_for_overwrite ?c) cp ctx \<noteq> Panic"
    using entries.packed_dist_loop_not_Panic
    by (auto simp: map_codec_def map_decode_value_distinguished_def obind_Panic_iff map_decode_dist_loop_eq
        simp del: take_length_delimited_Done packed_decode_dist_loop.simps)
  show "c_decode ?c (c_for_overwrite ?c) cp (into_inner ctx) = Done (m, cp') \<and> rc_min_canonicity ctx \<le> l"
    if h: "c_decode_dist ?c allow (c_for_overwrite ?c) cp ctx = Done (m, l, cp')"
  proof -
    have 1: "map_decode_value_distinguished ke ve col allow (col_empty col) cp ctx = Done (m, l, cp')"
      using h by (simp add: map_codec_def)
    obtain capped where "take_length_delimited slice_ops cp = Done capped"
      "\<not> uneven (combined_fixed_size (c_wire ke) (c_wire ve)) (remaining_before_cap slice_ops capped)"
      using 1 [unfolded map_dist_cases] by blast
    then have "map_decode_value ke ve col (col_empty col) cp (into_inner ctx) = Done (m, cp')"
      using entries.packed_dist_relaxed [OF map_dist_packed [OF 1]] unfolding map_decode_cases by blast
    then show ?thesis using entries.packed_dist_relaxed [OF map_dist_packed [OF 1]] by (simp add: map_codec_def)
  qed
  show "cap_buf cp = packed_enc (entry_enc kenc venc) col m @ cap_buf cp' \<and> map_valid m"
    if "c_decode_dist ?c allow (c_for_overwrite ?c) cp ctx = Done (m, Canonical, cp')" "length (cap_buf cp) < 2 ^ 64"
    using that entries.packed_dist_canonical [OF map_dist_packed] by (simp add: map_codec_def)
  assume m: "map_valid m" and d: "list_depth (entry_depth kdepth vdepth) (col_iter col m) \<le> unat (recurse_count (into_inner ctx))"
    and x: "x \<le> length rest"
  have t: "take_length_delimited slice_ops \<lparr>cap_buf = packed_enc (entry_enc kenc venc) col m @ rest, cap_extra = x\<rparr> =
      Done \<lparr>cap_buf = concat (map (entry_enc kenc venc) (col_iter col m)) @ rest, cap_extra = length rest\<rparr>"
    using m x unfolding packed_enc_def packed_valid_def by (intro take_delimited_eq) simp_all
  show "c_decode_dist ?c allow (c_for_overwrite ?c) \<lparr>cap_buf = packed_enc (entry_enc kenc venc) col m @ rest, cap_extra = x\<rparr> ctx =
      Done (m, Canonical, \<lparr>cap_buf = rest, cap_extra = x\<rparr>)"
    using entries.packed_dist_eq [OF m d x] entries_even [OF m] t
    by (simp add: map_codec_def map_dist_cases del: take_length_delimited_Done)
qed (simp_all add: map_codec_def)

end

end
