(* ===== verification/Map_Properties.thy ===== *)
theory Map_Properties
  imports Maps Instances
begin

text \<open>
  Ordered maps as values: what a run of entries in any order decodes to, the contracts of
  \<^verbatim>\<open>Maps\<close> on maps of the code, and which bytes are the canonical form of a map.
\<close>

section \<open>Entries in any order\<close>

lemma keys_ascend_sort:
  fixes es :: "('k::linorder \<times> 'w) list"
  assumes "distinct (map fst es)"
  shows "keys_ascend (sort_key fst es)"
proof -
  have "sorted_wrt (<) (map fst (sort_key fst es))"
    using assms by (simp add: strict_sorted_iff distinct_map)
  then show ?thesis by (simp add: sorted_wrt_map)
qed

lemma keys_ascend_unique:
  fixes xs ys :: "('k::linorder \<times> 'w) list"
  assumes "keys_ascend xs" "keys_ascend ys" "set xs = set ys"
  shows "xs = ys"
proof -
  have "sorted_wrt (<) (map fst xs)" "sorted_wrt (<) (map fst ys)"
    using assms by (simp_all add: sorted_wrt_map)
  then have "sorted (map fst xs) \<and> distinct (map fst xs)" "sorted (map fst ys) \<and> distinct (map fst ys)"
    by (simp_all only: strict_sorted_iff)
  then show ?thesis
    using assms(3) by (intro map_sorted_distinct_set_unique [where f = fst]) (auto simp: distinct_map)
qed

definition insert_all :: "('k::linorder \<times> 'w) list \<Rightarrow> ('k \<times> 'w) list \<Rightarrow> ('k \<times> 'w) list" where
  "insert_all es m = fold (\<lambda>(k, v). map_insert k v) es m"

lemma insert_all_Cons: "insert_all (e # es) m = insert_all es (map_insert (fst e) (snd e) m)"
  by (simp add: insert_all_def split_def)

lemma insert_all_ascending:
  "distinct (map fst es) \<Longrightarrow> fst ` set es \<inter> fst ` set m = {} \<Longrightarrow> keys_ascend m \<Longrightarrow>
   keys_ascend (insert_all es m) \<and> set (insert_all es m) = set es \<union> set m"
proof (induction es arbitrary: m)
  case (Cons e es)
  have "keys_ascend (insert_all es (map_insert (fst e) (snd e) m)) \<and>
      set (insert_all es (map_insert (fst e) (snd e) m)) = set es \<union> set (map_insert (fst e) (snd e) m)"
    using Cons.prems by (intro Cons.IH) (auto simp: set_map_insert map_insert_ascending)
  then show ?case using Cons.prems by (auto simp: insert_all_Cons set_map_insert)
qed (simp add: insert_all_def)

lemma insert_all_sorted: "distinct (map fst es) \<Longrightarrow> insert_all es [] = sort_key fst es"
  using insert_all_ascending [of es "[]"] by (intro keys_ascend_unique) (auto simp: keys_ascend_sort)

locale btree_map_values =
  map_values rops rcontents rinv ke kenc kvalid kdepth ve venc vvalid vdepth btree_map_collection keys_ascend
  for rops :: "'r rev_ops" and rcontents :: "'r \<Rightarrow> bytes" and rinv :: "'r \<Rightarrow> bool"
    and ke :: "('k::linorder, 'r) codec" and kenc :: "'k \<Rightarrow> bytes" and kvalid :: "'k \<Rightarrow> bool" and kdepth :: "'k \<Rightarrow> nat"
    and ve :: "('v, 'r) codec" and venc :: "'v \<Rightarrow> bytes" and vvalid :: "'v \<Rightarrow> bool" and vdepth :: "'v \<Rightarrow> nat"
begin

text \<open>What the loop of the decoder does on an ordered map, whatever the order of the entries.\<close>

lemma map_loop_any_order:
  assumes "\<forall>e \<in> set es. entry_valid kvalid vvalid e"
    and "list_depth (entry_depth kdepth vdepth) es \<le> unat (recurse_count ctx)"
    and "length (concat (map (entry_enc kenc venc) es)) < fuel"
  shows "map_decode_loop ke ve btree_map_collection fuel m
      \<lparr>cap_buf = concat (map (entry_enc kenc venc) es) @ rest, cap_extra = length rest\<rparr> ctx =
    (if distinct (map fst es) \<and> fst ` set es \<inter> fst ` set m = {}
     then Done (insert_all es m, \<lparr>cap_buf = rest, cap_extra = length rest\<rparr>) else Fail UnexpectedlyRepeated)"
  unfolding map_decode_loop_eq using assms
proof (induction es arbitrary: m fuel)
  case Nil
  then show ?case by (cases fuel) (auto simp: insert_all_def)
next
  case (Cons e es)
  obtain f where f: "fuel = Suc f" using Cons.prems by (cases fuel) auto
  have ne: "entry_enc kenc venc e \<noteq> []" using entries.nonempty Cons.prems(1) by simp
  have dec: "c_decode (entry_codec ke ve) (c_for_overwrite (entry_codec ke ve))
      \<lparr>cap_buf = entry_enc kenc venc e @ concat (map (entry_enc kenc venc) es) @ rest, cap_extra = length rest\<rparr> ctx =
      Done (e, \<lparr>cap_buf = concat (map (entry_enc kenc venc) es) @ rest, cap_extra = length rest\<rparr>)"
    using Cons.prems(1,2) by (intro entries.decode) (simp_all add: list_depth_def)
  have "length (concat (map (entry_enc kenc venc) es)) < f" 
    using Cons.prems(3) ne f by (cases "entry_enc kenc venc e") auto
  then have IH: "packed_decode_loop (entry_codec ke ve) btree_map_collection f m'
      \<lparr>cap_buf = concat (map (entry_enc kenc venc) es) @ rest, cap_extra = length rest\<rparr> ctx =
    (if distinct (map fst es) \<and> fst ` set es \<inter> fst ` set m' = {}
     then Done (insert_all es m', \<lparr>cap_buf = rest, cap_extra = length rest\<rparr>) else Fail UnexpectedlyRepeated)" for m'
    using Cons.prems(1,2) by (intro Cons.IH) (auto simp: list_depth_def)
  show ?case
  proof (cases "fst e \<in> fst ` set m")
    case True
    then show ?thesis using ne dec f by (auto simp: btree_map_collection_def btree_map_insert_def)
  next
    case False
    then have "col_insert btree_map_collection e m = Done (map_insert (fst e) (snd e) m)"
      by (simp add: btree_map_collection_def btree_map_insert_def)
    moreover have "fst ` set (map_insert (fst e) (snd e) m) = insert (fst e) (fst ` set m)"
      using False by (simp add: set_map_insert)
    ultimately show ?thesis using ne dec f IH False by (auto simp: insert_all_Cons)
  qed
qed

lemma map_decode_any_order:
  assumes es: "\<forall>e \<in> set es. entry_valid kvalid vvalid e" "length (concat (map (entry_enc kenc venc) es)) < 2 ^ 64"
    and d: "list_depth (entry_depth kdepth vdepth) es \<le> unat (recurse_count ctx)" and x: "x \<le> length rest"
  shows "map_decode_value ke ve btree_map_collection []
      \<lparr>cap_buf = delimited (concat (map (entry_enc kenc venc) es)) @ rest, cap_extra = x\<rparr> ctx =
    (if distinct (map fst es) then Done (sort_key fst es, \<lparr>cap_buf = rest, cap_extra = x\<rparr>) else Fail UnexpectedlyRepeated)"
proof -
  let ?d = "concat (map (entry_enc kenc venc) es)"
  have "\<not> uneven (combined_fixed_size (c_wire ke) (c_wire ve)) (length ?d)"
    using entries_length [OF es(1)] by (auto simp: uneven_def split: option.split)
  moreover have "take_length_delimited slice_ops \<lparr>cap_buf = delimited ?d @ rest, cap_extra = x\<rparr> =
      Done \<lparr>cap_buf = ?d @ rest, cap_extra = length rest\<rparr>"
    using es(2) x by (intro take_delimited_eq)
  ultimately show ?thesis
    using map_loop_any_order [OF es(1) d, of "length (?d @ rest) + 1" "[]" rest]
    by (simp add: map_decode_value_def insert_all_sorted cap_outer_def del: take_length_delimited_Done map_decode_loop.simps)
qed

end

section \<open>Maps of the code\<close>

interpretation u32_i64_map: map_codecs "rb_rev_ops sco" rb_contents rb_inv
  "varint_u32 (rb_rev_ops sco)" "\<lambda>v. varint_bytes (ucast v)" "\<lambda>_. True" "\<lambda>_. 0"
  "varint_i64 (rb_rev_ops sco)" "\<lambda>v. varint_bytes (zigzag v)" "\<lambda>_. True" "\<lambda>_. 0"
  btree_map_collection keys_ascend
  by (intro map_codecs.intro map_values.intro u32_value.value_codec_axioms u32_value.distinguished_codec_axioms
      i64_value.value_codec_axioms i64_value.distinguished_codec_axioms btree_map.collection_contract_axioms)

interpretation u32_f64_map: btree_map_values "rb_rev_ops sco" rb_contents rb_inv
  "varint_u32 (rb_rev_ops sco)" "\<lambda>v. varint_bytes (ucast v)" "\<lambda>_. True" "\<lambda>_. 0"
  "fixed_f64 (rb_rev_ops sco)" "le_bytes 8" "\<lambda>_. True" "\<lambda>_. 0"
  by (intro btree_map_values.intro map_values.intro u32_value.value_codec_axioms
      f64_value.value_codec_axioms btree_map.collection_contract_axioms)

section \<open>Properties\<close>

text \<open>
  C21. Whatever encodings its keys and values have, a map decodes from its entries in any order to the same ordered
  map, and a repeated key is an error.
\<close>

theorem map_entries_any_order:
  assumes "map_values rops rcontents rinv ke kenc kvalid kdepth ve venc vvalid vdepth
      (btree_map_collection :: (('k::linorder \<times> 'v) list, 'k \<times> 'v) collection) keys_ascend"
    and "\<forall>(k, v) \<in> set es. kvalid k \<and> vvalid v \<and> max (kdepth k) (vdepth v) \<le> unat (recurse_count ctx)"
    and "length (concat (map (\<lambda>(k, v). kenc k @ venc v) es)) < 2 ^ 64" and "x \<le> length rest"
  shows "c_decode (map_codec rops ke ve btree_map_collection) []
      \<lparr>cap_buf = delimited (concat (map (\<lambda>(k, v). kenc k @ venc v) es)) @ rest, cap_extra = x\<rparr> ctx =
    (if distinct (map fst es) then Done (sort_key fst es, \<lparr>cap_buf = rest, cap_extra = x\<rparr>) else Fail UnexpectedlyRepeated)"
proof -
  have e: "entry_enc kenc venc = (\<lambda>(k, v). kenc k @ venc v)" by (simp add: fun_eq_iff entry_enc_def)
  have v: "\<forall>e \<in> set es. entry_valid kvalid vvalid e" and d: "list_depth (entry_depth kdepth vdepth) es \<le> unat (recurse_count ctx)"
    using assms(2) by (auto simp: entry_valid_def entry_depth_def list_depth_le)
  show ?thesis
    using btree_map_values.map_decode_any_order [OF btree_map_values.intro [OF assms(1)] v _ d assms(4)] assms(3)
    by (simp add: map_codec_def e)
qed

text \<open>
  C20. A map is decoded as canonical only from the bytes it is encoded to, its keys strictly ascending, and from
  these bytes it always is; anything else that decodes is reported as not canonical.
\<close>

theorem map_canonical:
  assumes "map_codecs rops rcontents rinv ke kenc kvalid kdepth ve venc vvalid vdepth
      (btree_map_collection :: (('k::linorder \<times> 'v) list, 'k \<times> 'v) collection) keys_ascend"
    and "length bs < 2 ^ 64" and "\<forall>(k, v) \<in> set m. max (kdepth k) (vdepth v) \<le> unat (recurse_count (into_inner ctx))"
  shows "c_decode_dist (map_codec rops ke ve btree_map_collection) True [] \<lparr>cap_buf = bs, cap_extra = 0\<rparr> ctx =
      Done (m, Canonical, \<lparr>cap_buf = rest, cap_extra = 0\<rparr>) \<longleftrightarrow>
    bs = delimited (concat (map (\<lambda>(k, v). kenc k @ venc v) m)) @ rest \<and>
    sorted_wrt (<) (map fst m) \<and> (\<forall>(k, v) \<in> set m. kvalid k \<and> vvalid v)"
proof -
  have e: "entry_enc kenc venc = (\<lambda>(k, v). kenc k @ venc v)" by (simp add: fun_eq_iff entry_enc_def)
  note laws = map_codecs.map_codec_distinguished_laws [OF assms(1)]
  have d: "list_depth (entry_depth kdepth vdepth) m \<le> unat (recurse_count (into_inner ctx))"
    using assms(3) by (auto simp: list_depth_le entry_depth_def)
  show ?thesis (is "?l \<longleftrightarrow> ?r")
  proof
    assume l: ?l
    then have "bs = packed_enc (entry_enc kenc venc) btree_map_collection m @ rest \<and>
        packed_valid (entry_enc kenc venc) (entry_valid kvalid vvalid) btree_map_collection keys_ascend m"
      using distinguished_codec.dist_canonical [OF laws, of True "\<lparr>cap_buf = bs, cap_extra = 0\<rparr>" ctx m] assms(2)
      by (simp add: map_codec_def btree_map_collection_def)
    then show ?r
      by (force simp: packed_enc_def packed_valid_def btree_map_collection_def e sorted_wrt_map entry_valid_def)
  next
    assume r: ?r
    then have "length (concat (map (\<lambda>(k, v). kenc k @ venc v) m)) < 2 ^ 64"
      using assms(2) by (simp add: delimited_def)
    then have "packed_valid (entry_enc kenc venc) (entry_valid kvalid vvalid) btree_map_collection keys_ascend m"
      using r by (force simp: packed_valid_def btree_map_collection_def e sorted_wrt_map entry_valid_def)
    then show ?l
      using distinguished_codec.dist_complete [OF laws, of m ctx 0 rest True] d r
      by (simp add: map_codec_def btree_map_collection_def packed_enc_def e)
  qed
qed

theorem map_entries_any_order_witness:
  "c_decode (map_codec (rb_rev_ops True) (varint_u32 (rb_rev_ops True)) (varint_i64 (rb_rev_ops True)) btree_map_collection) []
      \<lparr>cap_buf = [4, 7, 1, 5, 2], cap_extra = 0\<rparr> context_default = Done ([(5, 1), (7, -1)], \<lparr>cap_buf = [], cap_extra = 0\<rparr>) \<and>
   c_decode (map_codec (rb_rev_ops True) (varint_u32 (rb_rev_ops True)) (varint_i64 (rb_rev_ops True)) btree_map_collection) []
      \<lparr>cap_buf = [4, 7, 1, 7, 2], cap_extra = 0\<rparr> context_default = Fail UnexpectedlyRepeated"
  using map_entries_any_order [OF u32_i64_map.map_values_axioms, of "[(7, -1), (5, 1)]" context_default 0 "[]" True]
    map_entries_any_order [OF u32_i64_map.map_values_axioms, of "[(7, -1), (7, 1)]" context_default 0 "[]" True]
  by (simp add: delimited_def varint_bytes_small zigzag_def)

theorem map_canonical_witness:
  "c_decode_dist (map_codec (rb_rev_ops True) (varint_u32 (rb_rev_ops True)) (varint_i64 (rb_rev_ops True)) btree_map_collection)
      True [] \<lparr>cap_buf = [4, 5, 2, 7, 1], cap_extra = 0\<rparr> (restricted_new Canonical) =
    Done ([(5, 1), (7, -1)], Canonical, \<lparr>cap_buf = [], cap_extra = 0\<rparr>)"
  using map_canonical [OF u32_i64_map.map_codecs_axioms, of "[4, 5, 2, 7, 1]" "[(5, 1), (7, -1)]" "restricted_new Canonical" True "[]"]
  by (simp add: delimited_def varint_bytes_small zigzag_def)

end
