(* ===== verification/Oneof.thy ===== *)
theory Oneof
  imports Derived_Laws
begin

text \<open>
  Oneofs: \<^verbatim>\<open>src/src/encoding/oneof.rs\<close>, the code that \<^verbatim>\<open>#[derive(Oneof)]\<close> generates for an enum (with and without an
  empty variant), oneofs as fields of a struct, and messages derived from an enum. The trait \<^verbatim>\<open>Oneof\<close> and
  the trait \<^verbatim>\<open>NonEmptyOneof\<close> are records of operations; \<^verbatim>\<open>Box<T>\<close> passes every operation on to \<^verbatim>\<open>T\<close> and is not
  told apart from it.
\<close>

section \<open>Variants\<close>

text \<open>
  One arm of each \<^verbatim>\<open>match\<close> of the generated code: the pattern, what encoding, prepending and measuring do with
  a value that matches it, and the decoders of the arm of its tag, which construct a new value.
\<close>

record ('o, 'r) oneof_variant =
  ov_tag :: u32
  ov_is :: "'o \<Rightarrow> bool"
  ov_encode :: "'o \<Rightarrow> tag_writer \<Rightarrow> bytes \<Rightarrow> (tag_writer \<times> bytes) option"
  ov_prepend :: "'o \<Rightarrow> tag_rev_writer \<times> 'r \<Rightarrow> (tag_rev_writer \<times> 'r) option"
  ov_len :: "'o \<Rightarrow> tag_measurer \<Rightarrow> (nat \<times> tag_measurer) option"
  ov_decode :: "wire_type \<Rightarrow> bytes capped \<Rightarrow> decode_context \<Rightarrow> ('o \<times> bytes capped) outcome"
  ov_decode_dist :: "wire_type \<Rightarrow> bytes capped \<Rightarrow> restricted_context \<Rightarrow>
    ('o \<times> canonicity \<times> bytes capped) outcome"

text \<open>\<^verbatim>\<open>VariantContents::Value\<close>: \<open>wrap\<close> is the constructor of the variant and \<open>payload\<close> its inverse.\<close>

definition value_variant ::
    "'r rev_ops \<Rightarrow> u32 \<Rightarrow> ('t \<Rightarrow> 'o) \<Rightarrow> ('o \<Rightarrow> 't option) \<Rightarrow> ('t, 'r) codec \<Rightarrow> ('o, 'r) oneof_variant" where
  "value_variant rops tag wrap payload c = \<lparr>
     ov_tag = tag,
     ov_is = (\<lambda>s. payload s \<noteq> None),
     ov_encode = (\<lambda>s. encode_field c tag (the (payload s))),
     ov_prepend = (\<lambda>s. prepend_field rops c tag (the (payload s))),
     ov_len = (\<lambda>s. field_encoded_len c tag (the (payload s))),
     ov_decode = (\<lambda>wire_type buf ctx.
       obind (decode_field c wire_type (c_for_overwrite c) buf ctx) (\<lambda>(v, buf). Done (wrap v, buf))),
     ov_decode_dist = (\<lambda>wire_type buf ctx.
       obind (decode_field_distinguished c True wire_type (c_for_overwrite c) buf ctx) (\<lambda>(v, canon, buf).
         Done (wrap v, canon, buf)))\<rparr>"

text \<open>
  \<^verbatim>\<open>VariantContents::Message\<close>: the loop that the generated code spells out over the fields of the variant, in
  both modes. It runs with the context of the oneof itself: nothing is taken from the recursion limit.
\<close>

primrec variant_loop ::
    "('m, 'r) message_field list \<Rightarrow> nat \<Rightarrow> tag_reader \<Rightarrow> u32 option \<Rightarrow> 'm \<Rightarrow> bytes capped \<Rightarrow> decode_context \<Rightarrow>
     ('m \<times> bytes capped) outcome" where
  "variant_loop fs 0 tr prev s msg_buf ctx = Panic"
| "variant_loop fs (Suc fuel) tr prev s msg_buf ctx =
    obind (has_remaining slice_ops msg_buf) (\<lambda>more.
      if \<not> more then Done (s, msg_buf)
      else obind (decode_key slice_ops tr msg_buf) (\<lambda>(tag, wire_type, tr, msg_buf).
        let duplicated = (prev = Some tag) in
        obind (case field_of_tag fs tag of
            Some f \<Rightarrow> mf_decode f tag wire_type duplicated s msg_buf ctx
          | None \<Rightarrow> obind (skip_field slice_ops wire_type msg_buf) (\<lambda>buf. Done (s, buf)))
          (\<lambda>(s, msg_buf). variant_loop fs fuel tr (Some tag) s msg_buf ctx)))"

primrec variant_dist_loop ::
    "('m, 'r) message_field list \<Rightarrow> nat \<Rightarrow> tag_reader \<Rightarrow> u32 option \<Rightarrow> 'm \<Rightarrow> canonicity \<Rightarrow> bytes capped \<Rightarrow>
     restricted_context \<Rightarrow> ('m \<times> canonicity \<times> bytes capped) outcome" where
  "variant_dist_loop fs 0 tr prev s canon msg_buf ctx = Panic"
| "variant_dist_loop fs (Suc fuel) tr prev s canon msg_buf ctx =
    obind (has_remaining slice_ops msg_buf) (\<lambda>more.
      if \<not> more then Done (s, canon, msg_buf)
      else obind (decode_key slice_ops tr msg_buf) (\<lambda>(tag, wire_type, tr, msg_buf).
        let duplicated = (prev = Some tag) in
        obind (case field_of_tag fs tag of
            Some f \<Rightarrow> obind (mf_decode_dist f tag wire_type duplicated s msg_buf ctx) (\<lambda>(s, new_canon, buf).
              Done (s, canon, new_canon, buf))
          | None \<Rightarrow> obind (from_result (check ctx HasExtensions)) (\<lambda>k.
              obind (skip_field slice_ops wire_type msg_buf) (\<lambda>buf.
                Done (s, canonicity_update canon k, canonicity_update canon k, buf))))
          (\<lambda>(s, canon, new_canon, msg_buf).
            variant_dist_loop fs fuel tr (Some tag) s (canonicity_update canon new_canon) msg_buf ctx)))"

definition variant_decode ::
    "'m \<Rightarrow> ('m, 'r) message_field list \<Rightarrow> wire_type \<Rightarrow> bytes capped \<Rightarrow> decode_context \<Rightarrow> ('m \<times> bytes capped) outcome" where
  "variant_decode init fs wire_type outer_buf ctx =
    obind (check_wire_type WtLengthDelimited wire_type) (\<lambda>_.
      obind (take_length_delimited slice_ops outer_buf) (\<lambda>msg_buf.
        obind (variant_loop fs (length (cap_buf msg_buf) + 1) tag_reader_new None init msg_buf ctx) (\<lambda>(s, msg_buf).
          Done (s, cap_outer outer_buf msg_buf))))"

definition variant_decode_dist ::
    "'m \<Rightarrow> ('m, 'r) message_field list \<Rightarrow> wire_type \<Rightarrow> bytes capped \<Rightarrow> restricted_context \<Rightarrow>
     ('m \<times> canonicity \<times> bytes capped) outcome" where
  "variant_decode_dist init fs wire_type outer_buf ctx =
    obind (check_wire_type WtLengthDelimited wire_type) (\<lambda>_.
      obind (take_length_delimited slice_ops outer_buf) (\<lambda>msg_buf.
        obind (variant_dist_loop fs (length (cap_buf msg_buf) + 1) tag_reader_new None init Canonical msg_buf ctx)
          (\<lambda>(s, canon, msg_buf). Done (s, canon, cap_outer outer_buf msg_buf))))"

definition variant_encode ::
    "u32 \<Rightarrow> ('m, 'r) message_field list \<Rightarrow> 'm \<Rightarrow> tag_writer \<Rightarrow> bytes \<Rightarrow> (tag_writer \<times> bytes) option" where
  "variant_encode tag fs s tw buf = do {
     (tw, buf) \<leftarrow> encode_key tag WtLengthDelimited tw buf;
     len \<leftarrow> derived_len fs s;
     buf \<leftarrow> derived_encode fs s (encode_varint (of_nat len) buf);
     Some (tw, buf)
   }"

definition variant_prepend ::
    "'r rev_ops \<Rightarrow> u32 \<Rightarrow> ('m, 'r) message_field list \<Rightarrow> 'm \<Rightarrow> tag_rev_writer \<times> 'r \<Rightarrow> (tag_rev_writer \<times> 'r) option" where
  "variant_prepend rops tag fs s st = do {
     (tw, buf) \<leftarrow> begin_field rops tag WtLengthDelimited st;
     let end_pos = r_remaining rops buf;
     buf \<leftarrow> derived_prepend rops fs s buf;
     n \<leftarrow> (if end_pos \<le> r_remaining rops buf then Some (r_remaining rops buf - end_pos) else None);
     buf \<leftarrow> prepend_varint rops (of_nat n) buf;
     Some (tw, buf)
   }"

definition variant_len ::
    "u32 \<Rightarrow> ('m, 'r) message_field list \<Rightarrow> 'm \<Rightarrow> tag_measurer \<Rightarrow> (nat \<times> tag_measurer) option" where
  "variant_len tag fs s tm = do {
     total \<leftarrow> derived_len fs s;
     (key, tm) \<leftarrow> runtime_key_len tag tm;
     Some (total + encoded_len_varint (of_nat total) + key, tm)
   }"

definition message_variant ::
    "'r rev_ops \<Rightarrow> u32 \<Rightarrow> ('m \<Rightarrow> 'o) \<Rightarrow> ('o \<Rightarrow> 'm option) \<Rightarrow> 'm \<Rightarrow> ('m, 'r) message_field list \<Rightarrow>
     ('o, 'r) oneof_variant" where
  "message_variant rops tag wrap payload init fs = \<lparr>
     ov_tag = tag,
     ov_is = (\<lambda>s. payload s \<noteq> None),
     ov_encode = (\<lambda>s. variant_encode tag fs (the (payload s))),
     ov_prepend = (\<lambda>s. variant_prepend rops tag fs (the (payload s))),
     ov_len = (\<lambda>s. variant_len tag fs (the (payload s))),
     ov_decode = (\<lambda>wire_type buf ctx.
       obind (variant_decode init fs wire_type buf ctx) (\<lambda>(v, buf). Done (wrap v, buf))),
     ov_decode_dist = (\<lambda>wire_type buf ctx.
       obind (variant_decode_dist init fs wire_type buf ctx) (\<lambda>(v, canon, buf). Done (wrap v, canon, buf)))\<rparr>"

section \<open>The traits\<close>

record ('o, 'r) nonempty_oneof =
  no_tags :: "u32 list"
  no_encode :: "'o \<Rightarrow> tag_writer \<Rightarrow> bytes \<Rightarrow> (tag_writer \<times> bytes) option"
  no_prepend :: "'o \<Rightarrow> tag_rev_writer \<times> 'r \<Rightarrow> (tag_rev_writer \<times> 'r) option"
  no_len :: "'o \<Rightarrow> tag_measurer \<Rightarrow> (nat \<times> tag_measurer) option"
  no_current :: "'o \<Rightarrow> u32"
  no_decode :: "u32 \<Rightarrow> wire_type \<Rightarrow> bytes capped \<Rightarrow> decode_context \<Rightarrow> ('o \<times> bytes capped) outcome"
  no_decode_dist :: "u32 \<Rightarrow> wire_type \<Rightarrow> bytes capped \<Rightarrow> restricted_context \<Rightarrow>
    ('o \<times> canonicity \<times> bytes capped) outcome"

record ('o, 'r) oneof =
  oo_tags :: "u32 list"
  oo_empty :: 'o
  oo_is_empty :: "'o \<Rightarrow> bool"
  oo_clear :: "'o \<Rightarrow> 'o"
  oo_encode :: "'o \<Rightarrow> tag_writer \<Rightarrow> bytes \<Rightarrow> (tag_writer \<times> bytes) option"
  oo_prepend :: "'o \<Rightarrow> tag_rev_writer \<times> 'r \<Rightarrow> (tag_rev_writer \<times> 'r) option"
  oo_len :: "'o \<Rightarrow> tag_measurer \<Rightarrow> (nat \<times> tag_measurer) option"
  oo_current :: "'o \<Rightarrow> u32 option"
  oo_decode :: "u32 \<Rightarrow> wire_type \<Rightarrow> 'o \<Rightarrow> bytes capped \<Rightarrow> decode_context \<Rightarrow> ('o \<times> bytes capped) outcome"
  oo_decode_dist :: "u32 \<Rightarrow> wire_type \<Rightarrow> 'o \<Rightarrow> bytes capped \<Rightarrow> restricted_context \<Rightarrow>
    ('o \<times> canonicity \<times> bytes capped) outcome"

section \<open>Deriving the traits\<close>

text \<open>
  The patterns of the arms cover every value; a value outside all of them would be a panic of the model. A
  tag that no variant has is the \<^verbatim>\<open>unreachable!\<close> arm.
\<close>

definition variant_of :: "('o, 'r) oneof_variant list \<Rightarrow> 'o \<Rightarrow> ('o, 'r) oneof_variant option" where
  "variant_of vs s = find (\<lambda>v. ov_is v s) vs"

definition variant_of_tag :: "('o, 'r) oneof_variant list \<Rightarrow> u32 \<Rightarrow> ('o, 'r) oneof_variant option" where
  "variant_of_tag vs tag = find (\<lambda>v. ov_tag v = tag) vs"

definition decode_arms ::
    "('o, 'r) oneof_variant list \<Rightarrow> u32 \<Rightarrow> wire_type \<Rightarrow> bytes capped \<Rightarrow> decode_context \<Rightarrow> ('o \<times> bytes capped) outcome" where
  "decode_arms vs tag wire_type buf ctx =
    (case variant_of_tag vs tag of Some v \<Rightarrow> ov_decode v wire_type buf ctx | None \<Rightarrow> Panic)"

definition decode_arms_dist ::
    "('o, 'r) oneof_variant list \<Rightarrow> u32 \<Rightarrow> wire_type \<Rightarrow> bytes capped \<Rightarrow> restricted_context \<Rightarrow>
     ('o \<times> canonicity \<times> bytes capped) outcome" where
  "decode_arms_dist vs tag wire_type buf ctx =
    (case variant_of_tag vs tag of Some v \<Rightarrow> ov_decode_dist v wire_type buf ctx | None \<Rightarrow> Panic)"

definition derive_nonempty_oneof :: "('o, 'r) oneof_variant list \<Rightarrow> ('o, 'r) nonempty_oneof" where
  "derive_nonempty_oneof vs = \<lparr>
     no_tags = sort (map ov_tag vs),
     no_encode = (\<lambda>s tw buf. variant_of vs s \<bind> (\<lambda>v. ov_encode v s tw buf)),
     no_prepend = (\<lambda>s st. variant_of vs s \<bind> (\<lambda>v. ov_prepend v s st)),
     no_len = (\<lambda>s tm. variant_of vs s \<bind> (\<lambda>v. ov_len v s tm)),
     no_current = (\<lambda>s. case variant_of vs s of Some v \<Rightarrow> ov_tag v | None \<Rightarrow> 0),
     no_decode = decode_arms vs,
     no_decode_dist = decode_arms_dist vs\<rparr>"

text \<open>
  A oneof that already holds a value refuses another one. The guard is generated into the decoder of an enum with
  an empty variant, and is part of the implementation for \<^verbatim>\<open>Option\<close> otherwise.
\<close>

definition collision :: "u32 option \<Rightarrow> u32 \<Rightarrow> decode_error_kind" where
  "collision current tag = (if current = Some tag then UnexpectedlyRepeated else ConflictingFields)"

definition derive_oneof :: "'o \<Rightarrow> ('o, 'r) oneof_variant list \<Rightarrow> ('o, 'r) oneof" where
  "derive_oneof e vs =
    (let current = (\<lambda>s. map_option ov_tag (variant_of vs s)) in \<lparr>
     oo_tags = sort (map ov_tag vs),
     oo_empty = e,
     oo_is_empty = (\<lambda>s. variant_of vs s = None),
     oo_clear = (\<lambda>_. e),
     oo_encode = (\<lambda>s tw buf. case variant_of vs s of Some v \<Rightarrow> ov_encode v s tw buf | None \<Rightarrow> Some (tw, buf)),
     oo_prepend = (\<lambda>s st. case variant_of vs s of Some v \<Rightarrow> ov_prepend v s st | None \<Rightarrow> Some st),
     oo_len = (\<lambda>s tm. case variant_of vs s of Some v \<Rightarrow> ov_len v s tm | None \<Rightarrow> Some (0, tm)),
     oo_current = current,
     oo_decode = (\<lambda>tag wire_type s buf ctx.
       if variant_of vs s = None then decode_arms vs tag wire_type buf ctx
       else Fail (collision (current s) tag)),
     oo_decode_dist = (\<lambda>tag wire_type s buf ctx.
       if variant_of vs s = None then decode_arms_dist vs tag wire_type buf ctx
       else Fail (collision (current s) tag))\<rparr>)"

definition option_oneof :: "('o, 'r) nonempty_oneof \<Rightarrow> ('o option, 'r) oneof" where
  "option_oneof no = \<lparr>
     oo_tags = no_tags no,
     oo_empty = None,
     oo_is_empty = (\<lambda>s. s = None),
     oo_clear = (\<lambda>_. None),
     oo_encode = (\<lambda>s tw buf. case s of Some v \<Rightarrow> no_encode no v tw buf | None \<Rightarrow> Some (tw, buf)),
     oo_prepend = (\<lambda>s st. case s of Some v \<Rightarrow> no_prepend no v st | None \<Rightarrow> Some st),
     oo_len = (\<lambda>s tm. case s of Some v \<Rightarrow> no_len no v tm | None \<Rightarrow> Some (0, tm)),
     oo_current = map_option (no_current no),
     oo_decode = (\<lambda>tag wire_type s buf ctx.
       case s of
         Some already \<Rightarrow> Fail (if no_current no already = tag then UnexpectedlyRepeated else ConflictingFields)
       | None \<Rightarrow> obind (no_decode no tag wire_type buf ctx) (\<lambda>(v, buf). Done (Some v, buf))),
     oo_decode_dist = (\<lambda>tag wire_type s buf ctx.
       case s of
         Some already \<Rightarrow> Fail (if no_current no already = tag then UnexpectedlyRepeated else ConflictingFields)
       | None \<Rightarrow> obind (no_decode_dist no tag wire_type buf ctx) (\<lambda>(v, canon, buf). Done (Some v, canon, buf)))\<rparr>"

section \<open>Oneofs in messages\<close>

text \<open>A oneof field of a struct; the tags of its attribute are those of the type (a static assertion).\<close>

definition oneof_field ::
    "('s \<Rightarrow> 'o) \<Rightarrow> ('o \<Rightarrow> 's \<Rightarrow> 's) \<Rightarrow> ('o, 'r) oneof \<Rightarrow> ('s, 'r) message_field" where
  "oneof_field get put oo = \<lparr>
     mf_tags = oo_tags oo,
     mf_current = Some (\<lambda>s. oo_current oo (get s)),
     mf_encode = (\<lambda>s. oo_encode oo (get s)),
     mf_prepend = (\<lambda>s. oo_prepend oo (get s)),
     mf_len = (\<lambda>s. oo_len oo (get s)),
     mf_is_empty = (\<lambda>s. oo_is_empty oo (get s)),
     mf_clear = (\<lambda>s. put (oo_clear oo (get s)) s),
     mf_decode = (\<lambda>tag wire_type _ s buf ctx.
       obind (oo_decode oo tag wire_type (get s) buf ctx) (\<lambda>(v, buf). Done (put v s, buf))),
     mf_decode_dist = (\<lambda>tag wire_type _ s buf ctx.
       obind (oo_decode_dist oo tag wire_type (get s) buf ctx) (\<lambda>(v, canon, buf). Done (put v s, canon, buf)))\<rparr>"

text \<open>
  A message derived from an enum that is a oneof. The generated code measures with the trivial measurer when all tags
  are below 32; for the only key there is, that is the length the measurer of the model gives (\<open>trivial_first_key\<close>).
\<close>

definition message_via_oneof :: "'r rev_ops \<Rightarrow> ('o, 'r) oneof \<Rightarrow> ('o, 'r) raw_message" where
  "message_via_oneof rops oo = \<lparr>
     rm_empty = oo_empty oo,
     rm_is_empty = oo_is_empty oo,
     rm_clear = oo_clear oo,
     rm_encode = (\<lambda>s buf. map_option snd (oo_encode oo s tag_writer_new buf)),
     rm_prepend = (\<lambda>s buf. do {
       st \<leftarrow> oo_prepend oo s (tag_rev_writer_new, buf);
       (_, buf) \<leftarrow> trw_finalize rops st;
       Some buf
     }),
     rm_len = (\<lambda>s. map_option fst (oo_len oo s tag_measurer_new)),
     rm_decode_field = (\<lambda>tag wire_type _ s buf ctx.
       if tag \<in> set (oo_tags oo) then oo_decode oo tag wire_type s buf ctx
       else obind (skip_field slice_ops wire_type buf) (\<lambda>buf. Done (s, buf))),
     rm_decode_field_dist = (\<lambda>tag wire_type _ s buf ctx.
       if tag \<in> set (oo_tags oo) then oo_decode_dist oo tag wire_type s buf ctx
       else obind (from_result (check ctx HasExtensions)) (\<lambda>_.
         obind (skip_field slice_ops wire_type buf) (\<lambda>buf. Done (s, HasExtensions, buf))))\<rparr>"

end
