(* ===== verification/Oneof_Laws.thy ===== *)
theory Oneof_Laws
  imports Oneof
begin

text \<open>
  The contracts of oneofs: what a variant, a oneof and a oneof field promise. Value variants and message variants keep
  the contract of a variant, derived enums and options of them that of a oneof, and a oneof keeps that of
  a member of a struct, so that the laws of derived messages apply to structs with oneofs.
\<close>

section \<open>Contracts\<close>

record 'o variant_view =
  vv_wire :: wire_type
  vv_body :: "'o \<Rightarrow> bytes"
  vv_valid :: "'o \<Rightarrow> bool"
  vv_depth :: "'o \<Rightarrow> nat"

locale variant_contract = rev_buf_contract rops rcontents rinv
  for rops :: "'r rev_ops" and rcontents :: "'r \<Rightarrow> bytes" and rinv :: "'r \<Rightarrow> bool" +
  fixes v :: "('o, 'r) oneof_variant"
    and w :: "'o variant_view"
  assumes encode: "ov_is v s \<Longrightarrow> vv_valid w s \<Longrightarrow> writes_parts [(ov_tag v, vv_wire w, vv_body w s)] (ov_encode v s)"
    and prepend: "ov_is v s \<Longrightarrow> vv_valid w s \<Longrightarrow> prepends_parts [(ov_tag v, vv_wire w, vv_body w s)] (ov_prepend v s)"
    and len: "ov_is v s \<Longrightarrow> vv_valid w s \<Longrightarrow> measures_parts [(ov_tag v, vv_wire w, vv_body w s)] (ov_len v s)"
    and decode: "ov_is v s \<Longrightarrow> vv_valid w s \<Longrightarrow> vv_depth w s \<le> unat (recurse_count ctx) \<Longrightarrow> x \<le> length rest \<Longrightarrow>
      ov_decode v (vv_wire w) \<lparr>cap_buf = vv_body w s @ rest, cap_extra = x\<rparr> ctx =
        Done (s, \<lparr>cap_buf = rest, cap_extra = x\<rparr>)"
    and decode_frame: "ov_decode v wt cp ctx = Done (s, cp') \<Longrightarrow>
      ov_is v s \<and> cap_extra cp' = cap_extra cp \<and> (\<exists>p. cap_buf cp = p @ cap_buf cp')"
    and decode_no_panic: "ov_decode v wt cp ctx \<noteq> Panic"

locale distinguished_variant_contract = variant_contract rops rcontents rinv v w
  for rops :: "'r rev_ops" and rcontents :: "'r \<Rightarrow> bytes" and rinv :: "'r \<Rightarrow> bool"
    and v :: "('o, 'r) oneof_variant" and w :: "'o variant_view" +
  assumes dist_relaxed: "ov_decode_dist v wt cp ctx = Done (s, k, cp') \<Longrightarrow>
      ov_decode v wt cp (into_inner ctx) = Done (s, cp') \<and> rc_min_canonicity ctx \<le> k"
    and dist_canonical: "ov_decode_dist v wt cp ctx = Done (s, Canonical, cp') \<Longrightarrow> length (cap_buf cp) < 2 ^ 64 \<Longrightarrow>
      wt = vv_wire w \<and> cap_buf cp = vv_body w s @ cap_buf cp' \<and> vv_valid w s"
    and dist_complete: "ov_is v s \<Longrightarrow> vv_valid w s \<Longrightarrow> vv_depth w s \<le> unat (recurse_count (into_inner ctx)) \<Longrightarrow>
      x \<le> length rest \<Longrightarrow>
      ov_decode_dist v (vv_wire w) \<lparr>cap_buf = vv_body w s @ rest, cap_extra = x\<rparr> ctx =
        Done (s, Canonical, \<lparr>cap_buf = rest, cap_extra = x\<rparr>)"
    and dist_no_panic: "ov_decode_dist v wt cp ctx \<noteq> Panic"

text \<open>\<open>part s\<close> is the one part of a message that the oneof stands for.\<close>

definition one_part_of :: "('o \<Rightarrow> raw_part option) \<Rightarrow> 'o \<Rightarrow> raw_part list" where
  "one_part_of part s = (case part s of None \<Rightarrow> [] | Some p \<Rightarrow> [p])"

locale oneof_contract = rev_buf_contract rops rcontents rinv
  for rops :: "'r rev_ops" and rcontents :: "'r \<Rightarrow> bytes" and rinv :: "'r \<Rightarrow> bool" +
  fixes oo :: "('o, 'r) oneof"
    and part :: "'o \<Rightarrow> raw_part option"
    and valid :: "'o \<Rightarrow> bool"
    and depth :: "'o \<Rightarrow> nat"
  assumes tags: "oo_tags oo \<noteq> [] \<and> distinct (oo_tags oo)"
    and empty: "valid (oo_empty oo)" "part (oo_empty oo) = None"
    and only_empty: "part s = None \<Longrightarrow> s = oo_empty oo"
    and part_tag: "part s = Some (tag, wt, val) \<Longrightarrow> tag \<in> set (oo_tags oo)"
    and is_empty: "oo_is_empty oo s \<longleftrightarrow> part s = None"
    and clear: "oo_clear oo s = oo_empty oo"
    and current: "oo_current oo s = map_option fst (part s)"
    and encode: "valid s \<Longrightarrow> writes_parts (one_part_of part s) (oo_encode oo s)"
    and prepend: "valid s \<Longrightarrow> prepends_parts (one_part_of part s) (oo_prepend oo s)"
    and len: "valid s \<Longrightarrow> measures_parts (one_part_of part s) (oo_len oo s)"
    and decode: "valid s \<Longrightarrow> part s = Some (tag, wt, val) \<Longrightarrow> depth s \<le> unat (recurse_count ctx) \<Longrightarrow> x \<le> length rest \<Longrightarrow>
      oo_decode oo tag wt (oo_empty oo) \<lparr>cap_buf = val @ rest, cap_extra = x\<rparr> ctx =
        Done (s, \<lparr>cap_buf = rest, cap_extra = x\<rparr>)"
    and collides: "s \<noteq> oo_empty oo \<Longrightarrow> oo_decode oo tag wt s cp ctx = Fail (collision (oo_current oo s) tag)"
    and decode_frame: "oo_decode oo tag wt s cp ctx = Done (s', cp') \<Longrightarrow>
      cap_extra cp' = cap_extra cp \<and> (\<exists>p. cap_buf cp = p @ cap_buf cp')"
    and decode_no_panic: "tag \<in> set (oo_tags oo) \<Longrightarrow> oo_decode oo tag wt s cp ctx \<noteq> Panic"

locale distinguished_oneof_contract = oneof_contract rops rcontents rinv oo part valid depth
  for rops :: "'r rev_ops" and rcontents :: "'r \<Rightarrow> bytes" and rinv :: "'r \<Rightarrow> bool"
    and oo :: "('o, 'r) oneof" and part :: "'o \<Rightarrow> raw_part option" and valid :: "'o \<Rightarrow> bool" and depth :: "'o \<Rightarrow> nat" +
  assumes dist_relaxed: "oo_decode_dist oo tag wt s cp ctx = Done (s', k, cp') \<Longrightarrow>
      s = oo_empty oo \<and> oo_decode oo tag wt s cp (into_inner ctx) = Done (s', cp') \<and> rc_min_canonicity ctx \<le> k"
    and dist_canonical: "oo_decode_dist oo tag wt s cp ctx = Done (s', Canonical, cp') \<Longrightarrow> tag \<in> set (oo_tags oo) \<Longrightarrow>
      length (cap_buf cp) < 2 ^ 64 \<Longrightarrow> valid s' \<and> (\<exists>val. part s' = Some (tag, wt, val) \<and> cap_buf cp = val @ cap_buf cp')"
    and dist_complete: "valid s \<Longrightarrow> part s = Some (tag, wt, val) \<Longrightarrow> depth s \<le> unat (recurse_count (into_inner ctx)) \<Longrightarrow>
      x \<le> length rest \<Longrightarrow>
      oo_decode_dist oo tag wt (oo_empty oo) \<lparr>cap_buf = val @ rest, cap_extra = x\<rparr> ctx =
        Done (s, Canonical, \<lparr>cap_buf = rest, cap_extra = x\<rparr>)"
    and dist_no_panic: "tag \<in> set (oo_tags oo) \<Longrightarrow> oo_decode_dist oo tag wt s cp ctx \<noteq> Panic"

section \<open>Value variants\<close>

definition value_variant_view ::
    "('o \<Rightarrow> 't option) \<Rightarrow> ('t, 'r) codec \<Rightarrow> ('t \<Rightarrow> bytes) \<Rightarrow> ('t \<Rightarrow> bool) \<Rightarrow> ('t \<Rightarrow> nat) \<Rightarrow> 'o variant_view" where
  "value_variant_view payload c enc valid depth = \<lparr>vv_wire = c_wire c, vv_body = (\<lambda>s. enc (the (payload s))),
     vv_valid = (\<lambda>s. valid (the (payload s))), vv_depth = (\<lambda>s. depth (the (payload s)))\<rparr>"

text \<open>\<open>wrap\<close> is a constructor and \<open>payload\<close> takes its argument back.\<close>

definition prism :: "('t \<Rightarrow> 'o) \<Rightarrow> ('o \<Rightarrow> 't option) \<Rightarrow> bool" where
  "prism wrap payload \<longleftrightarrow> (\<forall>x s. payload s = Some x \<longleftrightarrow> s = wrap x)"

lemma prism_wrap: "prism wrap payload \<Longrightarrow> payload (wrap x) = Some x"
  by (simp add: prism_def)

lemma prismE:
  assumes "prism wrap payload" and "payload s \<noteq> None"
  obtains x where "s = wrap x" "payload s = Some x"
  using assms by (auto simp: prism_def)

context value_codec
begin

lemma value_variant_laws:
  assumes p: "prism wrap payload"
  shows "variant_contract rops rcontents rinv (value_variant rops tag wrap payload c)
    (value_variant_view payload c enc valid depth)"
proof unfold_locales
  let ?v = "value_variant rops tag wrap payload c" and ?w = "value_variant_view payload c enc valid depth"
  fix s ctx x wt cp cp' and rest :: bytes
  show "ov_decode ?v wt cp ctx \<noteq> Panic"
    by (auto simp: value_variant_def obind_Panic_iff decode_field_no_panic)
  show "ov_is ?v s \<and> cap_extra cp' = cap_extra cp \<and> (\<exists>p. cap_buf cp = p @ cap_buf cp')"
    if "ov_decode ?v wt cp ctx = Done (s, cp')"
    using that prism_wrap [OF p] by (auto simp: value_variant_def dest: decode_field_frame)
  assume i: "ov_is ?v s" and v: "vv_valid ?w s"
  obtain y where y: "s = wrap y" "payload s = Some y"
    using i prismE [OF p, of s] by (auto simp: value_variant_def prism_wrap [OF p])
  note d = value_variant_def value_variant_view_def
  show "writes_parts [(ov_tag ?v, vv_wire ?w, vv_body ?w s)] (ov_encode ?v s)"
    using encode_field_parts v y by (simp add: d)
  show "prepends_parts [(ov_tag ?v, vv_wire ?w, vv_body ?w s)] (ov_prepend ?v s)"
    using prepend_field_parts v y by (simp add: d)
  show "measures_parts [(ov_tag ?v, vv_wire ?w, vv_body ?w s)] (ov_len ?v s)"
    using field_len_parts v y by (simp add: d)
  show "ov_decode ?v (vv_wire ?w) \<lparr>cap_buf = vv_body ?w s @ rest, cap_extra = x\<rparr> ctx =
      Done (s, \<lparr>cap_buf = rest, cap_extra = x\<rparr>)"
    if "vv_depth ?w s \<le> unat (recurse_count ctx)" "x \<le> length rest"
    using that decode_field_eq v y by (simp add: d)
qed

end

context distinguished_codec
begin

lemma value_variant_distinguished_laws:
  assumes p: "prism wrap payload"
  shows "distinguished_variant_contract rops rcontents rinv (value_variant rops tag wrap payload c)
    (value_variant_view payload c enc valid depth)"
proof (intro distinguished_variant_contract.intro value_variant_laws p distinguished_variant_contract_axioms.intro)
  let ?v = "value_variant rops tag wrap payload c" and ?w = "value_variant_view payload c enc valid depth"
  fix s k ctx x wt cp cp' and rest :: bytes
  have d: "ov_decode_dist ?v wt cp ctx = Done (s, k, cp') \<longleftrightarrow>
      wt = c_wire c \<and> (\<exists>y. c_decode_dist c True (c_for_overwrite c) cp ctx = Done (y, k, cp') \<and> s = wrap y)" for k
    by (auto simp: value_variant_def decode_field_distinguished_def check_wire_type_def)
  have r: "ov_decode ?v (c_wire c) cp ctx = Done (s, cp') \<longleftrightarrow>
      (\<exists>y. c_decode c (c_for_overwrite c) cp ctx = Done (y, cp') \<and> s = wrap y)" for ctx
    by (auto simp: value_variant_def decode_field_def check_wire_type_def)
  show "ov_decode_dist ?v wt cp ctx \<noteq> Panic"
    by (auto simp: value_variant_def decode_field_distinguished_def check_wire_type_def obind_Panic_iff dist_no_panic)
  show "ov_decode ?v wt cp (into_inner ctx) = Done (s, cp') \<and> rc_min_canonicity ctx \<le> k"
    if "ov_decode_dist ?v wt cp ctx = Done (s, k, cp')"
    using that dist_relaxed unfolding d by (auto simp: r)
  show "wt = vv_wire ?w \<and> cap_buf cp = vv_body ?w s @ cap_buf cp' \<and> vv_valid ?w s"
    if "ov_decode_dist ?v wt cp ctx = Done (s, Canonical, cp')" "length (cap_buf cp) < 2 ^ 64"
    using that dist_canonical unfolding d by (fastforce simp: value_variant_view_def prism_wrap [OF p])
  show "ov_decode_dist ?v (vv_wire ?w) \<lparr>cap_buf = vv_body ?w s @ rest, cap_extra = x\<rparr> ctx =
      Done (s, Canonical, \<lparr>cap_buf = rest, cap_extra = x\<rparr>)"
    if i: "ov_is ?v s" and v: "vv_valid ?w s" "vv_depth ?w s \<le> unat (recurse_count (into_inner ctx))" "x \<le> length rest"
  proof -
    obtain y where "s = wrap y" "payload s = Some y"
      using i prismE [OF p, of s] by (auto simp: value_variant_def prism_wrap [OF p])
    then show ?thesis using v dist_complete
      by (simp add: value_variant_def value_variant_view_def decode_field_distinguished_def check_wire_type_def)
  qed
qed

end

section \<open>Message variants\<close>

text \<open>The loop of a message variant is the loop of a message with the same fields.\<close>

lemma variant_loop_eq:
  "variant_loop fs n tr prev s cp ctx = merge_loop (derive_message rops init fs) n tr prev s cp ctx"
proof (induction n arbitrary: tr prev s cp)
  case (Suc n)
  have "(\<lambda>(s, b). variant_loop fs n tr t s b ctx) = (\<lambda>(s, b). merge_loop (derive_message rops init fs) n tr t s b ctx)"
    for tr t by (simp add: Suc.IH)
  then show ?case
    by (simp add: derive_message_def derived_decode_field_def Let_def)
qed simp

lemma update_twice [simp]: "canonicity_update k k = k"
  by (simp add: canonicity_update_def)

lemma update_top [simp]: "canonicity_update Canonical k = k"
  by (cases k) (simp_all add: canonicity_update_def)

lemma variant_dist_loop_eq:
  "variant_dist_loop fs n tr prev s k cp ctx = merge_dist_loop (derive_message rops init fs) n tr prev s k cp ctx"
proof (induction n arbitrary: tr prev s k cp)
  case (Suc n)
  have "obind (case field_of_tag fs t of
            Some f \<Rightarrow> obind (mf_decode_dist f t wt dup s b ctx) (\<lambda>(s, new_canon, buf). Done (s, k, new_canon, buf))
          | None \<Rightarrow> obind (from_result (check ctx HasExtensions)) (\<lambda>l.
              obind (skip_field slice_ops wt b) (\<lambda>buf.
                Done (s, canonicity_update k l, canonicity_update k l, buf))))
          (\<lambda>(s, k, l, b). merge_dist_loop (derive_message rops init fs) n tr (Some t) s (canonicity_update k l) b ctx) =
      obind (derived_decode_field_dist fs t wt dup s b ctx)
        (\<lambda>(s, l, b). merge_dist_loop (derive_message rops init fs) n tr (Some t) s (canonicity_update k l) b ctx)"
    for t wt dup b tr
    by (simp add: derived_decode_field_dist_def obind_assoc split_def split: option.split)
  then show ?case
    by (simp add: Suc.IH derive_message_def Let_def)
qed simp

lemma variant_decode_eq:
  "variant_decode init fs wt cp ctx =
    obind (check_wire_type WtLengthDelimited wt) (\<lambda>_. obind (take_length_delimited slice_ops cp) (\<lambda>b.
      obind (merge (derive_message rops init fs) init b ctx) (\<lambda>(s, b). Done (s, cap_outer cp b))))"
  by (simp add: variant_decode_def merge_def variant_loop_eq [where rops = rops and init = init])

lemma variant_decode_dist_eq:
  "variant_decode_dist init fs wt cp ctx =
    obind (check_wire_type WtLengthDelimited wt) (\<lambda>_. obind (take_length_delimited slice_ops cp) (\<lambda>b.
      obind (merge_distinguished (derive_message rops init fs) init b ctx) (\<lambda>(s, k, b). Done (s, k, cap_outer cp b))))"
  by (simp add: variant_decode_dist_def merge_distinguished_def variant_dist_loop_eq [where rops = rops and init = init])

definition message_variant_view ::
    "('o \<Rightarrow> 'm option) \<Rightarrow> ('m \<Rightarrow> bytes) \<Rightarrow> ('m \<Rightarrow> bool) \<Rightarrow> ('m \<Rightarrow> nat) \<Rightarrow> 'o variant_view" where
  "message_variant_view payload body valid depth = \<lparr>vv_wire = WtLengthDelimited,
     vv_body = (\<lambda>s. delimited (body (the (payload s)))), vv_valid = (\<lambda>s. valid (the (payload s))),
     vv_depth = (\<lambda>s. depth (the (payload s)))\<rparr>"

context derived_message
begin

lemma message_variant_laws:
  assumes p: "prism wrap payload"
  shows "variant_contract rops rcontents rinv (message_variant rops tag wrap payload init fs)
    (message_variant_view payload (struct_body w fs) (struct_valid w fs) (struct_depth w fs))"
proof unfold_locales
  let ?v = "message_variant rops tag wrap payload init fs"
    and ?w = "message_variant_view payload (struct_body w fs) (struct_valid w fs) (struct_depth w fs)"
    and ?m = "derive_message rops init fs"
  note m = derived_message_laws
  have init: "rm_empty ?m = init" by (simp add: derive_message_def)
  fix s ctx x wt cp cp' and rest :: bytes
  show "ov_decode ?v wt cp ctx \<noteq> Panic"
    using message_contract.merge_no_panic [OF m]
    by (auto simp: message_variant_def variant_decode_eq [where rops = rops] check_wire_type_def obind_Panic_iff
        simp del: take_length_delimited_Done)
  show "ov_is ?v s \<and> cap_extra cp' = cap_extra cp \<and> (\<exists>p. cap_buf cp = p @ cap_buf cp')"
    if d: "ov_decode ?v wt cp ctx = Done (s, cp')"
  proof -
    obtain c1 y c2 where 1: "take_length_delimited slice_ops cp = Done c1" "merge ?m init c1 ctx = Done (y, c2)"
      "cp' = cap_outer cp c2" "s = wrap y"
      using d by (auto simp: message_variant_def variant_decode_eq [where rops = rops] simp del: take_length_delimited_Done)
    obtain d' rest where d': "cap_buf cp = delimited d' @ rest" "cap_buf c1 = d' @ rest"
      by (rule take_length_delimitedE [OF 1(1)])
    obtain p' where "cap_buf c1 = p' @ cap_buf c2"
      using message_contract.merge_loop_frame [OF m 1(2) [unfolded merge_def]] by blast
    then have "cap_buf cp = (varint_bytes (of_nat (length d')) @ p') @ cap_buf c2"
      using d' by (simp add: delimited_def)
    then show ?thesis using 1 prism_wrap [OF p] by (auto simp: message_variant_def)
  qed
  assume i: "ov_is ?v s" and v: "vv_valid ?w s"
  obtain y where y: "s = wrap y" "payload s = Some y"
    using i prismE [OF p, of s] by (auto simp: message_variant_def prism_wrap [OF p])
  have sv: "struct_valid w fs y" using v y by (simp add: message_variant_view_def)
  note d = message_variant_def message_variant_view_def
  show "writes_parts [(ov_tag ?v, vv_wire ?w, vv_body ?w s)] (ov_encode ?v s)"
    by (rule writes_partsI)
      (simp add: d y(2) variant_encode_def encode_key_eq derived_len_eq [OF sv] derived_encode_eq [OF sv]
        encode_varint_bytes delimited_def)
  show "measures_parts [(ov_tag ?v, vv_wire ?w, vv_body ?w s)] (ov_len ?v s)"
    by (rule measures_partsI)
      (simp add: d y(2) variant_len_def derived_len_eq [OF sv] runtime_key_len_def checked_sub_u32_def
        encoded_len_key [of _ WtLengthDelimited, unfolded encoded_len_varint_bytes] encoded_len_varint_bytes delimited_def)
  have "prepends_parts [(tag, WtLengthDelimited, delimited (struct_body w fs y))] (variant_prepend rops tag fs y)"
    using prepends_parts_field [OF prepends_delimited [OF derived_prepend_eq [OF sv]]]
    unfolding variant_prepend_def [abs_def] by (simp add: Let_def split_def)
  then show "prepends_parts [(ov_tag ?v, vv_wire ?w, vv_body ?w s)] (ov_prepend ?v s)"
    by (simp add: d y(2))
  show "ov_decode ?v (vv_wire ?w) \<lparr>cap_buf = vv_body ?w s @ rest, cap_extra = x\<rparr> ctx =
      Done (s, \<lparr>cap_buf = rest, cap_extra = x\<rparr>)"
    if "vv_depth ?w s \<le> unat (recurse_count ctx)" "x \<le> length rest"
    using that message_contract.merge_body [OF m sv, unfolded init] message_contract.take_body [OF m sv]
    by (simp add: d y variant_decode_eq [where rops = rops] check_wire_type_def prism_wrap [OF p]
        del: take_length_delimited_Done)
qed

end

context distinguished_derived_message
begin

lemma message_variant_distinguished_laws:
  assumes p: "prism wrap payload"
  shows "distinguished_variant_contract rops rcontents rinv (message_variant rops tag wrap payload init fs)
    (message_variant_view payload (struct_body w fs) (struct_valid w fs) (struct_depth w fs))"
proof (intro distinguished_variant_contract.intro message_variant_laws p distinguished_variant_contract_axioms.intro)
  let ?v = "message_variant rops tag wrap payload init fs"
    and ?w = "message_variant_view payload (struct_body w fs) (struct_valid w fs) (struct_depth w fs)"
    and ?m = "derive_message rops init fs"
  note m = distinguished_derived_message_laws
  note m0 = distinguished_message_contract.axioms(1) [OF m]
  have init: "rm_empty ?m = init" by (simp add: derive_message_def)
  note relaxed = distinguished_message_contract.dist_relaxed [OF m, unfolded init]
    and canonical = distinguished_message_contract.dist_canonical [OF m, unfolded init]
  fix s k ctx x wt cp cp' and rest :: bytes
  show "ov_decode_dist ?v wt cp ctx \<noteq> Panic"
    using distinguished_message_contract.dist_no_panic [OF m, unfolded init]
    by (auto simp: message_variant_def variant_decode_dist_eq [where rops = rops] check_wire_type_def obind_Panic_iff
        simp del: take_length_delimited_Done)
  have d: "\<exists>c1 y c2. wt = WtLengthDelimited \<and> take_length_delimited slice_ops cp = Done c1 \<and>
      merge_distinguished ?m init c1 ctx = Done (y, k, c2) \<and> cp' = cap_outer cp c2 \<and> s = wrap y"
    if "ov_decode_dist ?v wt cp ctx = Done (s, k, cp')" for k
    using that by (auto simp: message_variant_def variant_decode_dist_eq [where rops = rops] check_wire_type_def
        simp del: take_length_delimited_Done)
  show "ov_decode ?v wt cp (into_inner ctx) = Done (s, cp') \<and> rc_min_canonicity ctx \<le> k"
    if "ov_decode_dist ?v wt cp ctx = Done (s, k, cp')"
    using d [OF that] relaxed
    by (force simp: message_variant_def variant_decode_eq [where rops = rops] check_wire_type_def
        simp del: take_length_delimited_Done)
  show "wt = vv_wire ?w \<and> cap_buf cp = vv_body ?w s @ cap_buf cp' \<and> vv_valid ?w s"
    if h: "ov_decode_dist ?v wt cp ctx = Done (s, Canonical, cp')" and n: "length (cap_buf cp) < 2 ^ 64"
  proof -
    obtain c1 y c2 where 1: "wt = WtLengthDelimited" "take_length_delimited slice_ops cp = Done c1"
      "merge_distinguished ?m init c1 ctx = Done (y, Canonical, c2)" "cp' = cap_outer cp c2" "s = wrap y"
      using d [OF h] by blast
    obtain d' rest where d': "cap_buf cp = delimited d' @ rest" "cap_buf c1 = d' @ rest"
      "cap_extra c1 = length rest" by (rule take_length_delimitedE [OF 1(2)])
    have "length (cap_buf c1) < 2 ^ 64" using n d' by (simp add: delimited_def)
    note b = canonical [OF 1(3) this]
    have "length (cap_buf c2) = length rest"
      using message_contract.merge_loop_frame [OF m0 conjunct1 [OF relaxed [OF 1(3)], unfolded merge_def]] d'(3) by simp
    then have "cap_buf c2 = rest" "d' = struct_body w fs y" using b d'(2) by simp_all
    then show ?thesis using b 1 d'(1) prism_wrap [OF p] by (simp add: message_variant_view_def)
  qed
  show "ov_decode_dist ?v (vv_wire ?w) \<lparr>cap_buf = vv_body ?w s @ rest, cap_extra = x\<rparr> ctx =
      Done (s, Canonical, \<lparr>cap_buf = rest, cap_extra = x\<rparr>)"
    if i: "ov_is ?v s" and v: "vv_valid ?w s" "vv_depth ?w s \<le> unat (recurse_count (into_inner ctx))" "x \<le> length rest"
  proof -
    obtain y where y: "s = wrap y" "payload s = Some y"
      using i prismE [OF p, of s] by (auto simp: message_variant_def prism_wrap [OF p])
    then have sv: "struct_valid w fs y" using v by (simp add: message_variant_view_def)
    show ?thesis
      using v y distinguished_message_contract.dist_complete [OF m sv, unfolded init]
        message_contract.take_body [OF m0 sv]
      by (simp add: message_variant_def message_variant_view_def variant_decode_dist_eq [where rops = rops]
          check_wire_type_def prism_wrap [OF p] del: take_length_delimited_Done)
  qed
qed

end

section \<open>Derived enums\<close>

text \<open>The variants of an enum: their tags differ, and so do their patterns.\<close>

locale oneof_variants = rev_buf_contract rops rcontents rinv
  for rops :: "'r rev_ops" and rcontents :: "'r \<Rightarrow> bytes" and rinv :: "'r \<Rightarrow> bool" +
  fixes vs :: "('o, 'r) oneof_variant list"
    and w :: "u32 \<Rightarrow> 'o variant_view"
  assumes variant: "v \<in> set vs \<Longrightarrow> variant_contract rops rcontents rinv v (w (ov_tag v))"
    and own_tag: "vs \<noteq> [] \<and> distinct (map ov_tag vs)"
    and exclusive: "v \<in> set vs \<Longrightarrow> v' \<in> set vs \<Longrightarrow> ov_is v s \<Longrightarrow> ov_is v' s \<Longrightarrow> v = v'"

locale distinguished_oneof_variants = oneof_variants rops rcontents rinv vs w
  for rops :: "'r rev_ops" and rcontents :: "'r \<Rightarrow> bytes" and rinv :: "'r \<Rightarrow> bool"
    and vs :: "('o, 'r) oneof_variant list" and w :: "u32 \<Rightarrow> 'o variant_view" +
  assumes dist_variant: "v \<in> set vs \<Longrightarrow> distinguished_variant_contract rops rcontents rinv v (w (ov_tag v))"

definition enum_part :: "('o, 'r) oneof_variant list \<Rightarrow> (u32 \<Rightarrow> 'o variant_view) \<Rightarrow> 'o \<Rightarrow> raw_part option" where
  "enum_part vs w s = map_option (\<lambda>v. (ov_tag v, vv_wire (w (ov_tag v)), vv_body (w (ov_tag v)) s)) (variant_of vs s)"

definition enum_valid :: "('o, 'r) oneof_variant list \<Rightarrow> (u32 \<Rightarrow> 'o variant_view) \<Rightarrow> 'o \<Rightarrow> bool" where
  "enum_valid vs w s = (case variant_of vs s of Some v \<Rightarrow> vv_valid (w (ov_tag v)) s | None \<Rightarrow> True)"

definition enum_depth :: "('o, 'r) oneof_variant list \<Rightarrow> (u32 \<Rightarrow> 'o variant_view) \<Rightarrow> 'o \<Rightarrow> nat" where
  "enum_depth vs w s = (case variant_of vs s of Some v \<Rightarrow> vv_depth (w (ov_tag v)) s | None \<Rightarrow> 0)"

text \<open>An enum without an empty variant, in an option.\<close>

definition option_part :: "('o \<Rightarrow> raw_part option) \<Rightarrow> 'o option \<Rightarrow> raw_part option" where
  "option_part part s = Option.bind s part"

definition option_valid :: "('o \<Rightarrow> bool) \<Rightarrow> 'o option \<Rightarrow> bool" where
  "option_valid valid s = (case s of Some v \<Rightarrow> valid v | None \<Rightarrow> True)"

definition option_depth :: "('o \<Rightarrow> nat) \<Rightarrow> 'o option \<Rightarrow> nat" where
  "option_depth depth s = (case s of Some v \<Rightarrow> depth v | None \<Rightarrow> 0)"

lemma sort_Nil_iff: "sort xs = [] \<longleftrightarrow> xs = []"
  by (metis length_0_conv length_sort)

lemma variant_of_Some: "variant_of vs s = Some v \<Longrightarrow> v \<in> set vs \<and> ov_is v s"
  by (auto simp: variant_of_def find_Some_iff)

lemma variant_of_tag_Some: "variant_of_tag vs t = Some v \<Longrightarrow> v \<in> set vs \<and> ov_tag v = t"
  by (auto simp: variant_of_tag_def find_Some_iff)

lemma variant_of_tag_None: "variant_of_tag vs t = None \<longleftrightarrow> t \<notin> ov_tag ` set vs"
  by (auto simp: variant_of_tag_def find_None_iff)

lemma derive_oneof_simps:
  "set (oo_tags (derive_oneof e vs)) = ov_tag ` set vs"
  "oo_empty (derive_oneof e vs) = e"
  "oo_clear (derive_oneof e vs) s = e"
  "oo_is_empty (derive_oneof e vs) s \<longleftrightarrow> variant_of vs s = None"
  "oo_current (derive_oneof e vs) s = map_option ov_tag (variant_of vs s)"
  "oo_decode (derive_oneof e vs) tag wt s cp ctx = (if variant_of vs s = None then decode_arms vs tag wt cp ctx
     else Fail (collision (map_option ov_tag (variant_of vs s)) tag))"
  "oo_decode_dist (derive_oneof e vs) tag wt s cp ctx' = (if variant_of vs s = None then decode_arms_dist vs tag wt cp ctx'
     else Fail (collision (map_option ov_tag (variant_of vs s)) tag))"
  by (simp_all add: derive_oneof_def Let_def)

context oneof_variants
begin

lemma variant_of_eq: "v \<in> set vs \<Longrightarrow> ov_is v s \<Longrightarrow> variant_of vs s = Some v"
proof (cases "variant_of vs s")
  case (Some v')
  assume "v \<in> set vs" "ov_is v s"
  then show ?thesis using exclusive [of v v' s] variant_of_Some [OF Some] Some by simp
qed (auto simp: variant_of_def find_None_iff)

lemma variant_of_tag_eq: "v \<in> set vs \<Longrightarrow> variant_of_tag vs (ov_tag v) = Some v"
proof (cases "variant_of_tag vs (ov_tag v)")
  case (Some v')
  assume "v \<in> set vs"
  then show ?thesis using variant_of_tag_Some [OF Some] own_tag Some by (simp add: distinct_map inj_on_def)
qed (simp add: variant_of_tag_None)

lemma decode_arms_eq:
  assumes "enum_part vs w s = Some (tag, wt, val)" and "enum_valid vs w s"
    and "enum_depth vs w s \<le> unat (recurse_count ctx)" and "x \<le> length rest"
  shows "decode_arms vs tag wt \<lparr>cap_buf = val @ rest, cap_extra = x\<rparr> ctx = Done (s, \<lparr>cap_buf = rest, cap_extra = x\<rparr>)"
proof -
  obtain v where v: "variant_of vs s = Some v" "tag = ov_tag v" "wt = vv_wire (w tag)" "val = vv_body (w tag) s"
    using assms(1) by (auto simp: enum_part_def)
  have "v \<in> set vs" "ov_is v s" using variant_of_Some [OF v(1)] by simp_all
  then show ?thesis
    using variant_contract.decode [OF variant, of v s ctx x rest] v assms(2-4)
    by (simp add: decode_arms_def variant_of_tag_eq enum_valid_def enum_depth_def)
qed

lemma decode_arms_frame:
  assumes "decode_arms vs tag wt cp ctx = Done (s, cp')"
  shows "variant_of vs s \<noteq> None \<and> cap_extra cp' = cap_extra cp \<and> (\<exists>p. cap_buf cp = p @ cap_buf cp')"
proof -
  obtain v where v: "variant_of_tag vs tag = Some v" "ov_decode v wt cp ctx = Done (s, cp')"
    using assms by (auto simp: decode_arms_def split: option.splits)
  have m: "v \<in> set vs" using variant_of_tag_Some [OF v(1)] by simp
  note f = variant_contract.decode_frame [OF variant [OF m] v(2)]
  then show ?thesis using variant_of_eq [OF m, of s] by simp
qed

lemma decode_arms_no_panic: "tag \<in> ov_tag ` set vs \<Longrightarrow> decode_arms vs tag wt cp ctx \<noteq> Panic"
  using variant_contract.decode_no_panic [OF variant] by (auto simp: decode_arms_def variant_of_tag_eq simp del: obind_Done_iff)

text \<open>An enum with an empty variant \<open>e\<close>.\<close>

lemma variants_write:
  assumes "enum_valid vs w s"
  shows "writes_parts (one_part_of (enum_part vs w) s)
      (\<lambda>tw buf. case variant_of vs s of Some v \<Rightarrow> ov_encode v s tw buf | None \<Rightarrow> Some (tw, buf))"
    and "prepends_parts (one_part_of (enum_part vs w) s)
      (\<lambda>st. case variant_of vs s of Some v \<Rightarrow> ov_prepend v s st | None \<Rightarrow> Some st)"
    and "measures_parts (one_part_of (enum_part vs w) s)
      (\<lambda>tm. case variant_of vs s of Some v \<Rightarrow> ov_len v s tm | None \<Rightarrow> Some (0, tm))"
proof -
  note d = enum_part_def enum_valid_def one_part_of_def
  have s: "v \<in> set vs" "ov_is v s" "vv_valid (w (ov_tag v)) s" if "variant_of vs s = Some v" for v
    using assms variant_of_Some [OF that] that by (simp_all add: enum_valid_def)
  show "writes_parts (one_part_of (enum_part vs w) s)
      (\<lambda>tw buf. case variant_of vs s of Some v \<Rightarrow> ov_encode v s tw buf | None \<Rightarrow> Some (tw, buf))"
    using variant_contract.encode [OF variant s(2,3), OF s(1)] writes_parts_Nil by (cases "variant_of vs s") (simp_all add: d)
  show "prepends_parts (one_part_of (enum_part vs w) s)
      (\<lambda>st. case variant_of vs s of Some v \<Rightarrow> ov_prepend v s st | None \<Rightarrow> Some st)"
    using variant_contract.prepend [OF variant s(2,3), OF s(1)] prepends_parts_Nil by (cases "variant_of vs s") (simp_all add: d)
  show "measures_parts (one_part_of (enum_part vs w) s)
      (\<lambda>tm. case variant_of vs s of Some v \<Rightarrow> ov_len v s tm | None \<Rightarrow> Some (0, tm))"
    using variant_contract.len [OF variant s(2,3), OF s(1)] measures_parts_Nil by (cases "variant_of vs s") (simp_all add: d)
qed

lemma derive_oneof_laws:
  assumes e: "variant_of vs e = None" "\<And>s. variant_of vs s = None \<Longrightarrow> s = e"
  shows "oneof_contract rops rcontents rinv (derive_oneof e vs) (enum_part vs w) (enum_valid vs w) (enum_depth vs w)"
proof unfold_locales
  let ?o = "derive_oneof e vs"
  note d = derive_oneof_simps
  have none: "enum_part vs w s = None \<longleftrightarrow> variant_of vs s = None" for s by (simp add: enum_part_def)
  fix s s' tag wt val ctx x cp cp' and rest :: bytes
  show "oo_tags ?o \<noteq> [] \<and> distinct (oo_tags ?o)" using own_tag by (simp add: derive_oneof_def Let_def sort_Nil_iff)
  show "enum_valid vs w (oo_empty ?o)" "enum_part vs w (oo_empty ?o) = None" using e(1) by (simp_all add: d enum_valid_def none)
  show "enum_part vs w s = None \<Longrightarrow> s = oo_empty ?o" unfolding d none by (rule e(2))
  show "tag \<in> set (oo_tags ?o)" if "enum_part vs w s = Some (tag, wt, val)"
    using that variant_of_Some [of vs s] by (auto simp: derive_oneof_simps(1) enum_part_def)
  show "oo_is_empty ?o s \<longleftrightarrow> enum_part vs w s = None" by (simp only: d none)
  show "oo_clear ?o s = oo_empty ?o" by (simp only: d)
  show "oo_current ?o s = map_option fst (enum_part vs w s)" by (simp add: d enum_part_def option.map_comp comp_def)
  show "oo_decode ?o tag wt (oo_empty ?o) \<lparr>cap_buf = val @ rest, cap_extra = x\<rparr> ctx =
      Done (s, \<lparr>cap_buf = rest, cap_extra = x\<rparr>)"
    if "enum_valid vs w s" "enum_part vs w s = Some (tag, wt, val)" "enum_depth vs w s \<le> unat (recurse_count ctx)"
      "x \<le> length rest"
    unfolding d using decode_arms_eq [OF that(2,1,3,4)] e(1) by simp
  show "oo_decode ?o tag wt s cp ctx = Fail (collision (oo_current ?o s) tag)" if ne: "s \<noteq> oo_empty ?o"
  proof -
    obtain v where "variant_of vs s = Some v" using ne e(2) [of s] by (cases "variant_of vs s") (auto simp: d(2))
    then show ?thesis unfolding d by simp
  qed
  show "cap_extra cp' = cap_extra cp \<and> (\<exists>p. cap_buf cp = p @ cap_buf cp')" if "oo_decode ?o tag wt s cp ctx = Done (s', cp')"
    using that decode_arms_frame [of tag wt cp ctx s' cp'] unfolding d by (simp split: if_splits)
  show "oo_decode ?o tag wt s cp ctx \<noteq> Panic" if "tag \<in> set (oo_tags ?o)"
    using that decode_arms_no_panic [of tag wt cp ctx] unfolding d by simp
  assume v: "enum_valid vs w s"
  show "writes_parts (one_part_of (enum_part vs w) s) (oo_encode ?o s)"
    "prepends_parts (one_part_of (enum_part vs w) s) (oo_prepend ?o s)"
    "measures_parts (one_part_of (enum_part vs w) s) (oo_len ?o s)"
    using variants_write [OF v] by (simp_all add: derive_oneof_def Let_def)
qed

lemma option_oneof_laws:
  assumes all: "\<And>s. variant_of vs s \<noteq> None"
  shows "oneof_contract rops rcontents rinv (option_oneof (derive_nonempty_oneof vs)) (option_part (enum_part vs w))
    (option_valid (enum_valid vs w)) (option_depth (enum_depth vs w))"
proof unfold_locales
  let ?o = "option_oneof (derive_nonempty_oneof vs)" and ?p = "option_part (enum_part vs w)"
  note d = option_oneof_def derive_nonempty_oneof_def
  have some: "\<exists>v. variant_of vs s = Some v \<and> v \<in> set vs \<and> enum_part vs w s = Some (ov_tag v, vv_wire (w (ov_tag v)), vv_body (w (ov_tag v)) s)" for s
    using all [of s] variant_of_Some [of vs s] by (auto simp: enum_part_def)
  have none: "?p s = None \<longleftrightarrow> s = None" for s
    using some [of "the s"] by (cases s) (auto simp: option_part_def)
  fix s s' tag wt val ctx x cp cp' and rest :: bytes
  show "oo_tags ?o \<noteq> [] \<and> distinct (oo_tags ?o)" using own_tag by (simp add: d sort_Nil_iff)
  show "option_valid (enum_valid vs w) (oo_empty ?o)" "?p (oo_empty ?o) = None"
    by (simp_all add: d option_valid_def option_part_def)
  show "?p s = None \<Longrightarrow> s = oo_empty ?o" by (simp add: d none)
  show "oo_is_empty ?o s \<longleftrightarrow> ?p s = None" by (simp add: d none)
  show "oo_clear ?o s = oo_empty ?o" by (simp add: d)
  show "tag \<in> set (oo_tags ?o)" if "?p s = Some (tag, wt, val)"
    using that some [of "the s"] by (cases s) (auto simp: d option_part_def)
  show "oo_current ?o s = map_option fst (?p s)"
    using some [of "the s"] by (cases s) (auto simp: d option_part_def)
  show "oo_decode ?o tag wt (oo_empty ?o) \<lparr>cap_buf = val @ rest, cap_extra = x\<rparr> ctx =
      Done (s, \<lparr>cap_buf = rest, cap_extra = x\<rparr>)"
    if "option_valid (enum_valid vs w) s" "?p s = Some (tag, wt, val)"
      "option_depth (enum_depth vs w) s \<le> unat (recurse_count ctx)" "x \<le> length rest"
    using that decode_arms_eq [of "the s" tag wt val ctx x rest]
    by (cases s) (simp_all add: d option_part_def option_valid_def option_depth_def)
  show "oo_decode ?o tag wt s cp ctx = Fail (collision (oo_current ?o s) tag)" if "s \<noteq> oo_empty ?o"
    using that by (cases s) (simp_all add: d collision_def)
  show "cap_extra cp' = cap_extra cp \<and> (\<exists>p. cap_buf cp = p @ cap_buf cp')"
    if h: "oo_decode ?o tag wt s cp ctx = Done (s', cp')"
  proof (cases s)
    case None
    then obtain v where "decode_arms vs tag wt cp ctx = Done (v, cp')" using h by (auto simp: d)
    then show ?thesis using decode_arms_frame by blast
  qed (use h in \<open>simp add: d\<close>)
  show "oo_decode ?o tag wt s cp ctx \<noteq> Panic" if "tag \<in> set (oo_tags ?o)"
    using that decode_arms_no_panic [of tag wt cp ctx] by (cases s) (auto simp: d obind_Panic_iff)
  assume v: "option_valid (enum_valid vs w) s"
  have p: "one_part_of ?p None = []" "one_part_of ?p (Some y) = one_part_of (enum_part vs w) y" for y
    by (simp_all add: one_part_of_def option_part_def)
  have w: "(\<lambda>tw buf. variant_of vs y \<bind> (\<lambda>v. ov_encode v y tw buf)) =
        (\<lambda>tw buf. case variant_of vs y of Some v \<Rightarrow> ov_encode v y tw buf | None \<Rightarrow> Some (tw, buf))"
      "(\<lambda>st. variant_of vs y \<bind> (\<lambda>v. ov_prepend v y st)) =
        (\<lambda>st. case variant_of vs y of Some v \<Rightarrow> ov_prepend v y st | None \<Rightarrow> Some st)"
      "(\<lambda>tm. variant_of vs y \<bind> (\<lambda>v. ov_len v y tm)) =
        (\<lambda>tm. case variant_of vs y of Some v \<Rightarrow> ov_len v y tm | None \<Rightarrow> Some (0, tm))" for y
    using all [of y] by auto
  show "writes_parts (one_part_of ?p s) (oo_encode ?o s)"
    using variants_write(1) v writes_parts_Nil by (cases s) (simp_all add: d p w option_valid_def)
  show "prepends_parts (one_part_of ?p s) (oo_prepend ?o s)"
    using variants_write(2) v prepends_parts_Nil by (cases s) (simp_all add: d p w option_valid_def)
  show "measures_parts (one_part_of ?p s) (oo_len ?o s)"
    using variants_write(3) v measures_parts_Nil by (cases s) (simp_all add: d p w option_valid_def)
qed

end

section \<open>Distinguished decoding of derived enums\<close>

context distinguished_oneof_variants
begin

lemma dist_arms_relaxed:
  assumes "decode_arms_dist vs tag wt cp ctx = Done (s, k, cp')"
  shows "decode_arms vs tag wt cp (into_inner ctx) = Done (s, cp') \<and> rc_min_canonicity ctx \<le> k"
proof -
  obtain v where v: "variant_of_tag vs tag = Some v" "ov_decode_dist v wt cp ctx = Done (s, k, cp')"
    using assms by (auto simp: decode_arms_dist_def split: option.splits)
  have m: "v \<in> set vs" using variant_of_tag_Some [OF v(1)] by simp
  show ?thesis
    using distinguished_variant_contract.dist_relaxed [OF dist_variant [OF m] v(2)] v(1) by (simp add: decode_arms_def)
qed

lemma dist_arms_canonical:
  assumes "decode_arms_dist vs tag wt cp ctx = Done (s, Canonical, cp')" and "length (cap_buf cp) < 2 ^ 64"
  shows "enum_valid vs w s \<and> (\<exists>val. enum_part vs w s = Some (tag, wt, val) \<and> cap_buf cp = val @ cap_buf cp')"
proof -
  obtain v where v: "variant_of_tag vs tag = Some v" "ov_decode_dist v wt cp ctx = Done (s, Canonical, cp')"
    using assms by (auto simp: decode_arms_dist_def split: option.splits)
  have m: "v \<in> set vs" "ov_tag v = tag" using variant_of_tag_Some [OF v(1)] by simp_all
  note c = distinguished_variant_contract.dist_canonical [OF dist_variant [OF m(1)] v(2) assms(2)]
  have "ov_is v s"
    using variant_contract.decode_frame [OF variant [OF m(1)]
      conjunct1 [OF distinguished_variant_contract.dist_relaxed [OF dist_variant [OF m(1)] v(2)]]] by simp
  then have "variant_of vs s = Some v" by (rule variant_of_eq [OF m(1)])
  then show ?thesis using c m by (simp add: enum_valid_def enum_part_def)
qed

lemma dist_arms_complete:
  assumes "enum_part vs w s = Some (tag, wt, val)" and "enum_valid vs w s"
    and "enum_depth vs w s \<le> unat (recurse_count (into_inner ctx))" and "x \<le> length rest"
  shows "decode_arms_dist vs tag wt \<lparr>cap_buf = val @ rest, cap_extra = x\<rparr> ctx =
    Done (s, Canonical, \<lparr>cap_buf = rest, cap_extra = x\<rparr>)"
proof -
  obtain v where v: "variant_of vs s = Some v" "tag = ov_tag v" "wt = vv_wire (w tag)" "val = vv_body (w tag) s"
    using assms(1) by (auto simp: enum_part_def)
  have "v \<in> set vs" "ov_is v s" using variant_of_Some [OF v(1)] by simp_all
  then show ?thesis
    using distinguished_variant_contract.dist_complete [OF dist_variant, of v s ctx x rest] v assms(2-4)
    by (simp add: decode_arms_dist_def variant_of_tag_eq enum_valid_def enum_depth_def)
qed

lemma dist_arms_no_panic: "tag \<in> ov_tag ` set vs \<Longrightarrow> decode_arms_dist vs tag wt cp ctx \<noteq> Panic"
  using distinguished_variant_contract.dist_no_panic [OF dist_variant]
  by (auto simp: decode_arms_dist_def variant_of_tag_eq simp del: obind_Done_iff)

lemma derive_oneof_distinguished_laws:
  assumes e: "variant_of vs e = None" "\<And>s. variant_of vs s = None \<Longrightarrow> s = e"
  shows "distinguished_oneof_contract rops rcontents rinv (derive_oneof e vs) (enum_part vs w) (enum_valid vs w) (enum_depth vs w)"
proof (intro distinguished_oneof_contract.intro derive_oneof_laws e distinguished_oneof_contract_axioms.intro)
  let ?o = "derive_oneof e vs"
  note d = derive_oneof_simps
  fix s s' tag wt val k ctx x cp cp' and rest :: bytes
  show "s = oo_empty ?o \<and> oo_decode ?o tag wt s cp (into_inner ctx) = Done (s', cp') \<and> rc_min_canonicity ctx \<le> k"
    if "oo_decode_dist ?o tag wt s cp ctx = Done (s', k, cp')"
  proof -
    have "variant_of vs s = None" "decode_arms_dist vs tag wt cp ctx = Done (s', k, cp')"
      using that unfolding d by (simp_all split: if_splits)
    then show ?thesis using dist_arms_relaxed e(2) [of s] unfolding d by simp
  qed
  show "enum_valid vs w s' \<and> (\<exists>val. enum_part vs w s' = Some (tag, wt, val) \<and> cap_buf cp = val @ cap_buf cp')"
    if "oo_decode_dist ?o tag wt s cp ctx = Done (s', Canonical, cp')" "length (cap_buf cp) < 2 ^ 64"
    using that dist_arms_canonical [of tag wt cp ctx s' cp'] unfolding d by (simp split: if_splits)
  show "oo_decode_dist ?o tag wt (oo_empty ?o) \<lparr>cap_buf = val @ rest, cap_extra = x\<rparr> ctx =
      Done (s, Canonical, \<lparr>cap_buf = rest, cap_extra = x\<rparr>)"
    if "enum_valid vs w s" "enum_part vs w s = Some (tag, wt, val)" "enum_depth vs w s \<le> unat (recurse_count (into_inner ctx))"
      "x \<le> length rest"
    unfolding d using dist_arms_complete [OF that(2,1,3,4)] e(1) by simp
  show "oo_decode_dist ?o tag wt s cp ctx \<noteq> Panic" if "tag \<in> set (oo_tags ?o)"
    using that dist_arms_no_panic [of tag wt cp ctx] unfolding d by simp
qed

lemma option_oneof_distinguished_laws:
  assumes all: "\<And>s. variant_of vs s \<noteq> None"
  shows "distinguished_oneof_contract rops rcontents rinv (option_oneof (derive_nonempty_oneof vs))
    (option_part (enum_part vs w)) (option_valid (enum_valid vs w)) (option_depth (enum_depth vs w))"
proof (intro distinguished_oneof_contract.intro option_oneof_laws all distinguished_oneof_contract_axioms.intro)
  let ?o = "option_oneof (derive_nonempty_oneof vs)" and ?p = "option_part (enum_part vs w)"
  note d = option_oneof_def derive_nonempty_oneof_def
  fix s s' tag wt val k ctx x cp cp' and rest :: bytes
  have res: "s = None \<and> (\<exists>v. s' = Some v \<and> decode_arms_dist vs tag wt cp ctx = Done (v, k, cp'))"
    if "oo_decode_dist ?o tag wt s cp ctx = Done (s', k, cp')" for k
    using that by (cases s) (auto simp: d)
  show "s = oo_empty ?o \<and> oo_decode ?o tag wt s cp (into_inner ctx) = Done (s', cp') \<and> rc_min_canonicity ctx \<le> k"
    if "oo_decode_dist ?o tag wt s cp ctx = Done (s', k, cp')"
    using res [OF that] dist_arms_relaxed [of tag wt cp ctx _ k cp'] by (auto simp: d)
  show "option_valid (enum_valid vs w) s' \<and> (\<exists>val. ?p s' = Some (tag, wt, val) \<and> cap_buf cp = val @ cap_buf cp')"
    if "oo_decode_dist ?o tag wt s cp ctx = Done (s', Canonical, cp')" "length (cap_buf cp) < 2 ^ 64"
    using res [OF that(1)] dist_arms_canonical [OF _ that(2), of tag wt ctx] by (auto simp: option_valid_def option_part_def)
  show "oo_decode_dist ?o tag wt (oo_empty ?o) \<lparr>cap_buf = val @ rest, cap_extra = x\<rparr> ctx =
      Done (s, Canonical, \<lparr>cap_buf = rest, cap_extra = x\<rparr>)"
    if "option_valid (enum_valid vs w) s" "?p s = Some (tag, wt, val)"
      "option_depth (enum_depth vs w) s \<le> unat (recurse_count (into_inner ctx))" "x \<le> length rest"
    using that dist_arms_complete [of "the s" tag wt val ctx x rest]
    by (cases s) (simp_all add: d option_part_def option_valid_def option_depth_def)
  show "oo_decode_dist ?o tag wt s cp ctx \<noteq> Panic" if "tag \<in> set (oo_tags ?o)"
    using that dist_arms_no_panic [of tag wt cp ctx] by (cases s) (auto simp: d obind_Panic_iff)
qed

end

section \<open>Oneofs in structs\<close>

definition oneof_view ::
    "('s \<Rightarrow> 'o) \<Rightarrow> ('o \<Rightarrow> raw_part option) \<Rightarrow> ('o \<Rightarrow> bool) \<Rightarrow> ('o \<Rightarrow> nat) \<Rightarrow> 's field_view" where
  "oneof_view get part valid depth = \<lparr>fv_tag = (\<lambda>s. case part (get s) of Some (tag, _) \<Rightarrow> tag | None \<Rightarrow> 0),
     fv_parts = (\<lambda>s. case part (get s) of Some (_, p) \<Rightarrow> [p] | None \<Rightarrow> []),
     fv_valid = (\<lambda>s. valid (get s)), fv_depth = (\<lambda>s. depth (get s)), fv_same = (\<lambda>s t. get s = get t)\<rparr>"

lemma oneof_view_parts:
  "tagged (fv_tag (oneof_view get part valid depth) s) (fv_parts (oneof_view get part valid depth) s) = one_part_of part (get s)"
  by (auto simp: oneof_view_def one_part_of_def split: option.splits prod.splits)

lemmas oneof_field_simps = oneof_field_def oneof_view_def blank_def

context oneof_contract
begin

lemma oneof_field_member:
  assumes get_put: "\<And>v s. get (put v s) = v"
  shows "member_contract rops rcontents rinv (oneof_field get put oo) (oneof_view get part valid depth)"
proof unfold_locales
  let ?f = "oneof_field get put oo" and ?w = "oneof_view get part valid depth"
  show "mf_tags ?f \<noteq> [] \<and> distinct (mf_tags ?f)" using tags by (simp add: oneof_field_def)
  show "mf_current ?f = None \<Longrightarrow> length (mf_tags ?f) = 1" by (simp add: oneof_field_def)
  show "equivp (fv_same ?w)" by (auto simp: oneof_view_def intro!: equivpI reflpI sympI transpI)
  fix s t s' cur wt val ps rest x tag' dup cp cp' ctx
  show "mf_current ?f = Some cur \<Longrightarrow> cur s = (if fv_parts ?w s = [] then None else Some (fv_tag ?w s))"
    by (auto simp: oneof_field_simps current split: option.splits)
  show "fv_same ?w s t \<Longrightarrow> fv_valid ?w s = fv_valid ?w t \<and> fv_parts ?w s = fv_parts ?w t \<and>
      (fv_parts ?w s \<noteq> [] \<longrightarrow> fv_tag ?w s = fv_tag ?w t)" by (simp add: oneof_view_def)
  have blank: "get s = oo_empty oo" if "blank ?w s" for s
    using that only_empty by (auto simp: oneof_field_simps split: option.splits)
  show "blank ?w s \<Longrightarrow> blank ?w t \<Longrightarrow> fv_same ?w s t" using blank [of s] blank [of t] by (simp add: oneof_view_def)
  show "mf_decode ?f tag' wt dup s cp ctx \<noteq> Panic" if "tag' \<in> set (mf_tags ?f)"
    using decode_no_panic that by (auto simp: oneof_field_def obind_Panic_iff)
  show "mf_decode ?f tag' wt dup s cp ctx = Done (s', cp') \<Longrightarrow>
      cap_extra cp' = cap_extra cp \<and> (\<exists>p. cap_buf cp = p @ cap_buf cp')"
    using decode_frame by (auto simp: oneof_field_def)
  show "\<exists>s'. mf_decode ?f (fv_tag ?w t) wt False s \<lparr>cap_buf = val @ run_bytes ps @ rest, cap_extra = x\<rparr> ctx =
        Done (s', \<lparr>cap_buf = rest, cap_extra = x\<rparr>) \<and> fv_same ?w s' t"
    if "blank ?w s" "fv_valid ?w t" "fv_depth ?w t \<le> unat (recurse_count ctx)" "fv_parts ?w t = (wt, val) # ps" "ends_field rest x"
    using that(2-) blank [OF that(1)] decode [of "get t" _ wt val ctx x rest] get_put
    by (auto simp: oneof_field_def oneof_view_def ends_field_def split: option.splits)
  assume v: "fv_valid ?w s"
  then have v': "valid (get s)" by (simp add: oneof_view_def)
  show "fv_parts ?w s \<noteq> [] \<Longrightarrow> fv_tag ?w s \<in> set (mf_tags ?f)"
    using part_tag by (auto simp: oneof_field_simps split: option.splits)
  show "mf_is_empty ?f s \<longleftrightarrow> fv_parts ?w s = []" using is_empty by (auto simp: oneof_field_simps split: option.splits)
  show "blank ?w (mf_clear ?f s)" using clear empty get_put by (simp add: oneof_field_simps)
  show "writes_parts (tagged (fv_tag ?w s) (fv_parts ?w s)) (mf_encode ?f s)"
    unfolding oneof_view_parts using encode [OF v'] by (simp add: oneof_field_def)
  show "prepends_parts (tagged (fv_tag ?w s) (fv_parts ?w s)) (mf_prepend ?f s)"
    unfolding oneof_view_parts using prepend [OF v'] by (simp add: oneof_field_def)
  show "measures_parts (tagged (fv_tag ?w s) (fv_parts ?w s)) (mf_len ?f s)"
    unfolding oneof_view_parts using len [OF v'] by (simp add: oneof_field_def)
qed

end

context distinguished_oneof_contract
begin

lemma oneof_field_distinguished_member:
  assumes get_put: "\<And>v s. get (put v s) = v"
  shows "distinguished_member_contract rops rcontents rinv (oneof_field get put oo) (oneof_view get part valid depth)"
proof (intro distinguished_member_contract.intro oneof_field_member get_put distinguished_member_contract_axioms.intro)
  let ?f = "oneof_field get put oo" and ?w = "oneof_view get part valid depth"
  fix s t s' k wt val ps x tag' dup cp cp' ctx and rest :: bytes
  have res: "\<exists>v. oo_decode_dist oo tag' wt (get s) cp ctx = Done (v, k, cp') \<and> s' = put v s"
    if "mf_decode_dist ?f tag' wt dup s cp ctx = Done (s', k, cp')" for k
    using that by (auto simp: oneof_field_def)
  show "blank ?w s \<and> mf_decode ?f tag' wt dup s cp (into_inner ctx) = Done (s', cp') \<and> rc_min_canonicity ctx \<le> k"
    if "mf_decode_dist ?f tag' wt dup s cp ctx = Done (s', k, cp')"
    using res [OF that] dist_relaxed empty by (fastforce simp: oneof_field_simps)
  show "fv_valid ?w s' \<and> fv_tag ?w s' = tag' \<and>
      (\<exists>val ps. fv_parts ?w s' = (wt, val) # ps \<and> cap_buf cp = val @ run_bytes ps @ cap_buf cp')"
    if "tag' \<in> set (mf_tags ?f)" "mf_decode_dist ?f tag' wt dup s cp ctx = Done (s', Canonical, cp')"
      "length (cap_buf cp) < 2 ^ 64"
    using res [OF that(2)] dist_canonical [OF _ _ that(3), of tag' wt _ ctx] that(1) get_put
    by (fastforce simp: oneof_field_simps)
  show "\<exists>s'. mf_decode_dist ?f (fv_tag ?w t) wt False s \<lparr>cap_buf = val @ run_bytes ps @ rest, cap_extra = x\<rparr> ctx =
        Done (s', Canonical, \<lparr>cap_buf = rest, cap_extra = x\<rparr>) \<and> fv_same ?w s' t"
    if "blank ?w s" "fv_valid ?w t" "fv_depth ?w t \<le> unat (recurse_count (into_inner ctx))"
      "fv_parts ?w t = (wt, val) # ps" "ends_field rest x"
  proof -
    have "get s = oo_empty oo" using that(1) only_empty by (auto simp: oneof_field_simps split: option.splits)
    then show ?thesis
      using that(2-) dist_complete [of "get t" _ wt val ctx x rest] get_put
      by (auto simp: oneof_field_def oneof_view_def ends_field_def split: option.splits)
  qed
  show "mf_decode_dist ?f tag' wt dup s cp ctx \<noteq> Panic" if "tag' \<in> set (mf_tags ?f)"
    using dist_no_panic that by (auto simp: oneof_field_def obind_Panic_iff)
qed

end

section \<open>Messages derived from an enum\<close>

text \<open>The trivial measurer agrees with the other one on the first key, if its tag allows it.\<close>

lemma trivial_first_key: "tag < 32 \<Longrightarrow> map_option fst (runtime_key_len tag tag_measurer_new) = Some (trivial_key_len tag)"
proof -
  assume t: "tag < 32"
  have "unat (push_bit 2 (ucast tag) :: u64) < 128"
    using t by (simp add: unat_push_2 word_less_nat_alt)
  then have "length (varint_bytes (push_bit 2 (ucast tag))) = 1"
    by (subst varint_bytes_small) (simp_all add: word_less_nat_alt)
  then show ?thesis
    by (simp add: runtime_key_len_def tag_measurer_new_def checked_sub_u32_def trivial_key_len_def encoded_len_varint_bytes)
qed

lemma obind_Done [simp]: "obind m Done = m"
  by (cases m) auto

text \<open>Such a message is that of a struct with the enum as its only field.\<close>

definition self_field :: "('o, 'r) oneof \<Rightarrow> ('o, 'r) message_field" where
  "self_field oo = oneof_field (\<lambda>s. s) (\<lambda>v _. v) oo"

lemma sort_fields_one:
  "tags f \<noteq> [] \<Longrightarrow> sort_fields tags [f] = Some ([AlwaysOrdered f], RuntimeTagMeasurer)"
  by (simp add: sort_fields_def first_tag_def last_tag_def place_field_def finish_group_def choose_measurer_def)

lemma emission_one: "emission tags current reverse [AlwaysOrdered f] = Some [f]"
  by (simp add: emission_def emit_chunk_def)

lemma message_via_oneof_eq:
  assumes "oo_tags oo \<noteq> []"
  shows "message_via_oneof rops oo = derive_message rops (oo_empty oo) [self_field oo]"
proof -
  let ?f = "self_field oo"
  have f [simp]: "mf_tags ?f = oo_tags oo" "mf_encode ?f = oo_encode oo" "mf_prepend ?f = oo_prepend oo"
    "mf_len ?f = oo_len oo" "mf_is_empty ?f = oo_is_empty oo" "mf_clear ?f = oo_clear oo"
    "mf_decode ?f tag wt dup s buf ctx = oo_decode oo tag wt s buf ctx"
    "mf_decode_dist ?f tag wt dup s buf ctx' = oo_decode_dist oo tag wt s buf ctx'" for tag wt dup s buf ctx ctx'
    by (simp_all add: self_field_def oneof_field_def obind_Done)
  have sort: "sort_fields mf_tags [?f] = Some ([AlwaysOrdered ?f], RuntimeTagMeasurer)"
    using assms by (intro sort_fields_one) simp
  have enc: "derived_encode [?f] s buf = map_option snd (oo_encode oo s tag_writer_new buf)" for s buf
    by (cases "oo_encode oo s tag_writer_new buf") (auto simp: derived_encode_def sort emission_one)
  have len: "derived_len [?f] s = map_option fst (oo_len oo s tag_measurer_new)" for s
    by (cases "oo_len oo s tag_measurer_new") (auto simp: derived_len_def sort emission_one)
  have pre: "derived_prepend rops [?f] s buf = oo_prepend oo s (tag_rev_writer_new, buf) \<bind>
      (\<lambda>st. trw_finalize rops st \<bind> (\<lambda>(_, buf). Some buf))" for s buf
    by (cases "oo_prepend oo s (tag_rev_writer_new, buf)") (auto simp: derived_prepend_def sort emission_one)
  have dec: "derived_decode_field [?f] tag wt dup s buf ctx = (if tag \<in> set (oo_tags oo) then oo_decode oo tag wt s buf ctx
       else obind (skip_field slice_ops wt buf) (\<lambda>buf. Done (s, buf)))" for tag wt dup s buf ctx
    by (simp add: derived_decode_field_def field_of_tag_def)
  have top: "obind m (\<lambda>(s, k, b). Done (s, canonicity_update Canonical k, b)) = m"
    for m :: "('o \<times> canonicity \<times> bytes capped) outcome" by (cases m) auto
  have ext: "obind (from_result (check ctx HasExtensions)) (\<lambda>k. obind m (\<lambda>buf. Done (s, canonicity_update Canonical k, buf))) =
      obind (from_result (check ctx HasExtensions)) (\<lambda>_. obind m (\<lambda>buf. Done (s, HasExtensions, buf)))"
    for ctx s and m :: "bytes capped outcome"
    by (cases "rc_min_canonicity ctx \<le> HasExtensions") (auto simp: check_def not_le split: bool.splits)
  have dist: "derived_decode_field_dist [?f] tag wt dup s buf ctx = (if tag \<in> set (oo_tags oo) then oo_decode_dist oo tag wt s buf ctx
       else obind (from_result (check ctx HasExtensions)) (\<lambda>_.
         obind (skip_field slice_ops wt buf) (\<lambda>buf. Done (s, HasExtensions, buf))))" for tag wt dup s buf ctx
    by (simp add: derived_decode_field_dist_def field_of_tag_def top ext del: update_top)
  have fold: "fold mf_clear [?f] = oo_clear oo" by auto
  show ?thesis
    unfolding message_via_oneof_def derive_message_def
    by (simp add: enc len pre dec dist fun_eq_iff fold del: fold_simps)
qed

end
