(* ===== verification/Single_Field.thy ===== *)
theory Single_Field
  imports Oneof_Laws
begin

text \<open>Messages with one field only: structs with one member, and enums that are messages.\<close>

lemma single_body:
  "struct_body (\<lambda>_. v) [f] s = fields_bytes 0 (tagged (fv_tag v s) (fv_parts v s))"
  by (simp add: struct_body_def struct_parts_def present_def field_run_def tagged_def)

lemma single_member_laws:
  assumes m: "member_contract rops rcontents rinv f v"
    and init: "blank v init" and ext: "\<And>s t. fv_same v s t \<Longrightarrow> s = t"
  shows "message_contract rops rcontents rinv (derive_message rops init [f])
    (\<lambda>s. fields_bytes 0 (tagged (fv_tag v s) (fv_parts v s)))
    (\<lambda>s. fv_valid v s \<and> length (fields_bytes 0 (tagged (fv_tag v s) (fv_parts v s))) < 2 ^ 64) (fv_depth v)"
proof -
  have "derived_message rops rcontents rinv init [f] (\<lambda>_. v)"
  proof (intro derived_message.intro derived_message_axioms.intro)
    show "rev_buf_contract rops rcontents rinv" by (rule member_contract.axioms(1) [OF m])
    show "own_tags mf_tags [f]" using member_contract.tags [OF m] by (simp add: own_tags_def)
    show "s = t" if "\<And>g. g \<in> set [f] \<Longrightarrow> fv_same v s t" for s t using that [of f] ext by simp
  qed (use m init in auto)
  note laws = derived_message.derived_message_laws [OF this]
  have "struct_body (\<lambda>_. v) [f] = (\<lambda>s. fields_bytes 0 (tagged (fv_tag v s) (fv_parts v s)))"
    "struct_valid (\<lambda>_. v) [f] = (\<lambda>s. fv_valid v s \<and> length (fields_bytes 0 (tagged (fv_tag v s) (fv_parts v s))) < 2 ^ 64)"
    "struct_depth (\<lambda>_. v) [f] = fv_depth v"
    by (simp_all add: fun_eq_iff single_body struct_valid_def struct_depth_def)
  with laws show ?thesis by (simp only:)
qed

lemma message_contract_on:
  assumes m: "message_contract rops rcontents rinv m body valid depth"
    and e: "valid' (rm_empty m)"
    and v: "\<And>v. valid' v \<Longrightarrow> valid v \<and> body' v = body v \<and> depth v \<le> depth' v"
  shows "message_contract rops rcontents rinv m body' valid' depth'"
proof (intro message_contract.intro message_contract_axioms.intro)
  show "rev_buf_contract rops rcontents rinv" by (rule message_contract.axioms(1) [OF m])
  fix s buf ctx rest tag wt dup cp cp' s'
  show "rm_decode_field m tag wt dup s cp ctx = Done (s', cp') \<Longrightarrow>
      cap_extra cp' = cap_extra cp \<and> (\<exists>p. cap_buf cp = p @ cap_buf cp')"
    by (rule message_contract.field_frame [OF m])
  show "rm_decode_field m tag wt dup s cp ctx \<noteq> Panic" by (rule message_contract.field_no_panic [OF m])
  show "valid' (rm_empty m)" by (rule e)
  assume "valid' s"
  then have s: "valid s" "body' s = body s" "depth s \<le> depth' s" using v by blast+
  show "rm_is_empty m s \<longleftrightarrow> s = rm_empty m" "rm_clear m s = rm_empty m" "body' s = [] \<longleftrightarrow> s = rm_empty m"
    "rm_encode m s buf = Some (buf @ body' s)" "rm_len m s = Some (length (body' s))"
    "rev_buf_contract.prepends rcontents rinv (body' s) (rm_prepend m s)"
    using s m by (simp_all add: message_contract.is_empty message_contract.clear message_contract.body_Nil
        message_contract.encode message_contract.len message_contract.prepend)
  show "length (body' s) < 2 ^ 64" using s message_contract.body_length [OF m] by metis
  show "merge m (rm_empty m) \<lparr>cap_buf = body' s @ rest, cap_extra = length rest\<rparr> ctx =
        Done (s, \<lparr>cap_buf = rest, cap_extra = length rest\<rparr>)" if "depth' s \<le> unat (recurse_count ctx)"
    using s that message_contract.merge_body [OF m s(1), of ctx rest] by simp
qed

context field_contract
begin

lemma one_field_message_laws:
  assumes "\<And>v s. get (put v s) = v" and "\<And>s t. get s = get t \<Longrightarrow> s = t" and "get init = es_empty es"
  shows "message_contract rops rcontents rinv (derive_message rops init [value_field tag get put es fc])
    (\<lambda>s. fields_bytes 0 (tagged tag (parts (get s))))
    (\<lambda>s. valid (get s) \<and> length (fields_bytes 0 (tagged tag (parts (get s)))) < 2 ^ 64) (\<lambda>s. depth (get s))"
proof -
  have "blank (value_view tag get parts valid depth) init"
    using assms(3) empty parts_Nil by (simp add: blank_def value_view_def)
  note laws = single_member_laws [OF value_field_member [of get put tag, OF assms(1)] this]
  have "value_view tag get parts valid depth = \<lparr>fv_tag = (\<lambda>_. tag), fv_parts = (\<lambda>s. parts (get s)),
     fv_valid = (\<lambda>s. valid (get s)), fv_depth = (\<lambda>s. depth (get s)), fv_same = (\<lambda>s t. get s = get t)\<rparr>"
    by (simp add: value_view_def)
  with laws assms(2) show ?thesis by simp
qed

end

context oneof_contract
begin

lemma enum_message_laws:
  "message_contract rops rcontents rinv (message_via_oneof rops oo)
    (\<lambda>s. fields_bytes 0 (one_part_of part s))
    (\<lambda>s. valid s \<and> length (fields_bytes 0 (one_part_of part s)) < 2 ^ 64) depth"
proof -
  have "blank (oneof_view (\<lambda>s. s) part valid depth) (oo_empty oo)"
    using empty by (simp add: blank_def oneof_view_def)
  note laws = single_member_laws [OF oneof_field_member this, of "\<lambda>v _. v", unfolded oneof_view_parts]
  have "fv_valid (oneof_view (\<lambda>s. s) part valid depth) = valid" "fv_depth (oneof_view (\<lambda>s. s) part valid depth) = depth"
    "fv_same (oneof_view (\<lambda>s. s) part valid depth) = (=)"
    by (simp_all add: oneof_view_def fun_eq_iff)
  with laws show ?thesis
    by (simp only: message_via_oneof_eq [OF conjunct1 [OF tags]] self_field_def)
qed

end

end
