(* ===== verification/Strings.thy ===== *)
theory Strings
  imports Plain_Bytes "HOL-Library.List_Lexorder"
begin

text \<open>
  The general encoding of text and blobs, \<^verbatim>\<open>src/src/encoding/general.rs\<close>: \<^verbatim>\<open>String\<close> and \<^verbatim>\<open>&str\<close>, whose
  bytes must be UTF-8, \<^verbatim>\<open>Bytes\<close> and \<^verbatim>\<open>Blob\<close>. A string is the list of its bytes; Rust orders strings as lists of bytes.
\<close>

section \<open>UTF-8\<close>

text \<open>\<^verbatim>\<open>str::from_utf8\<close> of the standard library accepts the well-formed sequences of the Unicode standard (table 3-7).\<close>

definition between :: "u8 \<Rightarrow> u8 \<Rightarrow> u8 \<Rightarrow> bool" where
  "between l h b \<longleftrightarrow> l \<le> b \<and> b \<le> h"

definition continuation :: "u8 \<Rightarrow> bool" where
  "continuation = between 0x80 0xBF"

text \<open>The range of the second byte, and how many bytes follow the second, given the first byte.\<close>

definition second_byte :: "u8 \<Rightarrow> (u8 \<times> u8 \<times> nat) option" where
  "second_byte a =
    (if between 0xC2 0xDF a then Some (0x80, 0xBF, 0)
     else if a = 0xE0 then Some (0xA0, 0xBF, 1)
     else if a = 0xED then Some (0x80, 0x9F, 1)
     else if between 0xE1 0xEF a then Some (0x80, 0xBF, 1)
     else if a = 0xF0 then Some (0x90, 0xBF, 2)
     else if between 0xF1 0xF3 a then Some (0x80, 0xBF, 2)
     else if a = 0xF4 then Some (0x80, 0x8F, 2)
     else None)"

fun utf8_valid :: "bytes \<Rightarrow> bool" where
  "utf8_valid [] = True"
| "utf8_valid (a # bs) =
    (if a < 0x80 then utf8_valid bs
     else case (second_byte a, bs) of
       (Some (l, h, n), b # bs) \<Rightarrow>
         between l h b \<and> n \<le> length bs \<and> list_all continuation (take n bs) \<and> utf8_valid (drop n bs)
     | _ \<Rightarrow> False)"

lemma utf8_valid_ascii: "list_all (\<lambda>b. b < 0x80) s \<Longrightarrow> utf8_valid s"
  by (induction s) auto

section \<open>Strings\<close>

text \<open>The decoder that writes into the storage of the string, and clears it unless all is well.\<close>

definition string_decode :: "bytes \<Rightarrow> bytes capped \<Rightarrow> decode_context \<Rightarrow> (bytes \<times> bytes capped) outcome" where
  "string_decode v cp ctx =
    obind (take_length_delimited slice_ops cp) (\<lambda>source.
      obind (cap_copy (remaining_before_cap slice_ops source) source) (\<lambda>(bs, source).
        if utf8_valid bs then Done (bs, cap_outer cp source) else Fail InvalidValue))"

text \<open>The decoder of the feature \<^verbatim>\<open>forbid-unsafe\<close>, that goes through a vector of bytes.\<close>

definition string_decode_safe :: "bytes \<Rightarrow> bytes capped \<Rightarrow> decode_context \<Rightarrow> (bytes \<times> bytes capped) outcome" where
  "string_decode_safe v cp ctx =
    obind (vec_u8_decode v cp ctx) (\<lambda>(bs, cp). if utf8_valid bs then Done (bs, cp) else Fail InvalidValue)"

definition str_borrow_decode :: "bytes \<Rightarrow> bytes capped \<Rightarrow> decode_context \<Rightarrow> (bytes \<times> bytes capped) outcome" where
  "str_borrow_decode v cp ctx =
    obind (take_borrowed_length_delimited cp) (\<lambda>(bs, cp). if utf8_valid bs then Done (bs, cp) else Fail InvalidValue)"

text \<open>\<^verbatim>\<open>Bytes\<close> takes the region out of the buffer by \<^verbatim>\<open>copy_to_bytes\<close>, which is reading that many bytes.\<close>

definition bytes_decode :: "bytes \<Rightarrow> bytes capped \<Rightarrow> decode_context \<Rightarrow> (bytes \<times> bytes capped) outcome" where
  "bytes_decode v cp ctx =
    obind (take_length_delimited slice_ops cp) (\<lambda>buf.
      let len = remaining_before_cap slice_ops buf in
      obind (cap_copy len buf) (\<lambda>(bs, buf). Done (bs, cap_outer cp buf)))"

definition general_string :: "'r rev_ops \<Rightarrow> (bytes, 'r) codec" where
  "general_string rops = plain_bytes_codec rops string_decode"

definition general_str :: "'r rev_ops \<Rightarrow> (bytes, 'r) codec" where
  "general_str rops = plain_bytes_codec rops str_borrow_decode"

definition general_bytes :: "'r rev_ops \<Rightarrow> (bytes, 'r) codec" where
  "general_bytes rops = plain_bytes_codec rops bytes_decode"

definition general_blob :: "'r rev_ops \<Rightarrow> (bytes, 'r) codec" where
  "general_blob rops = plain_vec_u8 rops"

lemma string_decode_eq: "string_decode v cp ctx = string_decode_safe v cp ctx"
  by (cases "take_length_delimited slice_ops cp")
    (simp_all add: string_decode_def string_decode_safe_def vec_u8_decode_def del: take_length_delimited_Done utf8_valid.simps)

lemma string_decode_Done:
  "string_decode v cp ctx = Done (d, cp') \<longleftrightarrow> utf8_valid d \<and> vec_u8_decode v cp ctx = Done (d, cp')"
  by (auto simp: string_decode_eq string_decode_safe_def split: if_splits simp del: utf8_valid.simps)

lemma str_borrow_decode_Done:
  "str_borrow_decode v cp ctx = Done (d, cp') \<longleftrightarrow> utf8_valid d \<and> bytes_borrow_decode v cp ctx = Done (d, cp')"
  by (auto simp: str_borrow_decode_def bytes_borrow_decode_def split: if_splits
      simp del: utf8_valid.simps take_borrowed_Done)

lemma bytes_decode_eq: "bytes_decode = vec_u8_decode"
  by (simp add: fun_eq_iff bytes_decode_def vec_u8_decode_def Let_def)

lemma string_decode_not_Panic [simp]: "string_decode v cp ctx \<noteq> Panic" "str_borrow_decode v cp ctx \<noteq> Panic"
  by (auto simp: string_decode_eq string_decode_safe_def str_borrow_decode_def obind_Panic_iff)

text \<open>The strings that fit into a message.\<close>

definition text_valid :: "bytes \<Rightarrow> bool" where
  "text_valid v \<longleftrightarrow> utf8_valid v \<and> length v < 2 ^ 64"

lemma text_valid_eq: "text_valid = (\<lambda>v. utf8_valid v \<and> length v < 2 ^ 64)"
  by (simp add: fun_eq_iff text_valid_def)

context rev_buf_contract
begin

lemma string_laws:
  "distinguished_codec rops rcontents rinv (general_string rops) delimited text_valid (\<lambda>_. 0)"
  "distinguished_codec rops rcontents rinv (general_str rops) delimited text_valid (\<lambda>_. 0)"
  unfolding text_valid_eq
  by (rule delimited_codec_laws [OF rev_buf_contract_axioms];
      simp add: general_string_def general_str_def plain_bytes_codec_def plain_bytes_simps
        plain_bytes_len_eq plain_bytes_prepends [OF rev_buf_contract_axioms]
        string_decode_Done str_borrow_decode_Done vec_u8_decode_Done bytes_borrow_decode_Done del: utf8_valid.simps)+

lemma blob_laws:
  "distinguished_codec rops rcontents rinv (general_bytes rops) delimited (\<lambda>v. True \<and> length v < 2 ^ 64) (\<lambda>_. 0)"
  "distinguished_codec rops rcontents rinv (general_blob rops) delimited (\<lambda>v. True \<and> length v < 2 ^ 64) (\<lambda>_. 0)"
  using plain_bytes_laws(1) by (simp_all add: general_bytes_def general_blob_def bytes_decode_eq plain_vec_u8_def)

end

end
