(* ===== verification/Dynamic_Value.thy ===== *)
theory Dynamic_Value
  imports Single_Field Maps Strings Varint_Values Fixed Message_Api
begin

text \<open>
  \<^verbatim>\<open>Value\<close>, \<^verbatim>\<open>StructValue\<close> and \<^verbatim>\<open>ListValue\<close> of \<^verbatim>\<open>src/bilrost-types/src/types.rs\<close>: a oneof that is a message
  of its own and contains itself through maps and lists. Their trait implementations refer to each other; the model unfolds
  them to a level, and every decoder is shown not to depend on it once it exceeds what the recursion limit lets through.
\<close>

section \<open>Types\<close>

datatype dvalue =
    VNull
  | VFloat u64
  | VSigned u64
  | VUnsigned u64
  | VString bytes
  | VBool bool
  | VStruct struct_value
  | VList list_value
and struct_value = StructValue (sv_fields: "(bytes \<times> dvalue) list")
and list_value = ListValue (lv_values: "dvalue list")

definition as_float :: "dvalue \<Rightarrow> u64 option" where
  "as_float v = (case v of VFloat x \<Rightarrow> Some x | _ \<Rightarrow> None)"

definition as_signed :: "dvalue \<Rightarrow> u64 option" where
  "as_signed v = (case v of VSigned x \<Rightarrow> Some x | _ \<Rightarrow> None)"

definition as_unsigned :: "dvalue \<Rightarrow> u64 option" where
  "as_unsigned v = (case v of VUnsigned x \<Rightarrow> Some x | _ \<Rightarrow> None)"

definition as_string :: "dvalue \<Rightarrow> bytes option" where
  "as_string v = (case v of VString x \<Rightarrow> Some x | _ \<Rightarrow> None)"

definition as_bool :: "dvalue \<Rightarrow> bool option" where
  "as_bool v = (case v of VBool x \<Rightarrow> Some x | _ \<Rightarrow> None)"

definition as_struct :: "dvalue \<Rightarrow> struct_value option" where
  "as_struct v = (case v of VStruct x \<Rightarrow> Some x | _ \<Rightarrow> None)"

definition as_list :: "dvalue \<Rightarrow> list_value option" where
  "as_list v = (case v of VList x \<Rightarrow> Some x | _ \<Rightarrow> None)"

section \<open>The derived implementations, given that of the values inside\<close>

definition struct_value_fields :: "'r rev_ops \<Rightarrow> (dvalue, 'r) raw_message \<Rightarrow> (struct_value, 'r) message_field list" where
  "struct_value_fields rops m =
    [value_field 1 sv_fields (\<lambda>v s. StructValue v) (collection_empty_state btree_map_collection)
       (plain_field rops (map_codec rops (general_string rops) (message_codec rops m) btree_map_collection)
         (collection_empty_state btree_map_collection))]"

definition struct_value_message :: "'r rev_ops \<Rightarrow> (dvalue, 'r) raw_message \<Rightarrow> (struct_value, 'r) raw_message" where
  "struct_value_message rops m = derive_message rops (StructValue []) (struct_value_fields rops m)"

definition list_value_fields :: "'r rev_ops \<Rightarrow> (dvalue, 'r) raw_message \<Rightarrow> (list_value, 'r) message_field list" where
  "list_value_fields rops m =
    [value_field 1 lv_values (\<lambda>v s. ListValue v) (collection_empty_state vec_collection)
       (packed_field rops (message_codec rops m) vec_collection)]"

definition list_value_message :: "'r rev_ops \<Rightarrow> (dvalue, 'r) raw_message \<Rightarrow> (list_value, 'r) raw_message" where
  "list_value_message rops m = derive_message rops (ListValue []) (list_value_fields rops m)"

definition value_variants :: "'r rev_ops \<Rightarrow> (dvalue, 'r) raw_message \<Rightarrow> (dvalue, 'r) oneof_variant list" where
  "value_variants rops m =
    [value_variant rops 1 VFloat as_float (fixed_f64 rops),
     value_variant rops 2 VSigned as_signed (varint_i64 rops),
     value_variant rops 3 VUnsigned as_unsigned (varint_u64 rops),
     value_variant rops 4 VString as_string (general_string rops),
     value_variant rops 5 VBool as_bool (varint_bool rops),
     value_variant rops 6 VStruct as_struct (message_codec rops (struct_value_message rops m)),
     value_variant rops 7 VList as_list (message_codec rops (list_value_message rops m))]"

definition value_oneof :: "'r rev_ops \<Rightarrow> (dvalue, 'r) raw_message \<Rightarrow> (dvalue, 'r) oneof" where
  "value_oneof rops m = derive_oneof VNull (value_variants rops m)"

text \<open>A message that is only ever empty; what it does to a field is never asked, see \<open>value_level_enough\<close>.\<close>

definition null_message :: "(dvalue, 'r) raw_message" where
  "null_message = \<lparr>
     rm_empty = VNull,
     rm_is_empty = (\<lambda>s. s = VNull),
     rm_clear = (\<lambda>_. VNull),
     rm_encode = (\<lambda>s buf. if s = VNull then Some buf else None),
     rm_prepend = (\<lambda>s buf. if s = VNull then Some buf else None),
     rm_len = (\<lambda>s. if s = VNull then Some 0 else None),
     rm_decode_field = (\<lambda>_ _ _ _ _ _. Fail RecursionLimitReached),
     rm_decode_field_dist = (\<lambda>_ _ _ _ _ _. Fail RecursionLimitReached)\<rparr>"

primrec value_level :: "'r rev_ops \<Rightarrow> nat \<Rightarrow> (dvalue, 'r) raw_message" where
  "value_level rops 0 = null_message"
| "value_level rops (Suc n) = message_via_oneof rops (value_oneof rops (value_level rops n))"

text \<open>How deep the structs and lists in a value nest.\<close>

primrec value_nesting :: "dvalue \<Rightarrow> nat" and struct_nesting :: "struct_value \<Rightarrow> nat" and list_nesting :: "list_value \<Rightarrow> nat" where
  "value_nesting VNull = 0"
| "value_nesting (VFloat x) = 1"
| "value_nesting (VSigned x) = 1"
| "value_nesting (VUnsigned x) = 1"
| "value_nesting (VString x) = 1"
| "value_nesting (VBool x) = 1"
| "value_nesting (VStruct s) = Suc (struct_nesting s)"
| "value_nesting (VList l) = Suc (list_nesting l)"
| "struct_nesting (StructValue es) = foldr max (map snd (map (map_prod id value_nesting) es)) 0"
| "list_nesting (ListValue vs) = foldr max (map value_nesting vs) 0"

text \<open>
  The message: encoders that unfold as far as the value does, and decoders that unfold beyond the
  recursion limit of their context.
\<close>

definition value_message :: "'r rev_ops \<Rightarrow> (dvalue, 'r) raw_message" where
  "value_message rops = \<lparr>
     rm_empty = VNull,
     rm_is_empty = (\<lambda>s. s = VNull),
     rm_clear = (\<lambda>_. VNull),
     rm_encode = (\<lambda>s. rm_encode (value_level rops (Suc (value_nesting s))) s),
     rm_prepend = (\<lambda>s. rm_prepend (value_level rops (Suc (value_nesting s))) s),
     rm_len = (\<lambda>s. rm_len (value_level rops (Suc (value_nesting s))) s),
     rm_decode_field = (\<lambda>tag wt dup s buf ctx.
       rm_decode_field (value_level rops (Suc (unat (recurse_count ctx)))) tag wt dup s buf ctx),
     rm_decode_field_dist = (\<lambda>tag wt dup s buf ctx.
       rm_decode_field_dist (value_level rops (Suc (unat (recurse_count (into_inner ctx))))) tag wt dup s buf ctx)\<rparr>"

section \<open>What is written, and which values are\<close>

primrec value_body :: "dvalue \<Rightarrow> bytes" and struct_value_body :: "struct_value \<Rightarrow> bytes" and list_value_body :: "list_value \<Rightarrow> bytes" where
  "value_body VNull = []"
| "value_body (VFloat x) = fields_bytes 0 [(1, WtSixtyFourBit, le_bytes 8 x)]"
| "value_body (VSigned x) = fields_bytes 0 [(2, WtVarint, varint_bytes (zigzag x))]"
| "value_body (VUnsigned x) = fields_bytes 0 [(3, WtVarint, varint_bytes x)]"
| "value_body (VString x) = fields_bytes 0 [(4, WtLengthDelimited, delimited x)]"
| "value_body (VBool x) = fields_bytes 0 [(5, WtVarint, varint_bytes (if x then 1 else 0))]"
| "value_body (VStruct s) = fields_bytes 0 [(6, WtLengthDelimited, delimited (struct_value_body s))]"
| "value_body (VList l) = fields_bytes 0 [(7, WtLengthDelimited, delimited (list_value_body l))]"
| "struct_value_body (StructValue es) = (if es = [] then [] else
     fields_bytes 0 [(1, WtLengthDelimited, delimited (concat (map (\<lambda>(k, b). delimited k @ delimited b) (map (map_prod id value_body) es))))])"
| "list_value_body (ListValue vs) = (if vs = [] then [] else
     fields_bytes 0 [(1, WtLengthDelimited, delimited (concat (map delimited (map value_body vs))))])"

primrec value_wf :: "dvalue \<Rightarrow> bool" and struct_value_wf :: "struct_value \<Rightarrow> bool" and list_value_wf :: "list_value \<Rightarrow> bool" where
  "value_wf VNull = True"
| "value_wf (VFloat x) = True"
| "value_wf (VSigned x) = True"
| "value_wf (VUnsigned x) = True"
| "value_wf (VString x) = utf8_valid x"
| "value_wf (VBool x) = True"
| "value_wf (VStruct s) = struct_value_wf s"
| "value_wf (VList l) = list_value_wf l"
| "struct_value_wf (StructValue es) = (keys_ascend es \<and> (\<forall>e \<in> set (map (map_prod id value_wf) es). utf8_valid (fst e) \<and> snd e))"
| "list_value_wf (ListValue vs) = (\<forall>ok \<in> set (map value_wf vs). ok)"

text \<open>What decoding takes from the recursion limit: one for each value in a struct or list, and one for each struct and list.\<close>

primrec value_depth :: "dvalue \<Rightarrow> nat" and struct_value_depth :: "struct_value \<Rightarrow> nat" and list_value_depth :: "list_value \<Rightarrow> nat" where
  "value_depth VNull = 0"
| "value_depth (VFloat x) = 0"
| "value_depth (VSigned x) = 0"
| "value_depth (VUnsigned x) = 0"
| "value_depth (VString x) = 0"
| "value_depth (VBool x) = 0"
| "value_depth (VStruct s) = Suc (struct_value_depth s)"
| "value_depth (VList l) = Suc (list_value_depth l)"
| "struct_value_depth (StructValue es) = list_depth (\<lambda>e. Suc (snd e)) (map (map_prod id value_depth) es)"
| "list_value_depth (ListValue vs) = list_depth Suc (map value_depth vs)"

section \<open>The contract at every level\<close>

lemma foldr_max_le: "foldr max xs (0::nat) \<le> n \<longleftrightarrow> (\<forall>x \<in> set xs. x \<le> n)"
  by (induction xs) auto

lemma list_depth_max: "list_depth f xs \<le> n \<longleftrightarrow> (\<forall>x \<in> set xs. f x \<le> n)"
  by (induction xs) (auto simp: list_depth_def)

lemma list_depth_map: "list_depth f (map g xs) = list_depth (\<lambda>x. f (g x)) xs"
  by (simp add: list_depth_def foldr_map comp_def)

lemma length_in_concat: "x \<in> set xs \<Longrightarrow> length (f x) \<le> length (concat (map f xs))"
  by (induction xs) auto

lemma length_in_delimited: "length d \<le> length (delimited d)"
  by (simp add: delimited_def)

lemma length_in_field: "length val \<le> length (fields_bytes 0 [(tag, wt, val)])"
  by simp

definition values_to :: "nat \<Rightarrow> dvalue \<Rightarrow> bool" where
  "values_to n v \<longleftrightarrow> value_wf v \<and> length (value_body v) < 2 ^ 64 \<and> value_nesting v \<le> n"

definition structs_to :: "nat \<Rightarrow> struct_value \<Rightarrow> bool" where
  "structs_to n s \<longleftrightarrow> struct_value_wf s \<and> length (struct_value_body s) < 2 ^ 64 \<and> struct_nesting s \<le> n"

definition lists_to :: "nat \<Rightarrow> list_value \<Rightarrow> bool" where
  "lists_to n l \<longleftrightarrow> list_value_wf l \<and> length (list_value_body l) < 2 ^ 64 \<and> list_nesting l \<le> n"

lemma lists_to_items:
  assumes l: "lists_to n (ListValue vs)"
  shows "length (concat (map (\<lambda>v. delimited (value_body v)) vs)) < 2 ^ 64" and "\<forall>v \<in> set vs. values_to n v"
proof -
  let ?d = "concat (map (\<lambda>v. delimited (value_body v)) vs)"
  have "length ?d \<le> length (list_value_body (ListValue vs))"
    using length_in_delimited [of ?d] length_in_field [of "delimited ?d" 1 WtLengthDelimited] by (auto simp: comp_def)
  then show len: "length ?d < 2 ^ 64" using l unfolding lists_to_def by linarith
  show "\<forall>v \<in> set vs. values_to n v"
  proof
    fix v assume v: "v \<in> set vs"
    have "length (value_body v) \<le> length ?d"
      using length_in_concat [OF v, of "\<lambda>v. delimited (value_body v)"] length_in_delimited [of "value_body v"] by linarith
    then show "values_to n v" using len l v by (auto simp: lists_to_def values_to_def foldr_max_le)
  qed
qed

lemma structs_to_entries:
  assumes s: "structs_to n (StructValue es)"
  shows "length (concat (map (entry_enc delimited (\<lambda>v. delimited (value_body v))) es)) < 2 ^ 64"
    and "\<forall>(k, v) \<in> set es. text_valid k \<and> values_to n v" and "keys_ascend es"
proof -
  let ?enc = "entry_enc delimited (\<lambda>v. delimited (value_body v))"
  let ?d = "concat (map ?enc es)"
  have d: "concat (map (\<lambda>(k, b). delimited k @ delimited b) (map (map_prod id value_body) es)) = ?d"
    by (simp add: entry_enc_def [abs_def] comp_def split_def)
  have "length ?d \<le> length (struct_value_body (StructValue es))"
    using length_in_delimited [of ?d] length_in_field [of "delimited ?d" 1 WtLengthDelimited] d by auto
  then show len: "length ?d < 2 ^ 64" using s unfolding structs_to_def by linarith
  show "keys_ascend es" using s by (simp add: structs_to_def)
  show "\<forall>(k, v) \<in> set es. text_valid k \<and> values_to n v"
  proof (clarify, intro conjI)
    fix k v assume e: "(k, v) \<in> set es"
    have "length (delimited k) + length (delimited (value_body v)) \<le> length ?d"
      using length_in_concat [OF e, of ?enc] by (simp add: entry_enc_def)
    then have "length k < 2 ^ 64" "length (value_body v) < 2 ^ 64"
      using len length_in_delimited [of k] length_in_delimited [of "value_body v"] by linarith+
    then show "text_valid k" "values_to n v"
      using s e by (auto simp: structs_to_def values_to_def foldr_max_le text_valid_def)
  qed
qed

lemma rm_empty_derived [simp]: "rm_empty (derive_message rops init fs) = init"
  by (simp add: derive_message_def)

lemma wire_message_codec [simp]: "c_wire (message_codec rops m) = WtLengthDelimited" "c_checks_empty (message_codec rops m)"
    "c_for_overwrite (message_codec rops m) = rm_empty m"
  by (simp_all add: message_codec_def)

context rev_buf_contract
begin

lemma list_value_laws:
  assumes m: "message_contract rops rcontents rinv m value_body (values_to n) value_depth"
  shows "message_contract rops rcontents rinv (list_value_message rops m) list_value_body (lists_to n) list_value_depth"
proof -
  note item = message_contract.message_codec_laws [OF m]
  have r: "repeated_values rops rcontents rinv (message_codec rops m) (\<lambda>v. delimited (value_body v)) (values_to n)
      (\<lambda>v. Suc (value_depth v)) vec_collection (\<lambda>_. True)"
    by (intro repeated_values.intro item vec.collection_contract_axioms)
  note field = field_contract.one_field_message_laws [OF repeated_values.packed_field_laws [OF r],
    of lv_values "\<lambda>v s. ListValue v" "ListValue []" 1]
  let ?parts = "one_part (packed_codec rops (message_codec rops m) vec_collection)
    (packed_enc (\<lambda>v. delimited (value_body v)) vec_collection) (collection_empty_state vec_collection)"
  have parts: "list_value_body l = fields_bytes 0 (tagged 1 (?parts (lv_values l)))" for l
    by (cases l) (simp add: one_part_def packed_codec_def packed_enc_def collection_empty_state_def
        vec_collection_def tagged_def comp_def)
  have valid: "packed_valid (\<lambda>v. delimited (value_body v)) (values_to n) vec_collection (\<lambda>_. True) (lv_values l)"
    if "lists_to n l" for l
    using that lists_to_items [of n "lv_values l"] by (cases l) (simp add: packed_valid_def vec_collection_def)
  have depth: "list_depth (\<lambda>v. Suc (value_depth v)) (col_iter vec_collection (lv_values l)) = list_value_depth l" for l
    by (cases l) (simp add: vec_collection_def list_depth_map)
  show ?thesis
    unfolding list_value_message_def list_value_fields_def
  proof (rule message_contract_on [OF field])
    fix l assume l: "lists_to n l"
    then have "length (list_value_body l) < 2 ^ 64" by (simp add: lists_to_def)
    then show "(packed_valid (\<lambda>v. delimited (value_body v)) (values_to n) vec_collection (\<lambda>_. True) (lv_values l) \<and>
        length (fields_bytes 0 (tagged 1 (?parts (lv_values l)))) < 2 ^ 64) \<and>
        list_value_body l = fields_bytes 0 (tagged 1 (?parts (lv_values l))) \<and>
        list_depth (\<lambda>v. Suc (value_depth v)) (col_iter vec_collection (lv_values l)) \<le> list_value_depth l"
      using valid [OF l] depth [of l] parts [of l] by simp
  qed (auto simp: lists_to_def collection_empty_state_def vec_collection_def list_value.expand)
qed

lemma struct_value_laws:
  assumes m: "message_contract rops rcontents rinv m value_body (values_to n) value_depth"
  shows "message_contract rops rcontents rinv (struct_value_message rops m) struct_value_body (structs_to n) struct_value_depth"
proof -
  note item = message_contract.message_codec_laws [OF m]
  let ?kv = text_valid and ?venc = "\<lambda>v. delimited (value_body v)"
  let ?enc = "entry_enc delimited ?venc"
  let ?c = "map_codec rops (general_string rops) (message_codec rops m) btree_map_collection"
  let ?es = "collection_empty_state btree_map_collection"
  let ?valid = "packed_valid ?enc (entry_valid ?kv (values_to n)) btree_map_collection keys_ascend"
  let ?depth = "\<lambda>es. list_depth (entry_depth (\<lambda>_. 0) (\<lambda>v. Suc (value_depth v))) (col_iter btree_map_collection es)"
  have c: "value_codec rops rcontents rinv ?c (packed_enc ?enc btree_map_collection) ?valid ?depth"
    by (rule map_values.map_codec_laws)
      (intro map_values.intro distinguished_codec.axioms(1) [OF string_laws(1)] item btree_map.collection_contract_axioms)
  have es: "suits ?c (packed_enc ?enc btree_map_collection) ?valid ?es"
    by (simp add: suits_def collection_empty_state_def btree_map_collection_def map_codec_def packed_valid_def)
  let ?parts = "one_part ?c (packed_enc ?enc btree_map_collection) ?es"
  note field = field_contract.one_field_message_laws [OF value_codec.plain_field_laws [OF c es],
    of sv_fields "\<lambda>v s. StructValue v" "StructValue []" 1]
  have parts: "struct_value_body s = fields_bytes 0 (tagged 1 (?parts (sv_fields s)))" for s
    by (cases s) (simp add: one_part_def map_codec_def packed_enc_def collection_empty_state_def
        btree_map_collection_def tagged_def comp_def entry_enc_def [abs_def] split_def)
  have valid: "?valid (sv_fields s)" if "structs_to n s" for s
    using that structs_to_entries [of n "sv_fields s"]
    by (cases s) (auto simp: packed_valid_def btree_map_collection_def entry_valid_def)
  have depth: "?depth (sv_fields s) = struct_value_depth s" for s
    by (cases s) (simp add: btree_map_collection_def list_depth_map entry_depth_def [abs_def])
  show ?thesis
    unfolding struct_value_message_def struct_value_fields_def
  proof (rule message_contract_on [OF field])
    fix s assume s: "structs_to n s"
    then have "length (struct_value_body s) < 2 ^ 64" by (simp add: structs_to_def)
    then show "(?valid (sv_fields s) \<and> length (fields_bytes 0 (tagged 1 (?parts (sv_fields s)))) < 2 ^ 64) \<and>
        struct_value_body s = fields_bytes 0 (tagged 1 (?parts (sv_fields s))) \<and> ?depth (sv_fields s) \<le> struct_value_depth s"
      using valid [OF s] depth [of s] parts [of s] by simp
  qed (auto simp: structs_to_def collection_empty_state_def btree_map_collection_def struct_value.expand)
qed

end

lemma payload_simps [simp]:
  "as_float v = Some x \<longleftrightarrow> v = VFloat x" "as_signed v = Some i \<longleftrightarrow> v = VSigned i" "as_unsigned v = Some i \<longleftrightarrow> v = VUnsigned i"
  "as_string v = Some t \<longleftrightarrow> v = VString t" "as_bool v = Some b \<longleftrightarrow> v = VBool b"
  "as_struct v = Some s \<longleftrightarrow> v = VStruct s" "as_list v = Some l \<longleftrightarrow> v = VList l"
  by (cases v; auto simp: as_float_def as_signed_def as_unsigned_def as_string_def as_bool_def as_struct_def as_list_def)+

lemma payload_prisms:
  "prism VFloat as_float" "prism VSigned as_signed" "prism VUnsigned as_unsigned" "prism VString as_string"
  "prism VBool as_bool" "prism VStruct as_struct" "prism VList as_list"
  by (simp_all add: prism_def)

definition value_views :: "'r rev_ops \<Rightarrow> (dvalue, 'r) raw_message \<Rightarrow> nat \<Rightarrow> u32 \<Rightarrow> dvalue variant_view" where
  "value_views rops m n tag =
    (if tag = 1 then value_variant_view as_float (fixed_f64 rops) (le_bytes 8) (\<lambda>_. True) (\<lambda>_. 0)
     else if tag = 2 then value_variant_view as_signed (varint_i64 rops) (\<lambda>v. varint_bytes (zigzag v)) (\<lambda>_. True) (\<lambda>_. 0)
     else if tag = 3 then value_variant_view as_unsigned (varint_u64 rops) (\<lambda>v. varint_bytes v) (\<lambda>_. True) (\<lambda>_. 0)
     else if tag = 4 then value_variant_view as_string (general_string rops) delimited text_valid (\<lambda>_. 0)
     else if tag = 5 then value_variant_view as_bool (varint_bool rops) (\<lambda>b. varint_bytes (if b then 1 else 0)) (\<lambda>_. True) (\<lambda>_. 0)
     else if tag = 6 then value_variant_view as_struct (message_codec rops (struct_value_message rops m))
       (\<lambda>s. delimited (struct_value_body s)) (structs_to n) (\<lambda>s. Suc (struct_value_depth s))
     else value_variant_view as_list (message_codec rops (list_value_message rops m))
       (\<lambda>l. delimited (list_value_body l)) (lists_to n) (\<lambda>l. Suc (list_value_depth l)))"

lemma ov_tag_value_variant [simp]: "ov_tag (value_variant rops tag wrap payload c) = tag"
  and ov_is_value_variant [simp]: "ov_is (value_variant rops tag wrap payload c) s \<longleftrightarrow> payload s \<noteq> None"
  by (simp_all add: value_variant_def)

context rev_buf_contract
begin

lemma value_variant_contracts:
  assumes m: "message_contract rops rcontents rinv m value_body (values_to n) value_depth"
    and v: "v \<in> set (value_variants rops m)"
  shows "variant_contract rops rcontents rinv v (value_views rops m n (ov_tag v))"
  using v unfolding value_variants_def
  by (auto simp: value_views_def
      intro!: value_codec.value_variant_laws payload_prisms fixed_float_laws string_laws [THEN distinguished_codec.axioms(1)]
        varint_laws [THEN distinguished_codec.axioms(1)] varint_signed_laws [THEN distinguished_codec.axioms(1)]
        message_contract.message_codec_laws struct_value_laws list_value_laws m)

lemma value_oneof_variants:
  assumes m: "message_contract rops rcontents rinv m value_body (values_to n) value_depth"
  shows "oneof_variants rops rcontents rinv (value_variants rops m) (value_views rops m n)"
proof (intro oneof_variants.intro oneof_variants_axioms.intro)
  show "rev_buf_contract rops rcontents rinv" by (rule rev_buf_contract_axioms)
  fix v v' s
  show "v \<in> set (value_variants rops m) \<Longrightarrow> variant_contract rops rcontents rinv v (value_views rops m n (ov_tag v))"
    by (rule value_variant_contracts [OF m])
  show "value_variants rops m \<noteq> [] \<and> distinct (map ov_tag (value_variants rops m))" by (simp add: value_variants_def)
  show "v \<in> set (value_variants rops m) \<Longrightarrow> v' \<in> set (value_variants rops m) \<Longrightarrow> ov_is v s \<Longrightarrow> ov_is v' s \<Longrightarrow> v = v'"
    by (auto simp: value_variants_def)
qed

end

lemma payload_None [simp]:
  "as_float VNull = None" "as_signed VNull = None" "as_unsigned VNull = None" "as_string VNull = None"
  "as_bool VNull = None" "as_struct VNull = None" "as_list VNull = None"
  by (simp_all add: as_float_def as_signed_def as_unsigned_def as_string_def as_bool_def as_struct_def as_list_def)

lemma payload_wraps [simp]:
  "as_float (VFloat x) = Some x" "as_signed (VSigned i) = Some i" "as_unsigned (VUnsigned i) = Some i"
  "as_string (VString t) = Some t" "as_bool (VBool b) = Some b" "as_struct (VStruct s) = Some s" "as_list (VList l) = Some l"
  by simp_all

lemma value_variant_of:
  "variant_of (value_variants rops m) VNull = None"
  "variant_of (value_variants rops m) (VFloat x) = Some (value_variant rops 1 VFloat as_float (fixed_f64 rops))"
  "variant_of (value_variants rops m) (VSigned i) = Some (value_variant rops 2 VSigned as_signed (varint_i64 rops))"
  "variant_of (value_variants rops m) (VUnsigned i) = Some (value_variant rops 3 VUnsigned as_unsigned (varint_u64 rops))"
  "variant_of (value_variants rops m) (VString t) = Some (value_variant rops 4 VString as_string (general_string rops))"
  "variant_of (value_variants rops m) (VBool b) = Some (value_variant rops 5 VBool as_bool (varint_bool rops))"
  "variant_of (value_variants rops m) (VStruct s) =
     Some (value_variant rops 6 VStruct as_struct (message_codec rops (struct_value_message rops m)))"
  "variant_of (value_variants rops m) (VList l) =
     Some (value_variant rops 7 VList as_list (message_codec rops (list_value_message rops m)))"
  by (auto simp: variant_of_def value_variants_def as_float_def as_signed_def as_unsigned_def as_string_def as_bool_def
      as_struct_def as_list_def)

lemma value_view_simps:
  "value_variant_view payload c enc valid depth = \<lparr>vv_wire = c_wire c, vv_body = (\<lambda>s. enc (the (payload s))),
     vv_valid = (\<lambda>s. valid (the (payload s))), vv_depth = (\<lambda>s. depth (the (payload s)))\<rparr>"
  by (simp add: value_variant_view_def)

lemma value_wires:
  "c_wire (fixed_f64 rops) = WtSixtyFourBit" "c_wire (varint_i64 rops) = WtVarint" "c_wire (varint_u64 rops) = WtVarint"
  "c_wire (general_string rops) = WtLengthDelimited" "c_wire (varint_bool rops) = WtVarint"
  by (simp_all add: fixed_codec_defs fixed_width_common_def fixed_width_int_def fixed_f64_def varint_codec_defs varint_codec_def
      varint_i64_def general_string_def plain_bytes_codec_def)

lemma value_parts_body:
  "fields_bytes 0 (one_part_of (enum_part (value_variants rops m) (value_views rops m n)) v) = value_body v"
  by (cases v) (simp_all add: one_part_of_def enum_part_def value_variant_of value_views_def value_view_simps value_wires)

lemma value_depth_enum: "enum_depth (value_variants rops m) (value_views rops m n) v = value_depth v"
  by (cases v) (simp_all add: enum_depth_def value_variant_of value_views_def value_view_simps)

lemma value_valid_enum:
  assumes "values_to (Suc n) v"
  shows "enum_valid (value_variants rops m) (value_views rops m n) v"
proof -
  note d = enum_valid_def value_variant_of value_views_def value_view_simps
  have in_field: "length d < 2 ^ 64" if "length (fields_bytes 0 [(tag, wt, delimited d)]) < 2 ^ 64" for d tag wt
    using that length_in_delimited [of d] length_in_field [of "delimited d" tag wt] by linarith
  have v: "value_wf v" "length (value_body v) < 2 ^ 64" "value_nesting v \<le> Suc n"
    using assms unfolding values_to_def by blast+
  show ?thesis
  proof (cases v)
    case (VString t)
    then have "text_valid t" using v in_field by (simp only: text_valid_def value_wf.simps value_body.simps)
    then show ?thesis unfolding VString by (simp add: d)
  next
    case (VStruct s)
    then have "structs_to n s" 
      using v in_field by (simp only: structs_to_def value_wf.simps value_body.simps value_nesting.simps Suc_le_mono)
    then show ?thesis unfolding VStruct by (simp add: d)
  next
    case (VList l)
    then have "lists_to n l"
      using v in_field by (simp only: lists_to_def value_wf.simps value_body.simps value_nesting.simps Suc_le_mono)
    then show ?thesis unfolding VList by (simp add: d)
  qed (simp_all add: d)
qed

context rev_buf_contract
begin

lemma value_step_laws:
  assumes m: "message_contract rops rcontents rinv m value_body (values_to n) value_depth"
  shows "message_contract rops rcontents rinv (message_via_oneof rops (value_oneof rops m)) value_body (values_to (Suc n)) value_depth"
proof -
  let ?vs = "value_variants rops m" and ?w = "value_views rops m n"
  have none: "s = VNull" if "variant_of ?vs s = None" for s
    using that by (cases s) (simp_all add: value_variant_of)
  have oo: "oneof_contract rops rcontents rinv (derive_oneof VNull ?vs) (enum_part ?vs ?w) (enum_valid ?vs ?w) (enum_depth ?vs ?w)"
    using oneof_variants.derive_oneof_laws [OF value_oneof_variants [OF m] value_variant_of(1)] none by blast
  show ?thesis
    unfolding value_oneof_def
  proof (rule message_contract_on [OF oneof_contract.enum_message_laws [OF oo]])
    show "values_to (Suc n) (rm_empty (message_via_oneof rops (derive_oneof VNull ?vs)))"
      by (simp add: message_via_oneof_def derive_oneof_simps values_to_def)
    fix v assume v: "values_to (Suc n) v"
    then have "length (value_body v) < 2 ^ 64" unfolding values_to_def by blast
    then show "(enum_valid ?vs ?w v \<and> length (fields_bytes 0 (one_part_of (enum_part ?vs ?w) v)) < 2 ^ 64) \<and>
        value_body v = fields_bytes 0 (one_part_of (enum_part ?vs ?w) v) \<and> enum_depth ?vs ?w v \<le> value_depth v"
      unfolding value_parts_body value_depth_enum using value_valid_enum [OF v] by blast
  qed
qed

lemma null_message_laws: "message_contract rops rcontents rinv null_message value_body (values_to 0) value_depth"
proof (intro message_contract.intro message_contract_axioms.intro rev_buf_contract_axioms)
  fix v buf ctx rest tag wt dup v0 cp cp'
  show "values_to 0 (rm_empty null_message)" by (simp add: values_to_def null_message_def)
  show "rm_decode_field null_message tag wt dup v0 cp ctx \<noteq> Panic" by (simp add: null_message_def)
  show "rm_decode_field null_message tag wt dup v0 cp ctx = Done (v, cp') \<Longrightarrow>
      cap_extra cp' = cap_extra cp \<and> (\<exists>p. cap_buf cp = p @ cap_buf cp')" by (simp add: null_message_def)
  assume "values_to 0 v"
  then have "v = VNull" by (cases v) (simp_all add: values_to_def)
  then show "rm_is_empty null_message v \<longleftrightarrow> v = rm_empty null_message" "rm_clear null_message v = rm_empty null_message"
    "value_body v = [] \<longleftrightarrow> v = rm_empty null_message" "length (value_body v) < 2 ^ 64"
    "rm_encode null_message v buf = Some (buf @ value_body v)" "rm_len null_message v = Some (length (value_body v))"
    "prepends (value_body v) (rm_prepend null_message v)"
    "merge null_message (rm_empty null_message) \<lparr>cap_buf = value_body v @ rest, cap_extra = length rest\<rparr> ctx =
      Done (v, \<lparr>cap_buf = rest, cap_extra = length rest\<rparr>)"
    by (simp_all add: null_message_def prepends_def merge_def)
qed

lemma value_level_laws: "message_contract rops rcontents rinv (value_level rops n) value_body (values_to n) value_depth"
  by (induction n) (simp_all add: null_message_laws value_step_laws)

end

end
