(* ===== verification/Value_Recursion.thy ===== *)
theory Value_Recursion
  imports Dynamic_Value
begin

text \<open>
  The unfolding of \<^verbatim>\<open>Value\<close> does not matter: encoders depend on the values inside a value only, decoders on no
  more levels than the recursion limit allows, and \<open>value_message\<close> solves the equation that the mutually
  recursive trait implementations state.
\<close>

section \<open>Decoders\<close>

text \<open>Codecs, fields and messages that decode alike in contexts with at most this much recursion left.\<close>

definition same_codec :: "nat \<Rightarrow> ('v, 'r) codec \<Rightarrow> ('v, 'r) codec \<Rightarrow> bool" where
  "same_codec k c c' \<longleftrightarrow> c_wire c = c_wire c' \<and> c_for_overwrite c = c_for_overwrite c' \<and>
    (\<forall>v cp ctx. unat (recurse_count ctx) \<le> k \<longrightarrow> c_decode c v cp ctx = c_decode c' v cp ctx)"

definition same_message :: "nat \<Rightarrow> ('s, 'r) raw_message \<Rightarrow> ('s, 'r) raw_message \<Rightarrow> bool" where
  "same_message k m m' \<longleftrightarrow> rm_empty m = rm_empty m' \<and>
    (\<forall>tag wt dup s cp ctx. unat (recurse_count ctx) \<le> k \<longrightarrow>
      rm_decode_field m tag wt dup s cp ctx = rm_decode_field m' tag wt dup s cp ctx)"

lemma same_codec_sym: "same_codec k c c' \<Longrightarrow> same_codec k c' c"
  by (auto simp: same_codec_def)

lemma same_merge:
  assumes "same_message k m m'" and "unat (recurse_count ctx) \<le> k"
  shows "merge m s cp ctx = merge m' s cp ctx"
proof -
  have f: "rm_decode_field m tag wt dup s cp ctx = rm_decode_field m' tag wt dup s cp ctx" for tag wt dup s cp
    using assms by (simp add: same_message_def)
  have "merge_loop m fuel tr prev s cp ctx = merge_loop m' fuel tr prev s cp ctx" for fuel tr prev s cp
    by (induction fuel arbitrary: tr prev s cp) (simp_all add: f)
  then show ?thesis by (simp only: merge_def)
qed

lemma message_codec_stuck:
  "unat (recurse_count ctx) = 0 \<Longrightarrow> c_decode (message_codec rops m) s cp ctx = Fail RecursionLimitReached"
  by (simp add: message_codec_def message_decode_value_def limit_reached_def unat_eq_0)

lemma same_message_codec_0: "rm_empty m = rm_empty m' \<Longrightarrow> same_codec 0 (message_codec rops m) (message_codec rops m')"
  by (simp add: same_codec_def message_codec_stuck)

lemma same_message_codec:
  assumes "same_message k m m'"
  shows "same_codec (Suc k) (message_codec rops m) (message_codec rops m')"
proof -
  have "message_decode_value m s cp ctx = message_decode_value m' s cp ctx" if c: "unat (recurse_count ctx) \<le> Suc k" for s cp ctx
  proof (cases "limit_reached ctx")
    case (Ok u)
    then have "unat (recurse_count (enter_recursion ctx)) \<le> k" using c enter_recursion_limit [of ctx] by (cases u) simp
    then show ?thesis by (simp add: message_decode_value_def same_merge [OF assms])
  qed (simp add: message_decode_value_def)
  then show ?thesis using assms by (simp add: same_codec_def message_codec_def same_message_def)
qed

lemma same_map_codec:
  assumes "same_codec k ve ve'"
  shows "same_codec k (map_codec rops ke ve col) (map_codec rops ke ve' col)"
proof -
  have "map_decode_value ke ve col m cp ctx = map_decode_value ke ve' col m cp ctx" if c: "unat (recurse_count ctx) \<le> k" for m cp ctx
  proof -
    have d: "c_decode ve v cp ctx = c_decode ve' v cp ctx" "c_for_overwrite ve = c_for_overwrite ve'" "c_wire ve = c_wire ve'" for v cp
      using assms c by (simp_all add: same_codec_def)
    have "map_decode_loop ke ve col fuel m cp ctx = map_decode_loop ke ve' col fuel m cp ctx" for fuel m cp
      by (induction fuel arbitrary: m cp) (simp_all add: d)
    then show ?thesis by (simp only: map_decode_value_def d)
  qed
  then show ?thesis by (simp add: same_codec_def map_codec_def)
qed

lemma same_plain_field:
  "same_codec k c c' \<Longrightarrow> unat (recurse_count ctx) \<le> k \<Longrightarrow>
   f_decode (plain_field rops c es) wt v cp ctx = f_decode (plain_field rops c' es) wt v cp ctx"
  by (simp add: plain_field_def plain_decode_def decode_field_def same_codec_def)

lemma same_packed_field:
  assumes "same_codec k c c'" and "unat (recurse_count ctx) \<le> k"
  shows "f_decode (packed_field rops c col) wt v cp ctx = f_decode (packed_field rops c' col) wt v cp ctx"
proof -
  have d: "c_decode c v cp ctx = c_decode c' v cp ctx" "c_for_overwrite c = c_for_overwrite c'" "c_wire c = c_wire c'" for v cp
    using assms by (simp_all add: same_codec_def)
  have p: "packed_decode_loop c col fuel v cp ctx = packed_decode_loop c' col fuel v cp ctx" for fuel v cp
    by (induction fuel arbitrary: v cp) (simp_all add: d)
  have u: "unpacked_loop c col fuel v cp ctx = unpacked_loop c' col fuel v cp ctx" for fuel v cp
    by (induction fuel arbitrary: v cp) (simp_all add: d cong: option.case_cong)
  show ?thesis
    by (simp add: packed_field_def packed_decode_def packed_decode_value_def unpacked_decode_only_def d p u
        del: packed_decode_loop.simps unpacked_loop.simps cong: if_cong)
qed

lemma same_struct_message:
  assumes "same_codec k (message_codec rops m) (message_codec rops m')"
  shows "same_message k (struct_value_message rops m) (struct_value_message rops m')"
  by (simp add: same_plain_field [OF same_map_codec [OF assms]] same_message_def struct_value_message_def struct_value_fields_def derive_message_def
      derived_decode_field_def field_of_tag_def value_field_def)

lemma same_list_message:
  assumes "same_codec k (message_codec rops m) (message_codec rops m')"
  shows "same_message k (list_value_message rops m) (list_value_message rops m')"
  by (simp add: same_packed_field [OF assms] same_message_def list_value_message_def list_value_fields_def derive_message_def
      derived_decode_field_def field_of_tag_def value_field_def)

lemma same_value_variant:
  "same_codec k c c' \<Longrightarrow> unat (recurse_count ctx) \<le> k \<Longrightarrow>
   ov_decode (value_variant rops tag wrap payload c) wt cp ctx = ov_decode (value_variant rops tag wrap payload c') wt cp ctx"
  by (simp add: value_variant_def decode_field_def same_codec_def)

lemma same_oneof_message:
  assumes "same_codec k (message_codec rops m) (message_codec rops m')"
  shows "same_message (Suc k) (message_via_oneof rops (value_oneof rops m)) (message_via_oneof rops (value_oneof rops m'))"
proof -
  have none: "variant_of (value_variants rops m) s = None \<longleftrightarrow> variant_of (value_variants rops m') s = None" for s
    by (cases s) (simp_all add: value_variant_of)
  have tags: "map_option ov_tag (variant_of (value_variants rops m) s) = map_option ov_tag (variant_of (value_variants rops m') s)" for s
    by (cases s) (simp_all add: value_variant_of)
  have arms: "decode_arms (value_variants rops m) tag wt cp ctx = decode_arms (value_variants rops m') tag wt cp ctx"
    if "unat (recurse_count ctx) \<le> Suc k" for tag wt cp ctx
    by (simp add: same_value_variant [OF same_message_codec [OF same_struct_message [OF assms]] that]
        same_value_variant [OF same_message_codec [OF same_list_message [OF assms]] that] decode_arms_def variant_of_tag_def value_variants_def)
  have t: "oo_tags (value_oneof rops m) = oo_tags (value_oneof rops m')"
    by (simp add: value_oneof_def derive_oneof_def Let_def value_variants_def)
  show ?thesis
    by (simp add: same_message_def message_via_oneof_def t) (auto simp: value_oneof_def derive_oneof_simps none tags arms)
qed

text \<open>Levels beyond the recursion limit do not change what is decoded.\<close>

lemma same_levels: "k \<le> i \<Longrightarrow> k \<le> j \<Longrightarrow> same_codec k (message_codec rops (value_level rops i)) (message_codec rops (value_level rops j))"
proof (induction k arbitrary: i j)
  case 0
  have e: "rm_empty (value_level rops n) = VNull" for n
    by (cases n) (simp_all add: null_message_def message_via_oneof_def value_oneof_def derive_oneof_simps)
  show ?case by (rule same_message_codec_0) (simp add: e)
next
  case (Suc k)
  then obtain i' j' where "i = Suc i'" "j = Suc j'" "k \<le> i'" "k \<le> j'" by (metis Suc_le_D Suc_le_mono)
  then show ?case
    using same_message_codec [OF same_oneof_message [OF Suc.IH [of i' j']]]
    by (auto simp: same_codec_def)
qed

text \<open>The decoder of \<open>value_message\<close> is derived from itself.\<close>

lemma same_message_le: "same_message k m m' \<Longrightarrow> j \<le> k \<Longrightarrow> same_message j m m'"
  by (simp add: same_message_def)

lemma same_codec_le: "same_codec k c c' \<Longrightarrow> j \<le> k \<Longrightarrow> same_codec j c c'"
  by (simp add: same_codec_def)

lemma same_deep_levels: "k \<le> i \<Longrightarrow> k \<le> j \<Longrightarrow> same_message k (value_level rops (Suc i)) (value_level rops (Suc j))"
  using same_message_le [OF same_oneof_message [OF same_levels [of k i j]], of k] by simp

lemma value_message_same: "k \<le> n \<Longrightarrow> same_message k (value_message rops) (value_level rops (Suc n))"
proof -
  assume n: "k \<le> n"
  have "rm_decode_field (value_message rops) tag wt dup s cp ctx = rm_decode_field (value_level rops (Suc n)) tag wt dup s cp ctx"
    if "unat (recurse_count ctx) \<le> k" for tag wt dup s cp ctx
    using same_deep_levels [of "unat (recurse_count ctx)" "unat (recurse_count ctx)" n rops] n that
    by (simp add: same_message_def value_message_def del: value_level.simps)
  moreover have "rm_empty (value_level rops (Suc n)) = VNull"
    by (simp add: message_via_oneof_def value_oneof_def derive_oneof_simps)
  ultimately show ?thesis by (simp add: same_message_def value_message_def del: value_level.simps)
qed

lemma value_message_decodes:
  "rm_decode_field (value_message rops) tag wt dup s cp ctx =
   rm_decode_field (message_via_oneof rops (value_oneof rops (value_message rops))) tag wt dup s cp ctx"
proof -
  let ?r = "unat (recurse_count ctx)"
  have "same_codec ?r (message_codec rops (value_level rops (Suc ?r))) (message_codec rops (value_message rops))"
    by (rule same_codec_sym, rule same_codec_le [OF same_message_codec [OF value_message_same [OF order_refl]]]) simp
  from same_oneof_message [OF this]
  have "rm_decode_field (value_level rops (Suc (Suc ?r))) tag wt dup s cp ctx =
      rm_decode_field (message_via_oneof rops (value_oneof rops (value_message rops))) tag wt dup s cp ctx"
    by (simp add: same_message_def)
  moreover have "rm_decode_field (value_message rops) tag wt dup s cp ctx = rm_decode_field (value_level rops (Suc (Suc ?r))) tag wt dup s cp ctx"
    using value_message_same [of ?r "Suc ?r" rops] by (simp add: same_message_def del: value_level.simps)
  ultimately show ?thesis by simp
qed

section \<open>Encoders\<close>

definition same_writing :: "('s, 'r) raw_message \<Rightarrow> ('s, 'r) raw_message \<Rightarrow> 's \<Rightarrow> bool" where
  "same_writing m m' s \<longleftrightarrow> rm_encode m s = rm_encode m' s \<and> rm_prepend m s = rm_prepend m' s \<and> rm_len m s = rm_len m' s"

definition same_value :: "('v, 'r) codec \<Rightarrow> ('v, 'r) codec \<Rightarrow> 'v \<Rightarrow> bool" where
  "same_value c c' v \<longleftrightarrow> c_encode c v = c_encode c' v \<and> c_prepend c v = c_prepend c' v \<and> c_len c v = c_len c' v"

lemma same_value_message: "same_writing m m' s \<Longrightarrow> same_value (message_codec rops m) (message_codec rops m') s"
  by (simp add: same_writing_def same_value_def message_codec_def fun_eq_iff message_encode_value_def
      message_prepend_value_def message_value_encoded_len_def)

lemma same_value_map:
  assumes "\<forall>e \<in> set es. same_value ve ve' (snd e)" and "c_wire ve = c_wire ve'"
  shows "same_value (map_codec rops ke ve btree_map_collection) (map_codec rops ke ve' btree_map_collection) es"
proof -
  have e: "encode_entries ke ve xs = encode_entries ke ve' xs" "prepend_entries ke ve xs = prepend_entries ke ve' xs"
    if "\<forall>e \<in> set xs. same_value ve ve' (snd e)" for xs
    using that by (induction xs) (auto simp: fun_eq_iff same_value_def intro!: Option.bind_cong)
  have "map_encoded_length ke ve btree_map_collection es = map_encoded_length ke ve' btree_map_collection es"
    using assms by (auto simp: map_encoded_length_def btree_map_collection_def same_value_def split_def
        split: option.splits cong: map_cong)
  then show ?thesis
    using e [of es] e [of "rev es"] assms(1)
    by (simp add: same_value_def map_codec_def fun_eq_iff map_encode_value_def map_prepend_value_def map_value_encoded_len_def)
      (simp add: btree_map_collection_def)
qed

lemma same_value_packed:
  assumes "\<forall>v \<in> set vs. same_value (message_codec rops m) (message_codec rops m') v"
  shows "same_value (packed_codec rops (message_codec rops m) vec_collection) (packed_codec rops (message_codec rops m') vec_collection) vs"
proof -
  have e: "encode_all (message_codec rops m) xs = encode_all (message_codec rops m') xs"
    "prepend_all (message_codec rops m) xs = prepend_all (message_codec rops m') xs"
    "c_many_len (message_codec rops m) xs = c_many_len (message_codec rops m') xs"
    if "\<forall>v \<in> set xs. same_value (message_codec rops m) (message_codec rops m') v" for xs
    using that by (induction xs) (auto simp: fun_eq_iff same_value_def message_codec_def intro!: Option.bind_cong)
  show ?thesis
    using e [of vs] e [of "rev vs"] assms
    by (simp add: same_value_def packed_codec_def fun_eq_iff packed_encode_value_def packed_prepend_value_def packed_value_encoded_len_def)
      (simp add: vec_collection_def)
qed

lemma derived_single:
  assumes "mf_tags f \<noteq> []"
  shows "derived_encode [f] s buf = mf_encode f s tag_writer_new buf \<bind> (\<lambda>(_, buf). Some buf)"
    and "derived_prepend rops [f] s r = mf_prepend f s (tag_rev_writer_new, r) \<bind> (\<lambda>st. trw_finalize rops st \<bind> (\<lambda>(_, buf). Some buf))"
    and "derived_len [f] s = mf_len f s tag_measurer_new \<bind> (\<lambda>(n, _). Some n)"
proof -
  have sort: "sort_fields mf_tags [f] = Some ([AlwaysOrdered f], RuntimeTagMeasurer)"
    using assms by (rule sort_fields_one)
  show "derived_encode [f] s buf = mf_encode f s tag_writer_new buf \<bind> (\<lambda>(_, buf). Some buf)"
    by (cases "mf_encode f s tag_writer_new buf") (auto simp: derived_encode_def sort emission_one)
  show "derived_prepend rops [f] s r = mf_prepend f s (tag_rev_writer_new, r) \<bind> (\<lambda>st. trw_finalize rops st \<bind> (\<lambda>(_, buf). Some buf))"
    by (cases "mf_prepend f s (tag_rev_writer_new, r)") (auto simp: derived_prepend_def sort emission_one)
  show "derived_len [f] s = mf_len f s tag_measurer_new \<bind> (\<lambda>(n, _). Some n)"
    by (cases "mf_len f s tag_measurer_new") (auto simp: derived_len_def sort emission_one)
qed

lemma same_value_fields:
  assumes "same_value c c' v" and "c_wire c = c_wire c'"
  shows "encode_field c tag v = encode_field c' tag v" "prepend_field rops c tag v = prepend_field rops c' tag v"
    "field_encoded_len c tag v = field_encoded_len c' tag v"
  using assms by (simp_all add: fun_eq_iff same_value_def encode_field_def prepend_field_def field_encoded_len_def)

lemma same_writing_struct:
  assumes "\<forall>e \<in> set (sv_fields s). same_writing m m' (snd e)"
  shows "same_writing (struct_value_message rops m) (struct_value_message rops m') s"
proof -
  let ?c = "\<lambda>m. map_codec rops (general_string rops) (message_codec rops m) btree_map_collection"
  have "same_value (?c m) (?c m') (sv_fields s)"
    using assms by (intro same_value_map) (simp_all add: same_value_message)
  note f = same_value_fields [OF this]
  have w: "c_wire (?c m) = c_wire (?c m')" by (simp add: map_codec_def)
  show ?thesis
    by (simp add: same_writing_def struct_value_message_def struct_value_fields_def derive_message_def fun_eq_iff derived_single)
      (simp add: value_field_def plain_field_def plain_encode_def plain_prepend_def plain_encoded_len_def f [OF w])
qed

lemma same_writing_list:
  assumes "\<forall>v \<in> set (lv_values s). same_writing m m' v"
  shows "same_writing (list_value_message rops m) (list_value_message rops m') s"
proof -
  let ?c = "\<lambda>m. packed_codec rops (message_codec rops m) vec_collection"
  have "same_value (?c m) (?c m') (lv_values s)"
    using assms by (intro same_value_packed) (simp add: same_value_message)
  note f = same_value_fields [OF this]
  have w: "c_wire (?c m) = c_wire (?c m')" by (simp add: packed_codec_def)
  show ?thesis
    by (simp add: same_writing_def list_value_message_def list_value_fields_def derive_message_def fun_eq_iff derived_single)
      (simp add: value_field_def packed_field_def packed_encode_def packed_prepend_def packed_encoded_len_def f [OF w])
qed

definition value_children :: "dvalue \<Rightarrow> dvalue set" where
  "value_children v = (case v of VStruct s \<Rightarrow> snd ` set (sv_fields s) | VList l \<Rightarrow> set (lv_values l) | _ \<Rightarrow> {})"

lemma children_nesting: "c \<in> value_children v \<Longrightarrow> value_nesting c < value_nesting v"
proof -
  assume c: "c \<in> value_children v"
  have max: "x \<in> set xs \<Longrightarrow> x \<le> foldr max xs 0" for x :: nat and xs using foldr_max_le by blast
  show ?thesis
  proof (cases v)
    case (VStruct s)
    then show ?thesis using c max [of "value_nesting c" "map snd (map (map_prod id value_nesting) (sv_fields s))"]
      by (cases s) (force simp: value_children_def less_Suc_eq_le)
  next
    case (VList l)
    then show ?thesis using c max [of "value_nesting c" "map value_nesting (lv_values l)"]
      by (cases l) (auto simp: value_children_def less_Suc_eq_le)
  qed (use c in \<open>simp_all add: value_children_def\<close>)
qed

lemma same_writing_variant:
  "same_value c c' (the (payload s)) \<Longrightarrow> c_wire c = c_wire c' \<Longrightarrow>
   ov_encode (value_variant rops tag wrap payload c) s = ov_encode (value_variant rops tag wrap payload c') s \<and>
   ov_prepend (value_variant rops tag wrap payload c) s = ov_prepend (value_variant rops tag wrap payload c') s \<and>
   ov_len (value_variant rops tag wrap payload c) s = ov_len (value_variant rops tag wrap payload c') s"
  by (simp add: value_variant_def same_value_fields)

lemma same_writing_oneof:
  assumes "\<forall>c \<in> value_children v. same_writing m m' c"
  shows "same_writing (message_via_oneof rops (value_oneof rops m)) (message_via_oneof rops (value_oneof rops m')) v"
proof -
  have "same_writing (struct_value_message rops m) (struct_value_message rops m') s" if "v = VStruct s" for s
    using assms that by (intro same_writing_struct) (auto simp: value_children_def)
  then have s: "same_value (message_codec rops (struct_value_message rops m)) (message_codec rops (struct_value_message rops m')) s"
    if "v = VStruct s" for s using that by (intro same_value_message) simp
  have "same_writing (list_value_message rops m) (list_value_message rops m') l" if "v = VList l" for l
    using assms that by (intro same_writing_list) (auto simp: value_children_def)
  then have l: "same_value (message_codec rops (list_value_message rops m)) (message_codec rops (list_value_message rops m')) l"
    if "v = VList l" for l using that by (intro same_value_message) simp
  show ?thesis
  proof (cases v)
    case (VStruct x)
    show ?thesis
      unfolding VStruct using same_writing_variant [of _ _ as_struct "VStruct x", OF _ refl] s [OF VStruct]
      by (simp add: same_writing_def message_via_oneof_def value_oneof_def derive_oneof_def Let_def value_variant_of same_writing_variant)
  next
    case (VList x)
    show ?thesis
      unfolding VList using l [OF VList]
      by (simp add: same_writing_def message_via_oneof_def value_oneof_def derive_oneof_def Let_def value_variant_of same_writing_variant)
  qed (simp_all add: same_writing_def message_via_oneof_def value_oneof_def derive_oneof_def Let_def value_variant_of)
qed

lemma same_writing_levels: "value_nesting v \<le> i \<Longrightarrow> value_nesting v \<le> j \<Longrightarrow> same_writing (value_level rops i) (value_level rops j) v"
proof (induction i arbitrary: j v)
  case 0
  then have v: "v = VNull" by (cases v) simp_all
  have "same_writing null_message (value_level rops j) VNull"
    by (cases j) (auto simp: same_writing_def null_message_def message_via_oneof_def value_oneof_def derive_oneof_def
        Let_def value_variant_of trw_finalize_def tag_rev_writer_new_def fun_eq_iff)
  then show ?case by (simp add: v)
next
  case (Suc i)
  show ?case
  proof (cases j)
    case 0
    then have v: "v = VNull" using Suc.prems by (cases v) simp_all
    show ?thesis
      by (auto simp: v 0 same_writing_def null_message_def message_via_oneof_def value_oneof_def derive_oneof_def
          Let_def value_variant_of trw_finalize_def tag_rev_writer_new_def fun_eq_iff)
  next
    case (Suc j')
    have "same_writing (value_level rops i) (value_level rops j') c" if "c \<in> value_children v" for c
      using Suc.prems children_nesting [OF that] Suc by (intro Suc.IH) linarith+
    then show ?thesis by (simp add: Suc same_writing_oneof)
  qed
qed

lemma value_message_level: "same_writing (value_message rops) (value_level rops (Suc (value_nesting v))) v"
  by (simp add: same_writing_def value_message_def del: value_level.simps)

lemma value_message_writes:
  "same_writing (value_message rops) (message_via_oneof rops (value_oneof rops (value_message rops))) v"
proof -
  have "same_writing (value_level rops (value_nesting v)) (value_message rops) c" if "c \<in> value_children v" for c
    using children_nesting [OF that] same_writing_levels [of c "value_nesting v" "Suc (value_nesting c)" rops]
      value_message_level [of rops c] by (simp add: same_writing_def del: value_level.simps)
  then have "same_writing (value_level rops (Suc (value_nesting v))) (message_via_oneof rops (value_oneof rops (value_message rops))) v"
    by (simp add: same_writing_oneof)
  then show ?thesis using value_message_level [of rops v] by (simp add: same_writing_def del: value_level.simps)
qed

end
