(* ===== verification/Value_Properties.thy ===== *)
theory Value_Properties
  imports Value_Recursion Struct_Properties
begin

text \<open>What encoding and decoding a \<^verbatim>\<open>Value\<close> does: the contract of its message, and how deeply values may nest.\<close>

definition value_ok :: "dvalue \<Rightarrow> bool" where
  "value_ok v \<longleftrightarrow> value_wf v \<and> length (value_body v) < 2 ^ 64"

lemma nesting_depth:
  "value_nesting v \<le> Suc (value_depth v)" "struct_nesting s \<le> struct_value_depth s" "list_nesting l \<le> list_value_depth l"
proof (induction v and s and l)
  case (StructValue es)
  have "value_nesting (snd e) \<le> list_depth (\<lambda>e. Suc (snd e)) (map (map_prod id value_depth) es)" if "e \<in> set es" for e
    using StructValue [OF that, of "snd e"] that
      list_depth_max [of "\<lambda>e. Suc (snd e)" "map (map_prod id value_depth) es", THEN iffD1, OF order_refl]
    by (cases e) (force simp: snds.simps)
  then show ?case by (auto simp: foldr_max_le)
next
  case (ListValue vs)
  have "value_nesting v \<le> list_depth Suc (map value_depth vs)" if "v \<in> set vs" for v
    using ListValue [OF that] that list_depth_max [of Suc "map value_depth vs", THEN iffD1, OF order_refl] by force
  then show ?case by (auto simp: foldr_max_le)
qed simp_all

context rev_buf_contract
begin

lemma value_message_laws: "message_contract rops rcontents rinv (value_message rops) value_body value_ok value_depth"
proof (intro message_contract.intro message_contract_axioms.intro rev_buf_contract_axioms)
  let ?m = "value_message rops"
  fix v buf rest tag wt dup v0 cp cp' and ctx :: decode_context
  let ?l = "value_level rops (Suc (unat (recurse_count ctx)))"
  note level = value_level_laws [of "Suc (unat (recurse_count ctx))"]
  have field: "rm_decode_field ?m tag wt dup v0 cp ctx = rm_decode_field ?l tag wt dup v0 cp ctx" for tag wt dup v0 cp
    by (simp add: value_message_def)
  show "value_ok (rm_empty ?m)" by (simp add: value_ok_def value_message_def)
  show "rm_decode_field ?m tag wt dup v0 cp ctx \<noteq> Panic"
    unfolding field by (rule message_contract.field_no_panic [OF level])
  show "rm_decode_field ?m tag wt dup v0 cp ctx = Done (v, cp') \<Longrightarrow>
      cap_extra cp' = cap_extra cp \<and> (\<exists>p. cap_buf cp = p @ cap_buf cp')"
    unfolding field by (rule message_contract.field_frame [OF level])
  assume v: "value_ok v"
  have e: "rm_empty ?m = VNull" "rm_empty ?l = VNull" for n
    by (simp_all add: value_message_def message_via_oneof_def value_oneof_def derive_oneof_simps)
  show "rm_is_empty ?m v \<longleftrightarrow> v = rm_empty ?m" "rm_clear ?m v = rm_empty ?m" by (simp_all add: value_message_def)
  have own: "values_to (Suc (value_nesting v)) v" using v by (simp add: values_to_def value_ok_def)
  note w = value_level_laws [of "Suc (value_nesting v)"]
  show "value_body v = [] \<longleftrightarrow> v = rm_empty ?m" 
    unfolding e by (cases v) (simp_all)
  show "length (value_body v) < 2 ^ 64" using v by (simp add: value_ok_def)
  show "rm_encode ?m v buf = Some (buf @ value_body v)" "prepends (value_body v) (rm_prepend ?m v)"
    "rm_len ?m v = Some (length (value_body v))"
    using message_contract.encode [OF w own] message_contract.prepend [OF w own] message_contract.len [OF w own]
    by (simp_all add: value_message_def del: value_level.simps)
  assume d: "value_depth v \<le> unat (recurse_count ctx)"
  then have to: "values_to (Suc (unat (recurse_count ctx))) v"
    using v nesting_depth(1) [of v] unfolding values_to_def value_ok_def by linarith
  have "merge ?m VNull cp ctx = merge ?l VNull cp ctx" for cp
    using same_merge [OF value_message_same [OF order_refl] order_refl] .
  then show "merge ?m (rm_empty ?m) \<lparr>cap_buf = value_body v @ rest, cap_extra = length rest\<rparr> ctx =
        Done (v, \<lparr>cap_buf = rest, cap_extra = length rest\<rparr>)"
    using message_contract.merge_body [OF level to d, of rest] e by (simp del: value_level.simps)
qed

end

interpretation value_msg: message_contract "rb_rev_ops sco" rb_contents rb_inv "value_message (rb_rev_ops sco)" value_body value_ok value_depth
  by (rule rev_buf_contract.value_message_laws [OF rb_rev.rev_buf_contract_axioms])

interpretation value_enum: oneof_variants "rb_rev_ops sco" rb_contents rb_inv
  "value_variants (rb_rev_ops sco) (value_level (rb_rev_ops sco) n)" "value_views (rb_rev_ops sco) (value_level (rb_rev_ops sco) n) n"
  by (rule rev_buf_contract.value_oneof_variants [OF rb_rev.rev_buf_contract_axioms
      rev_buf_contract.value_level_laws [OF rb_rev.rev_buf_contract_axioms]])

section \<open>Nested lists\<close>

primrec nested_lists :: "nat \<Rightarrow> dvalue" where
  "nested_lists 0 = VNull"
| "nested_lists (Suc n) = VList (ListValue [nested_lists n])"

lemma nested_lists_ok: "value_wf (nested_lists n)" "value_depth (nested_lists n) = 2 * n"
  by (induction n) (simp_all add: list_depth_def)

lemma nested_lists_length: "length (value_body (nested_lists n)) \<le> 50 * n"
proof (induction n)
  case (Suc n)
  have d: "length (delimited d) \<le> length d + 9" for d
    using length_varint_bytes(2) [of "of_nat (length d)"] by (simp add: delimited_def)
  have f: "length (fields_bytes 0 [(tag, wt, val)]) \<le> length val + 9" for tag wt val
    using length_varint_bytes(2) [of "key_of (tag - 0) wt"] by simp
  have "length (list_value_body (ListValue [nested_lists n])) \<le> length (value_body (nested_lists n)) + 27"
    using f [of 1 WtLengthDelimited "delimited (delimited (value_body (nested_lists n)))"]
      d [of "delimited (value_body (nested_lists n))"] d [of "value_body (nested_lists n)"] by simp
  then show ?case
    using Suc f [of 7 WtLengthDelimited "delimited (list_value_body (ListValue [nested_lists n]))"]
      d [of "list_value_body (ListValue [nested_lists n])"] by simp
qed simp

lemma merge_first_fails:
  assumes "rm_decode_field m tag wt False s \<lparr>cap_buf = val @ rest, cap_extra = length rest\<rparr> ctx = Fail e"
  shows "merge m s \<lparr>cap_buf = fields_bytes 0 [(tag, wt, val)] @ rest, cap_extra = length rest\<rparr> ctx = Fail e"
proof -
  have "decode_key slice_ops tag_reader_new \<lparr>cap_buf = fields_bytes 0 [(tag, wt, val)] @ rest, cap_extra = length rest\<rparr> =
      Done (tag, wt, \<lparr>tr_last_tag = tag\<rparr>, \<lparr>cap_buf = val @ rest, cap_extra = length rest\<rparr>)"
    by (simp add: decode_key_Done tag_reader_new_def)
  then show ?thesis using assms length_varint_bytes(1) [of "key_of tag wt"] by (simp add: merge_def)
qed

lemma message_value_fails:
  assumes "unat (recurse_count ctx) > 0 \<Longrightarrow>
      merge m (rm_empty m) \<lparr>cap_buf = body @ rest, cap_extra = length rest\<rparr> (enter_recursion ctx) = Fail RecursionLimitReached"
    and "length body < 2 ^ 64" "x \<le> length rest"
  shows "c_decode (message_codec rops m) (rm_empty m) \<lparr>cap_buf = delimited body @ rest, cap_extra = x\<rparr> ctx =
    Fail RecursionLimitReached"
proof (cases "unat (recurse_count ctx) = 0")
  case False
  then have "limit_reached ctx = Ok ()" by (auto simp: limit_reached_def)
  then show ?thesis
    using False assms take_delimited_eq [OF assms(2,3)]
    by (simp add: message_codec_def message_decode_value_def del: take_length_delimited_Done)
qed (simp add: message_codec_stuck)

lemma list_first_fails:
  assumes "c_decode (message_codec rops m) (rm_empty m)
      \<lparr>cap_buf = delimited b @ rest, cap_extra = length rest\<rparr> ctx = Fail RecursionLimitReached"
    and "length (delimited b) < 2 ^ 64"
  shows "merge (list_value_message rops m) (ListValue [])
      \<lparr>cap_buf = fields_bytes 0 [(1, WtLengthDelimited, delimited (delimited b))] @ rest, cap_extra = length rest\<rparr> ctx =
    Fail RecursionLimitReached"
proof (rule merge_first_fails)
  have "packed_decode_value (message_codec rops m) vec_collection []
      \<lparr>cap_buf = delimited (delimited b) @ rest, cap_extra = length rest\<rparr> ctx = Fail RecursionLimitReached"
    using assms(1) take_delimited_eq [OF assms(2) order_refl, of rest]
    by (simp add: packed_decode_value_def uneven_def del: take_length_delimited_Done)
  then show "rm_decode_field (list_value_message rops m) 1 WtLengthDelimited False (ListValue [])
      \<lparr>cap_buf = delimited (delimited b) @ rest, cap_extra = length rest\<rparr> ctx = Fail RecursionLimitReached"
    by (simp add: list_value_message_def list_value_fields_def derive_message_def derived_decode_field_def field_of_tag_def
        value_field_def packed_field_def packed_decode_def)
qed

lemma value_list_arm:
  "rm_decode_field (message_via_oneof rops (value_oneof rops m)) 7 wt dup VNull cp ctx =
    obind (decode_field (message_codec rops (list_value_message rops m)) wt (ListValue []) cp ctx) (\<lambda>(v, buf). Done (VList v, buf))"
proof -
  have "variant_of_tag (value_variants rops m) 7 = Some (value_variant rops 7 VList as_list (message_codec rops (list_value_message rops m)))"
    by (simp add: variant_of_tag_def value_variants_def)
  moreover have "7 \<in> set (oo_tags (derive_oneof VNull (value_variants rops m)))"
    by (simp add: derive_oneof_simps value_variants_def)
  ultimately show ?thesis
    by (simp add: message_via_oneof_def value_oneof_def derive_oneof_simps(6) value_variant_of(1) decode_arms_def)
      (simp add: value_variant_def list_value_message_def)
qed

lemma nested_lists_fail:
  assumes "unat (recurse_count ctx) < 2 * n" and "length (value_body (nested_lists n)) < 2 ^ 64"
  shows "merge (value_message rops) VNull \<lparr>cap_buf = value_body (nested_lists n) @ rest, cap_extra = length rest\<rparr> ctx =
    Fail RecursionLimitReached"
  using assms
proof (induction n arbitrary: ctx rest)
  case (Suc n)
  let ?b = "value_body (nested_lists n)" and ?m = "value_message rops"
  let ?lb = "list_value_body (ListValue [nested_lists n])"
  have e: "rm_empty ?m = VNull" "rm_empty (list_value_message rops ?m) = ListValue []"
    by (simp_all add: value_message_def list_value_message_def)
  have lb: "?lb = fields_bytes 0 [(1, WtLengthDelimited, delimited (delimited ?b))]" by simp
  have len: "length ?lb < 2 ^ 64" "length (delimited ?b) < 2 ^ 64" "length ?b < 2 ^ 64"
    using Suc.prems(2) length_in_field [of "delimited ?lb" 7 WtLengthDelimited] length_in_delimited [of ?lb]
      length_in_field [of "delimited (delimited ?b)" 1 WtLengthDelimited] length_in_delimited [of "delimited ?b"]
      length_in_delimited [of ?b] unfolding lb by simp_all
  have inner: "merge (list_value_message rops ?m) (ListValue []) \<lparr>cap_buf = ?lb @ r, cap_extra = length r\<rparr> c = Fail RecursionLimitReached"
    if c: "unat (recurse_count c) < 2 * n + 1" for r c
    unfolding lb
  proof (rule list_first_fails [OF _ len(2)], rule message_value_fails [OF _ len(3) order_refl])
    assume pos: "unat (recurse_count c) > 0"
    then have "limit_reached c = Ok ()" by (auto simp: limit_reached_def)
    then have "unat (recurse_count (enter_recursion c)) < 2 * n" using enter_recursion_limit [of c] c pos by simp
    then show "merge ?m (rm_empty ?m) \<lparr>cap_buf = ?b @ r, cap_extra = length r\<rparr> (enter_recursion c) = Fail RecursionLimitReached"
      unfolding e using len by (intro Suc.IH)
  qed
  have "c_decode (message_codec rops (list_value_message rops ?m)) (ListValue [])
      \<lparr>cap_buf = delimited ?lb @ rest, cap_extra = length rest\<rparr> ctx = Fail RecursionLimitReached"
    unfolding e(2) [symmetric]
  proof (rule message_value_fails [OF _ len(1) order_refl])
    assume pos: "unat (recurse_count ctx) > 0"
    then have "limit_reached ctx = Ok ()" by (auto simp: limit_reached_def)
    then have "unat (recurse_count (enter_recursion ctx)) < 2 * n + 1"
      using enter_recursion_limit [of ctx] Suc.prems(1) pos by simp
    then show "merge (list_value_message rops ?m) (rm_empty (list_value_message rops ?m))
        \<lparr>cap_buf = ?lb @ rest, cap_extra = length rest\<rparr> (enter_recursion ctx) = Fail RecursionLimitReached"
      unfolding e by (rule inner)
  qed
  then have "rm_decode_field ?m 7 WtLengthDelimited False VNull \<lparr>cap_buf = delimited ?lb @ rest, cap_extra = length rest\<rparr> ctx =
      Fail RecursionLimitReached"
    unfolding value_message_decodes value_list_arm by (simp add: decode_field_def check_wire_type_def del: list_value_body.simps)
  from merge_first_fails [OF this] show ?case by simp
qed simp

section \<open>Properties\<close>

text \<open>
  C3. Every dynamic value of valid text and ordered keys encodes, and what is written decodes to it again, whatever
  it is made of, if its structs and lists nest within the recursion limit.
\<close>

theorem value_roundtrip:
  assumes "value_wf v" and "length (value_body v) < 2 ^ 64" and "value_depth v \<le> 100"
  shows "\<exists>bs. encode_to_vec (value_message (rb_rev_ops sco)) v = Some bs \<and>
    message_encoded_len (value_message (rb_rev_ops sco)) v = Some (length bs) \<and>
    decode_message (value_message (rb_rev_ops sco)) bs = Done (v, []) \<and>
    (\<exists>r. encode_fast (value_message (rb_rev_ops sco)) v = Some r \<and> rb_holds r bs)"
proof -
  have v: "value_ok v" using assms by (simp add: value_ok_def)
  obtain r where "encode_fast (value_message (rb_rev_ops sco)) v = Some r" "rb_inv r" "rb_contents r = value_body v"
    using encode_fast_laws(1) [OF value_msg.message_contract_axioms v] by blast
  then show ?thesis
    using value_msg.api_encode(1,2) [OF v] value_msg.api_decode(1) [OF v assms(3)] rb_inv_holds [of r] by auto
qed

text \<open>
  C15. Each list of values costs two of the recursion limit, one for the list and one for the value in it: lists
  nested up to 50 deep decode, and any deeper ones are written, but refused when they are read.
\<close>

theorem value_nesting_limit:
  assumes "n \<le> 2 ^ 50"
  shows "\<exists>bs. encode_to_vec (value_message (rb_rev_ops sco)) (nested_lists n) = Some bs \<and>
    decode_message (value_message (rb_rev_ops sco)) bs =
      (if n \<le> 50 then Done (nested_lists n, []) else Fail RecursionLimitReached)"
proof -
  have len: "length (value_body (nested_lists n)) < 2 ^ 64" using assms nested_lists_length [of n] by simp
  then have v: "value_ok (nested_lists n)" by (simp add: value_ok_def nested_lists_ok)
  have "decode_message (value_message (rb_rev_ops sco)) (value_body (nested_lists n)) = Fail RecursionLimitReached"
    if "\<not> n \<le> 50"
  proof -
    have "unat (recurse_count context_default) < 2 * n" using that by (simp add: context_default_def RECURSION_LIMIT_def)
    from nested_lists_fail [OF this len, of "rb_rev_ops sco" "[]"]
    show ?thesis by (simp add: decode_message_def decode_capped_def capped_new_def value_message_def del: value_level.simps)
  qed
  then show ?thesis
    using value_msg.api_encode(2) [OF v] value_msg.api_decode(1) [OF v] by (auto simp: nested_lists_ok)
qed

text \<open>
  The implementations for \<^verbatim>\<open>Value\<close>, \<^verbatim>\<open>StructValue\<close> and \<^verbatim>\<open>ListValue\<close> are defined from each other; the message
  of the model, which unfolds them to a bounded level, satisfies that recursive definition exactly.
\<close>

theorem value_message_recursive:
  "rm_encode (value_message rops) v = rm_encode (message_via_oneof rops (value_oneof rops (value_message rops))) v \<and>
   rm_prepend (value_message rops) v = rm_prepend (message_via_oneof rops (value_oneof rops (value_message rops))) v \<and>
   rm_len (value_message rops) v = rm_len (message_via_oneof rops (value_oneof rops (value_message rops))) v \<and>
   rm_decode_field (value_message rops) = rm_decode_field (message_via_oneof rops (value_oneof rops (value_message rops)))"
  using value_message_writes [of rops v] value_message_decodes [of rops]
  by (simp_all add: same_writing_def fun_eq_iff del: value_level.simps)

theorem value_roundtrip_witness:
  "\<exists>bs. encode_to_vec (value_message (rb_rev_ops True))
      (VStruct (StructValue [([97], VList (ListValue [VBool True, VNull])), ([98], VSigned 5)])) = Some bs \<and>
    decode_message (value_message (rb_rev_ops True)) bs =
      Done (VStruct (StructValue [([97], VList (ListValue [VBool True, VNull])), ([98], VSigned 5)]), [])"
  using value_roundtrip [of "VStruct (StructValue [([97], VList (ListValue [VBool True, VNull])), ([98], VSigned 5)])" True]
  by (simp add: list_depth_def delimited_def varint_bytes_small key_of_def zigzag_def) blast

theorem value_nesting_limit_witness:
  "\<exists>bs. encode_to_vec (value_message (rb_rev_ops True)) (nested_lists 51) = Some bs \<and>
    decode_message (value_message (rb_rev_ops True)) bs = Fail RecursionLimitReached"
  using value_nesting_limit [of 51 True] by (simp del: nested_lists.simps)

end
