(* ===== verification/Oneof_Properties.thy ===== *)
theory Oneof_Properties
  imports Value_Properties
begin

text \<open>
  Oneofs in structs: the message \<^verbatim>\<open>Widget\<close> of \<^verbatim>\<open>src/README.md\<close> as an instance of the contracts of \<^verbatim>\<open>Oneof_Laws\<close>, and what holds of
  every oneof: at most one of its fields is accepted, and message variants are not counted by the recursion limit.
\<close>

section \<open>A struct with a oneof\<close>

datatype name_or_uuid = NoName bytes | NoUuid bytes

definition as_name :: "name_or_uuid \<Rightarrow> bytes option" where
  "as_name v = (case v of NoName x \<Rightarrow> Some x | _ \<Rightarrow> None)"

definition as_uuid :: "name_or_uuid \<Rightarrow> bytes option" where
  "as_uuid v = (case v of NoUuid x \<Rightarrow> Some x | _ \<Rightarrow> None)"

definition name_or_uuid_variants :: "'r rev_ops \<Rightarrow> (name_or_uuid, 'r) oneof_variant list" where
  "name_or_uuid_variants rops =
    [value_variant rops 2 NoName as_name (general_string rops),
     value_variant rops 3 NoUuid as_uuid (plain_u8_array 16 rops)]"

record widget =
  wd_id :: u32
  wd_label :: "name_or_uuid option"
  wd_description :: bytes

definition widget_init :: widget where
  "widget_init = \<lparr>wd_id = 0, wd_label = None, wd_description = []\<rparr>"

abbreviation widget_oneof :: "'r rev_ops \<Rightarrow> (name_or_uuid option, 'r) oneof" where
  "widget_oneof rops \<equiv> option_oneof (derive_nonempty_oneof (name_or_uuid_variants rops))"

definition widget_fields :: "'r rev_ops \<Rightarrow> (widget, 'r) message_field list" where
  "widget_fields rops =
    [value_field 1 wd_id (\<lambda>v s. s\<lparr>wd_id := v\<rparr>) (default_empty_state 0) (plain_field rops (varint_u32 rops) (default_empty_state 0)),
     oneof_field wd_label (\<lambda>v s. s\<lparr>wd_label := v\<rparr>) (widget_oneof rops),
     value_field 4 wd_description (\<lambda>v s. s\<lparr>wd_description := v\<rparr>) (default_empty_state [])
       (plain_field rops (general_string rops) (default_empty_state []))]"

definition name_or_uuid_views :: "'r rev_ops \<Rightarrow> u32 \<Rightarrow> name_or_uuid variant_view" where
  "name_or_uuid_views rops tag =
    (if tag = 2 then value_variant_view as_name (general_string rops) delimited text_valid (\<lambda>_. 0)
     else value_variant_view as_uuid (plain_u8_array 16 rops) delimited (\<lambda>v. length v = 16 \<and> length v < 2 ^ 64) (\<lambda>_. 0))"

definition id_parts :: "u32 \<Rightarrow> value_part list" where
  "id_parts v = (if v = 0 then [] else [(WtVarint, varint_bytes (ucast v))])"

definition text_parts :: "bytes \<Rightarrow> value_part list" where
  "text_parts v = (if v = [] then [] else [(WtLengthDelimited, delimited v)])"

definition widget_view :: "'r rev_ops \<Rightarrow> (widget, 'r) message_field \<Rightarrow> widget field_view" where
  "widget_view rops f =
    (if mf_tags f = [1] then value_view 1 wd_id id_parts (\<lambda>_. True) (\<lambda>_. 0)
     else if mf_tags f = [4] then value_view 4 wd_description text_parts text_valid (\<lambda>_. 0)
     else oneof_view wd_label (option_part (enum_part (name_or_uuid_variants rops) (name_or_uuid_views rops)))
       (option_valid (enum_valid (name_or_uuid_variants rops) (name_or_uuid_views rops)))
       (option_depth (enum_depth (name_or_uuid_variants rops) (name_or_uuid_views rops))))"

lemma name_or_uuid_prisms [simp]: "prism NoName as_name" "prism NoUuid as_uuid"
  by (auto simp: prism_def as_name_def as_uuid_def split: name_or_uuid.splits)

lemma name_or_uuid_of:
  "variant_of (name_or_uuid_variants rops) (NoName x) = Some (value_variant rops 2 NoName as_name (general_string rops))"
  "variant_of (name_or_uuid_variants rops) (NoUuid x) = Some (value_variant rops 3 NoUuid as_uuid (plain_u8_array 16 rops))"
  by (simp_all add: variant_of_def name_or_uuid_variants_def as_name_def as_uuid_def)

lemma widget_tags:
  "mf_tags (oneof_field wd_label put (widget_oneof rops)) = [2, 3]"
  by (simp add: oneof_field_def option_oneof_def derive_nonempty_oneof_def name_or_uuid_variants_def)

context rev_buf_contract
begin

lemma name_or_uuid_laws:
  "distinguished_oneof_variants rops rcontents rinv (name_or_uuid_variants rops) (name_or_uuid_views rops)"
proof -
  have u: "distinguished_variant_contract rops rcontents rinv v (name_or_uuid_views rops (ov_tag v))"
    if "v \<in> set (name_or_uuid_variants rops)" for v
    using that distinguished_codec.value_variant_distinguished_laws [OF string_laws(1) name_or_uuid_prisms(1)]
      distinguished_codec.value_variant_distinguished_laws [OF plain_array_laws name_or_uuid_prisms(2)]
    by (auto simp: name_or_uuid_variants_def name_or_uuid_views_def)
  show ?thesis
  proof (intro distinguished_oneof_variants.intro oneof_variants.intro oneof_variants_axioms.intro
      distinguished_oneof_variants_axioms.intro rev_buf_contract_axioms u)
    fix v v' s
    show "v \<in> set (name_or_uuid_variants rops) \<Longrightarrow> variant_contract rops rcontents rinv v (name_or_uuid_views rops (ov_tag v))"
      by (rule distinguished_variant_contract.axioms(1) [OF u])
    show "name_or_uuid_variants rops \<noteq> [] \<and> distinct (map ov_tag (name_or_uuid_variants rops))"
      by (simp add: name_or_uuid_variants_def)
    show "v \<in> set (name_or_uuid_variants rops) \<Longrightarrow> v' \<in> set (name_or_uuid_variants rops) \<Longrightarrow> ov_is v s \<Longrightarrow> ov_is v' s \<Longrightarrow> v = v'"
      by (auto simp: name_or_uuid_variants_def as_name_def as_uuid_def split: name_or_uuid.splits)
  qed
qed

lemma name_or_uuid_oneof_laws:
  "distinguished_oneof_contract rops rcontents rinv (widget_oneof rops)
    (option_part (enum_part (name_or_uuid_variants rops) (name_or_uuid_views rops)))
    (option_valid (enum_valid (name_or_uuid_variants rops) (name_or_uuid_views rops)))
    (option_depth (enum_depth (name_or_uuid_variants rops) (name_or_uuid_views rops)))"
proof (rule distinguished_oneof_variants.option_oneof_distinguished_laws [OF name_or_uuid_laws])
  show "variant_of (name_or_uuid_variants rops) s \<noteq> None" for s by (cases s) (simp_all add: name_or_uuid_of)
qed

lemma id_laws:
  "distinguished_field_contract rops rcontents rinv (plain_field rops (varint_u32 rops) (default_empty_state 0))
    (default_empty_state 0) id_parts (\<lambda>_. True) (\<lambda>_. 0)"
proof -
  have eq: "id_parts = one_part (varint_u32 rops) (\<lambda>v. varint_bytes (ucast v)) (default_empty_state 0)"
    by (rule ext) (simp add: id_parts_def one_part_def default_empty_state_def varint_u32_def varint_codec_def)
  show ?thesis
    unfolding eq by (rule distinguished_codec.plain_distinguished_laws [OF varint_laws(6) suits_default];
      simp add: varint_u32_def varint_codec_def)
qed

lemma text_laws:
  "distinguished_field_contract rops rcontents rinv (plain_field rops (general_string rops) (default_empty_state []))
    (default_empty_state []) text_parts text_valid (\<lambda>_. 0)"
proof -
  have eq: "text_parts = one_part (general_string rops) delimited (default_empty_state [])"
    by (rule ext) (simp add: text_parts_def one_part_def default_empty_state_def general_string_def plain_bytes_codec_def)
  show ?thesis
    unfolding eq by (rule distinguished_codec.plain_distinguished_laws [OF string_laws(1) suits_default];
      simp add: general_string_def plain_bytes_codec_def text_valid_def)
qed

end

lemma widget_views:
  "widget_view rops (value_field 1 get1 put1 es1 fc1) = value_view 1 wd_id id_parts (\<lambda>_. True) (\<lambda>_. 0)"
  "widget_view rops (oneof_field wd_label put2 (widget_oneof rops)) =
     oneof_view wd_label (option_part (enum_part (name_or_uuid_variants rops) (name_or_uuid_views rops)))
       (option_valid (enum_valid (name_or_uuid_variants rops) (name_or_uuid_views rops)))
       (option_depth (enum_depth (name_or_uuid_variants rops) (name_or_uuid_views rops)))"
  "widget_view rops (value_field 4 get4 put4 es4 fc4) = value_view 4 wd_description text_parts text_valid (\<lambda>_. 0)"
  by (simp_all add: widget_view_def widget_tags)

lemma widget_same:
  "fv_same (value_view tag get parts valid depth) s t \<longleftrightarrow> get s = get t"
  "fv_same (oneof_view get' part valid' depth') s t \<longleftrightarrow> get' s = get' t"
  by (simp_all add: value_view_def oneof_view_def)

lemma widget_clears:
  "mf_clear (value_field tag get put es fc) s = put (es_clear es (get s)) s"
  "mf_clear (oneof_field get' put' oo) s = put' (oo_clear oo (get' s)) s"
  by (simp_all add: value_field_def oneof_field_def)

lemma oneof_field_decoded:
  "mf_decode (oneof_field get put oo) tag wt dup s cp ctx = Done (s', cp') \<Longrightarrow> \<exists>v. s' = put v s"
  by (auto simp: oneof_field_def)

context rev_buf_contract
begin

lemma widget_laws:
  "distinguished_derived_message rops rcontents rinv widget_init (widget_fields rops) (widget_view rops)"
proof (rule distinguished_struct_laws)
  show "rev_buf_contract rops rcontents rinv" by (rule rev_buf_contract_axioms)
  show "own_tags mf_tags (widget_fields rops)" by (simp add: own_tags_def widget_fields_def widget_tags)
  fix f g :: "(widget, 'r) message_field" and s t s' tag wt dup cp ctx cp'
  show "s = t" if "\<forall>f \<in> set (widget_fields rops). fv_same (widget_view rops f) s t"
    using that by (simp add: widget_fields_def widget_views widget_same)
  assume f: "f \<in> set (widget_fields rops)"
  show "distinguished_member_contract rops rcontents rinv f (widget_view rops f)"
    using f unfolding widget_fields_def
    apply (auto simp only: set_simps insert_iff empty_iff widget_views)
    subgoal by (rule distinguished_field_contract.value_field_distinguished_member [OF id_laws]) simp
    subgoal by (rule distinguished_oneof_contract.oneof_field_distinguished_member [OF name_or_uuid_oneof_laws]) simp
    subgoal by (rule distinguished_field_contract.value_field_distinguished_member [OF text_laws]) simp
    done
  show "blank (widget_view rops f) widget_init"
    using f by (auto simp: widget_fields_def widget_views blank_def value_view_def oneof_view_def id_parts_def text_parts_def
        widget_init_def option_part_def option_valid_def text_valid_def)
  assume g: "g \<in> set (widget_fields rops)" "f \<noteq> g"
  show "fv_same (widget_view rops g) (mf_clear f s) s"
    using f g unfolding widget_fields_def
    by (auto simp only: set_simps insert_iff empty_iff widget_views widget_same widget_clears) simp_all
  show "fv_same (widget_view rops g) s' s" if "mf_decode f tag wt dup s cp ctx = Done (s', cp')"
    using f g unfolding widget_fields_def
    by (auto simp only: set_simps insert_iff empty_iff widget_views widget_same)
      (use that in \<open>auto dest!: value_field_decoded oneof_field_decoded\<close>)
qed

end

interpretation name_or_uuid: distinguished_oneof_variants "rb_rev_ops sco" rb_contents rb_inv
  "name_or_uuid_variants (rb_rev_ops sco)" "name_or_uuid_views (rb_rev_ops sco)"
  by (rule rev_buf_contract.name_or_uuid_laws [OF rb_rev.rev_buf_contract_axioms])

interpretation widget_label: distinguished_oneof_contract "rb_rev_ops sco" rb_contents rb_inv
  "widget_oneof (rb_rev_ops sco)"
  "option_part (enum_part (name_or_uuid_variants (rb_rev_ops sco)) (name_or_uuid_views (rb_rev_ops sco)))"
  "option_valid (enum_valid (name_or_uuid_variants (rb_rev_ops sco)) (name_or_uuid_views (rb_rev_ops sco)))"
  "option_depth (enum_depth (name_or_uuid_variants (rb_rev_ops sco)) (name_or_uuid_views (rb_rev_ops sco)))"
  by (rule rev_buf_contract.name_or_uuid_oneof_laws [OF rb_rev.rev_buf_contract_axioms])

interpretation widget: distinguished_derived_message "rb_rev_ops sco" rb_contents rb_inv
  widget_init "widget_fields (rb_rev_ops sco)" "widget_view (rb_rev_ops sco)"
  by (rule rev_buf_contract.widget_laws [OF rb_rev.rev_buf_contract_axioms])

interpretation name_variant: distinguished_variant_contract "rb_rev_ops sco" rb_contents rb_inv
  "value_variant (rb_rev_ops sco) 2 NoName as_name (general_string (rb_rev_ops sco))"
  "value_variant_view as_name (general_string (rb_rev_ops sco)) delimited text_valid (\<lambda>_. 0)"
  by (rule distinguished_codec.value_variant_distinguished_laws [OF rev_buf_contract.string_laws(1)
      [OF rb_rev.rev_buf_contract_axioms] name_or_uuid_prisms(1)])

lemma merge_loop_field:
  assumes "0 < fuel" and "k \<le> tag"
  shows "merge_loop m fuel \<lparr>tr_last_tag = k\<rparr> prev s \<lparr>cap_buf = fields_bytes k ((tag, wt, val) # fs) @ rest, cap_extra = length rest\<rparr> ctx =
    obind (rm_decode_field m tag wt (prev = Some tag) s \<lparr>cap_buf = val @ fields_bytes tag fs @ rest, cap_extra = length rest\<rparr> ctx)
      (\<lambda>(s, cp). merge_loop m (fuel - 1) \<lparr>tr_last_tag = tag\<rparr> (Some tag) s cp ctx)"
proof -
  obtain f where f: "fuel = Suc f" using assms(1) by (cases fuel) auto
  have "decode_key slice_ops \<lparr>tr_last_tag = k\<rparr> \<lparr>cap_buf = fields_bytes k ((tag, wt, val) # fs) @ rest, cap_extra = length rest\<rparr> =
      Done (tag, wt, \<lparr>tr_last_tag = tag\<rparr>, \<lparr>cap_buf = val @ fields_bytes tag fs @ rest, cap_extra = length rest\<rparr>)"
    using assms(2) by (simp add: decode_key_Done)
  then show ?thesis using length_varint_bytes(1) [of "key_of (tag - k) wt"] by (simp add: f Let_def)
qed

section \<open>Properties\<close>

text \<open>
  C4. Only one field of a oneof is accepted in a message: after one of them has been decoded, another is a conflict and
  the same one again a repetition, whatever its value.
\<close>

theorem oneof_exclusive:
  assumes "oneof_contract rops rcontents rinv oo part valid depth"
    and "valid s" and "part s = Some (tag, wt, val)" and "depth s \<le> unat (recurse_count ctx)"
    and "tag \<le> tag'" and "tag' \<in> set (oo_tags oo)"
  shows "merge (message_via_oneof rops oo) (oo_empty oo)
      \<lparr>cap_buf = fields_bytes 0 [(tag, wt, val), (tag', wt', val')] @ rest, cap_extra = length rest\<rparr> ctx =
    Fail (if tag' = tag then UnexpectedlyRepeated else ConflictingFields)"
proof -
  let ?m = "message_via_oneof rops oo" and ?rest' = "fields_bytes tag [(tag', wt', val')] @ rest"
  note c = oneof_contract.decode [OF assms(1-4), of "length rest" ?rest']
  have "rm_decode_field ?m tag wt False (oo_empty oo) \<lparr>cap_buf = val @ ?rest', cap_extra = length rest\<rparr> ctx =
      Done (s, \<lparr>cap_buf = ?rest', cap_extra = length rest\<rparr>)"
    using c oneof_contract.part_tag [OF assms(1,3)] by (simp add: message_via_oneof_def)
  moreover have "s \<noteq> oo_empty oo" using assms(3) oneof_contract.empty(2) [OF assms(1)] by auto
  then have "rm_decode_field ?m tag' wt' dup s cp ctx = Fail (if tag' = tag then UnexpectedlyRepeated else ConflictingFields)" for dup cp
    using oneof_contract.collides [OF assms(1)] oneof_contract.current [OF assms(1), of s] assms(3,6)
    by (auto simp: message_via_oneof_def collision_def)
  moreover have "2 \<le> length (fields_bytes 0 [(tag, wt, val), (tag', wt', val')] @ rest)"
    using length_varint_bytes(1) [of "key_of tag wt"] length_varint_bytes(1) [of "key_of (tag' - tag) wt'"]
    unfolding fields_bytes.simps length_append diff_zero by linarith
  then obtain f where "length (fields_bytes 0 [(tag, wt, val), (tag', wt', val')] @ rest) = Suc f"
    by (cases "length (fields_bytes 0 [(tag, wt, val), (tag', wt', val')] @ rest)") simp_all
  ultimately show ?thesis
    using assms(5)
    by (simp add: merge_loop_field [where k = 0] merge_loop_field [where k = tag] merge_def tag_reader_new_def
        del: fields_bytes.simps merge_loop.simps length_append)
qed

text \<open>
  C27. The recursion limit does not count the messages that are variants of a oneof: where no recursion is
  left and a nested message is refused, the same message is accepted as a variant.
\<close>

theorem message_variant_uncounted:
  assumes "derived_message rops rcontents rinv init fs w" and "prism wrap payload"
    and "struct_valid w fs s" and "struct_depth w fs s = 0" and "recurse_count ctx = 0" and "x \<le> length rest"
  shows "ov_decode (message_variant rops tag wrap payload init fs) WtLengthDelimited
      \<lparr>cap_buf = delimited (struct_body w fs s) @ rest, cap_extra = x\<rparr> ctx = Done (wrap s, \<lparr>cap_buf = rest, cap_extra = x\<rparr>) \<and>
    c_decode (message_codec rops (derive_message rops init fs)) init
      \<lparr>cap_buf = delimited (struct_body w fs s) @ rest, cap_extra = x\<rparr> ctx = Fail RecursionLimitReached"
proof (rule conjI)
  have "variant_contract rops rcontents rinv (message_variant rops tag wrap payload init fs)
    (message_variant_view payload (struct_body w fs) (struct_valid w fs) (struct_depth w fs))"
    by (rule derived_message.message_variant_laws [OF assms(1,2)])
  from variant_contract.decode [OF this, of "wrap s" ctx x rest]
  show "ov_decode (message_variant rops tag wrap payload init fs) WtLengthDelimited
      \<lparr>cap_buf = delimited (struct_body w fs s) @ rest, cap_extra = x\<rparr> ctx = Done (wrap s, \<lparr>cap_buf = rest, cap_extra = x\<rparr>)"
    using assms(3,4,6) prism_wrap [OF assms(2)] by (simp add: message_variant_view_def message_variant_def)
  show "c_decode (message_codec rops (derive_message rops init fs)) init
      \<lparr>cap_buf = delimited (struct_body w fs s) @ rest, cap_extra = x\<rparr> ctx = Fail RecursionLimitReached"
    using assms(5) by (simp add: message_codec_stuck)
qed

theorem oneof_exclusive_witness:
  "merge (message_via_oneof (rb_rev_ops True) (value_oneof (rb_rev_ops True) (value_level (rb_rev_ops True) 1))) VNull
      \<lparr>cap_buf = [12, 1, 8, 1], cap_extra = 0\<rparr> context_default = Fail ConflictingFields \<and>
   merge (message_via_oneof (rb_rev_ops True) (value_oneof (rb_rev_ops True) (value_level (rb_rev_ops True) 1))) VNull
      \<lparr>cap_buf = [12, 1, 0, 5], cap_extra = 0\<rparr> context_default = Fail UnexpectedlyRepeated"
proof -
  let ?vs = "value_variants (rb_rev_ops True) (value_level (rb_rev_ops True) 1)"
    and ?w = "value_views (rb_rev_ops True) (value_level (rb_rev_ops True) 1) 1"
  have b: "fields_bytes 0 [(3, WtVarint, [1]), (5, WtVarint, [1])] = [12, 1, 8, 1]"
    "fields_bytes 0 [(3, WtVarint, [1]), (3, WtVarint, [5])] = [12, 1, 0, 5]"
    by (simp_all add: varint_bytes_small key_of_def)
  have none: "s = VNull" if "variant_of ?vs s = None" for s using that by (cases s) (simp_all add: value_variant_of)
  have c: "oneof_contract (rb_rev_ops True) rb_contents rb_inv (derive_oneof VNull ?vs)
      (enum_part ?vs ?w) (enum_valid ?vs ?w) (enum_depth ?vs ?w)"
    using oneof_variants.derive_oneof_laws [OF value_enum.oneof_variants_axioms value_variant_of(1)] none by blast
  have p: "enum_part ?vs ?w (VUnsigned 1) = Some (3, WtVarint, [1])" "enum_valid ?vs ?w (VUnsigned 1)"
    "enum_depth ?vs ?w (VUnsigned 1) = 0"
    by (simp_all add: enum_part_def enum_valid_def enum_depth_def value_variant_of value_views_def value_view_simps
      value_wires varint_bytes_small)
  have t: "set (oo_tags (derive_oneof VNull ?vs)) = {1, 2, 3, 4, 5, 6, 7}" and e: "oo_empty (derive_oneof VNull ?vs) = VNull"
    by (simp_all add: derive_oneof_def Let_def value_variants_def)
  note laws = oneof_exclusive [OF c p(2,1), where ctx = context_default and rest = "[]", unfolded t e]
  show ?thesis
    using laws [of 5 WtVarint "[1]"] laws [of 3 WtVarint "[5]"] unfolding b p(3) value_oneof_def by simp
qed

theorem message_variant_uncounted_witness:
  "ov_decode (message_variant (rb_rev_ops True) 1 (\<lambda>s. s) Some \<lparr>ts_seconds = 0, ts_nanos = 0\<rparr> (timestamp_fields (rb_rev_ops True)))
      WtLengthDelimited \<lparr>cap_buf = [0], cap_extra = 0\<rparr> \<lparr>recurse_count = 0\<rparr> =
    Done (\<lparr>ts_seconds = 0, ts_nanos = 0\<rparr>, \<lparr>cap_buf = [], cap_extra = 0\<rparr>)"
  using message_variant_uncounted [OF timestamp.derived_message_axioms [of True], of "\<lambda>s. s" Some "\<lparr>ts_seconds = 0, ts_nanos = 0\<rparr>"
      "\<lparr>recurse_count = 0\<rparr>" 0 "[]" 1]
  by (simp add: prism_def timestamp_valid time_body_def delimited_zero [THEN iffD2])

end
