(* ===== verification/Enumerations.thy ===== *)
theory Enumerations
  imports Varint_Values
begin

text \<open>
  The code that \<^verbatim>\<open>#[derive(Enumeration)]\<close> generates (\<^verbatim>\<open>src/bilrost-derive/src/lib.rs\<close>): the numbers of a fieldless enum, its
  default value, and its encoding as a varint. An enumeration is the list of its variants with their
  discriminants, of which the macro reads the text and the compiler the value.
\<close>

section \<open>Variants\<close>

record discriminant =
  disc_text :: string
  disc_value :: u32

type_synonym 'e enumeration = "('e \<times> discriminant) list"

definition is_zero_discriminant :: "discriminant \<Rightarrow> bool" where
  "is_zero_discriminant expr \<longleftrightarrow> disc_text expr = ''0''"

definition zero_variant :: "'e enumeration \<Rightarrow> 'e option" where
  "zero_variant variants = map_option fst (find (\<lambda>(_, discriminant_expr). is_zero_discriminant discriminant_expr) variants)"

text \<open>The arms of the three matches; \<open>to_number\<close> has an arm for every variant.\<close>

definition to_number :: "'e enumeration \<Rightarrow> 'e \<Rightarrow> u32 option" where
  "to_number variants self = map_option (disc_value \<circ> snd) (find (\<lambda>(variant, _). variant = self) variants)"

definition try_from_number :: "'e enumeration \<Rightarrow> u32 \<Rightarrow> u32 + 'e" where
  "try_from_number variants value =
    (case find (\<lambda>(_, discriminant). disc_value discriminant = value) variants of
       Some (variant, _) \<Rightarrow> Inr variant
     | None \<Rightarrow> Inl value)"

definition is_valid_number :: "'e enumeration \<Rightarrow> u32 \<Rightarrow> bool" where
  "is_valid_number variants n \<longleftrightarrow> list_ex (\<lambda>(_, discriminant). disc_value discriminant = n) variants"

section \<open>The value\<close>

definition enumeration_for_overwrite :: "'e enumeration \<Rightarrow> 'e" where
  "enumeration_for_overwrite variants =
    (case zero_variant variants of Some zero \<Rightarrow> zero | None \<Rightarrow> fst (hd variants))"

definition enumeration_empty_state :: "'e enumeration \<Rightarrow> 'e empty_state option" where
  "enumeration_empty_state variants = map_option (\<lambda>zero.
     \<lparr>es_empty = zero, es_is_empty = (\<lambda>val. val = zero), es_clear = (\<lambda>_. zero)\<rparr>) (zero_variant variants)"

definition enumeration_u64 :: "'e enumeration \<Rightarrow> 'e \<Rightarrow> u64" where
  "enumeration_u64 variants value = (case to_number variants value of Some n \<Rightarrow> ucast n | None \<Rightarrow> 0)"

definition enumeration_from_u64 :: "'e enumeration \<Rightarrow> u64 \<Rightarrow> 'e outcome" where
  "enumeration_from_u64 variants decoded =
    obind (word_try_from decoded) (\<lambda>in_range.
      case try_from_number variants in_range of
        Inr typed \<Rightarrow> Done typed
      | Inl _ \<Rightarrow> Fail OutOfDomainValue)"

definition enumeration_codec :: "'r rev_ops \<Rightarrow> 'e enumeration \<Rightarrow> ('e, 'r) codec" where
  "enumeration_codec rops variants =
    varint_codec rops (enumeration_for_overwrite variants) (enumeration_u64 variants) (enumeration_from_u64 variants)"

section \<open>The laws\<close>

text \<open>What rustc checks: every variant is listed once, and no discriminant twice.\<close>

definition enumeration_ok :: "'e enumeration \<Rightarrow> bool" where
  "enumeration_ok variants \<longleftrightarrow> variants \<noteq> [] \<and> distinct (map fst variants) \<and> distinct (map (disc_value \<circ> snd) variants)"

lemma find_unique: "distinct (map f xs) \<Longrightarrow> x \<in> set xs \<Longrightarrow> find (\<lambda>y. f y = f x) xs = Some x"
  by (induction xs) auto

lemma to_number_eq: "enumeration_ok variants \<Longrightarrow> (v, d) \<in> set variants \<Longrightarrow> to_number variants v = Some (disc_value d)"
  using find_unique [of fst variants "(v, d)"] by (simp add: to_number_def enumeration_ok_def split_def)

lemma try_from_number_eq: "enumeration_ok variants \<Longrightarrow> (v, d) \<in> set variants \<Longrightarrow> try_from_number variants (disc_value d) = Inr v"
  using find_unique [of "disc_value \<circ> snd" variants "(v, d)"] by (simp add: try_from_number_def enumeration_ok_def split_def)

lemma find_holds: "find P xs = Some y \<Longrightarrow> y \<in> set xs \<and> P y"
  by (auto simp: find_Some_iff)

lemma try_from_number_Inr:
  "try_from_number variants n = Inr v \<Longrightarrow> \<exists>d. (v, d) \<in> set variants \<and> disc_value d = n"
  by (auto simp: try_from_number_def split: option.splits prod.splits dest!: find_holds)

lemma try_from_number_Inl: "\<not> is_valid_number variants n \<Longrightarrow> try_from_number variants n = Inl n"
  by (auto simp: try_from_number_def is_valid_number_def list_ex_iff split: option.splits prod.splits dest!: find_holds)

lemma conversion_enumeration:
  assumes ok: "enumeration_ok variants"
  shows "conversion (\<lambda>v. v \<in> fst ` set variants) (enumeration_u64 variants) (enumeration_from_u64 variants)"
proof (rule conversionI)
  show "enumeration_from_u64 variants n \<noteq> Panic" for n
    by (auto simp: enumeration_from_u64_def obind_Panic_iff word_try_from_def split: sum.split if_splits)
  show "enumeration_from_u64 variants (enumeration_u64 variants v) = Done v" if v: "v \<in> fst ` set variants" for v
  proof -
    obtain d where d: "(v, d) \<in> set variants" using v by force
    then show ?thesis
      by (simp add: enumeration_u64_def enumeration_from_u64_def to_number_eq [OF ok] try_from_number_eq [OF ok])
  qed
  show "v \<in> fst ` set variants \<and> enumeration_u64 variants v = n" if h: "enumeration_from_u64 variants n = Done v" for n v
  proof -
    obtain m :: u32 where m: "word_try_from n = Done m" "try_from_number variants m = Inr v"
      using h unfolding enumeration_from_u64_def by (cases "word_try_from n :: u32 outcome") (auto split: sum.splits)
    obtain d where d: "(v, d) \<in> set variants" "disc_value d = m" using try_from_number_Inr [OF m(2)] by blast
    have "ucast m = n" using word_try_from_Done [OF _ m(1)] by simp
    then show ?thesis using d to_number_eq [OF ok d(1)] by (force simp: enumeration_u64_def)
  qed
qed

context rev_buf_contract
begin

lemma enumeration_laws:
  "enumeration_ok variants \<Longrightarrow> distinguished_codec rops rcontents rinv (enumeration_codec rops variants)
    (\<lambda>v. varint_bytes (enumeration_u64 variants v)) (\<lambda>v. v \<in> fst ` set variants) (\<lambda>_. 0)"
  unfolding enumeration_codec_def by (rule varint_codec_laws [OF rev_buf_contract_axioms conversion_enumeration])

end

lemma enumeration_codes:
  assumes "enumeration_ok variants" and "x \<le> length rest"
  shows "\<forall>(v, d) \<in> set variants.
      try_from_number variants (disc_value d) = Inr v \<and> to_number variants v = Some (disc_value d) \<and>
      c_encode (enumeration_codec rops variants) v buf = Some (buf @ varint_bytes (ucast (disc_value d))) \<and>
      c_decode_dist (enumeration_codec rops variants) allow v0 \<lparr>cap_buf = varint_bytes (ucast (disc_value d)) @ rest, cap_extra = x\<rparr> ctx =
        Done (v, Canonical, \<lparr>cap_buf = rest, cap_extra = x\<rparr>)"
    and "(\<forall>(v, d) \<in> set variants. ucast (disc_value d) \<noteq> n) \<Longrightarrow>
      c_decode (enumeration_codec rops variants) v0 \<lparr>cap_buf = varint_bytes n @ rest, cap_extra = x\<rparr> ctx' = Fail OutOfDomainValue"
proof -
  have r: "capped_decode_varint slice_ops \<lparr>cap_buf = varint_bytes n @ rest, cap_extra = x\<rparr> = Done (n, \<lparr>cap_buf = rest, cap_extra = x\<rparr>)" for n
    using assms(2) by simp
  have u: "enumeration_u64 variants v = ucast (disc_value d)" "enumeration_from_u64 variants (ucast (disc_value d)) = Done v"
    if "(v, d) \<in> set variants" for v d
    using to_number_eq [OF assms(1) that] try_from_number_eq [OF assms(1) that]
    by (simp_all add: enumeration_u64_def enumeration_from_u64_def)
  show "\<forall>(v, d) \<in> set variants.
      try_from_number variants (disc_value d) = Inr v \<and> to_number variants v = Some (disc_value d) \<and>
      c_encode (enumeration_codec rops variants) v buf = Some (buf @ varint_bytes (ucast (disc_value d))) \<and>
      c_decode_dist (enumeration_codec rops variants) allow v0 \<lparr>cap_buf = varint_bytes (ucast (disc_value d)) @ rest, cap_extra = x\<rparr> ctx =
        Done (v, Canonical, \<lparr>cap_buf = rest, cap_extra = x\<rparr>)"
    using to_number_eq [OF assms(1)] try_from_number_eq [OF assms(1)]
    by (auto simp: enumeration_codec_def varint_codec_def varint_decode_value_def always_canonical_def u encode_varint_bytes r)
  show "c_decode (enumeration_codec rops variants) v0 \<lparr>cap_buf = varint_bytes n @ rest, cap_extra = x\<rparr> ctx' = Fail OutOfDomainValue"
    if n: "\<forall>(v, d) \<in> set variants. ucast (disc_value d) \<noteq> n"
  proof -
    have "\<not> is_valid_number variants m" if "word_try_from n = Done m" for m
      using n word_try_from_Done [OF _ that] by (auto simp: is_valid_number_def list_ex_iff)
    then have "enumeration_from_u64 variants n = Fail OutOfDomainValue"
      by (auto simp: enumeration_from_u64_def word_try_from_def try_from_number_Inl)
    then show ?thesis by (simp add: enumeration_codec_def varint_codec_def varint_decode_value_def r)
  qed
qed

text \<open>
  C26. An enumeration is read from the number of one of its variants as that variant, canonically, and written back as the same
  number; every other number, above the 32 bits of a discriminant too, is out of its domain.
\<close>

theorem enumeration_values:
  assumes "enumeration_ok variants" and "x \<le> length rest"
  shows "(\<forall>(v, d) \<in> set variants.
      try_from_number variants (disc_value d) = Inr v \<and> to_number variants v = Some (disc_value d) \<and>
      c_encode (enumeration_codec rops variants) v buf = Some (buf @ varint_bytes (ucast (disc_value d))) \<and>
      c_decode_dist (enumeration_codec rops variants) allow v0 \<lparr>cap_buf = varint_bytes (ucast (disc_value d)) @ rest, cap_extra = x\<rparr> ctx =
        Done (v, Canonical, \<lparr>cap_buf = rest, cap_extra = x\<rparr>)) \<and>
    ((\<forall>(v, d) \<in> set variants. ucast (disc_value d) \<noteq> n) \<longrightarrow>
      c_decode (enumeration_codec rops variants) v0 \<lparr>cap_buf = varint_bytes n @ rest, cap_extra = x\<rparr> ctx' = Fail OutOfDomainValue)"
  using enumeration_codes [OF assms] by blast

theorem enumeration_values_witness:
  "try_from_number [(True, \<lparr>disc_text = ''1'', disc_value = 1\<rparr>), (False, \<lparr>disc_text = ''7'', disc_value = 7\<rparr>)] 7 = Inr False \<and>
   c_decode (enumeration_codec list_rev_ops [(True, \<lparr>disc_text = ''1'', disc_value = 1\<rparr>), (False, \<lparr>disc_text = ''7'', disc_value = 7\<rparr>)])
     True \<lparr>cap_buf = [2], cap_extra = 0\<rparr> context_default = Fail OutOfDomainValue"
proof -
  let ?vs = "[(True, \<lparr>disc_text = ''1'', disc_value = 1\<rparr>), (False, \<lparr>disc_text = ''7'', disc_value = 7\<rparr>)]"
  have ok: "enumeration_ok ?vs" by (simp add: enumeration_ok_def)
  have "(\<forall>(v, d) \<in> set ?vs.
      try_from_number ?vs (disc_value d) = Inr v \<and> to_number ?vs v = Some (disc_value d) \<and>
      c_encode (enumeration_codec list_rev_ops ?vs) v [] = Some ([] @ varint_bytes (ucast (disc_value d))) \<and>
      c_decode_dist (enumeration_codec list_rev_ops ?vs) True True \<lparr>cap_buf = varint_bytes (ucast (disc_value d)) @ [], cap_extra = 0\<rparr> (restricted_new Canonical) =
        Done (v, Canonical, \<lparr>cap_buf = [], cap_extra = 0\<rparr>)) \<and>
    ((\<forall>(v, d) \<in> set ?vs. ucast (disc_value d) \<noteq> (2 :: u64)) \<longrightarrow>
      c_decode (enumeration_codec list_rev_ops ?vs) True \<lparr>cap_buf = varint_bytes 2 @ [], cap_extra = 0\<rparr> context_default = Fail OutOfDomainValue)"
    by (rule enumeration_values [OF ok]) simp
  then show ?thesis by (simp add: varint_bytes_small)
qed

end
