(* ===== verification/Calendar.thy ===== *)
theory Calendar
  imports Time_Messages "HOL-Library.Signed_Division" "HOL-Library.List_Lexorder"
begin

text \<open>
  Points in time: \<^verbatim>\<open>Timestamp::normalize\<close> of \<^verbatim>\<open>src/bilrost-types/src/lib.rs\<close> and the conversions between a \<^verbatim>\<open>Timestamp\<close> and
  a \<^verbatim>\<open>DateTime\<close> in \<^verbatim>\<open>src/bilrost-types/src/datetime.rs\<close>. The integers of the code are read as \<open>int\<close>; \<open>i64\<close> and \<open>i32\<close> check
  the result of an operation, \<open>None\<close> being the panic on overflow, and the casts that wrap are written out. Division
  and remainder of the code truncate: \<open>sdiv\<close> and \<open>smod\<close>. Operations on remainders, whose operands are small by
  construction, are not checked.
\<close>

section \<open>Checked integers\<close>

definition i64_range :: "int \<Rightarrow> bool" where
  "i64_range x \<longleftrightarrow> - 9223372036854775808 \<le> x \<and> x \<le> 9223372036854775807"

definition i64 :: "int \<Rightarrow> int option" where
  "i64 x = (if i64_range x then Some x else None)"

definition i32 :: "int \<Rightarrow> int option" where
  "i32 x = (if - 2147483648 \<le> x \<and> x \<le> 2147483647 then Some x else None)"

abbreviation as_i64 :: "int \<Rightarrow> int" where "as_i64 \<equiv> signed_take_bit 63"
abbreviation as_i32 :: "int \<Rightarrow> int" where "as_i32 \<equiv> signed_take_bit 31"
abbreviation as_u8 :: "int \<Rightarrow> int" where "as_u8 \<equiv> take_bit 8"
abbreviation as_u32 :: "int \<Rightarrow> int" where "as_u32 \<equiv> take_bit 32"

lemma i64_Some [simp]: "i64_range x \<Longrightarrow> i64 x = Some x"
  by (simp add: i64_def)

lemma i32_Some [simp]: "- 2147483648 \<le> x \<Longrightarrow> x \<le> 2147483647 \<Longrightarrow> i32 x = Some x"
  by (simp add: i32_def)

lemma i64_None: "i64 x = None \<longleftrightarrow> \<not> i64_range x"
  by (simp add: i64_def)

lemma as_i64_eq: "i64_range x \<Longrightarrow> as_i64 x = x"
  by (rule signed_take_bit_int_eq_self) (simp_all add: i64_range_def)

lemma as_i32_eq: "- 2147483648 \<le> x \<Longrightarrow> x \<le> 2147483647 \<Longrightarrow> as_i32 x = x"
  by (rule signed_take_bit_int_eq_self) simp_all

lemma as_u8_eq: "0 \<le> x \<Longrightarrow> x < 256 \<Longrightarrow> as_u8 x = x"
  by (simp add: take_bit_int_eq_self)

lemma as_u32_eq: "0 \<le> x \<Longrightarrow> x < 4294967296 \<Longrightarrow> as_u32 x = x"
  by (simp add: take_bit_int_eq_self)

lemma sint_i64_range: "i64_range (sint (w :: u64))"
  using sint_range_size [of w] by (simp add: i64_range_def word_size)

lemma sint_i32_range: "- 2147483648 \<le> sint (w :: u32)" "sint (w :: u32) \<le> 2147483647"
  using sint_range_size [of w] by (simp_all add: word_size)

lemma sint_of_int_i64: "i64_range x \<Longrightarrow> sint (of_int x :: u64) = x"
  using as_i64_eq [of x] by (simp add: sint_sbintrunc')

lemma sint_of_int_i32: "- 2147483648 \<le> x \<Longrightarrow> x \<le> 2147483647 \<Longrightarrow> sint (of_int x :: u32) = x"
  using as_i32_eq [of x] by (simp add: sint_sbintrunc')

lemma sdiv_pos:
  fixes a b :: int
  assumes "0 < b"
  shows "a sdiv b = (if 0 \<le> a then a div b else - ((- a) div b))" and "a smod b = (if 0 \<le> a then a mod b else - ((- a) mod b))"
  using assms by (auto simp: signed_divide_int_def signed_modulo_int_def sgn_if)

section \<open>Timestamps\<close>

definition NANOS_PER_SECOND :: int where "NANOS_PER_SECOND = 1000000000"
definition NANOS_MAX :: int where "NANOS_MAX = NANOS_PER_SECOND - 1"

definition new_timestamp :: "int \<Rightarrow> int \<Rightarrow> timestamp" where
  "new_timestamp seconds nanos = \<lparr>ts_seconds = of_int seconds, ts_nanos = of_int nanos\<rparr>"

abbreviation timestamp_seconds :: "timestamp \<Rightarrow> int" where "timestamp_seconds t \<equiv> sint (ts_seconds t)"
abbreviation timestamp_nanos :: "timestamp \<Rightarrow> int" where "timestamp_nanos t \<equiv> sint (ts_nanos t)"

definition timestamp_is_canonical :: "timestamp \<Rightarrow> bool" where
  "timestamp_is_canonical t \<longleftrightarrow> 0 \<le> timestamp_nanos t \<and> timestamp_nanos t < NANOS_PER_SECOND"

text \<open>
  What \<^verbatim>\<open>normalize\<close> of both messages does first: nanoseconds beyond a second are carried over to the seconds, or the
  value is set to the least or the greatest there is.
\<close>

definition carry_nanos :: "int \<times> int \<Rightarrow> int \<times> int \<Rightarrow> int \<Rightarrow> int \<Rightarrow> int \<times> int" where
  "carry_nanos least greatest seconds nanos =
    (if nanos \<le> - NANOS_PER_SECOND \<or> nanos \<ge> NANOS_PER_SECOND then
       case i64 (seconds + nanos sdiv NANOS_PER_SECOND) of
         Some seconds \<Rightarrow> (seconds, nanos smod NANOS_PER_SECOND)
       | None \<Rightarrow> if nanos < 0 then least else greatest
     else (seconds, nanos))"

definition timestamp_normalize :: "timestamp \<Rightarrow> timestamp option" where
  "timestamp_normalize t =
    (let (seconds, nanos) = carry_nanos (- 9223372036854775808, 0) (9223372036854775807, 999999999)
         (timestamp_seconds t) (timestamp_nanos t)
     in if nanos < 0 then
          case i64 (seconds - 1) of
            Some seconds \<Rightarrow> do {
              nanos \<leftarrow> i32 (nanos + NANOS_PER_SECOND);
              Some (new_timestamp seconds nanos)
            }
          | None \<Rightarrow> if seconds = - 9223372036854775808 then Some (new_timestamp seconds 0) else None
        else Some (new_timestamp seconds nanos))"

definition timestamp_try_normalize :: "timestamp \<Rightarrow> (timestamp, timestamp) result option" where
  "timestamp_try_normalize before = do {
     t \<leftarrow> timestamp_normalize before;
     Some (if (timestamp_seconds t = 9223372036854775807 \<or> timestamp_seconds t = - 9223372036854775808) \<and>
         timestamp_seconds t \<noteq> timestamp_seconds before
       then Err before else Ok t)
   }"

section \<open>Dates\<close>

record date_time =
  dt_year :: int
  dt_month :: int
  dt_day :: int
  dt_hour :: int
  dt_minute :: int
  dt_second :: int
  dt_nanos :: int

definition DT_MIN :: date_time where
  "DT_MIN = \<lparr>dt_year = - 292277022657, dt_month = 1, dt_day = 27, dt_hour = 8, dt_minute = 29, dt_second = 52, dt_nanos = 0\<rparr>"

definition DT_MAX :: date_time where
  "DT_MAX = \<lparr>dt_year = 292277026596, dt_month = 12, dt_day = 4, dt_hour = 15, dt_minute = 30, dt_second = 7,
     dt_nanos = 999999999\<rparr>"

text \<open>The derived order compares the fields in the order of the struct.\<close>

definition dt_fields :: "date_time \<Rightarrow> int list" where
  "dt_fields d = [dt_year d, dt_month d, dt_day d, dt_hour d, dt_minute d, dt_second d, dt_nanos d]"

definition year_to_seconds :: "int \<Rightarrow> (int \<times> bool) option" where
  "year_to_seconds year = do {
     year \<leftarrow> i64 (year - 1900);
     if 1 \<le> year \<and> year \<le> 138 then
       let leaps = drop_bit 2 (year - 68);
           (leaps, is_leap) = (if take_bit 2 (year - 68) = 0 then (leaps - 1, True) else (leaps, False))
       in Some (31536000 * (year - 70) + 86400 * leaps, is_leap)
     else do {
       since \<leftarrow> i64 (year - 100);
       let cycles = since sdiv 400;
       let rem = since smod 400;
       let (cycles, rem) = (if rem < 0 then (cycles - 1, rem + 400) else (cycles, rem));
       let (is_leap, centuries, leaps) =
         (if rem = 0 then (True, 0, 0)
          else
            let (centuries, rem) =
              (if rem \<ge> 200 then if rem \<ge> 300 then (3, rem - 300) else (2, rem - 200)
               else if rem \<ge> 100 then (1, rem - 100) else (0, rem))
            in if rem = 0 then (False, centuries, 0)
               else (rem smod 4 = 0, centuries, rem sdiv 4));
       leaps \<leftarrow> i64 (leaps + 97 * cycles + 24 * centuries - of_bool is_leap);
       whole \<leftarrow> i64 (since * 31536000);
       extra \<leftarrow> i64 (leaps * 86400);
       extra \<leftarrow> i64 (extra + 946684800 + 86400);
       Some (whole + extra, is_leap)
     }
   }"

definition get_index :: "int list \<Rightarrow> int \<Rightarrow> int option" where
  "get_index xs i = (if 0 \<le> i \<and> nat i < length xs then Some (xs ! nat i) else None)"

definition days_in_month :: "int \<Rightarrow> int \<Rightarrow> int option" where
  "days_in_month year month = do {
     (_, is_leap) \<leftarrow> year_to_seconds year;
     days \<leftarrow> get_index [31, 28, 31, 30, 31, 30, 31, 31, 30, 31, 30, 31] (month - 1);
     Some (days + of_bool (is_leap \<and> month = 2))
   }"

definition month_to_seconds :: "int \<Rightarrow> bool \<Rightarrow> int option" where
  "month_to_seconds month is_leap = do {
     t \<leftarrow> get_index [0, 31 * 86400, 59 * 86400, 90 * 86400, 120 * 86400, 151 * 86400, 181 * 86400, 212 * 86400,
        243 * 86400, 273 * 86400, 304 * 86400, 334 * 86400] (month - 1);
     Some (if is_leap \<and> month > 2 then t + 86400 else t)
   }"

definition date_time_to_seconds :: "date_time \<Rightarrow> int option" where
  "date_time_to_seconds tm = do {
     (start_of_year, is_leap) \<leftarrow> year_to_seconds (dt_year tm);
     start_of_month \<leftarrow> month_to_seconds (dt_month tm) is_leap;
     let seconds_within_year = start_of_month + 86400 * (dt_day tm - 1) + 3600 * dt_hour tm + 60 * dt_minute tm + dt_second tm;
     Some (as_i64 (start_of_year + seconds_within_year))
   }"

text \<open>The conditions are evaluated from left to right, so that no month out of range is looked up.\<close>

definition date_time_is_valid :: "date_time \<Rightarrow> bool option" where
  "date_time_is_valid d =
    (if dt_fields DT_MIN \<le> dt_fields d \<and> dt_fields d \<le> dt_fields DT_MAX \<and> 1 \<le> dt_month d \<and> dt_month d \<le> 12 then do {
       days \<leftarrow> days_in_month (dt_year d) (dt_month d);
       Some (1 \<le> dt_day d \<and> dt_day d \<le> days \<and> 0 \<le> dt_hour d \<and> dt_hour d < 24 \<and> 0 \<le> dt_minute d \<and> dt_minute d < 60 \<and>
         0 \<le> dt_second d \<and> dt_second d < 60 \<and> 0 \<le> dt_nanos d \<and> dt_nanos d < 1000000000)
     }
     else Some False)"

text \<open>\<^verbatim>\<open>Timestamp::try_from(DateTime)\<close>: the outer option is the panic, the inner one the \<^verbatim>\<open>Err(())\<close>.\<close>

definition timestamp_try_from :: "date_time \<Rightarrow> timestamp option option" where
  "timestamp_try_from d = do {
     valid \<leftarrow> date_time_is_valid d;
     if \<not> valid then Some None
     else do {
       seconds \<leftarrow> date_time_to_seconds d;
       Some (Some (new_timestamp seconds (as_i32 (dt_nanos d))))
     }
   }"

text \<open>The months from March on, in a year that ends with February; the argument is the table from the current month on.\<close>

fun month_loop :: "int list \<Rightarrow> int \<Rightarrow> int \<Rightarrow> (int \<times> int) option" where
  "month_loop [] months remdays = None"
| "month_loop (days # table) months remdays =
    (if days \<le> remdays then month_loop table (months + 1) (remdays - days) else Some (months, remdays))"

text \<open>The year, month and day of a number of days since the first of March 2000.\<close>

definition date_of_days :: "int \<Rightarrow> (int \<times> int \<times> int) option" where
  "date_of_days days = do {
     let DAYS_PER_400Y = 365 * 400 + 97;
     let DAYS_PER_100Y = 365 * 100 + 24;
     let DAYS_PER_4Y = 365 * 4 + 1;
     let qc_cycles = as_i32 (days sdiv DAYS_PER_400Y);
     let remdays = as_i32 (days smod DAYS_PER_400Y);
     let (remdays, qc_cycles) = (if remdays < 0 then (remdays + DAYS_PER_400Y, qc_cycles - 1) else (remdays, qc_cycles));
     let c_cycles = remdays sdiv DAYS_PER_100Y;
     let c_cycles = (if c_cycles = 4 then c_cycles - 1 else c_cycles);
     let remdays = remdays - c_cycles * DAYS_PER_100Y;
     let q_cycles = remdays sdiv DAYS_PER_4Y;
     let q_cycles = (if q_cycles = 25 then q_cycles - 1 else q_cycles);
     let remdays = remdays - q_cycles * DAYS_PER_4Y;
     let remyears = remdays sdiv 365;
     let remyears = (if remyears = 4 then remyears - 1 else remyears);
     let remdays = remdays - remyears * 365;
     let years = remyears + 4 * q_cycles + 100 * c_cycles + 400 * qc_cycles;
     (months, remdays) \<leftarrow> month_loop [31, 30, 31, 30, 31, 31, 30, 31, 30, 31, 31, 29] 0 remdays;
     let (months, years) = (if months \<ge> 10 then (months - 12, years + 1) else (months, years));
     Some (years + 2000, as_u8 (months + 3), as_u8 (remdays + 1))
   }"

definition date_time_from :: "timestamp \<Rightarrow> date_time option" where
  "date_time_from timestamp = do {
     timestamp \<leftarrow> timestamp_normalize timestamp;
     let t = timestamp_seconds timestamp;
     let nanos = timestamp_nanos timestamp;
     let LEAPOCH = 946684800 + 86400 * (31 + 29);
     days \<leftarrow> i64 (t sdiv 86400 - LEAPOCH sdiv 86400);
     let remsecs = as_i32 (t smod 86400);
     let (remsecs, days) = (if remsecs < 0 then (remsecs + 86400, days - 1) else (remsecs, days));
     (year, month, day) \<leftarrow> date_of_days days;
     let d = \<lparr>dt_year = year, dt_month = month, dt_day = day,
       dt_hour = as_u8 (remsecs sdiv 3600), dt_minute = as_u8 (remsecs sdiv 60 smod 60), dt_second = as_u8 (remsecs smod 60),
       dt_nanos = as_u32 nanos\<rparr>;
     valid \<leftarrow> date_time_is_valid d;
     if valid then Some d else None
   }"

end
