(* ===== verification/Calendar_Laws.thy ===== *)
theory Calendar_Laws
  imports Calendar
begin

text \<open>
  The laws of the calendar: normalisation clamps, \<^verbatim>\<open>year_to_seconds\<close> and \<^verbatim>\<open>date_time_to_seconds\<close> count the days of the
  proleptic Gregorian calendar, and the conversions between dates and timestamps are inverse to each other.
\<close>

section \<open>Normalisation\<close>

definition timestamp_total :: "timestamp \<Rightarrow> int" where
  "timestamp_total t = timestamp_seconds t * 1000000000 + timestamp_nanos t"

definition clamp :: "int \<Rightarrow> int \<Rightarrow> int \<Rightarrow> int" where
  "clamp least greatest x = (if x < least then least else if greatest < x then greatest else x)"

lemma new_timestamp_simps [simp]:
  "i64_range s \<Longrightarrow> timestamp_seconds (new_timestamp s n) = s"
  "- 2147483648 \<le> n \<Longrightarrow> n \<le> 2147483647 \<Longrightarrow> timestamp_nanos (new_timestamp s n) = n"
  by (simp_all add: new_timestamp_def sint_of_int_i64 sint_of_int_i32)

lemma timestamp_eqI:
  "timestamp_seconds t = timestamp_seconds t' \<Longrightarrow> timestamp_nanos t = timestamp_nanos t' \<Longrightarrow> t = t'"
  by (cases t; cases t') (simp add: signed_word_eqI)

lemma new_timestamp_eq: "new_timestamp (timestamp_seconds t) (timestamp_nanos t) = t"
  by (cases t) (simp add: new_timestamp_def)

lemma truncated_division:
  fixes n :: int
  assumes "0 < b"
  shows "n = b * (n sdiv b) + n smod b" "\<bar>n smod b\<bar> < b" "0 \<le> n \<Longrightarrow> 0 \<le> n smod b" "n \<le> 0 \<Longrightarrow> n smod b \<le> 0"
    "0 \<le> n \<Longrightarrow> 0 \<le> n sdiv b" "n \<le> 0 \<Longrightarrow> n sdiv b \<le> 0"
proof -
  show "n = b * (n sdiv b) + n smod b" by (simp add: mult_sdiv_smod_eq)
  show "\<bar>n smod b\<bar> < b" using assms by (simp add: sdiv_pos)
  show "0 \<le> n \<Longrightarrow> 0 \<le> n smod b" "0 \<le> n \<Longrightarrow> 0 \<le> n sdiv b"
    using assms by (simp_all add: sdiv_pos pos_imp_zdiv_nonneg_iff)
  show "n \<le> 0 \<Longrightarrow> n smod b \<le> 0" "n \<le> 0 \<Longrightarrow> n sdiv b \<le> 0"
    using assms by (auto simp add: sdiv_pos pos_imp_zdiv_nonneg_iff)
qed

text \<open>The carry is exact, unless the seconds leave their range.\<close>

lemma carry_nanos_cases:
  assumes "i64_range s"
  obtains (exact) s' n' where "carry_nanos least greatest s n = (s', n')" "i64_range s'" "\<bar>n'\<bar> < 1000000000"
      "s' * 1000000000 + n' = s * 1000000000 + n"
  | (low) "carry_nanos least greatest s n = least" "s * 1000000000 + n \<le> - 9223372036854775809 * 1000000000"
  | (high) "carry_nanos least greatest s n = greatest" "9223372036854775808 * 1000000000 \<le> s * 1000000000 + n"
proof (cases "n \<le> - 1000000000 \<or> n \<ge> 1000000000")
  case True
  note qr = truncated_division [of 1000000000 n]
  show ?thesis
  proof (cases "i64_range (s + n sdiv 1000000000)")
    case ok: True
    then show ?thesis using True qr(1,2)
      by (intro exact [of "s + n sdiv 1000000000" "n smod 1000000000"]) (simp_all add: carry_nanos_def NANOS_PER_SECOND_def)
  next
    case False
    then have *: "carry_nanos least greatest s n = (if n < 0 then least else greatest)"
      using True by (simp add: carry_nanos_def NANOS_PER_SECOND_def i64_def)
    show ?thesis
    proof (cases "n < 0")
      case neg: True
      then have "s + n sdiv 1000000000 \<le> - 9223372036854775809" using False assms qr(6) by (simp add: i64_range_def)
      then show ?thesis using * neg qr(1,4) by (intro low) simp_all
    next
      case pos: False
      then have "9223372036854775808 \<le> s + n sdiv 1000000000" using False assms qr(5) by (simp add: i64_range_def)
      then show ?thesis using * pos qr(1,3) by (intro high) simp_all
    qed
  qed
qed (use assms in \<open>auto intro: exact simp: carry_nanos_def NANOS_PER_SECOND_def\<close>)

lemma timestamp_normalize_total:
  "\<exists>t'. timestamp_normalize t = Some t' \<and> timestamp_is_canonical t' \<and>
     timestamp_total t' = clamp (- 9223372036854775808 * 1000000000) (9223372036854775807 * 1000000000 + 999999999) (timestamp_total t)"
proof -
  note defs = timestamp_normalize_def NANOS_PER_SECOND_def timestamp_is_canonical_def timestamp_total_def clamp_def i64_def
  show ?thesis
    using sint_i64_range [of "ts_seconds t"]
  proof (cases rule: carry_nanos_cases [where least = "(- 9223372036854775808, 0)" and greatest = "(9223372036854775807, 999999999)"
      and n = "timestamp_nanos t"])
    case (exact s' n')
    consider "0 \<le> n'" | "n' < 0" "i64_range (s' - 1)" | "n' < 0" "s' = - 9223372036854775808"
      using exact(2) by (force simp: i64_range_def)
    then show ?thesis using exact by cases (simp_all add: defs i64_range_def)
  next
    case low
    then show ?thesis by (simp add: defs i64_range_def)
  next
    case high
    then show ?thesis by (simp add: defs i64_range_def)
  qed
qed

section \<open>The Gregorian calendar\<close>

text \<open>
  The reference: years are numbered with a year 0, and day 0 is the first day of that year. A year before 0 counts
  negatively.
\<close>

definition leap_year :: "int \<Rightarrow> bool" where
  "leap_year y \<longleftrightarrow> 4 dvd y \<and> (100 dvd y \<longrightarrow> 400 dvd y)"

definition multiples_below :: "int \<Rightarrow> int \<Rightarrow> int" where
  "multiples_below b y = (y + (b - 1)) div b"

definition year_days :: "int \<Rightarrow> int" where
  "year_days y = 365 * y + multiples_below 4 y - multiples_below 100 y + multiples_below 400 y"

lemma div_parts: "z = b * q + r \<Longrightarrow> b \<noteq> 0 \<Longrightarrow> z div b = q + r div b" for z b q r :: int
  by simp

lemma dvd_parts: "z = b * q + r \<Longrightarrow> 0 \<le> r \<Longrightarrow> r < b \<Longrightarrow> b dvd z \<longleftrightarrow> r = 0" for z b q r :: int
  by (simp add: dvd_eq_mod_eq_0)

lemma div_bounds: "0 \<le> a \<Longrightarrow> a < c * b \<Longrightarrow> 0 < b \<Longrightarrow> 0 \<le> a div b \<and> a div b < c" for a b c :: int
proof -
  assume a: "0 \<le> a" "a < c * b" "0 < b"
  have "(a div b) * b \<le> a" using a(3) by (simp add: minus_mod_eq_div_mult [symmetric])
  then have "(a div b) * b < c * b" using a(2) by simp
  then show ?thesis using a by (simp add: pos_imp_zdiv_nonneg_iff)
qed

lemma multiples_below_parts:
  assumes "y = b * q + r" and "0 \<le> r" and "r < b"
  shows "multiples_below b y = q + of_bool (r \<noteq> 0)"
proof (cases "r = 0")
  case True
  then show ?thesis using assms div_parts [of "y + (b - 1)" b q "b - 1"] by (simp add: multiples_below_def)
next
  case False
  then have "(r - 1) div b = 0" using assms by (intro div_pos_pos_trivial) simp_all
  then show ?thesis
    using False assms div_parts [of "y + (b - 1)" b "q + 1" "r - 1"] by (simp add: multiples_below_def algebra_simps)
qed

lemma multiples_below_add:
  assumes "0 < b"
  shows "multiples_below b (b * q + r) = q + multiples_below b r"
proof -
  have "(b * q + r + (b - 1)) div b = q + (r + (b - 1)) div b"
    using assms by (intro div_parts) simp_all
  then show ?thesis by (simp only: multiples_below_def)
qed

lemma year_days_split:
  assumes x: "x = 400 * c + 100 * k + m" and k: "0 \<le> k" "k < 4" and m: "0 \<le> m" "m < 100"
  shows "year_days (2000 + x) = 730485 + 365 * x + 97 * c + 24 * k + (if m = 0 then of_bool (k \<noteq> 0) else multiples_below 4 m)"
proof -
  have "2000 + x = 4 * (500 + 100 * c + 25 * k) + m" by (simp add: x)
  then have "multiples_below 4 (2000 + x) = (500 + 100 * c + 25 * k) + multiples_below 4 m"
    by (simp only: multiples_below_add zero_less_numeral)
  moreover have "multiples_below 100 (2000 + x) = (20 + 4 * c + k) + of_bool (m \<noteq> 0)"
    using m by (intro multiples_below_parts) (simp_all add: x)
  moreover have "multiples_below 400 (2000 + x) = (5 + c) + of_bool (100 * k + m \<noteq> 0)"
    using k m by (intro multiples_below_parts) (simp_all add: x)
  moreover have "100 * k + m = 0 \<longleftrightarrow> k = 0 \<and> m = 0" using k m by linarith
  moreover have "multiples_below 4 0 = 0" by (simp add: multiples_below_def)
  ultimately show ?thesis by (simp add: year_days_def)
qed

lemma leap_year_split:
  assumes x: "x = 400 * c + 100 * k + m" and k: "0 \<le> k" "k < 4" and m: "0 \<le> m" "m < 100"
  shows "leap_year (2000 + x) \<longleftrightarrow> (if m = 0 then k = 0 else 4 dvd m)"
proof -
  have "100 dvd 2000 + x \<longleftrightarrow> m = 0" by (rule dvd_parts [where q = "20 + 4 * c + k"]) (use x m in simp_all)
  moreover have "400 dvd 2000 + x \<longleftrightarrow> 100 * k + m = 0" by (rule dvd_parts [where q = "5 + c"]) (use x m k in simp_all)
  moreover have "100 * k + m = 0 \<longleftrightarrow> k = 0 \<and> m = 0" using k m by linarith
  moreover have "4 dvd 2000 + x \<longleftrightarrow> 4 dvd m"
    using dvd_add_right_iff [OF dvd_triv_left [of 4 "500 + 100 * c + 25 * k"], of m] by (simp add: x add.assoc)
  ultimately show ?thesis by (auto simp: leap_year_def)
qed

lemma mod_parts:
  fixes b x :: int
  assumes "0 < b"
  obtains q r where "x = b * q + r" "0 \<le> r" "r < b" "q = x div b" "r = x mod b"
proof
  show "x = b * (x div b) + x mod b" by simp
  show "0 \<le> x mod b" "x mod b < b" using assms by simp_all
qed (rule refl)+

lemma year_split:
  obtains c k m :: int where "x = 400 * c + 100 * k + m" "0 \<le> k" "k < 4" "0 \<le> m" "m < 100"
    "c = x div 400" "100 * k + m = x mod 400"
proof -
  obtain c y where 1: "x = 400 * c + y" "0 \<le> y" "y < 400" "c = x div 400" "y = x mod 400"
    by (rule mod_parts [OF zero_less_numeral])
  obtain k m where 2: "y = 100 * k + m" "0 \<le> m" "m < 100"
    by (rule mod_parts [OF zero_less_numeral])
  have "0 \<le> k \<and> k < 4" using 1(2,3) 2 by linarith
  then show ?thesis using 1 2(1-3) that [of c k m] by (simp only: add.assoc simp_thms)
qed

lemma multiples_below_Suc:
  assumes b: "0 < b"
  shows "multiples_below b (y + 1) = multiples_below b y + of_bool (b dvd y)"
proof -
  obtain q r where 1: "y = b * q + r" "0 \<le> r" "r < b" by (rule mod_parts [OF b])
  have y: "multiples_below b y = q + of_bool (r \<noteq> 0)" by (rule multiples_below_parts [OF 1])
  have "b dvd y \<longleftrightarrow> r = 0" by (rule dvd_parts [OF 1])
  moreover have "multiples_below b (y + 1) = q + 1"
  proof (cases "r + 1 < b")
    case True
    then show ?thesis using 1 multiples_below_parts [of "y + 1" b q "r + 1"] by simp
  next
    case False
    then show ?thesis using 1 b multiples_below_parts [of "y + 1" b "q + 1" 0] by (simp add: algebra_simps)
  qed
  ultimately show ?thesis by (simp add: y)
qed

lemma year_days_Suc: "year_days (y + 1) = year_days y + 365 + of_bool (leap_year y)"
proof -
  have "4 dvd y" if "100 dvd y" by (rule dvd_trans [OF _ that]) simp
  moreover have "100 dvd y" if "400 dvd y" by (rule dvd_trans [OF _ that]) simp
  ultimately have "of_bool (leap_year y) = of_bool (4 dvd y) - of_bool (100 dvd y) + (of_bool (400 dvd y) :: int)"
    unfolding leap_year_def by (cases "4 dvd y"; cases "100 dvd y"; cases "400 dvd y") simp_all
  moreover have "365 * (y + 1) + (a + p) - (b + q) + (c + r) = 365 * y + a - b + c + 365 + s" if "s = p - q + r"
    for a b c p q r s :: int using that by simp
  ultimately show ?thesis
    unfolding year_days_def multiples_below_Suc [OF zero_less_numeral] by blast
qed

definition epoch_days :: "int \<Rightarrow> int" where
  "epoch_days y = year_days y - year_days 1970"

lemma year_days_1970: "year_days 1970 = 719528"
  by (simp add: year_days_def multiples_below_def)

lemma year_to_seconds_recent:
  assumes "1900 < y" and "y \<le> 2038"
  shows "year_to_seconds y = Some (86400 * epoch_days y, leap_year y)"
proof -
  obtain c m where 1: "y - 1968 = 4 * c + m" "0 \<le> m" "m < 4" "c = (y - 1968) div 4" "m = (y - 1968) mod 4"
    by (rule mod_parts [OF zero_less_numeral])
  have r: "i64 (y - 1900) = Some (y - 1900)" using assms by (simp add: i64_range_def)
  have sh: "drop_bit 2 (y - 1900 - 68) = c" "take_bit 2 (y - 1900 - 68) = m"
    using 1(4,5) by (simp_all add: drop_bit_eq_div take_bit_eq_mod)
  have d4: "4 dvd y \<longleftrightarrow> m = 0" by (rule dvd_parts [where q = "492 + c"]) (use 1 in simp_all)
  have y4: "multiples_below 4 y = 492 + c + of_bool (m \<noteq> 0)"
    using 1 by (intro multiples_below_parts) simp_all
  have y100: "multiples_below 100 y = (if y \<le> 2000 then 20 else 21)"
    using assms multiples_below_parts [of y 100 19 "y - 1900"] multiples_below_parts [of y 100 20 "y - 2000"]
    by (cases "y < 2000"; cases "y = 2000") simp_all
  have y400: "multiples_below 400 y = (if y \<le> 2000 then 5 else 6)"
    using assms multiples_below_parts [of y 400 4 "y - 1600"] multiples_below_parts [of y 400 5 "y - 2000"]
    by (cases "y < 2000"; cases "y = 2000") simp_all
  have "100 dvd y \<longleftrightarrow> y = 2000"
    using assms dvd_parts [of y 100 19 "y - 1900"] dvd_parts [of y 100 20 "y - 2000"] by (cases "y < 2000") simp_all
  then have l: "leap_year y \<longleftrightarrow> m = 0" by (auto simp: leap_year_def d4)
  show ?thesis
    using assms 1(1) unfolding year_to_seconds_def r bind.bind_lunit sh Let_def
    by (simp add: epoch_days_def year_days_1970) (simp add: year_days_def y4 y100 y400 l)
qed

text \<open>The years a timestamp can fall into.\<close>

definition year_range :: "int \<Rightarrow> bool" where
  "year_range y \<longleftrightarrow> - 292277022657 \<le> y \<and> y \<le> 292277026596"

lemma floor_of_truncated:
  fixes a b :: int
  assumes "0 < b"
  shows "(if a smod b < 0 then (a sdiv b - 1, a smod b + b) else (a sdiv b, a smod b)) = (a div b, a mod b)"
    and "(if a smod b < 0 then (a smod b + b, a sdiv b - 1) else (a smod b, a sdiv b)) = (a mod b, a div b)"
proof -
  note t = truncated_division [OF assms, of a]
  have "a div b = a sdiv b - 1 \<and> a mod b = a smod b + b" if "a smod b < 0"
    using that t(1,2) by (intro conjI int_div_pos_eq [of _ _ _ "a smod b + b"] int_mod_pos_eq [of _ _ "a sdiv b - 1"])
      (simp_all add: algebra_simps)
  moreover have "a div b = a sdiv b \<and> a mod b = a smod b" if "\<not> a smod b < 0"
    using that t(1,2) by (intro conjI int_div_pos_eq [of _ _ _ "a smod b"] int_mod_pos_eq [of _ _ "a sdiv b"]) simp_all
  ultimately show "(if a smod b < 0 then (a sdiv b - 1, a smod b + b) else (a sdiv b, a smod b)) = (a div b, a mod b)"
    "(if a smod b < 0 then (a smod b + b, a sdiv b - 1) else (a smod b, a sdiv b)) = (a mod b, a div b)"
    by simp_all
qed

text \<open>The leap days of the general case, from the century in the cycle and the year in the century.\<close>

definition cycle_leaps :: "int \<Rightarrow> bool \<times> int \<times> int" where
  "cycle_leaps rem =
    (if rem = 0 then (True, 0, 0)
     else
       let (centuries, rem) =
         (if rem \<ge> 200 then if rem \<ge> 300 then (3, rem - 300) else (2, rem - 200)
          else if rem \<ge> 100 then (1, rem - 100) else (0, rem))
       in if rem = 0 then (False, centuries, 0)
          else (rem smod 4 = 0, centuries, rem sdiv 4))"

lemma cycle_leaps_simps:
  assumes "0 \<le> k" "k < 4" "0 \<le> m" "m < 100"
  shows "cycle_leaps (100 * k + m) = (if m = 0 then (k = 0, k, 0) else (m mod 4 = 0, k, m div 4))"
proof -
  consider "k = 0" | "k = 1" | "k = 2" | "k = 3" using assms(1,2) by linarith
  then show ?thesis
    using assms(3,4) by cases (simp_all add: cycle_leaps_def sdiv_pos)
qed

lemma cycle_leaps_eq:
  assumes k: "0 \<le> k" "k < 4" and m: "0 \<le> m" "m < 100"
  shows "\<exists>l. cycle_leaps (100 * k + m) = ((if m = 0 then k = 0 else 4 dvd m), k, l) \<and> 0 \<le> l \<and> l < 100 \<and>
    l + 1 - of_bool (if m = 0 then k = 0 else 4 dvd m) = (if m = 0 then of_bool (k \<noteq> 0) else multiples_below 4 m)"
proof -
  obtain q r where 1: "m = 4 * q + r" "0 \<le> r" "r < 4" "q = m div 4" "r = m mod 4"
    by (rule mod_parts [OF zero_less_numeral])
  have "4 dvd m \<longleftrightarrow> r = 0" by (rule dvd_parts [OF 1(1-3)])
  moreover have "multiples_below 4 m = q + of_bool (r \<noteq> 0)" by (rule multiples_below_parts [OF 1(1-3)])
  moreover have "0 \<le> q" "q < 100" using 1(1-3) m by linarith+
  ultimately show ?thesis
    unfolding cycle_leaps_simps [OF assms] 1(4) [symmetric] 1(5) [symmetric]
    by (intro exI [of _ "if m = 0 then 0 else q"]) simp
qed

lemma year_to_seconds_general:
  assumes y: "year_range y" and g: "\<not> (1900 < y \<and> y \<le> 2038)"
  shows "year_to_seconds y = Some (86400 * epoch_days y, leap_year y)"
proof -
  obtain c k m where x: "y - 2000 = 400 * c + 100 * k + m" and k: "0 \<le> k" "k < 4" and m: "0 \<le> m" "m < 100"
    and cy: "c = (y - 2000) div 400" "100 * k + m = (y - 2000) mod 400"
    by (rule year_split)
  obtain l where l: "cycle_leaps (100 * k + m) = (leap_year y, k, l)" "0 \<le> l" "l < 100"
      "l + 1 - of_bool (leap_year y) = (if m = 0 then of_bool (k \<noteq> 0) else multiples_below 4 m)"
    using cycle_leaps_eq [OF k m] leap_year_split [OF x k m] by auto
  define e :: int where "e = of_bool (leap_year y)"
  then have e: "0 \<le> e" "e \<le> 1" by simp_all
  have yx: "year_days y = 730485 + 365 * (y - 2000) + 97 * c + 24 * k + l + 1 - e"
    using year_days_split [OF x k m] l(4) by (simp add: e_def)
  have i: "i64 (y - 1900) = Some (y - 1900)" "i64 (y - 1900 - 100) = Some (y - 2000)"
    "i64 ((y - 2000) * 31536000) = Some ((y - 2000) * 31536000)"
    using y by (simp_all add: i64_def i64_range_def year_range_def)
  have f: "\<not> (1 \<le> y - 1900 \<and> y - 1900 \<le> 138)" using g by linarith
  have b: "- 1000000000 \<le> c" "c \<le> 1000000000" using x k m y unfolding year_range_def by linarith+
  have small: "i64_range n \<and> i64_range (n * 86400) \<and> i64_range (n * 86400 + 946684800 + 86400)"
    if "- 100000000000 \<le> n" "n \<le> 100000000000" for n
    using that by (simp add: i64_range_def)
  have "- 100000000000 \<le> l + 97 * c + 24 * k - e" "l + 97 * c + 24 * k - e \<le> 100000000000"
    using b l(2,3) k e by linarith+
  then have r: "i64_range (l + 97 * c + 24 * k - e)" "i64_range ((l + 97 * c + 24 * k - e) * 86400)"
    "i64_range ((l + 97 * c + 24 * k - e) * 86400 + 946684800 + 86400)"
    using small by blast+
  have sum: "(y - 2000) * 31536000 + ((l + 97 * c + 24 * k - e) * 86400 + 946684800 + 86400) = 86400 * epoch_days y"
    unfolding epoch_days_def yx year_days_1970 by (simp add: algebra_simps)
  show ?thesis
    unfolding year_to_seconds_def i bind.bind_lunit Let_def if_not_P [OF f] floor_of_truncated [OF zero_less_numeral] prod.case
      cy(1) [symmetric] cy(2) [symmetric] cycle_leaps_def [unfolded Let_def, symmetric] l(1) e_def [symmetric]
      r [THEN i64_Some] sum ..
qed

lemma year_to_seconds_eq: "year_range y \<Longrightarrow> year_to_seconds y = Some (86400 * epoch_days y, leap_year y)"
  using year_to_seconds_general [of y] year_to_seconds_recent [of y] by blast

section \<open>Months and dates\<close>

definition month_length :: "int \<Rightarrow> int \<Rightarrow> int" where
  "month_length y m = (if m = 2 then 28 + of_bool (leap_year y) else if m \<in> {4, 6, 9, 11} then 30 else 31)"

definition month_days :: "int \<Rightarrow> int \<Rightarrow> int" where
  "month_days y m = sum_list (map (month_length y) [1..m - 1])"

lemma months: "1 \<le> m \<Longrightarrow> m \<le> 12 \<Longrightarrow> m \<in> {1, 2, 3, 4, 5, 6, 7, 8, 9, 10, 11, 12}" for m :: int
  by simp presburger

lemma month_days_simps:
  "month_days y 1 = 0" "month_days y 2 = 31" "month_days y 3 = 59 + of_bool (leap_year y)"
  "month_days y 4 = 90 + of_bool (leap_year y)" "month_days y 5 = 120 + of_bool (leap_year y)"
  "month_days y 6 = 151 + of_bool (leap_year y)" "month_days y 7 = 181 + of_bool (leap_year y)"
  "month_days y 8 = 212 + of_bool (leap_year y)" "month_days y 9 = 243 + of_bool (leap_year y)"
  "month_days y 10 = 273 + of_bool (leap_year y)" "month_days y 11 = 304 + of_bool (leap_year y)"
  "month_days y 12 = 334 + of_bool (leap_year y)"
  by (simp_all add: month_days_def upto.simps month_length_def)

lemma month_table:
  assumes "1 \<le> m" and "m \<le> 12"
  shows "month_to_seconds m (leap_year y) = Some (86400 * month_days y m)"
    and "year_range y \<Longrightarrow> days_in_month y m = Some (month_length y m)"
    and "month_days y m + month_length y m \<le> 365 + of_bool (leap_year y)"
    and "0 \<le> month_days y m" and "28 \<le> month_length y m"
  using months [OF assms]
  by (auto simp: month_to_seconds_def days_in_month_def get_index_def month_days_simps month_length_def year_to_seconds_eq)

lemma month_days_less:
  assumes "1 \<le> m" and "m < m'" and "m' \<le> 12"
  shows "month_days y m + month_length y m \<le> month_days y m'"
proof -
  have "[1..m' - 1] = [1..m - 1] @ m # [m + 1..m' - 1]"
    using assms upto_split1 [of 1 m "m' - 1"] upto_rec1 [of m "m' - 1"] by simp
  moreover have "0 \<le> sum_list (map (month_length y) [m + 1..m' - 1])"
    by (rule sum_list_nonneg) (auto simp: month_length_def)
  ultimately show ?thesis by (simp add: month_days_def)
qed

definition calendar_date :: "date_time \<Rightarrow> bool" where
  "calendar_date d \<longleftrightarrow> 1 \<le> dt_month d \<and> dt_month d \<le> 12 \<and> 1 \<le> dt_day d \<and> dt_day d \<le> month_length (dt_year d) (dt_month d) \<and>
    0 \<le> dt_hour d \<and> dt_hour d < 24 \<and> 0 \<le> dt_minute d \<and> dt_minute d < 60 \<and> 0 \<le> dt_second d \<and> dt_second d < 60 \<and>
    0 \<le> dt_nanos d \<and> dt_nanos d < 1000000000"

definition day_seconds :: "date_time \<Rightarrow> int" where
  "day_seconds d = 3600 * dt_hour d + 60 * dt_minute d + dt_second d"

definition date_days :: "date_time \<Rightarrow> int" where
  "date_days d = epoch_days (dt_year d) + month_days (dt_year d) (dt_month d) + dt_day d - 1"

definition date_seconds :: "date_time \<Rightarrow> int" where
  "date_seconds d = 86400 * date_days d + day_seconds d"

lemma calendar_date_bounds:
  assumes "calendar_date d"
  shows "0 \<le> day_seconds d" "day_seconds d < 86400" "epoch_days (dt_year d) \<le> date_days d" "date_days d < epoch_days (dt_year d + 1)"
  using assms month_table [of "dt_month d" "dt_year d"]
  by (auto simp: calendar_date_def day_seconds_def date_days_def epoch_days_def year_days_Suc)

lemma epoch_days_less: "y < y' \<Longrightarrow> epoch_days (y + 1) \<le> epoch_days y'"
proof (induction y' rule: int_gr_induct)
  case (step i)
  then show ?case by (simp add: epoch_days_def year_days_Suc)
qed simp

lemma date_days_less:
  assumes "calendar_date d" and "calendar_date d'"
    and "[dt_year d, dt_month d, dt_day d] < [dt_year d', dt_month d', dt_day d']"
  shows "date_days d < date_days d'"
proof -
  consider "dt_year d < dt_year d'" | "dt_year d = dt_year d'" "dt_month d < dt_month d'"
    | "dt_year d = dt_year d'" "dt_month d = dt_month d'" "dt_day d < dt_day d'" using assms(3) by auto
  then show ?thesis
  proof cases
    case 1
    then show ?thesis using calendar_date_bounds [OF assms(1)] calendar_date_bounds [OF assms(2)] epoch_days_less [OF 1] by linarith
  next
    case 2
    then show ?thesis
      using month_days_less [of "dt_month d" "dt_month d'" "dt_year d"] assms(1,2) by (simp add: calendar_date_def date_days_def)
  next
    case 3
    then show ?thesis by (simp add: date_days_def)
  qed
qed

lemma date_order:
  assumes "calendar_date d" and "calendar_date d'" and "dt_fields d < dt_fields d'"
  shows "date_seconds d < date_seconds d' \<or> date_seconds d = date_seconds d' \<and> dt_nanos d < dt_nanos d'"
proof -
  consider "[dt_year d, dt_month d, dt_day d] < [dt_year d', dt_month d', dt_day d']"
    | "date_days d = date_days d'" "[dt_hour d, dt_minute d, dt_second d, dt_nanos d] < [dt_hour d', dt_minute d', dt_second d', dt_nanos d']"
    using assms(3) by (auto simp: dt_fields_def date_days_def)
  then show ?thesis
  proof cases
    case 1
    then have "date_days d < date_days d'" by (rule date_days_less [OF assms(1,2)])
    then show ?thesis using calendar_date_bounds [OF assms(1)] calendar_date_bounds [OF assms(2)] by (simp add: date_seconds_def)
  next
    case 2
    then show ?thesis using assms(1,2) by (auto simp: date_seconds_def day_seconds_def calendar_date_def)
  qed
qed

lemma date_extremes:
  "calendar_date DT_MIN" "date_seconds DT_MIN = - 9223372036854775808"
  "calendar_date DT_MAX" "date_seconds DT_MAX = 9223372036854775807"
proof -
  have "epoch_days (- 292277022657) = - 106751991167327" "epoch_days 292277026596 = 106751991166962"
    by (simp_all add: epoch_days_def year_days_def multiples_below_def)
  then show "calendar_date DT_MIN" "date_seconds DT_MIN = - 9223372036854775808"
    "calendar_date DT_MAX" "date_seconds DT_MAX = 9223372036854775807"
    by (simp_all add: calendar_date_def date_seconds_def date_days_def day_seconds_def DT_MIN_def DT_MAX_def month_length_def
        month_days_simps leap_year_def)
qed

lemma dt_fields_inject [simp]: "dt_fields d = dt_fields d' \<longleftrightarrow> d = d'"
  by (auto simp: dt_fields_def)

lemma date_le_iff:
  assumes "calendar_date d" and "calendar_date d'"
  shows "dt_fields d \<le> dt_fields d' \<longleftrightarrow>
    date_seconds d < date_seconds d' \<or> date_seconds d = date_seconds d' \<and> dt_nanos d \<le> dt_nanos d'"
proof -
  consider "dt_fields d < dt_fields d'" | "d = d'" | "dt_fields d' < dt_fields d"
    using less_linear [of "dt_fields d" "dt_fields d'"] by auto
  then show ?thesis
    using date_order [OF assms] date_order [OF assms(2,1)] by cases (auto simp: not_le [symmetric] less_imp_le)
qed

lemma date_range:
  assumes "calendar_date d"
  shows "dt_fields DT_MIN \<le> dt_fields d \<and> dt_fields d \<le> dt_fields DT_MAX \<longleftrightarrow> i64_range (date_seconds d)"
proof -
  have "0 \<le> dt_nanos d" "dt_nanos d \<le> 999999999" using assms by (simp_all add: calendar_date_def)
  moreover have "dt_nanos DT_MIN = 0" "dt_nanos DT_MAX = 999999999" by (simp_all add: DT_MIN_def DT_MAX_def)
  ultimately show ?thesis
    by (auto simp: date_le_iff assms date_extremes i64_range_def)
qed

lemma date_time_is_valid_eq: "date_time_is_valid d = Some (calendar_date d \<and> i64_range (date_seconds d))"
proof (cases "dt_fields DT_MIN \<le> dt_fields d \<and> dt_fields d \<le> dt_fields DT_MAX \<and> 1 \<le> dt_month d \<and> dt_month d \<le> 12")
  case True
  then have "year_range (dt_year d)" by (auto simp: dt_fields_def DT_MIN_def DT_MAX_def year_range_def)
  with True have "date_time_is_valid d = Some (calendar_date d)"
    by (simp add: date_time_is_valid_def month_table(2) calendar_date_def)
  then show ?thesis using True date_range [of d] by auto
next
  case False
  then have "\<not> (calendar_date d \<and> i64_range (date_seconds d))" using date_range [of d] by (auto simp: calendar_date_def)
  then show ?thesis unfolding date_time_is_valid_def if_not_P [OF False] by simp
qed

lemma date_time_to_seconds_eq:
  assumes "calendar_date d" and "i64_range (date_seconds d)"
  shows "date_time_to_seconds d = Some (date_seconds d)"
proof -
  have "dt_fields DT_MIN \<le> dt_fields d" "dt_fields d \<le> dt_fields DT_MAX" using date_range [OF assms(1)] assms(2) by blast+
  then have y: "year_range (dt_year d)" by (auto simp: dt_fields_def DT_MIN_def DT_MAX_def year_range_def)
  have "date_time_to_seconds d = Some (as_i64 (date_seconds d))"
    using assms(1) y by (simp add: date_time_to_seconds_def year_to_seconds_eq month_table(1) calendar_date_def
        date_seconds_def date_days_def day_seconds_def algebra_simps)
  then show ?thesis using assms(2) by (simp add: as_i64_eq)
qed

lemma timestamp_try_from_eq:
  "timestamp_try_from d = Some (if calendar_date d \<and> i64_range (date_seconds d)
     then Some (new_timestamp (date_seconds d) (dt_nanos d)) else None)"
proof (cases "calendar_date d \<and> i64_range (date_seconds d)")
  case True
  then have "as_i32 (dt_nanos d) = dt_nanos d" by (intro as_i32_eq) (simp_all add: calendar_date_def)
  then show ?thesis using True by (simp add: timestamp_try_from_def date_time_is_valid_eq date_time_to_seconds_eq)
qed (simp add: timestamp_try_from_def date_time_is_valid_eq)

section \<open>From timestamps to dates\<close>

text \<open>Years that begin in March, counted from the year 2000: the cycle, the century in it, the leap cycle, and the year.\<close>

lemma march_split:
  fixes r :: int
  assumes "0 \<le> r" and "r < 146097"
  defines "c \<equiv> if r sdiv 36524 = 4 then r sdiv 36524 - 1 else r sdiv 36524"
  defines "r1 \<equiv> r - c * 36524"
  defines "q \<equiv> if r1 sdiv 1461 = 25 then r1 sdiv 1461 - 1 else r1 sdiv 1461"
  defines "r2 \<equiv> r1 - q * 1461"
  defines "y \<equiv> if r2 sdiv 365 = 4 then r2 sdiv 365 - 1 else r2 sdiv 365"
  defines "r3 \<equiv> r2 - y * 365"
  shows "0 \<le> c \<and> c \<le> 3 \<and> 0 \<le> q \<and> q \<le> 24 \<and> 0 \<le> y \<and> y \<le> 3 \<and> 0 \<le> r3 \<and> r3 \<le> 365 \<and>
    r = 36524 * c + 1461 * q + 365 * y + r3 \<and> (r3 = 365 \<longrightarrow> y = 3 \<and> (q = 24 \<longrightarrow> c = 3))"
proof -
  obtain c0 m0 where 0: "r = 36524 * c0 + m0" "0 \<le> m0" "m0 < 36524" "c0 = r div 36524" by (rule mod_parts [OF zero_less_numeral])
  have c: "c = (if c0 = 4 then 3 else c0)" using assms(1) 0(4) by (simp add: c_def sdiv_pos)
  have c0: "0 \<le> c0" "c0 \<le> 4" "c0 = 4 \<Longrightarrow> m0 = 0" using 0(1-3) assms(1,2) by linarith+
  have r1: "0 \<le> r1" "r1 \<le> 36524" "r1 = 36524 \<Longrightarrow> c = 3" using c0 0(1-3) c by (auto simp: r1_def)
  obtain q0 m1 where 1: "r1 = 1461 * q0 + m1" "0 \<le> m1" "m1 < 1461" "q0 = r1 div 1461" by (rule mod_parts [OF zero_less_numeral])
  have q0: "0 \<le> q0" "q0 \<le> 24" using 1(1-3) r1 by linarith+
  then have q: "q = q0" using r1(1) 1(4) by (simp add: q_def sdiv_pos)
  have r2: "r2 = m1" using 1(1) by (simp add: r2_def q)
  obtain y0 m2 where 2: "r2 = 365 * y0 + m2" "0 \<le> m2" "m2 < 365" "y0 = r2 div 365" by (rule mod_parts [OF zero_less_numeral])
  have y: "y = (if y0 = 4 then 3 else y0)" using 1(2) r2 2(4) by (simp add: y_def sdiv_pos)
  have y0: "0 \<le> y0" "y0 \<le> 4" "y0 = 4 \<Longrightarrow> m2 = 0" using 2(1-3) 1(2,3) r2 by linarith+
  have "r3 = 365 \<Longrightarrow> y0 = 4" using 2(1-3) y y0 by (auto simp: r3_def split: if_splits)
  then have "r3 = 365 \<Longrightarrow> y = 3 \<and> m1 = 1460" using 2(1) y y0 r2 by simp
  moreover have "m1 = 1460 \<Longrightarrow> q0 = 24 \<Longrightarrow> r1 = 36524" using 1(1) by simp
  moreover have "0 \<le> r3 \<and> r3 \<le> 365" using y y0 2(1-3) by (auto simp: r3_def)
  moreover have "r = 36524 * c + 1461 * q + 365 * y + r3" by (simp add: r3_def r2_def r1_def)
  ultimately show ?thesis using c c0 q q0 y y0 r1(3) by auto
qed

lemma march_day:
  assumes "0 \<le> c" "c \<le> 3" "0 \<le> q" "q \<le> 24" "0 \<le> y" "y \<le> 3"
  shows "epoch_days (2000 + (y + 4 * q + 100 * c + 400 * n)) + 59 + of_bool (leap_year (2000 + (y + 4 * q + 100 * c + 400 * n))) =
    11017 + 365 * (y + 4 * q + 100 * c + 400 * n) + q + 24 * c + 97 * n"
proof -
  define x where "x = y + 4 * q + 100 * c + 400 * n"
  have x: "x = 400 * n + 100 * c + (4 * q + y)" by (simp add: x_def)
  have m: "0 \<le> 4 * q + y" "4 * q + y < 100" "4 * q + y = 0 \<longleftrightarrow> q = 0 \<and> y = 0" using assms by linarith+
  have "multiples_below 4 (4 * q + y) = q + of_bool (y \<noteq> 0)" by (rule multiples_below_parts) (use assms in auto)
  moreover have "4 dvd 4 * q + y \<longleftrightarrow> y = 0" by (rule dvd_parts) (use assms in auto)
  moreover have "c < 4" using assms by linarith
  ultimately show ?thesis
    unfolding x_def [symmetric]
    using year_days_split [OF x assms(1) _ m(1,2)] leap_year_split [OF x assms(1) _ m(1,2)] m(3)
    by (auto simp: epoch_days_def year_days_1970)
qed

lemma march_leap:
  assumes "0 \<le> c" "c \<le> 3" "0 \<le> q" "q \<le> 24" "q = 24 \<Longrightarrow> c = 3"
  shows "leap_year (2000 + (3 + 4 * q + 100 * c + 400 * n) + 1)"
proof (cases "q = 24")
  case True
  then have "2000 + (3 + 4 * q + 100 * c + 400 * n) + 1 = 2000 + 400 * (n + 1)" using assms(5) by simp
  then show ?thesis using leap_year_split [of "400 * (n + 1)" "n + 1" 0 0] by (simp only:) simp
next
  case False
  have "2000 + (3 + 4 * q + 100 * c + 400 * n) + 1 = 2000 + (400 * n + 100 * c + 4 * (q + 1))" by simp
  then show ?thesis
    using leap_year_split [of "400 * n + 100 * c + 4 * (q + 1)" n c "4 * (q + 1)"] False assms by (simp only:) auto
qed

text \<open>The months from March on: their number, the days before them, and their length.\<close>

definition march_months :: "(int \<times> int \<times> int) set" where
  "march_months = {(0, 0, 31), (1, 31, 30), (2, 61, 31), (3, 92, 30), (4, 122, 31), (5, 153, 31), (6, 184, 30), (7, 214, 31),
     (8, 245, 30), (9, 275, 31), (10, 306, 31), (11, 337, 29)}"

lemma month_loop_cases:
  assumes "0 \<le> r" and "r \<le> 365"
  obtains i p l where "(i, p, l) \<in> march_months"
    "month_loop [31, 30, 31, 30, 31, 31, 30, 31, 30, 31, 31, 29] 0 r = Some (i, r - p)" "p \<le> r" "r < p + l"
proof -
  have "\<exists>i p l. (i, p, l) \<in> march_months \<and>
    month_loop [31, 30, 31, 30, 31, 31, 30, 31, 30, 31, 31, 29] 0 r = Some (i, r - p) \<and> p \<le> r \<and> r < p + l"
  proof -
    consider "r < 31" | "31 \<le> r" "r < 61" | "61 \<le> r" "r < 92" | "92 \<le> r" "r < 122" | "122 \<le> r" "r < 153" | "153 \<le> r" "r < 184"
      | "184 \<le> r" "r < 214" | "214 \<le> r" "r < 245" | "245 \<le> r" "r < 275" | "275 \<le> r" "r < 306" | "306 \<le> r" "r < 337" | "337 \<le> r"
      by linarith
    then show ?thesis using assms unfolding march_months_def by cases auto
  qed
  then show ?thesis using that by blast
qed

lemma month_loop_date:
  assumes r: "0 \<le> r" "r \<le> 365" "r = 365 \<Longrightarrow> leap_year (y + 1)"
  obtains i d m z where "month_loop [31, 30, 31, 30, 31, 31, 30, 31, 30, 31, 31, 29] 0 r = Some (i, d)"
    "(if 10 \<le> i then (i - 12, y + 1) else (i, y)) = (m - 3, z)" "1 \<le> m" "m \<le> 12" "0 \<le> d" "d + 1 \<le> month_length z m"
    "epoch_days z + month_days z m + d = epoch_days y + 59 + of_bool (leap_year y) + r"
proof -
  obtain i p l where ipl: "(i, p, l) \<in> march_months"
    and l: "month_loop [31, 30, 31, 30, 31, 31, 30, 31, 30, 31, 31, 29] 0 r = Some (i, r - p)" "p \<le> r" "r < p + l"
    by (rule month_loop_cases [OF r(1,2)])
  let ?m = "if 10 \<le> i then i - 9 else i + 3" and ?z = "if 10 \<le> i then y + 1 else y"
  have f: "month_days ?z ?m = p + (if 10 \<le> i then - 306 else 59 + of_bool (leap_year y)) \<and> 1 \<le> ?m \<and> ?m \<le> 12 \<and>
      (if p = 337 then month_length ?z ?m = 28 + of_bool (leap_year (y + 1)) \<and> l = 29 else month_length ?z ?m = l)"
    using ipl unfolding march_months_def by (elim insertE emptyE) (simp_all add: month_days_simps month_length_def)
  have e: "epoch_days (y + 1) = epoch_days y + 365 + of_bool (leap_year y)" by (simp add: epoch_days_def year_days_Suc)
  show ?thesis
  proof (rule that [OF l(1), of ?m ?z])
    show "(if 10 \<le> i then (i - 12, y + 1) else (i, y)) = (?m - 3, ?z)" by simp
    show "1 \<le> ?m" "?m \<le> 12" using f by blast+
    show "0 \<le> r - p" using l(2) by simp
    show "r - p + 1 \<le> month_length ?z ?m"
    proof (cases "p = 337")
      case True
      then have "month_length ?z ?m = 28 + of_bool (leap_year (y + 1))" using f by (simp only: simp_thms if_True)
      then show ?thesis using True r by (cases "r = 365") simp_all
    next
      case False
      then have "month_length ?z ?m = l" using f by (simp only: simp_thms if_False)
      then show ?thesis using l(3) by simp
    qed
    have "month_days ?z ?m = p + (if 10 \<le> i then - 306 else 59 + of_bool (leap_year y))" using f by blast
    then show "epoch_days ?z + month_days ?z ?m + (r - p) = epoch_days y + 59 + of_bool (leap_year y) + r"
      using e by (cases "10 \<le> i") simp_all
  qed
qed

lemma time_split:
  fixes r :: int
  assumes "0 \<le> r" and "r < 86400"
  shows "3600 * as_u8 (r sdiv 3600) + 60 * as_u8 (r sdiv 60 smod 60) + as_u8 (r smod 60) = r"
    and "0 \<le> as_u8 (r sdiv 3600) \<and> as_u8 (r sdiv 3600) < 24" and "0 \<le> as_u8 (r sdiv 60 smod 60) \<and> as_u8 (r sdiv 60 smod 60) < 60"
    and "0 \<le> as_u8 (r smod 60) \<and> as_u8 (r smod 60) < 60"
proof -
  obtain m s where 1: "r = 60 * m + s" "0 \<le> s" "s < 60" "m = r div 60" "s = r mod 60" by (rule mod_parts [OF zero_less_numeral])
  obtain h i where 2: "m = 60 * h + i" "0 \<le> i" "i < 60" "h = m div 60" "i = m mod 60" by (rule mod_parts [OF zero_less_numeral])
  have b: "0 \<le> h" "h < 24" "0 \<le> m" using 1(1-3) 2(1-3) assms by linarith+
  have "r div 3600 = h" using 1(1-3) 2(1-3) div_parts [of r 3600 h "60 * i + s"] by (simp add:)
  then have "r sdiv 3600 = h" "r sdiv 60 = m" "r smod 60 = s" "m smod 60 = i"
    using assms b 1(4,5) 2(5) by (simp_all add: sdiv_pos)
  then have e: "as_u8 (r sdiv 3600) = h" "as_u8 (r sdiv 60 smod 60) = i" "as_u8 (r smod 60) = s"
    using b 1(2,3) 2(2,3) by (simp_all add: as_u8_eq)
  show "3600 * as_u8 (r sdiv 3600) + 60 * as_u8 (r sdiv 60 smod 60) + as_u8 (r smod 60) = r"
    unfolding e using 1(1) 2(1) by simp
  show "0 \<le> as_u8 (r sdiv 3600) \<and> as_u8 (r sdiv 3600) < 24" "0 \<le> as_u8 (r sdiv 60 smod 60) \<and> as_u8 (r sdiv 60 smod 60) < 60"
    "0 \<le> as_u8 (r smod 60) \<and> as_u8 (r smod 60) < 60"
    unfolding e using b 1(2,3) 2(2,3) by simp_all
qed

lemma floor_of_truncated_shift:
  fixes a b :: int
  assumes "0 < b"
  shows "(if a smod b < 0 then (a smod b + b, a sdiv b - l - 1) else (a smod b, a sdiv b - l)) = (a mod b, a div b - l)"
  using floor_of_truncated(2) [OF assms, of a] by (auto split: if_splits)

lemma date_of_days_eq:
  assumes "- 200000000000000 \<le> a" and "a \<le> 200000000000000"
  obtains z m d where "date_of_days (a - 11017) = Some (z, m, d)" "1 \<le> m" "m \<le> 12" "1 \<le> d" "d \<le> month_length z m"
    "epoch_days z + month_days z m + d - 1 = a"
proof -
  define days where "days = a - 11017"
  have days: "- 200000000011017 \<le> days" "days \<le> 200000000000000" using assms by (simp_all add: days_def)
  obtain n r where 1: "days = 146097 * n + r" "0 \<le> r" "r < 146097" "n = days div 146097" "r = days mod 146097"
    by (rule mod_parts [OF zero_less_numeral])
  note t = truncated_division [of 146097 days, OF zero_less_numeral]
  have i: "as_i32 (days sdiv 146097) = days sdiv 146097" "as_i32 (days smod 146097) = days smod 146097"
    using t(1,2) days by (intro as_i32_eq; linarith)+
  have ns: "365 * 400 + 97 = (146097 :: int)" "365 * 100 + 24 = (36524 :: int)" "365 * 4 + 1 = (1461 :: int)" by simp_all
  define c where "c = (if r sdiv 36524 = 4 then r sdiv 36524 - 1 else r sdiv 36524)"
  define r1 where "r1 = r - c * 36524"
  define q where "q = (if r1 sdiv 1461 = 25 then r1 sdiv 1461 - 1 else r1 sdiv 1461)"
  define r2 where "r2 = r1 - q * 1461"
  define y where "y = (if r2 sdiv 365 = 4 then r2 sdiv 365 - 1 else r2 sdiv 365)"
  define r3 where "r3 = r2 - y * 365"
  note defs = r3_def y_def r2_def q_def r1_def c_def
  have m: "0 \<le> c" "c \<le> 3" "0 \<le> q" "q \<le> 24" "0 \<le> y" "y \<le> 3" "0 \<le> r3" "r3 \<le> 365"
      "r = 36524 * c + 1461 * q + 365 * y + r3" "r3 = 365 \<longrightarrow> y = 3 \<and> (q = 24 \<longrightarrow> c = 3)"
    using march_split [OF 1(2,3)] unfolding defs by blast+
  let ?y = "y + 4 * q + 100 * c + 400 * n"
  have leap: "r3 = 365 \<Longrightarrow> leap_year (2000 + ?y + 1)" using march_leap [of c q n] m by auto
  obtain j d k z where j: "month_loop [31, 30, 31, 30, 31, 31, 30, 31, 30, 31, 31, 29] 0 r3 = Some (j, d)"
    "(if 10 \<le> j then (j - 12, 2000 + ?y + 1) else (j, 2000 + ?y)) = (k - 3, z)" "1 \<le> k" "k \<le> 12" "0 \<le> d" "d + 1 \<le> month_length z k"
    "epoch_days z + month_days z k + d = epoch_days (2000 + ?y) + 59 + of_bool (leap_year (2000 + ?y)) + r3"
    by (rule month_loop_date [OF m(7,8) leap])
  have "month_length z k \<le> 31" by (simp add: month_length_def)
  then have u: "as_u8 (k - 3 + 3) = k" "as_u8 (d + 1) = d + 1" using j(3-6) by (simp_all add: as_u8_eq)
  have w: "(if 10 \<le> j then (j - 12, ?y + 1) else (j, ?y)) = (k - 3, z - 2000)" using j(2) by (auto split: if_splits)
  have "date_of_days days = Some (z - 2000 + 2000, as_u8 (k - 3 + 3), as_u8 (d + 1))"
    unfolding date_of_days_def Let_def ns i floor_of_truncated [OF zero_less_numeral] prod.case 1(4,5) [symmetric]
      c_def [symmetric] r1_def [symmetric] q_def [symmetric] r2_def [symmetric] y_def [symmetric] r3_def [symmetric]
      j(1) bind.bind_lunit w ..
  then have "date_of_days (a - 11017) = Some (z, k, d + 1)" unfolding u by (simp add: days_def)
  moreover have "epoch_days z + month_days z k + (d + 1) - 1 = a"
    using j(7) [unfolded march_day [OF m(1-6)]] m(9) 1(1) unfolding days_def by (simp add: algebra_simps)
  ultimately show ?thesis using that j(3-6) by (metis le_add_same_cancel2)
qed

lemma date_time_from_normal:
  assumes t: "timestamp_normalize t = Some t'" and c: "timestamp_is_canonical t'"
  obtains d where "date_time_from t = Some d" "calendar_date d" "date_seconds d = timestamp_seconds t'" "dt_nanos d = timestamp_nanos t'"
proof -
  define s n where "s = timestamp_seconds t'" and "n = timestamp_nanos t'"
  have s: "- 9223372036854775808 \<le> s" "s \<le> 9223372036854775807"
    using sint_i64_range [of "ts_seconds t'"] by (simp_all add: s_def i64_range_def)
  have n: "0 \<le> n" "n < 1000000000" using c by (simp_all add: n_def timestamp_is_canonical_def NANOS_PER_SECOND_def)
  obtain a sec where 1: "s = 86400 * a + sec" "0 \<le> sec" "sec < 86400" "a = s div 86400" "sec = s mod 86400"
    by (rule mod_parts [OF zero_less_numeral])
  have a: "- 200000000000000 \<le> a" "a \<le> 200000000000000" using 1(1-3) s by linarith+
  note tr = truncated_division [of 86400 s, OF zero_less_numeral]
  have i: "i64_range (s sdiv 86400 - 11017)" using tr(1,2) s unfolding i64_range_def by linarith
  have e: "(946684800 + 86400 * (31 + 29)) sdiv 86400 = (11017 :: int)" by (simp add: sdiv_pos)
  have sm: "as_i32 (s smod 86400) = s smod 86400" using tr(2) by (intro as_i32_eq) linarith+
  obtain z k d where d: "date_of_days (a - 11017) = Some (z, k, d)" "1 \<le> k" "k \<le> 12" "1 \<le> d" "d \<le> month_length z k"
    "epoch_days z + month_days z k + d - 1 = a"
    by (rule date_of_days_eq [OF a])
  define dt where "dt = \<lparr>dt_year = z, dt_month = k, dt_day = d, dt_hour = as_u8 (sec sdiv 3600), dt_minute = as_u8 (sec sdiv 60 smod 60),
    dt_second = as_u8 (sec smod 60), dt_nanos = n\<rparr>"
  have nn: "as_u32 n = n" using n by (intro as_u32_eq) simp_all
  have cal: "calendar_date dt" using d(2-5) time_split [OF 1(2,3)] n by (simp add: calendar_date_def dt_def)
  have "day_seconds dt = sec" using time_split(1) [OF 1(2,3)] by (simp add: day_seconds_def dt_def)
  moreover have "date_days dt = a" using d(6) by (simp add: date_days_def dt_def)
  ultimately have sec: "date_seconds dt = s" using 1(1) by (simp add: date_seconds_def)
  have r: "i64_range s" using s by (simp add: i64_range_def)
  have "date_time_from t = (if calendar_date dt \<and> i64_range (date_seconds dt) then Some dt else None)"
    unfolding date_time_from_def t bind.bind_lunit Let_def s_def [symmetric] n_def [symmetric] e i64_Some [OF i] sm nn
      floor_of_truncated_shift [OF zero_less_numeral] prod.case 1(4,5) [symmetric] d(1) dt_def [symmetric] date_time_is_valid_eq ..
  then show ?thesis using that [of dt] cal sec r by (simp add: s_def n_def dt_def)
qed

lemma calendar_date_unique:
  assumes "calendar_date d" and "calendar_date d'" and "date_seconds d = date_seconds d'" and "dt_nanos d = dt_nanos d'"
  shows "d = d'"
  using date_le_iff [OF assms(1,2)] date_le_iff [OF assms(2,1)] assms(3,4) by (auto intro: antisym simp flip: dt_fields_inject)

lemma timestamp_canonical_unique:
  assumes "timestamp_is_canonical t" and "timestamp_is_canonical t'" and "timestamp_total t = timestamp_total t'"
  shows "t = t'"
proof (rule timestamp_eqI)
  have "s = s' \<and> n = n'" if "0 \<le> n" "n < 1000000000" "0 \<le> n'" "n' < 1000000000" "s * 1000000000 + n = s' * 1000000000 + n'"
    for s s' n n' :: int
  proof -
    have "s = s'" using that by linarith
    then show ?thesis using that(5) by simp
  qed
  then have "timestamp_seconds t = timestamp_seconds t' \<and> timestamp_nanos t = timestamp_nanos t'"
    using assms unfolding timestamp_is_canonical_def timestamp_total_def NANOS_PER_SECOND_def by blast
  then show "timestamp_seconds t = timestamp_seconds t'" "timestamp_nanos t = timestamp_nanos t'" by blast+
qed

lemma timestamp_total_range:
  assumes "timestamp_is_canonical t"
  shows "clamp (- 9223372036854775808 * 1000000000) (9223372036854775807 * 1000000000 + 999999999) (timestamp_total t) = timestamp_total t"
  using assms sint_i64_range [of "ts_seconds t"]
  by (simp add: clamp_def timestamp_total_def timestamp_is_canonical_def NANOS_PER_SECOND_def i64_range_def)

lemma timestamp_normalize_canonical: "timestamp_is_canonical t \<Longrightarrow> timestamp_normalize t = Some t"
  using timestamp_normalize_total [of t] timestamp_total_range [of t] by (metis timestamp_canonical_unique)

end
