(* ===== verification/Time_Operations.thy ===== *)
theory Time_Operations
  imports Calendar_Laws
begin

text \<open>
  The other operations of \<^verbatim>\<open>src/bilrost-types/src/lib.rs\<close> on \<^verbatim>\<open>Duration\<close> and \<^verbatim>\<open>Timestamp\<close>: normalisation, negation and
  the conversions from and to the types of the standard library.
\<close>

section \<open>Durations\<close>

definition new_duration :: "int \<Rightarrow> int \<Rightarrow> duration" where
  "new_duration seconds nanos = \<lparr>dur_seconds = of_int seconds, dur_nanos = of_int nanos\<rparr>"

abbreviation duration_seconds :: "duration \<Rightarrow> int" where "duration_seconds d \<equiv> sint (dur_seconds d)"
abbreviation duration_nanos :: "duration \<Rightarrow> int" where "duration_nanos d \<equiv> sint (dur_nanos d)"

definition duration_neg :: "duration \<Rightarrow> duration option" where
  "duration_neg d = do {
     seconds \<leftarrow> i64 (- duration_seconds d);
     nanos \<leftarrow> i32 (- duration_nanos d);
     Some (new_duration seconds nanos)
   }"

definition duration_is_canonical :: "duration \<Rightarrow> bool" where
  "duration_is_canonical d \<longleftrightarrow> - NANOS_MAX \<le> duration_nanos d \<and> duration_nanos d \<le> NANOS_MAX \<and>
    (if duration_seconds d < 0 then duration_nanos d \<le> 0
     else if 0 < duration_seconds d then 0 \<le> duration_nanos d else True)"

definition duration_normalize :: "duration \<Rightarrow> duration option" where
  "duration_normalize d =
    (let (seconds, nanos) = carry_nanos (- 9223372036854775808, - NANOS_MAX) (9223372036854775807, NANOS_MAX)
         (duration_seconds d) (duration_nanos d)
     in if seconds < 0 \<and> nanos > 0 then
          case i64 (seconds + 1) of
            Some seconds \<Rightarrow> do {
              nanos \<leftarrow> i32 (nanos - NANOS_PER_SECOND);
              Some (new_duration seconds nanos)
            }
          | None \<Rightarrow> if seconds = 9223372036854775807 then Some (new_duration seconds NANOS_MAX) else None
        else if seconds > 0 \<and> nanos < 0 then
          case i64 (seconds - 1) of
            Some seconds \<Rightarrow> do {
              nanos \<leftarrow> i32 (nanos + NANOS_PER_SECOND);
              Some (new_duration seconds nanos)
            }
          | None \<Rightarrow> if seconds = - 9223372036854775808 then Some (new_duration seconds (- NANOS_MAX)) else None
        else Some (new_duration seconds nanos))"

section \<open>Types of the standard library\<close>

text \<open>\<^verbatim>\<open>core::time::Duration\<close>: seconds, an \<^verbatim>\<open>u64\<close>, and nanoseconds below a second.\<close>

record std_duration =
  std_secs :: int
  std_nanos :: int

definition std_duration_ok :: "std_duration \<Rightarrow> bool" where
  "std_duration_ok d \<longleftrightarrow> 0 \<le> std_secs d \<and> std_secs d < 18446744073709551616 \<and> 0 \<le> std_nanos d \<and> std_nanos d < 1000000000"

text \<open>\<^verbatim>\<open>Duration::new\<close> carries nanoseconds beyond a second over, and panics where the seconds overflow.\<close>

definition std_duration_new :: "int \<Rightarrow> int \<Rightarrow> std_duration option" where
  "std_duration_new secs nanos =
    (if secs + nanos div 1000000000 < 18446744073709551616
     then Some \<lparr>std_secs = secs + nanos div 1000000000, std_nanos = nanos mod 1000000000\<rparr> else None)"

datatype duration_error = DurationParseFailure | NegativeDuration std_duration | DurationOutOfRange

definition duration_try_from :: "std_duration \<Rightarrow> (duration, duration_error) result option" where
  "duration_try_from d =
    (if i64_range (std_secs d) then do {
       let seconds = std_secs d;
       let nanos = as_i32 (std_nanos d);
       duration \<leftarrow> duration_normalize (new_duration seconds nanos);
       Some (Ok duration)
     }
     else Some (Err DurationOutOfRange))"

definition std_duration_try_from :: "duration \<Rightarrow> (std_duration, duration_error) result option" where
  "std_duration_try_from d = do {
     duration \<leftarrow> duration_normalize d;
     if duration_seconds duration \<ge> 0 \<and> duration_nanos duration \<ge> 0 then do {
       new \<leftarrow> std_duration_new (take_bit 64 (duration_seconds duration)) (as_u32 (duration_nanos duration));
       Some (Ok new)
     }
     else do {
       seconds \<leftarrow> i64 (- duration_seconds duration);
       nanos \<leftarrow> i32 (- duration_nanos duration);
       new \<leftarrow> std_duration_new (take_bit 64 seconds) (as_u32 nanos);
       Some (Err (NegativeDuration new))
     }
   }"

datatype timestamp_error = OutOfSystemRange timestamp | TimestampParseFailure | InvalidDateTime

text \<open>The argument is the result of \<^verbatim>\<open>duration_since(UNIX_EPOCH)\<close>; \<^verbatim>\<open>unwrap\<close> panics on seconds beyond an \<^verbatim>\<open>i64\<close>.\<close>

definition timestamp_from_system :: "(std_duration, std_duration) result \<Rightarrow> timestamp option" where
  "timestamp_from_system since =
    (case since of
       Ok duration \<Rightarrow> do {
         seconds \<leftarrow> i64 (std_secs duration);
         Some (new_timestamp seconds (as_i32 (std_nanos duration)))
       }
     | Err duration \<Rightarrow> do {
         seconds \<leftarrow> i64 (std_secs duration);
         let nanos = as_i32 (std_nanos duration);
         if nanos = 0 then do { seconds \<leftarrow> i64 (- seconds); Some (new_timestamp seconds 0) }
         else do {
           seconds \<leftarrow> i64 (- seconds);
           seconds \<leftarrow> i64 (seconds - 1);
           nanos \<leftarrow> i32 (1000000000 - nanos);
           Some (new_timestamp seconds nanos)
         }
       })"

text \<open>What a \<^verbatim>\<open>SystemTime\<close> can hold depends on the platform: its two checked operations are parameters.\<close>

definition system_try_from ::
    "('st \<Rightarrow> std_duration \<Rightarrow> 'st option) \<Rightarrow> ('st \<Rightarrow> std_duration \<Rightarrow> 'st option) \<Rightarrow> 'st \<Rightarrow> timestamp \<Rightarrow>
     ('st, timestamp_error) result option" where
  "system_try_from add_to sub_from epoch orig = do {
     t \<leftarrow> timestamp_normalize orig;
     let seconds = timestamp_seconds t;
     let from_secs = (\<lambda>s. \<lparr>std_secs = take_bit 64 s, std_nanos = 0\<rparr>);
     let base =
       (if seconds \<ge> 0 then Ok (add_to epoch (from_secs seconds))
        else case i64 (- seconds) of
            Some seconds \<Rightarrow> Ok (sub_from epoch (from_secs seconds))
          | None \<Rightarrow> Err (OutOfSystemRange t));
     Some (case base of
         Err e \<Rightarrow> Err e
       | Ok base \<Rightarrow>
           (case base \<bind> (\<lambda>st. add_to st \<lparr>std_secs = 0, std_nanos = take_bit 64 (timestamp_nanos t)\<rparr>) of
              Some st \<Rightarrow> Ok st
            | None \<Rightarrow> Err (OutOfSystemRange orig)))
   }"

section \<open>Dates\<close>

definition timestamp_date_time_nanos ::
    "int \<Rightarrow> int \<Rightarrow> int \<Rightarrow> int \<Rightarrow> int \<Rightarrow> int \<Rightarrow> int \<Rightarrow> (timestamp, timestamp_error) result option" where
  "timestamp_date_time_nanos year month day hour minute second nanos = do {
     t \<leftarrow> timestamp_try_from \<lparr>dt_year = year, dt_month = month, dt_day = day, dt_hour = hour, dt_minute = minute,
       dt_second = second, dt_nanos = nanos\<rparr>;
     Some (case t of Some t \<Rightarrow> Ok t | None \<Rightarrow> Err InvalidDateTime)
   }"

definition timestamp_date_time :: "int \<Rightarrow> int \<Rightarrow> int \<Rightarrow> int \<Rightarrow> int \<Rightarrow> int \<Rightarrow> (timestamp, timestamp_error) result option" where
  "timestamp_date_time year month day hour minute second = timestamp_date_time_nanos year month day hour minute second 0"

definition timestamp_date :: "int \<Rightarrow> int \<Rightarrow> int \<Rightarrow> (timestamp, timestamp_error) result option" where
  "timestamp_date year month day = timestamp_date_time_nanos year month day 0 0 0 0"

section \<open>Laws\<close>

definition duration_total :: "duration \<Rightarrow> int" where
  "duration_total d = duration_seconds d * 1000000000 + duration_nanos d"

lemma new_duration_simps [simp]:
  "i64_range s \<Longrightarrow> duration_seconds (new_duration s n) = s"
  "- 2147483648 \<le> n \<Longrightarrow> n \<le> 2147483647 \<Longrightarrow> duration_nanos (new_duration s n) = n"
  by (simp_all add: new_duration_def sint_of_int_i64 sint_of_int_i32)

lemma new_duration_eq: "new_duration (duration_seconds d) (duration_nanos d) = d"
  by (cases d) (simp add: new_duration_def)

lemma duration_eqI:
  "duration_seconds d = duration_seconds d' \<Longrightarrow> duration_nanos d = duration_nanos d' \<Longrightarrow> d = d'"
  by (cases d; cases d') (simp add: signed_word_eqI)

lemma duration_normalize_total:
  "\<exists>d'. duration_normalize d = Some d' \<and> duration_is_canonical d' \<and>
     duration_total d' = clamp (- 9223372036854775808 * 1000000000 - 999999999) (9223372036854775807 * 1000000000 + 999999999) (duration_total d)"
proof -
  note defs = duration_normalize_def NANOS_PER_SECOND_def NANOS_MAX_def duration_is_canonical_def duration_total_def clamp_def i64_def
  show ?thesis
    using sint_i64_range [of "dur_seconds d"]
  proof (cases rule: carry_nanos_cases [where least = "(- 9223372036854775808, - NANOS_MAX)" and greatest = "(9223372036854775807, NANOS_MAX)"
      and n = "duration_nanos d"])
    case (exact s' n')
    consider "s' < 0" "n' > 0" "i64_range (s' + 1)" | "s' > 0" "n' < 0" "i64_range (s' - 1)" | "\<not> (s' < 0 \<and> n' > 0)" "\<not> (s' > 0 \<and> n' < 0)"
      using exact(2) by (force simp: i64_range_def)
    then show ?thesis using exact by cases (auto simp: defs i64_range_def)
  next
    case low
    then show ?thesis by (simp add: defs i64_range_def)
  next
    case high
    then show ?thesis by (simp add: defs i64_range_def)
  qed
qed

lemma duration_canonical_unique:
  assumes "duration_is_canonical d" and "duration_is_canonical d'" and "duration_total d = duration_total d'"
  shows "d = d'"
proof (rule duration_eqI)
  have *: "s = s' \<and> n = n'" if "- 999999999 \<le> n" "n \<le> 999999999" "- 999999999 \<le> n'" "n' \<le> 999999999"
      "if s < 0 then n \<le> 0 else if 0 < s then 0 \<le> n else True" "if s' < 0 then n' \<le> 0 else if 0 < s' then 0 \<le> n' else True"
      "s * 1000000000 + n = s' * 1000000000 + n'"
    for s s' n n' :: int
  proof -
    have "s = s'" using that by (auto split: if_splits)
    then show ?thesis using that(7) by simp
  qed
  have "duration_seconds d = duration_seconds d' \<and> duration_nanos d = duration_nanos d'"
    by (rule *) (use assms in \<open>simp_all only: duration_is_canonical_def duration_total_def NANOS_PER_SECOND_def NANOS_MAX_def, simp_all\<close>)
  then show "duration_seconds d = duration_seconds d'" "duration_nanos d = duration_nanos d'" by blast+
qed

lemma duration_total_range:
  assumes "duration_is_canonical d"
  shows "clamp (- 9223372036854775808 * 1000000000 - 999999999) (9223372036854775807 * 1000000000 + 999999999) (duration_total d) = duration_total d"
  using assms sint_i64_range [of "dur_seconds d"]
  by (simp add: clamp_def duration_total_def duration_is_canonical_def NANOS_PER_SECOND_def NANOS_MAX_def i64_range_def)

lemma duration_normalize_canonical: "duration_is_canonical d \<Longrightarrow> duration_normalize d = Some d"
  using duration_normalize_total [of d] duration_total_range [of d] by (metis duration_canonical_unique)

end
