(* ===== verification/Time_Text.thy ===== *)
theory Time_Text
  imports Time_Operations "HOL-Library.Char_ord"
begin

text \<open>
  Timestamps and durations as text: the \<^verbatim>\<open>Display\<close> implementations and the parsers of
  \<^verbatim>\<open>src/bilrost-types/src/datetime.rs\<close> and \<^verbatim>\<open>src/bilrost-types/src/lib.rs\<close>. A string is the list of its bytes. The parsers
  take off what they read and return the rest; their panics are explicit.
\<close>

section \<open>Decimal numbers\<close>

definition digit_char :: "nat \<Rightarrow> char" where
  "digit_char n = char_of (48 + n)"

definition is_digit :: "char \<Rightarrow> bool" where
  "is_digit c \<longleftrightarrow> 48 \<le> (of_char c :: nat) \<and> (of_char c :: nat) \<le> 57"

definition digit_value :: "char \<Rightarrow> nat" where
  "digit_value c = of_char c - 48"

text \<open>What \<^verbatim>\<open>{}\<close> writes, and \<^verbatim>\<open>{:0w}\<close> for a width \<open>w\<close>.\<close>

fun dec :: "nat \<Rightarrow> string" where
  "dec n = (if n < 10 then [digit_char n] else dec (n div 10) @ [digit_char (n mod 10)])"

declare dec.simps [simp del]

definition pad :: "nat \<Rightarrow> nat \<Rightarrow> string" where
  "pad w n = replicate (w - length (dec n)) (digit_char 0) @ dec n"

definition number_value :: "string \<Rightarrow> nat" where
  "number_value s = foldl (\<lambda>n c. 10 * n + digit_value c) 0 s"

text \<open>\<^verbatim>\<open>str::parse\<close> of an integer type with a greatest value, on strings without a sign.\<close>

definition parse_number :: "int \<Rightarrow> string \<Rightarrow> int option" where
  "parse_number greatest s =
    (if s \<noteq> [] \<and> list_all is_digit s \<and> int (number_value s) \<le> greatest then Some (int (number_value s)) else None)"

section \<open>Display\<close>

definition display_nanos :: "int \<Rightarrow> string" where
  "display_nanos nanos =
    (if nanos = 0 then ''''
     else if nanos mod 1000000 = 0 then ''.'' @ pad 3 (nat (nanos div 1000000))
     else if nanos mod 1000 = 0 then ''.'' @ pad 6 (nat (nanos div 1000))
     else ''.'' @ pad 9 (nat nanos))"

definition display_year :: "int \<Rightarrow> string" where
  "display_year year =
    (if year > 9999 then ''+'' @ dec (nat year)
     else if year < 0 then ''-'' @ pad 4 (nat (- year))
     else pad 4 (nat year))"

definition display_date_time :: "date_time \<Rightarrow> string" where
  "display_date_time d =
    display_year (dt_year d) @ ''-'' @ pad 2 (nat (dt_month d)) @ ''-'' @ pad 2 (nat (dt_day d)) @ ''T'' @ pad 2 (nat (dt_hour d)) @
    '':'' @ pad 2 (nat (dt_minute d)) @ '':'' @ pad 2 (nat (dt_second d)) @ display_nanos (dt_nanos d) @ ''Z''"

definition display_timestamp :: "timestamp \<Rightarrow> string option" where
  "display_timestamp t = do { d \<leftarrow> date_time_from t; Some (display_date_time d) }"

definition display_duration :: "duration \<Rightarrow> string option" where
  "display_duration self = do {
     d \<leftarrow> duration_normalize self;
     let sign = (if duration_seconds self < 0 \<or> duration_nanos self < 0 then ''-'' else '''');
     seconds \<leftarrow> i64 \<bar>duration_seconds d\<bar>;
     Some (sign @ dec (nat seconds) @ display_nanos \<bar>duration_nanos d\<bar> @ ''s'')
   }"

section \<open>Parsers\<close>

text \<open>
  A parser answers \<open>None\<close> where the code panics, \<open>Some None\<close> where it returns \<^verbatim>\<open>None\<close>; \<open>pbind\<close> is the \<^verbatim>\<open>?\<close> operator, the
  \<^theory_text>\<open>do\<close> blocks propagate panics. What can panic: \<^verbatim>\<open>split_at\<close> and slicing beyond the end of a string or inside
  of a character, an index beyond the end, arithmetic that overflows, and \<^verbatim>\<open>debug_assert!(s.is_ascii())\<close>.
\<close>

type_synonym 'a parsed = "'a option option"

definition pbind :: "'a parsed \<Rightarrow> ('a \<Rightarrow> 'b parsed) \<Rightarrow> 'b parsed" where
  "pbind x f = (case x of None \<Rightarrow> None | Some None \<Rightarrow> Some None | Some (Some y) \<Rightarrow> f y)"

definition u32_checked :: "int \<Rightarrow> int option" where
  "u32_checked x = (if 0 \<le> x \<and> x \<le> 4294967295 then Some x else None)"

definition i8_checked :: "int \<Rightarrow> int option" where
  "i8_checked x = (if - 128 \<le> x \<and> x \<le> 127 then Some x else None)"

abbreviation as_i8 :: "int \<Rightarrow> int" where "as_i8 \<equiv> signed_take_bit 7"

definition char_boundary :: "string \<Rightarrow> nat \<Rightarrow> bool" where
  "char_boundary s n \<longleftrightarrow>
    n = 0 \<or> n = length s \<or> (n < length s \<and> \<not> (128 \<le> (of_char (s ! n) :: nat) \<and> (of_char (s ! n) :: nat) < 192))"

definition split_at :: "string \<Rightarrow> nat \<Rightarrow> (string \<times> string) option" where
  "split_at s n = (if char_boundary s n then Some (take n s, drop n s) else None)"

definition slice_from :: "string \<Rightarrow> nat \<Rightarrow> string option" where
  "slice_from s n = (if char_boundary s n then Some (drop n s) else None)"

definition byte_at :: "string \<Rightarrow> nat \<Rightarrow> char option" where
  "byte_at s n = (if n < length s then Some (s ! n) else None)"

definition is_ascii :: "string \<Rightarrow> bool" where
  "is_ascii s = list_all (\<lambda>c. (of_char c :: nat) < 128) s"

definition parse_digits :: "string \<Rightarrow> (string \<times> string) option" where
  "parse_digits s = (if \<not> is_ascii s then None else split_at s (length (takeWhile is_digit s)))"

definition parse_char :: "string \<Rightarrow> char \<Rightarrow> string parsed" where
  "parse_char s c =
    (if \<not> is_ascii s then None
     else case s of
         [] \<Rightarrow> Some None
       | b # _ \<Rightarrow> if b = c then do { s \<leftarrow> slice_from s 1; Some (Some s) } else Some None)"

definition ascii_upper :: "char \<Rightarrow> char" where
  "ascii_upper c = (if 97 \<le> (of_char c :: nat) \<and> (of_char c :: nat) \<le> 122 then char_of (of_char c - 32 :: nat) else c)"

definition parse_char_ignore_case :: "string \<Rightarrow> char \<Rightarrow> string parsed" where
  "parse_char_ignore_case s c =
    (if \<not> is_ascii s then None
     else case s of
         [] \<Rightarrow> Some None
       | b # _ \<Rightarrow> if ascii_upper b = ascii_upper c then do { s \<leftarrow> slice_from s 1; Some (Some s) } else Some None)"

definition parse_two_digit_numeric :: "string \<Rightarrow> (int \<times> string) parsed" where
  "parse_two_digit_numeric s =
    (if \<not> is_ascii s then None
     else if length s < 2 then Some None
     else if s \<noteq> [] \<and> hd s = CHR ''+'' then Some None
     else do {
       (digits, s) \<leftarrow> split_at s 2;
       Some (do { n \<leftarrow> parse_number 255 digits; Some (n, s) })
     })"

definition parse_date :: "string \<Rightarrow> (int \<times> int \<times> int \<times> string) parsed" where
  "parse_date s =
    (if \<not> is_ascii s then None
     else if length s < 10 then Some None
     else do {
       sign \<leftarrow> byte_at s 0;
       pbind
         (if sign = CHR ''+'' then do {
            s \<leftarrow> slice_from s 1;
            (digits, s) \<leftarrow> parse_digits s;
            if length digits < 5 then Some None
            else pbind (Some (parse_number 9223372036854775807 digits)) (\<lambda>date. Some (Some (date, s)))
          } else if sign = CHR ''-'' then do {
            s \<leftarrow> slice_from s 1;
            (digits, s) \<leftarrow> parse_digits s;
            if length digits < 4 then Some None
            else pbind (Some (parse_number 9223372036854775807 digits)) (\<lambda>date. do { year \<leftarrow> i64 (- date); Some (Some (year, s)) })
          } else
            pbind (parse_two_digit_numeric s) (\<lambda>(n1, s).
            pbind (parse_two_digit_numeric s) (\<lambda>(n2, s).
            do { year \<leftarrow> i64 (n1 * 100 + n2); Some (Some (year, s)) })))
         (\<lambda>(year, s).
            pbind (parse_char s CHR ''-'') (\<lambda>s.
            pbind (parse_two_digit_numeric s) (\<lambda>(month, s).
            pbind (parse_char s CHR ''-'') (\<lambda>s.
            pbind (parse_two_digit_numeric s) (\<lambda>(day, s).
            Some (Some (year, month, day, s)))))))
     })"

definition parse_nanos :: "string \<Rightarrow> (int \<times> string) parsed" where
  "parse_nanos s =
    (if \<not> is_ascii s then None
     else do {
       after_point \<leftarrow> parse_char s CHR ''.'';
       (case after_point of
          Some s \<Rightarrow> do {
            (digits, s) \<leftarrow> parse_digits s;
            digits \<leftarrow> (if length digits > 9 then do { (digits, _) \<leftarrow> split_at digits 9; Some digits } else Some digits);
            zeros \<leftarrow> u32_checked (9 - as_u32 (int (length digits)));
            factor \<leftarrow> u32_checked (10 ^ nat zeros);
            pbind (Some (parse_number 4294967295 digits)) (\<lambda>n. do { nanos \<leftarrow> u32_checked (factor * n); Some (Some (nanos, s)) })
          }
        | None \<Rightarrow> Some (Some (0, s)))
     })"

definition parse_time :: "string \<Rightarrow> (int \<times> int \<times> int \<times> int \<times> string) parsed" where
  "parse_time s =
    (if \<not> is_ascii s then None
     else
       pbind (parse_two_digit_numeric s) (\<lambda>(hour, s).
       pbind (parse_char s CHR '':'') (\<lambda>s.
       pbind (parse_two_digit_numeric s) (\<lambda>(minute, s).
       pbind (parse_char s CHR '':'') (\<lambda>s.
       pbind (parse_two_digit_numeric s) (\<lambda>(second, s).
       pbind (parse_nanos s) (\<lambda>(nanos, s).
       Some (Some (hour, minute, second, nanos, s)))))))))"

definition unwrap_or :: "'a option \<Rightarrow> 'a \<Rightarrow> 'a" where
  "unwrap_or x y = (case x of Some z \<Rightarrow> z | None \<Rightarrow> y)"

definition parse_offset :: "string \<Rightarrow> (int \<times> int \<times> string) parsed" where
  "parse_offset s =
    (if \<not> is_ascii s then None
     else if s = [] then Some (Some (0, 0, s))
     else do {
       after_space \<leftarrow> parse_char s CHR '' '';
       let s = unwrap_or after_space s;
       after_zone \<leftarrow> parse_char_ignore_case s CHR ''Z'';
       (case after_zone of
          Some s \<Rightarrow> Some (Some (0, 0, s))
        | None \<Rightarrow> do {
            after_plus \<leftarrow> parse_char s CHR ''+'';
            pbind (case after_plus of
                Some s \<Rightarrow> Some (Some (True, s))
              | None \<Rightarrow> pbind (parse_char s CHR ''-'') (\<lambda>s. Some (Some (False, s)))) (\<lambda>(is_positive, s).
            pbind (parse_two_digit_numeric s) (\<lambda>(hour, s).
            pbind (if s = [] then Some (Some (0, s))
              else do {
                after_colon \<leftarrow> parse_char s CHR '':'';
                pbind (parse_two_digit_numeric (unwrap_or after_colon s)) (\<lambda>(minute, s). Some (Some (minute, s)))
              }) (\<lambda>(minute, s).
            if \<not> (hour < 24 \<and> minute < 60) then Some None
            else
              let hour = as_i8 hour; minute = as_i8 minute
              in if is_positive then Some (Some (hour, minute, s))
                 else do { hour \<leftarrow> i8_checked (- hour); minute \<leftarrow> i8_checked (- minute); Some (Some (hour, minute, s)) })))
          })
     })"

text \<open>What follows the date of a timestamp: the delimiter, the time, and the offset up to the end.\<close>

definition parse_time_offset :: "string \<Rightarrow> (int \<times> int \<times> int \<times> int \<times> int \<times> int) parsed" where
  "parse_time_offset s = do {
     after_delimiter \<leftarrow> parse_char_ignore_case s CHR ''T'';
     pbind (case after_delimiter of Some s \<Rightarrow> Some (Some s) | None \<Rightarrow> parse_char s CHR '' '') (\<lambda>s.
     pbind (parse_time s) (\<lambda>(hour, minute, second, nanos, s).
     pbind (parse_offset s) (\<lambda>(offset_hour, offset_minute, s).
     Some (if s = [] then Some (hour, minute, if second = 60 then 59 else second, nanos, offset_hour, offset_minute) else None))))
   }"

definition subtract_offset :: "int \<Rightarrow> timestamp \<Rightarrow> timestamp option" where
  "subtract_offset offset t = do {
     seconds \<leftarrow> i64 (timestamp_seconds t - offset);
     Some (new_timestamp seconds (timestamp_nanos t))
   }"

definition parse_timestamp :: "string \<Rightarrow> timestamp parsed" where
  "parse_timestamp s =
    (if \<not> is_ascii s then Some None
     else pbind (parse_date s) (\<lambda>(year, month, day, s).
       if s = [] then
         timestamp_try_from \<lparr>dt_year = year, dt_month = month, dt_day = day, dt_hour = 0, dt_minute = 0, dt_second = 0, dt_nanos = 0\<rparr>
       else pbind (parse_time_offset s) (\<lambda>(hour, minute, second, nanos, offset_hour, offset_minute). do {
         t \<leftarrow> timestamp_try_from \<lparr>dt_year = year, dt_month = month, dt_day = day, dt_hour = hour, dt_minute = minute,
           dt_second = second, dt_nanos = nanos\<rparr>;
         Some (Option.bind t (subtract_offset (offset_hour * 3600 + offset_minute * 60)))
       })))"

definition parse_duration :: "string \<Rightarrow> duration parsed" where
  "parse_duration s =
    (if \<not> is_ascii s then Some None
     else do {
       after_minus \<leftarrow> parse_char s CHR ''-'';
       let (is_negative, s) = (case after_minus of Some s \<Rightarrow> (True, s) | None \<Rightarrow> (False, s));
       (digits, s) \<leftarrow> parse_digits s;
       pbind (Some (parse_number 9223372036854775807 digits)) (\<lambda>seconds.
       pbind (parse_nanos s) (\<lambda>(nanos, s).
       pbind (parse_char s CHR ''s'') (\<lambda>s.
       if \<not> (s = [] \<and> nanos < NANOS_PER_SECOND) then Some None
       else do {
         (seconds, nanos) \<leftarrow>
           (if is_negative then do { seconds \<leftarrow> i64 (- seconds); nanos \<leftarrow> i32 (- as_i32 nanos); Some (seconds, nanos) }
            else Some (seconds, as_i32 nanos));
         Some (Some (new_duration seconds nanos))
       })))
     })"

definition timestamp_from_str :: "string \<Rightarrow> (timestamp, timestamp_error) result option" where
  "timestamp_from_str s = do { t \<leftarrow> parse_timestamp s; Some (case t of Some t \<Rightarrow> Ok t | None \<Rightarrow> Err TimestampParseFailure) }"

definition duration_from_str :: "string \<Rightarrow> (duration, duration_error) result option" where
  "duration_from_str s = do { d \<leftarrow> parse_duration s; Some (case d of Some d \<Rightarrow> Ok d | None \<Rightarrow> Err DurationParseFailure) }"

end
