(* ===== verification/Time_Text_Laws.thy ===== *)
theory Time_Text_Laws
  imports Time_Text
begin

text \<open>What is displayed is parsed again.\<close>

section \<open>Digits\<close>

lemma digit_char_simps:
  assumes "n < 10"
  shows "is_digit (digit_char n)" "digit_value (digit_char n) = n" "(of_char (digit_char n) :: nat) < 128"
  using assms by (simp_all add: digit_char_def is_digit_def digit_value_def)

lemma number_value_snoc: "number_value (s @ [c]) = 10 * number_value s + digit_value c"
  by (simp add: number_value_def)

lemma dec_laws: "dec n \<noteq> [] \<and> list_all is_digit (dec n) \<and> number_value (dec n) = n"
proof (induction n rule: dec.induct)
  case (1 n)
  then show ?case
    by (subst (1 2 3) dec.simps) (auto simp: digit_char_simps number_value_snoc number_value_def)
qed

lemma length_dec: "0 < w \<Longrightarrow> length (dec n) \<le> w \<longleftrightarrow> n < 10 ^ w"
proof (induction n arbitrary: w rule: dec.induct)
  case (1 n)
  show ?case
  proof (cases "n < 10")
    case True
    moreover have "10 ^ 1 \<le> (10 :: nat) ^ w" using 1(2) by (intro power_increasing) simp_all
    ultimately show ?thesis using 1(2) by (subst dec.simps) auto
  next
    case False
    then obtain v where w: "w = Suc v" using 1(2) by (cases w) auto
    have "length (dec n) = Suc (length (dec (n div 10)))" using False by (subst dec.simps) simp
    moreover have "length (dec (n div 10)) \<le> v \<longleftrightarrow> n div 10 < 10 ^ v" if "0 < v" using 1(1) [OF False that] .
    moreover have "dec (n div 10) \<noteq> []" using dec_laws by blast
    ultimately show ?thesis using False w by (cases "v = 0") (auto simp: div_less_iff_less_mult mult.commute)
  qed
qed

lemma pad_laws:
  "list_all is_digit (pad w n)" "number_value (pad w n) = n" "pad w n \<noteq> []" "w \<le> length (pad w n)"
  "0 < w \<Longrightarrow> n < 10 ^ w \<Longrightarrow> length (pad w n) = w"
proof -
  have z: "number_value (replicate k (digit_char 0) @ s) = number_value s" for k s
    by (induction k) (simp_all add: number_value_def digit_char_simps)
  show "list_all is_digit (pad w n)" "number_value (pad w n) = n" "pad w n \<noteq> []"
    using dec_laws [of n] by (auto simp: pad_def z list_all_iff digit_char_simps)
  show "w \<le> length (pad w n)" "0 < w \<Longrightarrow> n < 10 ^ w \<Longrightarrow> length (pad w n) = w"
    using length_dec [of w n] by (auto simp: pad_def)
qed

lemma is_ascii_simps [simp]: "is_ascii []" "is_ascii (c # s) \<longleftrightarrow> (of_char c :: nat) < 128 \<and> is_ascii s"
  by (simp_all add: is_ascii_def)

lemma is_ascii_append [simp]: "is_ascii (s @ t) \<longleftrightarrow> is_ascii s \<and> is_ascii t"
  by (simp add: is_ascii_def)

lemma is_ascii_digits: "list_all is_digit s \<Longrightarrow> is_ascii s"
  by (auto simp: is_ascii_def is_digit_def list_all_iff)

lemma is_ascii_numbers [simp]: "is_ascii (dec n)" "is_ascii (pad w n)"
  using dec_laws [of n] pad_laws(1) [of w n] by (simp_all add: is_ascii_digits)

lemma is_ascii_parts: "is_ascii s \<Longrightarrow> is_ascii (take n s)" "is_ascii s \<Longrightarrow> is_ascii (drop n s)"
  by (auto simp: is_ascii_def list_all_iff dest: in_set_takeD in_set_dropD)

section \<open>Text without panics\<close>

lemma ascii_boundary: "is_ascii s \<Longrightarrow> char_boundary s n \<longleftrightarrow> n \<le> length s"
  by (auto simp: char_boundary_def is_ascii_def list_all_length dest!: spec [of _ n])

lemma ascii_slices:
  "is_ascii s \<Longrightarrow> n \<le> length s \<Longrightarrow> split_at s n = Some (take n s, drop n s)"
  "is_ascii s \<Longrightarrow> n \<le> length s \<Longrightarrow> slice_from s n = Some (drop n s)"
  by (simp_all add: split_at_def slice_from_def ascii_boundary)

lemma pbind_simps [simp]: "pbind None f = None" "pbind (Some None) f = Some None" "pbind (Some (Some x)) f = f x"
  by (simp_all add: pbind_def)

lemma parse_digits_ascii: "is_ascii s \<Longrightarrow> parse_digits s = Some (takeWhile is_digit s, dropWhile is_digit s)"
  by (simp add: parse_digits_def ascii_slices(1) length_takeWhile_le takeWhile_eq_take [symmetric] dropWhile_eq_drop [symmetric])

lemma parse_digits_eq:
  assumes "list_all is_digit ds" and "\<not> is_digit c" and "is_ascii (c # s)"
  shows "parse_digits (ds @ c # s) = Some (ds, c # s)"
proof -
  have "takeWhile is_digit (ds @ c # s) = ds" "dropWhile is_digit (ds @ c # s) = c # s"
    using assms(1,2) by (induction ds) auto
  then show ?thesis using assms(3) is_ascii_digits [OF assms(1)] parse_digits_ascii [of "ds @ c # s"] by simp
qed

lemma parse_char_ascii:
  "is_ascii s \<Longrightarrow> parse_char s c = Some (case s of [] \<Rightarrow> None | b # r \<Rightarrow> if b = c then Some r else None)"
  by (auto simp: parse_char_def ascii_slices split: list.split)

lemma parse_char_Cons [simp]:
  "is_ascii (b # s) \<Longrightarrow> parse_char (b # s) c = Some (if b = c then Some s else None)" "parse_char [] c = Some None"
  by (simp_all add: parse_char_ascii del: is_ascii_simps(2))

lemma parse_char_ignore_case_ascii:
  "is_ascii s \<Longrightarrow> parse_char_ignore_case s c =
     Some (case s of [] \<Rightarrow> None | b # r \<Rightarrow> if ascii_upper b = ascii_upper c then Some r else None)"
  by (auto simp: parse_char_ignore_case_def ascii_slices split: list.split)

lemma hd_digit_neq: "list_all is_digit s \<Longrightarrow> s \<noteq> [] \<Longrightarrow> \<not> is_digit c \<Longrightarrow> hd (s @ t) \<noteq> c"
  by (cases s) auto

lemma not_digits [simp]:
  "\<not> is_digit CHR ''+''" "\<not> is_digit CHR ''-''" "\<not> is_digit CHR ''Z''" "\<not> is_digit CHR ''s''" "\<not> is_digit CHR ''.''"
  "\<not> is_digit CHR '':''" "\<not> is_digit CHR ''T''"
  by (simp_all add: is_digit_def)

lemma number_value_append: "number_value (s @ t) = number_value s * 10 ^ length t + number_value t"
proof (induction t rule: rev_induct)
  case (snoc c t)
  show ?case unfolding append_assoc [symmetric] number_value_snoc snoc by (simp add: algebra_simps)
qed (simp add: number_value_def)

lemma digit_value_less: "is_digit c \<Longrightarrow> digit_value c < 10"
  unfolding is_digit_def digit_value_def by linarith

lemma number_value_less: "list_all is_digit s \<Longrightarrow> number_value s < 10 ^ length s"
proof (induction s rule: rev_induct)
  case (snoc c s)
  then have "number_value s < 10 ^ length s" "digit_value c < 10" by (simp_all add: digit_value_less)
  then show ?case by (simp add: number_value_snoc)
qed (simp add: number_value_def)

lemma parse_two_digits_list:
  assumes "list_all is_digit ds" and "length ds = 2" and "is_ascii s"
  shows "parse_two_digit_numeric (ds @ s) = Some (Some (int (number_value ds), s))"
proof -
  have "ds \<noteq> []" using assms(2) by auto
  moreover from this have "hd (ds @ s) \<noteq> CHR ''+''" using assms(1) by (intro hd_digit_neq) simp_all
  ultimately show ?thesis
    using assms number_value_less [OF assms(1)] is_ascii_digits [OF assms(1)]
    by (simp add: parse_two_digit_numeric_def parse_number_def ascii_slices)
qed

lemma parse_two_digits: "n < 100 \<Longrightarrow> is_ascii s \<Longrightarrow> parse_two_digit_numeric (pad 2 n @ s) = Some (Some (int n, s))"
  using parse_two_digits_list [OF pad_laws(1), of 2 n] pad_laws(2,5) [of 2 n] by simp

lemma parse_four_digits:
  assumes "n < 10000" and "is_ascii s"
  shows "\<exists>a b. parse_two_digit_numeric (pad 4 n @ s) = Some (Some (a, b)) \<and>
    (\<exists>c. parse_two_digit_numeric b = Some (Some (c, s)) \<and> a * 100 + c = int n)"
proof -
  let ?a = "take 2 (pad 4 n)" and ?b = "drop 2 (pad 4 n)"
  have l: "length (pad 4 n) = 4" using assms by (intro pad_laws(5)) simp_all
  have d: "list_all is_digit ?a" "list_all is_digit ?b"
    using pad_laws(1) [of 4 n] by (auto simp: list_all_iff dest: in_set_takeD in_set_dropD)
  have "number_value ?a * 100 + number_value ?b = n"
    using number_value_append [of ?a ?b] pad_laws(2) [of 4 n] l by simp
  moreover have "parse_two_digit_numeric (?a @ ?b @ s) = Some (Some (int (number_value ?a), ?b @ s))"
    using d l assms(2) by (intro parse_two_digits_list) (simp_all add: is_ascii_parts)
  moreover have "parse_two_digit_numeric (?b @ s) = Some (Some (int (number_value ?b), s))"
    using d l assms(2) by (intro parse_two_digits_list) simp_all
  ultimately show ?thesis by (metis append_assoc append_take_drop_id of_nat_add of_nat_mult of_nat_numeral)
qed

lemma display_nanos_cases:
  assumes "0 \<le> n" and "n < 1000000000"
  obtains (zero) "n = 0" "display_nanos n = ''''"
  | (some) w m where "display_nanos n = ''.'' @ pad w m" "0 < w" "w \<le> 9" "m < 10 ^ w" "n = 10 ^ (9 - w) * int m"
proof -
  consider "n = 0" | "n \<noteq> 0" "n mod 1000000 = 0" | "n \<noteq> 0" "n mod 1000000 \<noteq> 0" "n mod 1000 = 0"
    | "n \<noteq> 0" "n mod 1000000 \<noteq> 0" "n mod 1000 \<noteq> 0" by blast
  then show ?thesis
  proof cases
    case 1
    then show ?thesis by (simp add: zero display_nanos_def)
  next
    case 2
    then have "n = 1000000 * (n div 1000000)" by (metis add.right_neutral mult_div_mod_eq)
    moreover from this have "n div 1000000 < 1000" "0 \<le> n div 1000000" using assms by linarith+
    ultimately show ?thesis using 2 by (intro some [of 3 "nat (n div 1000000)"]) (simp_all add: display_nanos_def)
  next
    case 3
    then have "n = 1000 * (n div 1000)" by (metis add.right_neutral mult_div_mod_eq)
    moreover from this have "n div 1000 < 1000000" "0 \<le> n div 1000" using assms by linarith+
    ultimately show ?thesis using 3 by (intro some [of 6 "nat (n div 1000)"]) (simp_all add: display_nanos_def)
  next
    case 4
    then show ?thesis using assms by (intro some [of 9 "nat n"]) (simp_all add: display_nanos_def)
  qed
qed

lemma parse_nanos_display:
  assumes "0 \<le> n" and "n < 1000000000" and c: "\<not> is_digit c" "c \<noteq> CHR ''.''" "is_ascii (c # s)"
  shows "parse_nanos (display_nanos n @ c # s) = Some (Some (n, c # s))"
  using assms(1,2)
proof (cases rule: display_nanos_cases)
  case zero
  then show ?thesis using c by (simp add: parse_nanos_def)
next
  case (some w m)
  have "(10 :: nat) ^ w \<le> 10 ^ 9" using some(3) by (intro power_increasing) simp_all
  then have "parse_number 4294967295 (pad w m) = Some (int m)"
    using pad_laws [of w m] some(4) by (simp add: parse_number_def)
  moreover have "length (pad w m) = w" using some(2,4) by (rule pad_laws(5))
  moreover have "u32_checked (9 - as_u32 (int w)) = Some (9 - int w)" "nat (9 - int w) = 9 - w"
    using some(3) by (simp_all add: u32_checked_def as_u32_eq)
  moreover have "(10 :: int) ^ (9 - w) \<le> 10 ^ 9" by (intro power_increasing) simp_all
  then have "u32_checked (10 ^ (9 - w)) = Some (10 ^ (9 - w))" by (simp add: u32_checked_def)
  moreover have "u32_checked (10 ^ (9 - w) * int m) = Some n" using assms(1,2) some(5) by (simp add: u32_checked_def)
  ultimately show ?thesis
    using some(3) c parse_digits_eq [OF pad_laws(1) c(1,3), of w m]
    by (simp add: some(1) parse_nanos_def)
qed

lemma display_nanos_ascii [simp]: "is_ascii (display_nanos n)"
  by (simp add: display_nanos_def)

section \<open>Dates and times\<close>

lemma length_display_year: "4 \<le> length (display_year y)"
  using pad_laws(4) [of 4 "nat y"] pad_laws(4) [of 4 "nat (- y)"] length_dec [of 4 "nat y"]
  by (simp add: display_year_def) linarith

lemma parse_date_display:
  assumes "- 9223372036854775807 \<le> y" and "y \<le> 9223372036854775807" and "m < 100" and "d < 100" and a: "is_ascii s"
  shows "parse_date (display_year y @ CHR ''-'' # pad 2 m @ CHR ''-'' # pad 2 d @ s) = Some (Some (y, int m, int d, s))"
proof -
  let ?s = "CHR ''-'' # pad 2 m @ CHR ''-'' # pad 2 d @ s"
  have l: "\<not> length (display_year y @ ?s) < 10"
    using length_display_year [of y] pad_laws(5) [of 2 m] pad_laws(5) [of 2 d] assms(3,4) by simp
  note rest = parse_two_digits [OF assms(3)] parse_two_digits [OF assms(4) a]
  have first: "byte_at (x @ ?s) 0 = Some (hd x)" if "x \<noteq> []" for x
    using that by (cases x) (simp_all add: byte_at_def)
  have tail: "slice_from (c # x @ ?s) 1 = Some (x @ ?s)" if "is_ascii (c # x)" for c x
    using that a ascii_slices(2) [of "c # x @ ?s" 1] by simp
  consider "y > 9999" | "y < 0" | "0 \<le> y" "y \<le> 9999" by linarith
  then show ?thesis
  proof cases
    case 1
    have n: "parse_number 9223372036854775807 (dec (nat y)) = Some y"
      using dec_laws [of "nat y"] 1 assms(2) by (simp add: parse_number_def)
    have "\<not> length (dec (nat y)) \<le> 4" using length_dec [of 4 "nat y"] 1 by simp
    moreover have "parse_digits (dec (nat y) @ ?s) = Some (dec (nat y), ?s)" using dec_laws a by (intro parse_digits_eq) simp_all
    ultimately show ?thesis
      using 1 l n rest a first [of "CHR ''+'' # dec (nat y)"] tail [of "CHR ''+''" "dec (nat y)"]
      by (simp add: parse_date_def display_year_def)
  next
    case 2
    have n: "parse_number 9223372036854775807 (pad 4 (nat (- y))) = Some (- y)"
      using pad_laws [of 4 "nat (- y)"] 2 assms(1) by (simp add: parse_number_def)
    have "\<not> length (pad 4 (nat (- y))) < 4" using pad_laws(4) [of 4 "nat (- y)"] by simp
    moreover have "parse_digits (pad 4 (nat (- y)) @ ?s) = Some (pad 4 (nat (- y)), ?s)"
      using pad_laws(1) a by (intro parse_digits_eq) simp_all
    moreover have "i64_range y" using assms(1,2) by (simp add: i64_range_def)
    ultimately show ?thesis
      using 2 l n rest a first [of "CHR ''-'' # pad 4 (nat (- y))"] tail [of "CHR ''-''" "pad 4 (nat (- y))"]
      by (simp add: parse_date_def display_year_def)
  next
    case 3
    have dy: "display_year y = pad 4 (nat y)" using 3 by (simp add: display_year_def)
    have h: "hd (pad 4 (nat y)) \<noteq> c" if "\<not> is_digit c" for c
      using hd_digit_neq [OF pad_laws(1,3) that, of 4 "nat y" "[]"] by simp
    obtain n1 b n2 where "parse_two_digit_numeric (pad 4 (nat y) @ ?s) = Some (Some (n1, b))"
      "parse_two_digit_numeric b = Some (Some (n2, ?s))" "n1 * 100 + n2 = y"
      using parse_four_digits [of "nat y" ?s] 3 a by (auto simp: nat_less_iff)
    moreover have "i64_range y" using 3 by (simp add: i64_range_def)
    ultimately show ?thesis
      using l rest a h [of "CHR ''+''"] h [of "CHR ''-''"] first [OF pad_laws(3)] unfolding dy parse_date_def by simp
  qed
qed

lemma parse_time_display:
  assumes "h < 100" and "m < 100" and "sec < 100" and "0 \<le> n" and "n < 1000000000" and "\<not> is_digit c" and "c \<noteq> CHR ''.''"
    and "is_ascii (c # s)"
  shows "parse_time (pad 2 h @ CHR '':'' # pad 2 m @ CHR '':'' # pad 2 sec @ display_nanos n @ c # s) =
    Some (Some (int h, int m, int sec, n, c # s))"
  using parse_nanos_display [OF assms(4-8)] assms(8) by (simp add: parse_time_def parse_two_digits assms(1-7))

text \<open>The text of a date without its time zone, and what comes of it with any offset.\<close>

definition local_text :: "date_time \<Rightarrow> string" where
  "local_text d = display_year (dt_year d) @ CHR ''-'' # pad 2 (nat (dt_month d)) @ CHR ''-'' # pad 2 (nat (dt_day d)) @ CHR ''T'' #
    pad 2 (nat (dt_hour d)) @ CHR '':'' # pad 2 (nat (dt_minute d)) @ CHR '':'' # pad 2 (nat (dt_second d)) @ display_nanos (dt_nanos d)"

lemma display_local_text: "display_date_time d = local_text d @ ''Z''"
  by (simp add: display_date_time_def local_text_def)

lemma local_text_ascii: "is_ascii (local_text d)"
  by (simp add: local_text_def display_year_def)

lemma parse_local_text:
  assumes d: "calendar_date d" and y: "year_range (dt_year d)"
    and z: "is_ascii (c # z)" "\<not> is_digit c" "c \<noteq> CHR ''.''" "parse_offset (c # z) = Some (Some (oh, om, []))"
  shows "parse_timestamp (local_text d @ c # z) =
    Some (if i64_range (date_seconds d) \<and> i64_range (date_seconds d - (oh * 3600 + om * 60))
      then Some (new_timestamp (date_seconds d - (oh * 3600 + om * 60)) (dt_nanos d)) else None)"
proof -
  have "month_length (dt_year d) (dt_month d) \<le> 31" by (simp add: month_length_def)
  then have b: "nat (dt_month d) < 100" "nat (dt_day d) < 100" "nat (dt_hour d) < 100" "nat (dt_minute d) < 100" "nat (dt_second d) < 100"
    "0 \<le> dt_nanos d" "dt_nanos d < 1000000000" "dt_second d \<noteq> 60"
    "int (nat (dt_month d)) = dt_month d" "int (nat (dt_day d)) = dt_day d" "int (nat (dt_hour d)) = dt_hour d"
    "int (nat (dt_minute d)) = dt_minute d" "int (nat (dt_second d)) = dt_second d"
    using d by (auto simp: calendar_date_def nat_less_iff)
  have "parse_date (local_text d @ c # z) = Some (Some (dt_year d, dt_month d, dt_day d, CHR ''T'' # pad 2 (nat (dt_hour d)) @
      CHR '':'' # pad 2 (nat (dt_minute d)) @ CHR '':'' # pad 2 (nat (dt_second d)) @ display_nanos (dt_nanos d) @ c # z))"
    (is "_ = Some (Some (_, _, _, CHR ''T'' # ?t))")
    using parse_date_display [of "dt_year d" "nat (dt_month d)" "nat (dt_day d)" "CHR ''T'' # ?t"] y b z(1)
    by (simp add: local_text_def year_range_def)
  moreover have "parse_time_offset (CHR ''T'' # ?t) = Some (Some (dt_hour d, dt_minute d, dt_second d, dt_nanos d, oh, om))"
  proof -
    have "parse_time ?t = Some (Some (dt_hour d, dt_minute d, dt_second d, dt_nanos d, c # z))"
      using parse_time_display [OF b(3-7) z(2,3,1)] b by simp
    moreover have "parse_char_ignore_case (CHR ''T'' # ?t) CHR ''T'' = Some (Some ?t)"
      using z(1) by (simp add: parse_char_ignore_case_ascii)
    ultimately show ?thesis using b(8) z(4) by (simp add: parse_time_offset_def)
  qed
  moreover have "subtract_offset off (new_timestamp (date_seconds d) (dt_nanos d)) =
      (if i64_range (date_seconds d - off) then Some (new_timestamp (date_seconds d - off) (dt_nanos d)) else None)"
    if "i64_range (date_seconds d)" for off
    using that b(6,7) by (simp add: subtract_offset_def i64_def)
  moreover have same: "\<lparr>dt_year = dt_year d, dt_month = dt_month d, dt_day = dt_day d, dt_hour = dt_hour d, dt_minute = dt_minute d,
      dt_second = dt_second d, dt_nanos = dt_nanos d\<rparr> = d" by simp
  moreover have "is_ascii (local_text d @ c # z)" using local_text_ascii z(1) by simp
  ultimately show ?thesis
    using d by (simp add: parse_timestamp_def timestamp_try_from_eq same)
qed

lemma parse_timestamp_display:
  assumes "calendar_date d" and "year_range (dt_year d)"
  shows "parse_timestamp (display_date_time d) = timestamp_try_from d"
proof -
  have "parse_offset ''Z'' = Some (Some (0, 0, []))"
    by (simp add: parse_offset_def unwrap_or_def parse_char_ignore_case_ascii)
  from parse_local_text [OF assms _ _ _ this] show ?thesis
    using assms(1) by (simp add: display_local_text timestamp_try_from_eq)
qed

lemma parse_offset_text:
  assumes "h < 24" and "m < 60"
  shows "parse_offset (CHR ''+'' # pad 2 h @ CHR '':'' # pad 2 m) = Some (Some (int h, int m, []))"
    and "parse_offset (CHR ''-'' # pad 2 h @ CHR '':'' # pad 2 m) = Some (Some (- int h, - int m, []))"
proof -
  have i: "as_i8 (int n) = int n" "i8_checked (- int n) = Some (- int n)" if "n < 60" for n
    using that by (simp_all add: i8_checked_def signed_take_bit_int_eq_self)
  show "parse_offset (CHR ''+'' # pad 2 h @ CHR '':'' # pad 2 m) = Some (Some (int h, int m, []))"
    "parse_offset (CHR ''-'' # pad 2 h @ CHR '':'' # pad 2 m) = Some (Some (- int h, - int m, []))"
    using parse_two_digits [of h "CHR '':'' # pad 2 m"] parse_two_digits [of m "[]"] assms i [of h] i [of m]
    by (simp_all add: parse_offset_def unwrap_or_def parse_char_ignore_case_ascii ascii_upper_def)
qed

lemma display_timestamp_laws:
  assumes "timestamp_normalize t = Some t'" and "timestamp_is_canonical t'"
  obtains s where "display_timestamp t = Some s" "parse_timestamp s = Some (Some t')"
proof -
  obtain d where d: "date_time_from t = Some d" "calendar_date d" "date_seconds d = timestamp_seconds t'" "dt_nanos d = timestamp_nanos t'"
    by (rule date_time_from_normal [OF assms])
  have r: "i64_range (date_seconds d)" by (simp add: d(3) sint_i64_range)
  then have "dt_fields DT_MIN \<le> dt_fields d \<and> dt_fields d \<le> dt_fields DT_MAX" using date_range [OF d(2)] by blast
  then have "year_range (dt_year d)" by (auto simp: dt_fields_def DT_MIN_def DT_MAX_def year_range_def)
  then have "parse_timestamp (display_date_time d) = Some (Some t')"
    using d r by (simp add: parse_timestamp_display timestamp_try_from_eq new_timestamp_eq)
  then show ?thesis using that d(1) by (simp add: display_timestamp_def)
qed

section \<open>Durations\<close>

lemma parse_duration_display:
  assumes "duration_is_canonical d" and "duration_seconds d \<noteq> - 9223372036854775808"
  obtains s where "display_duration d = Some s" "parse_duration s = Some (Some d)"
proof -
  let ?n = "\<bar>duration_nanos d\<bar>" and ?s = "\<bar>duration_seconds d\<bar>"
  let ?neg = "duration_seconds d < 0 \<or> duration_nanos d < 0"
  have c: "0 \<le> ?n" "?n < 1000000000" "i64_range ?s"
    using assms sint_i64_range [of "dur_seconds d"]
    by (auto simp: duration_is_canonical_def NANOS_MAX_def NANOS_PER_SECOND_def i64_range_def abs_if)
  let ?text = "dec (nat ?s) @ display_nanos ?n @ ''s''"
  have t: "display_duration d = Some ((if ?neg then ''-'' else []) @ ?text)"
    using c(3) by (simp add: display_duration_def duration_normalize_canonical assms(1))
  have "is_ascii (display_nanos ?n @ ''s'')" by simp
  moreover have "\<exists>x r. display_nanos ?n @ ''s'' = x # r \<and> \<not> is_digit x"
    using c by (cases rule: display_nanos_cases [of ?n]) auto
  ultimately have pd: "parse_digits ?text = Some (dec (nat ?s), display_nanos ?n @ ''s'')"
    using dec_laws [of "nat ?s"] parse_digits_eq by metis
  have pn: "parse_number 9223372036854775807 (dec (nat ?s)) = Some ?s"
    using dec_laws [of "nat ?s"] c(3) by (simp add: parse_number_def i64_range_def)
  have nn: "parse_nanos (display_nanos ?n @ ''s'') = Some (Some (?n, ''s''))"
    using parse_nanos_display [OF c(1,2), of "CHR ''s''" "[]"] by simp
  have a: "is_ascii ?text" "is_ascii (CHR ''-'' # ?text)" by simp_all
  have hd: "parse_char ?text CHR ''-'' = Some None"
    unfolding parse_char_ascii [OF a(1)] using dec_laws [of "nat ?s"] by (cases "dec (nat ?s)") auto
  have k: "i64_range (- ?s)" "i32 (- ?n) = Some (- ?n)" using c by (simp_all add: i64_range_def)
  have i: "as_i32 ?n = ?n" using c by (intro as_i32_eq) simp_all
  have neg: "?neg \<Longrightarrow> new_duration (- ?s) (- ?n) = d" "\<not> ?neg \<Longrightarrow> new_duration ?s ?n = d"
    using assms(1) new_duration_eq [of d] by (auto simp: duration_is_canonical_def abs_if split: if_splits)
  have "parse_duration ((if ?neg then ''-'' else []) @ ?text) = Some (Some d)"
  proof (cases ?neg)
    case True
    then show ?thesis using a pd pn nn c(2) i k neg(1) by (simp add: parse_duration_def NANOS_PER_SECOND_def)
  next
    case False
    then show ?thesis using a hd pd pn nn c(2) i neg(2) by (simp add: parse_duration_def NANOS_PER_SECOND_def)
  qed
  then show ?thesis using that t by blast
qed

section \<open>No panics\<close>

text \<open>A parser that does not panic, and whose results have a property.\<close>

definition parses :: "('a \<Rightarrow> bool) \<Rightarrow> 'a parsed \<Rightarrow> bool" where
  "parses P x \<longleftrightarrow> (\<exists>r. x = Some r \<and> (\<forall>y. r = Some y \<longrightarrow> P y))"

lemma parses_simps [simp]: "parses P (Some None)" "parses P (Some (Some y)) \<longleftrightarrow> P y" "\<not> parses P None"
  by (simp_all add: parses_def)

lemma parses_pbind: "parses P x \<Longrightarrow> (\<And>y. P y \<Longrightarrow> parses Q (f y)) \<Longrightarrow> parses Q (pbind x f)"
  by (auto simp: parses_def pbind_def split: option.splits)

text \<open>What the parsers leave over of an ASCII string is ASCII.\<close>

abbreviation leaves_ascii :: "('a \<Rightarrow> bool) \<Rightarrow> 'a \<times> string \<Rightarrow> bool" where
  "leaves_ascii P \<equiv> (\<lambda>(x, s). P x \<and> is_ascii s)"

lemma parse_char_parses:
  "is_ascii s \<Longrightarrow> parses is_ascii (parse_char s c)" "is_ascii s \<Longrightarrow> parses is_ascii (parse_char_ignore_case s c)"
  by (auto simp: parse_char_ascii parse_char_ignore_case_ascii split: list.split)

lemma parse_digits_parses:
  "is_ascii s \<Longrightarrow> \<exists>digits r. parse_digits s = Some (digits, r) \<and> is_ascii digits \<and> is_ascii r \<and> list_all is_digit digits"
  using is_ascii_append [of "takeWhile is_digit s" "dropWhile is_digit s"]
  by (auto simp: parse_digits_ascii list_all_iff dest: set_takeWhileD)

lemma parse_number_range: "parse_number k s = Some n \<Longrightarrow> 0 \<le> n \<and> n \<le> k"
  by (auto simp: parse_number_def split: if_splits)

lemma parse_two_digit_parses:
  assumes "is_ascii s"
  shows "parses (leaves_ascii (\<lambda>n. 0 \<le> n \<and> n \<le> 255)) (parse_two_digit_numeric s)"
  using assms
  by (cases "parse_number 255 (take 2 s)")
    (auto simp: parse_two_digit_numeric_def ascii_slices is_ascii_parts dest: parse_number_range)

lemma parse_nanos_parses:
  assumes "is_ascii s"
  shows "parses (leaves_ascii (\<lambda>n. 0 \<le> n \<and> n \<le> 999999999)) (parse_nanos s)"
proof -
  have *: "parses (leaves_ascii (\<lambda>n. 0 \<le> n \<and> n \<le> 999999999))
      (do { zeros \<leftarrow> u32_checked (9 - as_u32 (int (length ds)));
            factor \<leftarrow> u32_checked (10 ^ nat zeros);
            pbind (Some (parse_number 4294967295 ds)) (\<lambda>n. do { nanos \<leftarrow> u32_checked (factor * n); Some (Some (nanos, r)) }) })"
    if "length ds \<le> 9" "list_all is_digit ds" "is_ascii r" for ds r
  proof -
    have 1: "u32_checked (9 - as_u32 (int (length ds))) = Some (9 - int (length ds))" "nat (9 - int (length ds)) = 9 - length ds"
      using that(1) by (simp_all add: u32_checked_def as_u32_eq)
    have "(10 :: int) ^ (9 - length ds) \<le> 10 ^ 9" by (intro power_increasing) simp_all
    then have 2: "u32_checked (10 ^ (9 - length ds)) = Some (10 ^ (9 - length ds))" by (simp add: u32_checked_def)
    have 3: "0 \<le> 10 ^ (9 - length ds) * n \<and> 10 ^ (9 - length ds) * n \<le> 999999999"
      if "parse_number 4294967295 ds = Some n" for n
    proof -
      have "n = int (number_value ds)" using that by (auto simp: parse_number_def split: if_splits)
      moreover have "int (number_value ds) < 10 ^ length ds" using number_value_less [OF \<open>list_all is_digit ds\<close>] by (simp flip: of_nat_power)
      ultimately have "10 ^ (9 - length ds) * n < 10 ^ (9 - length ds) * 10 ^ length ds" "0 \<le> n" by simp_all
      then show ?thesis using \<open>length ds \<le> 9\<close> by (simp flip: power_add)
    qed
    show ?thesis using 3 that(3) by (cases "parse_number 4294967295 ds") (simp_all add: 1 2, simp add: u32_checked_def)
  qed
  obtain p where p: "parse_char s CHR ''.'' = Some p" "\<And>r. p = Some r \<Longrightarrow> is_ascii r"
    using parse_char_parses(1) [OF assms, of "CHR ''.''"] by (auto simp: parses_def)
  show ?thesis
  proof (cases p)
    case None
    then show ?thesis using p assms by (simp add: parse_nanos_def)
  next
    case (Some t)
    obtain ds r where ds: "parse_digits t = Some (ds, r)" "is_ascii ds" "is_ascii r" "list_all is_digit ds"
      using parse_digits_parses [OF p(2) [OF Some]] by blast
    moreover have "list_all is_digit (take 9 ds)" using ds(4) by (auto simp: list_all_iff dest: in_set_takeD)
    ultimately show ?thesis
      using * [of "take 9 ds" r] * [of ds r] p Some assms
      by (cases "length ds > 9") (simp_all add: parse_nanos_def ascii_slices)
  qed
qed

lemma parse_date_parses:
  assumes a: "is_ascii s"
  shows "parses (\<lambda>(year, month, day, r). is_ascii r) (parse_date s)"
proof (cases "length s < 10")
  case True
  then show ?thesis using a by (simp add: parse_date_def)
next
  case False
  then have first: "byte_at s 0 = Some (hd s)" and tail: "slice_from s 1 = Some (tl s)" and at: "is_ascii (tl s)"
    using a ascii_slices(2) [OF a, of 1] is_ascii_parts(2) [OF a, of 1]
    by (cases s; simp add: byte_at_def)+
  obtain ds r where ds: "parse_digits (tl s) = Some (ds, r)" "is_ascii r" using parse_digits_parses [OF at] by blast
  have md: "parses (\<lambda>(year, month, day, r). is_ascii r) (pbind (parse_char r CHR ''-'') (\<lambda>s.
      pbind (parse_two_digit_numeric s) (\<lambda>(month, s). pbind (parse_char s CHR ''-'') (\<lambda>s.
      pbind (parse_two_digit_numeric s) (\<lambda>(day, s). Some (Some (year, month, day, s)))))))"
    if "is_ascii r" for year r
    using that by (auto intro!: parses_pbind parse_char_parses parse_two_digit_parses)
  have neg: "i64 (- n) = Some (- n)" if "parse_number 9223372036854775807 ds = Some n" for n
    using parse_number_range [OF that] by (simp add: i64_range_def)
  have four: "parses (leaves_ascii (\<lambda>_. True)) (pbind (parse_two_digit_numeric s) (\<lambda>(n1, s).
      pbind (parse_two_digit_numeric s) (\<lambda>(n2, s). do { year \<leftarrow> i64 (n1 * 100 + n2); Some (Some (year, s)) })))"
    using a by (auto intro!: parses_pbind [OF parse_two_digit_parses] simp: i64_range_def)
  have long: "parses (leaves_ascii (\<lambda>_. True)) (pbind (Some (parse_number 9223372036854775807 ds)) (\<lambda>date. Some (Some (date, r))))"
    "parses (leaves_ascii (\<lambda>_. True)) (pbind (Some (parse_number 9223372036854775807 ds)) (\<lambda>date. do { year \<leftarrow> i64 (- date); Some (Some (year, r)) }))"
    using neg ds(2) by (cases "parse_number 9223372036854775807 ds"; simp)+
  show ?thesis
    using a False unfolding parse_date_def first
    by (auto simp: tail [unfolded One_nat_def] ds(1) simp del: pbind_simps intro!: parses_pbind [where P = "leaves_ascii (\<lambda>_. True)"] md four long)
qed

lemma parse_time_parses:
  assumes "is_ascii s"
  shows "parses (\<lambda>(hour, minute, second, nanos, r). is_ascii r) (parse_time s)"
  using assms
  by (auto simp: parse_time_def intro!: parses_pbind [OF parse_two_digit_parses] parses_pbind [OF parse_char_parses(1)]
      parses_pbind [OF parse_nanos_parses])

lemma parse_offset_parses:
  assumes a: "is_ascii s"
  shows "parses (\<lambda>(hour, minute, r). is_ascii r) (parse_offset s)"
proof -
  have after: "\<exists>p. parse_char r c = Some p \<and> is_ascii (unwrap_or p r) \<and> (\<forall>t. p = Some t \<longrightarrow> is_ascii t)"
    "\<exists>p. parse_char_ignore_case r c = Some p \<and> (\<forall>t. p = Some t \<longrightarrow> is_ascii t)" if "is_ascii r" for r c
    using parse_char_parses [OF that, of c] that by (auto simp: parses_def unwrap_or_def split: option.split)
  have i: "as_i8 n = n" "i8_checked (- n) = Some (- n)" if "0 \<le> n" "n < 60" for n
    using that by (simp_all add: i8_checked_def signed_take_bit_int_eq_self)
  obtain p where p: "parse_char s CHR '' '' = Some p" "is_ascii (unwrap_or p s)" using after(1) [OF a] by blast
  obtain z where z: "parse_char_ignore_case (unwrap_or p s) CHR ''Z'' = Some z" "\<forall>t. z = Some t \<longrightarrow> is_ascii t"
    using after(2) [OF p(2)] by blast
  obtain q where q: "parse_char (unwrap_or p s) CHR ''+'' = Some q" "\<forall>t. q = Some t \<longrightarrow> is_ascii t"
    using after(1) [OF p(2)] by blast
  have sign: "parses (leaves_ascii (\<lambda>_. True)) (case q of Some s \<Rightarrow> Some (Some (True, s))
      | None \<Rightarrow> pbind (parse_char (unwrap_or p s) CHR ''-'') (\<lambda>s. Some (Some (False, s))))"
    using q(2) p(2) by (auto split: option.split intro!: parses_pbind [OF parse_char_parses(1)])
  have minute: "parses (leaves_ascii (\<lambda>n. 0 \<le> n)) (if r = [] then Some (Some (0, r)) else do {
      after_colon \<leftarrow> parse_char r CHR '':'';
      pbind (parse_two_digit_numeric (unwrap_or after_colon r)) (\<lambda>(minute, s). Some (Some (minute, s))) })" if r: "is_ascii r" for r
  proof -
    obtain c where "parse_char r CHR '':'' = Some c" "is_ascii (unwrap_or c r)" using after(1) [OF r] by blast
    then show ?thesis by (auto intro!: parses_pbind [OF parse_two_digit_parses])
  qed
  have rest: "parses (\<lambda>(hour, minute, r). is_ascii r) (pbind x (\<lambda>(is_positive, s).
      pbind (parse_two_digit_numeric s) (\<lambda>(hour, s).
      pbind (if s = [] then Some (Some (0, s)) else do {
          after_colon \<leftarrow> parse_char s CHR '':'';
          pbind (parse_two_digit_numeric (unwrap_or after_colon s)) (\<lambda>(minute, s). Some (Some (minute, s))) }) (\<lambda>(minute, s).
      if \<not> (hour < 24 \<and> minute < 60) then Some None
      else let hour = as_i8 hour; minute = as_i8 minute
        in if is_positive then Some (Some (hour, minute, s))
           else do { hour \<leftarrow> i8_checked (- hour); minute \<leftarrow> i8_checked (- minute); Some (Some (hour, minute, s)) }))))" (is "parses _ (pbind _ ?numbers)")
    if x: "parses (leaves_ascii (\<lambda>_. True)) x" for x
  proof (rule parses_pbind [OF x], clarify, rule parses_pbind [OF parse_two_digit_parses], assumption, clarify,
      rule parses_pbind [OF minute], assumption, clarify)
    fix h m :: int and r and pos :: bool
    assume "0 \<le> h" "0 \<le> m" "is_ascii r"
    then show "parses (\<lambda>(hour, minute, r). is_ascii r) (if \<not> (h < 24 \<and> m < 60) then Some None
      else let hour = as_i8 h; minute = as_i8 m in if pos then Some (Some (hour, minute, r))
        else do { hour \<leftarrow> i8_checked (- hour); minute \<leftarrow> i8_checked (- minute); Some (Some (hour, minute, r)) })"
      by (simp add: Let_def i)
  qed
  show ?thesis
  proof (cases z)
    case None
    have "parse_offset s = (if s = [] then Some (Some (0, 0, s)) else pbind (case q of Some s \<Rightarrow> Some (Some (True, s))
        | None \<Rightarrow> pbind (parse_char (unwrap_or p s) CHR ''-'') (\<lambda>s. Some (Some (False, s)))) ?numbers)"
      unfolding parse_offset_def by (simp add: a p(1) z(1) q(1) None Let_def)
    then show ?thesis using rest [OF sign] a by simp
  next
    case (Some t)
    then show ?thesis unfolding parse_offset_def using z a by (simp add: p(1) Let_def)
  qed
qed

lemma parse_time_offset_parses:
  assumes "is_ascii s"
  shows "parses (\<lambda>_. True) (parse_time_offset s)"
proof -
  obtain p where p: "parse_char_ignore_case s CHR ''T'' = Some p" "\<forall>t. p = Some t \<longrightarrow> is_ascii t"
    using parse_char_parses(2) [OF assms, of "CHR ''T''"] by (auto simp: parses_def)
  have "parses is_ascii (case p of Some s \<Rightarrow> Some (Some s) | None \<Rightarrow> parse_char s CHR '' '')"
    using p(2) parse_char_parses(1) [OF assms] by (simp split: option.split)
  then show ?thesis
    unfolding parse_time_offset_def
    by (auto simp: p(1) parses_def [of _ "Some _"] simp del: pbind_simps
        intro!: parses_pbind [where P = is_ascii] parses_pbind [OF parse_time_parses] parses_pbind [OF parse_offset_parses])
qed

end
