(* ===== verification/Time_Properties.thy ===== *)
theory Time_Properties
  imports Time_Text_Laws
begin

text \<open>What the operations on timestamps and durations promise.\<close>

section \<open>Dates\<close>

text \<open>
  C10. Every timestamp is the date and time the reference calendar gives its seconds, and a date converts to a
  timestamp exactly when it is on the calendar and its seconds are in range: the checks, tables and shortcuts
  of the code agree with counting the days of the proleptic Gregorian calendar.
\<close>

theorem timestamp_try_from_gregorian:
  "timestamp_try_from d = Some (if calendar_date d \<and> i64_range (date_seconds d)
     then Some (new_timestamp (date_seconds d) (dt_nanos d)) else None)"
  by (rule timestamp_try_from_eq)

text \<open>
  C8. Converting a timestamp to a date never fails and yields a valid date, from which the conversion back
  gives the normalised timestamp; and every valid date is what its timestamp converts to.
\<close>

theorem timestamp_date_roundtrip:
  "(\<exists>d. date_time_from t = Some d \<and> date_time_is_valid d = Some True \<and> timestamp_try_from d = Some (timestamp_normalize t)) \<and>
   (date_time_is_valid d' = Some True \<longrightarrow> (\<exists>t'. timestamp_try_from d' = Some (Some t') \<and> date_time_from t' = Some d'))"
proof (rule conjI)
  obtain n where n: "timestamp_normalize t = Some n" "timestamp_is_canonical n" using timestamp_normalize_total [of t] by blast
  obtain d where "date_time_from t = Some d" "calendar_date d" "date_seconds d = timestamp_seconds n" "dt_nanos d = timestamp_nanos n"
    by (rule date_time_from_normal [OF n])
  then show "\<exists>d. date_time_from t = Some d \<and> date_time_is_valid d = Some True \<and> timestamp_try_from d = Some (timestamp_normalize t)"
    by (simp add: timestamp_try_from_eq date_time_is_valid_eq sint_i64_range new_timestamp_eq n(1))
  show "date_time_is_valid d' = Some True \<longrightarrow> (\<exists>t'. timestamp_try_from d' = Some (Some t') \<and> date_time_from t' = Some d')"
  proof
    assume "date_time_is_valid d' = Some True"
    then have d': "calendar_date d'" "i64_range (date_seconds d')" by (simp_all add: date_time_is_valid_eq)
    let ?t = "new_timestamp (date_seconds d') (dt_nanos d')"
    have b: "- 2147483648 \<le> dt_nanos d'" "dt_nanos d' \<le> 2147483647" using d'(1) by (simp_all add: calendar_date_def)
    then have c: "timestamp_is_canonical ?t"
      using d' by (simp add: timestamp_is_canonical_def NANOS_PER_SECOND_def calendar_date_def)
    obtain d where d: "date_time_from ?t = Some d" "calendar_date d" "date_seconds d = timestamp_seconds ?t" "dt_nanos d = timestamp_nanos ?t"
      by (rule date_time_from_normal [OF timestamp_normalize_canonical [OF c] c])
    then have "d = d'" using d' b by (intro calendar_date_unique) simp_all
    then show "\<exists>t'. timestamp_try_from d' = Some (Some t') \<and> date_time_from t' = Some d'"
      using d(1) d' by (simp add: timestamp_try_from_eq)
  qed
qed

section \<open>Normalisation\<close>

text \<open>
  C11. Normalising never panics; it gives the canonical form of the same time, or the least or greatest value
  where the time is out of range. What is canonical is left alone, and has no other canonical form.
\<close>

theorem normalize_clamps:
  "(\<exists>t'. timestamp_normalize t = Some t' \<and> timestamp_is_canonical t' \<and> timestamp_normalize t' = Some t' \<and>
     timestamp_total t' = clamp (- 9223372036854775808 * 1000000000) (9223372036854775807 * 1000000000 + 999999999) (timestamp_total t)) \<and>
   (\<exists>d'. duration_normalize d = Some d' \<and> duration_is_canonical d' \<and> duration_normalize d' = Some d' \<and>
     duration_total d' = clamp (- 9223372036854775808 * 1000000000 - 999999999) (9223372036854775807 * 1000000000 + 999999999) (duration_total d))"
  using timestamp_normalize_total [of t] timestamp_normalize_canonical duration_normalize_total [of d] duration_normalize_canonical by blast

section \<open>Text\<close>

text \<open>
  C9. Every timestamp, whatever its year, is displayed as a text that is parsed to the same time again, in
  normal form.
\<close>

theorem timestamp_text_roundtrip:
  "\<exists>s t'. display_timestamp t = Some s \<and> timestamp_normalize t = Some t' \<and> parse_timestamp s = Some (Some t')"
proof -
  obtain t' where t': "timestamp_normalize t = Some t'" "timestamp_is_canonical t'" using timestamp_normalize_total [of t] by blast
  obtain s where "display_timestamp t = Some s" "parse_timestamp s = Some (Some t')" by (rule display_timestamp_laws [OF t'])
  then show ?thesis using t'(1) by blast
qed

lemma parse_timestamp_parses: "parses timestamp_is_canonical (parse_timestamp s)"
proof -
  have c: "parses timestamp_is_canonical (timestamp_try_from d)" for d
    by (auto simp: timestamp_try_from_eq timestamp_is_canonical_def NANOS_PER_SECOND_def calendar_date_def)
  have o: "parses timestamp_is_canonical (timestamp_try_from d \<bind> (\<lambda>t. Some (Option.bind t (subtract_offset n))))" for d n
    using c [of d] by (auto simp: parses_def subtract_offset_def i64_def timestamp_is_canonical_def NANOS_PER_SECOND_def
        split: option.split bind_splits if_splits)
  show ?thesis
  proof (cases "is_ascii s")
    case True
    then show ?thesis
      by (auto simp: parse_timestamp_def c o intro!: parses_pbind [OF parse_date_parses] parses_pbind [OF parse_time_offset_parses])
  qed (simp add: parse_timestamp_def)
qed

lemma parse_duration_parses: "parses duration_is_canonical (parse_duration s)"
proof (cases "is_ascii s")
  case True
  obtain p where p: "parse_char s CHR ''-'' = Some p" "\<And>t. p = Some t \<Longrightarrow> is_ascii t"
    using parse_char_parses(1) [OF True, of "CHR ''-''"] by (auto simp: parses_def)
  obtain neg r where r: "(case p of Some s \<Rightarrow> (True, s) | None \<Rightarrow> (False, s)) = (neg, r)" "is_ascii r"
    using p(2) True by (cases p) auto
  obtain ds r' where ds: "parse_digits r = Some (ds, r')" "is_ascii r'" using parse_digits_parses [OF r(2)] by blast
  have final: "parses duration_is_canonical (do {
        (seconds, nanos) \<leftarrow> (if neg then do { seconds \<leftarrow> i64 (- secs); nanos \<leftarrow> i32 (- as_i32 n); Some (seconds, nanos) }
          else Some (secs, as_i32 n));
        Some (Some (new_duration seconds nanos)) })"
    if "parse_number 9223372036854775807 ds = Some secs" "0 \<le> n" "n \<le> 999999999" for secs n
    using parse_number_range [OF that(1)] that(2,3)
    by (simp add: as_i32_eq i64_range_def duration_is_canonical_def NANOS_MAX_def NANOS_PER_SECOND_def)
  show ?thesis
    using True p(1) r(1) ds final unfolding parse_duration_def
    by (cases "parse_number 9223372036854775807 ds")
      (auto intro!: parses_pbind [OF parse_nanos_parses] parses_pbind [OF parse_char_parses(1)])
qed (simp add: parse_duration_def)

text \<open>
  C31. Parsing a timestamp or a duration never panics, whatever the text: no slice, index or split beyond the end of a string
  or inside of a character, no overflow, no failing assertion; and it gives values in normal form only.
\<close>

theorem parse_timestamp_total:
  "(\<exists>r. parse_timestamp s = Some r \<and> (case r of Some t \<Rightarrow> timestamp_is_canonical t | None \<Rightarrow> True)) \<and>
   (\<exists>r. parse_duration s = Some r \<and> (case r of Some d \<Rightarrow> duration_is_canonical d | None \<Rightarrow> True))"
  using parse_timestamp_parses [of s] parse_duration_parses [of s] by (auto simp: parses_def split: option.split)

text \<open>
  C30. A local date and time with the offset of its time zone is parsed to the time in UTC, and to nothing where either of the
  two is out of range.
\<close>

theorem timestamp_offset:
  assumes "calendar_date d" and "year_range (dt_year d)" and "h < 24" and "m < 60"
  shows "parse_timestamp (local_text d @ (if east then ''+'' else ''-'') @ pad 2 h @ '':'' @ pad 2 m) =
    (let utc = date_seconds d - (if east then 1 else - 1) * (int h * 3600 + int m * 60)
     in Some (if i64_range (date_seconds d) \<and> i64_range utc then Some (new_timestamp utc (dt_nanos d)) else None))"
proof -
  have a: "is_ascii (c # pad 2 h @ CHR '':'' # pad 2 m)" if "is_ascii [c]" for c
    using is_ascii_digits [OF pad_laws(1)] that by (simp add: is_ascii_def)
  have "is_ascii ''+''" "is_ascii ''-''" by (simp_all add: is_ascii_def)
  then show ?thesis
    using parse_local_text [OF assms(1,2) a _ _ parse_offset_text(1) [OF assms(3,4)]]
      parse_local_text [OF assms(1,2) a _ _ parse_offset_text(2) [OF assms(3,4)]]
    by (cases east) (simp_all add: Let_def)
qed

text \<open>
  A canonical duration is displayed as a text that is parsed to the same duration, but for those of
  \<^verbatim>\<open>i64::MIN\<close> seconds, whose display panics.
\<close>

theorem duration_text_roundtrip:
  assumes "duration_is_canonical d"
  shows "if duration_seconds d = - 9223372036854775808 then display_duration d = None
    else \<exists>s. display_duration d = Some s \<and> parse_duration s = Some (Some d)"
proof (cases "duration_seconds d = - 9223372036854775808")
  case True
  then have "\<bar>duration_seconds d\<bar> = 9223372036854775808" by simp
  then have "i64 \<bar>duration_seconds d\<bar> = None" by (simp add: i64_def i64_range_def)
  then show ?thesis using True by (simp add: display_duration_def duration_normalize_canonical assms)
next
  case False
  then show ?thesis using parse_duration_display [OF assms False] by auto
qed

section \<open>Departures\<close>

text \<open>
  The sign that is displayed is that of the fields before they are normalised; and \<^verbatim>\<open>try_normalize\<close>, which compares the seconds
  before and after, gives an error where the result is exact, and none where it saturated.
\<close>

lemma duration_sign_departs:
  "duration_normalize (new_duration 1 (- 1)) = Some (new_duration 0 999999999) \<and>
   display_duration (new_duration 1 (- 1)) = Some ''-0.999999999s'' \<and>
   parse_duration ''-0.999999999s'' = Some (Some (new_duration 0 (- 999999999)))"
proof -
  have n: "duration_normalize (new_duration 1 (- 1)) = Some (new_duration 0 999999999)"
    by (simp add: duration_normalize_def carry_nanos_def NANOS_PER_SECOND_def NANOS_MAX_def i64_range_def)
  have c: "duration_is_canonical (new_duration 0 (- 999999999))"
    by (simp add: duration_is_canonical_def NANOS_PER_SECOND_def NANOS_MAX_def i64_range_def)
  have t: "display_duration (new_duration 1 (- 1)) = Some ''-0.999999999s''"
    by (simp add: display_duration_def n i64_range_def display_nanos_def pad_def dec.simps digit_char_def char_of_def bit_0)
  have "display_duration (new_duration 0 (- 999999999)) = Some ''-0.999999999s''"
    by (simp add: display_duration_def duration_normalize_canonical [OF c] i64_range_def display_nanos_def pad_def dec.simps digit_char_def char_of_def bit_0)
  moreover have "duration_seconds (new_duration 0 (- 999999999)) \<noteq> - 9223372036854775808" by (simp add: i64_range_def)
  ultimately have "parse_duration ''-0.999999999s'' = Some (Some (new_duration 0 (- 999999999)))"
    using parse_duration_display [OF c] by auto
  then show ?thesis using n t by blast
qed

lemma try_normalize_departs:
  "timestamp_try_normalize (new_timestamp 9223372036854775807 1500000000) = Some (Ok (new_timestamp 9223372036854775807 999999999)) \<and>
   timestamp_try_normalize (new_timestamp 9223372036854775806 1500000000) = Some (Err (new_timestamp 9223372036854775806 1500000000)) \<and>
   timestamp_normalize (new_timestamp 9223372036854775806 1500000000) = Some (new_timestamp 9223372036854775807 500000000)"
proof -
  have "1500000000 sdiv 1000000000 = (1 :: int)" "1500000000 smod 1000000000 = (500000000 :: int)" by (simp_all add: sdiv_pos)
  then show ?thesis
    by (simp add: timestamp_try_normalize_def timestamp_normalize_def carry_nanos_def NANOS_PER_SECOND_def i64_range_def i64_None i64_def)
qed

text \<open>A negative duration of \<^verbatim>\<open>i64::MIN\<close> seconds is no error in the conversion to the standard library, but a panic.\<close>

lemma negative_duration_departs:
  "std_duration_try_from (new_duration (- 9223372036854775808) 0) = None \<and> duration_neg (new_duration (- 9223372036854775808) 0) = None"
proof -
  have "duration_normalize (new_duration (- 9223372036854775808) 0) = Some (new_duration (- 9223372036854775808) 0)"
    by (rule duration_normalize_canonical) (simp add: duration_is_canonical_def NANOS_PER_SECOND_def NANOS_MAX_def i64_range_def)
  then show ?thesis
    by (simp add: std_duration_try_from_def duration_neg_def i64_range_def i64_def)
qed

section \<open>Witnesses\<close>

theorem timestamp_date_roundtrip_witness:
  "\<exists>t. timestamp_try_from DT_MAX = Some (Some t) \<and> date_time_from t = Some DT_MAX"
proof -
  have "date_time_is_valid DT_MAX = Some True"
    using date_extremes by (simp add: date_time_is_valid_eq i64_range_def)
  then show ?thesis using timestamp_date_roundtrip [of "new_timestamp 0 0" DT_MAX] by blast
qed

theorem duration_text_roundtrip_witness:
  "\<exists>s. display_duration (new_duration (- 5) (- 250000000)) = Some s \<and> parse_duration s = Some (Some (new_duration (- 5) (- 250000000)))"
proof -
  have "duration_is_canonical (new_duration (- 5) (- 250000000))"
    by (simp add: duration_is_canonical_def NANOS_PER_SECOND_def NANOS_MAX_def i64_range_def)
  from duration_text_roundtrip [OF this] show ?thesis by (simp add: i64_range_def)
qed

theorem timestamp_offset_witness:
  "parse_timestamp (local_text \<lparr>dt_year = 1970, dt_month = 1, dt_day = 1, dt_hour = 3, dt_minute = 0, dt_second = 0, dt_nanos = 0\<rparr> @ ''+'' @ pad 2 3 @ '':'' @ pad 2 30) =
    Some (Some (new_timestamp (- 1800) 0))"
proof -
  let ?d = "\<lparr>dt_year = 1970, dt_month = 1, dt_day = 1, dt_hour = 3, dt_minute = 0, dt_second = 0, dt_nanos = 0\<rparr>"
  have "calendar_date ?d" "date_seconds ?d = 10800"
    by (simp_all add: calendar_date_def month_length_def date_seconds_def date_days_def day_seconds_def epoch_days_def month_days_simps)
  then show ?thesis
    using timestamp_offset [of ?d 3 30 True] by (simp add: year_range_def i64_range_def)
qed

end
