(* ===== verification/Flat_Iteration.thy ===== *)
theory Flat_Iteration
  imports Prelude
begin

text \<open>
  The iterator adapters of \<^verbatim>\<open>src/src/iter.rs\<close>: an iterator of keys with collections becomes, through
  \<^verbatim>\<open>FlatAdapter(..).flatten()\<close>, an iterator of keys with single items. The inner iterators are lists (what
  they still have to yield), a step of an iterator is an option, and the standard library's \<^verbatim>\<open>Flatten\<close>
  keeps the iterators it is working on at its two ends. Running it from either end, in any order, takes
  the items of the flat list one by one.
\<close>

section \<open>The adapters\<close>

datatype ('k, 'v) flattening = Flattening 'k "'v list"

fun flattening_next :: "('k, 'v) flattening \<Rightarrow> (('k \<times> 'v) \<times> ('k, 'v) flattening) option" where
  "flattening_next (Flattening k []) = None"
| "flattening_next (Flattening k (v # vs)) = Some ((k, v), Flattening k vs)"

definition flattening_next_back :: "('k, 'v) flattening \<Rightarrow> (('k \<times> 'v) \<times> ('k, 'v) flattening) option" where
  "flattening_next_back fl = (case fl of Flattening k vs \<Rightarrow>
     if vs = [] then None else Some ((k, List.last vs), Flattening k (butlast vs)))"

definition flattening_len :: "('k, 'v) flattening \<Rightarrow> nat" where
  "flattening_len fl = (case fl of Flattening k vs \<Rightarrow> length vs)"

type_synonym ('k, 'v) flat_adapter = "('k \<times> 'v list) list"

fun flat_adapter_next :: "('k, 'v) flat_adapter \<Rightarrow> (('k, 'v) flattening \<times> ('k, 'v) flat_adapter) option" where
  "flat_adapter_next [] = None"
| "flat_adapter_next ((k, v) # it) = Some (Flattening k v, it)"

definition flat_adapter_next_back :: "('k, 'v) flat_adapter \<Rightarrow> (('k, 'v) flattening \<times> ('k, 'v) flat_adapter) option" where
  "flat_adapter_next_back it =
    (if it = [] then None else case List.last it of (k, v) \<Rightarrow> Some (Flattening k v, butlast it))"

definition flat_adapter_len :: "('k, 'v) flat_adapter \<Rightarrow> nat" where
  "flat_adapter_len it = length it"

section \<open>Flattening, as the standard library does\<close>

record ('k, 'v) flatten =
  fl_front :: "('k, 'v) flattening option"
  fl_iter :: "('k, 'v) flat_adapter"
  fl_back :: "('k, 'v) flattening option"

definition flatten_start :: "('k, 'v) flat_adapter \<Rightarrow> ('k, 'v) flatten" where
  "flatten_start it = \<lparr>fl_front = None, fl_iter = it, fl_back = None\<rparr>"

definition and_then_or_clear ::
    "(('k, 'v) flattening \<Rightarrow> (('k \<times> 'v) \<times> ('k, 'v) flattening) option) \<Rightarrow> ('k, 'v) flattening option \<Rightarrow>
     ('k \<times> 'v) option \<times> ('k, 'v) flattening option" where
  "and_then_or_clear step opt = (case opt of
     None \<Rightarrow> (None, None)
   | Some fl \<Rightarrow> (case step fl of None \<Rightarrow> (None, None) | Some (x, fl) \<Rightarrow> (Some x, Some fl)))"

function flatten_next_loop ::
    "('k, 'v) flattening option \<Rightarrow> ('k, 'v) flat_adapter \<Rightarrow> ('k, 'v) flattening option \<Rightarrow>
     (('k \<times> 'v) \<times> ('k, 'v) flatten) option" where
  "flatten_next_loop front it rear =
    (case and_then_or_clear flattening_next front of
       (Some x, front) \<Rightarrow> Some (x, \<lparr>fl_front = front, fl_iter = it, fl_back = rear\<rparr>)
     | (None, front) \<Rightarrow>
         (case flat_adapter_next it of
            Some (fl, it) \<Rightarrow> flatten_next_loop (Some fl) it rear
          | None \<Rightarrow>
              (case and_then_or_clear flattening_next rear of
                 (Some x, rear) \<Rightarrow> Some (x, \<lparr>fl_front = front, fl_iter = it, fl_back = rear\<rparr>)
               | (None, rear) \<Rightarrow> None)))"
  by auto
termination
  by (relation "measure (\<lambda>(front, it, rear). length it)") (auto elim: flat_adapter_next.elims)

declare flatten_next_loop.simps [simp del]

definition flatten_next :: "('k, 'v) flatten \<Rightarrow> (('k \<times> 'v) \<times> ('k, 'v) flatten) option" where
  "flatten_next s = flatten_next_loop (fl_front s) (fl_iter s) (fl_back s)"

function flatten_next_back_loop ::
    "('k, 'v) flattening option \<Rightarrow> ('k, 'v) flat_adapter \<Rightarrow> ('k, 'v) flattening option \<Rightarrow>
     (('k \<times> 'v) \<times> ('k, 'v) flatten) option" where
  "flatten_next_back_loop front it rear =
    (case and_then_or_clear flattening_next_back rear of
       (Some x, rear) \<Rightarrow> Some (x, \<lparr>fl_front = front, fl_iter = it, fl_back = rear\<rparr>)
     | (None, rear) \<Rightarrow>
         (case flat_adapter_next_back it of
            Some (fl, it) \<Rightarrow> flatten_next_back_loop front it (Some fl)
          | None \<Rightarrow>
              (case and_then_or_clear flattening_next_back front of
                 (Some x, front) \<Rightarrow> Some (x, \<lparr>fl_front = front, fl_iter = it, fl_back = rear\<rparr>)
               | (None, front) \<Rightarrow> None)))"
  by auto
termination
  by (relation "measure (\<lambda>(front, it, rear). length it)")
    (auto simp: flat_adapter_next_back_def split: if_splits prod.splits)

declare flatten_next_back_loop.simps [simp del]

definition flatten_next_back :: "('k, 'v) flatten \<Rightarrow> (('k \<times> 'v) \<times> ('k, 'v) flatten) option" where
  "flatten_next_back s = flatten_next_back_loop (fl_front s) (fl_iter s) (fl_back s)"

text \<open>A \<^verbatim>\<open>for\<close> loop takes items until there are none; \<open>n\<close> bounds their number.\<close>

primrec drain :: "('s \<Rightarrow> ('x \<times> 's) option) \<Rightarrow> nat \<Rightarrow> 's \<Rightarrow> 'x list" where
  "drain step 0 s = []"
| "drain step (Suc n) s = (case step s of None \<Rightarrow> [] | Some (x, s) \<Rightarrow> x # drain step n s)"

section \<open>What is left to yield\<close>

primrec flattening_items :: "('k, 'v) flattening \<Rightarrow> ('k \<times> 'v) list" where
  "flattening_items (Flattening k vs) = map (Pair k) vs"

definition front_items :: "('k, 'v) flattening option \<Rightarrow> ('k \<times> 'v) list" where
  "front_items opt = (case opt of None \<Rightarrow> [] | Some fl \<Rightarrow> flattening_items fl)"

definition flat_items :: "('k, 'v) flat_adapter \<Rightarrow> ('k \<times> 'v) list" where
  "flat_items it = concat (map (\<lambda>(k, vs). map (Pair k) vs) it)"

definition flatten_items :: "('k, 'v) flatten \<Rightarrow> ('k \<times> 'v) list" where
  "flatten_items s = front_items (fl_front s) @ flat_items (fl_iter s) @ front_items (fl_back s)"

lemma flat_items_simps [simp]:
  "flat_items [] = []" "flat_items ((k, vs) # it) = map (Pair k) vs @ flat_items it"
  "flat_items (xs @ ys) = flat_items xs @ flat_items ys"
  by (simp_all add: flat_items_def)

lemma front_items_simps [simp]: "front_items None = []" "front_items (Some fl) = flattening_items fl"
  by (simp_all add: front_items_def)

lemma flatten_start_items [simp]: "flatten_items (flatten_start it) = flat_items it"
  by (simp add: flatten_items_def flatten_start_def)

lemma flat_adapter_next_back_Some:
  "flat_adapter_next_back it = Some (fl, it') \<longleftrightarrow> (\<exists>k vs. fl = Flattening k vs \<and> it = it' @ [(k, vs)])"
  by (cases it rule: rev_cases) (auto simp: flat_adapter_next_back_def)

lemma flat_adapter_next_back_None [simp]: "flat_adapter_next_back it = None \<longleftrightarrow> it = []"
  by (cases it rule: rev_cases) (auto simp: flat_adapter_next_back_def)

lemma step_front:
  assumes "and_then_or_clear flattening_next opt = (r, opt')"
  shows "(case r of None \<Rightarrow> opt' = None \<and> front_items opt = [] | Some x \<Rightarrow> front_items opt = x # front_items opt')"
proof (cases opt)
  case (Some fl)
  then show ?thesis
    using assms by (cases fl rule: flattening_next.cases) (auto simp: and_then_or_clear_def front_items_def)
qed (use assms in \<open>auto simp: and_then_or_clear_def front_items_def\<close>)

lemma step_back:
  assumes "and_then_or_clear flattening_next_back opt = (r, opt')"
  shows "(case r of None \<Rightarrow> opt' = None \<and> front_items opt = [] | Some x \<Rightarrow> front_items opt = front_items opt' @ [x])"
proof (cases opt)
  case (Some fl)
  obtain k vs where fl: "fl = Flattening k vs" by (cases fl)
  show ?thesis
    using assms Some fl by (cases vs rule: rev_cases)
      (auto simp: and_then_or_clear_def front_items_def flattening_next_back_def)
qed (use assms in \<open>auto simp: and_then_or_clear_def front_items_def\<close>)

lemma next_loop_items:
  "(case flatten_next_loop front it rear of
      None \<Rightarrow> front_items front @ flat_items it @ front_items rear = []
    | Some (x, s) \<Rightarrow> front_items front @ flat_items it @ front_items rear = x # flatten_items s)"
proof (induction front it rear rule: flatten_next_loop.induct)
  case (1 front it rear)
  obtain r front' where r: "and_then_or_clear flattening_next front = (r, front')"
    by (cases "and_then_or_clear flattening_next front")
  obtain r2 rear' where r2: "and_then_or_clear flattening_next rear = (r2, rear')"
    by (cases "and_then_or_clear flattening_next rear")
  show ?case
  proof (cases r)
    case (Some x)
    then show ?thesis
      using r step_front [OF r] by (subst flatten_next_loop.simps) (simp add: flatten_items_def)
  next
    case None
    note f = r [unfolded None]
    show ?thesis
    proof (cases it rule: flat_adapter_next.cases)
      case n: 1
      then show ?thesis
        using f step_front [OF f] r2 step_front [OF r2]
        by (subst flatten_next_loop.simps) (auto simp: flatten_items_def split: option.splits)
    next
      case (2 k vs it')
      have "flatten_next_loop front it rear = flatten_next_loop (Some (Flattening k vs)) it' rear"
        using f 2 by (subst flatten_next_loop.simps) simp
      then show ?thesis
        using 1 [OF f [symmetric] refl, of "(Flattening k vs, it')"] 2 step_front [OF f]
        by (simp split: option.splits prod.splits)
    qed
  qed
qed

lemma next_back_loop_items:
  "(case flatten_next_back_loop front it rear of
      None \<Rightarrow> front_items front @ flat_items it @ front_items rear = []
    | Some (x, s) \<Rightarrow> front_items front @ flat_items it @ front_items rear = flatten_items s @ [x])"
proof (induction front it rear rule: flatten_next_back_loop.induct)
  case (1 front it rear)
  obtain r rear' where r: "and_then_or_clear flattening_next_back rear = (r, rear')"
    by (cases "and_then_or_clear flattening_next_back rear")
  obtain r2 front' where r2: "and_then_or_clear flattening_next_back front = (r2, front')"
    by (cases "and_then_or_clear flattening_next_back front")
  show ?case
  proof (cases r)
    case (Some x)
    then show ?thesis
      using r step_back [OF r] by (subst flatten_next_back_loop.simps) (simp add: flatten_items_def)
  next
    case None
    note b = r [unfolded None]
    show ?thesis
    proof (cases "flat_adapter_next_back it")
      case n: None
      then show ?thesis
        using b step_back [OF b] r2 step_back [OF r2] n n [unfolded flat_adapter_next_back_None]
        by (subst flatten_next_back_loop.simps) (auto simp: flatten_items_def simp del: flat_adapter_next_back_None split: option.splits)
    next
      case (Some p)
      obtain fl it' where p: "p = (fl, it')" by (cases p)
      obtain k vs where "fl = Flattening k vs" "it = it' @ [(k, vs)]"
        using Some p by (auto simp: flat_adapter_next_back_Some)
      then have "front_items (Some fl) = map (Pair k) vs" "flat_items it = flat_items it' @ map (Pair k) vs"
        by simp_all
      moreover have "flatten_next_back_loop front it rear = flatten_next_back_loop front it' (Some fl)"
        using b Some p by (subst flatten_next_back_loop.simps) simp
      ultimately show ?thesis
        using 1 [OF b [symmetric] refl Some, of fl it'] p step_back [OF b]
        by (simp split: option.splits prod.splits)
    qed
  qed
qed

lemma flatten_next_items:
  "(case flatten_next s of None \<Rightarrow> flatten_items s = [] | Some (x, s') \<Rightarrow> flatten_items s = x # flatten_items s')"
  using next_loop_items [of "fl_front s" "fl_iter s" "fl_back s"]
  unfolding flatten_next_def flatten_items_def [of s] .

lemma flatten_next_back_items:
  "(case flatten_next_back s of
      None \<Rightarrow> flatten_items s = [] | Some (x, s') \<Rightarrow> flatten_items s = flatten_items s' @ [x])"
  using next_back_loop_items [of "fl_front s" "fl_iter s" "fl_back s"]
  unfolding flatten_next_back_def flatten_items_def [of s] .

lemma drain_next: "length (flatten_items s) \<le> n \<Longrightarrow> drain flatten_next n s = flatten_items s"
proof (induction n arbitrary: s)
  case (Suc n)
  then show ?case using flatten_next_items [of s] by (auto split: option.splits)
qed simp

lemma drain_next_back: "length (flatten_items s) \<le> n \<Longrightarrow> drain flatten_next_back n s = rev (flatten_items s)"
proof (induction n arbitrary: s)
  case (Suc n)
  then show ?case using flatten_next_back_items [of s] by (auto split: option.splits)
qed simp

end
