(* ===== verification/Opaque.thy ===== *)
theory Opaque
  imports Message_Api Flat_Iteration Plain_Bytes
begin

text \<open>
  Opaque messages (\<^verbatim>\<open>src/src/encoding/opaque.rs\<close>): a value is kept by its wire type alone, and a message
  is a \<^verbatim>\<open>BTreeMap\<close> from tags to the values found under them. The map is a list of entries with
  ascending tags. The type promises to hold any potentially valid message and to write back the very
  bytes it was read from; its \<open>raw_message\<close> keeps the distinguished contract of \<open>Message_Codec\<close>, from
  which that promise follows.
\<close>

section \<open>Opaque values\<close>

datatype opaque_value =
    OVarint u64
  | OLengthDelimited bytes
  | OThirtyTwoBit bytes
  | OSixtyFourBit bytes

definition opaque_u64 :: "u64 \<Rightarrow> opaque_value" where
  "opaque_u64 value = OVarint value"

definition opaque_i64 :: "u64 \<Rightarrow> opaque_value" where
  "opaque_i64 value = OVarint (i64_to_unsigned value)"

definition opaque_u32 :: "u32 \<Rightarrow> opaque_value" where
  "opaque_u32 value = OVarint (ucast value)"

definition opaque_i32 :: "u32 \<Rightarrow> opaque_value" where
  "opaque_i32 value = OVarint (i64_to_unsigned (scast value))"

definition opaque_u16 :: "u16 \<Rightarrow> opaque_value" where
  "opaque_u16 value = OVarint (ucast value)"

definition opaque_i16 :: "u16 \<Rightarrow> opaque_value" where
  "opaque_i16 value = OVarint (i64_to_unsigned (scast value))"

definition opaque_u8 :: "u8 \<Rightarrow> opaque_value" where
  "opaque_u8 value = OVarint (ucast value)"

definition opaque_i8 :: "u8 \<Rightarrow> opaque_value" where
  "opaque_i8 value = OVarint (i64_to_unsigned (scast value))"

definition opaque_bool :: "bool \<Rightarrow> opaque_value" where
  "opaque_bool value = OVarint (if value then 1 else 0)"

definition opaque_fixed_64 :: "u64 \<Rightarrow> opaque_value" where
  "opaque_fixed_64 value = OSixtyFourBit (le_bytes 8 value)"

definition opaque_fixed_32 :: "u32 \<Rightarrow> opaque_value" where
  "opaque_fixed_32 value = OThirtyTwoBit (le_bytes 4 value)"

definition opaque_bytes :: "bytes \<Rightarrow> opaque_value" where
  "opaque_bytes value = OLengthDelimited value"

definition opaque_message_value :: "('s, 'r) raw_message \<Rightarrow> 's \<Rightarrow> opaque_value option" where
  "opaque_message_value m value = map_option OLengthDelimited (encode_to_vec m value)"

primrec opaque_wire_type :: "opaque_value \<Rightarrow> wire_type" where
  "opaque_wire_type (OVarint val) = WtVarint"
| "opaque_wire_type (OLengthDelimited val) = WtLengthDelimited"
| "opaque_wire_type (OThirtyTwoBit val) = WtThirtyTwoBit"
| "opaque_wire_type (OSixtyFourBit val) = WtSixtyFourBit"

primrec opaque_encode_value :: "opaque_value \<Rightarrow> bytes \<Rightarrow> bytes" where
  "opaque_encode_value (OVarint val) buf = encode_varint val buf"
| "opaque_encode_value (OLengthDelimited val) buf = encode_varint (of_nat (length val)) buf @ val"
| "opaque_encode_value (OThirtyTwoBit val) buf = buf @ val"
| "opaque_encode_value (OSixtyFourBit val) buf = buf @ val"

definition opaque_packed :: "opaque_value list \<Rightarrow> opaque_value" where
  "opaque_packed items = OLengthDelimited (fold opaque_encode_value items [])"

primrec opaque_prepend_value :: "'r rev_ops \<Rightarrow> opaque_value \<Rightarrow> 'r \<Rightarrow> 'r option" where
  "opaque_prepend_value rops (OVarint val) buf = prepend_varint rops val buf"
| "opaque_prepend_value rops (OLengthDelimited val) buf = do {
     buf \<leftarrow> r_prepend_slice rops val buf;
     prepend_varint rops (of_nat (length val)) buf
   }"
| "opaque_prepend_value rops (OThirtyTwoBit val) buf = r_prepend_slice rops val buf"
| "opaque_prepend_value rops (OSixtyFourBit val) buf = r_prepend_slice rops val buf"

definition opaque_encode_field ::
    "opaque_value \<Rightarrow> u32 \<Rightarrow> tag_writer \<Rightarrow> bytes \<Rightarrow> (tag_writer \<times> bytes) option" where
  "opaque_encode_field v tag tw buf = do {
     (tw, buf) \<leftarrow> encode_key tag (opaque_wire_type v) tw buf;
     Some (tw, opaque_encode_value v buf)
   }"

definition opaque_prepend_field ::
    "'r rev_ops \<Rightarrow> opaque_value \<Rightarrow> u32 \<Rightarrow> tag_rev_writer \<times> 'r \<Rightarrow> (tag_rev_writer \<times> 'r) option" where
  "opaque_prepend_field rops v tag st = do {
     (tw, buf) \<leftarrow> begin_field rops tag (opaque_wire_type v) st;
     buf \<leftarrow> opaque_prepend_value rops v buf;
     Some (tw, buf)
   }"

primrec opaque_value_encoded_len :: "opaque_value \<Rightarrow> nat" where
  "opaque_value_encoded_len (OVarint val) = encoded_len_varint val"
| "opaque_value_encoded_len (OLengthDelimited val) = encoded_len_varint (of_nat (length val)) + length val"
| "opaque_value_encoded_len (OThirtyTwoBit val) = 4"
| "opaque_value_encoded_len (OSixtyFourBit val) = 8"

definition opaque_decode_value :: "wire_type \<Rightarrow> bytes capped \<Rightarrow> (opaque_value \<times> bytes capped) outcome" where
  "opaque_decode_value wire_type cp = (case wire_type of
     WtVarint \<Rightarrow> obind (capped_decode_varint slice_ops cp) (\<lambda>(v, cp). Done (OVarint v, cp))
   | WtLengthDelimited \<Rightarrow>
       obind (take_length_delimited slice_ops cp) (\<lambda>inner.
         obind (cap_copy (remaining_before_cap slice_ops inner) inner) (\<lambda>(bs, inner).
           Done (OLengthDelimited bs, cap_outer cp inner)))
   | WtThirtyTwoBit \<Rightarrow>
       (if remaining_before_cap slice_ops cp < 4 then Fail Truncated
        else obind (cap_copy 4 cp) (\<lambda>(bs, cp). Done (OThirtyTwoBit bs, cp)))
   | WtSixtyFourBit \<Rightarrow>
       (if remaining_before_cap slice_ops cp < 8 then Fail Truncated
        else obind (cap_copy 8 cp) (\<lambda>(bs, cp). Done (OSixtyFourBit bs, cp))))"

definition opaque_borrow_decode_value ::
    "wire_type \<Rightarrow> bytes capped \<Rightarrow> (opaque_value \<times> bytes capped) outcome" where
  "opaque_borrow_decode_value wire_type cp = (case wire_type of
     WtVarint \<Rightarrow> obind (capped_decode_varint slice_ops cp) (\<lambda>(v, cp). Done (OVarint v, cp))
   | WtLengthDelimited \<Rightarrow>
       obind (take_borrowed_length_delimited cp) (\<lambda>(bs, cp). Done (OLengthDelimited bs, cp))
   | WtThirtyTwoBit \<Rightarrow>
       (if remaining_before_cap slice_ops cp < 4 then Fail Truncated
        else obind (cap_copy 4 cp) (\<lambda>(bs, cp). Done (OThirtyTwoBit bs, cp)))
   | WtSixtyFourBit \<Rightarrow>
       (if remaining_before_cap slice_ops cp < 8 then Fail Truncated
        else obind (cap_copy 8 cp) (\<lambda>(bs, cp). Done (OSixtyFourBit bs, cp))))"

section \<open>Opaque messages\<close>

type_synonym opaque_message = "(u32 \<times> opaque_value list) list"

definition opaque_new :: opaque_message where
  "opaque_new = []"

definition opaque_clear :: "opaque_message \<Rightarrow> opaque_message" where
  "opaque_clear m = []"

text \<open>\<^verbatim>\<open>entry(tag).or_default().push(value)\<close>\<close>

fun opaque_insert :: "u32 \<Rightarrow> opaque_value \<Rightarrow> opaque_message \<Rightarrow> opaque_message" where
  "opaque_insert tag value [] = [(tag, [value])]"
| "opaque_insert tag value ((t, vs) # m) =
    (if tag = t then (t, vs @ [value]) # m
     else if tag < t then (tag, [value]) # (t, vs) # m
     else (t, vs) # opaque_insert tag value m)"

definition opaque_index :: "opaque_message \<Rightarrow> u32 \<Rightarrow> opaque_value list option" where
  "opaque_index m tag = map_of m tag"

text \<open>The items of the iterator, and of the iterator run backwards, as a loop takes them.\<close>

definition opaque_iter :: "opaque_message \<Rightarrow> (u32 \<times> opaque_value) list" where
  "opaque_iter m = drain flatten_next (sum_list (map (\<lambda>(_, vs). length vs) m)) (flatten_start m)"

definition opaque_iter_rev :: "opaque_message \<Rightarrow> (u32 \<times> opaque_value) list" where
  "opaque_iter_rev m = drain flatten_next_back (sum_list (map (\<lambda>(_, vs). length vs) m)) (flatten_start m)"

definition opaque_from_iter :: "(u32 \<times> opaque_value) list \<Rightarrow> opaque_message" where
  "opaque_from_iter items = fold (\<lambda>(tag, value). opaque_insert tag value) items opaque_new"

fun opaque_encode_items :: "(u32 \<times> opaque_value) list \<Rightarrow> tag_writer \<Rightarrow> bytes \<Rightarrow> bytes option" where
  "opaque_encode_items [] tw buf = Some buf"
| "opaque_encode_items ((tag, value) # items) tw buf = do {
     (tw, buf) \<leftarrow> opaque_encode_field value tag tw buf;
     opaque_encode_items items tw buf
   }"

definition opaque_raw_encode :: "opaque_message \<Rightarrow> bytes \<Rightarrow> bytes option" where
  "opaque_raw_encode m buf = opaque_encode_items (opaque_iter m) tag_writer_new buf"

fun opaque_prepend_items ::
    "'r rev_ops \<Rightarrow> (u32 \<times> opaque_value) list \<Rightarrow> tag_rev_writer \<times> 'r \<Rightarrow> (tag_rev_writer \<times> 'r) option" where
  "opaque_prepend_items rops [] st = Some st"
| "opaque_prepend_items rops ((tag, value) # items) st =
     opaque_prepend_field rops value tag st \<bind> opaque_prepend_items rops items"

definition opaque_raw_prepend :: "'r rev_ops \<Rightarrow> opaque_message \<Rightarrow> 'r \<Rightarrow> 'r option" where
  "opaque_raw_prepend rops m buf = do {
     st \<leftarrow> opaque_prepend_items rops (opaque_iter_rev m) (tag_rev_writer_new, buf);
     (_, buf) \<leftarrow> trw_finalize rops st;
     Some buf
   }"

fun opaque_measure_items :: "(u32 \<times> opaque_value) list \<Rightarrow> tag_measurer \<Rightarrow> nat option" where
  "opaque_measure_items [] tm = Some 0"
| "opaque_measure_items ((tag, value) # items) tm = do {
     (k, tm) \<leftarrow> runtime_key_len tag tm;
     n \<leftarrow> opaque_measure_items items tm;
     Some (k + opaque_value_encoded_len value + n)
   }"

definition opaque_raw_encoded_len :: "opaque_message \<Rightarrow> nat option" where
  "opaque_raw_encoded_len m = opaque_measure_items (opaque_iter m) tag_measurer_new"

definition opaque_decode_field ::
    "u32 \<Rightarrow> wire_type \<Rightarrow> bool \<Rightarrow> opaque_message \<Rightarrow> bytes capped \<Rightarrow> decode_context \<Rightarrow>
     (opaque_message \<times> bytes capped) outcome" where
  "opaque_decode_field tag wire_type duplicated m cp ctx =
    obind (opaque_decode_value wire_type cp) (\<lambda>(v, cp). Done (opaque_insert tag v m, cp))"

definition opaque_decode_field_distinguished ::
    "u32 \<Rightarrow> wire_type \<Rightarrow> bool \<Rightarrow> opaque_message \<Rightarrow> bytes capped \<Rightarrow> restricted_context \<Rightarrow>
     (opaque_message \<times> canonicity \<times> bytes capped) outcome" where
  "opaque_decode_field_distinguished tag wire_type duplicated m cp ctx =
    obind (opaque_decode_field tag wire_type duplicated m cp (into_inner ctx)) (\<lambda>(m, cp). Done (m, Canonical, cp))"

definition opaque_raw :: "'r rev_ops \<Rightarrow> (opaque_message, 'r) raw_message" where
  "opaque_raw rops = \<lparr>
     rm_empty = opaque_new,
     rm_is_empty = (\<lambda>m. m = []),
     rm_clear = opaque_clear,
     rm_encode = opaque_raw_encode,
     rm_prepend = opaque_raw_prepend rops,
     rm_len = opaque_raw_encoded_len,
     rm_decode_field = opaque_decode_field,
     rm_decode_field_dist = opaque_decode_field_distinguished\<rparr>"

definition opaque_borrow_decode_field ::
    "u32 \<Rightarrow> wire_type \<Rightarrow> bool \<Rightarrow> opaque_message \<Rightarrow> bytes capped \<Rightarrow> decode_context \<Rightarrow>
     (opaque_message \<times> bytes capped) outcome" where
  "opaque_borrow_decode_field tag wire_type duplicated m cp ctx =
    obind (opaque_borrow_decode_value wire_type cp) (\<lambda>(v, cp). Done (opaque_insert tag v m, cp))"

definition opaque_borrow_decode_field_distinguished ::
    "u32 \<Rightarrow> wire_type \<Rightarrow> bool \<Rightarrow> opaque_message \<Rightarrow> bytes capped \<Rightarrow> restricted_context \<Rightarrow>
     (opaque_message \<times> canonicity \<times> bytes capped) outcome" where
  "opaque_borrow_decode_field_distinguished tag wire_type duplicated m cp ctx =
    obind (opaque_borrow_decode_field tag wire_type duplicated m cp (into_inner ctx)) (\<lambda>(m, cp). Done (m, Canonical, cp))"

text \<open>The message type with its borrowing decoders.\<close>

definition opaque_borrowed :: "'r rev_ops \<Rightarrow> (opaque_message, 'r) raw_message" where
  "opaque_borrowed rops = (opaque_raw rops)
     \<lparr>rm_decode_field := opaque_borrow_decode_field,
      rm_decode_field_dist := opaque_borrow_decode_field_distinguished\<rparr>"

end
