(* ===== verification/Opaque_Laws.thy ===== *)
theory Opaque_Laws
  imports Opaque Derived_Laws
begin

text \<open>
  What opaque values and messages are as bytes, and the proof that the opaque message keeps the
  distinguished contract of a message type: its values are the raw values of the wire types, its
  iterator lists the entries in the order of their tags, and reading a message is inserting its fields
  in the order in which they come.
\<close>

section \<open>Values\<close>

primrec opaque_value_wf :: "opaque_value \<Rightarrow> bool" where
  "opaque_value_wf (OVarint val) = True"
| "opaque_value_wf (OLengthDelimited val) = (length val < 2 ^ 64)"
| "opaque_value_wf (OThirtyTwoBit val) = (length val = 4)"
| "opaque_value_wf (OSixtyFourBit val) = (length val = 8)"

primrec opaque_value_bytes :: "opaque_value \<Rightarrow> bytes" where
  "opaque_value_bytes (OVarint val) = varint_bytes val"
| "opaque_value_bytes (OLengthDelimited val) = delimited val"
| "opaque_value_bytes (OThirtyTwoBit val) = val"
| "opaque_value_bytes (OSixtyFourBit val) = val"

lemma opaque_encode_value_eq: "opaque_encode_value v buf = buf @ opaque_value_bytes v"
  by (cases v) (simp_all add: encode_varint_bytes delimited_def)

lemma opaque_value_encoded_len_eq:
  "opaque_value_wf v \<Longrightarrow> opaque_value_encoded_len v = length (opaque_value_bytes v)"
  by (cases v) (simp_all add: encoded_len_varint_bytes delimited_def)

lemma opaque_raw_value: "raw_value wt bs \<longleftrightarrow> (\<exists>v. opaque_value_wf v \<and> opaque_wire_type v = wt \<and> opaque_value_bytes v = bs)"
proof
  assume "raw_value wt bs"
  then show "\<exists>v. opaque_value_wf v \<and> opaque_wire_type v = wt \<and> opaque_value_bytes v = bs"
    unfolding raw_value_def
    by (cases wt) (auto simp: delimited_def intro: exI [of _ "OVarint _"] exI [of _ "OLengthDelimited _"]
        exI [of _ "OThirtyTwoBit bs"] exI [of _ "OSixtyFourBit bs"])
next
  assume "\<exists>v. opaque_value_wf v \<and> opaque_wire_type v = wt \<and> opaque_value_bytes v = bs"
  then obtain v where "opaque_value_wf v" "opaque_wire_type v = wt" "opaque_value_bytes v = bs" by blast
  then show "raw_value wt bs" by (cases v) (auto simp: raw_value_def delimited_def)
qed

lemma cap_copy_Done [simp]:
  "cap_copy n cp = Done (bs, cp') \<longleftrightarrow>
    length bs = n \<and> cap_buf cp = bs @ cap_buf cp' \<and> cap_extra cp' = cap_extra cp"
  by (cases cp, cases cp') (auto simp: cap_copy_def)

lemma fixed_copy_Done:
  assumes "0 < n"
  shows "(if length (cap_buf cp) - cap_extra cp < n then Fail Truncated
      else obind (cap_copy n cp) (\<lambda>(bs, cp). Done (f bs, cp))) = Done (v, cp') \<longleftrightarrow>
    (\<exists>bs. v = f bs \<and> length bs = n \<and> cap_buf cp = bs @ cap_buf cp' \<and> cap_extra cp' = cap_extra cp \<and>
      cap_extra cp \<le> length (cap_buf cp'))"
  using assms by auto

lemma delimited_copy_Done:
  "obind (take_length_delimited slice_ops cp) (\<lambda>inner.
      obind (cap_copy (length (cap_buf inner) - cap_extra inner) inner) (\<lambda>(bs, inner).
        Done (f bs, cap_outer cp inner))) = Done (v, cp') \<longleftrightarrow>
    (\<exists>d. v = f d \<and> length d < 2 ^ 64 \<and> cap_buf cp = delimited d @ cap_buf cp' \<and>
      cap_extra cp' = cap_extra cp \<and> cap_extra cp \<le> length (cap_buf cp'))" (is "?l \<longleftrightarrow> ?r")
proof
  assume ?l
  then obtain inner bs c where 1: "take_length_delimited slice_ops cp = Done inner"
    "cap_copy (length (cap_buf inner) - cap_extra inner) inner = Done (bs, c)" "v = f bs" "cp' = cap_outer cp c"
    by (auto simp del: take_length_delimited_Done cap_copy_Done)
  obtain d rest where d: "cap_buf cp = delimited d @ rest" "cap_buf inner = d @ rest" "length d < 2 ^ 64"
    "cap_extra inner = length rest" "cap_extra cp \<le> length rest"
    by (rule take_length_delimitedE [OF 1(1)])
  have "d = bs" "rest = cap_buf c" using 1(2) d by auto
  then show ?r using 1 d by (auto simp: cap_outer_def)
next
  assume ?r
  then obtain d where d: "v = f d" "length d < 2 ^ 64" "cap_buf cp = delimited d @ cap_buf cp'"
    "cap_extra cp' = cap_extra cp" "cap_extra cp \<le> length (cap_buf cp')" by blast
  let ?in = "\<lparr>cap_buf = d @ cap_buf cp', cap_extra = length (cap_buf cp')\<rparr>"
  let ?out = "\<lparr>cap_buf = cap_buf cp', cap_extra = length (cap_buf cp')\<rparr>"
  have "cp = \<lparr>cap_buf = delimited d @ cap_buf cp', cap_extra = cap_extra cp\<rparr>" using d by (cases cp) simp
  then have "take_length_delimited slice_ops cp = Done ?in"
    using take_delimited_eq [OF d(2) d(5)] by simp
  moreover have "cap_copy (length (cap_buf ?in) - cap_extra ?in) ?in = Done (d, ?out)" by simp
  moreover have "cap_outer cp ?out = cp'" using d by (simp add: cap_outer_def)
  ultimately show ?l using d(1) by (simp del: take_length_delimited_Done cap_copy_Done)
qed

text \<open>A varint that runs over the cap is noticed by the loop around it; the other values never do.\<close>

lemma opaque_decode_value_Done:
  "opaque_decode_value wt cp = Done (v, cp') \<longleftrightarrow>
    opaque_value_wf v \<and> opaque_wire_type v = wt \<and> cap_buf cp = opaque_value_bytes v @ cap_buf cp' \<and>
    cap_extra cp' = cap_extra cp \<and> (wt = WtVarint \<or> cap_extra cp \<le> length (cap_buf cp'))"
proof (cases wt)
  case WtVarint
  then show ?thesis by (cases v; cases cp') (auto simp: opaque_decode_value_def)
next
  case WtLengthDelimited
  show ?thesis
    unfolding opaque_decode_value_def WtLengthDelimited wire_type.case remaining_before_cap_slice delimited_copy_Done
    by (cases v) auto
next
  case WtThirtyTwoBit
  show ?thesis
    unfolding opaque_decode_value_def WtThirtyTwoBit wire_type.case remaining_before_cap_slice fixed_copy_Done [OF zero_less_numeral]
    by (cases v) auto
next
  case WtSixtyFourBit
  show ?thesis
    unfolding opaque_decode_value_def WtSixtyFourBit wire_type.case remaining_before_cap_slice fixed_copy_Done [OF zero_less_numeral]
    by (cases v) auto
qed

lemma opaque_decode_value_not_Panic: "opaque_decode_value wt cp \<noteq> Panic"
  by (auto simp: opaque_decode_value_def cap_copy_def obind_Panic_iff split: wire_type.splits)

lemma opaque_borrow_eq: "opaque_borrow_decode_value wt cp = opaque_decode_value wt cp"
proof (cases wt)
  case WtLengthDelimited
  then show ?thesis
    by (auto simp: opaque_borrow_decode_value_def opaque_decode_value_def take_borrowed_length_delimited_def
        take_length_delimited_def obind_assoc Let_def cap_copy_def cap_outer_def intro!: arg_cong2 [where f = obind])
qed (simp_all add: opaque_borrow_decode_value_def opaque_decode_value_def)

section \<open>The ordered map\<close>

definition opaque_shape :: "opaque_message \<Rightarrow> bool" where
  "opaque_shape m \<longleftrightarrow> sorted_wrt (<) (map fst m) \<and> (\<forall>(t, vs) \<in> set m. vs \<noteq> [])"

lemma opaque_shape_simps [simp]:
  "opaque_shape []"
  "opaque_shape ((t, vs) # m) \<longleftrightarrow> vs \<noteq> [] \<and> (\<forall>u \<in> fst ` set m. t < u) \<and> opaque_shape m"
  by (auto simp: opaque_shape_def)

lemma opaque_iter_eq: "opaque_iter m = flat_items m" "opaque_iter_rev m = rev (flat_items m)"
proof -
  have "length (flat_items m) = sum_list (map (\<lambda>(_, vs). length vs) m)" by (induction m) auto
  then show "opaque_iter m = flat_items m" "opaque_iter_rev m = rev (flat_items m)"
    by (simp_all add: opaque_iter_def opaque_iter_rev_def drain_next drain_next_back)
qed

lemma opaque_insert_tags: "fst ` set (opaque_insert t v m) = insert t (fst ` set m)"
  by (induction t v m rule: opaque_insert.induct) auto

lemma opaque_insert_shape: "opaque_shape m \<Longrightarrow> opaque_shape (opaque_insert t v m)"
  by (induction t v m rule: opaque_insert.induct) (auto simp: opaque_insert_tags)

text \<open>An insertion goes behind the items of its tag and in front of those of greater tags.\<close>

lemma flat_items_tags: "fst ` set (flat_items m) \<subseteq> fst ` set m"
  by (induction m) force+

lemma flat_items_insert:
  "opaque_shape m \<Longrightarrow>
   flat_items (opaque_insert t v m) =
     filter (\<lambda>x. fst x \<le> t) (flat_items m) @ (t, v) # filter (\<lambda>x. t < fst x) (flat_items m)"
proof (induction t v m rule: opaque_insert.induct)
  case (2 tag x t vs m)
  have above: "filter (\<lambda>x. fst x \<le> u) (flat_items m) = []" "filter (\<lambda>x. u < fst x) (flat_items m) = flat_items m"
    if "u \<le> t" for u
    using that 2(2) flat_items_tags [of m] by (force simp: filter_empty_conv filter_id_conv)+
  have own: "filter (\<lambda>x. fst x \<le> u) (map (Pair t) vs) = (if t \<le> u then map (Pair t) vs else [])"
    "filter (\<lambda>x. u < fst x) (map (Pair t) vs) = (if t \<le> u then [] else map (Pair t) vs)" for u
    by (auto simp: filter_empty_conv filter_id_conv)
  show ?case
    using 2 above own by (auto simp: not_less_iff_gr_or_eq less_le_not_le)
qed simp

lemma sorted_flat_items: "opaque_shape m \<Longrightarrow> sorted (map fst (flat_items m))"
proof (induction m)
  case (Cons e m)
  obtain t vs where e: "e = (t, vs)" by (cases e)
  have "\<forall>u \<in> fst ` set (flat_items m). t \<le> u"
    using Cons.prems flat_items_tags [of m] e by fastforce
  moreover have "sorted (map fst (map (Pair t) vs))" by (induction vs) auto
  ultimately show ?case using Cons e by (auto simp: sorted_append)
qed simp

lemma flat_items_inj: "opaque_shape m \<Longrightarrow> opaque_shape n \<Longrightarrow> flat_items m = flat_items n \<Longrightarrow> m = n"
proof (induction m arbitrary: n)
  case Nil
  then show ?case by (cases n) auto
next
  case (Cons e m)
  obtain t vs where e: "e = (t, vs)" by (cases e)
  obtain f n' where n: "n = f # n'" using Cons.prems e by (cases n) auto
  obtain u ws where f: "f = (u, ws)" by (cases f)
  have split: "filter (\<lambda>x. fst x = t) (flat_items ((t, vs) # m)) = map (Pair t) vs"
      "filter (\<lambda>x. fst x \<noteq> t) (flat_items ((t, vs) # m)) = flat_items m"
    if "opaque_shape ((t, vs) # m)" for t :: u32 and vs and m :: opaque_message
    using that flat_items_tags [of m] by (force simp: filter_empty_conv filter_id_conv)+
  have "u = t"
    using Cons.prems unfolding n f e by (cases vs; cases ws) auto
  moreover have "map (Pair t) vs = map (Pair t) ws" "flat_items m = flat_items n'"
    using split [of t vs m] split [of t ws n'] Cons.prems(1,2)
      arg_cong [OF Cons.prems(3), of "filter (\<lambda>x. fst x = t)"]
      arg_cong [OF Cons.prems(3), of "filter (\<lambda>x. fst x \<noteq> t)"] \<open>u = t\<close>
    unfolding n f e by (simp_all del: flat_items_simps)
  moreover have "vs = ws" using calculation(2) by (rule map_injective) (simp add: inj_def)
  ultimately show ?case using Cons unfolding n f e by simp
qed

abbreviation insert_items :: "(u32 \<times> opaque_value) list \<Rightarrow> opaque_message \<Rightarrow> opaque_message" where
  "insert_items items \<equiv> fold (\<lambda>(tag, value). opaque_insert tag value) items"

lemma insert_items_shape: "opaque_shape m \<Longrightarrow> opaque_shape (insert_items items m)"
  by (induction items arbitrary: m) (auto simp: opaque_insert_shape)

lemma insert_items_sorted:
  "opaque_shape m \<Longrightarrow> sorted (map fst (flat_items m @ items)) \<Longrightarrow> flat_items (insert_items items m) = flat_items m @ items"
proof (induction items arbitrary: m)
  case (Cons x items)
  obtain t v where x: "x = (t, v)" by (cases x)
  have le: "\<forall>y \<in> set (flat_items m). fst y \<le> t" using Cons.prems x by (auto simp: sorted_append)
  then have "flat_items (opaque_insert t v m) = flat_items m @ [x]"
    using flat_items_insert [OF Cons.prems(1), of t v] x
    by (auto simp: filter_empty_conv filter_id_conv not_less)
  then show ?case
    using Cons.IH [of "opaque_insert t v m"] Cons.prems x by (simp add: opaque_insert_shape)
qed simp

lemma insert_items_flat: "opaque_shape m \<Longrightarrow> insert_items (flat_items m) [] = m"
  using insert_items_sorted [of "[]" "flat_items m"] sorted_flat_items [of m]
  by (intro flat_items_inj insert_items_shape) simp_all

section \<open>The three writers\<close>

definition opaque_parts :: "(u32 \<times> opaque_value) list \<Rightarrow> raw_part list" where
  "opaque_parts items = map (\<lambda>(tag, v). (tag, opaque_wire_type v, opaque_value_bytes v)) items"

lemma opaque_parts_simps [simp]:
  "opaque_parts [] = []"
  "opaque_parts ((tag, v) # items) = (tag, opaque_wire_type v, opaque_value_bytes v) # opaque_parts items"
  by (simp_all add: opaque_parts_def)

lemma opaque_parts_ascend: "tags_ascend t (opaque_parts items) \<longleftrightarrow> sorted (t # map fst items)"
proof (induction items arbitrary: t)
  case (Cons x items)
  then show ?case by (cases x) (auto intro: order_trans)
qed simp

lemma opaque_encode_items_eq:
  "opaque_encode_items items tw buf = map_option snd (write_fields (opaque_parts items) tw buf)"
  by (induction items tw buf rule: opaque_encode_items.induct)
    (auto simp: opaque_encode_field_def opaque_encode_value_eq encode_key_eq)

lemma opaque_measure_items_eq:
  "(\<forall>(tag, v) \<in> set items. opaque_value_wf v) \<Longrightarrow>
    opaque_measure_items items tm = measure_fields (opaque_parts items) tm"
proof (induction items tm rule: opaque_measure_items.induct)
  case (2 tag v items tm)
  have "opaque_value_encoded_len v = length (opaque_value_bytes v)"
    using 2 by (intro opaque_value_encoded_len_eq) simp
  then show ?case using 2 by (auto split: bind_split)
qed simp

context rev_buf_contract
begin

lemma opaque_prepends_value: "prepends (opaque_value_bytes v) (opaque_prepend_value rops v)"
proof (cases v)
  case (OVarint x)
  then show ?thesis using prepends_varint [of x] by (simp add: varint_bytes_def prepends_def)
next
  case (OLengthDelimited d)
  then show ?thesis
    using prepends_comp [OF prepends_slice [of d] prepends_varint [of "of_nat (length d)"]]
    by (simp add: varint_bytes_def delimited_def prepends_def)
qed (use prepends_slice in \<open>simp_all add: prepends_def\<close>)

lemma opaque_prepend_items_append:
  "opaque_prepend_items rops (xs @ ys) st = opaque_prepend_items rops xs st \<bind> opaque_prepend_items rops ys"
proof (induction xs arbitrary: st)
  case (Cons x xs)
  then show ?case by (cases x) (auto split: bind_split)
qed simp

lemma opaque_prepend_items_eq: "prepends_parts (opaque_parts items) (opaque_prepend_items rops (rev items))"
proof (induction items)
  case Nil
  then show ?case using prepends_parts_Nil by (simp add: prepends_parts_def)
next
  case (Cons x items)
  obtain tag v where x: "x = (tag, v)" by (cases x)
  have "opaque_prepend_items rops [x] st = opaque_prepend_field rops v tag st" for st
    by (cases "opaque_prepend_field rops v tag st") (simp_all add: x)
  then have "opaque_prepend_items rops [x] = opaque_prepend_field rops v tag" by (rule ext)
  moreover have "prepends_parts [(tag, opaque_wire_type v, opaque_value_bytes v)] (opaque_prepend_field rops v tag)"
    using prepends_parts_field [OF opaque_prepends_value, of tag "opaque_wire_type v" v]
    by (simp add: opaque_prepend_field_def [abs_def] case_prod_unfold)
  ultimately have "prepends_parts (opaque_parts [x]) (opaque_prepend_items rops [x])" by (simp add: x)
  from prepends_parts_comp [OF Cons this] show ?case
    by (simp add: x opaque_prepend_items_append [abs_def] del: opaque_prepend_items.simps(2))
qed

end

section \<open>Reading\<close>

lemma opaque_raw_sel [simp]:
  "rm_empty (opaque_raw rops) = []" "rm_is_empty (opaque_raw rops) m \<longleftrightarrow> m = []" "rm_clear (opaque_raw rops) m = []"
  "rm_encode (opaque_raw rops) = opaque_raw_encode" "rm_prepend (opaque_raw rops) = opaque_raw_prepend rops"
  "rm_len (opaque_raw rops) = opaque_raw_encoded_len" "rm_decode_field (opaque_raw rops) = opaque_decode_field"
  "rm_decode_field_dist (opaque_raw rops) = opaque_decode_field_distinguished"
  by (simp_all add: opaque_raw_def opaque_new_def opaque_clear_def)

lemma opaque_merge_complete:
  "sorted (tr_last_tag tr # map fst items) \<Longrightarrow> \<forall>(tag, v) \<in> set items. opaque_value_wf v \<Longrightarrow>
   length (fields_bytes (tr_last_tag tr) (opaque_parts items)) < fuel \<Longrightarrow>
   merge_loop (opaque_raw rops) fuel tr t m
     \<lparr>cap_buf = fields_bytes (tr_last_tag tr) (opaque_parts items) @ rest, cap_extra = length rest\<rparr> ctx =
   Done (insert_items items m, \<lparr>cap_buf = rest, cap_extra = length rest\<rparr>)"
proof (induction items arbitrary: fuel tr t m)
  case Nil
  then show ?case by (cases fuel) simp_all
next
  case (Cons x items)
  obtain tag v where x: "x = (tag, v)" by (cases x)
  obtain f where f: "fuel = Suc f" using Cons.prems by (cases fuel) auto
  let ?tail = "fields_bytes tag (opaque_parts items) @ rest"
  let ?buf = "fields_bytes (tr_last_tag tr) (opaque_parts (x # items)) @ rest"
  have key: "decode_key slice_ops tr \<lparr>cap_buf = ?buf, cap_extra = length rest\<rparr> =
      Done (tag, opaque_wire_type v, \<lparr>tr_last_tag = tag\<rparr>,
        \<lparr>cap_buf = opaque_value_bytes v @ ?tail, cap_extra = length rest\<rparr>)"
    using Cons.prems x by (simp add: decode_key_Done)
  have val: "opaque_decode_value (opaque_wire_type v) \<lparr>cap_buf = opaque_value_bytes v @ ?tail, cap_extra = length rest\<rparr> =
      Done (v, \<lparr>cap_buf = ?tail, cap_extra = length rest\<rparr>)"
    using Cons.prems x by (simp add: opaque_decode_value_Done)
  have "has_remaining slice_ops \<lparr>cap_buf = ?buf, cap_extra = length rest\<rparr> = Done True"
    by (simp add: x)
  moreover have "merge_loop (opaque_raw rops) f \<lparr>tr_last_tag = tag\<rparr> (Some tag) (opaque_insert tag v m)
      \<lparr>cap_buf = ?tail, cap_extra = length rest\<rparr> ctx =
      Done (insert_items items (opaque_insert tag v m), \<lparr>cap_buf = rest, cap_extra = length rest\<rparr>)"
  proof -
    have "0 < length (varint_bytes (key_of (tag - tr_last_tag tr) (opaque_wire_type v)))" by simp
    then have "length (fields_bytes tag (opaque_parts items)) < f"
      using Cons.prems(3) x f by (simp del: length_greater_0_conv)
    then show ?thesis using Cons.IH [of "\<lparr>tr_last_tag = tag\<rparr>" f] Cons.prems x by simp
  qed
  ultimately show ?case
    unfolding f merge_loop.simps using key val by (simp add: x opaque_decode_field_def)
qed

lemma opaque_merge_sound:
  "merge_loop (opaque_raw rops) fuel tr t m cp ctx = Done (m', cp') \<Longrightarrow>
   \<exists>items. sorted (tr_last_tag tr # map fst items) \<and> (\<forall>(tag, v) \<in> set items. opaque_value_wf v) \<and>
     m' = insert_items items m \<and> cap_extra cp' = cap_extra cp \<and> length (cap_buf cp') = cap_extra cp \<and>
     cap_buf cp = fields_bytes (tr_last_tag tr) (opaque_parts items) @ cap_buf cp'"
proof (induction fuel arbitrary: tr t m cp)
  case (Suc fuel)
  show ?case
  proof (cases "length (cap_buf cp) = cap_extra cp")
    case True
    then show ?thesis using Suc.prems by (intro exI [of _ "[]"]) simp
  next
    case False
    then obtain tag wt tr1 cp1 v cp2 where 1: "decode_key slice_ops tr cp = Done (tag, wt, tr1, cp1)"
      "opaque_decode_value wt cp1 = Done (v, cp2)"
      "merge_loop (opaque_raw rops) fuel tr1 (Some tag) (opaque_insert tag v m) cp2 ctx = Done (m', cp')"
      using Suc.prems by (auto simp: Let_def opaque_decode_field_def split: if_splits)
    obtain items where 2: "sorted (tr_last_tag tr1 # map fst items)" "\<forall>(tag, v) \<in> set items. opaque_value_wf v"
      "m' = insert_items items (opaque_insert tag v m)" "cap_extra cp' = cap_extra cp2"
      "length (cap_buf cp') = cap_extra cp2" "cap_buf cp2 = fields_bytes (tr_last_tag tr1) (opaque_parts items) @ cap_buf cp'"
      using Suc.IH [OF 1(3)] by blast
    then show ?thesis
      using 1(1,2) by (intro exI [of _ "(tag, v) # items"])
        (auto simp: decode_key_Done opaque_decode_value_Done intro: order_trans)
  qed
qed simp

lemma opaque_merge_dist:
  "merge_dist_loop (opaque_raw rops) fuel tr t m Canonical cp ctx =
    omap (\<lambda>(m, cp). (m, Canonical, cp)) (merge_loop (opaque_raw rops) fuel tr t m cp (into_inner ctx))"
proof (induction fuel arbitrary: tr t m cp)
  case (Suc fuel)
  have c: "canonicity_update Canonical Canonical = Canonical" by (simp add: canonicity_update_def)
  show ?case
    unfolding merge_dist_loop.simps merge_loop.simps
    by (simp add: opaque_decode_field_distinguished_def Let_def omap_def obind_assoc c Suc case_prod_unfold)
qed (simp add: omap_def)

section \<open>The contract of a message\<close>

definition opaque_body :: "opaque_message \<Rightarrow> bytes" where
  "opaque_body m = fields_bytes 0 (opaque_parts (flat_items m))"

definition opaque_valid :: "opaque_message \<Rightarrow> bool" where
  "opaque_valid m \<longleftrightarrow> opaque_shape m \<and> (\<forall>(tag, vs) \<in> set m. \<forall>v \<in> set vs. opaque_value_wf v) \<and>
     length (opaque_body m) < 2 ^ 64"

lemma opaque_items_wf:
  "(\<forall>(tag, v) \<in> set (flat_items m). opaque_value_wf v) \<longleftrightarrow> (\<forall>(tag, vs) \<in> set m. \<forall>v \<in> set vs. opaque_value_wf v)"
proof (induction m)
  case (Cons e m)
  then show ?case by (cases e) (auto simp: Ball_def image_def)
qed simp

lemma opaque_ascend: "opaque_shape m \<Longrightarrow> tags_ascend 0 (opaque_parts (flat_items m))"
  by (simp add: opaque_parts_ascend sorted_flat_items)

lemma opaque_body_Nil: "opaque_shape m \<Longrightarrow> opaque_body m = [] \<longleftrightarrow> m = []"
proof (cases m)
  case (Cons e n)
  obtain t vs where "e = (t, vs)" by (cases e)
  moreover assume "opaque_shape m"
  ultimately show ?thesis using Cons by (cases vs) (auto simp: opaque_body_def)
qed (simp add: opaque_body_def)

lemma opaque_merge:
  assumes "merge (opaque_raw rops) [] cp ctx = Done (m, cp')" and "length (cap_buf cp) < 2 ^ 64"
  shows "cap_buf cp = opaque_body m @ cap_buf cp' \<and> opaque_valid m"
proof -
  obtain items where 1: "sorted (0 # map fst items)" "\<forall>(tag, v) \<in> set items. opaque_value_wf v"
    "m = insert_items items []" "cap_buf cp = fields_bytes 0 (opaque_parts items) @ cap_buf cp'"
    using opaque_merge_sound [OF assms(1) [unfolded merge_def]] by (auto simp: tag_reader_new_def)
  have "flat_items m = items" "opaque_shape m"
    using 1(1,3) insert_items_sorted [of "[]" items] insert_items_shape [of "[]"] by simp_all
  then show ?thesis
    using 1(2,4) assms(2) unfolding opaque_valid_def opaque_items_wf [symmetric] by (simp add: opaque_body_def)
qed

context rev_buf_contract
begin

lemma opaque_message_laws:
  "message_contract rops rcontents rinv (opaque_raw rops) opaque_body opaque_valid (\<lambda>_. 0)"
proof unfold_locales
  fix v :: opaque_message and buf rest :: bytes and ctx :: decode_context
  show "opaque_valid (rm_empty (opaque_raw rops))" by (simp add: opaque_valid_def opaque_body_def)
  show "rm_decode_field (opaque_raw rops) tag wt dup v0 cp ctx = Done (v, cp') \<Longrightarrow>
      cap_extra cp' = cap_extra cp \<and> (\<exists>p. cap_buf cp = p @ cap_buf cp')" for tag wt dup v0 cp cp'
    by (auto simp: opaque_decode_field_def opaque_decode_value_Done)
  show "rm_decode_field (opaque_raw rops) tag wt dup v0 cp ctx \<noteq> Panic" for tag wt dup v0 cp
    by (auto simp: opaque_decode_field_def obind_Panic_iff opaque_decode_value_not_Panic)
  assume v: "opaque_valid v"
  then have shape: "opaque_shape v" and wf: "\<forall>(tag, v) \<in> set (flat_items v). opaque_value_wf v"
    and asc: "tags_ascend 0 (opaque_parts (flat_items v))"
    by (simp_all add: opaque_valid_def opaque_items_wf opaque_ascend)
  show "rm_is_empty (opaque_raw rops) v \<longleftrightarrow> v = rm_empty (opaque_raw rops)"
    "rm_clear (opaque_raw rops) v = rm_empty (opaque_raw rops)" by simp_all
  show "opaque_body v = [] \<longleftrightarrow> v = rm_empty (opaque_raw rops)" using opaque_body_Nil [OF shape] by simp
  show "length (opaque_body v) < 2 ^ 64" using v by (simp add: opaque_valid_def)
  show "rm_encode (opaque_raw rops) v buf = Some (buf @ opaque_body v)"
    using asc by (simp add: opaque_raw_encode_def opaque_iter_eq opaque_encode_items_eq write_fields_eq
        opaque_body_def tag_writer_new_def)
  show "rm_len (opaque_raw rops) v = Some (length (opaque_body v))"
    using asc wf by (simp add: opaque_raw_encoded_len_def opaque_iter_eq opaque_measure_items_eq measure_fields_eq
        opaque_body_def tag_measurer_new_def)
  show "prepends (opaque_body v) (rm_prepend (opaque_raw rops) v)"
  proof (rule prependsI)
    fix r assume r: "rinv r"
    obtain st where st: "opaque_prepend_items rops (rev (flat_items v)) (tag_rev_writer_new, r) = Some st"
      "pending (opaque_parts (flat_items v)) (rcontents r) st"
      using opaque_prepend_items_eq [of "flat_items v"] pending_new [OF r] asc
      unfolding prepends_parts_def by fastforce
    then show "\<exists>r'. rm_prepend (opaque_raw rops) v r = Some r' \<and> rinv r' \<and> rcontents r' = opaque_body v @ rcontents r"
      using finalize_pending [OF st(2)] by (auto simp: opaque_raw_prepend_def opaque_iter_eq opaque_body_def)
  qed
  show "merge (opaque_raw rops) (rm_empty (opaque_raw rops)) \<lparr>cap_buf = opaque_body v @ rest, cap_extra = length rest\<rparr> ctx =
      Done (v, \<lparr>cap_buf = rest, cap_extra = length rest\<rparr>)"
    using opaque_merge_complete [of tag_reader_new "flat_items v" "length (opaque_body v @ rest) + 1" rops None "[]" rest ctx]
      sorted_flat_items [OF shape] wf insert_items_flat [OF shape]
    by (simp add: merge_def tag_reader_new_def opaque_body_def)
qed

lemma opaque_distinguished_laws:
  "distinguished_message_contract rops rcontents rinv (opaque_raw rops) opaque_body opaque_valid (\<lambda>_. 0)"
proof (intro distinguished_message_contract.intro opaque_message_laws distinguished_message_contract_axioms.intro)
  have dist: "merge_distinguished (opaque_raw rops) m cp ctx =
      omap (\<lambda>(m, cp). (m, Canonical, cp)) (merge (opaque_raw rops) m cp (into_inner ctx))" for m cp ctx
    unfolding merge_def merge_distinguished_def by (rule opaque_merge_dist)
  fix v k cp cp' ctx and rest :: bytes
  show "merge_distinguished (opaque_raw rops) (rm_empty (opaque_raw rops)) cp ctx = Done (v, k, cp') \<Longrightarrow>
      merge (opaque_raw rops) (rm_empty (opaque_raw rops)) cp (into_inner ctx) = Done (v, cp') \<and> rc_min_canonicity ctx \<le> k"
    by (auto simp: dist)
  show "merge_distinguished (opaque_raw rops) (rm_empty (opaque_raw rops)) cp ctx = Done (v, Canonical, cp') \<Longrightarrow>
      length (cap_buf cp) < 2 ^ 64 \<Longrightarrow> cap_buf cp = opaque_body v @ cap_buf cp' \<and> opaque_valid v"
    by (auto simp: dist dest: opaque_merge)
  show "opaque_valid v \<Longrightarrow> 0 \<le> unat (recurse_count (into_inner ctx)) \<Longrightarrow>
      merge_distinguished (opaque_raw rops) (rm_empty (opaque_raw rops))
        \<lparr>cap_buf = opaque_body v @ rest, cap_extra = length rest\<rparr> ctx =
      Done (v, Canonical, \<lparr>cap_buf = rest, cap_extra = length rest\<rparr>)"
    unfolding dist by (simp only: message_contract.merge_body [OF opaque_message_laws] omap_simps split_conv)
  show "merge_distinguished (opaque_raw rops) (rm_empty (opaque_raw rops)) cp ctx \<noteq> Panic"
    unfolding dist using message_contract.merge_no_panic [OF opaque_message_laws] by simp
qed

end

text \<open>Borrowing the bytes of the input reads the same messages.\<close>

lemma opaque_borrowed_eq: "opaque_borrowed rops = opaque_raw rops"
proof -
  have "opaque_borrow_decode_field = opaque_decode_field"
    by (simp add: fun_eq_iff opaque_borrow_decode_field_def opaque_decode_field_def opaque_borrow_eq)
  moreover have "opaque_borrow_decode_field_distinguished = opaque_decode_field_distinguished"
    unfolding opaque_borrow_decode_field_distinguished_def [abs_def]
      opaque_decode_field_distinguished_def [abs_def] calculation ..
  ultimately show ?thesis by (simp add: opaque_borrowed_def opaque_raw_def)
qed

end
