(* ===== verification/Opaque_Properties.thy ===== *)
theory Opaque_Properties
  imports Opaque_Laws "HOL-Library.Multiset"
begin

text \<open>
  What the opaque message promises: it is in bijection with the potentially valid messages, it orders
  what it collects by tag, its constructors write what the typed encodings write, and it accepts exactly
  what a message with no fields of its own skips.
\<close>

interpretation opaque_msg: distinguished_message_contract "rb_rev_ops sco" rb_contents rb_inv
  "opaque_raw (rb_rev_ops sco)" opaque_body opaque_valid "\<lambda>_. 0"
  by (rule rev_buf_contract.opaque_distinguished_laws [OF rb_rev.rev_buf_contract_axioms])

section \<open>Skipping is reading opaquely\<close>

lemma wire_key: "k < 4 \<Longrightarrow> varint_bytes (key_of 0 (wire_of (unat k))) = [k]" for k :: u8
  by (simp add: varint_repeated_key wire_nat_wire_of word_less_nat_alt)

lemma raw_field_items:
  "raw_field wt bs \<Longrightarrow> \<exists>v vs. opaque_wire_type v = wt \<and> (\<forall>u \<in> set (v # vs). opaque_value_wf u) \<and>
    bs = opaque_value_bytes v @ fields_bytes tag (opaque_parts (map (Pair tag) vs))"
proof (induction rule: raw_field.induct)
  case (single wt bs)
  then obtain v where "opaque_value_wf v" "opaque_wire_type v = wt" "opaque_value_bytes v = bs"
    by (auto simp: opaque_raw_value)
  then show ?case by (intro exI [of _ v] exI [of _ "[]"]) simp
next
  case (repeated wt val k bs)
  obtain v where v: "opaque_value_wf v" "opaque_wire_type v = wt" "opaque_value_bytes v = val"
    using repeated.hyps(1) by (auto simp: opaque_raw_value)
  obtain u us where u: "opaque_wire_type u = wire_of (unat k)" "\<forall>x \<in> set (u # us). opaque_value_wf x"
    "bs = opaque_value_bytes u @ fields_bytes tag (opaque_parts (map (Pair tag) us))"
    using repeated.IH by blast
  have "fields_bytes tag (opaque_parts (map (Pair tag) (u # us))) = k # bs"
    using u wire_key [OF repeated.hyps(2)] by simp
  then show ?case using v u by (intro exI [of _ v] exI [of _ "u # us"]) simp
qed

lemma items_raw_field:
  "\<forall>u \<in> set (v # vs). opaque_value_wf u \<Longrightarrow>
    raw_field (opaque_wire_type v) (opaque_value_bytes v @ fields_bytes tag (opaque_parts (map (Pair tag) vs)))"
proof (induction vs arbitrary: v)
  case Nil
  then show ?case using opaque_raw_value by (auto intro: raw_field.single)
next
  case (Cons u vs)
  let ?k = "of_nat (wire_nat (opaque_wire_type u)) :: u8"
  have "wire_of (unat ?k) = opaque_wire_type u" by simp
  then have "raw_field (opaque_wire_type v) (opaque_value_bytes v @ ?k #
      opaque_value_bytes u @ fields_bytes tag (opaque_parts (map (Pair tag) vs)))"
    using Cons opaque_raw_value by (intro raw_field.repeated) auto
  then show ?case by (simp add: varint_repeated_key)
qed

lemma skip_field_slice:
  assumes "raw_field wt bs" and "rest = [] \<or> 4 \<le> hd rest"
  shows "skip_field slice_ops wt \<lparr>cap_buf = bs @ rest, cap_extra = 0\<rparr> = Done \<lparr>cap_buf = rest, cap_extra = 0\<rparr>"
  unfolding skip_field_def using assms by (intro skip_loop_complete [OF assms(1)]) auto

lemma skip_decode_field [simp]:
  "rm_decode_field (derive_message rops s []) tag wt dup v cp ctx =
    obind (skip_field slice_ops wt cp) (\<lambda>cp. Done (v, cp))"
  by (simp add: derive_message_def derived_decode_field_def field_of_tag_def)

lemma skip_merge_sound:
  "merge_loop (derive_message rops s []) fuel tr t v cp ctx = Done (v', cp') \<Longrightarrow>
   \<exists>items. sorted (tr_last_tag tr # map fst items) \<and> (\<forall>(tag, u) \<in> set items. opaque_value_wf u) \<and>
     v' = v \<and> cap_extra cp' = cap_extra cp \<and> cap_buf cp = fields_bytes (tr_last_tag tr) (opaque_parts items) @ cap_buf cp'"
proof (induction fuel arbitrary: tr t cp)
  case (Suc fuel)
  show ?case
  proof (cases "length (cap_buf cp) = cap_extra cp")
    case True
    then show ?thesis using Suc.prems by (intro exI [of _ "[]"]) simp
  next
    case False
    then obtain tag wt tr1 cp1 cp2 where 1: "decode_key slice_ops tr cp = Done (tag, wt, tr1, cp1)"
      "skip_field slice_ops wt cp1 = Done cp2"
      "merge_loop (derive_message rops s []) fuel tr1 (Some tag) v cp2 ctx = Done (v', cp')"
      using Suc.prems by (auto simp: Let_def split: if_splits)
    obtain bs where bs: "raw_field wt bs" "cap_buf cp1 = bs @ cap_buf cp2" "cap_extra cp2 = cap_extra cp1"
      using skip_loop_sound [OF 1(2) [unfolded skip_field_def]] by blast
    obtain u us where u: "opaque_wire_type u = wt" "\<forall>x \<in> set (u # us). opaque_value_wf x"
      "bs = opaque_value_bytes u @ fields_bytes tag (opaque_parts (map (Pair tag) us))"
      using raw_field_items [OF bs(1)] by blast
    obtain items where 2: "sorted (tr_last_tag tr1 # map fst items)" "\<forall>(tag, v) \<in> set items. opaque_value_wf v"
      "v' = v" "cap_extra cp' = cap_extra cp2" "cap_buf cp2 = fields_bytes (tr_last_tag tr1) (opaque_parts items) @ cap_buf cp'"
      using Suc.IH [OF 1(3)] by blast
    have final: "final_tag tag (opaque_parts (map (Pair tag) us)) = tag" for us by (induction us) simp_all
    have split: "opaque_parts (map (Pair tag) us @ items) = opaque_parts (map (Pair tag) us) @ opaque_parts items"
      by (simp add: opaque_parts_def)
    have "sorted (map fst (map (Pair tag) us @ items))" using 1(1) 2(1) by (induction us) (auto simp: decode_key_Done)
    then show ?thesis
      using 1(1) bs u 2 by (intro exI [of _ "(tag, u) # map (Pair tag) us @ items"])
        (auto simp: decode_key_Done split fields_bytes_append final intro: order_trans)
  qed
qed simp

lemma skip_merge_complete:
  "sorted (tr_last_tag tr # map fst items) \<Longrightarrow> \<forall>(tag, u) \<in> set items. opaque_value_wf u \<Longrightarrow>
   length (fields_bytes (tr_last_tag tr) (opaque_parts items)) < fuel \<Longrightarrow>
   merge_loop (derive_message rops s []) fuel tr t v
     \<lparr>cap_buf = fields_bytes (tr_last_tag tr) (opaque_parts items), cap_extra = 0\<rparr> ctx =
   Done (v, \<lparr>cap_buf = [], cap_extra = 0\<rparr>)"
proof (induction items arbitrary: fuel tr t rule: length_induct)
  case (1 items)
  obtain f where f: "fuel = Suc f" using 1(4) by (cases fuel) auto
  show ?case
  proof (cases items)
    case Nil
    then show ?thesis by (simp add: f)
  next
    case (Cons x xs)
    obtain tag u where x: "x = (tag, u)" by (cases x)
    define us ys where "us = map snd (takeWhile (\<lambda>y. fst y = tag) xs)" and "ys = dropWhile (\<lambda>y. fst y = tag) xs"
    have own: "map (Pair tag) us = takeWhile (\<lambda>y. fst y = tag) xs"
      unfolding us_def map_map comp_def by (intro map_idI) (auto dest: set_takeWhileD)
    then have xs: "xs = map (Pair tag) us @ ys" by (simp add: ys_def)
    have wf: "\<forall>y \<in> set (u # us). opaque_value_wf y" "\<forall>(tag, u) \<in> set ys. opaque_value_wf u"
      using 1(3) Cons x xs by auto
    have sorted: "sorted (tag # map fst ys)" "tr_last_tag tr \<le> tag"
      using 1(2) Cons x xs by (auto simp: sorted_append)
    have final: "final_tag tag (opaque_parts (map (Pair tag) us)) = tag" by (induction us) simp_all
    let ?val = "opaque_value_bytes u @ fields_bytes tag (opaque_parts (map (Pair tag) us))"
    let ?rest = "fields_bytes tag (opaque_parts ys)"
    have bytes: "fields_bytes (tr_last_tag tr) (opaque_parts items) =
        varint_bytes (key_of (tag - tr_last_tag tr) (opaque_wire_type u)) @ ?val @ ?rest"
      using xs x Cons final by (simp add: opaque_parts_def fields_bytes_append)
    have "?rest = [] \<or> 4 \<le> hd ?rest"
    proof (cases ys)
      case (Cons y zs)
      have "fst y \<noteq> tag" using hd_dropWhile [of "\<lambda>y. fst y = tag" xs] Cons unfolding ys_def by simp
      then show ?thesis using Cons hd_varint_key [of "fst y - tag"] by (cases y) simp
    qed simp
    then have skip: "skip_field slice_ops (opaque_wire_type u) \<lparr>cap_buf = ?val @ ?rest, cap_extra = 0\<rparr> =
        Done \<lparr>cap_buf = ?rest, cap_extra = 0\<rparr>"
      by (intro skip_field_slice items_raw_field wf)
    have key: "decode_key slice_ops tr \<lparr>cap_buf = fields_bytes (tr_last_tag tr) (opaque_parts items), cap_extra = 0\<rparr> =
        Done (tag, opaque_wire_type u, \<lparr>tr_last_tag = tag\<rparr>, \<lparr>cap_buf = ?val @ ?rest, cap_extra = 0\<rparr>)"
      using sorted(2) unfolding bytes decode_key_Done by simp
    have pos: "0 < length (varint_bytes (key_of (tag - tr_last_tag tr) (opaque_wire_type u)))" by simp
    have "merge_loop (derive_message rops s []) f \<lparr>tr_last_tag = tag\<rparr> (Some tag) v
        \<lparr>cap_buf = ?rest, cap_extra = 0\<rparr> ctx = Done (v, \<lparr>cap_buf = [], cap_extra = 0\<rparr>)"
    proof -
      have "length ?rest < f" using 1(4) pos unfolding bytes f by (simp del: length_greater_0_conv)
      moreover have "length ys < length items" using Cons xs by simp
      ultimately show ?thesis
        using 1(1) [rule_format, of ys "\<lparr>tr_last_tag = tag\<rparr>" f "Some tag"] sorted(1) wf(2) by simp
    qed
    moreover have "has_remaining slice_ops
        \<lparr>cap_buf = fields_bytes (tr_last_tag tr) (opaque_parts items), cap_extra = 0\<rparr> = Done True"
      unfolding bytes by simp
    ultimately show ?thesis
      unfolding f merge_loop.simps using key skip by simp
  qed
qed

section \<open>The constructors\<close>

lemma zigzag_wide:
  assumes "LENGTH('a) \<le> LENGTH('b)"
  shows "zigzag (scast (w :: 'a::len word) :: 'b::len word) = ucast (zigzag w)"
proof -
  have s: "sint (scast w :: 'b word) = sint w" using assms by (simp add: sint_up_scast is_up)
  have "unat (ucast (zigzag w) :: 'b word) = unat (zigzag w)"
  proof -
    have "unat (zigzag w) < 2 ^ LENGTH('b)"
      using unat_lt [of "zigzag w"] power_increasing [OF assms, of "2 :: nat"] by linarith
    then show ?thesis by (simp add: unat_ucast)
  qed
  moreover have "int (unat (zigzag (scast w :: 'b word))) = int (unat (zigzag w))"
    unfolding uint_zigzag s ..
  ultimately show ?thesis unfolding word_unat_eq_iff of_nat_eq_iff by simp
qed

lemma opaque_packed_bytes: "fold opaque_encode_value items buf = buf @ concat (map opaque_value_bytes items)"
  by (induction items arbitrary: buf) (simp_all add: opaque_encode_value_eq)

lemma filter_tag:
  "filter (\<lambda>x. fst x \<le> t \<and> fst x = k) xs = (if k \<le> t then filter (\<lambda>x. fst x = k) xs else [])"
  "filter (\<lambda>x. t < fst x \<and> fst x = k) xs = (if k \<le> t then [] else filter (\<lambda>x. fst x = k) xs)"
  for t k :: u32
  by (induction xs) auto

section \<open>Properties\<close>

text \<open>
  C5. The opaque message is in bijection with the potentially valid messages, as its documentation says: a
  byte string decodes, canonically or not, exactly when it is the encoding of a well-formed opaque message
  (entries in the order of their tags, none without a value, every value as long as its wire type
  says), and that message is what it decodes to.
\<close>

theorem opaque_exact:
  assumes "length bs < 2 ^ 64"
  shows "(decode_message (opaque_raw (rb_rev_ops sco)) bs = Done (m, rest) \<longleftrightarrow>
      rest = [] \<and> opaque_valid m \<and> encode_to_vec (opaque_raw (rb_rev_ops sco)) m = Some bs) \<and>
    (decode_canonical (opaque_raw (rb_rev_ops sco)) bs = Done (m, rest) \<longleftrightarrow>
      decode_message (opaque_raw (rb_rev_ops sco)) bs = Done (m, rest))"
proof -
  let ?o = "opaque_raw (rb_rev_ops sco)"
  have enc: "encode_to_vec ?o m = Some bs \<longleftrightarrow> bs = opaque_body m" if "opaque_valid m"
    using opaque_msg.api_encode(2) [OF that] by auto
  have dec: "bs = opaque_body m \<and> opaque_valid m \<and> rest = []" if d: "decode_message ?o bs = Done (m, rest)"
  proof -
    obtain cp where "merge ?o [] (capped_new bs) context_default = Done (m, cp)" "rest = cap_buf cp"
      using d by (auto simp: decode_message_def decode_capped_def)
    then show ?thesis
      using opaque_merge [of "rb_rev_ops sco" "capped_new bs" context_default m cp] assms
        opaque_msg.api_consumes [OF d] by (simp add: capped_new_def)
  qed
  have iff: "decode_message ?o bs = Done (m, rest) \<longleftrightarrow> rest = [] \<and> opaque_valid m \<and> bs = opaque_body m"
    using dec opaque_msg.api_decode(1) [of m sco] by blast
  have "decode_canonical ?o bs = Done (m, rest) \<longleftrightarrow> rest = [] \<and> opaque_valid m \<and> bs = opaque_body m"
  proof
    assume "decode_canonical ?o bs = Done (m, rest)"
    from opaque_msg.api_canonical [OF this assms] show "rest = [] \<and> opaque_valid m \<and> bs = opaque_body m" by blast
  next
    assume "rest = [] \<and> opaque_valid m \<and> bs = opaque_body m"
    then show "decode_canonical ?o bs = Done (m, rest)"
      using opaque_msg.api_distinguished(1) [of m sco Canonical] by (simp add: decode_canonical_def)
  qed
  then show ?thesis using iff enc by blast
qed

theorem opaque_exact_witness:
  "decode_message (opaque_raw (rb_rev_ops True)) [4, 7, 0, 9, 9, 2, 1, 2] =
    Done ([(1, [OVarint 7, OVarint 9]), (3, [OLengthDelimited [1, 2]])], [])"
proof -
  let ?m = "[(1, [OVarint 7, OVarint 9]), (3, [OLengthDelimited [1, 2]])] :: opaque_message"
  have body: "opaque_body ?m = [4, 7, 0, 9, 9, 2, 1, 2]"
    by (simp add: opaque_body_def delimited_def varint_bytes_small key_of_def word_less_nat_alt)
  then have valid: "opaque_valid ?m" by (simp add: opaque_valid_def)
  then have "encode_to_vec (opaque_raw (rb_rev_ops True)) ?m = Some [4, 7, 0, 9, 9, 2, 1, 2]"
    using opaque_msg.api_encode(2) body by simp
  then show ?thesis
    using opaque_exact [of "[4, 7, 0, 9, 9, 2, 1, 2]" True ?m "[]"] valid by simp
qed

text \<open>
  C23. What skipping accepts is what reads opaquely: a message type without fields decodes a byte string, passing over
  every field, exactly when the string decodes as an opaque message, so an unknown field is passed over
  only if it is a sequence of well-formed values.
\<close>

theorem skips_what_is_opaque:
  assumes "length bs < 2 ^ 64"
  shows "decode_message (derive_message (rb_rev_ops sco) () []) bs = Done ((), []) \<longleftrightarrow>
    (\<exists>m. decode_message (opaque_raw (rb_rev_ops sco)) bs = Done (m, []))"
proof
  assume "decode_message (derive_message (rb_rev_ops sco) () []) bs = Done ((), [])"
  then obtain cp where cp: "merge (derive_message (rb_rev_ops sco) () []) () (capped_new bs) context_default = Done ((), cp)"
    "cap_buf cp = []"
    by (auto simp: decode_message_def decode_capped_def derive_message_def)
  obtain items where items: "sorted (0 # map fst items)" "\<forall>(tag, u) \<in> set items. opaque_value_wf u"
    "bs = fields_bytes 0 (opaque_parts items)"
    using skip_merge_sound [OF cp(1) [unfolded merge_def]] cp(2) by (auto simp: capped_new_def tag_reader_new_def)
  have "merge (opaque_raw (rb_rev_ops sco)) [] (capped_new bs) context_default =
      Done (insert_items items [], \<lparr>cap_buf = [], cap_extra = 0\<rparr>)"
    using opaque_merge_complete [of tag_reader_new items "length bs + 1" "rb_rev_ops sco" None "[]" "[]" context_default] items
    by (simp add: merge_def capped_new_def tag_reader_new_def)
  then show "\<exists>m. decode_message (opaque_raw (rb_rev_ops sco)) bs = Done (m, [])"
    by (simp add: decode_message_def decode_capped_def)
next
  assume "\<exists>m. decode_message (opaque_raw (rb_rev_ops sco)) bs = Done (m, [])"
  then obtain m cp where "merge (opaque_raw (rb_rev_ops sco)) [] (capped_new bs) context_default = Done (m, cp)" "cap_buf cp = []"
    by (auto simp: decode_message_def decode_capped_def)
  then obtain items where "sorted (0 # map fst items)" "\<forall>(tag, u) \<in> set items. opaque_value_wf u"
    "bs = fields_bytes 0 (opaque_parts items)"
    using opaque_merge_sound [of "rb_rev_ops sco" "length bs + 1" tag_reader_new None "[]" "capped_new bs" context_default m cp]
    by (auto simp: merge_def capped_new_def tag_reader_new_def)
  then have "merge (derive_message (rb_rev_ops sco) () []) () (capped_new bs) context_default =
      Done ((), \<lparr>cap_buf = [], cap_extra = 0\<rparr>)"
    using skip_merge_complete [of tag_reader_new items "length bs + 1" "rb_rev_ops sco" "()" None "()" context_default]
    by (simp add: merge_def capped_new_def tag_reader_new_def)
  then show "decode_message (derive_message (rb_rev_ops sco) () []) bs = Done ((), [])"
    by (simp add: decode_message_def decode_capped_def derive_message_def)
qed

theorem skips_what_is_opaque_witness:
  "decode_message (derive_message (rb_rev_ops True) () []) [4, 7, 0, 9] = Done ((), [])"
proof -
  let ?m = "[(1, [OVarint 7, OVarint 9])] :: opaque_message"
  have "opaque_body ?m = [4, 7, 0, 9]"
    by (simp add: opaque_body_def varint_bytes_small key_of_def word_less_nat_alt)
  then have "decode_message (opaque_raw (rb_rev_ops True)) [4, 7, 0, 9] = Done (?m, [])"
    using opaque_msg.api_decode(1) [of ?m] by (simp add: opaque_valid_def)
  then show ?thesis using skips_what_is_opaque [of "[4, 7, 0, 9]" True] by simp
qed

text \<open>
  C24. Collecting items into an opaque message, in whatever order they come, keeps the message well-formed, and its
  iterator gives them back ordered by tag, those of one tag in the order in which they came; backwards
  it gives the same items in reverse.
\<close>

theorem opaque_collect_sorts:
  "opaque_shape (opaque_from_iter items) \<and>
   opaque_iter (opaque_from_iter items) = sort_key fst items \<and>
   opaque_iter_rev (opaque_from_iter items) = rev (sort_key fst items)"
proof -
  have shape: "opaque_shape (insert_items items m)" if "opaque_shape m" for m
    using that by (rule insert_items_shape)
  have by_tag: "filter (\<lambda>x. fst x = k) (flat_items (insert_items items m)) =
      filter (\<lambda>x. fst x = k) (flat_items m) @ filter (\<lambda>x. fst x = k) items"
    if "opaque_shape m" for m k
    using that
  proof (induction items arbitrary: m)
    case (Cons x items)
    obtain t v where x: "x = (t, v)" by (cases x)
    have "filter (\<lambda>x. fst x = k) (flat_items (opaque_insert t v m)) =
        filter (\<lambda>x. fst x = k) (flat_items m) @ filter (\<lambda>x. fst x = k) [x]"
      using Cons.prems x by (simp add: flat_items_insert filter_tag)
    then show ?case using Cons.IH [OF opaque_insert_shape [OF Cons.prems]] x by simp
  qed simp
  have "sort_key fst items = flat_items (insert_items items [])"
  proof (rule properties_for_sort_key)
    have "count (mset (flat_items (insert_items items []))) x = count (mset items) x" for x
    proof -
      have "count (mset xs) x = count (mset (filter (\<lambda>y. fst y = fst x) xs)) x" for xs :: "(u32 \<times> opaque_value) list"
        by (induction xs) auto
      then show ?thesis using by_tag [of "[]" "fst x"] by (metis append_Nil filter.simps(1) flat_items_simps(1) opaque_shape_simps(1))
    qed
    then show "mset (flat_items (insert_items items [])) = mset items" by (rule multiset_eqI)
    show "filter (\<lambda>x. fst k = fst x) (flat_items (insert_items items [])) = filter (\<lambda>x. fst k = fst x) items" for k
      using by_tag [of "[]" "fst k"] by (simp add: eq_commute)
    show "sorted (map fst (flat_items (insert_items items [])))" by (rule sorted_flat_items) (simp add: shape)
  qed
  then show ?thesis
    using shape [of "[]"] by (simp add: opaque_from_iter_def opaque_new_def opaque_iter_eq)
qed

text \<open>
  The constructors of opaque values write what the typed encodings write: varints of all widths with the zigzag
  of the signed ones, fixed-width words, byte strings, nested messages, and packed lists of any of them.
\<close>

theorem opaque_constructors_agree:
  "Some (opaque_encode_value (opaque_u64 a) buf) = c_encode (varint_u64 rops) a buf \<and>
   Some (opaque_encode_value (opaque_i64 a) buf) = c_encode (varint_i64 rops) a buf \<and>
   Some (opaque_encode_value (opaque_u32 b) buf) = c_encode (varint_u32 rops) b buf \<and>
   Some (opaque_encode_value (opaque_i32 b) buf) = c_encode (varint_i32 rops) b buf \<and>
   Some (opaque_encode_value (opaque_u16 c) buf) = c_encode (varint_u16 rops) c buf \<and>
   Some (opaque_encode_value (opaque_i16 c) buf) = c_encode (varint_i16 rops) c buf \<and>
   Some (opaque_encode_value (opaque_u8 d) buf) = c_encode (varint_u8 rops) d buf \<and>
   Some (opaque_encode_value (opaque_i8 d) buf) = c_encode (varint_i8 rops) d buf \<and>
   Some (opaque_encode_value (opaque_bool t) buf) = c_encode (varint_bool rops) t buf \<and>
   Some (opaque_encode_value (opaque_fixed_64 a) buf) = c_encode (fixed_u64 rops) a buf \<and>
   Some (opaque_encode_value (opaque_fixed_32 b) buf) = c_encode (fixed_u32 rops) b buf \<and>
   Some (opaque_encode_value (opaque_bytes bs) buf) = c_encode (plain_vec_u8 rops) bs buf \<and>
   opaque_encode_value (opaque_packed items) buf =
     buf @ delimited (concat (map opaque_value_bytes items))"
proof -
  note defs = opaque_u64_def opaque_i64_def opaque_u32_def opaque_i32_def opaque_u16_def opaque_i16_def
    opaque_u8_def opaque_i8_def opaque_bool_def opaque_fixed_64_def opaque_fixed_32_def opaque_bytes_def opaque_packed_def
  note codecs = varint_u64_def varint_i64_def varint_u32_def varint_i32_def varint_u16_def varint_i16_def varint_u8_def
    varint_i8_def varint_bool_def varint_codec_def
  show ?thesis
    by (intro conjI; simp add: defs codecs zigzag_wide zigzag_widths fixed_u64_def fixed_u32_def fixed_width_int_def
        fixed_width_common_def plain_vec_u8_def plain_bytes_codec_def plain_bytes_encode_def opaque_packed_bytes
        encode_varint_bytes delimited_def)
qed

end
