(* ===== verification/Proxies.thy ===== *)
theory Proxies
  imports Packed Varint_Values
begin

text \<open>
  Encoding by proxy (\<^verbatim>\<open>src/src/encoding/proxy.rs\<close>): a type that converts to and from another one is
  encoded as that one. What a conversion promises is the locale \<open>proxy_contract\<close>, with
  \<open>distinguished_proxy_contract\<close> for distinguished decoding; the proxied codec then keeps the laws of
  \<open>Codec\<close>. The small array \<^verbatim>\<open>LocalProxy\<close> of \<^verbatim>\<open>local_proxy.rs\<close>, whose trailing empty items are left out of the
  encoding, is a collection, and \<^verbatim>\<open>core::time::Duration\<close> is encoded by it (\<^verbatim>\<open>general.rs\<close>).
\<close>

section \<open>Proxied values\<close>

text \<open>\<^verbatim>\<open>decode_proxy\<close> stores into the value it is called on; an error leaves no value.\<close>

record ('v, 'p) proxiable =
  px_encode :: "'v \<Rightarrow> 'p"
  px_decode :: "'v \<Rightarrow> 'p \<Rightarrow> 'v outcome"
  px_decode_dist :: "'v \<Rightarrow> 'p \<Rightarrow> ('v \<times> canonicity) outcome"

definition proxied_decode_value ::
    "('p, 'r) codec \<Rightarrow> ('v, 'p) proxiable \<Rightarrow> 'v \<Rightarrow> bytes capped \<Rightarrow> decode_context \<Rightarrow> ('v \<times> bytes capped) outcome" where
  "proxied_decode_value c px v cp ctx =
    obind (c_decode c (c_for_overwrite c) cp ctx) (\<lambda>(proxy, cp).
      obind (px_decode px v proxy) (\<lambda>v. Done (v, cp)))"

definition proxied_decode_value_distinguished ::
    "('p, 'r) codec \<Rightarrow> ('v, 'p) proxiable \<Rightarrow> bool \<Rightarrow> 'v \<Rightarrow> bytes capped \<Rightarrow> restricted_context \<Rightarrow>
     ('v \<times> canonicity \<times> bytes capped) outcome" where
  "proxied_decode_value_distinguished c px allow_empty v cp ctx =
    obind (c_decode_dist c allow_empty (c_for_overwrite c) cp ctx) (\<lambda>(proxy, canon, cp).
      obind (px_decode_dist px v proxy) (\<lambda>(v, k).
        obind (from_result (check ctx k)) (\<lambda>k. Done (v, canonicity_update canon k, cp))))"

definition proxied_codec :: "('p, 'r) codec \<Rightarrow> ('v, 'p) proxiable \<Rightarrow> 'v \<Rightarrow> ('v, 'r) codec" where
  "proxied_codec c px d = \<lparr>
     c_wire = c_wire c,
     c_for_overwrite = d,
     c_encode = (\<lambda>v. c_encode c (px_encode px v)),
     c_prepend = (\<lambda>v. c_prepend c (px_encode px v)),
     c_len = (\<lambda>v. c_len c (px_encode px v)),
     c_many_len = (\<lambda>vs. c_many_len c (map (px_encode px) vs)),
     c_decode = proxied_decode_value c px,
     c_checks_empty = c_checks_empty c,
     c_decode_dist = proxied_decode_value_distinguished c px\<rparr>"

locale proxy_contract =
  fixes px :: "('v, 'p) proxiable"
    and vvalid :: "'v \<Rightarrow> bool"
    and pvalid :: "'p \<Rightarrow> bool"
  assumes encode_valid: "vvalid v \<Longrightarrow> pvalid (px_encode px v)"
    and decode_encode: "vvalid v \<Longrightarrow> px_decode px v0 (px_encode px v) = Done v"
    and decode_no_panic: "px_decode px v0 p \<noteq> Panic"

locale distinguished_proxy_contract = proxy_contract px vvalid pvalid
  for px :: "('v, 'p) proxiable" and vvalid :: "'v \<Rightarrow> bool" and pvalid :: "'p \<Rightarrow> bool" +
  assumes dist_relaxed: "px_decode_dist px v0 p = Done (v, k) \<Longrightarrow> px_decode px v0 p = Done v"
    and dist_canonical: "pvalid p \<Longrightarrow> px_decode_dist px v0 p = Done (v, Canonical) \<Longrightarrow> px_encode px v = p \<and> vvalid v"
    and dist_complete: "vvalid v \<Longrightarrow> px_decode_dist px v0 (px_encode px v) = Done (v, Canonical)"
    and dist_no_panic: "px_decode_dist px v0 p \<noteq> Panic"

lemma proxied_codec_laws:
  assumes c: "value_codec rops rcontents rinv c enc valid depth" and p: "proxy_contract px vvalid valid"
  shows "value_codec rops rcontents rinv (proxied_codec c px d) (\<lambda>v. enc (px_encode px v)) vvalid (\<lambda>v. depth (px_encode px v))"
proof (intro value_codec.intro value_codec_axioms.intro)
  note laws = value_codec.encode [OF c] value_codec.prepend [OF c] value_codec.len [OF c] value_codec.nonempty [OF c]
    value_codec.fixed [OF c] value_codec.decode [OF c]
  note pv = proxy_contract.encode_valid [OF p]
  show "rev_buf_contract rops rcontents rinv" by (rule value_codec.axioms(1) [OF c])
  fix v v0 r n x cp cp' ctx and buf rest :: bytes and vs
  show "c_decode (proxied_codec c px d) v0 cp ctx \<noteq> Panic"
    by (auto simp: proxied_codec_def proxied_decode_value_def obind_Panic_iff value_codec.decode_no_panic [OF c]
        proxy_contract.decode_no_panic [OF p])
  show "c_decode (proxied_codec c px d) v0 cp ctx = Done (v, cp') \<Longrightarrow>
      cap_extra cp' = cap_extra cp \<and> (\<exists>p. p \<noteq> [] \<and> cap_buf cp = p @ cap_buf cp')"
    by (auto simp: proxied_codec_def proxied_decode_value_def dest: value_codec.decode_frame [OF c])
  show "\<forall>v \<in> set vs. vvalid v \<Longrightarrow> c_many_len (proxied_codec c px d) vs = sum_list (map (\<lambda>v. length (enc (px_encode px v))) vs)"
    using value_codec.many_len [OF c, of "map (px_encode px) vs"] pv by (simp add: proxied_codec_def comp_def)
  assume v: "vvalid v"
  show "c_encode (proxied_codec c px d) v buf = Some (buf @ enc (px_encode px v))"
    "c_len (proxied_codec c px d) v = length (enc (px_encode px v))" "enc (px_encode px v) \<noteq> []"
    using v pv laws by (simp_all add: proxied_codec_def)
  show "rinv r \<Longrightarrow> \<exists>r'. c_prepend (proxied_codec c px d) v r = Some r' \<and> rinv r' \<and> rcontents r' = enc (px_encode px v) @ rcontents r"
    using v pv laws by (simp add: proxied_codec_def)
  show "fixed_size (c_wire (proxied_codec c px d)) = Some n \<Longrightarrow> length (enc (px_encode px v)) = n"
    using v pv laws by (simp add: proxied_codec_def)
  show "depth (px_encode px v) \<le> unat (recurse_count ctx) \<Longrightarrow> x \<le> length rest \<Longrightarrow>
      c_decode (proxied_codec c px d) (c_for_overwrite (proxied_codec c px d)) \<lparr>cap_buf = enc (px_encode px v) @ rest, cap_extra = x\<rparr> ctx =
        Done (v, \<lparr>cap_buf = rest, cap_extra = x\<rparr>)"
    using v pv laws proxy_contract.decode_encode [OF p v] by (simp add: proxied_codec_def proxied_decode_value_def)
qed

lemma proxied_distinguished_laws:
  assumes c: "distinguished_codec rops rcontents rinv c enc valid depth"
    and p: "distinguished_proxy_contract px vvalid valid"
  shows "distinguished_codec rops rcontents rinv (proxied_codec c px d) (\<lambda>v. enc (px_encode px v)) vvalid (\<lambda>v. depth (px_encode px v))"
proof -
  let ?c = "proxied_codec c px d"
  have base: "value_codec rops rcontents rinv ?c (\<lambda>v. enc (px_encode px v)) vvalid (\<lambda>v. depth (px_encode px v))"
    by (rule proxied_codec_laws [OF distinguished_codec.axioms(1) [OF c] distinguished_proxy_contract.axioms(1) [OF p]])
  show ?thesis
  proof (intro distinguished_codec.intro distinguished_codec_axioms.intro base)
    fix v v0 k allow x cp cp' ctx and rest :: bytes
    have step: "\<exists>q k1 k2. c_decode_dist c allow (c_for_overwrite c) cp ctx = Done (q, k1, cp') \<and>
        px_decode_dist px d q = Done (v, k2) \<and> rc_min_canonicity ctx \<le> k2 \<and> k = min k1 k2"
      if "c_decode_dist ?c allow (c_for_overwrite ?c) cp ctx = Done (v, k, cp')" for allow k
      using that by (auto simp: proxied_codec_def proxied_decode_value_distinguished_def canonicity_update_def)
    show "c_decode_dist ?c allow (c_for_overwrite ?c) cp ctx \<noteq> Panic"
      by (auto simp: proxied_codec_def proxied_decode_value_distinguished_def obind_Panic_iff
          distinguished_codec.dist_no_panic [OF c] distinguished_proxy_contract.dist_no_panic [OF p])
    show "c_decode ?c (c_for_overwrite ?c) cp (into_inner ctx) = Done (v, cp') \<and> rc_min_canonicity ctx \<le> k"
      if d: "c_decode_dist ?c allow (c_for_overwrite ?c) cp ctx = Done (v, k, cp')"
    proof -
      obtain q k1 k2 where q: "c_decode_dist c allow (c_for_overwrite c) cp ctx = Done (q, k1, cp')"
        "px_decode_dist px d q = Done (v, k2)" "rc_min_canonicity ctx \<le> k2" "k = min k1 k2"
        using step [OF d] by blast
      then show ?thesis
        using distinguished_codec.dist_relaxed [OF c q(1)] distinguished_proxy_contract.dist_relaxed [OF p q(2)]
        by (simp add: proxied_codec_def proxied_decode_value_def)
    qed
    show "cap_buf cp = enc (px_encode px v) @ cap_buf cp' \<and> vvalid v"
      if d: "c_decode_dist ?c allow (c_for_overwrite ?c) cp ctx = Done (v, Canonical, cp')" and n: "length (cap_buf cp) < 2 ^ 64"
    proof -
      obtain q where q: "c_decode_dist c allow (c_for_overwrite c) cp ctx = Done (q, Canonical, cp')"
        "px_decode_dist px d q = Done (v, Canonical)"
        using step [OF d] by (metis min_Canonical_iff)
      then show ?thesis
        using distinguished_codec.dist_canonical [OF c q(1) n] distinguished_proxy_contract.dist_canonical [OF p _ q(2)] by auto
    qed
    show "enc (px_encode px v) \<noteq> [0]"
      if e: "c_checks_empty ?c" and d: "c_decode_dist ?c False (c_for_overwrite ?c) cp ctx = Done (v, Canonical, cp')"
        and n: "length (cap_buf cp) < 2 ^ 64"
    proof -
      obtain q where q: "c_decode_dist c False (c_for_overwrite c) cp ctx = Done (q, Canonical, cp')"
        "px_decode_dist px d q = Done (v, Canonical)"
        using step [OF d] by (metis min_Canonical_iff)
      have "c_checks_empty c" using e by (simp add: proxied_codec_def)
      then show ?thesis
        using distinguished_codec.dist_nonempty [OF c _ q(1) n] distinguished_codec.dist_canonical [OF c q(1) n]
          distinguished_proxy_contract.dist_canonical [OF p _ q(2)] by auto
    qed
    show "c_decode_dist ?c allow (c_for_overwrite ?c) \<lparr>cap_buf = enc (px_encode px v) @ rest, cap_extra = x\<rparr> ctx =
        Done (v, Canonical, \<lparr>cap_buf = rest, cap_extra = x\<rparr>)"
      if v: "vvalid v" and "depth (px_encode px v) \<le> unat (recurse_count (into_inner ctx))" "x \<le> length rest"
        and e: "allow \<or> \<not> c_checks_empty ?c \<or> enc (px_encode px v) \<noteq> [0]"
    proof -
      have pv: "valid (px_encode px v)" by (rule proxy_contract.encode_valid [OF distinguished_proxy_contract.axioms(1) [OF p] v])
      show ?thesis
        using distinguished_codec.dist_complete [OF c pv that(2,3), of allow] e
          distinguished_proxy_contract.dist_complete [OF p v]
        by (simp add: proxied_codec_def proxied_decode_value_distinguished_def canonicity_update_def)
    qed
  qed
qed

section \<open>The local proxy\<close>

text \<open>
  \<open>N\<close> is the length of the array. Only \<^verbatim>\<open>new_without_empty_suffix\<close> and \<^verbatim>\<open>insert\<close> set the size, which so
  never exceeds \<open>N\<close>: the array is never indexed out of its bounds.
\<close>

record 'a local_proxy =
  lp_arr :: "'a list"
  lp_size :: nat

definition lp_items :: "'a local_proxy \<Rightarrow> 'a list" where
  "lp_items p = take (lp_size p) (lp_arr p)"

primrec empty_suffix :: "'a empty_state \<Rightarrow> 'a list \<Rightarrow> nat" where
  "empty_suffix es [] = 0"
| "empty_suffix es (x # xs) = (if es_is_empty es x then empty_suffix es xs + 1 else 0)"

text \<open>The loop over the reversed array takes one off the size for every empty item until it breaks.\<close>

definition lp_new_without_empty_suffix :: "'a empty_state \<Rightarrow> 'a list \<Rightarrow> 'a local_proxy" where
  "lp_new_without_empty_suffix es arr = \<lparr>lp_arr = arr, lp_size = length arr - empty_suffix es (rev arr)\<rparr>"

definition lp_into_inner :: "'a local_proxy \<Rightarrow> 'a list" where
  "lp_into_inner p = lp_arr p"

definition lp_into_inner_distinguished :: "'a empty_state \<Rightarrow> 'a local_proxy \<Rightarrow> 'a list \<times> canonicity" where
  "lp_into_inner_distinguished es p =
    (let canon = (case rev (lp_items p) of
         last_item # _ \<Rightarrow> if es_is_empty es last_item then NotCanonical else Canonical
       | [] \<Rightarrow> Canonical)
     in (lp_arr p, canon))"

definition lp_for_overwrite :: "'a empty_state \<Rightarrow> nat \<Rightarrow> 'a local_proxy" where
  "lp_for_overwrite es N = \<lparr>lp_arr = replicate N (es_empty es), lp_size = 0\<rparr>"

definition lp_is_empty :: "'a local_proxy \<Rightarrow> bool" where
  "lp_is_empty p \<longleftrightarrow> lp_size p = 0"

definition lp_clear :: "'a local_proxy \<Rightarrow> 'a local_proxy" where
  "lp_clear p = p\<lparr>lp_size := 0\<rparr>"

definition lp_insert :: "nat \<Rightarrow> 'a \<Rightarrow> 'a local_proxy \<Rightarrow> 'a local_proxy outcome" where
  "lp_insert N item p =
    (if lp_size p = N then Fail InvalidValue
     else Done \<lparr>lp_arr = (lp_arr p)[lp_size p := item], lp_size = lp_size p + 1\<rparr>)"

definition local_proxy_collection :: "'a empty_state \<Rightarrow> nat \<Rightarrow> ('a local_proxy, 'a) collection" where
  "local_proxy_collection es N = \<lparr>
     col_empty = lp_for_overwrite es N,
     col_is_empty = lp_is_empty,
     col_len = lp_size,
     col_iter = lp_items,
     col_reversed = (\<lambda>p. rev (lp_items p)),
     col_insert = lp_insert N,
     col_insert_dist = trivially_insert_distinguished (lp_insert N)\<rparr>"

text \<open>The proxies there are: behind the items in use the array is empty.\<close>

definition lp_valid :: "'a empty_state \<Rightarrow> nat \<Rightarrow> 'a local_proxy \<Rightarrow> bool" where
  "lp_valid es N p \<longleftrightarrow> length (lp_arr p) = N \<and> lp_size p \<le> N \<and>
     drop (lp_size p) (lp_arr p) = replicate (N - lp_size p) (es_empty es)"

lemma lp_valid_arr: "lp_valid es N p \<Longrightarrow> lp_arr p = lp_items p @ replicate (N - length (lp_items p)) (es_empty es)"
  unfolding lp_valid_def lp_items_def
  by (metis append_take_drop_id length_take min.absorb2)

lemma lp_insert_valid:
  assumes "lp_valid es N p" and "lp_insert N x p = Done q"
  shows "lp_valid es N q \<and> lp_items q = lp_items p @ [x]"
proof -
  have q: "lp_size p < N" "q = \<lparr>lp_arr = (lp_arr p)[lp_size p := x], lp_size = lp_size p + 1\<rparr>"
    and p: "length (lp_arr p) = N" "drop (lp_size p) (lp_arr p) = replicate (N - lp_size p) (es_empty es)"
    using assms by (auto simp: lp_insert_def lp_valid_def split: if_splits)
  have "drop (Suc (lp_size p)) (lp_arr p) = replicate (N - Suc (lp_size p)) (es_empty es)"
    using p(2) by (metis drop_Suc_Cons drop_drop drop_replicate diff_diff_left plus_1_eq_Suc add.commute)
  then show ?thesis
    using p q by (simp add: lp_valid_def lp_items_def take_Suc_conv_app_nth)
qed

lemma local_proxy_laws: "collection_contract (local_proxy_collection es N) (lp_valid es N)"
proof unfold_locales
  let ?col = "local_proxy_collection es N"
  fix p q q' :: "'a local_proxy" and x xs k
  show "lp_valid es N (col_empty ?col) \<and> col_iter ?col (col_empty ?col) = []"
    by (simp add: local_proxy_collection_def lp_for_overwrite_def lp_valid_def lp_items_def)
  show "col_insert ?col x p \<noteq> Panic" "col_insert_dist ?col x p \<noteq> Panic"
    by (simp_all add: local_proxy_collection_def trivially_insert_distinguished_def lp_insert_def)
  show "col_insert_dist ?col x p = Done (q, k) \<Longrightarrow> col_insert ?col x p = Done q"
    by (auto simp: local_proxy_collection_def trivially_insert_distinguished_def)
  assume p: "lp_valid es N p"
  have size: "length (lp_items p) = lp_size p" using p by (simp add: lp_valid_def lp_items_def)
  show "col_is_empty ?col p \<longleftrightarrow> col_iter ?col p = []" "col_len ?col p = length (col_iter ?col p)"
    "col_reversed ?col p = rev (col_iter ?col p)"
    using size by (auto simp: local_proxy_collection_def lp_is_empty_def)
  show "col_insert ?col x p = Done q \<Longrightarrow> lp_valid es N q \<and> set (col_iter ?col q) = insert x (set (col_iter ?col p)) \<and>
      length (col_iter ?col q) = Suc (length (col_iter ?col p))"
    using lp_insert_valid [OF p, of x q] by (simp add: local_proxy_collection_def)
  show "col_insert_dist ?col x p = Done (q, Canonical) \<Longrightarrow> col_iter ?col q = col_iter ?col p @ [x]"
    using lp_insert_valid [OF p, of x q] by (auto simp: local_proxy_collection_def trivially_insert_distinguished_def)
  assume q': "lp_valid es N q'"
  have size': "length (lp_items q') = lp_size q'" "lp_size q' \<le> N" using q' by (simp_all add: lp_valid_def lp_items_def)
  show "col_iter ?col p = col_iter ?col q' \<Longrightarrow> p = q'"
    using lp_valid_arr [OF p] lp_valid_arr [OF q'] size size' by (simp add: local_proxy_collection_def)
  show "col_iter ?col q' = col_iter ?col p @ x # xs \<Longrightarrow> \<exists>q. col_insert_dist ?col x p = Done (q, Canonical)"
    using size size' by (auto simp: local_proxy_collection_def trivially_insert_distinguished_def lp_insert_def)
qed

end
