(* ===== verification/Array_Proxies.thy ===== *)
theory Array_Proxies
  imports Proxies
begin

text \<open>
  Types encoded as a few integers: the proxy is a \<^verbatim>\<open>LocalProxy\<close> of the parts of the value, in packed varints
  without the zeros at the end, and decoding composes the value from them or refuses them. What the two
  conversions promise is the locale \<open>array_conversion\<close>, from which the codec has its laws;
  \<^verbatim>\<open>core::time::Duration\<close> (\<^verbatim>\<open>src/src/encoding/general.rs\<close>) is the first such type.
\<close>

section \<open>The proxy of a list of parts\<close>

definition array_proxy ::
    "'i empty_state \<Rightarrow> ('v \<Rightarrow> 'i list) \<Rightarrow> ('i list \<Rightarrow> 'v outcome) \<Rightarrow> ('v, 'i local_proxy) proxiable" where
  "array_proxy es parts compose = \<lparr>
     px_encode = (\<lambda>v. lp_new_without_empty_suffix es (parts v)),
     px_decode = (\<lambda>_ proxy. compose (lp_into_inner proxy)),
     px_decode_dist = (\<lambda>_ proxy. case lp_into_inner_distinguished es proxy of
       (arr, canon) \<Rightarrow> obind (compose arr) (\<lambda>v. Done (v, canon)))\<rparr>"

definition array_proxied_codec ::
    "'r rev_ops \<Rightarrow> ('i, 'r) codec \<Rightarrow> 'i empty_state \<Rightarrow> nat \<Rightarrow> ('v \<Rightarrow> 'i list) \<Rightarrow> ('i list \<Rightarrow> 'v outcome) \<Rightarrow> 'v \<Rightarrow>
     ('v, 'r) codec" where
  "array_proxied_codec rops c es N parts compose d =
    proxied_codec (packed_codec rops c (local_proxy_collection es N)) (array_proxy es parts compose) d"

text \<open>The items of the array up to the last one that is not empty, and their encoding.\<close>

definition trimmed :: "'i empty_state \<Rightarrow> 'i list \<Rightarrow> 'i list" where
  "trimmed es xs = rev (dropWhile (es_is_empty es) (rev xs))"

definition array_bytes :: "'i empty_state \<Rightarrow> ('i \<Rightarrow> bytes) \<Rightarrow> 'i list \<Rightarrow> bytes" where
  "array_bytes es enc xs = delimited (concat (map enc (trimmed es xs)))"

lemma empty_suffix_dropWhile: "length xs - empty_suffix es xs = length (dropWhile (es_is_empty es) xs) \<and> empty_suffix es xs \<le> length xs"
  by (induction xs) auto

lemma empty_suffix_drop: "drop (empty_suffix es xs) xs = dropWhile (es_is_empty es) xs"
  by (induction xs) auto

lemma lp_items_new: "lp_items (lp_new_without_empty_suffix es xs) = trimmed es xs"
  using empty_suffix_drop [of es "rev xs"]
  by (simp add: lp_items_def lp_new_without_empty_suffix_def trimmed_def drop_rev rev_swap [symmetric])

lemma empty_suffix_replicate:
  assumes "\<And>x. es_is_empty es x \<longleftrightarrow> x = es_empty es"
  shows "take (empty_suffix es xs) xs = replicate (empty_suffix es xs) (es_empty es)"
  by (induction xs) (simp_all add: assms)

lemma lp_new_valid:
  assumes "\<And>x. es_is_empty es x \<longleftrightarrow> x = es_empty es" and "length xs = N"
  shows "lp_valid es N (lp_new_without_empty_suffix es xs)"
proof -
  let ?n = "empty_suffix es (rev xs)"
  have n: "?n \<le> N" using empty_suffix_dropWhile [of "rev xs" es] assms(2) by simp
  have "rev (take ?n (rev xs)) = replicate ?n (es_empty es)"
    using empty_suffix_replicate [OF assms(1), of "rev xs"] by simp
  then show ?thesis
    using n assms(2) by (simp add: lp_valid_def lp_new_without_empty_suffix_def rev_take)
qed

text \<open>A valid proxy whose last item is not empty is the one made from its array.\<close>

lemma lp_new_inner:
  assumes es: "\<And>x. es_is_empty es x \<longleftrightarrow> x = es_empty es" and v: "lp_valid es N p"
    and c: "snd (lp_into_inner_distinguished es p) = Canonical"
  shows "lp_new_without_empty_suffix es (lp_arr p) = p"
proof -
  have a: "lp_arr p = lp_items p @ replicate (N - length (lp_items p)) (es_empty es)" by (rule lp_valid_arr [OF v])
  have items: "dropWhile (es_is_empty es) (rev (lp_items p)) = rev (lp_items p)"
    using c by (cases "rev (lp_items p)") (auto simp: lp_into_inner_distinguished_def Let_def split: if_splits)
  have drop: "dropWhile (es_is_empty es) (replicate m (es_empty es) @ ys) = dropWhile (es_is_empty es) ys" for m ys
    by (induction m) (simp_all add: es)
  have "length (lp_arr p) - empty_suffix es (rev (lp_arr p)) = length (dropWhile (es_is_empty es) (rev (lp_arr p)))"
    using empty_suffix_dropWhile [of "rev (lp_arr p)" es] by simp
  also have "\<dots> = length (lp_items p)"
    by (subst a) (simp add: drop items)
  also have "\<dots> = lp_size p" using v by (simp add: lp_valid_def lp_items_def)
  finally show ?thesis by (simp add: lp_new_without_empty_suffix_def)
qed

lemma into_inner_new:
  assumes "\<And>x. es_is_empty es x \<longleftrightarrow> x = es_empty es"
  shows "lp_into_inner_distinguished es (lp_new_without_empty_suffix es xs) = (xs, Canonical)"
proof -
  have "\<not> es_is_empty es y" if "dropWhile (es_is_empty es) (rev xs) = y # ys" for y ys
    using that by (auto simp: dropWhile_eq_Cons_conv)
  then have "(case rev (lp_items (lp_new_without_empty_suffix es xs)) of
      last_item # _ \<Rightarrow> if es_is_empty es last_item then NotCanonical else Canonical | [] \<Rightarrow> Canonical) = Canonical"
    by (auto simp: lp_items_new trimmed_def split: list.split)
  then show ?thesis
    by (simp add: lp_into_inner_distinguished_def Let_def) (simp add: lp_new_without_empty_suffix_def)
qed

context repeated_codec
begin

lemma packed_value_laws:
  "distinguished_codec rops rcontents rinv (packed_codec rops c col) (packed_enc enc col)
    (packed_valid enc valid col cvalid) (\<lambda>v. list_depth depth (col_iter col v))"
  by (rule packed.distinguished_codec_axioms)

end

section \<open>The contract of the conversions\<close>

locale array_conversion =
  fixes es :: "'i empty_state" and parts :: "'v \<Rightarrow> 'i list" and compose :: "'i list \<Rightarrow> 'v outcome"
    and N :: nat and vvalid :: "'v \<Rightarrow> bool"
  assumes empty_item: "es_is_empty es x \<longleftrightarrow> x = es_empty es"
    and parts_length: "vvalid v \<Longrightarrow> length (parts v) = N"
    and compose_parts: "vvalid v \<Longrightarrow> compose (parts v) = Done v"
    and parts_compose: "length xs = N \<Longrightarrow> compose xs = Done v \<Longrightarrow> parts v = xs \<and> vvalid v"
    and compose_no_panic: "compose xs \<noteq> Panic"
begin

lemma array_proxy_laws:
  assumes p: "\<And>p. pvalid p \<longleftrightarrow> lp_valid es N p"
  shows "distinguished_proxy_contract (array_proxy es parts compose) vvalid pvalid"
proof (intro distinguished_proxy_contract.intro proxy_contract.intro distinguished_proxy_contract_axioms.intro)
  let ?px = "array_proxy es parts compose"
  fix v v0 q k
  show "vvalid v \<Longrightarrow> pvalid (px_encode ?px v)"
    by (simp add: p array_proxy_def lp_new_valid [OF empty_item parts_length])
  show "vvalid v \<Longrightarrow> px_decode ?px v0 (px_encode ?px v) = Done v"
    by (simp add: array_proxy_def lp_into_inner_def lp_new_without_empty_suffix_def compose_parts)
  show "px_decode ?px v0 q \<noteq> Panic" "px_decode_dist ?px v0 q \<noteq> Panic"
    by (simp_all add: array_proxy_def lp_into_inner_distinguished_def Let_def obind_Panic_iff compose_no_panic)
  show "px_decode_dist ?px v0 q = Done (v, k) \<Longrightarrow> px_decode ?px v0 q = Done v"
    by (auto simp: array_proxy_def lp_into_inner_distinguished_def lp_into_inner_def Let_def)
  show "vvalid v \<Longrightarrow> px_decode_dist ?px v0 (px_encode ?px v) = Done (v, Canonical)"
    by (simp add: array_proxy_def into_inner_new [OF empty_item] compose_parts)
  assume q: "pvalid q" and d: "px_decode_dist ?px v0 q = Done (v, Canonical)"
  have "compose (lp_arr q) = Done v" "snd (lp_into_inner_distinguished es q) = Canonical"
    using d by (auto simp: array_proxy_def lp_into_inner_distinguished_def Let_def)
  moreover have "length (lp_arr q) = N" using q by (simp add: p lp_valid_def)
  ultimately show "px_encode ?px v = q \<and> vvalid v"
    using parts_compose lp_new_inner [OF empty_item, of N q] q by (auto simp: array_proxy_def p)
qed

text \<open>The codec of the proxied type.\<close>

lemma array_codec_laws:
  assumes c: "distinguished_codec rops rcontents rinv c enc (\<lambda>_. True) (\<lambda>_. 0)"
    and len: "\<And>x. length (enc x) \<le> 9" and N: "9 * N < 2 ^ 64"
  shows "distinguished_codec rops rcontents rinv (array_proxied_codec rops c es N parts compose d)
    (\<lambda>v. array_bytes es enc (parts v)) vvalid (\<lambda>_. 0)"
proof -
  let ?col = "local_proxy_collection es N"
  have r: "repeated_codec rops rcontents rinv c enc (\<lambda>_. True) (\<lambda>_. 0) ?col (lp_valid es N)"
    by (intro repeated_codec.intro repeated_values.intro distinguished_codec.axioms(1) [OF c] c local_proxy_laws)
  have short: "length (concat (map enc xs)) \<le> 9 * length xs" for xs
    using len by (induction xs) (auto intro: add_le_mono)
  have "length (concat (map enc (lp_items p))) < 2 ^ 64" if "lp_valid es N p" for p
  proof -
    have "length (lp_items p) \<le> N" using that by (simp add: lp_valid_def lp_items_def)
    then show ?thesis using short [of "lp_items p"] N by linarith
  qed
  then have v: "packed_valid enc (\<lambda>_. True) ?col (lp_valid es N) p \<longleftrightarrow> lp_valid es N p" for p
    by (auto simp: packed_valid_def local_proxy_collection_def)
  have "distinguished_codec rops rcontents rinv (array_proxied_codec rops c es N parts compose d)
      (\<lambda>v. packed_enc enc ?col (px_encode (array_proxy es parts compose) v)) vvalid
      (\<lambda>v. list_depth (\<lambda>_. 0) (col_iter ?col (px_encode (array_proxy es parts compose) v)))"
    unfolding array_proxied_codec_def
    by (rule proxied_distinguished_laws [OF repeated_codec.packed_value_laws [OF r] array_proxy_laws [OF v]])
  moreover have "list_depth (\<lambda>_. 0) xs = 0" for xs :: "'i list"
    using list_depth_le [of "\<lambda>_. 0" xs 0] by simp
  ultimately show ?thesis
    by (simp add: packed_enc_def local_proxy_collection_def array_proxy_def lp_items_new array_bytes_def [abs_def])
qed

end

section \<open>Durations of the standard library\<close>

text \<open>\<^verbatim>\<open>Duration::new\<close> carries whole seconds over and panics when the seconds overflow.\<close>

record core_duration =
  cd_secs :: u64
  cd_nanos :: u32

definition core_duration_new :: "u64 \<Rightarrow> u32 \<Rightarrow> core_duration outcome" where
  "core_duration_new secs nanos =
    (if nanos < 1000000000 then Done \<lparr>cd_secs = secs, cd_nanos = nanos\<rparr>
     else if unat secs + unat nanos div 1000000000 < 2 ^ 64
     then Done \<lparr>cd_secs = secs + of_nat (unat nanos div 1000000000), cd_nanos = nanos mod 1000000000\<rparr>
     else Panic)"

definition core_duration_parts :: "core_duration \<Rightarrow> u64 list" where
  "core_duration_parts d = [cd_secs d, ucast (cd_nanos d)]"

definition core_duration_compose :: "u64 list \<Rightarrow> core_duration outcome" where
  "core_duration_compose arr = (case arr of
     [secs, nanos] \<Rightarrow> if nanos \<le> 999999999 then core_duration_new secs (ucast nanos) else Fail InvalidValue
   | _ \<Rightarrow> Fail InvalidValue)"

definition core_duration_codec :: "'r rev_ops \<Rightarrow> (core_duration, 'r) codec" where
  "core_duration_codec rops = array_proxied_codec rops (varint_u64 rops) (default_empty_state 0) 2
     core_duration_parts core_duration_compose \<lparr>cd_secs = 0, cd_nanos = 0\<rparr>"

text \<open>The durations there are.\<close>

definition core_duration_valid :: "core_duration \<Rightarrow> bool" where
  "core_duration_valid d \<longleftrightarrow> cd_nanos d < 1000000000"

lemma arrays:
  "length xs = 2 \<longleftrightarrow> (\<exists>a b. xs = [a, b])"
  "length xs = 4 \<longleftrightarrow> (\<exists>a b c d. xs = [a, b, c, d])"
  "length xs = 6 \<longleftrightarrow> (\<exists>a b c d e f. xs = [a, b, c, d, e, f])"
  by (auto simp: length_Suc_conv eval_nat_numeral)

lemma small_nanos:
  "n \<le> 999999999 \<longleftrightarrow> unat (n :: u64) \<le> 999999999" "m < 1000000000 \<longleftrightarrow> unat (m :: u32) < 1000000000"
  "unat n \<le> 999999999 \<Longrightarrow> unat (ucast n :: u32) = unat n"
  by (simp_all add: word_le_nat_alt word_less_nat_alt unat_ucast)

lemma core_duration_compose_eq:
  "core_duration_compose [a, b] = (if b \<le> 999999999 then Done \<lparr>cd_secs = a, cd_nanos = ucast b\<rparr> else Fail InvalidValue)"
  using small_nanos(3) [of b] by (auto simp: core_duration_compose_def core_duration_new_def small_nanos(1,2))

interpretation core_duration: array_conversion "default_empty_state 0" core_duration_parts core_duration_compose 2
  core_duration_valid
proof unfold_locales
  fix v :: core_duration and xs :: "u64 list" and x :: u64
  show "es_is_empty (default_empty_state 0) x \<longleftrightarrow> x = es_empty (default_empty_state 0)" by (simp add: default_empty_state_def)
  have wide: "unat (ucast n :: u64) = unat n" for n :: u32
    using unat_lt [of n] by (simp add: unat_ucast)
  show "core_duration_compose xs \<noteq> Panic"
  proof (cases "length xs = 2")
    case True
    then show ?thesis by (auto simp: arrays(1) core_duration_compose_eq)
  qed (auto simp: core_duration_compose_def split: list.split)
  show "length xs = 2 \<Longrightarrow> core_duration_compose xs = Done v \<Longrightarrow> core_duration_parts v = xs \<and> core_duration_valid v"
    by (auto simp: arrays(1) core_duration_compose_eq core_duration_parts_def core_duration_valid_def small_nanos word_unat_eq_iff wide split: if_splits)
  show "core_duration_valid v \<Longrightarrow> length (core_duration_parts v) = 2" by (simp add: core_duration_parts_def)
  show "core_duration_valid v \<Longrightarrow> core_duration_compose (core_duration_parts v) = Done v"
    by (cases v) (auto simp: core_duration_compose_eq core_duration_parts_def core_duration_valid_def small_nanos wide word_unat_eq_iff unat_ucast)
qed

lemma core_duration_laws:
  assumes "rev_buf_contract rops rcontents rinv"
  shows "distinguished_codec rops rcontents rinv (core_duration_codec rops)
    (\<lambda>d. array_bytes (default_empty_state 0) varint_bytes (core_duration_parts d)) core_duration_valid (\<lambda>_. 0)"
  unfolding core_duration_codec_def
  by (rule core_duration.array_codec_laws [OF rev_buf_contract.varint_laws(8) [OF assms]]) (simp_all add: length_varint_bytes)

end
