(* ===== verification/Underived.thy ===== *)
theory Underived
  imports Derived_Laws
begin

text \<open>
  Messages written out by hand: the macros of \<^verbatim>\<open>src/src/encoding/underived.rs\<close> and of
  \<^verbatim>\<open>src/src/encoding/tuple.rs\<close> inline, for a fixed list of value fields in the order of their tags, what
  \<^verbatim>\<open>#[derive(Message)]\<close> and \<^verbatim>\<open>message.rs\<close> do for a struct. A field is again a \<open>message_field\<close> of an
  accessor and an encoding. The two families differ in the measurer: the elements of a tuple have tags
  below 32, so that \<^verbatim>\<open>TrivialTagMeasurer\<close> will do, and \<open>tuple_element\<close> is a field with its length under
  that measurer. Range types (\<^verbatim>\<open>range_as_tuple.rs\<close>) and proxies of time types use the first family.
\<close>

section \<open>Encoding\<close>

definition underived_message_len :: "('s, 'r) message_field list \<Rightarrow> 's \<Rightarrow> nat option" where
  "underived_message_len fs s = do {
     (message_len, _) \<leftarrow> measure_each fs s tag_measurer_new;
     Some message_len
   }"

definition underived_encode :: "('s, 'r) message_field list \<Rightarrow> 's \<Rightarrow> bytes \<Rightarrow> bytes option" where
  "underived_encode fs s buf = do {
     message_len \<leftarrow> underived_message_len fs s;
     (_, buf) \<leftarrow> encode_each fs s tag_writer_new (encode_varint (of_nat message_len) buf);
     Some buf
   }"

text \<open>The fields are listed in reverse order here.\<close>

definition underived_prepend :: "'r rev_ops \<Rightarrow> ('s, 'r) message_field list \<Rightarrow> 's \<Rightarrow> 'r \<Rightarrow> 'r option" where
  "underived_prepend rops rev_fs s buf = do {
     let end_pos = r_remaining rops buf;
     st \<leftarrow> prepend_each rev_fs s (tag_rev_writer_new, buf);
     (_, buf) \<leftarrow> trw_finalize rops st;
     n \<leftarrow> (if end_pos \<le> r_remaining rops buf then Some (r_remaining rops buf - end_pos) else None);
     prepend_varint rops (of_nat n) buf
   }"

text \<open>Tags that descend cannot be measured; no list of fields has them.\<close>

definition underived_encoded_len :: "('s, 'r) message_field list \<Rightarrow> 's \<Rightarrow> nat" where
  "underived_encoded_len fs s = (case underived_message_len fs s of
     Some message_len \<Rightarrow> encoded_len_varint (of_nat message_len) + message_len
   | None \<Rightarrow> 0)"

section \<open>Decoding\<close>

primrec underived_decode_loop ::
    "('s, 'r) message_field list \<Rightarrow> nat \<Rightarrow> tag_reader \<Rightarrow> u32 option \<Rightarrow> 's \<Rightarrow> bytes capped \<Rightarrow> decode_context \<Rightarrow>
     ('s \<times> bytes capped) outcome" where
  "underived_decode_loop fs 0 tr prev_tag s buf ctx = Panic"
| "underived_decode_loop fs (Suc fuel) tr prev_tag s buf ctx =
    obind (has_remaining slice_ops buf) (\<lambda>more.
      if \<not> more then Done (s, buf)
      else obind (decode_key slice_ops tr buf) (\<lambda>(tag, wire_type, tr, buf).
        let duplicated = (prev_tag = Some tag) in
        obind (case field_of_tag fs tag of
            Some f \<Rightarrow> mf_decode f tag wire_type duplicated s buf ctx
          | None \<Rightarrow> obind (skip_field slice_ops wire_type buf) (\<lambda>buf. Done (s, buf))) (\<lambda>(s, buf).
          underived_decode_loop fs fuel tr (Some tag) s buf ctx)))"

definition underived_decode ::
    "('s, 'r) message_field list \<Rightarrow> 's \<Rightarrow> bytes capped \<Rightarrow> decode_context \<Rightarrow> ('s \<times> bytes capped) outcome" where
  "underived_decode fs s cp ctx =
    obind (take_length_delimited slice_ops cp) (\<lambda>buf.
      obind (from_result (limit_reached ctx)) (\<lambda>_.
        obind (underived_decode_loop fs (length (cap_buf buf) + 1) tag_reader_new None s buf (enter_recursion ctx))
          (\<lambda>(s, buf). Done (s, cap_outer cp buf))))"

primrec underived_dist_loop ::
    "('s, 'r) message_field list \<Rightarrow> nat \<Rightarrow> tag_reader \<Rightarrow> u32 option \<Rightarrow> 's \<Rightarrow> canonicity \<Rightarrow> bytes capped \<Rightarrow>
     restricted_context \<Rightarrow> ('s \<times> canonicity \<times> bytes capped) outcome" where
  "underived_dist_loop fs 0 tr prev_tag s canon buf ctx = Panic"
| "underived_dist_loop fs (Suc fuel) tr prev_tag s canon buf ctx =
    obind (has_remaining slice_ops buf) (\<lambda>more.
      if \<not> more then Done (s, canon, buf)
      else obind (decode_key slice_ops tr buf) (\<lambda>(tag, wire_type, tr, buf).
        let duplicated = (prev_tag = Some tag) in
        obind (case field_of_tag fs tag of
            Some f \<Rightarrow> obind (mf_decode_dist f tag wire_type duplicated s buf ctx) (\<lambda>(s, k, buf).
              Done (s, canonicity_update canon k, buf))
          | None \<Rightarrow> obind (from_result (check ctx HasExtensions)) (\<lambda>k.
              obind (skip_field slice_ops wire_type buf) (\<lambda>buf. Done (s, canonicity_update canon k, buf))))
          (\<lambda>(s, canon, buf). underived_dist_loop fs fuel tr (Some tag) s canon buf ctx)))"

definition underived_decode_distinguished ::
    "('s, 'r) message_field list \<Rightarrow> bool \<Rightarrow> 's \<Rightarrow> bytes capped \<Rightarrow> restricted_context \<Rightarrow>
     ('s \<times> canonicity \<times> bytes capped) outcome" where
  "underived_decode_distinguished fs allow_empty s cp ctx =
    obind (take_length_delimited slice_ops cp) (\<lambda>buf.
      if \<not> allow_empty \<and> remaining_before_cap slice_ops buf = 0
      then obind (from_result (check ctx NotCanonical)) (\<lambda>k. Done (s, k, cap_outer cp buf))
      else obind (from_result (restricted_limit_reached ctx)) (\<lambda>_.
        obind (underived_dist_loop fs (length (cap_buf buf) + 1) tag_reader_new None s Canonical buf
            (restricted_enter_recursion ctx)) (\<lambda>(s, k, buf). Done (s, k, cap_outer cp buf))))"

text \<open>The encoding of a type whose impls are these macros.\<close>

definition underived_codec :: "'r rev_ops \<Rightarrow> 's \<Rightarrow> ('s, 'r) message_field list \<Rightarrow> ('s, 'r) codec" where
  "underived_codec rops init fs = \<lparr>
     c_wire = WtLengthDelimited,
     c_for_overwrite = init,
     c_encode = underived_encode fs,
     c_prepend = underived_prepend rops (rev fs),
     c_len = underived_encoded_len fs,
     c_many_len = many_values_encoded_len WtLengthDelimited (underived_encoded_len fs),
     c_decode = underived_decode fs,
     c_checks_empty = True,
     c_decode_dist = underived_decode_distinguished fs\<rparr>"

definition underived_empty_state :: "'s \<Rightarrow> ('s, 'r) message_field list \<Rightarrow> 's empty_state" where
  "underived_empty_state init fs = \<lparr>
     es_empty = init,
     es_is_empty = (\<lambda>s. list_all (\<lambda>f. mf_is_empty f s) fs),
     es_clear = fold mf_clear fs\<rparr>"

section \<open>Tuples\<close>

text \<open>\<^verbatim>\<open>Encoder::encoded_len\<close> with \<^verbatim>\<open>TrivialTagMeasurer\<close>, for a plain and for an optional element.\<close>

definition plain_trivial_len :: "('v, 'r) codec \<Rightarrow> 'v empty_state \<Rightarrow> u32 \<Rightarrow> 'v \<Rightarrow> nat" where
  "plain_trivial_len c es tag v = (if \<not> es_is_empty es v then trivial_key_len tag + c_len c v else 0)"

definition option_trivial_len :: "('v, 'r) codec \<Rightarrow> u32 \<Rightarrow> 'v option \<Rightarrow> nat" where
  "option_trivial_len c tag v = (case v of Some v \<Rightarrow> trivial_key_len tag + c_len c v | None \<Rightarrow> 0)"

type_synonym ('s, 'r) tuple_element = "('s, 'r) message_field \<times> ('s \<Rightarrow> nat)"

definition tuple_message_len :: "('s, 'r) tuple_element list \<Rightarrow> 's \<Rightarrow> nat" where
  "tuple_message_len es s = sum_list (map (\<lambda>(_, len). len s) es)"

definition tuple_encode :: "('s, 'r) tuple_element list \<Rightarrow> 's \<Rightarrow> bytes \<Rightarrow> bytes option" where
  "tuple_encode es s buf = do {
     (_, buf) \<leftarrow> encode_each (map fst es) s tag_writer_new (encode_varint (of_nat (tuple_message_len es s)) buf);
     Some buf
   }"

definition tuple_encoded_len :: "('s, 'r) tuple_element list \<Rightarrow> 's \<Rightarrow> nat" where
  "tuple_encoded_len es s = encoded_len_varint (of_nat (tuple_message_len es s)) + tuple_message_len es s"

definition tuple_codec :: "'r rev_ops \<Rightarrow> 's \<Rightarrow> ('s, 'r) tuple_element list \<Rightarrow> ('s, 'r) codec" where
  "tuple_codec rops init es = \<lparr>
     c_wire = WtLengthDelimited,
     c_for_overwrite = init,
     c_encode = tuple_encode es,
     c_prepend = underived_prepend rops (rev (map fst es)),
     c_len = tuple_encoded_len es,
     c_many_len = many_values_encoded_len WtLengthDelimited (tuple_encoded_len es),
     c_decode = underived_decode (map fst es),
     c_checks_empty = True,
     c_decode_dist = underived_decode_distinguished (map fst es)\<rparr>"

definition tuple_empty_state :: "'s \<Rightarrow> ('s, 'r) tuple_element list \<Rightarrow> 's empty_state" where
  "tuple_empty_state init es = \<lparr>
     es_empty = init,
     es_is_empty = (\<lambda>s. list_all (\<lambda>(f, _). mf_is_empty f s) es),
     es_clear = fold (\<lambda>(f, _). mf_clear f) es\<rparr>"

section \<open>The same loops as for a derived message\<close>

lemma underived_loop_eq:
  "underived_decode_loop fs fuel tr t s buf ctx = merge_loop (derive_message rops init fs) fuel tr t s buf ctx"
  by (induction fuel arbitrary: tr t s buf)
    (simp_all add: derive_message_def derived_decode_field_def)

lemma canonicity_update_Canonical [simp]: "canonicity_update Canonical k = k"
  by (simp add: canonicity_update_def)

lemma dist_dispatch_eq:
  "obind (case field_of_tag fs tag of
      Some f \<Rightarrow> obind (mf_decode_dist f tag wt d s buf ctx) (\<lambda>(s, k, buf). Done (s, canonicity_update canon k, buf))
    | None \<Rightarrow> obind (from_result (check ctx HasExtensions)) (\<lambda>k.
        obind (skip_field slice_ops wt buf) (\<lambda>buf. Done (s, canonicity_update canon k, buf)))) g =
    obind (derived_decode_field_dist fs tag wt d s buf ctx) (\<lambda>(s, k, buf). g (s, canonicity_update canon k, buf))"
  by (simp add: derived_decode_field_dist_def obind_assoc case_prod_unfold split: option.split)

lemma underived_dist_loop_eq:
  "underived_dist_loop fs fuel tr t s canon buf ctx =
    merge_dist_loop (derive_message rops init fs) fuel tr t s canon buf ctx"
  by (induction fuel arbitrary: tr t s canon buf)
    (simp_all only: underived_dist_loop.simps merge_dist_loop.simps dist_dispatch_eq split_conv Let_def
      derive_message_def raw_message.select_convs)

lemma underived_decode_eq:
  "underived_decode fs s cp ctx =
    obind (take_length_delimited slice_ops cp) (\<lambda>buf.
      obind (from_result (limit_reached ctx)) (\<lambda>_.
        obind (merge (derive_message rops init fs) s buf (enter_recursion ctx)) (\<lambda>(s, buf). Done (s, cap_outer cp buf))))"
  by (simp add: underived_decode_def merge_def underived_loop_eq [of fs _ _ _ _ _ _ rops init] del: merge_loop.simps underived_decode_loop.simps)

lemma underived_decode_dist_eq:
  "underived_decode_distinguished fs allow s cp ctx =
    obind (take_length_delimited slice_ops cp) (\<lambda>buf.
      if \<not> allow \<and> remaining_before_cap slice_ops buf = 0
      then obind (from_result (check ctx NotCanonical)) (\<lambda>k. Done (s, k, cap_outer cp buf))
      else obind (from_result (restricted_limit_reached ctx)) (\<lambda>_.
        obind (merge_distinguished (derive_message rops init fs) s buf (restricted_enter_recursion ctx))
          (\<lambda>(s, k, buf). Done (s, k, cap_outer cp buf))))"
  unfolding underived_decode_distinguished_def merge_distinguished_def
    underived_dist_loop_eq [of fs _ _ _ _ _ _ _ rops init] ..

end
