(* ===== verification/Underived_Laws.thy ===== *)
theory Underived_Laws
  imports Underived
begin

text \<open>
  A message written out by hand, or a tuple, writes and reads what the derived message with the same
  fields does: its codec keeps the laws of a value. In distinguished mode it differs from a derived
  message at one point, an empty message at the recursion limit, which the properties state.
\<close>

lemma length_small_key: "d < 32 \<Longrightarrow> length (varint_bytes (key_of d wt)) = 1"
proof -
  assume "d < 32"
  then have "unat d < 32" by (simp add: word_less_nat_alt)
  then have "unat (key_of d wt) < 128" using wire_nat_less [of wt] by (simp add: unat_key_of)
  then show ?thesis by (simp add: varint_bytes_small word_less_nat_alt)
qed

lemma length_small_fields:
  "\<forall>(tag, _) \<in> set ps. tag < 32 \<Longrightarrow> tags_ascend t ps \<Longrightarrow>
   length (fields_bytes t ps) = sum_list (map (\<lambda>(_, _, val). 1 + length val) ps)"
proof (induction ps arbitrary: t)
  case (Cons p ps)
  obtain tag wt val where p: "p = (tag, wt, val)" by (cases p)
  have "tag - t \<le> tag" using Cons.prems p by (simp add: word_le_nat_alt unat_sub_if')
  then have "tag - t < 32" using Cons.prems(1) p by (auto intro: le_less_trans)
  then show ?case using Cons p length_small_key [of "tag - t" wt] by auto
qed simp

locale underived_message = derived_message rops rcontents rinv init fs w
  for rops :: "'r rev_ops" and rcontents :: "'r \<Rightarrow> bytes" and rinv :: "'r \<Rightarrow> bool"
    and init :: 's and fs :: "('s, 'r) message_field list" and w :: "('s, 'r) message_field \<Rightarrow> 's field_view" +
  assumes in_order: "sorted_wrt (\<lambda>f g. \<forall>a \<in> set (mf_tags f). \<forall>b \<in> set (mf_tags g). a < b) fs"
begin

lemma parts_in_order:
  assumes "\<forall>f \<in> set fs. fv_valid (w f) s"
  shows "struct_parts w fs s = concat (map (field_run w s) fs)"
proof -
  let ?P = "\<lambda>f. fv_parts (w f) s \<noteq> []"
  have "sorted_wrt (\<lambda>f g. fv_tag (w f) s \<le> fv_tag (w g) s) (filter ?P fs)"
    using sorted_wrt_filter [OF in_order]
  proof (rule sorted_wrt_mono_rel [rotated])
    fix f g assume fg: "f \<in> set (filter ?P fs)" "g \<in> set (filter ?P fs)"
      "\<forall>a \<in> set (mf_tags f). \<forall>b \<in> set (mf_tags g). a < b"
    then show "fv_tag (w f) s \<le> fv_tag (w g) s"
      using member_contract.tag_in [OF member, of f s] member_contract.tag_in [OF member, of g s] assms
      by (auto intro: less_imp_le)
  qed
  then have "present w fs s = filter ?P fs"
    unfolding present_def by (intro sort_key_id_if_sorted) (simp add: sorted_wrt_map)
  moreover have "concat (map (field_run w s) gs) = concat (map (field_run w s) (filter ?P gs))" for gs
    by (induction gs) (auto simp: field_run_def)
  ultimately show ?thesis by (simp add: struct_parts_def)
qed

lemma valid_members: "struct_valid w fs s \<Longrightarrow> \<forall>f \<in> set fs. fv_valid (w f) s"
  by (simp add: struct_valid_def)

lemma underived_message_len_eq:
  assumes "struct_valid w fs s"
  shows "underived_message_len fs s = Some (length (struct_body w fs s))"
proof -
  note v = valid_members [OF assms]
  have "measures_parts (struct_parts w fs s) (measure_each fs s)"
    unfolding parts_in_order [OF v] by (intro measure_each_parts v subset_refl)
  from measures_partsD [OF this struct_parts_ascend] show ?thesis
    by (simp add: underived_message_len_def tag_measurer_new_def struct_body_def)
qed

lemma encode_each_eq:
  assumes "struct_valid w fs s"
  shows "\<exists>tw. encode_each fs s tag_writer_new buf = Some (tw, buf @ struct_body w fs s)"
proof -
  note v = valid_members [OF assms]
  have "writes_parts (struct_parts w fs s) (encode_each fs s)"
    unfolding parts_in_order [OF v] by (intro encode_each_parts v subset_refl)
  from writes_partsD [OF this struct_parts_ascend] show ?thesis
    by (simp add: tag_writer_new_def struct_body_def)
qed

lemma underived_encode_eq:
  assumes "struct_valid w fs s"
  shows "underived_encode fs s buf = Some (buf @ delimited (struct_body w fs s))"
  using encode_each_eq [OF assms, of "encode_varint (of_nat (length (struct_body w fs s))) buf"]
  by (auto simp: underived_encode_def underived_message_len_eq [OF assms] encode_varint_bytes delimited_def)

lemma underived_prepend_eq:
  assumes "struct_valid w fs s"
  shows "prepends (delimited (struct_body w fs s)) (underived_prepend rops (rev fs) s)"
proof -
  note v = valid_members [OF assms]
  have body: "prepends (struct_body w fs s) (\<lambda>r. prepend_each (rev fs) s (tag_rev_writer_new, r) \<bind>
      (\<lambda>st. trw_finalize rops st \<bind> (\<lambda>(_, buf). Some buf)))"
  proof (rule prependsI)
    fix r assume r: "rinv r"
    have "prepends_parts (struct_parts w fs s) (prepend_each (rev fs) s)"
      unfolding parts_in_order [OF v] by (intro prepend_each_parts v subset_refl)
    then obtain st where st: "prepend_each (rev fs) s (tag_rev_writer_new, r) = Some st"
      "pending (struct_parts w fs s) (rcontents r) st"
      using pending_new [OF r] struct_parts_ascend [of w fs s] unfolding prepends_parts_def by fastforce
    then show "\<exists>r'. prepend_each (rev fs) s (tag_rev_writer_new, r) \<bind> (\<lambda>st. trw_finalize rops st \<bind> (\<lambda>(_, buf). Some buf)) = Some r' \<and>
        rinv r' \<and> rcontents r' = struct_body w fs s @ rcontents r"
      using finalize_pending [OF st(2)] by (auto simp: struct_body_def)
  qed
  then show ?thesis
    using prepends_delimited [OF body] by (simp add: underived_prepend_def prepends_def Let_def case_prod_unfold)
qed

abbreviation "derived \<equiv> derive_message rops init fs"

lemma underived_decode_Done:
  "underived_decode fs s cp ctx = Done r \<longleftrightarrow> message_decode_value derived s cp ctx = Done r"
  unfolding underived_decode_eq [of fs s cp ctx rops init] message_decode_value_def
  by (auto simp del: take_length_delimited_Done)

lemma underived_decode_no_panic: "underived_decode fs s cp ctx \<noteq> Panic"
  unfolding underived_decode_eq [of fs s cp ctx rops init]
  by (auto simp: obind_Panic_iff message_contract.merge_no_panic [OF derived_message_laws] simp del: take_length_delimited_Done)

abbreviation "enc \<equiv> \<lambda>s. delimited (struct_body w fs s)"

lemma handwritten_laws:
  assumes c: "c_wire c = WtLengthDelimited" "c_for_overwrite c = init" "c_decode c = underived_decode fs"
      "c_prepend c = underived_prepend rops (rev fs)" "c_many_len c = many_values_encoded_len WtLengthDelimited (c_len c)"
    and enc: "\<And>s buf. struct_valid w fs s \<Longrightarrow> c_encode c s buf = Some (buf @ enc s)"
    and len: "\<And>s. struct_valid w fs s \<Longrightarrow> c_len c s = length (enc s)"
  shows "value_codec rops rcontents rinv c enc (struct_valid w fs) (\<lambda>s. Suc (struct_depth w fs s))"
proof unfold_locales
  note d = message_contract.message_codec_laws [OF derived_message_laws]
  fix s v0 r n x cp cp' ctx and buf rest :: bytes
  show "struct_valid w fs s \<Longrightarrow> c_encode c s buf = Some (buf @ enc s)" by (rule enc)
  show "struct_valid w fs s \<Longrightarrow> c_len c s = length (enc s)" by (rule len)
  show "struct_valid w fs s \<Longrightarrow> rinv r \<Longrightarrow> \<exists>r'. c_prepend c s r = Some r' \<and> rinv r' \<and> rcontents r' = enc s @ rcontents r"
    using underived_prepend_eq unfolding c prepends_def by blast
  show "enc s \<noteq> []" by simp
  show "fixed_size (c_wire c) = Some n \<Longrightarrow> length (enc s) = n" by (simp add: c)
  show "c_decode c v0 cp ctx \<noteq> Panic" by (simp add: c underived_decode_no_panic)
  show "c_decode c v0 cp ctx = Done (s, cp') \<Longrightarrow>
      cap_extra cp' = cap_extra cp \<and> (\<exists>p. p \<noteq> [] \<and> cap_buf cp = p @ cap_buf cp')"
    unfolding c underived_decode_Done by (rule message_contract.message_decode_frame [OF derived_message_laws])
  show "struct_valid w fs s \<Longrightarrow> Suc (struct_depth w fs s) \<le> unat (recurse_count ctx) \<Longrightarrow> x \<le> length rest \<Longrightarrow>
      c_decode c (c_for_overwrite c) \<lparr>cap_buf = enc s @ rest, cap_extra = x\<rparr> ctx = Done (s, \<lparr>cap_buf = rest, cap_extra = x\<rparr>)"
    using value_codec.decode [OF d, of s ctx x rest] unfolding c underived_decode_Done
    by (simp add: message_codec_def derive_message_def)
next
  fix vs
  assume vs: "\<forall>v \<in> set vs. struct_valid w fs v"
  then show "c_many_len c vs = sum_list (map (\<lambda>v. length (enc v)) vs)"
    using len by (simp add: c cong: map_cong)
qed

lemma underived_codec_laws:
  "value_codec rops rcontents rinv (underived_codec rops init fs) enc (struct_valid w fs) (\<lambda>s. Suc (struct_depth w fs s))"
proof (rule handwritten_laws)
  fix s buf assume s: "struct_valid w fs s"
  show "c_encode (underived_codec rops init fs) s buf = Some (buf @ enc s)"
    using underived_encode_eq [OF s] by (simp add: underived_codec_def)
  show "c_len (underived_codec rops init fs) s = length (enc s)"
    by (simp add: underived_codec_def underived_encoded_len_def underived_message_len_eq [OF s] delimited_def
        encoded_len_varint_bytes)
qed (simp_all add: underived_codec_def)

text \<open>What the derived message with these fields encodes to is the same.\<close>

lemma same_as_derived:
  assumes s: "struct_valid w fs s"
  shows "message_encode_value derived s buf = underived_encode fs s buf"
    "message_value_encoded_len derived s = underived_encoded_len fs s"
proof -
  note d = message_contract.message_codec_laws [OF derived_message_laws]
  note e = value_codec.encode [OF d s] value_codec.len [OF d s]
  note u = value_codec.encode [OF underived_codec_laws s] value_codec.len [OF underived_codec_laws s]
  show "message_encode_value derived s buf = underived_encode fs s buf"
    using e(1) u(1) by (simp add: message_codec_def underived_codec_def)
  show "message_value_encoded_len derived s = underived_encoded_len fs s"
    using e(2) u(2) by (simp add: message_codec_def underived_codec_def)
qed

end

text \<open>In distinguished mode.\<close>

locale distinguished_underived_message = underived_message rops rcontents rinv init fs w +
    distinguished_derived_message rops rcontents rinv init fs w
  for rops :: "'r rev_ops" and rcontents :: "'r \<Rightarrow> bytes" and rinv :: "'r \<Rightarrow> bool"
    and init :: 's and fs :: "('s, 'r) message_field list" and w :: "('s, 'r) message_field \<Rightarrow> 's field_view"
begin

lemma underived_dist_Done:
  assumes "limit_reached (into_inner ctx) = Ok ()"
  shows "underived_decode_distinguished fs allow s cp ctx = Done r \<longleftrightarrow>
    message_decode_value_distinguished derived allow s cp ctx = Done r"
  using assms unfolding underived_decode_dist_eq [of fs allow s cp ctx rops init] message_decode_value_distinguished_def
  by (simp add: restricted_limit_reached_def into_inner_def del: take_length_delimited_Done cong: if_cong)

lemma underived_dist_at_limit:
  assumes "limit_reached (into_inner ctx) \<noteq> Ok ()"
  shows "underived_decode_distinguished fs allow s cp ctx = Done (s', k, cp') \<longleftrightarrow>
    \<not> allow \<and> s' = s \<and> check ctx NotCanonical = Ok k \<and>
    (\<exists>buf. take_length_delimited slice_ops cp = Done buf \<and> length (cap_buf buf) = cap_extra buf \<and> cp' = cap_outer cp buf)"
proof -
  have le: "cap_extra buf \<le> length (cap_buf buf)" if "take_length_delimited slice_ops cp = Done buf" for buf
    using that by auto
  show ?thesis
    using assms le unfolding underived_decode_dist_eq [of fs allow s cp ctx rops init]
    by (auto simp: restricted_limit_reached_def into_inner_def simp del: take_length_delimited_Done split: if_splits)
qed

lemma underived_dist_canonical:
  assumes d: "underived_decode_distinguished fs allow init cp ctx = Done (s, Canonical, cp')"
    and n: "length (cap_buf cp) < 2 ^ 64"
  shows "cap_buf cp = enc s @ cap_buf cp' \<and> struct_valid w fs s"
proof (cases "limit_reached (into_inner ctx) = Ok ()")
  case True
  note c = distinguished_message_contract.message_distinguished_laws [OF distinguished_derived_message_laws]
  show ?thesis
    using d distinguished_codec.dist_canonical [OF c _ n, of allow ctx s cp']
    unfolding underived_dist_Done [OF True] by (simp add: message_codec_def derive_message_def)
next
  case False
  then show ?thesis using d unfolding underived_dist_at_limit [OF False]
    by (auto simp: check_def simp del: take_length_delimited_Done split: bool.splits)
qed

lemma underived_dist_relaxed:
  assumes d: "underived_decode_distinguished fs allow init cp ctx = Done (s, k, cp')"
    and "limit_reached (into_inner ctx) = Ok ()"
  shows "underived_decode fs init cp (into_inner ctx) = Done (s, cp') \<and> rc_min_canonicity ctx \<le> k"
proof -
  note c = distinguished_message_contract.message_distinguished_laws [OF distinguished_derived_message_laws]
  show ?thesis
    using d distinguished_codec.dist_relaxed [OF c, of allow cp ctx s k cp']
    unfolding underived_dist_Done [OF assms(2)] underived_decode_Done by (simp add: message_codec_def derive_message_def)
qed

lemma underived_dist_complete:
  assumes "struct_valid w fs s" and "Suc (struct_depth w fs s) \<le> unat (recurse_count (into_inner ctx))"
    and "x \<le> length rest" and "allow \<or> struct_body w fs s \<noteq> []"
  shows "underived_decode_distinguished fs allow init \<lparr>cap_buf = enc s @ rest, cap_extra = x\<rparr> ctx =
    Done (s, Canonical, \<lparr>cap_buf = rest, cap_extra = x\<rparr>)"
proof -
  note c = distinguished_message_contract.message_distinguished_laws [OF distinguished_derived_message_laws]
  have l: "limit_reached (into_inner ctx) = Ok ()" using assms(2) by (auto simp: limit_reached_def)
  show ?thesis
    using distinguished_codec.dist_complete [OF c assms(1-3), of allow] assms(4)
    unfolding underived_dist_Done [OF l] by (simp add: message_codec_def derive_message_def)
qed

end

text \<open>Tuples: the fields have the tags from 0 on, and lengths that count one byte for every key.\<close>

locale tuple_message = underived_message rops rcontents rinv init "map fst es" w
  for rops :: "'r rev_ops" and rcontents :: "'r \<Rightarrow> bytes" and rinv :: "'r \<Rightarrow> bool"
    and init :: 's and es :: "('s, 'r) tuple_element list" and w :: "('s, 'r) message_field \<Rightarrow> 's field_view" +
  assumes small_tags: "e \<in> set es \<Longrightarrow> t \<in> set (mf_tags (fst e)) \<Longrightarrow> t < 32"
    and trivial_len: "e \<in> set es \<Longrightarrow> fv_valid (w (fst e)) s \<Longrightarrow>
      snd e s = sum_list (map (\<lambda>(wt, val). 1 + length val) (fv_parts (w (fst e)) s))"
begin

lemma tuple_message_len_eq:
  assumes s: "struct_valid w (map fst es) s"
  shows "tuple_message_len es s = length (struct_body w (map fst es) s)"
proof -
  let ?count = "\<lambda>ps :: raw_part list. sum_list (map (\<lambda>(_, _, val). 1 + length val) ps)"
  note v = valid_members [OF s]
  have one: "\<forall>(tag, _) \<in> set (field_run w s (fst e)). tag < 32" "snd e s = ?count (field_run w s (fst e))"
    if e: "e \<in> set es" for e
  proof -
    have f: "fst e \<in> set (map fst es)" using e by simp
    show "\<forall>(tag, _) \<in> set (field_run w s (fst e)). tag < 32"
      using member_contract.tag_in [OF member [OF f]] small_tags [OF e] v f
      by (cases "fv_parts (w (fst e)) s") (auto simp: field_run_def tagged_def)
    show "snd e s = ?count (field_run w s (fst e))"
      using trivial_len [OF e, of s] v e by (simp add: field_run_def tagged_def comp_def case_prod_unfold)
  qed
  have "?count (concat (map (field_run w s) (map fst gs))) = tuple_message_len gs s" if "set gs \<subseteq> set es" for gs
    using that one(2) by (induction gs) (auto simp: tuple_message_len_def)
  moreover have "length (struct_body w (map fst es) s) = ?count (struct_parts w (map fst es) s)"
    unfolding struct_body_def
    by (rule length_small_fields [OF _ struct_parts_ascend]) (use one(1) in \<open>fastforce simp: parts_in_order [OF v]\<close>)
  ultimately show ?thesis by (simp add: parts_in_order [OF v])
qed

lemma tuple_codec_laws:
  "value_codec rops rcontents rinv (tuple_codec rops init es) enc (struct_valid w (map fst es))
    (\<lambda>s. Suc (struct_depth w (map fst es) s))"
proof (rule handwritten_laws)
  fix s buf assume s: "struct_valid w (map fst es) s"
  show "c_encode (tuple_codec rops init es) s buf = Some (buf @ enc s)"
    using encode_each_eq [OF s, of "encode_varint (of_nat (length (struct_body w (map fst es) s))) buf"]
    by (auto simp: tuple_codec_def tuple_encode_def tuple_message_len_eq [OF s] encode_varint_bytes delimited_def)
  show "c_len (tuple_codec rops init es) s = length (enc s)"
    by (simp add: tuple_codec_def tuple_encoded_len_def tuple_message_len_eq [OF s] delimited_def encoded_len_varint_bytes)
qed (simp_all add: tuple_codec_def)

end

end
