(* ===== verification/Tuples.thy ===== *)
theory Tuples
  imports Underived_Laws Varint_Values Fixed Plain_Bytes
begin

text \<open>
  Structs of two and of three value fields, and the tuples of these arities (\<^verbatim>\<open>src/src/encoding/tuple.rs\<close>) with
  any encodings of their elements: lemmas on the fields of any struct give the contracts of \<open>Underived_Laws\<close>.
\<close>

section \<open>Two fields of a struct\<close>

definition two_views ::
    "u32 \<Rightarrow> 's field_view \<Rightarrow> 's field_view \<Rightarrow> ('s, 'r) message_field \<Rightarrow> 's field_view" where
  "two_views t w1 w2 f = (if mf_tags f = [t] then w1 else w2)"

lemma two_field_laws:
  fixes g1 :: "'s \<Rightarrow> 'a" and g2 :: "'s \<Rightarrow> 'b"
  assumes c1: "field_contract rops rcontents rinv fc1 es1 parts1 valid1 depth1"
    and c2: "field_contract rops rcontents rinv fc2 es2 parts2 valid2 depth2"
    and t: "t1 < t2"
    and acc: "\<And>v s. g1 (p1 v s) = v" "\<And>v s. g2 (p2 v s) = v" "\<And>v s. g1 (p2 v s) = g1 s" "\<And>v s. g2 (p1 v s) = g2 s"
    and ext: "\<And>s t. g1 s = g1 t \<Longrightarrow> g2 s = g2 t \<Longrightarrow> s = t"
    and init: "g1 init = es_empty es1" "g2 init = es_empty es2"
  shows "underived_message rops rcontents rinv init [value_field t1 g1 p1 es1 fc1, value_field t2 g2 p2 es2 fc2]
    (two_views t1 (value_view t1 g1 parts1 valid1 depth1) (value_view t2 g2 parts2 valid2 depth2))"
proof -
  let ?f1 = "value_field t1 g1 p1 es1 fc1" and ?f2 = "value_field t2 g2 p2 es2 fc2"
  let ?w = "two_views t1 (value_view t1 g1 parts1 valid1 depth1) (value_view t2 g2 parts2 valid2 depth2)"
  have ne: "t1 \<noteq> t2" using t by simp
  have w: "?w ?f1 = value_view t1 g1 parts1 valid1 depth1" "?w ?f2 = value_view t2 g2 parts2 valid2 depth2"
    using ne by (simp_all add: two_views_def)
  have fs: "f = ?f1 \<or> f = ?f2" if "f \<in> set [?f1, ?f2]" for f using that by auto
  show ?thesis
  proof (intro underived_message.intro underived_message_axioms.intro derived_message.intro derived_message_axioms.intro)
    show "rev_buf_contract rops rcontents rinv" by (rule field_contract.axioms(1) [OF c1])
    show "own_tags mf_tags [?f1, ?f2]" using ne by (simp add: own_tags_def)
    show "sorted_wrt (\<lambda>f g. \<forall>a \<in> set (mf_tags f). \<forall>b \<in> set (mf_tags g). a < b) [?f1, ?f2]" using t by simp
    fix f g :: "('s, 'c) message_field" and s s' tag wt dup cp ctx cp'
    assume f: "f \<in> set [?f1, ?f2]"
    show "member_contract rops rcontents rinv f (?w f)"
      using fs [OF f] field_contract.value_field_member [OF c1, of g1 p1 t1] field_contract.value_field_member [OF c2, of g2 p2 t2]
        acc(1,2) w by metis
    show "blank (?w f) init"
      using fs [OF f] w init field_contract.empty [OF c1] field_contract.empty [OF c2]
        field_contract.parts_Nil [OF c1, of "es_empty es1"] field_contract.parts_Nil [OF c2, of "es_empty es2"]
      by (auto simp: blank_def value_view_def)
    assume g: "g \<in> set [?f1, ?f2]" "f \<noteq> g"
    show "fv_same (?w g) (mf_clear f s) s"
      using fs [OF f] fs [OF g(1)] g(2) w acc(3,4) by (elim disjE) (auto simp: value_view_def value_field_def)
    show "mf_decode f tag wt dup s cp ctx = Done (s', cp') \<Longrightarrow> fv_same (?w g) s' s"
      using fs [OF f] fs [OF g(1)] g(2) w acc(3,4)
      by (elim disjE) (auto simp: value_view_def dest!: value_field_decoded)
  next
    fix s u assume same: "\<And>f. f \<in> set [?f1, ?f2] \<Longrightarrow> fv_same (?w f) s u"
    show "s = u"
      using same [of ?f1] same [of ?f2] w by (intro ext) (simp_all add: value_view_def)
  qed
qed

lemma two_field_distinguished_laws:
  fixes g1 :: "'s \<Rightarrow> 'a" and g2 :: "'s \<Rightarrow> 'b"
  assumes c1: "distinguished_field_contract rops rcontents rinv fc1 es1 parts1 valid1 depth1"
    and c2: "distinguished_field_contract rops rcontents rinv fc2 es2 parts2 valid2 depth2"
    and t: "t1 < t2"
    and acc: "\<And>v s. g1 (p1 v s) = v" "\<And>v s. g2 (p2 v s) = v" "\<And>v s. g1 (p2 v s) = g1 s" "\<And>v s. g2 (p1 v s) = g2 s"
    and ext: "\<And>s t. g1 s = g1 t \<Longrightarrow> g2 s = g2 t \<Longrightarrow> s = t"
    and init: "g1 init = es_empty es1" "g2 init = es_empty es2"
  shows "distinguished_underived_message rops rcontents rinv init [value_field t1 g1 p1 es1 fc1, value_field t2 g2 p2 es2 fc2]
    (two_views t1 (value_view t1 g1 parts1 valid1 depth1) (value_view t2 g2 parts2 valid2 depth2))"
proof -
  have u: "underived_message rops rcontents rinv init [value_field t1 g1 p1 es1 fc1, value_field t2 g2 p2 es2 fc2]
      (two_views t1 (value_view t1 g1 parts1 valid1 depth1) (value_view t2 g2 parts2 valid2 depth2))"
    by (rule two_field_laws [OF distinguished_field_contract.axioms(1) [OF c1] distinguished_field_contract.axioms(1) [OF c2] t])
      (use acc ext init in simp_all)
  show ?thesis
  proof (intro distinguished_underived_message.intro distinguished_derived_message.intro distinguished_derived_message_axioms.intro)
    show "underived_message rops rcontents rinv init [value_field t1 g1 p1 es1 fc1, value_field t2 g2 p2 es2 fc2]
      (two_views t1 (value_view t1 g1 parts1 valid1 depth1) (value_view t2 g2 parts2 valid2 depth2))" by (rule u)
    then show "derived_message rops rcontents rinv init [value_field t1 g1 p1 es1 fc1, value_field t2 g2 p2 es2 fc2]
      (two_views t1 (value_view t1 g1 parts1 valid1 depth1) (value_view t2 g2 parts2 valid2 depth2))"
      by (rule underived_message.axioms(1))
    fix f assume "f \<in> set [value_field t1 g1 p1 es1 fc1, value_field t2 g2 p2 es2 fc2]"
    then show "distinguished_member_contract rops rcontents rinv f
        (two_views t1 (value_view t1 g1 parts1 valid1 depth1) (value_view t2 g2 parts2 valid2 depth2) f)"
      using distinguished_field_contract.value_field_distinguished_member [OF c1, of g1 p1 t1]
        distinguished_field_contract.value_field_distinguished_member [OF c2, of g2 p2 t2] acc(1,2) t
      by (auto simp: two_views_def)
  qed
qed

section \<open>Three fields of a struct\<close>

definition three_views ::
    "u32 \<Rightarrow> u32 \<Rightarrow> 's field_view \<Rightarrow> 's field_view \<Rightarrow> 's field_view \<Rightarrow> ('s, 'r) message_field \<Rightarrow> 's field_view" where
  "three_views t1 t2 w1 w2 w3 f = (if mf_tags f = [t1] then w1 else if mf_tags f = [t2] then w2 else w3)"

lemma three_field_distinguished_laws:
  fixes g1 :: "'s \<Rightarrow> 'a" and g2 :: "'s \<Rightarrow> 'b" and g3 :: "'s \<Rightarrow> 'c"
  assumes c1: "distinguished_field_contract rops rcontents rinv fc1 es1 parts1 valid1 depth1"
    and c2: "distinguished_field_contract rops rcontents rinv fc2 es2 parts2 valid2 depth2"
    and c3: "distinguished_field_contract rops rcontents rinv fc3 es3 parts3 valid3 depth3"
    and t: "t1 < t2" "t2 < t3"
    and acc: "\<And>v s. g1 (p1 v s) = v" "\<And>v s. g2 (p2 v s) = v" "\<And>v s. g3 (p3 v s) = v"
      "\<And>v s. g1 (p2 v s) = g1 s" "\<And>v s. g1 (p3 v s) = g1 s" "\<And>v s. g2 (p1 v s) = g2 s"
      "\<And>v s. g2 (p3 v s) = g2 s" "\<And>v s. g3 (p1 v s) = g3 s" "\<And>v s. g3 (p2 v s) = g3 s"
    and ext: "\<And>s t. g1 s = g1 t \<Longrightarrow> g2 s = g2 t \<Longrightarrow> g3 s = g3 t \<Longrightarrow> s = t"
    and init: "g1 init = es_empty es1" "g2 init = es_empty es2" "g3 init = es_empty es3"
  shows "distinguished_underived_message rops rcontents rinv init
    [value_field t1 g1 p1 es1 fc1, value_field t2 g2 p2 es2 fc2, value_field t3 g3 p3 es3 fc3]
    (three_views t1 t2 (value_view t1 g1 parts1 valid1 depth1) (value_view t2 g2 parts2 valid2 depth2)
      (value_view t3 g3 parts3 valid3 depth3))"
proof -
  let ?f1 = "value_field t1 g1 p1 es1 fc1" and ?f2 = "value_field t2 g2 p2 es2 fc2" and ?f3 = "value_field t3 g3 p3 es3 fc3"
  let ?w1 = "value_view t1 g1 parts1 valid1 depth1" and ?w2 = "value_view t2 g2 parts2 valid2 depth2"
    and ?w3 = "value_view t3 g3 parts3 valid3 depth3"
  let ?w = "three_views t1 t2 ?w1 ?w2 ?w3"
  have w: "?w ?f1 = ?w1" "?w ?f2 = ?w2" "?w ?f3 = ?w3" using t by (auto simp: three_views_def)
  note b1 = distinguished_field_contract.axioms(1) [OF c1] and b2 = distinguished_field_contract.axioms(1) [OF c2]
    and b3 = distinguished_field_contract.axioms(1) [OF c3]
  have fs: "f = ?f1 \<or> f = ?f2 \<or> f = ?f3" if "f \<in> set [?f1, ?f2, ?f3]" for f using that by auto
  have dm: "distinguished_member_contract rops rcontents rinv f (?w f)" if f: "f \<in> set [?f1, ?f2, ?f3]" for f
    using fs [OF f] distinguished_field_contract.value_field_distinguished_member [OF c1, of g1 p1 t1]
      distinguished_field_contract.value_field_distinguished_member [OF c2, of g2 p2 t2]
      distinguished_field_contract.value_field_distinguished_member [OF c3, of g3 p3 t3] acc(1-3) w by metis
  have u: "underived_message rops rcontents rinv init [?f1, ?f2, ?f3] ?w"
  proof (intro underived_message.intro underived_message_axioms.intro derived_message.intro derived_message_axioms.intro)
    show "rev_buf_contract rops rcontents rinv" by (rule field_contract.axioms(1) [OF b1])
    show "own_tags mf_tags [?f1, ?f2, ?f3]" using t by (auto simp: own_tags_def)
    show "sorted_wrt (\<lambda>f g. \<forall>a \<in> set (mf_tags f). \<forall>b \<in> set (mf_tags g). a < b) [?f1, ?f2, ?f3]" using t by auto
    fix f g :: "('s, 'd) message_field" and s s' tag wt dup cp ctx cp'
    assume f: "f \<in> set [?f1, ?f2, ?f3]"
    show "member_contract rops rcontents rinv f (?w f)" by (rule distinguished_member_contract.axioms(1) [OF dm [OF f]])
    show "blank (?w f) init"
      using fs [OF f] w init field_contract.empty [OF b1] field_contract.empty [OF b2] field_contract.empty [OF b3]
        field_contract.parts_Nil [OF b1, of "es_empty es1"] field_contract.parts_Nil [OF b2, of "es_empty es2"]
        field_contract.parts_Nil [OF b3, of "es_empty es3"]
      by (auto simp: blank_def value_view_def)
    assume g: "g \<in> set [?f1, ?f2, ?f3]" "f \<noteq> g"
    show "fv_same (?w g) (mf_clear f s) s"
      using fs [OF f] fs [OF g(1)] g(2) w acc(4-9) by (elim disjE) (auto simp: value_view_def value_field_def)
    show "mf_decode f tag wt dup s cp ctx = Done (s', cp') \<Longrightarrow> fv_same (?w g) s' s"
      using fs [OF f] fs [OF g(1)] g(2) w acc(4-9)
      by (elim disjE) (auto simp: value_view_def dest!: value_field_decoded)
  next
    fix s u assume same: "\<And>f. f \<in> set [?f1, ?f2, ?f3] \<Longrightarrow> fv_same (?w f) s u"
    show "s = u"
      using same [of ?f1] same [of ?f2] same [of ?f3] w by (intro ext) (simp_all add: value_view_def)
  qed
  show ?thesis
    by (intro distinguished_underived_message.intro distinguished_derived_message.intro distinguished_derived_message_axioms.intro
        u underived_message.axioms(1) [OF u] dm)
qed

section \<open>Lengths under the trivial measurer\<close>

lemma plain_trivial_len_eq:
  assumes "value_codec rops rcontents rinv c enc valid depth" and "suits c enc valid es" and "valid v"
  shows "plain_trivial_len c es tag v = sum_list (map (\<lambda>(wt, val). 1 + length val) (one_part c enc es v))"
  using assms(2,3) value_codec.len [OF assms(1,3)]
  by (simp add: plain_trivial_len_def one_part_def suits_def trivial_key_len_def)

lemma option_trivial_len_eq:
  assumes "value_codec rops rcontents rinv c enc valid depth" and "case v of None \<Rightarrow> True | Some v \<Rightarrow> valid v"
  shows "option_trivial_len c tag v = sum_list (map (\<lambda>(wt, val). 1 + length val) (option_parts c enc v))"
  using assms(2) value_codec.len [OF assms(1)]
  by (cases v) (simp_all add: option_trivial_len_def option_parts_def trivial_key_len_def)

section \<open>Pairs\<close>

text \<open>The elements of a pair: their encodings, their empty states and their trivial lengths.\<close>

definition pair_elements ::
    "('a, 'r) field_codec \<Rightarrow> 'a empty_state \<Rightarrow> (u32 \<Rightarrow> 'a \<Rightarrow> nat) \<Rightarrow>
     ('b, 'r) field_codec \<Rightarrow> 'b empty_state \<Rightarrow> (u32 \<Rightarrow> 'b \<Rightarrow> nat) \<Rightarrow> ('a \<times> 'b, 'r) tuple_element list" where
  "pair_elements fc1 es1 len1 fc2 es2 len2 =
    [(value_field 0 fst (\<lambda>v s. (v, snd s)) es1 fc1, \<lambda>s. len1 0 (fst s)),
     (value_field 1 snd (\<lambda>v s. (fst s, v)) es2 fc2, \<lambda>s. len2 1 (snd s))]"

definition pair_codec ::
    "'r rev_ops \<Rightarrow> ('a, 'r) field_codec \<Rightarrow> 'a empty_state \<Rightarrow> (u32 \<Rightarrow> 'a \<Rightarrow> nat) \<Rightarrow>
     ('b, 'r) field_codec \<Rightarrow> 'b empty_state \<Rightarrow> (u32 \<Rightarrow> 'b \<Rightarrow> nat) \<Rightarrow> ('a \<times> 'b, 'r) codec" where
  "pair_codec rops fc1 es1 len1 fc2 es2 len2 =
    tuple_codec rops (es_empty es1, es_empty es2) (pair_elements fc1 es1 len1 fc2 es2 len2)"

definition pair_view :: "('a \<Rightarrow> value_part list) \<Rightarrow> ('a \<Rightarrow> bool) \<Rightarrow> ('a \<Rightarrow> nat) \<Rightarrow>
    ('b \<Rightarrow> value_part list) \<Rightarrow> ('b \<Rightarrow> bool) \<Rightarrow> ('b \<Rightarrow> nat) \<Rightarrow> ('a \<times> 'b, 'r) message_field \<Rightarrow> ('a \<times> 'b) field_view" where
  "pair_view parts1 valid1 depth1 parts2 valid2 depth2 =
    two_views 0 (value_view 0 fst parts1 valid1 depth1) (value_view 1 snd parts2 valid2 depth2)"

lemma pair_laws:
  assumes c1: "field_contract rops rcontents rinv fc1 es1 parts1 valid1 depth1"
    and c2: "field_contract rops rcontents rinv fc2 es2 parts2 valid2 depth2"
    and l1: "\<And>tag v. valid1 v \<Longrightarrow> len1 tag v = sum_list (map (\<lambda>(wt, val). 1 + length val) (parts1 v))"
    and l2: "\<And>tag v. valid2 v \<Longrightarrow> len2 tag v = sum_list (map (\<lambda>(wt, val). 1 + length val) (parts2 v))"
  shows "tuple_message rops rcontents rinv (es_empty es1, es_empty es2) (pair_elements fc1 es1 len1 fc2 es2 len2)
    (pair_view parts1 valid1 depth1 parts2 valid2 depth2)"
proof (intro tuple_message.intro tuple_message_axioms.intro)
  show "underived_message rops rcontents rinv (es_empty es1, es_empty es2)
      (map fst (pair_elements fc1 es1 len1 fc2 es2 len2)) (pair_view parts1 valid1 depth1 parts2 valid2 depth2)"
    unfolding pair_elements_def pair_view_def list.map fst_conv
    by (rule two_field_laws [OF c1 c2]) (auto simp: prod_eq_iff)
  fix e t s assume e: "e \<in> set (pair_elements fc1 es1 len1 fc2 es2 len2)"
  show "t \<in> set (mf_tags (fst e)) \<Longrightarrow> t < 32" using e by (auto simp: pair_elements_def)
  show "fv_valid (pair_view parts1 valid1 depth1 parts2 valid2 depth2 (fst e)) s \<Longrightarrow>
      snd e s = sum_list (map (\<lambda>(wt, val). 1 + length val) (fv_parts (pair_view parts1 valid1 depth1 parts2 valid2 depth2 (fst e)) s))"
    using e l1 l2 by (auto simp: pair_elements_def pair_view_def two_views_def value_view_def)
qed

lemma pair_distinguished_laws:
  assumes c1: "distinguished_field_contract rops rcontents rinv fc1 es1 parts1 valid1 depth1"
    and c2: "distinguished_field_contract rops rcontents rinv fc2 es2 parts2 valid2 depth2"
  shows "distinguished_underived_message rops rcontents rinv (es_empty es1, es_empty es2)
    (map fst (pair_elements fc1 es1 len1 fc2 es2 len2)) (pair_view parts1 valid1 depth1 parts2 valid2 depth2)"
  unfolding pair_elements_def pair_view_def list.map fst_conv
  by (rule two_field_distinguished_laws [OF c1 c2]) (auto simp: prod_eq_iff)

section \<open>Triples\<close>

definition triple_elements ::
    "('a, 'r) field_codec \<Rightarrow> 'a empty_state \<Rightarrow> (u32 \<Rightarrow> 'a \<Rightarrow> nat) \<Rightarrow>
     ('b, 'r) field_codec \<Rightarrow> 'b empty_state \<Rightarrow> (u32 \<Rightarrow> 'b \<Rightarrow> nat) \<Rightarrow>
     ('c, 'r) field_codec \<Rightarrow> 'c empty_state \<Rightarrow> (u32 \<Rightarrow> 'c \<Rightarrow> nat) \<Rightarrow> ('a \<times> 'b \<times> 'c, 'r) tuple_element list" where
  "triple_elements fc1 es1 len1 fc2 es2 len2 fc3 es3 len3 =
    [(value_field 0 fst (\<lambda>v (_, b, c). (v, b, c)) es1 fc1, \<lambda>(a, _, _). len1 0 a),
     (value_field 1 (\<lambda>(_, b, _). b) (\<lambda>v (a, _, c). (a, v, c)) es2 fc2, \<lambda>(_, b, _). len2 1 b),
     (value_field 2 (\<lambda>(_, _, c). c) (\<lambda>v (a, b, _). (a, b, v)) es3 fc3, \<lambda>(_, _, c). len3 2 c)]"

definition triple_view :: "('a \<Rightarrow> value_part list) \<Rightarrow> ('a \<Rightarrow> bool) \<Rightarrow> ('a \<Rightarrow> nat) \<Rightarrow>
    ('b \<Rightarrow> value_part list) \<Rightarrow> ('b \<Rightarrow> bool) \<Rightarrow> ('b \<Rightarrow> nat) \<Rightarrow> ('c \<Rightarrow> value_part list) \<Rightarrow> ('c \<Rightarrow> bool) \<Rightarrow> ('c \<Rightarrow> nat) \<Rightarrow>
    ('a \<times> 'b \<times> 'c, 'r) message_field \<Rightarrow> ('a \<times> 'b \<times> 'c) field_view" where
  "triple_view parts1 valid1 depth1 parts2 valid2 depth2 parts3 valid3 depth3 =
    three_views 0 1 (value_view 0 fst parts1 valid1 depth1) (value_view 1 (\<lambda>(_, b, _). b) parts2 valid2 depth2)
      (value_view 2 (\<lambda>(_, _, c). c) parts3 valid3 depth3)"

lemma triple_distinguished_laws:
  assumes c1: "distinguished_field_contract rops rcontents rinv fc1 es1 parts1 valid1 depth1"
    and c2: "distinguished_field_contract rops rcontents rinv fc2 es2 parts2 valid2 depth2"
    and c3: "distinguished_field_contract rops rcontents rinv fc3 es3 parts3 valid3 depth3"
  shows "distinguished_underived_message rops rcontents rinv (es_empty es1, es_empty es2, es_empty es3)
    (map fst (triple_elements fc1 es1 len1 fc2 es2 len2 fc3 es3 len3))
    (triple_view parts1 valid1 depth1 parts2 valid2 depth2 parts3 valid3 depth3)"
  unfolding triple_elements_def triple_view_def list.map fst_conv
  by (rule three_field_distinguished_laws [OF c1 c2 c3]) (auto simp: prod_eq_iff split: prod.splits)

lemma triple_laws:
  assumes c1: "distinguished_field_contract rops rcontents rinv fc1 es1 parts1 valid1 depth1"
    and c2: "distinguished_field_contract rops rcontents rinv fc2 es2 parts2 valid2 depth2"
    and c3: "distinguished_field_contract rops rcontents rinv fc3 es3 parts3 valid3 depth3"
    and l1: "\<And>tag v. valid1 v \<Longrightarrow> len1 tag v = sum_list (map (\<lambda>(wt, val). 1 + length val) (parts1 v))"
    and l2: "\<And>tag v. valid2 v \<Longrightarrow> len2 tag v = sum_list (map (\<lambda>(wt, val). 1 + length val) (parts2 v))"
    and l3: "\<And>tag v. valid3 v \<Longrightarrow> len3 tag v = sum_list (map (\<lambda>(wt, val). 1 + length val) (parts3 v))"
  shows "tuple_message rops rcontents rinv (es_empty es1, es_empty es2, es_empty es3)
    (triple_elements fc1 es1 len1 fc2 es2 len2 fc3 es3 len3)
    (triple_view parts1 valid1 depth1 parts2 valid2 depth2 parts3 valid3 depth3)"
proof (intro tuple_message.intro tuple_message_axioms.intro)
  show "underived_message rops rcontents rinv (es_empty es1, es_empty es2, es_empty es3)
      (map fst (triple_elements fc1 es1 len1 fc2 es2 len2 fc3 es3 len3))
      (triple_view parts1 valid1 depth1 parts2 valid2 depth2 parts3 valid3 depth3)"
    by (rule distinguished_underived_message.axioms(1) [OF triple_distinguished_laws [OF c1 c2 c3]])
  fix e t s assume e: "e \<in> set (triple_elements fc1 es1 len1 fc2 es2 len2 fc3 es3 len3)"
  show "t \<in> set (mf_tags (fst e)) \<Longrightarrow> t < 32" using e by (auto simp: triple_elements_def)
  show "fv_valid (triple_view parts1 valid1 depth1 parts2 valid2 depth2 parts3 valid3 depth3 (fst e)) s \<Longrightarrow>
      snd e s = sum_list (map (\<lambda>(wt, val). 1 + length val)
        (fv_parts (triple_view parts1 valid1 depth1 parts2 valid2 depth2 parts3 valid3 depth3 (fst e)) s))"
    using e l1 l2 l3 by (cases s) (auto simp: triple_elements_def triple_view_def three_views_def value_view_def)
qed

end
