(* ===== verification/Ranges.thy ===== *)
theory Ranges
  imports Tuples Time_Messages
begin

text \<open>
  Messages written out by hand other than tuples: \<^verbatim>\<open>Range\<close> and \<^verbatim>\<open>RangeInclusive\<close>
  (\<^verbatim>\<open>src/src/encoding/range_as_tuple.rs\<close>), and the proxy of a time delta
  (\<^verbatim>\<open>src/src/encoding/type_support/common.rs\<close>).
\<close>

section \<open>Ranges\<close>

record 'a rust_range =
  rr_start :: 'a
  rr_end :: 'a

definition range_fields ::
    "('a, 'r) field_codec \<Rightarrow> 'a empty_state \<Rightarrow> ('a, 'r) field_codec \<Rightarrow> 'a empty_state \<Rightarrow>
     ('a rust_range, 'r) message_field list" where
  "range_fields fc1 es1 fc2 es2 =
    [value_field 0 rr_start (\<lambda>v s. s\<lparr>rr_start := v\<rparr>) es1 fc1,
     value_field 1 rr_end (\<lambda>v s. s\<lparr>rr_end := v\<rparr>) es2 fc2]"

definition range_codec ::
    "'r rev_ops \<Rightarrow> ('a, 'r) field_codec \<Rightarrow> 'a empty_state \<Rightarrow> ('a, 'r) field_codec \<Rightarrow> 'a empty_state \<Rightarrow>
     ('a rust_range, 'r) codec" where
  "range_codec rops fc1 es1 fc2 es2 =
    underived_codec rops \<lparr>rr_start = es_empty es1, rr_end = es_empty es2\<rparr> (range_fields fc1 es1 fc2 es2)"

definition range_empty_state ::
    "('a, 'r) field_codec \<Rightarrow> 'a empty_state \<Rightarrow> ('a, 'r) field_codec \<Rightarrow> 'a empty_state \<Rightarrow> 'a rust_range empty_state" where
  "range_empty_state fc1 es1 fc2 es2 =
    underived_empty_state \<lparr>rr_start = es_empty es1, rr_end = es_empty es2\<rparr> (range_fields fc1 es1 fc2 es2)"

definition range_view :: "('a \<Rightarrow> value_part list) \<Rightarrow> ('a \<Rightarrow> bool) \<Rightarrow> ('a \<Rightarrow> nat) \<Rightarrow>
    ('a \<Rightarrow> value_part list) \<Rightarrow> ('a \<Rightarrow> bool) \<Rightarrow> ('a \<Rightarrow> nat) \<Rightarrow> ('a rust_range, 'r) message_field \<Rightarrow> 'a rust_range field_view" where
  "range_view parts1 valid1 depth1 parts2 valid2 depth2 =
    two_views 0 (value_view 0 rr_start parts1 valid1 depth1) (value_view 1 rr_end parts2 valid2 depth2)"

lemma range_laws:
  assumes "field_contract rops rcontents rinv fc1 es1 parts1 valid1 depth1"
    and "field_contract rops rcontents rinv fc2 es2 parts2 valid2 depth2"
  shows "underived_message rops rcontents rinv \<lparr>rr_start = es_empty es1, rr_end = es_empty es2\<rparr> (range_fields fc1 es1 fc2 es2)
    (range_view parts1 valid1 depth1 parts2 valid2 depth2)"
  unfolding range_fields_def range_view_def by (rule two_field_laws [OF assms]) simp_all

lemma range_distinguished_laws:
  assumes "distinguished_field_contract rops rcontents rinv fc1 es1 parts1 valid1 depth1"
    and "distinguished_field_contract rops rcontents rinv fc2 es2 parts2 valid2 depth2"
  shows "distinguished_underived_message rops rcontents rinv \<lparr>rr_start = es_empty es1, rr_end = es_empty es2\<rparr>
    (range_fields fc1 es1 fc2 es2) (range_view parts1 valid1 depth1 parts2 valid2 depth2)"
  unfolding range_fields_def range_view_def by (rule two_field_distinguished_laws [OF assms]) simp_all

section \<open>Inclusive ranges\<close>

text \<open>
  Whether iteration has used up the range is part of the value, and of its equality. Decoding takes the
  value apart by \<^verbatim>\<open>into_inner\<close> and puts the bounds together again with \<^verbatim>\<open>..=\<close>.
\<close>

record 'a range_inclusive =
  ri_start :: 'a
  ri_end :: 'a
  ri_exhausted :: bool

definition ri_new :: "'a \<Rightarrow> 'a \<Rightarrow> 'a range_inclusive" where
  "ri_new s e = \<lparr>ri_start = s, ri_end = e, ri_exhausted = False\<rparr>"

definition ri_into_inner :: "'a range_inclusive \<Rightarrow> 'a \<times> 'a" where
  "ri_into_inner v = (ri_start v, ri_end v)"

definition bound_fields ::
    "('a, 'r) field_codec \<Rightarrow> 'a empty_state \<Rightarrow> ('a, 'r) field_codec \<Rightarrow> 'a empty_state \<Rightarrow>
     ('a \<times> 'a, 'r) message_field list" where
  "bound_fields fc1 es1 fc2 es2 =
    [value_field 0 fst (\<lambda>v s. (v, snd s)) es1 fc1, value_field 1 snd (\<lambda>v s. (fst s, v)) es2 fc2]"

definition range_inclusive_decode ::
    "('a, 'r) field_codec \<Rightarrow> 'a empty_state \<Rightarrow> ('a, 'r) field_codec \<Rightarrow> 'a empty_state \<Rightarrow>
     'a range_inclusive \<Rightarrow> bytes capped \<Rightarrow> decode_context \<Rightarrow> ('a range_inclusive \<times> bytes capped) outcome" where
  "range_inclusive_decode fc1 es1 fc2 es2 v cp ctx =
    obind (underived_decode (bound_fields fc1 es1 fc2 es2) (ri_into_inner v) cp ctx) (\<lambda>((s, e), cp). Done (ri_new s e, cp))"

definition range_inclusive_decode_distinguished ::
    "('a, 'r) field_codec \<Rightarrow> 'a empty_state \<Rightarrow> ('a, 'r) field_codec \<Rightarrow> 'a empty_state \<Rightarrow> bool \<Rightarrow>
     'a range_inclusive \<Rightarrow> bytes capped \<Rightarrow> restricted_context \<Rightarrow> ('a range_inclusive \<times> canonicity \<times> bytes capped) outcome" where
  "range_inclusive_decode_distinguished fc1 es1 fc2 es2 allow v cp ctx =
    obind (underived_decode_distinguished (bound_fields fc1 es1 fc2 es2) allow (ri_into_inner v) cp ctx)
      (\<lambda>((s, e), canon, cp). Done (ri_new s e, canon, cp))"

definition range_inclusive_codec ::
    "'r rev_ops \<Rightarrow> ('a, 'r) field_codec \<Rightarrow> 'a empty_state \<Rightarrow> ('a, 'r) field_codec \<Rightarrow> 'a empty_state \<Rightarrow>
     ('a range_inclusive, 'r) codec" where
  "range_inclusive_codec rops fc1 es1 fc2 es2 = (let fs = bound_fields fc1 es1 fc2 es2 in \<lparr>
     c_wire = WtLengthDelimited,
     c_for_overwrite = ri_new (es_empty es1) (es_empty es2),
     c_encode = (\<lambda>v. underived_encode fs (ri_start v, ri_end v)),
     c_prepend = (\<lambda>v. underived_prepend rops (rev fs) (ri_start v, ri_end v)),
     c_len = (\<lambda>v. underived_encoded_len fs (ri_start v, ri_end v)),
     c_many_len = many_values_encoded_len WtLengthDelimited (\<lambda>v. underived_encoded_len fs (ri_start v, ri_end v)),
     c_decode = range_inclusive_decode fc1 es1 fc2 es2,
     c_checks_empty = True,
     c_decode_dist = range_inclusive_decode_distinguished fc1 es1 fc2 es2\<rparr>)"

definition range_inclusive_empty_state :: "'a empty_state \<Rightarrow> 'a empty_state \<Rightarrow> 'a range_inclusive empty_state" where
  "range_inclusive_empty_state es1 es2 = \<lparr>
     es_empty = ri_new (es_empty es1) (es_empty es2),
     es_is_empty = (\<lambda>v. es_is_empty es1 (ri_start v) \<and> es_is_empty es2 (ri_end v)),
     es_clear = (\<lambda>v. ri_new (es_clear es1 (ri_start v)) (es_clear es2 (ri_end v)))\<rparr>"

lemma bound_laws:
  assumes "field_contract rops rcontents rinv fc1 es1 parts1 valid1 depth1"
    and "field_contract rops rcontents rinv fc2 es2 parts2 valid2 depth2"
  shows "underived_message rops rcontents rinv (es_empty es1, es_empty es2) (bound_fields fc1 es1 fc2 es2)
    (pair_view parts1 valid1 depth1 parts2 valid2 depth2)"
  unfolding bound_fields_def pair_view_def by (rule two_field_laws [OF assms]) (auto simp: prod_eq_iff)

lemma bound_distinguished_laws:
  assumes "distinguished_field_contract rops rcontents rinv fc1 es1 parts1 valid1 depth1"
    and "distinguished_field_contract rops rcontents rinv fc2 es2 parts2 valid2 depth2"
  shows "distinguished_underived_message rops rcontents rinv (es_empty es1, es_empty es2) (bound_fields fc1 es1 fc2 es2)
    (pair_view parts1 valid1 depth1 parts2 valid2 depth2)"
  unfolding bound_fields_def pair_view_def by (rule two_field_distinguished_laws [OF assms]) (auto simp: prod_eq_iff)

section \<open>The proxy of a time delta\<close>

record time_delta_proxy =
  tdp_secs :: "64 word"
  tdp_nanos :: "32 word"

definition signum :: "'a::len word \<Rightarrow> int" where
  "signum w = sgn (sint w)"

definition time_delta_fields :: "'r rev_ops \<Rightarrow> (time_delta_proxy, 'r) message_field list" where
  "time_delta_fields rops =
    [value_field 1 tdp_secs (\<lambda>v s. s\<lparr>tdp_secs := v\<rparr>) (default_empty_state 0)
       (plain_field rops (varint_i64 rops) (default_empty_state 0)),
     value_field 2 tdp_nanos (\<lambda>v s. s\<lparr>tdp_nanos := v\<rparr>) (default_empty_state 0)
       (plain_field rops (fixed_i32 rops) (default_empty_state 0))]"

definition time_delta_decode ::
    "'r rev_ops \<Rightarrow> time_delta_proxy \<Rightarrow> bytes capped \<Rightarrow> decode_context \<Rightarrow> (time_delta_proxy \<times> bytes capped) outcome" where
  "time_delta_decode rops v cp ctx =
    obind (underived_decode (time_delta_fields rops) v cp ctx) (\<lambda>(v, cp).
      if signum (tdp_secs v) * signum (tdp_nanos v) = -1 then Fail InvalidValue else Done (v, cp))"

definition time_delta_codec :: "'r rev_ops \<Rightarrow> (time_delta_proxy, 'r) codec" where
  "time_delta_codec rops =
    (underived_codec rops \<lparr>tdp_secs = 0, tdp_nanos = 0\<rparr> (time_delta_fields rops))\<lparr>c_decode := time_delta_decode rops\<rparr>"

definition time_delta_view :: "(time_delta_proxy, 'r) message_field \<Rightarrow> time_delta_proxy field_view" where
  "time_delta_view = two_views 1 (value_view 1 tdp_secs seconds_parts (\<lambda>_. True) (\<lambda>_. 0))
    (value_view 2 tdp_nanos nanos_parts (\<lambda>_. True) (\<lambda>_. 0))"

lemma time_delta_laws:
  assumes "rev_buf_contract rops rcontents rinv"
  shows "distinguished_underived_message rops rcontents rinv \<lparr>tdp_secs = 0, tdp_nanos = 0\<rparr> (time_delta_fields rops) time_delta_view"
  unfolding time_delta_fields_def time_delta_view_def
  by (rule two_field_distinguished_laws [OF rev_buf_contract.seconds_laws [OF assms] rev_buf_contract.nanos_laws [OF assms]])
    (simp_all add: default_empty_state_def)

end
