(* ===== verification/Chrono_Types.thy ===== *)
theory Chrono_Types
  imports Array_Proxies Ranges Calendar "HOL-Library.Signed_Division"
begin

text \<open>
  The encodings of the types of the \<^verbatim>\<open>chrono\<close> crate (\<^verbatim>\<open>src/src/encoding/type_support/chrono.rs\<close>). The crate itself
  is not part of the repository: of each of its types the model has the functions the code calls, in a record
  that is a parameter, and what their documentation says of them, in a definition that the lemmas assume. A Rust
  \<^verbatim>\<open>i8\<close>, \<^verbatim>\<open>i32\<close> or \<^verbatim>\<open>i64\<close> is a word read with \<open>sint\<close>.
\<close>

definition ok_or :: "'a option \<Rightarrow> decode_error_kind \<Rightarrow> 'a outcome" where
  "ok_or v e = (case v of Some v \<Rightarrow> Done v | None \<Rightarrow> Fail e)"

lemma ok_or_simps [simp]: "ok_or v e \<noteq> Panic" "ok_or v e = Done x \<longleftrightarrow> v = Some x"
  by (simp_all add: ok_or_def split: option.split)

section \<open>Dates\<close>

text \<open>The ordinal of a date counts from 0 in \<^verbatim>\<open>ordinal0\<close> and from 1 in \<^verbatim>\<open>from_yo_opt\<close>; the year is signed.\<close>

record 'd naive_date_fns =
  nd_year :: "'d \<Rightarrow> u32"
  nd_ordinal0 :: "'d \<Rightarrow> u32"
  nd_from_yo_opt :: "u32 \<Rightarrow> u32 \<Rightarrow> 'd option"

text \<open>The dates that there are, which \<^verbatim>\<open>from_yo_opt\<close> makes.\<close>

definition naive_date_valid :: "'d naive_date_fns \<Rightarrow> 'd \<Rightarrow> bool" where
  "naive_date_valid D d \<longleftrightarrow> nd_from_yo_opt D (nd_year D d) (nd_ordinal0 D d + 1) = Some d"

definition naive_date_documented :: "'d naive_date_fns \<Rightarrow> bool" where
  "naive_date_documented D \<longleftrightarrow>
     (\<forall>y n d. nd_from_yo_opt D y n = Some d \<longrightarrow> nd_year D d = y \<and> nd_ordinal0 D d + 1 = n \<and> nd_ordinal0 D d < 366) \<and>
     nd_from_yo_opt D 0 1 \<noteq> None"

definition parts_to_naivedate :: "'d naive_date_fns \<Rightarrow> u32 \<Rightarrow> u32 \<Rightarrow> 'd option" where
  "parts_to_naivedate D year ordinal0 =
    (if sint ordinal0 < 0 then None
     else if unat ordinal0 + 1 < 2 ^ 32 then nd_from_yo_opt D year (ordinal0 + 1) else None)"

definition naive_date_parts :: "'d naive_date_fns \<Rightarrow> 'd \<Rightarrow> u32 list" where
  "naive_date_parts D d = [nd_year D d, nd_ordinal0 D d]"

definition naive_date_compose :: "'d naive_date_fns \<Rightarrow> u32 list \<Rightarrow> 'd outcome" where
  "naive_date_compose D arr = (case arr of
     [year, ordinal0] \<Rightarrow> ok_or (parts_to_naivedate D year ordinal0) OutOfDomainValue
   | _ \<Rightarrow> Fail OutOfDomainValue)"

definition naive_date_empty_state :: "'d naive_date_fns \<Rightarrow> 'd empty_state" where
  "naive_date_empty_state D = (let d0 = the (nd_from_yo_opt D 0 1) in
     \<lparr>es_empty = d0, es_is_empty = (\<lambda>d. (nd_year D d, nd_ordinal0 D d) = (0, 0)), es_clear = (\<lambda>_. d0)\<rparr>)"

definition naive_date_codec :: "'r rev_ops \<Rightarrow> 'd naive_date_fns \<Rightarrow> ('d, 'r) codec" where
  "naive_date_codec rops D = array_proxied_codec rops (varint_i32 rops) (default_empty_state 0) 2
     (naive_date_parts D) (naive_date_compose D) (es_empty (naive_date_empty_state D))"

section \<open>Times of day\<close>

record 't naive_time_fns =
  nt_hour :: "'t \<Rightarrow> u32"
  nt_minute :: "'t \<Rightarrow> u32"
  nt_second :: "'t \<Rightarrow> u32"
  nt_nanosecond :: "'t \<Rightarrow> u32"
  nt_seconds_from_midnight :: "'t \<Rightarrow> u32"
  nt_from_hms_nano_opt :: "u32 \<Rightarrow> u32 \<Rightarrow> u32 \<Rightarrow> u32 \<Rightarrow> 't option"
  nt_from_seconds_opt :: "u32 \<Rightarrow> u32 \<Rightarrow> 't option"

text \<open>
  A leap second is a number of nanoseconds from 1000000000 on. The crate can hold some that \<^verbatim>\<open>from_hms_nano_opt\<close>
  refuses: the times that it does make are the valid ones.
\<close>

definition naive_time_valid :: "'t naive_time_fns \<Rightarrow> 't \<Rightarrow> bool" where
  "naive_time_valid T t \<longleftrightarrow>
    nt_from_hms_nano_opt T (nt_hour T t) (nt_minute T t) (nt_second T t) (nt_nanosecond T t) = Some t"

definition naive_time_documented :: "'t naive_time_fns \<Rightarrow> bool" where
  "naive_time_documented T \<longleftrightarrow>
     (\<forall>h m s n t. nt_from_hms_nano_opt T h m s n = Some t \<longrightarrow>
        nt_hour T t = h \<and> nt_minute T t = m \<and> nt_second T t = s \<and> nt_nanosecond T t = n \<and>
        h < 24 \<and> m < 60 \<and> s < 60 \<and> n < 2000000000 \<and> nt_seconds_from_midnight T t = h * 3600 + m * 60 + s) \<and>
     nt_from_hms_nano_opt T 0 0 0 0 \<noteq> None \<and> nt_from_seconds_opt T 0 0 = nt_from_hms_nano_opt T 0 0 0 0"

definition naive_time_parts :: "'t naive_time_fns \<Rightarrow> 't \<Rightarrow> u32 list" where
  "naive_time_parts T t = [nt_hour T t, nt_minute T t, nt_second T t, nt_nanosecond T t]"

definition naive_time_compose :: "'t naive_time_fns \<Rightarrow> u32 list \<Rightarrow> 't outcome" where
  "naive_time_compose T arr = (case arr of
     [hour, minute, second, nanos] \<Rightarrow> ok_or (nt_from_hms_nano_opt T hour minute second nanos) OutOfDomainValue
   | _ \<Rightarrow> Fail OutOfDomainValue)"

definition naive_time_empty_state :: "'t naive_time_fns \<Rightarrow> 't empty_state" where
  "naive_time_empty_state T = (let t0 = the (nt_from_seconds_opt T 0 0) in
     \<lparr>es_empty = t0, es_is_empty = (\<lambda>t. (nt_seconds_from_midnight T t, nt_nanosecond T t) = (0, 0)), es_clear = (\<lambda>_. t0)\<rparr>)"

definition naive_time_codec :: "'r rev_ops \<Rightarrow> 't naive_time_fns \<Rightarrow> ('t, 'r) codec" where
  "naive_time_codec rops T = array_proxied_codec rops (varint_u32 rops) (default_empty_state 0) 4
     (naive_time_parts T) (naive_time_compose T) (es_empty (naive_time_empty_state T))"

section \<open>Dates with times\<close>

text \<open>The traits \<^verbatim>\<open>Datelike\<close> and \<^verbatim>\<open>Timelike\<close> of a \<^verbatim>\<open>NaiveDateTime\<close> are those of its date and its time.\<close>

record ('n, 'd, 't) naive_datetime_fns =
  ndt_new :: "'d \<Rightarrow> 't \<Rightarrow> 'n"
  ndt_year :: "'n \<Rightarrow> u32"
  ndt_ordinal0 :: "'n \<Rightarrow> u32"
  ndt_hour :: "'n \<Rightarrow> u32"
  ndt_minute :: "'n \<Rightarrow> u32"
  ndt_second :: "'n \<Rightarrow> u32"
  ndt_nanosecond :: "'n \<Rightarrow> u32"
  ndt_seconds_from_midnight :: "'n \<Rightarrow> u32"

definition naive_datetime_documented ::
    "'d naive_date_fns \<Rightarrow> 't naive_time_fns \<Rightarrow> ('n, 'd, 't) naive_datetime_fns \<Rightarrow> bool" where
  "naive_datetime_documented D T M \<longleftrightarrow> naive_date_documented D \<and> naive_time_documented T \<and>
     (\<forall>d t. ndt_year M (ndt_new M d t) = nd_year D d \<and> ndt_ordinal0 M (ndt_new M d t) = nd_ordinal0 D d \<and>
        ndt_hour M (ndt_new M d t) = nt_hour T t \<and> ndt_minute M (ndt_new M d t) = nt_minute T t \<and>
        ndt_second M (ndt_new M d t) = nt_second T t \<and> ndt_nanosecond M (ndt_new M d t) = nt_nanosecond T t \<and>
        ndt_seconds_from_midnight M (ndt_new M d t) = nt_seconds_from_midnight T t)"

definition parts_to_naivetime :: "'t naive_time_fns \<Rightarrow> u32 \<Rightarrow> u32 \<Rightarrow> u32 \<Rightarrow> u32 \<Rightarrow> 't option" where
  "parts_to_naivetime T hour minute second nanos =
    (if sint hour < 0 \<or> sint minute < 0 \<or> sint second < 0 \<or> sint nanos < 0 then None
     else nt_from_hms_nano_opt T hour minute second nanos)"

definition naive_datetime_parts :: "('n, 'd, 't) naive_datetime_fns \<Rightarrow> 'n \<Rightarrow> u32 list" where
  "naive_datetime_parts M n =
    [ndt_year M n, ndt_ordinal0 M n, ndt_hour M n, ndt_minute M n, ndt_second M n, ndt_nanosecond M n]"

definition naive_datetime_compose ::
    "'d naive_date_fns \<Rightarrow> 't naive_time_fns \<Rightarrow> ('n, 'd, 't) naive_datetime_fns \<Rightarrow> u32 list \<Rightarrow> 'n outcome" where
  "naive_datetime_compose D T M arr = (case arr of
     [year, ordinal0, hour, minute, second, nanos] \<Rightarrow>
       obind (ok_or (parts_to_naivedate D year ordinal0) OutOfDomainValue) (\<lambda>d.
         obind (ok_or (parts_to_naivetime T hour minute second nanos) OutOfDomainValue) (\<lambda>t.
           Done (ndt_new M d t)))
   | _ \<Rightarrow> Fail OutOfDomainValue)"

definition naive_datetime_valid ::
    "'d naive_date_fns \<Rightarrow> 't naive_time_fns \<Rightarrow> ('n, 'd, 't) naive_datetime_fns \<Rightarrow> 'n \<Rightarrow> bool" where
  "naive_datetime_valid D T M n \<longleftrightarrow> (\<exists>d t. n = ndt_new M d t \<and> naive_date_valid D d \<and> naive_time_valid T t)"

definition naive_datetime_empty_state ::
    "'d naive_date_fns \<Rightarrow> 't naive_time_fns \<Rightarrow> ('n, 'd, 't) naive_datetime_fns \<Rightarrow> 'n empty_state" where
  "naive_datetime_empty_state D T M =
    (let n0 = ndt_new M (es_empty (naive_date_empty_state D)) (es_empty (naive_time_empty_state T)) in
     \<lparr>es_empty = n0,
      es_is_empty = (\<lambda>n. (ndt_year M n, ndt_ordinal0 M n, ndt_seconds_from_midnight M n, ndt_nanosecond M n) = (0, 0, 0, 0)),
      es_clear = (\<lambda>_. n0)\<rparr>)"

definition naive_datetime_codec ::
    "'r rev_ops \<Rightarrow> 'd naive_date_fns \<Rightarrow> 't naive_time_fns \<Rightarrow> ('n, 'd, 't) naive_datetime_fns \<Rightarrow> ('n, 'r) codec" where
  "naive_datetime_codec rops D T M = array_proxied_codec rops (varint_i32 rops) (default_empty_state 0) 6
     (naive_datetime_parts M) (naive_datetime_compose D T M) (es_empty (naive_datetime_empty_state D T M))"

section \<open>The contracts\<close>

lemma default_empty_item: "es_is_empty (default_empty_state d) x \<longleftrightarrow> x = es_empty (default_empty_state d)"
  by (simp add: default_empty_state_def)

lemma sint_small: "unat (w :: u32) < 2 ^ 31 \<Longrightarrow> sint w = int (unat w)"
proof -
  assume "unat w < 2 ^ 31"
  then have "unat w \<le> 2147483647" by simp
  then have "int (unat w) \<le> int 2147483647" by (rule of_nat_mono)
  then have u: "uint w \<le> 2147483647" by simp
  have "- 2147483648 \<le> uint w" using uint_ge_0 [of w] by linarith
  from sint_of_int_i32 [OF this u] show ?thesis by simp
qed

lemma parts_to_naivedate_Some:
  assumes "naive_date_documented D"
  shows "parts_to_naivedate D y n = Some d \<longleftrightarrow> naive_date_valid D d \<and> nd_year D d = y \<and> nd_ordinal0 D d = n"
proof -
  have from_Some: "nd_from_yo_opt D y k = Some d \<Longrightarrow> nd_year D d = y \<and> nd_ordinal0 D d + 1 = k \<and> nd_ordinal0 D d < 366" for y k
    using assms unfolding naive_date_documented_def by blast
  show ?thesis
  proof
    assume "parts_to_naivedate D y n = Some d"
    then have f: "nd_from_yo_opt D y (n + 1) = Some d" by (simp add: parts_to_naivedate_def split: if_splits)
    then show "naive_date_valid D d \<and> nd_year D d = y \<and> nd_ordinal0 D d = n"
      using from_Some [OF f] by (simp add: naive_date_valid_def)
  next
    assume v: "naive_date_valid D d \<and> nd_year D d = y \<and> nd_ordinal0 D d = n"
    then have f: "nd_from_yo_opt D y (n + 1) = Some d" by (auto simp: naive_date_valid_def)
    have "unat n < 366" using v from_Some [OF f] by (simp add: word_less_nat_alt)
    then show "parts_to_naivedate D y n = Some d" using f by (simp add: parts_to_naivedate_def sint_small)
  qed
qed

lemma naive_time_from_Some:
  assumes "naive_time_documented T"
  shows "nt_from_hms_nano_opt T h m s n = Some t \<longleftrightarrow>
    naive_time_valid T t \<and> nt_hour T t = h \<and> nt_minute T t = m \<and> nt_second T t = s \<and> nt_nanosecond T t = n"
  using assms unfolding naive_time_documented_def naive_time_valid_def by blast

lemma parts_to_naivetime_Some:
  assumes T: "naive_time_documented T"
  shows "parts_to_naivetime T h m s n = Some t \<longleftrightarrow>
    naive_time_valid T t \<and> nt_hour T t = h \<and> nt_minute T t = m \<and> nt_second T t = s \<and> nt_nanosecond T t = n"
proof -
  have "0 \<le> sint h \<and> 0 \<le> sint m \<and> 0 \<le> sint s \<and> 0 \<le> sint n" if "nt_from_hms_nano_opt T h m s n = Some t"
  proof -
    have "h < 24" "m < 60" "s < 60" "n < 2000000000" using T that unfolding naive_time_documented_def by blast+
    then have "unat h < 24" "unat m < 60" "unat s < 60" "unat n < 2000000000" by (simp_all add: word_less_nat_alt)
    then show ?thesis by (simp add: sint_small)
  qed
  then show ?thesis unfolding parts_to_naivetime_def using naive_time_from_Some [OF T, of h m s n t] by auto
qed

lemma naive_date_conversion:
  assumes D: "naive_date_documented D"
  shows "array_conversion (default_empty_state 0) (naive_date_parts D) (naive_date_compose D) 2 (naive_date_valid D)"
  by (unfold_locales, rule default_empty_item)
    (auto simp: naive_date_parts_def naive_date_compose_def arrays parts_to_naivedate_Some [OF D] split: list.splits)

lemma naive_time_conversion:
  assumes T: "naive_time_documented T"
  shows "array_conversion (default_empty_state 0) (naive_time_parts T) (naive_time_compose T) 4 (naive_time_valid T)"
proof (unfold_locales, rule default_empty_item)
  fix t :: 'a and xs
  note from_Some = naive_time_from_Some [OF T]
  show "naive_time_valid T t \<Longrightarrow> length (naive_time_parts T t) = 4"
    "naive_time_valid T t \<Longrightarrow> naive_time_compose T (naive_time_parts T t) = Done t"
    by (simp_all add: naive_time_parts_def naive_time_compose_def from_Some)
  show "length xs = 4 \<Longrightarrow> naive_time_compose T xs = Done t \<Longrightarrow> naive_time_parts T t = xs \<and> naive_time_valid T t"
    by (auto simp: naive_time_parts_def naive_time_compose_def arrays from_Some)
  show "naive_time_compose T xs \<noteq> Panic"
    by (simp add: naive_time_compose_def split: list.split)
qed

lemma naive_datetime_conversion:
  fixes M :: "('n, 'd, 't) naive_datetime_fns"
  assumes M: "naive_datetime_documented D T M"
  shows "array_conversion (default_empty_state 0) (naive_datetime_parts M) (naive_datetime_compose D T M) 6
    (naive_datetime_valid D T M)"
proof (unfold_locales, rule default_empty_item)
  fix n :: 'n and xs
  have D: "naive_date_documented D" and T: "naive_time_documented T"
    using M by (simp_all add: naive_datetime_documented_def)
  have parts: "naive_datetime_parts M (ndt_new M d t) = naive_date_parts D d @ naive_time_parts T t" for d t
    using M by (simp add: naive_datetime_documented_def naive_datetime_parts_def naive_date_parts_def naive_time_parts_def)
  have compose: "naive_datetime_compose D T M [y, k, h, m, s, f] = Done n \<longleftrightarrow>
      (\<exists>d t. n = ndt_new M d t \<and> naive_date_valid D d \<and> naive_time_valid T t \<and> naive_date_parts D d @ naive_time_parts T t = [y, k, h, m, s, f])" for y k h m s f and n :: 'n
    by (auto simp: naive_datetime_compose_def parts_to_naivedate_Some [OF D] parts_to_naivetime_Some [OF T]
        naive_date_parts_def naive_time_parts_def)
  show "length (naive_datetime_parts M n) = 6" by (simp add: naive_datetime_parts_def)
  show "naive_datetime_compose D T M (naive_datetime_parts M n) = Done n" if v: "naive_datetime_valid D T M n"
  proof -
    obtain d t where n: "n = ndt_new M d t" "naive_date_valid D d" "naive_time_valid T t" using v by (auto simp: naive_datetime_valid_def)
    then show ?thesis using compose parts [of d t] by (simp add: naive_date_parts_def naive_time_parts_def) blast
  qed
  show "length xs = 6 \<Longrightarrow> naive_datetime_compose D T M xs = Done n \<Longrightarrow> naive_datetime_parts M n = xs \<and> naive_datetime_valid D T M n"
    by (simp add: arrays) (elim exE, simp add: compose naive_datetime_valid_def, metis parts)
  show "naive_datetime_compose D T M xs \<noteq> Panic"
    by (auto simp: naive_datetime_compose_def obind_Panic_iff split: list.split)
qed

end
