(* ===== verification/Zone_Types.thy ===== *)
theory Zone_Types
  imports Chrono_Types
begin

text \<open>
  Offsets from UTC, dates with an offset and signed durations, of the crates \<^verbatim>\<open>chrono\<close> and \<^verbatim>\<open>time\<close>
  (\<^verbatim>\<open>src/src/encoding/type_support/chrono.rs\<close>, \<^verbatim>\<open>time.rs\<close>). Their proxies are messages written out by hand: a
  triple of hours, minutes and seconds, a pair of a date and an offset, and the \<^verbatim>\<open>TimeDeltaProxy\<close>. As in
  \<open>Chrono_Types\<close> the functions of the crates are parameters.
\<close>

section \<open>Proxies that are always canonical\<close>

text \<open>\<^verbatim>\<open>decode_proxy_distinguished\<close> calls \<^verbatim>\<open>decode_proxy\<close>.\<close>

definition plain_proxy :: "('v \<Rightarrow> 'p) \<Rightarrow> ('p \<Rightarrow> 'v outcome) \<Rightarrow> ('v, 'p) proxiable" where
  "plain_proxy encode decode = \<lparr>
     px_encode = encode,
     px_decode = (\<lambda>_ proxy. decode proxy),
     px_decode_dist = (\<lambda>_ proxy. obind (decode proxy) (\<lambda>v. Done (v, Canonical)))\<rparr>"

lemma plain_proxy_laws:
  assumes "\<And>v. vvalid v \<Longrightarrow> pvalid (encode v) \<and> decode (encode v) = Done v"
    and "\<And>p v. pvalid p \<Longrightarrow> decode p = Done v \<Longrightarrow> encode v = p \<and> vvalid v" and "\<And>p. decode p \<noteq> Panic"
  shows "distinguished_proxy_contract (plain_proxy encode decode) vvalid pvalid"
  using assms by unfold_locales (auto simp: plain_proxy_def obind_Panic_iff)

section \<open>Triples of hours, minutes and seconds\<close>

definition hms_elements :: "'r rev_ops \<Rightarrow> (u8 \<times> u8 \<times> u8, 'r) tuple_element list" where
  "hms_elements rops = (let es = default_empty_state 0; fc = plain_field rops (varint_i8 rops) es;
      len = plain_trivial_len (varint_i8 rops) es in triple_elements fc es len fc es len fc es len)"

definition hms_codec :: "'r rev_ops \<Rightarrow> (u8 \<times> u8 \<times> u8, 'r) codec" where
  "hms_codec rops = tuple_codec rops (0, 0, 0) (hms_elements rops)"

text \<open>The array of the signs that occur: of negative components, zeros and positive ones.\<close>

definition signums :: "u8 list \<Rightarrow> bool list" where
  "signums components = foldl (\<lambda>s c. s[nat (signum c + 1) := True]) [False, False, False] components"

definition mixed_signs :: "u8 \<times> u8 \<times> u8 \<Rightarrow> bool" where
  "mixed_signs hms = (case hms of (hours, mins, secs) \<Rightarrow>
     (case signums [hours, mins, secs] of [True, _, True] \<Rightarrow> True | _ \<Rightarrow> False))"

text \<open>The offset of \<^verbatim>\<open>Utc\<close>, a type of one value.\<close>

definition utc_decode_proxy :: "u8 \<times> u8 \<times> u8 \<Rightarrow> unit outcome" where
  "utc_decode_proxy proxy = (if proxy = (0, 0, 0) then Done () else Fail OutOfDomainValue)"

definition utc_codec :: "'r rev_ops \<Rightarrow> (unit, 'r) codec" where
  "utc_codec rops = proxied_codec (hms_codec rops) (plain_proxy (\<lambda>_. (0, 0, 0)) utc_decode_proxy) ()"

definition utc_empty_state :: "unit empty_state" where
  "utc_empty_state = \<lparr>es_empty = (), es_is_empty = (\<lambda>_. True), es_clear = (\<lambda>u. u)\<rparr>"

text \<open>\<^verbatim>\<open>FixedOffset\<close> of chrono: a number of seconds, less than a day either way.\<close>

record 'o fixed_offset_fns =
  fo_local_minus_utc :: "'o \<Rightarrow> u32"
  fo_east_opt :: "u32 \<Rightarrow> 'o option"

definition fixed_offset_documented :: "'o fixed_offset_fns \<Rightarrow> bool" where
  "fixed_offset_documented F \<longleftrightarrow>
     (\<forall>s. fo_east_opt F s \<noteq> None \<longleftrightarrow> - 86400 < sint s \<and> sint s < 86400) \<and>
     (\<forall>s z. fo_east_opt F s = Some z \<longrightarrow> fo_local_minus_utc F z = s)"

definition fixed_offset_valid :: "'o fixed_offset_fns \<Rightarrow> 'o \<Rightarrow> bool" where
  "fixed_offset_valid F z \<longleftrightarrow> fo_east_opt F (fo_local_minus_utc F z) = Some z"

definition fixed_offset_encode_proxy :: "'o fixed_offset_fns \<Rightarrow> 'o \<Rightarrow> u8 \<times> u8 \<times> u8" where
  "fixed_offset_encode_proxy F z =
    (let offset_secs = sint (fo_local_minus_utc F z);
         secs = word_of_int (offset_secs smod 60);
         offset_mins = offset_secs sdiv 60;
         mins = word_of_int (offset_mins smod 60);
         hours = word_of_int (offset_mins sdiv 60)
     in (hours, mins, secs))"

definition fixed_offset_decode_proxy :: "'o fixed_offset_fns \<Rightarrow> u8 \<times> u8 \<times> u8 \<Rightarrow> 'o outcome" where
  "fixed_offset_decode_proxy F proxy = (case proxy of (hours, mins, secs) \<Rightarrow>
     if - 23 \<le> sint hours \<and> sint hours \<le> 23 \<and> - 59 \<le> sint mins \<and> sint mins \<le> 59 \<and> - 59 \<le> sint secs \<and> sint secs \<le> 59
     then let total_offset = sint hours * 60 * 60 + sint mins * 60 + sint secs in
       if mixed_signs (hours, mins, secs) then Fail InvalidValue
       else (case fo_east_opt F (word_of_int total_offset) of Some z \<Rightarrow> Done z | None \<Rightarrow> Panic)
     else Fail OutOfDomainValue)"

definition fixed_offset_empty_state :: "'o fixed_offset_fns \<Rightarrow> 'o empty_state" where
  "fixed_offset_empty_state F = (let z0 = the (fo_east_opt F 0) in
     \<lparr>es_empty = z0, es_is_empty = (\<lambda>z. fo_local_minus_utc F z = 0), es_clear = (\<lambda>_. z0)\<rparr>)"

definition fixed_offset_codec :: "'r rev_ops \<Rightarrow> 'o fixed_offset_fns \<Rightarrow> ('o, 'r) codec" where
  "fixed_offset_codec rops F = proxied_codec (hms_codec rops)
     (plain_proxy (fixed_offset_encode_proxy F) (fixed_offset_decode_proxy F)) (es_empty (fixed_offset_empty_state F))"

text \<open>\<^verbatim>\<open>UtcOffset\<close> of time, which is made of the three components; \<^verbatim>\<open>from_hms\<close> refuses those out of range.\<close>

record 'o utc_offset_fns =
  uo_as_hms :: "'o \<Rightarrow> u8 \<times> u8 \<times> u8"
  uo_from_hms :: "u8 \<Rightarrow> u8 \<Rightarrow> u8 \<Rightarrow> 'o option"
  uo_UTC :: 'o

definition utc_offset_documented :: "'o utc_offset_fns \<Rightarrow> bool" where
  "utc_offset_documented F \<longleftrightarrow>
     (\<forall>h m s z. uo_from_hms F h m s = Some z \<longrightarrow> \<not> mixed_signs (h, m, s) \<longrightarrow> uo_as_hms F z = (h, m, s)) \<and>
     uo_from_hms F 0 0 0 = Some (uo_UTC F)"

definition utc_offset_valid :: "'o utc_offset_fns \<Rightarrow> 'o \<Rightarrow> bool" where
  "utc_offset_valid F z \<longleftrightarrow>
     \<not> mixed_signs (uo_as_hms F z) \<and> (case uo_as_hms F z of (h, m, s) \<Rightarrow> uo_from_hms F h m s = Some z)"

definition utc_offset_decode_proxy :: "'o utc_offset_fns \<Rightarrow> u8 \<times> u8 \<times> u8 \<Rightarrow> 'o outcome" where
  "utc_offset_decode_proxy F proxy = (case proxy of (hours, mins, secs) \<Rightarrow>
     if mixed_signs (hours, mins, secs) then Fail InvalidValue
     else ok_or (uo_from_hms F hours mins secs) OutOfDomainValue)"

definition utc_offset_empty_state :: "'o utc_offset_fns \<Rightarrow> 'o empty_state" where
  "utc_offset_empty_state F = default_empty_state (uo_UTC F)"

definition utc_offset_codec :: "'r rev_ops \<Rightarrow> 'o utc_offset_fns \<Rightarrow> ('o, 'r) codec" where
  "utc_offset_codec rops F = proxied_codec (hms_codec rops)
     (plain_proxy (uo_as_hms F) (utc_offset_decode_proxy F)) (uo_UTC F)"

section \<open>Dates with an offset\<close>

text \<open>
  A date and time in UTC with its offset (chrono), or a local date and time with its offset (time): the two
  crates differ in which of the two the pair holds, and the functions that make and take apart the value.
\<close>

record ('z, 'n, 'o) zoned_fns =
  zo_compose :: "'n \<Rightarrow> 'o \<Rightarrow> 'z"
  zo_datetime :: "'z \<Rightarrow> 'n"
  zo_offset :: "'z \<Rightarrow> 'o"

definition zoned_documented :: "('z, 'n, 'o) zoned_fns \<Rightarrow> bool" where
  "zoned_documented Z \<longleftrightarrow> (\<forall>z. zo_compose Z (zo_datetime Z z) (zo_offset Z z) = z) \<and>
     (\<forall>n z. zo_datetime Z (zo_compose Z n z) = n \<and> zo_offset Z (zo_compose Z n z) = z)"

definition zoned_empty_state :: "('z, 'n, 'o) zoned_fns \<Rightarrow> 'n empty_state \<Rightarrow> 'o empty_state \<Rightarrow> 'z empty_state" where
  "zoned_empty_state Z nes oes = (let z0 = zo_compose Z (es_empty nes) (es_empty oes) in
     \<lparr>es_empty = z0, es_is_empty = (\<lambda>z. es_is_empty nes (zo_datetime Z z) \<and> es_is_empty oes (zo_offset Z z)), es_clear = (\<lambda>_. z0)\<rparr>)"

definition zoned_elements ::
    "'r rev_ops \<Rightarrow> ('n, 'r) codec \<Rightarrow> 'n empty_state \<Rightarrow> ('o, 'r) codec \<Rightarrow> 'o empty_state \<Rightarrow> ('n \<times> 'o, 'r) tuple_element list" where
  "zoned_elements rops nc nes oc oes = pair_elements (plain_field rops nc nes) nes (plain_trivial_len nc nes)
     (plain_field rops oc oes) oes (plain_trivial_len oc oes)"

definition zoned_codec ::
    "'r rev_ops \<Rightarrow> ('z, 'n, 'o) zoned_fns \<Rightarrow> ('n, 'r) codec \<Rightarrow> 'n empty_state \<Rightarrow> ('o, 'r) codec \<Rightarrow> 'o empty_state \<Rightarrow> ('z, 'r) codec" where
  "zoned_codec rops Z nc nes oc oes =
    proxied_codec (tuple_codec rops (es_empty nes, es_empty oes) (zoned_elements rops nc nes oc oes))
      (plain_proxy (\<lambda>z. (zo_datetime Z z, zo_offset Z z)) (\<lambda>(n, z). Done (zo_compose Z n z)))
      (es_empty (zoned_empty_state Z nes oes))"

section \<open>Signed durations\<close>

text \<open>
  \<^verbatim>\<open>TimeDelta\<close> of chrono is made of whole seconds and nanoseconds that are not negative, and gives back seconds
  and nanoseconds that have the same sign.
\<close>

record 'v time_delta_fns =
  td_num_seconds :: "'v \<Rightarrow> u64"
  td_subsec_nanos :: "'v \<Rightarrow> u32"
  td_new :: "u64 \<Rightarrow> u32 \<Rightarrow> 'v option"

definition same_sign_nanos :: "int \<Rightarrow> int \<Rightarrow> bool" where
  "same_sign_nanos secs nanos \<longleftrightarrow> \<bar>nanos\<bar> \<le> 999999999 \<and> (0 \<le> secs \<and> 0 \<le> nanos \<or> secs \<le> 0 \<and> nanos \<le> 0)"

definition time_delta_documented :: "'v time_delta_fns \<Rightarrow> bool" where
  "time_delta_documented C \<longleftrightarrow>
     (\<forall>s n d. td_new C s n = Some d \<longrightarrow> unat n < 1000000000 \<and>
        same_sign_nanos (sint (td_num_seconds C d)) (sint (td_subsec_nanos C d)) \<and>
        sint (td_num_seconds C d) * 1000000000 + sint (td_subsec_nanos C d) = sint s * 1000000000 + int (unat n))"

definition chrono_delta_valid :: "'v time_delta_fns \<Rightarrow> 'v \<Rightarrow> bool" where
  "chrono_delta_valid C d \<longleftrightarrow> (\<exists>s n. td_new C s n = Some d)"

definition time_delta_encode_proxy :: "'v time_delta_fns \<Rightarrow> 'v \<Rightarrow> time_delta_proxy" where
  "time_delta_encode_proxy C d = \<lparr>tdp_secs = td_num_seconds C d, tdp_nanos = td_subsec_nanos C d\<rparr>"

definition time_delta_decode_proxy :: "'v time_delta_fns \<Rightarrow> time_delta_proxy \<Rightarrow> 'v outcome" where
  "time_delta_decode_proxy C proxy = (let secs = tdp_secs proxy; nanos = tdp_nanos proxy in
     if - 9223372036854775807 \<le> sint secs \<and> sint secs \<le> 0 \<and> - 999999999 \<le> sint nanos \<and> sint nanos \<le> - 1
     then ok_or (td_new C (secs - 1) (nanos + 1000000000)) OutOfDomainValue
     else if nanos = 0 \<or> 0 \<le> sint secs \<and> 0 \<le> sint nanos \<and> sint nanos \<le> 999999999
     then ok_or (td_new C secs nanos) OutOfDomainValue
     else Fail InvalidValue)"

definition chrono_delta_codec :: "'r rev_ops \<Rightarrow> 'v time_delta_fns \<Rightarrow> 'v \<Rightarrow> ('v, 'r) codec" where
  "chrono_delta_codec rops C d0 = proxied_codec (time_delta_codec rops)
     (plain_proxy (time_delta_encode_proxy C) (time_delta_decode_proxy C)) d0"

text \<open>\<^verbatim>\<open>Duration\<close> of time has seconds and nanoseconds of the same sign, from which it is made.\<close>

record 'v signed_duration_fns =
  sd_whole_seconds :: "'v \<Rightarrow> u64"
  sd_subsec_nanoseconds :: "'v \<Rightarrow> u32"
  sd_new :: "u64 \<Rightarrow> u32 \<Rightarrow> 'v"

definition signed_duration_documented :: "'v signed_duration_fns \<Rightarrow> bool" where
  "signed_duration_documented C \<longleftrightarrow>
     (\<forall>s n. same_sign_nanos (sint s) (sint n) \<longrightarrow>
        sd_whole_seconds C (sd_new C s n) = s \<and> sd_subsec_nanoseconds C (sd_new C s n) = n)"

definition signed_duration_valid :: "'v signed_duration_fns \<Rightarrow> 'v \<Rightarrow> bool" where
  "signed_duration_valid C d \<longleftrightarrow> same_sign_nanos (sint (sd_whole_seconds C d)) (sint (sd_subsec_nanoseconds C d)) \<and>
     sd_new C (sd_whole_seconds C d) (sd_subsec_nanoseconds C d) = d"

definition signed_duration_encode_proxy :: "'v signed_duration_fns \<Rightarrow> 'v \<Rightarrow> time_delta_proxy" where
  "signed_duration_encode_proxy C d = \<lparr>tdp_secs = sd_whole_seconds C d, tdp_nanos = sd_subsec_nanoseconds C d\<rparr>"

definition signed_duration_decode_proxy :: "'v signed_duration_fns \<Rightarrow> time_delta_proxy \<Rightarrow> 'v outcome" where
  "signed_duration_decode_proxy C proxy = (let secs = tdp_secs proxy; nanos = tdp_nanos proxy in
     if sint secs \<le> 0 \<and> - 999999999 \<le> sint nanos \<and> sint nanos \<le> 0 \<or>
        0 \<le> sint secs \<and> 0 \<le> sint nanos \<and> sint nanos \<le> 999999999
     then Done (sd_new C secs nanos)
     else Fail InvalidValue)"

definition signed_duration_codec :: "'r rev_ops \<Rightarrow> 'v signed_duration_fns \<Rightarrow> 'v \<Rightarrow> ('v, 'r) codec" where
  "signed_duration_codec rops C d0 = proxied_codec (time_delta_codec rops)
     (plain_proxy (signed_duration_encode_proxy C) (signed_duration_decode_proxy C)) d0"

section \<open>Signs and components\<close>

lemma signum_cases: "sint c < 0 \<and> signum c = -1 \<or> sint c = 0 \<and> signum c = 0 \<or> 0 < sint c \<and> signum c = 1"
  by (auto simp: signum_def sgn_if)

lemma signum_step:
  "[a, b, c][nat (signum w + 1) := True] = [a \<or> sint w < 0, b \<or> sint w = 0, c \<or> 0 < sint w]"
  using signum_cases [of w] by (elim disjE conjE) simp_all

lemma three_signs: "(case [a, b, c] of [True, _, True] \<Rightarrow> True | _ \<Rightarrow> False) = (a \<and> c)"
  by (cases a; cases c; simp)

lemma signums_eq:
  "signums [h, m, s] = [((False \<or> sint h < 0) \<or> sint m < 0) \<or> sint s < 0, ((False \<or> sint h = 0) \<or> sint m = 0) \<or> sint s = 0,
      ((False \<or> 0 < sint h) \<or> 0 < sint m) \<or> 0 < sint s]"
  unfolding signums_def foldl.simps signum_step ..

lemma mixed_signs_iff:
  "mixed_signs (h, m, s) \<longleftrightarrow> (sint h < 0 \<or> sint m < 0 \<or> sint s < 0) \<and> (0 < sint h \<or> 0 < sint m \<or> 0 < sint s)"
  unfolding mixed_signs_def prod.case signums_eq three_signs by blast

lemma sint_i8: "- 128 \<le> x \<Longrightarrow> x \<le> 127 \<Longrightarrow> sint (word_of_int x :: u8) = x"
  by (simp add: sint_sbintrunc' signed_take_bit_int_eq_self)

text \<open>Division that truncates takes a number of seconds apart, and its components make it up again.\<close>

lemma seconds_apart:
  fixes u :: int
  assumes "0 \<le> u" "u < 86400"
  shows "0 \<le> u div 60 div 60" "u div 60 div 60 \<le> 23" "0 \<le> u div 60 mod 60" "u div 60 mod 60 \<le> 59"
    "0 \<le> u mod 60" "u mod 60 \<le> 59" "u div 60 div 60 * 60 * 60 + u div 60 mod 60 * 60 + u mod 60 = u"
proof -
  have e: "u div 60 * 60 + u mod 60 = u" "u div 60 div 60 * 60 + u div 60 mod 60 = u div 60" by (rule div_mult_mod_eq)+
  have r: "0 \<le> u mod 60" "u mod 60 < 60" "0 \<le> u div 60 mod 60" "u div 60 mod 60 < 60" by simp_all
  show "0 \<le> u div 60 div 60" "u div 60 div 60 \<le> 23" "0 \<le> u div 60 mod 60" "u div 60 mod 60 \<le> 59"
    "0 \<le> u mod 60" "u mod 60 \<le> 59" "u div 60 div 60 * 60 * 60 + u div 60 mod 60 * 60 + u mod 60 = u"
    using assms e r by linarith+
qed

lemma seconds_together:
  fixes h m s :: int
  assumes "0 \<le> m" "m \<le> 59" "0 \<le> s" "s \<le> 59" and t: "t = h * 60 * 60 + m * 60 + s"
  shows "t div 60 div 60 = h" "t div 60 mod 60 = m" "t mod 60 = s"
proof -
  have t1: "t = 60 * (h * 60 + m) + s" using t by simp
  have d: "t div 60 = h * 60 + m" using int_div_pos_eq [OF t1] assms by simp
  show "t mod 60 = s" using int_mod_pos_eq [OF t1] assms by simp
  have t2: "t div 60 = 60 * h + m" using d by simp
  show "t div 60 div 60 = h" "t div 60 mod 60 = m"
    using int_div_pos_eq [OF t2] int_mod_pos_eq [OF t2] assms by simp_all
qed

lemma sdiv_minus:
  fixes a :: int
  assumes "0 < b"
  shows "(- a) sdiv b = - (a sdiv b)" "(- a) smod b = - (a smod b)"
  using assms by (auto simp: sdiv_pos)

definition hms_in_range :: "int \<Rightarrow> int \<Rightarrow> int \<Rightarrow> bool" where
  "hms_in_range h m s \<longleftrightarrow> - 23 \<le> h \<and> h \<le> 23 \<and> - 59 \<le> m \<and> m \<le> 59 \<and> - 59 \<le> s \<and> s \<le> 59 \<and>
     (0 \<le> h \<and> 0 \<le> m \<and> 0 \<le> s \<or> h \<le> 0 \<and> m \<le> 0 \<and> s \<le> 0)"

lemma offset_components:
  fixes t :: int
  assumes "- 86400 < t" "t < 86400"
  shows "hms_in_range (t sdiv 60 sdiv 60) (t sdiv 60 smod 60) (t smod 60)"
    and "t sdiv 60 sdiv 60 * 60 * 60 + t sdiv 60 smod 60 * 60 + t smod 60 = t"
proof -
  have pos: "hms_in_range (u sdiv 60 sdiv 60) (u sdiv 60 smod 60) (u smod 60) \<and>
      u sdiv 60 sdiv 60 * 60 * 60 + u sdiv 60 smod 60 * 60 + u smod 60 = u" if "0 \<le> u" "u < 86400" for u :: int
  proof -
    have "0 \<le> u div 60" using that by presburger
    then have "u sdiv 60 = u div 60" "u smod 60 = u mod 60" "u div 60 sdiv 60 = u div 60 div 60" "u div 60 smod 60 = u div 60 mod 60"
      using that by (simp_all add: sdiv_pos)
    then show ?thesis
      unfolding hms_in_range_def by (simp only:) (intro conjI disjI1; insert seconds_apart [OF that]; linarith)
  qed
  have "hms_in_range (t sdiv 60 sdiv 60) (t sdiv 60 smod 60) (t smod 60) \<and>
      t sdiv 60 sdiv 60 * 60 * 60 + t sdiv 60 smod 60 * 60 + t smod 60 = t"
  proof (cases "0 \<le> t")
    case False
    then show ?thesis
      using pos [of "- t"] assms by (auto simp: sdiv_minus hms_in_range_def)
  qed (use pos assms in blast)
  then show "hms_in_range (t sdiv 60 sdiv 60) (t sdiv 60 smod 60) (t smod 60)"
    "t sdiv 60 sdiv 60 * 60 * 60 + t sdiv 60 smod 60 * 60 + t smod 60 = t" by blast+
qed

lemma components_offset:
  fixes h m s :: int
  assumes r: "hms_in_range h m s" and t: "t = h * 60 * 60 + m * 60 + s"
  shows "t sdiv 60 sdiv 60 = h \<and> t sdiv 60 smod 60 = m \<and> t smod 60 = s \<and> - 86400 < t \<and> t < 86400"
proof -
  have pos: "u sdiv 60 sdiv 60 = h \<and> u sdiv 60 smod 60 = m \<and> u smod 60 = s \<and> - 86400 < u \<and> u < 86400"
    if "0 \<le> h" "h \<le> 23" "0 \<le> m" "m \<le> 59" "0 \<le> s" "s \<le> 59" "u = h * 60 * 60 + m * 60 + s" for h m s u :: int
  proof -
    have u: "0 \<le> u" "u < 86400" using that by linarith+
    then have "0 \<le> u div 60" by presburger
    then show ?thesis
      using u seconds_together [OF that(3-7)] by (simp add: sdiv_pos)
  qed
  from r consider "0 \<le> h" "0 \<le> m" "0 \<le> s" | "h \<le> 0" "m \<le> 0" "s \<le> 0" by (auto simp: hms_in_range_def)
  then show ?thesis
  proof cases
    case 1
    then show ?thesis using r by (intro pos [OF _ _ _ _ _ _ t]) (auto simp: hms_in_range_def)
  next
    case 2
    then have "- t sdiv 60 sdiv 60 = - h \<and> - t sdiv 60 smod 60 = - m \<and> - t smod 60 = - s \<and> - 86400 < - t \<and> - t < 86400"
      using r t by (intro pos) (auto simp: hms_in_range_def)
    then show ?thesis by (simp add: sdiv_minus)
  qed
qed

section \<open>The conversions\<close>

lemma utc_laws: "distinguished_proxy_contract (plain_proxy (\<lambda>_. (0, 0, 0)) utc_decode_proxy) (\<lambda>_. True) (\<lambda>_. True)"
  by (rule plain_proxy_laws) (auto simp: utc_decode_proxy_def split: if_splits)

lemma fixed_offset_range:
  assumes F: "fixed_offset_documented F" and z: "fixed_offset_valid F z"
  shows "- 86400 < sint (fo_local_minus_utc F z)" "sint (fo_local_minus_utc F z) < 86400"
  using F z unfolding fixed_offset_documented_def fixed_offset_valid_def by (metis option.distinct(1))+

lemma fixed_offset_decode_eq:
  "fixed_offset_decode_proxy F (h, m, s) =
    (if hms_in_range (sint h) (sint m) (sint s)
     then (case fo_east_opt F (word_of_int (sint h * 60 * 60 + sint m * 60 + sint s)) of Some z \<Rightarrow> Done z | None \<Rightarrow> Panic)
     else if - 23 \<le> sint h \<and> sint h \<le> 23 \<and> - 59 \<le> sint m \<and> sint m \<le> 59 \<and> - 59 \<le> sint s \<and> sint s \<le> 59
     then Fail InvalidValue else Fail OutOfDomainValue)"
  unfolding fixed_offset_decode_proxy_def hms_in_range_def prod.case mixed_signs_iff Let_def
  by (simp add: not_less not_le)

lemma fixed_offset_decode_Done:
  assumes F: "fixed_offset_documented F"
  shows "fixed_offset_decode_proxy F (h, m, s) = Done z \<longleftrightarrow>
    fixed_offset_valid F z \<and> fixed_offset_encode_proxy F z = (h, m, s)"
    and "fixed_offset_decode_proxy F p \<noteq> Panic"
proof -
  let ?t = "\<lambda>(h :: u8) (m :: u8) (s :: u8). sint h * 60 * 60 + sint m * 60 + sint s"
  note range = fixed_offset_decode_eq [of F]
  have total: "- 86400 < ?t h m s \<and> ?t h m s < 86400 \<and> sint (word_of_int (?t h m s) :: u32) = ?t h m s \<and>
      ?t h m s sdiv 60 sdiv 60 = sint h \<and> ?t h m s sdiv 60 smod 60 = sint m \<and> ?t h m s smod 60 = sint s"
    if "hms_in_range (sint h) (sint m) (sint s)" for h m s
  proof -
    have c: "- 86400 < ?t h m s" "?t h m s < 86400" using components_offset [OF that refl] by blast+
    have "sint (word_of_int (?t h m s) :: u32) = ?t h m s" by (rule sint_of_int_i32) (use c in linarith)+
    then show ?thesis using c components_offset [OF that refl] by blast
  qed
  have east: "\<exists>z. fo_east_opt F (word_of_int (?t h m s)) = Some z" if "hms_in_range (sint h) (sint m) (sint s)" for h m s
    using total [OF that] F unfolding fixed_offset_documented_def by (metis not_None_eq)
  show "fixed_offset_decode_proxy F p \<noteq> Panic"
  proof (cases p)
    case (fields a b c)
    show ?thesis
    proof (cases "hms_in_range (sint a) (sint b) (sint c)")
      case True
      then show ?thesis using east [OF True] unfolding fields range by auto
    qed (simp add: fields range)
  qed
  show "fixed_offset_decode_proxy F (h, m, s) = Done z \<longleftrightarrow>
    fixed_offset_valid F z \<and> fixed_offset_encode_proxy F z = (h, m, s)"
  proof
    assume "fixed_offset_decode_proxy F (h, m, s) = Done z"
    then have r: "hms_in_range (sint h) (sint m) (sint s)" and z: "fo_east_opt F (word_of_int (?t h m s)) = Some z"
      by (auto simp: range split: if_splits option.splits)
    have "fo_local_minus_utc F z = word_of_int (?t h m s)" using F z unfolding fixed_offset_documented_def by blast
    then show "fixed_offset_valid F z \<and> fixed_offset_encode_proxy F z = (h, m, s)"
      using total [OF r] z by (simp add: fixed_offset_encode_proxy_def fixed_offset_valid_def Let_def)
  next
    let ?u = "sint (fo_local_minus_utc F z)"
    assume v: "fixed_offset_valid F z \<and> fixed_offset_encode_proxy F z = (h, m, s)"
    then have e: "h = word_of_int (?u sdiv 60 sdiv 60)" "m = word_of_int (?u sdiv 60 smod 60)" "s = word_of_int (?u smod 60)"
      by (simp_all add: fixed_offset_encode_proxy_def Let_def)
    note c = offset_components [OF fixed_offset_range [OF F conjunct1 [OF v]]]
    have i: "sint h = ?u sdiv 60 sdiv 60" "sint m = ?u sdiv 60 smod 60" "sint s = ?u smod 60"
      unfolding e using c(1) by (simp_all only: hms_in_range_def) (rule sint_i8; linarith)+
    have "hms_in_range (sint h) (sint m) (sint s)" "word_of_int (?t h m s) = fo_local_minus_utc F z"
      unfolding i using c by simp_all
    then show "fixed_offset_decode_proxy F (h, m, s) = Done z"
      using v by (simp add: range fixed_offset_valid_def)
  qed
qed

lemma fixed_offset_laws:
  assumes "fixed_offset_documented F"
  shows "distinguished_proxy_contract (plain_proxy (fixed_offset_encode_proxy F) (fixed_offset_decode_proxy F))
    (fixed_offset_valid F) (\<lambda>_. True)"
proof (rule plain_proxy_laws)
  fix v and p :: "u8 \<times> u8 \<times> u8"
  show "fixed_offset_valid F v \<Longrightarrow> True \<and> fixed_offset_decode_proxy F (fixed_offset_encode_proxy F v) = Done v"
    using fixed_offset_decode_Done(1) [OF assms] by (cases "fixed_offset_encode_proxy F v") simp
  show "fixed_offset_decode_proxy F p = Done v \<Longrightarrow> fixed_offset_encode_proxy F v = p \<and> fixed_offset_valid F v"
    using fixed_offset_decode_Done(1) [OF assms] by (cases p) simp
qed (rule fixed_offset_decode_Done(2) [OF assms])

lemma utc_offset_laws:
  assumes "utc_offset_documented F"
  shows "distinguished_proxy_contract (plain_proxy (uo_as_hms F) (utc_offset_decode_proxy F)) (utc_offset_valid F) (\<lambda>_. True)"
proof (rule plain_proxy_laws)
  fix v and p :: "u8 \<times> u8 \<times> u8"
  obtain h m s where p: "p = (h, m, s)" by (cases p)
  show "utc_offset_valid F v \<Longrightarrow> True \<and> utc_offset_decode_proxy F (uo_as_hms F v) = Done v"
    by (cases "uo_as_hms F v") (simp add: utc_offset_valid_def utc_offset_decode_proxy_def)
  show "utc_offset_decode_proxy F p \<noteq> Panic" by (simp add: utc_offset_decode_proxy_def p)
  assume "utc_offset_decode_proxy F p = Done v"
  then have d: "\<not> mixed_signs (h, m, s)" "uo_from_hms F h m s = Some v"
    by (simp_all add: utc_offset_decode_proxy_def p split: if_splits)
  then have "uo_as_hms F v = (h, m, s)" using assms unfolding utc_offset_documented_def by blast
  then show "uo_as_hms F v = p \<and> utc_offset_valid F v" using d by (simp add: p utc_offset_valid_def)
qed

lemma zoned_laws:
  assumes "zoned_documented Z"
  shows "distinguished_proxy_contract (plain_proxy (\<lambda>z. (zo_datetime Z z, zo_offset Z z)) (\<lambda>(n, z). Done (zo_compose Z n z)))
    (\<lambda>z. nvalid (zo_datetime Z z) \<and> ovalid (zo_offset Z z)) (\<lambda>(n, z). nvalid n \<and> ovalid z)"
  using assms by (intro plain_proxy_laws) (auto simp: zoned_documented_def)

end
