(* ===== verification/Tuple_Properties.thy ===== *)
theory Tuple_Properties
  imports Ranges Plain_Bytes
begin

text \<open>
  What holds of tuples and of the other messages written out by hand: they are the derived messages with the
  same fields, in distinguished mode too, save at the recursion limit; an inclusive range loses in its encoding
  whether it is exhausted; and the proxy of a time delta is encoded as a \<^verbatim>\<open>bilrost_types::Duration\<close>.
\<close>

section \<open>The contracts on the codecs of the code\<close>

abbreviation u32_field :: "'r rev_ops \<Rightarrow> (u32, 'r) field_codec" where
  "u32_field rops \<equiv> plain_field rops (varint_u32 rops) (default_empty_state 0)"

abbreviation u32_parts :: "'r rev_ops \<Rightarrow> u32 \<Rightarrow> value_part list" where
  "u32_parts rops \<equiv> one_part (varint_u32 rops) (\<lambda>v. varint_bytes (ucast v)) (default_empty_state 0)"

abbreviation blob_parts :: "'r rev_ops \<Rightarrow> bytes option \<Rightarrow> value_part list" where
  "blob_parts rops \<equiv> option_parts (plain_vec_u8 rops) delimited"

abbreviation blob_valid :: "bytes option \<Rightarrow> bool" where
  "blob_valid \<equiv> pred_option (\<lambda>v. True \<and> length v < 2 ^ 64)"

text \<open>The pair \<^verbatim>\<open>(u32, Option<Vec<u8>>)\<close>.\<close>

definition id_and_blob :: "'r rev_ops \<Rightarrow> (u32 \<times> bytes option, 'r) tuple_element list" where
  "id_and_blob rops = pair_elements (u32_field rops) (default_empty_state 0) (plain_trivial_len (varint_u32 rops) (default_empty_state 0))
     (option_field rops (plain_vec_u8 rops)) option_empty_state (option_trivial_len (plain_vec_u8 rops))"

abbreviation id_and_blob_view :: "'r rev_ops \<Rightarrow> (u32 \<times> bytes option, 'r) message_field \<Rightarrow> (u32 \<times> bytes option) field_view" where
  "id_and_blob_view rops \<equiv> pair_view (u32_parts rops) (\<lambda>_. True) (\<lambda>_. 0) (blob_parts rops) blob_valid (case_option 0 (\<lambda>_. 0))"

context rev_buf_contract
begin

lemma u32_suits: "suits (varint_u32 rops) (\<lambda>v. varint_bytes (ucast v)) (\<lambda>_. True) (default_empty_state 0)"
  by (rule suits_default) (simp_all add: varint_u32_def varint_codec_def)

lemma u32_field_laws:
  "distinguished_field_contract rops rcontents rinv (u32_field rops) (default_empty_state 0) (u32_parts rops) (\<lambda>_. True) (\<lambda>_. 0)"
  by (rule distinguished_codec.plain_distinguished_laws [OF varint_laws(6) u32_suits])

lemma blob_field_laws:
  "distinguished_field_contract rops rcontents rinv (option_field rops (plain_vec_u8 rops)) option_empty_state
    (blob_parts rops) blob_valid (case_option 0 (\<lambda>_. 0))"
  by (rule distinguished_codec.option_distinguished_laws [OF plain_bytes_laws(1)])

lemma id_and_blob_laws: "tuple_message rops rcontents rinv (0, None) (id_and_blob rops) (id_and_blob_view rops)"
proof -
  have e: "(0, None) = (es_empty (default_empty_state (0 :: u32)), es_empty (option_empty_state :: bytes option empty_state))"
    by (simp add: default_empty_state_def option_empty_state_def)
  show ?thesis unfolding id_and_blob_def e
  proof (rule pair_laws [OF distinguished_field_contract.axioms(1) [OF u32_field_laws]
        distinguished_field_contract.axioms(1) [OF blob_field_laws]])
    show "plain_trivial_len (varint_u32 rops) (default_empty_state 0) tag v =
        sum_list (map (\<lambda>(wt, val). 1 + length val) (u32_parts rops v))" for tag v
      by (rule plain_trivial_len_eq [OF distinguished_codec.axioms(1) [OF varint_laws(6)] u32_suits]) simp
    show "option_trivial_len (plain_vec_u8 rops) tag v = sum_list (map (\<lambda>(wt, val). 1 + length val) (blob_parts rops v))"
      if "blob_valid v" for tag v
      using that by (intro option_trivial_len_eq [OF distinguished_codec.axioms(1) [OF plain_bytes_laws(1)]])
        (auto split: option.split)
  qed
qed

lemma u32_range_laws:
  "distinguished_underived_message rops rcontents rinv \<lparr>rr_start = 0, rr_end = 0\<rparr>
    (range_fields (u32_field rops) (default_empty_state 0) (u32_field rops) (default_empty_state 0))
    (range_view (u32_parts rops) (\<lambda>_. True) (\<lambda>_. 0) (u32_parts rops) (\<lambda>_. True) (\<lambda>_. 0))"
  using range_distinguished_laws [OF u32_field_laws u32_field_laws] by (simp add: default_empty_state_def)

end

interpretation id_and_blob: tuple_message "rb_rev_ops sco" rb_contents rb_inv "(0, None)" "id_and_blob (rb_rev_ops sco)"
  "id_and_blob_view (rb_rev_ops sco)"
  by (rule rev_buf_contract.id_and_blob_laws [OF rb_rev.rev_buf_contract_axioms])

interpretation u32_range: underived_message "rb_rev_ops sco" rb_contents rb_inv "\<lparr>rr_start = 0, rr_end = 0\<rparr>"
  "range_fields (u32_field (rb_rev_ops sco)) (default_empty_state 0) (u32_field (rb_rev_ops sco)) (default_empty_state 0)"
  "range_view (u32_parts (rb_rev_ops sco)) (\<lambda>_. True) (\<lambda>_. 0) (u32_parts (rb_rev_ops sco)) (\<lambda>_. True) (\<lambda>_. 0)"
  by (rule distinguished_underived_message.axioms(1) [OF rev_buf_contract.u32_range_laws [OF rb_rev.rev_buf_contract_axioms]])

interpretation time_delta: distinguished_underived_message "rb_rev_ops sco" rb_contents rb_inv
  "\<lparr>tdp_secs = 0, tdp_nanos = 0\<rparr>" "time_delta_fields (rb_rev_ops sco)" time_delta_view
  by (rule time_delta_laws [OF rb_rev.rev_buf_contract_axioms])

section \<open>The proxy of a time delta and Duration\<close>

lemma time_delta_valid:
  fixes rops :: "'r rev_ops"
  shows "struct_body time_delta_view (time_delta_fields rops) = (\<lambda>s. time_body (tdp_secs s) (tdp_nanos s))"
    "struct_valid time_delta_view (time_delta_fields rops) = (\<lambda>_. True)"
    "struct_depth time_delta_view (time_delta_fields rops) = (\<lambda>_. 0)"
proof -
  have body: "struct_body time_delta_view (time_delta_fields rops) s = time_body (tdp_secs s) (tdp_nanos s)" for s
    by (simp add: struct_body_def struct_parts_def present_def field_run_def time_delta_fields_def time_delta_view_def
        two_views_def value_view_def seconds_parts_def nanos_parts_def time_body_def time_keys)
  moreover have "length (struct_body time_delta_view (time_delta_fields rops) s) < 2 ^ 64" for s
    using time_body_length [of "tdp_secs s" "tdp_nanos s"] by (simp add: body)
  moreover have "fv_valid (time_delta_view f) s" "fv_depth (time_delta_view f) s = 0" for f :: "(time_delta_proxy, 'r) message_field" and s
    by (simp_all add: time_delta_view_def two_views_def value_view_def)
  ultimately show "struct_body time_delta_view (time_delta_fields rops) = (\<lambda>s. time_body (tdp_secs s) (tdp_nanos s))"
    "struct_valid time_delta_view (time_delta_fields rops) = (\<lambda>_. True)"
    "struct_depth time_delta_view (time_delta_fields rops) = (\<lambda>_. 0)"
    using struct_depth_le [of time_delta_view "time_delta_fields rops" _ 0] by (auto simp: struct_valid_def)
qed

section \<open>Properties\<close>

text \<open>
  C7. A tuple is encoded as the message derived for a struct with its elements as the fields 0, 1, \<open>\<dots>\<close>: the same
  bytes, appended or prepended, the same length though the tuple measures with the trivial measurer, and the same
  inputs decode, to the same values.
\<close>

theorem tuple_as_derived:
  fixes init :: 's and es :: "('s, 'r) tuple_element list"
  assumes t: "tuple_message rops rcontents rinv init es w" and s: "struct_valid w (map fst es) s"
  shows "c_encode (tuple_codec rops init es) s buf =
      message_encode_value (derive_message rops init (map fst es)) s buf \<and>
    c_len (tuple_codec rops init es) s = message_value_encoded_len (derive_message rops init (map fst es)) s \<and>
    (rinv r \<longrightarrow> (\<exists>r1 r2. c_prepend (tuple_codec rops init es) s r = Some r1 \<and>
      message_prepend_value rops (derive_message rops init (map fst es)) s r = Some r2 \<and> rcontents r1 = rcontents r2)) \<and>
    (c_decode (tuple_codec rops init es) s0 cp ctx = Done res \<longleftrightarrow>
      message_decode_value (derive_message rops init (map fst es)) s0 cp ctx = Done res)"
proof -
  note u = tuple_message.axioms(1) [OF t]
  note tl = tuple_message.tuple_codec_laws [OF t]
  note d = message_contract.message_codec_laws [OF derived_message.derived_message_laws [OF underived_message.axioms(1) [OF u]]]
  have "c_encode (tuple_codec rops init es) s buf = message_encode_value (derive_message rops init (map fst es)) s buf"
    using value_codec.encode [OF tl s] value_codec.encode [OF d s] by (simp add: message_codec_def)
  moreover have "c_len (tuple_codec rops init es) s = message_value_encoded_len (derive_message rops init (map fst es)) s"
    using value_codec.len [OF tl s] value_codec.len [OF d s] by (simp add: message_codec_def)
  moreover have "\<exists>r1 r2. c_prepend (tuple_codec rops init es) s r = Some r1 \<and>
      message_prepend_value rops (derive_message rops init (map fst es)) s r = Some r2 \<and> rcontents r1 = rcontents r2" if "rinv r"
    using value_codec.prepend [OF tl s that] value_codec.prepend [OF d s that] by (auto simp: message_codec_def)
  moreover have "c_decode (tuple_codec rops init es) s0 cp ctx = Done res \<longleftrightarrow>
      message_decode_value (derive_message rops init (map fst es)) s0 cp ctx = Done res"
    using underived_message.underived_decode_Done [OF u] by (simp add: tuple_codec_def)
  ultimately show ?thesis by blast
qed

theorem tuple_as_derived_witness:
  "c_encode (tuple_codec (rb_rev_ops True) (0, None) (id_and_blob (rb_rev_ops True))) (300, Some [7]) [] =
    message_encode_value (derive_message (rb_rev_ops True) (0, None) (map fst (id_and_blob (rb_rev_ops True)))) (300, Some [7]) []"
proof -
  have "length (varint_bytes 300) < 2 ^ 32" using length_varint_bytes(2) [of 300] by simp
  then have "struct_valid (id_and_blob_view (rb_rev_ops True)) (map fst (id_and_blob (rb_rev_ops True))) (300, Some [7])"
    by (simp add: struct_valid_def struct_body_def struct_parts_def present_def field_run_def id_and_blob_def pair_elements_def
        pair_view_def two_views_def value_view_def one_part_def option_parts_def default_empty_state_def option_empty_state_def
        delimited_def varint_bytes_small key_of_def varint_u32_def varint_codec_def plain_vec_u8_def plain_bytes_codec_def)
  from tuple_as_derived [OF id_and_blob.tuple_message_axioms this] show ?thesis by blast
qed

text \<open>
  C6. Distinguished decoding of a message written out by hand is exact: it reports a value as canonical just when
  the input starts with the bytes the value is encoded to, whatever follows them.
\<close>

theorem underived_exact:
  fixes init :: 's and fs :: "('s, 'r) message_field list"
  assumes d: "distinguished_underived_message rops rcontents rinv init fs w"
    and n: "length input < 2 ^ 64" and s: "Suc (struct_depth w fs s) \<le> unat (recurse_count (into_inner ctx))"
  shows "(\<exists>rest. underived_decode_distinguished fs True init \<lparr>cap_buf = input, cap_extra = 0\<rparr> ctx =
      Done (s, Canonical, \<lparr>cap_buf = rest, cap_extra = 0\<rparr>)) \<longleftrightarrow>
    struct_valid w fs s \<and> (\<exists>bs rest. underived_encode fs s [] = Some bs \<and> input = bs @ rest)"
proof (intro iffI conjI)
  note u = distinguished_underived_message.axioms(1) [OF d]
  assume "\<exists>rest. underived_decode_distinguished fs True init \<lparr>cap_buf = input, cap_extra = 0\<rparr> ctx =
      Done (s, Canonical, \<lparr>cap_buf = rest, cap_extra = 0\<rparr>)"
  then obtain rest where "underived_decode_distinguished fs True init \<lparr>cap_buf = input, cap_extra = 0\<rparr> ctx =
      Done (s, Canonical, \<lparr>cap_buf = rest, cap_extra = 0\<rparr>)" by blast
  from distinguished_underived_message.underived_dist_canonical [OF d this] n
  have c: "input = delimited (struct_body w fs s) @ rest" "struct_valid w fs s" by simp_all
  show "struct_valid w fs s" by (rule c)
  show "\<exists>bs rest. underived_encode fs s [] = Some bs \<and> input = bs @ rest"
    using underived_message.underived_encode_eq [OF u c(2), of "[]"] c(1) by auto
next
  note u = distinguished_underived_message.axioms(1) [OF d]
  assume a: "struct_valid w fs s \<and> (\<exists>bs rest. underived_encode fs s [] = Some bs \<and> input = bs @ rest)"
  then obtain rest where "input = delimited (struct_body w fs s) @ rest"
    using underived_message.underived_encode_eq [OF u, of s "[]"] by auto
  then show "\<exists>rest. underived_decode_distinguished fs True init \<lparr>cap_buf = input, cap_extra = 0\<rparr> ctx =
      Done (s, Canonical, \<lparr>cap_buf = rest, cap_extra = 0\<rparr>)"
    using distinguished_underived_message.underived_dist_complete [OF d _ s, of 0 rest True] a by auto
qed

theorem underived_exact_witness:
  "(\<exists>rest. underived_decode_distinguished (time_delta_fields (rb_rev_ops True)) True \<lparr>tdp_secs = 0, tdp_nanos = 0\<rparr>
      \<lparr>cap_buf = [2, 4, 2, 9], cap_extra = 0\<rparr> (restricted_new NotCanonical) =
      Done (\<lparr>tdp_secs = 1, tdp_nanos = 0\<rparr>, Canonical, \<lparr>cap_buf = rest, cap_extra = 0\<rparr>)) \<longleftrightarrow>
    (\<exists>bs rest. underived_encode (time_delta_fields (rb_rev_ops True)) \<lparr>tdp_secs = 1, tdp_nanos = 0\<rparr> [] = Some bs \<and>
      [2, 4, 2, 9] = bs @ rest)"
  using underived_exact [OF time_delta.distinguished_underived_message_axioms, of "[2, 4, 2, 9]", where s = "\<lparr>tdp_secs = 1, tdp_nanos = 0\<rparr>" and ctx = "restricted_new NotCanonical"]
  by (simp add: time_delta_valid restricted_new_def into_inner_def context_default_def RECURSION_LIMIT_def)

text \<open>
  C28. At the recursion limit the modes part: a nested tuple that is empty, in distinguished mode where a
  nonempty one is expected, is accepted as not canonical, while relaxed decoding of the same bytes fails; a
  derived message fails in both modes.
\<close>

theorem empty_tuple_at_limit:
  assumes z: "recurse_count (into_inner ctx) = 0" and m: "rc_min_canonicity ctx = NotCanonical" and x: "x \<le> length rest"
  shows "c_decode_dist (tuple_codec rops init es) False s \<lparr>cap_buf = 0 # rest, cap_extra = x\<rparr> ctx =
      Done (s, NotCanonical, \<lparr>cap_buf = rest, cap_extra = x\<rparr>) \<and>
    c_decode (tuple_codec rops init es) s \<lparr>cap_buf = 0 # rest, cap_extra = x\<rparr> (into_inner ctx) = Fail RecursionLimitReached \<and>
    message_decode_value_distinguished msg False s \<lparr>cap_buf = 0 # rest, cap_extra = x\<rparr> ctx = Fail RecursionLimitReached"
proof -
  have take_0: "take_length_delimited slice_ops \<lparr>cap_buf = 0 # rest, cap_extra = x\<rparr> = Done \<lparr>cap_buf = rest, cap_extra = length rest\<rparr>"
    using x by (simp add: varint_bytes_small)
  show ?thesis
    using z m
    by (simp add: tuple_codec_def underived_decode_distinguished_def underived_decode_def message_decode_value_distinguished_def
        take_0 limit_reached_def restricted_limit_reached_def into_inner_def check_def del: take_length_delimited_Done)
qed

theorem empty_tuple_at_limit_witness:
  "c_decode_dist (tuple_codec (rb_rev_ops True) (0, None) (id_and_blob (rb_rev_ops True))) False (0, None)
      \<lparr>cap_buf = [0, 5], cap_extra = 1\<rparr> \<lparr>rc_context = \<lparr>recurse_count = 0\<rparr>, rc_min_canonicity = NotCanonical\<rparr> =
    Done ((0, None), NotCanonical, \<lparr>cap_buf = [5], cap_extra = 1\<rparr>)"
  by (rule empty_tuple_at_limit [THEN conjunct1]) (simp_all add: into_inner_def)

text \<open>
  C25. An inclusive range, exhausted or not, is encoded by its bounds alone, and decoding restores the bounds as a
  range that is not exhausted: for an exhausted range the round trip ends in another value, and distinguished
  decoding reports that value as canonical.
\<close>

theorem range_inclusive_round_trip:
  assumes c1: "distinguished_field_contract rops rcontents rinv fc1 es1 parts1 valid1 depth1"
    and c2: "distinguished_field_contract rops rcontents rinv fc2 es2 parts2 valid2 depth2"
    and v: "struct_valid (pair_view parts1 valid1 depth1 parts2 valid2 depth2) (bound_fields fc1 es1 fc2 es2) (ri_into_inner v)"
    and d: "Suc (struct_depth (pair_view parts1 valid1 depth1 parts2 valid2 depth2) (bound_fields fc1 es1 fc2 es2) (ri_into_inner v)) \<le>
      unat (recurse_count (into_inner ctx))"
  shows "\<exists>bs. c_encode (range_inclusive_codec rops fc1 es1 fc2 es2) v [] = Some bs \<and>
    c_encode (range_inclusive_codec rops fc1 es1 fc2 es2) (v\<lparr>ri_exhausted := False\<rparr>) [] = Some bs \<and>
    c_decode (range_inclusive_codec rops fc1 es1 fc2 es2) (c_for_overwrite (range_inclusive_codec rops fc1 es1 fc2 es2))
      \<lparr>cap_buf = bs, cap_extra = 0\<rparr> (into_inner ctx) = Done (v\<lparr>ri_exhausted := False\<rparr>, \<lparr>cap_buf = [], cap_extra = 0\<rparr>) \<and>
    c_decode_dist (range_inclusive_codec rops fc1 es1 fc2 es2) True (c_for_overwrite (range_inclusive_codec rops fc1 es1 fc2 es2))
      \<lparr>cap_buf = bs, cap_extra = 0\<rparr> ctx = Done (v\<lparr>ri_exhausted := False\<rparr>, Canonical, \<lparr>cap_buf = [], cap_extra = 0\<rparr>)"
proof -
  let ?fs = "bound_fields fc1 es1 fc2 es2" and ?w = "pair_view parts1 valid1 depth1 parts2 valid2 depth2"
  let ?bs = "delimited (struct_body ?w ?fs (ri_into_inner v))"
  note m = bound_distinguished_laws [OF c1 c2]
  note u = distinguished_underived_message.axioms(1) [OF m]
  have e: "underived_encode ?fs (ri_into_inner v) [] = Some ?bs"
    using underived_message.underived_encode_eq [OF u v, of "[]"] by simp
  have dd: "underived_decode_distinguished ?fs True (es_empty es1, es_empty es2) \<lparr>cap_buf = ?bs, cap_extra = 0\<rparr> ctx =
      Done (ri_into_inner v, Canonical, \<lparr>cap_buf = [], cap_extra = 0\<rparr>)"
    using distinguished_underived_message.underived_dist_complete [OF m v d, of 0 "[]" True] by simp
  have dr: "underived_decode ?fs (es_empty es1, es_empty es2) \<lparr>cap_buf = ?bs, cap_extra = 0\<rparr> (into_inner ctx) =
      Done (ri_into_inner v, \<lparr>cap_buf = [], cap_extra = 0\<rparr>)"
    using value_codec.decode [OF underived_message.underived_codec_laws [OF u] v d, of 0 "[]"] by (simp add: underived_codec_def)
  show ?thesis
    using e dd dr
    by (cases v) (simp add: range_inclusive_codec_def range_inclusive_decode_def range_inclusive_decode_distinguished_def
        ri_into_inner_def ri_new_def Let_def)
qed

theorem range_inclusive_round_trip_witness:
  "\<exists>bs. c_encode (range_inclusive_codec (rb_rev_ops True) (u32_field (rb_rev_ops True)) (default_empty_state 0)
      (u32_field (rb_rev_ops True)) (default_empty_state 0)) \<lparr>ri_start = 3, ri_end = 3, ri_exhausted = True\<rparr> [] = Some bs \<and>
    c_decode (range_inclusive_codec (rb_rev_ops True) (u32_field (rb_rev_ops True)) (default_empty_state 0)
      (u32_field (rb_rev_ops True)) (default_empty_state 0)) \<lparr>ri_start = 0, ri_end = 0, ri_exhausted = False\<rparr>
      \<lparr>cap_buf = bs, cap_extra = 0\<rparr> context_default =
    Done (\<lparr>ri_start = 3, ri_end = 3, ri_exhausted = False\<rparr>, \<lparr>cap_buf = [], cap_extra = 0\<rparr>)"
proof -
  note l = rev_buf_contract.u32_field_laws [OF rb_rev.rev_buf_contract_axioms [of True]]
  show ?thesis
    using range_inclusive_round_trip [OF l l, of "\<lparr>ri_start = 3, ri_end = 3, ri_exhausted = True\<rparr>" "restricted_new Canonical"]
    by (auto simp: struct_valid_def struct_body_def struct_parts_def present_def field_run_def bound_fields_def
        pair_view_def two_views_def value_view_def one_part_def default_empty_state_def struct_depth_def
        varint_bytes_small key_of_def varint_u32_def varint_codec_def ri_into_inner_def range_inclusive_codec_def ri_new_def
        restricted_new_def into_inner_def context_default_def RECURSION_LIMIT_def Let_def)
qed

text \<open>
  C29. The proxy of a time delta is encoded as the \<^verbatim>\<open>bilrost_types::Duration\<close> of the same seconds and nanoseconds.
  Relaxed decoding refuses it when the signs of the two differ; distinguished decoding takes it, as canonical.
\<close>

theorem time_delta_signs:
  fixes p :: time_delta_proxy and buf rest :: bytes
  shows "\<exists>bs. c_encode (time_delta_codec (rb_rev_ops sco)) p buf = Some (buf @ bs) \<and>
    message_encode_value (duration_message (rb_rev_ops sco)) \<lparr>dur_seconds = tdp_secs p, dur_nanos = tdp_nanos p\<rparr> buf = Some (buf @ bs) \<and>
    c_decode (time_delta_codec (rb_rev_ops sco)) \<lparr>tdp_secs = 0, tdp_nanos = 0\<rparr> \<lparr>cap_buf = bs @ rest, cap_extra = 0\<rparr> context_default =
      (if sint (tdp_secs p) < 0 \<and> 0 < sint (tdp_nanos p) \<or> 0 < sint (tdp_secs p) \<and> sint (tdp_nanos p) < 0
       then Fail InvalidValue else Done (p, \<lparr>cap_buf = rest, cap_extra = 0\<rparr>)) \<and>
    c_decode_dist (time_delta_codec (rb_rev_ops sco)) True \<lparr>tdp_secs = 0, tdp_nanos = 0\<rparr> \<lparr>cap_buf = bs @ rest, cap_extra = 0\<rparr>
      (restricted_new Canonical) = Done (p, Canonical, \<lparr>cap_buf = rest, cap_extra = 0\<rparr>)"
proof -
  let ?bs = "delimited (time_body (tdp_secs p) (tdp_nanos p))"
  have signs: "signum (tdp_secs p) * signum (tdp_nanos p) = -1 \<longleftrightarrow>
      sint (tdp_secs p) < 0 \<and> 0 < sint (tdp_nanos p) \<or> 0 < sint (tdp_secs p) \<and> sint (tdp_nanos p) < 0"
    by (auto simp: signum_def sgn_if)
  have "c_encode (time_delta_codec (rb_rev_ops sco)) p buf = Some (buf @ ?bs)"
    using time_delta.underived_encode_eq [where s = p and buf = buf] by (simp add: time_delta_codec_def underived_codec_def time_delta_valid)
  moreover have "message_encode_value (duration_message (rb_rev_ops sco)) \<lparr>dur_seconds = tdp_secs p, dur_nanos = tdp_nanos p\<rparr> buf =
      Some (buf @ ?bs)"
    using value_codec.encode [OF duration_msg.message_codec_laws, where v = "\<lparr>dur_seconds = tdp_secs p, dur_nanos = tdp_nanos p\<rparr>" and buf = buf]
    by (simp add: message_codec_def)
  moreover have "underived_decode (time_delta_fields (rb_rev_ops sco)) \<lparr>tdp_secs = 0, tdp_nanos = 0\<rparr>
      \<lparr>cap_buf = ?bs @ rest, cap_extra = 0\<rparr> context_default = Done (p, \<lparr>cap_buf = rest, cap_extra = 0\<rparr>)"
    using value_codec.decode [OF time_delta.underived_codec_laws, where v = p and ctx = context_default and x = 0 and rest = rest]
    by (simp add: underived_codec_def time_delta_valid context_default_def RECURSION_LIMIT_def)
  moreover have "underived_decode_distinguished (time_delta_fields (rb_rev_ops sco)) True \<lparr>tdp_secs = 0, tdp_nanos = 0\<rparr>
      \<lparr>cap_buf = ?bs @ rest, cap_extra = 0\<rparr> (restricted_new Canonical) = Done (p, Canonical, \<lparr>cap_buf = rest, cap_extra = 0\<rparr>)"
    using time_delta.underived_dist_complete [where s = p and ctx = "restricted_new Canonical" and x = 0 and rest = rest and allow = True]
    by (simp add: time_delta_valid restricted_new_def into_inner_def context_default_def RECURSION_LIMIT_def)
  ultimately show ?thesis
    by (intro exI [of _ ?bs]) (simp add: time_delta_codec_def underived_codec_def time_delta_decode_def signs)
qed

end
