(* ===== verification/Delta_Laws.thy ===== *)
theory Delta_Laws
  imports Zone_Types Tuple_Properties
begin

text \<open>
  The laws of the codecs of \<open>Zone_Types\<close>: of the proxy of a time delta, whose relaxed decoding checks the signs, of
  the conversions of both crates to it, and of any type with a message written out by hand as its proxy. At the
  recursion limit the modes of these messages part, so their codecs do not have all the laws of
  \<open>distinguished_codec\<close>; what distinguished decoding reports as canonical is exact all the same.
\<close>

section \<open>The codec of the proxy of a time delta\<close>

definition delta_signs_agree :: "time_delta_proxy \<Rightarrow> bool" where
  "delta_signs_agree p \<longleftrightarrow> signum (tdp_secs p) * signum (tdp_nanos p) \<noteq> -1"

lemma time_delta_codec_laws:
  assumes r: "rev_buf_contract rops rcontents rinv"
  shows "value_codec rops rcontents rinv (time_delta_codec rops) (\<lambda>p. delimited (time_body (tdp_secs p) (tdp_nanos p)))
    delta_signs_agree (\<lambda>_. Suc 0)"
proof -
  note u = underived_message.underived_codec_laws [OF distinguished_underived_message.axioms(1) [OF time_delta_laws [OF r]],
    unfolded time_delta_valid]
  show ?thesis
  proof (intro value_codec.intro value_codec_axioms.intro r)
    fix v v0 b n x cp cp' ctx and buf rest :: bytes and vs
    show "c_decode (time_delta_codec rops) v0 cp ctx \<noteq> Panic"
      using value_codec.decode_no_panic [OF u] by (auto simp: time_delta_codec_def underived_codec_def time_delta_decode_def obind_Panic_iff)
    show "c_decode (time_delta_codec rops) v0 cp ctx = Done (v, cp') \<Longrightarrow>
        cap_extra cp' = cap_extra cp \<and> (\<exists>p. p \<noteq> [] \<and> cap_buf cp = p @ cap_buf cp')"
      using value_codec.decode_frame [OF u, where cp = cp and ctx = ctx and cp' = cp']
      by (auto simp: time_delta_codec_def underived_codec_def time_delta_decode_def split: if_splits)
    show "\<forall>v \<in> set vs. delta_signs_agree v \<Longrightarrow>
        c_many_len (time_delta_codec rops) vs = sum_list (map (\<lambda>p. length (delimited (time_body (tdp_secs p) (tdp_nanos p)))) vs)"
      using value_codec.many_len [OF u, of vs] by (simp add: time_delta_codec_def)
    show "c_encode (time_delta_codec rops) v buf = Some (buf @ delimited (time_body (tdp_secs v) (tdp_nanos v)))"
      "c_len (time_delta_codec rops) v = length (delimited (time_body (tdp_secs v) (tdp_nanos v)))"
      "delimited (time_body (tdp_secs v) (tdp_nanos v)) \<noteq> []"
      using value_codec.encode [OF u] value_codec.len [OF u] by (simp_all add: time_delta_codec_def)
    show "rinv b \<Longrightarrow> \<exists>r'. c_prepend (time_delta_codec rops) v b = Some r' \<and> rinv r' \<and>
        rcontents r' = delimited (time_body (tdp_secs v) (tdp_nanos v)) @ rcontents b"
      using value_codec.prepend [OF u] by (simp add: time_delta_codec_def)
    show "fixed_size (c_wire (time_delta_codec rops)) = Some n \<Longrightarrow> length (delimited (time_body (tdp_secs v) (tdp_nanos v))) = n"
      by (simp add: time_delta_codec_def underived_codec_def)
    show "delta_signs_agree v \<Longrightarrow> Suc 0 \<le> unat (recurse_count ctx) \<Longrightarrow> x \<le> length rest \<Longrightarrow>
        c_decode (time_delta_codec rops) (c_for_overwrite (time_delta_codec rops))
          \<lparr>cap_buf = delimited (time_body (tdp_secs v) (tdp_nanos v)) @ rest, cap_extra = x\<rparr> ctx =
        Done (v, \<lparr>cap_buf = rest, cap_extra = x\<rparr>)"
      using value_codec.decode [OF u, where v = v and ctx = ctx and x = x and rest = rest]
      by (simp add: time_delta_codec_def underived_codec_def time_delta_decode_def delta_signs_agree_def)
  qed
qed

section \<open>The conversions to the proxy\<close>

lemma same_sign_agree: "same_sign_nanos (sint (tdp_secs p)) (sint (tdp_nanos p)) \<Longrightarrow> delta_signs_agree p"
  by (auto simp: same_sign_nanos_def delta_signs_agree_def signum_def sgn_if)

lemma signed_duration_laws:
  assumes C: "signed_duration_documented C"
  shows "distinguished_proxy_contract (plain_proxy (signed_duration_encode_proxy C) (signed_duration_decode_proxy C))
    (signed_duration_valid C) (\<lambda>_. True)"
proof (rule plain_proxy_laws)
  fix v p
  have decode: "signed_duration_decode_proxy C p =
      (if same_sign_nanos (sint (tdp_secs p)) (sint (tdp_nanos p)) then Done (sd_new C (tdp_secs p) (tdp_nanos p)) else Fail InvalidValue)" for p
    unfolding signed_duration_decode_proxy_def same_sign_nanos_def Let_def by (rule if_cong) auto
  show "signed_duration_valid C v \<Longrightarrow> True \<and> signed_duration_decode_proxy C (signed_duration_encode_proxy C v) = Done v"
    by (simp add: decode signed_duration_encode_proxy_def signed_duration_valid_def)
  show "signed_duration_decode_proxy C p \<noteq> Panic" by (simp add: decode)
  assume d: "signed_duration_decode_proxy C p = Done v"
  then have "same_sign_nanos (sint (tdp_secs p)) (sint (tdp_nanos p))" "v = sd_new C (tdp_secs p) (tdp_nanos p)"
    by (simp_all add: decode split: if_splits)
  then show "signed_duration_encode_proxy C v = p \<and> signed_duration_valid C v"
    using C unfolding signed_duration_documented_def by (simp add: signed_duration_encode_proxy_def signed_duration_valid_def)
qed

text \<open>Seconds and nanoseconds of one sign are determined by the total.\<close>

lemma same_sign_unique:
  assumes "same_sign_nanos s n" "same_sign_nanos s' n'" "s * 1000000000 + n = s' * 1000000000 + n'"
  shows "s = s' \<and> n = n'"
proof -
  have "s = s'" using assms unfolding same_sign_nanos_def by (elim conjE disjE; linarith)
  then show ?thesis using assms(3) by simp
qed

lemma floor_unique:
  fixes s n s' n' :: int
  assumes "0 \<le> n" "n < 1000000000" "0 \<le> n'" "n' < 1000000000" "s * 1000000000 + n = s' * 1000000000 + n'"
  shows "s = s' \<and> n = n'"
proof -
  have "s = s'" using assms by linarith
  then show ?thesis using assms(5) by simp
qed

text \<open>The seconds and nanoseconds the crate is handed for a proxy.\<close>

definition delta_negative :: "time_delta_proxy \<Rightarrow> bool" where
  "delta_negative p \<longleftrightarrow> - 9223372036854775807 \<le> sint (tdp_secs p) \<and> sint (tdp_secs p) \<le> 0 \<and>
     - 999999999 \<le> sint (tdp_nanos p) \<and> sint (tdp_nanos p) \<le> - 1"

definition delta_direct :: "time_delta_proxy \<Rightarrow> bool" where
  "delta_direct p \<longleftrightarrow> tdp_nanos p = 0 \<or> 0 \<le> sint (tdp_secs p) \<and> 0 \<le> sint (tdp_nanos p) \<and> sint (tdp_nanos p) \<le> 999999999"

definition delta_floor :: "time_delta_proxy \<Rightarrow> (u64 \<times> u32) option" where
  "delta_floor p =
    (if delta_negative p then Some (tdp_secs p - 1, tdp_nanos p + 1000000000)
     else if delta_direct p then Some (tdp_secs p, tdp_nanos p) else None)"

lemma time_delta_decode_floor:
  "time_delta_decode_proxy C p =
    (case delta_floor p of Some (s, n) \<Rightarrow> ok_or (td_new C s n) OutOfDomainValue | None \<Rightarrow> Fail InvalidValue)"
  unfolding time_delta_decode_proxy_def Let_def delta_negative_def [symmetric] delta_direct_def [symmetric] delta_floor_def
  by (cases "delta_negative p"; cases "delta_direct p") simp_all

lemma time_delta_decode_Done:
  "time_delta_decode_proxy C p = Done d \<longleftrightarrow> (\<exists>s n. delta_floor p = Some (s, n) \<and> td_new C s n = Some d)"
  "time_delta_decode_proxy C p \<noteq> Panic"
  by (auto simp: time_delta_decode_floor split: option.splits)

lemma sint_inj:
  assumes "sint a = sint b"
  shows "a = b"
proof -
  have "word_of_int (sint a) = a" "word_of_int (sint b) = b" by simp_all
  then show ?thesis using assms by metis
qed

lemma sint_minus_1: "- 9223372036854775807 \<le> sint (w :: u64) \<Longrightarrow> sint (w - 1) = sint w - 1"
proof -
  assume a: "- 9223372036854775807 \<le> sint w"
  have "w - 1 = word_of_int (sint w - 1)" by (simp add: wi_hom_sub [symmetric])
  moreover have "i64_range (sint w - 1)" using a sint_i64_range [of w] by (simp add: i64_range_def)
  ultimately show ?thesis using sint_of_int_i64 by metis
qed

lemma unat_of_int: "0 \<le> x \<Longrightarrow> x < 4294967296 \<Longrightarrow> int (unat (word_of_int x :: u32)) = x"
  by (simp add: uint_word_of_int)

lemma unat_carry: "- 999999999 \<le> sint (w :: u32) \<Longrightarrow> sint w \<le> - 1 \<Longrightarrow> int (unat (w + 1000000000)) = sint w + 1000000000"
proof -
  assume a: "- 999999999 \<le> sint w" "sint w \<le> - 1"
  have "w + 1000000000 = word_of_int (sint w + 1000000000)" by (simp add: wi_hom_add [symmetric])
  then show ?thesis using unat_of_int [of "sint w + 1000000000"] a by presburger
qed

lemma unat_sint: "0 \<le> sint (w :: u32) \<Longrightarrow> int (unat w) = sint w"
proof -
  assume "0 \<le> sint w"
  moreover have "sint w < 4294967296" using sint_i32_range(2) [of w] by linarith
  moreover have "(word_of_int (sint w) :: u32) = w" by simp
  ultimately show ?thesis using unat_of_int [of "sint w"] by metis
qed

lemma delta_floor_total:
  assumes "delta_floor p = Some (s, n)"
  shows "same_sign_nanos (sint (tdp_secs p)) (sint (tdp_nanos p)) \<and> unat n < 1000000000 \<and>
    sint (tdp_secs p) * 1000000000 + sint (tdp_nanos p) = sint s * 1000000000 + int (unat n)"
proof -
  let ?s = "tdp_secs p" and ?n = "tdp_nanos p"
  show ?thesis
  proof (cases "delta_negative p")
    case True
    then have neg: "- 9223372036854775807 \<le> sint ?s" "sint ?s \<le> 0" "- 999999999 \<le> sint ?n" "sint ?n \<le> - 1"
      "s = ?s - 1" "n = ?n + 1000000000" using assms by (simp_all add: delta_floor_def delta_negative_def)
    note c = unat_carry [OF neg(3,4)] sint_minus_1 [OF neg(1)]
    have "same_sign_nanos (sint ?s) (sint ?n)" unfolding same_sign_nanos_def using neg(2-4) by linarith
    moreover have "unat n < 1000000000" using c(1) neg(4) unfolding neg(6) by linarith
    moreover have "sint ?s * 1000000000 + sint ?n = sint s * 1000000000 + int (unat n)"
      unfolding neg(5,6) c by (simp add: algebra_simps)
    ultimately show ?thesis by blast
  next
    case False
    then have "delta_direct p" "s = ?s" "n = ?n" using assms by (simp_all add: delta_floor_def split: if_splits)
    then have pos: "?n = 0 \<or> 0 \<le> sint ?s" "0 \<le> sint ?n" "sint ?n \<le> 999999999" "s = ?s" "n = ?n"
      by (auto simp: delta_direct_def)
    note c = unat_sint [OF pos(2)]
    have "same_sign_nanos (sint ?s) (sint ?n)"
      using pos(1-3) by (auto simp: same_sign_nanos_def)
    moreover have "unat n < 1000000000" using c pos(3) unfolding pos(5) by linarith
    moreover have "sint ?s * 1000000000 + sint ?n = sint s * 1000000000 + int (unat n)" unfolding pos(4,5) c ..
    ultimately show ?thesis by blast
  qed
qed

text \<open>Every proxy with one sign and few enough nanoseconds has a floor, unless the seconds are the least there are.\<close>

lemma delta_floor_ex:
  assumes "same_sign_nanos (sint (tdp_secs p)) (sint (tdp_nanos p))"
    and "sint (tdp_secs p) * 1000000000 + sint (tdp_nanos p) = sint s * 1000000000 + int (unat n)" and "unat n < 1000000000"
  shows "delta_floor p = Some (s, n)"
proof -
  have least: "- 9223372036854775808 \<le> sint s" using sint_i64_range [of s] by (simp add: i64_range_def)
  have "delta_negative p \<or> delta_direct p"
  proof (cases "sint (tdp_nanos p) < 0")
    case True
    then have "delta_negative p"
      unfolding delta_negative_def using assms least unfolding same_sign_nanos_def by (intro conjI; linarith)
    then show ?thesis ..
  next
    case False
    have "tdp_nanos p = 0 \<or> 0 < sint (tdp_nanos p)" using False sint_inj [of "tdp_nanos p" 0] by auto
    then have "delta_direct p" using assms(1) unfolding delta_direct_def same_sign_nanos_def by auto
    then show ?thesis ..
  qed
  then obtain s' n' where f: "delta_floor p = Some (s', n')" unfolding delta_floor_def by (cases "delta_negative p") auto
  have t: "unat n' < 1000000000" "sint s * 1000000000 + int (unat n) = sint s' * 1000000000 + int (unat n')"
    using delta_floor_total [OF f] assms(2) by auto
  have "sint s = sint s' \<and> int (unat n) = int (unat n')"
    by (rule floor_unique) (use t assms(3) in linarith)+
  then have "s = s' \<and> n = n'" using sint_inj [of s s'] by (simp only: of_nat_eq_iff word_unat_eq_iff)
  then show ?thesis using f by simp
qed

lemma chrono_delta_laws:
  assumes C: "time_delta_documented C"
  shows "distinguished_proxy_contract (plain_proxy (time_delta_encode_proxy C) (time_delta_decode_proxy C)) (chrono_delta_valid C) (\<lambda>_. True)"
proof (rule plain_proxy_laws)
  fix v p
  have total: "unat n < 1000000000 \<and> same_sign_nanos (sint (td_num_seconds C v)) (sint (td_subsec_nanos C v)) \<and>
      sint (td_num_seconds C v) * 1000000000 + sint (td_subsec_nanos C v) = sint s * 1000000000 + int (unat n)"
    if "td_new C s n = Some v" for s n v
    using C that unfolding time_delta_documented_def by blast
  show "True \<and> time_delta_decode_proxy C (time_delta_encode_proxy C v) = Done v" if valid: "chrono_delta_valid C v"
  proof -
    obtain s n where v: "td_new C s n = Some v" using valid unfolding chrono_delta_valid_def by blast
    have "delta_floor (time_delta_encode_proxy C v) = Some (s, n)"
      using total [OF v] by (intro delta_floor_ex) (simp_all add: time_delta_encode_proxy_def)
    then show ?thesis using v by (simp add: time_delta_decode_Done)
  qed
  show "time_delta_decode_proxy C p \<noteq> Panic" by (rule time_delta_decode_Done)
  assume "time_delta_decode_proxy C p = Done v"
  then obtain s n where f: "delta_floor p = Some (s, n)" "td_new C s n = Some v" by (auto simp: time_delta_decode_Done)
  have "sint (td_num_seconds C v) = sint (tdp_secs p) \<and> sint (td_subsec_nanos C v) = sint (tdp_nanos p)"
    by (rule same_sign_unique [of _ _ "sint (tdp_secs p)" "sint (tdp_nanos p)"]) (use delta_floor_total [OF f(1)] total [OF f(2)] in simp_all)
  then show "time_delta_encode_proxy C v = p \<and> chrono_delta_valid C v"
    using f(2) sint_inj [of "td_num_seconds C v" "tdp_secs p"] sint_inj [of "td_subsec_nanos C v" "tdp_nanos p"]
    by (cases p) (auto simp: time_delta_encode_proxy_def chrono_delta_valid_def)
qed

section \<open>Proxies that are messages\<close>

lemma proxied_underived_exact:
  assumes d: "distinguished_underived_message rops rcontents rinv init fs w"
    and c: "c_for_overwrite c = init" "c_decode_dist c = underived_decode_distinguished fs"
    and p: "distinguished_proxy_contract px vvalid pvalid" "\<And>q. struct_valid w fs q \<Longrightarrow> pvalid q"
      "vvalid v \<Longrightarrow> struct_valid w fs (px_encode px v)"
    and n: "length input < 2 ^ 64" and s: "Suc (struct_depth w fs (px_encode px v)) \<le> unat (recurse_count (into_inner ctx))"
  shows "(\<exists>rest. c_decode_dist (proxied_codec c px d0) True v0 \<lparr>cap_buf = input, cap_extra = 0\<rparr> ctx =
      Done (v, Canonical, \<lparr>cap_buf = rest, cap_extra = 0\<rparr>)) \<longleftrightarrow>
    vvalid v \<and> (\<exists>rest. input = delimited (struct_body w fs (px_encode px v)) @ rest)" (is "?l \<longleftrightarrow> ?r")
proof
  assume ?l
  then obtain rest q k1 k2 where q: "underived_decode_distinguished fs True init \<lparr>cap_buf = input, cap_extra = 0\<rparr> ctx =
      Done (q, k1, \<lparr>cap_buf = rest, cap_extra = 0\<rparr>)" "px_decode_dist px v0 q = Done (v, k2)" "min k1 k2 = Canonical"
    by (auto simp: proxied_codec_def proxied_decode_value_distinguished_def c canonicity_update_def)
  then have k: "k1 = Canonical" "k2 = Canonical" by simp_all
  have b: "input = delimited (struct_body w fs q) @ rest" "struct_valid w fs q"
    using distinguished_underived_message.underived_dist_canonical [OF d q(1) [unfolded k]] n by simp_all
  have "px_encode px v = q \<and> vvalid v"
    using distinguished_proxy_contract.dist_canonical [OF p(1) p(2) [OF b(2)]] q(2) k by simp
  then show ?r using b(1) by blast
next
  assume r: ?r
  then obtain rest where i: "input = delimited (struct_body w fs (px_encode px v)) @ rest" and v: "vvalid v" by blast
  have "underived_decode_distinguished fs True init \<lparr>cap_buf = input, cap_extra = 0\<rparr> ctx =
      Done (px_encode px v, Canonical, \<lparr>cap_buf = rest, cap_extra = 0\<rparr>)"
    unfolding i by (rule distinguished_underived_message.underived_dist_complete [OF d p(3) [OF v] s]) simp_all
  then show ?l
    using distinguished_proxy_contract.dist_complete [OF p(1) v]
    by (simp add: proxied_codec_def proxied_decode_value_distinguished_def c canonicity_update_def check_def split: canonicity.split)
qed

text \<open>The triple of hours, minutes and seconds.\<close>

abbreviation i8_parts :: "'r rev_ops \<Rightarrow> u8 \<Rightarrow> value_part list" where
  "i8_parts rops \<equiv> one_part (varint_i8 rops) (\<lambda>v. varint_bytes (ucast (zigzag v))) (default_empty_state 0)"

abbreviation hms_view :: "'r rev_ops \<Rightarrow> (u8 \<times> u8 \<times> u8, 'r) message_field \<Rightarrow> (u8 \<times> u8 \<times> u8) field_view" where
  "hms_view rops \<equiv> triple_view (i8_parts rops) (\<lambda>_. True) (\<lambda>_. 0) (i8_parts rops) (\<lambda>_. True) (\<lambda>_. 0) (i8_parts rops) (\<lambda>_. True) (\<lambda>_. 0)"

abbreviation hms_fields :: "'r rev_ops \<Rightarrow> (u8 \<times> u8 \<times> u8, 'r) message_field list" where
  "hms_fields rops \<equiv> map fst (hms_elements rops)"

context rev_buf_contract
begin

lemma i8_suits: "suits (varint_i8 rops) (\<lambda>v. varint_bytes (ucast (zigzag v))) (\<lambda>_. True) (default_empty_state 0)"
  by (rule suits_default) (simp_all add: varint_i8_def varint_codec_def)

lemma i8_field_laws:
  "distinguished_field_contract rops rcontents rinv (plain_field rops (varint_i8 rops) (default_empty_state 0))
    (default_empty_state 0) (i8_parts rops) (\<lambda>_. True) (\<lambda>_. 0)"
  by (rule distinguished_codec.plain_distinguished_laws [OF varint_signed_laws(1) i8_suits])

lemma hms_laws: "tuple_message rops rcontents rinv (0, 0, 0) (hms_elements rops) (hms_view rops)"
  and hms_distinguished_laws: "distinguished_underived_message rops rcontents rinv (0, 0, 0) (hms_fields rops) (hms_view rops)"
proof -
  have e: "(0, 0, 0) = (es_empty (default_empty_state (0 :: u8)), es_empty (default_empty_state (0 :: u8)), es_empty (default_empty_state (0 :: u8)))"
    by (simp add: default_empty_state_def)
  have l: "plain_trivial_len (varint_i8 rops) (default_empty_state 0) tag v = sum_list (map (\<lambda>(wt, val). 1 + length val) (i8_parts rops v))" for tag v
    by (rule plain_trivial_len_eq [OF distinguished_codec.axioms(1) [OF varint_signed_laws(1)] i8_suits]) simp
  show "tuple_message rops rcontents rinv (0, 0, 0) (hms_elements rops) (hms_view rops)"
    unfolding hms_elements_def Let_def e by (rule triple_laws [OF i8_field_laws i8_field_laws i8_field_laws l l l])
  show "distinguished_underived_message rops rcontents rinv (0, 0, 0) (hms_fields rops) (hms_view rops)"
    unfolding hms_elements_def Let_def e by (rule triple_distinguished_laws [OF i8_field_laws i8_field_laws i8_field_laws])
qed

end

lemma hms_valid:
  fixes rops :: "'r rev_ops"
  shows "struct_valid (hms_view rops) (hms_fields rops) = (\<lambda>_. True)" "struct_depth (hms_view rops) (hms_fields rops) = (\<lambda>_. 0)"
proof -
  have views: "fv_valid (hms_view rops f) p" "fv_depth (hms_view rops f) p = 0" for f :: "(u8 \<times> u8 \<times> u8, 'r) message_field" and p
    by (simp_all add: triple_view_def three_views_def value_view_def)
  have len: "length (struct_body (hms_view rops) (hms_fields rops) p) \<le> 54" for p
  proof (cases p)
    case (fields h m s)
    show ?thesis
      unfolding struct_body_def struct_parts_def fields
      by (simp add: present_def field_run_def hms_elements_def triple_elements_def triple_view_def three_views_def
          value_view_def one_part_def default_empty_state_def Let_def)
        (intro conjI impI;
          insert length_varint_bytes(2) [of "key_of 0 (c_wire (varint_i8 rops))"] length_varint_bytes(2) [of "key_of 1 (c_wire (varint_i8 rops))"]
            length_varint_bytes(2) [of "key_of 2 (c_wire (varint_i8 rops))"] length_varint_bytes(2) [of "ucast (zigzag h)"]
            length_varint_bytes(2) [of "ucast (zigzag m)"] length_varint_bytes(2) [of "ucast (zigzag s)"]; linarith)
  qed
  show "struct_valid (hms_view rops) (hms_fields rops) = (\<lambda>_. True)"
  proof (rule ext)
    fix p
    have "length (struct_body (hms_view rops) (hms_fields rops) p) < 2 ^ 64" by (rule le_less_trans [OF len]) simp
    then show "struct_valid (hms_view rops) (hms_fields rops) p = True" by (simp add: struct_valid_def views)
  qed
  show "struct_depth (hms_view rops) (hms_fields rops) = (\<lambda>_. 0)"
    using views struct_depth_le [of "hms_view rops" "hms_fields rops" _ 0] by auto
qed

end
