(* ===== verification/Time_Crate_Types.thy ===== *)
theory Time_Crate_Types
  imports Delta_Laws
begin

text \<open>
  The dates and times of the \<^verbatim>\<open>time\<close> crate (\<^verbatim>\<open>src/src/encoding/type_support/time.rs\<close>), as those of chrono: what the
  code calls of the crate is a parameter, with its documented behaviour. The ordinal of a date has 16 bits here
  and counts from 1, the parts of a time have 8 bits, and the conversions check both.
\<close>

section \<open>Dates\<close>

record 'd time_date_fns =
  tdt_year :: "'d \<Rightarrow> u32"
  tdt_ordinal :: "'d \<Rightarrow> u16"
  tdt_from_ordinal_date :: "u32 \<Rightarrow> u16 \<Rightarrow> 'd option"

definition time_date_documented :: "'d time_date_fns \<Rightarrow> bool" where
  "time_date_documented D \<longleftrightarrow>
     (\<forall>y n d. tdt_from_ordinal_date D y n = Some d \<longrightarrow>
        tdt_year D d = y \<and> tdt_ordinal D d = n \<and> 1 \<le> unat n \<and> unat n \<le> 366) \<and>
     tdt_from_ordinal_date D 0 1 \<noteq> None"

definition time_date_valid :: "'d time_date_fns \<Rightarrow> 'd \<Rightarrow> bool" where
  "time_date_valid D d \<longleftrightarrow> tdt_from_ordinal_date D (tdt_year D d) (tdt_ordinal D d) = Some d"

definition parts_to_date :: "'d time_date_fns \<Rightarrow> u32 \<Rightarrow> u32 \<Rightarrow> 'd option" where
  "parts_to_date D year ordinal0 =
    (if sint ordinal0 < 0 \<or> 65535 < sint ordinal0 then None
     else let n = ucast ordinal0 :: u16 in
       if unat n + 1 < 2 ^ 16 then tdt_from_ordinal_date D year (n + 1) else None)"

definition time_date_parts :: "'d time_date_fns \<Rightarrow> 'd \<Rightarrow> u32 list" where
  "time_date_parts D d = [tdt_year D d, ucast (tdt_ordinal D d - 1)]"

definition time_date_compose :: "'d time_date_fns \<Rightarrow> u32 list \<Rightarrow> 'd outcome" where
  "time_date_compose D arr = (case arr of
     [year, ordinal0] \<Rightarrow> ok_or (parts_to_date D year ordinal0) OutOfDomainValue
   | _ \<Rightarrow> Fail OutOfDomainValue)"

definition time_date_empty_state :: "'d time_date_fns \<Rightarrow> 'd empty_state" where
  "time_date_empty_state D = default_empty_state (the (tdt_from_ordinal_date D 0 1))"

definition time_date_codec :: "'r rev_ops \<Rightarrow> 'd time_date_fns \<Rightarrow> ('d, 'r) codec" where
  "time_date_codec rops D = array_proxied_codec rops (varint_i32 rops) (default_empty_state 0) 2
     (time_date_parts D) (time_date_compose D) (es_empty (time_date_empty_state D))"

section \<open>Times of day\<close>

record 't time_time_fns =
  tt_hour :: "'t \<Rightarrow> u8"
  tt_minute :: "'t \<Rightarrow> u8"
  tt_second :: "'t \<Rightarrow> u8"
  tt_nanosecond :: "'t \<Rightarrow> u32"
  tt_from_hms_nano :: "u8 \<Rightarrow> u8 \<Rightarrow> u8 \<Rightarrow> u32 \<Rightarrow> 't option"
  tt_MIDNIGHT :: 't

definition time_time_documented :: "'t time_time_fns \<Rightarrow> bool" where
  "time_time_documented T \<longleftrightarrow>
     (\<forall>h m s n t. tt_from_hms_nano T h m s n = Some t \<longrightarrow>
        tt_hour T t = h \<and> tt_minute T t = m \<and> tt_second T t = s \<and> tt_nanosecond T t = n \<and> unat n < 1000000000) \<and>
     tt_from_hms_nano T 0 0 0 0 = Some (tt_MIDNIGHT T)"

definition time_time_valid :: "'t time_time_fns \<Rightarrow> 't \<Rightarrow> bool" where
  "time_time_valid T t \<longleftrightarrow>
    tt_from_hms_nano T (tt_hour T t) (tt_minute T t) (tt_second T t) (tt_nanosecond T t) = Some t"

text \<open>\<^verbatim>\<open>parts_to_time\<close> is called with parts of type \<^verbatim>\<open>u32\<close> and of type \<^verbatim>\<open>i32\<close>: \<open>is_signed\<close> tells which.\<close>

definition part_u8 :: "bool \<Rightarrow> u32 \<Rightarrow> u8 option" where
  "part_u8 is_signed w = (if is_signed \<and> sint w < 0 \<or> 255 < unat w then None else Some (ucast w))"

definition part_u32 :: "bool \<Rightarrow> u32 \<Rightarrow> u32 option" where
  "part_u32 is_signed w = (if is_signed \<and> sint w < 0 then None else Some w)"

definition parts_to_time :: "bool \<Rightarrow> 't time_time_fns \<Rightarrow> u32 \<Rightarrow> u32 \<Rightarrow> u32 \<Rightarrow> u32 \<Rightarrow> 't option" where
  "parts_to_time is_signed T hour minute second nanos =
    Option.bind (part_u8 is_signed hour) (\<lambda>h. Option.bind (part_u8 is_signed minute) (\<lambda>m. Option.bind (part_u8 is_signed second) (\<lambda>s.
      Option.bind (part_u32 is_signed nanos) (\<lambda>n. tt_from_hms_nano T h m s n))))"

definition time_time_parts :: "'t time_time_fns \<Rightarrow> 't \<Rightarrow> u32 list" where
  "time_time_parts T t = [ucast (tt_hour T t), ucast (tt_minute T t), ucast (tt_second T t), tt_nanosecond T t]"

definition time_time_compose :: "'t time_time_fns \<Rightarrow> u32 list \<Rightarrow> 't outcome" where
  "time_time_compose T arr = (case arr of
     [hour, minute, second, nanos] \<Rightarrow> ok_or (parts_to_time False T hour minute second nanos) OutOfDomainValue
   | _ \<Rightarrow> Fail OutOfDomainValue)"

definition time_time_empty_state :: "'t time_time_fns \<Rightarrow> 't empty_state" where
  "time_time_empty_state T = default_empty_state (tt_MIDNIGHT T)"

definition time_time_codec :: "'r rev_ops \<Rightarrow> 't time_time_fns \<Rightarrow> ('t, 'r) codec" where
  "time_time_codec rops T = array_proxied_codec rops (varint_u32 rops) (default_empty_state 0) 4
     (time_time_parts T) (time_time_compose T) (es_empty (time_time_empty_state T))"

section \<open>Dates with times\<close>

record ('n, 'd, 't) primitive_datetime_fns =
  pdt_new :: "'d \<Rightarrow> 't \<Rightarrow> 'n"
  pdt_date :: "'n \<Rightarrow> 'd"
  pdt_time :: "'n \<Rightarrow> 't"

text \<open>The accessors of the parts of a \<^verbatim>\<open>PrimitiveDateTime\<close> are those of its date and its time.\<close>

definition primitive_datetime_documented ::
    "'d time_date_fns \<Rightarrow> 't time_time_fns \<Rightarrow> ('n, 'd, 't) primitive_datetime_fns \<Rightarrow> bool" where
  "primitive_datetime_documented D T M \<longleftrightarrow> time_date_documented D \<and> time_time_documented T \<and>
     (\<forall>n. pdt_new M (pdt_date M n) (pdt_time M n) = n) \<and>
     (\<forall>d t. pdt_date M (pdt_new M d t) = d \<and> pdt_time M (pdt_new M d t) = t)"

definition primitive_datetime_parts ::
    "'d time_date_fns \<Rightarrow> 't time_time_fns \<Rightarrow> ('n, 'd, 't) primitive_datetime_fns \<Rightarrow> 'n \<Rightarrow> u32 list" where
  "primitive_datetime_parts D T M n = (let d = pdt_date M n; t = pdt_time M n in
     [tdt_year D d, ucast (tdt_ordinal D d - 1), ucast (tt_hour T t), ucast (tt_minute T t), ucast (tt_second T t), tt_nanosecond T t])"

definition primitive_datetime_compose ::
    "'d time_date_fns \<Rightarrow> 't time_time_fns \<Rightarrow> ('n, 'd, 't) primitive_datetime_fns \<Rightarrow> u32 list \<Rightarrow> 'n outcome" where
  "primitive_datetime_compose D T M arr = (case arr of
     [year, ordinal0, hour, minute, second, nanos] \<Rightarrow>
       obind (ok_or (parts_to_date D year ordinal0) OutOfDomainValue) (\<lambda>d.
         obind (ok_or (parts_to_time True T hour minute second nanos) OutOfDomainValue) (\<lambda>t.
           Done (pdt_new M d t)))
   | _ \<Rightarrow> Fail OutOfDomainValue)"

definition primitive_datetime_valid ::
    "'d time_date_fns \<Rightarrow> 't time_time_fns \<Rightarrow> ('n, 'd, 't) primitive_datetime_fns \<Rightarrow> 'n \<Rightarrow> bool" where
  "primitive_datetime_valid D T M n \<longleftrightarrow> time_date_valid D (pdt_date M n) \<and> time_time_valid T (pdt_time M n)"

definition primitive_datetime_empty_state ::
    "'d time_date_fns \<Rightarrow> 't time_time_fns \<Rightarrow> ('n, 'd, 't) primitive_datetime_fns \<Rightarrow> 'n empty_state" where
  "primitive_datetime_empty_state D T M =
    (let des = time_date_empty_state D; tes = time_time_empty_state T; n0 = pdt_new M (es_empty des) (es_empty tes) in
     \<lparr>es_empty = n0, es_is_empty = (\<lambda>n. es_is_empty des (pdt_date M n) \<and> es_is_empty tes (pdt_time M n)), es_clear = (\<lambda>_. n0)\<rparr>)"

definition primitive_datetime_codec ::
    "'r rev_ops \<Rightarrow> 'd time_date_fns \<Rightarrow> 't time_time_fns \<Rightarrow> ('n, 'd, 't) primitive_datetime_fns \<Rightarrow> ('n, 'r) codec" where
  "primitive_datetime_codec rops D T M = array_proxied_codec rops (varint_i32 rops) (default_empty_state 0) 6
     (primitive_datetime_parts D T M) (primitive_datetime_compose D T M) (es_empty (primitive_datetime_empty_state D T M))"

section \<open>Dates with an offset\<close>

record ('z, 'n, 'o, 'd, 't) offset_datetime_fns =
  od_UNIX_EPOCH :: 'z
  od_replace_offset :: "'z \<Rightarrow> 'o \<Rightarrow> 'z"
  od_replace_date_time :: "'z \<Rightarrow> 'n \<Rightarrow> 'z"
  od_date :: "'z \<Rightarrow> 'd"
  od_time :: "'z \<Rightarrow> 't"
  od_offset :: "'z \<Rightarrow> 'o"

definition odt_compose :: "('z, 'n, 'o, 'd, 't) offset_datetime_fns \<Rightarrow> 'n \<Rightarrow> 'o \<Rightarrow> 'z" where
  "odt_compose A n z = od_replace_date_time A (od_replace_offset A (od_UNIX_EPOCH A) z) n"

definition odt_decompose :: "('z, 'n, 'o, 'd, 't) offset_datetime_fns \<Rightarrow> ('n, 'd, 't) primitive_datetime_fns \<Rightarrow> 'z \<Rightarrow> 'n \<times> 'o" where
  "odt_decompose A M odt = (pdt_new M (od_date A odt) (od_time A odt), od_offset A odt)"

text \<open>Replacing a part of a value leaves the others, and a value is determined by its parts.\<close>

definition offset_datetime_documented ::
    "('z, 'n, 'o, 'd, 't) offset_datetime_fns \<Rightarrow> ('n, 'd, 't) primitive_datetime_fns \<Rightarrow> bool" where
  "offset_datetime_documented A M \<longleftrightarrow>
     (\<forall>z k. od_offset A (od_replace_offset A z k) = k) \<and>
     (\<forall>z n. od_offset A (od_replace_date_time A z n) = od_offset A z \<and> od_date A (od_replace_date_time A z n) = pdt_date M n \<and>
        od_time A (od_replace_date_time A z n) = pdt_time M n) \<and>
     (\<forall>z z'. od_date A z = od_date A z' \<longrightarrow> od_time A z = od_time A z' \<longrightarrow> od_offset A z = od_offset A z' \<longrightarrow> z = z')"

definition offset_datetime_zoned ::
    "('z, 'n, 'o, 'd, 't) offset_datetime_fns \<Rightarrow> ('n, 'd, 't) primitive_datetime_fns \<Rightarrow> ('z, 'n, 'o) zoned_fns" where
  "offset_datetime_zoned A M = \<lparr>zo_compose = odt_compose A, zo_datetime = (\<lambda>z. fst (odt_decompose A M z)),
     zo_offset = (\<lambda>z. snd (odt_decompose A M z))\<rparr>"

definition offset_datetime_codec ::
    "'r rev_ops \<Rightarrow> 'd time_date_fns \<Rightarrow> 't time_time_fns \<Rightarrow> ('n, 'd, 't) primitive_datetime_fns \<Rightarrow> 'o utc_offset_fns \<Rightarrow>
     ('z, 'n, 'o, 'd, 't) offset_datetime_fns \<Rightarrow> ('z, 'r) codec" where
  "offset_datetime_codec rops D T M F A = zoned_codec rops (offset_datetime_zoned A M)
     (primitive_datetime_codec rops D T M) (primitive_datetime_empty_state D T M)
     (utc_offset_codec rops F) (utc_offset_empty_state F)"

section \<open>The conversions\<close>

lemma part_u8_Some: "part_u8 is_signed w = Some b \<longleftrightarrow> w = ucast b"
proof -
  have b: "unat (ucast b :: u32) = unat b" using unat_lt [of b] by (simp add: unat_ucast)
  then have "0 \<le> sint (ucast b :: u32)" "unat (ucast b :: u32) \<le> 255" using unat_lt [of b] by (simp_all add: sint_small)
  moreover have "(ucast (ucast b :: u32) :: u8) = b" using b unat_lt [of b] by (simp add: word_unat_eq_iff unat_ucast)
  moreover have "ucast (ucast w :: u8) = w" if "unat w \<le> 255"
    using that by (simp add: word_unat_eq_iff unat_ucast)
  ultimately show ?thesis by (auto simp: part_u8_def)
qed

lemma part_u32_Some: "part_u32 is_signed w = Some v \<longleftrightarrow> w = v \<and> \<not> (is_signed \<and> sint w < 0)"
  by (auto simp: part_u32_def)

lemma parts_to_date_Some:
  assumes D: "time_date_documented D"
  shows "parts_to_date D y n = Some d \<longleftrightarrow> time_date_valid D d \<and> tdt_year D d = y \<and> ucast (tdt_ordinal D d - 1) = n"
proof -
  let ?o = "tdt_ordinal D d"
  have from_Some: "tdt_from_ordinal_date D y k = Some d \<longleftrightarrow> time_date_valid D d \<and> tdt_year D d = y \<and> ?o = k" for y k
    using D unfolding time_date_documented_def time_date_valid_def by blast
  have o: "1 \<le> unat ?o" "unat ?o \<le> 366" if "time_date_valid D d"
    using D that unfolding time_date_documented_def time_date_valid_def by blast+
  have pred: "unat (?o - 1) = unat ?o - 1" if "time_date_valid D d"
    using o(1) [OF that] by (simp add: unat_sub word_le_nat_alt)
  have wide: "unat (ucast (?o - 1) :: u32) = unat ?o - 1" if "time_date_valid D d"
    using o [OF that] pred [OF that] by (simp add: unat_ucast)
  show ?thesis
  proof
    assume p: "parts_to_date D y n = Some d"
    then have n: "0 \<le> sint n" "sint n \<le> 65535" "tdt_from_ordinal_date D y (ucast n + 1) = Some d"
      by (auto simp: parts_to_date_def Let_def split: if_splits)
    have "int (unat n) \<le> 65535" using n(2) unat_sint [OF n(1)] by simp
    then have "unat n \<le> 65535" by linarith
    then have "ucast (ucast n :: u16) = n" by (simp add: word_unat_eq_iff unat_ucast)
    moreover have "time_date_valid D d \<and> tdt_year D d = y \<and> ?o = ucast n + 1" using n(3) from_Some by blast
    ultimately show "time_date_valid D d \<and> tdt_year D d = y \<and> ucast (?o - 1) = n" by simp
  next
    assume a: "time_date_valid D d \<and> tdt_year D d = y \<and> ucast (?o - 1) = n"
    note o = o [OF conjunct1 [OF a]] and pred = pred [OF conjunct1 [OF a]]
    have u: "unat n = unat ?o - 1" using a wide by auto
    then have small: "unat n < 366" using o by simp
    then have s: "sint n = int (unat n)" by (simp add: sint_small)
    have "unat (ucast n :: u16) = unat n" using small by (simp add: unat_ucast)
    then have "ucast n = ?o - 1" using u pred by (simp add: word_unat_eq_iff)
    moreover have "\<not> sint n < 0" "\<not> 65535 < sint n" unfolding s using small by linarith+
    moreover have "unat (?o - 1) + 1 < 2 ^ 16" "?o - 1 + 1 = ?o" using pred o by simp_all
    ultimately show "parts_to_date D y n = Some d"
      using a from_Some unfolding parts_to_date_def Let_def by (simp only: simp_thms if_False if_True)
  qed
qed

lemma parts_to_time_Some:
  assumes T: "time_time_documented T"
  shows "parts_to_time is_signed T h m s n = Some t \<longleftrightarrow> time_time_valid T t \<and>
    ucast (tt_hour T t) = h \<and> ucast (tt_minute T t) = m \<and> ucast (tt_second T t) = s \<and> tt_nanosecond T t = n"
proof -
  have from_Some: "tt_from_hms_nano T h m s n = Some t \<longleftrightarrow> time_time_valid T t \<and>
      tt_hour T t = h \<and> tt_minute T t = m \<and> tt_second T t = s \<and> tt_nanosecond T t = n" for h m s n
    using T unfolding time_time_documented_def time_time_valid_def by blast
  have "0 \<le> sint (tt_nanosecond T t)" if "time_time_valid T t"
  proof -
    have "unat (tt_nanosecond T t) < 1000000000"
      using T that unfolding time_time_documented_def time_time_valid_def by blast
    then show ?thesis by (simp add: sint_small)
  qed
  then show ?thesis
    by (auto simp: parts_to_time_def bind_eq_Some_conv part_u8_Some part_u32_Some from_Some)
qed

lemma time_date_conversion:
  assumes D: "time_date_documented D"
  shows "array_conversion (default_empty_state 0) (time_date_parts D) (time_date_compose D) 2 (time_date_valid D)"
  by (unfold_locales, rule default_empty_item)
    (auto simp: time_date_parts_def time_date_compose_def arrays parts_to_date_Some [OF D] split: list.splits)

lemma time_time_conversion:
  assumes T: "time_time_documented T"
  shows "array_conversion (default_empty_state 0) (time_time_parts T) (time_time_compose T) 4 (time_time_valid T)"
  by (unfold_locales, rule default_empty_item)
    (auto simp: time_time_parts_def time_time_compose_def arrays parts_to_time_Some [OF T] split: list.splits)

lemma primitive_datetime_conversion:
  assumes M: "primitive_datetime_documented D T M"
  shows "array_conversion (default_empty_state 0) (primitive_datetime_parts D T M) (primitive_datetime_compose D T M) 6
    (primitive_datetime_valid D T M)"
proof (unfold_locales, rule default_empty_item)
  have D: "time_date_documented D" and T: "time_time_documented T"
    and new: "\<And>n. pdt_new M (pdt_date M n) (pdt_time M n) = n" "\<And>d t. pdt_date M (pdt_new M d t) = d \<and> pdt_time M (pdt_new M d t) = t"
    using M by (simp_all add: primitive_datetime_documented_def)
  fix n and xs
  have compose: "primitive_datetime_compose D T M [y, k, h, m, s, f] = Done n \<longleftrightarrow>
      primitive_datetime_valid D T M n \<and> primitive_datetime_parts D T M n = [y, k, h, m, s, f]" for y k h m s f
    using new by (auto simp: primitive_datetime_compose_def primitive_datetime_parts_def primitive_datetime_valid_def parts_to_date_Some [OF D] parts_to_time_Some [OF T] Let_def)
  show "length (primitive_datetime_parts D T M n) = 6" by (simp add: primitive_datetime_parts_def Let_def)
  show "primitive_datetime_valid D T M n \<Longrightarrow> primitive_datetime_compose D T M (primitive_datetime_parts D T M n) = Done n"
    using compose by (simp add: primitive_datetime_parts_def Let_def)
  show "length xs = 6 \<Longrightarrow> primitive_datetime_compose D T M xs = Done n \<Longrightarrow> primitive_datetime_parts D T M n = xs \<and> primitive_datetime_valid D T M n"
    by (auto simp: arrays compose)
  show "primitive_datetime_compose D T M xs \<noteq> Panic"
    by (auto simp: primitive_datetime_compose_def obind_Panic_iff split: list.split)
qed

lemma odt_zoned:
  assumes "offset_datetime_documented A M" and "primitive_datetime_documented D T M"
  shows "zoned_documented (offset_datetime_zoned A M)"
proof -
  have parts: "od_date A (odt_compose A n k) = pdt_date M n \<and> od_time A (odt_compose A n k) = pdt_time M n \<and>
      od_offset A (odt_compose A n k) = k" for n k
    using assms(1) by (simp add: offset_datetime_documented_def odt_compose_def)
  have new: "pdt_new M (pdt_date M n) (pdt_time M n) = n" "pdt_date M (pdt_new M d t) = d \<and> pdt_time M (pdt_new M d t) = t" for n d t
    using assms(2) by (simp_all add: primitive_datetime_documented_def)
  have eq: "od_date A z = od_date A z' \<Longrightarrow> od_time A z = od_time A z' \<Longrightarrow> od_offset A z = od_offset A z' \<Longrightarrow> z = z'" for z z'
    using assms(1) unfolding offset_datetime_documented_def by blast
  show ?thesis
    by (auto simp: zoned_documented_def offset_datetime_zoned_def odt_decompose_def parts new intro!: eq)
qed

end
