(* ===== verification/Conversion_Properties.thy ===== *)
theory Conversion_Properties
  imports Time_Crate_Types
begin

text \<open>
  What holds of the types that are encoded by conversion to others: the durations of the standard library, and the
  types of the crates chrono and time, under the documented behaviour of these crates.
\<close>

section \<open>Helper lemmas\<close>

lemma codec_exact:
  assumes c: "distinguished_codec rops rcontents rinv c enc valid depth" and n: "length input < 2 ^ 64"
    and d: "depth v \<le> unat (recurse_count (into_inner ctx))"
  shows "(\<exists>rest. c_decode_dist c True (c_for_overwrite c) \<lparr>cap_buf = input, cap_extra = 0\<rparr> ctx =
      Done (v, Canonical, \<lparr>cap_buf = rest, cap_extra = 0\<rparr>)) \<longleftrightarrow> valid v \<and> (\<exists>rest. input = enc v @ rest)"
proof -
  have "input = enc v @ rest \<and> valid v" if "c_decode_dist c True (c_for_overwrite c) \<lparr>cap_buf = input, cap_extra = 0\<rparr> ctx =
      Done (v, Canonical, \<lparr>cap_buf = rest, cap_extra = 0\<rparr>)" for rest
    using distinguished_codec.dist_canonical [OF c that] n by simp
  moreover have "c_decode_dist c True (c_for_overwrite c) \<lparr>cap_buf = enc v @ rest, cap_extra = 0\<rparr> ctx =
      Done (v, Canonical, \<lparr>cap_buf = rest, cap_extra = 0\<rparr>)" if "valid v" for rest
    using distinguished_codec.dist_complete [OF c that d, of 0 rest True] by simp
  ultimately show ?thesis by blast
qed

interpretation utc_proxy: proxy_contract "plain_proxy (\<lambda>_. (0, 0, 0)) utc_decode_proxy" "\<lambda>_. True" "\<lambda>_. True"
  by (rule distinguished_proxy_contract.axioms(1) [OF utc_laws])

interpretation core_duration_proxy: distinguished_proxy_contract
  "array_proxy (default_empty_state 0) core_duration_parts core_duration_compose" core_duration_valid "lp_valid (default_empty_state 0) 2"
  by (rule core_duration.array_proxy_laws) (rule refl)

lemma naive_datetime_laws:
  assumes "rev_buf_contract rops rcontents rinv" and "naive_datetime_documented D T M"
  shows "distinguished_codec rops rcontents rinv (naive_datetime_codec rops D T M)
    (\<lambda>n. array_bytes (default_empty_state 0) (\<lambda>v. varint_bytes (ucast (zigzag v))) (naive_datetime_parts M n))
    (naive_datetime_valid D T M) (\<lambda>_. 0)"
  unfolding naive_datetime_codec_def
  by (rule array_conversion.array_codec_laws [OF naive_datetime_conversion [OF assms(2)] rev_buf_contract.varint_signed_laws(5) [OF assms(1)]])
    (simp_all add: length_varint_bytes)

lemma naive_date_laws:
  assumes "rev_buf_contract rops rcontents rinv" and "naive_date_documented D"
  shows "distinguished_codec rops rcontents rinv (naive_date_codec rops D)
    (\<lambda>n. array_bytes (default_empty_state 0) (\<lambda>v. varint_bytes (ucast (zigzag v))) (naive_date_parts D n))
    (naive_date_valid D) (\<lambda>_. 0)"
  unfolding naive_date_codec_def
  by (rule array_conversion.array_codec_laws [OF naive_date_conversion [OF assms(2)] rev_buf_contract.varint_signed_laws(5) [OF assms(1)]])
    (simp_all add: length_varint_bytes)

text \<open>Trailing empty items do not count.\<close>

lemma trimmed_append_empty:
  assumes "\<And>x. es_is_empty es x \<longleftrightarrow> x = es_empty es"
  shows "trimmed es (xs @ replicate n (es_empty es)) = trimmed es xs"
proof -
  have "dropWhile (es_is_empty es) (replicate n (es_empty es) @ ys) = dropWhile (es_is_empty es) ys" for ys
    by (induction n) (simp_all add: assms)
  then show ?thesis by (simp add: trimmed_def)
qed

section \<open>Properties\<close>

text \<open>
  C22. A \<^verbatim>\<open>core::time::Duration\<close> is encoded as its seconds and nanoseconds in packed varints, without zeros at the
  end. Two varints decode, in either mode, if the second is below a billion, and are an invalid value otherwise; in
  distinguished mode they are canonical unless the second is zero.
\<close>

theorem core_duration_decoding:
  fixes secs nanos :: u64 and rest :: bytes
  assumes x: "x \<le> length rest" and m: "rc_min_canonicity ctx = NotCanonical"
  shows "c_decode (core_duration_codec (rb_rev_ops sco)) d0
      \<lparr>cap_buf = delimited (varint_bytes secs @ varint_bytes nanos) @ rest, cap_extra = x\<rparr> (into_inner ctx) =
      (if nanos \<le> 999999999 then Done (\<lparr>cd_secs = secs, cd_nanos = ucast nanos\<rparr>, \<lparr>cap_buf = rest, cap_extra = x\<rparr>)
       else Fail InvalidValue) \<and>
    c_decode_dist (core_duration_codec (rb_rev_ops sco)) True d0
      \<lparr>cap_buf = delimited (varint_bytes secs @ varint_bytes nanos) @ rest, cap_extra = x\<rparr> ctx =
      (if nanos \<le> 999999999
       then Done (\<lparr>cd_secs = secs, cd_nanos = ucast nanos\<rparr>, if nanos = 0 then NotCanonical else Canonical,
         \<lparr>cap_buf = rest, cap_extra = x\<rparr>)
       else Fail InvalidValue)"
proof -
  let ?input = "delimited (varint_bytes secs @ varint_bytes nanos) @ rest"
  let ?col = "local_proxy_collection (default_empty_state (0 :: u64)) 2" and ?p = "\<lparr>lp_arr = [secs, nanos], lp_size = 2\<rparr>"
  note v = rev_buf_contract.varint_laws(8) [OF rb_rev.rev_buf_contract_axioms [of sco]]
  have r: "repeated_codec (rb_rev_ops sco) rb_contents rb_inv (varint_u64 (rb_rev_ops sco)) varint_bytes (\<lambda>_. True) (\<lambda>_. 0) ?col
      (lp_valid (default_empty_state 0) 2)"
    by (intro repeated_codec.intro repeated_values.intro distinguished_codec.axioms(1) [OF v] v local_proxy_laws)
  note packed = repeated_codec.packed_value_laws [OF r]
  have p: "packed_valid varint_bytes (\<lambda>_. True) ?col (lp_valid (default_empty_state 0) 2) ?p"
    using length_varint_bytes(2) [of secs] length_varint_bytes(2) [of nanos]
    by (simp add: packed_valid_def lp_valid_def local_proxy_collection_def lp_items_def)
  have bytes: "packed_enc varint_bytes ?col ?p @ rest = ?input"
    by (simp add: packed_enc_def local_proxy_collection_def lp_items_def)
  have depth: "list_depth (\<lambda>_. 0) (col_iter ?col ?p) \<le> n" for n
    by (simp add: list_depth_le)
  have d1: "c_decode (packed_codec (rb_rev_ops sco) (varint_u64 (rb_rev_ops sco)) ?col) (col_empty ?col)
      \<lparr>cap_buf = ?input, cap_extra = x\<rparr> (into_inner ctx) = Done (?p, \<lparr>cap_buf = rest, cap_extra = x\<rparr>)"
    using value_codec.decode [OF distinguished_codec.axioms(1) [OF packed] p depth x] by (simp add: bytes packed_codec_def)
  have d2: "c_decode_dist (packed_codec (rb_rev_ops sco) (varint_u64 (rb_rev_ops sco)) ?col) True (col_empty ?col)
      \<lparr>cap_buf = ?input, cap_extra = x\<rparr> ctx = Done (?p, Canonical, \<lparr>cap_buf = rest, cap_extra = x\<rparr>)"
    using distinguished_codec.dist_complete [OF packed p depth x] by (simp add: bytes packed_codec_def)
  have canon: "lp_into_inner_distinguished (default_empty_state 0) ?p = ([secs, nanos], if nanos = 0 then NotCanonical else Canonical)"
    by (simp add: lp_into_inner_distinguished_def lp_items_def default_empty_state_def)
  have w: "c_for_overwrite (packed_codec (rb_rev_ops sco) (varint_u64 (rb_rev_ops sco)) ?col) = col_empty ?col"
    by (simp add: packed_codec_def)
  show ?thesis
    using d1 d2 m by (simp add: core_duration_codec_def array_proxied_codec_def proxied_codec_def proxied_decode_value_def
        proxied_decode_value_distinguished_def w array_proxy_def canon core_duration_compose_eq lp_into_inner_def check_def canonicity_update_def)
qed

theorem core_duration_decoding_witness:
  "c_decode (core_duration_codec (rb_rev_ops True)) \<lparr>cd_secs = 9, cd_nanos = 9\<rparr>
      \<lparr>cap_buf = delimited (varint_bytes 5 @ varint_bytes 0) @ [7], cap_extra = 1\<rparr> context_default =
    Done (\<lparr>cd_secs = 5, cd_nanos = 0\<rparr>, \<lparr>cap_buf = [7], cap_extra = 1\<rparr>)"
  using core_duration_decoding [of 1 "[7]" "restricted_new NotCanonical" True "\<lparr>cd_secs = 9, cd_nanos = 9\<rparr>" 5 0]
  by (simp add: restricted_new_def into_inner_def)

text \<open>
  C13. Under the documented behaviour of chrono, distinguished decoding of a \<^verbatim>\<open>NaiveDateTime\<close> is exact: it reports a
  value as canonical just when the value is a valid one and the input starts with the bytes it is encoded to.
\<close>

theorem naive_datetime_exact:
  assumes M: "naive_datetime_documented D T M" and n: "length input < 2 ^ 64"
  shows "(\<exists>rest. c_decode_dist (naive_datetime_codec (rb_rev_ops sco) D T M) True
      (c_for_overwrite (naive_datetime_codec (rb_rev_ops sco) D T M)) \<lparr>cap_buf = input, cap_extra = 0\<rparr> ctx =
      Done (v, Canonical, \<lparr>cap_buf = rest, cap_extra = 0\<rparr>)) \<longleftrightarrow>
    naive_datetime_valid D T M v \<and>
      (\<exists>bs rest. c_encode (naive_datetime_codec (rb_rev_ops sco) D T M) v [] = Some bs \<and> input = bs @ rest)"
proof -
  note laws = naive_datetime_laws [OF rb_rev.rev_buf_contract_axioms [of sco] M]
  show ?thesis
    using codec_exact [OF laws n, where v = v and ctx = ctx] value_codec.encode [OF distinguished_codec.axioms(1) [OF laws], of v "[]"] by auto
qed

text \<open>
  A \<^verbatim>\<open>NaiveDate\<close> is encoded as the \<^verbatim>\<open>NaiveDateTime\<close> of its midnight, and its bytes decode to that: where a date
  is expected to grow into a date with a time, the data on the wire stays valid.
\<close>

theorem date_as_midnight:
  assumes M: "naive_datetime_documented D T M" and d: "naive_date_valid D d" and x: "x \<le> length rest"
  shows "\<exists>bs. c_encode (naive_date_codec (rb_rev_ops sco) D) d [] = Some bs \<and>
    c_encode (naive_datetime_codec (rb_rev_ops sco) D T M) (ndt_new M d (es_empty (naive_time_empty_state T))) [] = Some bs \<and>
    c_decode (naive_datetime_codec (rb_rev_ops sco) D T M) (c_for_overwrite (naive_datetime_codec (rb_rev_ops sco) D T M))
      \<lparr>cap_buf = bs @ rest, cap_extra = x\<rparr> ctx =
      Done (ndt_new M d (es_empty (naive_time_empty_state T)), \<lparr>cap_buf = rest, cap_extra = x\<rparr>)"
proof -
  have D: "naive_date_documented D" and T: "naive_time_documented T" using M by (simp_all add: naive_datetime_documented_def)
  obtain t0 where t0: "nt_from_hms_nano_opt T 0 0 0 0 = Some t0" "nt_from_seconds_opt T 0 0 = Some t0"
    using T unfolding naive_time_documented_def by auto
  then have t: "es_empty (naive_time_empty_state T) = t0" by (simp add: naive_time_empty_state_def Let_def)
  have z: "naive_time_valid T t0" "naive_time_parts T t0 = replicate 4 0"
    using t0(1) by (simp_all add: naive_time_from_Some [OF T] naive_time_parts_def numeral_eq_Suc)
  have v: "naive_datetime_valid D T M (ndt_new M d t0)" using d z by (auto simp: naive_datetime_valid_def)
  have parts: "naive_datetime_parts M (ndt_new M d t0) = naive_date_parts D d @ replicate 4 0"
    using M z(2) by (simp add: naive_datetime_documented_def naive_datetime_parts_def naive_date_parts_def naive_time_parts_def)
  note nd = naive_date_laws [OF rb_rev.rev_buf_contract_axioms [of sco] D]
    and nm = naive_datetime_laws [OF rb_rev.rev_buf_contract_axioms [of sco] M]
  have "trimmed (default_empty_state 0) (naive_date_parts D d @ replicate 4 0) = trimmed (default_empty_state 0) (naive_date_parts D d)"
    using trimmed_append_empty [of "default_empty_state (0 :: u32)" "naive_date_parts D d" 4] by (simp add: default_empty_state_def)
  then have same: "array_bytes (default_empty_state 0) e (naive_datetime_parts M (ndt_new M d t0)) =
      array_bytes (default_empty_state 0) e (naive_date_parts D d)" for e :: "u32 \<Rightarrow> bytes"
    by (simp add: array_bytes_def parts)
  show ?thesis
    unfolding t
    using value_codec.encode [OF distinguished_codec.axioms(1) [OF nd] d, of "[]"]
      value_codec.encode [OF distinguished_codec.axioms(1) [OF nm] v, of "[]"]
      value_codec.decode [OF distinguished_codec.axioms(1) [OF nm] v _ x, of ctx]
    by (simp add: same)
qed

text \<open>
  C14. Under the documented behaviour of chrono, \<^verbatim>\<open>FixedOffset\<close> and the triples of hours, minutes and seconds in range
  and of one sign correspond one to one: a triple decodes to an offset just when the offset is encoded as it, the
  code never panics at its \<^verbatim>\<open>unwrap\<close>, and a triple in range of mixed signs is an invalid value.
\<close>

theorem fixed_offset_conversions:
  assumes F: "fixed_offset_documented F"
  shows "(fixed_offset_decode_proxy F (h, m, s) = Done z \<longleftrightarrow> fixed_offset_valid F z \<and> fixed_offset_encode_proxy F z = (h, m, s)) \<and>
    fixed_offset_decode_proxy F (h, m, s) \<noteq> Panic \<and>
    ((\<exists>z. fixed_offset_decode_proxy F (h, m, s) = Done z) \<longleftrightarrow> hms_in_range (sint h) (sint m) (sint s)) \<and>
    (fixed_offset_decode_proxy F (h, m, s) = Fail InvalidValue \<longleftrightarrow>
      \<bar>sint h\<bar> \<le> 23 \<and> \<bar>sint m\<bar> \<le> 59 \<and> \<bar>sint s\<bar> \<le> 59 \<and> mixed_signs (h, m, s))"
proof -
  note range = fixed_offset_decode_eq [of F h m s] and decode = fixed_offset_decode_Done [OF F]
  have no_panic: "fixed_offset_decode_proxy F (h, m, s) \<noteq> Panic" by (rule decode(2))
  have "(\<exists>z. fixed_offset_decode_proxy F (h, m, s) = Done z) \<longleftrightarrow> hms_in_range (sint h) (sint m) (sint s)"
    using no_panic by (auto simp: range split: if_splits option.splits)
  moreover have "fixed_offset_decode_proxy F (h, m, s) = Fail InvalidValue \<longleftrightarrow>
      \<bar>sint h\<bar> \<le> 23 \<and> \<bar>sint m\<bar> \<le> 59 \<and> \<bar>sint s\<bar> \<le> 59 \<and> mixed_signs (h, m, s)"
  proof (cases "hms_in_range (sint h) (sint m) (sint s)")
    case True
    then show ?thesis by (auto simp: range mixed_signs_iff hms_in_range_def split: option.split)
  next
    case False
    then have "fixed_offset_decode_proxy F (h, m, s) = Fail InvalidValue \<longleftrightarrow>
        \<bar>sint h\<bar> \<le> 23 \<and> \<bar>sint m\<bar> \<le> 59 \<and> \<bar>sint s\<bar> \<le> 59"
      by (auto simp: range abs_le_iff)
    then show ?thesis using False by (auto simp: mixed_signs_iff hms_in_range_def abs_le_iff not_less)
  qed
  ultimately show ?thesis using decode(1) no_panic by blast
qed

text \<open>
  C12. Under the documented behaviour of chrono, distinguished decoding of a \<^verbatim>\<open>TimeDelta\<close> is exact, though the
  crate keeps the nanoseconds apart from the seconds in another way than the proxy and the signs go unchecked in the
  proxy: a value is reported as canonical just when the input starts with the encoding of the
  \<^verbatim>\<open>bilrost_types::Duration\<close> of the seconds and nanoseconds that the value gives back.
\<close>

theorem chrono_delta_exact:
  assumes C: "time_delta_documented C" and n: "length input < 2 ^ 64" and d: "1 \<le> unat (recurse_count (into_inner ctx))"
  shows "(\<exists>rest. c_decode_dist (chrono_delta_codec (rb_rev_ops sco) C d0) True v0 \<lparr>cap_buf = input, cap_extra = 0\<rparr> ctx =
      Done (v, Canonical, \<lparr>cap_buf = rest, cap_extra = 0\<rparr>)) \<longleftrightarrow>
    chrono_delta_valid C v \<and>
      (\<exists>bs rest. message_encode_value (duration_message (rb_rev_ops sco))
        \<lparr>dur_seconds = td_num_seconds C v, dur_nanos = td_subsec_nanos C v\<rparr> [] = Some bs \<and> input = bs @ rest)"
proof -
  have e: "message_encode_value (duration_message (rb_rev_ops sco)) \<lparr>dur_seconds = a, dur_nanos = b\<rparr> [] = Some (delimited (time_body a b))" for a b
    using value_codec.encode [OF duration_msg.message_codec_laws, where v = "\<lparr>dur_seconds = a, dur_nanos = b\<rparr>" and buf = "[]"]
    by (simp add: message_codec_def)
  show ?thesis
    using proxied_underived_exact [OF time_delta.distinguished_underived_message_axioms [of sco] _ _ chrono_delta_laws [OF C] _ _ n,
        where c = "time_delta_codec (rb_rev_ops sco)" and v = v and ctx = ctx and ?v0.0 = v0 and ?d0.0 = d0] d
    by (simp add: chrono_delta_codec_def time_delta_codec_def underived_codec_def time_delta_valid plain_proxy_def
        time_delta_encode_proxy_def e)
qed

section \<open>Concrete crates\<close>

text \<open>Functions with the documented behaviour: proleptic Gregorian dates, times without leap seconds and their pairs.\<close>

definition gregorian_dates :: "(u32 \<times> u32) naive_date_fns" where
  "gregorian_dates = \<lparr>nd_year = fst, nd_ordinal0 = snd,
     nd_from_yo_opt = (\<lambda>y n. let leap = sint y mod 4 = 0 \<and> (sint y mod 100 \<noteq> 0 \<or> sint y mod 400 = 0) in
       if 1 \<le> n \<and> n \<le> (if leap then 366 else 365) then Some (y, n - 1) else None)\<rparr>"

definition plain_times :: "(u32 \<times> u32 \<times> u32 \<times> u32) naive_time_fns" where
  "plain_times = (let make = (\<lambda>h m s n. if h < 24 \<and> m < 60 \<and> s < 60 \<and> n < 1000000000 then Some (h, m, s, n) else None) in
     \<lparr>nt_hour = fst, nt_minute = fst \<circ> snd, nt_second = fst \<circ> snd \<circ> snd, nt_nanosecond = snd \<circ> snd \<circ> snd,
      nt_seconds_from_midnight = (\<lambda>(h, m, s, n). h * 3600 + m * 60 + s), nt_from_hms_nano_opt = make,
      nt_from_seconds_opt = (\<lambda>secs n. make (secs div 3600) (secs mod 3600 div 60) (secs mod 60) n)\<rparr>)"

definition paired_datetimes :: "((u32 \<times> u32) \<times> (u32 \<times> u32 \<times> u32 \<times> u32), u32 \<times> u32, u32 \<times> u32 \<times> u32 \<times> u32) naive_datetime_fns" where
  "paired_datetimes = \<lparr>ndt_new = Pair, ndt_year = fst \<circ> fst, ndt_ordinal0 = snd \<circ> fst, ndt_hour = nt_hour plain_times \<circ> snd,
     ndt_minute = nt_minute plain_times \<circ> snd, ndt_second = nt_second plain_times \<circ> snd,
     ndt_nanosecond = nt_nanosecond plain_times \<circ> snd, ndt_seconds_from_midnight = nt_seconds_from_midnight plain_times \<circ> snd\<rparr>"

lemma gregorian_documented: "naive_date_documented gregorian_dates"
proof -
  have "n - 1 < 366" if "1 \<le> n" "n \<le> 366" for n :: u32
    using that by (simp add: word_less_nat_alt word_le_nat_alt unat_sub)
  moreover have "n \<le> 366" if "n \<le> 365" for n :: u32 using that by (rule order_trans) simp
  ultimately show ?thesis by (auto simp: naive_date_documented_def gregorian_dates_def Let_def split: if_splits)
qed

lemma plain_times_documented: "naive_time_documented plain_times"
proof -
  have "n < 2000000000" if "n < 1000000000" for n :: u32 using that by (rule order_less_trans) simp
  then show ?thesis by (auto simp: naive_time_documented_def plain_times_def Let_def split: if_splits)
qed

lemma paired_documented: "naive_datetime_documented gregorian_dates plain_times paired_datetimes"
  using gregorian_documented plain_times_documented
  by (auto simp: naive_datetime_documented_def paired_datetimes_def gregorian_dates_def)

definition second_offsets :: "u32 fixed_offset_fns" where
  "second_offsets = \<lparr>fo_local_minus_utc = (\<lambda>s. s), fo_east_opt = (\<lambda>s. if - 86400 < sint s \<and> sint s < 86400 then Some s else None)\<rparr>"

lemma second_offsets_documented: "fixed_offset_documented second_offsets"
  by (auto simp: fixed_offset_documented_def second_offsets_def)

text \<open>Durations of whole seconds and nanoseconds that are not negative, as the crate keeps them.\<close>

definition floor_deltas :: "(u64 \<times> u32) time_delta_fns" where
  "floor_deltas = \<lparr>
     td_num_seconds = (\<lambda>(s, n). if sint s < 0 \<and> 0 < n then s + 1 else s),
     td_subsec_nanos = (\<lambda>(s, n). if sint s < 0 \<and> 0 < n then n - 1000000000 else n),
     td_new = (\<lambda>s n. if \<bar>sint s\<bar> \<le> 9223372036854775 \<and> n < 1000000000 then Some (s, n) else None)\<rparr>"

lemma floor_deltas_documented: "time_delta_documented floor_deltas"
proof -
  have new: "unat n < 1000000000 \<and>
      same_sign_nanos (sint (td_num_seconds floor_deltas (s, n))) (sint (td_subsec_nanos floor_deltas (s, n))) \<and>
      sint (td_num_seconds floor_deltas (s, n)) * 1000000000 + sint (td_subsec_nanos floor_deltas (s, n)) =
        sint s * 1000000000 + int (unat n)" if s: "\<bar>sint s\<bar> \<le> 9223372036854775" and n: "n < 1000000000" for s n
  proof -
    have u: "unat n < 1000000000" using n by (simp add: word_less_nat_alt)
    then have sn: "sint n = int (unat n)" by (simp add: sint_small)
    have "int (unat n) \<le> 999999999" using u by linarith
    then have nu: "uint n \<le> 999999999" by simp
    show ?thesis
    proof (cases "sint s < 0 \<and> 0 < n")
      case True
      have "s + 1 = word_of_int (sint s + 1)" by (simp add: wi_hom_add [symmetric])
      moreover have "i64_range (sint s + 1)" using s unfolding i64_range_def by linarith
      ultimately have s1: "sint (s + 1) = sint s + 1" using sint_of_int_i64 by metis
      have "n - 1000000000 = word_of_int (sint n - 1000000000)" by (simp add: wi_hom_sub [symmetric])
      moreover have "sint (word_of_int (sint n - 1000000000) :: u32) = sint n - 1000000000"
        by (rule sint_of_int_i32) (use sn u in linarith)+
      ultimately have n1: "sint (n - 1000000000) = sint n - 1000000000" by metis
      have "0 < unat n" using True by (simp add: word_less_nat_alt)
      then have "int (unat n) < 1000000000" "0 < int (unat n)" using u by linarith+
      then have i: "uint n < 1000000000" "0 < uint n" by simp_all
      then have "\<bar>uint n - 1000000000\<bar> \<le> 999999999" "uint n \<le> 1000000000" by linarith+
      then show ?thesis
        using True u sn unfolding same_sign_nanos_def floor_deltas_def by (simp add: s1 n1)
    next
      case False
      then have "0 \<le> sint s \<or> n = 0" by (auto simp: word_gt_0)
      then show ?thesis
        using False u sn nu unfolding same_sign_nanos_def floor_deltas_def by auto
    qed
  qed
  then show ?thesis
    unfolding time_delta_documented_def by (auto simp: floor_deltas_def split: if_splits)
qed

theorem naive_datetime_exact_witness:
  "(\<exists>rest. c_decode_dist (naive_datetime_codec (rb_rev_ops True) gregorian_dates plain_times paired_datetimes) True
      (c_for_overwrite (naive_datetime_codec (rb_rev_ops True) gregorian_dates plain_times paired_datetimes))
      \<lparr>cap_buf = [3, 0, 59, 12], cap_extra = 0\<rparr> (restricted_new Canonical) =
      Done (((0, 0), 0, 0, 0, 0), Canonical, \<lparr>cap_buf = rest, cap_extra = 0\<rparr>)) \<longleftrightarrow>
    naive_datetime_valid gregorian_dates plain_times paired_datetimes ((0, 0), 0, 0, 0, 0) \<and>
      (\<exists>bs rest. c_encode (naive_datetime_codec (rb_rev_ops True) gregorian_dates plain_times paired_datetimes)
        ((0, 0), 0, 0, 0, 0) [] = Some bs \<and> [3, 0, 59, 12] = bs @ rest)"
  by (rule naive_datetime_exact [OF paired_documented]) simp

theorem date_as_midnight_witness:
  "\<exists>bs. c_encode (naive_date_codec (rb_rev_ops True) gregorian_dates) (2024, 365) [] = Some bs \<and>
    c_decode (naive_datetime_codec (rb_rev_ops True) gregorian_dates plain_times paired_datetimes) ((0, 0), 0, 0, 0, 0)
      \<lparr>cap_buf = bs @ [1], cap_extra = 1\<rparr> context_default =
      Done (((2024, 365), 0, 0, 0, 0), \<lparr>cap_buf = [1], cap_extra = 1\<rparr>)"
proof -
  have v: "naive_date_valid gregorian_dates (2024, 365)" by (simp add: naive_date_valid_def gregorian_dates_def)
  have e: "es_empty (naive_time_empty_state plain_times) = (0, 0, 0, 0)"
    "es_empty (naive_datetime_empty_state gregorian_dates plain_times paired_datetimes) = ((0, 0), 0, 0, 0, 0)"
    by (simp_all add: naive_time_empty_state_def naive_datetime_empty_state_def naive_date_empty_state_def plain_times_def
        gregorian_dates_def paired_datetimes_def Let_def)
  have w: "c_for_overwrite (naive_datetime_codec (rb_rev_ops True) gregorian_dates plain_times paired_datetimes) = ((0, 0), 0, 0, 0, 0)"
    by (simp add: e naive_datetime_codec_def array_proxied_codec_def proxied_codec_def)
  have p: "ndt_new paired_datetimes = Pair" by (simp add: paired_datetimes_def)
  show ?thesis
    using date_as_midnight [OF paired_documented v, of 1 "[1]" True context_default] by (auto simp: e(1) w p)
qed

theorem fixed_offset_conversions_witness:
  "fixed_offset_decode_proxy second_offsets (- 7, - 15, 0) \<noteq> Panic \<and>
    ((\<exists>z. fixed_offset_decode_proxy second_offsets (- 7, - 15, 0) = Done z) \<longleftrightarrow> hms_in_range (- 7) (- 15) 0)"
  using fixed_offset_conversions [OF second_offsets_documented, of "- 7" "- 15" 0] by auto

theorem chrono_delta_exact_witness:
  "(\<exists>rest. c_decode_dist (chrono_delta_codec (rb_rev_ops True) floor_deltas (0, 0)) True (0, 0)
      \<lparr>cap_buf = [0, 9], cap_extra = 0\<rparr> (restricted_new Canonical) =
      Done ((- 2, 500000000), Canonical, \<lparr>cap_buf = rest, cap_extra = 0\<rparr>)) \<longleftrightarrow>
    chrono_delta_valid floor_deltas (- 2, 500000000) \<and>
      (\<exists>bs rest. message_encode_value (duration_message (rb_rev_ops True))
        \<lparr>dur_seconds = td_num_seconds floor_deltas (- 2, 500000000), dur_nanos = td_subsec_nanos floor_deltas (- 2, 500000000)\<rparr> [] =
          Some bs \<and> [0, 9] = bs @ rest)"
  by (rule chrono_delta_exact [OF floor_deltas_documented])
    (simp_all add: restricted_new_def into_inner_def context_default_def RECURSION_LIMIT_def)

end
