(* ===== verification/Derive_Checks.thy ===== *)
theory Derive_Checks
  imports Field_Order "HOL-Library.Product_Lexorder"
begin

text \<open>
  What the derive macros check of a message before they generate code for it: \<^verbatim>\<open>bilrost-derive/src/attrs.rs\<close>
  (lists of tags), the constructors of fields and variants in \<^verbatim>\<open>field/ignored.rs\<close>, \<^verbatim>\<open>field/oneof.rs\<close>, \<^verbatim>\<open>field/value.rs\<close> and
  \<^verbatim>\<open>field/mod.rs\<close>, and the attributes of a message and of a oneof in \<^verbatim>\<open>lib.rs\<close>. Field numbers are inferred, and the
  tags checked against each other and against the reserved ones.

  The tokens are read by another crate. An item of a \<^verbatim>\<open>#[bilrost(..)]\<close> attribute is its path and what the reader of
  that path finds in its arguments; types and expressions are their text. A macro fails to compile in the
  same way when it returns an error and when it panics, so that both are an error here.
\<close>

section \<open>Attributes\<close>

datatype ident = Name string | Position nat

datatype arguments = NoArguments | TagNumber u32 | TagRanges "(u32 \<times> u32) list" | Tokens string | Unreadable

record meta =
  mt_path :: string
  mt_args :: arguments

text \<open>
  The lists \<^verbatim>\<open>#[bilrost(1)]\<close> of one integer literal, with its value when that is a \<^verbatim>\<open>u32\<close>, and \<^verbatim>\<open>#[bilrost(a, b = "c", ..)]\<close>,
  with its items when its tokens can be read as such, and any attribute that is not a list of that name.
\<close>

datatype attribute = BilrostTag "u32 option" | BilrostList "meta list option" | OtherAttribute

datatype derive_error =
    InvalidAttribute string | InvalidTagRange u32 u32 | TooLargeTagRange u32 u32 | DuplicatedInTagList u32
  | DuplicateAttribute string | UnknownAttributes "meta list" | IgnoreMixed "meta list" | MissingTag | NoTags
  | InvalidField ident derive_error | HasReservedTag ident u32 | MultipleHaveTag u32
  | DefaultsExclusive | IgnoredDistinguished | EmptyHasFields string | MissingVariantTag string
  | EmptyCombined string | NotOneField string nat | InVariant string derive_error | EnumerationHelper ident | NoVariants

type_synonym 'a derived = "('a, derive_error) result"

fun bilrost_attrs :: "attribute list \<Rightarrow> meta list derived" where
  "bilrost_attrs [] = Ok []"
| "bilrost_attrs (a # attrs) = (case a of
     BilrostTag t \<Rightarrow> res_map ((#) \<lparr>mt_path = ''tag'', mt_args = (case t of Some t \<Rightarrow> TagNumber t | None \<Rightarrow> Unreadable)\<rparr>)
       (bilrost_attrs attrs)
   | BilrostList (Some ms) \<Rightarrow> res_map ((@) ms) (bilrost_attrs attrs)
   | BilrostList None \<Rightarrow> Err (InvalidAttribute ''bilrost'')
   | OtherAttribute \<Rightarrow> bilrost_attrs attrs)"

definition tag_attr :: "meta \<Rightarrow> u32 option derived" where
  "tag_attr m = (if mt_path m \<noteq> ''tag'' then Ok None
     else case mt_args m of TagNumber t \<Rightarrow> Ok (Some t) | _ \<Rightarrow> Err (InvalidAttribute ''tag''))"

definition named_attr :: "meta \<Rightarrow> string \<Rightarrow> string option derived" where
  "named_attr m name = (if mt_path m \<noteq> name then Ok None
     else case mt_args m of Tokens t \<Rightarrow> Ok (Some t) | _ \<Rightarrow> Err (InvalidAttribute name))"

definition word_attr :: "meta \<Rightarrow> string \<Rightarrow> bool" where
  "word_attr m key \<longleftrightarrow> mt_path m = key \<and> mt_args m = NoArguments"

definition set_option :: "'a option \<Rightarrow> 'a \<Rightarrow> string \<Rightarrow> 'a option derived" where
  "set_option existing v name = (case existing of Some _ \<Rightarrow> Err (DuplicateAttribute name) | None \<Rightarrow> Ok (Some v))"

definition set_bool :: "bool \<Rightarrow> string \<Rightarrow> bool derived" where
  "set_bool b name = (if b then Err (DuplicateAttribute name) else Ok True)"

subsection \<open>Lists of tags\<close>

type_synonym tag_list = "(u32 \<times> u32) list"

fun check_ranges :: "nat option \<Rightarrow> tag_list \<Rightarrow> unit derived" where
  "check_ranges limit [] = Ok ()"
| "check_ranges limit ((first, final) # ranges) =
    (if final < first then Err (InvalidTagRange first final)
     else case limit of
         Some n \<Rightarrow> if n \<le> unat (final - first) + 1 then Err (TooLargeTagRange first final) else check_ranges limit ranges
       | None \<Rightarrow> check_ranges limit ranges)"

fun overlapping :: "tag_list \<Rightarrow> u32 option" where
  "overlapping (lower # higher # ranges) =
    (if fst higher \<le> snd lower then Some (fst higher) else overlapping (higher # ranges))"
| "overlapping _ = None"

definition tag_list_validate :: "nat option \<Rightarrow> tag_list \<Rightarrow> tag_list derived" where
  "tag_list_validate limit ranges = res_bind (check_ranges limit ranges) (\<lambda>_.
     let ranges = sort_key (\<lambda>r. (fst r, snd r)) ranges in
     case overlapping ranges of Some t \<Rightarrow> Err (DuplicatedInTagList t) | None \<Rightarrow> Ok ranges)"

definition tags_of_range :: "u32 \<times> u32 \<Rightarrow> u32 list" where
  "tags_of_range r = map of_nat [unat (fst r) ..< unat (snd r) + 1]"

definition iter_tags :: "tag_list \<Rightarrow> u32 list" where
  "iter_tags ranges = concat (map tags_of_range ranges)"

definition tag_list_attr :: "meta \<Rightarrow> string \<Rightarrow> nat option \<Rightarrow> tag_list option derived" where
  "tag_list_attr m name limit = (if mt_path m \<noteq> name then Ok None
     else case mt_args m of
         TagRanges ranges \<Rightarrow> res_map Some (tag_list_validate limit ranges)
       | _ \<Rightarrow> Err (InvalidAttribute name))"

section \<open>Fields\<close>

datatype init_mode = FromStructUpdate | DefaultPerField | Override string

record ignored_field =
  ig_ty :: string
  ig_init_mode :: init_mode

fun ignore_attrs :: "meta list \<Rightarrow> string option option \<Rightarrow> string option option derived" where
  "ignore_attrs [] found = Ok found"
| "ignore_attrs (m # ms) found = res_bind
    (if word_attr m ''ignore'' then Ok (Some None) else res_map (map_option Some) (named_attr m ''ignore''))
    (\<lambda>this. case this of
        None \<Rightarrow> ignore_attrs ms found
      | Some e \<Rightarrow> if found \<noteq> None then Err (DuplicateAttribute ''ignore'') else ignore_attrs ms (Some e))"

definition ignored_field_new :: "string \<Rightarrow> meta list \<Rightarrow> init_mode \<Rightarrow> ignored_field option derived" where
  "ignored_field_new ty ms default_mode = res_bind (ignore_attrs ms None) (\<lambda>found. case found of
     None \<Rightarrow> Ok None
   | Some e \<Rightarrow> if length ms > 1 then Err (IgnoreMixed ms)
       else Ok (Some \<lparr>ig_ty = ty, ig_init_mode = (case e of None \<Rightarrow> default_mode | Some e \<Rightarrow> Override e)\<rparr>))"

record oneof_inclusion =
  oi_ty :: string
  oi_tags :: "u32 list"

fun oneof_attrs :: "meta list \<Rightarrow> tag_list option \<Rightarrow> meta list \<Rightarrow> (tag_list option \<times> meta list) derived" where
  "oneof_attrs [] tags unknown = Ok (tags, unknown)"
| "oneof_attrs (m # ms) tags unknown = res_bind (tag_list_attr m ''oneof'' (Some 100)) (\<lambda>t. case t of
     Some ranges \<Rightarrow> res_bind (set_option tags ranges ''oneof'') (\<lambda>tags. oneof_attrs ms tags unknown)
   | None \<Rightarrow> oneof_attrs ms tags (unknown @ [m]))"

definition oneof_inclusion_new :: "string \<Rightarrow> meta list \<Rightarrow> oneof_inclusion option derived" where
  "oneof_inclusion_new ty ms = res_bind (oneof_attrs ms None []) (\<lambda>(tags, unknown). case tags of
     None \<Rightarrow> Ok None
   | Some ranges \<Rightarrow> if unknown \<noteq> [] then Err (UnknownAttributes unknown)
       else Ok (Some \<lparr>oi_ty = ty, oi_tags = iter_tags ranges\<rparr>))"

record value_type =
  vt_ty :: string
  vt_encoding :: string
  vt_recurses :: bool

fun value_attrs :: "meta list \<Rightarrow> string option \<Rightarrow> bool \<Rightarrow> meta list \<Rightarrow> (string option \<times> bool \<times> meta list) derived" where
  "value_attrs [] encoding recurses unknown = Ok (encoding, recurses, unknown)"
| "value_attrs (m # ms) encoding recurses unknown = res_bind (named_attr m ''encoding'') (\<lambda>t. case t of
     Some t \<Rightarrow> res_bind (set_option encoding t ''encoding'') (\<lambda>encoding. value_attrs ms encoding recurses unknown)
   | None \<Rightarrow> if word_attr m ''recurses''
       then res_bind (set_bool recurses ''recurses'') (\<lambda>recurses. value_attrs ms encoding recurses unknown)
       else value_attrs ms encoding recurses (unknown @ [m]))"

definition value_type_new :: "string \<Rightarrow> meta list \<Rightarrow> string \<Rightarrow> value_type derived" where
  "value_type_new ty ms default_encoding = res_bind (value_attrs ms None False []) (\<lambda>(encoding, recurses, unknown).
     if unknown \<noteq> [] then Err (UnknownAttributes unknown)
     else Ok \<lparr>vt_ty = ty, vt_encoding = (case encoding of Some e \<Rightarrow> e | None \<Rightarrow> default_encoding), vt_recurses = recurses\<rparr>)"

record single_field =
  sg_tag :: u32
  sg_value :: value_type
  sg_enumeration :: "string option"

fun single_attrs :: "meta list \<Rightarrow> u32 option \<Rightarrow> string option \<Rightarrow> meta list \<Rightarrow>
    (u32 option \<times> string option \<times> meta list) derived" where
  "single_attrs [] tag enumeration others = Ok (tag, enumeration, others)"
| "single_attrs (m # ms) tag enumeration others = res_bind (tag_attr m) (\<lambda>t. case t of
     Some t \<Rightarrow> res_bind (set_option tag t ''tag'') (\<lambda>tag. single_attrs ms tag enumeration others)
   | None \<Rightarrow> res_bind (named_attr m ''enumeration'') (\<lambda>e. case e of
       Some e \<Rightarrow> res_bind (set_option enumeration e ''enumeration'') (\<lambda>enumeration. single_attrs ms tag enumeration others)
     | None \<Rightarrow> single_attrs ms tag enumeration (others @ [m])))"

definition single_field_new :: "string \<Rightarrow> meta list \<Rightarrow> u32 option \<Rightarrow> single_field derived" where
  "single_field_new ty ms inferred_tag = res_bind (single_attrs ms None None []) (\<lambda>(tag, enumeration, others).
     res_bind (value_type_new ty others ''general'') (\<lambda>value.
       case (case tag of Some t \<Rightarrow> Some t | None \<Rightarrow> inferred_tag) of
         Some tag \<Rightarrow> Ok \<lparr>sg_tag = tag, sg_value = value, sg_enumeration = enumeration\<rparr>
       | None \<Rightarrow> Err MissingTag))"

datatype field_content = ValueField single_field | OneofField oneof_inclusion | IgnoredField ignored_field

record parsed_field =
  pf_ident :: ident
  pf_content :: field_content

definition field_new :: "ident \<Rightarrow> string \<Rightarrow> attribute list \<Rightarrow> u32 option \<Rightarrow> init_mode \<Rightarrow> parsed_field derived" where
  "field_new name ty attrs inferred_tag mode = res_bind (bilrost_attrs attrs) (\<lambda>ms.
     res_map (\<lambda>content. \<lparr>pf_ident = name, pf_content = content\<rparr>)
      (res_bind (ignored_field_new ty ms mode) (\<lambda>ig. case ig of
         Some f \<Rightarrow> Ok (IgnoredField f)
       | None \<Rightarrow> res_bind (oneof_inclusion_new ty ms) (\<lambda>oi. case oi of
           Some f \<Rightarrow> Ok (OneofField f)
         | None \<Rightarrow> res_map ValueField (single_field_new ty ms inferred_tag)))))"

definition is_ignored :: "parsed_field \<Rightarrow> bool" where
  "is_ignored f = (case pf_content f of IgnoredField _ \<Rightarrow> True | _ \<Rightarrow> False)"

definition has_enumeration_type :: "parsed_field \<Rightarrow> bool" where
  "has_enumeration_type f = (case pf_content f of ValueField v \<Rightarrow> sg_enumeration v \<noteq> None | _ \<Rightarrow> False)"

definition field_tags :: "parsed_field \<Rightarrow> u32 list" where
  "field_tags f = (case pf_content f of ValueField v \<Rightarrow> [sg_tag v] | OneofField oi \<Rightarrow> oi_tags oi | IgnoredField _ \<Rightarrow> [])"

section \<open>The fields of a message\<close>

record syn_field =
  sf_name :: "string option"
  sf_ty :: string
  sf_attrs :: "attribute list"

datatype syn_fields = NamedFields "syn_field list" | UnnamedFields "syn_field list" | UnitFields

primrec fields_list :: "syn_fields \<Rightarrow> syn_field list" where
  "fields_list (NamedFields fs) = fs"
| "fields_list (UnnamedFields fs) = fs"
| "fields_list UnitFields = []"

definition next_tag_after :: "u32 option \<Rightarrow> parsed_field \<Rightarrow> u32 option derived" where
  "next_tag_after next_tag f = (if is_ignored f then Ok next_tag
     else case last_tag field_tags f of
         None \<Rightarrow> Err NoTags
       | Some t \<Rightarrow> Ok (if t = - 1 then None else Some (t + 1)))"

fun number_fields :: "init_mode \<Rightarrow> nat \<Rightarrow> u32 option \<Rightarrow> syn_field list \<Rightarrow> parsed_field list derived" where
  "number_fields mode index next_tag [] = Ok []"
| "number_fields mode index next_tag (sf # sfs) =
    (let name = (case sf_name sf of Some n \<Rightarrow> Name n | None \<Rightarrow> Position index) in
     case field_new name (sf_ty sf) (sf_attrs sf) next_tag mode of
       Err e \<Rightarrow> Err (InvalidField name e)
     | Ok f \<Rightarrow> res_bind (next_tag_after next_tag f) (\<lambda>next_tag.
         res_map ((#) f) (number_fields mode (index + 1) next_tag sfs)))"

text \<open>A \<^verbatim>\<open>BTreeMap\<close> collected from pairs, later ones replacing earlier ones, and the first entry in a range.\<close>

definition first_in_range :: "(u32 \<times> 'a) list \<Rightarrow> u32 \<times> u32 \<Rightarrow> (u32 \<times> 'a) option" where
  "first_in_range pairs r =
    (case sort (filter (\<lambda>t. fst r \<le> t \<and> t \<le> snd r) (map fst pairs)) of
       [] \<Rightarrow> None
     | t # _ \<Rightarrow> map_option (Pair t) (map_of (rev pairs) t))"

fun check_reserved :: "(u32 \<times> ident) list \<Rightarrow> tag_list \<Rightarrow> unit derived" where
  "check_reserved all_tags [] = Ok ()"
| "check_reserved all_tags (r # ranges) = (case first_in_range all_tags r of
     Some (forbidden, name) \<Rightarrow> Err (HasReservedTag name forbidden)
   | None \<Rightarrow> check_reserved all_tags ranges)"

fun adjacent_equal :: "u32 list \<Rightarrow> u32 option" where
  "adjacent_equal (a # b # ts) = (if a = b then Some a else adjacent_equal (b # ts))"
| "adjacent_equal _ = None"

definition check_duplicates :: "u32 list \<Rightarrow> unit derived" where
  "check_duplicates ts = (case adjacent_equal (sort ts) of Some t \<Rightarrow> Err (MultipleHaveTag t) | None \<Rightarrow> Ok ())"

definition parse_message_fields :: "syn_fields \<Rightarrow> init_mode \<Rightarrow> tag_list option \<Rightarrow> parsed_field list derived" where
  "parse_message_fields input mode reserved =
    (let next_tag = Some (case input of UnnamedFields _ \<Rightarrow> 0 | _ \<Rightarrow> 1) in
     res_bind (number_fields mode 0 next_tag (fields_list input)) (\<lambda>fs.
       let all_tags = concat (map (\<lambda>f. map (\<lambda>t. (t, pf_ident f)) (field_tags f)) fs) in
       res_bind (check_reserved all_tags (case reserved of Some ranges \<Rightarrow> ranges | None \<Rightarrow> [])) (\<lambda>_.
         res_bind (check_duplicates (concat (map field_tags fs))) (\<lambda>_. Ok fs))))"

section \<open>The attributes of a message\<close>

record message_options =
  mo_reserved :: "tag_list option"
  mo_distinguished :: bool
  mo_borrowed_only :: bool
  mo_default_per_field :: bool
  mo_default :: "string option"

fun message_attrs :: "meta list \<Rightarrow> message_options \<Rightarrow> meta list \<Rightarrow> (message_options \<times> meta list) derived" where
  "message_attrs [] opts unknown = Ok (opts, unknown)"
| "message_attrs (m # ms) opts unknown = res_bind (tag_list_attr m ''reserved_tags'' None) (\<lambda>t. case t of
     Some ranges \<Rightarrow> res_bind (set_option (mo_reserved opts) ranges ''reserved_tags'') (\<lambda>r.
       message_attrs ms (opts\<lparr>mo_reserved := r\<rparr>) unknown)
   | None \<Rightarrow>
     if word_attr m ''distinguished'' then
       res_bind (set_bool (mo_distinguished opts) ''distinguished'') (\<lambda>b. message_attrs ms (opts\<lparr>mo_distinguished := b\<rparr>) unknown)
     else if word_attr m ''borrowed_only'' then
       res_bind (set_bool (mo_borrowed_only opts) ''borrowed_only'') (\<lambda>b. message_attrs ms (opts\<lparr>mo_borrowed_only := b\<rparr>) unknown)
     else if word_attr m ''default_per_field'' then
       res_bind (set_bool (mo_default_per_field opts) ''default_per_field'') (\<lambda>b.
         message_attrs ms (opts\<lparr>mo_default_per_field := b\<rparr>) unknown)
     else res_bind (named_attr m ''default'') (\<lambda>e. case e of
         Some e \<Rightarrow> res_bind (set_option (mo_default opts) e ''default'') (\<lambda>d. message_attrs ms (opts\<lparr>mo_default := d\<rparr>) unknown)
       | None \<Rightarrow> message_attrs ms opts (unknown @ [m])))"

definition no_message_options :: message_options where
  "no_message_options = \<lparr>mo_reserved = None, mo_distinguished = False, mo_borrowed_only = False,
     mo_default_per_field = False, mo_default = None\<rparr>"

text \<open>The options, the ignored fields and the others of a struct that is a message.\<close>

definition check_message ::
    "attribute list \<Rightarrow> syn_fields \<Rightarrow> (message_options \<times> parsed_field list \<times> parsed_field list) derived" where
  "check_message attrs input =
    res_bind (res_bind (bilrost_attrs attrs) (\<lambda>ms. message_attrs ms no_message_options [])) (\<lambda>(opts, unknown).
     if mo_default_per_field opts \<and> mo_default opts \<noteq> None then Err DefaultsExclusive
     else if unknown \<noteq> [] then Err (UnknownAttributes unknown)
     else let mode = (if mo_default_per_field opts then DefaultPerField else FromStructUpdate) in
       res_bind (parse_message_fields input mode (mo_reserved opts)) (\<lambda>fs.
         let (ignored, unsorted) = partition is_ignored fs in
         if mo_distinguished opts \<and> ignored \<noteq> [] then Err IgnoredDistinguished
         else Ok (opts, ignored, unsorted)))"

section \<open>The variants of a oneof\<close>

datatype variant_contents = VariantValue ident value_type | VariantMessage "parsed_field list"

record parsed_variant =
  pv_tag :: u32
  pv_ident :: string
  pv_contents :: variant_contents

record syn_variant =
  sv_ident :: string
  sv_attrs :: "attribute list"
  sv_fields :: syn_fields

fun variant_attrs :: "meta list \<Rightarrow> u32 option \<Rightarrow> bool \<Rightarrow> bool \<Rightarrow> meta list \<Rightarrow>
    (u32 option \<times> bool \<times> bool \<times> meta list) derived" where
  "variant_attrs [] tag message blank others = Ok (tag, message, blank, others)"
| "variant_attrs (m # ms) tag message blank others = res_bind (tag_attr m) (\<lambda>t. case t of
     Some t \<Rightarrow> res_bind (set_option tag t ''tag'') (\<lambda>tag. variant_attrs ms tag message blank others)
   | None \<Rightarrow>
     if word_attr m ''message'' then
       res_bind (set_bool message ''message'') (\<lambda>message. variant_attrs ms tag message blank others)
     else if word_attr m ''empty'' then
       res_bind (set_bool blank ''empty'') (\<lambda>blank. variant_attrs ms tag message blank others)
     else variant_attrs ms tag message blank (others @ [m]))"

fun reserved_attrs :: "meta list \<Rightarrow> tag_list option \<Rightarrow> meta list \<Rightarrow> (tag_list option \<times> meta list) derived" where
  "reserved_attrs [] reserved unknown = Ok (reserved, unknown)"
| "reserved_attrs (m # ms) reserved unknown = res_bind (tag_list_attr m ''reserved_tags'' None) (\<lambda>t. case t of
     Some ranges \<Rightarrow> res_bind (set_option reserved ranges ''reserved_tags'') (\<lambda>reserved. reserved_attrs ms reserved unknown)
   | None \<Rightarrow> reserved_attrs ms reserved (unknown @ [m]))"

definition value_variant_new :: "syn_variant \<Rightarrow> u32 \<Rightarrow> meta list \<Rightarrow> parsed_variant derived" where
  "value_variant_new v tag others = (case fields_list (sv_fields v) of
     [f] \<Rightarrow> res_map (\<lambda>value. \<lparr>pv_tag = tag, pv_ident = sv_ident v,
         pv_contents = VariantValue (case sf_name f of Some n \<Rightarrow> Name n | None \<Rightarrow> Position 0) value\<rparr>)
       (value_type_new (sf_ty f) others ''general_packed'')
   | fs \<Rightarrow> Err (NotOneField (sv_ident v) (length fs)))"

definition message_variant_new :: "syn_variant \<Rightarrow> u32 \<Rightarrow> meta list \<Rightarrow> parsed_variant derived" where
  "message_variant_new v tag others = res_bind (reserved_attrs others None []) (\<lambda>(reserved, unknown).
     if unknown \<noteq> [] then Err (UnknownAttributes unknown)
     else case parse_message_fields (sv_fields v) DefaultPerField reserved of
         Err e \<Rightarrow> Err (InVariant (sv_ident v) e)
       | Ok fs \<Rightarrow> (case find has_enumeration_type fs of
           Some f \<Rightarrow> Err (InVariant (sv_ident v) (EnumerationHelper (pf_ident f)))
         | None \<Rightarrow> Ok \<lparr>pv_tag = tag, pv_ident = sv_ident v, pv_contents = VariantMessage fs\<rparr>))"

definition oneof_variant_new :: "syn_variant \<Rightarrow> parsed_variant option derived" where
  "oneof_variant_new v =
    res_bind (res_bind (bilrost_attrs (sv_attrs v)) (\<lambda>ms. variant_attrs ms None False False []))
    (\<lambda>(tag, message, blank, others).
     if tag = None \<and> \<not> message \<and> others = [] then
       if fields_list (sv_fields v) = [] then Ok None
       else if blank then Err (EmptyHasFields (sv_ident v))
       else Err (MissingVariantTag (sv_ident v))
     else if blank then Err (EmptyCombined (sv_ident v))
     else case tag of
         None \<Rightarrow> Err (MissingVariantTag (sv_ident v))
       | Some tag \<Rightarrow> res_map Some (if message then message_variant_new v tag others else value_variant_new v tag others))"

definition has_ignored_fields :: "parsed_variant \<Rightarrow> bool" where
  "has_ignored_fields v = (case pv_contents v of VariantMessage fs \<Rightarrow> list_ex is_ignored fs | _ \<Rightarrow> False)"

record oneof_options =
  oo_reserved :: "tag_list option"
  oo_distinguished :: bool
  oo_borrowed_only :: bool

fun oneof_options_attrs :: "meta list \<Rightarrow> oneof_options \<Rightarrow> meta list \<Rightarrow> (oneof_options \<times> meta list) derived" where
  "oneof_options_attrs [] opts unknown = Ok (opts, unknown)"
| "oneof_options_attrs (m # ms) opts unknown = res_bind (tag_list_attr m ''reserved_tags'' None) (\<lambda>t. case t of
     Some ranges \<Rightarrow> res_bind (set_option (oo_reserved opts) ranges ''reserved_tags'') (\<lambda>r.
       oneof_options_attrs ms (opts\<lparr>oo_reserved := r\<rparr>) unknown)
   | None \<Rightarrow>
     if word_attr m ''distinguished'' then
       res_bind (set_bool (oo_distinguished opts) ''distinguished'') (\<lambda>b. oneof_options_attrs ms (opts\<lparr>oo_distinguished := b\<rparr>) unknown)
     else if word_attr m ''borrowed_only'' then
       res_bind (set_bool (oo_borrowed_only opts) ''borrowed_only'') (\<lambda>b. oneof_options_attrs ms (opts\<lparr>oo_borrowed_only := b\<rparr>) unknown)
     else oneof_options_attrs ms opts (unknown @ [m]))"

fun oneof_variants_new ::
    "syn_variant list \<Rightarrow> string option \<Rightarrow> parsed_variant list \<Rightarrow> (string option \<times> parsed_variant list) derived" where
  "oneof_variants_new [] empty_variant variants = Ok (empty_variant, variants)"
| "oneof_variants_new (v # vs) empty_variant variants = res_bind (oneof_variant_new v) (\<lambda>r. case r of
     Some variant \<Rightarrow> oneof_variants_new vs empty_variant (variants @ [variant])
   | None \<Rightarrow> res_bind (set_option empty_variant (sv_ident v) ''empty'') (\<lambda>empty_variant.
       oneof_variants_new vs empty_variant variants))"

definition preprocess_oneof ::
    "attribute list \<Rightarrow> syn_variant list \<Rightarrow> (oneof_options \<times> string option \<times> parsed_variant list) derived" where
  "preprocess_oneof attrs input =
    res_bind (res_bind (bilrost_attrs attrs) (\<lambda>ms. oneof_options_attrs ms
      \<lparr>oo_reserved = None, oo_distinguished = False, oo_borrowed_only = False\<rparr> [])) (\<lambda>(opts, unknown).
     if unknown \<noteq> [] then Err (UnknownAttributes unknown)
     else res_bind (oneof_variants_new input None []) (\<lambda>(empty_variant, variants).
       if oo_distinguished opts \<and> list_ex has_ignored_fields variants then Err IgnoredDistinguished
       else res_bind (check_reserved (map (\<lambda>v. (pv_tag v, Name (pv_ident v))) variants)
           (case oo_reserved opts of Some ranges \<Rightarrow> ranges | None \<Rightarrow> [])) (\<lambda>_.
         Ok (opts, empty_variant, variants))))"

text \<open>What \<^verbatim>\<open>try_oneof\<close> adds, with the constant \<^verbatim>\<open>FIELD_TAGS\<close> of the implementation it generates.\<close>

definition sorted_tags :: "parsed_variant list \<Rightarrow> u32 list" where
  "sorted_tags variants = sort (map pv_tag variants)"

definition check_oneof ::
    "attribute list \<Rightarrow> syn_variant list \<Rightarrow> (oneof_options \<times> string option \<times> parsed_variant list) derived" where
  "check_oneof attrs input = res_bind (preprocess_oneof attrs input) (\<lambda>(opts, empty_variant, variants).
     res_bind (check_duplicates (map pv_tag variants)) (\<lambda>_. Ok (opts, empty_variant, variants)))"

text \<open>The static assertion for a field that is a oneof; \<^verbatim>\<open>None\<close> of the guard is no assertion.\<close>

fun assert_tags_are_equal :: "u32 list \<Rightarrow> u32 list \<Rightarrow> bool" where
  "assert_tags_are_equal (a # as) (b # bs) \<longleftrightarrow> a = b \<and> assert_tags_are_equal as bs"
| "assert_tags_are_equal [] [] \<longleftrightarrow> True"
| "assert_tags_are_equal _ _ \<longleftrightarrow> False"

definition tag_list_guard :: "parsed_field \<Rightarrow> u32 list \<Rightarrow> bool" where
  "tag_list_guard f oneof_tags = (case pf_content f of
     OneofField oi \<Rightarrow> assert_tags_are_equal oneof_tags (sort (oi_tags oi))
   | _ \<Rightarrow> True)"

end
