(* ===== verification/Derive_Properties.thy ===== *)
theory Derive_Properties
  imports Derive_Checks
begin

text \<open>
  What the checks of the derive macros establish: lists of tags denote sets of tags, whatever their spelling; the fields
  of an accepted message have tags of their own, from which the order of the fields can be computed; and a field that
  is a oneof has the tags of its type.
\<close>

section \<open>Lists of tags\<close>

lemma res_Ok_unit: "(r :: unit derived) = Ok u \<longleftrightarrow> r = Ok ()" by simp

definition range_ok :: "nat option \<Rightarrow> u32 \<times> u32 \<Rightarrow> bool" where
  "range_ok limit r \<longleftrightarrow> fst r \<le> snd r \<and> (case limit of Some n \<Rightarrow> unat (snd r - fst r) + 1 < n | None \<Rightarrow> True)"

lemma check_ranges_Ok: "check_ranges limit ranges = Ok () \<longleftrightarrow> (\<forall>r \<in> set ranges. range_ok limit r)"
  by (induction limit ranges rule: check_ranges.induct) (auto simp: range_ok_def not_less not_le split: option.split)

lemma set_tags_of_range: "set (tags_of_range r) = {fst r .. snd r}"
proof
  have "t \<in> set (tags_of_range r)" if "fst r \<le> t" "t \<le> snd r" for t
  proof -
    have "unat t \<in> {unat (fst r) ..< unat (snd r) + 1}" using that by (simp add: word_le_nat_alt)
    then have "of_nat (unat t) \<in> set (tags_of_range r)"
      unfolding tags_of_range_def set_map set_upt by (rule imageI)
    then show ?thesis by simp
  qed
  then show "{fst r .. snd r} \<subseteq> set (tags_of_range r)" by auto
  show "set (tags_of_range r) \<subseteq> {fst r .. snd r}"
  proof
    fix t assume "t \<in> set (tags_of_range r)"
    then obtain n where n: "t = of_nat n" "unat (fst r) \<le> n" "n \<le> unat (snd r)" by (auto simp: tags_of_range_def)
    then have "unat t = n" using unat_lt [of "snd r"] by (simp add: unat_of_nat)
    then show "t \<in> {fst r .. snd r}" using n by (simp add: word_le_nat_alt)
  qed
qed

lemma strict_tags_of_range: "sorted_wrt (<) (tags_of_range r)"
proof -
  have "of_nat m < (of_nat n :: u32)" if "m < n" "n < unat (snd r) + 1" for m n
    using that unat_lt [of "snd r"] by (simp add: word_less_nat_alt unat_of_nat)
  then show ?thesis unfolding tags_of_range_def sorted_wrt_map
    by (intro sorted_wrt_mono_rel [OF _ sorted_wrt_upt]) auto
qed

lemma set_iter_tags: "set (iter_tags ranges) = (\<Union>r \<in> set ranges. {fst r .. snd r})"
  by (simp add: iter_tags_def set_tags_of_range)

lemma iter_tags_simps [simp]:
  "iter_tags [] = []" "iter_tags (r # ranges) = tags_of_range r @ iter_tags ranges"
  by (simp_all add: iter_tags_def)

lemma iter_tags_mset: "mset rs = mset ranges \<Longrightarrow> mset (iter_tags rs) = mset (iter_tags ranges)"
  by (metis iter_tags_def mset_concat mset_map sum_mset_sum_list)

lemma overlapping_None:
  assumes "\<forall>r \<in> set rs. fst r \<le> snd r"
  shows "overlapping rs = None \<longleftrightarrow> sorted_wrt (\<lambda>a b. snd a < fst b) rs"
  using assms
proof (induction rs rule: overlapping.induct)
  case (1 lower higher ranges)
  have "snd lower < fst r" if "snd lower < fst higher" "snd higher < fst r" "fst higher \<le> snd higher" for r :: "u32 \<times> u32"
    using that by (meson less_le_trans less_trans)
  with 1 show ?case by (auto simp: not_le)
qed simp_all

lemma strict_iter_tags:
  assumes "sorted_wrt (\<lambda>a b. snd a < fst b) rs"
  shows "sorted_wrt (<) (iter_tags rs)"
  using assms
proof (induction rs)
  case (Cons r rs)
  have "x < y" if "x \<in> {fst r .. snd r}" "y \<in> (\<Union>r \<in> set rs. {fst r .. snd r})" for x y
    using that Cons.prems by fastforce
  then show ?case using Cons by (simp add: sorted_wrt_append strict_tags_of_range set_tags_of_range set_iter_tags)
qed simp

lemma sorted_ranges_apart:
  assumes "sorted (map (\<lambda>r. (fst r, snd r)) rs)" "\<forall>r \<in> set rs. fst r \<le> snd r" "distinct (iter_tags rs)"
  shows "sorted_wrt (\<lambda>a b. snd a < fst b) rs"
  using assms
proof (induction rs)
  case (Cons r rs)
  have "snd r < fst r'" if "r' \<in> set rs" for r'
  proof (rule ccontr)
    assume "\<not> snd r < fst r'"
    moreover have "fst r \<le> fst r'" using Cons.prems(1) that by (auto simp: less_eq_prod_def)
    ultimately have "fst r' \<in> set (tags_of_range r)" by (simp add: set_tags_of_range)
    moreover have "fst r' \<in> set (iter_tags rs)" using that Cons.prems(2) by (force simp: set_iter_tags)
    ultimately show False using Cons.prems(3) by auto
  qed
  then show ?case using Cons by simp
qed simp

lemma strict_sort: "sorted_wrt (<) (xs :: 'a :: linorder list) \<Longrightarrow> mset xs = mset ys \<Longrightarrow> xs = sort ys \<and> distinct ys"
  by (metis mset_eq_imp_distinct_iff properties_for_sort strict_sorted_iff)

lemma validate_Ok:
  "tag_list_validate limit ranges = Ok rs \<longleftrightarrow>
    rs = sort_key (\<lambda>r. (fst r, snd r)) ranges \<and> (\<forall>r \<in> set ranges. range_ok limit r) \<and> distinct (iter_tags ranges)"
proof -
  let ?rs = "sort_key (\<lambda>r. (fst r, snd r)) ranges"
  have "overlapping ?rs = None \<longleftrightarrow> distinct (iter_tags ranges)" if "\<forall>r \<in> set ranges. range_ok limit r"
  proof -
    have r: "\<forall>r \<in> set ?rs. fst r \<le> snd r" using that by (simp add: range_ok_def)
    have m: "mset (iter_tags ?rs) = mset (iter_tags ranges)" by (rule iter_tags_mset) simp
    have "sorted_wrt (\<lambda>a b. snd a < fst b) ?rs \<longleftrightarrow> distinct (iter_tags ranges)"
      using strict_sort [OF strict_iter_tags m] sorted_ranges_apart [OF sorted_sort_key r] mset_eq_imp_distinct_iff [OF m] by blast
    then show ?thesis by (simp only: overlapping_None [OF r])
  qed
  then show ?thesis by (auto simp: tag_list_validate_def check_ranges_Ok Let_def split: option.split)
qed

lemma validate_tags:
  assumes "tag_list_validate limit ranges = Ok rs"
  shows "iter_tags rs = sort (iter_tags ranges)" "distinct (iter_tags rs)"
proof -
  have rs: "rs = sort_key (\<lambda>r. (fst r, snd r)) ranges" and ok: "\<forall>r \<in> set ranges. range_ok limit r" and d: "distinct (iter_tags ranges)"
    using assms by (simp_all add: validate_Ok)
  have m: "mset (iter_tags rs) = mset (iter_tags ranges)" by (rule iter_tags_mset) (simp add: rs)
  have "sorted_wrt (\<lambda>a b. snd a < fst b) rs"
    unfolding rs
  proof (rule sorted_ranges_apart [OF sorted_sort_key])
    show "\<forall>r \<in> set (sort_key (\<lambda>r. (fst r, snd r)) ranges). fst r \<le> snd r" using ok by (simp add: range_ok_def)
    show "distinct (iter_tags (sort_key (\<lambda>r. (fst r, snd r)) ranges))"
      using d mset_eq_imp_distinct_iff [OF m] rs by simp
  qed
  then show "iter_tags rs = sort (iter_tags ranges)" using strict_sort [OF strict_iter_tags m] by blast
  show "distinct (iter_tags rs)" using d mset_eq_imp_distinct_iff [OF m] by simp
qed

section \<open>The checks of the tags\<close>

lemma first_in_range_None: "first_in_range pairs r = None \<longleftrightarrow> (\<forall>t \<in> fst ` set pairs. \<not> (fst r \<le> t \<and> t \<le> snd r))"
proof -
  let ?hits = "sort (filter (\<lambda>t. fst r \<le> t \<and> t \<le> snd r) (map fst pairs))"
  have hits: "set ?hits = {t \<in> fst ` set pairs. fst r \<le> t \<and> t \<le> snd r}" by auto
  show ?thesis
  proof (cases ?hits)
    case Nil
    then show ?thesis using hits by (auto simp: first_in_range_def)
  next
    case (Cons t ts)
    then have t: "t \<in> fst ` set pairs" "fst r \<le> t" "t \<le> snd r" using hits by auto
    then have "map_of (rev pairs) t \<noteq> None" by (simp add: map_of_eq_None_iff)
    then show ?thesis using Cons t by (auto simp: first_in_range_def)
  qed
qed

lemma check_reserved_Ok:
  "check_reserved pairs ranges = Ok () \<longleftrightarrow> (\<forall>t \<in> fst ` set pairs. \<forall>r \<in> set ranges. \<not> (fst r \<le> t \<and> t \<le> snd r))"
proof (induction ranges)
  case (Cons r ranges)
  show ?case
  proof (cases "first_in_range pairs r")
    case None
    then show ?thesis using Cons None [unfolded first_in_range_None] by auto
  next
    case (Some p)
    then have "\<not> (\<forall>t \<in> fst ` set pairs. \<not> (fst r \<le> t \<and> t \<le> snd r))" using first_in_range_None [of pairs r] by simp
    then show ?thesis using Some by (cases p) auto
  qed
qed simp

lemma adjacent_equal_None: "sorted ts \<Longrightarrow> adjacent_equal ts = None \<longleftrightarrow> distinct ts"
  by (induction ts rule: adjacent_equal.induct) (auto simp: le_less)

lemma check_duplicates_Ok: "check_duplicates ts = Ok () \<longleftrightarrow> distinct ts"
  using adjacent_equal_None [of "sort ts"] by (cases "adjacent_equal (sort ts)") (simp_all add: check_duplicates_def)

section \<open>The fields of a message\<close>

lemma number_fields_tagged:
  "number_fields mode i nt sfs = Ok fs \<Longrightarrow> f \<in> set fs \<Longrightarrow> \<not> is_ignored f \<Longrightarrow> field_tags f \<noteq> []"
proof (induction mode i nt sfs arbitrary: fs rule: number_fields.induct)
  case (2 mode i nt sf sfs)
  obtain g where g: "field_new (case sf_name sf of Some n \<Rightarrow> Name n | None \<Rightarrow> Position i) (sf_ty sf) (sf_attrs sf) nt mode = Ok g"
    using 2(2) by (simp add: Let_def split: result.splits)
  obtain n gs where n: "next_tag_after nt g = Ok n" "number_fields mode (i + 1) n sfs = Ok gs" "fs = g # gs"
    using 2(2) g by (simp add: Let_def) blast
  show ?case
  proof (cases "f = g")
    case True
    then show ?thesis using n(1) 2(4) by (auto simp: next_tag_after_def last_tag_def split: if_splits)
  next
    case False
    then show ?thesis using 2(1) [OF refl g n(2)] 2(3,4) n(3) by simp
  qed
qed simp

lemma tags_of_unignored: "concat (map field_tags (filter (\<lambda>f. \<not> is_ignored f) fs)) = concat (map field_tags fs)"
  by (induction fs) (auto simp: is_ignored_def field_tags_def split: field_content.splits)

lemma parse_message_fields_Ok:
  "parse_message_fields input mode reserved = Ok fs \<longleftrightarrow>
    number_fields mode 0 (Some (case input of UnnamedFields _ \<Rightarrow> 0 | _ \<Rightarrow> 1)) (fields_list input) = Ok fs \<and>
    distinct (concat (map field_tags fs)) \<and>
    (\<forall>t \<in> set (concat (map field_tags fs)). \<forall>r \<in> set (case reserved of Some ranges \<Rightarrow> ranges | None \<Rightarrow> []).
      \<not> (fst r \<le> t \<and> t \<le> snd r))"
  by (auto simp: parse_message_fields_def Let_def check_reserved_Ok check_duplicates_Ok image_iff)

text \<open>A struct whose fields carry no attribute of ours.\<close>

definition plain_fields :: "syn_field list \<Rightarrow> bool" where
  "plain_fields sfs \<longleftrightarrow> (\<forall>sf \<in> set sfs. bilrost_attrs (sf_attrs sf) = Ok [])"

definition plain_field_of :: "nat \<Rightarrow> u32 \<Rightarrow> syn_field \<Rightarrow> parsed_field" where
  "plain_field_of index tag sf = \<lparr>pf_ident = (case sf_name sf of Some n \<Rightarrow> Name n | None \<Rightarrow> Position index),
     pf_content = ValueField \<lparr>sg_tag = tag, sg_value = \<lparr>vt_ty = sf_ty sf, vt_encoding = ''general'', vt_recurses = False\<rparr>,
       sg_enumeration = None\<rparr>\<rparr>"

lemma field_new_plain:
  "bilrost_attrs attrs = Ok [] \<Longrightarrow> field_new name ty attrs inferred mode = (case inferred of
     Some tag \<Rightarrow> Ok \<lparr>pf_ident = name, pf_content = ValueField \<lparr>sg_tag = tag,
       sg_value = \<lparr>vt_ty = ty, vt_encoding = ''general'', vt_recurses = False\<rparr>, sg_enumeration = None\<rparr>\<rparr>
   | None \<Rightarrow> Err MissingTag)"
  by (simp add: field_new_def ignored_field_new_def oneof_inclusion_new_def single_field_new_def value_type_new_def split: option.split)

lemma next_tag_after_plain:
  "next_tag_after nt (plain_field_of i t sf) = Ok (if t = - 1 then None else Some (t + 1))"
  by (simp add: next_tag_after_def is_ignored_def last_tag_def field_tags_def plain_field_of_def)

lemma number_plain_fields:
  assumes "plain_fields sfs" "start + length sfs \<le> 2 ^ 32"
  shows "number_fields mode i (if start = 2 ^ 32 then None else Some (of_nat start)) sfs =
    Ok (map (\<lambda>(k, sf). plain_field_of (i + k) (of_nat (start + k)) sf) (enumerate 0 sfs))"
  using assms
proof (induction sfs arbitrary: i start)
  case (Cons sf sfs)
  have start: "start < 2 ^ 32" using Cons.prems(2) by simp
  have succ: "(if (of_nat start :: u32) = - 1 then None else Some (of_nat start + 1 :: u32)) =
      (if start + 1 = 2 ^ 32 then None else Some (of_nat (start + 1)))"
  proof -
    have "(of_nat start :: u32) = - 1 \<longleftrightarrow> start + 1 = 2 ^ 32"
    proof -
      have "(- 1 :: u32) = 4294967295" by simp
      then have "unat (- 1 :: u32) = 4294967295" by (simp only:) simp
      then show ?thesis using start by (auto simp: word_unat_eq_iff unat_of_nat)
    qed
    then show ?thesis by simp
  qed
  have new: "field_new (case sf_name sf of Some n \<Rightarrow> Name n | None \<Rightarrow> Position i) (sf_ty sf) (sf_attrs sf)
      (Some (of_nat start)) mode = Ok (plain_field_of i (of_nat start) sf)"
    using Cons.prems(1) by (simp add: field_new_plain plain_fields_def plain_field_of_def)
  have rest: "number_fields mode (i + 1) (if start + 1 = 2 ^ 32 then None else Some (of_nat (start + 1))) sfs =
      Ok (map (\<lambda>(k, sf). plain_field_of (i + 1 + k) (of_nat (start + 1 + k)) sf) (enumerate 0 sfs))"
    using Cons by (intro Cons.IH) (simp_all add: plain_fields_def)
  have shift: "map (\<lambda>(k, sf). plain_field_of (i + 1 + k) (of_nat (start + 1 + k)) sf) (enumerate 0 sfs) =
      map (\<lambda>(k, sf). plain_field_of (i + k) (of_nat (start + k)) sf) (enumerate 1 sfs)"
    unfolding enumerate_Suc_eq [of 0, simplified] One_nat_def by (simp add: comp_def prod.case_distrib case_prod_beta ac_simps)
  show ?case
    using start new rest unfolding shift succ [symmetric]
    by (simp add: next_tag_after_plain)
qed simp

section \<open>The tags of a oneof\<close>

lemma assert_tags_are_equal_iff [simp]: "assert_tags_are_equal ts us \<longleftrightarrow> ts = us"
  by (induction ts us rule: assert_tags_are_equal.induct) auto

lemma oneof_attrs_validated:
  "oneof_attrs ms tags unknown = Ok (Some rs, unknown') \<Longrightarrow>
    (\<And>rs. tags = Some rs \<Longrightarrow> \<exists>ranges. tag_list_validate (Some 100) ranges = Ok rs) \<Longrightarrow>
    \<exists>ranges. tag_list_validate (Some 100) ranges = Ok rs"
proof (induction ms tags unknown rule: oneof_attrs.induct)
  case (2 m ms tags unknown)
  show ?case
  proof (cases "tag_list_attr m ''oneof'' (Some 100)")
    case (Ok t)
    show ?thesis
    proof (cases t)
      case None
      then show ?thesis using 2(1,3,4) Ok by auto
    next
      case (Some r)
      have v: "\<exists>ranges. tag_list_validate (Some 100) ranges = Ok r"
        using Ok Some by (auto simp: tag_list_attr_def split: if_splits arguments.splits)
      then show ?thesis using 2(3) Ok Some 2(2) by (cases tags) (auto simp: set_option_def)
    qed
  qed (use 2(3) in simp)
qed auto

lemma oneof_inclusion_tags:
  assumes "oneof_inclusion_new ty ms = Ok (Some oi)"
  shows "distinct (oi_tags oi)" "sorted (oi_tags oi)"
proof -
  obtain rs unknown where a: "oneof_attrs ms None [] = Ok (Some rs, unknown)" "oi_tags oi = iter_tags rs"
    using assms by (auto simp: oneof_inclusion_new_def split: option.splits if_splits)
  obtain ranges where v: "tag_list_validate (Some 100) ranges = Ok rs" using oneof_attrs_validated [OF a(1)] by auto
  show "distinct (oi_tags oi)" "sorted (oi_tags oi)" using validate_tags [OF v] a(2) by simp_all
qed

lemma check_oneof_distinct: "check_oneof attrs input = Ok (opts, blank, variants) \<Longrightarrow> distinct (map pv_tag variants)"
  by (auto simp: check_oneof_def check_duplicates_Ok)

text \<open>The static assertion for a oneof holds exactly when the field lists the tags of the type, in any order and spelling.\<close>

lemma tag_list_guard_iff:
  assumes "oneof_inclusion_new ty ms = Ok (Some oi)" "pf_content f = OneofField oi" "check_oneof attrs input = Ok (opts, blank, variants)"
  shows "tag_list_guard f (sorted_tags variants) \<longleftrightarrow> set (oi_tags oi) = pv_tag ` set variants"
proof -
  note inclusion = oneof_inclusion_tags [OF assms(1)]
  have "sorted (sorted_tags variants)" "distinct (sorted_tags variants)" "set (sorted_tags variants) = pv_tag ` set variants"
    using check_oneof_distinct [OF assms(3)] by (simp_all add: sorted_tags_def)
  then have "sorted_tags variants = oi_tags oi \<longleftrightarrow> set (oi_tags oi) = pv_tag ` set variants"
    using inclusion by (metis sorted_distinct_set_unique)
  then show ?thesis using inclusion(2) assms(2) by (simp add: tag_list_guard_def sorted_sort_id)
qed

section \<open>What is accepted\<close>

lemma message_accepted_tags:
  assumes "check_message attrs input = Ok (opts, ignored, unsorted)"
  shows "own_tags field_tags unsorted" "\<exists>cs. sort_fields field_tags unsorted = Some cs"
    "\<forall>t \<in> set (concat (map field_tags unsorted)). \<forall>r \<in> set (case mo_reserved opts of Some rs \<Rightarrow> rs | None \<Rightarrow> []).
       \<not> (fst r \<le> t \<and> t \<le> snd r)"
    "mo_distinguished opts \<Longrightarrow> ignored = []"
proof -
  obtain fs mode where p: "parse_message_fields input mode (mo_reserved opts) = Ok fs"
    and f: "ignored = filter is_ignored fs" "unsorted = filter (\<lambda>f. \<not> is_ignored f) fs"
    and d: "\<not> (mo_distinguished opts \<and> ignored \<noteq> [])"
    using assms by (auto simp: check_message_def Let_def comp_def split: if_splits)
  note ok = p [unfolded parse_message_fields_Ok]
  show own: "own_tags field_tags unsorted"
    using ok number_fields_tagged unfolding own_tags_def f(2) tags_of_unignored by auto
  show "\<exists>cs. sort_fields field_tags unsorted = Some cs" using sort_fields_ok [OF own] by blast
  show "\<forall>t \<in> set (concat (map field_tags unsorted)). \<forall>r \<in> set (case mo_reserved opts of Some rs \<Rightarrow> rs | None \<Rightarrow> []).
       \<not> (fst r \<le> t \<and> t \<le> snd r)"
    using ok unfolding f(2) tags_of_unignored by blast
  show "mo_distinguished opts \<Longrightarrow> ignored = []" using d by blast
qed

lemma check_message_Ok:
  "check_message attrs input = Ok (opts, ignored, unsorted) \<longleftrightarrow>
     res_bind (bilrost_attrs attrs) (\<lambda>ms. message_attrs ms no_message_options []) = Ok (opts, []) \<and>
     \<not> (mo_default_per_field opts \<and> mo_default opts \<noteq> None) \<and>
     (\<exists>fs. parse_message_fields input (if mo_default_per_field opts then DefaultPerField else FromStructUpdate) (mo_reserved opts) = Ok fs \<and>
       \<not> (mo_distinguished opts \<and> ignored \<noteq> []) \<and>
       ignored = filter is_ignored fs \<and> unsorted = filter (\<lambda>f. \<not> is_ignored f) fs)"
  by (cases "res_bind (bilrost_attrs attrs) (\<lambda>ms. message_attrs ms no_message_options [])")
    (auto simp: check_message_def Let_def comp_def split: if_splits)

definition plain_message :: "nat \<Rightarrow> syn_field list \<Rightarrow> parsed_field list" where
  "plain_message start sfs = map (\<lambda>(k, sf). plain_field_of k (of_nat (start + k)) sf) (enumerate 0 sfs)"

lemma plain_message_tags: "concat (map field_tags (plain_message start sfs)) = map of_nat [start ..< start + length sfs]"
proof -
  have "map field_tags (plain_message start sfs) = map (\<lambda>k. [of_nat k]) [start ..< start + length sfs]"
    by (rule nth_equalityI) (simp_all add: plain_message_def plain_field_of_def field_tags_def nth_enumerate_eq)
  then show ?thesis by (simp only: concat_map_singleton)
qed

lemma plain_message_accepted:
  assumes "plain_fields sfs" and "length sfs < 2 ^ 32"
  shows "check_message [] (NamedFields sfs) = Ok (no_message_options, [], plain_message 1 sfs)"
    and "check_message [] (UnnamedFields sfs) = Ok (no_message_options, [], plain_message 0 sfs)"
proof -
  have u: "filter is_ignored (plain_message start sfs) = []" "filter (\<lambda>f. \<not> is_ignored f) (plain_message start sfs) = plain_message start sfs" for start
    by (auto simp: plain_message_def plain_field_of_def is_ignored_def filter_empty_conv filter_id_conv)
  have "distinct (concat (map field_tags (plain_message start sfs)))" if "start + length sfs \<le> 2 ^ 32" for start
    using that unfolding plain_message_tags by (auto simp: distinct_map inj_on_def word_unat_eq_iff unat_of_nat)
  moreover have "number_fields mode 0 (Some (of_nat start)) sfs = Ok (plain_message start sfs)"
    if "start + length sfs \<le> 2 ^ 32" "start < 2 ^ 32" for mode start
    using number_plain_fields [OF assms(1) that(1), of mode 0] that(2) by (simp add: plain_message_def)
  ultimately have p: "parse_message_fields input mode None = Ok (plain_message start sfs)"
    if "fields_list input = sfs" "(case input of UnnamedFields _ \<Rightarrow> 0 | _ \<Rightarrow> 1) = (of_nat start :: u32)" "start \<le> 1" for input mode start
    using that(3) assms(2) unfolding parse_message_fields_Ok that(1,2) by simp
  show "check_message [] (NamedFields sfs) = Ok (no_message_options, [], plain_message 1 sfs)"
    "check_message [] (UnnamedFields sfs) = Ok (no_message_options, [], plain_message 0 sfs)"
    using p [of "NamedFields sfs" 1] p [of "UnnamedFields sfs" 0] u
    by (simp_all add: check_message_def no_message_options_def Let_def comp_def)
qed

section \<open>Properties\<close>

text \<open>
  A list of tags denotes a set of tags, whatever its spelling: it is accepted exactly when its ranges are not
  empty or too large and no tag is listed twice, and then its tags come in ascending order.
\<close>

theorem tag_list_exact:
  "case tag_list_validate limit ranges of
     Ok rs \<Rightarrow> (\<forall>r \<in> set ranges. range_ok limit r) \<and> distinct (iter_tags ranges) \<and>
       iter_tags rs = sorted_list_of_set (\<Union>r \<in> set ranges. {fst r .. snd r})
   | Err _ \<Rightarrow> \<not> ((\<forall>r \<in> set ranges. range_ok limit r) \<and> distinct (iter_tags ranges))"
proof (cases "tag_list_validate limit ranges")
  case (Ok rs)
  then have d: "distinct (iter_tags ranges)" and ok: "\<forall>r \<in> set ranges. range_ok limit r" by (simp_all add: validate_Ok)
  have "iter_tags rs = sorted_list_of_set (set (iter_tags ranges))"
    using validate_tags(1) [OF Ok] d by (simp add: sorted_list_of_set_sort_remdups distinct_remdups_id)
  then show ?thesis using Ok d ok by (simp add: set_iter_tags)
next
  case (Err e)
  then have "\<nexists>rs. tag_list_validate limit ranges = Ok rs" by simp
  then show ?thesis using Err unfolding validate_Ok by simp
qed

theorem tag_list_exact_witness:
  "\<exists>rs. tag_list_validate (Some 100) [(4, 4), (5, 5), (1, 3)] = Ok rs \<and> iter_tags rs = [1, 2, 3, 4, 5]"
proof -
  let ?ranges = "[(4, 4), (5, 5), (1, 3)] :: tag_list"
  have ranges: "tags_of_range (4, 4) = [4]" "tags_of_range (5, 5) = [5]" "tags_of_range (1, 3) = [1, 2, 3]"
    by (simp_all add: tags_of_range_def upt_rec)
  then have tags: "iter_tags ?ranges = [4, 5, 1, 2, 3]" by simp
  have ok: "(\<forall>r \<in> set ?ranges. range_ok (Some 100) r) \<and> distinct (iter_tags ?ranges)"
    unfolding tags by (simp add: range_ok_def)
  have "(\<Union>r \<in> set ?ranges. {fst r .. snd r}) = {4, 5, 1, 2, 3}"
    unfolding set_iter_tags [symmetric] tags by simp
  moreover have "sorted_list_of_set {4, 5, 1, 2, 3 :: u32} = [1, 2, 3, 4, 5]"
    by (simp add: word_le_nat_alt)
  ultimately show ?thesis
    using tag_list_exact [of ?ranges "Some 100"] ok by (auto split: result.splits)
qed

text \<open>
  C39. The derive macro accepts a struct exactly when its own attributes can be read and do not exclude each other, those of every
  field can be read, no tag is given to two fields, none of them is reserved, and a distinguished message ignores no field. The
  fields it goes on with have tags of their own, so that their order can be computed. A struct of fewer than 2^32 fields that
  carry no attributes is always accepted, its fields numbered in their order, from one or, in a tuple struct, from zero.
\<close>

theorem message_accepted:
  "(check_message attrs input = Ok (opts, ignored, unsorted) \<longleftrightarrow>
     res_bind (bilrost_attrs attrs) (\<lambda>ms. message_attrs ms no_message_options []) = Ok (opts, []) \<and>
     \<not> (mo_default_per_field opts \<and> mo_default opts \<noteq> None) \<and>
     (\<exists>fs. number_fields (if mo_default_per_field opts then DefaultPerField else FromStructUpdate) 0
         (Some (case input of UnnamedFields _ \<Rightarrow> 0 | _ \<Rightarrow> 1)) (fields_list input) = Ok fs \<and>
       distinct (concat (map field_tags fs)) \<and>
       (\<forall>t \<in> set (concat (map field_tags fs)). \<forall>r \<in> set (case mo_reserved opts of Some rs \<Rightarrow> rs | None \<Rightarrow> []).
         \<not> (fst r \<le> t \<and> t \<le> snd r)) \<and>
       (mo_distinguished opts \<longrightarrow> ignored = []) \<and>
       ignored = filter is_ignored fs \<and> unsorted = filter (\<lambda>f. \<not> is_ignored f) fs)) \<and>
   (check_message attrs input = Ok (opts, ignored, unsorted) \<longrightarrow>
     own_tags field_tags unsorted \<and> (\<exists>cs. sort_fields field_tags unsorted = Some cs)) \<and>
   (plain_fields sfs \<and> length sfs < 2 ^ 32 \<longrightarrow>
     check_message [] (NamedFields sfs) = Ok (no_message_options, [], plain_message 1 sfs) \<and>
     check_message [] (UnnamedFields sfs) = Ok (no_message_options, [], plain_message 0 sfs))"
  using check_message_Ok [of attrs input opts ignored unsorted, unfolded parse_message_fields_Ok] message_accepted_tags [of attrs input opts ignored unsorted]
    plain_message_accepted [of sfs]
  by blast

text \<open>
  An ignored field, one with a tag, one with the next tag and a oneof, where the tags 2 and 8 to 10 are reserved. When 6 is reserved
  instead, or the message is distinguished, it is refused.
\<close>

definition sample_attrs :: "string list \<Rightarrow> (u32 \<times> u32) list \<Rightarrow> attribute list" where
  "sample_attrs words reserved = [BilrostList (Some (\<lparr>mt_path = ''reserved_tags'', mt_args = TagRanges reserved\<rparr> #
     map (\<lambda>w. \<lparr>mt_path = w, mt_args = NoArguments\<rparr>) words))]"

definition sample_struct :: syn_fields where
  "sample_struct = NamedFields
    [\<lparr>sf_name = Some ''cache'', sf_ty = ''usize'', sf_attrs = [BilrostList (Some [\<lparr>mt_path = ''ignore'', mt_args = NoArguments\<rparr>])]\<rparr>,
     \<lparr>sf_name = Some ''a'', sf_ty = ''u32'', sf_attrs = [BilrostTag (Some 5)]\<rparr>,
     \<lparr>sf_name = Some ''b'', sf_ty = ''String'', sf_attrs = []\<rparr>,
     \<lparr>sf_name = Some ''c'', sf_ty = ''Shape'', sf_attrs = [BilrostList (Some [\<lparr>mt_path = ''oneof'', mt_args = TagRanges [(3, 4), (1, 1)]\<rparr>])]\<rparr>]"

definition sample_fields :: "parsed_field list" where
  "sample_fields = [\<lparr>pf_ident = Name ''a'', pf_content = ValueField \<lparr>sg_tag = 5,
       sg_value = \<lparr>vt_ty = ''u32'', vt_encoding = ''general'', vt_recurses = False\<rparr>, sg_enumeration = None\<rparr>\<rparr>,
     \<lparr>pf_ident = Name ''b'', pf_content = ValueField \<lparr>sg_tag = 6,
       sg_value = \<lparr>vt_ty = ''String'', vt_encoding = ''general'', vt_recurses = False\<rparr>, sg_enumeration = None\<rparr>\<rparr>,
     \<lparr>pf_ident = Name ''c'', pf_content = OneofField \<lparr>oi_ty = ''Shape'', oi_tags = [1, 3, 4]\<rparr>\<rparr>]"

definition sample_ignored :: "parsed_field list" where
  "sample_ignored = [\<lparr>pf_ident = Name ''cache'', pf_content = IgnoredField \<lparr>ig_ty = ''usize'', ig_init_mode = FromStructUpdate\<rparr>\<rparr>]"

lemma sample_accepted:
  "check_message (sample_attrs [] [(8, 10), (2, 2)]) sample_struct =
     Ok (no_message_options\<lparr>mo_reserved := Some [(2, 2), (8, 10)]\<rparr>, sample_ignored, sample_fields)"
  by code_simp

lemma sample_reserved:
  "check_message (sample_attrs [] [(6, 6)]) sample_struct = Err (HasReservedTag (Name ''b'') 6)"
  by code_simp

lemma sample_distinguished:
  "check_message (sample_attrs [''distinguished''] [(8, 10), (2, 2)]) sample_struct = Err IgnoredDistinguished"
  by code_simp

theorem message_accepted_witness:
  "own_tags field_tags sample_fields \<and> (\<exists>cs. sort_fields field_tags sample_fields = Some cs) \<and>
   check_message (sample_attrs [] [(8, 10), (2, 2)]) sample_struct =
     Ok (no_message_options\<lparr>mo_reserved := Some [(2, 2), (8, 10)]\<rparr>, sample_ignored, sample_fields) \<and>
   check_message (sample_attrs [] [(6, 6)]) sample_struct = Err (HasReservedTag (Name ''b'') 6) \<and>
   check_message (sample_attrs [''distinguished''] [(8, 10), (2, 2)]) sample_struct = Err IgnoredDistinguished \<and>
   check_message [] (UnnamedFields [\<lparr>sf_name = None, sf_ty = ''u8'', sf_attrs = [OtherAttribute]\<rparr>]) =
     Ok (no_message_options, [], [plain_field_of 0 0 \<lparr>sf_name = None, sf_ty = ''u8'', sf_attrs = [OtherAttribute]\<rparr>])"
  using message_accepted [of "sample_attrs [] [(8, 10), (2, 2)]" sample_struct "no_message_options\<lparr>mo_reserved := Some [(2, 2), (8, 10)]\<rparr>"
      sample_ignored sample_fields "[\<lparr>sf_name = None, sf_ty = ''u8'', sf_attrs = [OtherAttribute]\<rparr>]"]
  by (simp add: sample_accepted sample_reserved sample_distinguished plain_fields_def plain_message_def)

end
