(* ===== verification/Spec2Isabelle.thy ===== *)
theory Spec2Isabelle
  imports Buffer_Runs Instances Map_Properties Value_Properties Oneof_Properties Enumerations Time_Properties Opaque_Properties
    Conversion_Properties Derive_Properties
begin

text \<open>
  A verification development for bilrost, a serialization library: an encoding with tagged fields, in which every
  value also has one canonical (distinguished) encoding.

  The parts of the program and how they interact. A message is encoded forwards into a \<^verbatim>\<open>BufMut\<close> or backwards into a
  \<^verbatim>\<open>ReverseBuf\<close>; its bytes are a sequence of fields, each a varint key (the difference to the tag before, and a
  wire type) and a value. An \<open>encoding\<close> is a marker type that selects, through traits, how a Rust type is written
  as a value or a field; encodings of collections are built from encodings of their elements. The derive
  macros compose the encodings of the fields of a struct into a \<^verbatim>\<open>RawMessage\<close>, sorting them by tag at
  compile time where that is possible and at run time where oneofs interleave. \<^verbatim>\<open>message.rs\<close> is the interface on
  top of that.

  Theories and what they model.
  \<^item> \<open>Prelude\<close>: machine integers, \<^verbatim>\<open>error.rs\<close>, results and panics. A decoder is an \<open>outcome\<close>: \<open>Done\<close>, \<open>Fail\<close> with an
    error kind, or \<open>Panic\<close>. An encoder is an option, \<open>None\<close> being a panic.
  \<^item> \<open>Buffers\<close>, \<open>Reverse_Buffer\<close>, \<open>Buffer_Runs\<close>: the traits \<^verbatim>\<open>Buf\<close> and \<^verbatim>\<open>ReverseBuf\<close> as records of operations with the contracts
    \<open>buf_contract\<close> and \<open>rev_buf_contract\<close>, and \<^verbatim>\<open>ReverseBuffer\<close> of \<^verbatim>\<open>buf.rs\<close> with its uninitialised memory. Every other
    theory prepends to any \<open>rev_buf_contract\<close>; \<open>Reverse_Buffer\<close> shows that the buffer of the code is one. Its operations
    take a \<open>target\<close>, which says when sums of sizes overflow and allocations are refused; the contract is that of the
    \<open>Unbounded\<close> target, and \<open>Buffer_Runs\<close> shows that the operations on 64 bits are the same below two to the power of
    61 bytes, and that all of them together act as on a plain byte string.
  \<^item> \<open>Varint\<close>, \<open>Wire\<close>, \<open>Canonicity\<close>: \<^verbatim>\<open>encoding/mod.rs\<close>: varints, keys, tag writers and measurers, delimited
    regions (\<^verbatim>\<open>Capped\<close>), skipping, the canonicity lattice and the recursion limit.
  \<^item> \<open>Codec\<close>, \<open>Varint_Values\<close>, \<open>Fixed\<close>, \<open>Plain_Bytes\<close>, \<open>Collections\<close>, \<open>Packed\<close>, \<open>Field_Laws\<close>: the traits of values and
    fields as records of operations (\<open>codec\<close>, \<open>field_codec\<close>, \<open>empty_state\<close>, \<open>collection\<close>), the encodings
    \<^verbatim>\<open>varint.rs\<close>, \<^verbatim>\<open>fixed.rs\<close>, \<^verbatim>\<open>plain_bytes.rs\<close>, \<^verbatim>\<open>packed.rs\<close>, \<^verbatim>\<open>unpacked.rs\<close>, and the contracts they keep.
  \<^item> \<open>Field_Order\<close>: the compile-time chunking of fields and the run-time sorting of \<^verbatim>\<open>bilrost-derive/src/field/mod.rs\<close>.
  \<^item> \<open>Derive_Checks\<close>, \<open>Derive_Properties\<close>: what the derive macros check before they generate code: the attributes of messages,
    fields, oneofs and variants, the inferred numbers of fields, duplicate and reserved tags (\<^verbatim>\<open>bilrost-derive/src/attrs.rs\<close>,
    the constructors in \<^verbatim>\<open>bilrost-derive/src/field\<close>, and \<^verbatim>\<open>lib.rs\<close>). The fields they accept are those \<open>Field_Order\<close> can order.
  \<^item> \<open>Message_Codec\<close>, \<open>Derived_Message\<close>, \<open>Derived_Laws\<close>, \<open>Message_Api\<close>: \<^verbatim>\<open>encoding/message.rs\<close>, the code that
    \<^verbatim>\<open>#[derive(Message)]\<close> generates, and the interface \<^verbatim>\<open>message.rs\<close>.
  \<^item> \<open>Maps\<close>, \<open>Map_Properties\<close>, \<open>Strings\<close>: \<^verbatim>\<open>map.rs\<close> over any mapping, the ordered map, and the general encoding of text
    and blobs in \<^verbatim>\<open>general.rs\<close>, with UTF-8.
  \<^item> \<open>Oneof\<close>, \<open>Oneof_Laws\<close>, \<open>Single_Field\<close>, \<open>Oneof_Properties\<close>, \<open>Enumerations\<close>: the traits of \<^verbatim>\<open>encoding/oneof.rs\<close>, what
    \<^verbatim>\<open>#[derive(Oneof)]\<close>, \<^verbatim>\<open>#[derive(Message)]\<close> on an enum and \<^verbatim>\<open>#[derive(Enumeration)]\<close> generate, and the enum and struct
    of the README that use them.
  \<^item> \<open>Dynamic_Value\<close>, \<open>Value_Recursion\<close>, \<open>Value_Properties\<close>: the mutually recursive \<^verbatim>\<open>Value\<close>, \<^verbatim>\<open>StructValue\<close> and \<^verbatim>\<open>ListValue\<close> of
    \<^verbatim>\<open>bilrost-types\<close>. Their implementations call each other; the model unfolds them as far as the value nests, or
    as far as the recursion limit of the context allows, and shows that this satisfies the recursive definition.
  \<^item> \<open>Time_Messages\<close>, \<open>Struct_Properties\<close>, \<open>Instances\<close>: \<^verbatim>\<open>Duration\<close> and \<^verbatim>\<open>Timestamp\<close> of \<^verbatim>\<open>bilrost-types\<close>, the properties of
    all derived structs, and the contracts instantiated with the encodings of the code.
  \<^item> \<open>Calendar\<close>, \<open>Calendar_Laws\<close>, \<open>Time_Operations\<close>, \<open>Time_Text\<close>, \<open>Time_Text_Laws\<close>, \<open>Time_Properties\<close>: the operations on times of
    \<^verbatim>\<open>bilrost-types\<close> in \<^verbatim>\<open>lib.rs\<close> and \<^verbatim>\<open>datetime.rs\<close>. The calendar is compared with a reference that counts days; texts are
    displayed and parsed, where a slice beyond the end of a text, or an overflow, is a panic of the model.
  \<^item> \<open>Flat_Iteration\<close>, \<open>Opaque\<close>, \<open>Opaque_Laws\<close>, \<open>Opaque_Properties\<close>: the flattening iterators of \<^verbatim>\<open>iter.rs\<close> and the opaque
    values and messages of \<^verbatim>\<open>opaque.rs\<close>. An opaque message is the list of the entries of its \<^verbatim>\<open>BTreeMap\<close>, in order. The
    well-formed ones are shown to be in bijection with the byte strings that decode.
  \<^item> \<open>Underived\<close>, \<open>Underived_Laws\<close>, \<open>Tuples\<close>, \<open>Ranges\<close>, \<open>Tuple_Properties\<close>: the macros of \<^verbatim>\<open>underived.rs\<close> for messages written
    out by hand, the tuples of \<^verbatim>\<open>tuple.rs\<close> for any list of elements, the ranges of \<^verbatim>\<open>range_as_tuple.rs\<close>, and the proxy of
    a time delta in \<^verbatim>\<open>common.rs\<close>. They are related to derived messages, and where they depart from them is shown too.
  \<^item> \<open>Proxies\<close>, \<open>Array_Proxies\<close>: proxied encodings (\<^verbatim>\<open>proxy.rs\<close>), the array that stands for a value in packed form
    (\<^verbatim>\<open>local_proxy.rs\<close>), and the \<^verbatim>\<open>core::time::Duration\<close> of \<^verbatim>\<open>general.rs\<close>. A proxied encoding keeps the contract of an
    encoding where the two conversions of the proxy do (locales \<open>proxy_contract\<close>, \<open>array_conversion\<close>).
  \<^item> \<open>Chrono_Types\<close>, \<open>Zone_Types\<close>, \<open>Time_Crate_Types\<close>, \<open>Delta_Laws\<close>, \<open>Conversion_Properties\<close>: the encodings of the types of the
    crates chrono and time (\<^verbatim>\<open>type_support/chrono.rs\<close>, \<^verbatim>\<open>type_support/time.rs\<close>). The functions of these crates are
    records of parameters. What their documentation says of them are the hypotheses \<open>naive_date_documented\<close>,
    \<open>fixed_offset_documented\<close> and so on; the last theory gives functions that satisfy them.

  Bounds. The varint loops run at most nine times. The loops over a buffer take a fuel of one more than its
  length, and each round consumes a byte; the proofs that decoders never panic include that the fuel is
  never used up.

  Not modelled: the reading of tokens by \<^verbatim>\<open>syn\<close>, and the attributes of a derived enumeration; the names a decode error
  collects on its way out; the borrowed decoders of derived messages, which are the owned ones run on slices; fields
  that are arrays of fixed size; the macros that only give an encoding a second name; the encodings of byte strings,
  vectors and maps of other crates, and the conversions of the well-known types with \<^verbatim>\<open>serde_json\<close>.
\<close>

end
